(* ===== verification/Prelude.thy ===== *)
theory Prelude
  imports Main "HOL-Library.Word" "HOL-Library.AList"
begin

text \<open>
  Shared vocabulary of the development: the error values of the Go packages, the result
  type of fallible functions, Go's machine-integer arithmetic, the shareholder identifier,
  and the list and sum lemmas that the component theories use.
\<close>

section \<open>Errors and results\<close>

text \<open>
  The sentinel errors of the packages modelled. \<open>errs.Wrap\<close> keeps the sentinel of the error it
  wraps, so a wrapped error is the same value here; sentinels of the same name in different packages are identified. \<open>Panic\<close> is a Go panic that leaves the
  modelled function, \<open>ErrPrng\<close> the error of a randomness source that ran dry, \<open>ErrTransport\<close> that of
  a transport that delivers no more messages. \<open>Blame id e\<close> is the error \<open>e\<close> with the tag
  \<open>base.IdentifiableAbortPartyIDTag\<close> that names the party \<open>id\<close>,
  \<open>ErrRecovered\<close> the error a recovered panic is turned into.
\<close>

datatype err =
    ErrIsNil | ErrValue | ErrMembership | ErrType | ErrFailed | ErrSerialisation | ErrOverflow
  | ErrArgument | ErrUnsupportedType | ErrVerification | ErrUnauthorized | ErrIsZero
  | ErrDimension | ErrValidation | ErrLengthMismatch | ErrDivisionByZero | ErrNotSupported
  | ErrInvalidArgument | ErrVerificationFailed | ErrIsIdentity | ErrMissing | ErrLength | ErrReceiveBufferFull
  | ErrNil | ErrInvalid | ErrInvalidLength | ErrNotAtLeastOneOutOfN | ErrValidationFails | ErrValidationFailed
  | ErrDuplicateMessage | ErrTransport | ErrRound | ErrAbort | ErrPrng | Panic | ErrRecovered
  | Blame "64 word" err

type_synonym 'a res = "err + 'a"

text \<open>The early return \<open>if err != nil { return err }\<close> between two calls.\<close>

definition rbind :: "'a res \<Rightarrow> ('a \<Rightarrow> 'b res) \<Rightarrow> 'b res" where
  "rbind m f = (case m of Inl e \<Rightarrow> Inl e | Inr x \<Rightarrow> f x)"

lemma rbind_Inl [simp]: "rbind (Inl e) f = Inl e"
  by (simp add: rbind_def)

lemma rbind_Inr [simp]: "rbind (Inr x) f = f x"
  by (simp add: rbind_def)

lemma rbind_eq_Inr_iff: "rbind m f = Inr y \<longleftrightarrow> (\<exists>x. m = Inr x \<and> f x = Inr y)"
  by (cases m) simp_all

lemma rbind_InrE [elim!]:
  assumes "rbind m f = Inr y"
  obtains x where "m = Inr x" and "f x = Inr y"
  using assms by (auto simp: rbind_eq_Inr_iff)

lemma rbind_assoc: "rbind (rbind m f) g = rbind m (\<lambda>x. rbind (f x) g)"
  by (cases m) simp_all

lemma rbind_cong [fundef_cong]:
  "m = m' \<Longrightarrow> (\<And>x. m' = Inr x \<Longrightarrow> f x = f' x) \<Longrightarrow> rbind m f = rbind m' f'"
  by (cases m') simp_all

definition is_ok :: "'a res \<Rightarrow> bool" where
  "is_ok m = (case m of Inl _ \<Rightarrow> False | Inr _ \<Rightarrow> True)"

lemma is_ok_simps [simp]: "is_ok (Inr x)" "\<not> is_ok (Inl e)"
  by (simp_all add: is_ok_def)

lemma is_ok_iff: "is_ok m \<longleftrightarrow> (\<exists>x. m = Inr x)"
  by (cases m) simp_all

section \<open>Identifiers, machine integers\<close>

text \<open>\<open>sharing.ID\<close> is a \<open>uint64\<close>.\<close>

type_synonym ID = "64 word"

text \<open>
  Go's \<open>int\<close> on the supported platforms has 64 bits and wraps around; \<open>/\<close> truncates towards
  zero.
\<close>

definition wrap64 :: "int \<Rightarrow> int" where
  "wrap64 x = (x + 2 ^ 63) mod 2 ^ 64 - 2 ^ 63"

definition go_div :: "int \<Rightarrow> int \<Rightarrow> int" where
  "go_div a b = sgn a * sgn b * (\<bar>a\<bar> div \<bar>b\<bar>)"

lemma wrap64_id: "- (2 ^ 63) \<le> x \<Longrightarrow> x < 2 ^ 63 \<Longrightarrow> wrap64 x = x"
  by (simp add: wrap64_def)

lemma go_div_nonneg: "0 \<le> a \<Longrightarrow> 0 < b \<Longrightarrow> go_div a b = a div b"
  by (cases "a = 0") (simp_all add: go_div_def)

section \<open>Loops over ranges\<close>

text \<open>
  A Go accumulation loop over \<open>range n\<close> is a fold over \<open>[0..<n]\<close>; the next lemmas read such a
  loop as a finite sum.
\<close>

named_theorems loop_simps \<open>accumulation loops as sums, folds of array writes as tabulations\<close>

lemma fold_add_sum [loop_simps]:
  fixes f :: "nat \<Rightarrow> 'a::comm_monoid_add"
  shows "fold (\<lambda>k s. s + f k) [0..<n] a = a + (\<Sum>k<n. f k)"
  by (induction n) (simp_all add: add.assoc)

lemma fold_add_list [loop_simps]:
  fixes f :: "'b \<Rightarrow> 'a::comm_monoid_add"
  shows "fold (\<lambda>k s. s + f k) xs a = a + (\<Sum>k\<leftarrow>xs. f k)"
  by (induction xs arbitrary: a) (simp_all add: add.assoc)

lemma fold_mult_list [loop_simps]:
  fixes f :: "'b \<Rightarrow> 'a::comm_monoid_mult"
  shows "fold (\<lambda>k s. s * f k) xs a = a * (\<Prod>k\<leftarrow>xs. f k)"
  by (induction xs arbitrary: a) (simp_all add: mult.assoc)

lemma sum_list_upt [simp]:
  fixes f :: "nat \<Rightarrow> 'a::comm_monoid_add"
  shows "(\<Sum>k\<leftarrow>[0..<n]. f k) = (\<Sum>k<n. f k)"
  by (induction n) (simp_all add: add.commute)

lemma sum_single:
  fixes f :: "nat \<Rightarrow> 'a::comm_monoid_add"
  assumes "k < n" and "\<And>i. i < n \<Longrightarrow> i \<noteq> k \<Longrightarrow> f i = 0"
  shows "(\<Sum>i<n. f i) = f k"
proof -
  have "(\<Sum>i<n. f i) = (\<Sum>i\<in>{k}. f i)"
    using assms by (intro sum.mono_neutral_right) auto
  then show ?thesis by simp
qed

section \<open>Row-major storage\<close>

text \<open>
  Matrices live in one flat slice; entry \<open>(i, j)\<close> of a matrix with \<open>c\<close> columns has index
  \<open>i * c + j\<close>.
\<close>

lemma flat_less: "i < r \<Longrightarrow> j < c \<Longrightarrow> i * c + j < r * (c::nat)"
proof -
  assume "i < r" and "j < c"
  then have "i * c + j < i * c + c" by simp
  also have "\<dots> = Suc i * c" by simp
  also have "\<dots> \<le> r * c" using \<open>i < r\<close> by (intro mult_le_mono1) simp
  finally show ?thesis .
qed

lemma flat_eq_iff:
  assumes "j < c" "j' < (c::nat)"
  shows "i * c + j = i' * c + j' \<longleftrightarrow> i = i' \<and> j = j'"
proof
  assume eq: "i * c + j = i' * c + j'"
  have "(i * c + j) div c = i" "(i' * c + j') div c = i'"
    using assms by simp_all
  with eq have "i = i'" by metis
  with eq show "i = i' \<and> j = j'" by simp
qed simp

lemma flat_div_mod [simp]: "j < (c::nat) \<Longrightarrow> (i * c + j) div c = i" "j < c \<Longrightarrow> (i * c + j) mod c = j"
  by simp_all

lemma length_concat_const:
  "(\<And>xs. xs \<in> set xss \<Longrightarrow> length xs = c) \<Longrightarrow> length (concat xss) = length xss * c"
  by (induction xss) simp_all

lemma nth_concat_const:
  assumes "\<And>xs. xs \<in> set xss \<Longrightarrow> length xs = c" and "i < length xss" and "j < c"
  shows "concat xss ! (i * c + j) = xss ! i ! j"
  using assms
proof (induction xss arbitrary: i)
  case Nil
  then show ?case by simp
next
  case (Cons xs xss)
  have len: "length xs = c" using Cons.prems(1) by simp
  show ?case
  proof (cases i)
    case 0
    with len Cons.prems(3) show ?thesis by (simp add: nth_append)
  next
    case (Suc i')
    then have "concat (xs # xss) ! (i * c + j) = concat xss ! (i' * c + j)"
      using len by (simp add: nth_append)
    also have "\<dots> = xss ! i' ! j"
      using Cons.prems Suc by (intro Cons.IH) simp_all
    finally show ?thesis using Suc by simp
  qed
qed

text \<open>Writing every cell of a slice in a loop builds the tabulated slice.\<close>

lemma fold_update_length [simp]: "length (fold (\<lambda>k d. d[g k := h k d]) ks d) = length d"
  by (induction ks arbitrary: d) simp_all

lemma fold_update_other:
  "(\<And>k. k \<in> set ks \<Longrightarrow> g k \<noteq> i) \<Longrightarrow> fold (\<lambda>k d. d[g k := h k d]) ks d ! i = d ! i"
  by (induction ks arbitrary: d) simp_all

lemma fold_update_at:
  assumes "inj_on g (set ks)" "distinct ks" "k \<in> set ks" "g k < length d"
    and "\<And>e k. k \<in> set ks \<Longrightarrow> length e = length d \<Longrightarrow>
           (\<forall>i. i \<notin> g ` (set ks - {k}) \<longrightarrow> e ! i = d ! i) \<Longrightarrow> h k e = h k d"
  shows "fold (\<lambda>k d. d[g k := h k d]) ks d ! g k = h k d"
  using assms
proof (induction ks rule: rev_induct)
  case Nil
  then show ?case by simp
next
  case (snoc x xs)
  let ?e = "fold (\<lambda>k d. d[g k := h k d]) xs d"
  have inj: "inj_on g (set xs)" and dist: "distinct xs" "x \<notin> set xs"
    using snoc.prems(1,2) by (auto intro: inj_on_subset)
  show ?case
  proof (cases "k = x")
    case True
    have "h x ?e = h x d"
    proof (rule snoc.prems(5))
      show "\<forall>i. i \<notin> g ` (set (xs @ [x]) - {x}) \<longrightarrow> ?e ! i = d ! i"
      proof (intro allI impI)
        fix i assume "i \<notin> g ` (set (xs @ [x]) - {x})"
        then show "?e ! i = d ! i"
          using dist(2) by (intro fold_update_other) auto
      qed
    qed simp_all
    then show ?thesis using True snoc.prems(4) by simp
  next
    case False
    then have k: "k \<in> set xs" using snoc.prems(3) by simp
    have "g x \<noteq> g k" using False k snoc.prems(1) by (auto simp: inj_on_def)
    then have "fold (\<lambda>k d. d[g k := h k d]) (xs @ [x]) d ! g k = ?e ! g k" by simp
    also have "\<dots> = h k d"
    proof (rule snoc.IH [OF inj dist(1) k snoc.prems(4)])
      fix e k'
      assume "k' \<in> set xs" "length e = length d" "\<forall>i. i \<notin> g ` (set xs - {k'}) \<longrightarrow> e ! i = d ! i"
      then show "h k' e = h k' d" by (intro snoc.prems(5)) auto
    qed
    finally show ?thesis .
  qed
qed

lemma sort_eq_Nil_iff [simp]: "sort xs = [] \<longleftrightarrow> xs = []"
  by (metis length_0_conv length_sort)

section \<open>Sequencing over slices\<close>

text \<open>\<open>sliceutils.MapOrError\<close> and \<open>sliceutils.FoldOrError\<close>: stop at the first error.\<close>

fun MapOrError :: "('a \<Rightarrow> 'b res) \<Rightarrow> 'a list \<Rightarrow> 'b list res" where
  "MapOrError f [] = Inr []"
| "MapOrError f (x # xs) =
     rbind (f x) (\<lambda>y. rbind (MapOrError f xs) (\<lambda>ys. Inr (y # ys)))"

fun FoldOrError :: "('u \<Rightarrow> 'a \<Rightarrow> 'u res) \<Rightarrow> 'u \<Rightarrow> 'a list \<Rightarrow> 'u res" where
  "FoldOrError f acc [] = Inr acc"
| "FoldOrError f acc (x # xs) = rbind (f acc x) (\<lambda>acc'. FoldOrError f acc' xs)"

lemma MapOrError_Inr_iff:
  "MapOrError f xs = Inr ys \<longleftrightarrow> list_all2 (\<lambda>x y. f x = Inr y) xs ys"
  by (induction xs arbitrary: ys) (auto simp: rbind_eq_Inr_iff list_all2_Cons1)

lemma MapOrError_ok: "(\<And>x. x \<in> set xs \<Longrightarrow> f x = Inr (g x)) \<Longrightarrow> MapOrError f xs = Inr (map g xs)"
  by (induction xs) simp_all

lemma MapOrError_map: "MapOrError f (map g xs) = MapOrError (\<lambda>x. f (g x)) xs"
  by (induction xs) simp_all

lemma MapOrError_guard:
  "(\<And>i y. i \<in> set xs \<Longrightarrow> f i = Inr y \<longleftrightarrow> y = g i \<and> P i) \<Longrightarrow>
     MapOrError f xs = Inr ys \<longleftrightarrow> ys = map g xs \<and> (\<forall>i\<in>set xs. P i)"
  by (induction xs arbitrary: ys) (auto simp: rbind_eq_Inr_iff)

lemma FoldOrError_cong:
  "(\<And>acc x. x \<in> set xs \<Longrightarrow> f acc x = g acc x) \<Longrightarrow> FoldOrError f a xs = FoldOrError g a xs"
  by (induction xs arbitrary: a) (auto intro: rbind_cong)

lemma FoldOrError_append:
  "FoldOrError f acc (xs @ ys) = rbind (FoldOrError f acc xs) (\<lambda>acc'. FoldOrError f acc' ys)"
  by (induction xs arbitrary: acc) (simp_all add: rbind_assoc)

section \<open>Randomness\<close>

text \<open>
  The randomness source is the list of the samples it will still deliver; a source that ran dry
  fails.
\<close>

fun draw :: "nat \<Rightarrow> 'a list \<Rightarrow> ('a list \<times> 'a list) res" where
  "draw 0 prng = Inr ([], prng)"
| "draw (Suc n) [] = Inl ErrPrng"
| "draw (Suc n) (x # prng) = rbind (draw n prng) (\<lambda>(xs, rest). Inr (x # xs, rest))"

lemma draw_Inr_iff: "draw n prng = Inr (xs, rest) \<longleftrightarrow> prng = xs @ rest \<and> length xs = n"
proof (induction n arbitrary: prng xs)
  case (Suc n)
  show ?case
  proof (cases prng)
    case (Cons x prng')
    then have "draw (Suc n) prng = Inr (xs, rest) \<longleftrightarrow> (\<exists>ys. draw n prng' = Inr (ys, rest) \<and> xs = x # ys)"
      by (cases "draw n prng'") auto
    with Suc Cons show ?thesis by (auto simp: length_Suc_conv)
  qed auto
qed auto

lemma draw_ok: "n \<le> length prng \<Longrightarrow> draw n prng = Inr (take n prng, drop n prng)"
  by (simp add: draw_Inr_iff)

section \<open>Association lists\<close>

text \<open>A translation of the samples; it keeps their number and has an inverse, so that a statement about a shifted
  list of samples is one about equally likely samples.\<close>

definition prng_shift :: "('a::ab_group_add) list \<Rightarrow> 'a list \<Rightarrow> 'a list" where
  "prng_shift \<delta> prng = map (\<lambda>i. if i < length \<delta> then prng ! i + \<delta> ! i else prng ! i) [0..<length prng]"

lemma prng_shift_length [simp]: "length (prng_shift \<delta> prng) = length prng"
  by (simp add: prng_shift_def)

lemma prng_shift_nth [simp]:
  "i < length prng \<Longrightarrow> prng_shift \<delta> prng ! i = (if i < length \<delta> then prng ! i + \<delta> ! i else prng ! i)"
  by (simp add: prng_shift_def)

lemma prng_shift_inverse: "prng_shift (map uminus \<delta>) (prng_shift \<delta> prng) = prng"
  by (rule nth_equalityI) simp_all

lemma prng_shift_drop: "length \<delta> \<le> n \<Longrightarrow> drop n (prng_shift \<delta> prng) = drop n prng"
  by (rule nth_equalityI) simp_all

lemma update_new_key: "k \<notin> fst ` set al \<Longrightarrow> AList.update k v al = al @ [(k, v)]"
  by (induction al) auto

section \<open>Maps of flags\<close>

text \<open>
  The data-transfer objects hold a set of identifiers as a map to \<open>true\<close>, filled by a loop
  \<open>for p := range ps { m[p] = true }\<close>.
\<close>

definition flag_map :: "'k list \<Rightarrow> ('k \<times> bool) list" where
  "flag_map ps = fold (\<lambda>p m. AList.update p True m) ps []"

lemma flag_map_keys:
  assumes "distinct ps"
  shows "map fst (flag_map ps) = ps"
proof -
  have "map fst (fold (\<lambda>p m. AList.update p True m) ps m) = map fst m @ ps"
    if "distinct ps" "set ps \<inter> fst ` set m = {}" for m
    using that
  proof (induction ps arbitrary: m)
    case (Cons p ps)
    then have "map fst (AList.update p True m) = map fst m @ [p]" by (simp add: update_keys)
    moreover from this have "fst ` set (AList.update p True m) = insert p (fst ` set m)"
      by (metis Un_insert_right list.set_map list.simps(15) set_append empty_set sup_bot_right)
    ultimately show ?case using Cons by simp
  qed simp
  from this [of "[]"] assms show ?thesis by (simp add: flag_map_def)
qed

lemma flag_map_key_set [simp]: "distinct ps \<Longrightarrow> fst ` set (flag_map ps) = set ps"
  by (metis flag_map_keys list.set_map)

end
