(* ===== verification/Algebrautils.thy ===== *)
theory Algebrautils
  imports Prelude
begin

text \<open>
  Generic algorithms over algebraic structures (\<open>pkg/base/utils/algebrautils\<close>): rejection sampling,
  folds, fixed-window and binary scalar multiplication, and Pippenger's bucket method for
  multi-scalar multiplication. Scalars enter as big-endian byte strings, as \<open>BytesBE\<close> gives them.
\<close>

unbundle bit_operations_syntax

section \<open>Sampling and folds\<close>

text \<open>
  \<open>Random\<close> draws until every predicate holds. The source of randomness is the list of the samples it
  will still deliver.
\<close>

fun Random :: "('e \<Rightarrow> bool) list \<Rightarrow> 'e list \<Rightarrow> ('e \<times> 'e list) res" where
  "Random predicates [] = Inl ErrPrng"
| "Random predicates (out # prng) =
     (if length predicates = 0 \<or> list_all (\<lambda>p. p out) predicates then Inr (out, prng)
      else Random predicates prng)"

definition RandomNonIdentity :: "('e::zero) list \<Rightarrow> ('e \<times> 'e list) res" where
  "RandomNonIdentity prng = Random [\<lambda>e. e \<noteq> 0] prng"

definition RandomTorsionFreeNonIdentity ::
  "(('e::zero) \<Rightarrow> bool) \<Rightarrow> 'e list \<Rightarrow> ('e \<times> 'e list) res" where
  "RandomTorsionFreeNonIdentity isTorsionFree prng = Random [\<lambda>e. e \<noteq> 0 \<or> isTorsionFree e] prng"

definition alg_Sum :: "('e::plus) \<Rightarrow> 'e list \<Rightarrow> 'e" where
  "alg_Sum first rest = (if length rest = 0 then first else foldl (\<lambda>acc e. acc + e) first rest)"

definition alg_Prod :: "('e::times) \<Rightarrow> 'e list \<Rightarrow> 'e" where
  "alg_Prod first rest = (if length rest = 0 then first else foldl (\<lambda>acc e. acc * e) first rest)"

definition alg_Fold :: "('e::plus) \<Rightarrow> 'e list \<Rightarrow> 'e" where
  "alg_Fold first rest = (if length rest = 0 then first else foldl (\<lambda>acc e. acc + e) first rest)"

text \<open>\<open>Op\<close> and \<open>OpValues\<close> of \<open>op.go\<close>: the group operation on wrapped and on plain elements, after nil and
  membership checks; \<open>contains\<close> is the group's \<open>Contains\<close>, \<open>value\<close> reads the element a wrapper holds, nil is \<open>None\<close>.\<close>

definition alg_Op ::
  "(('v::plus) \<Rightarrow> 't res) \<Rightarrow> ('t \<Rightarrow> 'v) \<Rightarrow> ('v \<Rightarrow> bool) \<Rightarrow> 't option \<Rightarrow> 't option \<Rightarrow> 't option list \<Rightarrow> 't res" where
  "alg_Op newFunc value contains first second rest =
     (case (first, second) of
        (Some f, Some s) \<Rightarrow>
          if \<not> contains (value f) \<or> \<not> contains (value s) then Inl ErrInvalidArgument
          else rbind (MapOrError (\<lambda>w. case w of None \<Rightarrow> Inl ErrIsNil | Some w \<Rightarrow> Inr (value w)) rest) (\<lambda>restValues.
            if list_ex (\<lambda>v. \<not> contains v) restValues then Inl ErrInvalidArgument
            else newFunc (alg_Fold (value f + value s) restValues))
      | _ \<Rightarrow> Inl ErrIsNil)"

definition OpValues :: "(('v::plus) \<Rightarrow> bool) \<Rightarrow> 'v option \<Rightarrow> 'v option \<Rightarrow> 'v option list \<Rightarrow> 'v res" where
  "OpValues contains first second rest =
     (case (first, second) of
        (Some f, Some s) \<Rightarrow>
          if \<not> contains f \<or> \<not> contains s then Inl ErrInvalidArgument
          else if length rest > 0 \<and> list_ex (\<lambda>v. v = None) rest then Inl ErrIsNil
          else if length rest > 0 \<and> \<not> list_all (\<lambda>v. contains (the v)) rest then Inl ErrInvalidArgument
          else Inr (alg_Fold (f + s) (map the rest))
      | _ \<Rightarrow> Inl ErrIsNil)"

text \<open>Double-and-add over operations that may fail. The scalar is a natural number together with its announced
  bit length; \<open>op\<close> is the binary use of the variadic operation.\<close>

definition ScalarOpUnsignedNumeric ::
  "('t \<Rightarrow> 't res) \<Rightarrow> ('t \<Rightarrow> 't \<Rightarrow> 't res) \<Rightarrow> 't option \<Rightarrow> nat \<Rightarrow> nat \<Rightarrow> 't res" where
  "ScalarOpUnsignedNumeric opinv op x announcedLen n =
     (case x of
        None \<Rightarrow> Inl ErrIsNil
      | Some x \<Rightarrow>
          rbind (opinv x) (\<lambda>xInv.
          rbind (op x xInv) (\<lambda>result.
          rbind (FoldOrError (\<lambda>(result, cursor) i.
              rbind (if bit n i then op result cursor else Inr result) (\<lambda>result.
              rbind (op cursor cursor) (\<lambda>cursor. Inr (result, cursor))))
            (result, x) [0..<announcedLen]) (\<lambda>(result, cursor). Inr result))))"

definition ScalarOpSignedNumeric ::
  "('t \<Rightarrow> 't res) \<Rightarrow> ('t \<Rightarrow> 't \<Rightarrow> 't res) \<Rightarrow> 't option \<Rightarrow> nat \<Rightarrow> int \<Rightarrow> 't res" where
  "ScalarOpSignedNumeric opinv op x announcedLen z =
     (if x = None then Inl ErrIsNil
      else rbind (ScalarOpUnsignedNumeric opinv op x announcedLen (nat \<bar>z\<bar>)) (\<lambda>out.
        if z < 0 then opinv out else Inr out))"

section \<open>Scalar multiplication\<close>

text \<open>The fixed-window method, over the operation and the identity of the structure of the base element. The table
  \<open>precomputed\<close>: entries 0 and 1, then pairs from half the index.\<close>

definition precompute_on :: "('e \<Rightarrow> 'e \<Rightarrow> 'e) \<Rightarrow> 'e \<Rightarrow> 'e \<Rightarrow> 'e list" where
  "precompute_on op e base =
     fold (\<lambda>i t. let t = t[2 * i := op (t ! i) (t ! i)] in t[2 * i + 1 := op (t ! (2 * i)) base])
       [1..<8] ([e, base] @ replicate 14 e)"

definition quad_double_on :: "('e \<Rightarrow> 'e \<Rightarrow> 'e) \<Rightarrow> 'e \<Rightarrow> 'e" where
  "quad_double_on op res =
     (let res = op res res; res = op res res; res = op res res in op res res)"

definition scalarMul_on :: "('e \<Rightarrow> 'e \<Rightarrow> 'e) \<Rightarrow> 'e \<Rightarrow> 'e \<Rightarrow> 8 word list \<Rightarrow> 'e" where
  "scalarMul_on op e base exponentBytesBE =
     (let precomputed = precompute_on op e base in
      fold (\<lambda>si res.
          let res = quad_double_on op res;
              res = op res (precomputed ! unat (drop_bit 4 si AND 15));
              res = quad_double_on op res in
          op res (precomputed ! unat (si AND 15))) exponentBytesBE e)"

abbreviation precompute :: "('e::monoid_add) \<Rightarrow> 'e list" where
  "precompute base \<equiv> precompute_on (+) 0 base"

abbreviation quad_double :: "('e::monoid_add) \<Rightarrow> 'e" where
  "quad_double res \<equiv> quad_double_on (+) res"

definition scalarMul :: "('e::monoid_add) \<Rightarrow> 8 word list \<Rightarrow> 'e" where
  "scalarMul base exponentBytesBE = scalarMul_on (+) 0 base exponentBytesBE"

function scalarMulNative_loop :: "('e::monoid_add) \<Rightarrow> 'e \<Rightarrow> nat \<Rightarrow> 'e" where
  "scalarMulNative_loop x y s =
     (if 1 < s then
        scalarMulNative_loop (x + x) (if odd s then y + x else y) (s div 2)
      else x + y)"
  by auto
termination by (relation "measure (\<lambda>(x, y, s). s)") auto

declare scalarMulNative_loop.simps [simp del]

text \<open>\<open>scalarMulNative\<close>: square and multiply from the low bit, for an unsigned machine integer.\<close>

definition scalarMulNative :: "('e::monoid_add) \<Rightarrow> nat \<Rightarrow> 'e" where
  "scalarMulNative e s = (if s = 0 then 0 else scalarMulNative_loop e 0 s)"

section \<open>Multi-scalar multiplication\<close>

text \<open>The closure \<open>getWindow\<close>: \<open>w\<close> bits from bit \<open>start\<close>, stopping past the most significant byte.\<close>

fun getWindow_loop :: "8 word list \<Rightarrow> nat \<Rightarrow> nat list \<Rightarrow> nat \<Rightarrow> nat" where
  "getWindow_loop b start [] acc = acc"
| "getWindow_loop b start (k # ks) acc =
     (let bitIndex = start + k; byteCount = length b; byteIndexFromLSB = bitIndex div 8 in
      if byteIndexFromLSB \<ge> byteCount then acc
      else (let byteIndex = byteCount - 1 - byteIndexFromLSB;
                bit = unat (drop_bit (bitIndex mod 8) (b ! byteIndex) AND 1) in
        getWindow_loop b start ks (acc OR push_bit k bit)))"

definition getWindow :: "nat \<Rightarrow> 8 word list \<Rightarrow> nat \<Rightarrow> nat" where
  "getWindow w b start = (if length b = 0 then 0 else getWindow_loop b start [0..<w] 0)"

definition fill_buckets :: "nat \<Rightarrow> 8 word list list \<Rightarrow> ('e::monoid_add) list \<Rightarrow> nat \<Rightarrow> 'e list" where
  "fill_buckets w scalarBytes points startBit =
     fold (\<lambda>i buckets.
         let win = getWindow w (scalarBytes ! i) startBit in
         if win = 0 then buckets else buckets[win := buckets ! win + points ! i])
       [0..<length points] (replicate (2 ^ w) 0)"

definition sum_buckets :: "nat \<Rightarrow> ('e::monoid_add) list \<Rightarrow> 'e \<Rightarrow> 'e" where
  "sum_buckets windowSize buckets acc =
     snd (fold (\<lambda>k (running, acc).
         let running = (if buckets ! k \<noteq> 0 then running + buckets ! k else running) in
         (running, acc + running)) (rev [1..<windowSize]) (0, acc))"

definition double_times :: "nat \<Rightarrow> ('e::monoid_add) \<Rightarrow> 'e" where
  "double_times w acc = fold (\<lambda>_ acc. acc + acc) [0..<w] acc"

text \<open>\<open>bits.Len\<close> of the Go standard library: the length of the binary representation.\<close>

fun bits_Len :: "nat \<Rightarrow> nat" where
  "bits_Len n = (if n = 0 then 0 else Suc (bits_Len (n div 2)))"

declare bits_Len.simps [simp del]

definition window_bits :: "nat \<Rightarrow> nat" where
  "window_bits n = (let w = bits_Len n in if w < 2 then 2 else if w > 16 then 16 else w)"

definition MultiScalarMul :: "8 word list list \<Rightarrow> ('e::monoid_add) list \<Rightarrow> 'e res" where
  "MultiScalarMul scalars points =
     (let n = length points in
      if n = 0 then Inl Panic
      else if n \<noteq> length scalars then Inl Panic
      else if n \<le> 7 then
        Inr (fold (\<lambda>i acc. acc + scalarMul (points ! i) (scalars ! i)) [0..<n] 0)
      else (let maxBits = fold (\<lambda>b m. if length b * 8 > m then length b * 8 else m) scalars 0 in
        if maxBits = 0 then Inr 0
        else (let w = window_bits n; numWindows = (maxBits + w - 1) div w in
          Inr (fold (\<lambda>wIdx acc.
              sum_buckets (2 ^ w) (fill_buckets w scalars points (wIdx * w)) (double_times w acc))
            (rev [0..<numWindows]) 0))))"

section \<open>Reference definitions\<close>

primrec nsum :: "nat \<Rightarrow> ('e::monoid_add) \<Rightarrow> 'e" where
  "nsum 0 e = 0"
| "nsum (Suc n) e = e + nsum n e"

definition be_val :: "8 word list \<Rightarrow> nat" where
  "be_val b = fold (\<lambda>x v. v * 256 + unat x) b 0"

lemma nsum_add: "nsum (m + n) e = nsum m e + nsum n e"
  by (induction m) (simp_all add: add.assoc)

lemma nsum_one [simp]: "nsum (Suc 0) e = e"
  by simp

lemma nsum_commute: "nsum n e + e = e + nsum n e"
  using nsum_add [of n 1 e] nsum_add [of 1 n e] by (simp add: add.commute)

lemma nsum_double: "nsum n e + nsum n e = nsum (2 * n) e"
  by (simp add: nsum_add [symmetric] mult_2)

lemma nsum_mult: "nsum (m * n) e = nsum m (nsum n e)"
  by (induction m) (simp_all add: nsum_add)

lemma nsum_zero [simp]: "nsum n 0 = 0"
  by (induction n) simp_all

lemma nsum_distrib: "nsum n (x + y :: 'e::comm_monoid_add) = nsum n x + nsum n y"
  by (induction n) (simp_all add: algebra_simps)

lemma nsum_sum: "nsum n (\<Sum>i\<in>A. f i :: 'e::comm_monoid_add) = (\<Sum>i\<in>A. nsum n (f i))"
  by (induction A rule: infinite_finite_induct) (simp_all add: nsum_distrib)

lemma nsum_of_nat: "nsum n e = of_nat n * (e :: 'e::ring_1)"
  by (induction n) (simp_all add: algebra_simps)

subsection \<open>Fixed windows\<close>

lemma precompute_inv:
  fixes base :: "'e::monoid_add"
  defines "step \<equiv> \<lambda>i t. let t = t[2 * i := t ! i + t ! i] in t[2 * i + 1 := t ! (2 * i) + base]"
  assumes "m \<le> 7"
  shows "length (fold step [1..<Suc m] ([0, base] @ replicate 14 0)) = 16 \<and>
    (\<forall>k < 2 * m + 2. fold step [1..<Suc m] ([0, base] @ replicate 14 0) ! k = nsum k base)"
  using assms(2)
proof (induction m)
  case 0
  then show ?case by (auto simp: less_Suc_eq)
next
  case (Suc m)
  let ?t = "fold step [1..<Suc m] ([0, base] @ replicate 14 0)"
  from Suc have len: "length ?t = 16" and at: "\<And>k. k < 2 * m + 2 \<Longrightarrow> ?t ! k = nsum k base" by auto
  have half: "?t ! Suc m + ?t ! Suc m = nsum (2 * Suc m) base"
    using at [of "Suc m"] by (simp only: nsum_double)
  have "step (Suc m) ?t =
      ?t[2 * Suc m := nsum (2 * Suc m) base, 2 * Suc m + 1 := nsum (2 * Suc m + 1) base]"
    using len Suc.prems half nsum_commute [of "2 * Suc m" base] by (simp add: step_def Let_def)
  then show ?case
    using len at Suc.prems by (auto simp: nth_list_update less_Suc_eq)
qed

lemma precompute_nth: "k < 16 \<Longrightarrow> precompute base ! k = nsum k base"
  using precompute_inv [of 7 base] by (simp add: precompute_on_def)

lemma quad_double_nsum: "quad_double (nsum n e) = nsum (16 * n) e"
  by (simp add: quad_double_on_def Let_def nsum_double)

lemma byte_less: "unat (x :: 8 word) < 256"
  using unsigned_less [of x, where ?'a = nat] by (simp del: unsigned_less)

lemma byte_nibbles:
  fixes x :: "8 word"
  shows "unat (drop_bit 4 x AND 15) = unat x div 16" "unat (x AND 15) = unat x mod 16"
proof -
  have m: "(15 :: 8 word) = mask 4" by (simp add: mask_eq_exp_minus_1)
  have "unat (x AND 15) = take_bit 4 (unat x)"
    unfolding m by (simp add: unsigned_take_bit_eq flip: take_bit_eq_mask)
  then show "unat (x AND 15) = unat x mod 16" by (simp add: take_bit_eq_mod)
  have "unat (drop_bit 4 x AND 15) = take_bit 4 (unat (drop_bit 4 x))"
    unfolding m by (simp add: unsigned_take_bit_eq flip: take_bit_eq_mask)
  also have "\<dots> = unat x div 16 mod 16"
    using byte_less [of x] unfolding unsigned_drop_bit_eq by (simp add: take_bit_eq_mod drop_bit_eq_div)
  also have "\<dots> = unat x div 16" using byte_less [of x] by (simp add: div_less_iff_less_mult)
  finally show "unat (drop_bit 4 x AND 15) = unat x div 16" .
qed

lemma scalarMul_step:
  fixes x :: "8 word"
  shows "quad_double (quad_double (nsum v base) + precompute base ! unat (drop_bit 4 x AND 15)) +
      precompute base ! unat (x AND 15) = nsum (v * 256 + unat x) base"
proof -
  have lt: "unat x div 16 < 16" "unat x mod 16 < 16"
    using byte_less [of x] by (simp_all add: div_less_iff_less_mult)
  have "16 * (16 * v + unat x div 16) + unat x mod 16 = v * 256 + unat x" by simp
  with lt show ?thesis
    unfolding byte_nibbles(1)
    by (simp only: quad_double_nsum byte_nibbles(2) precompute_nth nsum_add [symmetric])
qed

lemma scalarMul_fold:
  fixes b :: "8 word list"
  shows "fold (\<lambda>si res.
          let res = quad_double res;
              res = res + precompute base ! unat (drop_bit 4 si AND 15);
              res = quad_double res in
          res + precompute base ! unat (si AND 15)) b (nsum v base)
   = nsum (fold (\<lambda>x v. v * 256 + unat x) b v) base"
  by (induction b arbitrary: v) (simp_all only: fold_simps Let_def scalarMul_step)

lemma scalarMul_nsum: "scalarMul base b = nsum (be_val b) base"
  using scalarMul_fold [of base b 0] by (simp add: scalarMul_def scalarMul_on_def be_val_def Let_def)

text \<open>A map that respects the operation and the identity commutes with the method.\<close>

lemma precompute_on_hom:
  assumes C: "e \<in> C" "x \<in> C" "\<And>a b. a \<in> C \<Longrightarrow> b \<in> C \<Longrightarrow> op a b \<in> C \<and> h (op a b) = op' (h a) (h b)" and k: "k < 16"
  shows "precompute_on op e x ! k \<in> C \<and> h (precompute_on op e x ! k) = precompute_on op' (h e) (h x) ! k"
proof -
  let ?st = "\<lambda>op x i t. let t = t[2 * i := op (t ! i) (t ! i)] in t[2 * i + 1 := op (t ! (2 * i)) x]"
  have step: "length (?st op x i t) = 16 \<and> set (?st op x i t) \<subseteq> C \<and> map h (?st op x i t) = ?st op' (h x) i (map h t)"
    if t: "i < 8" "length t = 16" "set t \<subseteq> C" for i t
  proof -
    have ti: "t ! i \<in> C" using t nth_mem [of i t] by auto
    let ?u = "t[2 * i := op (t ! i) (t ! i)]"
    have u: "set ?u \<subseteq> C" "length ?u = 16" "?u ! (2 * i) = op (t ! i) (t ! i)"
      using t ti C(3) set_update_subsetI [of t C "op (t ! i) (t ! i)" "2 * i"] by auto
    then have "set (?u[2 * i + 1 := op (?u ! (2 * i)) x]) \<subseteq> C" using ti C set_update_subsetI [of ?u C] by auto
    moreover have "map h (?u[2 * i + 1 := op (?u ! (2 * i)) x]) = ?st op' (h x) i (map h t)"
      using t ti C u(3) by (simp add: map_update Let_def)
    ultimately show ?thesis using t by (simp add: Let_def)
  qed
  have "length (fold (?st op x) is t) = 16 \<and> set (fold (?st op x) is t) \<subseteq> C \<and> map h (fold (?st op x) is t) = fold (?st op' (h x)) is (map h t)"
    if "\<And>i. i \<in> set is \<Longrightarrow> i < 8" "length t = 16" "set t \<subseteq> C" for "is" t
    using that
  proof (induction "is" arbitrary: t)
    case (Cons i "is")
    from step [of i t] Cons.prems have s: "length (?st op x i t) = 16" "set (?st op x i t) \<subseteq> C" "map h (?st op x i t) = ?st op' (h x) i (map h t)"
      by simp_all
    show ?case using Cons.IH [OF _ s(1,2)] Cons.prems(1) unfolding fold.simps comp_def s(3) by simp
  qed simp
  from this [of "[1..<8]" "[e, x] @ replicate 14 e"]
  have len: "length (precompute_on op e x) = 16" and table: "set (precompute_on op e x) \<subseteq> C \<and> map h (precompute_on op e x) = precompute_on op' (h e) (h x)"
    using C(1,2) by (simp_all add: precompute_on_def)
  have "precompute_on op e x ! k \<in> C" using table len k nth_mem [of k "precompute_on op e x"] by auto
  moreover have "h (precompute_on op e x ! k) = map h (precompute_on op e x) ! k" using len k by simp
  ultimately show ?thesis using table by simp
qed

lemma scalarMul_on_hom:
  assumes C: "e \<in> C" "x \<in> C" "\<And>a b. a \<in> C \<Longrightarrow> b \<in> C \<Longrightarrow> op a b \<in> C \<and> h (op a b) = op' (h a) (h b)"
  shows "scalarMul_on op e x bs \<in> C \<and> h (scalarMul_on op e x bs) = scalarMul_on op' (h e) (h x) bs"
proof -
  let ?step = "\<lambda>op e x si res. let res = quad_double_on op res; res = op res (precompute_on op e x ! unat (drop_bit 4 si AND 15));
    res = quad_double_on op res in op res (precompute_on op e x ! unat (si AND 15))"
  have quad: "quad_double_on op a \<in> C \<and> h (quad_double_on op a) = quad_double_on op' (h a)" if "a \<in> C" for a
    using that C(3) by (simp add: quad_double_on_def Let_def)
  have pre: "precompute_on op e x ! k \<in> C \<and> h (precompute_on op e x ! k) = precompute_on op' (h e) (h x) ! k" if "k < 16" for k
    by (rule precompute_on_hom [where op = op and op' = op' and h = h, OF C(1,2) _ that]) (rule C(3))
  have lt: "unat (drop_bit 4 si AND 15) < 16" "unat (si AND 15) < 16" for si :: "8 word"
    using byte_less [of si] by (simp_all add: byte_nibbles div_less_iff_less_mult)
  have step: "?step op e x si a \<in> C \<and> h (?step op e x si a) = ?step op' (h e) (h x) si (h a)" if "a \<in> C" for a and si :: "8 word"
    using that C(3) quad pre [OF lt(1) [of si]] pre [OF lt(2) [of si]] by (simp add: Let_def)
  have "fold (?step op e x) bs a \<in> C \<and> h (fold (?step op e x) bs a) = fold (?step op' (h e) (h x)) bs (h a)" if "a \<in> C" for a
    using that
  proof (induction bs arbitrary: a)
    case (Cons b bs)
    then show ?case using step [of a b] by (simp add: Let_def)
  qed simp
  then show ?thesis using C(1) by (simp add: scalarMul_on_def Let_def)
qed

subsection \<open>Binary method\<close>

lemma scalarMulNative_loop_nsum:
  "0 < s \<Longrightarrow> x = nsum a e \<Longrightarrow> y = nsum c e \<Longrightarrow> scalarMulNative_loop x y s = nsum (s * a + c) e"
proof (induction x y s arbitrary: a c rule: scalarMulNative_loop.induct)
  case (1 x y s)
  show ?case
  proof (cases "1 < s")
    case True
    have "x + x = nsum (2 * a) e" using "1.prems" by (simp add: nsum_double)
    moreover have "(if odd s then y + x else y) = nsum (if odd s then c + a else c) e"
      using "1.prems" by (simp add: nsum_add)
    moreover have "s div 2 * (2 * a) + (if odd s then c + a else c) = s * a + c"
      by (cases "odd s") (auto elim!: oddE evenE simp: algebra_simps)
    ultimately show ?thesis
      using "1.IH" [OF True] True by (simp add: scalarMulNative_loop.simps [of x y s])
  next
    case False
    with "1.prems" have "s = 1" by simp
    then have "scalarMulNative_loop x y s = x + y" by (subst scalarMulNative_loop.simps) simp
    with "1.prems" \<open>s = 1\<close> show ?thesis by (simp add: nsum_add)
  qed
qed

lemma scalarMulNative_nsum: "scalarMulNative e s = nsum s e"
  using scalarMulNative_loop_nsum [of s e 1 e 0 0] by (simp add: scalarMulNative_def)

subsection \<open>Windows of a scalar\<close>

lemma be_val_snoc: "be_val (b @ [x]) = be_val b * 256 + unat x"
  by (simp add: be_val_def)

lemma be_val_less: "be_val b < 2 ^ (8 * length b)"
proof (induction b rule: rev_induct)
  case (snoc x b)
  have "be_val b * 256 + unat x < be_val b * 256 + 256"
    using byte_less [of x] by simp
  also have "\<dots> = Suc (be_val b) * 256" by simp
  also have "\<dots> \<le> 2 ^ (8 * length b) * 256" using snoc by (intro mult_le_mono1) simp
  finally show ?case by (simp add: be_val_snoc power_add)
qed (simp add: be_val_def)

lemma bit_be_val:
  "bit (be_val b) j \<longleftrightarrow> j div 8 < length b \<and> bit (b ! (length b - 1 - j div 8)) (j mod 8)"
proof (induction b arbitrary: j rule: rev_induct)
  case Nil
  then show ?case by (simp add: be_val_def)
next
  case (snoc x b)
  have lt: "unat x < 256" using byte_less [of x] by simp
  then have lo: "take_bit 8 (be_val (b @ [x])) = unat x"
    by (simp add: be_val_snoc take_bit_eq_mod)
  from lt have hi: "drop_bit 8 (be_val (b @ [x])) = be_val b"
    by (simp add: be_val_snoc drop_bit_eq_div)
  show ?case
  proof (cases "j < 8")
    case True
    then have "bit (be_val (b @ [x])) j \<longleftrightarrow> bit (unat x) j"
      unfolding lo [symmetric] by (simp add: bit_take_bit_iff)
    with True show ?thesis by (simp add: bit_unsigned_iff)
  next
    case False
    then have "bit (be_val (b @ [x])) j \<longleftrightarrow> bit (be_val b) (j - 8)"
      unfolding hi [symmetric] by (simp add: bit_drop_bit_eq)
    moreover have "j div 8 = Suc ((j - 8) div 8)" "j mod 8 = (j - 8) mod 8"
      using False by (simp_all add: le_div_geq le_mod_geq)
    ultimately show ?thesis using snoc.IH [of "j - 8"] by (auto simp: nth_append)
  qed
qed

lemma low_bit: "unat (drop_bit k (x :: 8 word) AND 1) = of_bool (bit x k)"
  by (simp add: and_one_eq mod_2_eq_odd bit_iff_odd_drop_bit)

lemma getWindow_loop_spec:
  "k \<le> w \<Longrightarrow> getWindow_loop b start [k..<w] (take_bit k (drop_bit start (be_val b)))
     = take_bit w (drop_bit start (be_val b))"
proof (induction "w - k" arbitrary: k)
  case 0
  then show ?case by simp
next
  case (Suc n)
  let ?D = "drop_bit start (be_val b)"
  have k: "k < w" "[k..<w] = k # [Suc k..<w]" using Suc by (simp_all add: upt_conv_Cons)
  show ?case
  proof (cases "(start + k) div 8 \<ge> length b")
    case True
    have "bit ?D j = False" if "k \<le> j" for j
    proof -
      have "(start + k) div 8 \<le> (start + j) div 8" using that by (intro div_le_mono) simp
      with True show ?thesis by (simp add: bit_drop_bit_eq bit_be_val)
    qed
    then have "take_bit k ?D = take_bit w ?D"
      using k(1) by (intro bit_eqI) (meson bit_take_bit_iff leI less_trans)
    with True k(2) show ?thesis by (simp add: Let_def)
  next
    case False
    let ?bit = "unat (drop_bit ((start + k) mod 8) (b ! (length b - 1 - (start + k) div 8)) AND 1)"
    have "?bit = of_bool (bit ?D k)"
      using False by (simp add: low_bit bit_drop_bit_eq bit_be_val)
    then have "take_bit k ?D OR push_bit k ?bit = take_bit (Suc k) ?D"
      by (intro bit_eqI) (auto simp: bit_or_iff bit_push_bit_iff bit_take_bit_iff less_Suc_eq bit_of_bool_iff)
    with False k Suc show ?thesis by (simp add: Let_def)
  qed
qed

lemma getWindow_spec: "getWindow w b start = be_val b div 2 ^ start mod 2 ^ w"
proof (cases "b = []")
  case True
  then show ?thesis by (simp add: getWindow_def be_val_def)
next
  case False
  then have "getWindow w b start = take_bit w (drop_bit start (be_val b))"
    using getWindow_loop_spec [of 0 w b start] by (simp add: getWindow_def)
  then show ?thesis by (simp add: take_bit_eq_mod drop_bit_eq_div)
qed

subsection \<open>Buckets\<close>

lemma fill_buckets_spec:
  fixes points :: "'e::comm_monoid_add list"
  defines "step \<equiv> \<lambda>scalarBytes startBit w i buckets.
         let win = getWindow w (scalarBytes ! i) startBit in
         if win = 0 then buckets else buckets[win := buckets ! win + points ! i]"
  assumes "0 < k" "k < 2 ^ w"
  shows "length (fold (step scalars start w) [0..<n] (replicate (2 ^ w) 0)) = 2 ^ w \<and>
    fold (step scalars start w) [0..<n] (replicate (2 ^ w) 0) ! k =
      (\<Sum>i<n. if getWindow w (scalars ! i) start = k then points ! i else 0)"
proof (induction n)
  case 0
  then show ?case using assms by simp
next
  case (Suc n)
  then show ?case using assms(2,3) by (auto simp: step_def Let_def nth_list_update)
qed

lemma sum_buckets_fold:
  fixes buckets :: "'e::comm_monoid_add list"
  shows "fold (\<lambda>k (running, acc).
         let running = (if buckets ! k \<noteq> 0 then running + buckets ! k else running) in
         (running, acc + running)) (rev [1..<m]) (r, acc) =
      (r + (\<Sum>k\<in>{1..<m}. buckets ! k), acc + nsum (m - 1) r + (\<Sum>k\<in>{1..<m}. nsum k (buckets ! k)))"
proof (induction m arbitrary: r acc)
  case 0
  then show ?case by simp
next
  case (Suc m)
  let ?r = "r + buckets ! m"
  let ?f = "\<lambda>k (running, acc).
         let running = (if buckets ! k \<noteq> 0 then running + buckets ! k else running) in
         (running, acc + running)"
  show ?case
  proof (cases "m = 0")
    case False
    then have split: "[1..<Suc m] = [1..<m] @ [m]" "{1..<Suc m} = insert m {1..<m}" by auto
    have "?f m (r, acc) = (?r, acc + ?r)" by (simp add: Let_def)
    then have "fold ?f (rev [1..<Suc m]) (r, acc) = fold ?f (rev [1..<m]) (?r, acc + ?r)"
      by (simp only: split rev_append fold_append comp_def rev.simps append.simps fold_simps)
    moreover have "?r + nsum (m - 1) ?r = nsum m r + nsum m (buckets ! m)"
      using False by (cases m) (simp_all add: nsum_distrib ac_simps)
    then have "acc + ?r + nsum (m - 1) ?r + s = acc + nsum m r + (nsum m (buckets ! m) + s)" for s
      by (simp only: add.assoc)
    ultimately show ?thesis
      using False by (simp only: Suc.IH) (simp add: split add.assoc add.commute [of "sum f {Suc 0..<m}" for f] del: upt_Suc)
  qed simp
qed

lemma window_sum:
  fixes points :: "'e::comm_monoid_add list"
  assumes "n = length points"
  shows "sum_buckets (2 ^ w) (fill_buckets w scalars points start) acc =
    acc + (\<Sum>i<n. nsum (getWindow w (scalars ! i) start) (points ! i))"
proof -
  let ?win = "\<lambda>i. getWindow w (scalars ! i) start"
  let ?b = "fill_buckets w scalars points start"
  have "(\<Sum>k\<in>{1..<2 ^ w}. nsum k (?b ! k)) =
      (\<Sum>k\<in>{1..<2 ^ w}. \<Sum>i<n. nsum k (if ?win i = k then points ! i else 0))"
    using assms fill_buckets_spec [where n = n and points = points]
    by (intro sum.cong) (simp_all add: fill_buckets_def nsum_sum)
  also have "\<dots> = (\<Sum>i<n. \<Sum>k\<in>{1..<2 ^ w}. nsum k (if ?win i = k then points ! i else 0))"
    by (rule sum.swap)
  also have "\<dots> = (\<Sum>i<n. nsum (?win i) (points ! i))"
  proof (intro sum.cong refl)
    fix i
    have lt: "?win i < 2 ^ w" by (simp add: getWindow_spec)
    have "(\<Sum>k\<in>{1..<2 ^ w}. nsum k (if ?win i = k then points ! i else 0)) =
        (\<Sum>k\<in>{1..<2 ^ w}. if k = ?win i then nsum k (points ! i) else 0)"
      by (intro sum.cong) auto
    also have "\<dots> = nsum (?win i) (points ! i)"
      using lt by (cases "?win i") auto
    finally show "(\<Sum>k\<in>{1..<2 ^ w}. nsum k (if ?win i = k then points ! i else 0)) =
      nsum (?win i) (points ! i)" .
  qed
  finally show ?thesis unfolding sum_buckets_def sum_buckets_fold by simp
qed

lemma double_times_nsum: "double_times w acc = nsum (2 ^ w) (acc :: 'e::comm_monoid_add)"
  by (induction w) (simp_all add: double_times_def mult_2 nsum_add)

lemma windows_fold:
  fixes points :: "'e::comm_monoid_add list"
  assumes "n = length points"
  shows "fold (\<lambda>wIdx acc.
        sum_buckets (2 ^ w) (fill_buckets w scalars points (wIdx * w)) (double_times w acc))
      (rev [0..<N]) (\<Sum>i<n. nsum (be_val (scalars ! i) div 2 ^ (N * w)) (points ! i)) =
    (\<Sum>i<n. nsum (be_val (scalars ! i)) (points ! i))"
proof (induction N)
  case (Suc N)
  let ?v = "\<lambda>i. be_val (scalars ! i)"
  have "2 ^ w * (v div 2 ^ (Suc N * w)) + v div 2 ^ (N * w) mod 2 ^ w = v div 2 ^ (N * w)" for v :: nat
    unfolding mult_Suc power_add mult.commute [of "2 ^ w"] div_mult2_eq by (rule div_mult_mod_eq)
  then have "double_times w (\<Sum>i<n. nsum (?v i div 2 ^ (Suc N * w)) (points ! i)) +
      (\<Sum>i<n. nsum (?v i div 2 ^ (N * w) mod 2 ^ w) (points ! i)) =
      (\<Sum>i<n. nsum (?v i div 2 ^ (N * w)) (points ! i))"
    by (simp only: double_times_nsum nsum_sum sum.distrib [symmetric] nsum_mult [symmetric]
        nsum_add [symmetric])
  with Suc show ?case by (simp add: window_sum [OF assms] getWindow_spec)
qed simp

lemma maxBits_ge_init: "m \<le> fold (\<lambda>b m. if length b * 8 > m then length b * 8 else m) bs (m :: nat)"
proof (induction bs arbitrary: m)
  case (Cons b bs)
  show ?case using Cons [of "if length b * 8 > m then length b * 8 else m"] by (simp split: if_splits)
qed simp

lemma maxBits_ge:
  "b \<in> set bs \<Longrightarrow> length b * 8 \<le> fold (\<lambda>b m. if length b * 8 > m then length b * 8 else m) bs m"
proof (induction bs arbitrary: m)
  case (Cons c bs)
  show ?case
    using Cons maxBits_ge_init [of "if length c * 8 > m then length c * 8 else m" bs]
    by (auto split: if_splits)
qed simp

lemma div_up_mult: "0 < w \<Longrightarrow> m \<le> (m + w - 1) div w * (w :: nat)"
  using div_mult_mod_eq [of "m + w - 1" w] mod_less_divisor [of w "m + w - 1"] by linarith

lemma window_bits_pos: "0 < window_bits n"
  by (simp add: window_bits_def Let_def)

section \<open>Properties\<close>

text \<open>\<open>MultiScalarMul\<close> (naive for up to seven points, Pippenger's buckets beyond) returns the sum of
  the points, each added to itself as often as the big-endian value of its scalar says, in every commutative
  monoid and for scalars of any and different byte lengths; it panics exactly on an empty or mismatched input.\<close>

theorem MultiScalarMul_correct:
  fixes points :: "'e::comm_monoid_add list"
  shows "MultiScalarMul scalars points =
    (if points = [] then Inl Panic
     else if length points = length scalars then Inr (\<Sum>i<length points. nsum (be_val (scalars ! i)) (points ! i))
     else Inl Panic)"
proof (cases "points = [] \<or> length points \<noteq> length scalars \<or> length points \<le> 7")
  case True
  then show ?thesis by (auto simp: MultiScalarMul_def Let_def scalarMul_nsum fold_add_sum)
next
  case False
  let ?n = "length points" and ?w = "window_bits (length points)"
  let ?m = "fold (\<lambda>b m. if length b * 8 > m then length b * 8 else m) scalars 0"
  let ?N = "(?m + ?w - 1) div ?w"
  have len: "8 * length (scalars ! i) \<le> ?m" if "i < ?n" for i
    using that False by (subst mult.commute, intro maxBits_ge) auto
  have "?m \<le> ?N * ?w"
    using window_bits_pos [of ?n] by (rule div_up_mult)
  with len have "be_val (scalars ! i) < 2 ^ (?N * ?w)" if "i < ?n" for i
    using that be_val_less [of "scalars ! i"] by (meson le_trans less_le_trans one_le_numeral power_increasing)
  then have "(\<Sum>i<?n. nsum (be_val (scalars ! i) div 2 ^ (?N * ?w)) (points ! i)) = 0"
    by (intro sum.neutral) simp
  moreover have "be_val (scalars ! i) = 0" if "?m = 0" "i < ?n" for i
    using len [OF that(2)] that(1) be_val_less [of "scalars ! i"] by simp
  ultimately show ?thesis
    using False windows_fold [of ?n points ?w scalars ?N] by (auto simp: MultiScalarMul_def Let_def)
qed

text \<open>The fixed-window \<open>scalarMul\<close> and the binary \<open>scalarMulNative\<close> both compute the n-fold sum of
  their base in every monoid, commutative or not, so they agree on every scalar.\<close>

theorem scalarMul_correct:
  "scalarMul base b = nsum (be_val b) base \<and> scalarMulNative base (be_val b) = scalarMul base b"
  by (simp add: scalarMul_nsum scalarMulNative_nsum)

lemma Random_spec:
  "Random ps prng = (case dropWhile (\<lambda>e. \<not> list_all (\<lambda>p. p e) ps) prng of
     [] \<Rightarrow> Inl ErrPrng | e # rest \<Rightarrow> Inr (e, rest))"
  by (induction prng) auto

text \<open>Rejection sampling: \<open>RandomNonIdentity\<close> returns the first sample that is not the identity, whereas
  \<open>RandomTorsionFreeNonIdentity\<close> joins its two conditions by a disjunction, so it returns the first sample that
  is non-identity or torsion free: when the identity counts as torsion free it hands back the identity.\<close>

theorem Random_conditions:
  "RandomNonIdentity prng = (case dropWhile (\<lambda>e. e = 0) prng of
     [] \<Rightarrow> Inl ErrPrng | e # rest \<Rightarrow> Inr (e, rest)) \<and>
   RandomTorsionFreeNonIdentity (\<lambda>_. True) ((0 :: 'e::zero) # rest) = Inr (0, rest) \<and>
   RandomTorsionFreeNonIdentity (\<lambda>e. e = 0) ((x :: 'e) # rest) = Inr (x, rest)"
  by (simp add: RandomNonIdentity_def RandomTorsionFreeNonIdentity_def Random_spec)

section \<open>Operations that may fail\<close>

lemma alg_Fold_sum: "alg_Fold f rest = (f :: 'e::monoid_add) + sum_list rest"
proof -
  have "foldl (\<lambda>acc e. acc + e) f rest = f + sum_list rest" by (induction rest arbitrary: f) (simp_all add: add.assoc)
  then show ?thesis by (simp add: alg_Fold_def)
qed

lemma alg_Op_Some:
  assumes "contains (value f)" "contains (value s)" "\<And>r. r \<in> set rest \<Longrightarrow> contains (value r)"
  shows "alg_Op newFunc value contains (Some f) (Some s) (map Some rest) =
    newFunc ((value f :: 'v::monoid_add) + value s + sum_list (map value rest))"
proof -
  have "MapOrError (\<lambda>w. case w of None \<Rightarrow> Inl ErrIsNil | Some w \<Rightarrow> Inr (value w)) (map Some rest) = Inr (map value rest)"
    by (induction rest) simp_all
  moreover have "\<not> list_ex (\<lambda>v. \<not> contains v) (map value rest)" using assms(3) by (auto simp: list_ex_iff)
  ultimately show ?thesis using assms(1,2) by (simp add: alg_Op_def alg_Fold_sum)
qed

text \<open>
  Failing operations that implement an abelian group: \<open>dom\<close> holds of the elements on which they are defined,
  \<open>val\<close> gives the group element they stand for.
\<close>

locale group_ops =
  fixes opinv :: "'t \<Rightarrow> 't res" and op :: "'t \<Rightarrow> 't \<Rightarrow> 't res" and val :: "'t \<Rightarrow> 'e::ab_group_add" and dom :: "'t \<Rightarrow> bool"
  assumes inv_ok: "dom x \<Longrightarrow> \<exists>y. opinv x = Inr y \<and> dom y \<and> val y = - val x"
    and op_ok: "dom x \<Longrightarrow> dom y \<Longrightarrow> \<exists>z. op x y = Inr z \<and> dom z \<and> val z = val x + val y"
begin

lemma double_and_add:
  assumes "dom result" "dom x"
  shows "\<exists>r c. FoldOrError (\<lambda>(result, cursor) i.
      rbind (if bit n i then op result cursor else Inr result) (\<lambda>result.
      rbind (op cursor cursor) (\<lambda>cursor. Inr (result, cursor)))) (result, x) [0..<l] = Inr (r, c) \<and>
    dom r \<and> dom c \<and> val r = val result + nsum (take_bit l n) (val x) \<and> val c = nsum (2 ^ l) (val x)"
proof (induction l)
  case (Suc l)
  then obtain r c where ih: "FoldOrError (\<lambda>(result, cursor) i.
      rbind (if bit n i then op result cursor else Inr result) (\<lambda>result.
      rbind (op cursor cursor) (\<lambda>cursor. Inr (result, cursor)))) (result, x) [0..<l] = Inr (r, c)"
    "dom r" "dom c" "val r = val result + nsum (take_bit l n) (val x)" "val c = nsum (2 ^ l) (val x)" by blast
  obtain r' where r': "(if bit n l then op r c else Inr r) = Inr r'" "dom r'" "val r' = val r + (if bit n l then val c else 0)"
    using op_ok [OF ih(2,3)] ih(2) by (cases "bit n l") auto
  obtain c' where c': "op c c = Inr c'" "dom c'" "val c' = val c + val c" using op_ok [OF ih(3,3)] by blast
  have "val r' = val result + nsum (take_bit (Suc l) n) (val x)"
    using r'(3) ih(4,5) by (simp add: take_bit_Suc_from_most nsum_add ac_simps)
  moreover have "val c' = nsum (2 ^ Suc l) (val x)" using c'(3) ih(5) by (simp add: nsum_add [symmetric] mult_2)
  ultimately show ?case using ih(1) r'(1,2) c'(1,2) by (simp add: FoldOrError_append)
qed (use assms in simp)

lemma ScalarOpUnsigned_ok:
  assumes "dom x" "n < 2 ^ l"
  shows "\<exists>y. ScalarOpUnsignedNumeric opinv op (Some x) l n = Inr y \<and> dom y \<and> val y = nsum n (val x)"
proof -
  obtain xi where xi: "opinv x = Inr xi" "dom xi" "val xi = - val x" using inv_ok [OF assms(1)] by blast
  obtain e where e: "op x xi = Inr e" "dom e" "val e = 0" using op_ok [OF assms(1) xi(2)] xi(3) by auto
  have "take_bit l n = n" using assms(2) by (simp add: take_bit_nat_eq_self)
  with double_and_add [OF e(2) assms(1), of n l] xi(1) e show ?thesis by (auto simp: ScalarOpUnsignedNumeric_def)
qed

end

end
