(* ===== verification/Polynomials.thy ===== *)
theory Polynomials
  imports Complex_Main Algebrautils "HOL-Library.More_List"
begin

text \<open>
  Univariate polynomials over a ring, as coefficient slices in ascending degree order
  (\<open>pkg/base/polynomials/polynomial.go\<close>). A slice access on an empty coefficient slice is a panic.
\<close>

section \<open>The polynomial ring\<close>

record 'a Polynomial =
  coeffs :: "'a list"

definition poly_New :: "('a::zero) list \<Rightarrow> 'a Polynomial res" where
  "poly_New cs = (let cs = (if length cs = 0 then [0] else cs) in Inr \<lparr>coeffs = cs\<rparr>)"

definition poly_Zero :: "('a::zero) Polynomial" where
  "poly_Zero = \<lparr>coeffs = [0]\<rparr>"

definition poly_One :: "('a::one) Polynomial" where
  "poly_One = \<lparr>coeffs = [1]\<rparr>"

text \<open>The middle coefficients are drawn first, then a leading coefficient other than zero.\<close>

definition RandomPolynomialWithConstantTerm ::
  "int \<Rightarrow> ('a::zero) \<Rightarrow> 'a list \<Rightarrow> ('a Polynomial \<times> 'a list) res" where
  "RandomPolynomialWithConstantTerm degree constantTerm prng =
     (if degree < 0 then Inl ErrValidation
      else if degree = 0 then Inr (\<lparr>coeffs = [constantTerm]\<rparr>, prng)
      else rbind (draw (nat degree - 1) prng) (\<lambda>(mid, prng).
        rbind (RandomNonIdentity prng) (\<lambda>(leading, prng).
          Inr (\<lparr>coeffs = constantTerm # mid @ [leading]\<rparr>, prng))))"

definition RandomPolynomial :: "int \<Rightarrow> ('a::zero) list \<Rightarrow> ('a Polynomial \<times> 'a list) res" where
  "RandomPolynomial degree prng =
     rbind (draw 1 prng) (\<lambda>(c, prng). RandomPolynomialWithConstantTerm degree (c ! 0) prng)"

text \<open>The ring's byte codec is a parameter: \<open>ElementSize\<close> and \<open>FromBytes\<close>, and \<open>Bytes\<close> of an element.\<close>

definition poly_FromBytes ::
  "nat \<Rightarrow> (8 word list \<Rightarrow> ('a::zero) res) \<Rightarrow> 8 word list \<Rightarrow> 'a Polynomial res" where
  "poly_FromBytes coeffSize fromBytes inBytes =
     (if length inBytes = 0 then Inl ErrValidation
      else if coeffSize = 0 then Inl Panic
      else if length inBytes mod coeffSize \<noteq> 0 then Inl ErrValidation
      else rbind (MapOrError (\<lambda>i. fromBytes (take coeffSize (drop (i * coeffSize) inBytes)))
                    [0..<length inBytes div coeffSize]) poly_New)"

definition poly_Bytes :: "('a \<Rightarrow> 8 word list) \<Rightarrow> 'a Polynomial \<Rightarrow> 8 word list res" where
  "poly_Bytes bytes p =
     (if coeffs p = [] then Inl Panic else Inr (fold (\<lambda>c out. out @ bytes c) (coeffs p) []))"

definition poly_MarshalCBOR :: "('a list \<Rightarrow> 'b res) \<Rightarrow> 'a Polynomial \<Rightarrow> 'b res" where
  "poly_MarshalCBOR enc p = enc (coeffs p)"

definition poly_UnmarshalCBOR :: "('b \<Rightarrow> ('a option) list res) \<Rightarrow> 'b \<Rightarrow> 'a Polynomial res" where
  "poly_UnmarshalCBOR dec data =
     rbind (dec data) (\<lambda>dto.
       if length dto = 0 then Inl ErrSerialisation
       else if \<not> list_all (\<lambda>c. c \<noteq> None) dto then Inl ErrSerialisation
       else Inr \<lparr>coeffs = map the dto\<rparr>)"

definition poly_Eval :: "('a::ring_1) Polynomial \<Rightarrow> 'a \<Rightarrow> 'a" where
  "poly_Eval p pt =
     (if length (coeffs p) = 0 then 0
      else fold (\<lambda>i out. out * pt + coeffs p ! i) (rev [0..<length (coeffs p) - 1])
             (coeffs p ! (length (coeffs p) - 1)))"

definition poly_Clone :: "'a Polynomial \<Rightarrow> 'a Polynomial" where
  "poly_Clone p = \<lparr>coeffs = map (\<lambda>c. c) (coeffs p)\<rparr>"

definition poly_Equal :: "('a::zero) Polynomial \<Rightarrow> 'a Polynomial \<Rightarrow> bool" where
  "poly_Equal p rhs =
     (let lp = length (coeffs p); lr = length (coeffs rhs) in
      list_all (\<lambda>i. coeffs p ! i = coeffs rhs ! i) [0..<min lp lr] \<and>
      list_all (\<lambda>i. coeffs rhs ! i = 0) [lp..<max lp lr] \<and>
      list_all (\<lambda>i. coeffs p ! i = 0) [lr..<max lp lr])"

definition poly_Add :: "('a::monoid_add) Polynomial \<Rightarrow> 'a Polynomial \<Rightarrow> 'a Polynomial" where
  "poly_Add p e =
     (let lp = length (coeffs p); le = length (coeffs e);
          cs = replicate (max lp le) 0;
          cs = fold (\<lambda>i cs. cs[i := coeffs p ! i + coeffs e ! i]) [0..<min lp le] cs;
          cs = fold (\<lambda>i cs. cs[i := coeffs e ! i]) [lp..<max lp le] cs;
          cs = fold (\<lambda>i cs. cs[i := coeffs p ! i]) [le..<max lp le] cs in
      \<lparr>coeffs = cs\<rparr>)"

definition poly_Double :: "('a::monoid_add) Polynomial \<Rightarrow> 'a Polynomial" where
  "poly_Double p = poly_Add p p"

text \<open>Schoolbook multiplication; the ring is read off the first coefficient of \<open>p\<close>.\<close>

definition poly_Mul :: "('a::ring_1) Polynomial \<Rightarrow> 'a Polynomial \<Rightarrow> 'a Polynomial res" where
  "poly_Mul p e =
     (if coeffs p = [] then Inl Panic
      else Inr \<lparr>coeffs =
        fold (\<lambda>l cs. fold (\<lambda>r cs. cs[l + r := cs ! (l + r) + coeffs p ! l * coeffs e ! r])
                       [0..<length (coeffs e)] cs)
          [0..<length (coeffs p)] (replicate (length (coeffs p) + length (coeffs e) - 1) 0)\<rparr>)"

definition poly_Square :: "('a::ring_1) Polynomial \<Rightarrow> 'a Polynomial res" where
  "poly_Square p = poly_Mul p p"

definition poly_IsOne :: "('a::ring_1) Polynomial \<Rightarrow> bool" where
  "poly_IsOne p =
     (length (coeffs p) \<ge> 1 \<and> list_all (\<lambda>i. coeffs p ! i = 0) (rev [1..<length (coeffs p)]) \<and>
      coeffs p ! 0 = 1)"

definition poly_IsZero :: "('a::zero) Polynomial \<Rightarrow> bool" where
  "poly_IsZero p = (length (coeffs p) = 0 \<or> list_all (\<lambda>c. c = 0) (coeffs p))"

definition poly_Neg :: "('a::uminus) Polynomial \<Rightarrow> 'a Polynomial" where
  "poly_Neg p = \<lparr>coeffs = map uminus (coeffs p)\<rparr>"

definition poly_Sub :: "('a::group_add) Polynomial \<Rightarrow> 'a Polynomial \<Rightarrow> 'a Polynomial" where
  "poly_Sub p e = poly_Add p (poly_Neg e)"

definition poly_ScalarMul :: "('a::times) Polynomial \<Rightarrow> 'a \<Rightarrow> 'a Polynomial" where
  "poly_ScalarMul p s = \<lparr>coeffs = map (\<lambda>c. c * s) (coeffs p)\<rparr>"

text \<open>The downward scan \<open>for i >= 0 && coeffs[i].IsZero() { i-- }\<close>, shared by \<open>Degree\<close> and the division.\<close>

fun scan_down :: "('a::zero) list \<Rightarrow> nat \<Rightarrow> int" where
  "scan_down cs 0 = -1"
| "scan_down cs (Suc i) = (if cs ! i \<noteq> 0 then int i else scan_down cs i)"

definition poly_Degree :: "('a::zero) Polynomial \<Rightarrow> int" where
  "poly_Degree p = scan_down (coeffs p) (length (coeffs p))"

definition poly_ConstantTerm :: "'a Polynomial \<Rightarrow> 'a res" where
  "poly_ConstantTerm p = (if coeffs p = [] then Inl Panic else Inr (coeffs p ! 0))"

definition poly_Derivative :: "('a::ring_1) Polynomial \<Rightarrow> 'a Polynomial res" where
  "poly_Derivative p =
     (if coeffs p = [] then Inl Panic
      else if poly_Degree p \<le> 0 then Inr poly_Zero
      else Inr \<lparr>coeffs = map (\<lambda>i. scalarMulNative (coeffs p ! i) i) [1..<Suc (nat (poly_Degree p))]\<rparr>)"

definition poly_IsConstant :: "('a::zero) Polynomial \<Rightarrow> bool" where
  "poly_IsConstant p = (poly_Degree p = 0)"

definition poly_IsMonic :: "('a::ring_1) Polynomial \<Rightarrow> bool" where
  "poly_IsMonic p = (let deg = poly_Degree p in deg \<ge> 0 \<and> coeffs p ! nat deg = 1)"

definition poly_LeadingCoefficient :: "('a::zero) Polynomial \<Rightarrow> 'a res" where
  "poly_LeadingCoefficient p =
     (let deg = poly_Degree p in
      if deg < 0 then (if coeffs p = [] then Inl Panic else Inr 0) else Inr (coeffs p ! nat deg))"

definition poly_EuclideanValuation :: "('a::zero) Polynomial \<Rightarrow> nat" where
  "poly_EuclideanValuation p = (let deg = poly_Degree p in if deg \<le> 0 then 0 else nat deg)"

section \<open>Euclidean division\<close>

definition field_TryDiv :: "'a::field \<Rightarrow> 'a \<Rightarrow> 'a res" where
  "field_TryDiv x y = (if y = 0 then Inl ErrDivisionByZero else Inr (x / y))"

text \<open>The subtraction \<open>rem -= factor * x^shift * q\<close>, coefficient by coefficient.\<close>

definition div_subtract :: "('a::field) list \<Rightarrow> nat \<Rightarrow> nat \<Rightarrow> 'a \<Rightarrow> 'a list \<Rightarrow> 'a list" where
  "div_subtract q degQ shift factor rem =
     fold (\<lambda>i rem. rem[i + shift := rem ! (i + shift) - q ! i * factor]) [0..<Suc degQ] rem"

text \<open>
  The loop \<open>for degR >= degQ\<close>; a loop that never ends is the value \<open>None\<close>. The remainder keeps its
  length, \<open>degR\<close> is its current degree and -1 when it vanished.
\<close>

partial_function (option) div_loop ::
  "('a::field) list \<Rightarrow> nat \<Rightarrow> 'a list \<Rightarrow> 'a list \<Rightarrow> int \<Rightarrow> (('a list \<times> 'a list \<times> int) res) option" where
  "div_loop q degQ quot rem degR =
     (if degR \<ge> int degQ then
        (case field_TryDiv (rem ! nat degR) (q ! degQ) of
           Inl e \<Rightarrow> Some (Inl e)
         | Inr factor \<Rightarrow>
             (let shift = nat degR - degQ;
                  quot = quot[shift := factor];
                  rem = div_subtract q degQ shift factor rem in
              div_loop q degQ quot rem (scan_down rem (Suc (nat degR)))))
      else Some (Inr (quot, rem, degR)))"

text \<open>The loop that drops trailing zero coefficients of the quotient but keeps one coefficient.\<close>

function trim_quot :: "('a::zero) list \<Rightarrow> 'a list" where
  "trim_quot quot =
     (if length quot > 1 \<and> quot ! (length quot - 1) = 0 then trim_quot (take (length quot - 1) quot) else quot)"
  by auto
termination by (relation "measure length") auto

declare trim_quot.simps [simp del]

definition EuclideanDiv ::
  "('a::field) Polynomial \<Rightarrow> 'a Polynomial \<Rightarrow> (('a Polynomial \<times> 'a Polynomial) res) option" where
  "EuclideanDiv p q =
     (if coeffs p = [] then Some (Inl Panic)
      else if poly_IsZero q then Some (Inl ErrDivisionByZero)
      else if poly_IsZero p then Some (Inr (poly_Zero, poly_Zero))
      else (let rem = poly_Clone p; degQ = poly_Degree q; degR = poly_Degree rem in
        if degR < degQ then Some (Inr (poly_Zero, rem))
        else (case div_loop (coeffs q) (nat degQ) (replicate (nat (degR - degQ + 1)) 0) (coeffs rem) degR of
                None \<Rightarrow> None
              | Some (Inl e) \<Rightarrow> Some (Inl e)
              | Some (Inr (quot, rem, degR)) \<Rightarrow>
                  Some (Inr (\<lparr>coeffs = trim_quot quot\<rparr>,
                    if degR < 0 then poly_Zero else \<lparr>coeffs = take (nat (degR + 1)) rem\<rparr>)))))"

section \<open>Coefficients and evaluation\<close>

text \<open>The coefficient function of a polynomial, zero beyond the slice.\<close>

definition pcoeff :: "('a::zero) Polynomial \<Rightarrow> nat \<Rightarrow> 'a" where
  "pcoeff p i = nth_default 0 (coeffs p) i"

lemma pcoeff_nth: "i < length (coeffs p) \<Longrightarrow> pcoeff p i = coeffs p ! i"
  by (simp add: pcoeff_def nth_default_nth)

lemma pcoeff_beyond: "length (coeffs p) \<le> i \<Longrightarrow> pcoeff p i = 0"
  by (simp add: pcoeff_def nth_default_beyond)

lemma horner: "fold (\<lambda>i out. out * x + c i) (rev [0..<n]) (a :: 'a::comm_ring_1) = a * x ^ n + (\<Sum>i<n. c i * x ^ i)"
  by (induction n arbitrary: a) (simp_all add: algebra_simps)

lemma poly_Eval_sum: "poly_Eval p x = (\<Sum>i<length (coeffs p). coeffs p ! i * (x :: 'a::comm_ring_1) ^ i)"
proof (cases "length (coeffs p)")
  case 0
  then show ?thesis by (simp add: poly_Eval_def)
next
  case (Suc n)
  then show ?thesis by (simp add: poly_Eval_def horner)
qed

lemma poly_Eval_pcoeff:
  assumes "length (coeffs p) \<le> n"
  shows "poly_Eval p x = (\<Sum>i<n. pcoeff p i * (x :: 'a::comm_ring_1) ^ i)"
proof -
  have "(\<Sum>i<n. pcoeff p i * x ^ i) = (\<Sum>i<length (coeffs p). pcoeff p i * x ^ i)"
    using assms by (intro sum.mono_neutral_right) (auto simp: pcoeff_beyond)
  then show ?thesis by (simp add: poly_Eval_sum pcoeff_nth)
qed

lemma poly_Eval_eqI:
  fixes p :: "'a::comm_ring_1 Polynomial"
  assumes "\<And>i. pcoeff p i = pcoeff q i"
  shows "poly_Eval p = poly_Eval q"
proof
  fix x
  show "poly_Eval p x = poly_Eval q x"
    using assms poly_Eval_pcoeff [of p "max (length (coeffs p)) (length (coeffs q))" x]
      poly_Eval_pcoeff [of q "max (length (coeffs p)) (length (coeffs q))" x] by simp
qed

subsection \<open>Addition, negation, scaling\<close>

lemma fold_write_nth:
  "length cs \<ge> n \<Longrightarrow> k < length cs \<Longrightarrow>
   fold (\<lambda>i cs. cs[i := h i]) [m..<n] cs ! k = (if m \<le> k \<and> k < n then h k else cs ! k)"
  by (induction n) (auto simp: nth_list_update)

lemma poly_Add_length: "length (coeffs (poly_Add p e)) = max (length (coeffs p)) (length (coeffs e))"
  by (simp add: poly_Add_def Let_def)

lemma pcoeff_Add: "pcoeff (poly_Add p e) i = pcoeff p i + pcoeff e i"
proof (cases "i < max (length (coeffs p)) (length (coeffs e))")
  case True
  then have "pcoeff (poly_Add p e) i = coeffs (poly_Add p e) ! i"
    by (simp add: pcoeff_nth poly_Add_length)
  also have "\<dots> = pcoeff p i + pcoeff e i"
    using True by (auto simp: poly_Add_def Let_def fold_write_nth pcoeff_def nth_default_def)
  finally show ?thesis .
next
  case False
  then show ?thesis by (simp add: pcoeff_beyond poly_Add_length not_less)
qed

lemma pcoeff_Neg: "pcoeff (poly_Neg p) i = - pcoeff (p :: 'a::group_add Polynomial) i"
  by (simp add: pcoeff_def poly_Neg_def nth_default_def)

lemma pcoeff_Sub: "pcoeff (poly_Sub p e) i = pcoeff p i - pcoeff (e :: 'a::group_add Polynomial) i"
  by (simp add: poly_Sub_def pcoeff_Add pcoeff_Neg)

lemma pcoeff_ScalarMul: "pcoeff (poly_ScalarMul p s) i = pcoeff p i * (s :: 'a::ring_1)"
  by (simp add: pcoeff_def poly_ScalarMul_def nth_default_def)

lemma poly_Equal_iff: "poly_Equal p q \<longleftrightarrow> (\<forall>i. pcoeff p i = pcoeff q i)"
proof -
  let ?p = "length (coeffs p)" and ?q = "length (coeffs q)"
  have "poly_Equal p q \<longleftrightarrow> (\<forall>i < max ?p ?q. pcoeff p i = pcoeff q i)"
    by (auto simp: poly_Equal_def Let_def list_all_iff pcoeff_def nth_default_def)
  also have "\<dots> \<longleftrightarrow> (\<forall>i. pcoeff p i = pcoeff q i)"
    by (auto simp: pcoeff_def nth_default_def)
  finally show ?thesis .
qed

lemma poly_IsZero_iff: "poly_IsZero p \<longleftrightarrow> (\<forall>i. pcoeff p i = 0)"
  by (auto simp: poly_IsZero_def list_all_length pcoeff_def nth_default_def)

subsection \<open>Multiplication\<close>

lemma conv_row:
  fixes g :: "nat \<Rightarrow> 'a::monoid_add"
  shows "k < length cs \<Longrightarrow> fold (\<lambda>r cs. cs[l + r := cs ! (l + r) + g r]) [0..<n] cs ! k =
      (if l \<le> k \<and> k - l < n then cs ! k + g (k - l) else cs ! k)"
proof (induction n)
  case (Suc n)
  then show ?case by (cases "k = l + n") (auto simp: nth_list_update)
qed simp

lemma conv_fold:
  fixes g :: "nat \<Rightarrow> nat \<Rightarrow> 'a::comm_monoid_add"
  assumes "k < length cs"
  shows "length (fold (\<lambda>l cs. fold (\<lambda>r cs. cs[l + r := cs ! (l + r) + g l r]) [0..<n] cs) [0..<m] cs) = length cs"
    and "fold (\<lambda>l cs. fold (\<lambda>r cs. cs[l + r := cs ! (l + r) + g l r]) [0..<n] cs) [0..<m] cs ! k =
      cs ! k + (\<Sum>l<m. if l \<le> k \<and> k - l < n then g l (k - l) else 0)"
proof -
  let ?F = "\<lambda>m. fold (\<lambda>l cs. fold (\<lambda>r cs. cs[l + r := cs ! (l + r) + g l r]) [0..<n] cs) [0..<m] cs"
  show len: "length (?F m) = length cs" for m by (induction m) simp_all
  show "?F m ! k = cs ! k + (\<Sum>l<m. if l \<le> k \<and> k - l < n then g l (k - l) else 0)"
    by (induction m) (use assms len in \<open>simp_all add: conv_row add.assoc\<close>)
qed

lemma poly_Mul_pcoeff:
  assumes "poly_Mul p e = Inr m" "coeffs e \<noteq> []"
  shows "pcoeff m k = (\<Sum>l\<le>k. pcoeff p l * pcoeff e (k - l))"
proof -
  let ?p = "length (coeffs p)" and ?e = "length (coeffs e)"
  let ?F = "fold (\<lambda>l cs. fold (\<lambda>r cs. cs[l + r := cs ! (l + r) + coeffs p ! l * coeffs e ! r])
                       [0..<?e] cs) [0..<?p] (replicate (?p + ?e - 1) 0)"
  from assms have m: "coeffs m = ?F" and pos: "0 < ?p" "0 < ?e"
    by (auto simp: poly_Mul_def split: if_splits)
  have len: "length ?F = ?p + ?e - 1"
    using conv_fold(1) [of 0 "replicate (?p + ?e - 1) 0"] pos by simp
  have nz: "pcoeff p l * pcoeff e (k - l) = 0" if "\<not> (l < ?p \<and> k - l < ?e)" for l
    using that by (auto simp: pcoeff_beyond)
  let ?L = "{l. l < ?p \<and> l \<le> k \<and> k - l < ?e}"
  have supp: "(\<Sum>l\<le>k. pcoeff p l * pcoeff e (k - l)) = (\<Sum>l\<in>?L. pcoeff p l * pcoeff e (k - l))"
    by (rule sum.mono_neutral_right) (auto intro: nz)
  also have "\<dots> = (\<Sum>l<?p. if l \<le> k \<and> k - l < ?e then coeffs p ! l * coeffs e ! (k - l) else 0)"
    unfolding sum.If_cases [OF finite_lessThan] by (simp, intro sum.cong) (auto simp: pcoeff_nth)
  finally have rhs: "(\<Sum>l\<le>k. pcoeff p l * pcoeff e (k - l)) = \<dots>" .
  show ?thesis
  proof (cases "k < ?p + ?e - 1")
    case True
    then show ?thesis
      unfolding rhs using len conv_fold(2) [of k "replicate (?p + ?e - 1) 0"]
      by (simp add: pcoeff_nth m)
  next
    case False
    then have "?L = {}" by auto
    with supp have "(\<Sum>l\<le>k. pcoeff p l * pcoeff e (k - l)) = 0" by (simp only: sum.empty)
    with False len m show ?thesis by (simp add: pcoeff_beyond)
  qed
qed

lemma poly_Mul_Eval:
  fixes p :: "'a::comm_ring_1 Polynomial"
  assumes "poly_Mul p e = Inr m" "coeffs e \<noteq> []"
  shows "poly_Eval m x = poly_Eval p x * poly_Eval e x"
proof -
  let ?n = "length (coeffs m) + length (coeffs p) + length (coeffs e)"
  have "poly_Eval p x * poly_Eval e x =
      (\<Sum>i<length (coeffs p). pcoeff p i * x ^ i) * (\<Sum>j<length (coeffs e). pcoeff e j * x ^ j)"
    by (simp only: poly_Eval_pcoeff [OF order_refl])
  also have "\<dots> = (\<Sum>(i, j)\<in>{..<length (coeffs p)} \<times> {..<length (coeffs e)}. pcoeff p i * pcoeff e j * x ^ (i + j))"
    by (simp add: sum_product sum.cartesian_product power_add mult.assoc mult.left_commute)
  also have "\<dots> = (\<Sum>(i, j)\<in>{(i, j). i + j < ?n}. pcoeff p i * pcoeff e j * x ^ (i + j))"
    by (rule sum.mono_neutral_left)
      (auto intro: finite_subset [of _ "{..<?n} \<times> {..<?n}"], auto simp: pcoeff_def nth_default_def split: if_splits)
  also have "\<dots> = (\<Sum>k<?n. \<Sum>i\<le>k. pcoeff p i * pcoeff e (k - i) * x ^ k)"
    by (simp add: sum.triangle_reindex)
  also have "\<dots> = (\<Sum>k<?n. pcoeff m k * x ^ k)"
    by (simp add: poly_Mul_pcoeff [OF assms] sum_distrib_right)
  also have "\<dots> = poly_Eval m x" by (rule poly_Eval_pcoeff [symmetric]) simp
  finally show ?thesis by simp
qed

lemma Eval_linear:
  fixes p :: "'a::comm_ring_1 Polynomial"
  shows "poly_Eval (poly_Add p q) x = poly_Eval p x + poly_Eval q x"
    and "poly_Eval (poly_Neg p) x = - poly_Eval p x"
    and "poly_Eval (poly_Sub p q) x = poly_Eval p x - poly_Eval q x"
    and "poly_Eval (poly_ScalarMul p s) x = poly_Eval p x * s"
proof -
  let ?n = "max (length (coeffs p)) (length (coeffs q))"
  show add: "poly_Eval (poly_Add p q) x = poly_Eval p x + poly_Eval q x" for q
    by (simp add: poly_Eval_pcoeff [where n = "max (length (coeffs p)) (length (coeffs q))"]
        poly_Add_length pcoeff_Add distrib_right sum.distrib)
  show neg: "poly_Eval (poly_Neg p) x = - poly_Eval p x" for p :: "'a Polynomial"
    by (simp add: poly_Eval_sum poly_Neg_def sum_negf)
  show "poly_Eval (poly_Sub p q) x = poly_Eval p x - poly_Eval q x"
    by (simp add: poly_Sub_def add neg)
  show "poly_Eval (poly_ScalarMul p s) x = poly_Eval p x * s"
    by (simp add: poly_Eval_sum poly_ScalarMul_def sum_distrib_left mult.commute mult.left_commute)
qed

subsection \<open>Degree\<close>

lemma scan_down_spec:
  "scan_down cs n < int n \<and> -1 \<le> scan_down cs n \<and>
   (\<forall>i<n. int i > scan_down cs n \<longrightarrow> cs ! i = 0) \<and>
   (0 \<le> scan_down cs n \<longrightarrow> cs ! nat (scan_down cs n) \<noteq> 0)"
  by (induction n) (auto simp: less_Suc_eq)

lemma poly_Degree_spec:
  "poly_Degree p < int (length (coeffs p))" "-1 \<le> poly_Degree p"
  "poly_Degree p < int i \<Longrightarrow> pcoeff p i = 0"
  "0 \<le> poly_Degree p \<Longrightarrow> pcoeff p (nat (poly_Degree p)) \<noteq> 0"
  using scan_down_spec [of "coeffs p" "length (coeffs p)"]
  by (auto simp: poly_Degree_def pcoeff_def nth_default_def)

lemma poly_Degree_unique:
  assumes "\<And>i. n < i \<Longrightarrow> pcoeff p i = 0" and "pcoeff p n \<noteq> 0"
  shows "poly_Degree p = int n"
proof (rule antisym)
  show "int n \<le> poly_Degree p" using poly_Degree_spec(3) [of p n] assms(2) by force
  then show "poly_Degree p \<le> int n"
    using poly_Degree_spec(4) [of p] assms(1) [of "nat (poly_Degree p)"] by (cases "poly_Degree p \<le> int n") auto
qed

subsection \<open>Division\<close>

lemma div_subtract_spec:
  assumes "shift + degQ < length rem"
  shows "length (div_subtract q degQ shift f rem) = length rem"
    and "k < length rem \<Longrightarrow> div_subtract q degQ shift f rem ! k =
      (if shift \<le> k \<and> k \<le> shift + degQ then rem ! k - q ! (k - shift) * f else rem ! k)"
proof -
  let ?F = "\<lambda>n. fold (\<lambda>i rem. rem[i + shift := rem ! (i + shift) - q ! i * f]) [0..<n] rem"
  show "length (div_subtract q degQ shift f rem) = length rem" by (simp add: div_subtract_def)
  have "?F n ! k = (if shift \<le> k \<and> k < shift + n then rem ! k - q ! (k - shift) * f else rem ! k)"
    if "k < length rem" for n
  proof (induction n)
    case (Suc n)
    then show ?case using that by (cases "k = n + shift") auto
  qed auto
  from this [of "Suc degQ"]
  show "k < length rem \<Longrightarrow> div_subtract q degQ shift f rem ! k =
      (if shift \<le> k \<and> k \<le> shift + degQ then rem ! k - q ! (k - shift) * f else rem ! k)"
    by (auto simp: div_subtract_def less_Suc_eq_le)
qed

text \<open>What the division loop keeps: the dividend is the divisor times the quotient so far plus the remainder.\<close>

definition div_inv ::
  "(nat \<Rightarrow> 'a::field) \<Rightarrow> 'a list \<Rightarrow> nat \<Rightarrow> 'a list \<Rightarrow> 'a list \<Rightarrow> int \<Rightarrow> bool" where
  "div_inv P q degQ quot rem degR \<longleftrightarrow>
     -1 \<le> degR \<and> degR < int (length rem) \<and> degR - int degQ < int (length quot) \<and>
     (\<forall>i<length rem. degR < int i \<longrightarrow> rem ! i = 0) \<and> (0 \<le> degR \<longrightarrow> rem ! nat degR \<noteq> 0) \<and>
     (\<forall>s<length quot. int s \<le> degR - int degQ \<longrightarrow> quot ! s = 0) \<and>
     (\<forall>k. P k = (\<Sum>l\<le>k. nth_default 0 q l * nth_default 0 quot (k - l)) + nth_default 0 rem k)"

lemma conv_update:
  fixes c :: "nat \<Rightarrow> 'a::field"
  assumes "s < length quot" "quot ! s = 0"
  shows "(\<Sum>l\<le>k. c l * nth_default 0 (quot[s := f]) (k - l)) =
    (\<Sum>l\<le>k. c l * nth_default 0 quot (k - l)) + (if s \<le> k then c (k - s) * f else 0)"
proof -
  have "nth_default 0 (quot[s := f]) j = nth_default 0 quot j + (if j = s then f else 0)" for j
    using assms by (auto simp: nth_default_def nth_list_update)
  then have "(\<Sum>l\<le>k. c l * nth_default 0 (quot[s := f]) (k - l)) =
      (\<Sum>l\<le>k. c l * nth_default 0 quot (k - l)) + (\<Sum>l\<le>k. if l = k - s \<and> s \<le> k then c l * f else 0)"
    by (simp add: distrib_left sum.distrib) (intro sum.cong, auto)
  also have "(\<Sum>l\<le>k. if l = k - s \<and> s \<le> k then c l * f else 0) = (if s \<le> k then c (k - s) * f else 0)"
    by simp
  finally show ?thesis .
qed

lemma div_inv_step:
  assumes inv: "div_inv P q degQ quot rem degR" and ge: "int degQ \<le> degR"
    and q: "degQ < length q" "q ! degQ \<noteq> 0" "\<And>i. degQ < i \<Longrightarrow> i < length q \<Longrightarrow> q ! i = 0"
  defines "s \<equiv> nat degR - degQ" and "f \<equiv> rem ! nat degR / q ! degQ"
  defines "rem' \<equiv> div_subtract q degQ s f rem"
  shows "div_inv P q degQ (quot[s := f]) rem' (scan_down rem' (Suc (nat degR)))"
    and "scan_down rem' (Suc (nat degR)) < degR"
proof -
  let ?d = "nat degR" and ?d' = "scan_down rem' (Suc (nat degR))"
  have d: "s + degQ = ?d" "?d < length rem" "int ?d = degR" using inv ge by (auto simp: div_inv_def s_def)
  have "int s = degR - int degQ" using d by linarith
  then have s: "s < length quot" "quot ! s = 0" using inv by (auto simp: div_inv_def)
  have len: "length rem' = length rem" using div_subtract_spec(1) [of s degQ rem q f] d by (simp add: rem'_def)
  have at: "rem' ! k = (if s \<le> k \<and> k \<le> ?d then rem ! k - q ! (k - s) * f else rem ! k)" if "k < length rem" for k
    using div_subtract_spec(2) [of s degQ rem k q f] d that by (simp add: rem'_def)
  have "?d - s = degQ" "s \<le> ?d" using d(1) by linarith+
  with at [OF d(2)] q(2) have top: "rem' ! ?d = 0" by (simp add: f_def)
  have scan: "?d' < int (Suc ?d)" "-1 \<le> ?d'" "\<And>i. i < Suc ?d \<Longrightarrow> ?d' < int i \<Longrightarrow> rem' ! i = 0"
    "0 \<le> ?d' \<Longrightarrow> rem' ! nat ?d' \<noteq> 0"
    using scan_down_spec [of rem' "Suc ?d"] by blast+
  show lt: "?d' < degR"
    using scan(1,4) top d(3) ge by (cases "?d' = degR") auto
  have bounds: "?d' < int (length rem')" "?d' - int degQ < int (length quot)"
    using lt d(2,3) len s(1) \<open>int s = degR - int degQ\<close> by linarith+
  have "P k = (\<Sum>l\<le>k. nth_default 0 q l * nth_default 0 (quot[s := f]) (k - l)) + nth_default 0 rem' k" for k
  proof -
    have "nth_default 0 rem' k = nth_default 0 rem k - (if s \<le> k then nth_default 0 q (k - s) * f else 0)"
    proof (cases "k \<le> ?d")
      case True
      then show ?thesis using at [of k] d len q(1) by (auto simp: nth_default_def)
    next
      case False
      then have "nth_default 0 q (k - s) = 0" using q(3) [of "k - s"] d by (auto simp: nth_default_def)
      with False at [of k] len show ?thesis by (auto simp: nth_default_def)
    qed
    moreover have "P k = (\<Sum>l\<le>k. nth_default 0 q l * nth_default 0 quot (k - l)) + nth_default 0 rem k"
      using inv by (simp add: div_inv_def)
    ultimately show ?thesis by (simp add: conv_update [OF s])
  qed
  moreover have "rem' ! i = 0" if "i < length rem'" "?d' < int i" for i
  proof (cases "i \<le> ?d")
    case True
    with scan(3) [of i] that(2) show ?thesis by (metis less_Suc_eq_le)
  next
    case False
    then show ?thesis using at [of i] that len inv d(3) by (auto simp: div_inv_def)
  qed
  moreover have "quot[s := f] ! j = 0" if "j < length quot" "int j \<le> ?d' - int degQ" for j
    using inv that lt d by (auto simp: div_inv_def nth_list_update)
  ultimately show "div_inv P q degQ (quot[s := f]) rem' ?d'"
    unfolding div_inv_def using scan(2,4) bounds by simp
qed

lemma div_loop_spec:
  assumes "div_inv P q degQ quot rem degR"
    and "degQ < length q" "q ! degQ \<noteq> 0" "\<And>i. degQ < i \<Longrightarrow> i < length q \<Longrightarrow> q ! i = 0"
  obtains quot' rem' d' where "div_loop q degQ quot rem degR = Some (Inr (quot', rem', d'))"
    "div_inv P q degQ quot' rem' d'" "d' < int degQ" "length quot' = length quot"
proof -
  have "\<exists>quot' rem' d'. div_loop q degQ quot rem degR = Some (Inr (quot', rem', d')) \<and>
      div_inv P q degQ quot' rem' d' \<and> d' < int degQ \<and> length quot' = length quot"
    using assms(1)
  proof (induction "nat (degR + 1)" arbitrary: quot rem degR rule: less_induct)
    case less
    show ?case
    proof (cases "int degQ \<le> degR")
      case False
      then show ?thesis using less.prems by (subst div_loop.simps) auto
    next
      case True
      let ?s = "nat degR - degQ" and ?f = "rem ! nat degR / q ! degQ"
      let ?rem = "div_subtract q degQ ?s ?f rem"
      note step = div_inv_step [OF less.prems True assms(2-4)]
      have "nat (scan_down ?rem (Suc (nat degR)) + 1) < nat (degR + 1)"
        using step True by (auto simp: div_inv_def)
      from less.hyps [OF this step(1)] True assms(3) show ?thesis
        by (subst div_loop.simps) (auto simp: field_TryDiv_def Let_def)
    qed
  qed
  with that show thesis by blast
qed

lemma trim_quot_spec:
  "(quot \<noteq> [] \<longrightarrow> trim_quot quot \<noteq> []) \<and> nth_default 0 (trim_quot quot) = nth_default 0 quot"
proof (induction quot rule: trim_quot.induct)
  case (1 quot)
  let ?c = "length quot > 1 \<and> quot ! (length quot - 1) = 0"
  show ?case
  proof (cases ?c)
    case True
    then have "nth_default 0 (take (length quot - 1) quot) j = nth_default 0 quot j" for j
      by (cases "j = length quot - 1") (auto simp: nth_default_def)
    moreover have "take (length quot - 1) quot \<noteq> []" using True by auto
    ultimately show ?thesis using 1 True by (subst (1 2) trim_quot.simps) auto
  next
    case False
    then show ?thesis by (subst (1 2) trim_quot.simps) auto
  qed
qed

lemma poly_Clone_id [simp]: "poly_Clone p = p"
  by (simp add: poly_Clone_def)

lemma div_inv_init:
  assumes "int degQ \<le> poly_Degree p"
  shows "div_inv (pcoeff p) q degQ (replicate (nat (poly_Degree p - int degQ + 1)) 0) (coeffs p) (poly_Degree p)"
proof -
  have "nth_default 0 (replicate n (0::'a)) = (\<lambda>_. 0)" for n by (auto simp: nth_default_def)
  then show ?thesis
    using assms scan_down_spec [of "coeffs p" "length (coeffs p)"]
    by (auto simp: div_inv_def pcoeff_def poly_Degree_def)
qed

lemma div_inv_result:
  assumes "div_inv (pcoeff p) (coeffs q) degQ quot rem d" "d < int degQ"
    and "quot \<noteq> []" "poly_Degree q = int degQ"
  defines "quot' \<equiv> \<lparr>coeffs = trim_quot quot\<rparr>"
    and "rem' \<equiv> (if d < 0 then poly_Zero else \<lparr>coeffs = take (nat (d + 1)) rem\<rparr>)"
  shows "\<exists>m. poly_Mul q quot' = Inr m \<and> poly_Equal p (poly_Add m rem')" "poly_Degree rem' < poly_Degree q"
proof -
  have "coeffs q \<noteq> []" using assms(4) poly_Degree_spec(1) [of q] by auto
  then obtain m where m: "poly_Mul q quot' = Inr m" by (simp add: poly_Mul_def)
  have "coeffs quot' \<noteq> []" using trim_quot_spec [of quot] assms(3) by (simp add: quot'_def)
  note mk = poly_Mul_pcoeff [OF m this]
  have rem: "pcoeff rem' k = nth_default 0 rem k" for k
    using assms(1) by (auto simp: rem'_def poly_Zero_def pcoeff_def nth_default_def div_inv_def nth_Cons')
  have "pcoeff quot' k = nth_default 0 quot k" for k
    using trim_quot_spec [of quot] by (simp add: pcoeff_def quot'_def)
  then have "pcoeff p k = pcoeff (poly_Add m rem') k" for k
    using assms(1) by (simp add: pcoeff_Add mk rem div_inv_def) (simp add: pcoeff_def)
  with m show "\<exists>m. poly_Mul q quot' = Inr m \<and> poly_Equal p (poly_Add m rem')"
    by (auto simp: poly_Equal_iff)
  have low: "pcoeff rem' k = 0" if "d < int k" for k
    using assms(1) that by (auto simp: rem div_inv_def nth_default_def)
  have "-1 \<le> d" using assms(1) by (simp add: div_inv_def)
  with low [of "nat (poly_Degree rem')"] poly_Degree_spec(4) [of rem'] have "poly_Degree rem' \<le> d"
    by (cases "0 \<le> poly_Degree rem'") (auto simp: not_less [symmetric])
  with assms(2,4) show "poly_Degree rem' < poly_Degree q" by simp
qed

subsection \<open>Serialisation, sampling\<close>

lemma slice_concat_const:
  "(\<And>xs. xs \<in> set xss \<Longrightarrow> length xs = c) \<Longrightarrow> i < length xss \<Longrightarrow> take c (drop (i * c) (concat xss)) = xss ! i"
proof (induction xss arbitrary: i)
  case (Cons xs xss)
  then show ?case by (cases i) simp_all
qed simp

lemma RandomNonIdentity_Inr:
  "RandomNonIdentity prng = Inr (e, rest) \<Longrightarrow> e \<noteq> 0 \<and> (\<exists>n. prng = replicate n 0 @ e # rest)"
proof (induction prng)
  case (Cons x prng)
  show ?case
  proof (cases "x = 0")
    case True
    with Cons obtain n where "e \<noteq> 0" "prng = replicate n 0 @ e # rest" by (auto simp: RandomNonIdentity_def)
    with True show ?thesis by (intro conjI exI [of _ "Suc n"]) simp_all
  next
    case False
    with Cons.prems show ?thesis by (intro conjI exI [of _ 0]) (simp_all add: RandomNonIdentity_def)
  qed
qed (simp add: RandomNonIdentity_def)

section \<open>Properties\<close>

text \<open>C38. Euclidean division terminates on every input: it reports a division by zero exactly when the divisor
  is the zero polynomial, and otherwise returns a quotient and a remainder such that the dividend equals
  divisor times quotient plus remainder, as the package's own product, sum and equality say, and the remainder
  has a smaller degree than the divisor.\<close>

theorem EuclideanDiv_correct:
  assumes "coeffs p \<noteq> []"
  shows "if poly_IsZero q then EuclideanDiv p q = Some (Inl ErrDivisionByZero)
    else \<exists>quot rem m. EuclideanDiv p q = Some (Inr (quot, rem)) \<and> poly_Mul q quot = Inr m \<and>
           poly_Equal p (poly_Add m rem) \<and> poly_Degree rem < poly_Degree q"
proof (cases "poly_IsZero q")
  case False
  obtain n where n: "poly_Degree q = int n"
  proof -
    from False obtain i where "pcoeff q i \<noteq> 0" by (auto simp: poly_IsZero_iff)
    with poly_Degree_spec(3) [of q i] have "0 \<le> poly_Degree q" by force
    with that [of "nat (poly_Degree q)"] show thesis by simp
  qed
  have zeros: "pcoeff poly_Zero i = (0::'a)" for i
    by (simp add: poly_Zero_def pcoeff_def nth_default_def nth_Cons')
  have small: "\<exists>m. poly_Mul q poly_Zero = Inr m \<and> poly_Equal p (poly_Add m p)"
  proof -
    have "coeffs q \<noteq> []" using n poly_Degree_spec(1) [of q] by auto
    then obtain m where m: "poly_Mul q poly_Zero = Inr m" by (simp add: poly_Mul_def)
    have "coeffs (poly_Zero :: 'a Polynomial) \<noteq> []" by (simp add: poly_Zero_def)
    then have "pcoeff m k = 0" for k by (simp add: poly_Mul_pcoeff [OF m] zeros)
    with m show ?thesis by (auto simp: poly_Equal_iff pcoeff_Add)
  qed
  have qn: "n < length (coeffs q)" "coeffs q ! n \<noteq> 0" "\<And>i. n < i \<Longrightarrow> i < length (coeffs q) \<Longrightarrow> coeffs q ! i = 0"
    using scan_down_spec [of "coeffs q" "length (coeffs q)"] n by (auto simp: poly_Degree_def)
  consider (zero) "poly_IsZero p" | (less) "\<not> poly_IsZero p" "poly_Degree p < poly_Degree q"
    | (ge) "\<not> poly_IsZero p" "int n \<le> poly_Degree p" using n by linarith
  then show ?thesis
  proof cases
    case zero
    then have "poly_Equal p (poly_Add m poly_Zero)" if "poly_Equal p (poly_Add m p)" for m
      using that by (auto simp: poly_Equal_iff poly_IsZero_iff pcoeff_Add zeros)
    moreover have "poly_Degree (poly_Zero :: 'a Polynomial) = -1" by (simp add: poly_Degree_def poly_Zero_def)
    ultimately show ?thesis using small zero False n by (auto simp: EuclideanDiv_def assms)
  next
    case less
    then have "EuclideanDiv p q = Some (Inr (poly_Zero, p))"
      using False by (simp add: EuclideanDiv_def assms Let_def)
    with less False small show ?thesis by auto
  next
    case ge
    obtain quot rem d where
      res: "div_loop (coeffs q) n (replicate (nat (poly_Degree p - int n + 1)) 0) (coeffs p) (poly_Degree p) = Some (Inr (quot, rem, d))"
      and inv: "div_inv (pcoeff p) (coeffs q) n quot rem d" "d < int n"
      and len: "length quot = length (replicate (nat (poly_Degree p - int n + 1)) (0 :: 'a))"
      by (rule div_loop_spec [OF div_inv_init [OF ge(2)] qn])
    have "quot \<noteq> []" using len ge by auto
    note div_inv_result [OF inv this n]
    then show ?thesis
      using ge False n res by (auto simp: EuclideanDiv_def assms Let_def)
  qed
qed (simp add: EuclideanDiv_def assms)

theorem EuclideanDiv_correct_witness:
  "\<exists>quot rem m. EuclideanDiv \<lparr>coeffs = [1, 0, 2 :: rat]\<rparr> \<lparr>coeffs = [1, 2, 0]\<rparr> = Some (Inr (quot, rem)) \<and>
     poly_Mul \<lparr>coeffs = [1, 2, 0]\<rparr> quot = Inr m \<and> poly_Equal \<lparr>coeffs = [1, 0, 2]\<rparr> (poly_Add m rem) \<and>
     poly_Degree rem < poly_Degree \<lparr>coeffs = [1, 2, 0 :: rat]\<rparr>"
  using EuclideanDiv_correct [of "\<lparr>coeffs = [1, 0, 2 :: rat]\<rparr>" "\<lparr>coeffs = [1, 2, 0]\<rparr>"]
  by (simp add: poly_IsZero_def)

text \<open>Evaluation is a ring homomorphism: Horner's rule on a sum, difference, negation, scalar multiple or
  schoolbook product gives the sum, difference, negation, multiple or product of the values; so it does not
  depend on how many trailing zero coefficients a representation carries.\<close>

theorem poly_Eval_homomorphism:
  fixes p e :: "'a::comm_ring_1 Polynomial"
  assumes "coeffs p \<noteq> []" "coeffs e \<noteq> []"
  shows "poly_Eval (poly_Add p e) x = poly_Eval p x + poly_Eval e x \<and>
    poly_Eval (poly_Sub p e) x = poly_Eval p x - poly_Eval e x \<and>
    poly_Eval (poly_Neg p) x = - poly_Eval p x \<and>
    poly_Eval (poly_ScalarMul p s) x = poly_Eval p x * s \<and>
    (\<exists>m. poly_Mul p e = Inr m \<and> poly_Eval m x = poly_Eval p x * poly_Eval e x) \<and>
    (poly_Equal p e \<longrightarrow> poly_Eval p x = poly_Eval e x)"
proof -
  have "\<exists>m. poly_Mul p e = Inr m" using assms by (simp add: poly_Mul_def)
  moreover have "poly_Equal p e \<Longrightarrow> poly_Eval p x = poly_Eval e x"
    using poly_Eval_eqI [of p e] by (simp add: poly_Equal_iff)
  ultimately show ?thesis using poly_Mul_Eval [OF _ assms(2)] by (auto simp: Eval_linear)
qed

theorem poly_Eval_homomorphism_witness:
  "\<exists>m. poly_Mul \<lparr>coeffs = [1, 1 :: int]\<rparr> \<lparr>coeffs = [-1, 1, 0]\<rparr> = Inr m \<and> poly_Eval m 5 = 24"
  using poly_Eval_homomorphism [of "\<lparr>coeffs = [1, 1 :: int]\<rparr>" "\<lparr>coeffs = [-1, 1, 0]\<rparr>" 5 0]
  by (auto simp: poly_Eval_def eval_nat_numeral)

text \<open>Serialisation: for a ring whose elements have a fixed-coeffSize encoding that decodes to them again,
  \<open>FromBytes\<close> reads back what \<open>Bytes\<close> wrote, for every non-empty coefficient slice.\<close>

theorem poly_Bytes_roundtrip:
  assumes "coeffs p \<noteq> []" "0 < coeffSize" "\<And>c. length (bytes c) = coeffSize" "\<And>c. fromBytes (bytes c) = Inr c"
  shows "\<exists>b. poly_Bytes bytes p = Inr b \<and> poly_FromBytes coeffSize fromBytes b = Inr p"
proof -
  let ?b = "concat (map bytes (coeffs p))"
  have app: "fold (\<lambda>c out. out @ bytes c) cs acc = acc @ concat (map bytes cs)" for cs acc
    by (induction cs arbitrary: acc) simp_all
  have len: "length ?b = length (coeffs p) * coeffSize"
    using assms(3) length_concat_const [of "map bytes (coeffs p)" coeffSize] by auto
  have "MapOrError (\<lambda>i. fromBytes (take coeffSize (drop (i * coeffSize) ?b))) [0..<length (coeffs p)]
      = Inr (map (\<lambda>i. coeffs p ! i) [0..<length (coeffs p)])"
    using assms(3,4) by (intro MapOrError_ok) (subst slice_concat_const, auto)
  then have "poly_FromBytes coeffSize fromBytes ?b = Inr p"
    using assms(1,2) len by (simp add: poly_FromBytes_def poly_New_def map_nth)
  with assms(1) show ?thesis by (simp add: poly_Bytes_def app)
qed

theorem poly_Bytes_roundtrip_witness:
  "\<exists>b. poly_Bytes (\<lambda>c. [c]) \<lparr>coeffs = [3, 0, 7 :: 8 word]\<rparr> = Inr b \<and>
     poly_FromBytes 1 (\<lambda>b. Inr (b ! 0)) b = Inr \<lparr>coeffs = [3, 0, 7]\<rparr>"
  by (rule poly_Bytes_roundtrip) simp_all

text \<open>A sampled polynomial has the constant term asked for and exactly the degree asked for: its leading
  coefficient is the first non-zero sample after the middle coefficients, so it never vanishes. For degree one
  the polynomial therefore takes a value other than its constant term at every non-zero point.\<close>

theorem RandomPolynomial_degree:
  assumes "RandomPolynomialWithConstantTerm degree c prng = Inr (p, prng')"
  shows "poly_ConstantTerm p = Inr c \<and> length (coeffs p) = nat degree + 1 \<and>
    (0 < degree \<longrightarrow> poly_Degree p = degree) \<and>
    (degree = 1 \<longrightarrow> (\<forall>x. x \<noteq> (0 :: 'a::field) \<longrightarrow> poly_Eval p x \<noteq> c))"
proof (cases "degree = 0")
  case False
  with assms obtain mid lead where p: "p = \<lparr>coeffs = c # mid @ [lead]\<rparr>" "lead \<noteq> 0" "length mid = nat degree - 1" "0 < degree"
    by (auto simp: RandomPolynomialWithConstantTerm_def draw_Inr_iff rbind_eq_Inr_iff dest: RandomNonIdentity_Inr split: if_splits)
  have "poly_Degree p = int (nat degree)"
  proof (rule poly_Degree_unique)
    show "pcoeff p i = 0" if "nat degree < i" for i using p that by (simp add: pcoeff_def nth_default_def)
    show "pcoeff p (nat degree) \<noteq> 0"
      using p by (cases "nat degree") (auto simp: pcoeff_def nth_default_def nth_append)
  qed
  moreover have "poly_Eval p x = lead * x + c" if "degree = 1" for x
    using that p by (simp add: poly_Eval_def)
  ultimately show ?thesis using p by (simp add: poly_ConstantTerm_def)
qed (use assms in \<open>auto simp: RandomPolynomialWithConstantTerm_def poly_ConstantTerm_def\<close>)

theorem RandomPolynomial_degree_witness:
  "poly_Degree \<lparr>coeffs = [5, 0, 3 :: rat]\<rparr> = 2"
  using RandomPolynomial_degree [of 2 5 "[0, 0, 3, 8]" "\<lparr>coeffs = [5, 0, 3 :: rat]\<rparr>" "[8]"]
  by (simp add: RandomPolynomialWithConstantTerm_def eval_nat_numeral RandomNonIdentity_def)

end
