(* ===== verification/Matrix.thy ===== *)
theory Matrix
  imports Prelude
begin

text \<open>
  The matrices of \<open>pkg/base/mat\<close>: dimensions and a flat slice in row-major order
  (\<open>traits.go\<close>, \<open>rectangular.go\<close>, \<open>vectors.go\<close>, \<open>module_valued.go\<close>). Elements come from a type of the
  class \<open>ab_group_add\<close> (\<open>Op\<close> is \<open>+\<close>), from a ring, or from a group on which a ring acts, the
  action being an argument. Methods that change a matrix in place return the new matrix; the ones
  that copy first are the same function on the copy. Index arguments are signed, as in the code.

  Dimensions are natural numbers and are multiplied without bound, where the code has \<open>int\<close> (converted from \<open>uint\<close> by the
  constructor of a module): the definitions are those of the code for matrices of fewer than \<open>2 ^ 63\<close> entries, the only
  ones whose slice can be allocated. The loops over all cells read and write the slice by \<open>xs ! i\<close> and \<open>xs[i := v]\<close>; for
  matrices that satisfy \<open>mat_wf\<close>, which every constructor establishes, these indices are in range (\<open>mat_wf_index\<close>),
  so the panics of the code that the definitions spell out are those of explicit checks and of nil arguments.
\<close>

section \<open>Data\<close>

record 'a Matrix =
  mrows :: nat
  mcols :: nat
  mdata :: "'a list"

record MatrixModule =
  modrows :: nat
  modcols :: nat

definition mat_idx :: "'a Matrix \<Rightarrow> nat \<Rightarrow> nat \<Rightarrow> nat" where
  "mat_idx m row col = row * mcols m + col"

text \<open>Entry \<open>(i, j)\<close>, the well-formedness of the slice, and a matrix filled cell by cell.\<close>

definition ent :: "'a Matrix \<Rightarrow> nat \<Rightarrow> nat \<Rightarrow> 'a" where
  "ent m i j = mdata m ! mat_idx m i j"

definition mat_wf :: "'a Matrix \<Rightarrow> bool" where
  "mat_wf m \<longleftrightarrow> length (mdata m) = mrows m * mcols m \<and> 0 < mrows m \<and> 0 < mcols m"

definition mat_fill :: "nat \<Rightarrow> nat \<Rightarrow> (nat \<Rightarrow> nat \<Rightarrow> 'a) \<Rightarrow> 'a Matrix" where
  "mat_fill r c f = \<lparr>mrows = r, mcols = c, mdata = concat (map (\<lambda>i. map (f i) [0..<c]) [0..<r])\<rparr>"

section \<open>Structures and constructors\<close>

definition NewMatrixModule :: "nat \<Rightarrow> nat \<Rightarrow> 'r option \<Rightarrow> MatrixModule res" where
  "NewMatrixModule rows cols ring =
     (if rows = 0 \<or> cols = 0 then Inl ErrDimension
      else if ring = None then Inl ErrFailed
      else Inr \<lparr>modrows = rows, modcols = cols\<rparr>)"

definition mod_OpIdentity :: "MatrixModule \<Rightarrow> ('a::zero) Matrix" where
  "mod_OpIdentity mm = \<lparr>mrows = modrows mm, mcols = modcols mm,
     mdata = replicate (modrows mm * modcols mm) 0\<rparr>"

fun mod_New_rows :: "nat \<Rightarrow> 'a list list \<Rightarrow> 'a list res" where
  "mod_New_rows c [] = Inr []"
| "mod_New_rows c (row # rows) =
     (if length row \<noteq> c then Inl ErrDimension
      else rbind (mod_New_rows c rows) (\<lambda>d. Inr (row @ d)))"

definition mod_New :: "MatrixModule \<Rightarrow> 'a list list \<Rightarrow> 'a Matrix res" where
  "mod_New mm rows =
     (if length rows \<noteq> modrows mm then Inl ErrDimension
      else rbind (mod_New_rows (modcols mm) rows)
        (\<lambda>d. Inr \<lparr>mrows = modrows mm, mcols = modcols mm, mdata = d\<rparr>))"

definition mod_NewRowMajor :: "MatrixModule \<Rightarrow> 'a list \<Rightarrow> 'a Matrix res" where
  "mod_NewRowMajor mm elements =
     (if length elements \<noteq> modrows mm * modcols mm then Inl ErrDimension
      else Inr \<lparr>mrows = modrows mm, mcols = modcols mm, mdata = elements\<rparr>)"

definition mod_Random :: "MatrixModule \<Rightarrow> 'a list \<Rightarrow> ('a Matrix \<times> 'a list) res" where
  "mod_Random mm prng =
     rbind (draw (modrows mm * modcols mm) prng) (\<lambda>(values, prng').
       rbind (mod_NewRowMajor mm values) (\<lambda>out. Inr (out, prng')))"

definition NewStandardUnit :: "MatrixModule \<Rightarrow> int \<Rightarrow> ('a::zero_neq_one) Matrix res" where
  "NewStandardUnit mm i =
     (if i < 0 \<or> i \<ge> int (modcols mm) then Inl ErrDimension
      else Inr \<lparr>mrows = 1, mcols = modcols mm, mdata = (replicate (modcols mm) 0)[nat i := 1]\<rparr>)"

definition NewRowVectorModule :: "nat \<Rightarrow> 'r option \<Rightarrow> MatrixModule res" where
  "NewRowVectorModule n ring = NewMatrixModule 1 n ring"

definition NewColumnVectorModule :: "nat \<Rightarrow> 'r option \<Rightarrow> MatrixModule res" where
  "NewColumnVectorModule n ring = NewMatrixModule n 1 ring"

section \<open>Access\<close>

definition mat_Get :: "'a Matrix \<Rightarrow> int \<Rightarrow> int \<Rightarrow> 'a res" where
  "mat_Get m row col =
     (if row < 0 \<or> row \<ge> int (mrows m) \<or> col < 0 \<or> col \<ge> int (mcols m) then Inl ErrDimension
      else Inr (mdata m ! mat_idx m (nat row) (nat col)))"

definition mat_GetRow :: "'a Matrix \<Rightarrow> int \<Rightarrow> 'a Matrix res" where
  "mat_GetRow m i =
     (if i < 0 \<or> i \<ge> int (mrows m) then Inl ErrDimension
      else Inr \<lparr>mrows = 1, mcols = mcols m, mdata = take (mcols m) (drop (nat i * mcols m) (mdata m))\<rparr>)"

text \<open>\<open>IterRows\<close> panics should \<open>GetRow\<close> fail, \<open>IterInRow\<close> yields nothing then.\<close>

definition mat_IterRows :: "'a Matrix \<Rightarrow> 'a Matrix list res" where
  "mat_IterRows m =
     (case MapOrError (\<lambda>i. mat_GetRow m (int i)) [0..<mrows m] of
        Inl _ \<Rightarrow> Inl Panic | Inr rs \<Rightarrow> Inr rs)"

definition mat_IterInRow :: "'a Matrix \<Rightarrow> int \<Rightarrow> 'a list" where
  "mat_IterInRow m i = (case mat_GetRow m i of Inl _ \<Rightarrow> [] | Inr row \<Rightarrow> mdata row)"

definition mat_GetColumn :: "'a Matrix \<Rightarrow> int \<Rightarrow> 'a Matrix res" where
  "mat_GetColumn m j =
     (if j < 0 \<or> j \<ge> int (mcols m) then Inl ErrDimension
      else Inr \<lparr>mrows = mrows m, mcols = 1,
             mdata = map (\<lambda>i. mdata m ! mat_idx m i (nat j)) [0..<mrows m]\<rparr>)"

definition mat_IterColumns :: "'a Matrix \<Rightarrow> 'a Matrix list res" where
  "mat_IterColumns m =
     (case MapOrError (\<lambda>j. mat_GetColumn m (int j)) [0..<mcols m] of
        Inl _ \<Rightarrow> Inl Panic | Inr cs \<Rightarrow> Inr cs)"

definition mat_IterInColumn :: "'a Matrix \<Rightarrow> int \<Rightarrow> 'a list" where
  "mat_IterInColumn m j = (case mat_GetColumn m j of Inl _ \<Rightarrow> [] | Inr column \<Rightarrow> mdata column)"

definition mat_Iter :: "'a Matrix \<Rightarrow> 'a list" where
  "mat_Iter m = mdata m"

definition mat_IsSquare :: "'a Matrix \<Rightarrow> bool" where
  "mat_IsSquare m = (mrows m = mcols m)"

definition mat_IsRowVector :: "'a Matrix \<Rightarrow> bool" where
  "mat_IsRowVector m = (mrows m = 1)"

definition mat_IsColumnVector :: "'a Matrix \<Rightarrow> bool" where
  "mat_IsColumnVector m = (mcols m = 1)"

definition mat_vectorLength :: "'a Matrix \<Rightarrow> int" where
  "mat_vectorLength m =
     (if mat_IsRowVector m then int (mcols m)
      else if mat_IsColumnVector m then int (mrows m) else -1)"

definition mat_Equal :: "'a Matrix \<Rightarrow> 'a Matrix \<Rightarrow> bool" where
  "mat_Equal m other =
     (if mrows m \<noteq> mrows other \<or> mcols m \<noteq> mcols other then False
      else list_all (\<lambda>i. mdata m ! i = mdata other ! i) [0..<length (mdata m)])"

definition mat_IsOpIdentity :: "('a::zero) Matrix \<Rightarrow> bool" where
  "mat_IsOpIdentity m = list_all (\<lambda>x. x = 0) (mdata m)"

definition mat_IsDiagonal :: "('a::zero) Matrix \<Rightarrow> bool" where
  "mat_IsDiagonal m =
     list_all (\<lambda>i. list_all (\<lambda>j. \<not> (i \<noteq> j \<and> mdata m ! mat_idx m i j \<noteq> 0)) [0..<mcols m]) [0..<mrows m]"

section \<open>Rearranging\<close>

definition mat_Augment :: "'a Matrix \<Rightarrow> 'a Matrix \<Rightarrow> 'a Matrix res" where
  "mat_Augment m other =
     (if mrows m \<noteq> mrows other then Inl ErrDimension
      else Inr \<lparr>mrows = mrows m, mcols = mcols m + mcols other,
        mdata = concat (map (\<lambda>i. take (mcols m) (drop (i * mcols m) (mdata m)) @
                                take (mcols other) (drop (i * mcols other) (mdata other)))
                         [0..<mrows m])\<rparr>)"

definition mat_Stack :: "'a Matrix \<Rightarrow> 'a Matrix \<Rightarrow> 'a Matrix res" where
  "mat_Stack m other =
     (if mcols m \<noteq> mcols other then Inl ErrDimension
      else Inr \<lparr>mrows = mrows m + mrows other, mcols = mcols m, mdata = mdata m @ mdata other\<rparr>)"

definition mat_SubMatrixGivenRows :: "'a Matrix \<Rightarrow> int list \<Rightarrow> 'a Matrix res" where
  "mat_SubMatrixGivenRows m indices =
     (if length indices = 0 then Inl ErrDimension
      else if list_ex (\<lambda>i. i < 0 \<or> i \<ge> int (mrows m)) indices then Inl ErrDimension
      else Inr \<lparr>mrows = length indices, mcols = mcols m,
        mdata = concat (map (\<lambda>i. take (mcols m) (drop (nat i * mcols m) (mdata m))) indices)\<rparr>)"

definition mat_RowSlice :: "'a Matrix \<Rightarrow> int \<Rightarrow> int \<Rightarrow> 'a Matrix res" where
  "mat_RowSlice m start end =
     (if start < 0 \<or> end > int (mrows m) \<or> start \<ge> end then Inl ErrDimension
      else Inr \<lparr>mrows = nat (end - start), mcols = mcols m,
        mdata = take (nat (end - start) * mcols m) (drop (nat start * mcols m) (mdata m))\<rparr>)"

definition mat_SubMatrixGivenColumns :: "'a Matrix \<Rightarrow> int list \<Rightarrow> 'a Matrix res" where
  "mat_SubMatrixGivenColumns m indices =
     (if length indices = 0 then Inl ErrDimension
      else if list_ex (\<lambda>j. j < 0 \<or> j \<ge> int (mcols m)) indices then Inl ErrDimension
      else Inr (mat_fill (mrows m) (length indices)
        (\<lambda>i j. mdata m ! mat_idx m i (nat (indices ! j)))))"

definition mat_ColumnSlice :: "'a Matrix \<Rightarrow> int \<Rightarrow> int \<Rightarrow> 'a Matrix res" where
  "mat_ColumnSlice m start end =
     (if start < 0 \<or> end > int (mcols m) \<or> start \<ge> end then Inl ErrDimension
      else Inr \<lparr>mrows = mrows m, mcols = nat (end - start),
        mdata = concat (map (\<lambda>i. take (nat (end - start)) (drop (i * mcols m + nat start) (mdata m)))
                         [0..<mrows m])\<rparr>)"

text \<open>Swapping two cells, rows, columns in place.\<close>

definition swap_cells :: "nat \<Rightarrow> nat \<Rightarrow> 'a list \<Rightarrow> 'a list" where
  "swap_cells a b d = d[a := d ! b, b := d ! a]"

definition swap_rows :: "nat \<Rightarrow> nat \<Rightarrow> nat \<Rightarrow> 'a list \<Rightarrow> 'a list" where
  "swap_rows n i j d = fold (\<lambda>col d. swap_cells (i * n + col) (j * n + col) d) [0..<n] d"

definition mat_SwapRowAssign :: "'a Matrix \<Rightarrow> int \<Rightarrow> int \<Rightarrow> 'a Matrix res" where
  "mat_SwapRowAssign m i j =
     (if i < 0 \<or> i \<ge> int (mrows m) \<or> j < 0 \<or> j \<ge> int (mrows m) then Inl Panic
      else Inr (m\<lparr>mdata := swap_rows (mcols m) (nat i) (nat j) (mdata m)\<rparr>))"

definition mat_SwapRow :: "'a Matrix \<Rightarrow> int \<Rightarrow> int \<Rightarrow> 'a Matrix res" where
  "mat_SwapRow m i j =
     (if i < 0 \<or> i \<ge> int (mrows m) \<or> j < 0 \<or> j \<ge> int (mrows m) then Inl ErrDimension
      else mat_SwapRowAssign m i j)"

definition mat_SwapColumnAssign :: "'a Matrix \<Rightarrow> int \<Rightarrow> int \<Rightarrow> 'a Matrix res" where
  "mat_SwapColumnAssign m i j =
     (if i < 0 \<or> i \<ge> int (mcols m) \<or> j < 0 \<or> j \<ge> int (mcols m) then Inl Panic
      else Inr (m\<lparr>mdata := fold (\<lambda>row d. swap_cells (mat_idx m row (nat i)) (mat_idx m row (nat j)) d)
                             [0..<mrows m] (mdata m)\<rparr>))"

definition mat_SwapColumn :: "'a Matrix \<Rightarrow> int \<Rightarrow> int \<Rightarrow> 'a Matrix res" where
  "mat_SwapColumn m i j =
     (if i < 0 \<or> i \<ge> int (mcols m) \<or> j < 0 \<or> j \<ge> int (mcols m) then Inl ErrDimension
      else mat_SwapColumnAssign m i j)"

definition mat_Transpose :: "'a Matrix \<Rightarrow> 'a Matrix" where
  "mat_Transpose m = mat_fill (mcols m) (mrows m) (\<lambda>j i. mdata m ! mat_idx m i j)"

definition mat_Minor :: "'a Matrix \<Rightarrow> int \<Rightarrow> int \<Rightarrow> 'a Matrix res" where
  "mat_Minor m row col =
     (if row < 0 \<or> row \<ge> int (mrows m) \<or> col < 0 \<or> col \<ge> int (mcols m) then Inl ErrDimension
      else if mrows m \<le> 1 \<or> mcols m \<le> 1 then Inl ErrDimension
      else Inr (mat_fill (mrows m - 1) (mcols m - 1)
        (\<lambda>i j. mdata m ! mat_idx m (if int i \<ge> row then i + 1 else i) (if int j \<ge> col then j + 1 else j))))"

definition mat_SetColumnAssign :: "'a Matrix \<Rightarrow> int \<Rightarrow> 'a list \<Rightarrow> 'a Matrix res" where
  "mat_SetColumnAssign m c data =
     (if c < 0 \<or> c \<ge> int (mcols m) then Inl ErrDimension
      else if length data \<noteq> mrows m then Inl ErrDimension
      else Inr (m\<lparr>mdata := fold (\<lambda>r d. d[mat_idx m r (nat c) := data ! r]) [0..<length data] (mdata m)\<rparr>))"

definition mat_SetRowAssign :: "'a Matrix \<Rightarrow> int \<Rightarrow> 'a list \<Rightarrow> 'a Matrix res" where
  "mat_SetRowAssign m r data =
     (if r < 0 \<or> r \<ge> int (mrows m) then Inl ErrDimension
      else if length data \<noteq> mcols m then Inl ErrDimension
      else Inr (m\<lparr>mdata := fold (\<lambda>c d. d[mat_idx m (nat r) c := data ! c]) [0..<length data] (mdata m)\<rparr>))"

definition mat_SetAssign :: "'a Matrix \<Rightarrow> int \<Rightarrow> int \<Rightarrow> 'a \<Rightarrow> 'a Matrix res" where
  "mat_SetAssign m r c data =
     (if r < 0 \<or> r \<ge> int (mrows m) then Inl ErrDimension
      else if c < 0 \<or> c \<ge> int (mcols m) then Inl ErrDimension
      else Inr (m\<lparr>mdata := (mdata m)[mat_idx m (nat r) (nat c) := data]\<rparr>))"

section \<open>Group and ring operations\<close>

text \<open>The loop \<open>for i := range m.v { m.v[i] = f(m.v[i], otherData[i]) }\<close>.\<close>

definition zip_assign :: "('a \<Rightarrow> 'b \<Rightarrow> 'a) \<Rightarrow> 'a list \<Rightarrow> 'b list \<Rightarrow> 'a list" where
  "zip_assign f d e = map (\<lambda>i. f (d ! i) (e ! i)) [0..<length d]"

definition mat_OpAssign :: "('a::ab_group_add) Matrix \<Rightarrow> 'a Matrix \<Rightarrow> 'a Matrix res" where
  "mat_OpAssign m other =
     (if mrows m \<noteq> mrows other \<or> mcols m \<noteq> mcols other then Inl Panic
      else Inr (m\<lparr>mdata := zip_assign (+) (mdata m) (mdata other)\<rparr>))"

definition mat_OpInv :: "('a::ab_group_add) Matrix \<Rightarrow> 'a Matrix" where
  "mat_OpInv m = m\<lparr>mdata := map uminus (mdata m)\<rparr>"

definition mat_SubAssign :: "('a::ab_group_add) Matrix \<Rightarrow> 'a Matrix \<Rightarrow> 'a Matrix res" where
  "mat_SubAssign m other =
     (if mrows m \<noteq> mrows other \<or> mcols m \<noteq> mcols other then Inl Panic
      else Inr (m\<lparr>mdata := zip_assign (-) (mdata m) (mdata other)\<rparr>))"

definition mat_TrySub :: "('a::ab_group_add) Matrix \<Rightarrow> 'a Matrix \<Rightarrow> 'a Matrix res" where
  "mat_TrySub m other =
     (if mrows m \<noteq> mrows other \<or> mcols m \<noteq> mcols other then Inl ErrDimension
      else mat_SubAssign m other)"

definition mat_Double :: "('a::ab_group_add) Matrix \<Rightarrow> 'a Matrix res" where
  "mat_Double m = mat_OpAssign m m"

definition mat_IsZero :: "('a::zero) Matrix \<Rightarrow> bool" where
  "mat_IsZero m = list_all (\<lambda>x. x = 0) (mdata m)"

definition mat_ColumnAddAssign :: "('a::comm_ring_1) Matrix \<Rightarrow> int \<Rightarrow> int \<Rightarrow> 'a \<Rightarrow> 'a Matrix res" where
  "mat_ColumnAddAssign m i j scalar =
     (if i < 0 \<or> i \<ge> int (mcols m) \<or> j < 0 \<or> j \<ge> int (mcols m) then Inl ErrDimension
      else Inr (m\<lparr>mdata := fold (\<lambda>row d. d[mat_idx m row (nat j) :=
                 d ! mat_idx m row (nat j) + d ! mat_idx m row (nat i) * scalar]) [0..<mrows m] (mdata m)\<rparr>))"

definition mat_RowAddAssign :: "('a::comm_ring_1) Matrix \<Rightarrow> int \<Rightarrow> int \<Rightarrow> 'a \<Rightarrow> 'a Matrix res" where
  "mat_RowAddAssign m i j scalar =
     (if i < 0 \<or> i \<ge> int (mrows m) \<or> j < 0 \<or> j \<ge> int (mrows m) then Inl ErrDimension
      else Inr (m\<lparr>mdata := fold (\<lambda>col d. d[mat_idx m (nat j) col :=
                 d ! mat_idx m (nat j) col + d ! mat_idx m (nat i) col * scalar]) [0..<mcols m] (mdata m)\<rparr>))"

definition mat_ColumnScalarMulAssign :: "('a::comm_ring_1) Matrix \<Rightarrow> int \<Rightarrow> 'a \<Rightarrow> 'a Matrix res" where
  "mat_ColumnScalarMulAssign m i scalar =
     (if i < 0 \<or> i \<ge> int (mcols m) then Inl ErrDimension
      else Inr (m\<lparr>mdata := fold (\<lambda>row d. d[mat_idx m row (nat i) := d ! mat_idx m row (nat i) * scalar])
                             [0..<mrows m] (mdata m)\<rparr>))"

definition mat_RowScalarMulAssign :: "('a::comm_ring_1) Matrix \<Rightarrow> int \<Rightarrow> 'a \<Rightarrow> 'a Matrix res" where
  "mat_RowScalarMulAssign m i scalar =
     (if i < 0 \<or> i \<ge> int (mrows m) then Inl ErrDimension
      else Inr (m\<lparr>mdata := fold (\<lambda>col d. d[mat_idx m (nat i) col := d ! mat_idx m (nat i) col * scalar])
                             [0..<mcols m] (mdata m)\<rparr>))"

definition mat_TryMul :: "('a::comm_ring_1) Matrix \<Rightarrow> 'a Matrix \<Rightarrow> 'a Matrix res" where
  "mat_TryMul m other =
     (if mcols m \<noteq> mrows other then Inl ErrDimension
      else Inr (mat_fill (mrows m) (mcols other)
        (\<lambda>i j. fold (\<lambda>k s. s + mdata m ! mat_idx m i k * mdata other ! mat_idx other k j)
                 [0..<mcols m] 0)))"

definition mat_HadamardProductAssign :: "('a::comm_ring_1) Matrix \<Rightarrow> 'a Matrix \<Rightarrow> 'a Matrix res" where
  "mat_HadamardProductAssign m other =
     (if mrows m \<noteq> mrows other \<or> mcols m \<noteq> mcols other then Inl ErrDimension
      else Inr (m\<lparr>mdata := zip_assign (*) (mdata m) (mdata other)\<rparr>))"

definition mat_ScalarMul :: "('a::comm_ring_1) Matrix \<Rightarrow> 'a \<Rightarrow> 'a Matrix" where
  "mat_ScalarMul m scalar = m\<lparr>mdata := map (\<lambda>x. x * scalar) (mdata m)\<rparr>"

definition DotProduct :: "('a::comm_ring_1) Matrix \<Rightarrow> 'a Matrix \<Rightarrow> 'a res" where
  "DotProduct a b =
     (let aLen = mat_vectorLength a; bLen = mat_vectorLength b in
      if aLen < 0 \<or> bLen < 0 then Inl ErrDimension
      else if aLen \<noteq> bLen then Inl ErrDimension
      else Inr (fold (\<lambda>i result. result + mdata a ! i * mdata b ! i) [0..<nat aLen] 0))"

section \<open>Module-valued matrices\<close>

text \<open>\<open>act g s\<close> is \<open>g.ScalarOp(s)\<close>; a nil matrix is \<open>None\<close>.\<close>

definition Lift :: "('g \<Rightarrow> 's \<Rightarrow> 'g) \<Rightarrow> 's Matrix option \<Rightarrow> 'g \<Rightarrow> 'g Matrix res" where
  "Lift act m basePoint =
     (case m of None \<Rightarrow> Inl ErrFailed
      | Some m \<Rightarrow> rbind (NewMatrixModule (mrows m) (mcols m) (Some ())) (\<lambda>module.
          mod_NewRowMajor module (map (\<lambda>c. act basePoint c) (mdata m))))"

definition LeftAction ::
  "(('g::ab_group_add) \<Rightarrow> 's \<Rightarrow> 'g) \<Rightarrow> 's Matrix option \<Rightarrow> 'g Matrix option \<Rightarrow> 'g Matrix res" where
  "LeftAction act actor x =
     (case (actor, x) of
        (Some actor, Some x) \<Rightarrow>
          if mcols actor \<noteq> mrows x then Inl ErrDimension
          else rbind (NewMatrixModule (mrows actor) (mcols x) (Some ())) (\<lambda>module.
            mod_NewRowMajor module (mdata (mat_fill (mrows actor) (mcols x)
              (\<lambda>i j. fold (\<lambda>k s. s + act (mdata x ! mat_idx x k j) (mdata actor ! mat_idx actor i k))
                       [0..<mcols actor] 0))))
      | _ \<Rightarrow> Inl ErrFailed)"

definition RightAction ::
  "(('g::ab_group_add) \<Rightarrow> 's \<Rightarrow> 'g) \<Rightarrow> 'g Matrix option \<Rightarrow> 's Matrix option \<Rightarrow> 'g Matrix res" where
  "RightAction act x actor =
     (case (x, actor) of
        (Some x, Some actor) \<Rightarrow>
          if mcols x \<noteq> mrows actor then Inl ErrDimension
          else rbind (NewMatrixModule (mrows x) (mcols actor) (Some ())) (\<lambda>module.
            mod_NewRowMajor module (mdata (mat_fill (mrows x) (mcols actor)
              (\<lambda>i j. fold (\<lambda>k s. s + act (mdata x ! mat_idx x i k) (mdata actor ! mat_idx actor k j))
                       [0..<mcols x] 0))))
      | _ \<Rightarrow> Inl ErrFailed)"

definition mvm_ScalarOp :: "('g \<Rightarrow> 's \<Rightarrow> 'g) \<Rightarrow> 'g Matrix \<Rightarrow> 's \<Rightarrow> 'g Matrix" where
  "mvm_ScalarOp act m scalar = m\<lparr>mdata := map (\<lambda>x. act x scalar) (mdata m)\<rparr>"

section \<open>Entries\<close>

named_theorems mat_simps \<open>dimensions and entries of the results of matrix operations\<close>

lemma mat_fill_dims [mat_simps]: "mrows (mat_fill r c f) = r" "mcols (mat_fill r c f) = c"
  by (simp_all add: mat_fill_def)

lemma mat_fill_length: "length (mdata (mat_fill r c f)) = r * c"
  by (simp add: mat_fill_def) (subst length_concat_const [where c = c], auto)

lemma mat_fill_wf [mat_simps]: "mat_wf (mat_fill r c f) \<longleftrightarrow> 0 < r \<and> 0 < c"
  using mat_fill_length [of r c f] by (simp add: mat_wf_def mat_fill_dims)

lemma mat_fill_ent [mat_simps]: "i < r \<Longrightarrow> j < c \<Longrightarrow> ent (mat_fill r c f) i j = f i j"
  by (simp add: ent_def mat_idx_def mat_fill_def)
    (subst nth_concat_const [where c = c], auto)

lemma mat_wf_index: "mat_wf m \<Longrightarrow> i < mrows m \<Longrightarrow> j < mcols m \<Longrightarrow> mat_idx m i j < length (mdata m)"
  by (simp add: mat_wf_def mat_idx_def flat_less)

lemma mat_eqI:
  assumes "mat_wf m" "mat_wf m'" "mrows m = mrows m'" "mcols m = mcols m'"
    and "\<And>i j. i < mrows m \<Longrightarrow> j < mcols m \<Longrightarrow> ent m i j = ent m' i j"
  shows "m = (m' :: 'a Matrix)"
proof -
  have len: "length (mdata m) = mrows m * mcols m" "length (mdata m') = mrows m * mcols m" "0 < mcols m"
    using assms(1-4) by (simp_all add: mat_wf_def)
  have "mdata m ! k = mdata m' ! k" if k: "k < mrows m * mcols m" for k
  proof -
    have "k div mcols m < mrows m" "k mod mcols m < mcols m"
      using k len(3) by (simp_all add: less_mult_imp_div_less)
    with assms(5) [of "k div mcols m" "k mod mcols m"] assms(4) show ?thesis
      by (simp add: ent_def mat_idx_def)
  qed
  then have "mdata m = mdata m'" using len by (intro nth_equalityI) auto
  with assms(3,4) show ?thesis by simp
qed

lemma mat_fill_ent_id: "mat_wf m \<Longrightarrow> mat_fill (mrows m) (mcols m) (ent m) = m"
  by (rule mat_eqI) (simp_all add: mat_simps mat_wf_def [of m])

text \<open>Row slices of the flat data.\<close>

lemma row_slice_length:
  assumes "mat_wf m" "i < mrows m"
  shows "length (take (mcols m) (drop (i * mcols m) (mdata m))) = mcols m"
proof -
  have "Suc i * mcols m \<le> mrows m * mcols m" using assms(2) by (intro mult_le_mono1) simp
  then show ?thesis using assms(1) by (simp add: mat_wf_def algebra_simps)
qed

lemma row_slice_nth:
  assumes "mat_wf m" "i < mrows m" "j < mcols m"
  shows "take (mcols m) (drop (i * mcols m) (mdata m)) ! j = ent m i j"
proof -
  have "i * mcols m \<le> length (mdata m)"
    using assms flat_less [of i "mrows m" 0 "mcols m"] by (simp add: mat_wf_def)
  then show ?thesis using assms(3) by (simp add: ent_def mat_idx_def)
qed

lemma row_slice: "mat_wf m \<Longrightarrow> i < mrows m \<Longrightarrow>
    take (mcols m) (drop (i * mcols m) (mdata m)) = map (ent m i) [0..<mcols m]"
  by (rule nth_equalityI) (simp_all add: row_slice_length row_slice_nth del: length_take nth_take)

lemma mat_GetRow_ok:
  assumes "mat_wf m" "i < mrows m"
  shows "mat_GetRow m (int i) = Inr (mat_fill 1 (mcols m) (\<lambda>_. ent m i))"
  using assms by (simp add: mat_GetRow_def row_slice mat_fill_def)

lemma mat_GetRow_data:
  "mat_wf m \<Longrightarrow> i < mrows m \<Longrightarrow> mdata (mat_fill 1 (mcols m) (\<lambda>_. ent m i)) = map (ent m i) [0..<mcols m]"
  by (simp add: mat_fill_def)

lemma mat_Augment_ok:
  assumes "mat_wf m" "mat_wf m'" "mrows m = mrows m'"
  shows "mat_Augment m m' = Inr (mat_fill (mrows m) (mcols m + mcols m')
    (\<lambda>i j. if j < mcols m then ent m i j else ent m' i (j - mcols m)))"
proof -
  have "take (mcols m) (drop (i * mcols m) (mdata m)) @ take (mcols m') (drop (i * mcols m') (mdata m'))
    = map (\<lambda>j. if j < mcols m then ent m i j else ent m' i (j - mcols m)) [0..<mcols m + mcols m']"
    if "i < mrows m" for i
    using that assms by (intro nth_equalityI) (auto simp: row_slice nth_append)
  then have "map (\<lambda>i. take (mcols m) (drop (i * mcols m) (mdata m)) @ take (mcols m') (drop (i * mcols m') (mdata m'))) [0..<mrows m]
    = map (\<lambda>i. map (\<lambda>j. if j < mcols m then ent m i j else ent m' i (j - mcols m)) [0..<mcols m + mcols m']) [0..<mrows m]"
    by (intro map_cong) auto
  then show ?thesis using assms(3) by (simp only: mat_Augment_def mat_fill_def) simp
qed

lemma mat_SubMatrixGivenRows_ok:
  assumes "mat_wf m" "is \<noteq> []" "\<And>i. i \<in> set is \<Longrightarrow> i < mrows m"
  shows "mat_SubMatrixGivenRows m (map int is) = Inr (mat_fill (length is) (mcols m) (\<lambda>k. ent m (is ! k)))"
proof -
  have "map (\<lambda>i. take (mcols m) (drop (i * mcols m) (mdata m))) is
      = map (\<lambda>k. map (ent m (is ! k)) [0..<mcols m]) [0..<length is]"
    using assms by (intro nth_equalityI) (simp_all add: row_slice)
  moreover have "\<not> list_ex (\<lambda>i. i < 0 \<or> i \<ge> int (mrows m)) (map int is)"
    using assms(3) by (auto simp: list_ex_iff dest!: assms(3))
  ultimately show ?thesis
    using assms(2) by (simp add: mat_SubMatrixGivenRows_def mat_fill_def comp_def)
qed

lemma mat_Transpose_mat_simps [mat_simps]:
  "mrows (mat_Transpose m) = mcols m" "mcols (mat_Transpose m) = mrows m"
  "i < mcols m \<Longrightarrow> j < mrows m \<Longrightarrow> ent (mat_Transpose m) i j = ent m j i"
  "mat_wf m \<Longrightarrow> mat_wf (mat_Transpose m)"
  by (simp_all add: mat_Transpose_def mat_simps ent_def [symmetric] mat_wf_def [of m])

lemma mat_Transpose_involution: "mat_wf m \<Longrightarrow> mat_Transpose (mat_Transpose m) = m"
  by (rule mat_eqI) (simp_all add: mat_simps)

subsection \<open>Products\<close>

lemma mat_TryMul_ok:
  assumes "mcols a = mrows b"
  shows "mat_TryMul a b = Inr (mat_fill (mrows a) (mcols b) (\<lambda>i j. \<Sum>k<mcols a. ent a i k * ent b k j))"
  using assms by (simp add: mat_TryMul_def loop_simps ent_def)

lemma mat_TryMul_dim: "mcols a \<noteq> mrows b \<Longrightarrow> mat_TryMul a b = Inl ErrDimension"
  by (simp add: mat_TryMul_def)

lemma mat_TryMul_ent:
  assumes "mat_TryMul a b = Inr c"
  shows "mcols a = mrows b" "mrows c = mrows a" "mcols c = mcols b"
    "\<And>i j. i < mrows a \<Longrightarrow> j < mcols b \<Longrightarrow> ent c i j = (\<Sum>k<mcols a. ent a i k * ent b k j)"
    "mat_wf a \<Longrightarrow> mat_wf b \<Longrightarrow> mat_wf c"
proof -
  show eq: "mcols a = mrows b" using assms by (simp add: mat_TryMul_def split: if_splits)
  then have c: "c = mat_fill (mrows a) (mcols b) (\<lambda>i j. \<Sum>k<mcols a. ent a i k * ent b k j)"
    using assms by (simp add: mat_TryMul_ok)
  show "mrows c = mrows a" "mcols c = mcols b" "mat_wf a \<Longrightarrow> mat_wf b \<Longrightarrow> mat_wf c"
    "\<And>i j. i < mrows a \<Longrightarrow> j < mcols b \<Longrightarrow> ent c i j = (\<Sum>k<mcols a. ent a i k * ent b k j)"
    by (simp_all add: c mat_simps mat_wf_def [of a] mat_wf_def [of b])
qed

lemma LeftAction_ok:
  assumes "mcols a = mrows x" "0 < mrows a" "0 < mcols x"
  shows "LeftAction act (Some a) (Some x) =
    Inr (mat_fill (mrows a) (mcols x) (\<lambda>i j. \<Sum>k<mcols a. act (ent x k j) (ent a i k)))"
  using assms
  by (simp add: LeftAction_def NewMatrixModule_def mod_NewRowMajor_def mat_fill_length loop_simps ent_def)
    (simp add: mat_fill_def)

lemma Lift_ok:
  assumes "mat_wf m"
  shows "Lift act (Some m) g = Inr (mat_fill (mrows m) (mcols m) (\<lambda>i j. act g (ent m i j)))"
proof -
  have "Lift act (Some m) g = Inr \<lparr>mrows = mrows m, mcols = mcols m, mdata = map (act g) (mdata m)\<rparr>"
    using assms by (simp add: Lift_def NewMatrixModule_def mod_NewRowMajor_def mat_wf_def)
  moreover have "\<lparr>mrows = mrows m, mcols = mcols m, mdata = map (act g) (mdata m)\<rparr>
      = mat_fill (mrows m) (mcols m) (\<lambda>i j. act g (ent m i j))"
    using assms
    by (intro mat_eqI) (simp_all add: mat_simps, simp_all add: mat_wf_def ent_def mat_idx_def flat_less)
  ultimately show ?thesis by simp
qed

text \<open>
  Matrix multiplication is associative, errors included: \<open>TryMul\<close> of three matrices gives the
  same matrix or the same dimension error whichever product is taken first.
\<close>

theorem mat_TryMul_assoc:
  assumes "mat_wf a" "mat_wf b" "mat_wf c"
  shows "rbind (mat_TryMul a b) (\<lambda>ab. mat_TryMul ab c) = rbind (mat_TryMul b c) (\<lambda>bc. mat_TryMul a bc)"
proof (cases "mcols a = mrows b \<and> mcols b = mrows c")
  case True
  then obtain ab bc where p: "mat_TryMul a b = Inr ab" "mat_TryMul b c = Inr bc"
    by (simp add: mat_TryMul_ok)
  note ab = mat_TryMul_ent [OF p(1)] and bc = mat_TryMul_ent [OF p(2)]
  obtain l r where lr: "mat_TryMul ab c = Inr l" "mat_TryMul a bc = Inr r"
    using True ab bc by (simp add: mat_TryMul_ok)
  note l = mat_TryMul_ent [OF lr(1)] and r = mat_TryMul_ent [OF lr(2)]
  have "l = r"
  proof (rule mat_eqI)
    fix i j assume "i < mrows l" "j < mcols l"
    then have ij: "i < mrows a" "j < mcols c" using l ab by simp_all
    have "ent l i j = (\<Sum>k<mcols b. (\<Sum>q<mcols a. ent a i q * ent b q k) * ent c k j)"
      using ij l ab by simp
    also have "\<dots> = (\<Sum>q<mcols a. ent a i q * (\<Sum>k<mcols b. ent b q k * ent c k j))"
      by (simp add: sum_distrib_left sum_distrib_right mult.assoc) (rule sum.swap)
    also have "\<dots> = ent r i j" using ij r bc True by simp
    finally show "ent l i j = ent r i j" .
  qed (use l r ab bc assms in auto)
  with p lr show ?thesis by simp
next
  case False
  have "mat_TryMul (mat_fill (mrows a) (mcols b) f) c = Inl ErrDimension" if "mcols b \<noteq> mrows c" for f
    using that by (simp add: mat_TryMul_dim mat_simps)
  moreover have "mat_TryMul a (mat_fill (mrows b) (mcols c) f) = Inl ErrDimension" if "mcols a \<noteq> mrows b" for f
    using that by (simp add: mat_TryMul_dim mat_simps)
  ultimately show ?thesis
    using False by (cases "mcols a = mrows b"; cases "mcols b = mrows c")
      (simp_all add: mat_TryMul_ok mat_TryMul_dim)
qed

theorem mat_TryMul_assoc_witness:
  "let a = \<lparr>mrows = 1, mcols = 2, mdata = [1, 2 :: int]\<rparr>;
       b = \<lparr>mrows = 2, mcols = 2, mdata = [1, 1, 0, 1]\<rparr> in
   rbind (mat_TryMul a b) (\<lambda>ab. mat_TryMul ab b) = rbind (mat_TryMul b b) (\<lambda>bc. mat_TryMul a bc)"
  unfolding Let_def by (rule mat_TryMul_assoc) (simp_all add: mat_wf_def)

end
