(* ===== verification/Solver.thy ===== *)
theory Solver
  imports Complex_Main Matrix
begin

text \<open>
  Gauss-Jordan elimination (\<open>pkg/base/mat/solver.go\<close>): \<open>solveAugmented\<close> works in place on the flat
  slice of an augmented matrix, \<open>SolveRight\<close> and \<open>SolveLeft\<close> call it. The elimination is shown sound
  and complete: it returns a solution exactly when there is one, and when there is none the reduced
  rows give a vector that refutes the system, which is what the privacy of the sharing schemes
  rests on.
\<close>

section \<open>In-place row operations\<close>

definition row_scale :: "nat \<Rightarrow> nat \<Rightarrow> 'a::field \<Rightarrow> 'a list \<Rightarrow> 'a list" where
  "row_scale n p s d = fold (\<lambda>j d. d[p * n + j := d ! (p * n + j) * s]) [0..<n] d"

definition row_sub :: "nat \<Rightarrow> nat \<Rightarrow> nat \<Rightarrow> 'a::field \<Rightarrow> 'a list \<Rightarrow> 'a list" where
  "row_sub n i p factor d =
     fold (\<lambda>j d. d[i * n + j := d ! (i * n + j) - factor * d ! (p * n + j)]) [0..<n] d"

definition eliminate :: "nat \<Rightarrow> nat \<Rightarrow> nat \<Rightarrow> nat \<Rightarrow> 'a::field list \<Rightarrow> 'a list" where
  "eliminate rows n pivotRow pc d =
     fold (\<lambda>i d.
       if i = pivotRow then d
       else (let factor = d ! (i * n + pc) in
         if factor = 0 then d else row_sub n i pivotRow factor d)) [0..<rows] d"

definition find_pivot :: "nat \<Rightarrow> nat \<Rightarrow> nat \<Rightarrow> nat \<Rightarrow> 'a::field list \<Rightarrow> nat option" where
  "find_pivot rows n pivotRow pc d = find (\<lambda>r. d ! (r * n + pc) \<noteq> 0) [pivotRow..<rows]"

definition field_TryInv :: "'a::field \<Rightarrow> 'a res" where
  "field_TryInv x = (if x = 0 then Inl ErrDivisionByZero else Inr (inverse x))"

text \<open>One pass with a pivot in row \<open>pr\<close>: swap, scale, eliminate.\<close>

definition pivot_step :: "nat \<Rightarrow> nat \<Rightarrow> nat \<Rightarrow> nat \<Rightarrow> nat \<Rightarrow> 'a::field list \<Rightarrow> 'a list res" where
  "pivot_step rows n pivotRow pc pr d =
     (let d = (if pr \<noteq> pivotRow then swap_rows n pivotRow pr d else d) in
      case field_TryInv (d ! (pivotRow * n + pc)) of
        Inl _ \<Rightarrow> Inl ErrFailed
      | Inr invPivot \<Rightarrow> Inr (eliminate rows n pivotRow pc (row_scale n pivotRow invPivot d)))"

function solve_loop ::
  "nat \<Rightarrow> nat \<Rightarrow> nat \<Rightarrow> nat \<Rightarrow> nat \<Rightarrow> nat list \<Rightarrow> 'a::field list \<Rightarrow> (nat \<times> nat list \<times> 'a list) res" where
  "solve_loop rows n numVars pc pivotRow pivotCols d =
     (if pc < numVars \<and> pivotRow < rows then
        (case find_pivot rows n pivotRow pc d of
           None \<Rightarrow> solve_loop rows n numVars (pc + 1) pivotRow pivotCols d
         | Some pr \<Rightarrow>
             rbind (pivot_step rows n pivotRow pc pr d) (\<lambda>d'.
               solve_loop rows n numVars (pc + 1) (pivotRow + 1) (pivotCols @ [pc]) d'))
      else Inr (pivotRow, pivotCols, d))"
  by auto
termination
  by (relation "measure (\<lambda>(rows, n, numVars, pc, _). numVars - pc)") auto

declare solve_loop.simps [simp del]

definition solveAugmented :: "'a::field Matrix \<Rightarrow> 'a list res" where
  "solveAugmented aug =
     (let rows = mrows aug; n = mcols aug; numVars = n - 1 in
      rbind (solve_loop rows n numVars 0 0 [] (mdata aug)) (\<lambda>(pivotRow, pivotCols, d).
        if list_ex (\<lambda>i. d ! (i * n + numVars) \<noteq> 0) [pivotRow..<rows] then Inl ErrFailed
        else Inr (fold (\<lambda>i sol. sol[pivotCols ! i := d ! (i * n + numVars)])
                    [0..<length pivotCols] (replicate numVars 0))))"

definition SolveRight :: "'a::field Matrix \<Rightarrow> 'a Matrix \<Rightarrow> 'a Matrix res" where
  "SolveRight m column =
     (if mcols column \<noteq> 1 then Inl ErrDimension
      else if mrows column \<noteq> mrows m then Inl ErrDimension
      else rbind (mat_Augment m column) (\<lambda>aug.
        rbind (solveAugmented aug) (\<lambda>sol.
          rbind (NewMatrixModule (mcols m) 1 (Some ())) (\<lambda>solutionSpace.
            mod_NewRowMajor solutionSpace sol))))"

definition SolveLeft :: "'a::field Matrix \<Rightarrow> 'a Matrix \<Rightarrow> 'a Matrix res" where
  "SolveLeft m row =
     (if mrows row \<noteq> 1 then Inl ErrDimension
      else if mcols row \<noteq> mcols m then Inl ErrDimension
      else rbind (solveAugmented (mat_fill (mcols m) (mrows m + 1)
          (\<lambda>i j. if j < mrows m then mdata m ! mat_idx m j i else mdata row ! i))) (\<lambda>sol.
        rbind (NewMatrixModule (mrows m) 1 (Some ())) (\<lambda>solutionSpace.
          mod_NewRowMajor solutionSpace sol)))"

section \<open>What the row operations do\<close>

abbreviation cell :: "nat \<Rightarrow> 'a list \<Rightarrow> nat \<Rightarrow> nat \<Rightarrow> 'a" where
  "cell n d r c \<equiv> d ! (r * n + c)"

lemma row_loop_length [simp]:
  "length (fold (\<lambda>j d. d[i * n + j := f (cell n d i j) (cell n d p j)]) js d) = length d"
  by (induction js arbitrary: d) simp_all

lemma row_loop_cell:
  assumes "length d = rows * n" "i < rows" "p < rows" "r < rows" "c < n" "k \<le> n"
  shows "cell n (fold (\<lambda>j d. d[i * n + j := f (cell n d i j) (cell n d p j)]) [0..<k] d) r c =
    (if r = i \<and> c < k then f (cell n d i c) (cell n d p c) else cell n d r c)"
  using assms(4-6)
proof (induction k arbitrary: r c)
  case (Suc k)
  let ?e = "fold (\<lambda>j d. d[i * n + j := f (cell n d i j) (cell n d p j)]) [0..<k] d"
  have len: "i * n + k < length ?e" using assms(1,2) Suc.prems by (simp add: flat_less)
  have "cell n ?e i k = cell n d i k" "cell n ?e p k = cell n d p k"
    using Suc.IH [of i k] Suc.IH [of p k] assms(2,3) Suc.prems by simp_all
  moreover have "r * n + c = i * n + k \<longleftrightarrow> r = i \<and> c = k"
    using Suc.prems by (intro flat_eq_iff) auto
  ultimately show ?case
    using len Suc.IH [OF Suc.prems(1,2)] Suc.prems(3)
    by (auto simp: nth_list_update less_Suc_eq)
qed simp

lemma row_scale_cell:
  assumes "length d = rows * n" "p < rows" "r < rows" "c < n"
  shows "cell n (row_scale n p s d) r c = (if r = p then cell n d p c * s else cell n d r c)"
    "length (row_scale n p s d) = length d"
  using row_loop_cell [OF assms(1,2,2,3,4), of n "\<lambda>x _. x * s"]
    row_loop_length [of p n "\<lambda>x _. x * s" p "[0..<n]" d] assms(4)
  by (simp_all add: row_scale_def)

lemma row_sub_cell:
  assumes "length d = rows * n" "i < rows" "p < rows" "r < rows" "c < n"
  shows "cell n (row_sub n i p x d) r c = (if r = i then cell n d i c - x * cell n d p c else cell n d r c)"
    "length (row_sub n i p x d) = length d"
  using row_loop_cell [OF assms, of n "\<lambda>a b. a - x * b"]
    row_loop_length [of i n "\<lambda>a b. a - x * b" p "[0..<n]" d] assms(5)
  by (simp_all add: row_sub_def)

lemma swap_cells_length [simp]: "length (swap_cells a b d) = length d"
  by (simp add: swap_cells_def)

lemma swap_cells_nth:
  "a < length d \<Longrightarrow> b < length d \<Longrightarrow>
   swap_cells a b d ! k = (if k = a then d ! b else if k = b then d ! a else d ! k)"
  by (auto simp: swap_cells_def nth_list_update)

lemma swap_loop_length [simp]:
  "length (fold (\<lambda>j d. swap_cells (i * n + j) (p * n + j) d) js d) = length d"
  by (induction js arbitrary: d) simp_all

lemma swap_loop_cell:
  assumes "length d = rows * n" "i < rows" "p < rows" "r < rows" "c < n" "k \<le> n"
  shows "cell n (fold (\<lambda>j d. swap_cells (i * n + j) (p * n + j) d) [0..<k] d) r c =
    (if c < k then (if r = i then cell n d p c else if r = p then cell n d i c else cell n d r c)
     else cell n d r c)"
  using assms(4-6)
proof (induction k arbitrary: r c)
  case (Suc k)
  let ?e = "fold (\<lambda>j d. swap_cells (i * n + j) (p * n + j) d) [0..<k] d"
  have len: "i * n + k < length ?e" "p * n + k < length ?e"
    using assms(1,2,3) Suc.prems by (simp_all add: flat_less)
  have "cell n ?e i k = cell n d i k" "cell n ?e p k = cell n d p k"
    using Suc.IH [of i k] Suc.IH [of p k] assms(2,3) Suc.prems by simp_all
  moreover have idx: "r * n + c = i * n + k \<longleftrightarrow> r = i \<and> c = k" "r * n + c = p * n + k \<longleftrightarrow> r = p \<and> c = k"
    using Suc.prems by (intro flat_eq_iff; simp)+
  ultimately have step: "cell n (swap_cells (i * n + k) (p * n + k) ?e) r c =
      (if r = i \<and> c = k then cell n d p k else if r = p \<and> c = k then cell n d i k else cell n ?e r c)"
    by (simp only: swap_cells_nth [OF len] idx)
  show ?case
    using Suc.IH [of r c] Suc.prems step by (cases "c = k") (auto simp: less_Suc_eq)
qed simp

lemma swap_rows_cell:
  assumes "length d = rows * n" "i < rows" "p < rows" "r < rows" "c < n"
  shows "cell n (swap_rows n i p d) r c =
      (if r = i then cell n d p c else if r = p then cell n d i c else cell n d r c)"
    "length (swap_rows n i p d) = length d"
  using swap_loop_cell [OF assms, of n] assms(5) by (simp_all add: swap_rows_def)

lemma eliminate_cell_upto:
  assumes "length d = rows * n" "p < rows" "pc < n" "k \<le> rows"
  defines "e \<equiv> \<lambda>k. fold (\<lambda>i d. if i = p then d
       else (let factor = d ! (i * n + pc) in
         if factor = 0 then d else row_sub n i p factor d)) [0..<k] d"
  shows "length (e k) = length d \<and> (\<forall>r<rows. \<forall>c<n. cell n (e k) r c =
      (if r < k \<and> r \<noteq> p then cell n d r c - cell n d r pc * cell n d p c else cell n d r c))"
  using assms(4)
proof (induction k)
  case (Suc k)
  then have IH: "length (e k) = rows * n" "\<And>r c. r < rows \<Longrightarrow> c < n \<Longrightarrow> cell n (e k) r c =
      (if r < k \<and> r \<noteq> p then cell n d r c - cell n d r pc * cell n d p c else cell n d r c)"
    using assms(1) by auto
  have k: "k < rows" using Suc.prems by simp
  have step: "e (Suc k) = (if k = p \<or> cell n (e k) k pc = 0 then e k else row_sub n k p (cell n (e k) k pc) (e k))"
    by (simp add: e_def Let_def)
  note sub = row_sub_cell [OF IH(1) k assms(2)]
  show ?case
  proof (intro conjI allI impI)
    show "length (e (Suc k)) = length d" using sub(2) [OF k assms(3)] IH(1) assms(1) by (simp add: step)
    fix r c assume rc: "r < rows" "c < n"
    show "cell n (e (Suc k)) r c =
      (if r < Suc k \<and> r \<noteq> p then cell n d r c - cell n d r pc * cell n d p c else cell n d r c)"
      using sub(1) [OF rc] IH(2) [OF rc] IH(2) [OF k assms(3)] IH(2) [OF k rc(2)] IH(2) [OF assms(2) rc(2)]
      by (auto simp: step less_Suc_eq)
  qed
qed (simp add: e_def)

lemma eliminate_cell:
  assumes "length d = rows * n" "p < rows" "pc < n"
  shows "length (eliminate rows n p pc d) = length d"
    and "\<And>r c. r < rows \<Longrightarrow> c < n \<Longrightarrow> cell n (eliminate rows n p pc d) r c =
      (if r \<noteq> p then cell n d r c - cell n d r pc * cell n d p c else cell n d r c)"
  using eliminate_cell_upto [OF assms order_refl] by (simp_all add: eliminate_def)

section \<open>Row equivalence\<close>

text \<open>
  \<open>derived\<close>: every row of the second slice is a combination of at most two rows of the first. A
  pivot step is such a step in both directions, so it keeps the kernel and the row space.
\<close>

definition derived :: "nat \<Rightarrow> nat \<Rightarrow> 'a::field list \<Rightarrow> 'a list \<Rightarrow> bool" where
  "derived rows n d d' \<longleftrightarrow> (\<forall>r<rows. \<exists>a b x y. a < rows \<and> b < rows \<and>
     (\<forall>c<n. cell n d' r c = x * cell n d a c + y * cell n d b c))"

definition in_kernel :: "nat \<Rightarrow> nat \<Rightarrow> 'a::field list \<Rightarrow> (nat \<Rightarrow> 'a) \<Rightarrow> bool" where
  "in_kernel rows n d y \<longleftrightarrow> (\<forall>r<rows. (\<Sum>c<n. cell n d r c * y c) = 0)"

definition row_combos :: "nat \<Rightarrow> nat \<Rightarrow> 'a::field list \<Rightarrow> 'a list \<Rightarrow> bool" where
  "row_combos rows n d0 d \<longleftrightarrow> (\<forall>r<rows. \<exists>t. \<forall>c<n. cell n d r c = (\<Sum>k<rows. t k * cell n d0 k c))"

lemma row_combos_refl: "row_combos rows n d d"
  unfolding row_combos_def
proof (intro allI impI)
  fix r assume "r < rows"
  then have "(\<Sum>k<rows. (if k = r then 1 else 0) * cell n d k c) = cell n d r c" for c
    by (subst sum_single [of r]) auto
  then show "\<exists>t. \<forall>c<n. cell n d r c = (\<Sum>k<rows. t k * cell n d k c)" by metis
qed

lemma derived_kernel: "derived rows n d d' \<Longrightarrow> in_kernel rows n d y \<Longrightarrow> in_kernel rows n d' y"
  unfolding in_kernel_def
proof (intro allI impI)
  fix r assume der: "derived rows n d d'" and ker: "\<forall>r<rows. (\<Sum>c<n. cell n d r c * y c) = 0" and "r < rows"
  then obtain a b u v where ab: "a < rows" "b < rows" "\<forall>c<n. cell n d' r c = u * cell n d a c + v * cell n d b c"
    unfolding derived_def by blast
  then have "(\<Sum>c<n. cell n d' r c * y c) = (\<Sum>c<n. u * (cell n d a c * y c) + v * (cell n d b c * y c))"
    by (intro sum.cong) (auto simp: algebra_simps)
  also have "\<dots> = u * (\<Sum>c<n. cell n d a c * y c) + v * (\<Sum>c<n. cell n d b c * y c)"
    by (simp add: sum.distrib sum_distrib_left)
  finally show "(\<Sum>c<n. cell n d' r c * y c) = 0" using ker ab(1,2) by simp
qed

lemma derived_combos: "derived rows n d d' \<Longrightarrow> row_combos rows n d0 d \<Longrightarrow> row_combos rows n d0 d'"
  unfolding row_combos_def
proof (intro allI impI)
  fix r assume der: "derived rows n d d'" and "r < rows"
    and com: "\<forall>r<rows. \<exists>t. \<forall>c<n. cell n d r c = (\<Sum>k<rows. t k * cell n d0 k c)"
  then obtain a b u v where ab: "a < rows" "b < rows" "\<forall>c<n. cell n d' r c = u * cell n d a c + v * cell n d b c"
    unfolding derived_def by blast
  obtain ta where ta: "\<forall>c<n. cell n d a c = (\<Sum>k<rows. ta k * cell n d0 k c)" using com ab(1) by blast
  obtain tb where tb: "\<forall>c<n. cell n d b c = (\<Sum>k<rows. tb k * cell n d0 k c)"
    using com ab(2) by blast
  have "(\<Sum>k<rows. (u * ta k + v * tb k) * cell n d0 k c)
      = u * (\<Sum>k<rows. ta k * cell n d0 k c) + v * (\<Sum>k<rows. tb k * cell n d0 k c)" for c
    by (simp add: distrib_right sum.distrib sum_distrib_left mult.assoc)
  then have "cell n d' r c = (\<Sum>k<rows. (u * ta k + v * tb k) * cell n d0 k c)" if "c < n" for c
    unfolding ab(3) [rule_format, OF that] ta [rule_format, OF that] tb [rule_format, OF that]
    by (rule sym)
  then show "\<exists>t. \<forall>c<n. cell n d' r c = (\<Sum>k<rows. t k * cell n d0 k c)"
    by (intro exI [of _ "\<lambda>k. u * ta k + v * tb k"] allI impI)
qed

lemma pivot_step_spec:
  fixes d :: "'a::field list"
  assumes "length d = rows * n" "p < rows" "pr < rows" "pc < n" "cell n d pr pc \<noteq> 0"
  defines "sw \<equiv> \<lambda>r. if r = p then pr else if r = pr then p else r"
  obtains d' where "pivot_step rows n p pc pr d = Inr d'" "length d' = rows * n"
    "\<And>r c. r < rows \<Longrightarrow> c < n \<Longrightarrow> cell n d' r c =
       (if r = p then cell n d pr c * inverse (cell n d pr pc)
        else cell n d (sw r) c - cell n d (sw r) pc * (cell n d pr c * inverse (cell n d pr pc)))"
proof -
  define e where "e = (if pr \<noteq> p then swap_rows n p pr d else d)"
  have "length (swap_rows n p pr d) = length d"
    using swap_rows_cell(2) [OF assms(1,2,3,2,4)] .
  then have e: "length e = rows * n" "\<And>r c. r < rows \<Longrightarrow> c < n \<Longrightarrow> cell n e r c = cell n d (sw r) c"
    using swap_rows_cell(1) [OF assms(1,2,3)] assms(1) by (auto simp: e_def sw_def)
  define i where "i = inverse (cell n d pr pc)"
  define f where "f = row_scale n p i e"
  have f: "length f = rows * n" "\<And>r c. r < rows \<Longrightarrow> c < n \<Longrightarrow> cell n f r c =
      (if r = p then cell n d pr c * i else cell n d (sw r) c)"
    using row_scale_cell [OF e(1) assms(2)] e assms(2,4) by (auto simp: f_def sw_def)
  have "cell n e p pc = cell n d pr pc" using e(2) [OF assms(2,4)] by (simp add: sw_def)
  then have "pivot_step rows n p pc pr d = Inr (eliminate rows n p pc f)"
    using assms(5) unfolding pivot_step_def e_def [symmetric] Let_def
    by (simp add: field_TryInv_def f_def i_def)
  moreover note el = eliminate_cell [OF f(1) assms(2,4)]
  have "cell n (eliminate rows n p pc f) r c =
       (if r = p then cell n d pr c * i else cell n d (sw r) c - cell n d (sw r) pc * (cell n d pr c * i))"
    if "r < rows" "c < n" for r c
    using el(2) [OF that] f(2) [OF that] f(2) [OF that(1) assms(4)] f(2) [OF assms(2) that(2)] by simp
  ultimately show ?thesis using that [of "eliminate rows n p pc f"] el(1) f(1) by (simp add: i_def)
qed

lemma pivot_step_derived:
  fixes d :: "'a::field list"
  assumes "p < rows" "pr < rows" "cell n d pr pc \<noteq> 0" "pc < n"
  defines "sw \<equiv> \<lambda>r. if r = p then pr else if r = pr then p else r"
  assumes d': "\<And>r c. r < rows \<Longrightarrow> c < n \<Longrightarrow> cell n d' r c =
       (if r = p then cell n d pr c * inverse (cell n d pr pc)
        else cell n d (sw r) c - cell n d (sw r) pc * (cell n d pr c * inverse (cell n d pr pc)))"
  shows "derived rows n d d'" "derived rows n d' d"
proof -
  let ?i = "inverse (cell n d pr pc)"
  have sw: "sw r < rows" if "r < rows" for r using that assms(1,2) by (simp add: sw_def)
  show "derived rows n d d'"
    unfolding derived_def
  proof (intro allI impI)
    fix r assume r: "r < rows"
    have "\<forall>c<n. cell n d' r c = (if r = p then 0 else 1) * cell n d (sw r) c +
        (if r = p then ?i else - (cell n d (sw r) pc * ?i)) * cell n d pr c"
      using r by (auto simp: d')
    with r sw assms(2) show "\<exists>a b x y. a < rows \<and> b < rows \<and>
       (\<forall>c<n. cell n d' r c = x * cell n d a c + y * cell n d b c)" by blast
  qed
  show "derived rows n d' d"
    unfolding derived_def
  proof (intro allI impI)
    fix q assume q: "q < rows"
    have inv: "sw (sw q) = q" and eq: "sw q = p \<longleftrightarrow> q = pr" by (auto simp: sw_def)
    have "\<forall>c<n. cell n d q c = (if q = pr then 0 else 1) * cell n d' (sw q) c +
        (if q = pr then cell n d pr pc else cell n d q pc) * cell n d' p c"
      using sw [OF q] assms(1,3) inv eq by (auto simp: d')
    with sw [OF q] assms(1) show "\<exists>a b x y. a < rows \<and> b < rows \<and>
       (\<forall>c<n. cell n d q c = x * cell n d' a c + y * cell n d' b c)" by blast
  qed
qed

section \<open>The elimination loop\<close>

text \<open>
  The invariant: the columns of the pivots found so far are unit vectors, the rows not yet used
  are zero in the columns already passed, every row is a combination of rows of the input, and
  the kernel is that of the input.
\<close>

definition gj_inv :: "nat \<Rightarrow> nat \<Rightarrow> 'a::field list \<Rightarrow> nat \<Rightarrow> nat \<Rightarrow> nat list \<Rightarrow> 'a list \<Rightarrow> bool" where
  "gj_inv rows n d0 pc p pcs d \<longleftrightarrow>
     length d = rows * n \<and> p \<le> rows \<and> length pcs = p \<and> sorted_wrt (<) pcs \<and> (\<forall>q\<in>set pcs. q < pc)
     \<and> (\<forall>i<p. \<forall>r<rows. cell n d r (pcs ! i) = (if r = i then 1 else 0))
     \<and> (\<forall>r<rows. p \<le> r \<longrightarrow> (\<forall>c<pc. cell n d r c = 0))
     \<and> row_combos rows n d0 d
     \<and> (\<forall>y. in_kernel rows n d y = in_kernel rows n d0 y)"

lemma gj_inv_start: "length d = rows * n \<Longrightarrow> gj_inv rows n d 0 0 [] d"
  by (simp add: gj_inv_def row_combos_refl)

lemma find_pivot_None: "find_pivot rows n p pc d = None \<Longrightarrow> p \<le> r \<Longrightarrow> r < rows \<Longrightarrow> cell n d r pc = 0"
  by (auto simp: find_pivot_def find_None_iff)

lemma find_pivot_Some:
  "find_pivot rows n p pc d = Some pr \<Longrightarrow> p \<le> pr \<and> pr < rows \<and> cell n d pr pc \<noteq> 0"
  by (auto simp: find_pivot_def find_Some_iff)

lemma gj_inv_free:
  assumes "gj_inv rows n d0 pc p pcs d" "find_pivot rows n p pc d = None"
  shows "gj_inv rows n d0 (Suc pc) p pcs d"
  using assms find_pivot_None [OF assms(2)] unfolding gj_inv_def by (auto simp: less_Suc_eq)

lemma gj_inv_pivot:
  assumes inv: "gj_inv rows n d0 pc p pcs d" and "find_pivot rows n p pc d = Some pr" "pc < n" "p < rows"
  shows "\<exists>d'. pivot_step rows n p pc pr d = Inr d' \<and> gj_inv rows n d0 (Suc pc) (Suc p) (pcs @ [pc]) d'"
proof -
  have pr: "p \<le> pr" "pr < rows" "cell n d pr pc \<noteq> 0" using find_pivot_Some [OF assms(2)] by auto
  let ?sw = "\<lambda>r. if r = p then pr else if r = pr then p else r"
  have I: "length d = rows * n" "length pcs = p" "sorted_wrt (<) pcs" "\<And>q. q \<in> set pcs \<Longrightarrow> q < pc"
    "\<And>i r. i < p \<Longrightarrow> r < rows \<Longrightarrow> cell n d r (pcs ! i) = (if r = i then 1 else 0)"
    "\<And>r c. r < rows \<Longrightarrow> p \<le> r \<Longrightarrow> c < pc \<Longrightarrow> cell n d r c = 0"
    "row_combos rows n d0 d" "\<And>y. in_kernel rows n d y = in_kernel rows n d0 y"
    using inv unfolding gj_inv_def by auto
  obtain d' where d': "pivot_step rows n p pc pr d = Inr d'" "length d' = rows * n"
    "\<And>r c. r < rows \<Longrightarrow> c < n \<Longrightarrow> cell n d' r c =
       (if r = p then cell n d pr c * inverse (cell n d pr pc)
        else cell n d (?sw r) c - cell n d (?sw r) pc * (cell n d pr c * inverse (cell n d pr pc)))"
    by (rule pivot_step_spec [OF I(1) assms(4) pr(2) assms(3) pr(3)]) (rule that, blast+)
  note der = pivot_step_derived [OF assms(4) pr(2,3) assms(3) d'(3)]
  have unit: "cell n d' r pc = (if r = p then 1 else 0)" if "r < rows" for r
    using that pr(3) assms(3) by (simp add: d'(3))
  have old: "cell n d' r c = cell n d (?sw r) c" if "r < rows" "c < pc" "r \<noteq> p" for r c
    using that I(6) [OF pr(2,1) that(2)] assms(3) by (simp add: d'(3))
  have zero: "cell n d' r c = 0" if "r < rows" "p \<le> r" "c < pc" for r c
    using that I(6) [OF pr(2,1) that(3)] I(6) [OF assms(4) order_refl that(3)] I(6) [OF that]
      assms(3) by (simp add: d'(3))
  have "gj_inv rows n d0 (Suc pc) (Suc p) (pcs @ [pc]) d'"
    unfolding gj_inv_def
  proof (intro conjI)
    show "\<forall>i<Suc p. \<forall>r<rows. cell n d' r ((pcs @ [pc]) ! i) = (if r = i then 1 else 0)"
    proof (intro allI impI)
      fix i r assume i: "i < Suc p" and r: "r < rows"
      show "cell n d' r ((pcs @ [pc]) ! i) = (if r = i then 1 else 0)"
      proof (cases "i < p")
        case True
        then have q: "pcs ! i < pc" using I(2,4) by simp
        show ?thesis
        proof (cases "p \<le> r")
          case True
          then show ?thesis using zero [OF r _ q] \<open>i < p\<close> I(2) by (simp add: nth_append)
        next
          case False
          then show ?thesis
            using old [OF r q] I(5) [OF \<open>i < p\<close> r] \<open>i < p\<close> I(2) pr(1) by (simp add: nth_append)
        qed
      next
        case False
        then show ?thesis using i unit [OF r] I(2) by (simp add: nth_append less_Suc_eq)
      qed
    qed
    show "\<forall>r<rows. Suc p \<le> r \<longrightarrow> (\<forall>c<Suc pc. cell n d' r c = 0)"
      using zero unit by (auto simp: less_Suc_eq)
    show "row_combos rows n d0 d'" by (rule derived_combos [OF der(1) I(7)])
    show "\<forall>y. in_kernel rows n d' y = in_kernel rows n d0 y"
      using derived_kernel [OF der(1)] derived_kernel [OF der(2)] I(8) by blast
  qed (use I assms(4) d'(2) in \<open>auto simp: sorted_wrt_append less_Suc_eq\<close>)
  with d'(1) show ?thesis by blast
qed

lemma solve_loop_spec:
  assumes "gj_inv rows n d0 pc p pcs d" "pc \<le> numVars" "numVars < n"
  shows "\<exists>p' pcs' d'. solve_loop rows n numVars pc p pcs d = Inr (p', pcs', d')
    \<and> gj_inv rows n d0 numVars p' pcs' d'"
  using assms
proof (induction rows n numVars pc p pcs d rule: solve_loop.induct)
  case (1 rows n numVars pc p pcs d)
  show ?case
  proof (cases "pc < numVars \<and> p < rows")
    case False
    have "gj_inv rows n d0 numVars p pcs d"
    proof (cases "pc = numVars")
      case True
      then show ?thesis using "1.prems" by simp
    next
      case neq: False
      then have "p = rows" using False "1.prems" by (auto simp: gj_inv_def)
      then show ?thesis using "1.prems" by (auto simp: gj_inv_def)
    qed
    then show ?thesis
      unfolding solve_loop.simps [of rows n numVars pc p pcs d] if_not_P [OF False] by blast
  next
    case True
    show ?thesis
    proof (cases "find_pivot rows n p pc d")
      case None
      have "gj_inv rows n d0 (pc + 1) p pcs d" using gj_inv_free [OF "1.prems"(1) None] by simp
      with "1.IH"(1) [OF True None] True None "1.prems"(3) show ?thesis
        by (simp add: solve_loop.simps [of rows n numVars pc p pcs d])
    next
      case (Some pr)
      from True "1.prems"(3) have lt: "pc < n" "p < rows" by auto
      obtain d' where d': "pivot_step rows n p pc pr d = Inr d'"
          "gj_inv rows n d0 (Suc pc) (Suc p) (pcs @ [pc]) d'"
        using gj_inv_pivot [OF "1.prems"(1) Some lt] by blast
      with "1.IH"(2) [OF True Some d'(1)] True Some "1.prems"(3) show ?thesis
        by (simp add: solve_loop.simps [of rows n numVars pc p pcs d])
    qed
  qed
qed

section \<open>The solution\<close>

lemma solution_entries:
  fixes v :: "nat \<Rightarrow> 'a::field"
  assumes "sorted_wrt (<) pcs" "\<forall>q\<in>set pcs. q < numVars"
  defines "sol \<equiv> fold (\<lambda>i sol. sol[pcs ! i := v i]) [0..<length pcs] (replicate numVars 0)"
  shows "length sol = numVars" "\<And>i. i < length pcs \<Longrightarrow> sol ! (pcs ! i) = v i"
    "\<And>c. c < numVars \<Longrightarrow> c \<notin> set pcs \<Longrightarrow> sol ! c = 0"
proof -
  have d: "distinct pcs" using assms(1) by (simp add: strict_sorted_iff)
  show "length sol = numVars" by (simp add: sol_def)
  show "sol ! (pcs ! i) = v i" if "i < length pcs" for i
  proof -
    have "inj_on ((!) pcs) (set [0..<length pcs])" using d by (auto intro: inj_on_nth)
    then show ?thesis
      using fold_update_at [of "(!) pcs" "[0..<length pcs]" i "replicate numVars 0" "\<lambda>i _. v i"] that assms(2)
      by (simp add: sol_def)
  qed
  show "sol ! c = 0" if "c < numVars" "c \<notin> set pcs" for c
    using fold_update_other [of "[0..<length pcs]" "(!) pcs" c "\<lambda>i _. v i" "replicate numVars 0"] that
    by (auto simp: sol_def in_set_conv_nth)
qed

lemma sum_over_pivots:
  fixes f :: "nat \<Rightarrow> 'a::comm_monoid_add"
  assumes "sorted_wrt (<) pcs" "\<forall>q\<in>set pcs. q < m" "\<And>c. c < m \<Longrightarrow> c \<notin> set pcs \<Longrightarrow> f c = 0"
  shows "(\<Sum>c<m. f c) = (\<Sum>i<length pcs. f (pcs ! i))"
proof -
  have d: "distinct pcs" using assms(1) by (simp add: strict_sorted_iff)
  have "(\<Sum>c<m. f c) = (\<Sum>c\<in>set pcs. f c)"
    using assms(2,3) by (intro sum.mono_neutral_right) auto
  also have "\<dots> = (\<Sum>i<length pcs. f (pcs ! i))"
    by (rule sum.reindex_bij_betw [OF bij_betw_nth [OF d refl refl], symmetric])
  finally show ?thesis .
qed

lemma kernel_solution:
  assumes "n = Suc m"
  shows "in_kernel rows n d (\<lambda>c. if c < m then x c else -1) \<longleftrightarrow>
    (\<forall>r<rows. (\<Sum>c<m. cell n d r c * x c) = cell n d r m)"
proof -
  have "(\<Sum>c<n. cell n d r c * (if c < m then x c else -1)) = (\<Sum>c<m. cell n d r c * x c) - cell n d r m" for r
    unfolding assms sum.lessThan_Suc by simp
  then show ?thesis by (simp add: in_kernel_def)
qed

text \<open>Soundness, and the refuting combination of rows when there is no solution.\<close>

lemma solveAugmented_spec:
  fixes aug :: "'a::field Matrix"
  assumes "mat_wf aug" "mcols aug = Suc m"
  shows "case solveAugmented aug of
      Inr sol \<Rightarrow> length sol = m \<and> (\<forall>r<mrows aug. (\<Sum>c<m. ent aug r c * sol ! c) = ent aug r m)
    | Inl e \<Rightarrow> e = ErrFailed \<and> (\<exists>w. (\<forall>c<m. (\<Sum>k<mrows aug. w k * ent aug k c) = 0)
        \<and> (\<Sum>k<mrows aug. w k * ent aug k m) \<noteq> 0)"
proof -
  let ?rows = "mrows aug" and ?n = "mcols aug" and ?d0 = "mdata aug"
  have cell: "ent aug r c = cell ?n ?d0 r c" for r c by (simp add: ent_def mat_idx_def)
  have "length ?d0 = ?rows * ?n" using assms(1) by (simp add: mat_wf_def)
  from solve_loop_spec [OF gj_inv_start [OF this], of m] assms(2)
  obtain p pcs d where loop: "solve_loop ?rows ?n m 0 0 [] ?d0 = Inr (p, pcs, d)"
    and inv: "gj_inv ?rows ?n ?d0 m p pcs d" by auto
  have I: "p \<le> ?rows" "length pcs = p" "sorted_wrt (<) pcs" "\<forall>q\<in>set pcs. q < m"
    "\<And>i r. i < p \<Longrightarrow> r < ?rows \<Longrightarrow> cell ?n d r (pcs ! i) = (if r = i then 1 else 0)"
    "\<And>r c. r < ?rows \<Longrightarrow> p \<le> r \<Longrightarrow> c < m \<Longrightarrow> cell ?n d r c = 0"
    "row_combos ?rows ?n ?d0 d" "\<And>y. in_kernel ?rows ?n d y = in_kernel ?rows ?n ?d0 y"
    using inv unfolding gj_inv_def by auto
  show ?thesis
  proof (cases "list_ex (\<lambda>i. cell ?n d i m \<noteq> 0) [p..<?rows]")
    case True
    then obtain r where r: "p \<le> r" "r < ?rows" "cell ?n d r m \<noteq> 0" by (auto simp: list_ex_iff)
    obtain w where w: "\<forall>c<?n. cell ?n d r c = (\<Sum>k<?rows. w k * cell ?n ?d0 k c)"
      using I(7) r(2) unfolding row_combos_def by blast
    have "(\<forall>c<m. (\<Sum>k<?rows. w k * ent aug k c) = 0) \<and> (\<Sum>k<?rows. w k * ent aug k m) \<noteq> 0"
      using w I(6) [OF r(2,1)] r(3) assms(2) by (simp add: cell flip: w [rule_format])
    with True loop assms(2) show ?thesis by (auto simp: solveAugmented_def Let_def)
  next
    case False
    define sol where "sol = fold (\<lambda>i sol. sol[pcs ! i := cell ?n d i m]) [0..<length pcs] (replicate m 0)"
    note sol = solution_entries [OF I(3,4), where v = "\<lambda>i. cell ?n d i m", folded sol_def]
    have "(\<Sum>c<m. cell ?n d r c * sol ! c) = cell ?n d r m" if r: "r < ?rows" for r
    proof -
      have "(\<Sum>c<m. cell ?n d r c * sol ! c) = (\<Sum>i<p. cell ?n d r (pcs ! i) * sol ! (pcs ! i))"
        using sum_over_pivots [OF I(3,4), of "\<lambda>c. cell ?n d r c * sol ! c"] sol(3) I(2) by simp
      also have "\<dots> = (\<Sum>i<p. (if r = i then cell ?n d i m else 0))"
        using I(2,5) r sol(2) by (intro sum.cong) auto
      also have "\<dots> = (if r < p then cell ?n d r m else 0)" by simp
      also have "\<dots> = cell ?n d r m" using False r by (auto simp: list_ex_iff)
      finally show ?thesis .
    qed
    then have "in_kernel ?rows ?n d (\<lambda>c. if c < m then sol ! c else -1)"
      by (simp add: kernel_solution [OF assms(2)])
    then have "in_kernel ?rows ?n ?d0 (\<lambda>c. if c < m then sol ! c else -1)" by (rule I(8) [THEN iffD1])
    then have "\<forall>r<?rows. (\<Sum>c<m. ent aug r c * sol ! c) = ent aug r m"
      by (simp add: kernel_solution [OF assms(2)] cell)
    moreover have "solveAugmented aug = Inr sol"
      using False loop assms(2) by (simp add: solveAugmented_def Let_def sol_def)
    ultimately show ?thesis using sol(1) by simp
  qed
qed

lemma solveAugmented_Inr:
  "solveAugmented aug = Inr sol \<Longrightarrow> mat_wf aug \<Longrightarrow> mcols aug = Suc m \<Longrightarrow> length sol = m"
  "solveAugmented aug = Inr sol \<Longrightarrow> mat_wf aug \<Longrightarrow> mcols aug = Suc m \<Longrightarrow> r < mrows aug \<Longrightarrow>
     (\<Sum>c<m. ent aug r c * sol ! c) = ent aug r m"
  using solveAugmented_spec [of aug m] by simp_all

lemma solveAugmented_Inl:
  assumes "solveAugmented aug = Inl e" "mat_wf aug" "mcols aug = Suc m"
  obtains w where "e = ErrFailed" "\<forall>c<m. (\<Sum>k<mrows aug. w k * ent aug k c) = 0"
    "(\<Sum>k<mrows aug. w k * ent aug k m) \<noteq> 0"
  using solveAugmented_spec [OF assms(2,3)] assms(1) by auto

text \<open>A system with a solution cannot have a refuting combination.\<close>

lemma refutation:
  fixes A :: "nat \<Rightarrow> nat \<Rightarrow> 'a::comm_ring_1"
  assumes "\<And>r. r < rows \<Longrightarrow> (\<Sum>c<m. A r c * x c) = b r"
    and "\<And>c. c < m \<Longrightarrow> (\<Sum>k<rows. w k * A k c) = 0"
  shows "(\<Sum>k<rows. w k * b k) = 0"
proof -
  have "(\<Sum>k<rows. w k * b k) = (\<Sum>k<rows. \<Sum>c<m. w k * A k c * x c)"
    using assms(1) by (intro sum.cong) (auto simp: sum_distrib_left mult.assoc simp flip: assms(1))
  also have "\<dots> = (\<Sum>c<m. (\<Sum>k<rows. w k * A k c) * x c)"
    by (subst sum.swap) (simp add: sum_distrib_right)
  finally show ?thesis using assms(2) by simp
qed

subsection \<open>Column systems\<close>

lemma SolveRight_unfold:
  assumes "mat_wf m" "mat_wf b" "mcols b = 1" "mrows b = mrows m"
  obtains aug where "mat_wf aug" "mrows aug = mrows m" "mcols aug = Suc (mcols m)"
    "\<And>r c. r < mrows m \<Longrightarrow> c < mcols m \<Longrightarrow> ent aug r c = ent m r c"
    "\<And>r. r < mrows m \<Longrightarrow> ent aug r (mcols m) = ent b r 0"
    "SolveRight m b = rbind (solveAugmented aug) (\<lambda>sol. mod_NewRowMajor \<lparr>modrows = mcols m, modcols = 1\<rparr> sol)"
proof -
  let ?aug = "mat_fill (mrows m) (mcols m + mcols b) (\<lambda>i j. if j < mcols m then ent m i j else ent b i (j - mcols m))"
  have pos: "0 < mrows m" "0 < mcols m" using assms(1) by (simp_all add: mat_wf_def)
  show ?thesis
    by (rule that [of ?aug])
      (use pos assms in \<open>simp_all add: mat_simps SolveRight_def mat_Augment_ok NewMatrixModule_def\<close>)
qed

lemma SolveRight_spec:
  fixes m :: "'a::field Matrix"
  assumes "mat_wf m" "mat_wf b" "mcols b = 1" "mrows b = mrows m"
  shows "case SolveRight m b of
      Inr x \<Rightarrow> mat_wf x \<and> mrows x = mcols m \<and> mcols x = 1
        \<and> (\<forall>r<mrows m. (\<Sum>c<mcols m. ent m r c * ent x c 0) = ent b r 0)
    | Inl e \<Rightarrow> e = ErrFailed \<and> (\<nexists>y. \<forall>r<mrows m. (\<Sum>c<mcols m. ent m r c * y c) = ent b r 0)"
proof -
  obtain aug where aug: "mat_wf aug" "mrows aug = mrows m" "mcols aug = Suc (mcols m)"
    "\<And>r c. r < mrows m \<Longrightarrow> c < mcols m \<Longrightarrow> ent aug r c = ent m r c"
    "\<And>r. r < mrows m \<Longrightarrow> ent aug r (mcols m) = ent b r 0"
    "SolveRight m b = rbind (solveAugmented aug) (\<lambda>sol. mod_NewRowMajor \<lparr>modrows = mcols m, modcols = 1\<rparr> sol)"
    by (rule SolveRight_unfold [OF assms]) (rule that, blast+)
  have pos: "0 < mcols m" "0 < mrows m" using assms(1) by (simp_all add: mat_wf_def)
  show ?thesis
  proof (cases "solveAugmented aug")
    case (Inl e)
    obtain w where w: "e = ErrFailed" "\<forall>c<mcols m. (\<Sum>k<mrows m. w k * ent m k c) = 0"
        "(\<Sum>k<mrows m. w k * ent b k 0) \<noteq> 0"
      by (rule solveAugmented_Inl [OF Inl aug(1,3)]) (rule that, use aug(2,4,5) in simp_all)
    have "False" if y: "\<forall>r<mrows m. (\<Sum>c<mcols m. ent m r c * y c) = ent b r 0" for y
      using refutation [where rows = "mrows m" and w = w, OF y [rule_format]] w(2,3) by simp
    with Inl w(1) aug(6) show ?thesis by auto
  next
    case (Inr sol)
    have len: "length sol = mcols m" by (rule solveAugmented_Inr(1) [OF Inr aug(1,3)])
    have sol: "(\<Sum>c<mcols m. ent m r c * sol ! c) = ent b r 0" if "r < mrows m" for r
      using solveAugmented_Inr(2) [OF Inr aug(1,3), of r] that by (simp add: aug(2,4,5))
    have "SolveRight m b = Inr \<lparr>mrows = mcols m, mcols = 1, mdata = sol\<rparr>"
      using aug(6) Inr len by (simp add: mod_NewRowMajor_def)
    with len pos sol show ?thesis by (simp add: mat_wf_def ent_def mat_idx_def)
  qed
qed

text \<open>
  \<open>SolveRight\<close> decides \<open>M x = b\<close>: it returns a column \<open>x\<close> with \<open>M x = b\<close> whenever there is one, and
  fails with \<open>ErrFailed\<close> when there is none. Gauss-Jordan elimination with row swaps and in-place
  updates is sound and complete over any field.
\<close>

theorem SolveRight_correct:
  fixes m :: "'a::field Matrix"
  assumes "mat_wf m" "mat_wf b" "mcols b = 1" "mrows b = mrows m"
  shows "case SolveRight m b of
      Inr x \<Rightarrow> mat_wf x \<and> mrows x = mcols m \<and> mcols x = 1 \<and> mat_TryMul m x = Inr b
    | Inl e \<Rightarrow> e = ErrFailed \<and> (\<forall>x. mat_wf x \<longrightarrow> mat_TryMul m x \<noteq> Inr b)"
proof (cases "SolveRight m b")
  case (Inl e)
  with SolveRight_spec [OF assms]
  have e: "e = ErrFailed" "\<nexists>y. \<forall>r<mrows m. (\<Sum>c<mcols m. ent m r c * y c) = ent b r 0" by auto
  have "mat_TryMul m x \<noteq> Inr b" for x
  proof
    assume "mat_TryMul m x = Inr b"
    note b = mat_TryMul_ent [OF this]
    have "(\<Sum>c<mcols m. ent m r c * ent x c 0) = ent b r 0" if "r < mrows m" for r
      using b(3) b(4) [OF that, of 0] assms(3) by simp
    with e(2) show False by (metis (mono_tags))
  qed
  with Inl e(1) show ?thesis by simp
next
  case (Inr x)
  with SolveRight_spec [OF assms] have x: "mat_wf x" "mrows x = mcols m" "mcols x = 1"
    "\<And>r. r < mrows m \<Longrightarrow> (\<Sum>c<mcols m. ent m r c * ent x c 0) = ent b r 0" by auto
  have pos: "0 < mrows m" using assms(1) by (simp add: mat_wf_def)
  have "mat_fill (mrows m) 1 (\<lambda>i j. \<Sum>k<mcols m. ent m i k * ent x k j) = b"
    using assms x pos by (intro mat_eqI) (simp_all add: mat_simps)
  then have "mat_TryMul m x = Inr b" using x by (simp add: mat_TryMul_ok)
  with Inr x show ?thesis by simp
qed

theorem SolveRight_correct_witness:
  "let m = \<lparr>mrows = 2, mcols = 2, mdata = [0, 1, 1, 1 :: rat]\<rparr>;
       b = \<lparr>mrows = 2, mcols = 1, mdata = [3, 5]\<rparr>; x = \<lparr>mrows = 2, mcols = 1, mdata = [2, 3]\<rparr> in
   SolveRight m b = Inr x \<and> mat_TryMul m x = Inr b"
proof -
  let ?m = "\<lparr>mrows = 2, mcols = 2, mdata = [0, 1, 1, 1 :: rat]\<rparr>"
  let ?b = "\<lparr>mrows = 2, mcols = 1, mdata = [3, 5 :: rat]\<rparr>"
  have "SolveRight ?m ?b = Inr \<lparr>mrows = 2, mcols = 1, mdata = [2, 3]\<rparr>" by code_simp
  with SolveRight_correct [of ?m ?b] show ?thesis by (simp add: mat_wf_def)
qed

subsection \<open>Row systems\<close>

lemma SolveLeft_unfold:
  assumes "mat_wf m" "mat_wf b" "mrows b = 1" "mcols b = mcols m"
  obtains aug where "mat_wf aug" "mrows aug = mcols m" "mcols aug = Suc (mrows m)"
    "\<And>r c. r < mcols m \<Longrightarrow> c < mrows m \<Longrightarrow> ent aug r c = ent m c r"
    "\<And>r. r < mcols m \<Longrightarrow> ent aug r (mrows m) = ent b 0 r"
    "SolveLeft m b = rbind (solveAugmented aug) (\<lambda>sol. mod_NewRowMajor \<lparr>modrows = mrows m, modcols = 1\<rparr> sol)"
proof -
  let ?aug = "mat_fill (mcols m) (mrows m + 1) (\<lambda>i j. if j < mrows m then mdata m ! mat_idx m j i else mdata b ! i)"
  have pos: "0 < mrows m" "0 < mcols m" using assms(1) by (simp_all add: mat_wf_def)
  show ?thesis
    by (rule that [of ?aug])
      (use pos assms in \<open>simp_all add: mat_simps SolveLeft_def NewMatrixModule_def\<close>,
       simp_all add: ent_def mat_idx_def)
qed

text \<open>The entry-level reading of \<open>SolveLeft\<close> that the clients use.\<close>

lemma SolveLeft_spec:
  fixes m :: "'a::field Matrix"
  assumes "mat_wf m" "mat_wf b" "mrows b = 1" "mcols b = mcols m"
  shows "case SolveLeft m b of
      Inr x \<Rightarrow> mat_wf x \<and> mrows x = mrows m \<and> mcols x = 1
        \<and> (\<forall>c<mcols m. (\<Sum>k<mrows m. ent x k 0 * ent m k c) = ent b 0 c)
    | Inl e \<Rightarrow> e = ErrFailed \<and> (\<exists>w. (\<forall>r<mrows m. (\<Sum>c<mcols m. ent m r c * w c) = 0)
        \<and> (\<Sum>c<mcols m. ent b 0 c * w c) \<noteq> 0)"
proof -
  obtain aug where aug: "mat_wf aug" "mrows aug = mcols m" "mcols aug = Suc (mrows m)"
    "\<And>r c. r < mcols m \<Longrightarrow> c < mrows m \<Longrightarrow> ent aug r c = ent m c r"
    "\<And>r. r < mcols m \<Longrightarrow> ent aug r (mrows m) = ent b 0 r"
    "SolveLeft m b = rbind (solveAugmented aug) (\<lambda>sol. mod_NewRowMajor \<lparr>modrows = mrows m, modcols = 1\<rparr> sol)"
    by (rule SolveLeft_unfold [OF assms]) (rule that, blast+)
  show ?thesis
  proof (cases "solveAugmented aug")
    case (Inl e)
    obtain w where w: "e = ErrFailed" "\<forall>r<mrows m. (\<Sum>c<mcols m. w c * ent m r c) = 0"
        "(\<Sum>c<mcols m. w c * ent b 0 c) \<noteq> 0"
      by (rule solveAugmented_Inl [OF Inl aug(1,3)]) (rule that, use aug(2,4,5) in simp_all)
    then show ?thesis using Inl aug(6) by (auto simp: mult.commute)
  next
    case (Inr sol)
    have len: "length sol = mrows m" by (rule solveAugmented_Inr(1) [OF Inr aug(1,3)])
    have sol: "(\<Sum>k<mrows m. ent m k c * sol ! k) = ent b 0 c" if "c < mcols m" for c
      using solveAugmented_Inr(2) [OF Inr aug(1,3), of c] that by (simp add: aug(2,4,5))
    have pos: "0 < mrows m" using assms(1) by (simp add: mat_wf_def)
    have "SolveLeft m b = Inr \<lparr>mrows = mrows m, mcols = 1, mdata = sol\<rparr>"
      using aug(6) Inr len by (simp add: mod_NewRowMajor_def)
    with len sol pos show ?thesis
      by (simp add: mat_wf_def ent_def [of "Matrix_ext _ _ _ _"] mat_idx_def [of "Matrix_ext _ _ _ _"] mult.commute)
  qed
qed

text \<open>
  C30. \<open>SolveLeft\<close> decides \<open>x M = r\<close>: it returns the solution as a column, or fails with \<open>ErrFailed\<close>, and
  then some vector \<open>w\<close> with \<open>M w = 0\<close> and \<open>r w \<noteq> 0\<close> witnesses that \<open>r\<close> is not in the row space.
\<close>

theorem SolveLeft_correct:
  fixes m :: "'a::field Matrix"
  assumes "mat_wf m" "mat_wf r" "mrows r = 1" "mcols r = mcols m"
  shows "case SolveLeft m r of
      Inr x \<Rightarrow> mrows x = mrows m \<and> mcols x = 1 \<and> mat_TryMul (mat_Transpose x) m = Inr r
    | Inl e \<Rightarrow> e = ErrFailed \<and> (\<forall>y. mat_wf y \<longrightarrow> mat_TryMul y m \<noteq> Inr r)
        \<and> (\<exists>w. (\<forall>i<mrows m. (\<Sum>c<mcols m. ent m i c * w c) = 0) \<and> (\<Sum>c<mcols m. ent r 0 c * w c) \<noteq> 0)"
proof (cases "SolveLeft m r")
  case (Inl e)
  with SolveLeft_spec [OF assms] obtain w where w: "e = ErrFailed"
      "\<forall>i<mrows m. (\<Sum>c<mcols m. ent m i c * w c) = 0" "(\<Sum>c<mcols m. ent r 0 c * w c) \<noteq> 0" by auto
  have "mat_TryMul y m \<noteq> Inr r" for y
  proof
    assume "mat_TryMul y m = Inr r"
    note y = mat_TryMul_ent [OF this]
    have "(\<Sum>k<mrows m. ent m k c * ent y 0 k) = ent r 0 c" if "c < mcols m" for c
      using y that assms(3) by (simp add: mult.commute)
    from refutation [where rows = "mcols m" and w = w, OF this] w(2,3)
    show False by (simp add: mult.commute)
  qed
  with Inl w show ?thesis by auto
next
  case (Inr x)
  with SolveLeft_spec [OF assms] have x: "mat_wf x" "mrows x = mrows m" "mcols x = 1"
    "\<And>c. c < mcols m \<Longrightarrow> (\<Sum>k<mrows m. ent x k 0 * ent m k c) = ent r 0 c" by auto
  have "mat_fill 1 (mcols m) (\<lambda>i j. \<Sum>k<mrows m. ent (mat_Transpose x) i k * ent m k j) = r"
    using assms x by (intro mat_eqI) (simp_all add: mat_simps mat_wf_def [of m])
  with x Inr show ?thesis by (simp add: mat_TryMul_ok mat_simps)
qed

theorem SolveLeft_correct_witness:
  "let m = \<lparr>mrows = 2, mcols = 2, mdata = [1, 1, 1, 2 :: rat]\<rparr>;
       r = \<lparr>mrows = 1, mcols = 2, mdata = [1, 0]\<rparr>; x = \<lparr>mrows = 2, mcols = 1, mdata = [2, -1]\<rparr> in
   SolveLeft m r = Inr x \<and> mat_TryMul (mat_Transpose x) m = Inr r"
proof -
  let ?m = "\<lparr>mrows = 2, mcols = 2, mdata = [1, 1, 1, 2 :: rat]\<rparr>"
  let ?r = "\<lparr>mrows = 1, mcols = 2, mdata = [1, 0 :: rat]\<rparr>"
  have "SolveLeft ?m ?r = Inr \<lparr>mrows = 2, mcols = 1, mdata = [2, -1]\<rparr>" by code_simp
  with SolveLeft_correct [of ?m ?r] show ?thesis by (simp add: mat_wf_def)
qed

end
