(* ===== verification/Interpolation.thy ===== *)
theory Interpolation
  imports Polynomials Solver
begin

text \<open>
  Polynomial interpolation over a field (\<open>pkg/base/polynomials/interpolation\<close>): Lagrange interpolation at a
  point, in the field and in the exponent, and Vandermonde interpolation through the linear solver.
\<close>

section \<open>Lagrange\<close>

text \<open>Numerator and denominator of the basis polynomial of node \<open>i\<close> at a point, as the inner loop builds them.\<close>

definition basis_num_den :: "('a::field) list \<Rightarrow> 'a \<Rightarrow> nat \<Rightarrow> 'a \<times> 'a" where
  "basis_num_den xs x i =
     fold (\<lambda>j (num, den). if i = j then (num, den) else (num * (x - xs ! j), den * (xs ! i - xs ! j)))
       [0..<length xs] (1, 1)"

definition BasisAt :: "('a::field) list \<Rightarrow> 'a \<Rightarrow> 'a Polynomial res" where
  "BasisAt xs x =
     rbind (MapOrError (\<lambda>i. case basis_num_den xs x i of (num, den) \<Rightarrow> field_TryDiv num den)
       [0..<length xs]) poly_New"

definition InterpolateAt :: "('a::field) list \<Rightarrow> 'a list \<Rightarrow> 'a \<Rightarrow> 'a res" where
  "InterpolateAt nodes values x =
     (if length nodes \<noteq> length values then Inl ErrLengthMismatch
      else rbind (BasisAt nodes x) (\<lambda>basis.
        Inr (fold (\<lambda>i out. out + coeffs basis ! i * values ! i) [0..<length values] 0)))"

text \<open>
  In the exponent the loop runs over the basis coefficients: for no nodes at all the basis is the zero
  polynomial with its one coefficient, and \<open>values[0]\<close> is out of range.
\<close>

definition InterpolateInExponentAt ::
  "(('g::ab_group_add) \<Rightarrow> 'a::field \<Rightarrow> 'g) \<Rightarrow> 'm option \<Rightarrow> 'a list \<Rightarrow> 'g list \<Rightarrow> 'a \<Rightarrow> 'g res" where
  "InterpolateInExponentAt act gmod nodes values x =
     (if length nodes \<noteq> length values then Inl ErrLengthMismatch
      else if gmod = None then Inl ErrValidation
      else rbind (BasisAt nodes x) (\<lambda>basisCoeffs.
        if length (coeffs basisCoeffs) > length values then Inl Panic
        else Inr (fold (\<lambda>i out. out + act (values ! i) (coeffs basisCoeffs ! i))
               [0..<length (coeffs basisCoeffs)] 0)))"

section \<open>Vandermonde\<close>

text \<open>The row of one node: each entry is the previous one times the node.\<close>

definition vandermonde_row :: "('a::monoid_mult) \<Rightarrow> nat \<Rightarrow> 'a list" where
  "vandermonde_row node c =
     fold (\<lambda>j row. row[j := row ! (j - 1) * node]) [1..<c] (1 # replicate (c - 1) 1)"

definition BuildVandermondeMatrix :: "('a::ring_1) list \<Rightarrow> nat \<Rightarrow> 'a Matrix res" where
  "BuildVandermondeMatrix nodes cols =
     (if length nodes = 0 then Inl ErrValidation
      else if cols = 0 then Inl ErrValidation
      else rbind (NewMatrixModule (length nodes) cols (Some ())) (\<lambda>mm.
        mod_NewRowMajor mm (concat (map (\<lambda>node. vandermonde_row node cols) nodes))))"

definition Interpolate :: "('a::field) list \<Rightarrow> 'a list \<Rightarrow> 'a Polynomial res" where
  "Interpolate nodes values =
     (if length nodes \<noteq> length values then Inl ErrLengthMismatch
      else rbind (NewMatrixModule (length nodes) 1 (Some ())) (\<lambda>columnFactory.
        rbind (mod_NewRowMajor columnFactory values) (\<lambda>valuesVector.
        rbind (BuildVandermondeMatrix nodes (length nodes)) (\<lambda>vandermondeMatrix.
        rbind (SolveRight vandermondeMatrix valuesVector) (\<lambda>coeffsRow.
          poly_New (mat_Iter coeffsRow))))))"

section \<open>Polynomial functions of bounded degree\<close>

text \<open>A function given by \<open>n\<close> coefficients, that is by a polynomial of degree below \<open>n\<close>.\<close>

definition polyrep :: "nat \<Rightarrow> ('a::idom \<Rightarrow> 'a) \<Rightarrow> bool" where
  "polyrep n f \<longleftrightarrow> (\<exists>c. \<forall>x. f x = (\<Sum>k<n. c k * x ^ k))"

lemma polyrep_const: "0 < n \<Longrightarrow> polyrep n (\<lambda>_. a)"
  unfolding polyrep_def
  by (intro exI [of _ "\<lambda>k. if k = 0 then a else 0"] allI, subst sum_single [of 0]) auto

lemma polyrep_add: "polyrep n f \<Longrightarrow> polyrep n g \<Longrightarrow> polyrep n (\<lambda>x. f x + g x)"
proof -
  assume "polyrep n f" "polyrep n g"
  then obtain c d where "\<forall>x. f x = (\<Sum>k<n. c k * x ^ k)" "\<forall>x. g x = (\<Sum>k<n. d k * x ^ k)"
    by (auto simp: polyrep_def)
  then show ?thesis
    unfolding polyrep_def by (intro exI [of _ "\<lambda>k. c k + d k"]) (simp add: distrib_right sum.distrib)
qed

lemma polyrep_scale: "polyrep n f \<Longrightarrow> polyrep n (\<lambda>x. a * f x)"
proof -
  assume "polyrep n f"
  then obtain c where "\<forall>x. f x = (\<Sum>k<n. c k * x ^ k)" by (auto simp: polyrep_def)
  then show ?thesis
    unfolding polyrep_def by (intro exI [of _ "\<lambda>k. a * c k"]) (simp add: sum_distrib_left mult.assoc)
qed

lemma polyrep_sum: "finite A \<Longrightarrow> (\<And>i. i \<in> A \<Longrightarrow> polyrep n (f i)) \<Longrightarrow> polyrep n (\<lambda>x. \<Sum>i\<in>A. f i x)"
proof (induction A rule: finite_induct)
  case empty
  then show ?case by (auto simp: polyrep_def intro: exI [of _ "\<lambda>_. 0"])
next
  case (insert a A)
  then show ?case by (simp add: polyrep_add)
qed

lemma polyrep_shift: "polyrep n f \<Longrightarrow> polyrep (Suc n) (\<lambda>x. x * f x)"
proof -
  assume "polyrep n f"
  then obtain c where "\<forall>x. f x = (\<Sum>k<n. c k * x ^ k)" by (auto simp: polyrep_def)
  then have "x * f x = (\<Sum>k<Suc n. (case k of 0 \<Rightarrow> 0 | Suc k \<Rightarrow> c k) * x ^ k)" for x
    by (simp add: sum.lessThan_Suc_shift sum_distrib_left mult.left_commute del: sum.lessThan_Suc)
  then show ?thesis by (auto simp: polyrep_def)
qed

lemma polyrep_mono: "polyrep n f \<Longrightarrow> n \<le> m \<Longrightarrow> polyrep m f"
proof -
  assume f: "polyrep n f" and "n \<le> m"
  from f obtain c where c: "\<forall>x. f x = (\<Sum>k<n. c k * x ^ k)" by (auto simp: polyrep_def)
  have "(\<Sum>k<n. c k * x ^ k) = (\<Sum>k<m. (if k < n then c k else 0) * x ^ k)" for x
    by (rule sum.mono_neutral_cong_left) (use \<open>n \<le> m\<close> in auto)
  with c show ?thesis by (auto simp: polyrep_def)
qed

lemma polyrep_linear: "polyrep n f \<Longrightarrow> polyrep (Suc n) (\<lambda>x. (x - a) * f x)"
  using polyrep_add [OF polyrep_shift polyrep_mono [OF polyrep_scale [of n f "- a"]]]
  by (simp add: algebra_simps)

lemma polyrep_prod: "finite A \<Longrightarrow> polyrep (Suc (card A)) (\<lambda>x. \<Prod>j\<in>A. x - g j)"
  by (induction A rule: finite_induct) (simp_all add: polyrep_const polyrep_linear)

lemma polyrep_Eval: "length (coeffs p) \<le> n \<Longrightarrow> polyrep n (poly_Eval p)"
  by (auto simp: polyrep_def poly_Eval_pcoeff)

text \<open>A polynomial function of degree below \<open>n\<close> that vanishes at \<open>n\<close> points vanishes everywhere.\<close>

lemma polyrep_roots:
  assumes "polyrep n f" "finite A" "n \<le> card A" "\<And>a. a \<in> A \<Longrightarrow> f a = 0"
  shows "f x = 0"
  using assms
proof (induction n arbitrary: f A)
  case 0
  then show ?case by (simp add: polyrep_def)
next
  case (Suc n)
  then obtain a where a: "a \<in> A" by (metis card.empty ex_in_conv not_less_eq_eq zero_le)
  from Suc.prems obtain c where c: "\<forall>x. f x = (\<Sum>k\<le>n. c k * x ^ k)"
    by (auto simp: polyrep_def lessThan_Suc_atMost)
  with Suc.prems(4) [OF a] have "(\<Sum>k\<le>n. c k * a ^ k) = 0" by simp
  then obtain b where b: "\<And>z. (\<Sum>k\<le>n. c k * z ^ k) = (z - a) * (\<Sum>k<n. b k * z ^ k)"
    using polyfun_linear_factor [of c n a] by auto
  let ?g = "\<lambda>z. \<Sum>k<n. b k * z ^ k"
  have zero: "?g z = 0" if "z \<in> A - {a}" for z
    using Suc.prems(4) [of z] that b [of z] c by auto
  have "polyrep n ?g" "n \<le> card (A - {a})" using Suc.prems a by (auto simp: polyrep_def)
  with Suc.IH [of ?g "A - {a}"] zero Suc.prems(2) have "?g x = 0" by simp
  with b c show ?case by simp
qed

section \<open>Correctness of Lagrange interpolation\<close>

lemma basis_num_den_prod:
  assumes "i < length xs"
  shows "basis_num_den xs x i =
    (\<Prod>j\<in>{..<length xs} - {i}. x - xs ! j, \<Prod>j\<in>{..<length xs} - {i}. xs ! i - xs ! j)"
proof -
  have "fold (\<lambda>j (num, den). if i = j then (num, den) else (num * (x - xs ! j), den * (xs ! i - xs ! j))) [0..<n] (1, 1)
      = (\<Prod>j\<in>{..<n} - {i}. x - xs ! j, \<Prod>j\<in>{..<n} - {i}. xs ! i - xs ! j)" for n
  proof (induction n)
    case (Suc n)
    have "{..<Suc n} - {i} = (if i = n then {..<n} - {i} else insert n ({..<n} - {i}))"
      by (auto simp: less_Suc_eq)
    with Suc show ?case by (simp add: mult.commute)
  qed simp
  then show ?thesis by (simp add: basis_num_den_def)
qed

definition lagrange_basis :: "('a::field) list \<Rightarrow> nat \<Rightarrow> 'a \<Rightarrow> 'a" where
  "lagrange_basis xs i x =
     (\<Prod>j\<in>{..<length xs} - {i}. x - xs ! j) / (\<Prod>j\<in>{..<length xs} - {i}. xs ! i - xs ! j)"

lemma lagrange_den: "distinct (xs :: 'a::field list) \<Longrightarrow> i < length xs \<Longrightarrow> (\<Prod>j\<in>{..<length xs} - {i}. xs ! i - xs ! j) \<noteq> 0"
  by (auto simp: nth_eq_iff_index_eq)

lemma BasisAt_ok:
  assumes "distinct xs" "xs \<noteq> []"
  shows "BasisAt xs x = Inr \<lparr>coeffs = map (\<lambda>i. lagrange_basis xs i x) [0..<length xs]\<rparr>"
proof -
  have "MapOrError (\<lambda>i. case basis_num_den xs x i of (num, den) \<Rightarrow> field_TryDiv num den) [0..<length xs]
      = Inr (map (\<lambda>i. lagrange_basis xs i x) [0..<length xs])"
    using lagrange_den [OF assms(1)]
    by (intro MapOrError_ok) (simp add: basis_num_den_prod field_TryDiv_def lagrange_basis_def)
  then show ?thesis using assms(2) by (simp add: BasisAt_def poly_New_def)
qed

lemma BasisAt_duplicate:
  assumes "\<not> distinct xs"
  shows "BasisAt xs x = Inl ErrDivisionByZero"
proof -
  have err: "field_TryDiv n d = Inl e \<Longrightarrow> e = ErrDivisionByZero" for n d :: 'a and e
    by (simp add: field_TryDiv_def split: if_splits)
  have all: "MapOrError f is = Inl ErrDivisionByZero"
    if "\<And>i e. i \<in> set is \<Longrightarrow> f i = Inl e \<Longrightarrow> e = ErrDivisionByZero" "i \<in> set is" "f i = Inl ErrDivisionByZero"
    for f :: "nat \<Rightarrow> 'a res" and i "is"
    using that
  proof (induction "is")
    case (Cons j js)
    have "MapOrError f js = Inl ErrDivisionByZero" if "i \<in> set js"
      using Cons.IH Cons.prems that by (meson list.set_intros(2))
    with Cons.prems show ?case by (cases "f j") auto
  qed simp
  from assms obtain i j where ij: "i < length xs" "j < length xs" "i \<noteq> j" "xs ! i = xs ! j"
    by (auto simp: distinct_conv_nth)
  then have "(\<Prod>j\<in>{..<length xs} - {i}. xs ! i - xs ! j) = 0" by auto
  then have "MapOrError (\<lambda>i. case basis_num_den xs x i of (num, den) \<Rightarrow> field_TryDiv num den) [0..<length xs]
      = Inl ErrDivisionByZero"
    using ij by (intro all [of _ _ i]) (auto simp: basis_num_den_prod field_TryDiv_def split: if_splits)
  then show ?thesis by (simp add: BasisAt_def)
qed

lemma lagrange_basis_node:
  assumes "distinct xs" "i < length xs" "k < length xs"
  shows "lagrange_basis xs i (xs ! k) = (if k = i then 1 else 0)"
  using assms lagrange_den [OF assms(1,2)] by (auto simp: lagrange_basis_def)

lemma polyrep_lagrange:
  assumes "i < length xs"
  shows "polyrep (length xs) (lagrange_basis xs i)"
proof -
  have "Suc (card ({..<length xs} - {i})) = length xs" using assms by simp
  then have "polyrep (length xs) (\<lambda>x. \<Prod>j\<in>{..<length xs} - {i}. x - xs ! j)"
    using polyrep_prod [of "{..<length xs} - {i}" "(!) xs"] by simp
  from polyrep_scale [OF this, of "inverse (\<Prod>j\<in>{..<length xs} - {i}. xs ! i - xs ! j)"] show ?thesis
    by (simp add: lagrange_basis_def [abs_def] divide_inverse mult.commute)
qed

lemma lagrange_unique:
  assumes "distinct xs" "polyrep (length xs) f"
  shows "(\<Sum>i<length xs. lagrange_basis xs i x * f (xs ! i)) = f x"
proof -
  let ?h = "\<lambda>x. (\<Sum>i<length xs. lagrange_basis xs i x * f (xs ! i)) + (-1) * f x"
  have "polyrep (length xs) ?h"
    using polyrep_scale [OF polyrep_lagrange] assms(2)
    by (intro polyrep_add polyrep_sum polyrep_scale) (simp_all add: mult.commute [of _ "f y" for y])
  moreover have "?h a = 0" if a: "a \<in> set xs" for a
  proof -
    from a obtain k where k: "a = xs ! k" "k < length xs" by (auto simp: in_set_conv_nth)
    have "(\<Sum>i<length xs. lagrange_basis xs i a * f (xs ! i)) = lagrange_basis xs k a * f (xs ! k)"
      using k assms(1) by (intro sum_single) (auto simp: lagrange_basis_node)
    then show ?thesis using k assms(1) by (simp add: lagrange_basis_node)
  qed
  ultimately have "?h x = 0"
    using polyrep_roots [of "length xs" ?h "set xs"] distinct_card [OF assms(1)] by simp
  then show ?thesis by simp
qed

section \<open>Correctness of Vandermonde interpolation\<close>

lemma vandermonde_row_powers: "vandermonde_row node c = (if c = 0 then [1] else map (\<lambda>j. node ^ j) [0..<c])"
proof (cases c)
  case 0
  then show ?thesis by (simp add: vandermonde_row_def)
next
  case (Suc c')
  let ?F = "\<lambda>n. fold (\<lambda>j row. row[j := row ! (j - 1) * node]) [1..<n] (1 # replicate c' 1)"
  have "length (?F (Suc n)) = Suc c' \<and> (\<forall>j\<le>n. ?F (Suc n) ! j = node ^ j)" if "n \<le> c'" for n
    using that
  proof (induction n)
    case (Suc n)
    then have "length (?F (Suc n)) = Suc c'" "\<forall>j\<le>n. ?F (Suc n) ! j = node ^ j" by auto
    with Suc.prems show ?case by (auto simp: nth_list_update le_Suc_eq power_commutes)
  qed simp
  from this [of c'] Suc show ?thesis
    by (auto simp: vandermonde_row_def intro!: nth_equalityI simp del: upt_Suc)
qed

lemma BuildVandermonde_ok:
  assumes "nodes \<noteq> []" "0 < cols"
  obtains v where "BuildVandermondeMatrix nodes cols = Inr v" "mat_wf v" "mrows v = length nodes" "mcols v = cols"
    "\<And>r c. r < length nodes \<Longrightarrow> c < cols \<Longrightarrow> ent v r c = nodes ! r ^ c"
proof -
  let ?rows = "map (\<lambda>node. vandermonde_row node cols) nodes"
  let ?v = "\<lparr>mrows = length nodes, mcols = cols, mdata = concat ?rows\<rparr>"
  have rows: "\<And>xs. xs \<in> set ?rows \<Longrightarrow> length xs = cols" using assms by (auto simp: vandermonde_row_powers)
  show ?thesis
  proof (rule that [of ?v])
    show "mat_wf ?v" using assms length_concat_const [of ?rows cols] rows by (simp add: mat_wf_def)
    then show "BuildVandermondeMatrix nodes cols = Inr ?v"
      using assms by (simp add: BuildVandermondeMatrix_def NewMatrixModule_def mod_NewRowMajor_def mat_wf_def)
    show "ent ?v r c = nodes ! r ^ c" if "r < length nodes" "c < cols" for r c
      using nth_concat_const [of ?rows cols r c] rows that assms
      by (simp add: ent_def mat_idx_def vandermonde_row_powers)
  qed simp_all
qed

lemma Interpolate_ok:
  fixes nodes :: "'a::field list"
  assumes "distinct nodes" "nodes \<noteq> []" "length values = length nodes"
  obtains p where "Interpolate nodes values = Inr p" "length (coeffs p) = length nodes"
    "\<And>i. i < length nodes \<Longrightarrow> poly_Eval p (nodes ! i) = values ! i"
proof -
  let ?n = "length nodes" and ?b = "\<lparr>mrows = length nodes, mcols = 1, mdata = values\<rparr>"
  obtain v where v: "BuildVandermondeMatrix nodes ?n = Inr v" "mat_wf v" "mrows v = ?n" "mcols v = ?n"
    "\<And>r c. r < ?n \<Longrightarrow> c < ?n \<Longrightarrow> ent v r c = nodes ! r ^ c"
    using BuildVandermonde_ok [of nodes ?n] assms(2) by (metis length_greater_0_conv)
  have b: "mat_wf ?b" "mcols ?b = 1" "mrows ?b = mrows v" using assms v by (simp_all add: mat_wf_def)
  note spec = SolveRight_spec [OF v(2) b]
  have "polyrep ?n (\<lambda>x. \<Sum>i<?n. values ! i * lagrange_basis nodes i x)"
    by (intro polyrep_sum polyrep_scale polyrep_lagrange) simp_all
  then obtain c where c: "\<And>x. (\<Sum>i<?n. values ! i * lagrange_basis nodes i x) = (\<Sum>k<?n. c k * x ^ k)"
    by (auto simp: polyrep_def)
  have "(\<Sum>k<?n. ent v r k * c k) = values ! r" if "r < ?n" for r
  proof -
    have "(\<Sum>k<?n. ent v r k * c k) = (\<Sum>k<?n. c k * nodes ! r ^ k)" using v(5) that by (simp add: mult.commute)
    also have "\<dots> = values ! r * lagrange_basis nodes r (nodes ! r)"
      unfolding c [symmetric] using that assms(1) by (intro sum_single) (auto simp: lagrange_basis_node)
    finally show ?thesis using that assms(1) by (simp add: lagrange_basis_node)
  qed
  then have "\<exists>y. \<forall>r<mrows v. (\<Sum>k<mcols v. ent v r k * y k) = ent ?b r 0"
    using v(3,4) by (intro exI [of _ c]) (simp add: ent_def mat_idx_def)
  with spec obtain x where x: "SolveRight v ?b = Inr x" "mat_wf x" "mrows x = ?n" "mcols x = 1"
    "\<And>r. r < ?n \<Longrightarrow> (\<Sum>k<?n. ent v r k * ent x k 0) = ent ?b r 0"
    using v(3,4) by (cases "SolveRight v ?b") auto
  have len: "length (mdata x) = ?n" using x(2-4) by (simp add: mat_wf_def)
  show thesis
  proof (rule that [of "\<lparr>coeffs = mdata x\<rparr>"])
    show "Interpolate nodes values = Inr \<lparr>coeffs = mdata x\<rparr>"
      using assms v(1) x(1) len by (cases "mdata x")
        (simp_all add: Interpolate_def NewMatrixModule_def mod_NewRowMajor_def poly_New_def mat_Iter_def)
    show "poly_Eval \<lparr>coeffs = mdata x\<rparr> (nodes ! i) = values ! i" if "i < ?n" for i
      using x(5) [of i] x(4) v(5) that len by (simp add: poly_Eval_sum ent_def mat_idx_def mult.commute)
  qed (simp add: len)
qed

lemma InterpolateAt_Eval:
  fixes p :: "'a::field Polynomial"
  assumes "distinct nodes" "nodes \<noteq> []" "length (coeffs p) \<le> length nodes"
  shows "InterpolateAt nodes (map (poly_Eval p) nodes) x = Inr (poly_Eval p x)"
  using assms(1,2) lagrange_unique [OF assms(1) polyrep_Eval [OF assms(3)], of x]
  by (simp add: InterpolateAt_def BasisAt_ok fold_add_sum)

section \<open>Properties\<close>

text \<open>Lagrange interpolation at distinct nodes recovers every polynomial with at most as many coefficients
  as there are nodes: from its values at the nodes \<open>InterpolateAt\<close> computes its value at any point. With a
  repeated node it reports a division by zero, with slices of different lengths a length mismatch.\<close>

theorem InterpolateAt_correct:
  fixes p :: "'a::field Polynomial"
  assumes "length (coeffs p) \<le> length nodes" "nodes \<noteq> []"
  shows "(distinct nodes \<longrightarrow> InterpolateAt nodes (map (poly_Eval p) nodes) x = Inr (poly_Eval p x)) \<and>
    (\<not> distinct nodes \<longrightarrow> InterpolateAt nodes (map (poly_Eval p) nodes) x = Inl ErrDivisionByZero) \<and>
    (length values \<noteq> length nodes \<longrightarrow> InterpolateAt nodes values x = Inl ErrLengthMismatch)"
  using InterpolateAt_Eval [OF _ assms(2,1)] by (auto simp: InterpolateAt_def BasisAt_duplicate)

theorem InterpolateAt_correct_witness:
  "InterpolateAt [1, 2, 3 :: rat] (map (poly_Eval \<lparr>coeffs = [7, 0, 1]\<rparr>) [1, 2, 3]) 0 =
     Inr (poly_Eval \<lparr>coeffs = [7, 0, 1]\<rparr> 0)"
  using InterpolateAt_correct [of "\<lparr>coeffs = [7, 0, 1 :: rat]\<rparr>" "[1, 2, 3]" 0] by simp

text \<open>The two interpolation routines agree: for distinct nodes Vandermonde interpolation through the linear
  solver always succeeds, returns a polynomial through the given points, and its value at any point is what
  Lagrange interpolation computes directly.\<close>

theorem Vandermonde_Lagrange_agree:
  fixes nodes :: "'a::field list"
  assumes "distinct nodes" "nodes \<noteq> []" "length values = length nodes"
  shows "\<exists>p. Interpolate nodes values = Inr p \<and> length (coeffs p) = length nodes \<and>
    map (poly_Eval p) nodes = values \<and> InterpolateAt nodes values x = Inr (poly_Eval p x)"
proof -
  obtain p where p: "Interpolate nodes values = Inr p" "length (coeffs p) = length nodes"
    "\<And>i. i < length nodes \<Longrightarrow> poly_Eval p (nodes ! i) = values ! i"
    by (rule Interpolate_ok [OF assms]) (rule that, blast+)
  have vals: "map (poly_Eval p) nodes = values"
    using p(3) assms(3) by (intro nth_equalityI) simp_all
  moreover have "InterpolateAt nodes values x = Inr (poly_Eval p x)"
    using assms p lagrange_unique [OF assms(1) polyrep_Eval, of p x]
    by (simp add: InterpolateAt_def BasisAt_ok fold_add_sum)
  ultimately show ?thesis using p by blast
qed

theorem Vandermonde_Lagrange_agree_witness:
  "\<exists>p. Interpolate [1, 2 :: rat] [5, 8] = Inr p \<and> length (coeffs p) = length [1, 2 :: rat] \<and>
    map (poly_Eval p) [1, 2] = [5, 8] \<and> InterpolateAt [1, 2] [5, 8] 0 = Inr (poly_Eval p 0)"
  using Vandermonde_Lagrange_agree [of "[1, 2 :: rat]" "[5, 8]" 0] by simp

end
