(* ===== verification/Sliceutils.thy ===== *)
theory Sliceutils
  imports Prelude "HOL-Library.Sublist"
begin

text \<open>
  \<open>pkg/base/utils/sliceutils\<close> and the \<open>Binomial\<close> helper of \<open>pkg/base/utils\<close>: counting,
  duplicate detection and the enumeration of all \<open>k\<close>-combinations of a slice, which the access
  structures and the hash set use to list subsets.
\<close>

section \<open>Definitions\<close>

text \<open>\<open>utils.Binomial\<close>, on Go's 64-bit \<open>int\<close>.\<close>

definition binom_step :: "int \<Rightarrow> int \<Rightarrow> int \<Rightarrow> int \<Rightarrow> int" where
  "binom_step n k i b = go_div (wrap64 (wrap64 (n - k + i) * b)) i"

definition Binomial :: "int \<Rightarrow> int \<Rightarrow> int" where
  "Binomial n k =
     (if k < 0 \<or> k > n then 0
      else let k' = (if k > go_div n 2 then n - k else k)
           in fold (\<lambda>i b. binom_step n k' i b) [1..k'] 1)"

text \<open>\<open>nextCombination\<close>: advance the rightmost index that can still grow.\<close>

fun next_loop :: "nat list \<Rightarrow> nat \<Rightarrow> nat \<Rightarrow> nat \<Rightarrow> nat list" where
  "next_loop s n k 0 = s"
| "next_loop s n k (Suc j) =
     (if s ! j = n + j - k then next_loop s n k j
      else fold (\<lambda>l s. s[l := s ! j + l - j]) [Suc j..<k] (s[j := Suc (s ! j)]))"

definition nextCombination :: "nat list \<Rightarrow> nat \<Rightarrow> nat \<Rightarrow> nat list" where
  "nextCombination s n k = next_loop s n k k"

definition mapElements :: "'a list \<Rightarrow> nat list \<Rightarrow> 'a list" where
  "mapElements input indices = map (\<lambda>i. input ! i) indices"

text \<open>The values the iterator \<open>Combinations\<close> yields, in order.\<close>

fun comb_run :: "nat \<Rightarrow> nat list \<Rightarrow> nat \<Rightarrow> nat \<Rightarrow> nat list list" where
  "comb_run 0 data n k = []"
| "comb_run (Suc m) data n k =
     (let data' = nextCombination data n k in data' # comb_run m data' n k)"

definition Combinations :: "'a list \<Rightarrow> nat \<Rightarrow> 'a list list" where
  "Combinations s k =
     (if k > length s then []
      else let n = length s; data = [0..<k]
           in map (mapElements s)
                (data # comb_run (nat (Binomial (int n) (int k) - 1)) data n k))"

definition KCoveringCombinations :: "'a list \<Rightarrow> nat \<Rightarrow> 'a list list" where
  "KCoveringCombinations s k = concat (map (Combinations s) [k..<Suc (length s)])"

definition Count :: "('a \<Rightarrow> bool) \<Rightarrow> 'a list \<Rightarrow> nat" where
  "Count p xs = fold (\<lambda>x c. if p x then Suc c else c) xs 0"

text \<open>\<open>CountUnique\<close> keeps the map of the elements seen.\<close>

definition CountUnique :: "'a list \<Rightarrow> nat" where
  "CountUnique xs =
     snd (fold (\<lambda>x (seen, c). if x \<in> set seen then (seen, c) else (x # seen, Suc c)) xs ([], 0))"

definition IsAllUnique :: "'a list \<Rightarrow> bool" where
  "IsAllUnique xs = (CountUnique xs = length xs)"

fun CountUniqueFunc_loop :: "('a \<Rightarrow> 'a \<Rightarrow> bool) \<Rightarrow> 'a list \<Rightarrow> 'a list \<Rightarrow> nat \<Rightarrow> nat" where
  "CountUniqueFunc_loop eq seen [] c = c"
| "CountUniqueFunc_loop eq seen (x # xs) c =
     (if list_ex (eq x) seen then CountUniqueFunc_loop eq seen xs c
      else CountUniqueFunc_loop eq (seen @ [x]) xs (Suc c))"

definition CountUniqueFunc :: "('a \<Rightarrow> 'a \<Rightarrow> bool) \<Rightarrow> 'a list \<Rightarrow> nat" where
  "CountUniqueFunc eq xs = CountUniqueFunc_loop eq [] xs 0"

definition slice_IsSubSet :: "'a list \<Rightarrow> 'a list \<Rightarrow> bool" where
  "slice_IsSubSet sub super =
     (if length sub > length super then False
      else list_all (\<lambda>x. list_ex (\<lambda>y. x = y) super) sub)"

definition slice_IsSuperSet :: "'a list \<Rightarrow> 'a list \<Rightarrow> bool" where
  "slice_IsSuperSet ss s = list_all (\<lambda>x. x \<in> set ss) s"

definition PadToLeft :: "'a \<Rightarrow> 'a list \<Rightarrow> int \<Rightarrow> 'a list" where
  "PadToLeft zero xs padLength =
     (if padLength < 0 then xs else replicate (nat padLength) zero @ xs)"

definition PadToRight :: "'a \<Rightarrow> 'a list \<Rightarrow> int \<Rightarrow> 'a list" where
  "PadToRight zero xs padLength =
     (if padLength < 0 then xs else xs @ replicate (nat padLength) zero)"

section \<open>Counting\<close>

lemma Count_filter: "Count p xs = length (filter p xs)"
proof -
  have "fold (\<lambda>x c. if p x then Suc c else c) xs a = a + length (filter p xs)" for a
    by (induction xs arbitrary: a) simp_all
  then show ?thesis by (simp add: Count_def)
qed

lemma CountUnique_card: "CountUnique xs = card (set xs)"
proof -
  have "snd (fold (\<lambda>x (seen, c). if x \<in> set seen then (seen, c) else (x # seen, Suc c)) xs (seen, a))
      = a + card (set xs - set seen)" for seen a
  proof (induction xs arbitrary: seen a)
    case (Cons x xs)
    show ?case
    proof (cases "x \<in> set seen")
      case True
      then have "set (x # xs) - set seen = set xs - set seen" by auto
      with True show ?thesis by (simp add: Cons.IH)
    next
      case False
      then have "set (x # xs) - set seen = insert x (set xs - set (x # seen))" by auto
      with False show ?thesis by (simp add: Cons.IH)
    qed
  qed simp
  from this [of "[]" 0] show ?thesis by (simp add: CountUnique_def)
qed

lemma IsAllUnique_distinct: "IsAllUnique xs \<longleftrightarrow> distinct xs"
  by (simp add: IsAllUnique_def CountUnique_card card_distinct distinct_card)
    (metis card_distinct distinct_card)

lemma CountUniqueFunc_loop_eq:
  "CountUniqueFunc_loop (=) seen xs c = c + card (set xs - set seen)"
proof (induction xs arbitrary: seen c)
  case (Cons x xs)
  show ?case
  proof (cases "x \<in> set seen")
    case True
    then have "set (x # xs) - set seen = set xs - set seen" by auto
    with True show ?thesis by (simp add: Cons.IH list_ex_iff)
  next
    case False
    then have "set (x # xs) - set seen = insert x (set xs - set (seen @ [x]))" by auto
    with False show ?thesis by (simp add: Cons.IH list_ex_iff)
  qed
qed simp

lemma CountUniqueFunc_eq: "CountUniqueFunc (=) xs = CountUnique xs"
  by (simp add: CountUniqueFunc_def CountUniqueFunc_loop_eq CountUnique_card)

section \<open>The binomial coefficient\<close>

lemma binomial_offset_step:
  "Suc i * ((m + Suc i) choose Suc i) = (m + Suc i) * ((m + i) choose i)"
  using Suc_times_binomial_eq [of "m + i" i] by (simp add: mult.commute)

text \<open>
  The running product of the code after \<open>i\<close> rounds is \<open>(n - k + i) choose i\<close>, and nothing wraps as
  long as \<open>n\<close> times the result fits.
\<close>

lemma choose_offset_mono: "i \<le> k \<Longrightarrow> (m + i) choose i \<le> (m + k) choose (k::nat)"
  by (metis binomial_right_mono add.commute add_le_cancel_left binomial_symmetric diff_add_inverse2
      le_add1 le_add2)

lemma Binomial_loop:
  assumes "i \<le> k" and "k \<le> n" and small: "int n * int (n choose k) < 2 ^ 63"
  shows "fold (\<lambda>i b. binom_step (int n) (int k) i b) [1..int i] 1 = int ((n - k + i) choose i)"
  using assms(1)
proof (induction i)
  case 0
  show ?case by simp
next
  case (Suc i)
  let ?m = "n - k"
  have le: "(?m + i) choose i \<le> n choose k"
    using choose_offset_mono [of i k ?m] Suc.prems assms(2) by simp
  have "int (?m + Suc i) * int ((?m + i) choose i) \<le> int n * int (n choose k)"
    using le Suc.prems assms(2) by (intro mult_mono) auto
  then have small': "int (?m + Suc i) * int ((?m + i) choose i) < 2 ^ 63"
    using small by linarith
  have "1 \<le> n choose k" using assms(2) by (simp add: Suc_leI zero_less_binomial_iff)
  then have "int n * 1 \<le> int n * int (n choose k)"
    by (intro mult_left_mono) auto
  then have nsmall: "int n < 2 ^ 63" using small by linarith
  have eq1: "int n - int k + int (Suc i) = int (?m + Suc i)" using assms(2) by simp
  have w1: "wrap64 (int (?m + Suc i)) = int (?m + Suc i)"
    using nsmall Suc.prems assms(2) by (intro wrap64_id) auto
  have spl: "[1..int (Suc i)] = [1..int i] @ [int (Suc i)]"
    using upto_rec2 [of 1 "int (Suc i)"] by simp
  have "fold (\<lambda>i b. binom_step (int n) (int k) i b) [1..int (Suc i)] 1
      = binom_step (int n) (int k) (int (Suc i)) (int ((?m + i) choose i))"
    using Suc by (simp add: spl del: of_nat_Suc)
  also have "\<dots> = go_div (int (?m + Suc i) * int ((?m + i) choose i)) (int (Suc i))"
    unfolding binom_step_def eq1 w1
    using small' by (subst wrap64_id) (auto intro: order_trans [of _ 0])
  also have "\<dots> = (int (?m + Suc i) * int ((?m + i) choose i)) div int (Suc i)"
    by (intro go_div_nonneg) auto
  also have "int (?m + Suc i) * int ((?m + i) choose i) = int (Suc i) * int ((?m + Suc i) choose Suc i)"
    using binomial_offset_step [of i ?m] by (metis of_nat_mult)
  finally show ?case by simp
qed

lemma Binomial_correct:
  assumes "int n * int (n choose k) < 2 ^ 63"
  shows "Binomial (int n) (int k) = int (n choose k)"
proof (cases "k \<le> n")
  case False
  then show ?thesis by (simp add: Binomial_def)
next
  case True
  have half: "go_div (int n) 2 = int n div 2" by (simp add: go_div_nonneg)
  define k' where "k' = (if k > n div 2 then n - k else k)"
  have k': "k' \<le> n" "n choose k' = n choose k"
    using True by (auto simp: k'_def binomial_symmetric [symmetric])
  have "(if int k > int n div 2 then int n - int k else int k) = int k'"
    using True by (auto simp: k'_def zdiv_int)
  then have "Binomial (int n) (int k)
      = fold (\<lambda>i b. binom_step (int n) (int k') i b) [1..int k'] 1"
    using True by (simp add: Binomial_def half Let_def)
  also have "\<dots> = int (n choose k')"
    using Binomial_loop [of k' k' n] k' assms by simp
  finally show ?thesis using k'(2) by simp
qed

section \<open>Combinations\<close>

text \<open>
  The reference enumeration: all strictly increasing index lists of length \<open>k\<close> below \<open>n\<close>, in
  lexicographic order.
\<close>

function combs :: "nat \<Rightarrow> nat \<Rightarrow> nat \<Rightarrow> nat list list" where
  "combs lo n 0 = [[]]"
| "combs lo n (Suc k) =
     (if n < lo + Suc k then []
      else map (\<lambda>xs. lo # xs) (combs (Suc lo) n k) @ combs (Suc lo) n (Suc k))"
  by pat_completeness auto
termination
  by (relation "measure (\<lambda>(lo, n, k). n - lo)") auto

declare combs.simps(2) [simp del]

lemma combs_rec:
  "lo + Suc k \<le> n \<Longrightarrow>
     combs lo n (Suc k) = map (\<lambda>xs. lo # xs) (combs (Suc lo) n k) @ combs (Suc lo) n (Suc k)"
  by (simp add: combs.simps(2) [of lo])

lemma combs_empty: "n < lo + k \<Longrightarrow> 0 < k \<Longrightarrow> combs lo n k = []"
  by (cases k) (simp_all add: combs.simps(2) [of lo])

lemma combs_nonempty: "lo + k \<le> n \<Longrightarrow> combs lo n k \<noteq> []"
  by (induction lo n k rule: combs.induct) (auto simp: combs_rec)

lemma combs_hd: "lo + k \<le> n \<Longrightarrow> hd (combs lo n k) = [lo..<lo + k]"
proof (induction lo n k rule: combs.induct)
  case (2 lo n k)
  have ne: "combs (Suc lo) n k \<noteq> []" using "2.prems" by (intro combs_nonempty) simp
  then have "hd (combs lo n (Suc k)) = lo # hd (combs (Suc lo) n k)"
    using "2.prems" by (simp add: combs_rec hd_map)
  also have "\<dots> = [lo..<lo + Suc k]"
    using "2.prems" "2.IH"(1) by (simp add: upt_rec [of lo])
  finally show ?case .
qed simp

lemma combs_last: "lo + k \<le> n \<Longrightarrow> last (combs lo n k) = [n - k..<n]"
proof (induction lo n k rule: combs.induct)
  case (2 lo n k)
  show ?case
  proof (cases "n < Suc lo + Suc k")
    case True
    then have n: "n = lo + Suc k" using "2.prems" by simp
    have ne: "combs (Suc lo) n k \<noteq> []" using n by (intro combs_nonempty) simp
    have "last (combs (Suc lo) n k) = [n - k..<n]" using "2.IH"(1) n by simp
    with ne n show ?thesis by (simp add: combs_rec combs_empty last_map upt_rec [of lo])
  next
    case False
    then have ne: "combs (Suc lo) n (Suc k) \<noteq> []" by (intro combs_nonempty) simp
    have "last (combs (Suc lo) n (Suc k)) = [n - Suc k..<n]"
      using "2.IH"(2) "2.prems" False by simp
    with ne "2.prems" show ?thesis by (simp add: combs_rec)
  qed
qed simp

lemma combs_length: "lo \<le> n \<Longrightarrow> length (combs lo n k) = (n - lo) choose k"
proof (induction lo n k rule: combs.induct)
  case (2 lo n k)
  show ?case
  proof (cases "n < lo + Suc k")
    case True
    then show ?thesis by (simp add: combs_empty)
  next
    case False
    then have "n - lo = Suc (n - Suc lo)" by simp
    with False "2.IH" show ?thesis by (simp add: combs_rec)
  qed
qed simp

lemma combs_set:
  "set (combs lo n k) = {xs. length xs = k \<and> sorted_wrt (<) xs \<and> set xs \<subseteq> {lo..<n}}"
proof (induction lo n k rule: combs.induct)
  case (1 lo n)
  show ?case by auto
next
  case (2 lo n k)
  show ?case
  proof (cases "n < lo + Suc k")
    case True
    have "xs \<notin> {xs. length xs = Suc k \<and> sorted_wrt (<) xs \<and> set xs \<subseteq> {lo..<n}}" for xs
    proof
      assume "xs \<in> {xs. length xs = Suc k \<and> sorted_wrt (<) xs \<and> set xs \<subseteq> {lo..<n}}"
      then have "length xs = Suc k" "distinct xs" "set xs \<subseteq> {lo..<n}"
        by (auto simp: strict_sorted_iff)
      then have "Suc k \<le> card {lo..<n}"
        by (metis card_mono distinct_card finite_atLeastLessThan)
      with True show False by simp
    qed
    with True show ?thesis by (auto simp: combs_empty)
  next
    case False
    then have rec: "combs lo n (Suc k)
        = map (\<lambda>xs. lo # xs) (combs (Suc lo) n k) @ combs (Suc lo) n (Suc k)"
      by (simp add: combs_rec)
    have "xs \<in> set (combs lo n (Suc k)) \<longleftrightarrow>
        length xs = Suc k \<and> sorted_wrt (<) xs \<and> set xs \<subseteq> {lo..<n}" for xs
    proof (cases xs)
      case Nil
      with False "2.IH" show ?thesis by (auto simp: rec)
    next
      case (Cons y ys)
      have "xs \<in> set (combs lo n (Suc k)) \<longleftrightarrow>
          y = lo \<and> length ys = k \<and> sorted_wrt (<) ys \<and> set ys \<subseteq> {Suc lo..<n} \<or>
          length xs = Suc k \<and> sorted_wrt (<) xs \<and> set xs \<subseteq> {Suc lo..<n}"
        using False "2.IH" Cons by (auto simp: rec)
      also have "\<dots> \<longleftrightarrow> length xs = Suc k \<and> sorted_wrt (<) xs \<and> set xs \<subseteq> {lo..<n}"
        using Cons False by (auto simp: subset_eq Suc_le_eq order_le_less)
      finally show ?thesis .
    qed
    then show ?thesis by blast
  qed
qed

lemma combs_distinct: "distinct (combs lo n k)"
proof (induction lo n k rule: combs.induct)
  case (2 lo n k)
  then show ?case
    by (cases "n < lo + Suc k") (auto simp: combs_empty combs_rec distinct_map combs_set)
qed simp

text \<open>The loop of \<open>nextCombination\<close> under a common first index.\<close>

lemma next_fold_Cons:
  "fold (\<lambda>l s. s[l := s ! Suc j + l - Suc j]) (map Suc ls) (a # y)
    = a # fold (\<lambda>l s. s[l := s ! j + l - j]) ls y"
  by (induction ls arbitrary: y) simp_all

lemma next_loop_Cons:
  "\<exists>i<j. x ! i \<noteq> n + i - k \<Longrightarrow> next_loop (a # x) n (Suc k) (Suc j) = a # next_loop x n k j"
proof (induction j)
  case (Suc j)
  show ?case
  proof (cases "x ! j = n + j - k")
    case True
    with Suc.prems have "\<exists>i<j. x ! i \<noteq> n + i - k" by (metis less_Suc_eq)
    with Suc.IH True show ?thesis by simp
  next
    case False
    have "[Suc (Suc j)..<Suc k] = map Suc [Suc j..<k]" by (simp add: map_Suc_upt)
    with False show ?thesis by (simp add: next_fold_Cons)
  qed
qed simp

lemma next_loop_Cons_max:
  "\<forall>i<j. x ! i = n + i - k \<Longrightarrow> next_loop (a # x) n (Suc k) (Suc j) = next_loop (a # x) n (Suc k) 1"
  by (induction j) auto

lemma next_fold_fresh:
  assumes "length x = k"
  shows "fold (\<lambda>l s. s[l := s ! 0 + l - 0]) [1..<Suc k] (b # x) = [b..<b + Suc k]"
proof (rule nth_equalityI)
  fix i
  assume "i < length (fold (\<lambda>l s. s[l := s ! 0 + l - 0]) [1..<Suc k] (b # x))"
  then have i: "i < Suc k" using assms by simp
  show "fold (\<lambda>l s. s[l := s ! 0 + l - 0]) [1..<Suc k] (b # x) ! i = [b..<b + Suc k] ! i"
  proof (cases "i = 0")
    case True
    then show ?thesis by (subst fold_update_other) (auto simp: nth_append)
  next
    case False
    have "fold (\<lambda>l s. s[id l := s ! 0 + l - 0]) [1..<Suc k] (b # x) ! id i = (b # x) ! 0 + i - 0"
      using False i assms by (intro fold_update_at) auto
    with i show ?thesis by (simp add: nth_append)
  qed
qed (use assms in simp)

lemma nextCombination_Cons:
  assumes "length x = k" and "x \<noteq> [n - k..<n]" and "k \<le> n"
  shows "nextCombination (a # x) n (Suc k) = a # nextCombination x n k"
proof -
  have "\<exists>i<k. x ! i \<noteq> n + i - k"
  proof (rule ccontr)
    assume "\<not> (\<exists>i<k. x ! i \<noteq> n + i - k)"
    then have "x = [n - k..<n]"
      using assms by (intro nth_equalityI) auto
    with assms(2) show False by simp
  qed
  then show ?thesis by (simp add: nextCombination_def next_loop_Cons del: next_loop.simps)
qed

lemma nextCombination_Cons_max:
  assumes "Suc k \<le> n" and "a \<noteq> n - Suc k"
  shows "nextCombination (a # [n - k..<n]) n (Suc k) = [Suc a..<Suc a + Suc k]"
proof -
  have "\<forall>i<k. [n - k..<n] ! i = n + i - k" using assms(1) by simp
  then have "nextCombination (a # [n - k..<n]) n (Suc k) = next_loop (a # [n - k..<n]) n (Suc k) 1"
    unfolding nextCombination_def by (rule next_loop_Cons_max)
  also have "\<dots> = fold (\<lambda>l s. s[l := s ! 0 + l - 0]) [1..<Suc k] (Suc a # [n - k..<n])"
    using assms(2) by (simp del: upt.simps)
  also have "\<dots> = [Suc a..<Suc a + Suc k]"
    using assms(1) by (intro next_fold_fresh) simp
  finally show ?thesis .
qed

lemma combs_successive:
  "lo + k \<le> n \<Longrightarrow> successively (\<lambda>x y. y = nextCombination x n k) (combs lo n k)"
proof (induction lo n k rule: combs.induct)
  case (2 lo n k)
  let ?A = "combs (Suc lo) n k" and ?B = "combs (Suc lo) n (Suc k)"
  have neA: "?A \<noteq> []" using "2.prems" by (intro combs_nonempty) simp
  have lastA: "last ?A = [n - k..<n]" using "2.prems" by (intro combs_last) simp
  have succA: "successively (\<lambda>x y. y = nextCombination x n k) ?A" using "2.IH"(1) "2.prems" by simp
  have sA: "successively (\<lambda>x y. lo # y = nextCombination (lo # x) n (Suc k)) ?A"
  proof -
    have "lo # ?A ! Suc i = nextCombination (lo # ?A ! i) n (Suc k)" if i: "Suc i < length ?A" for i
    proof -
      have step: "?A ! Suc i = nextCombination (?A ! i) n k"
        using succA i by (simp add: successively_conv_nth)
      have mem: "?A ! i \<in> set ?A" using i by simp
      have "last ?A = ?A ! (length ?A - 1)" using neA by (simp add: last_conv_nth)
      then have "?A ! i \<noteq> [n - k..<n]"
        using i lastA combs_distinct [of "Suc lo" n k] by (auto simp: nth_eq_iff_index_eq)
      with mem step show ?thesis
        using "2.prems" by (simp add: combs_set nextCombination_Cons)
    qed
    then show ?thesis by (simp add: successively_conv_nth)
  qed
  show ?case
  proof (cases "n < Suc lo + Suc k")
    case True
    then have "?B = []" by (intro combs_empty) simp_all
    with sA "2.prems" show ?thesis by (simp add: combs_rec successively_map)
  next
    case False
    have sB: "successively (\<lambda>x y. y = nextCombination x n (Suc k)) ?B"
      using "2.IH"(2) "2.prems" False by simp
    have hdB: "hd ?B = [Suc lo..<Suc lo + Suc k]" using False by (intro combs_hd) simp
    have "hd ?B = nextCombination (lo # last ?A) n (Suc k)"
      using False nextCombination_Cons_max [of k n lo] by (simp only: hdB lastA)
    with sA sB neA "2.prems" show ?thesis
      by (simp add: combs_rec successively_append_iff successively_map last_map)
  qed
qed simp

lemma comb_run_unroll:
  "successively (\<lambda>x y. y = nextCombination x n k) (x # xs) \<Longrightarrow> comb_run (length xs) x n k = xs"
  by (induction xs arbitrary: x) (simp_all add: Let_def)

lemma comb_run_combs:
  assumes "k \<le> n"
  shows "[0..<k] # comb_run ((n choose k) - 1) [0..<k] n k = combs 0 n k"
proof -
  obtain x xs where c: "combs 0 n k = x # xs"
    using combs_nonempty [of 0 k n] assms by (cases "combs 0 n k") auto
  have x: "x = [0..<k]" using combs_hd [of 0 k n] assms c by simp
  have "Suc (length xs) = n choose k" using combs_length [of 0 n k] c by simp
  then have "length xs = (n choose k) - 1" by linarith
  with combs_successive [of 0 k n] assms c x comb_run_unroll [of n k x xs] show ?thesis by simp
qed

lemma Combinations_combs:
  assumes "int (length s) * int (length s choose k) < 2 ^ 63"
  shows "Combinations s k = map (mapElements s) (combs 0 (length s) k)"
proof (cases "k \<le> length s")
  case True
  have "nat (Binomial (int (length s)) (int k) - 1) = (length s choose k) - 1"
    using Binomial_correct [OF assms] by linarith
  with True comb_run_combs [OF True] show ?thesis
    by (simp add: Combinations_def Let_def del: list.map) 
next
  case False
  have "combs 0 (length s) k = []" using False by (intro combs_empty) simp_all
  with False show ?thesis by (simp add: Combinations_def)
qed

text \<open>What a combination is: a list without repetitions, of the given length, from the slice.\<close>

lemma mapElements_set: "set (mapElements s xs) = (\<lambda>i. s ! i) ` set xs"
  by (simp add: mapElements_def)

lemma combs_element:
  assumes "distinct s" and "xs \<in> set (combs 0 (length s) k)"
  shows "distinct (mapElements s xs)" "length (mapElements s xs) = k"
    "set (mapElements s xs) \<subseteq> set s"
proof -
  from assms(2) have xs: "length xs = k" "sorted_wrt (<) xs" "set xs \<subseteq> {..<length s}"
    by (auto simp: combs_set)
  then have "distinct xs" by (simp add: strict_sorted_iff)
  moreover have "inj_on ((!) s) (set xs)"
    using assms(1) xs(3) by (auto intro!: inj_on_nth)
  ultimately show "distinct (mapElements s xs)" by (simp add: mapElements_def distinct_map)
  show "length (mapElements s xs) = k" using xs(1) by (simp add: mapElements_def)
  show "set (mapElements s xs) \<subseteq> set s" using xs(3) by (auto simp: mapElements_set)
qed

lemma combs_hit:
  assumes "distinct s" and "B \<subseteq> set s" and "card B = k"
  shows "\<exists>xs\<in>set (combs 0 (length s) k). set (mapElements s xs) = B"
proof -
  define I where "I = {i. i < length s \<and> s ! i \<in> B}"
  have fin: "finite I" by (simp add: I_def)
  have img: "(\<lambda>i. s ! i) ` I = B"
  proof
    show "B \<subseteq> (\<lambda>i. s ! i) ` I"
    proof
      fix x assume "x \<in> B"
      then obtain i where "i < length s" "s ! i = x"
        using assms(2) by (metis in_set_conv_nth subsetD)
      with \<open>x \<in> B\<close> show "x \<in> (\<lambda>i. s ! i) ` I" by (auto simp: I_def)
    qed
  qed (auto simp: I_def)
  have "inj_on ((!) s) I" using assms(1) by (auto simp: I_def intro!: inj_on_nth)
  then have "card I = k" using img assms(3) by (metis card_image)
  then have "sorted_list_of_set I \<in> set (combs 0 (length s) k)"
    using fin by (auto simp: combs_set I_def)
  moreover have "set (mapElements s (sorted_list_of_set I)) = B"
    using fin img by (simp add: mapElements_set)
  ultimately show ?thesis by blast
qed

lemma combs_inj:
  assumes "distinct s" "xs \<in> set (combs 0 (length s) k)" "ys \<in> set (combs 0 (length s) k)"
    and "set (mapElements s xs) = set (mapElements s ys)"
  shows "xs = ys"
proof -
  have sub: "set xs \<subseteq> {..<length s}" "set ys \<subseteq> {..<length s}"
    and sorted: "sorted_wrt (<) xs" "sorted_wrt (<) ys"
    using assms(2,3) by (auto simp: combs_set)
  have "inj_on ((!) s) {..<length s}" using assms(1) by (auto intro!: inj_on_nth)
  with sub assms(4) have "set xs = set ys"
    by (simp add: mapElements_set inj_on_image_eq_iff)
  with sorted show ?thesis by (simp add: strict_sorted_equal)
qed

lemma Combinations_sets:
  assumes "int (length s) * int (length s choose k) < 2 ^ 63" and "distinct s"
  shows "set ` set (Combinations s k) = {B. B \<subseteq> set s \<and> card B = k}"
proof -
  have "set ` set (Combinations s k) = (\<lambda>xs. set (mapElements s xs)) ` set (combs 0 (length s) k)"
    by (simp add: Combinations_combs [OF assms(1)] image_image)
  also have "\<dots> = {B. B \<subseteq> set s \<and> card B = k}"
  proof (intro equalityI subsetI)
    fix B assume "B \<in> (\<lambda>xs. set (mapElements s xs)) ` set (combs 0 (length s) k)"
    then obtain xs where xs: "xs \<in> set (combs 0 (length s) k)" "B = set (mapElements s xs)" by blast
    from combs_element [OF assms(2) xs(1)] xs(2) show "B \<in> {B. B \<subseteq> set s \<and> card B = k}"
      by (simp add: distinct_card)
  next
    fix B assume "B \<in> {B. B \<subseteq> set s \<and> card B = k}"
    with combs_hit [OF assms(2), of B k]
    show "B \<in> (\<lambda>xs. set (mapElements s xs)) ` set (combs 0 (length s) k)" by blast
  qed
  finally show ?thesis .
qed

lemma Combinations_elem:
  assumes "int (length s) * int (length s choose k) < 2 ^ 63" "distinct s"
    and "c \<in> set (Combinations s k)"
  shows "distinct c" "length c = k" "set c \<subseteq> set s"
  using assms combs_element [OF assms(2), of _ k] by (auto simp: Combinations_combs)

text \<open>
  \<open>Combinations\<close> enumerates exactly the \<open>k\<close>-element subsets of a slice without repetitions,
  each one once: the counter the loop runs to (the wrap-around binomial coefficient) and the
  successor function on index vectors together miss nothing and repeat nothing, for every slice
  on which the 64-bit product inside \<open>Binomial\<close> does not overflow.
\<close>

theorem Combinations_correct:
  assumes "int (length s) * int (length s choose k) < 2 ^ 63" and "distinct s"
  shows "set ` set (Combinations s k) = {B. B \<subseteq> set s \<and> card B = k}
    \<and> distinct (map set (Combinations s k))
    \<and> length (Combinations s k) = length s choose k"
proof (intro conjI)
  show "set ` set (Combinations s k) = {B. B \<subseteq> set s \<and> card B = k}"
    by (rule Combinations_sets [OF assms])
  have "inj_on (\<lambda>xs. set (mapElements s xs)) (set (combs 0 (length s) k))"
    by (rule inj_onI) (use combs_inj [OF assms(2)] in blast)
  then show "distinct (map set (Combinations s k))"
    by (simp add: Combinations_combs [OF assms(1)] distinct_map combs_distinct comp_def)
  show "length (Combinations s k) = length s choose k"
    by (simp add: Combinations_combs [OF assms(1)] combs_length)
qed

theorem Combinations_correct_witness:
  "set ` set (Combinations [1, 2, 3 :: int] 2) = {B. B \<subseteq> set [1, 2, 3] \<and> card B = 2}
    \<and> distinct (map set (Combinations [1, 2, 3 :: int] 2))
    \<and> length (Combinations [1, 2, 3 :: int] 2) = length [1, 2, 3 :: int] choose 2
    \<and> Combinations [1, 2, 3 :: int] 2 = [[1, 2], [1, 3], [2, 3]]"
proof -
  have h1: "int (length [1, 2, 3 :: int]) * int (length [1, 2, 3 :: int] choose 2) < 2 ^ 63"
    by (simp add: numeral_2_eq_2)
  have h2: "distinct [1, 2, 3 :: int]" by simp
  have "Combinations [1, 2, 3 :: int] 2 = [[1, 2], [1, 3], [2, 3]]" by code_simp
  with Combinations_correct [OF h1 h2] show ?thesis by blast
qed

end
