(* ===== verification/Hashset.thy ===== *)
theory Hashset
  imports Sliceutils
begin

text \<open>
  The set interface \<open>ds.Set\<close> (\<open>pkg/base/datastructures/set.go\<close>) as a locale, and the hash sets of
  \<open>hashset/comparable.go\<close> with their immutable wrapper \<open>hashset/immutable.go\<close>. A Go map from
  elements to \<open>struct{}\<close> is a list without repetitions; the order of the list stands for the order
  in which one \<open>range\<close> loop happens to visit the map, which Go leaves open, so every theorem about
  a set is stated on its elements, for a list in any order.
\<close>

section \<open>The interface\<close>

text \<open>
  What the clients of \<open>ds.Set\<close> and \<open>ds.MutableSet\<close> rely on: a representation invariant, the set of
  elements a value stands for, the elements a representation can hold, and the operations.
\<close>

locale ds_set =
  fixes inv :: "'s \<Rightarrow> bool"
    and elems :: "'s \<Rightarrow> 'e set"
    and admissible :: "'e set"
    and empty :: 's
    and add :: "'s \<Rightarrow> 'e \<Rightarrow> 's res"
    and remove :: "'s \<Rightarrow> 'e \<Rightarrow> 's res"
    and contains :: "'s \<Rightarrow> 'e \<Rightarrow> bool"
    and size :: "'s \<Rightarrow> nat"
    and list :: "'s \<Rightarrow> 'e list"
    and union :: "'s \<Rightarrow> 's \<Rightarrow> 's"
    and inter :: "'s \<Rightarrow> 's \<Rightarrow> 's"
    and diff :: "'s \<Rightarrow> 's \<Rightarrow> 's"
    and symdiff :: "'s \<Rightarrow> 's \<Rightarrow> 's"
    and subset :: "'s \<Rightarrow> 's \<Rightarrow> bool"
    and equal :: "'s \<Rightarrow> 's \<Rightarrow> bool"
  assumes inv_empty: "inv empty" and elems_empty: "elems empty = {}"
    and add_ok: "inv s \<Longrightarrow> e \<in> admissible \<Longrightarrow> \<exists>t. add s e = Inr t \<and> inv t \<and> elems t = insert e (elems s)"
    and add_panic: "e \<notin> admissible \<Longrightarrow> add s e = Inl Panic"
    and remove_ok: "inv s \<Longrightarrow> e \<in> admissible \<Longrightarrow> \<exists>t. remove s e = Inr t \<and> inv t \<and> elems t = elems s - {e}"
    and contains_iff: "inv s \<Longrightarrow> contains s e \<longleftrightarrow> e \<in> elems s"
    and size_card: "inv s \<Longrightarrow> size s = card (elems s)"
    and list_set: "inv s \<Longrightarrow> set (list s) = elems s"
    and list_distinct: "inv s \<Longrightarrow> distinct (list s)"
    and inv_ops: "inv s \<Longrightarrow> inv t \<Longrightarrow> inv (union s t) \<and> inv (inter s t) \<and> inv (diff s t) \<and> inv (symdiff s t)"
    and elems_union: "inv s \<Longrightarrow> inv t \<Longrightarrow> elems (union s t) = elems s \<union> elems t"
    and elems_inter: "inv s \<Longrightarrow> inv t \<Longrightarrow> elems (inter s t) = elems s \<inter> elems t"
    and elems_diff: "inv s \<Longrightarrow> inv t \<Longrightarrow> elems (diff s t) = elems s - elems t"
    and elems_symdiff: "inv s \<Longrightarrow> inv t \<Longrightarrow> elems (symdiff s t) = (elems s - elems t) \<union> (elems t - elems s)"
    and subset_iff: "inv s \<Longrightarrow> inv t \<Longrightarrow> subset s t \<longleftrightarrow> elems s \<subseteq> elems t"
    and equal_iff: "inv s \<Longrightarrow> inv t \<Longrightarrow> equal s t \<longleftrightarrow> elems s = elems t"
begin

lemma finite_elems: "inv s \<Longrightarrow> finite (elems s)"
  using list_set [of s] by (metis List.finite_set)

lemma length_list: "inv s \<Longrightarrow> length (list s) = size s"
  by (simp add: size_card list_set [symmetric] distinct_card list_distinct)

lemma size_union_inter:
  "inv s \<Longrightarrow> inv t \<Longrightarrow> size (union s t) + size (inter s t) = size s + size t"
  using inv_ops [of s t]
  by (simp add: size_card elems_union elems_inter card_Un_Int [symmetric] finite_elems)

lemma symdiff_as_difference:
  "inv s \<Longrightarrow> inv t \<Longrightarrow> equal (symdiff s t) (diff (union s t) (inter s t))"
  using inv_ops by (auto simp: equal_iff elems_symdiff elems_diff elems_union elems_inter)

lemma equal_two_inclusions: "inv s \<Longrightarrow> inv t \<Longrightarrow> equal s t \<longleftrightarrow> subset s t \<and> subset t s"
  by (auto simp: equal_iff subset_iff)

lemma subset_same_size: "inv s \<Longrightarrow> inv t \<Longrightarrow> subset s t \<Longrightarrow> size s = size t \<Longrightarrow> equal s t"
  by (simp add: subset_iff size_card equal_iff finite_elems card_subset_eq)

lemma add_all:
  "inv s \<Longrightarrow> set es \<subseteq> admissible \<Longrightarrow>
   \<exists>t. FoldOrError add s es = Inr t \<and> inv t \<and> elems t = elems s \<union> set es"
proof (induction es arbitrary: s)
  case (Cons e es)
  then obtain t where t: "add s e = Inr t" "inv t" "elems t = insert e (elems s)"
    using add_ok by (metis insert_subset list.simps(15))
  with Cons.IH [of t] Cons.prems show ?case by auto
qed simp

lemma new_set:
  "set es \<subseteq> admissible \<Longrightarrow> \<exists>t. FoldOrError add empty es = Inr t \<and> inv t \<and> elems t = set es"
  using add_all [of empty es] by (simp add: inv_empty elems_empty)

lemma add_all_panic:
  "inv s \<Longrightarrow> \<not> set es \<subseteq> admissible \<Longrightarrow> FoldOrError add s es = Inl Panic"
proof (induction es arbitrary: s)
  case (Cons e es)
  show ?case
  proof (cases "e \<in> admissible")
    case True
    then obtain t where "add s e = Inr t" "inv t" using add_ok [OF Cons.prems(1)] by blast
    with True Cons show ?thesis by auto
  qed (simp add: add_panic)
qed simp

end

section \<open>Hash sets\<close>

type_synonym 'a hset = "'a list"

definition hs_wf :: "'a hset \<Rightarrow> bool" where
  "hs_wf s = distinct s"

definition hs_Contains :: "'a hset \<Rightarrow> 'a \<Rightarrow> bool" where
  "hs_Contains s e = (e \<in> set s)"

definition hs_Add :: "'a hset \<Rightarrow> 'a \<Rightarrow> 'a hset" where
  "hs_Add s e = (if hs_Contains s e then s else s @ [e])"

definition hs_AddAll :: "'a hset \<Rightarrow> 'a list \<Rightarrow> 'a hset" where
  "hs_AddAll s es = fold (\<lambda>e s. hs_Add s e) es s"

definition hs_NewComparable :: "'a list \<Rightarrow> 'a hset" where
  "hs_NewComparable xs = hs_AddAll [] xs"

definition hs_Remove :: "'a hset \<Rightarrow> 'a \<Rightarrow> 'a hset" where
  "hs_Remove s e = filter (\<lambda>x. x \<noteq> e) s"

definition hs_RemoveAll :: "'a hset \<Rightarrow> 'a list \<Rightarrow> 'a hset" where
  "hs_RemoveAll s es = fold (\<lambda>e s. hs_Remove s e) es s"

definition hs_Clear :: "'a hset \<Rightarrow> 'a hset" where
  "hs_Clear s = []"

text \<open>\<open>Freeze\<close>, \<open>Unfreeze\<close> and both \<open>Clone\<close> methods copy the map.\<close>

definition hs_Clone :: "'a hset \<Rightarrow> 'a hset" where
  "hs_Clone s = s"

definition hs_Size :: "'a hset \<Rightarrow> nat" where
  "hs_Size s = length s"

definition hs_IsEmpty :: "'a hset \<Rightarrow> bool" where
  "hs_IsEmpty s = (length s = 0)"

definition hs_List :: "'a hset \<Rightarrow> 'a list" where
  "hs_List s = s"

definition hs_Iter2 :: "'a hset \<Rightarrow> (nat \<times> 'a) list" where
  "hs_Iter2 s = zip [0..<length s] s"

definition hs_Union :: "'a hset \<Rightarrow> 'a hset \<Rightarrow> 'a hset" where
  "hs_Union s t = hs_AddAll (hs_Clone s) (hs_List t)"

definition hs_Intersection :: "'a hset \<Rightarrow> 'a hset \<Rightarrow> 'a hset" where
  "hs_Intersection s t = fold (\<lambda>k out. if hs_Contains t k then hs_Add out k else out) (hs_List s) []"

definition hs_Difference :: "'a hset \<Rightarrow> 'a hset \<Rightarrow> 'a hset" where
  "hs_Difference s t = hs_RemoveAll (hs_Clone s) (hs_List t)"

definition hs_SymmetricDifference :: "'a hset \<Rightarrow> 'a hset \<Rightarrow> 'a hset" where
  "hs_SymmetricDifference s t = hs_Difference (hs_Union s t) (hs_Intersection s t)"

definition hs_IsSubSet :: "'a hset \<Rightarrow> 'a hset \<Rightarrow> bool" where
  "hs_IsSubSet s t = list_all (hs_Contains t) (hs_List s)"

definition hs_Equal :: "'a hset \<Rightarrow> 'a hset \<Rightarrow> bool" where
  "hs_Equal s t = (hs_IsSubSet s t \<and> hs_IsSubSet t s)"

definition hs_IsProperSubSet :: "'a hset \<Rightarrow> 'a hset \<Rightarrow> bool" where
  "hs_IsProperSubSet s t = (hs_IsSubSet s t \<and> \<not> hs_Equal s t)"

definition hs_IsSuperSet :: "'a hset \<Rightarrow> 'a hset \<Rightarrow> bool" where
  "hs_IsSuperSet s t = list_all (hs_Contains s) (hs_List t)"

definition hs_IsProperSuperSet :: "'a hset \<Rightarrow> 'a hset \<Rightarrow> bool" where
  "hs_IsProperSuperSet s t = (hs_IsSuperSet s t \<and> \<not> hs_Equal s t)"

definition hs_IterSubSets :: "'a hset \<Rightarrow> 'a hset list" where
  "hs_IterSubSets s =
     concat (map (\<lambda>i. map hs_NewComparable (Combinations (hs_List s) i)) [0..<hs_Size s + 1])"

text \<open>
  \<open>SubSets\<close> writes the subsets one after the other into a slice of \<open>1 << Size()\<close> entries; writing
  past its end panics, and an entry never written stays the nil interface. From 63 elements on the
  shift no longer gives a positive \<open>int\<close>: allocating the slice, or the first write into it, panics.
\<close>

definition hs_SubSets :: "'a hset \<Rightarrow> 'a hset option list res" where
  "hs_SubSets s =
     (if 63 \<le> hs_Size s then Inl Panic
      else (let result = replicate (2 ^ hs_Size s) None; subs = hs_IterSubSets s in
        if length subs \<le> length result then
          Inr (map Some subs @ drop (length subs) result)
        else Inl Panic))"

subsection \<open>Basic facts\<close>

lemma hs_Contains_iff [simp]: "hs_Contains s e \<longleftrightarrow> e \<in> set s"
  by (simp add: hs_Contains_def)

lemma hs_Add_set [simp]: "set (hs_Add s e) = insert e (set s)"
  by (auto simp: hs_Add_def)

lemma hs_Add_wf: "hs_wf s \<Longrightarrow> hs_wf (hs_Add s e)"
  by (simp add: hs_Add_def hs_wf_def)

lemma hs_AddAll_set [simp]: "set (hs_AddAll s es) = set s \<union> set es"
  unfolding hs_AddAll_def by (induction es arbitrary: s) auto

lemma hs_AddAll_wf: "hs_wf s \<Longrightarrow> hs_wf (hs_AddAll s es)"
  unfolding hs_AddAll_def by (induction es arbitrary: s) (auto simp: hs_Add_wf)

lemma hs_New_set [simp]: "set (hs_NewComparable xs) = set xs"
  by (simp add: hs_NewComparable_def)

lemma hs_New_wf [simp]: "hs_wf (hs_NewComparable xs)" "distinct (hs_NewComparable xs)"
  using hs_AddAll_wf [of "[]" xs] by (simp_all add: hs_NewComparable_def hs_wf_def)

lemma hs_AddAll_Add: "hs_AddAll c (hs_Add s e) = hs_Add (hs_AddAll c s) e"
proof (cases "e \<in> set s")
  case True
  then show ?thesis by (simp add: hs_Add_def)
qed (simp add: hs_Add_def hs_AddAll_def)

lemma hs_AddAll_New: "hs_AddAll c (hs_NewComparable xs) = hs_AddAll c xs"
proof -
  have "hs_AddAll c (hs_AddAll s xs) = hs_AddAll (hs_AddAll c s) xs" for s
  proof (induction xs arbitrary: s)
    case (Cons x xs)
    have "hs_AddAll s (x # xs) = hs_AddAll (hs_Add s x) xs" for s by (simp add: hs_AddAll_def)
    with Cons show ?case by (simp add: hs_AddAll_Add)
  qed (simp add: hs_AddAll_def)
  from this [of "[]"] show ?thesis by (simp add: hs_NewComparable_def) (simp add: hs_AddAll_def)
qed

lemma hs_New_distinct: "distinct xs \<Longrightarrow> hs_NewComparable xs = xs"
proof -
  have "distinct (s @ xs) \<Longrightarrow> hs_AddAll s xs = s @ xs" for s
    unfolding hs_AddAll_def
    by (induction xs arbitrary: s) (auto simp: hs_Add_def)
  then show "distinct xs \<Longrightarrow> hs_NewComparable xs = xs"
    by (simp add: hs_NewComparable_def)
qed

lemma hs_Size_New [simp]: "hs_Size (hs_NewComparable xs) = card (set xs)"
  by (metis distinct_card hs_New_set hs_New_wf(2) hs_Size_def)

lemma hs_Remove_set [simp]: "set (hs_Remove s e) = set s - {e}"
  by (auto simp: hs_Remove_def)

lemma hs_RemoveAll_set [simp]: "set (hs_RemoveAll s es) = set s - set es"
  unfolding hs_RemoveAll_def by (induction es arbitrary: s) auto

lemma hs_RemoveAll_wf: "hs_wf s \<Longrightarrow> hs_wf (hs_RemoveAll s es)"
  unfolding hs_RemoveAll_def by (induction es arbitrary: s) (auto simp: hs_Remove_def hs_wf_def)

lemma hs_Union_set [simp]: "set (hs_Union s t) = set s \<union> set t"
  by (simp add: hs_Union_def hs_Clone_def hs_List_def)

lemma hs_Difference_set [simp]: "set (hs_Difference s t) = set s - set t"
  by (simp add: hs_Difference_def hs_Clone_def hs_List_def)

lemma hs_Add_distinct: "distinct s \<Longrightarrow> distinct (hs_Add s e)"
  using hs_Add_wf [of s e] by (simp add: hs_wf_def)

lemma hs_Intersection_set [simp]: "set (hs_Intersection s t) = set s \<inter> set t"
proof -
  have "set (fold (\<lambda>k out. if hs_Contains t k then hs_Add out k else out) xs a)
      = set a \<union> (set xs \<inter> set t)" for xs a
    by (induction xs arbitrary: a) auto
  then show ?thesis unfolding hs_Intersection_def hs_List_def by simp
qed

lemma hs_Intersection_wf: "hs_wf (hs_Intersection s t)"
proof -
  have "distinct a \<Longrightarrow>
    distinct (fold (\<lambda>k out. if hs_Contains t k then hs_Add out k else out) xs a)" for xs a
    by (induction xs arbitrary: a) (auto simp: hs_Add_distinct)
  then show ?thesis unfolding hs_Intersection_def hs_wf_def by simp
qed

lemma hs_SymmetricDifference_set: "set (hs_SymmetricDifference s t) = (set s - set t) \<union> (set t - set s)"
  by (auto simp: hs_SymmetricDifference_def)

lemma hs_ops_wf:
  "hs_wf s \<Longrightarrow> hs_wf (hs_Union s t)" "hs_wf (hs_Intersection s t)"
  "hs_wf s \<Longrightarrow> hs_wf (hs_Difference s t)" "hs_wf s \<Longrightarrow> hs_wf (hs_SymmetricDifference s t)"
  by (simp_all add: hs_Union_def hs_Intersection_wf hs_Difference_def hs_SymmetricDifference_def
      hs_Clone_def hs_List_def hs_AddAll_wf hs_RemoveAll_wf)

lemma hs_IsSubSet_iff [simp]: "hs_IsSubSet s t \<longleftrightarrow> set s \<subseteq> set t"
  by (auto simp: hs_IsSubSet_def hs_List_def list_all_iff)

lemma hs_Equal_iff [simp]: "hs_Equal s t \<longleftrightarrow> set s = set t"
  by (auto simp: hs_Equal_def)

lemma hs_IsProperSubSet_iff: "hs_IsProperSubSet s t \<longleftrightarrow> set s \<subset> set t"
  by (auto simp: hs_IsProperSubSet_def)

lemma hs_super_iff:
  "hs_IsSuperSet s t \<longleftrightarrow> set t \<subseteq> set s" "hs_IsProperSuperSet s t \<longleftrightarrow> set t \<subset> set s"
  by (auto simp: hs_IsSuperSet_def hs_IsProperSuperSet_def hs_List_def list_all_iff)

lemma hs_List_set [simp]: "set (hs_List s) = set s"
  by (simp add: hs_List_def)

lemma hs_Size_card: "hs_wf s \<Longrightarrow> hs_Size s = card (set s)"
  by (simp add: hs_Size_def hs_wf_def distinct_card)

lemma hs_IsEmpty_iff [simp]: "hs_IsEmpty s \<longleftrightarrow> set s = {}"
  by (simp add: hs_IsEmpty_def)

interpretation hset: ds_set hs_wf set UNIV "[]" "\<lambda>s e. Inr (hs_Add s e)" "\<lambda>s e. Inr (hs_Remove s e)"
  hs_Contains hs_Size hs_List hs_Union hs_Intersection hs_Difference hs_SymmetricDifference
  hs_IsSubSet hs_Equal
  by unfold_locales
    (auto simp: hs_ops_wf hs_Add_wf hs_Size_card hs_SymmetricDifference_set,
     auto simp: hs_wf_def hs_Remove_def hs_List_def)

subsection \<open>The power set\<close>

lemma binomial_sum_bound:
  assumes "n \<le> 57"
  shows "int n * int (n choose k) < 2 ^ 63"
proof -
  have "n choose k \<le> 2 ^ n"
  proof (cases "k \<le> n")
    case True
    then have "n choose k \<le> (\<Sum>k\<le>n. n choose k)" by (intro member_le_sum) auto
    then show ?thesis by (simp add: choose_row_sum)
  qed (simp add: binomial_eq_0)
  also have "(2::nat) ^ n \<le> 2 ^ 57" using assms by (intro power_increasing) auto
  finally have "int n * int (n choose k) \<le> 57 * 2 ^ 57"
    using assms by (intro mult_mono) auto
  then show ?thesis by simp
qed

lemma hs_IterSubSets_sets:
  assumes "hs_wf s" "hs_Size s \<le> 57"
  shows "set ` set (hs_IterSubSets s) = Pow (set s)"
proof -
  have d: "distinct s" using assms(1) by (simp add: hs_wf_def)
  have b: "int (length s) * int (length s choose i) < 2 ^ 63" for i
    using assms(2) by (intro binomial_sum_bound) (simp add: hs_Size_def)
  have "set ` set (hs_IterSubSets s) = (\<Union>i<length s + 1. set ` set (Combinations s i))"
    by (simp add: hs_IterSubSets_def hs_List_def hs_Size_def image_image image_UN
        lessThan_atLeast0 del: upt_Suc)
  also have "\<dots> = (\<Union>i<length s + 1. {B. B \<subseteq> set s \<and> card B = i})"
    by (simp add: Combinations_sets [OF b d])
  also have "\<dots> = Pow (set s)"
  proof -
    have "B \<subseteq> set s \<Longrightarrow> card B < length s + 1" for B
      using card_mono [of "set s" B] d by (simp add: distinct_card less_Suc_eq_le)
    then show ?thesis by auto
  qed
  finally show ?thesis .
qed

lemma Combinations_length:
  assumes "int (length s) * int (length s choose k) < 2 ^ 63"
  shows "length (Combinations s k) = length s choose k"
  by (simp add: Combinations_combs [OF assms] combs_length)

lemma hs_IterSubSets_length:
  assumes "hs_Size s \<le> 57"
  shows "length (hs_IterSubSets s) = 2 ^ hs_Size s"
proof -
  have b: "int (length s) * int (length s choose i) < 2 ^ 63" for i
    using assms by (intro binomial_sum_bound) (simp add: hs_Size_def)
  have "length (hs_IterSubSets s) = (\<Sum>i<length s + 1. length s choose i)"
    by (simp add: hs_IterSubSets_def length_concat comp_def hs_List_def hs_Size_def
        Combinations_length [OF b] del: upt_Suc)
  also have "\<dots> = 2 ^ length s"
    using choose_row_sum [of "length s"] by (simp add: lessThan_Suc_atMost)
  finally show ?thesis by (simp add: hs_Size_def)
qed

text \<open>
  \<open>SubSets\<close> of a hash set with at most 57 elements never writes past the slice of \<open>2 ^ Size()\<close>
  entries it allocated, leaves no entry nil, and returns the power set: every subset appears, and
  the entries stand for pairwise different sets.
\<close>

theorem hs_SubSets_power_set:
  assumes "hs_wf s" "hs_Size s \<le> 57"
  shows "\<exists>subs. hs_SubSets s = Inr (map Some subs) \<and> set ` set subs = Pow (set s)
    \<and> distinct (map set subs)"
proof -
  have len: "length (hs_IterSubSets s) = 2 ^ hs_Size s"
    by (rule hs_IterSubSets_length [OF assms(2)])
  have sets: "set ` set (hs_IterSubSets s) = Pow (set s)" by (rule hs_IterSubSets_sets [OF assms])
  then have "card (set (map set (hs_IterSubSets s))) = length (map set (hs_IterSubSets s))"
    using len assms(1) by (simp add: card_Pow hs_Size_card)
  then have "distinct (map set (hs_IterSubSets s))" by (rule card_distinct)
  with len sets assms(2) show ?thesis
    by (intro exI [of _ "hs_IterSubSets s"]) (simp add: hs_SubSets_def Let_def)
qed

theorem hs_SubSets_power_set_witness:
  "\<exists>subs. hs_SubSets [3, 5 :: ID] = Inr (map Some subs) \<and> set ` set subs = Pow (set [3, 5])
    \<and> distinct (map set subs)"
  by (rule hs_SubSets_power_set) (simp_all add: hs_wf_def hs_Size_def)

end
