(* ===== verification/MSP.thy ===== *)
theory MSP
  imports Solver Hashset
begin

text \<open>
  Monotone span programmes (\<open>pkg/mpc/sharing/scheme/kw/msp/msp.go\<close>): a matrix over a field whose rows are
  labelled with shareholders. A coalition is accepted when its rows span the target vector \<open>(1, 0, ..., 0)\<close>;
  the reconstruction vector is the combination the linear solver finds. The two maps are association
  lists; the row set of a holder is a hash set of row indices.
\<close>

record 'a MSP =
  msp_matrix :: "'a Matrix"
  rowsToHolders :: "(int \<times> ID) list"
  holdersToRows :: "(ID \<times> int hset) list"

text \<open>The loop that inverts the labelling: a first row opens the holder's set, a later one joins it.\<close>

definition invert_labels :: "(int \<times> ID) list \<Rightarrow> (ID \<times> int hset) list" where
  "invert_labels r2h =
     fold (\<lambda>(rowIndex, holder) h.
         (case map_of h holder of
            None \<Rightarrow> AList.update holder (hs_NewComparable [rowIndex]) h
          | Some el \<Rightarrow> AList.update holder (hs_Add el rowIndex) h)) r2h []"

definition NewMSP :: "('a::field) Matrix option \<Rightarrow> (int \<times> ID) list option \<Rightarrow> 'a MSP res" where
  "NewMSP m r2h =
     (case m of
        None \<Rightarrow> Inl ErrIsNil
      | Some m \<Rightarrow>
          (case r2h of
             None \<Rightarrow> Inl ErrIsNil
           | Some r2h \<Rightarrow>
               if list_ex (\<lambda>i. map_of r2h (int i) = None) [0..<mrows m] then Inl ErrValue
               else if list_ex (\<lambda>(k, v). k < 0 \<or> k \<ge> int (mrows m) \<or> v = 0) r2h then Inl ErrValue
               else Inr \<lparr>msp_matrix = m, rowsToHolders = r2h, holdersToRows = invert_labels r2h\<rparr>))"

definition msp_Shareholders :: "'a MSP \<Rightarrow> ID hset" where
  "msp_Shareholders m = hs_NewComparable (map fst (holdersToRows m))"

text \<open>\<open>TargetVector\<close> panics when the matrix has no column, which the matrix constructors exclude.\<close>

definition msp_TargetVector :: "('a::field) MSP \<Rightarrow> 'a Matrix res" where
  "msp_TargetVector m =
     (case NewStandardUnit \<lparr>modrows = mrows (msp_matrix m), modcols = mcols (msp_matrix m)\<rparr> 0 of
        Inl _ \<Rightarrow> Inl Panic | Inr t \<Rightarrow> Inr t)"

definition msp_Size :: "'a MSP \<Rightarrow> nat" where
  "msp_Size m = mrows (msp_matrix m)"

definition msp_D :: "'a MSP \<Rightarrow> nat" where
  "msp_D m = mcols (msp_matrix m)"

definition msp_IsIdeal :: "'a MSP \<Rightarrow> bool" where
  "msp_IsIdeal m = list_all (\<lambda>rows. hs_Size rows = 1) (map snd (holdersToRows m))"

definition msp_collect_rows :: "'a MSP \<Rightarrow> ID list \<Rightarrow> int list res" where
  "msp_collect_rows m ids =
     FoldOrError (\<lambda>rows holder.
         case map_of (holdersToRows m) holder of
           None \<Rightarrow> Inl ErrValue
         | Some rowsID \<Rightarrow> Inr (rows @ hs_List rowsID)) [] ids"

definition ReconstructionVector :: "('a::field) MSP \<Rightarrow> ID list \<Rightarrow> 'a Matrix res" where
  "ReconstructionVector m IDs =
     (let idSet = hs_NewComparable IDs; sortedIDs = sort (hs_List idSet) in
      rbind (msp_collect_rows m sortedIDs) (\<lambda>rows.
        if length rows = 0 then Inl ErrValue
        else rbind (mat_SubMatrixGivenRows (msp_matrix m) (sort rows)) (\<lambda>mIDs.
          rbind (msp_TargetVector m) (\<lambda>t. SolveLeft mIDs t))))"

definition Accepts :: "('a::field) MSP \<Rightarrow> ID list \<Rightarrow> bool" where
  "Accepts m IDs = is_ok (ReconstructionVector m IDs)"

definition msp_Clone :: "('a::field) MSP option \<Rightarrow> 'a MSP option res" where
  "msp_Clone m =
     (case m of
        None \<Rightarrow> Inr None
      | Some m \<Rightarrow>
          (case NewMSP (Some (msp_matrix m)) (Some (rowsToHolders m)) of Inl _ \<Rightarrow> Inl Panic | Inr c \<Rightarrow> Inr (Some c)))"

definition msp_Equal :: "'a MSP option \<Rightarrow> 'a MSP option \<Rightarrow> bool" where
  "msp_Equal m other =
     (case (m, other) of
        (Some m, Some other) \<Rightarrow>
          mat_Equal (msp_matrix m) (msp_matrix other) \<and>
          list_all (\<lambda>(k, v). map_of (rowsToHolders other) k = Some v) (rowsToHolders m) \<and>
          list_all (\<lambda>(k, v). case map_of (holdersToRows other) k of None \<Rightarrow> False | Some v' \<Rightarrow> hs_Equal v v')
            (holdersToRows m)
      | (None, None) \<Rightarrow> True
      | _ \<Rightarrow> False)"

section \<open>Labels\<close>

text \<open>The holder of a row, and the well-formedness of a programme that \<open>NewMSP\<close> establishes.\<close>

definition row_label :: "'a MSP \<Rightarrow> nat \<Rightarrow> ID" where
  "row_label m i = the (map_of (rowsToHolders m) (int i))"

definition msp_wf :: "'a MSP \<Rightarrow> bool" where
  "msp_wf m \<longleftrightarrow> mat_wf (msp_matrix m) \<and> distinct (map fst (rowsToHolders m)) \<and>
     set (map fst (rowsToHolders m)) = int ` {..<mrows (msp_matrix m)} \<and>
     (\<forall>(k, v) \<in> set (rowsToHolders m). v \<noteq> 0) \<and> holdersToRows m = invert_labels (rowsToHolders m)"

text \<open>The rows of a coalition, in ascending order.\<close>

definition rows_for :: "'a MSP \<Rightarrow> ID set \<Rightarrow> nat list" where
  "rows_for m A = filter (\<lambda>i. row_label m i \<in> A) [0..<mrows (msp_matrix m)]"

definition msp_holders :: "'a MSP \<Rightarrow> ID set" where
  "msp_holders m = row_label m ` {..<mrows (msp_matrix m)}"

lemma NewMSP_wf:
  assumes "NewMSP (Some m) (Some r2h) = Inr p" "mat_wf m" "distinct (map fst r2h)"
  shows "msp_wf p" "msp_matrix p = m" "rowsToHolders p = r2h"
proof -
  from assms(1) have p: "p = \<lparr>msp_matrix = m, rowsToHolders = r2h, holdersToRows = invert_labels r2h\<rparr>"
    and all: "\<And>i. i < mrows m \<Longrightarrow> map_of r2h (int i) \<noteq> None"
    and rng: "\<And>k v. (k, v) \<in> set r2h \<Longrightarrow> 0 \<le> k \<and> k < int (mrows m) \<and> v \<noteq> 0"
    by (auto simp: NewMSP_def list_ex_iff split: if_splits)
  have "fst ` set r2h = int ` {..<mrows m}"
  proof
    show "fst ` set r2h \<subseteq> int ` {..<mrows m}"
    proof
      fix k assume "k \<in> fst ` set r2h"
      then have "0 \<le> k" "k < int (mrows m)" using rng by auto
      then show "k \<in> int ` {..<mrows m}" by (auto intro!: image_eqI [of _ _ "nat k"] simp: nat_less_iff)
    qed
    show "int ` {..<mrows m} \<subseteq> fst ` set r2h" using all by (auto simp: map_of_eq_None_iff)
  qed
  with p rng assms(2,3) show "msp_wf p" "msp_matrix p = m" "rowsToHolders p = r2h"
    by (auto simp: msp_wf_def)
qed

lemma invert_labels_spec:
  assumes "distinct (map fst r2h)"
  shows "distinct (map fst (invert_labels r2h)) \<and>
    (\<forall>holder. case map_of (invert_labels r2h) holder of
       None \<Rightarrow> holder \<notin> snd ` set r2h
     | Some rs \<Rightarrow> holder \<in> snd ` set r2h \<and> distinct rs \<and> set rs = {k. (k, holder) \<in> set r2h})"
  using assms
proof (induction r2h rule: rev_induct)
  case Nil
  then show ?case by (simp add: invert_labels_def)
next
  case (snoc x xs)
  obtain k v where x: "x = (k, v)" by (cases x)
  let ?h = "invert_labels xs" and ?h' = "invert_labels (xs @ [x])"
  have IH: "distinct (map fst ?h)" "case map_of ?h holder of None \<Rightarrow> holder \<notin> snd ` set xs
     | Some rs \<Rightarrow> holder \<in> snd ` set xs \<and> distinct rs \<and> set rs = {k. (k, holder) \<in> set xs}" for holder
    using snoc by simp_all
  define el where "el = (case map_of ?h v of None \<Rightarrow> hs_NewComparable [k] | Some el \<Rightarrow> hs_Add el k)"
  have h': "?h' = AList.update v el ?h"
    by (simp add: invert_labels_def x el_def split: option.split)
  have el: "distinct el \<and> set el = {k'. (k', v) \<in> set (xs @ [x])}"
    using IH(2) [of v] by (auto simp: el_def x hs_NewComparable_def hs_AddAll_def hs_Add_def hs_Contains_def
        image_iff split: option.splits)
  have "case map_of ?h' holder of None \<Rightarrow> holder \<notin> snd ` set (xs @ [x])
     | Some rs \<Rightarrow> holder \<in> snd ` set (xs @ [x]) \<and> distinct rs \<and> set rs = {k. (k, holder) \<in> set (xs @ [x])}" for holder
  proof -
    have "map_of ?h' holder = (if holder = v then Some el else map_of ?h holder)"
      by (simp only: h') (simp add: update_conv')
    then show ?thesis using IH(2) [of holder] el by (cases "map_of ?h holder") (auto simp: x)
  qed
  moreover have "distinct (map fst ?h')" using IH(1) by (simp add: h' distinct_update)
  ultimately show ?case by blast
qed

lemma label_row:
  assumes "msp_wf m" "i < mrows (msp_matrix m)"
  shows "(int i, holder) \<in> set (rowsToHolders m) \<longleftrightarrow> row_label m i = holder"
proof -
  from assms have d: "distinct (map fst (rowsToHolders m))" and "int i \<in> fst ` set (rowsToHolders m)"
    by (auto simp: msp_wf_def)
  then obtain v where "map_of (rowsToHolders m) (int i) = Some v"
    by (metis map_of_eq_None_iff not_None_eq)
  moreover have "(int i, holder) \<in> set (rowsToHolders m) \<longleftrightarrow> map_of (rowsToHolders m) (int i) = Some holder"
    using map_of_eq_Some_iff [OF d] by simp
  ultimately show ?thesis by (simp add: row_label_def)
qed

lemma label_range:
  assumes "msp_wf m" "(k, v) \<in> set (rowsToHolders m)"
  shows "k \<in> int ` {..<mrows (msp_matrix m)}"
  using assms by (force simp: msp_wf_def)

lemma label_holders:
  assumes "msp_wf m"
  shows "snd ` set (rowsToHolders m) = msp_holders m"
proof -
  have "v \<in> msp_holders m" if "(k, v) \<in> set (rowsToHolders m)" for k v
    using label_range [OF assms that] label_row [OF assms] that by (auto simp: msp_holders_def)
  moreover have "row_label m i \<in> snd ` set (rowsToHolders m)" if "i < mrows (msp_matrix m)" for i
    using label_row [OF assms that] by force
  ultimately show ?thesis by (force simp: msp_holders_def)
qed

lemma rows_of_holder:
  assumes "msp_wf m"
  shows "case map_of (holdersToRows m) holder of
      None \<Rightarrow> holder \<notin> msp_holders m
    | Some rs \<Rightarrow> holder \<in> msp_holders m \<and> distinct rs \<and> set rs = int ` set (rows_for m {holder})"
proof -
  let ?r = "rowsToHolders m"
  have rows: "{k. (k, holder) \<in> set ?r} = int ` set (rows_for m {holder})"
  proof (rule set_eqI)
    fix k
    show "k \<in> {k. (k, holder) \<in> set ?r} \<longleftrightarrow> k \<in> int ` set (rows_for m {holder})"
      using label_range [OF assms, of k holder] label_row [OF assms, of "nat k" holder] by (auto simp: rows_for_def)
  qed
  have "distinct (map fst ?r)" "holdersToRows m = invert_labels ?r" using assms by (simp_all add: msp_wf_def)
  with invert_labels_spec [of ?r] show ?thesis
    unfolding rows [symmetric] label_holders [OF assms, symmetric] by simp
qed

lemma holder_keys: "msp_wf m \<Longrightarrow> fst ` set (holdersToRows m) = msp_holders m"
proof (rule set_eqI)
  fix holder
  assume wf: "msp_wf m"
  have "holder \<in> fst ` set (holdersToRows m) \<longleftrightarrow> map_of (holdersToRows m) holder \<noteq> None"
    by (simp add: map_of_eq_None_iff)
  with rows_of_holder [OF wf, of holder]
  show "holder \<in> fst ` set (holdersToRows m) \<longleftrightarrow> holder \<in> msp_holders m"
    by (cases "map_of (holdersToRows m) holder") auto
qed

lemma msp_Shareholders_holders: "msp_wf m \<Longrightarrow> set (msp_Shareholders m) = msp_holders m"
  by (simp add: msp_Shareholders_def holder_keys)

subsection \<open>Selecting the rows of a coalition\<close>

lemma rows_for_sorted: "sorted (rows_for m A)" "distinct (rows_for m A)"
  by (simp_all add: rows_for_def sorted_wrt_filter)

lemma rows_for_Union: "set (rows_for m (A \<union> B)) = set (rows_for m A) \<union> set (rows_for m B)"
  by (auto simp: rows_for_def)

lemma rows_for_less: "i \<in> set (rows_for m A) \<Longrightarrow> i < mrows (msp_matrix m)"
  by (simp add: rows_for_def)

lemma msp_collect_rows_spec:
  assumes "msp_wf m" "distinct ids"
  shows "if set ids \<subseteq> msp_holders m
    then \<exists>rows. msp_collect_rows m ids = Inr rows \<and> distinct rows \<and> set rows = int ` set (rows_for m (set ids))
    else msp_collect_rows m ids = Inl ErrValue"
  using assms(2)
proof (induction ids rule: rev_induct)
  case Nil
  then show ?case by (simp add: msp_collect_rows_def rows_for_def)
next
  case (snoc x xs)
  have step: "msp_collect_rows m (xs @ [x]) = rbind (msp_collect_rows m xs) (\<lambda>rows.
      case map_of (holdersToRows m) x of None \<Rightarrow> Inl ErrValue | Some rowsID \<Rightarrow> Inr (rows @ hs_List rowsID))"
    unfolding msp_collect_rows_def FoldOrError_append
    by (intro rbind_cong refl) (simp split: option.split)
  have disj: "set (rows_for m {x}) \<inter> set (rows_for m (set xs)) = {}"
    using snoc.prems by (auto simp: rows_for_def)
  have un: "set (rows_for m (set (xs @ [x]))) = set (rows_for m (set xs)) \<union> set (rows_for m {x})"
    using rows_for_Union [of m "set xs" "{x}"] by simp
  show ?case
  proof (cases "set xs \<subseteq> msp_holders m")
    case False
    with snoc show ?thesis by (simp add: step)
  next
    case True
    with snoc obtain rows where rows: "msp_collect_rows m xs = Inr rows" "distinct rows"
      "set rows = int ` set (rows_for m (set xs))" by auto
    show ?thesis
    proof (cases "map_of (holdersToRows m) x")
      case None
      with rows_of_holder [OF assms(1), of x] rows(1) show ?thesis by (simp add: step)
    next
      case (Some rs)
      with rows_of_holder [OF assms(1), of x]
      have rs: "x \<in> msp_holders m" "distinct rs" "set rs = int ` set (rows_for m {x})" by auto
      then have "distinct (rows @ rs)" using rows disj by auto
      moreover have "set (rows @ rs) = int ` set (rows_for m (set (xs @ [x])))" using rows rs un by auto
      ultimately show ?thesis using Some rows(1) rs(1) True by (simp add: step hs_List_def)
    qed
  qed
qed

lemma sort_rows:
  "distinct rows \<Longrightarrow> set rows = int ` set (rows_for m A) \<Longrightarrow> sort rows = map int (rows_for m A)"
  using rows_for_sorted [of m A] by (intro sorted_distinct_set_unique) (auto simp: sorted_map distinct_map intro: sorted_wrt_mono_rel)

section \<open>Reconstruction vectors\<close>

lemma msp_TargetVector_ok:
  assumes "mat_wf (msp_matrix m)"
  obtains t where "msp_TargetVector m = Inr t" "mat_wf t" "mrows t = 1" "mcols t = mcols (msp_matrix m)"
    "\<And>c. c < mcols (msp_matrix m) \<Longrightarrow> ent t 0 c = (if c = 0 then 1 else 0)"
proof -
  have "0 < mcols (msp_matrix m)" using assms by (simp add: mat_wf_def)
  then show thesis
    by (intro that [of "\<lparr>mrows = 1, mcols = mcols (msp_matrix m), mdata = (replicate (mcols (msp_matrix m)) 0)[0 := 1]\<rparr>"])
      (simp_all add: msp_TargetVector_def NewStandardUnit_def mat_wf_def ent_def mat_idx_def nth_list_update)
qed

lemma rows_for_nonempty: "A \<noteq> {} \<Longrightarrow> A \<subseteq> msp_holders m \<Longrightarrow> rows_for m A \<noteq> []"
  by (force simp: rows_for_def msp_holders_def filter_empty_conv)

lemma ReconstructionVector_reject:
  assumes "msp_wf m" "IDs = [] \<or> \<not> set IDs \<subseteq> msp_holders m"
  shows "ReconstructionVector m IDs = Inl ErrValue"
proof -
  let ?ids = "sort (hs_List (hs_NewComparable IDs))"
  have ids: "distinct ?ids" "set ?ids = set IDs" by (simp_all add: hs_List_def)
  show ?thesis
  proof (cases "set IDs \<subseteq> msp_holders m")
    case True
    with assms have "IDs = []" by simp
    then show ?thesis
      by (simp add: ReconstructionVector_def hs_NewComparable_def hs_AddAll_def hs_List_def msp_collect_rows_def)
  next
    case False
    with msp_collect_rows_spec [OF assms(1) ids(1)] ids(2) show ?thesis by (simp add: ReconstructionVector_def Let_def)
  qed
qed

lemma ReconstructionVector_solve:
  assumes wf: "msp_wf m" and ids: "IDs \<noteq> []" "set IDs \<subseteq> msp_holders m"
  obtains sub t where "ReconstructionVector m IDs = SolveLeft sub t"
    "mat_wf sub" "mat_wf t" "mrows t = 1" "mcols t = mcols sub" "mcols sub = mcols (msp_matrix m)"
    "mrows sub = length (rows_for m (set IDs))"
    "\<And>k c. k < mrows sub \<Longrightarrow> c < mcols sub \<Longrightarrow> ent sub k c = ent (msp_matrix m) (rows_for m (set IDs) ! k) c"
    "\<And>c. c < mcols sub \<Longrightarrow> ent t 0 c = (if c = 0 then 1 else 0)"
proof -
  let ?ids = "sort (hs_List (hs_NewComparable IDs))" and ?rows = "rows_for m (set IDs)"
  have srt: "distinct ?ids" "set ?ids = set IDs" by (simp_all add: hs_List_def)
  have M: "mat_wf (msp_matrix m)" using wf by (simp add: msp_wf_def)
  then have pos: "0 < mcols (msp_matrix m)" by (simp add: mat_wf_def)
  obtain t where t: "msp_TargetVector m = Inr t" "mat_wf t" "mrows t = 1" "mcols t = mcols (msp_matrix m)"
    "\<And>c. c < mcols (msp_matrix m) \<Longrightarrow> ent t 0 c = (if c = 0 then 1 else 0)"
    by (rule msp_TargetVector_ok [OF M]) (rule that, blast+)
  obtain rows where rows: "msp_collect_rows m ?ids = Inr rows" "distinct rows" "set rows = int ` set ?rows"
    using msp_collect_rows_spec [OF wf srt(1)] srt(2) ids(2) by auto
  have ne: "?rows \<noteq> []" using ids by (intro rows_for_nonempty) auto
  then have "rows \<noteq> []" using rows(3) by auto
  let ?sub = "mat_fill (length ?rows) (mcols (msp_matrix m)) (\<lambda>k. ent (msp_matrix m) (?rows ! k))"
  have "mat_SubMatrixGivenRows (msp_matrix m) (sort rows) = Inr ?sub"
    unfolding sort_rows [OF rows(2,3)] by (rule mat_SubMatrixGivenRows_ok [OF M ne rows_for_less])
  then have "ReconstructionVector m IDs = SolveLeft ?sub t"
    using rows(1) \<open>rows \<noteq> []\<close> t(1) by (simp add: ReconstructionVector_def Let_def)
  then show thesis
    by (rule that) (use ne pos t in \<open>simp_all add: mat_simps\<close>)
qed

text \<open>Either the rows combine to the target, or some vector with a 1 in front is orthogonal to all of them.\<close>

lemma ReconstructionVector_spec:
  assumes "msp_wf m" "IDs \<noteq> []" "set IDs \<subseteq> msp_holders m"
  defines "rows \<equiv> rows_for m (set IDs)" and "d \<equiv> mcols (msp_matrix m)"
  shows "case ReconstructionVector m IDs of
      Inr x \<Rightarrow> mat_wf x \<and> mrows x = length rows \<and> mcols x = 1 \<and>
        (\<forall>c<d. (\<Sum>k<length rows. ent x k 0 * ent (msp_matrix m) (rows ! k) c) = (if c = 0 then 1 else 0))
    | Inl e \<Rightarrow> e = ErrFailed \<and> (\<exists>w. w 0 = 1 \<and> (\<forall>i\<in>set rows. (\<Sum>c<d. ent (msp_matrix m) i c * w c) = 0))"
proof -
  obtain sub t where st: "ReconstructionVector m IDs = SolveLeft sub t"
    "mat_wf sub" "mat_wf t" "mrows t = 1" "mcols t = mcols sub" "mcols sub = d" "mrows sub = length rows"
    "\<And>k c. k < mrows sub \<Longrightarrow> c < mcols sub \<Longrightarrow> ent sub k c = ent (msp_matrix m) (rows ! k) c"
    "\<And>c. c < mcols sub \<Longrightarrow> ent t 0 c = (if c = 0 then 1 else 0)"
    by (rule ReconstructionVector_solve [OF assms(1-3), folded rows_def d_def]) (rule that, blast+)
  note spec = SolveLeft_spec [OF st(2-5)]
  show ?thesis
  proof (cases "SolveLeft sub t")
    case (Inr x)
    with spec st show ?thesis by simp
  next
    case (Inl e)
    with spec obtain w where w: "e = ErrFailed" "\<forall>r<mrows sub. (\<Sum>c<mcols sub. ent sub r c * w c) = 0"
      "(\<Sum>c<mcols sub. ent t 0 c * w c) \<noteq> 0" by auto
    have "(\<Sum>c<mcols sub. ent t 0 c * w c) = w 0"
      using st(2,9) by (subst sum_single [of 0]) (auto simp: mat_wf_def)
    with w(3) have w0: "w 0 \<noteq> 0" by simp
    have "(\<Sum>c<d. ent (msp_matrix m) i c * (w c / w 0)) = 0" if "i \<in> set rows" for i
    proof -
      from that obtain k where k: "i = rows ! k" "k < length rows" by (auto simp: in_set_conv_nth)
      have "(\<Sum>c<d. ent (msp_matrix m) i c * (w c / w 0)) = (\<Sum>c<mcols sub. ent sub k c * w c) / w 0"
        using k st(6-8) by (simp add: sum_divide_distrib)
      with w(2) k st(7) show ?thesis by simp
    qed
    with w0 w(1) Inl st(1) show ?thesis by (auto intro!: exI [of _ "\<lambda>c. w c / w 0"])
  qed
qed

text \<open>The target lies in the span of the rows of a coalition.\<close>

definition spans :: "('a::field) MSP \<Rightarrow> ID set \<Rightarrow> bool" where
  "spans m A \<longleftrightarrow> (\<exists>lam. \<forall>c<mcols (msp_matrix m).
     (\<Sum>i\<in>set (rows_for m A). lam i * ent (msp_matrix m) i c) = (if c = 0 then 1 else 0))"

lemma sum_rows_for: "(\<Sum>k<length (rows_for m A). f k (rows_for m A ! k)) =
    (\<Sum>i\<in>set (rows_for m A). f (THE k. k < length (rows_for m A) \<and> rows_for m A ! k = i) i)"
proof -
  let ?r = "rows_for m A"
  have inj: "inj_on ((!) ?r) {..<length ?r}" using rows_for_sorted(2) [of m A] by (auto simp: inj_on_def nth_eq_iff_index_eq)
  have img: "set ?r = (!) ?r ` {..<length ?r}" by (auto simp: set_conv_nth)
  have "(THE k'. k' < length ?r \<and> ?r ! k' = ?r ! k) = k" if "k < length ?r" for k
    using that rows_for_sorted(2) [of m A] by (auto simp: nth_eq_iff_index_eq)
  then show ?thesis unfolding img by (subst sum.reindex [OF inj]) simp
qed

lemma spans_dual:
  assumes "msp_wf m" "w 0 = 1" "\<And>i. i \<in> set (rows_for m A) \<Longrightarrow> (\<Sum>c<mcols (msp_matrix m). ent (msp_matrix m) i c * w c) = 0"
  shows "\<not> spans m A"
proof
  let ?M = "msp_matrix m" and ?R = "set (rows_for m A)"
  assume "spans m A"
  then obtain lam where lam: "\<And>c. c < mcols ?M \<Longrightarrow> (\<Sum>i\<in>?R. lam i * ent ?M i c) = (if c = 0 then 1 else 0)"
    by (auto simp: spans_def)
  have pos: "0 < mcols ?M" using assms(1) by (simp add: msp_wf_def mat_wf_def)
  have "(\<Sum>c<mcols ?M. (\<Sum>i\<in>?R. lam i * ent ?M i c) * w c) = (\<Sum>c<mcols ?M. (if c = 0 then 1 else 0) * w c)"
    using lam by simp
  also have "\<dots> = w 0" using pos by (subst sum_single [of 0]) auto
  finally have "(\<Sum>c<mcols ?M. (\<Sum>i\<in>?R. lam i * ent ?M i c) * w c) = 1" using assms(2) by simp
  moreover have "(\<Sum>c<mcols ?M. (\<Sum>i\<in>?R. lam i * ent ?M i c) * w c) = (\<Sum>i\<in>?R. lam i * (\<Sum>c<mcols ?M. ent ?M i c * w c))"
    by (simp add: sum_distrib_right sum_distrib_left mult.assoc) (rule sum.swap)
  ultimately show False using assms(3) by simp
qed

lemma Accepts_iff:
  assumes "msp_wf m"
  shows "Accepts m IDs \<longleftrightarrow> IDs \<noteq> [] \<and> set IDs \<subseteq> msp_holders m \<and> spans m (set IDs)"
proof (cases "IDs = [] \<or> \<not> set IDs \<subseteq> msp_holders m")
  case True
  then show ?thesis using ReconstructionVector_reject [OF assms] by (auto simp: Accepts_def)
next
  case False
  then have ids: "IDs \<noteq> []" "set IDs \<subseteq> msp_holders m" by auto
  note spec = ReconstructionVector_spec [OF assms ids]
  show ?thesis
  proof (cases "ReconstructionVector m IDs")
    case (Inl e)
    with spec obtain w where "w 0 = 1" "\<forall>i\<in>set (rows_for m (set IDs)). (\<Sum>c<mcols (msp_matrix m). ent (msp_matrix m) i c * w c) = 0"
      by auto
    with spans_dual [OF assms, of w "set IDs"] Inl show ?thesis by (simp add: Accepts_def)
  next
    case (Inr x)
    let ?r = "rows_for m (set IDs)"
    let ?pos = "\<lambda>i. THE k. k < length ?r \<and> ?r ! k = i"
    from Inr spec have "\<forall>c<mcols (msp_matrix m). (\<Sum>k<length ?r. ent x k 0 * ent (msp_matrix m) (?r ! k) c) = (if c = 0 then 1 else 0)"
      by simp
    then have "spans m (set IDs)"
      unfolding spans_def by (intro exI [of _ "\<lambda>i. ent x (?pos i) 0"]) (simp add: sum_rows_for [where f = "\<lambda>k i. ent x k 0 * ent (msp_matrix m) i c" for c])
    with Inr ids show ?thesis by (simp add: Accepts_def)
  qed
qed

lemma not_spans_dual:
  assumes "msp_wf m" "\<not> spans m A" "A \<noteq> {}" "A \<subseteq> msp_holders m" "finite A"
  obtains w where "w 0 = 1" "\<And>i. i \<in> set (rows_for m A) \<Longrightarrow> (\<Sum>c<mcols (msp_matrix m). ent (msp_matrix m) i c * w c) = 0"
proof -
  obtain ids where ids: "set ids = A" using finite_list [OF assms(5)] by blast
  then have "ids \<noteq> []" "set ids \<subseteq> msp_holders m" using assms(3,4) by auto
  note spec = ReconstructionVector_spec [OF assms(1) this]
  have "\<not> Accepts m ids" using Accepts_iff [OF assms(1)] assms(2) ids by simp
  with spec ids that show thesis by (cases "ReconstructionVector m ids") (auto simp: Accepts_def)
qed

lemma spans_mono:
  assumes "spans m A" "A \<subseteq> B"
  shows "spans m B"
proof -
  from assms(1) obtain lam where lam: "\<forall>c<mcols (msp_matrix m). (\<Sum>i\<in>set (rows_for m A). lam i * ent (msp_matrix m) i c) = (if c = 0 then 1 else 0)"
    by (auto simp: spans_def)
  have "(\<Sum>i\<in>set (rows_for m B). (if i \<in> set (rows_for m A) then lam i else 0) * ent (msp_matrix m) i c) =
      (\<Sum>i\<in>set (rows_for m A). lam i * ent (msp_matrix m) i c)" for c
    using assms(2) by (intro sum.mono_neutral_cong_right) (auto simp: rows_for_def)
  with lam show ?thesis unfolding spans_def by (intro exI [of _ "\<lambda>i. if i \<in> set (rows_for m A) then lam i else 0"]) simp
qed

section \<open>Properties\<close>

text \<open>C32. A programme built by \<open>NewMSP\<close> accepts a list of identifiers exactly when it is not empty, names only
  holders of rows, and the target vector is a linear combination of the rows these holders own; the verdict
  ignores order and repetitions, and larger coalitions of holders stay accepted.\<close>

theorem Accepts_correct:
  assumes "NewMSP (Some M) (Some r2h) = Inr m" "mat_wf M" "distinct (map fst r2h)"
  shows "(Accepts m IDs \<longleftrightarrow> IDs \<noteq> [] \<and> set IDs \<subseteq> snd ` set r2h \<and>
      (\<exists>lam. \<forall>c<mcols M. (\<Sum>i\<in>{i. i < mrows M \<and> the (map_of r2h (int i)) \<in> set IDs}. lam i * ent M i c)
        = (if c = 0 then 1 else 0))) \<and>
    (Accepts m IDs \<longrightarrow> set IDs \<subseteq> set IDs' \<longrightarrow> set IDs' \<subseteq> snd ` set r2h \<longrightarrow> Accepts m IDs')"
proof -
  note wf = NewMSP_wf [OF assms]
  have "snd ` set r2h = msp_holders m" using label_holders [OF wf(1)] by (simp add: wf)
  moreover have "set (rows_for m A) = {i. i < mrows M \<and> the (map_of r2h (int i)) \<in> A}" for A
    by (auto simp: rows_for_def row_label_def wf)
  ultimately show ?thesis
    using Accepts_iff [OF wf(1)] spans_mono [of m "set IDs" "set IDs'"] by (auto simp: spans_def wf)
qed

theorem Accepts_correct_witness:
  "\<exists>m. NewMSP (Some \<lparr>mrows = 2, mcols = 2, mdata = [1, 1, 1, 2 :: rat]\<rparr>) (Some [(0, 5), (1, 9)]) = Inr m \<and>
     Accepts m [9, 5, 9] \<and> \<not> Accepts m [9, 4]"
proof -
  let ?M = "\<lparr>mrows = 2, mcols = 2, mdata = [1, 1, 1, 2 :: rat]\<rparr>" and ?r = "[(0, 5), (1, 9)] :: (int \<times> ID) list"
  obtain m where m: "NewMSP (Some ?M) (Some ?r) = Inr m" by (simp add: NewMSP_def upt_rec)
  have idx: "{i. i < 2 \<and> the (map_of ?r (int i)) \<in> {9, 5}} = {0, 1}" by (auto simp: less_2_cases_iff)
  have "\<exists>lam. \<forall>c<2. (\<Sum>i\<in>{0, 1}. lam i * ent ?M i c) = (if c = 0 then 1 else 0)"
    by (intro exI [of _ "\<lambda>i. if i = 0 then 2 else -1"]) (auto simp: less_2_cases_iff ent_def mat_idx_def)
  moreover have wf: "mat_wf ?M" "distinct (map fst ?r)" by (simp_all add: mat_wf_def)
  moreover have "set [9, 5, 9] = {9, 5 :: ID}" by auto
  ultimately have "Accepts m [9, 5, 9]"
    using Accepts_correct [OF m wf, of "[9, 5, 9]" "[]", THEN conjunct1] idx by simp
  moreover have "\<not> Accepts m [9, 4]"
    using Accepts_correct [OF m wf, of "[9, 4]" "[]", THEN conjunct1] by simp
  ultimately show ?thesis using m by blast
qed

end
