(* ===== verification/Bitset.thy ===== *)
theory Bitset
  imports Hashset
begin

text \<open>
  The bit sets of \<open>pkg/base/datastructures/bitset\<close> (\<open>mutable.go\<close>, \<open>immutable.go\<close>): a set of numbers
  in \<open>[1, 64]\<close> in one \<open>uint64\<close>, element \<open>e\<close> at bit \<open>e - 1\<close>. The word is kept at its width; the
  iteration that clears the lowest set bit and the submask iteration are proved to visit what
  they should, and the representation is shown to meet the interface \<open>ds_set\<close>.
\<close>

unbundle bit_operations_syntax

section \<open>Operations\<close>

text \<open>\<open>bits.OnesCount64\<close> and \<open>bits.TrailingZeros64\<close> of the Go standard library.\<close>

definition OnesCount64 :: "64 word \<Rightarrow> nat" where
  "OnesCount64 x = length (filter (\<lambda>i. bit x i) [0..<64])"

definition TrailingZeros64 :: "64 word \<Rightarrow> nat" where
  "TrailingZeros64 x = length (takeWhile (\<lambda>i. \<not> bit x i) [0..<64])"

definition bs_mask :: "64 word \<Rightarrow> 64 word \<times> bool" where
  "bs_mask e = (if e < 1 \<or> e > 64 then (0, False) else (push_bit (unat (e - 1)) 1, True))"

definition bs_Cardinality :: "64 word \<Rightarrow> nat" where
  "bs_Cardinality b = OnesCount64 b"

definition bs_Contains :: "64 word \<Rightarrow> ID \<Rightarrow> bool" where
  "bs_Contains b e = (case bs_mask e of (m, ok) \<Rightarrow> ok \<and> b AND m \<noteq> 0)"

definition bs_IsEmpty :: "64 word \<Rightarrow> bool" where
  "bs_IsEmpty b = (b = 0)"

definition bs_Union :: "64 word \<Rightarrow> 64 word \<Rightarrow> 64 word" where
  "bs_Union b c = b OR c"

definition bs_Intersection :: "64 word \<Rightarrow> 64 word \<Rightarrow> 64 word" where
  "bs_Intersection b c = b AND c"

definition bs_Difference :: "64 word \<Rightarrow> 64 word \<Rightarrow> 64 word" where
  "bs_Difference b c = b AND NOT c"

definition bs_SymmetricDifference :: "64 word \<Rightarrow> 64 word \<Rightarrow> 64 word" where
  "bs_SymmetricDifference b c = b XOR c"

definition bs_IsSubSet :: "64 word \<Rightarrow> 64 word \<Rightarrow> bool" where
  "bs_IsSubSet b c = (b AND NOT c = 0)"

definition bs_IsProperSubSet :: "64 word \<Rightarrow> 64 word \<Rightarrow> bool" where
  "bs_IsProperSubSet b c = (b \<noteq> c \<and> b AND NOT c = 0)"

definition bs_IsSuperSet :: "64 word \<Rightarrow> 64 word \<Rightarrow> bool" where
  "bs_IsSuperSet b c = bs_IsSubSet c b"

definition bs_Equal :: "64 word \<Rightarrow> 64 word \<Rightarrow> bool" where
  "bs_Equal b c = (b = c)"

definition bs_Add :: "64 word \<Rightarrow> ID \<Rightarrow> 64 word res" where
  "bs_Add b e = (case bs_mask e of (m, ok) \<Rightarrow> if ok then Inr (b OR m) else Inl Panic)"

definition bs_AddAll :: "64 word \<Rightarrow> ID list \<Rightarrow> 64 word res" where
  "bs_AddAll b es = FoldOrError bs_Add b es"

definition bs_Remove :: "64 word \<Rightarrow> ID \<Rightarrow> 64 word res" where
  "bs_Remove b e = (case bs_mask e of (m, ok) \<Rightarrow> if ok then Inr (b AND NOT m) else Inl Panic)"

definition bs_RemoveAll :: "64 word \<Rightarrow> ID list \<Rightarrow> 64 word res" where
  "bs_RemoveAll b es = FoldOrError bs_Remove b es"

text \<open>
  \<open>Iter\<close> yields the position of the lowest set bit and clears it with \<open>x &= x - 1\<close>; \<open>IterSubSets\<close>
  steps from a submask to the next with \<open>sub = (sub - 1) & b\<close>.
\<close>

lemma word_and_less:
  fixes x y :: "64 word"
  assumes "y < x"
  shows "unat (y AND z) < unat x"
proof -
  have "unat (y AND z) \<le> unat y"
    by (simp add: unsigned_and_eq and_nat_def nat_le_iff and_less_eq)
  with assms show ?thesis by (simp add: word_less_nat_alt)
qed

lemma word_pred_less: "x \<noteq> 0 \<Longrightarrow> x - 1 < (x :: 64 word)"
  by (simp add: word_less_nat_alt unat_minus_one unat_gt_0)

function bs_Iter :: "64 word \<Rightarrow> ID list" where
  "bs_Iter x =
     (if x = 0 then []
      else (of_nat (TrailingZeros64 x) + 1) # bs_Iter (x AND (x - 1)))"
  by auto
termination
proof (relation "measure unat")
  fix x :: "64 word" assume "x \<noteq> 0"
  then show "(x AND (x - 1), x) \<in> measure unat"
    using word_and_less [OF word_pred_less, of x x] by (simp add: and.commute)
qed simp

function bs_IterSubSets_from :: "64 word \<Rightarrow> 64 word \<Rightarrow> 64 word list" where
  "bs_IterSubSets_from b sub =
     sub # (if sub = 0 then [] else bs_IterSubSets_from b ((sub - 1) AND b))"
  by auto
termination
  by (relation "measure (\<lambda>(b, sub). unat sub)") (auto intro: word_and_less word_pred_less)

declare bs_Iter.simps [simp del] bs_IterSubSets_from.simps [simp del]

definition bs_List :: "64 word \<Rightarrow> ID list" where
  "bs_List b = bs_Iter b"

definition bs_IterSubSets :: "64 word \<Rightarrow> 64 word list" where
  "bs_IterSubSets b = bs_IterSubSets_from b b"

definition NewBitSet :: "ID list \<Rightarrow> 64 word res" where
  "NewBitSet es = bs_AddAll 0 es"

section \<open>Reading the word as a set\<close>

definition bs_elems :: "64 word \<Rightarrow> ID set" where
  "bs_elems b = {e. 1 \<le> e \<and> e \<le> 64 \<and> bit b (unat (e - 1))}"

abbreviation bs_range :: "ID set" where
  "bs_range \<equiv> {1..64}"

lemma word64_bit_imp [simp]: "bit (w :: 64 word) i \<Longrightarrow> i < 64"
  using bit_imp_le_length [of w i] by simp

lemma id_index: "e \<in> bs_range \<Longrightarrow> unat (e - 1) < 64"
proof -
  assume e: "e \<in> bs_range"
  then have "e \<noteq> 0" by auto
  then have "unat (e - 1) = unat e - 1" by (rule unat_minus_one)
  moreover have "unat e \<le> 64" using e by (simp add: word_le_nat_alt)
  moreover have "1 \<le> unat e" using e by (simp add: word_le_nat_alt)
  ultimately show ?thesis by linarith
qed

lemma index_id:
  assumes "i < 64"
  shows "(of_nat i + 1 :: ID) \<in> bs_range" "unat ((of_nat i + 1 :: ID) - 1) = i"
proof -
  have "unat (of_nat (Suc i) :: ID) = Suc i"
    using assms by (simp only: unat_of_nat) simp
  then have u: "unat (of_nat i + 1 :: ID) = Suc i" by (simp add: add.commute)
  then show "(of_nat i + 1 :: ID) \<in> bs_range" using assms by (simp add: word_le_nat_alt)
  show "unat ((of_nat i + 1 :: ID) - 1) = i" using assms by (simp add: unat_of_nat)
qed

lemma bs_elems_image: "bs_elems b = (\<lambda>i. of_nat i + 1) ` {i. bit b i}"
proof (intro equalityI subsetI)
  fix e assume "e \<in> bs_elems b"
  then have "bit b (unat (e - 1))" "of_nat (unat (e - 1)) + 1 = e" by (simp_all add: bs_elems_def)
  then show "e \<in> (\<lambda>i. of_nat i + 1) ` {i. bit b i}" by (metis (mono_tags) image_eqI mem_Collect_eq)
next
  fix e :: ID assume "e \<in> (\<lambda>i. of_nat i + 1) ` {i. bit b i}"
  then obtain i where "bit b i" "e = of_nat i + 1" by blast
  with index_id [of i] show "e \<in> bs_elems b" by (simp add: bs_elems_def)
qed

lemma index_id_inj: "inj_on (\<lambda>i. of_nat i + 1 :: ID) {..<64}"
  by (rule inj_on_inverseI [where g = "\<lambda>e. unat (e - 1)"]) (simp add: unat_of_nat)

lemma index_mem_iff: "i < 64 \<Longrightarrow> (of_nat i + 1) \<in> bs_elems b \<longleftrightarrow> bit b i"
  using index_id [of i] by (simp add: bs_elems_def)

lemma bs_elems_subset_iff: "bs_elems b \<subseteq> bs_elems c \<longleftrightarrow> (\<forall>i. bit b i \<longrightarrow> bit c i)"
proof
  assume sub: "bs_elems b \<subseteq> bs_elems c"
  show "\<forall>i. bit b i \<longrightarrow> bit c i"
    using sub index_mem_iff by (meson subsetD word64_bit_imp)
qed (auto simp: bs_elems_def)

lemma bs_elems_inject: "bs_elems b = bs_elems c \<longleftrightarrow> b = c"
  by (metis bit_eqI bs_elems_subset_iff order_refl)

lemma bs_elems_0 [simp]: "bs_elems 0 = {}"
  by (simp add: bs_elems_def)

lemma bs_elems_range: "bs_elems b \<subseteq> bs_range"
  by (auto simp: bs_elems_def)

lemma bs_mask_in:
  assumes "e \<in> bs_range"
  shows "bs_mask e = (2 ^ unat (e - 1), True)"
  using assms by (auto simp: bs_mask_def)

lemma bs_mask_out: "e \<notin> bs_range \<Longrightarrow> bs_mask e = (0, False)"
  by (auto simp: bs_mask_def not_le)

lemma bit_mask_word: "j < 64 \<Longrightarrow> bit (2 ^ j :: 64 word) i \<longleftrightarrow> i = j"
  by (auto simp: bit_exp_iff)

lemma id_eq_index: "e \<in> bs_range \<Longrightarrow> e' \<in> bs_range \<Longrightarrow> unat (e' - 1) = unat (e - 1) \<longleftrightarrow> e' = e"
  by (metis diff_add_cancel word_unat_eq_iff)

lemma bs_Contains_iff: "bs_Contains b e \<longleftrightarrow> e \<in> bs_elems b"
proof (cases "e \<in> bs_range")
  case True
  have "b AND 2 ^ unat (e - 1) \<noteq> 0 \<longleftrightarrow> bit b (unat (e - 1))"
    using id_index [OF True]
    by (auto simp: bit_eq_iff [where 'a = "64 word"] bit_and_iff bit_mask_word)
  with True show ?thesis by (simp add: bs_Contains_def bs_mask_in bs_elems_def)
next
  case False
  then show ?thesis using bs_elems_range [of b] by (auto simp: bs_Contains_def bs_mask_out)
qed

lemma bs_Add_ok: "e \<in> bs_range \<Longrightarrow> \<exists>c. bs_Add b e = Inr c \<and> bs_elems c = insert e (bs_elems b)"
  by (auto simp: bs_Add_def bs_mask_in bs_elems_def bit_or_iff bit_mask_word id_index id_eq_index)

lemma bs_Remove_ok: "e \<in> bs_range \<Longrightarrow> \<exists>c. bs_Remove b e = Inr c \<and> bs_elems c = bs_elems b - {e}"
  by (auto simp: bs_Remove_def bs_mask_in bs_elems_def bit_and_iff bit_not_iff bit_mask_word
      id_index id_eq_index)

lemma bs_out_of_range: "e \<notin> bs_range \<Longrightarrow> bs_Add b e = Inl Panic" "e \<notin> bs_range \<Longrightarrow> bs_Remove b e = Inl Panic"
  by (simp_all add: bs_Add_def bs_Remove_def bs_mask_out)

lemma bs_elems_ops:
  "bs_elems (bs_Union b c) = bs_elems b \<union> bs_elems c"
  "bs_elems (bs_Intersection b c) = bs_elems b \<inter> bs_elems c"
  "bs_elems (bs_Difference b c) = bs_elems b - bs_elems c"
  "bs_elems (bs_SymmetricDifference b c) = (bs_elems b - bs_elems c) \<union> (bs_elems c - bs_elems b)"
  by (auto simp: bs_elems_def bs_Union_def bs_Intersection_def bs_Difference_def
      bs_SymmetricDifference_def bit_or_iff bit_and_iff bit_not_iff bit_xor_iff)

lemma bs_IsSubSet_iff: "bs_IsSubSet b c \<longleftrightarrow> bs_elems b \<subseteq> bs_elems c"
  by (auto simp: bs_IsSubSet_def bs_elems_subset_iff bit_eq_iff bit_and_iff bit_not_iff)

lemma bs_Cardinality_card: "bs_Cardinality b = card (bs_elems b)"
proof -
  have "bs_Cardinality b = card {i. bit b i}"
    by (simp add: bs_Cardinality_def OnesCount64_def length_filter_conv_card)
      (rule arg_cong [where f = card], auto)
  also have "\<dots> = card (bs_elems b)"
    unfolding bs_elems_image
    by (rule card_image [symmetric], rule inj_on_subset [OF index_id_inj]) auto
  finally show ?thesis .
qed

section \<open>Iteration\<close>

lemma takeWhile_upt:
  fixes P :: "nat \<Rightarrow> bool" and n :: nat
  defines "k \<equiv> length (takeWhile P [0..<n])"
  shows "i < k \<Longrightarrow> P i" "k < n \<Longrightarrow> \<not> P k" "k \<le> n"
proof -
  show "k \<le> n" using length_takeWhile_le [of P "[0..<n]"] by (simp add: k_def)
  show "P i" if "i < k"
  proof -
    have "takeWhile P [0..<n] ! i = i"
      using that \<open>k \<le> n\<close> by (simp add: k_def takeWhile_nth)
    moreover have "takeWhile P [0..<n] ! i \<in> set (takeWhile P [0..<n])"
      using that by (simp add: k_def)
    ultimately show ?thesis using set_takeWhileD by fastforce
  qed
  show "\<not> P k" if "k < n"
    using nth_length_takeWhile [of P "[0..<n]"] that by (simp add: k_def)
qed

lemma TrailingZeros64_lowest:
  assumes "x \<noteq> 0"
  shows "bit x (TrailingZeros64 x)" "\<And>i. i < TrailingZeros64 x \<Longrightarrow> \<not> bit x i"
proof -
  let ?k = "TrailingZeros64 x"
  have below: "\<not> bit x i" if "i < ?k" for i
    using takeWhile_upt(1) [of i "\<lambda>i. \<not> bit x i" 64] that unfolding TrailingZeros64_def by blast
  then show "\<And>i. i < ?k \<Longrightarrow> \<not> bit x i" .
  obtain i where i: "bit x i" using assms by (auto simp: bit_eq_iff [where 'a = "64 word"])
  then have "?k \<le> i" using below by (meson not_le)
  with i have "?k < 64" using word64_bit_imp le_less_trans by blast
  then show "bit x ?k"
    using takeWhile_upt(2) [of "\<lambda>i. \<not> bit x i" 64] unfolding TrailingZeros64_def by blast
qed

text \<open>Subtracting one turns the lowest set bit off and every bit below it on.\<close>

lemma bit_pred:
  fixes x :: "64 word"
  assumes "bit x k" "\<And>i. i < k \<Longrightarrow> \<not> bit x i"
  shows "bit (x - 1) i \<longleftrightarrow> (if i < k then True else bit x i \<and> i \<noteq> k)"
proof -
  define y where "y = x AND NOT (2 ^ k)"
  have k: "k < 64" using assms(1) by simp
  have y: "bit y i \<longleftrightarrow> bit x i \<and> i \<noteq> k" for i
    using k by (auto simp: y_def bit_and_iff bit_not_iff bit_mask_word)
  have "x = y OR 2 ^ k"
    using assms(1) k by (auto simp: bit_eq_iff [where 'a = "64 word"] bit_or_iff y bit_mask_word)
  also have "\<dots> = y + 2 ^ k"
    using k by (intro disjunctive_add_eq_or [symmetric])
      (auto simp: bit_eq_iff [where 'a = "64 word"] bit_and_iff y bit_mask_word)
  finally have "x - 1 = y + mask k" by (simp add: mask_eq_exp_minus_1)
  also have "\<dots> = y OR mask k"
    using assms(2) by (intro disjunctive_add_eq_or)
      (auto simp: bit_eq_iff [where 'a = "64 word"] bit_and_iff y bit_mask_iff)
  finally show ?thesis using k assms(2) by (auto simp: bit_or_iff y bit_mask_iff)
qed

lemma clear_lowest:
  assumes "x \<noteq> 0"
  shows "bit (x AND (x - 1)) i \<longleftrightarrow> bit x i \<and> i \<noteq> TrailingZeros64 x"
  using TrailingZeros64_lowest [OF assms] by (auto simp: bit_and_iff bit_pred)

lemma bs_Iter_spec:
  "set (bs_Iter x) = bs_elems x \<and> sorted_wrt (<) (bs_Iter x)"
proof (induction x rule: bs_Iter.induct)
  case (1 x)
  show ?case
  proof (cases "x = 0")
    case True
    then show ?thesis by (simp add: bs_Iter.simps)
  next
    case False
    let ?k = "TrailingZeros64 x" and ?y = "x AND (x - 1)"
    have bk: "bit x ?k" and low: "\<And>i. i < ?k \<Longrightarrow> \<not> bit x i"
      using TrailingZeros64_lowest [OF False] by auto
    have IH: "set (bs_Iter ?y) = bs_elems ?y" "sorted_wrt (<) (bs_Iter ?y)"
      using "1.IH" [OF False] by auto
    have eq: "{i. bit x i} = insert ?k {i. bit ?y i}"
      using bk clear_lowest [OF False] by auto
    have "of_nat ?k + 1 < e" if "e \<in> bs_elems ?y" for e
    proof -
      from that obtain i where i: "bit ?y i" "e = of_nat i + 1" by (auto simp: bs_elems_image)
      then have "bit x i" "i \<noteq> ?k" by (simp_all add: clear_lowest [OF False])
      then have lt: "?k < i" "i < 64" using low by (metis linorder_neqE_nat, simp)
      have "unat (of_nat j + 1 :: ID) = Suc j" if "j < 64" for j
        using that index_id [of j] unat_minus_one [of "of_nat j + 1 :: ID"] unat_gt_0
        by (metis One_nat_def Suc_pred add.commute atLeastAtMost_iff unat_0_iff word_gt_0 word_le_0_iff zero_neq_one)
      then show ?thesis using lt i(2) by (simp add: word_less_nat_alt)
    qed
    with IH eq False show ?thesis
      by (simp add: bs_Iter.simps [of x] bs_elems_image)
  qed
qed

interpretation bset: ds_set "\<lambda>_. True" bs_elems bs_range 0 bs_Add bs_Remove bs_Contains
  bs_Cardinality bs_List bs_Union bs_Intersection bs_Difference bs_SymmetricDifference
  bs_IsSubSet bs_Equal
proof unfold_locales
  show "set (bs_List s) = bs_elems s" "distinct (bs_List s)" for s
    using bs_Iter_spec [of s] by (simp_all add: bs_List_def strict_sorted_iff)
qed (auto simp: bs_Add_ok bs_Remove_ok bs_out_of_range bs_Contains_iff bs_Cardinality_card
    bs_elems_ops bs_IsSubSet_iff bs_Equal_def bs_elems_inject)

section \<open>Submask iteration\<close>

text \<open>
  Below a submask \<open>s\<close> of \<open>b\<close> the largest submask of \<open>b\<close> is \<open>(s - 1) AND b\<close>; the proof goes down the
  binary digits.
\<close>

lemma submask_pred_nat:
  fixes s b w :: nat
  assumes "s AND b = s" "w AND b = w" "w < s"
  shows "w \<le> (s - 1) AND b"
  using assms
proof (induction s arbitrary: b w rule: less_induct)
  case (less s)
  have half: "s div 2 AND b div 2 = s div 2" "w div 2 AND b div 2 = w div 2"
    using less.prems(1,2) by (metis drop_bit_Suc drop_bit_and drop_bit_0 id_apply drop_bit_half One_nat_def)+
  have low: "odd s \<Longrightarrow> odd b" "odd w \<Longrightarrow> odd b"
    using less.prems(1,2) by (metis even_and_iff)+
  show ?case
  proof (cases "odd s")
    case True
    then have ev: "even (s - 1)" "(s - 1) div 2 = s div 2" by (auto elim!: oddE)
    then have "(s - 1) AND b = 2 * (s div 2)" using half(1) and_rec [of "s - 1" b] by simp
    with ev less.prems(3) True show ?thesis by simp
  next
    case False
    have s: "0 < s" using less.prems(3) by simp
    with False have ev: "odd (s - 1)" "(s - 1) div 2 = s div 2 - 1" by (auto elim!: evenE)
    then have eq: "(s - 1) AND b = of_bool (odd b) + 2 * ((s div 2 - 1) AND (b div 2))"
      using and_rec [of "s - 1" b] by simp
    have "w div 2 < s div 2" using False less.prems(3) by (auto elim!: evenE)
    then have "w div 2 \<le> (s div 2 - 1) AND (b div 2)"
      using less.IH [of "s div 2" "b div 2" "w div 2"] half s by simp
    moreover have "w = w mod 2 + 2 * (w div 2)" by simp
    moreover have "w mod 2 \<le> of_bool (odd b)" using low(2) by (cases "odd w") (auto elim!: evenE oddE)
    ultimately show ?thesis unfolding eq by linarith
  qed
qed

lemma submask_iff: "w AND b = w \<longleftrightarrow> bs_elems w \<subseteq> bs_elems b"
proof
  assume eq: "w AND b = w"
  have "bit b i" if "bit w i" for i using that bit_and_iff [of w b i] unfolding eq by blast
  then show "bs_elems w \<subseteq> bs_elems b" by (simp add: bs_elems_subset_iff)
next
  assume "bs_elems w \<subseteq> bs_elems b"
  then show "w AND b = w" by (intro bit_eqI) (auto simp: bs_elems_subset_iff bit_and_iff)
qed

lemma submask_pred:
  fixes s b w :: "64 word"
  assumes "s AND b = s" "w AND b = w" "w < s"
  shows "w \<le> (s - 1) AND b"
proof -
  have "s \<noteq> 0" using assms(3) by auto
  moreover have "unat s AND unat b = unat s" "unat w AND unat b = unat w"
    using assms(1,2) by (metis unsigned_and_eq)+
  ultimately show ?thesis
    using submask_pred_nat [of "unat s" "unat b" "unat w"] assms(3)
    by (simp add: word_le_nat_alt word_less_nat_alt unsigned_and_eq unat_minus_one)
qed

lemma bs_IterSubSets_from_spec:
  "sub AND b = sub \<Longrightarrow>
   set (bs_IterSubSets_from b sub) = {w. w AND b = w \<and> w \<le> sub}
   \<and> sorted_wrt (>) (bs_IterSubSets_from b sub)"
proof (induction b sub rule: bs_IterSubSets_from.induct)
  case (1 b sub)
  show ?case
  proof (cases "sub = 0")
    case True
    then show ?thesis by (auto simp: bs_IterSubSets_from.simps [of b 0])
  next
    case False
    let ?next = "(sub - 1) AND b"
    have lt: "?next < sub"
      using word_and_less [OF word_pred_less [OF False], of b] by (simp add: word_less_nat_alt)
    have IH: "set (bs_IterSubSets_from b ?next) = {w. w AND b = w \<and> w \<le> ?next}"
      "sorted_wrt (>) (bs_IterSubSets_from b ?next)"
      using "1.IH" [OF False] by (simp_all add: and.assoc)
    have "{w. w AND b = w \<and> w \<le> sub} = insert sub {w. w AND b = w \<and> w \<le> ?next}"
      using "1.prems" lt submask_pred [OF "1.prems"] by (auto simp: order_le_less)
    with IH lt False show ?thesis
      by (auto simp: bs_IterSubSets_from.simps [of b sub])
  qed
qed

lemma bs_IterSubSets_from_last: "last (bs_IterSubSets_from b sub) = 0"
proof (induction b sub rule: bs_IterSubSets_from.induct)
  case (1 b sub)
  have "bs_IterSubSets_from b ((sub - 1) AND b) \<noteq> []"
    by (simp add: bs_IterSubSets_from.simps [of b "(sub - 1) AND b"])
  with 1 show ?case by (simp add: bs_IterSubSets_from.simps [of b sub])
qed

text \<open>
  \<open>NewBitSet\<close> panics exactly when an element lies outside \<open>[1, 64]\<close>; otherwise the word it builds
  lists the distinct elements in increasing order, so \<open>Iter\<close>'s loop over the lowest set bit ends
  and misses nothing.
\<close>

theorem NewBitSet_List_sorted:
  "(if set es \<subseteq> {1..64}
    then \<exists>b. NewBitSet es = Inr b \<and> bs_List b = sorted_list_of_set (set es)
    else NewBitSet es = Inl Panic)"
proof (cases "set es \<subseteq> bs_range")
  case True
  then obtain b where b: "NewBitSet es = Inr b" "bs_elems b = set es"
    using bset.new_set [OF True] by (auto simp: NewBitSet_def bs_AddAll_def)
  then have "bs_List b = sorted_list_of_set (set es)"
    using bs_Iter_spec [of b] by (metis bs_List_def sorted_list_of_set.idem_if_sorted_distinct strict_sorted_iff)
  with True b show ?thesis by simp
next
  case False
  then show ?thesis
    unfolding NewBitSet_def bs_AddAll_def
    using bset.add_all_panic by simp
qed

text \<open>
  \<open>IterSubSets\<close> of a bit set visits every subset exactly once, from the full set down to the
  empty one: the step \<open>sub = (sub - 1) & b\<close> skips no subset and the loop ends at 0.
\<close>

theorem bs_IterSubSets_enumerates:
  "bs_elems ` set (bs_IterSubSets b) = Pow (bs_elems b)
   \<and> sorted_wrt (>) (bs_IterSubSets b)
   \<and> last (bs_IterSubSets b) = 0"
proof -
  have "w \<le> b" if "w AND b = w" for w using word_and_le1 [of w b] that by simp
  then have mem: "set (bs_IterSubSets b) = {w. bs_elems w \<subseteq> bs_elems b}"
    and sorted: "sorted_wrt (>) (bs_IterSubSets b)"
    using bs_IterSubSets_from_spec [of b b] by (auto simp: bs_IterSubSets_def submask_iff)
  have "A \<in> range bs_elems" if "A \<subseteq> bs_elems b" for A
  proof -
    have "A \<subseteq> bs_range" using that bs_elems_range by blast
    then have fin: "finite A" by (meson finite_atLeastAtMost finite_subset)
    then obtain es where "set es = A" using finite_list by blast
    with bset.new_set [of es] \<open>A \<subseteq> bs_range\<close> show ?thesis by auto
  qed
  then have "bs_elems ` set (bs_IterSubSets b) = Pow (bs_elems b)" using mem by auto
  with sorted show ?thesis by (simp add: bs_IterSubSets_def bs_IterSubSets_from_last)
qed

end
