(* ===== verification/Monotone.thy ===== *)
theory Monotone
  imports Bitset
begin

text \<open>
  The interface \<open>accessstructures.Monotone\<close> as a locale, and the exhaustive search for maximal
  unqualified sets of \<open>accessstructures/internal/mus.go\<close>, which the hierarchical and the
  threshold-gate structures share.
\<close>

section \<open>Maximal unqualified sets\<close>

text \<open>\<open>q\<close> says which sets are qualified, \<open>U\<close> is the set of all shareholders.\<close>

definition maximal_unqualified :: "('a set \<Rightarrow> bool) \<Rightarrow> 'a set \<Rightarrow> 'a set \<Rightarrow> bool" where
  "maximal_unqualified q U A \<longleftrightarrow> A \<subseteq> U \<and> \<not> q A \<and> (\<forall>B. A \<subset> B \<and> B \<subseteq> U \<longrightarrow> q B)"

lemma unqualified_extends:
  assumes "finite U" "A \<subseteq> U" "\<not> q A"
  shows "\<exists>M. maximal_unqualified q U M \<and> A \<subseteq> M"
  using assms
proof (induction "card U - card A" arbitrary: A rule: less_induct)
  case less
  show ?case
  proof (cases "maximal_unqualified q U A")
    case False
    then obtain B where B: "A \<subset> B" "B \<subseteq> U" "\<not> q B"
      using less.prems by (auto simp: maximal_unqualified_def)
    have "finite B" using B(2) less.prems(1) by (rule finite_subset)
    then have "card A < card B" "card B \<le> card U"
      using B less.prems(1) by (auto intro: psubset_card_mono card_mono)
    then have "\<exists>M. maximal_unqualified q U M \<and> B \<subseteq> M" using less B by (intro less.hyps) auto
    with B(1) show ?thesis by blast
  qed blast
qed

section \<open>The interface\<close>

text \<open>
  The operations of \<open>Monotone\<close> for values of one access-structure type. \<open>auth\<close> is the policy a value
  stands for; \<open>feasible\<close> says that enumerating the maximal unqualified sets stays within the 64-bit
  arithmetic of \<open>Combinations\<close> and the 64 positions of a bit set.
\<close>

locale monotone_access =
  fixes wf :: "'ac \<Rightarrow> bool"
    and feasible :: "'ac \<Rightarrow> bool"
    and auth :: "'ac \<Rightarrow> ID set \<Rightarrow> bool"
    and IsQualified :: "'ac \<Rightarrow> ID list \<Rightarrow> bool"
    and Shareholders :: "'ac \<Rightarrow> ID hset"
    and MaximalUnqualifiedSetsIter :: "'ac \<Rightarrow> ID hset list"
  assumes qualified_auth: "wf a \<Longrightarrow> IsQualified a ids \<longleftrightarrow> auth a (set ids)"
    and auth_mono: "wf a \<Longrightarrow> auth a A \<Longrightarrow> A \<subseteq> B \<Longrightarrow> B \<subseteq> set (Shareholders a) \<Longrightarrow> auth a B"
    and shareholders_wf: "wf a \<Longrightarrow> hs_wf (Shareholders a) \<and> 0 \<notin> set (Shareholders a)"
    and mus_maximal: "wf a \<Longrightarrow> feasible a \<Longrightarrow> set ` set (MaximalUnqualifiedSetsIter a) =
          {A. maximal_unqualified (auth a) (set (Shareholders a)) A}"
begin

text \<open>The verdict depends neither on the order of the identifiers nor on repetitions.\<close>

lemma qualified_cong: "wf a \<Longrightarrow> set xs = set ys \<Longrightarrow> IsQualified a xs = IsQualified a ys"
  by (simp add: qualified_auth)

lemma unqualified_covered:
  assumes "wf a" "feasible a" "A \<subseteq> set (Shareholders a)" "\<not> auth a A"
  shows "\<exists>M\<in>set (MaximalUnqualifiedSetsIter a). A \<subseteq> set M"
proof -
  obtain M where "maximal_unqualified (auth a) (set (Shareholders a)) M" "A \<subseteq> M"
    using unqualified_extends [where q = "auth a", OF _ assms(3,4)] by auto
  then have "M \<in> set ` set (MaximalUnqualifiedSetsIter a)" by (simp add: mus_maximal [OF assms(1,2)])
  with \<open>A \<subseteq> M\<close> show ?thesis by auto
qed

lemma mus_unqualified:
  assumes "wf a" "feasible a" "M \<in> set (MaximalUnqualifiedSetsIter a)"
  shows "set M \<subseteq> set (Shareholders a)" "\<not> auth a (set M)"
proof -
  have "set M \<in> {A. maximal_unqualified (auth a) (set (Shareholders a)) A}"
    unfolding mus_maximal [OF assms(1,2), symmetric] using assms(3) by simp
  then show "set M \<subseteq> set (Shareholders a)" "\<not> auth a (set M)"
    by (simp_all add: maximal_unqualified_def)
qed

text \<open>The reading of the policy as a conjunction of clauses, one per maximal unqualified set.\<close>

lemma auth_iff_not_covered:
  assumes "wf a" "feasible a" "A \<subseteq> set (Shareholders a)"
  shows "auth a A \<longleftrightarrow> (\<forall>M\<in>set (MaximalUnqualifiedSetsIter a). \<not> A \<subseteq> set M)"
proof
  assume auth: "auth a A"
  show "\<forall>M\<in>set (MaximalUnqualifiedSetsIter a). \<not> A \<subseteq> set M"
    using auth auth_mono [OF assms(1) auth] mus_unqualified [OF assms(1,2)] by blast
next
  assume "\<forall>M\<in>set (MaximalUnqualifiedSetsIter a). \<not> A \<subseteq> set M"
  then show "auth a A" using unqualified_covered [OF assms] by blast
qed

lemma mus_antichain:
  assumes "wf a" "feasible a" "M \<in> set (MaximalUnqualifiedSetsIter a)"
    and "N \<in> set (MaximalUnqualifiedSetsIter a)" "set M \<subseteq> set N"
  shows "set M = set N"
proof (rule ccontr)
  assume "set M \<noteq> set N"
  moreover have "maximal_unqualified (auth a) (set (Shareholders a)) (set M)"
    using mus_maximal [OF assms(1,2)] assms(3) by auto
  ultimately have "auth a (set N)"
    using assms(5) mus_unqualified(1) [OF assms(1,2,4)] by (auto simp: maximal_unqualified_def)
  with mus_unqualified(2) [OF assms(1,2,4)] show False by blast
qed

end

section \<open>Exhaustive search\<close>

definition maxShareholderID :: ID where
  "maxShareholderID = 64"

text \<open>One pass of the inner loop: skip a qualified set and a set below one already found.\<close>

definition bf_step :: "(ID list \<Rightarrow> bool) \<Rightarrow> 64 word hset \<Rightarrow> ID list \<Rightarrow> 64 word hset res" where
  "bf_step isQualified muss s =
     (if isQualified s then Inr muss
      else rbind (NewBitSet s) (\<lambda>s2.
        if list_ex (\<lambda>mus. bs_IsSubSet s2 mus) muss then Inr muss
        else Inr (hs_Add muss s2)))"

definition bf_level :: "(ID list \<Rightarrow> bool) \<Rightarrow> ID list \<Rightarrow> 64 word hset \<Rightarrow> nat \<Rightarrow> 64 word hset res" where
  "bf_level isQualified sortedShareholders muss t =
     FoldOrError (bf_step isQualified) muss (Combinations sortedShareholders t)"

definition BruteForceMaximalUnqualifiedSets ::
  "ID hset option \<Rightarrow> (ID list \<Rightarrow> bool) option \<Rightarrow> ID hset list res" where
  "BruteForceMaximalUnqualifiedSets shareholders isQualified =
     (case (shareholders, isQualified) of
        (Some ps, Some q) \<Rightarrow>
          if hs_Size ps = 0 then Inl ErrValue
          else (let sortedShareholders = sort (hs_List ps) in
            if last sortedShareholders > maxShareholderID then Inl ErrOverflow
            else rbind (FoldOrError (bf_level q sortedShareholders) []
                          (rev [1..<length sortedShareholders + 1]))
                   (\<lambda>muss. Inr (map (\<lambda>mus. hs_NewComparable (bs_List mus)) muss)))
      | _ \<Rightarrow> Inl ErrIsNil)"

subsection \<open>Correctness of the search\<close>

text \<open>Two nested loops are one loop over the concatenation.\<close>

lemma FoldOrError_nested:
  "FoldOrError (\<lambda>acc t. FoldOrError f acc (g t)) acc ts = FoldOrError f acc (concat (map g ts))"
  by (induction ts arbitrary: acc) (simp_all add: FoldOrError_append)

lemma sorted_last: "sorted xs \<Longrightarrow> x \<in> set xs \<Longrightarrow> x \<le> last xs"
  by (induction xs) auto

lemma bf_step_cases:
  assumes "set s \<subseteq> bs_range"
  obtains b where "NewBitSet s = Inr b" "bs_elems b = set s"
    "bf_step isq muss s = (if isq s \<or> (\<exists>m\<in>set muss. set s \<subseteq> bs_elems m) then Inr muss
       else Inr (hs_Add muss b))"
proof -
  obtain b where b: "NewBitSet s = Inr b" "bs_elems b = set s"
    using bset.new_set [OF assms] by (auto simp: NewBitSet_def bs_AddAll_def)
  show ?thesis
    by (rule that [OF b]) (auto simp: bf_step_def b bs_IsSubSet_iff list_ex_iff)
qed

text \<open>
  The loop invariant: what has been kept is maximal, and every unqualified set seen so far lies
  below something kept. It needs the sets to come in order of decreasing size.
\<close>

lemma bf_loop:
  assumes q: "\<And>xs. isq xs \<longleftrightarrow> q (set xs)"
    and range: "U \<subseteq> bs_range" and sub: "\<And>c. c \<in> set cs \<Longrightarrow> set c \<subseteq> U"
    and desc: "sorted_wrt (\<lambda>x y. card (set y) \<le> card (set x)) cs"
    and complete: "\<And>B c. c \<in> set cs \<Longrightarrow> B \<subseteq> U \<Longrightarrow> card (set c) < card B \<Longrightarrow> B \<in> set ` set cs"
  shows "\<exists>muss. FoldOrError (bf_step isq) [] cs = Inr muss
    \<and> (\<forall>m\<in>set muss. maximal_unqualified q U (bs_elems m) \<and> bs_elems m \<in> set ` set cs)
    \<and> (\<forall>c\<in>set cs. \<not> q (set c) \<longrightarrow> (\<exists>m\<in>set muss. set c \<subseteq> bs_elems m))"
  using sub desc complete
proof (induction cs rule: rev_induct)
  case Nil
  then show ?case by simp
next
  case (snoc s p)
  have small: "card (set s) \<le> card (set c)" if "c \<in> set p" for c
    using snoc.prems(2) that by (simp add: sorted_wrt_append)
  have "B \<in> set ` set p" if "c \<in> set p" "B \<subseteq> U" "card (set c) < card B" for B c
    using snoc.prems(3) [of c B] that small [of c] by auto
  then obtain muss where IH: "FoldOrError (bf_step isq) [] p = Inr muss"
      "\<forall>m\<in>set muss. maximal_unqualified q U (bs_elems m) \<and> bs_elems m \<in> set ` set p"
      "\<forall>c\<in>set p. \<not> q (set c) \<longrightarrow> (\<exists>m\<in>set muss. set c \<subseteq> bs_elems m)"
    using snoc.IH snoc.prems(1,2) by (auto simp: sorted_wrt_append)
  have sU: "set s \<subseteq> U" using snoc.prems(1) by simp
  obtain b where b: "bs_elems b = set s"
    "bf_step isq muss s = (if isq s \<or> (\<exists>m\<in>set muss. set s \<subseteq> bs_elems m) then Inr muss
       else Inr (hs_Add muss b))"
    by (rule bf_step_cases [OF subset_trans [OF sU range], of isq muss])
  show ?case
  proof (cases "isq s \<or> (\<exists>m\<in>set muss. set s \<subseteq> bs_elems m)")
    case True
    with IH b q [of s] show ?thesis by (intro exI [of _ muss]) (auto simp: FoldOrError_append)
  next
    case False
    have "q B" if "set s \<subset> B" "B \<subseteq> U" for B
    proof (rule ccontr)
      assume nq: "\<not> q B"
      have "finite B" using that(2) range finite_subset finite by blast
      then have lt: "card (set s) < card B" using that(1) by (rule psubset_card_mono)
      then have "B \<in> set ` set p" using snoc.prems(3) [of s B] that(2) by auto
      then obtain m where "m \<in> set muss" "B \<subseteq> bs_elems m" using IH(3) nq by auto
      with False that(1) show False by blast
    qed
    then have "maximal_unqualified q U (set s)" using False q sU by (simp add: maximal_unqualified_def)
    with IH b False q [of s] show ?thesis
      by (intro exI [of _ "hs_Add muss b"]) (auto simp: FoldOrError_append)
  qed
qed

lemma Combinations_descending:
  assumes "distinct s" "length s \<le> 57"
  shows "sorted_wrt (\<lambda>x y. card (set y) \<le> card (set x))
    (concat (map (Combinations s) (rev [1..<n])))"
proof (induction n)
  case (Suc n)
  have elem: "card (set c) = t" if "c \<in> set (Combinations s t)" for c t
    using Combinations_elem [OF binomial_sum_bound [OF assms(2)] assms(1) that]
    by (simp add: distinct_card)
  have "sorted_wrt (\<lambda>x y. card (set y) \<le> card (set x)) (Combinations s n)"
    by (rule sorted_wrt_mono_rel [OF _ sorted_wrt_true]) (simp add: elem)
  with Suc show ?case by (auto simp: sorted_wrt_append elem)
qed simp

lemma Combinations_cover:
  assumes "distinct s" "length s \<le> 57" "B \<subseteq> set s" "B \<noteq> {}"
  shows "B \<in> set ` set (concat (map (Combinations s) (rev [1..<length s + 1])))"
proof -
  have "card B \<le> length s"
    using card_mono [OF _ assms(3)] assms(1) by (simp add: distinct_card)
  moreover have "0 < card B" using assms(3,4) finite_subset by (fastforce simp: card_gt_0_iff)
  moreover have "B \<in> set ` set (Combinations s (card B))"
    using Combinations_sets [OF binomial_sum_bound [OF assms(2)] assms(1), of "card B"] assms(3)
    by auto
  ultimately show ?thesis by (force simp del: upt_Suc)
qed

lemma BruteForce_spec:
  assumes q: "\<And>xs. isq xs \<longleftrightarrow> q (set xs)"
    and ps: "hs_wf ps" "0 \<notin> set ps" "ps \<noteq> []" "\<And>e. e \<in> set ps \<Longrightarrow> e \<le> 64" "hs_Size ps \<le> 57"
  shows "\<exists>muss. BruteForceMaximalUnqualifiedSets (Some ps) (Some isq) = Inr muss
    \<and> set ` set muss = {A. A \<noteq> {} \<and> maximal_unqualified q (set ps) A}"
proof -
  define ss where "ss = sort ps"
  define cs where "cs = concat (map (Combinations ss) (rev [1..<length ss + 1]))"
  have ss: "distinct ss" "length ss \<le> 57" "set ss = set ps" "ss \<noteq> []"
    using ps by (auto simp: ss_def hs_wf_def hs_Size_def)
  have last: "\<not> last ss > maxShareholderID"
    using ps(4) ss(3,4) by (metis last_in_set maxShareholderID_def not_less)
  have elem: "set c \<subseteq> set ps \<and> c \<noteq> []" if c: "c \<in> set cs" for c
  proof -
    obtain t where t: "t \<in> {1..<length ss + 1}" "c \<in> set (Combinations ss t)"
      using c by (auto simp: cs_def simp del: upt_Suc)
    with Combinations_elem [OF binomial_sum_bound [OF ss(2)] ss(1) t(2)] ss(3) show ?thesis by auto
  qed
  have range: "set ps \<subseteq> bs_range" using ps(2,4) word_gt_0 by (auto simp: word_le_nat_alt unat_gt_0 Suc_le_eq) 
  have cover: "B \<in> set ` set cs" if "B \<subseteq> set ps" "B \<noteq> {}" for B
    using Combinations_cover [OF ss(1,2)] that ss(3) by (simp add: cs_def)
  have desc: "sorted_wrt (\<lambda>x y. card (set y) \<le> card (set x)) cs"
    unfolding cs_def by (rule Combinations_descending [OF ss(1,2)])
  have larger: "B \<in> set ` set cs" if "c \<in> set cs" "B \<subseteq> set ps" "card (set c) < card B" for B c
  proof (rule cover [OF that(2)])
    show "B \<noteq> {}" using that(3) by auto
  qed
  have "\<exists>muss. FoldOrError (bf_step isq) [] cs = Inr muss
    \<and> (\<forall>m\<in>set muss. maximal_unqualified q (set ps) (bs_elems m) \<and> bs_elems m \<in> set ` set cs)
    \<and> (\<forall>c\<in>set cs. \<not> q (set c) \<longrightarrow> (\<exists>m\<in>set muss. set c \<subseteq> bs_elems m))"
    using elem larger by (intro bf_loop [where isq = isq and q = q, OF q range _ desc]) blast+
  then obtain muss where m: "FoldOrError (bf_step isq) [] cs = Inr muss"
      "\<forall>m\<in>set muss. maximal_unqualified q (set ps) (bs_elems m) \<and> bs_elems m \<in> set ` set cs"
      "\<forall>c\<in>set cs. \<not> q (set c) \<longrightarrow> (\<exists>m\<in>set muss. set c \<subseteq> bs_elems m)" by blast
  have "bs_elems ` set muss = {A. A \<noteq> {} \<and> maximal_unqualified q (set ps) A}"
  proof (intro equalityI subsetI)
    fix A assume "A \<in> {A. A \<noteq> {} \<and> maximal_unqualified q (set ps) A}"
    then have A: "A \<noteq> {}" "A \<subseteq> set ps" "\<not> q A" "\<And>B. A \<subset> B \<Longrightarrow> B \<subseteq> set ps \<Longrightarrow> q B"
      by (auto simp: maximal_unqualified_def)
    obtain c where "c \<in> set cs" "A = set c" using cover [OF A(2,1)] by blast
    then obtain m where "m \<in> set muss" "A \<subseteq> bs_elems m" using m(3) A(3) by blast
    moreover from this have "bs_elems m \<subseteq> set ps" "\<not> q (bs_elems m)"
      using m(2) by (auto simp: maximal_unqualified_def)
    then have "bs_elems m = A" using A(4) [of "bs_elems m"] \<open>A \<subseteq> bs_elems m\<close> by blast
    ultimately show "A \<in> bs_elems ` set muss" by blast
  next
    fix A assume "A \<in> bs_elems ` set muss"
    with m(2) elem show "A \<in> {A. A \<noteq> {} \<and> maximal_unqualified q (set ps) A}" by fastforce
  qed
  moreover have "set (hs_NewComparable (bs_List w)) = bs_elems w" for w
    using bset.list_set by simp
  moreover have "FoldOrError (bf_level isq ss) [] (rev [1..<length ss + 1]) = Inr muss"
    using m(1) unfolding bf_level_def cs_def FoldOrError_nested .
  ultimately show ?thesis
    using last ss(4) ps(3)
    by (simp add: BruteForceMaximalUnqualifiedSets_def hs_Size_def hs_List_def ss_def [symmetric]
        image_image)
qed

text \<open>
  \<open>BruteForceMaximalUnqualifiedSets\<close>, for any policy whose verdict depends only on the set of
  identifiers and for up to 57 shareholders with identifiers in \<open>[1, 64]\<close>, returns exactly the
  non-empty maximal unqualified sets. A shareholder above 64 makes it fail with
  \<open>ErrOverflow\<close>. The policy need not even be monotone.
\<close>

theorem BruteForce_correct:
  assumes "\<And>xs. isq xs \<longleftrightarrow> q (set xs)" and "hs_wf ps" "0 \<notin> set ps" "ps \<noteq> []" "hs_Size ps \<le> 57"
  shows "if (\<forall>e\<in>set ps. e \<le> 64)
    then \<exists>muss. BruteForceMaximalUnqualifiedSets (Some ps) (Some isq) = Inr muss
      \<and> set ` set muss = {A. A \<noteq> {} \<and> maximal_unqualified q (set ps) A}
    else BruteForceMaximalUnqualifiedSets (Some ps) (Some isq) = Inl ErrOverflow"
proof (cases "\<forall>e\<in>set ps. e \<le> 64")
  case True
  then show ?thesis using BruteForce_spec [of isq q ps] assms by simp
next
  case False
  then obtain e where e: "e \<in> set ps" "64 < e" by auto
  have "e \<le> last (sort ps)" using e(1) by (intro sorted_last) simp_all
  then have "maxShareholderID < last (sort ps)" using e(2) by (simp add: maxShareholderID_def)
  with False assms(4) show ?thesis
    by (simp add: BruteForceMaximalUnqualifiedSets_def hs_Size_def hs_List_def)
qed

theorem BruteForce_correct_witness:
  "\<exists>muss. BruteForceMaximalUnqualifiedSets (Some [3, 1, 2 :: ID]) (Some (\<lambda>xs. 2 \<le> card (set xs))) = Inr muss
    \<and> set ` set muss = {A. A \<noteq> {} \<and> maximal_unqualified (\<lambda>A. 2 \<le> card A) (set [3, 1, 2]) A}"
  using BruteForce_correct [of "\<lambda>xs. 2 \<le> card (set xs)" "\<lambda>A. 2 \<le> card A" "[3, 1, 2 :: ID]"]
  by (simp add: hs_wf_def hs_Size_def)

end
