(* ===== verification/Threshold.thy ===== *)
theory Threshold
  imports Monotone
begin

text \<open>
  The threshold and the unanimity access structures (\<open>accessstructures/threshold\<close>,
  \<open>accessstructures/unanimity\<close>), with their serialised forms. A nil pointer is \<open>None\<close>. Both meet
  the interface \<open>monotone_access\<close>. The CBOR codec itself is an argument of the definitions.
\<close>

section \<open>Threshold\<close>

record Threshold =
  th_t :: nat
  th_ps :: "ID hset"

definition NewThresholdAccessStructure :: "nat \<Rightarrow> ID hset option \<Rightarrow> Threshold res" where
  "NewThresholdAccessStructure t ps =
     (case ps of None \<Rightarrow> Inl ErrIsNil
      | Some ps \<Rightarrow>
        if hs_Contains ps 0 then Inl ErrMembership
        else if t < 2 then Inl ErrValue
        else if t > hs_Size ps then Inl ErrValue
        else Inr \<lparr>th_t = t, th_ps = ps\<rparr>)"

definition Threshold_Shareholders :: "Threshold \<Rightarrow> ID hset" where
  "Threshold_Shareholders a = th_ps a"

definition Threshold_IsQualified :: "Threshold \<Rightarrow> ID list \<Rightarrow> bool" where
  "Threshold_IsQualified a ids =
     (let idsSet = hs_NewComparable ids in
      hs_Size idsSet \<ge> th_t a \<and> hs_IsSubSet idsSet (th_ps a))"

definition Threshold_MaximalUnqualifiedSetsIter :: "Threshold \<Rightarrow> ID hset list" where
  "Threshold_MaximalUnqualifiedSetsIter a =
     map hs_NewComparable (Combinations (hs_List (th_ps a)) (th_t a - 1))"

definition Threshold_Equal :: "Threshold option \<Rightarrow> Threshold option \<Rightarrow> bool" where
  "Threshold_Equal a other =
     (case (a, other) of
        (Some x, Some y) \<Rightarrow>
          if th_t x \<noteq> th_t y then False
          else if hs_Size (th_ps x) \<noteq> hs_Size (th_ps y) then False
          else hs_Equal (th_ps x) (th_ps y)
      | (None, None) \<Rightarrow> True
      | _ \<Rightarrow> False)"

definition Threshold_Clone :: "Threshold option \<Rightarrow> Threshold option" where
  "Threshold_Clone a =
     (case a of None \<Rightarrow> None
      | Some a \<Rightarrow> Some \<lparr>th_t = th_t a, th_ps = hs_Clone (th_ps a)\<rparr>)"

text \<open>
  Serialisation: the data-transfer object, a map from identifiers to \<open>true\<close>, and the two methods
  over a codec.
\<close>

record thresholdDTO =
  dto_T :: nat
  dto_Ps :: "(ID \<times> bool) list"

definition Threshold_MarshalCBOR :: "(thresholdDTO \<Rightarrow> 'b res) \<Rightarrow> Threshold \<Rightarrow> 'b res" where
  "Threshold_MarshalCBOR enc a =
     enc \<lparr>dto_T = th_t a, dto_Ps = flag_map (hs_List (th_ps a))\<rparr>"

definition Threshold_UnmarshalCBOR :: "('b \<Rightarrow> thresholdDTO res) \<Rightarrow> 'b \<Rightarrow> Threshold res" where
  "Threshold_UnmarshalCBOR dec data =
     rbind (dec data) (\<lambda>dto.
       NewThresholdAccessStructure (dto_T dto) (Some (hs_NewComparable (map fst (dto_Ps dto)))))"

section \<open>Unanimity\<close>

record Unanimity =
  un_ps :: "ID hset"

definition NewUnanimityAccessStructure :: "ID hset option \<Rightarrow> Unanimity res" where
  "NewUnanimityAccessStructure shareholders =
     (case shareholders of None \<Rightarrow> Inl ErrIsNil
      | Some ps \<Rightarrow>
        if hs_Size ps < 2 then Inl ErrValue
        else if hs_Contains ps 0 then Inl ErrMembership
        else Inr \<lparr>un_ps = ps\<rparr>)"

definition Unanimity_IsQualified :: "Unanimity option \<Rightarrow> ID list \<Rightarrow> bool" where
  "Unanimity_IsQualified u ids =
     (case u of None \<Rightarrow> False | Some u \<Rightarrow> hs_Equal (hs_NewComparable ids) (un_ps u))"

definition Unanimity_Shareholders :: "Unanimity \<Rightarrow> ID hset" where
  "Unanimity_Shareholders u = un_ps u"

definition Unanimity_MaximalUnqualifiedSetsIter :: "Unanimity \<Rightarrow> ID hset list" where
  "Unanimity_MaximalUnqualifiedSetsIter u =
     map hs_NewComparable (Combinations (hs_List (un_ps u)) (hs_Size (un_ps u) - 1))"

definition Unanimity_Equal :: "Unanimity option \<Rightarrow> Unanimity option \<Rightarrow> bool" where
  "Unanimity_Equal u other =
     (case (u, other) of
        (Some x, Some y) \<Rightarrow>
          if hs_Size (un_ps x) \<noteq> hs_Size (un_ps y) then False
          else hs_Equal (un_ps x) (un_ps y)
      | (None, None) \<Rightarrow> True
      | _ \<Rightarrow> False)"

definition Unanimity_Clone :: "Unanimity option \<Rightarrow> Unanimity option" where
  "Unanimity_Clone u = (case u of None \<Rightarrow> None | Some u \<Rightarrow> Some \<lparr>un_ps = hs_Clone (un_ps u)\<rparr>)"

definition Unanimity_MarshalCBOR :: "((ID \<times> bool) list \<Rightarrow> 'b res) \<Rightarrow> Unanimity \<Rightarrow> 'b res" where
  "Unanimity_MarshalCBOR enc u = enc (flag_map (hs_List (un_ps u)))"

definition Unanimity_UnmarshalCBOR :: "('b \<Rightarrow> (ID \<times> bool) list res) \<Rightarrow> 'b \<Rightarrow> Unanimity res" where
  "Unanimity_UnmarshalCBOR dec data =
     rbind (dec data) (\<lambda>ps. NewUnanimityAccessStructure (Some (hs_NewComparable (map fst ps))))"

section \<open>Well-formed structures\<close>

definition Threshold_wf :: "Threshold \<Rightarrow> bool" where
  "Threshold_wf a \<longleftrightarrow> hs_wf (th_ps a) \<and> 0 \<notin> set (th_ps a) \<and> 2 \<le> th_t a \<and> th_t a \<le> hs_Size (th_ps a)"

definition Unanimity_wf :: "Unanimity \<Rightarrow> bool" where
  "Unanimity_wf u \<longleftrightarrow> hs_wf (un_ps u) \<and> 0 \<notin> set (un_ps u) \<and> 2 \<le> hs_Size (un_ps u)"

text \<open>What a threshold, and a unanimity, policy means.\<close>

definition threshold_auth :: "Threshold \<Rightarrow> ID set \<Rightarrow> bool" where
  "threshold_auth a A \<longleftrightarrow> th_t a \<le> card A \<and> A \<subseteq> set (th_ps a)"

definition unanimity_auth :: "Unanimity \<Rightarrow> ID set \<Rightarrow> bool" where
  "unanimity_auth u A \<longleftrightarrow> A = set (un_ps u)"

lemma NewThreshold_wf:
  "NewThresholdAccessStructure t ps = Inr a \<Longrightarrow> hs_wf (the ps) \<Longrightarrow> Threshold_wf a"
  by (auto simp: NewThresholdAccessStructure_def Threshold_wf_def split: option.splits if_splits)

lemma NewUnanimity_wf:
  "NewUnanimityAccessStructure ps = Inr u \<Longrightarrow> hs_wf (the ps) \<Longrightarrow> Unanimity_wf u"
  by (auto simp: NewUnanimityAccessStructure_def Unanimity_wf_def split: option.splits if_splits)

lemma Threshold_IsQualified_auth: "Threshold_IsQualified a ids \<longleftrightarrow> threshold_auth a (set ids)"
  by (simp add: Threshold_IsQualified_def threshold_auth_def Let_def)

lemma Unanimity_IsQualified_auth: "Unanimity_IsQualified (Some u) ids \<longleftrightarrow> unanimity_auth u (set ids)"
  by (simp add: Unanimity_IsQualified_def unanimity_auth_def)

definition Threshold_feasible :: "Threshold \<Rightarrow> bool" where
  "Threshold_feasible a \<longleftrightarrow>
     int (hs_Size (th_ps a)) * int (hs_Size (th_ps a) choose (th_t a - 1)) < 2 ^ 63"

definition Unanimity_feasible :: "Unanimity \<Rightarrow> bool" where
  "Unanimity_feasible u \<longleftrightarrow>
     int (hs_Size (un_ps u)) * int (hs_Size (un_ps u) choose (hs_Size (un_ps u) - 1)) < 2 ^ 63"

lemma maximal_below_threshold:
  assumes "finite U" "1 \<le> t" "t \<le> card U"
  shows "maximal_unqualified (\<lambda>A. t \<le> card A \<and> A \<subseteq> U) U A \<longleftrightarrow> A \<subseteq> U \<and> card A = t - 1"
proof
  assume m: "maximal_unqualified (\<lambda>A. t \<le> card A \<and> A \<subseteq> U) U A"
  then have A: "A \<subseteq> U" "card A < t" by (auto simp: maximal_unqualified_def not_le)
  moreover have "\<not> card A < t - 1"
  proof
    assume "card A < t - 1"
    moreover have "A \<noteq> U" using A(2) assms(3) by auto
    then obtain x where "x \<in> U" "x \<notin> A" using A(1) by blast
    moreover have "finite A" using A(1) assms(1) by (rule finite_subset)
    ultimately have "\<not> t \<le> card (insert x A)" "A \<subset> insert x A" "insert x A \<subseteq> U" using A(1) by auto
    with m show False by (auto simp: maximal_unqualified_def)
  qed
  ultimately show "A \<subseteq> U \<and> card A = t - 1" using assms(2) by auto
next
  assume A: "A \<subseteq> U \<and> card A = t - 1"
  have "t \<le> card B" if "A \<subset> B" "B \<subseteq> U" for B
  proof -
    have "card A < card B" using that assms(1) by (meson finite_subset psubset_card_mono)
    then show ?thesis using A by linarith
  qed
  with A assms(2) show "maximal_unqualified (\<lambda>A. t \<le> card A \<and> A \<subseteq> U) U A"
    by (auto simp: maximal_unqualified_def)
qed

lemma maximal_unqualified_cong:
  assumes "\<And>B. B \<subseteq> U \<Longrightarrow> p B = q B"
  shows "maximal_unqualified p U A = maximal_unqualified q U A"
proof -
  have "(\<forall>B. A \<subset> B \<and> B \<subseteq> U \<longrightarrow> p B) = (\<forall>B. A \<subset> B \<and> B \<subseteq> U \<longrightarrow> q B)" using assms by simp
  then show ?thesis using assms [of A] by (auto simp: maximal_unqualified_def)
qed

lemma unanimity_as_threshold:
  "finite U \<Longrightarrow> A \<subseteq> U \<Longrightarrow> A = U \<longleftrightarrow> card U \<le> card A \<and> A \<subseteq> U"
  using card_seteq by auto

interpretation threshold: monotone_access Threshold_wf Threshold_feasible threshold_auth
  Threshold_IsQualified Threshold_Shareholders Threshold_MaximalUnqualifiedSetsIter
proof
  fix a assume wf: "Threshold_wf a"
  then have d: "distinct (th_ps a)" and le: "th_t a \<le> card (set (th_ps a))" "2 \<le> th_t a"
    by (auto simp: Threshold_wf_def hs_wf_def hs_Size_def distinct_card)
  show "threshold_auth a B" if "threshold_auth a A" "A \<subseteq> B" "B \<subseteq> set (Threshold_Shareholders a)" for A B
    using that card_mono [of B A] finite_subset [of B]
    by (auto simp: threshold_auth_def Threshold_Shareholders_def)
  show "set ` set (Threshold_MaximalUnqualifiedSetsIter a) =
      {A. maximal_unqualified (threshold_auth a) (set (Threshold_Shareholders a)) A}"
    if "Threshold_feasible a"
    using that Combinations_sets [OF _ d, of "th_t a - 1"] le
      maximal_below_threshold [of "set (th_ps a)" "th_t a"]
    by (simp add: Threshold_MaximalUnqualifiedSetsIter_def Threshold_feasible_def hs_Size_def
        Threshold_Shareholders_def hs_List_def image_image threshold_auth_def [abs_def])
qed (auto simp: Threshold_IsQualified_auth Threshold_wf_def Threshold_Shareholders_def)

interpretation unanimity: monotone_access Unanimity_wf Unanimity_feasible unanimity_auth
  "\<lambda>u. Unanimity_IsQualified (Some u)" Unanimity_Shareholders Unanimity_MaximalUnqualifiedSetsIter
proof
  fix u assume wf: "Unanimity_wf u"
  let ?U = "set (un_ps u)"
  have d: "distinct (un_ps u)" and n: "length (un_ps u) = card ?U" "1 \<le> card ?U"
    using wf by (auto simp: Unanimity_wf_def hs_wf_def hs_Size_def distinct_card)
  show "set ` set (Unanimity_MaximalUnqualifiedSetsIter u) =
      {A. maximal_unqualified (unanimity_auth u) (set (Unanimity_Shareholders u)) A}"
    if f: "Unanimity_feasible u"
  proof -
    have "maximal_unqualified (unanimity_auth u) ?U A \<longleftrightarrow>
        maximal_unqualified (\<lambda>A. card ?U \<le> card A \<and> A \<subseteq> ?U) ?U A" for A
      by (rule maximal_unqualified_cong) (simp add: unanimity_auth_def unanimity_as_threshold)
    then show ?thesis
      using f Combinations_sets [OF _ d, of "length (un_ps u) - 1"] n
        maximal_below_threshold [of ?U "card ?U"]
      by (simp add: Unanimity_MaximalUnqualifiedSetsIter_def Unanimity_feasible_def hs_Size_def
          Unanimity_Shareholders_def hs_List_def image_image)
  qed
qed (auto simp: Unanimity_IsQualified_auth Unanimity_wf_def Unanimity_Shareholders_def unanimity_auth_def)

section \<open>Properties\<close>

text \<open>
  A threshold structure streams exactly its maximal unqualified sets, the sets of \<open>t - 1\<close>
  shareholders; a set of shareholders is qualified exactly when it lies below none of them.
\<close>

theorem Threshold_mus_decides:
  assumes "Threshold_wf a" "Threshold_feasible a" "set ids \<subseteq> set (Threshold_Shareholders a)"
  shows "set ` set (Threshold_MaximalUnqualifiedSetsIter a) =
      {A. maximal_unqualified (threshold_auth a) (set (Threshold_Shareholders a)) A}
    \<and> (Threshold_IsQualified a ids \<longleftrightarrow>
        (\<forall>M\<in>set (Threshold_MaximalUnqualifiedSetsIter a). \<not> set ids \<subseteq> set M))"
  using threshold.mus_maximal [OF assms(1,2)] threshold.auth_iff_not_covered [OF assms]
  by (simp add: Threshold_IsQualified_auth)

theorem Threshold_mus_decides_witness:
  "let a = \<lparr>th_t = 2, th_ps = [1, 2, 3]\<rparr> in
   set ` set (Threshold_MaximalUnqualifiedSetsIter a) =
      {A. maximal_unqualified (threshold_auth a) (set (Threshold_Shareholders a)) A}
    \<and> (Threshold_IsQualified a [1, 3] \<longleftrightarrow>
        (\<forall>M\<in>set (Threshold_MaximalUnqualifiedSetsIter a). \<not> set [1, 3] \<subseteq> set M))"
  unfolding Let_def
  by (rule Threshold_mus_decides)
    (simp_all add: Threshold_wf_def hs_wf_def hs_Size_def Threshold_feasible_def
      Threshold_Shareholders_def)

text \<open>
  A threshold structure survives serialisation: decoding what \<open>MarshalCBOR\<close> wrote succeeds and
  gives an \<open>Equal\<close> structure, for every codec that decodes what it encodes.
\<close>

theorem Threshold_CBOR_roundtrip:
  assumes "\<And>d. \<exists>b. enc d = Inr b \<and> dec b = Inr d" and "Threshold_wf a"
  shows "\<exists>b a'. Threshold_MarshalCBOR enc a = Inr b \<and> Threshold_UnmarshalCBOR dec b = Inr a'
    \<and> Threshold_Equal (Some a') (Some a)"
proof -
  let ?d = "\<lparr>dto_T = th_t a, dto_Ps = flag_map (hs_List (th_ps a))\<rparr>"
  obtain b where b: "enc ?d = Inr b" "dec b = Inr ?d" using assms(1) by blast
  have d: "distinct (th_ps a)" using assms(2) by (simp add: Threshold_wf_def hs_wf_def)
  then have "map fst (dto_Ps ?d) = th_ps a" by (simp add: hs_List_def flag_map_keys)
  then show ?thesis
    using b assms(2) d
    by (simp add: Threshold_MarshalCBOR_def Threshold_UnmarshalCBOR_def Threshold_wf_def
        NewThresholdAccessStructure_def hs_New_distinct Threshold_Equal_def hs_List_def)
qed

theorem Threshold_CBOR_roundtrip_witness:
  "\<exists>b a'. Threshold_MarshalCBOR Inr \<lparr>th_t = 2, th_ps = [1, 2, 3]\<rparr> = Inr b
    \<and> Threshold_UnmarshalCBOR Inr b = Inr a'
    \<and> Threshold_Equal (Some a') (Some \<lparr>th_t = 2, th_ps = [1, 2, 3]\<rparr>)"
  by (rule Threshold_CBOR_roundtrip)
    (simp_all add: Threshold_wf_def hs_wf_def hs_Size_def)

end
