(* ===== verification/CNF.thy ===== *)
theory CNF
  imports Threshold
begin

text \<open>
  The CNF access structure (\<open>accessstructures/cnf\<close>): a policy given by its maximal unqualified sets,
  its constructor with the normalisation of the sets, conversion from another structure, the
  clauses, and the serialised form.
\<close>

record CNF =
  cnf_shareholders :: "ID hset"
  cnf_maximalUnqualifiedSets :: "ID hset list"

section \<open>Operations\<close>

text \<open>First loop of \<open>normaliseCNF\<close>: reject bad sets, drop repetitions.\<close>

fun normaliseCNF_unique :: "ID hset option list \<Rightarrow> ID hset list \<Rightarrow> ID hset list res" where
  "normaliseCNF_unique [] uniqueSets = Inr uniqueSets"
| "normaliseCNF_unique (s # ss) uniqueSets =
     (case s of None \<Rightarrow> Inl ErrIsNil
      | Some s \<Rightarrow>
        if hs_IsEmpty s then Inl ErrValue
        else if hs_Contains s 0 then Inl ErrMembership
        else (let normalised = hs_NewComparable (hs_List s) in
          if list_ex (\<lambda>seen. hs_Equal normalised seen) uniqueSets
          then normaliseCNF_unique ss uniqueSets
          else normaliseCNF_unique ss (uniqueSets @ [normalised])))"

text \<open>Second loop: keep the sets that are contained in no other one.\<close>

definition normaliseCNF_maximal :: "ID hset list \<Rightarrow> ID hset list" where
  "normaliseCNF_maximal us =
     map (\<lambda>i. us ! i)
       (filter (\<lambda>i. list_all (\<lambda>j. i = j \<or> \<not> hs_IsSubSet (us ! i) (us ! j)) [0..<length us])
         [0..<length us])"

definition normaliseCNF :: "ID hset option list \<Rightarrow> ID hset list res" where
  "normaliseCNF unqualifiedSets =
     (if length unqualifiedSets = 0 then Inl ErrValue
      else rbind (normaliseCNF_unique unqualifiedSets []) (\<lambda>us. Inr (normaliseCNF_maximal us)))"

definition NewCNFAccessStructure :: "ID hset option list \<Rightarrow> CNF res" where
  "NewCNFAccessStructure unqualifiedSets =
     rbind (normaliseCNF unqualifiedSets) (\<lambda>mus.
       let shareholders = fold (\<lambda>u sh. hs_AddAll sh (hs_List u)) mus (hs_NewComparable []) in
       if hs_Size shareholders < 2 then Inl ErrMembership
       else Inr \<lparr>cnf_shareholders = shareholders, cnf_maximalUnqualifiedSets = mus\<rparr>)"

text \<open>The argument is the stream of maximal unqualified sets of the structure converted.\<close>

definition ConvertToCNF :: "ID hset list option \<Rightarrow> CNF res" where
  "ConvertToCNF ac =
     (case ac of None \<Rightarrow> Inl ErrIsNil | Some muss \<Rightarrow> NewCNFAccessStructure (map Some muss))"

definition CNF_IsQualified :: "CNF option \<Rightarrow> ID list \<Rightarrow> bool" where
  "CNF_IsQualified c ids =
     (case c of None \<Rightarrow> False
      | Some c \<Rightarrow>
        let idSet = hs_NewComparable ids in
        if \<not> hs_IsSubSet idSet (cnf_shareholders c) then False
        else list_all (\<lambda>u. \<not> hs_IsSubSet idSet u) (cnf_maximalUnqualifiedSets c))"

definition CNF_Shareholders :: "CNF \<Rightarrow> ID hset" where
  "CNF_Shareholders c = cnf_shareholders c"

definition CNF_MaximalUnqualifiedSetsIter :: "CNF option \<Rightarrow> ID hset list" where
  "CNF_MaximalUnqualifiedSetsIter c =
     (case c of None \<Rightarrow> [] | Some c \<Rightarrow> cnf_maximalUnqualifiedSets c)"

definition CNF_Clauses :: "CNF \<Rightarrow> ID hset list" where
  "CNF_Clauses c = map (\<lambda>bi. hs_Difference (cnf_shareholders c) bi) (cnf_maximalUnqualifiedSets c)"

record cnfDTO =
  dto_Shareholders :: "(ID \<times> bool) list"
  dto_MaximalUnqualifiedSets :: "(ID \<times> bool) list list"

definition CNF_MarshalCBOR :: "(cnfDTO \<Rightarrow> 'b res) \<Rightarrow> CNF \<Rightarrow> 'b res" where
  "CNF_MarshalCBOR enc c =
     enc \<lparr>dto_Shareholders = flag_map (hs_List (cnf_shareholders c)),
          dto_MaximalUnqualifiedSets =
            map (\<lambda>u. flag_map (hs_List u)) (cnf_maximalUnqualifiedSets c)\<rparr>"

definition CNF_UnmarshalCBOR :: "('b \<Rightarrow> cnfDTO res) \<Rightarrow> 'b \<Rightarrow> CNF res" where
  "CNF_UnmarshalCBOR dec data =
     rbind (dec data) (\<lambda>dto.
       NewCNFAccessStructure
         (map (\<lambda>u. Some (hs_AddAll (hs_NewComparable []) (map fst u)))
           (dto_MaximalUnqualifiedSets dto)))"

section \<open>Well-formed structures\<close>

text \<open>
  What the constructor establishes: the sets are non-empty, pairwise incomparable, and together
  make up the shareholders.
\<close>

definition CNF_wf :: "CNF \<Rightarrow> bool" where
  "CNF_wf c \<longleftrightarrow> hs_wf (cnf_shareholders c) \<and> 0 \<notin> set (cnf_shareholders c)
     \<and> 2 \<le> hs_Size (cnf_shareholders c)
     \<and> (\<forall>M\<in>set (cnf_maximalUnqualifiedSets c). hs_wf M \<and> M \<noteq> [])
     \<and> set (cnf_shareholders c) = \<Union> (set ` set (cnf_maximalUnqualifiedSets c))
     \<and> distinct (map set (cnf_maximalUnqualifiedSets c))
     \<and> (\<forall>M\<in>set (cnf_maximalUnqualifiedSets c). \<forall>N\<in>set (cnf_maximalUnqualifiedSets c).
          set M \<subseteq> set N \<longrightarrow> set M = set N)"

definition cnf_auth :: "CNF \<Rightarrow> ID set \<Rightarrow> bool" where
  "cnf_auth c A \<longleftrightarrow> A \<subseteq> set (cnf_shareholders c) \<and>
     (\<forall>M\<in>set (cnf_maximalUnqualifiedSets c). \<not> A \<subseteq> set M)"

lemma normaliseCNF_unique_spec:
  assumes "normaliseCNF_unique ss us = Inr vs"
    and "distinct (map set us)" "\<forall>u\<in>set us. hs_wf u \<and> u \<noteq> [] \<and> 0 \<notin> set u"
  shows "distinct (map set vs) \<and> (\<forall>u\<in>set vs. hs_wf u \<and> u \<noteq> [] \<and> 0 \<notin> set u)
    \<and> set ` set vs = set ` set us \<union> (\<lambda>s. set (the s)) ` set ss \<and> None \<notin> set ss"
  using assms
proof (induction ss arbitrary: us)
  case Nil
  then show ?case by simp
next
  case (Cons s ss)
  then obtain x where s: "s = Some x" by (cases s) auto
  let ?n = "hs_NewComparable (hs_List x)"
  let ?us = "if set x \<in> set ` set us then us else us @ [?n]"
  have x: "x \<noteq> []" "0 \<notin> set x" using Cons.prems(1) by (auto simp: s split: if_splits)
  have seen: "list_ex (\<lambda>seen. hs_Equal ?n seen) us \<longleftrightarrow> set x \<in> set ` set us"
    by (auto simp: list_ex_iff)
  have step: "normaliseCNF_unique ss ?us = Inr vs"
    using Cons.prems(1) x unfolding s by (simp add: Let_def seen split: if_splits)
  have "?n \<noteq> []" using x(1) hs_New_set [of "hs_List x"] by (metis hs_List_set set_empty)
  then have inv: "distinct (map set ?us)" "\<forall>u\<in>set ?us. hs_wf u \<and> u \<noteq> [] \<and> 0 \<notin> set u"
    using Cons.prems(2,3) x by auto
  have "set ` set ?us = insert (set x) (set ` set us)" by auto
  with Cons.IH [OF step inv] show ?case by (simp add: s)
qed

lemma normaliseCNF_maximal_set:
  assumes "distinct (map set us)"
  shows "set (normaliseCNF_maximal us) = {u \<in> set us. \<forall>v\<in>set us. set u \<subseteq> set v \<longrightarrow> set u = set v}"
proof -
  have inj: "set (us ! i) = set (us ! j) \<Longrightarrow> i = j" if "i < length us" "j < length us" for i j
    using assms that by (metis length_map nth_eq_iff_index_eq nth_map)
  show ?thesis
  proof (intro equalityI subsetI)
    fix u assume "u \<in> set (normaliseCNF_maximal us)"
    then obtain i where i: "i < length us" "u = us ! i"
        "\<forall>j<length us. i = j \<or> \<not> set (us ! i) \<subseteq> set (us ! j)"
      by (auto simp: normaliseCNF_maximal_def list_all_iff)
    then show "u \<in> {u \<in> set us. \<forall>v\<in>set us. set u \<subseteq> set v \<longrightarrow> set u = set v}"
      by (auto simp: in_set_conv_nth [of _ us])
  next
    fix u assume u: "u \<in> {u \<in> set us. \<forall>v\<in>set us. set u \<subseteq> set v \<longrightarrow> set u = set v}"
    then obtain i where i: "i < length us" "u = us ! i" by (auto simp: in_set_conv_nth)
    have "\<forall>j<length us. set (us ! i) \<subseteq> set (us ! j) \<longrightarrow> set (us ! i) = set (us ! j)"
      using u i(2) by simp
    then have "\<forall>j<length us. i = j \<or> \<not> set (us ! i) \<subseteq> set (us ! j)" using inj i(1) by blast
    with i(1,2) show "u \<in> set (normaliseCNF_maximal us)"
      by (auto simp: normaliseCNF_maximal_def list_all_iff)
  qed
qed

lemma normaliseCNF_maximal_distinct:
  assumes "distinct (map set us)"
  shows "distinct (map set (normaliseCNF_maximal us))"
proof -
  have "inj_on (\<lambda>i. set (us ! i)) {..<length us}"
    using assms by (auto simp: inj_on_def distinct_conv_nth)
  then show ?thesis
    by (auto simp: normaliseCNF_maximal_def distinct_map comp_def elim!: inj_on_subset)
qed

lemma fold_AddAll_set: "set (fold (\<lambda>u sh. hs_AddAll sh (hs_List u)) us s) = set s \<union> \<Union> (set ` set us)"
  by (induction us arbitrary: s) auto

lemma fold_AddAll_wf: "hs_wf s \<Longrightarrow> hs_wf (fold (\<lambda>u sh. hs_AddAll sh (hs_List u)) us s)"
  by (induction us arbitrary: s) (auto simp: hs_AddAll_wf)

lemma NewCNF_wf:
  assumes "NewCNFAccessStructure ss = Inr c"
  shows "CNF_wf c" and "None \<notin> set ss"
    and "set ` set (cnf_maximalUnqualifiedSets c)
      = {A \<in> (\<lambda>s. set (the s)) ` set ss. \<forall>B \<in> (\<lambda>s. set (the s)) ` set ss. A \<subseteq> B \<longrightarrow> A = B}"
proof -
  obtain us where us: "normaliseCNF_unique ss [] = Inr us"
    and c: "cnf_maximalUnqualifiedSets c = normaliseCNF_maximal us"
      "cnf_shareholders c = fold (\<lambda>u sh. hs_AddAll sh (hs_List u)) (normaliseCNF_maximal us) (hs_NewComparable [])"
      "2 \<le> hs_Size (cnf_shareholders c)"
    using assms by (auto simp: NewCNFAccessStructure_def normaliseCNF_def Let_def split: if_splits)
  have spec: "distinct (map set us)" "\<forall>u\<in>set us. hs_wf u \<and> u \<noteq> [] \<and> 0 \<notin> set u"
    "set ` set us = (\<lambda>s. set (the s)) ` set ss" "None \<notin> set ss"
    using normaliseCNF_unique_spec [OF us] by simp_all
  note max = normaliseCNF_maximal_set [OF spec(1)]
  show "None \<notin> set ss" by (rule spec(4))
  show "set ` set (cnf_maximalUnqualifiedSets c)
      = {A \<in> (\<lambda>s. set (the s)) ` set ss. \<forall>B \<in> (\<lambda>s. set (the s)) ` set ss. A \<subseteq> B \<longrightarrow> A = B}"
    unfolding c(1) max spec(3) [symmetric] ball_simps image_iff by (auto simp: image_iff)
  have sh: "set (cnf_shareholders c) = \<Union> (set ` set (normaliseCNF_maximal us))"
    by (simp add: c(2) fold_AddAll_set)
  show "CNF_wf c"
    unfolding CNF_wf_def
  proof (intro conjI)
    show "hs_wf (cnf_shareholders c)" by (simp add: c(2) fold_AddAll_wf)
    show "0 \<notin> set (cnf_shareholders c)" using spec(2) by (auto simp: sh max)
    show "\<forall>M\<in>set (cnf_maximalUnqualifiedSets c). hs_wf M \<and> M \<noteq> []" using spec(2) by (simp add: c(1) max)
    show "distinct (map set (cnf_maximalUnqualifiedSets c))"
      by (simp add: c(1) normaliseCNF_maximal_distinct [OF spec(1)])
  qed (use c(3) in \<open>auto simp: sh c(1) max\<close>)
qed

lemma CNF_IsQualified_auth: "CNF_IsQualified (Some c) ids \<longleftrightarrow> cnf_auth c (set ids)"
  by (simp add: CNF_IsQualified_def cnf_auth_def Let_def list_all_iff)

interpretation cnf: monotone_access CNF_wf "\<lambda>_. True" cnf_auth
  "\<lambda>c. CNF_IsQualified (Some c)" CNF_Shareholders "\<lambda>c. CNF_MaximalUnqualifiedSetsIter (Some c)"
proof
  fix c assume wf: "CNF_wf c"
  let ?U = "set (CNF_Shareholders c)" and ?M = "set ` set (cnf_maximalUnqualifiedSets c)"
  have U: "?U = \<Union> ?M" using wf by (auto simp: CNF_wf_def CNF_Shareholders_def)
  have anti: "\<And>M N. M \<in> ?M \<Longrightarrow> N \<in> ?M \<Longrightarrow> M \<subseteq> N \<Longrightarrow> M = N"
    using wf unfolding CNF_wf_def by blast
  show "set ` set (CNF_MaximalUnqualifiedSetsIter (Some c)) = {A. maximal_unqualified (cnf_auth c) ?U A}"
  proof (intro equalityI subsetI)
    fix A assume "A \<in> set ` set (CNF_MaximalUnqualifiedSetsIter (Some c))"
    then have A: "A \<in> ?M" by (simp add: CNF_MaximalUnqualifiedSetsIter_def)
    have "cnf_auth c B" if "A \<subset> B" "B \<subseteq> ?U" for B
      using anti [OF A] that unfolding cnf_auth_def CNF_Shareholders_def by blast
    with A U show "A \<in> {A. maximal_unqualified (cnf_auth c) ?U A}"
      by (auto simp: maximal_unqualified_def cnf_auth_def)
  next
    fix A assume "A \<in> {A. maximal_unqualified (cnf_auth c) ?U A}"
    then have A: "A \<subseteq> ?U" "\<not> cnf_auth c A" "\<And>B. A \<subset> B \<Longrightarrow> B \<subseteq> ?U \<Longrightarrow> cnf_auth c B"
      by (auto simp: maximal_unqualified_def)
    then obtain M where M: "M \<in> ?M" "A \<subseteq> M" by (auto simp: cnf_auth_def CNF_Shareholders_def)
    then have "\<not> cnf_auth c M" "M \<subseteq> ?U" using U by (auto simp: cnf_auth_def)
    with A(3) [of M] M have "A = M" by blast
    with M(1) show "A \<in> set ` set (CNF_MaximalUnqualifiedSetsIter (Some c))"
      by (simp add: CNF_MaximalUnqualifiedSetsIter_def)
  qed
  show "cnf_auth c B" if "cnf_auth c A" "A \<subseteq> B" "B \<subseteq> ?U" for A B
    using that unfolding cnf_auth_def CNF_Shareholders_def by blast
qed (auto simp: CNF_IsQualified_auth CNF_wf_def CNF_Shareholders_def)

section \<open>Conversion\<close>

lemma normaliseCNF_unique_ok:
  assumes "\<And>s. s \<in> set ss \<Longrightarrow> s \<noteq> [] \<and> 0 \<notin> set s"
  shows "\<exists>vs. normaliseCNF_unique (map Some ss) us = Inr vs"
  using assms by (induction ss arbitrary: us) (simp_all add: Let_def)

lemma NewCNF_ok:
  assumes "ss \<noteq> []" and "\<And>s. s \<in> set ss \<Longrightarrow> s \<noteq> [] \<and> 0 \<notin> set s"
    and "2 \<le> card (\<Union> (set ` set ss))" and "\<And>M N. M \<in> set ss \<Longrightarrow> N \<in> set ss \<Longrightarrow> set M \<subseteq> set N \<Longrightarrow> set M = set N"
  shows "\<exists>c. NewCNFAccessStructure (map Some ss) = Inr c"
proof -
  obtain us where us: "normaliseCNF_unique (map Some ss) [] = Inr us"
    using normaliseCNF_unique_ok assms(2) by blast
  have spec: "distinct (map set us)" "set ` set us = set ` set ss"
    using normaliseCNF_unique_spec [OF us] by (auto simp: image_image)
  have "\<And>A B. A \<in> set ` set us \<Longrightarrow> B \<in> set ` set us \<Longrightarrow> A \<subseteq> B \<Longrightarrow> A = B"
    unfolding spec(2) using assms(4) by blast
  then have anti: "\<And>M N. M \<in> set us \<Longrightarrow> N \<in> set us \<Longrightarrow> set M \<subseteq> set N \<Longrightarrow> set M = set N" by blast
  have "set (normaliseCNF_maximal us) = set us"
    unfolding normaliseCNF_maximal_set [OF spec(1)] using anti by blast
  then have "hs_Size (fold (\<lambda>u sh. hs_AddAll sh (hs_List u)) (normaliseCNF_maximal us) (hs_NewComparable []))
      = card (\<Union> (set ` set ss))"
    by (simp add: hs_Size_card fold_AddAll_wf fold_AddAll_set spec(2))
  with us assms(1,3) show ?thesis
    by (simp add: NewCNFAccessStructure_def normaliseCNF_def Let_def)
qed

context monotone_access
begin

text \<open>
  A structure whose maximal unqualified sets are non-empty and mention every shareholder converts
  to a CNF with the same shareholders and the same verdict on them.
\<close>

lemma ConvertToCNF_equivalent:
  assumes wf: "wf a" "feasible a" and ne: "\<And>M. M \<in> set (MaximalUnqualifiedSetsIter a) \<Longrightarrow> M \<noteq> []"
    and cover: "set (Shareholders a) = \<Union> (set ` set (MaximalUnqualifiedSetsIter a))"
    and two: "2 \<le> hs_Size (Shareholders a)"
  shows "\<exists>c. ConvertToCNF (Some (MaximalUnqualifiedSetsIter a)) = Inr c \<and> CNF_wf c
    \<and> set (cnf_shareholders c) = set (Shareholders a)
    \<and> (\<forall>ids. set ids \<subseteq> set (Shareholders a) \<longrightarrow> CNF_IsQualified (Some c) ids = IsQualified a ids)"
proof -
  let ?M = "MaximalUnqualifiedSetsIter a"
  have sh: "hs_wf (Shareholders a)" "0 \<notin> set (Shareholders a)" using shareholders_wf [OF wf(1)] by auto
  have "?M \<noteq> []" using cover two sh(1) by (auto simp: hs_Size_card)
  moreover have "0 \<notin> set M" if "M \<in> set ?M" for M
    using mus_unqualified(1) [OF wf that] sh(2) by blast
  moreover have "2 \<le> card (\<Union> (set ` set ?M))" using two sh(1) by (simp add: hs_Size_card cover)
  moreover have anti: "\<And>M N. M \<in> set ?M \<Longrightarrow> N \<in> set ?M \<Longrightarrow> set M \<subseteq> set N \<Longrightarrow> set M = set N"
    by (rule mus_antichain [OF wf])
  ultimately obtain c where c: "NewCNFAccessStructure (map Some ?M) = Inr c"
    using NewCNF_ok [of ?M] ne by blast
  have cwf: "CNF_wf c" by (rule NewCNF_wf(1) [OF c])
  have img: "(\<lambda>s. set (the s)) ` set (map Some ?M) = set ` set ?M" by (simp add: image_image)
  have "\<And>A B. A \<in> set ` set ?M \<Longrightarrow> B \<in> set ` set ?M \<Longrightarrow> A \<subseteq> B \<Longrightarrow> A = B" using anti by blast
  then have mus: "set ` set (cnf_maximalUnqualifiedSets c) = set ` set ?M"
    unfolding NewCNF_wf(3) [OF c] img by blast
  then have sh_eq: "set (cnf_shareholders c) = set (Shareholders a)"
    using cwf by (simp add: CNF_wf_def cover)
  have "cnf_auth c A \<longleftrightarrow> auth a A" if "A \<subseteq> set (Shareholders a)" for A
  proof -
    have "(\<forall>M\<in>set (cnf_maximalUnqualifiedSets c). \<not> A \<subseteq> set M) \<longleftrightarrow>
      (\<forall>B\<in>set ` set (cnf_maximalUnqualifiedSets c). \<not> A \<subseteq> B)" by simp
    also have "\<dots> \<longleftrightarrow> auth a A" by (simp add: mus auth_iff_not_covered [OF wf that])
    finally show ?thesis using that sh_eq by (simp add: cnf_auth_def)
  qed
  then show ?thesis
    using c cwf sh_eq qualified_auth [OF wf(1)] by (simp add: ConvertToCNF_def CNF_IsQualified_auth)
qed

text \<open>A shareholder who is qualified alone is in no unqualified set, and the conversion loses it.\<close>

lemma ConvertToCNF_drops:
  assumes "wf a" "feasible a" "auth a {x}"
    and "ConvertToCNF (Some (MaximalUnqualifiedSetsIter a)) = Inr c"
  shows "x \<notin> set (cnf_shareholders c)"
proof
  assume "x \<in> set (cnf_shareholders c)"
  moreover have c: "NewCNFAccessStructure (map Some (MaximalUnqualifiedSetsIter a)) = Inr c"
    using assms(4) by (simp add: ConvertToCNF_def)
  ultimately obtain M where "M \<in> set ` set (cnf_maximalUnqualifiedSets c)" "x \<in> M"
    using NewCNF_wf(1) [OF c] by (auto simp: CNF_wf_def)
  with NewCNF_wf(3) [OF c] obtain N where "N \<in> set (MaximalUnqualifiedSetsIter a)" "x \<in> set N"
    by (auto simp: image_image)
  with mus_unqualified [OF assms(1,2)] auth_mono [OF assms(1,3)] show False by blast
qed

end

lemma threshold_mus_cover:
  assumes "Threshold_wf a" "Threshold_feasible a"
  shows "set (Threshold_Shareholders a) = \<Union> (set ` set (Threshold_MaximalUnqualifiedSetsIter a))"
    and "M \<in> set (Threshold_MaximalUnqualifiedSetsIter a) \<Longrightarrow> M \<noteq> []"
proof -
  have wf: "finite (set (th_ps a))" "2 \<le> th_t a" "th_t a \<le> card (set (th_ps a))"
    using assms(1) by (auto simp: Threshold_wf_def hs_Size_card)
  have mus: "set ` set (Threshold_MaximalUnqualifiedSetsIter a) = {A. A \<subseteq> set (th_ps a) \<and> card A = th_t a - 1}"
    using threshold.mus_maximal [OF assms] wf maximal_below_threshold [of "set (th_ps a)" "th_t a"]
    by (simp add: Threshold_Shareholders_def threshold_auth_def [abs_def])
  have "\<exists>A. A \<subseteq> set (th_ps a) \<and> card A = th_t a - 1 \<and> x \<in> A" if x: "x \<in> set (th_ps a)" for x
  proof -
    have "th_t a - 2 \<le> card (set (th_ps a) - {x})" using wf x by (simp add: card_Diff_singleton_if)
    then obtain B where B: "B \<subseteq> set (th_ps a) - {x}" "card B = th_t a - 2"
      by (meson obtain_subset_with_card_n)
    then have "finite B" using wf(1) by (meson finite_Diff finite_subset)
    moreover have "x \<notin> B" using B(1) by blast
    ultimately have "card (insert x B) = th_t a - 1" using B(2) wf(2) by simp
    with B(1) x show ?thesis by (intro exI [of _ "insert x B"]) auto
  qed
  then show "set (Threshold_Shareholders a) = \<Union> (set ` set (Threshold_MaximalUnqualifiedSetsIter a))"
    unfolding mus by (auto simp: Threshold_Shareholders_def)
  show "M \<noteq> []" if "M \<in> set (Threshold_MaximalUnqualifiedSetsIter a)"
  proof
    assume "M = []"
    then have "{} \<in> set ` set (Threshold_MaximalUnqualifiedSetsIter a)" using that by force
    with wf(2) show False by (simp add: mus)
  qed
qed

text \<open>
  Converting a threshold structure to CNF keeps the policy: the conversion succeeds, the
  shareholders are the same, and \<open>IsQualified\<close> gives the same verdict on every list of
  identifiers, known or not.
\<close>

theorem Threshold_ConvertToCNF:
  assumes "Threshold_wf a" "Threshold_feasible a"
  shows "\<exists>c. ConvertToCNF (Some (Threshold_MaximalUnqualifiedSetsIter a)) = Inr c
    \<and> set (CNF_Shareholders c) = set (Threshold_Shareholders a)
    \<and> (\<forall>ids. CNF_IsQualified (Some c) ids = Threshold_IsQualified a ids)"
proof -
  have "2 \<le> hs_Size (Threshold_Shareholders a)"
    using assms(1) by (simp add: Threshold_wf_def Threshold_Shareholders_def)
  from threshold.ConvertToCNF_equivalent [OF assms threshold_mus_cover(2) [OF assms]
      threshold_mus_cover(1) [OF assms] this]
  obtain c where c: "ConvertToCNF (Some (Threshold_MaximalUnqualifiedSetsIter a)) = Inr c"
    "set (cnf_shareholders c) = set (Threshold_Shareholders a)"
    "\<forall>ids. set ids \<subseteq> set (Threshold_Shareholders a) \<longrightarrow>
      CNF_IsQualified (Some c) ids = Threshold_IsQualified a ids" by blast
  have "CNF_IsQualified (Some c) ids = Threshold_IsQualified a ids" for ids
  proof (cases "set ids \<subseteq> set (Threshold_Shareholders a)")
    case False
    then show ?thesis
      by (simp add: CNF_IsQualified_auth cnf_auth_def c(2) Threshold_IsQualified_auth
          threshold_auth_def Threshold_Shareholders_def)
  qed (use c in blast)
  with c(1,2) show ?thesis by (auto simp: CNF_Shareholders_def)
qed

theorem Threshold_ConvertToCNF_witness:
  "\<exists>c. ConvertToCNF (Some (Threshold_MaximalUnqualifiedSetsIter \<lparr>th_t = 2, th_ps = [1, 2, 3]\<rparr>)) = Inr c
    \<and> set (CNF_Shareholders c) = set (Threshold_Shareholders \<lparr>th_t = 2, th_ps = [1, 2, 3]\<rparr>)
    \<and> (\<forall>ids. CNF_IsQualified (Some c) ids = Threshold_IsQualified \<lparr>th_t = 2, th_ps = [1, 2, 3]\<rparr> ids)"
  by (rule Threshold_ConvertToCNF)
    (simp_all add: Threshold_wf_def hs_wf_def hs_Size_def Threshold_feasible_def)

section \<open>Serialisation\<close>

lemma normaliseCNF_unique_id:
  assumes "distinct (map set (us @ ss))" "\<And>s. s \<in> set ss \<Longrightarrow> s \<noteq> [] \<and> 0 \<notin> set s \<and> hs_wf s"
  shows "normaliseCNF_unique (map Some ss) us = Inr (us @ ss)"
  using assms
proof (induction ss arbitrary: us)
  case (Cons s ss)
  then have "hs_NewComparable s = s" by (simp add: hs_New_distinct hs_wf_def)
  moreover have "\<not> list_ex (hs_Equal s) us" using Cons.prems(1) by (auto simp: list_ex_iff)
  ultimately show ?case
    using Cons.IH [of "us @ [s]"] Cons.prems by (simp add: Let_def hs_List_def)
qed simp

lemma normaliseCNF_maximal_id:
  assumes "distinct (map set us)" "\<And>M N. M \<in> set us \<Longrightarrow> N \<in> set us \<Longrightarrow> set M \<subseteq> set N \<Longrightarrow> set M = set N"
  shows "normaliseCNF_maximal us = us"
proof -
  have "i = j" if "i < length us" "j < length us" "set (us ! i) \<subseteq> set (us ! j)" for i j
    using assms(2) [of "us ! i" "us ! j"] that assms(1) by (metis length_map nth_eq_iff_index_eq nth_map nth_mem)
  then have "filter (\<lambda>i. list_all (\<lambda>j. i = j \<or> \<not> hs_IsSubSet (us ! i) (us ! j)) [0..<length us]) [0..<length us]
      = [0..<length us]"
    by (intro filter_True) (auto simp: list_all_iff)
  then show ?thesis by (simp only: normaliseCNF_maximal_def map_nth)
qed

text \<open>
  A CNF structure survives serialisation: decoding what \<open>MarshalCBOR\<close> wrote succeeds and gives
  back the maximal unqualified sets in the same order and the same verdicts, although the
  constructor called by \<open>UnmarshalCBOR\<close> normalises its input again and ignores the shareholders on
  the wire.
\<close>

theorem CNF_CBOR_roundtrip:
  assumes "\<And>d. \<exists>b. enc d = Inr b \<and> dec b = Inr d" and "CNF_wf c"
  shows "\<exists>b c'. CNF_MarshalCBOR enc c = Inr b \<and> CNF_UnmarshalCBOR dec b = Inr c'
    \<and> cnf_maximalUnqualifiedSets c' = cnf_maximalUnqualifiedSets c
    \<and> set (cnf_shareholders c') = set (cnf_shareholders c)
    \<and> (\<forall>ids. CNF_IsQualified (Some c') ids = CNF_IsQualified (Some c) ids)"
proof -
  let ?M = "cnf_maximalUnqualifiedSets c"
  have wf: "\<And>M. M \<in> set ?M \<Longrightarrow> hs_wf M \<and> M \<noteq> [] \<and> 0 \<notin> set M" "distinct (map set ?M)"
    "set (cnf_shareholders c) = \<Union> (set ` set ?M)" "2 \<le> card (set (cnf_shareholders c))"
    "\<And>M N. M \<in> set ?M \<Longrightarrow> N \<in> set ?M \<Longrightarrow> set M \<subseteq> set N \<Longrightarrow> set M = set N"
    using assms(2) unfolding CNF_wf_def by (auto simp: hs_Size_card)
  have ne: "?M \<noteq> []" using wf(3,4) by auto
  let ?d = "\<lparr>dto_Shareholders = flag_map (hs_List (cnf_shareholders c)),
      dto_MaximalUnqualifiedSets = map (\<lambda>u. flag_map (hs_List u)) ?M\<rparr>"
  obtain b where b: "enc ?d = Inr b" "dec b = Inr ?d" using assms(1) by blast
  have again: "hs_AddAll (hs_NewComparable []) (map fst (flag_map (hs_List u))) = u" if "u \<in> set ?M" for u
    using wf(1) [OF that] hs_New_distinct [of u]
    by (simp add: flag_map_keys hs_List_def hs_wf_def hs_NewComparable_def) (simp add: hs_AddAll_def)
  let ?sh = "fold (\<lambda>u sh. hs_AddAll sh (hs_List u)) ?M (hs_NewComparable [])"
  have "normaliseCNF (map Some ?M) = Inr ?M"
    using ne wf normaliseCNF_unique_id [of "[]" ?M] normaliseCNF_maximal_id [OF wf(2,5)]
    by (simp add: normaliseCNF_def)
  moreover have sh: "set ?sh = set (cnf_shareholders c)" by (simp add: fold_AddAll_set wf(3))
  moreover from this have "\<not> hs_Size ?sh < 2" using wf(4) by (simp add: hs_Size_card fold_AddAll_wf)
  ultimately have "NewCNFAccessStructure (map Some ?M) =
      Inr \<lparr>cnf_shareholders = ?sh, cnf_maximalUnqualifiedSets = ?M\<rparr>"
    by (simp add: NewCNFAccessStructure_def Let_def)
  then have "CNF_UnmarshalCBOR dec b = Inr \<lparr>cnf_shareholders = ?sh, cnf_maximalUnqualifiedSets = ?M\<rparr>"
    by (simp add: CNF_UnmarshalCBOR_def b again cong: map_cong)
  then show ?thesis using b(1) sh by (simp add: CNF_MarshalCBOR_def CNF_IsQualified_auth cnf_auth_def)
qed

theorem CNF_CBOR_roundtrip_witness:
  "\<exists>b c'. CNF_MarshalCBOR Inr \<lparr>cnf_shareholders = [1, 2, 3], cnf_maximalUnqualifiedSets = [[1, 2], [3]]\<rparr> = Inr b
    \<and> CNF_UnmarshalCBOR Inr b = Inr c'
    \<and> cnf_maximalUnqualifiedSets c' = [[1, 2], [3]]"
  using CNF_CBOR_roundtrip [of Inr Inr
      "\<lparr>cnf_shareholders = [1, 2, 3], cnf_maximalUnqualifiedSets = [[1, 2], [3]]\<rparr>"]
  by (auto simp: CNF_wf_def hs_wf_def hs_Size_def)

end
