(* ===== verification/InducedMSP.thy ===== *)
theory InducedMSP
  imports Interpolation MSP CNF
begin

text \<open>
  The span programmes of the access structures: the Vandermonde programme of a threshold structure, the
  additive programme of a unanimity structure and the clause-by-clause programme of a CNF structure (the
  functions \<open>InducedMSP\<close> of the packages \<open>threshold\<close>, \<open>unanimity\<close> and \<open>cnf\<close>). Each realises its policy; the
  interface \<open>linear_access\<close> states this contract for the schemes built on it.
\<close>

section \<open>Constructions\<close>

text \<open>The loop \<open>rowsToHolders[i] = id\<close> over a slice of identifiers.\<close>

definition label_rows :: "ID list \<Rightarrow> (int \<times> ID) list" where
  "label_rows ids = zip (map int [0..<length ids]) ids"

text \<open>\<open>FromUint64\<close> of a prime field: the sum of as many ones as the identifier says.\<close>

definition FromUint64 :: "ID \<Rightarrow> 'a::field" where
  "FromUint64 uid = of_nat (unat uid)"

definition Threshold_InducedMSP :: "'f option \<Rightarrow> Threshold option \<Rightarrow> ('a::field) MSP res" where
  "Threshold_InducedMSP f ac =
     (if f = None then Inl ErrIsNil
      else case ac of
        None \<Rightarrow> Inl ErrIsNil
      | Some ac \<Rightarrow>
          (let shareHolders = sort (hs_List (Threshold_Shareholders ac));
               nodes = map FromUint64 shareHolders in
           rbind (BuildVandermondeMatrix nodes (th_t ac)) (\<lambda>m.
             NewMSP (Some m) (Some (label_rows shareHolders)))))"

definition Unanimity_InducedMSP :: "'f option \<Rightarrow> Unanimity option \<Rightarrow> ('a::field) MSP res" where
  "Unanimity_InducedMSP f ac =
     (if f = None then Inl ErrIsNil
      else case ac of
        None \<Rightarrow> Inl ErrIsNil
      | Some ac \<Rightarrow>
          (let shareholders = sort (hs_List (Unanimity_Shareholders ac)); n = length shareholders in
           rbind (NewMatrixModule n n f) (\<lambda>mm.
             (let values = replicate (n * n) 0;
                  values = fold (\<lambda>row v. v[row * n + row + 1 := 1]) [0..<n - 1] values;
                  values = values[(n - 1) * n := 1];
                  values = fold (\<lambda>col v. v[(n - 1) * n + col := -1]) [1..<n] values in
              rbind (mod_NewRowMajor mm values) (\<lambda>m.
                NewMSP (Some m) (Some (label_rows shareholders)))))))"

text \<open>
  CNF: the sets are sorted by their bit mask. The comparison panics on an identifier that does not fit the
  mask, and it runs as soon as there are two sets.
\<close>

definition bitset_key :: "ID hset \<Rightarrow> 64 word" where
  "bitset_key s = (case NewBitSet (hs_List s) of Inl _ \<Rightarrow> 0 | Inr b \<Rightarrow> b)"

definition sort_MUS :: "ID hset list \<Rightarrow> ID hset list res" where
  "sort_MUS mus =
     (if length mus > 1 \<and> list_ex (\<lambda>s. \<not> is_ok (NewBitSet (hs_List s))) mus then Inl Panic
      else Inr (sort_key bitset_key mus))"

text \<open>The clause vectors: unit vectors for all clauses but the last, which gets the first unit minus the others.\<close>

definition clause_vectors :: "MatrixModule \<Rightarrow> nat \<Rightarrow> ('a::field) Matrix list res" where
  "clause_vectors mm m =
     rbind (NewStandardUnit mm 0) (\<lambda>last0.
       rbind (FoldOrError (\<lambda>(vs, lastv) i.
           rbind (NewStandardUnit mm (int i + 1)) (\<lambda>u.
             rbind (mat_SubAssign lastv u) (\<lambda>lastv. Inr (vs @ [u], lastv))))
           ([], last0) [0..<m - 1]) (\<lambda>(vs, lastv). Inr (vs @ [lastv])))"

definition CNF_InducedMSP :: "'f option \<Rightarrow> CNF option \<Rightarrow> ('a::field) MSP res" where
  "CNF_InducedMSP f c =
     (if f = None then Inl ErrIsNil
      else case c of
        None \<Rightarrow> Inl ErrIsNil
      | Some c \<Rightarrow>
          if length (cnf_maximalUnqualifiedSets c) = 0 then Inl ErrValue
          else rbind (sort_MUS (cnf_maximalUnqualifiedSets c)) (\<lambda>sortedMUS.
            (let m = length sortedMUS;
                 clauses = map (\<lambda>bi. hs_Difference (cnf_shareholders c) bi) sortedMUS;
                 totalRows = fold (\<lambda>cl t. t + hs_Size cl) clauses 0 in
             rbind (NewMatrixModule totalRows m f) (\<lambda>matrixFactory.
             rbind (clause_vectors matrixFactory m) (\<lambda>clauseVectors.
               (let members = (\<lambda>i. sort (hs_List (clauses ! i)));
                    rows = concat (map (\<lambda>i. concat (map (\<lambda>_. mat_Iter (clauseVectors ! i)) (members i))) [0..<m]);
                    labels = concat (map members [0..<m]) in
                rbind (mod_NewRowMajor matrixFactory rows) (\<lambda>mx.
                  NewMSP (Some mx) (Some (label_rows labels)))))))))"

section \<open>Labelled matrices\<close>

lemma label_rows_map_of: "i < length ids \<Longrightarrow> map_of (label_rows ids) (int i) = Some (ids ! i)"
proof -
  assume "i < length ids"
  then have "(int i, ids ! i) \<in> set (label_rows ids)"
    by (auto simp: label_rows_def set_zip intro: exI [of _ i])
  moreover have "distinct (map fst (label_rows ids))" by (simp add: label_rows_def distinct_map)
  ultimately show ?thesis by simp
qed

lemma NewMSP_label_rows:
  assumes "mat_wf M" "length ids = mrows M" "0 \<notin> set ids"
  obtains m where "NewMSP (Some M) (Some (label_rows ids)) = Inr m" "msp_wf m" "msp_matrix m = M"
    "\<And>i. i < mrows M \<Longrightarrow> row_label m i = ids ! i" "msp_holders m = set ids"
proof -
  let ?r = "label_rows ids"
  have d: "distinct (map fst ?r)" by (simp add: label_rows_def distinct_map)
  have "\<not> list_ex (\<lambda>i. map_of ?r (int i) = None) [0..<mrows M]"
    using assms(2) by (auto simp: list_ex_iff label_rows_map_of)
  moreover have "\<not> list_ex (\<lambda>(k, v). k < 0 \<or> k \<ge> int (mrows M) \<or> v = 0) ?r"
    using assms(2,3) by (auto simp: list_ex_iff label_rows_def set_zip) (metis nth_mem)
  ultimately obtain m where m: "NewMSP (Some M) (Some ?r) = Inr m" by (simp add: NewMSP_def)
  note wf = NewMSP_wf [OF m assms(1) d]
  have lab: "row_label m i = ids ! i" if "i < mrows M" for i
    using that assms(2) by (simp add: row_label_def wf label_rows_map_of)
  have "msp_holders m = (!) ids ` {..<mrows M}" using lab by (auto simp: msp_holders_def wf)
  also have "\<dots> = set ids" using assms(2) by (auto simp: set_conv_nth)
  finally show thesis using that [OF m wf(1,2)] lab by (simp add: wf)
qed

section \<open>The contract\<close>

text \<open>
  A linear structure: a monotone structure with a span programme whose holders are the shareholders and that
  accepts exactly the authorised coalitions. \<open>admissible\<close> is what the construction needs of the field and of
  the identifiers.
\<close>

locale linear_access = monotone_access wf feasible auth IsQualified Shareholders MaximalUnqualifiedSetsIter
  for wf :: "'ac \<Rightarrow> bool" and feasible :: "'ac \<Rightarrow> bool" and auth :: "'ac \<Rightarrow> ID set \<Rightarrow> bool"
    and IsQualified :: "'ac \<Rightarrow> ID list \<Rightarrow> bool" and Shareholders :: "'ac \<Rightarrow> ID hset"
    and MaximalUnqualifiedSetsIter :: "'ac \<Rightarrow> ID hset list" +
  fixes admissible :: "'ac \<Rightarrow> bool"
    and Induced :: "'ac \<Rightarrow> ('a::field) MSP res"
  assumes induced: "wf a \<Longrightarrow> admissible a \<Longrightarrow> \<exists>m. Induced a = Inr m \<and> msp_wf m \<and>
      msp_holders m = set (Shareholders a) \<and> 2 \<le> mcols (msp_matrix m) \<and>
      (\<forall>A. A \<noteq> {} \<longrightarrow> A \<subseteq> set (Shareholders a) \<longrightarrow> spans m A = auth a A)"
    and auth_shareholders: "wf a \<Longrightarrow> auth a A \<Longrightarrow> A \<subseteq> set (Shareholders a) \<and> A \<noteq> {}"
begin

lemma induced_accepts:
  assumes "wf a" "admissible a"
  obtains m where "Induced a = Inr m" "msp_wf m" "msp_holders m = set (Shareholders a)"
    "2 \<le> mcols (msp_matrix m)" "\<And>ids. Accepts m ids = IsQualified a ids"
proof -
  from induced [OF assms] obtain m where m: "Induced a = Inr m" "msp_wf m" "msp_holders m = set (Shareholders a)"
    "2 \<le> mcols (msp_matrix m)" "\<forall>A. A \<noteq> {} \<longrightarrow> A \<subseteq> set (Shareholders a) \<longrightarrow> spans m A = auth a A" by auto
  have "Accepts m ids = IsQualified a ids" for ids
    using auth_shareholders [OF assms(1), of "set ids"] m(5) [rule_format, of "set ids"]
    by (auto simp: Accepts_iff [OF m(2)] m(3) qualified_auth [OF assms(1)])
  with m that show thesis by blast
qed

end

section \<open>Threshold\<close>

definition nodes_admissible :: "'a::field itself \<Rightarrow> ID set \<Rightarrow> bool" where
  "nodes_admissible _ U \<longleftrightarrow> inj_on (FromUint64 :: ID \<Rightarrow> 'a) U \<and> (0 :: 'a) \<notin> FromUint64 ` U"

lemma vandermonde_spans:
  fixes m :: "'a::field MSP"
  assumes wf: "msp_wf m" and A: "A \<subseteq> msp_holders m"
    and ent: "\<And>i c. i < mrows (msp_matrix m) \<Longrightarrow> c < mcols (msp_matrix m) \<Longrightarrow>
      ent (msp_matrix m) i c = FromUint64 (row_label m i) ^ c"
    and adm: "nodes_admissible TYPE('a) (msp_holders m)"
  shows "spans m A \<longleftrightarrow> mcols (msp_matrix m) \<le> card A"
proof -
  let ?t = "mcols (msp_matrix m)" and ?x = "FromUint64 :: ID \<Rightarrow> 'a"
  have fin: "finite A" using A finite_subset by (auto simp: msp_holders_def)
  have inj: "inj_on ?x A" and nz: "0 \<notin> ?x ` A" using adm A by (auto simp: nodes_admissible_def intro: inj_on_subset)
  have pos: "0 < ?t" using wf by (simp add: msp_wf_def mat_wf_def)
  have at0: "(\<Sum>c<?t. w c * 0 ^ c) = w 0" for w :: "nat \<Rightarrow> 'a"
    using pos by (subst sum_single [of 0]) auto
  have row: "(\<Sum>c<?t. ent (msp_matrix m) i c * w c) = (\<Sum>c<?t. w c * ?x (row_label m i) ^ c)"
    if "i \<in> set (rows_for m A)" for i w
    using rows_for_less [OF that] by (simp add: ent mult.commute)
  show ?thesis
  proof
    assume sp: "spans m A"
    show "?t \<le> card A"
    proof (rule ccontr)
      assume "\<not> ?t \<le> card A"
      then have le: "Suc (card A) \<le> ?t" by simp
      obtain c where c: "\<And>y. (\<Prod>a\<in>A. y - ?x a) = (\<Sum>k<?t. c k * y ^ k)"
        using polyrep_mono [OF polyrep_prod [OF fin, of ?x] le] by (auto simp: polyrep_def)
      have c0: "c 0 \<noteq> 0" using c [of 0] at0 [of c] nz fin by auto
      have "(\<Sum>k<?t. ent (msp_matrix m) i k * (c k / c 0)) = 0" if "i \<in> set (rows_for m A)" for i
      proof -
        have "(\<Sum>k<?t. ent (msp_matrix m) i k * (c k / c 0)) = (\<Sum>k<?t. ent (msp_matrix m) i k * c k) / c 0"
          by (simp add: sum_divide_distrib)
        also have "(\<Sum>k<?t. ent (msp_matrix m) i k * c k) = (\<Prod>a\<in>A. ?x (row_label m i) - ?x a)"
          using row [OF that, of c] c by simp
        also have "\<dots> = 0" using that fin by (auto simp: rows_for_def)
        finally show ?thesis by simp
      qed
      with spans_dual [OF wf, of "\<lambda>k. c k / c 0" A] c0 sp show False by simp
    qed
  next
    assume le: "?t \<le> card A"
    show "spans m A"
    proof (rule ccontr)
      assume ns: "\<not> spans m A"
      have "A \<noteq> {}" using le pos by auto
      obtain w where w: "w 0 = 1"
        "\<And>i. i \<in> set (rows_for m A) \<Longrightarrow> (\<Sum>c<?t. ent (msp_matrix m) i c * w c) = 0"
        by (rule not_spans_dual [OF wf ns \<open>A \<noteq> {}\<close> A fin]) blast
      let ?f = "\<lambda>y. \<Sum>c<?t. w c * y ^ c"
      have rep: "polyrep ?t ?f" unfolding polyrep_def by blast
      have roots: "?f y = 0" if y: "y \<in> ?x ` A" for y
      proof -
        from y A obtain i where i: "i < mrows (msp_matrix m)" "y = ?x (row_label m i)" "row_label m i \<in> A"
          by (auto simp: msp_holders_def)
        then have "i \<in> set (rows_for m A)" by (simp add: rows_for_def)
        from w(2) [OF this] row [OF this, of w] i(2) show ?thesis by simp
      qed
      have "?t \<le> card (?x ` A)" using le inj by (simp add: card_image)
      from polyrep_roots [OF rep finite_imageI [OF fin] this roots] have "?f 0 = 0" .
      with at0 [of w] w(1) show False by simp
    qed
  qed
qed

lemma Threshold_InducedMSP_matrix:
  fixes f :: "'f option"
  assumes "f \<noteq> None" "Threshold_wf a"
  obtains m where "(Threshold_InducedMSP f (Some a) :: 'a::field MSP res) = Inr m" "msp_wf m"
    "msp_holders m = set (th_ps a)" "mcols (msp_matrix m) = th_t a" "mrows (msp_matrix m) = length (th_ps a)"
    "\<And>i. i < mrows (msp_matrix m) \<Longrightarrow> row_label m i = sort (th_ps a) ! i"
    "\<And>i c. i < mrows (msp_matrix m) \<Longrightarrow> c < mcols (msp_matrix m) \<Longrightarrow> ent (msp_matrix m) i c = FromUint64 (row_label m i) ^ c"
proof -
  let ?ids = "sort (th_ps a)" and ?nodes = "map FromUint64 (sort (th_ps a)) :: 'a list"
  have t: "0 < th_t a" "th_ps a \<noteq> []" "0 \<notin> set (th_ps a)" using assms(2) by (auto simp: Threshold_wf_def hs_Size_def)
  have ne: "?nodes \<noteq> []" using t(2) by simp
  obtain v where v: "BuildVandermondeMatrix ?nodes (th_t a) = Inr v" "mat_wf v" "mrows v = length ?nodes" "mcols v = th_t a"
    "\<And>r c. r < length ?nodes \<Longrightarrow> c < th_t a \<Longrightarrow> ent v r c = ?nodes ! r ^ c"
    by (rule BuildVandermonde_ok [OF ne t(1)]) (rule that, blast+)
  obtain m where m: "NewMSP (Some v) (Some (label_rows ?ids)) = Inr m" "msp_wf m" "msp_matrix m = v"
    "\<And>i. i < mrows v \<Longrightarrow> row_label m i = ?ids ! i" "msp_holders m = set ?ids"
    by (rule NewMSP_label_rows [OF v(2), of ?ids]) (use v t in \<open>auto intro: that\<close>)
  have "(Threshold_InducedMSP f (Some a) :: 'a MSP res) = Inr m"
    using assms(1) v(1) m(1) by (simp add: Threshold_InducedMSP_def Threshold_Shareholders_def hs_List_def Let_def)
  then show thesis by (rule that) (use v m in simp_all)
qed

text \<open>Distinct labels give every holder one row.\<close>

lemma one_row_each:
  assumes "mrows (msp_matrix m) = length ls" "\<And>k. k < length ls \<Longrightarrow> row_label m k = ls ! k" "distinct ls"
  shows "length (rows_for m {i}) = (if i \<in> set ls then 1 else 0)"
proof (cases "i \<in> set ls")
  case True
  then obtain k where k: "k < length ls" "ls ! k = i" by (auto simp: in_set_conv_nth)
  have "set (rows_for m {i}) = {k}" using k assms nth_eq_iff_index_eq [OF assms(3)] by (auto simp: rows_for_def)
  moreover have "distinct (rows_for m {i})" by (simp add: rows_for_def)
  ultimately show ?thesis using True distinct_card [of "rows_for m {i}"] by simp
next
  case False
  have "rows_for m {i} = []" using False assms(1,2) by (auto simp: rows_for_def filter_empty_conv)
  with False show ?thesis by simp
qed

lemma Threshold_InducedMSP_spec:
  fixes f :: "'f option"
  assumes "f \<noteq> None" "Threshold_wf a" "nodes_admissible TYPE('a) (set (th_ps a))"
  shows "\<exists>m. (Threshold_InducedMSP f (Some a) :: 'a::field MSP res) = Inr m \<and> msp_wf m \<and>
    msp_holders m = set (th_ps a) \<and> mcols (msp_matrix m) = th_t a \<and>
    (\<forall>A. A \<subseteq> set (th_ps a) \<longrightarrow> spans m A = threshold_auth a A)"
proof -
  obtain m where m: "(Threshold_InducedMSP f (Some a) :: 'a MSP res) = Inr m" "msp_wf m"
    "msp_holders m = set (th_ps a)" "mcols (msp_matrix m) = th_t a"
    "\<And>i c. i < mrows (msp_matrix m) \<Longrightarrow> c < mcols (msp_matrix m) \<Longrightarrow> ent (msp_matrix m) i c = FromUint64 (row_label m i) ^ c"
    by (rule Threshold_InducedMSP_matrix [OF assms(1,2)]) (rule that, blast+)
  have "spans m A = threshold_auth a A" if "A \<subseteq> set (th_ps a)" for A
    using vandermonde_spans [OF m(2), of A] that assms(3) m(3-5) by (simp add: threshold_auth_def)
  with m(1-4) show ?thesis by blast
qed

section \<open>Blocks\<close>

text \<open>
  Unanimity and CNF share one shape: row \<open>i\<close> carries the vector of its block, the unit vector \<open>b + 1\<close> for
  block \<open>b\<close>, and for the last block the first unit vector minus all the others. The target is spanned exactly
  by the coalitions that own a row of every block.
\<close>

definition block_vec :: "nat \<Rightarrow> nat \<Rightarrow> nat \<Rightarrow> 'a::field" where
  "block_vec d b c =
     (if b < d - 1 then if c = b + 1 then 1 else 0 else if c = 0 then 1 else -1)"

lemma block_vec_sum:
  assumes "0 < d" "c < d"
  shows "(\<Sum>b<d. block_vec d b c) = (if c = 0 then 1 else 0)"
proof (cases d)
  case (Suc n)
  have "(\<Sum>b<n. block_vec d b c) = (if c = 0 then 0 else 1 :: 'a)"
  proof (cases c)
    case 0
    then show ?thesis by (simp add: block_vec_def Suc)
  next
    case (Suc c')
    then show ?thesis
      using assms \<open>d = Suc n\<close> by (subst sum_single [of c']) (auto simp: block_vec_def)
  qed
  then show ?thesis by (simp add: Suc block_vec_def)
qed (use assms in simp)

lemma block_spans:
  fixes m :: "'a::field MSP"
  assumes wf: "msp_wf m"
    and ent: "\<And>i c. i < mrows (msp_matrix m) \<Longrightarrow> c < mcols (msp_matrix m) \<Longrightarrow>
      ent (msp_matrix m) i c = block_vec (mcols (msp_matrix m)) (blk i) c"
    and blk: "\<And>i. i < mrows (msp_matrix m) \<Longrightarrow> blk i < mcols (msp_matrix m)"
  shows "spans m A \<longleftrightarrow> (\<forall>b<mcols (msp_matrix m). \<exists>i\<in>set (rows_for m A). blk i = b)"
proof -
  let ?M = "msp_matrix m" and ?d = "mcols (msp_matrix m)" and ?R = "set (rows_for m A)"
  have pos: "0 < ?d" using wf by (simp add: msp_wf_def mat_wf_def)
  note row = ent [OF rows_for_less]
  show ?thesis
  proof
    assume sp: "spans m A"
    show "\<forall>b<?d. \<exists>i\<in>?R. blk i = b"
    proof (rule ccontr)
      assume "\<not> (\<forall>b<?d. \<exists>i\<in>?R. blk i = b)"
      then obtain b where b: "b < ?d" "\<And>i. i \<in> ?R \<Longrightarrow> blk i \<noteq> b" by blast
      define w :: "nat \<Rightarrow> 'a" where "w c = (if c = 0 \<or> c = b + 1 \<and> b < ?d - 1 then 1 else 0)" for c
      have "(\<Sum>c<?d. ent ?M i c * w c) = 0" if i: "i \<in> ?R" for i
      proof (cases "blk i < ?d - 1")
        case True
        then show ?thesis
          using row [OF i] b(2) [OF i] by (intro sum.neutral) (auto simp: block_vec_def w_def)
      next
        case False
        then have "blk i = ?d - 1" using blk [OF rows_for_less [OF i]] by simp
        then have lt: "b < ?d - 1" using b(1) b(2) [OF i] by simp
        have "(\<Sum>c<?d. ent ?M i c * w c) = (\<Sum>c\<in>{0, b + 1}. ent ?M i c * w c)"
          using lt pos by (intro sum.mono_neutral_right) (auto simp: w_def)
        also have "\<dots> = 0" using row [OF i] False lt pos by (simp add: block_vec_def w_def)
        finally show ?thesis .
      qed
      with spans_dual [OF wf, of w A] sp show False by (simp add: w_def)
    qed
  next
    assume hit: "\<forall>b<?d. \<exists>i\<in>?R. blk i = b"
    then obtain r where r: "\<And>b. b < ?d \<Longrightarrow> r b \<in> ?R" "\<And>b. b < ?d \<Longrightarrow> blk (r b) = b" by metis
    have inj: "inj_on r {..<?d}" using r(2) by (metis inj_onI lessThan_iff)
    have "(\<Sum>i\<in>?R. (if i \<in> r ` {..<?d} then 1 else 0) * ent ?M i c) = (if c = 0 then 1 else 0)" if c: "c < ?d" for c
    proof -
      have "(\<Sum>i\<in>?R. (if i \<in> r ` {..<?d} then 1 else 0) * ent ?M i c) = (\<Sum>i\<in>r ` {..<?d}. ent ?M i c)"
        using r(1) by (intro sum.mono_neutral_cong_right) auto
      also have "\<dots> = (\<Sum>b<?d. ent ?M (r b) c)" by (simp add: sum.reindex [OF inj])
      also have "\<dots> = (\<Sum>b<?d. block_vec ?d b c)" using row [OF r(1)] r(2) c by (intro sum.cong) auto
      finally show ?thesis using block_vec_sum [OF pos c] by simp
    qed
    then show "spans m A"
      unfolding spans_def by (intro exI [of _ "\<lambda>i. if i \<in> r ` {..<?d} then 1 else 0"] allI impI)
  qed
qed

section \<open>Unanimity\<close>

lemma fold_const_update:
  "k < length v \<Longrightarrow> fold (\<lambda>r v. v[g r := h]) xs v ! k = (if k \<in> g ` set xs then h else v ! k)"
  by (induction xs arbitrary: v) (auto simp: nth_list_update)

lemma unanimity_values:
  assumes "i < n" "c < n"
  defines "v1 \<equiv> fold (\<lambda>row v. v[row * n + row + 1 := 1 :: 'a::field]) [0..<n - 1] (replicate (n * n) 0)"
  shows "fold (\<lambda>col v. v[(n - 1) * n + col := -1]) [1..<n] (v1[(n - 1) * n := 1]) ! (i * n + c) = block_vec n i c"
proof -
  have lt: "i * n + c < n * n" by (rule flat_less [OF assms(1,2)])
  have len: "length v1 = n * n" by (simp add: v1_def)
  have last: "i * n + c \<in> (\<lambda>col. (n - 1) * n + col) ` set [1..<n] \<longleftrightarrow> i = n - 1 \<and> 1 \<le> c"
    unfolding image_iff Bex_def using flat_eq_iff [OF assms(2), of _ i "n - 1"] assms(2) by auto
  have first: "i * n + c = (n - 1) * n \<longleftrightarrow> i = n - 1 \<and> c = 0"
    using flat_eq_iff [of c n 0 i "n - 1"] assms(1,2) by auto
  have diag: "i * n + c \<in> (\<lambda>row. row * n + row + 1) ` set [0..<n - 1] \<longleftrightarrow> i < n - 1 \<and> c = i + 1"
  proof -
    have "i * n + c = row * n + row + 1 \<longleftrightarrow> i = row \<and> c = row + 1" if "row < n - 1" for row
      using flat_eq_iff [of c n "row + 1" i row] that assms(2) by simp
    then show ?thesis by (auto simp: image_iff)
  qed
  have "v1 ! (i * n + c) = (if i < n - 1 \<and> c = i + 1 then 1 else 0)"
    unfolding v1_def using lt diag by (simp add: fold_const_update)
  moreover have cell1: "v1[(n - 1) * n := 1] ! (i * n + c) = (if i = n - 1 \<and> c = 0 then 1 else v1 ! (i * n + c))"
  proof (cases "i * n + c = (n - 1) * n")
    case True
    with first lt len show ?thesis by (metis nth_list_update_eq)
  next
    case False
    with first show ?thesis by (metis nth_list_update_neq)
  qed
  moreover have "fold (\<lambda>col v. v[(n - 1) * n + col := -1]) [1..<n] (v1[(n - 1) * n := 1]) ! (i * n + c) =
      (if i = n - 1 \<and> 1 \<le> c then -1 else if i = n - 1 \<and> c = 0 then 1 else v1 ! (i * n + c))"
    unfolding fold_const_update [of "i * n + c" "v1[(n - 1) * n := 1]", unfolded length_list_update len, OF lt] last
    by (simp only: cell1)
  moreover have "i < n - 1 \<longleftrightarrow> i \<noteq> n - 1" using assms(1) by linarith
  ultimately show ?thesis by (auto simp: block_vec_def)
qed

lemma Unanimity_InducedMSP_spec:
  fixes f :: "'f option"
  assumes "f \<noteq> None" "Unanimity_wf u"
  shows "\<exists>m. (Unanimity_InducedMSP f (Some u) :: 'a::field MSP res) = Inr m \<and> msp_wf m \<and>
    msp_holders m = set (un_ps u) \<and> mcols (msp_matrix m) = length (un_ps u) \<and>
    (\<forall>A. A \<subseteq> set (un_ps u) \<longrightarrow> spans m A = unanimity_auth u A)"
proof -
  let ?ids = "sort (un_ps u)" and ?n = "length (un_ps u)"
  define v where "v = fold (\<lambda>col v. v[(?n - 1) * ?n + col := -1]) [1..<?n]
    ((fold (\<lambda>row v. v[row * ?n + row + 1 := 1 :: 'a]) [0..<?n - 1] (replicate (?n * ?n) 0))[(?n - 1) * ?n := 1])"
  have len: "length v = ?n * ?n" by (simp add: v_def)
  have val: "v ! (i * ?n + c) = block_vec ?n i c" if "i < ?n" "c < ?n" for i c
    unfolding v_def using that by (rule unanimity_values)
  let ?M = "\<lparr>mrows = ?n, mcols = ?n, mdata = v\<rparr>"
  have n: "0 < ?n" "0 \<notin> set ?ids" "distinct ?ids" using assms(2) by (auto simp: Unanimity_wf_def hs_Size_def hs_wf_def)
  have M: "mat_wf ?M" using n len by (simp add: mat_wf_def)
  obtain m where m: "NewMSP (Some ?M) (Some (label_rows ?ids)) = Inr m" "msp_wf m" "msp_matrix m = ?M"
    "\<And>i. i < mrows ?M \<Longrightarrow> row_label m i = ?ids ! i" "msp_holders m = set ?ids"
    by (rule NewMSP_label_rows [OF M, of ?ids]) (use n in \<open>auto intro: that\<close>)
  have "spans m A = unanimity_auth u A" if A: "A \<subseteq> set (un_ps u)" for A
  proof -
    have ent: "ent (msp_matrix m) i c = block_vec (mcols (msp_matrix m)) i c"
      if "i < mrows (msp_matrix m)" "c < mcols (msp_matrix m)" for i c
      using that val by (simp add: m(3) ent_def mat_idx_def)
    have "spans m A \<longleftrightarrow> (\<forall>b<?n. \<exists>i\<in>set (rows_for m A). i = b)"
      using block_spans [OF m(2), of "\<lambda>i. i" A, OF ent] m(3) by simp
    also have "\<dots> \<longleftrightarrow> (\<forall>b<?n. ?ids ! b \<in> A)" using m(3,4) by (auto simp: rows_for_def)
    also have "\<dots> \<longleftrightarrow> set ?ids \<subseteq> A" by (force simp: set_conv_nth simp del: set_sort)
    finally show ?thesis using A by (auto simp: unanimity_auth_def)
  qed
  moreover have "(Unanimity_InducedMSP f (Some u) :: 'a MSP res) = Inr m"
    using assms(1) n m(1) len
    by (simp add: Unanimity_InducedMSP_def Unanimity_Shareholders_def hs_List_def Let_def NewMatrixModule_def
        mod_NewRowMajor_def v_def)
  ultimately show ?thesis using m by auto
qed

section \<open>CNF\<close>

lemma clause_vectors_loop:
  fixes d :: nat
  assumes "n < d"
  defines "unit \<equiv> \<lambda>i. \<lparr>mrows = 1, mcols = d, mdata = (replicate d 0)[i := 1 :: 'a::field]\<rparr>"
  shows "FoldOrError (\<lambda>(vs, lastv) i.
      rbind (NewStandardUnit \<lparr>modrows = r, modcols = d\<rparr> (int i + 1)) (\<lambda>u.
        rbind (mat_SubAssign lastv u) (\<lambda>lastv. Inr (vs @ [u], lastv)))) ([], unit 0) [0..<n] =
    Inr (map (\<lambda>i. unit (i + 1)) [0..<n], \<lparr>mrows = 1, mcols = d,
      mdata = map (\<lambda>c. if c = 0 then 1 else if c \<le> n then -1 else 0) [0..<d]\<rparr>)"
  using assms(1)
proof (induction n)
  case 0
  then show ?case by (auto simp: unit_def intro!: nth_equalityI simp: nth_list_update)
next
  case (Suc n)
  let ?l = "\<lambda>n. \<lparr>mrows = 1, mcols = d, mdata = map (\<lambda>c. if c = 0 then 1 else if c \<le> n then -1 else 0 :: 'a) [0..<d]\<rparr>"
  have u: "NewStandardUnit \<lparr>modrows = r, modcols = d\<rparr> (int n + 1) = Inr (unit (n + 1))"
    using Suc.prems by (simp add: NewStandardUnit_def unit_def nat_add_distrib)
  have "mat_SubAssign (?l n) (unit (n + 1)) = Inr (?l (Suc n))"
    using Suc.prems by (auto simp: mat_SubAssign_def unit_def zip_assign_def nth_list_update intro!: nth_equalityI)
  with Suc u show ?case by (simp add: FoldOrError_append)
qed

lemma clause_vectors_ok:
  assumes "0 < m"
  obtains vs :: "'a::field Matrix list" where "clause_vectors \<lparr>modrows = r, modcols = m\<rparr> m = Inr vs" "length vs = m"
    "\<And>b. b < m \<Longrightarrow> mat_Iter (vs ! b) = map (block_vec m b) [0..<m]"
proof -
  let ?u = "\<lambda>i. \<lparr>mrows = 1, mcols = m, mdata = (replicate m 0)[i := 1 :: 'a]\<rparr>"
  let ?l = "\<lparr>mrows = 1, mcols = m, mdata = map (\<lambda>c. if c = 0 then 1 :: 'a else if c \<le> m - 1 then -1 else 0) [0..<m]\<rparr>"
  let ?vs = "map (\<lambda>i. ?u (i + 1)) [0..<m - 1] @ [?l]"
  have "NewStandardUnit \<lparr>modrows = r, modcols = m\<rparr> 0 = Inr (?u 0)" using assms by (simp add: NewStandardUnit_def)
  then have "clause_vectors \<lparr>modrows = r, modcols = m\<rparr> m = Inr ?vs"
    using clause_vectors_loop [of "m - 1" m r, where ?'a = 'a] assms by (simp add: clause_vectors_def)
  moreover have "mat_Iter (?vs ! b) = map (block_vec m b) [0..<m]" if "b < m" for b
  proof (cases "b < m - 1")
    case True
    then show ?thesis
      by (auto simp: mat_Iter_def nth_append block_vec_def nth_list_update intro!: nth_equalityI)
  next
    case False
    then have "b = m - 1" using that by simp
    then show ?thesis
      by (auto simp: mat_Iter_def nth_append block_vec_def intro!: nth_equalityI)
  qed
  ultimately show thesis using assms by (intro that [of ?vs]) auto
qed

text \<open>What the construction needs: at least two sets, and identifiers that fit the bit mask.\<close>

definition CNF_fits :: "CNF \<Rightarrow> bool" where
  "CNF_fits c \<longleftrightarrow> 2 \<le> length (cnf_maximalUnqualifiedSets c) \<and> set (cnf_shareholders c) \<subseteq> {1..64}"

text \<open>The shareholders that some clause names; the others belong to every maximal unqualified set.\<close>

definition cnf_relevant :: "CNF \<Rightarrow> ID set" where
  "cnf_relevant c = (\<Union>M\<in>set (cnf_maximalUnqualifiedSets c). set (cnf_shareholders c) - set M)"

lemma sort_MUS_ok:
  assumes "CNF_wf c" "CNF_fits c"
  shows "sort_MUS (cnf_maximalUnqualifiedSets c) = Inr (sort_key bitset_key (cnf_maximalUnqualifiedSets c))"
proof -
  have "\<exists>b. NewBitSet (hs_List M) = Inr b" if M: "M \<in> set (cnf_maximalUnqualifiedSets c)" for M
  proof -
    have "set M \<subseteq> bs_range" using assms M by (auto simp: CNF_wf_def CNF_fits_def)
    then show ?thesis using bset.new_set [of M] by (auto simp: NewBitSet_def bs_AddAll_def hs_List_def)
  qed
  then show ?thesis by (fastforce simp: sort_MUS_def list_ex_iff is_ok_iff)
qed

text \<open>The row of a clause member is the vector of its clause.\<close>

lemma concat_map_concat: "concat (map (\<lambda>i. concat (map h (g i))) xs) = concat (map h (concat (map g xs)))"
  by (induction xs) simp_all

lemma clause_matrix:
  fixes members :: "nat \<Rightarrow> ID list"
  assumes "0 < m" "\<And>b. b < m \<Longrightarrow> it b = map (block_vec m b) [0..<m]"
  defines "pairs \<equiv> concat (map (\<lambda>b. map (\<lambda>p. (p, b)) (members b)) [0..<m])"
  defines "rows \<equiv> concat (map (\<lambda>i. concat (map (\<lambda>_. it i) (members i))) [0..<m])"
  shows "length rows = length pairs * m"
    and "i < length pairs \<Longrightarrow> c < m \<Longrightarrow> rows ! (i * m + c) = (block_vec m (snd (pairs ! i)) c :: 'a::field)"
    and "concat (map members [0..<m]) = map fst pairs"
proof -
  let ?rr = "map (\<lambda>q. map (block_vec m (snd q)) [0..<m] :: 'a list) pairs"
  have "rows = concat (map (\<lambda>i. concat (map (\<lambda>q. map (block_vec m (snd q)) [0..<m]) (map (\<lambda>p. (p, i)) (members i)))) [0..<m])"
    unfolding rows_def using assms(2) by (intro arg_cong [of _ _ concat] map_cong) (simp_all add: comp_def)
  also have "\<dots> = concat ?rr" unfolding pairs_def by (rule concat_map_concat)
  finally have rows: "rows = concat ?rr" .
  show "length rows = length pairs * m" unfolding rows by (subst length_concat_const [of _ m]) auto
  show "rows ! (i * m + c) = block_vec m (snd (pairs ! i)) c" if "i < length pairs" "c < m"
    unfolding rows using that by (subst nth_concat_const [of _ m]) auto
  show "concat (map members [0..<m]) = map fst pairs"
    unfolding pairs_def by (simp add: map_concat comp_def)
qed

lemma bex_nth: "(\<exists>i\<in>{i. i < length xs \<and> P (xs ! i)}. Q (xs ! i)) \<longleftrightarrow> (\<exists>q\<in>set xs. P q \<and> Q q)"
  by (metis (mono_tags, lifting) in_set_conv_nth mem_Collect_eq)

lemma clause_nonempty:
  assumes "CNF_wf c" "CNF_fits c" "M \<in> set (cnf_maximalUnqualifiedSets c)"
  shows "set (cnf_shareholders c) - set M \<noteq> {}"
proof -
  obtain x y zs where l: "cnf_maximalUnqualifiedSets c = x # y # zs"
    using assms(2) by (cases "cnf_maximalUnqualifiedSets c"; cases "tl (cnf_maximalUnqualifiedSets c)")
      (auto simp: CNF_fits_def)
  have "distinct (map set (cnf_maximalUnqualifiedSets c))" using assms(1) unfolding CNF_wf_def by blast
  then have "set x \<noteq> set y" by (simp add: l)
  then obtain N where N: "N \<in> set (cnf_maximalUnqualifiedSets c)" "set N \<noteq> set M" by (auto simp: l)
  have "\<not> set N \<subseteq> set M" using assms(1,3) N unfolding CNF_wf_def by blast
  moreover have "set N \<subseteq> set (cnf_shareholders c)" using assms(1) N(1) unfolding CNF_wf_def by blast
  ultimately show ?thesis by blast
qed

lemma CNF_InducedMSP_spec:
  fixes f :: "'f option"
  assumes "f \<noteq> None" "CNF_wf c" "CNF_fits c"
  shows "\<exists>m. (CNF_InducedMSP f (Some c) :: 'a::field MSP res) = Inr m \<and> msp_wf m \<and>
    msp_holders m = cnf_relevant c \<and> mcols (msp_matrix m) = length (cnf_maximalUnqualifiedSets c) \<and>
    (\<forall>A. A \<subseteq> set (cnf_shareholders c) \<longrightarrow> spans m A = cnf_auth c A)"
proof -
  define mus where "mus = sort_key bitset_key (cnf_maximalUnqualifiedSets c)"
  define m where "m = length mus"
  define members where "members b = sort (hs_List (hs_Difference (cnf_shareholders c) (mus ! b)))" for b
  define pairs where "pairs = concat (map (\<lambda>b. map (\<lambda>p. (p, b)) (members b)) [0..<m])"
  let ?U = "set (cnf_shareholders c)"
  have mus: "set mus = set (cnf_maximalUnqualifiedSets c)" "m = length (cnf_maximalUnqualifiedSets c)"
    by (simp_all add: mus_def m_def)
  have m: "0 < m" using assms(3) mus(2) unfolding CNF_fits_def by linarith
  have wfU: "hs_wf (cnf_shareholders c)" "0 \<notin> ?U" using assms(2) unfolding CNF_wf_def by blast+
  have mem: "set (members b) = ?U - set (mus ! b)" for b by (simp add: members_def hs_List_def)
  have size: "fold (\<lambda>cl t. t + hs_Size cl) (map (\<lambda>bi. hs_Difference (cnf_shareholders c) bi) mus) 0 = length pairs"
  proof -
    have "length (hs_Difference (cnf_shareholders c) (mus ! b)) = length (members b)" for b
      by (simp add: members_def hs_List_def)
    then have "map (length \<circ> hs_Difference (cnf_shareholders c)) mus = map (\<lambda>b. length (members b)) [0..<m]"
      by (intro nth_equalityI) (simp_all add: m_def)
    then show ?thesis
      by (simp add: fold_add_list hs_Size_def comp_def pairs_def length_concat)
  qed
  obtain vs :: "'a Matrix list" where vs: "clause_vectors \<lparr>modrows = length pairs, modcols = m\<rparr> m = Inr vs" "length vs = m"
    "\<And>b. b < m \<Longrightarrow> mat_Iter (vs ! b) = map (block_vec m b) [0..<m]"
    by (rule clause_vectors_ok [OF m, where r = "length pairs"]) (rule that, blast+)
  note cm = clause_matrix [where it = "\<lambda>b. mat_Iter (vs ! b)" and members = members, OF m vs(3), folded pairs_def]
  let ?rows = "concat (map (\<lambda>i. concat (map (\<lambda>_. mat_Iter (vs ! i)) (members i))) [0..<m])"
  let ?M = "\<lparr>mrows = length pairs, mcols = m, mdata = ?rows\<rparr>"
  have "mus ! 0 \<in> set (cnf_maximalUnqualifiedSets c)" using m mus(1) nth_mem [of 0 mus] by (simp add: m_def)
  then have "set (members 0) \<noteq> {}" using clause_nonempty [OF assms(2,3)] by (simp add: mem)
  then have ne: "pairs \<noteq> []" using m by (auto simp: pairs_def)
  have M: "mat_wf ?M" using m ne cm(1) by (simp add: mat_wf_def)
  have lab: "length (map fst pairs) = mrows ?M" "0 \<notin> set (map fst pairs)"
    using wfU mem by (auto simp: pairs_def)
  obtain p where p: "NewMSP (Some ?M) (Some (label_rows (map fst pairs))) = Inr p" "msp_wf p" "msp_matrix p = ?M"
    "\<And>i. i < mrows ?M \<Longrightarrow> row_label p i = map fst pairs ! i" "msp_holders p = set (map fst pairs)"
    by (rule NewMSP_label_rows [OF M lab]) (rule that, blast+)
  let ?cl = "\<lambda>i. sort (hs_List (map (\<lambda>bi. hs_Difference (cnf_shareholders c) bi) mus ! i))"
  have cl: "map (\<lambda>i. concat (map (\<lambda>_. mat_Iter (vs ! i)) (?cl i))) [0..<m] =
      map (\<lambda>i. concat (map (\<lambda>_. mat_Iter (vs ! i)) (members i))) [0..<m]" "map ?cl [0..<m] = map members [0..<m]"
    by (simp_all add: members_def m_def)
  have nz: "length (cnf_maximalUnqualifiedSets c) \<noteq> 0" using m mus(2) by simp
  have mm: "NewMatrixModule (length pairs) m f = Inr \<lparr>modrows = length pairs, modcols = m\<rparr>"
    using assms(1) m ne by (simp add: NewMatrixModule_def)
  have mx: "mod_NewRowMajor \<lparr>modrows = length pairs, modcols = m\<rparr> ?rows = Inr ?M"
    using cm(1) by (simp add: mod_NewRowMajor_def)
  have res: "(CNF_InducedMSP f (Some c) :: 'a MSP res) = Inr p"
    unfolding CNF_InducedMSP_def Let_def option.case if_not_P [OF assms(1)] if_not_P [OF nz]
      sort_MUS_ok [OF assms(2,3), folded mus_def] rbind_Inr m_def [symmetric] size mm vs(1)
      cl mx
    using p(1) cm(3) by simp
  have "spans p A = cnf_auth c A" if A: "A \<subseteq> ?U" for A
  proof -
    have ent: "ent (msp_matrix p) i j = block_vec (mcols (msp_matrix p)) (snd (pairs ! i)) j"
      if "i < mrows (msp_matrix p)" "j < mcols (msp_matrix p)" for i j
      using that cm(2) by (simp add: p(3) ent_def mat_idx_def)
    have blk: "snd (pairs ! i) < mcols (msp_matrix p)" if "i < mrows (msp_matrix p)" for i
      using that nth_mem [of i pairs] by (auto simp: p(3) pairs_def)
    have "spans p A \<longleftrightarrow> (\<forall>b<m. \<exists>i\<in>set (rows_for p A). snd (pairs ! i) = b)"
      using block_spans [OF p(2) ent blk, of A] by (simp add: p(3))
    also have "set (rows_for p A) = {i. i < length pairs \<and> fst (pairs ! i) \<in> A}"
      using p(4) by (auto simp: rows_for_def p(3))
    also have "(\<forall>b<m. \<exists>i\<in>{i. i < length pairs \<and> fst (pairs ! i) \<in> A}. snd (pairs ! i) = b) \<longleftrightarrow>
        (\<forall>b<m. \<exists>q\<in>set pairs. fst q \<in> A \<and> snd q = b)"
      by (simp only: bex_nth [of pairs "\<lambda>q. fst q \<in> A" "\<lambda>q. snd q = b" for b])
    also have "\<dots> \<longleftrightarrow> (\<forall>b<m. \<exists>q\<in>set (members b). q \<in> A)" by (force simp: pairs_def)
    also have "\<dots> \<longleftrightarrow> (\<forall>b<m. \<not> A \<subseteq> set (mus ! b))" using A mem by blast
    also have "\<dots> \<longleftrightarrow> (\<forall>M\<in>set mus. \<not> A \<subseteq> set M)" by (auto simp: m_def all_set_conv_all_nth)
    finally show ?thesis using A mus(1) by (simp add: cnf_auth_def)
  qed
  moreover have "msp_holders p = cnf_relevant c"
  proof -
    have "set (map fst pairs) = (\<Union>b<m. set (members b))" by (auto simp: cm(3) [symmetric])
    also have "\<dots> = (\<Union>M\<in>(\<lambda>b. mus ! b) ` {..<m}. ?U - set M)" by (simp add: mem)
    also have "(\<lambda>b. mus ! b) ` {..<m} = set mus" by (auto simp: m_def set_conv_nth)
    finally show ?thesis by (simp add: p(5) cnf_relevant_def mus(1))
  qed
  ultimately show ?thesis using res p(2,3) mus(2) by (intro exI [of _ p]) simp
qed

section \<open>The contract holds\<close>

text \<open>The base field is not nil: the unit value stands for it.\<close>

interpretation threshold_linear: linear_access Threshold_wf Threshold_feasible threshold_auth
  Threshold_IsQualified Threshold_Shareholders Threshold_MaximalUnqualifiedSetsIter
  "\<lambda>a. nodes_admissible TYPE('a::field) (set (th_ps a))" "\<lambda>a. Threshold_InducedMSP (Some ()) (Some a) :: 'a MSP res"
proof unfold_locales
  fix a assume wf: "Threshold_wf a" and adm: "nodes_admissible TYPE('a) (set (th_ps a))"
  have "2 \<le> th_t a" using wf by (simp add: Threshold_wf_def)
  with Threshold_InducedMSP_spec [of "Some ()" a, OF _ wf adm]
  show "\<exists>m. (Threshold_InducedMSP (Some ()) (Some a) :: 'a MSP res) = Inr m \<and> msp_wf m \<and>
      msp_holders m = set (Threshold_Shareholders a) \<and> 2 \<le> mcols (msp_matrix m) \<and>
      (\<forall>A. A \<noteq> {} \<longrightarrow> A \<subseteq> set (Threshold_Shareholders a) \<longrightarrow> spans m A = threshold_auth a A)"
    by (auto simp: Threshold_Shareholders_def)
next
  fix a A assume "Threshold_wf a" "threshold_auth a A"
  then show "A \<subseteq> set (Threshold_Shareholders a) \<and> A \<noteq> {}"
    by (auto simp: Threshold_wf_def threshold_auth_def Threshold_Shareholders_def)
qed

interpretation unanimity_linear: linear_access Unanimity_wf Unanimity_feasible unanimity_auth
  "\<lambda>u. Unanimity_IsQualified (Some u)" Unanimity_Shareholders Unanimity_MaximalUnqualifiedSetsIter
  "\<lambda>_. True" "\<lambda>u. Unanimity_InducedMSP (Some ()) (Some u) :: 'a::field MSP res"
proof unfold_locales
  fix u assume wf: "Unanimity_wf u"
  have "2 \<le> length (un_ps u)" using wf by (simp add: Unanimity_wf_def hs_Size_def)
  with Unanimity_InducedMSP_spec [of "Some ()" u, OF _ wf]
  show "\<exists>m. (Unanimity_InducedMSP (Some ()) (Some u) :: 'a MSP res) = Inr m \<and> msp_wf m \<and>
      msp_holders m = set (Unanimity_Shareholders u) \<and> 2 \<le> mcols (msp_matrix m) \<and>
      (\<forall>A. A \<noteq> {} \<longrightarrow> A \<subseteq> set (Unanimity_Shareholders u) \<longrightarrow> spans m A = unanimity_auth u A)"
    by (auto simp: Unanimity_Shareholders_def)
next
  fix u A assume "Unanimity_wf u" "unanimity_auth u A"
  then show "A \<subseteq> set (Unanimity_Shareholders u) \<and> A \<noteq> {}"
    by (auto simp: Unanimity_wf_def unanimity_auth_def Unanimity_Shareholders_def hs_Size_def)
qed

interpretation cnf_linear: linear_access CNF_wf "\<lambda>_. True" cnf_auth
  "\<lambda>c. CNF_IsQualified (Some c)" CNF_Shareholders "\<lambda>c. CNF_MaximalUnqualifiedSetsIter (Some c)"
  "\<lambda>c. CNF_fits c \<and> cnf_relevant c = set (cnf_shareholders c)" "\<lambda>c. CNF_InducedMSP (Some ()) (Some c) :: 'a::field MSP res"
proof unfold_locales
  fix c assume wf: "CNF_wf c" and adm: "CNF_fits c \<and> cnf_relevant c = set (cnf_shareholders c)"
  then have "2 \<le> length (cnf_maximalUnqualifiedSets c)" by (simp add: CNF_fits_def)
  with CNF_InducedMSP_spec [OF _ wf, of "Some ()", where ?'a = 'a] adm
  show "\<exists>m. (CNF_InducedMSP (Some ()) (Some c) :: 'a MSP res) = Inr m \<and> msp_wf m \<and>
      msp_holders m = set (CNF_Shareholders c) \<and> 2 \<le> mcols (msp_matrix m) \<and>
      (\<forall>A. A \<noteq> {} \<longrightarrow> A \<subseteq> set (CNF_Shareholders c) \<longrightarrow> spans m A = cnf_auth c A)"
    unfolding CNF_Shareholders_def by fastforce
next
  fix c A assume wf: "CNF_wf c" and auth: "cnf_auth c A"
  have "cnf_maximalUnqualifiedSets c \<noteq> []" using wf by (auto simp: CNF_wf_def hs_Size_def)
  with auth show "A \<subseteq> set (CNF_Shareholders c) \<and> A \<noteq> {}"
    by (cases "cnf_maximalUnqualifiedSets c") (auto simp: cnf_auth_def CNF_Shareholders_def)
qed

section \<open>Properties\<close>

text \<open>C33. The Vandermonde programme of a threshold structure realises the policy: over a field in which the
  shareholders' identifiers are distinct and non-zero, \<open>InducedMSP\<close> succeeds with as many rows as there are
  shareholders, exactly one row for each of them, and \<open>t\<close> columns, and the programme accepts exactly the lists of
  identifiers that the structure itself calls qualified.\<close>

theorem Threshold_InducedMSP_correct:
  assumes "NewThresholdAccessStructure t (Some ps) = Inr a" "hs_wf ps"
    and "inj_on (FromUint64 :: ID \<Rightarrow> 'a::field) (set ps)" "\<forall>p\<in>set ps. FromUint64 p \<noteq> (0 :: 'a)"
  shows "\<exists>m. (Threshold_InducedMSP (Some ()) (Some a) :: 'a MSP res) = Inr m \<and>
    mrows (msp_matrix m) = length ps \<and> mcols (msp_matrix m) = t \<and> (\<forall>i. length (rows_for m {i}) = (if i \<in> set ps then 1 else 0)) \<and>
    (\<forall>ids. Accepts m ids \<longleftrightarrow> Threshold_IsQualified a ids)"
proof -
  from assms(1,2) have wf: "Threshold_wf a" and ps: "th_ps a = ps" "th_t a = t"
    by (auto simp: NewThresholdAccessStructure_def Threshold_wf_def split: if_splits)
  with assms(3,4) have adm: "nodes_admissible TYPE('a) (set (th_ps a))" by (auto simp: nodes_admissible_def)
  obtain m where m: "(Threshold_InducedMSP (Some ()) (Some a) :: 'a MSP res) = Inr m" "mcols (msp_matrix m) = t"
    "mrows (msp_matrix m) = length ps" "\<And>i. i < mrows (msp_matrix m) \<Longrightarrow> row_label m i = sort ps ! i"
    using Threshold_InducedMSP_matrix [where f = "Some ()" and 'a = 'a, OF _ wf, simplified] ps by metis
  have "length (rows_for m {i}) = (if i \<in> set ps then 1 else 0)" for i
    using one_row_each [of m "sort ps" i] m(3,4) assms(2) by (simp add: hs_wf_def)
  with threshold_linear.induced_accepts [OF wf adm] m(1-3) show ?thesis by (metis sum.inject(2))
qed

theorem Threshold_InducedMSP_correct_witness:
  "\<exists>m. (Threshold_InducedMSP (Some ()) (Some \<lparr>th_t = 2, th_ps = [4, 1, 7]\<rparr>) :: rat MSP res) = Inr m \<and>
    mrows (msp_matrix m) = length [4, 1, 7 :: ID] \<and> mcols (msp_matrix m) = 2 \<and>
    (\<forall>i. length (rows_for m {i}) = (if i \<in> set [4, 1, 7] then 1 else 0)) \<and>
    (\<forall>ids. Accepts m ids \<longleftrightarrow> Threshold_IsQualified \<lparr>th_t = 2, th_ps = [4, 1, 7]\<rparr> ids)"
  by (rule Threshold_InducedMSP_correct [of 2 "[4, 1, 7]"])
    (simp_all add: NewThresholdAccessStructure_def hs_wf_def hs_Contains_def hs_Size_def FromUint64_def inj_on_def)

text \<open>The additive programme of a unanimity structure accepts exactly the full set of shareholders, over
  every field and for any identifiers.\<close>

theorem Unanimity_InducedMSP_correct:
  assumes "NewUnanimityAccessStructure (Some ps) = Inr u" "hs_wf ps"
  shows "\<exists>m. (Unanimity_InducedMSP (Some ()) (Some u) :: 'a::field MSP res) = Inr m \<and>
    (\<forall>ids. Accepts m ids \<longleftrightarrow> Unanimity_IsQualified (Some u) ids)"
proof -
  from assms have wf: "Unanimity_wf u"
    by (auto simp: NewUnanimityAccessStructure_def Unanimity_wf_def split: if_splits)
  from unanimity_linear.induced_accepts [OF wf TrueI] show ?thesis by metis
qed

theorem Unanimity_InducedMSP_correct_witness:
  "\<exists>m. (Unanimity_InducedMSP (Some ()) (Some \<lparr>un_ps = [5, 2, 9]\<rparr>) :: rat MSP res) = Inr m \<and>
    (\<forall>ids. Accepts m ids \<longleftrightarrow> Unanimity_IsQualified (Some \<lparr>un_ps = [5, 2, 9]\<rparr>) ids)"
  by (rule Unanimity_InducedMSP_correct [of "[5, 2, 9]"])
    (simp_all add: NewUnanimityAccessStructure_def hs_wf_def hs_Contains_def hs_Size_def)

text \<open>C35. The clause programme of a CNF structure with at least two maximal unqualified sets and identifiers up
  to 64 accepts a list exactly when the structure calls it qualified and every identifier in it is missing from
  some maximal unqualified set: a shareholder that lies in all of them owns no row, so a qualified coalition
  that includes it is rejected by the programme.\<close>

theorem CNF_InducedMSP_correct:
  assumes "CNF_wf c" "2 \<le> length (cnf_maximalUnqualifiedSets c)" "set (cnf_shareholders c) \<subseteq> {1..64}"
  shows "\<exists>m. (CNF_InducedMSP (Some ()) (Some c) :: 'a::field MSP res) = Inr m \<and>
    (\<forall>ids. Accepts m ids \<longleftrightarrow> CNF_IsQualified (Some c) ids \<and>
       (\<forall>x\<in>set ids. \<exists>M\<in>set (cnf_maximalUnqualifiedSets c). x \<notin> set M))"
proof -
  obtain m :: "'a MSP" where m: "CNF_InducedMSP (Some ()) (Some c) = Inr m" "msp_wf m" "msp_holders m = cnf_relevant c"
    "\<forall>A. A \<subseteq> set (cnf_shareholders c) \<longrightarrow> spans m A = cnf_auth c A"
    using CNF_InducedMSP_spec [of "Some ()" c, where ?'a = 'a] assms by (auto simp: CNF_fits_def)
  have "cnf_auth c A \<Longrightarrow> A \<subseteq> set (cnf_shareholders c) \<and> A \<noteq> {}" for A
    using cnf_linear.auth_shareholders [OF assms(1)] by (simp add: CNF_Shareholders_def)
  then have "Accepts m ids \<longleftrightarrow> CNF_IsQualified (Some c) ids \<and> (\<forall>x\<in>set ids. \<exists>M\<in>set (cnf_maximalUnqualifiedSets c). x \<notin> set M)" for ids
    unfolding Accepts_iff [OF m(2)] m(3) CNF_IsQualified_auth cnf_relevant_def using m(4) [rule_format, of "set ids"]
    by (auto simp: cnf_auth_def)
  with m(1) show ?thesis by blast
qed

lemma CNF_wf_example: "CNF_wf \<lparr>cnf_shareholders = [1, 2, 3, 4], cnf_maximalUnqualifiedSets = [[1, 2], [1, 3, 4]]\<rparr>"
  unfolding CNF_wf_def by (auto simp: hs_wf_def hs_Size_def) (drule equalityD2, simp)

theorem CNF_InducedMSP_correct_witness:
  "\<exists>m. (CNF_InducedMSP (Some ()) (Some \<lparr>cnf_shareholders = [1, 2, 3, 4], cnf_maximalUnqualifiedSets = [[1, 2], [1, 3, 4]]\<rparr>)
      :: rat MSP res) = Inr m \<and> Accepts m [2, 3] \<and> \<not> Accepts m [1, 2, 3] \<and>
    CNF_IsQualified (Some \<lparr>cnf_shareholders = [1, 2, 3, 4], cnf_maximalUnqualifiedSets = [[1, 2], [1, 3, 4]]\<rparr>) [1, 2, 3]"
proof -
  let ?c = "\<lparr>cnf_shareholders = [1, 2, 3, 4], cnf_maximalUnqualifiedSets = [[1, 2], [1, 3, 4]]\<rparr>"
  have q: "CNF_IsQualified (Some ?c) [2, 3]" "CNF_IsQualified (Some ?c) [1, 2, 3]"
    by (simp_all add: CNF_IsQualified_auth cnf_auth_def)
  have rng: "set (cnf_shareholders ?c) \<subseteq> {1..64}" by simp
  obtain m :: "rat MSP" where m: "CNF_InducedMSP (Some ()) (Some ?c) = Inr m"
    "\<And>ids. Accepts m ids \<longleftrightarrow> CNF_IsQualified (Some ?c) ids \<and>
       (\<forall>x\<in>set ids. \<exists>M\<in>set (cnf_maximalUnqualifiedSets ?c). x \<notin> set M)"
    using CNF_InducedMSP_correct [OF CNF_wf_example _ rng, where ?'a = rat] by auto
  show ?thesis
    using q by (intro exI [of _ m] conjI m(1)) (simp_all add: m(2))
qed

end
