(* ===== verification/Sharing.thy ===== *)
theory Sharing
  imports CNF
begin

text \<open>
  The interface of the secret sharing schemes (\<open>pkg/mpc/sharing/sharing.go\<close>, \<open>utils.go\<close>). A scheme deals a map
  of shares to the shareholders of its access structure; any qualified coalition recovers the secret from its shares.
  Dealing consumes samples of the random source; a dealt map is an association list; nil is \<open>None\<close>.
\<close>

text \<open>\<open>CollectIDs\<close> for a share type with identifier function \<open>idf\<close>; a nil share is an error.\<close>

definition CollectIDs :: "('s \<Rightarrow> ID) \<Rightarrow> 's option list \<Rightarrow> ID list res" where
  "CollectIDs idf shares = MapOrError (\<lambda>s. case s of None \<Rightarrow> Inl ErrIsNil | Some s \<Rightarrow> Inr (idf s)) shares"

definition NewOrdinalShareholderSet :: "nat \<Rightarrow> ID hset" where
  "NewOrdinalShareholderSet count = fold (\<lambda>i out. hs_Add out (of_nat i + 1)) [0..<count] (hs_NewComparable [])"

lemma CollectIDs_Some [simp]: "CollectIDs idf (map Some ss) = Inr (map idf ss)"
  unfolding CollectIDs_def by (induction ss) simp_all

lemma CollectIDs_map_Some: "CollectIDs idf (map (\<lambda>i. Some (f i)) is) = Inr (map (\<lambda>i. idf (f i)) is)"
  using CollectIDs_Some [of idf "map f is"] by (simp add: comp_def)

text \<open>
  The contract of \<open>SSS\<close>: one share per shareholder; on the shares of a coalition \<open>Reconstruct\<close> gives the dealt
  secret when \<open>CanReconstruct\<close> accepts the coalition and an error otherwise; \<open>DealRandom\<close> deals a secret it
  samples; nil arguments are refused.
\<close>

locale sss =
  fixes wf :: "'d \<Rightarrow> bool"
    and Deal :: "'d \<Rightarrow> 'w option \<Rightarrow> 'g list option \<Rightarrow> ((ID \<times> 'sh) list \<times> 'g list) res"
    and DealRandom :: "'d \<Rightarrow> 'g list option \<Rightarrow> ((ID \<times> 'sh) list \<times> 'w \<times> 'g list) res"
    and Reconstruct :: "'d \<Rightarrow> 'sh option list \<Rightarrow> 'w res"
    and CanReconstruct :: "'d \<Rightarrow> ID list \<Rightarrow> bool"
    and Shareholders :: "'d \<Rightarrow> ID hset"
  assumes dealt: "wf d \<Longrightarrow> Deal d (Some w) (Some prng) = Inr (shares, rest) \<Longrightarrow>
      distinct (map fst shares) \<and> set (map fst shares) = set (Shareholders d)"
    and reconstruct: "wf d \<Longrightarrow> Deal d (Some w) (Some prng) = Inr (shares, rest) \<Longrightarrow> ids \<noteq> [] \<Longrightarrow> distinct ids \<Longrightarrow>
      set ids \<subseteq> set (Shareholders d) \<Longrightarrow>
      Reconstruct d (map (map_of shares) ids) = (if CanReconstruct d ids then Inr w else Inl ErrFailed)"
    and deal_random: "DealRandom d (Some prng) = Inr (shares, w, rest) \<Longrightarrow>
      \<exists>prng'. Deal d (Some w) (Some prng') = Inr (shares, rest)"
    and nil: "Deal d None (Some prng) = Inl ErrIsNil" "Deal d wo None = Inl ErrIsNil" "DealRandom d None = Inl ErrIsNil"
begin

lemma random_reconstruct:
  assumes "wf d" "DealRandom d (Some prng) = Inr (shares, w, rest)"
    "ids \<noteq> []" "distinct ids" "set ids \<subseteq> set (Shareholders d)"
  shows "Reconstruct d (map (map_of shares) ids) = (if CanReconstruct d ids then Inr w else Inl ErrFailed)"
  using deal_random [OF assms(2)] reconstruct [OF assms(1) _ assms(3-5)] by blast

lemma share_of_shareholder:
  assumes "wf d" "Deal d (Some w) (Some prng) = Inr (shares, rest)"
  shows "map_of shares i \<noteq> None \<longleftrightarrow> i \<in> set (Shareholders d)"
  using dealt [OF assms] by (simp add: map_of_eq_None_iff)

lemma deal_functional:
  assumes "wf d" "Deal d (Some w) (Some prng) = Inr (shares, rest)" "Deal d (Some w') (Some prng') = Inr (shares, rest')"
    "CanReconstruct d ids" "ids \<noteq> []" "distinct ids" "set ids \<subseteq> set (Shareholders d)"
  shows "w = w'"
  using reconstruct [OF assms(1,2,5-7)] reconstruct [OF assms(1,3,5-7)] assms(4) by simp

end

text \<open>
  The contract of \<open>VSSS\<close>: a verifiable scheme is a sharing scheme whose dealer also publishes verification material;
  every dealt share verifies against it, and \<open>ReconstructAndVerify\<close> verifies the given shares in order before it
  reconstructs.
\<close>

lemma FoldOrError_check:
  "FoldOrError (\<lambda>_ x. f x) () xs = Inr () \<longleftrightarrow> (\<forall>x\<in>set xs. f x = Inr ())"
  by (induction xs) (auto simp: rbind_eq_Inr_iff)

locale vss = sss wf "\<lambda>d w prng. rbind (VDeal d w prng) (\<lambda>(shares, v, rest). Inr (shares, rest))"
    "\<lambda>d prng. rbind (VDealRandom d prng) (\<lambda>(shares, v, w, rest). Inr (shares, w, rest))"
    Reconstruct CanReconstruct Shareholders
  for wf :: "'d \<Rightarrow> bool"
    and VDeal :: "'d \<Rightarrow> 'w option \<Rightarrow> 'g list option \<Rightarrow> ((ID \<times> 'sh) list \<times> 'v \<times> 'g list) res"
    and VDealRandom :: "'d \<Rightarrow> 'g list option \<Rightarrow> ((ID \<times> 'sh) list \<times> 'v \<times> 'w \<times> 'g list) res"
    and Reconstruct :: "'d \<Rightarrow> 'sh option list \<Rightarrow> 'w res"
    and CanReconstruct :: "'d \<Rightarrow> ID list \<Rightarrow> bool"
    and Shareholders :: "'d \<Rightarrow> ID hset" +
  fixes Verify :: "'d \<Rightarrow> 'sh option \<Rightarrow> 'v option \<Rightarrow> unit res"
    and ReconstructAndVerify :: "'d \<Rightarrow> 'v option \<Rightarrow> 'sh option list \<Rightarrow> 'w res"
  assumes verifies: "wf d \<Longrightarrow> VDeal d (Some w) (Some prng) = Inr (shares, v, rest) \<Longrightarrow> i \<in> set (Shareholders d) \<Longrightarrow>
      Verify d (map_of shares i) (Some v) = Inr ()"
    and verified: "ReconstructAndVerify d ref shs = rbind (FoldOrError (\<lambda>_ sh. Verify d sh ref) () shs) (\<lambda>_. Reconstruct d shs)"
    and nil_share: "Verify d None ref = Inl ErrIsNil"
begin

lemma honest_reconstruct:
  assumes "wf d" "VDeal d (Some w) (Some prng) = Inr (shares, v, rest)" "ids \<noteq> []" "distinct ids" "set ids \<subseteq> set (Shareholders d)"
  shows "ReconstructAndVerify d (Some v) (map (map_of shares) ids) = (if CanReconstruct d ids then Inr w else Inl ErrFailed)"
proof -
  have "FoldOrError (\<lambda>_ sh. Verify d sh (Some v)) () (map (map_of shares) ids) = Inr ()"
    using verifies [OF assms(1,2)] assms(5) by (auto simp: FoldOrError_check)
  moreover have "Reconstruct d (map (map_of shares) ids) = (if CanReconstruct d ids then Inr w else Inl ErrFailed)"
    by (rule reconstruct [where prng = prng and rest = rest, OF assms(1) _ assms(3-5)]) (simp add: assms(2))
  ultimately show ?thesis by (simp add: verified)
qed

lemma unverified_rejected:
  assumes "sh \<in> set shs" "Verify d sh ref \<noteq> Inr ()"
  shows "\<not> is_ok (ReconstructAndVerify d ref shs)"
proof -
  have "FoldOrError (\<lambda>_ sh. Verify d sh ref) () shs \<noteq> Inr ()" using assms by (auto simp: FoldOrError_check)
  then show ?thesis by (cases "FoldOrError (\<lambda>_ sh. Verify d sh ref) () shs") (simp_all add: verified)
qed

end

end
