(* ===== verification/Additive.thy ===== *)
theory Additive
  imports Algebrautils Sharing
begin

text \<open>
  Additive secret sharing over a commutative group (\<open>scheme/additive\<close> with the share type of
  \<open>sharing/internal\<close>): the secret is the sum of one random share per shareholder, and all of them are needed.
  The access structure is a unanimity structure. Nil pointers are \<open>None\<close>.
\<close>

section \<open>Shares\<close>

record 'e AdditiveShare =
  ash_id :: ID
  ash_v :: 'e

definition NewAdditiveShare :: "ID \<Rightarrow> 'e \<Rightarrow> 'e AdditiveShare res" where
  "NewAdditiveShare sid v = (if sid = 0 then Inl ErrIsNil else Inr \<lparr>ash_id = sid, ash_v = v\<rparr>)"

definition ash_Equal :: "'e AdditiveShare option \<Rightarrow> 'e AdditiveShare option \<Rightarrow> bool" where
  "ash_Equal s other =
     (case (s, other) of
        (Some x, Some y) \<Rightarrow> ash_id x = ash_id y \<and> ash_v x = ash_v y
      | (None, None) \<Rightarrow> True
      | _ \<Rightarrow> False)"

definition ash_Add :: "('e::ab_group_add) AdditiveShare \<Rightarrow> 'e AdditiveShare \<Rightarrow> 'e AdditiveShare" where
  "ash_Add s other = \<lparr>ash_id = ash_id s, ash_v = ash_v s + ash_v other\<rparr>"

definition ash_ScalarOp :: "('e::ab_group_add) AdditiveShare \<Rightarrow> 8 word list \<Rightarrow> 'e AdditiveShare" where
  "ash_ScalarOp s actor = \<lparr>ash_id = ash_id s, ash_v = scalarMul (ash_v s) actor\<rparr>"

definition additive_NewShare :: "ID \<Rightarrow> 'e \<Rightarrow> Unanimity option \<Rightarrow> 'e AdditiveShare res" where
  "additive_NewShare sid v ac =
     (case ac of
        None \<Rightarrow> NewAdditiveShare sid v
      | Some u \<Rightarrow>
          if \<not> hs_Contains (Unanimity_Shareholders u) sid then Inl ErrMembership
          else NewAdditiveShare sid v)"

section \<open>The scheme\<close>

record AdditiveScheme =
  ad_ac :: Unanimity

definition additive_NewScheme :: "'g option \<Rightarrow> Unanimity option \<Rightarrow> AdditiveScheme res" where
  "additive_NewScheme g accessStructure =
     (if g = None then Inl ErrIsNil
      else case accessStructure of None \<Rightarrow> Inl ErrIsNil | Some u \<Rightarrow> Inr \<lparr>ad_ac = u\<rparr>)"

text \<open>All but the last share come from the sampler; the last one completes the sum.\<close>

definition SumToSecret :: "('e::ab_group_add) \<Rightarrow> 'e list option \<Rightarrow> int \<Rightarrow> ('e list \<times> 'e list) res" where
  "SumToSecret secret prng l =
     (case prng of
        None \<Rightarrow> Inl ErrIsNil
      | Some prng \<Rightarrow>
          if l \<le> 0 then Inl ErrFailed
          else rbind (draw (nat l - 1) prng) (\<lambda>(rs, prng).
            (let partial_sum = fold (\<lambda>rj p. p + rj) rs 0 in
             Inr (rs @ [secret + (- partial_sum)], prng))))"

definition additive_Deal ::
  "AdditiveScheme \<Rightarrow> ('e::ab_group_add) option \<Rightarrow> 'e list option \<Rightarrow> ((ID \<times> 'e AdditiveShare) list \<times> 'e list) res" where
  "additive_Deal d secret prng =
     (case prng of
        None \<Rightarrow> Inl ErrIsNil
      | Some _ \<Rightarrow>
          (case secret of
             None \<Rightarrow> Inl ErrIsNil
           | Some secret \<Rightarrow>
               (let ps = Unanimity_Shareholders (ad_ac d) in
                rbind (SumToSecret secret prng (int (hs_Size ps))) (\<lambda>(sharesList, prng).
                rbind (FoldOrError (\<lambda>shares (i, sid).
                    rbind (additive_NewShare sid (sharesList ! i) (Some (ad_ac d))) (\<lambda>s.
                      Inr (AList.update sid s shares))) [] (hs_Iter2 ps)) (\<lambda>shares.
                  Inr (shares, prng))))))"

definition additive_DealRandom ::
  "AdditiveScheme \<Rightarrow> ('e::ab_group_add) list option \<Rightarrow> ((ID \<times> 'e AdditiveShare) list \<times> 'e \<times> 'e list) res" where
  "additive_DealRandom d prng =
     (case prng of
        None \<Rightarrow> Inl ErrIsNil
      | Some prng \<Rightarrow>
          rbind (draw 1 prng) (\<lambda>(v, prng).
            rbind (additive_Deal d (Some (v ! 0)) (Some prng)) (\<lambda>(shares, prng). Inr (shares, v ! 0, prng))))"

definition additive_Reconstruct ::
  "AdditiveScheme \<Rightarrow> ('e::ab_group_add) AdditiveShare option list \<Rightarrow> 'e res" where
  "additive_Reconstruct d shares =
     rbind (CollectIDs ash_id shares) (\<lambda>ids.
       (let idSet = hs_NewComparable ids in
        if hs_Size idSet \<noteq> length ids then Inl ErrMembership
        else (let sharesSet = hs_List (hs_NewComparable (map the shares)) in
          if \<not> Unanimity_IsQualified (Some (ad_ac d)) ids then Inl ErrFailed
          else Inr (ash_v (foldl ash_Add (sharesSet ! 0) (drop 1 sharesSet))))))"

section \<open>Correctness\<close>

lemma foldl_ash_Add: "ash_v (foldl ash_Add s ss) = ash_v s + (\<Sum>x\<leftarrow>ss. ash_v x)"
  by (induction ss arbitrary: s) (simp_all add: ash_Add_def add.assoc)

lemma SumToSecret_ok:
  assumes "0 < l" "l - 1 \<le> length prng"
  shows "SumToSecret secret (Some prng) (int l) = Inr (take (l - 1) prng @ [secret - sum_list (take (l - 1) prng)], drop (l - 1) prng)"
proof -
  have "draw (l - 1) prng = Inr (take (l - 1) prng, drop (l - 1) prng)" using assms(2) by (rule draw_ok)
  then show ?thesis using assms(1) fold_add_list [of "\<lambda>x. x" "take (l - 1) prng" 0] by (simp add: SumToSecret_def)
qed

text \<open>The share values in the order of the shareholders.\<close>

definition dealt_values :: "ID list \<Rightarrow> ('e::ab_group_add) \<Rightarrow> 'e list \<Rightarrow> 'e list" where
  "dealt_values ps secret prng =
     take (length ps - 1) prng @ [secret - sum_list (take (length ps - 1) prng)]"

lemma dealt_values_length: "0 < length ps \<Longrightarrow> length ps - 1 \<le> length prng \<Longrightarrow> length (dealt_values ps secret prng) = length ps"
  by (simp add: dealt_values_def)

lemma dealt_values_sum: "sum_list (dealt_values ps secret prng) = secret"
  by (simp add: dealt_values_def)

lemma additive_Deal_ok:
  fixes secret :: "'e::ab_group_add"
  assumes wf: "Unanimity_wf (ad_ac d)" and len: "length (un_ps (ad_ac d)) - 1 \<le> length prng"
  defines "n \<equiv> length (un_ps (ad_ac d))"
  defines "vs \<equiv> dealt_values (un_ps (ad_ac d)) secret prng"
  shows "additive_Deal d (Some secret) (Some prng) =
      Inr (map (\<lambda>(sid, v). (sid, \<lparr>ash_id = sid, ash_v = v\<rparr>)) (zip (un_ps (ad_ac d)) vs), drop (n - 1) prng)"
proof -
  let ?ps = "un_ps (ad_ac d)"
  have ps: "distinct ?ps" "0 \<notin> set ?ps" "0 < n" using wf by (auto simp: Unanimity_wf_def hs_wf_def hs_Size_def n_def)
  have vs: "length vs = n" using len ps(3) by (simp add: vs_def n_def dealt_values_length)
  let ?f = "\<lambda>shares (i, sid). rbind (additive_NewShare sid (vs ! i) (Some (ad_ac d))) (\<lambda>s. Inr (AList.update sid s shares))"
  have step: "FoldOrError ?f [] (zip [0..<k] (take k ?ps)) =
      Inr (map (\<lambda>(sid, v). (sid, \<lparr>ash_id = sid, ash_v = v\<rparr>)) (zip (take k ?ps) (take k vs)))" if "k \<le> n" for k
    using that
  proof (induction k)
    case (Suc k)
    have k: "k < length ?ps" "k < length vs" using Suc.prems vs by (simp_all add: n_def)
    have "?ps ! k \<notin> set (take k ?ps)" using ps(1) k by (auto simp: in_set_conv_nth nth_eq_iff_index_eq)
    then have new: "?ps ! k \<notin> fst ` set (map (\<lambda>(sid, v). (sid, \<lparr>ash_id = sid, ash_v = v\<rparr>)) (zip (take k ?ps) (take k vs)))"
      by (auto dest: set_zip_leftD)
    have "?ps ! k \<in> set ?ps" using k by simp
    then have "additive_NewShare (?ps ! k) (vs ! k) (Some (ad_ac d)) = Inr \<lparr>ash_id = ?ps ! k, ash_v = vs ! k\<rparr>"
      using ps(2) by (auto simp: additive_NewShare_def NewAdditiveShare_def Unanimity_Shareholders_def)
    then show ?case
      using Suc k new by (simp add: take_Suc_conv_app_nth FoldOrError_append update_new_key)
  qed simp
  have "hs_Iter2 ?ps = zip [0..<n] (take n ?ps)" by (simp add: hs_Iter2_def n_def)
  moreover have "SumToSecret secret (Some prng) (int n) = Inr (vs, drop (n - 1) prng)"
    using SumToSecret_ok [of n prng secret] len ps(3) by (simp add: vs_def n_def dealt_values_def)
  ultimately show ?thesis
    using step [of n] vs by (simp add: additive_Deal_def Unanimity_Shareholders_def hs_Size_def n_def Let_def)
qed

lemma additive_Deal_len:
  assumes wf: "Unanimity_wf (ad_ac d)" and deal: "additive_Deal d (Some secret) (Some prng) = Inr (shares, prng')"
  shows "length (un_ps (ad_ac d)) - 1 \<le> length prng" "0 < length (un_ps (ad_ac d))"
proof -
  show n: "0 < length (un_ps (ad_ac d))" using wf by (auto simp: Unanimity_wf_def hs_Size_def)
  from deal n have "is_ok (draw (length (un_ps (ad_ac d)) - 1) prng)"
    by (auto simp: additive_Deal_def SumToSecret_def Unanimity_Shareholders_def hs_Size_def is_ok_iff Let_def split: if_splits)
  then show "length (un_ps (ad_ac d)) - 1 \<le> length prng" by (auto simp: is_ok_iff draw_Inr_iff)
qed

lemma additive_Deal_shares:
  assumes wf: "Unanimity_wf (ad_ac d)" and deal: "additive_Deal d (Some secret) (Some prng) = Inr (shares, prng')"
  shows "shares = map (\<lambda>(sid, v). (sid, \<lparr>ash_id = sid, ash_v = v\<rparr>)) (zip (un_ps (ad_ac d)) (dealt_values (un_ps (ad_ac d)) secret prng))"
    "prng' = drop (length (un_ps (ad_ac d)) - 1) prng"
  using additive_Deal_ok [OF wf additive_Deal_len(1) [OF assms], of secret] deal by simp_all

lemma sum_list_bump:
  fixes xs :: "('e::ab_group_add) list"
  assumes "k < length xs"
  shows "sum_list (xs[k := xs ! k + v]) = sum_list xs + v"
  using assms by (induction xs arbitrary: k) (auto simp: algebra_simps split: nat.splits)

text \<open>Changing the secret by \<open>v\<close> and, unless \<open>k\<close> is the last position, the sample at \<open>k\<close> by \<open>v\<close> moves
  only the value at \<open>k\<close>.\<close>

definition bump :: "nat \<Rightarrow> nat \<Rightarrow> 'e \<Rightarrow> ('e::ab_group_add) list" where
  "bump n k v = (if k < n - 1 then replicate k 0 @ [v] else [])"

lemma bump_length: "length (bump n k v) \<le> n - 1"
  by (simp add: bump_def)

lemma bump_shift:
  assumes "n - 1 \<le> length prng"
  shows "prng_shift (bump n k v) prng = (if k < n - 1 then prng[k := prng ! k + v] else prng)"
  using assms by (intro nth_equalityI) (auto simp: bump_def nth_append nth_list_update)

lemma dealt_values_bump:
  fixes secret :: "'e::ab_group_add" and secret' :: 'e
  assumes len: "length ps - 1 \<le> length prng" and k: "k < length ps"
  shows "dealt_values ps secret' (prng_shift (bump (length ps) k (secret' - secret)) prng) =
    (dealt_values ps secret prng)[k := dealt_values ps secret prng ! k + (secret' - secret)]"
proof (cases "k < length ps - 1")
  case True
  have "sum_list (take (length ps - 1) (prng[k := prng ! k + (secret' - secret)])) =
      sum_list (take (length ps - 1) prng) + (secret' - secret)"
    using True len sum_list_bump [of k "take (length ps - 1) prng"] by (simp add: take_update_swap)
  with True len show ?thesis
    by (simp add: bump_shift dealt_values_def list_update_append nth_append take_update_swap)
next
  case False
  then have "k = length ps - 1" using k by simp
  then show ?thesis using len by (simp add: bump_shift dealt_values_def list_update_append nth_append)
qed

lemma map_of_zip_list_update:
  assumes "k < length ps" "i \<noteq> ps ! k"
  shows "map_of (map (\<lambda>(sid, v). (sid, f sid v)) (zip ps (vs[k := x]))) i = map_of (map (\<lambda>(sid, v). (sid, f sid v)) (zip ps vs)) i"
  using assms
proof (induction ps arbitrary: vs k)
  case (Cons p ps)
  then show ?case by (cases vs; cases k) auto
qed simp

text \<open>Reconstruction from one share per identifier: all shareholders are needed, and the values are summed.\<close>

lemma additive_Reconstruct_values:
  fixes val :: "ID \<Rightarrow> 'e::ab_group_add"
  assumes wf: "Unanimity_wf u" and ids: "distinct ids"
  shows "additive_Reconstruct \<lparr>ad_ac = u\<rparr> (map (\<lambda>i. Some \<lparr>ash_id = i, ash_v = val i\<rparr>) ids) =
    (if set ids = set (un_ps u) then Inr (\<Sum>i\<leftarrow>ids. val i) else Inl ErrFailed)"
proof -
  let ?share = "\<lambda>i. \<lparr>ash_id = i, ash_v = val i\<rparr>"
  have given: "map (\<lambda>i. Some (?share i)) ids = map Some (map ?share ids)" by simp
  have inj: "distinct (map ?share ids)" using ids(1) by (simp add: distinct_map inj_on_def)
  have q: "Unanimity_IsQualified (Some u) ids \<longleftrightarrow> set ids = set (un_ps u)"
    by (simp add: Unanimity_IsQualified_auth unanimity_auth_def)
  have "ids \<noteq> []" if "set ids = set (un_ps u)" using that wf by (auto simp: Unanimity_wf_def hs_Size_def)
  then have "ash_v (foldl ash_Add (map ?share ids ! 0) (drop 1 (map ?share ids))) = (\<Sum>i\<leftarrow>ids. val i)" if "set ids = set (un_ps u)"
    using that by (cases ids) (auto simp: foldl_ash_Add comp_def)
  then show ?thesis
    unfolding additive_Reconstruct_def given CollectIDs_Some
    using ids inj q by (simp add: Let_def hs_New_distinct hs_List_def hs_Size_def comp_def)
qed

section \<open>The scheme as an implementation of the interface\<close>

text \<open>Linear schemes convert their shares to additive ones: the shares of a qualified quorum become
  additive shares of the same secret for the unanimity structure of the quorum.\<close>

locale lsss = sss wf Deal DealRandom Reconstruct CanReconstruct Shareholders
  for wf :: "'d \<Rightarrow> bool"
    and Deal :: "'d \<Rightarrow> ('w::ab_group_add) option \<Rightarrow> 'g list option \<Rightarrow> ((ID \<times> 'sh) list \<times> 'g list) res"
    and DealRandom :: "'d \<Rightarrow> 'g list option \<Rightarrow> ((ID \<times> 'sh) list \<times> 'w \<times> 'g list) res"
    and Reconstruct :: "'d \<Rightarrow> 'sh option list \<Rightarrow> 'w res"
    and CanReconstruct :: "'d \<Rightarrow> ID list \<Rightarrow> bool"
    and Shareholders :: "'d \<Rightarrow> ID hset" +
  fixes Convert :: "'d \<Rightarrow> 'sh option \<Rightarrow> Unanimity option \<Rightarrow> 'w AdditiveShare res"
  assumes convert: "wf d \<Longrightarrow> Deal d (Some w) (Some prng) = Inr (shares, rest) \<Longrightarrow> Unanimity_wf u \<Longrightarrow>
      set (un_ps u) \<subseteq> set (Shareholders d) \<Longrightarrow> CanReconstruct d (un_ps u) \<Longrightarrow>
      \<exists>val. (\<forall>i\<in>set (un_ps u). Convert d (map_of shares i) (Some u) = Inr \<lparr>ash_id = i, ash_v = val i\<rparr>) \<and>
        (\<Sum>i\<leftarrow>un_ps u. val i) = w"
begin

lemma convert_reconstruct:
  assumes "wf d" "Deal d (Some w) (Some prng) = Inr (shares, rest)" "Unanimity_wf u"
    "set (un_ps u) \<subseteq> set (Shareholders d)" "CanReconstruct d (un_ps u)" "distinct ids" "set ids = set (un_ps u)"
  shows "\<exists>as. MapOrError (\<lambda>i. Convert d (map_of shares i) (Some u)) ids = Inr as \<and>
    additive_Reconstruct \<lparr>ad_ac = u\<rparr> (map Some as) = Inr w"
proof -
  from convert [OF assms(1-5)] obtain val where
    val: "\<And>i. i \<in> set (un_ps u) \<Longrightarrow> Convert d (map_of shares i) (Some u) = Inr \<lparr>ash_id = i, ash_v = val i\<rparr>"
    and sum: "(\<Sum>i\<leftarrow>un_ps u. val i) = w" by blast
  have "MapOrError (\<lambda>i. Convert d (map_of shares i) (Some u)) ids = Inr (map (\<lambda>i. \<lparr>ash_id = i, ash_v = val i\<rparr>) ids)"
    by (rule MapOrError_ok) (simp add: val assms(7))
  moreover have "distinct (un_ps u)" using assms(3) by (simp add: Unanimity_wf_def hs_wf_def)
  then have "(\<Sum>i\<leftarrow>ids. val i) = w"
    using sum assms(6,7) by (simp add: sum_list_distinct_conv_sum_set)
  ultimately show ?thesis
    using additive_Reconstruct_values [OF assms(3,6), of val] assms(7) by (simp add: comp_def)
qed

end

lemma additive_dealt_share:
  assumes "Unanimity_wf (ad_ac d)" "additive_Deal d (Some secret) (Some prng) = Inr (shares, rest)"
  obtains val where "\<And>i. i \<in> set (un_ps (ad_ac d)) \<Longrightarrow> map_of shares i = Some \<lparr>ash_id = i, ash_v = val i\<rparr>"
    "(\<Sum>i\<leftarrow>un_ps (ad_ac d). val i) = secret" "map fst shares = un_ps (ad_ac d)"
proof -
  let ?ps = "un_ps (ad_ac d)"
  define vs where "vs = dealt_values ?ps secret prng"
  have vs: "length vs = length ?ps" "sum_list vs = secret"
    "shares = map (\<lambda>(sid, v). (sid, \<lparr>ash_id = sid, ash_v = v\<rparr>)) (zip ?ps vs)"
    using additive_Deal_len [OF assms] additive_Deal_shares(1) [OF assms] dealt_values_sum
    by (auto simp: vs_def dealt_values_length)
  have d: "distinct ?ps" using assms(1) by (simp add: Unanimity_wf_def hs_wf_def)
  define val where "val i = the (map_of (zip ?ps vs) i)" for i
  let ?share = "\<lambda>i. \<lparr>ash_id = i, ash_v = val i\<rparr>"
  have at: "val (?ps ! k) = vs ! k" if "k < length ?ps" for k
    using that vs(1) d by (simp add: val_def map_of_zip_nth)
  have sh: "shares = zip ?ps (map ?share ?ps)"
    using vs(1) at by (intro nth_equalityI) (simp_all add: vs(3))
  have "map_of shares i = Some (?share i)" if i: "i \<in> set ?ps" for i
  proof -
    from i obtain k where k: "i = ?ps ! k" "k < length ?ps" by (auto simp: in_set_conv_nth)
    show ?thesis unfolding sh using k d by (simp add: map_of_zip_nth)
  qed
  moreover have "(\<Sum>i\<leftarrow>?ps. val i) = sum_list vs"
    using at vs(1) by (intro arg_cong [of _ _ sum_list] nth_equalityI) simp_all
  ultimately show thesis using vs(2) by (intro that [of val]) (simp_all add: sh)
qed

lemma additive_Reconstruct_dealt:
  assumes wf: "Unanimity_wf (ad_ac d)" and deal: "additive_Deal d (Some secret) (Some prng) = Inr (shares, rest)"
    and ids: "distinct ids" "set ids \<subseteq> set (un_ps (ad_ac d))"
  shows "additive_Reconstruct d (map (map_of shares) ids) =
    (if set ids = set (un_ps (ad_ac d)) then Inr secret else Inl ErrFailed)"
proof -
  obtain val where val: "\<And>i. i \<in> set (un_ps (ad_ac d)) \<Longrightarrow> map_of shares i = Some \<lparr>ash_id = i, ash_v = val i\<rparr>"
    "(\<Sum>i\<leftarrow>un_ps (ad_ac d). val i) = secret"
    by (rule additive_dealt_share [OF wf deal]) blast
  have "map (map_of shares) ids = map (\<lambda>i. Some \<lparr>ash_id = i, ash_v = val i\<rparr>) ids" using val(1) ids(2) by auto
  moreover have "distinct (un_ps (ad_ac d))" using wf by (simp add: Unanimity_wf_def hs_wf_def)
  then have "(\<Sum>i\<leftarrow>ids. val i) = secret" if "set ids = set (un_ps (ad_ac d))"
    using that val(2) ids(1) by (simp add: sum_list_distinct_conv_sum_set)
  ultimately show ?thesis
    using additive_Reconstruct_values [OF wf ids(1), of val] by (cases d) (simp del: map_eq_conv)
qed

text \<open>The package has no methods for the policy and the shareholders of the scheme; those of its access structure
  take their place.\<close>

interpretation additive_sss: sss "\<lambda>d. Unanimity_wf (ad_ac d)" additive_Deal additive_DealRandom
  additive_Reconstruct "\<lambda>d. Unanimity_IsQualified (Some (ad_ac d))" "\<lambda>d. Unanimity_Shareholders (ad_ac d)"
proof (unfold_locales, goal_cases)
  case (1 d w prng shares rest)
  have "distinct (un_ps (ad_ac d))" using 1(1) by (simp add: Unanimity_wf_def hs_wf_def)
  moreover have "map fst shares = un_ps (ad_ac d)" using 1 by (rule additive_dealt_share)
  ultimately show ?case by (simp only: Unanimity_Shareholders_def)
next
  case (2 d w prng shares rest ids)
  then show ?case
    using additive_Reconstruct_dealt [of d w prng shares rest ids]
    by (simp add: Unanimity_Shareholders_def Unanimity_IsQualified_auth unanimity_auth_def)
next
  case (3 d prng shares w rest)
  then show ?case by (auto simp: additive_DealRandom_def)
qed (simp_all add: additive_Deal_def additive_DealRandom_def)

section \<open>Properties\<close>

text \<open>Additive sharing round trip: whatever the sampler delivered, the dealt shares in any order
  reconstruct to the secret, and any proper subset of the shareholders is refused.\<close>

theorem additive_roundtrip:
  fixes secret :: "'e::ab_group_add"
  assumes "NewUnanimityAccessStructure (Some ps) = Inr u" "hs_wf ps"
    and deal: "additive_Deal \<lparr>ad_ac = u\<rparr> (Some secret) (Some prng) = Inr (shares, prng')"
  shows "(\<forall>ids. distinct ids \<and> set ids = set ps \<longrightarrow>
      additive_Reconstruct \<lparr>ad_ac = u\<rparr> (map (map_of shares) ids) = Inr secret) \<and>
    (\<forall>ids. distinct ids \<and> set ids \<subset> set ps \<longrightarrow>
      additive_Reconstruct \<lparr>ad_ac = u\<rparr> (map (map_of shares) ids) = Inl ErrFailed)"
proof -
  from assms(1,2) have wf: "Unanimity_wf (ad_ac \<lparr>ad_ac = u\<rparr>)" and u: "un_ps u = ps"
    by (auto simp: NewUnanimityAccessStructure_def Unanimity_wf_def split: if_splits)
  from additive_Reconstruct_dealt [OF wf deal]
  have "additive_Reconstruct \<lparr>ad_ac = u\<rparr> (map (map_of shares) ids) = (if set ids = set ps then Inr secret else Inl ErrFailed)"
    if "distinct ids" "set ids \<subseteq> set ps" for ids
    using that by (simp add: u)
  then show ?thesis by (simp add: psubset_eq)
qed

theorem additive_roundtrip_witness:
  "\<exists>shares prng'. additive_Deal \<lparr>ad_ac = \<lparr>un_ps = [5, 2, 9]\<rparr>\<rparr> (Some 100) (Some [7, 30, 4 :: int]) = Inr (shares, prng') \<and>
     additive_Reconstruct \<lparr>ad_ac = \<lparr>un_ps = [5, 2, 9]\<rparr>\<rparr> (map (map_of shares) [2, 9, 5]) = Inr 100 \<and>
     additive_Reconstruct \<lparr>ad_ac = \<lparr>un_ps = [5, 2, 9]\<rparr>\<rparr> (map (map_of shares) [2, 9]) = Inl ErrFailed"
proof -
  have u: "NewUnanimityAccessStructure (Some [5, 2, 9]) = Inr \<lparr>un_ps = [5, 2, 9]\<rparr>"
    by (simp add: NewUnanimityAccessStructure_def hs_Size_def)
  have wf: "hs_wf [5, 2, 9 :: ID]" by (simp add: hs_wf_def)
  obtain shares prng' where deal:
    "additive_Deal \<lparr>ad_ac = \<lparr>un_ps = [5, 2, 9]\<rparr>\<rparr> (Some 100) (Some [7, 30, 4 :: int]) = Inr (shares, prng')"
    using additive_Deal_ok [of "\<lparr>ad_ac = \<lparr>un_ps = [5, 2, 9]\<rparr>\<rparr>" "[7, 30, 4 :: int]" 100]
    by (auto simp: Unanimity_wf_def hs_wf_def hs_Size_def)
  have "5 \<notin> set [2, 9 :: ID]" "5 \<in> set [5, 2, 9 :: ID]" "set [2, 9] \<subseteq> set [5, 2, 9 :: ID]" by simp_all
  then have "set [2, 9] \<subset> set [5, 2, 9 :: ID]" by blast
  moreover have "set [2, 9, 5] = set [5, 2, 9 :: ID]" by auto
  moreover have "distinct [2, 9, 5 :: ID]" "distinct [2, 9 :: ID]" by simp_all
  ultimately show ?thesis using additive_roundtrip [OF u wf deal] deal by blast
qed

text \<open>Additive sharing is perfectly private: for every shareholder left out and every two secrets there is
  one translation of the samples such that, for all samples, dealing the second secret with the translated
  samples gives all the remaining shareholders the very same shares and uses up as many samples.\<close>

theorem additive_privacy:
  fixes secret :: "'e::ab_group_add" and secret' :: 'e
  assumes "NewUnanimityAccessStructure (Some ps) = Inr u" "hs_wf ps" "j \<in> set ps"
  shows "\<exists>\<delta>. \<forall>prng. length ps - 1 \<le> length prng \<longrightarrow> (\<exists>shares shares' rest.
    additive_Deal \<lparr>ad_ac = u\<rparr> (Some secret) (Some prng) = Inr (shares, rest) \<and>
    additive_Deal \<lparr>ad_ac = u\<rparr> (Some secret') (Some (prng_shift \<delta> prng)) = Inr (shares', rest) \<and>
    (\<forall>i. i \<noteq> j \<longrightarrow> map_of shares' i = map_of shares i))"
proof -
  from assms(1,2) have wf: "Unanimity_wf (ad_ac \<lparr>ad_ac = u\<rparr>)" and u: "un_ps u = ps"
    by (auto simp: NewUnanimityAccessStructure_def Unanimity_wf_def split: if_splits)
  obtain k where k: "k < length ps" "j = ps ! k" using assms(3) by (auto simp: in_set_conv_nth)
  let ?\<delta> = "bump (length ps) k (secret' - secret)"
  have drop: "drop (length ps - 1) (prng_shift ?\<delta> prng) = drop (length ps - 1) prng" for prng
    by (rule prng_shift_drop) (rule bump_length)
  have vals: "dealt_values ps secret' (prng_shift ?\<delta> prng) = (dealt_values ps secret prng)[k := dealt_values ps secret prng ! k + (secret' - secret)]"
    if "length ps - 1 \<le> length prng" for prng
    by (rule dealt_values_bump [OF that k(1)])
  show ?thesis
  proof (intro exI [of _ ?\<delta>] allI impI)
    fix prng :: "'e list"
    assume len: "length ps - 1 \<le> length prng"
    have deal: "additive_Deal \<lparr>ad_ac = u\<rparr> (Some s) (Some q) =
        Inr (map (\<lambda>(sid, v). (sid, \<lparr>ash_id = sid, ash_v = v\<rparr>)) (zip ps (dealt_values ps s q)), drop (length ps - 1) q)"
      if "length q = length prng" for s and q :: "'e list"
      using additive_Deal_ok [OF wf, of q s] len that by (simp add: u)
    then show "\<exists>shares shares' rest. additive_Deal \<lparr>ad_ac = u\<rparr> (Some secret) (Some prng) = Inr (shares, rest) \<and>
      additive_Deal \<lparr>ad_ac = u\<rparr> (Some secret') (Some (prng_shift ?\<delta> prng)) = Inr (shares', rest) \<and>
      (\<forall>i. i \<noteq> j \<longrightarrow> map_of shares' i = map_of shares i)"
      using k vals [OF len] drop [of prng] by (simp add: map_of_zip_list_update)
  qed
qed

theorem additive_privacy_witness:
  "\<exists>\<delta> shares'. additive_Deal \<lparr>ad_ac = \<lparr>un_ps = [5, 2, 9]\<rparr>\<rparr> (Some 1000) (Some (prng_shift \<delta> [7, 30, 4])) = Inr (shares', [4 :: int]) \<and>
    map_of shares' 5 = Some \<lparr>ash_id = 5, ash_v = 7\<rparr> \<and> map_of shares' 9 = Some \<lparr>ash_id = 9, ash_v = 63\<rparr>"
proof -
  have u: "NewUnanimityAccessStructure (Some [5, 2, 9]) = Inr \<lparr>un_ps = [5, 2, 9]\<rparr>"
    by (simp add: NewUnanimityAccessStructure_def hs_Size_def)
  have wf: "hs_wf [5, 2, 9 :: ID]" by (simp add: hs_wf_def)
  have deal: "additive_Deal \<lparr>ad_ac = \<lparr>un_ps = [5, 2, 9]\<rparr>\<rparr> (Some 100) (Some [7, 30, 4 :: int]) =
      Inr ([(5, \<lparr>ash_id = 5, ash_v = 7\<rparr>), (2, \<lparr>ash_id = 2, ash_v = 30\<rparr>), (9, \<lparr>ash_id = 9, ash_v = 63\<rparr>)], [4])"
    using additive_Deal_ok [of "\<lparr>ad_ac = \<lparr>un_ps = [5, 2, 9]\<rparr>\<rparr>" "[7, 30, 4 :: int]" 100]
    by (simp add: Unanimity_wf_def hs_wf_def hs_Size_def dealt_values_def)
  let ?d = "\<lparr>ad_ac = \<lparr>un_ps = [5, 2, 9]\<rparr>\<rparr>" and ?prng = "[7, 30, 4 :: int]"
  have j: "2 \<in> set [5, 2, 9 :: ID]" and len: "length [5, 2, 9 :: ID] - 1 \<le> length ?prng" by simp_all
  obtain \<delta> where \<delta>: "\<forall>prng. length [5, 2, 9 :: ID] - 1 \<le> length prng \<longrightarrow> (\<exists>shares shares' rest.
    additive_Deal ?d (Some (100 :: int)) (Some prng) = Inr (shares, rest) \<and>
    additive_Deal ?d (Some 1000) (Some (prng_shift \<delta> prng)) = Inr (shares', rest) \<and>
    (\<forall>i. i \<noteq> 2 \<longrightarrow> map_of shares' i = map_of shares i))"
    using additive_privacy [OF u wf j, of 100 1000] by blast
  from \<delta> [rule_format, OF len] obtain shares shares' rest where
    d: "additive_Deal ?d (Some 100) (Some ?prng) = Inr (shares, rest)"
    and d': "additive_Deal ?d (Some 1000) (Some (prng_shift \<delta> ?prng)) = Inr (shares', rest)"
    and same: "\<forall>i. i \<noteq> 2 \<longrightarrow> map_of shares' i = map_of shares i" by blast
  from d deal have sh: "shares = [(5, \<lparr>ash_id = 5, ash_v = 7\<rparr>), (2, \<lparr>ash_id = 2, ash_v = 30\<rparr>), (9, \<lparr>ash_id = 9, ash_v = 63\<rparr>)]" "rest = [4]"
    by simp_all
  have "map_of shares' 5 = map_of shares 5" "map_of shares' 9 = map_of shares 9" using same by auto
  with d' sh show ?thesis by (intro exI [of _ \<delta>] exI [of _ shares']) simp
qed

end
