(* ===== verification/KW.thy ===== *)
theory KW
  imports InducedMSP Additive
begin

text \<open>
  The Karchmer-Wigderson scheme (\<open>pkg/mpc/sharing/scheme/kw\<close>): a secret is dealt as the product of the matrix
  of a monotone span programme with a random column that starts with the secret, a shareholder gets the entries
  of its rows, and a qualified set recombines its entries with the reconstruction vector. Shares carry one
  field element per row of their holder. Nil pointers are \<open>None\<close>; the dealt map is an association list.
\<close>

section \<open>Shares\<close>

record 'a KWShare =
  sh_id :: ID
  sh_v :: "'a list"

definition kw_NewShare :: "ID \<Rightarrow> 'a list \<Rightarrow> 'a KWShare res" where
  "kw_NewShare sid v = (if sid = 0 \<or> length v = 0 then Inl ErrArgument else Inr \<lparr>sh_id = sid, sh_v = v\<rparr>)"

definition kw_Equal :: "'a KWShare option \<Rightarrow> 'a KWShare option \<Rightarrow> bool" where
  "kw_Equal s other =
     (case (s, other) of
        (Some x, Some y) \<Rightarrow>
          if sh_id x \<noteq> sh_id y then False
          else if length (sh_v x) \<noteq> length (sh_v y) then False
          else list_all (\<lambda>i. sh_v x ! i = sh_v y ! i) [0..<length (sh_v x)]
      | (None, None) \<Rightarrow> True
      | _ \<Rightarrow> False)"

definition kw_Add :: "('a::field) KWShare \<Rightarrow> 'a KWShare \<Rightarrow> 'a KWShare res" where
  "kw_Add s other =
     (if sh_id s \<noteq> sh_id other then Inl Panic
      else if length (sh_v s) \<noteq> length (sh_v other) then Inl Panic
      else Inr \<lparr>sh_id = sh_id s, sh_v = map (\<lambda>i. sh_v s ! i + sh_v other ! i) [0..<length (sh_v s)]\<rparr>)"

definition kw_ScalarMul :: "('a::field) KWShare \<Rightarrow> 8 word list \<Rightarrow> 'a KWShare" where
  "kw_ScalarMul s scalar = \<lparr>sh_id = sh_id s, sh_v = map (\<lambda>x. scalarMul x scalar) (sh_v s)\<rparr>"

text \<open>Serialisation through a CBOR codec: the pair of identifier and values is what is encoded, and decoding
  validates it like the constructor.\<close>

definition kw_MarshalCBOR :: "(ID \<times> 'a list \<Rightarrow> 'b res) \<Rightarrow> 'a KWShare \<Rightarrow> 'b res" where
  "kw_MarshalCBOR enc s = enc (sh_id s, sh_v s)"

definition kw_UnmarshalCBOR :: "('b \<Rightarrow> (ID \<times> 'a list) res) \<Rightarrow> 'b \<Rightarrow> 'a KWShare res" where
  "kw_UnmarshalCBOR dec data = rbind (dec data) (\<lambda>(sid, v). kw_NewShare sid v)"

section \<open>The dealer function\<close>

record 'a DealerFunc =
  df_randomColumn :: "'a Matrix"
  df_msp :: "'a MSP"
  df_lambdaColumn :: "'a Matrix"

definition NewDealerFunc :: "('a::field) Matrix option \<Rightarrow> 'a MSP option \<Rightarrow> 'a DealerFunc res" where
  "NewDealerFunc randomColumn mspMatrix =
     (case mspMatrix of
        None \<Rightarrow> Inl ErrIsNil
      | Some m \<Rightarrow>
          (case randomColumn of
             None \<Rightarrow> Inl ErrIsNil
           | Some r \<Rightarrow>
               if \<not> mat_IsColumnVector r then Inl ErrValue
               else if mrows r < 2 then Inl ErrValue
               else rbind (mat_TryMul (msp_matrix m) r) (\<lambda>lambda.
                 Inr \<lparr>df_randomColumn = r, df_msp = m, df_lambdaColumn = lambda\<rparr>)))"

definition df_Secret :: "('a::field) DealerFunc \<Rightarrow> 'a res" where
  "df_Secret d =
     rbind (msp_TargetVector (df_msp d)) (\<lambda>t.
       case rbind (mat_TryMul t (df_randomColumn d)) (\<lambda>secretMat. mat_Get secretMat 0 0) of
         Inl _ \<Rightarrow> Inl Panic | Inr v \<Rightarrow> Inr v)"

definition ShareOf :: "'a DealerFunc \<Rightarrow> ID \<Rightarrow> 'a KWShare res" where
  "ShareOf d sid =
     (case map_of (holdersToRows (df_msp d)) sid of
        None \<Rightarrow> Inl ErrMembership
      | Some rowsi \<Rightarrow>
          rbind (mat_SubMatrixGivenRows (df_lambdaColumn d) (sort (hs_List rowsi))) (\<lambda>lambdaI.
            Inr \<lparr>sh_id = sid, sh_v = mat_Iter lambdaI\<rparr>))"

section \<open>The scheme\<close>

record 'a KWScheme =
  kw_msp :: "'a MSP"

definition NewInducedScheme :: "'a MSP option \<Rightarrow> 'a KWScheme res" where
  "NewInducedScheme m = (case m of None \<Rightarrow> Inl ErrIsNil | Some m \<Rightarrow> Inr \<lparr>kw_msp = m\<rparr>)"

definition CanReconstruct :: "('a::field) KWScheme \<Rightarrow> ID list \<Rightarrow> bool" where
  "CanReconstruct s ids = Accepts (kw_msp s) ids"

definition kw_Shareholders :: "'a KWScheme \<Rightarrow> ID hset" where
  "kw_Shareholders s = msp_Shareholders (kw_msp s)"

definition DealAndRevealDealerFunc ::
  "('a::field) KWScheme \<Rightarrow> 'a option \<Rightarrow> 'a list option \<Rightarrow> ((ID \<times> 'a KWShare) list \<times> 'a DealerFunc \<times> 'a list) res" where
  "DealAndRevealDealerFunc s secret prng =
     (case secret of
        None \<Rightarrow> Inl ErrIsNil
      | Some secret \<Rightarrow>
          (case prng of
             None \<Rightarrow> Inl ErrIsNil
           | Some prng \<Rightarrow>
               rbind (NewColumnVectorModule (msp_D (kw_msp s)) (Some ())) (\<lambda>columnFactory.
               rbind (mod_Random columnFactory prng) (\<lambda>(randomColumn, prng).
               rbind (mat_SetAssign randomColumn 0 0 secret) (\<lambda>randomColumn.
               rbind (NewDealerFunc (Some randomColumn) (Some (kw_msp s))) (\<lambda>df.
               rbind (FoldOrError (\<lambda>shares sid. rbind (ShareOf df sid) (\<lambda>share. Inr (AList.update sid share shares)))
                   [] (hs_List (msp_Shareholders (kw_msp s)))) (\<lambda>shares.
                 Inr (shares, df, prng))))))))"

definition DealRandomAndRevealDealerFunc ::
  "('a::field) KWScheme \<Rightarrow> 'a list option \<Rightarrow> ((ID \<times> 'a KWShare) list \<times> 'a \<times> 'a DealerFunc \<times> 'a list) res" where
  "DealRandomAndRevealDealerFunc s prng =
     (case prng of
        None \<Rightarrow> Inl ErrIsNil
      | Some prng \<Rightarrow>
          rbind (draw 1 prng) (\<lambda>(value, prng).
          rbind (DealAndRevealDealerFunc s (Some (value ! 0)) (Some prng)) (\<lambda>(shares, df, prng).
            Inr (shares, value ! 0, df, prng))))"

definition kw_DealRandom :: "('a::field) KWScheme \<Rightarrow> 'a list option \<Rightarrow> ((ID \<times> 'a KWShare) list \<times> 'a \<times> 'a list) res" where
  "kw_DealRandom s prng =
     rbind (DealRandomAndRevealDealerFunc s prng) (\<lambda>(shares, secret, df, prng). Inr (shares, secret, prng))"

definition kw_Deal :: "('a::field) KWScheme \<Rightarrow> 'a option \<Rightarrow> 'a list option \<Rightarrow> ((ID \<times> 'a KWShare) list \<times> 'a list) res" where
  "kw_Deal s secret prng = rbind (DealAndRevealDealerFunc s secret prng) (\<lambda>(out, df, prng). Inr (out, prng))"

text \<open>\<open>shareColumn\<close>: the first loop counts the rows of the given shares, the second one files each value under
  its row, and the third one writes the values into a column by ascending row.\<close>

definition shareColumn_count :: "'a MSP \<Rightarrow> 'a KWShare list \<Rightarrow> nat res" where
  "shareColumn_count m shares =
     FoldOrError (\<lambda>nRows sh.
         case map_of (holdersToRows m) (sh_id sh) of
           None \<Rightarrow> Inl ErrMembership
         | Some rowsi \<Rightarrow>
             if hs_Size rowsi \<noteq> length (sh_v sh) then Inl ErrVerification
             else Inr (nRows + length (hs_List rowsi))) 0 shares"

definition shareColumn_lambda :: "'m MSP \<Rightarrow> 'a KWShare list \<Rightarrow> (int \<times> 'a) list res" where
  "shareColumn_lambda m shares =
     FoldOrError (\<lambda>lambdaByRow sh.
         case map_of (holdersToRows m) (sh_id sh) of
           None \<Rightarrow> Inl ErrMembership
         | Some rowsi \<Rightarrow>
             (let sortedRows = sort (hs_List rowsi) in
              Inr (fold (\<lambda>(i, r) l. AList.update r (sh_v sh ! i) l)
                     (zip [0..<length sortedRows] sortedRows) lambdaByRow))) [] shares"

definition shareColumn :: "('a::field) KWScheme \<Rightarrow> 'a KWShare list \<Rightarrow> 'a Matrix res" where
  "shareColumn s shares =
     rbind (shareColumn_count (kw_msp s) shares) (\<lambda>nRows.
     rbind (NewMatrixModule nRows 1 (Some ())) (\<lambda>columnFactory.
     rbind (shareColumn_lambda (kw_msp s) shares) (\<lambda>lambdaByRow.
       (let ks = sort (map fst lambdaByRow) in
        FoldOrError (\<lambda>shareCol (i, r). mat_SetAssign shareCol (int i) 0 (the (map_of lambdaByRow r)))
          (mod_OpIdentity columnFactory) (zip [0..<length ks] ks)))))"

text \<open>\<open>Reconstruct\<close>: putting a nil share into the hash set calls \<open>HashCode\<close> on a nil pointer, which panics.\<close>

definition kw_Reconstruct :: "('a::field) KWScheme \<Rightarrow> 'a KWShare option list \<Rightarrow> 'a res" where
  "kw_Reconstruct s shares =
     (if length shares = 0 then Inl ErrValue
      else if list_ex (\<lambda>sh. sh = None) shares then Inl Panic
      else (let sharesSet = hs_NewComparable shares in
        rbind (CollectIDs sh_id (hs_List sharesSet)) (\<lambda>ids.
        rbind (ReconstructionVector (kw_msp s) ids) (\<lambda>reconVec.
        rbind (shareColumn s (map the shares)) (\<lambda>shareCol.
          DotProduct reconVec shareCol)))))"

subsection \<open>Conversion to additive shares\<close>

text \<open>The loop of \<open>slices.BinarySearch\<close>.\<close>

function binary_search_loop :: "int list \<Rightarrow> int \<Rightarrow> nat \<Rightarrow> nat \<Rightarrow> nat" where
  "binary_search_loop x target i j =
     (if i < j then
        (let h = (i + j) div 2 in
         if x ! h < target then binary_search_loop x target (h + 1) j else binary_search_loop x target i h)
      else i)"
  by pat_completeness auto
termination by (relation "measure (\<lambda>(x, target, i, j). j - i)") auto

declare binary_search_loop.simps [simp del]

definition BinarySearch :: "int list \<Rightarrow> int \<Rightarrow> nat \<times> bool" where
  "BinarySearch x target =
     (let i = binary_search_loop x target 0 (length x) in (i, i < length x \<and> x ! i = target))"

definition ConvertShareToAdditive ::
  "('a::field) KWScheme \<Rightarrow> 'a KWShare option \<Rightarrow> Unanimity option \<Rightarrow> 'a AdditiveShare res" where
  "ConvertShareToAdditive s share quorum =
     (case share of
        None \<Rightarrow> Inl ErrIsNil
      | Some share \<Rightarrow>
          (case quorum of
             None \<Rightarrow> Inl ErrIsNil
           | Some u \<Rightarrow>
               if \<not> hs_Contains (Unanimity_Shareholders u) (sh_id share) then Inl ErrMembership
               else (let quorumIDs = hs_List (Unanimity_Shareholders u); htr = holdersToRows (kw_msp s) in
                 rbind (ReconstructionVector (kw_msp s) quorumIDs) (\<lambda>reconVec.
                 rbind (shareColumn s [share]) (\<lambda>shareCol.
                 rbind (FoldOrError (\<lambda>rows sid. case map_of htr sid of
                     None \<Rightarrow> Inl ErrMembership | Some rs \<Rightarrow> Inr (rows @ hs_List rs)) [] quorumIDs) (\<lambda>rows.
                   (let allQuorumRows = sort rows in
                    case map_of htr (sh_id share) of
                      None \<Rightarrow> Inl ErrMembership
                    | Some shareholderAbsRowsSet \<Rightarrow>
                        (let shareholderAbsRows = sort (hs_List shareholderAbsRowsSet) in
                         rbind (MapOrError (\<lambda>absRow. case BinarySearch allQuorumRows absRow of
                             (pos, found) \<Rightarrow> if \<not> found then Inl ErrFailed else Inr (int pos))
                           shareholderAbsRows) (\<lambda>reconPositions.
                         rbind (mat_SubMatrixGivenRows reconVec reconPositions) (\<lambda>reconSubVec.
                         rbind (DotProduct reconSubVec shareCol) (\<lambda>additiveShareValue.
                           additive_NewShare (sh_id share) additiveShareValue (Some u))))))))))))"

section \<open>Shares by rows\<close>

text \<open>The share of a holder when row \<open>i\<close> of the programme carries the value \<open>lam i\<close>.\<close>

definition row_share :: "'m MSP \<Rightarrow> (nat \<Rightarrow> 'a) \<Rightarrow> ID \<Rightarrow> 'a KWShare" where
  "row_share m lam sid = \<lparr>sh_id = sid, sh_v = map lam (rows_for m {sid})\<rparr>"

lemma row_share_simps [simp]: "sh_id (row_share m lam sid) = sid" "sh_v (row_share m lam sid) = map lam (rows_for m {sid})"
  by (simp_all add: row_share_def)

lemma holder_rows:
  assumes "msp_wf m" "sid \<in> msp_holders m"
  obtains rs where "map_of (holdersToRows m) sid = Some rs" "sort (hs_List rs) = map int (rows_for m {sid})"
    "hs_Size rs = length (rows_for m {sid})" "length (hs_List rs) = length (rows_for m {sid})"
    "distinct rs" "set rs = int ` set (rows_for m {sid})"
proof -
  from rows_of_holder [OF assms(1), of sid] assms(2) obtain rs where rs: "map_of (holdersToRows m) sid = Some rs"
    "distinct rs" "set rs = int ` set (rows_for m {sid})" by (auto split: option.splits)
  have srt: "sort rs = map int (rows_for m {sid})" by (rule sort_rows [OF rs(2,3)])
  have "length rs = length (rows_for m {sid})" using arg_cong [OF srt, of length] by simp
  then show thesis using rs srt by (intro that [of rs]) (simp_all add: hs_List_def hs_Size_def)
qed

lemma holder_none: "msp_wf m \<Longrightarrow> sid \<notin> msp_holders m \<Longrightarrow> map_of (holdersToRows m) sid = None"
  using rows_of_holder [of m sid] by (auto split: option.splits)

lemma column_data: "mdata (mat_fill n 1 f) = map (\<lambda>i. f i 0) [0..<n]"
  by (simp add: mat_fill_def)

lemma holder_has_rows: "sid \<in> msp_holders m \<Longrightarrow> rows_for m {sid} \<noteq> []"
  by (rule rows_for_nonempty) auto

lemma holder_entries:
  fixes l :: "'b Matrix"
  assumes wf: "msp_wf m" and l: "mat_wf l" "mrows l = mrows (msp_matrix m)" "mcols l = 1" and sid: "sid \<in> msp_holders m"
  obtains rs sub where "map_of (holdersToRows m) sid = Some rs" "mat_SubMatrixGivenRows l (sort (hs_List rs)) = Inr sub"
    "mat_Iter sub = map (\<lambda>i. ent l i 0) (rows_for m {sid})"
proof -
  let ?rows = "rows_for m {sid}"
  obtain rs where rs: "map_of (holdersToRows m) sid = Some rs" "sort (hs_List rs) = map int ?rows"
    by (rule holder_rows [OF wf sid]) blast
  have "mat_SubMatrixGivenRows l (map int ?rows) = Inr (mat_fill (length ?rows) 1 (\<lambda>k. ent l (?rows ! k)))"
    unfolding l(3) [symmetric]
    by (rule mat_SubMatrixGivenRows_ok [OF l(1) holder_has_rows [OF sid]]) (simp add: l(2) rows_for_less)
  moreover have "mat_Iter (mat_fill (length ?rows) 1 (\<lambda>k. ent l (?rows ! k))) = map (\<lambda>i. ent l i 0) ?rows"
    by (rule nth_equalityI) (simp_all only: mat_Iter_def column_data, simp_all)
  ultimately show thesis by (rule that [OF rs(1), unfolded rs(2)])
qed

lemma ShareOf_ok:
  assumes wf: "msp_wf (df_msp d)" and l: "mat_wf (df_lambdaColumn d)"
    "mrows (df_lambdaColumn d) = mrows (msp_matrix (df_msp d))" "mcols (df_lambdaColumn d) = 1"
  shows "ShareOf d sid = (if sid \<in> msp_holders (df_msp d)
    then Inr (row_share (df_msp d) (\<lambda>i. ent (df_lambdaColumn d) i 0) sid) else Inl ErrMembership)"
proof (cases "sid \<in> msp_holders (df_msp d)")
  case True
  show ?thesis by (rule holder_entries [OF wf l True]) (use True in \<open>simp add: ShareOf_def row_share_def\<close>)
qed (simp add: ShareOf_def holder_none [OF wf])

section \<open>The share column\<close>

lemma rows_count:
  "distinct ids \<Longrightarrow> (\<Sum>sid\<leftarrow>ids. length (rows_for m {sid})) = length (rows_for m (set ids))"
proof (induction ids)
  case (Cons x xs)
  have len: "length (rows_for m A) = card (set (rows_for m A))" for A
    by (simp add: distinct_card rows_for_sorted(2))
  have "set (rows_for m {x}) \<inter> set (rows_for m (set xs)) = {}" using Cons.prems by (auto simp: rows_for_def)
  then have "card (set (rows_for m (insert x (set xs)))) = card (set (rows_for m {x})) + card (set (rows_for m (set xs)))"
    using rows_for_Union [of m "{x}" "set xs"] by (simp add: card_Un_disjoint)
  with Cons show ?case by (simp add: len)
qed (simp add: rows_for_def)

lemma shareColumn_count_ok:
  assumes "msp_wf m" "set ids \<subseteq> msp_holders m"
  shows "shareColumn_count m (map (row_share m lam) ids) = Inr (\<Sum>sid\<leftarrow>ids. length (rows_for m {sid}))"
  using assms(2)
proof (induction ids rule: rev_induct)
  case (snoc x xs)
  obtain rs where rs: "map_of (holdersToRows m) x = Some rs" "hs_Size rs = length (rows_for m {x})"
    "length (hs_List rs) = length (rows_for m {x})"
    by (rule holder_rows [OF assms(1), of x]) (use snoc.prems in auto)
  then show ?case using snoc by (simp add: shareColumn_count_def FoldOrError_append)
qed (simp add: shareColumn_count_def)

lemma fold_update_pairs:
  assumes "\<And>i r. (i, r) \<in> set ps \<Longrightarrow> f i = g r" "distinct (map fst l)"
  shows "distinct (map fst (fold (\<lambda>(i, r) l. AList.update r (f i) l) ps l)) \<and>
    map_of (fold (\<lambda>(i, r) l. AList.update r (f i) l) ps l) = (\<lambda>r. if r \<in> snd ` set ps then Some (g r) else map_of l r)"
  using assms
proof (induction ps arbitrary: l)
  case (Cons p ps)
  obtain i r where p: "p = (i, r)" by (cases p)
  have "distinct (map fst (AList.update r (f i) l))" using Cons.prems(2) by (simp add: distinct_update)
  with Cons.IH [of "AList.update r (f i) l"] Cons.prems show ?case
    by (auto simp: p update_conv' fun_eq_iff)
qed simp

lemma shareColumn_lambda_ok:
  assumes wf: "msp_wf m" and ids: "set ids \<subseteq> msp_holders m"
  shows "\<exists>l. shareColumn_lambda m (map (row_share m lam) ids) = Inr l \<and> distinct (map fst l) \<and>
    map_of l = (\<lambda>r. if r \<in> int ` set (rows_for m (set ids)) then Some (lam (nat r)) else None)"
  using ids
proof (induction ids rule: rev_induct)
  case Nil
  then show ?case by (simp add: shareColumn_lambda_def rows_for_def)
next
  case (snoc x xs)
  let ?rows = "rows_for m {x}"
  from snoc obtain l where l: "shareColumn_lambda m (map (row_share m lam) xs) = Inr l" "distinct (map fst l)"
    "map_of l = (\<lambda>r. if r \<in> int ` set (rows_for m (set xs)) then Some (lam (nat r)) else None)" by auto
  obtain rs where rs: "map_of (holdersToRows m) x = Some rs" "sort (hs_List rs) = map int ?rows"
    by (rule holder_rows [OF wf, of x]) (use snoc.prems in auto)
  let ?ps = "zip [0..<length ?rows] (map int ?rows)"
  let ?l = "fold (\<lambda>(i, r) l. AList.update r (map lam ?rows ! i) l) ?ps l"
  have vals: "map lam ?rows ! i = lam (nat r)" if "(i, r) \<in> set ?ps" for i r
    using that by (auto simp: set_zip)
  have snd: "snd ` set ?ps = int ` set ?rows" by (force simp: set_zip in_set_conv_nth image_iff)
  note upd = fold_update_pairs [of ?ps "(!) (map lam ?rows)" "\<lambda>r. lam (nat r)" l, OF vals l(2)]
  have "shareColumn_lambda m (map (row_share m lam) (xs @ [x])) = Inr ?l"
    using l(1) rs by (simp add: shareColumn_lambda_def FoldOrError_append Let_def)
  moreover have "map_of ?l = (\<lambda>r. if r \<in> int ` set (rows_for m (set (xs @ [x]))) then Some (lam (nat r)) else None)"
    using upd rows_for_Union [of m "set xs" "{x}"] by (auto simp: snd l(3) fun_eq_iff)
  ultimately show ?case using upd by blast
qed

lemma column_fill:
  fixes f :: "'r \<Rightarrow> 'a::zero"
  assumes "length ks = n"
  shows "FoldOrError (\<lambda>col (i, r). mat_SetAssign col (int i) 0 (f r)) \<lparr>mrows = n, mcols = 1, mdata = replicate n 0\<rparr>
      (zip [0..<n] ks) = Inr (mat_fill n 1 (\<lambda>k _. f (ks ! k)))"
proof -
  have "FoldOrError (\<lambda>col (i, r). mat_SetAssign col (int i) 0 (f r)) \<lparr>mrows = n, mcols = 1, mdata = replicate n 0\<rparr>
      (zip [0..<k] (take k ks)) = Inr \<lparr>mrows = n, mcols = 1, mdata = map f (take k ks) @ replicate (n - k) 0\<rparr>" if "k \<le> n" for k
    using that
  proof (induction k)
    case (Suc k)
    then have "replicate (n - k) (0::'a) = 0 # replicate (n - Suc k) 0" by (simp add: Suc_diff_Suc replicate_Suc [symmetric])
    then have "(map f (take k ks) @ replicate (n - k) 0)[k := f (ks ! k)] = map f (take k ks) @ f (ks ! k) # replicate (n - Suc k) 0"
      using Suc.prems assms by (simp add: list_update_append)
    with Suc assms show ?case
      by (simp add: take_Suc_conv_app_nth FoldOrError_append mat_SetAssign_def mat_idx_def)
  qed simp
  from this [of n] assms show ?thesis by (simp add: mat_fill_def) (rule nth_equalityI; simp)
qed

lemma shareColumn_ok:
  assumes wf: "msp_wf m" and ids: "ids \<noteq> []" "distinct ids" "set ids \<subseteq> msp_holders m"
  defines "rows \<equiv> rows_for m (set ids)"
  shows "shareColumn \<lparr>kw_msp = m\<rparr> (map (row_share m lam) ids) = Inr (mat_fill (length rows) 1 (\<lambda>k _. lam (rows ! k)))"
proof -
  obtain l where l: "shareColumn_lambda m (map (row_share m lam) ids) = Inr l" "distinct (map fst l)"
    "map_of l = (\<lambda>r. if r \<in> int ` set rows then Some (lam (nat r)) else None)"
    using shareColumn_lambda_ok [OF wf ids(3), of lam] by (auto simp: rows_def)
  have "set (map fst l) = int ` set rows"
    using dom_map_of_conv_image_fst [of l] by (auto simp: l(3) dom_def split: if_splits)
  then have srt: "sort (map fst l) = map int rows" unfolding rows_def by (rule sort_rows [OF l(2)])
  have len: "length l = length rows" using arg_cong [OF srt, of length] by simp
  have "rows \<noteq> []" unfolding rows_def using ids by (intro rows_for_nonempty) auto
  then have module: "NewMatrixModule (length rows) 1 (Some ()) = Inr \<lparr>modrows = length rows, modcols = 1\<rparr>"
    by (simp add: NewMatrixModule_def)
  have "FoldOrError (\<lambda>col (i, r). mat_SetAssign col (int i) 0 (the (map_of l r)))
      \<lparr>mrows = length rows, mcols = 1, mdata = replicate (length rows) 0\<rparr> (zip [0..<length rows] (map int rows))
      = Inr (mat_fill (length rows) 1 (\<lambda>k _. the (map_of l (map int rows ! k))))"
    by (rule column_fill) simp
  moreover have "mat_fill (length rows) 1 (\<lambda>k _. the (map_of l (map int rows ! k))) = mat_fill (length rows) 1 (\<lambda>k _. lam (rows ! k))"
    by (simp add: mat_fill_def l(3))
  ultimately show ?thesis
    using shareColumn_count_ok [OF wf ids(3), of lam] rows_count [OF ids(2), of m] l(1) module srt len
    by (simp add: shareColumn_def mod_OpIdentity_def rows_def [symmetric] Let_def)
qed

section \<open>Dealing and reconstructing\<close>

text \<open>The value of row \<open>i\<close> for the random column \<open>r\<close>, and the column dealt for a secret and samples.\<close>

definition row_value :: "('a::field) MSP \<Rightarrow> (nat \<Rightarrow> 'a) \<Rightarrow> nat \<Rightarrow> 'a" where
  "row_value m r i = (\<Sum>c<mcols (msp_matrix m). ent (msp_matrix m) i c * r c)"

definition dealt_column :: "'a \<Rightarrow> 'a list \<Rightarrow> nat \<Rightarrow> 'a" where
  "dealt_column secret prng c = (if c = 0 then secret else prng ! c)"

lemma deal_loop:
  assumes "distinct ids" "\<And>sid. sid \<in> set ids \<Longrightarrow> sh sid = Inr (g sid)"
  shows "FoldOrError (\<lambda>shares sid. rbind (sh sid) (\<lambda>share. Inr (AList.update sid share shares))) [] ids =
    Inr (map (\<lambda>sid. (sid, g sid)) ids)"
  using assms
proof (induction ids rule: rev_induct)
  case (snoc x xs)
  then have "x \<notin> fst ` set (map (\<lambda>sid. (sid, g sid)) xs)" by auto
  with snoc show ?case by (simp add: FoldOrError_append update_new_key)
qed simp

lemma DealAndReveal_ok:
  assumes wf: "msp_wf m" and D: "2 \<le> mcols (msp_matrix m)" "mcols (msp_matrix m) \<le> length prng"
  obtains df where "DealAndRevealDealerFunc \<lparr>kw_msp = m\<rparr> (Some secret) (Some prng) =
    Inr (map (\<lambda>sid. (sid, row_share m (row_value m (dealt_column secret prng)) sid)) (msp_Shareholders m), df,
      drop (mcols (msp_matrix m)) prng)" "df_Secret df = Inr secret"
    "mat_wf (df_randomColumn df)" "mrows (df_randomColumn df) = mcols (msp_matrix m)" "mcols (df_randomColumn df) = 1"
    "\<And>c. c < mcols (msp_matrix m) \<Longrightarrow> ent (df_randomColumn df) c 0 = dealt_column secret prng c"
    "df_msp df = m" "mat_TryMul (msp_matrix m) (df_randomColumn df) = Inr (df_lambdaColumn df)"
proof -
  let ?D = "mcols (msp_matrix m)" and ?M = "msp_matrix m"
  define r where "r = \<lparr>mrows = ?D, mcols = 1, mdata = (take ?D prng)[0 := secret]\<rparr>"
  have M: "mat_wf ?M" using wf by (simp add: msp_wf_def)
  have r: "mat_wf r" "mrows r = ?D" "mcols r = 1" using D by (simp_all add: r_def mat_wf_def)
  have ent: "ent r c 0 = dealt_column secret prng c" if "c < ?D" for c
    using that D by (simp add: r_def ent_def mat_idx_def dealt_column_def nth_list_update)
  obtain lambda where lambda: "mat_TryMul ?M r = Inr lambda" by (simp add: mat_TryMul_ok r(2))
  note le = mat_TryMul_ent [OF lambda]
  define df where "df = \<lparr>df_randomColumn = r, df_msp = m, df_lambdaColumn = lambda\<rparr>"
  have new: "NewDealerFunc (Some r) (Some m) = Inr df"
    using r D(1) lambda by (simp add: NewDealerFunc_def mat_IsColumnVector_def df_def)
  have vals: "ent lambda i 0 = row_value m (dealt_column secret prng) i" if "i < mrows ?M" for i
    using le(4) [OF that, of 0] r(3) ent by (simp add: row_value_def)
  have "ShareOf df sid = Inr (row_share m (row_value m (dealt_column secret prng)) sid)" if "sid \<in> msp_holders m" for sid
    using ShareOf_ok [of df sid] wf le(2,3,5) M r(1,3) that vals rows_for_less [of _ m "{sid}"]
    by (simp add: df_def row_share_def cong: map_cong)
  then have "FoldOrError (\<lambda>shares sid. rbind (ShareOf df sid) (\<lambda>share. Inr (AList.update sid share shares))) [] (msp_Shareholders m) =
      Inr (map (\<lambda>sid. (sid, row_share m (row_value m (dealt_column secret prng)) sid)) (msp_Shareholders m))"
    using msp_Shareholders_holders [OF wf] by (intro deal_loop) (simp_all add: msp_Shareholders_def)
  moreover have "mod_Random \<lparr>modrows = ?D, modcols = 1\<rparr> prng =
      Inr (\<lparr>mrows = ?D, mcols = 1, mdata = take ?D prng\<rparr>, drop ?D prng)"
    using D(2) draw_ok [OF D(2)] by (simp add: mod_Random_def mod_NewRowMajor_def)
  moreover have "mat_SetAssign \<lparr>mrows = ?D, mcols = 1, mdata = take ?D prng\<rparr> 0 0 secret = Inr r"
    using D(1) by (simp add: mat_SetAssign_def mat_idx_def r_def)
  ultimately have deal: "DealAndRevealDealerFunc \<lparr>kw_msp = m\<rparr> (Some secret) (Some prng) =
    Inr (map (\<lambda>sid. (sid, row_share m (row_value m (dealt_column secret prng)) sid)) (msp_Shareholders m), df, drop ?D prng)"
    using D(1) new by (simp add: DealAndRevealDealerFunc_def NewColumnVectorModule_def NewMatrixModule_def msp_D_def hs_List_def)
  obtain t where t: "msp_TargetVector m = Inr t" "mat_wf t" "mrows t = 1" "mcols t = ?D"
    "\<And>c. c < ?D \<Longrightarrow> ent t 0 c = (if c = 0 then 1 else 0)"
    by (rule msp_TargetVector_ok [OF M]) (rule that, blast+)
  obtain p where p: "mat_TryMul t r = Inr p" by (simp add: mat_TryMul_ok t(4) r(2))
  note pe = mat_TryMul_ent [OF p]
  have "ent p 0 0 = (\<Sum>k<?D. ent t 0 k * ent r k 0)" using pe(4) [of 0 0] t(3,4) r(3) by simp
  also have "\<dots> = ent r 0 0" using D(1) t(5) by (subst sum_single [of 0]) auto
  finally have "mat_Get p 0 0 = Inr secret"
    using pe(2,3) t(3) r(3) D(1) ent [of 0] by (simp add: mat_Get_def ent_def dealt_column_def)
  then have "df_Secret df = Inr secret" using t(1) p by (simp add: df_Secret_def df_def)
  with deal show thesis by (rule that) (use r ent lambda in \<open>simp_all add: df_def\<close>)
qed

lemma DotProduct_columns:
  assumes "mat_wf x" "mcols x = 1" "mrows x = n"
  shows "DotProduct x (mat_fill n 1 (\<lambda>k _. f k)) = Inr (\<Sum>k<n. ent x k 0 * f k)"
proof -
  have v: "mat_vectorLength x = int n" "mat_vectorLength (mat_fill n 1 (\<lambda>k _. f k)) = int n"
    using assms by (simp_all add: mat_vectorLength_def mat_IsRowVector_def mat_IsColumnVector_def mat_simps)
  have "(\<Sum>k<n. mdata x ! k * mdata (mat_fill n 1 (\<lambda>k _. f k)) ! k) = (\<Sum>k<n. ent x k 0 * f k)"
    unfolding column_data by (intro sum.cong refl) (simp add: ent_def mat_idx_def assms)
  then show ?thesis by (simp add: DotProduct_def v loop_simps del: One_nat_def)
qed

lemma combine_rows:
  fixes m :: "('a::field) MSP"
  assumes "0 < mcols (msp_matrix m)" "\<And>k. k < length rows \<Longrightarrow> lam (rows ! k) = row_value m r (rows ! k)"
    and "\<And>c. c < mcols (msp_matrix m) \<Longrightarrow> (\<Sum>k<length rows. x k * ent (msp_matrix m) (rows ! k) c) = (if c = 0 then 1 else 0)"
  shows "(\<Sum>k<length rows. x k * lam (rows ! k)) = r 0"
proof -
  let ?M = "msp_matrix m"
  have "(\<Sum>k<length rows. x k * lam (rows ! k)) = (\<Sum>k<length rows. \<Sum>c<mcols ?M. x k * ent ?M (rows ! k) c * r c)"
    using assms(2) by (simp add: row_value_def sum_distrib_left mult.assoc)
  also have "\<dots> = (\<Sum>c<mcols ?M. (\<Sum>k<length rows. x k * ent ?M (rows ! k) c) * r c)"
    by (subst sum.swap) (simp add: sum_distrib_right)
  also have "\<dots> = (\<Sum>c<mcols ?M. (if c = 0 then 1 else 0) * r c)" using assms(3) by simp
  also have "\<dots> = r 0" using assms(1) by (subst sum_single [of 0]) auto
  finally show ?thesis .
qed

text \<open>What \<open>Reconstruct\<close> returns on shares whose rows carry given values, and when these are the values of a
  random column.\<close>

lemma kw_Reconstruct_values:
  fixes m :: "('a::field) MSP"
  assumes wf: "msp_wf m" and ids: "ids \<noteq> []" "distinct ids" "set ids \<subseteq> msp_holders m"
  defines "rows \<equiv> rows_for m (set ids)"
  shows "kw_Reconstruct \<lparr>kw_msp = m\<rparr> (map (\<lambda>sid. Some (row_share m lam sid)) ids) =
    rbind (ReconstructionVector m ids) (\<lambda>x. Inr (\<Sum>k<length rows. ent x k 0 * lam (rows ! k)))"
proof -
  let ?shares = "map (\<lambda>sid. Some (row_share m lam sid)) ids"
  have "distinct ?shares" using ids(2) by (auto simp: distinct_map inj_on_def row_share_def)
  then have set: "hs_NewComparable ?shares = ?shares" by (rule hs_New_distinct)
  have col: "CollectIDs sh_id ?shares = Inr ids"
    by (simp add: CollectIDs_map_Some)
  have "\<not> list_ex (\<lambda>sh. sh = None) ?shares" by (auto simp: list_ex_iff)
  then have "kw_Reconstruct \<lparr>kw_msp = m\<rparr> ?shares = rbind (ReconstructionVector m ids) (\<lambda>x. DotProduct x (mat_fill (length rows) 1 (\<lambda>k _. lam (rows ! k))))"
    using ids(1) set col shareColumn_ok [OF wf ids, of lam]
    by (simp add: kw_Reconstruct_def hs_List_def comp_def rows_def)
  moreover note ReconstructionVector_spec [OF wf ids(1,3), folded rows_def]
  ultimately show ?thesis
    by (cases "ReconstructionVector m ids") (simp_all add: DotProduct_columns del: One_nat_def)
qed

lemma kw_Reconstruct_rows:
  fixes m :: "('a::field) MSP"
  assumes wf: "msp_wf m" and ids: "ids \<noteq> []" "distinct ids" "set ids \<subseteq> msp_holders m"
    and lam: "\<And>i. i < mrows (msp_matrix m) \<Longrightarrow> lam i = row_value m r i"
  shows "kw_Reconstruct \<lparr>kw_msp = m\<rparr> (map (\<lambda>sid. Some (row_share m lam sid)) ids) =
    (if Accepts m ids then Inr (r 0) else Inl ErrFailed)"
proof -
  let ?rows = "rows_for m (set ids)"
  note spec = ReconstructionVector_spec [OF wf ids(1,3)]
  have "(\<Sum>k<length ?rows. ent x k 0 * lam (?rows ! k)) = r 0" if x: "ReconstructionVector m ids = Inr x" for x
  proof (rule combine_rows)
    show "0 < mcols (msp_matrix m)" using wf by (simp add: msp_wf_def mat_wf_def)
    show "lam (?rows ! k) = row_value m r (?rows ! k)" if "k < length ?rows" for k
      by (rule lam) (rule rows_for_less [OF nth_mem [OF that]])
    show "(\<Sum>k<length ?rows. ent x k 0 * ent (msp_matrix m) (?rows ! k) c) = (if c = 0 then 1 else 0)"
      if "c < mcols (msp_matrix m)" for c
      using spec x that by simp
  qed
  with spec kw_Reconstruct_values [OF wf ids, of lam] show ?thesis
    by (cases "ReconstructionVector m ids") (simp_all add: Accepts_def)
qed

text \<open>Shares of distinct holders that have the right lengths are given by the values of rows.\<close>

lemma shares_as_rows:
  assumes "msp_wf m" "distinct (map sh_id shs)" "\<And>sh. sh \<in> set shs \<Longrightarrow> length (sh_v sh) = length (rows_for m {sh_id sh})"
  obtains lam where "shs = map (row_share m lam) (map sh_id shs)"
proof -
  define lam where "lam i = the (map_of (zip (rows_for m {row_label m i}) (sh_v (the (map_of (map (\<lambda>s. (sh_id s, s)) shs) (row_label m i))))) i)" for i
  have "sh = row_share m lam (sh_id sh)" if sh: "sh \<in> set shs" for sh
  proof -
    let ?rows = "rows_for m {sh_id sh}"
    have own: "map_of (map (\<lambda>s. (sh_id s, s)) shs) (sh_id sh) = Some sh"
      using sh assms(2) by (intro map_of_is_SomeI) (auto simp: comp_def)
    have "lam (?rows ! k) = sh_v sh ! k" if k: "k < length ?rows" for k
    proof -
      have "row_label m (?rows ! k) = sh_id sh" using nth_mem [OF k] by (simp add: rows_for_def)
      then show ?thesis
        using own assms(3) [OF sh] k rows_for_sorted(2) [of m "{sh_id sh}"] by (simp add: lam_def map_of_zip_nth)
    qed
    then have "map lam ?rows = sh_v sh" using assms(3) [OF sh] by (intro nth_equalityI) simp_all
    then show ?thesis by (simp add: row_share_def)
  qed
  then show thesis by (intro that [of lam]) (simp add: map_idI [symmetric] comp_def)
qed

text \<open>A repeated share is counted twice, so the share column is too long and \<open>Reconstruct\<close> ends in an error.\<close>

lemma SetAssign_dims:
  "FoldOrError (\<lambda>col (i, r). mat_SetAssign col (int i) 0 (f r)) c ps = Inr c' \<Longrightarrow> mrows c' = mrows c \<and> mcols c' = mcols c"
proof (induction ps arbitrary: c)
  case (Cons p ps)
  obtain i r where p: "p = (i, r)" by (cases p)
  from Cons.prems obtain d where "mat_SetAssign c (int i) 0 (f r) = Inr d"
    "FoldOrError (\<lambda>col (i, r). mat_SetAssign col (int i) 0 (f r)) d ps = Inr c'" by (auto simp: p)
  with Cons.IH [of d] show ?case by (auto simp: mat_SetAssign_def split: if_splits)
qed simp

lemma repeated_rows:
  assumes "set ids \<subseteq> msp_holders m" "\<not> distinct ids"
  shows "length (rows_for m (set ids)) < (\<Sum>sid\<leftarrow>ids. length (rows_for m {sid}))"
proof -
  let ?f = "\<lambda>sid. length (rows_for m {sid})"
  have le: "sum_list (map ?f (remdups xs)) \<le> sum_list (map ?f xs)" for xs by (induction xs) auto
  obtain xs ys zs y where ids: "ids = xs @ [y] @ ys @ [y] @ zs" using not_distinct_decomp [OF assms(2)] by blast
  have "0 < ?f y" using holder_has_rows [of y m] assms(1) by (simp add: ids)
  then have "sum_list (map ?f (xs @ ys @ [y] @ zs)) < sum_list (map ?f ids)" by (simp add: ids)
  moreover have "length (rows_for m (set ids)) = sum_list (map ?f (remdups (xs @ ys @ [y] @ zs)))"
    using rows_count [of "remdups (xs @ ys @ [y] @ zs)" m] by (simp add: ids insert_commute Un_commute Un_left_commute)
  ultimately show ?thesis using le [of "xs @ ys @ [y] @ zs"] by simp
qed

lemma kw_Reconstruct_repeated:
  fixes m :: "('a::field) MSP"
  assumes wf: "msp_wf m" and ids: "set ids \<subseteq> msp_holders m" "\<not> distinct ids"
  shows "\<not> is_ok (kw_Reconstruct \<lparr>kw_msp = m\<rparr> (map (\<lambda>sid. Some (row_share m lam sid)) ids))"
proof
  let ?shares = "map (\<lambda>sid. Some (row_share m lam sid)) ids"
  assume "is_ok (kw_Reconstruct \<lparr>kw_msp = m\<rparr> ?shares)"
  then obtain jds x col w where run: "ids \<noteq> []" "CollectIDs sh_id (hs_NewComparable ?shares) = Inr jds"
    "ReconstructionVector m jds = Inr x" "shareColumn \<lparr>kw_msp = m\<rparr> (map (row_share m lam) ids) = Inr col" "DotProduct x col = Inr w"
    by (auto simp: is_ok_iff kw_Reconstruct_def comp_def hs_List_def Let_def split: if_splits)
  define ss where "ss = map the (hs_NewComparable ?shares)"
  have ss: "hs_NewComparable ?shares = map Some ss" unfolding ss_def map_map
    by (rule map_idI [symmetric]) auto
  have "set ss = row_share m lam ` set ids" by (simp add: ss_def image_image)
  have jds: "set jds = set ids" using run(2) ss \<open>set ss = _\<close> by (auto simp: image_image)
  have jne: "jds \<noteq> []" using jds run(1) by auto
  have xdim: "mcols x = 1" "mrows x = length (rows_for m (set ids))"
    using ReconstructionVector_spec [OF wf, of jds] run(3) ids(1) jds jne by simp_all
  have cdim: "mcols col = 1" "mrows col = (\<Sum>sid\<leftarrow>ids. length (rows_for m {sid}))"
    using run(4) shareColumn_count_ok [OF wf ids(1), of lam]
    by (auto simp: shareColumn_def NewMatrixModule_def mod_OpIdentity_def Let_def dest!: SetAssign_dims split: if_splits)
  have "mat_vectorLength x = int (mrows x)" "mat_vectorLength col = int (mrows col)"
    using xdim(1) cdim(1) by (simp_all add: mat_vectorLength_def mat_IsRowVector_def mat_IsColumnVector_def)
  then have "mrows x = mrows col" using run(5) by (simp add: DotProduct_def Let_def split: if_splits)
  then show False using repeated_rows [OF ids] xdim(2) cdim(2) by simp
qed

text \<open>Whatever shares of the rows of one random column are given, a value \<open>Reconstruct\<close> returns is its first entry.\<close>

lemma kw_Reconstruct_only:
  fixes m :: "('a::field) MSP"
  assumes wf: "msp_wf m" and ids: "set ids \<subseteq> msp_holders m"
    and ok: "kw_Reconstruct \<lparr>kw_msp = m\<rparr> (map (\<lambda>sid. Some (row_share m (row_value m r) sid)) ids) = Inr w"
  shows "w = r 0 \<and> Accepts m ids \<and> distinct ids"
proof -
  have d: "distinct ids" using kw_Reconstruct_repeated [OF wf ids, of "row_value m r"] ok by auto
  have ne: "ids \<noteq> []" using ok by (auto simp: kw_Reconstruct_def)
  show ?thesis using kw_Reconstruct_rows [OF wf ne d ids, of "row_value m r" r] ok d by (simp split: if_splits)
qed

section \<open>Converting to additive shares\<close>

lemma binary_search_loop_spec:
  assumes "sorted x" "j \<le> length x" "i \<le> j" "\<And>k. k < i \<Longrightarrow> x ! k < target" "\<And>k. j \<le> k \<Longrightarrow> k < length x \<Longrightarrow> target \<le> x ! k"
  shows "binary_search_loop x target i j \<le> length x \<and>
    (\<forall>k<binary_search_loop x target i j. x ! k < target) \<and>
    (\<forall>k\<ge>binary_search_loop x target i j. k < length x \<longrightarrow> target \<le> x ! k)"
  using assms
proof (induction x target i j rule: binary_search_loop.induct)
  case (1 x target i j)
  let ?h = "(i + j) div 2"
  show ?case
  proof (cases "i < j")
    case True
    then have h: "i \<le> ?h" "?h < j" by linarith+
    have le: "x ! a \<le> x ! b" if "a \<le> b" "b < length x" for a b using "1.prems"(1) that by (simp add: sorted_nth_mono)
    show ?thesis
    proof (cases "x ! ?h < target")
      case lt: True
      have "x ! k < target" if "k < ?h + 1" for k
        using lt le [of k ?h] h "1.prems"(2) that by simp
      with "1.IH"(1) [OF True refl lt] "1.prems" h True lt show ?thesis
        by (simp add: binary_search_loop.simps [of x target i j])
    next
      case False
      have "target \<le> x ! k" if "?h \<le> k" "k < length x" for k
        using False le [of ?h k] that by simp
      with "1.IH"(2) [OF True refl False] "1.prems" h True False show ?thesis
        by (simp add: binary_search_loop.simps [of x target i j])
    qed
  next
    case False
    then have "binary_search_loop x target i j = i" by (simp add: binary_search_loop.simps [of x target i j])
    with False "1.prems" show ?thesis by simp
  qed
qed

lemma BinarySearch_found:
  assumes "sorted x" "target \<in> set x"
  obtains p where "BinarySearch x target = (p, True)" "p < length x" "x ! p = target"
proof -
  let ?p = "binary_search_loop x target 0 (length x)"
  have spec: "\<forall>k<?p. x ! k < target" "\<forall>k\<ge>?p. k < length x \<longrightarrow> target \<le> x ! k"
    using binary_search_loop_spec [of x "length x" 0 target] assms(1) by simp_all
  obtain k where k: "k < length x" "x ! k = target" using assms(2) by (auto simp: in_set_conv_nth)
  then have "?p \<le> k" using spec(1) by (meson leI less_irrefl)
  then have "?p < length x" "x ! ?p \<le> target" using k assms(1) by (auto simp: sorted_nth_mono)
  with spec(2) have "x ! ?p = target" by (simp add: order.antisym)
  with \<open>?p < length x\<close> show thesis by (intro that [of ?p]) (simp_all add: BinarySearch_def)
qed

text \<open>The position of a row of the quorum in its sorted list of rows.\<close>

definition row_pos :: "'a MSP \<Rightarrow> ID set \<Rightarrow> nat \<Rightarrow> nat" where
  "row_pos m A i = fst (BinarySearch (map int (rows_for m A)) (int i))"

lemma row_pos:
  assumes "i \<in> set (rows_for m A)"
  shows "BinarySearch (map int (rows_for m A)) (int i) = (row_pos m A i, True)"
    "row_pos m A i < length (rows_for m A)" "rows_for m A ! row_pos m A i = i"
proof -
  have "sorted (map int (rows_for m A))"
    using rows_for_sorted(1) by (simp add: sorted_map sorted_wrt_mono_rel [of _ "(\<le>)"])
  moreover have "int i \<in> set (map int (rows_for m A))" using assms by simp
  ultimately obtain p where p: "BinarySearch (map int (rows_for m A)) (int i) = (p, True)"
    "p < length (map int (rows_for m A))" "map int (rows_for m A) ! p = int i"
    by (rule BinarySearch_found)
  then show "BinarySearch (map int (rows_for m A)) (int i) = (row_pos m A i, True)"
    "row_pos m A i < length (rows_for m A)" "rows_for m A ! row_pos m A i = i"
    by (simp_all add: row_pos_def)
qed

lemma quorum_rows:
  assumes "msp_wf m" "distinct ids" "set ids \<subseteq> msp_holders m"
  shows "\<exists>rows. FoldOrError (\<lambda>rows sid. case map_of (holdersToRows m) sid of
      None \<Rightarrow> Inl ErrMembership | Some rs \<Rightarrow> Inr (rows @ hs_List rs)) [] ids = Inr rows \<and>
    sort rows = map int (rows_for m (set ids))"
proof -
  from msp_collect_rows_spec [OF assms(1,2)] assms(3) obtain rows where rows:
    "msp_collect_rows m ids = Inr rows" "distinct rows" "set rows = int ` set (rows_for m (set ids))" by auto
  have "FoldOrError (\<lambda>rows sid. case map_of (holdersToRows m) sid of
      None \<Rightarrow> Inl ErrMembership | Some rs \<Rightarrow> Inr (rows @ hs_List rs)) acc ids =
    FoldOrError (\<lambda>rows holder. case map_of (holdersToRows m) holder of
      None \<Rightarrow> Inl ErrValue | Some rowsID \<Rightarrow> Inr (rows @ hs_List rowsID)) acc ids" for acc
    using assms(3)
  proof (induction ids arbitrary: acc)
    case (Cons x xs)
    obtain rs where "map_of (holdersToRows m) x = Some rs"
      by (rule holder_rows [OF assms(1), of x]) (use Cons.prems in auto)
    with Cons show ?case by simp
  qed simp
  then show ?thesis using rows sort_rows [OF rows(2,3)] by (simp add: msp_collect_rows_def)
qed

lemma ConvertShareToAdditive_value:
  fixes m :: "('a::field) MSP"
  assumes wf: "msp_wf m" and u: "Unanimity_wf u" "set (un_ps u) \<subseteq> msp_holders m" and sid: "sid \<in> set (un_ps u)"
    and x: "ReconstructionVector m (un_ps u) = Inr x"
  shows "ConvertShareToAdditive \<lparr>kw_msp = m\<rparr> (Some (row_share m lam sid)) (Some u) =
    Inr \<lparr>ash_id = sid, ash_v = \<Sum>i\<in>set (rows_for m {sid}). ent x (row_pos m (set (un_ps u)) i) 0 * lam i\<rparr>"
proof -
  let ?q = "un_ps u" and ?R = "rows_for m (set (un_ps u))" and ?r = "rows_for m {sid}"
  let ?pos = "row_pos m (set ?q)"
  have q: "distinct ?q" "0 \<notin> set ?q" "?q \<noteq> []" using u(1) by (auto simp: Unanimity_wf_def hs_wf_def hs_Size_def)
  have h: "sid \<in> msp_holders m" using u(2) sid by auto
  have xs: "mat_wf x" "mrows x = length ?R" "mcols x = 1"
    using ReconstructionVector_spec [OF wf q(3) u(2)] x by simp_all
  have sub: "i \<in> set ?R" if "i \<in> set ?r" for i using that sid by (auto simp: rows_for_def)
  obtain rows where rows: "FoldOrError (\<lambda>rows sid. case map_of (holdersToRows m) sid of
      None \<Rightarrow> Inl ErrMembership | Some rs \<Rightarrow> Inr (rows @ hs_List rs)) [] ?q = Inr rows" "sort rows = map int ?R"
    using quorum_rows [OF wf q(1) u(2)] by blast
  obtain rs where rs: "map_of (holdersToRows m) sid = Some rs" "sort (hs_List rs) = map int ?r"
    by (rule holder_rows [OF wf h]) blast
  have pos: "MapOrError (\<lambda>absRow. case BinarySearch (map int ?R) absRow of
      (pos, found) \<Rightarrow> if \<not> found then Inl ErrFailed else Inr (int pos)) (map int ?r) = Inr (map int (map ?pos ?r))"
  proof -
    have "MapOrError (\<lambda>absRow. case BinarySearch (map int ?R) absRow of
      (pos, found) \<Rightarrow> if \<not> found then Inl ErrFailed else Inr (int pos)) (map int ?r) = Inr (map (\<lambda>a. int (?pos (nat a))) (map int ?r))"
      by (rule MapOrError_ok) (auto simp: row_pos(1) [OF sub])
    then show ?thesis by (simp add: comp_def)
  qed
  have ne: "?r \<noteq> []" by (rule holder_has_rows [OF h])
  have subm: "mat_SubMatrixGivenRows x (map int (map ?pos ?r)) = Inr (mat_fill (length ?r) 1 (\<lambda>k. ent x (map ?pos ?r ! k)))"
    using mat_SubMatrixGivenRows_ok [OF xs(1), of "map ?pos ?r"] ne row_pos(2) [OF sub] xs(2,3) by auto
  have "DotProduct (mat_fill (length ?r) 1 (\<lambda>k. ent x (map ?pos ?r ! k))) (mat_fill (length ?r) 1 (\<lambda>k _. lam (?r ! k)))
      = Inr (\<Sum>k<length ?r. ent (mat_fill (length ?r) 1 (\<lambda>k. ent x (map ?pos ?r ! k))) k 0 * lam (?r ! k))"
    by (rule DotProduct_columns) (use ne in \<open>simp_all add: mat_simps\<close>)
  also have "(\<Sum>k<length ?r. ent (mat_fill (length ?r) 1 (\<lambda>k. ent x (map ?pos ?r ! k))) k 0 * lam (?r ! k)) =
      (\<Sum>k<length ?r. ent x (?pos (?r ! k)) 0 * lam (?r ! k))"
    by (intro sum.cong refl) (simp add: mat_simps)
  also have "\<dots> = (\<Sum>i\<in>set ?r. ent x (?pos i) 0 * lam i)"
    using sum_rows_for [where f = "\<lambda>k i. ent x (?pos i) 0 * lam i" and m = m and A = "{sid}"] by simp
  finally have dot: "DotProduct (mat_fill (length ?r) 1 (\<lambda>k. ent x (map ?pos ?r ! k))) (mat_fill (length ?r) 1 (\<lambda>k _. lam (?r ! k)))
      = Inr (\<Sum>i\<in>set ?r. ent x (?pos i) 0 * lam i)" .
  have col: "shareColumn \<lparr>kw_msp = m\<rparr> [row_share m lam sid] = Inr (mat_fill (length ?r) 1 (\<lambda>k _. lam (?r ! k)))"
    using shareColumn_ok [OF wf, of "[sid]" lam] h by simp
  have new: "additive_NewShare sid v (Some u) = Inr \<lparr>ash_id = sid, ash_v = v\<rparr>" for v :: 'a
    using sid q(2) by (auto simp: additive_NewShare_def NewAdditiveShare_def Unanimity_Shareholders_def)
  show ?thesis
    unfolding ConvertShareToAdditive_def
    using sid x col rows rs pos subm dot new
    by (simp add: Unanimity_Shareholders_def hs_List_def Let_def del: One_nat_def)
qed

text \<open>The additive shares of a qualified quorum sum to the first entry of the random column.\<close>

lemma additive_values_sum:
  fixes m :: "('a::field) MSP"
  assumes wf: "msp_wf m" and q: "distinct q" "q \<noteq> []" "set q \<subseteq> msp_holders m"
    and x: "ReconstructionVector m q = Inr x" and lam: "\<And>i. i < mrows (msp_matrix m) \<Longrightarrow> lam i = row_value m r i"
  shows "(\<Sum>sid\<leftarrow>q. \<Sum>i\<in>set (rows_for m {sid}). ent x (row_pos m (set q) i) 0 * lam i) = r 0"
proof -
  let ?R = "rows_for m (set q)"
  have un: "set ?R = (\<Union>sid\<in>set q. set (rows_for m {sid}))" by (auto simp: rows_for_def)
  have "(\<Sum>sid\<leftarrow>q. \<Sum>i\<in>set (rows_for m {sid}). ent x (row_pos m (set q) i) 0 * lam i) =
      (\<Sum>i\<in>set ?R. ent x (row_pos m (set q) i) 0 * lam i)"
    unfolding un sum_list_distinct_conv_sum_set [OF q(1)]
    by (rule sum.UNION_disjoint [symmetric]) (auto simp: rows_for_def)
  also have "\<dots> = (\<Sum>k<length ?R. ent x (row_pos m (set q) (?R ! k)) 0 * lam (?R ! k))"
    using sum_rows_for [where f = "\<lambda>k i. ent x (row_pos m (set q) i) 0 * lam i" and m = m and A = "set q"] by simp
  also have "\<dots> = (\<Sum>k<length ?R. ent x k 0 * lam (?R ! k))"
  proof (intro sum.cong refl)
    fix k assume "k \<in> {..<length ?R}"
    then have k: "?R ! k \<in> set ?R" "k < length ?R" by simp_all
    then have "row_pos m (set q) (?R ! k) = k"
      using row_pos(2,3) [OF k(1)] rows_for_sorted(2) [of m "set q"] by (simp add: nth_eq_iff_index_eq)
    then show "ent x (row_pos m (set q) (?R ! k)) 0 * lam (?R ! k) = ent x k 0 * lam (?R ! k)" by simp
  qed
  also have "\<dots> = r 0"
  proof (rule combine_rows)
    show "0 < mcols (msp_matrix m)" using wf by (simp add: msp_wf_def mat_wf_def)
    show "lam (?R ! k) = row_value m r (?R ! k)" if "k < length ?R" for k
      by (rule lam) (rule rows_for_less [OF nth_mem [OF that]])
    show "(\<Sum>k<length ?R. ent x k 0 * ent (msp_matrix m) (?R ! k) c) = (if c = 0 then 1 else 0)"
      if "c < mcols (msp_matrix m)" for c
      using ReconstructionVector_spec [OF wf q(2,3)] x that by simp
  qed
  finally show ?thesis .
qed

section \<open>What dealing and reconstructing promise\<close>

lemma kw_Deal_ok:
  assumes wf: "msp_wf m" and D: "2 \<le> mcols (msp_matrix m)" "mcols (msp_matrix m) \<le> length prng"
  shows "kw_Deal \<lparr>kw_msp = m\<rparr> (Some secret) (Some prng) =
    Inr (map (\<lambda>sid. (sid, row_share m (row_value m (dealt_column secret prng)) sid)) (msp_Shareholders m),
      drop (mcols (msp_matrix m)) prng)"
proof -
  obtain df where "DealAndRevealDealerFunc \<lparr>kw_msp = m\<rparr> (Some secret) (Some prng) =
    Inr (map (\<lambda>sid. (sid, row_share m (row_value m (dealt_column secret prng)) sid)) (msp_Shareholders m), df,
      drop (mcols (msp_matrix m)) prng)"
    by (rule DealAndReveal_ok [OF wf D, of secret]) blast
  then show ?thesis by (simp add: kw_Deal_def)
qed

lemma dealt_share:
  assumes "msp_wf m" "sid \<in> msp_holders m"
  shows "map_of (map (\<lambda>sid. (sid, f sid)) (msp_Shareholders m)) sid = Some (f sid)"
  using assms by (simp add: map_of_map_restrict msp_Shareholders_holders)

lemma dealt_shares:
  assumes "msp_wf m" "set ids \<subseteq> msp_holders m"
  shows "map (map_of (map (\<lambda>sid. (sid, f sid)) (msp_Shareholders m))) ids = map (\<lambda>sid. Some (f sid)) ids"
  using assms by (intro map_cong refl dealt_share) auto

text \<open>A shift of the random column along a vector orthogonal to some rows keeps the values of these rows.\<close>

lemma row_value_orthogonal:
  fixes m :: "('a::field) MSP"
  assumes "\<And>c. c < mcols (msp_matrix m) \<Longrightarrow> f' c = f c + a * w c" "(\<Sum>c<mcols (msp_matrix m). ent (msp_matrix m) i c * w c) = 0"
  shows "row_value m f' i = row_value m f i"
proof -
  let ?M = "msp_matrix m"
  have "row_value m f' i = (\<Sum>c<mcols ?M. ent ?M i c * f c + a * (ent ?M i c * w c))"
    unfolding row_value_def by (intro sum.cong refl) (simp add: assms(1) distrib_left mult.left_commute)
  also have "\<dots> = row_value m f i + a * (\<Sum>c<mcols ?M. ent ?M i c * w c)"
    by (simp add: row_value_def sum.distrib sum_distrib_left)
  finally show ?thesis using assms(2) by simp
qed

lemma shifted_row_value:
  fixes w :: "nat \<Rightarrow> 'a::field" and secret :: 'a and secret' :: 'a
  assumes len: "mcols (msp_matrix m) \<le> length prng" and w: "w 0 = 1"
    and i: "(\<Sum>c<mcols (msp_matrix m). ent (msp_matrix m) i c * w c) = 0"
  defines "\<delta> \<equiv> map (\<lambda>c. (secret' - secret) * w c) [0..<mcols (msp_matrix m)]"
  shows "row_value m (dealt_column secret' (prng_shift \<delta> prng)) i = row_value m (dealt_column secret prng) i"
  by (rule row_value_orthogonal [OF _ i, of _ _ "secret' - secret"]) (use len w in \<open>simp add: dealt_column_def \<delta>_def\<close>)

text \<open>A coalition that is not accepted has a dual vector: orthogonal to its rows, with first entry one.\<close>

lemma rejected_dual:
  fixes m :: "('a::field) MSP"
  assumes wf: "msp_wf m" and A: "set ids \<subseteq> msp_holders m" "\<not> Accepts m ids"
  obtains w where "w 0 = 1" "\<And>i. i \<in> set (rows_for m (set ids)) \<Longrightarrow> (\<Sum>c<mcols (msp_matrix m). ent (msp_matrix m) i c * w c) = 0"
proof (cases "ids = []")
  case True
  show thesis by (rule that [of "\<lambda>_. 1"]) (simp_all add: True rows_for_def)
next
  case False
  then have "\<not> spans m (set ids)" using A Accepts_iff [OF wf] by blast
  then show thesis by (rule not_spans_dual [OF wf _ _ A(1)]) (use False in \<open>auto intro: that\<close>)
qed

lemma kw_Deal_shift:
  fixes m :: "('a::field) MSP"
  assumes wf: "msp_wf m" and D: "2 \<le> mcols (msp_matrix m)" and A: "set ids \<subseteq> msp_holders m" "\<not> Accepts m ids"
  shows "\<exists>\<delta>. \<forall>prng. mcols (msp_matrix m) \<le> length prng \<longrightarrow> (\<exists>shares shares' rest.
    kw_Deal \<lparr>kw_msp = m\<rparr> (Some secret) (Some prng) = Inr (shares, rest) \<and>
    kw_Deal \<lparr>kw_msp = m\<rparr> (Some secret') (Some (prng_shift \<delta> prng)) = Inr (shares', rest) \<and>
    (\<forall>i\<in>set ids. map_of shares i = map_of shares' i))"
proof -
  let ?D = "mcols (msp_matrix m)"
  obtain w where w: "w 0 = 1" "\<And>i. i \<in> set (rows_for m (set ids)) \<Longrightarrow> (\<Sum>c<?D. ent (msp_matrix m) i c * w c) = 0"
    by (rule rejected_dual [OF wf A]) (rule that; assumption)
  define \<delta> where "\<delta> = map (\<lambda>c. (secret' - secret) * w c) [0..<?D]"
  show ?thesis
  proof (intro exI [of _ \<delta>] allI impI)
    fix prng :: "'a list"
    assume len: "?D \<le> length prng"
    have deal: "kw_Deal \<lparr>kw_msp = m\<rparr> (Some secret) (Some prng) =
        Inr (map (\<lambda>sid. (sid, row_share m (row_value m (dealt_column secret prng)) sid)) (msp_Shareholders m), drop ?D prng)"
      by (rule kw_Deal_ok [OF wf D len])
    have deal': "kw_Deal \<lparr>kw_msp = m\<rparr> (Some secret') (Some (prng_shift \<delta> prng)) =
        Inr (map (\<lambda>sid. (sid, row_share m (row_value m (dealt_column secret' (prng_shift \<delta> prng))) sid)) (msp_Shareholders m), drop ?D prng)"
      using kw_Deal_ok [OF wf D, of "prng_shift \<delta> prng" secret'] len prng_shift_drop [of \<delta> ?D prng] by (simp add: \<delta>_def)
    have "row_share m (row_value m (dealt_column secret' (prng_shift \<delta> prng))) sid =
        row_share m (row_value m (dealt_column secret prng)) sid" if "sid \<in> set ids" for sid
      using that shifted_row_value [OF len w(1) w(2), of _ secret' secret, folded \<delta>_def] by (auto simp: row_share_def rows_for_def)
    then have "\<forall>i\<in>set ids. map_of (map (\<lambda>sid. (sid, row_share m (row_value m (dealt_column secret prng)) sid)) (msp_Shareholders m)) i =
        map_of (map (\<lambda>sid. (sid, row_share m (row_value m (dealt_column secret' (prng_shift \<delta> prng))) sid)) (msp_Shareholders m)) i"
      using A(1) by (auto simp: dealt_share [OF wf] subset_iff)
    with deal deal' show "\<exists>shares shares' rest.
      kw_Deal \<lparr>kw_msp = m\<rparr> (Some secret) (Some prng) = Inr (shares, rest) \<and>
      kw_Deal \<lparr>kw_msp = m\<rparr> (Some secret') (Some (prng_shift \<delta> prng)) = Inr (shares', rest) \<and>
      (\<forall>i\<in>set ids. map_of shares i = map_of shares' i)" by blast
  qed
qed

section \<open>The scheme as an implementation of the interface\<close>

definition kw_wf :: "'a MSP \<Rightarrow> bool" where
  "kw_wf m \<longleftrightarrow> msp_wf m \<and> 2 \<le> mcols (msp_matrix m)"

lemma kw_Deal_len:
  assumes "kw_Deal s (Some secret) (Some prng) = Inr (shares, rest)"
  shows "mcols (msp_matrix (kw_msp s)) \<le> length prng"
proof -
  from assms have "is_ok (draw (mcols (msp_matrix (kw_msp s))) prng)"
    by (auto simp: kw_Deal_def DealAndRevealDealerFunc_def NewColumnVectorModule_def NewMatrixModule_def
        mod_Random_def msp_D_def is_ok_iff split: if_splits)
  then show ?thesis by (auto simp: is_ok_iff draw_Inr_iff)
qed

lemma kw_Deal_dealt:
  assumes "kw_wf (kw_msp s)" "kw_Deal s (Some secret) (Some prng) = Inr (shares, rest)"
  shows "shares = map (\<lambda>sid. (sid, row_share (kw_msp s) (row_value (kw_msp s) (dealt_column secret prng)) sid)) (msp_Shareholders (kw_msp s))"
  using kw_Deal_ok [OF _ _ kw_Deal_len [OF assms(2)], of secret] assms by (cases s) (simp add: kw_wf_def)

lemma kw_Deal_share:
  assumes "kw_wf (kw_msp s)" "kw_Deal s (Some secret) (Some prng) = Inr (shares, rest)" "i \<in> msp_holders (kw_msp s)"
  shows "map_of shares i = Some (row_share (kw_msp s) (row_value (kw_msp s) (dealt_column secret prng)) i)"
  unfolding kw_Deal_dealt [OF assms(1,2)] by (rule dealt_share) (use assms in \<open>simp_all add: kw_wf_def\<close>)

interpretation kw_sss: sss "\<lambda>s. kw_wf (kw_msp s)" kw_Deal kw_DealRandom kw_Reconstruct CanReconstruct kw_Shareholders
proof (unfold_locales, goal_cases)
  case (1 d w prng shares rest)
  then show ?case
    using kw_Deal_dealt [OF 1] by (simp add: kw_Shareholders_def msp_Shareholders_def comp_def image_image)
next
  case (2 d w prng shares rest ids)
  let ?m = "kw_msp d"
  have wf: "msp_wf ?m" and ids: "set ids \<subseteq> msp_holders ?m"
    using 2 msp_Shareholders_holders [of ?m] by (auto simp: kw_wf_def kw_Shareholders_def)
  have "kw_Reconstruct \<lparr>kw_msp = ?m\<rparr> (map (\<lambda>sid. Some (row_share ?m (row_value ?m (dealt_column w prng)) sid)) ids) =
      (if Accepts ?m ids then Inr (dealt_column w prng 0) else Inl ErrFailed)"
    by (rule kw_Reconstruct_rows [OF wf 2(3,4) ids]) simp
  then show ?case
    unfolding kw_Deal_dealt [OF 2(1,2)] dealt_shares [OF wf ids]
    by (cases d) (simp add: CanReconstruct_def dealt_column_def)
next
  case (3 d prng shares w rest)
  then obtain q df where "DealAndRevealDealerFunc d (Some w) (Some q) = Inr (shares, df, rest)"
    by (auto simp: kw_DealRandom_def DealRandomAndRevealDealerFunc_def)
  then have "kw_Deal d (Some w) (Some q) = Inr (shares, rest)" by (simp add: kw_Deal_def)
  then show ?case by blast
qed (simp_all add: kw_Deal_def kw_DealRandom_def DealRandomAndRevealDealerFunc_def DealAndRevealDealerFunc_def
    split: option.split)

interpretation kw_lsss: lsss "\<lambda>s. kw_wf (kw_msp s)" kw_Deal kw_DealRandom kw_Reconstruct CanReconstruct kw_Shareholders
  ConvertShareToAdditive
proof (unfold_locales, goal_cases)
  case (1 d w prng shares rest u)
  let ?m = "kw_msp d" and ?q = "un_ps u" and ?lam = "row_value (kw_msp d) (dealt_column w prng)"
  have wf: "msp_wf ?m" and q: "set ?q \<subseteq> msp_holders ?m" "distinct ?q" "?q \<noteq> []"
    using 1 msp_Shareholders_holders [of ?m] by (auto simp: kw_wf_def kw_Shareholders_def Unanimity_wf_def hs_wf_def hs_Size_def)
  obtain x where x: "ReconstructionVector ?m ?q = Inr x"
    using 1(5) by (auto simp: CanReconstruct_def Accepts_def is_ok_iff)
  have "ConvertShareToAdditive d (map_of shares i) (Some u) =
      Inr \<lparr>ash_id = i, ash_v = \<Sum>j\<in>set (rows_for ?m {i}). ent x (row_pos ?m (set ?q) j) 0 * ?lam j\<rparr>" if "i \<in> set ?q" for i
  proof -
    have "map_of shares i = Some (row_share ?m ?lam i)"
      by (rule kw_Deal_share [OF 1(1,2)]) (use q(1) that in auto)
    then show ?thesis
      using ConvertShareToAdditive_value [OF wf 1(3) q(1) that x, of ?lam] by (cases d) simp
  qed
  moreover have "(\<Sum>i\<leftarrow>?q. \<Sum>j\<in>set (rows_for ?m {i}). ent x (row_pos ?m (set ?q) j) 0 * ?lam j) = w"
    using additive_values_sum [OF wf q(2,3,1) x, of ?lam "dealt_column w prng"] by (simp add: dealt_column_def)
  ultimately show ?case
    by (intro exI [of _ "\<lambda>i. \<Sum>j\<in>set (rows_for ?m {i}). ent x (row_pos ?m (set ?q) j) 0 * ?lam j"] conjI ballI)
qed

subsection \<open>Linearity\<close>

lemma kw_Add_rows: "kw_Add (row_share m lam i) (row_share m lam' i) = Inr (row_share m (\<lambda>j. lam j + lam' j) i)"
  by (simp add: kw_Add_def row_share_def) (rule nth_equalityI; simp)

lemma nsum_field: "nsum n (x :: 'a::field) = of_nat n * x"
  by (induction n) (simp_all add: algebra_simps)

lemma kw_ScalarMul_rows: "kw_ScalarMul (row_share m lam i) k = row_share m (\<lambda>j. of_nat (be_val k) * lam j) i"
  by (simp add: kw_ScalarMul_def row_share_def scalarMul_nsum nsum_field)

lemma row_value_linear:
  "row_value m r i + row_value m r' i = row_value m (\<lambda>c. r c + r' c) i"
  "a * row_value m r i = row_value m (\<lambda>c. a * r c) i"
  by (simp_all add: row_value_def sum.distrib [symmetric] sum_distrib_left algebra_simps)

section \<open>Sharing over an access structure\<close>

text \<open>The scheme over the span programme of a linear access structure: reconstruction follows the policy of the
  structure, and unqualified coalitions learn nothing.\<close>

context linear_access
begin

lemma kw_over_structure:
  assumes "wf a" "admissible a"
  obtains m where "Induced a = Inr m" "kw_wf m" "set (msp_Shareholders m) = set (Shareholders a)"
    "\<And>ids. Accepts m ids = IsQualified a ids"
  by (rule induced_accepts [OF assms]) (rule that, auto simp: kw_wf_def msp_Shareholders_holders)

lemma kw_sharing:
  fixes secret :: 'a
  assumes "wf a" "admissible a"
  shows "\<exists>m. Induced a = Inr m \<and>
    (\<forall>prng. mcols (msp_matrix m) \<le> length prng \<longrightarrow> (\<exists>shares rest.
      kw_Deal \<lparr>kw_msp = m\<rparr> (Some secret) (Some prng) = Inr (shares, rest) \<and>
      (\<forall>ids. ids \<noteq> [] \<and> distinct ids \<and> set ids \<subseteq> set (Shareholders a) \<longrightarrow>
        kw_Reconstruct \<lparr>kw_msp = m\<rparr> (map (map_of shares) ids) = (if IsQualified a ids then Inr secret else Inl ErrFailed))))"
proof -
  obtain m where m: "Induced a = Inr m" "kw_wf m" "set (msp_Shareholders m) = set (Shareholders a)"
    "\<And>ids. Accepts m ids = IsQualified a ids"
    by (rule kw_over_structure [OF assms]) (rule that, blast+)
  have kw: "kw_wf (kw_msp \<lparr>kw_msp = m\<rparr>)" using m(2) by simp
  show ?thesis
  proof (intro exI [of _ m] conjI allI impI)
    fix prng :: "'a list"
    assume "mcols (msp_matrix m) \<le> length prng"
    then obtain shares rest where deal: "kw_Deal \<lparr>kw_msp = m\<rparr> (Some secret) (Some prng) = Inr (shares, rest)"
      using kw_Deal_ok [of m prng secret] m(2) by (simp add: kw_wf_def)
    with kw_sss.reconstruct [OF kw deal] m(3,4)
    show "\<exists>shares rest. kw_Deal \<lparr>kw_msp = m\<rparr> (Some secret) (Some prng) = Inr (shares, rest) \<and>
      (\<forall>ids. ids \<noteq> [] \<and> distinct ids \<and> set ids \<subseteq> set (Shareholders a) \<longrightarrow>
        kw_Reconstruct \<lparr>kw_msp = m\<rparr> (map (map_of shares) ids) = (if IsQualified a ids then Inr secret else Inl ErrFailed))"
      by (auto simp: CanReconstruct_def kw_Shareholders_def)
  qed (rule m(1))
qed

lemma kw_hiding:
  fixes secret :: 'a and secret' :: 'a
  assumes "wf a" "admissible a" "set ids \<subseteq> set (Shareholders a)" "\<not> IsQualified a ids"
  shows "\<exists>m. Induced a = Inr m \<and> (\<exists>\<delta>. \<forall>prng. mcols (msp_matrix m) \<le> length prng \<longrightarrow> (\<exists>shares shares' rest.
    kw_Deal \<lparr>kw_msp = m\<rparr> (Some secret) (Some prng) = Inr (shares, rest) \<and>
    kw_Deal \<lparr>kw_msp = m\<rparr> (Some secret') (Some (prng_shift \<delta> prng)) = Inr (shares', rest) \<and>
    (\<forall>i\<in>set ids. map_of shares i = map_of shares' i)))"
proof -
  obtain m where m: "Induced a = Inr m" "kw_wf m" "set (msp_Shareholders m) = set (Shareholders a)"
    "\<And>ids. Accepts m ids = IsQualified a ids"
    by (rule kw_over_structure [OF assms(1,2)]) (rule that, blast+)
  have wf: "msp_wf m" "2 \<le> mcols (msp_matrix m)" using m(2) by (simp_all add: kw_wf_def)
  have "set ids \<subseteq> msp_holders m" using assms(3) m(3) msp_Shareholders_holders [OF wf(1)] by simp
  moreover have "\<not> Accepts m ids" using assms(4) m(4) by simp
  ultimately show ?thesis using kw_Deal_shift [OF wf, of ids secret secret'] m(1) by blast
qed

end

section \<open>Properties\<close>

text \<open>C2. Dealing and reconstructing are inverse: for a programme built by \<open>NewMSP\<close> with at least two columns
  and enough samples, \<open>Deal\<close> succeeds, and on the shares of any coalition of holders, in any order,
  \<open>Reconstruct\<close> gives back the secret when the programme accepts the coalition and fails when it does not.\<close>

theorem kw_roundtrip:
  fixes M :: "('a::field) Matrix"
  assumes "NewMSP (Some M) (Some r2h) = Inr m" "mat_wf M" "distinct (map fst r2h)" "2 \<le> mcols M" "mcols M \<le> length prng"
  shows "\<exists>shares rest. kw_Deal \<lparr>kw_msp = m\<rparr> (Some secret) (Some prng) = Inr (shares, rest) \<and>
    (\<forall>ids. ids \<noteq> [] \<and> distinct ids \<and> set ids \<subseteq> snd ` set r2h \<longrightarrow>
      kw_Reconstruct \<lparr>kw_msp = m\<rparr> (map (map_of shares) ids) = (if Accepts m ids then Inr secret else Inl ErrFailed))"
proof -
  note wf = NewMSP_wf [OF assms(1-3)]
  have kw: "kw_wf (kw_msp \<lparr>kw_msp = m\<rparr>)" using wf assms(4) by (simp add: kw_wf_def)
  have sh: "set (kw_Shareholders \<lparr>kw_msp = m\<rparr>) = snd ` set r2h"
    using label_holders [OF wf(1)] msp_Shareholders_holders [OF wf(1)] by (simp add: kw_Shareholders_def wf(3))
  obtain shares rest where deal: "kw_Deal \<lparr>kw_msp = m\<rparr> (Some secret) (Some prng) = Inr (shares, rest)"
    using kw_Deal_ok [OF wf(1), of prng secret] assms(4,5) wf(2) by simp
  with kw_sss.reconstruct [OF kw deal] sh show ?thesis by (auto simp: CanReconstruct_def)
qed

theorem kw_roundtrip_witness:
  "\<exists>m shares rest. NewMSP (Some \<lparr>mrows = 3, mcols = 2, mdata = [1, 1, 1, 2, 1, 3 :: rat]\<rparr>) (Some [(0, 5), (1, 9), (2, 4)]) = Inr m \<and>
     kw_Deal \<lparr>kw_msp = m\<rparr> (Some 42) (Some [8, 1, 6]) = Inr (shares, rest) \<and>
     kw_Reconstruct \<lparr>kw_msp = m\<rparr> (map (map_of shares) [4, 5]) = (if Accepts m [4, 5] then Inr 42 else Inl ErrFailed)"
proof -
  let ?M = "\<lparr>mrows = 3, mcols = 2, mdata = [1, 1, 1, 2, 1, 3 :: rat]\<rparr>" and ?r = "[(0, 5), (1, 9), (2, 4)] :: (int \<times> ID) list"
  obtain m where m: "NewMSP (Some ?M) (Some ?r) = Inr m" by (simp add: NewMSP_def upt_rec)
  have c: "mat_wf ?M" "distinct (map fst ?r)" "2 \<le> mcols ?M" "mcols ?M \<le> length [8, 1, 6 :: rat]" by (simp_all add: mat_wf_def)
  have "[4, 5 :: ID] \<noteq> [] \<and> distinct [4, 5 :: ID] \<and> set [4, 5] \<subseteq> snd ` set ?r" by simp
  with kw_roundtrip [OF m c, of 42] m show ?thesis by blast
qed

text \<open>C3. The scheme is perfectly private: for every coalition of holders the programme does not accept and every
  two secrets there is one translation of the samples such that, for all samples, dealing the second secret with
  the translated samples gives every member of the coalition the share it got for the first secret. As a
  translation permutes the sample vectors, the shares of the coalition are distributed alike for both secrets.\<close>

theorem kw_privacy:
  fixes M :: "('a::field) Matrix" and secret :: 'a and secret' :: 'a
  assumes "NewMSP (Some M) (Some r2h) = Inr m" "mat_wf M" "distinct (map fst r2h)" "2 \<le> mcols M"
    and "set ids \<subseteq> snd ` set r2h" "\<not> Accepts m ids"
  shows "\<exists>\<delta>. \<forall>prng. mcols M \<le> length prng \<longrightarrow> (\<exists>shares shares' rest.
    kw_Deal \<lparr>kw_msp = m\<rparr> (Some secret) (Some prng) = Inr (shares, rest) \<and>
    kw_Deal \<lparr>kw_msp = m\<rparr> (Some secret') (Some (prng_shift \<delta> prng)) = Inr (shares', rest) \<and>
    (\<forall>i\<in>set ids. map_of shares i = map_of shares' i))"
proof -
  note wf = NewMSP_wf [OF assms(1-3)]
  have ids: "set ids \<subseteq> msp_holders m" using assms(5) label_holders [OF wf(1)] by (simp add: wf(3))
  show ?thesis using kw_Deal_shift [OF wf(1) _ ids assms(6), of secret secret'] assms(4) by (simp add: wf(2))
qed

lemma single_row_rejected:
  assumes "NewMSP (Some \<lparr>mrows = 2, mcols = 2, mdata = [1, 1, 1, 2 :: rat]\<rparr>) (Some [(0, 5), (1, 9)]) = Inr m"
  shows "\<not> Accepts m [9]"
proof -
  let ?M = "\<lparr>mrows = 2, mcols = 2, mdata = [1, 1, 1, 2 :: rat]\<rparr>" and ?r = "[(0, 5), (1, 9)] :: (int \<times> ID) list"
  have c: "mat_wf ?M" "distinct (map fst ?r)" by (simp_all add: mat_wf_def)
  note wf = NewMSP_wf [OF assms c]
  have "rows_for m {9} = [1]" by (simp add: rows_for_def row_label_def wf upt_rec)
  then have "\<not> spans m {9}"
    by (intro spans_dual [OF wf(1), of "\<lambda>c. if c = 0 then 1 else - 1 / 2"])
      (simp_all add: wf ent_def mat_idx_def numeral_2_eq_2)
  then show ?thesis using Accepts_iff [OF wf(1)] by simp
qed

theorem kw_privacy_witness:
  "\<exists>m \<delta> shares shares' rest. NewMSP (Some \<lparr>mrows = 2, mcols = 2, mdata = [1, 1, 1, 2 :: rat]\<rparr>) (Some [(0, 5), (1, 9)]) = Inr m \<and>
     kw_Deal \<lparr>kw_msp = m\<rparr> (Some 42) (Some [8, 1]) = Inr (shares, rest) \<and>
     kw_Deal \<lparr>kw_msp = m\<rparr> (Some 7) (Some (prng_shift \<delta> [8, 1])) = Inr (shares', rest) \<and>
     map_of shares 9 = map_of shares' 9"
proof -
  let ?M = "\<lparr>mrows = 2, mcols = 2, mdata = [1, 1, 1, 2 :: rat]\<rparr>" and ?r = "[(0, 5), (1, 9)] :: (int \<times> ID) list"
  obtain m where m: "NewMSP (Some ?M) (Some ?r) = Inr m" by (simp add: NewMSP_def upt_rec)
  have c: "mat_wf ?M" "distinct (map fst ?r)" "2 \<le> mcols ?M" "set [9] \<subseteq> snd ` set ?r" by (simp_all add: mat_wf_def)
  have len: "mcols ?M \<le> length [8, 1 :: rat]" by simp
  obtain \<delta> where "\<forall>prng. mcols ?M \<le> length prng \<longrightarrow> (\<exists>shares shares' rest.
    kw_Deal \<lparr>kw_msp = m\<rparr> (Some (42 :: rat)) (Some prng) = Inr (shares, rest) \<and>
    kw_Deal \<lparr>kw_msp = m\<rparr> (Some 7) (Some (prng_shift \<delta> prng)) = Inr (shares', rest) \<and>
    (\<forall>i\<in>set [9]. map_of shares i = map_of shares' i))"
    using kw_privacy [OF m c single_row_rejected [OF m], of 42 7] by blast
  from this [rule_format, OF len] m show ?thesis by auto
qed

text \<open>C4. Conversion to additive shares: when a quorum that the programme accepts converts its dealt shares with
  \<open>ConvertShareToAdditive\<close>, every conversion succeeds and additive reconstruction over the quorum gives the secret.\<close>

theorem kw_convert_additive:
  fixes M :: "('a::field) Matrix"
  assumes "NewMSP (Some M) (Some r2h) = Inr m" "mat_wf M" "distinct (map fst r2h)" "2 \<le> mcols M"
    and deal: "kw_Deal \<lparr>kw_msp = m\<rparr> (Some secret) (Some prng) = Inr (shares, rest)"
    and u: "NewUnanimityAccessStructure (Some q) = Inr u" "hs_wf q" "set q \<subseteq> snd ` set r2h" "Accepts m q"
  shows "\<exists>as. MapOrError (\<lambda>i. ConvertShareToAdditive \<lparr>kw_msp = m\<rparr> (map_of shares i) (Some u)) q = Inr as \<and>
    additive_Reconstruct \<lparr>ad_ac = u\<rparr> (map Some as) = Inr secret"
proof -
  note wf = NewMSP_wf [OF assms(1-3)]
  have kw: "kw_wf (kw_msp \<lparr>kw_msp = m\<rparr>)" using wf assms(4) by (simp add: kw_wf_def)
  have sh: "set (kw_Shareholders \<lparr>kw_msp = m\<rparr>) = snd ` set r2h"
    using label_holders [OF wf(1)] msp_Shareholders_holders [OF wf(1)] by (simp add: kw_Shareholders_def wf(3))
  from u(1,2) have un: "Unanimity_wf u" "un_ps u = q"
    by (auto simp: NewUnanimityAccessStructure_def Unanimity_wf_def split: if_splits)
  show ?thesis
    by (rule kw_lsss.convert_reconstruct [OF kw deal un(1)])
      (use u(2-4) in \<open>simp_all add: sh un(2) CanReconstruct_def hs_wf_def\<close>)
qed

lemma both_rows_accepted:
  assumes "NewMSP (Some \<lparr>mrows = 2, mcols = 2, mdata = [1, 1, 1, 2 :: rat]\<rparr>) (Some [(0, 5), (1, 9)]) = Inr m"
  shows "Accepts m [5, 9]"
proof -
  let ?M = "\<lparr>mrows = 2, mcols = 2, mdata = [1, 1, 1, 2 :: rat]\<rparr>" and ?r = "[(0, 5), (1, 9)] :: (int \<times> ID) list"
  have c: "mat_wf ?M" "distinct (map fst ?r)" by (simp_all add: mat_wf_def)
  note wf = NewMSP_wf [OF assms c]
  have "set (rows_for m {5, 9}) = {0, 1}" by (auto simp: rows_for_def row_label_def wf upt_rec)
  then have "spans m {5, 9}"
    unfolding spans_def by (intro exI [of _ "\<lambda>i. if i = 0 then 2 else -1"]) (auto simp: wf less_2_cases_iff ent_def mat_idx_def)
  moreover have "{5, 9} \<subseteq> msp_holders m" using label_holders [OF wf(1)] by (simp add: wf)
  ultimately show ?thesis using Accepts_iff [OF wf(1)] by simp
qed

theorem kw_convert_additive_witness:
  "\<exists>m shares rest as. NewMSP (Some \<lparr>mrows = 2, mcols = 2, mdata = [1, 1, 1, 2 :: rat]\<rparr>) (Some [(0, 5), (1, 9)]) = Inr m \<and>
     kw_Deal \<lparr>kw_msp = m\<rparr> (Some 42) (Some [8, 1]) = Inr (shares, rest) \<and>
     MapOrError (\<lambda>i. ConvertShareToAdditive \<lparr>kw_msp = m\<rparr> (map_of shares i) (Some \<lparr>un_ps = [5, 9]\<rparr>)) [5, 9] = Inr as \<and>
     additive_Reconstruct \<lparr>ad_ac = \<lparr>un_ps = [5, 9]\<rparr>\<rparr> (map Some as) = Inr 42"
proof -
  let ?M = "\<lparr>mrows = 2, mcols = 2, mdata = [1, 1, 1, 2 :: rat]\<rparr>" and ?r = "[(0, 5), (1, 9)] :: (int \<times> ID) list"
  obtain m where m: "NewMSP (Some ?M) (Some ?r) = Inr m" by (simp add: NewMSP_def upt_rec)
  have c: "mat_wf ?M" "distinct (map fst ?r)" "2 \<le> mcols ?M" by (simp_all add: mat_wf_def)
  note wf = NewMSP_wf [OF m c(1,2)]
  obtain shares rest where deal: "kw_Deal \<lparr>kw_msp = m\<rparr> (Some 42) (Some [8, 1]) = Inr (shares, rest)"
    using kw_Deal_ok [OF wf(1), of "[8, 1]" 42] by (simp add: wf(2))
  have u: "NewUnanimityAccessStructure (Some [5, 9]) = Inr \<lparr>un_ps = [5, 9]\<rparr>" "hs_wf [5, 9 :: ID]" "set [5, 9] \<subseteq> snd ` set ?r"
    by (simp_all add: NewUnanimityAccessStructure_def hs_Size_def hs_wf_def)
  from kw_convert_additive [OF m c deal u both_rows_accepted [OF m]] m deal show ?thesis by blast
qed

text \<open>Shares are linear: adding the shares of two dealings with \<open>Add\<close>, or multiplying the shares of one with
  \<open>ScalarMul\<close> by an unsigned number given in big-endian bytes, gives shares from which every accepted coalition
  reconstructs the sum of the secrets or the multiple of the secret.\<close>

theorem kw_linear:
  fixes M :: "('a::field) Matrix"
  assumes "NewMSP (Some M) (Some r2h) = Inr m" "mat_wf M" "distinct (map fst r2h)" "2 \<le> mcols M"
    and deal: "kw_Deal \<lparr>kw_msp = m\<rparr> (Some secret) (Some prng) = Inr (shares, rest)"
      "kw_Deal \<lparr>kw_msp = m\<rparr> (Some secret') (Some prng') = Inr (shares', rest')"
    and ids: "distinct ids" "Accepts m ids"
  shows "(\<exists>total. MapOrError (\<lambda>i. kw_Add (the (map_of shares i)) (the (map_of shares' i))) ids = Inr total \<and>
      kw_Reconstruct \<lparr>kw_msp = m\<rparr> (map Some total) = Inr (secret + secret')) \<and>
    kw_Reconstruct \<lparr>kw_msp = m\<rparr> (map (\<lambda>i. Some (kw_ScalarMul (the (map_of shares i)) k)) ids) = Inr (of_nat (be_val k) * secret)"
proof -
  note wf = NewMSP_wf [OF assms(1-3)]
  have kw: "kw_wf (kw_msp \<lparr>kw_msp = m\<rparr>)" using wf assms(4) by (simp add: kw_wf_def)
  let ?r = "dealt_column secret prng" and ?r' = "dealt_column secret' prng'"
  have acc: "ids \<noteq> []" "set ids \<subseteq> msp_holders m" using ids(2) Accepts_iff [OF wf(1)] by auto
  have sh: "the (map_of shares i) = row_share m (row_value m ?r) i"
    "the (map_of shares' i) = row_share m (row_value m ?r') i" if "i \<in> set ids" for i
    using kw_Deal_share [OF kw deal(1), of i] kw_Deal_share [OF kw deal(2), of i] acc(2) that by auto
  have "MapOrError (\<lambda>i. kw_Add (the (map_of shares i)) (the (map_of shares' i))) ids =
      Inr (map (row_share m (row_value m (\<lambda>c. ?r c + ?r' c))) ids)"
    by (rule MapOrError_ok) (simp add: sh kw_Add_rows row_value_linear(1))
  moreover have rec: "kw_Reconstruct \<lparr>kw_msp = m\<rparr> (map (\<lambda>i. Some (row_share m (row_value m r) i)) ids) = Inr (r 0)" for r
    using kw_Reconstruct_rows [OF wf(1) acc(1) ids(1) acc(2), of "row_value m r" r] ids(2) by simp
  moreover have "map (\<lambda>i. Some (kw_ScalarMul (the (map_of shares i)) k)) ids =
      map (\<lambda>i. Some (row_share m (row_value m (\<lambda>c. of_nat (be_val k) * ?r c)) i)) ids"
    by (simp add: sh kw_ScalarMul_rows row_value_linear(2))
  ultimately show ?thesis
    using rec [of "\<lambda>c. ?r c + ?r' c"] rec [of "\<lambda>c. of_nat (be_val k) * ?r c"]
    by (simp add: comp_def dealt_column_def del: map_eq_conv)
qed

theorem kw_linear_witness:
  "\<exists>m shares rest. NewMSP (Some \<lparr>mrows = 2, mcols = 2, mdata = [1, 1, 1, 2 :: rat]\<rparr>) (Some [(0, 5), (1, 9)]) = Inr m \<and>
     kw_Deal \<lparr>kw_msp = m\<rparr> (Some 42) (Some [8, 1]) = Inr (shares, rest) \<and>
     kw_Reconstruct \<lparr>kw_msp = m\<rparr> (map (\<lambda>i. Some (kw_ScalarMul (the (map_of shares i)) [1, 2])) [5, 9]) = Inr (of_nat (be_val [1, 2]) * 42)"
proof -
  let ?M = "\<lparr>mrows = 2, mcols = 2, mdata = [1, 1, 1, 2 :: rat]\<rparr>" and ?r = "[(0, 5), (1, 9)] :: (int \<times> ID) list"
  obtain m where m: "NewMSP (Some ?M) (Some ?r) = Inr m" by (simp add: NewMSP_def upt_rec)
  have c: "mat_wf ?M" "distinct (map fst ?r)" "2 \<le> mcols ?M" by (simp_all add: mat_wf_def)
  note wf = NewMSP_wf [OF m c(1,2)]
  obtain shares rest where deal: "kw_Deal \<lparr>kw_msp = m\<rparr> (Some 42) (Some [8, 1]) = Inr (shares, rest)"
    using kw_Deal_ok [OF wf(1), of "[8, 1]" 42] by (simp add: wf(2))
  have "distinct [5, 9 :: ID]" by simp
  from kw_linear [OF m c deal deal this both_rows_accepted [OF m], of "[1, 2]"] m deal show ?thesis by blast
qed

end
