(* ===== verification/Shamir.thy ===== *)
theory Shamir
  imports KW
begin

text \<open>
  Shamir's scheme (\<open>pkg/mpc/sharing/scheme/shamir\<close>): the secret is the constant term of a random polynomial of
  degree \<open>t - 1\<close>, a share is its value at the shareholder's identifier, and reconstruction is Lagrange interpolation
  at zero. Nil pointers are \<open>None\<close>; the dealt map and the map of Lagrange coefficients are association lists.
\<close>

section \<open>Shares\<close>

record 'a ShamirShare =
  ssh_id :: ID
  ssh_v :: 'a

definition shamir_NewShare :: "ID \<Rightarrow> 'a \<Rightarrow> Threshold option \<Rightarrow> 'a ShamirShare res" where
  "shamir_NewShare sid value ac =
     (if sid = 0 then Inl ErrMembership
      else case ac of
        Some a \<Rightarrow> if \<not> hs_Contains (Threshold_Shareholders a) sid then Inl ErrMembership
                  else Inr \<lparr>ssh_id = sid, ssh_v = value\<rparr>
      | None \<Rightarrow> Inr \<lparr>ssh_id = sid, ssh_v = value\<rparr>)"

definition ssh_Equal :: "'a ShamirShare option \<Rightarrow> 'a ShamirShare option \<Rightarrow> bool" where
  "ssh_Equal s other =
     (case (s, other) of
        (Some x, Some y) \<Rightarrow> ssh_id x = ssh_id y \<and> ssh_v x = ssh_v y
      | (None, None) \<Rightarrow> True
      | _ \<Rightarrow> False)"

definition ssh_Add :: "('a::field) ShamirShare \<Rightarrow> 'a ShamirShare \<Rightarrow> 'a ShamirShare res" where
  "ssh_Add s other =
     (if ssh_id s \<noteq> ssh_id other then Inl Panic
      else Inr \<lparr>ssh_id = ssh_id s, ssh_v = ssh_v s + ssh_v other\<rparr>)"

definition ssh_SubPlain :: "('a::field) ShamirShare \<Rightarrow> 'a \<Rightarrow> 'a ShamirShare" where
  "ssh_SubPlain s other = \<lparr>ssh_id = ssh_id s, ssh_v = ssh_v s - other\<rparr>"

definition ssh_ScalarMul :: "('a::field) ShamirShare \<Rightarrow> 8 word list \<Rightarrow> 'a ShamirShare" where
  "ssh_ScalarMul s scalar = \<lparr>ssh_id = ssh_id s, ssh_v = scalarMul (ssh_v s) scalar\<rparr>"

definition ssh_MarshalCBOR :: "(ID \<times> 'a \<Rightarrow> 'b res) \<Rightarrow> 'a ShamirShare \<Rightarrow> 'b res" where
  "ssh_MarshalCBOR enc s = enc (ssh_id s, ssh_v s)"

definition ssh_UnmarshalCBOR :: "('b \<Rightarrow> (ID \<times> 'a) res) \<Rightarrow> 'b \<Rightarrow> 'a ShamirShare res" where
  "ssh_UnmarshalCBOR dec data = rbind (dec data) (\<lambda>(sid, v). shamir_NewShare sid v None)"

definition SharingIDToLagrangeNode :: "ID \<Rightarrow> 'a::field" where
  "SharingIDToLagrangeNode sid = FromUint64 sid"

definition LagrangeCoefficients :: "ID list \<Rightarrow> (ID \<times> 'a::field) list res" where
  "LagrangeCoefficients sharingIDs =
     (if hs_Size (hs_NewComparable sharingIDs) \<noteq> length sharingIDs then Inl ErrMembership
      else rbind (BasisAt (map SharingIDToLagrangeNode sharingIDs) 0) (\<lambda>basis.
        Inr (fold (\<lambda>i result. AList.update (sharingIDs ! i) (coeffs basis ! i) result)
               [0..<length (coeffs basis)] [])))"

definition ToAdditive :: "('a::field) ShamirShare \<Rightarrow> Unanimity option \<Rightarrow> 'a AdditiveShare res" where
  "ToAdditive s qualifiedSet =
     (case qualifiedSet of
        None \<Rightarrow> Inl Panic
      | Some u \<Rightarrow>
          rbind (LagrangeCoefficients (hs_List (Unanimity_Shareholders u))) (\<lambda>lambdas.
            case map_of lambdas (ssh_id s) of
              None \<Rightarrow> Inl ErrMembership
            | Some lambdaI \<Rightarrow> additive_NewShare (ssh_id s) (lambdaI * ssh_v s) (Some u)))"

section \<open>The scheme\<close>

record ShamirScheme =
  shm_ac :: Threshold

definition shamir_NewScheme :: "'f option \<Rightarrow> Threshold option \<Rightarrow> ShamirScheme res" where
  "shamir_NewScheme f accessStructure =
     (if f = None then Inl ErrIsNil
      else case accessStructure of None \<Rightarrow> Inl ErrIsNil | Some a \<Rightarrow> Inr \<lparr>shm_ac = a\<rparr>)"

definition shamir_CanReconstruct :: "ShamirScheme \<Rightarrow> ID list \<Rightarrow> bool" where
  "shamir_CanReconstruct d ids = Threshold_IsQualified (shm_ac d) ids"

definition shamir_Shareholders :: "ShamirScheme \<Rightarrow> ID hset" where
  "shamir_Shareholders d = Threshold_Shareholders (shm_ac d)"

definition shamir_DealAndRevealDealerFunc ::
  "ShamirScheme \<Rightarrow> ('a::field) option \<Rightarrow> 'a list option \<Rightarrow> ((ID \<times> 'a ShamirShare) list \<times> 'a Polynomial \<times> 'a list) res" where
  "shamir_DealAndRevealDealerFunc d secret prng =
     (case secret of
        None \<Rightarrow> Inl ErrIsNil
      | Some secret \<Rightarrow>
          (case prng of
             None \<Rightarrow> Inl ErrIsNil
           | Some prng \<Rightarrow>
               rbind (RandomPolynomialWithConstantTerm (int (th_t (shm_ac d)) - 1) secret prng) (\<lambda>(poly, prng).
                 Inr (fold (\<lambda>sid shares.
                        AList.update sid \<lparr>ssh_id = sid, ssh_v = poly_Eval poly (SharingIDToLagrangeNode sid)\<rparr> shares)
                      (hs_List (Threshold_Shareholders (shm_ac d))) [], poly, prng))))"

definition shamir_DealRandomAndRevealDealerFunc ::
  "ShamirScheme \<Rightarrow> ('a::field) list option \<Rightarrow> ((ID \<times> 'a ShamirShare) list \<times> 'a \<times> 'a Polynomial \<times> 'a list) res" where
  "shamir_DealRandomAndRevealDealerFunc d prng =
     (case prng of
        None \<Rightarrow> Inl ErrIsNil
      | Some prng \<Rightarrow>
          rbind (draw 1 prng) (\<lambda>(value, prng).
          rbind (shamir_DealAndRevealDealerFunc d (Some (value ! 0)) (Some prng)) (\<lambda>(shares, f, prng).
            Inr (shares, value ! 0, f, prng))))"

definition shamir_DealRandom :: "ShamirScheme \<Rightarrow> ('a::field) list option \<Rightarrow> ((ID \<times> 'a ShamirShare) list \<times> 'a \<times> 'a list) res" where
  "shamir_DealRandom d prng =
     rbind (shamir_DealRandomAndRevealDealerFunc d prng) (\<lambda>(shares, secret, f, prng). Inr (shares, secret, prng))"

definition shamir_Deal :: "ShamirScheme \<Rightarrow> ('a::field) option \<Rightarrow> 'a list option \<Rightarrow> ((ID \<times> 'a ShamirShare) list \<times> 'a list) res" where
  "shamir_Deal d secret prng = rbind (shamir_DealAndRevealDealerFunc d secret prng) (\<lambda>(out, f, prng). Inr (out, prng))"

text \<open>\<open>Reconstruct\<close>: putting a nil share into the hash set calls \<open>HashCode\<close> on a nil pointer, which panics.\<close>

definition shamir_Reconstruct :: "ShamirScheme \<Rightarrow> ('a::field) ShamirShare option list \<Rightarrow> 'a res" where
  "shamir_Reconstruct d shares =
     (if list_ex (\<lambda>s. s = None) shares then Inl Panic
      else (let sharesSet = hs_NewComparable shares in
        rbind (CollectIDs ssh_id (hs_List sharesSet)) (\<lambda>ids.
          if \<not> Threshold_IsQualified (shm_ac d) ids then Inl ErrFailed
          else InterpolateAt (map (\<lambda>s. SharingIDToLagrangeNode (ssh_id (the s))) (hs_List sharesSet))
                 (map (\<lambda>s. ssh_v (the s)) (hs_List sharesSet)) 0)))"

definition shamir_ConvertShareToAdditive :: "ShamirScheme \<Rightarrow> ('a::field) ShamirShare option \<Rightarrow> Unanimity option \<Rightarrow> 'a AdditiveShare res" where
  "shamir_ConvertShareToAdditive d s quorum =
     (case s of None \<Rightarrow> Inl Panic | Some s \<Rightarrow> ToAdditive s quorum)"

section \<open>Dealt shares\<close>

definition poly_share :: "('a::field) Polynomial \<Rightarrow> ID \<Rightarrow> 'a ShamirShare" where
  "poly_share p sid = \<lparr>ssh_id = sid, ssh_v = poly_Eval p (FromUint64 sid)\<rparr>"

definition shamir_wf :: "'a::field itself \<Rightarrow> ShamirScheme \<Rightarrow> bool" where
  "shamir_wf F d \<longleftrightarrow> Threshold_wf (shm_ac d) \<and> nodes_admissible F (set (th_ps (shm_ac d)))"

lemma fold_update_keys:
  "distinct ids \<Longrightarrow> fst ` set l \<inter> set ids = {} \<Longrightarrow> fold (\<lambda>sid l. AList.update sid (f sid) l) ids l = l @ map (\<lambda>sid. (sid, f sid)) ids"
  by (induction ids arbitrary: l) (auto simp: update_new_key)

lemma shamir_Deal_dealt:
  assumes wf: "Threshold_wf (shm_ac d)" and deal: "shamir_Deal d (Some secret) (Some prng) = Inr (shares, rest)"
  obtains p where "RandomPolynomialWithConstantTerm (int (th_t (shm_ac d)) - 1) secret prng = Inr (p, rest)"
    "shares = map (\<lambda>sid. (sid, poly_share p sid)) (th_ps (shm_ac d))"
    "length (coeffs p) = th_t (shm_ac d)" "poly_Eval p 0 = secret" "coeffs p ! 0 = secret"
proof -
  from deal obtain p where p: "RandomPolynomialWithConstantTerm (int (th_t (shm_ac d)) - 1) secret prng = Inr (p, rest)"
    "shares = fold (\<lambda>sid shares. AList.update sid \<lparr>ssh_id = sid, ssh_v = poly_Eval p (SharingIDToLagrangeNode sid)\<rparr> shares) (th_ps (shm_ac d)) []"
    by (auto simp: shamir_Deal_def shamir_DealAndRevealDealerFunc_def Threshold_Shareholders_def hs_List_def)
  have t: "2 \<le> th_t (shm_ac d)" "distinct (th_ps (shm_ac d))" using wf by (auto simp: Threshold_wf_def hs_wf_def)
  have sh: "shares = map (\<lambda>sid. (sid, poly_share p sid)) (th_ps (shm_ac d))"
    using p(2) fold_update_keys [OF t(2), of "[]" "poly_share p"] by (simp add: poly_share_def SharingIDToLagrangeNode_def)
  have len: "length (coeffs p) = th_t (shm_ac d)" and c: "coeffs p ! 0 = secret"
    using p(1) t(1) by (auto simp: RandomPolynomialWithConstantTerm_def draw_Inr_iff split: if_splits)
  have "poly_Eval p 0 = (\<Sum>i<length (coeffs p). coeffs p ! i * 0 ^ i)" by (rule poly_Eval_sum)
  also have "\<dots> = coeffs p ! 0" using len t(1) by (subst sum_single [of 0]) auto
  finally show thesis using p(1) sh len c by (intro that) simp_all
qed

lemma poly_shares_given:
  assumes "set ids \<subseteq> set ps"
  shows "map (map_of (map (\<lambda>sid. (sid, f sid)) ps)) ids = map (\<lambda>sid. Some (f sid)) ids"
  using assms by (auto simp: map_of_map_restrict)

lemma nodes_distinct:
  assumes "nodes_admissible TYPE('a::field) U" "distinct ids" "set ids \<subseteq> U"
  shows "distinct (map (FromUint64 :: ID \<Rightarrow> 'a) ids)"
  using assms by (auto simp: nodes_admissible_def distinct_map intro: inj_on_subset)

lemma shamir_Reconstruct_shares:
  fixes p :: "'a::field Polynomial"
  assumes wf: "shamir_wf TYPE('a) d" and p: "length (coeffs p) = th_t (shm_ac d)"
    and ids: "distinct ids" "set ids \<subseteq> set (th_ps (shm_ac d))"
  shows "shamir_Reconstruct d (map (\<lambda>sid. Some (poly_share p sid)) ids) =
    (if Threshold_IsQualified (shm_ac d) ids then Inr (poly_Eval p 0) else Inl ErrFailed)"
proof -
  let ?shares = "map (\<lambda>sid. Some (poly_share p sid)) ids" and ?nodes = "map FromUint64 ids :: 'a list"
  have "distinct ?shares" using ids(1) by (auto simp: distinct_map inj_on_def poly_share_def)
  then have set: "hs_NewComparable ?shares = ?shares" by (rule hs_New_distinct)
  have nn: "\<not> list_ex (\<lambda>s. s = None) ?shares" by (auto simp: list_ex_iff)
  have dn: "distinct ?nodes" using wf ids by (intro nodes_distinct) (auto simp: shamir_wf_def)
  have len: "th_t (shm_ac d) \<le> length ids" "ids \<noteq> []" if "Threshold_IsQualified (shm_ac d) ids"
    using that wf ids(1) by (auto simp: Threshold_IsQualified_def Let_def distinct_card shamir_wf_def Threshold_wf_def)
  have "InterpolateAt ?nodes (map (poly_Eval p) ?nodes) 0 = Inr (poly_Eval p 0)" if "Threshold_IsQualified (shm_ac d) ids"
    by (rule InterpolateAt_Eval [OF dn]) (use len that p in simp_all)
  then show ?thesis
    unfolding shamir_Reconstruct_def set
    using nn by (simp add: hs_List_def CollectIDs_map_Some comp_def poly_share_def SharingIDToLagrangeNode_def)
qed

lemma LagrangeCoefficients_ok:
  assumes "nodes_admissible TYPE('a::field) U" "distinct ids" "set ids \<subseteq> U" "ids \<noteq> []"
  shows "(LagrangeCoefficients ids :: (ID \<times> 'a) list res) =
    Inr (map (\<lambda>i. (ids ! i, lagrange_basis (map FromUint64 ids) i 0)) [0..<length ids])"
proof -
  let ?nodes = "map FromUint64 ids :: 'a list"
  have loop: "fold (\<lambda>i result. AList.update (ids ! i) (g i) result) [0..<k] [] = map (\<lambda>i. (ids ! i, g i)) [0..<k]"
    if "k \<le> length ids" for k and g :: "nat \<Rightarrow> 'a"
    using that
  proof (induction k)
    case (Suc k)
    then have "ids ! k \<notin> fst ` set (map (\<lambda>i. (ids ! i, g i)) [0..<k])"
      using assms(2) by (auto simp: nth_eq_iff_index_eq)
    with Suc show ?case by (simp add: update_new_key)
  qed simp
  have "fold (\<lambda>i result. AList.update (ids ! i) (map (\<lambda>i. lagrange_basis ?nodes i 0) [0..<length ids] ! i) result) [0..<length ids] []
      = map (\<lambda>i. (ids ! i, map (\<lambda>i. lagrange_basis ?nodes i 0) [0..<length ids] ! i)) [0..<length ids]"
    by (rule loop) simp
  also have "\<dots> = map (\<lambda>i. (ids ! i, lagrange_basis ?nodes i 0)) [0..<length ids]" by simp
  finally show ?thesis
    using BasisAt_ok [OF nodes_distinct [OF assms(1-3)], of 0] assms(2,4)
    by (simp add: LagrangeCoefficients_def SharingIDToLagrangeNode_def [abs_def] distinct_card)
qed

lemma map_of_nth_keys:
  assumes "distinct ids" "k < length ids"
  shows "map_of (map (\<lambda>i. (ids ! i, g i)) [0..<length ids]) (ids ! k) = Some (g k)"
proof -
  have "map_of (zip ids (map g [0..<length ids])) (ids ! k) = Some (map g [0..<length ids] ! k)"
    using assms by (intro map_of_zip_nth) simp_all
  moreover have "map (\<lambda>i. (ids ! i, g i)) [0..<length ids] = zip ids (map g [0..<length ids])"
    by (rule nth_equalityI) simp_all
  ultimately show ?thesis using assms(2) by simp
qed

lemma ToAdditive_value:
  fixes p :: "'a::field Polynomial"
  assumes u: "Unanimity_wf u" "set (un_ps u) \<subseteq> U" "nodes_admissible TYPE('a) U" and k: "k < length (un_ps u)"
  shows "ToAdditive (poly_share p (un_ps u ! k)) (Some u) =
    Inr \<lparr>ash_id = un_ps u ! k, ash_v = lagrange_basis (map FromUint64 (un_ps u)) k 0 * poly_Eval p (FromUint64 (un_ps u ! k))\<rparr>"
proof -
  have q: "distinct (un_ps u)" "0 \<notin> set (un_ps u)" "un_ps u \<noteq> []" using u(1) by (auto simp: Unanimity_wf_def hs_wf_def hs_Size_def)
  have "un_ps u ! k \<noteq> 0" using q(2) k by (metis nth_mem)
  then show ?thesis
    using LagrangeCoefficients_ok [OF u(3) q(1) u(2) q(3)] map_of_nth_keys [OF q(1) k, where g = "\<lambda>i. lagrange_basis (map FromUint64 (un_ps u)) i 0 :: 'a"] k
    by (simp add: ToAdditive_def Unanimity_Shareholders_def hs_List_def poly_share_def additive_NewShare_def NewAdditiveShare_def)
qed

section \<open>The scheme as an implementation of the interface\<close>

interpretation shamir_sss: sss "shamir_wf TYPE('a::field)" "shamir_Deal :: _ \<Rightarrow> 'a option \<Rightarrow> _" shamir_DealRandom
  shamir_Reconstruct shamir_CanReconstruct shamir_Shareholders
proof (unfold_locales, goal_cases)
  case (1 d w prng shares rest)
  then have wf: "Threshold_wf (shm_ac d)" by (simp add: shamir_wf_def)
  obtain p where "shares = map (\<lambda>sid. (sid, poly_share p sid)) (th_ps (shm_ac d))"
    by (rule shamir_Deal_dealt [OF wf 1(2)]) blast
  with wf show ?case
    by (simp add: shamir_Shareholders_def Threshold_Shareholders_def Threshold_wf_def hs_wf_def comp_def image_image)
next
  case (2 d w prng shares rest ids)
  then have wf: "Threshold_wf (shm_ac d)" by (simp add: shamir_wf_def)
  obtain p where p: "shares = map (\<lambda>sid. (sid, poly_share p sid)) (th_ps (shm_ac d))"
    "length (coeffs p) = th_t (shm_ac d)" "poly_Eval p 0 = w"
    by (rule shamir_Deal_dealt [OF wf 2(2)]) blast
  have ids: "set ids \<subseteq> set (th_ps (shm_ac d))"
    using 2(5) by (simp add: shamir_Shareholders_def Threshold_Shareholders_def)
  show ?case
    unfolding p(1) poly_shares_given [OF ids] shamir_CanReconstruct_def
    using shamir_Reconstruct_shares [OF 2(1) p(2) 2(4) ids] by (simp add: p(3))
next
  case (3 d prng shares w rest)
  then obtain q f where "shamir_DealAndRevealDealerFunc d (Some w) (Some q) = Inr (shares, f, rest)"
    by (auto simp: shamir_DealRandom_def shamir_DealRandomAndRevealDealerFunc_def)
  then have "shamir_Deal d (Some w) (Some q) = Inr (shares, rest)" by (simp add: shamir_Deal_def)
  then show ?case by blast
qed (simp_all add: shamir_Deal_def shamir_DealRandom_def shamir_DealRandomAndRevealDealerFunc_def
    shamir_DealAndRevealDealerFunc_def split: option.split)

interpretation shamir_lsss: lsss "shamir_wf TYPE('a::field)" "shamir_Deal :: _ \<Rightarrow> 'a option \<Rightarrow> _" shamir_DealRandom
  shamir_Reconstruct shamir_CanReconstruct shamir_Shareholders shamir_ConvertShareToAdditive
proof (unfold_locales, goal_cases)
  case (1 d w prng shares rest u)
  let ?q = "un_ps u" and ?nodes = "map FromUint64 (un_ps u) :: 'a list"
  have wf: "Threshold_wf (shm_ac d)" and adm: "nodes_admissible TYPE('a) (set (th_ps (shm_ac d)))"
    using 1(1) by (simp_all add: shamir_wf_def)
  have q: "set ?q \<subseteq> set (th_ps (shm_ac d))" "distinct ?q"
    using 1(3,4) by (auto simp: shamir_Shareholders_def Threshold_Shareholders_def Unanimity_wf_def hs_wf_def)
  obtain p where p: "shares = map (\<lambda>sid. (sid, poly_share p sid)) (th_ps (shm_ac d))"
    "length (coeffs p) = th_t (shm_ac d)" "poly_Eval p 0 = w"
    by (rule shamir_Deal_dealt [OF wf 1(2)]) blast
  define val where "val i = the (map_of (map (\<lambda>k. (?q ! k, lagrange_basis ?nodes k 0 * poly_Eval p (FromUint64 (?q ! k)))) [0..<length ?q]) i)" for i
  have val: "val (?q ! k) = lagrange_basis ?nodes k 0 * poly_Eval p (FromUint64 (?q ! k))" if "k < length ?q" for k
    unfolding val_def by (simp add: map_of_nth_keys [OF q(2) that])
  have "shamir_ConvertShareToAdditive d (map_of shares i) (Some u) = Inr \<lparr>ash_id = i, ash_v = val i\<rparr>" if "i \<in> set ?q" for i
  proof -
    from that obtain k where k: "i = ?q ! k" "k < length ?q" by (auto simp: in_set_conv_nth)
    have "map_of shares i = Some (poly_share p i)" using that q(1) by (auto simp: p(1) map_of_map_restrict)
    then show ?thesis
      using ToAdditive_value [OF 1(3) q(1) adm k(2), of p] k val by (simp add: shamir_ConvertShareToAdditive_def)
  qed
  moreover have "(\<Sum>i\<leftarrow>?q. val i) = w"
  proof -
    have dn: "distinct ?nodes" by (rule nodes_distinct [OF adm q(2,1)])
    have "card (set ?q) = length ?q" using q(2) by (rule distinct_card)
    then have "th_t (shm_ac d) \<le> length ?q"
      using 1(5) by (simp add: shamir_CanReconstruct_def Threshold_IsQualified_def Let_def)
    then have rep: "polyrep (length ?nodes) (poly_Eval p)" using p(2) by (intro polyrep_Eval) simp
    have "(\<Sum>i\<leftarrow>?q. val i) = (\<Sum>k<length ?q. val (?q ! k))" by (simp add: sum_list_sum_nth atLeast0LessThan)
    also have "\<dots> = (\<Sum>k<length ?nodes. lagrange_basis ?nodes k 0 * poly_Eval p (?nodes ! k))" using val by simp
    also have "\<dots> = poly_Eval p 0" by (rule lagrange_unique [OF dn rep])
    finally show ?thesis using p(3) by simp
  qed
  ultimately show ?case by blast
qed

section \<open>Properties\<close>

text \<open>C37. Shamir sharing round trip: whatever the sampler delivered, any coalition of at least \<open>t\<close> shareholders
  interpolates the dealt secret from its shares, in any order; a smaller one gets an error. The same holds for a
  secret sampled by \<open>DealRandom\<close>.\<close>

theorem shamir_roundtrip:
  fixes secret :: "'a::field"
  assumes "NewThresholdAccessStructure t (Some ps) = Inr a" "hs_wf ps"
    and "inj_on (FromUint64 :: ID \<Rightarrow> 'a) (set ps)" "\<forall>p\<in>set ps. FromUint64 p \<noteq> (0 :: 'a)"
    and ids: "ids \<noteq> []" "distinct ids" "set ids \<subseteq> set ps"
  shows "(shamir_Deal \<lparr>shm_ac = a\<rparr> (Some secret) (Some prng) = Inr (shares, rest) \<longrightarrow>
      shamir_Reconstruct \<lparr>shm_ac = a\<rparr> (map (map_of shares) ids) = (if t \<le> length ids then Inr secret else Inl ErrFailed)) \<and>
    (shamir_DealRandom \<lparr>shm_ac = a\<rparr> (Some prng) = Inr (shares, secret, rest) \<longrightarrow>
      shamir_Reconstruct \<lparr>shm_ac = a\<rparr> (map (map_of shares) ids) = (if t \<le> length ids then Inr secret else Inl ErrFailed))"
proof -
  from assms(1,2) have "Threshold_wf a" and a: "th_ps a = ps" "th_t a = t"
    by (auto simp: NewThresholdAccessStructure_def Threshold_wf_def split: if_splits)
  with assms(3,4) have wf: "shamir_wf TYPE('a) \<lparr>shm_ac = a\<rparr>" by (auto simp: shamir_wf_def nodes_admissible_def)
  have q: "shamir_CanReconstruct \<lparr>shm_ac = a\<rparr> ids \<longleftrightarrow> t \<le> length ids"
    using ids by (simp add: shamir_CanReconstruct_def Threshold_IsQualified_def a distinct_card)
  have sub: "set ids \<subseteq> set (shamir_Shareholders \<lparr>shm_ac = a\<rparr>)"
    using ids(3) by (simp add: shamir_Shareholders_def Threshold_Shareholders_def a)
  show ?thesis
    using shamir_sss.reconstruct [OF wf _ ids(1,2) sub] shamir_sss.random_reconstruct [OF wf _ ids(1,2) sub] q by simp
qed

lemma shamir_example_wf:
  "NewThresholdAccessStructure 2 (Some [4, 1, 7]) = Inr \<lparr>th_t = 2, th_ps = [4, 1, 7]\<rparr>" "hs_wf [4, 1, 7 :: ID]"
  "inj_on (FromUint64 :: ID \<Rightarrow> rat) (set [4, 1, 7])" "\<forall>p\<in>set [4, 1, 7]. FromUint64 p \<noteq> (0 :: rat)"
  by (simp_all add: NewThresholdAccessStructure_def hs_wf_def hs_Contains_def hs_Size_def FromUint64_def inj_on_def)

lemma shamir_example_deal:
  "shamir_Deal \<lparr>shm_ac = \<lparr>th_t = 2, th_ps = [4, 1, 7]\<rparr>\<rparr> (Some 42) (Some [0, 3, 5 :: rat]) =
     Inr (map (\<lambda>sid. (sid, poly_share \<lparr>coeffs = [42, 3]\<rparr> sid)) [4, 1, 7], [5])"
  using fold_update_keys [of "[4, 1, 7 :: ID]" "[]" "poly_share \<lparr>coeffs = [42, 3 :: rat]\<rparr>"]
  by (simp add: shamir_Deal_def shamir_DealAndRevealDealerFunc_def RandomPolynomialWithConstantTerm_def RandomNonIdentity_def
      Threshold_Shareholders_def hs_List_def poly_share_def SharingIDToLagrangeNode_def)

theorem shamir_roundtrip_witness:
  "\<exists>shares rest. shamir_Deal \<lparr>shm_ac = \<lparr>th_t = 2, th_ps = [4, 1, 7]\<rparr>\<rparr> (Some 42) (Some [0, 3, 5 :: rat]) = Inr (shares, rest) \<and>
     shamir_Reconstruct \<lparr>shm_ac = \<lparr>th_t = 2, th_ps = [4, 1, 7]\<rparr>\<rparr> (map (map_of shares) [7, 4]) = Inr 42"
proof -
  have ids: "[7, 4 :: ID] \<noteq> []" "distinct [7, 4 :: ID]" "set [7, 4] \<subseteq> set [4, 1, 7 :: ID]" by simp_all
  from shamir_roundtrip [OF shamir_example_wf ids, of 42 "[0, 3, 5]"] shamir_example_deal show ?thesis by fastforce
qed

text \<open>Shamir shares convert to additive shares: for a quorum of at least \<open>t\<close> shareholders, multiplying each share
  with its Lagrange coefficient succeeds and the additive shares of the quorum reconstruct the secret.\<close>

theorem shamir_convert_additive:
  fixes secret :: "'a::field"
  assumes "NewThresholdAccessStructure t (Some ps) = Inr a" "hs_wf ps"
    and "inj_on (FromUint64 :: ID \<Rightarrow> 'a) (set ps)" "\<forall>p\<in>set ps. FromUint64 p \<noteq> (0 :: 'a)"
    and deal: "shamir_Deal \<lparr>shm_ac = a\<rparr> (Some secret) (Some prng) = Inr (shares, rest)"
    and u: "NewUnanimityAccessStructure (Some q) = Inr u" "hs_wf q" "set q \<subseteq> set ps" "t \<le> length q"
  shows "\<exists>as. MapOrError (\<lambda>i. shamir_ConvertShareToAdditive \<lparr>shm_ac = a\<rparr> (map_of shares i) (Some u)) q = Inr as \<and>
    additive_Reconstruct \<lparr>ad_ac = u\<rparr> (map Some as) = Inr secret"
proof -
  from assms(1,2) have "Threshold_wf a" and a: "th_ps a = ps" "th_t a = t"
    by (auto simp: NewThresholdAccessStructure_def Threshold_wf_def split: if_splits)
  with assms(3,4) have wf: "shamir_wf TYPE('a) \<lparr>shm_ac = a\<rparr>" by (auto simp: shamir_wf_def nodes_admissible_def)
  from u(1,2) have un: "Unanimity_wf u" "un_ps u = q"
    by (auto simp: NewUnanimityAccessStructure_def Unanimity_wf_def split: if_splits)
  have d: "distinct q" using u(2) by (simp add: hs_wf_def)
  show ?thesis
    by (rule shamir_lsss.convert_reconstruct [OF wf deal un(1)])
      (use u(3,4) d in \<open>simp_all add: un(2) a shamir_Shareholders_def Threshold_Shareholders_def
        shamir_CanReconstruct_def Threshold_IsQualified_def distinct_card\<close>)
qed

theorem shamir_convert_additive_witness:
  "\<exists>shares rest as. shamir_Deal \<lparr>shm_ac = \<lparr>th_t = 2, th_ps = [4, 1, 7]\<rparr>\<rparr> (Some 42) (Some [0, 3, 5 :: rat]) = Inr (shares, rest) \<and>
     MapOrError (\<lambda>i. shamir_ConvertShareToAdditive \<lparr>shm_ac = \<lparr>th_t = 2, th_ps = [4, 1, 7]\<rparr>\<rparr> (map_of shares i) (Some \<lparr>un_ps = [1, 7]\<rparr>)) [1, 7] = Inr as \<and>
     additive_Reconstruct \<lparr>ad_ac = \<lparr>un_ps = [1, 7]\<rparr>\<rparr> (map Some as) = Inr 42"
proof -
  have u: "NewUnanimityAccessStructure (Some [1, 7]) = Inr \<lparr>un_ps = [1, 7]\<rparr>" "hs_wf [1, 7 :: ID]"
    "set [1, 7] \<subseteq> set [4, 1, 7 :: ID]" "2 \<le> length [1, 7 :: ID]"
    by (simp_all add: NewUnanimityAccessStructure_def hs_Size_def hs_wf_def)
  from shamir_convert_additive [OF shamir_example_wf shamir_example_deal u] shamir_example_deal show ?thesis by blast
qed

subsection \<open>Shamir sharing as sharing over the Vandermonde programme\<close>

lemma rows_for_single:
  assumes "distinct ids" "mrows (msp_matrix m) = length ids" "\<And>i. i < length ids \<Longrightarrow> row_label m i = ids ! i" "sid \<in> set ids"
  obtains k where "rows_for m {sid} = [k]" "k < length ids" "ids ! k = sid"
proof -
  from assms(4) obtain k where k: "k < length ids" "ids ! k = sid" by (auto simp: in_set_conv_nth)
  then have "set (rows_for m {sid}) = {k}"
    using assms(1-3) by (auto simp: rows_for_def nth_eq_iff_index_eq)
  then have "rows_for m {sid} = [k]"
    using rows_for_sorted [of m "{sid}"] by (metis distinct_singleton empty_set finite_set list.simps(15) sorted_distinct_set_unique sorted_wrt1)
  then show thesis using k by (rule that)
qed

text \<open>Shamir's scheme is the Karchmer-Wigderson scheme over the Vandermonde programme of its threshold
  structure: for every dealing of Shamir's scheme there are samples for which dealing the same secret over the
  programme gives every shareholder the same identifier and, as the only component, the same value.\<close>

theorem shamir_is_kw:
  fixes secret :: "'a::field"
  assumes "NewThresholdAccessStructure t (Some ps) = Inr a" "hs_wf ps"
    and deal: "shamir_Deal \<lparr>shm_ac = a\<rparr> (Some secret) (Some prng) = Inr (shares, rest)"
  shows "\<exists>m prng' shares'. Threshold_InducedMSP (Some ()) (Some a) = Inr m \<and>
    kw_Deal \<lparr>kw_msp = m\<rparr> (Some secret) (Some prng') = Inr (shares', []) \<and>
    (\<forall>i. map_option (\<lambda>s. (ssh_id s, [ssh_v s])) (map_of shares i) = map_option (\<lambda>s. (sh_id s, sh_v s)) (map_of shares' i))"
proof -
  from assms(1,2) have wf: "Threshold_wf a" "Threshold_wf (shm_ac \<lparr>shm_ac = a\<rparr>)"
    by (auto simp: NewThresholdAccessStructure_def Threshold_wf_def split: if_splits)
  have some: "Some () \<noteq> None" by simp
  obtain m :: "'a MSP" where m: "Threshold_InducedMSP (Some ()) (Some a) = Inr m" "msp_wf m"
    "msp_holders m = set (th_ps a)" "mcols (msp_matrix m) = th_t a" "mrows (msp_matrix m) = length (th_ps a)"
    "\<And>i. i < mrows (msp_matrix m) \<Longrightarrow> row_label m i = sort (th_ps a) ! i"
    "\<And>i c. i < mrows (msp_matrix m) \<Longrightarrow> c < mcols (msp_matrix m) \<Longrightarrow> ent (msp_matrix m) i c = FromUint64 (row_label m i) ^ c"
    by (rule Threshold_InducedMSP_matrix [OF some wf(1)]) (rule that, blast+)
  obtain p where p: "shares = map (\<lambda>sid. (sid, poly_share p sid)) (th_ps a)" "length (coeffs p) = th_t a" "coeffs p ! 0 = secret"
    by (rule shamir_Deal_dealt [OF wf(2) deal]) (use that in auto)
  have t: "2 \<le> th_t a" "distinct (sort (th_ps a))" using wf(1) by (simp_all add: Threshold_wf_def hs_wf_def)
  let ?f = "row_share m (row_value m (dealt_column secret (coeffs p)))"
  have kw: "kw_Deal \<lparr>kw_msp = m\<rparr> (Some secret) (Some (coeffs p)) = Inr (map (\<lambda>sid. (sid, ?f sid)) (msp_Shareholders m), [])"
    using kw_Deal_ok [OF m(2), of "coeffs p" secret] m(4) t(1) p(2) by simp
  have "sh_v (?f sid) = [ssh_v (poly_share p sid)]" if sid: "sid \<in> set (th_ps a)" for sid
  proof -
    obtain k where k: "rows_for m {sid} = [k]" "k < length (sort (th_ps a))" "sort (th_ps a) ! k = sid"
      by (rule rows_for_single [of "sort (th_ps a)" m sid]) (use t(2) m(5,6) sid that in auto)
    have lab: "row_label m k = sid" "k < mrows (msp_matrix m)" using k m(5,6) by simp_all
    have "row_value m (dealt_column secret (coeffs p)) k = (\<Sum>c<th_t a. FromUint64 sid ^ c * coeffs p ! c)"
      unfolding row_value_def m(4) by (intro sum.cong refl) (use m(4,7) lab p(3) in \<open>simp add: dealt_column_def\<close>)
    also have "\<dots> = poly_Eval p (FromUint64 sid)" using p(2) by (simp add: poly_Eval_sum mult.commute)
    finally show ?thesis using k(1) by (simp add: row_share_def poly_share_def)
  qed
  then have "\<forall>i. map_option (\<lambda>s. (ssh_id s, [ssh_v s])) (map_of shares i) =
      map_option (\<lambda>s. (sh_id s, sh_v s)) (map_of (map (\<lambda>sid. (sid, ?f sid)) (msp_Shareholders m)) i)"
    using msp_Shareholders_holders [OF m(2)] m(3)
    by (auto simp: p(1) map_of_map_restrict restrict_map_def row_share_def poly_share_def)
  with m(1) kw show ?thesis by blast
qed

theorem shamir_is_kw_witness:
  "\<exists>(m :: rat MSP) prng' shares'. Threshold_InducedMSP (Some ()) (Some \<lparr>th_t = 2, th_ps = [4, 1, 7]\<rparr>) = Inr m \<and>
    kw_Deal \<lparr>kw_msp = m\<rparr> (Some 42) (Some prng') = Inr (shares', []) \<and>
    (\<forall>i. map_option (\<lambda>s. (ssh_id s, [ssh_v s])) (map_of (map (\<lambda>sid. (sid, poly_share \<lparr>coeffs = [42, 3]\<rparr> sid)) [4, 1, 7]) i) =
       map_option (\<lambda>s. (sh_id s, sh_v s)) (map_of shares' i))"
  by (rule shamir_is_kw [OF shamir_example_wf(1,2) shamir_example_deal])

end
