(* ===== verification/Hierarchical.thy ===== *)
theory Hierarchical
  imports CNF
begin

text \<open>
  The hierarchical conjunctive threshold structure (\<open>accessstructures/hierarchical\<close>): ordered levels
  with cumulative thresholds, its constructor, the policy, the rank of a shareholder, the
  maximal unqualified sets by exhaustive search, and the serialised form.
\<close>

record ThresholdLevel =
  lv_threshold :: int
  lv_parties :: "ID list"

definition WithLevel :: "int \<Rightarrow> ID list \<Rightarrow> ThresholdLevel" where
  "WithLevel t ps = \<lparr>lv_threshold = t, lv_parties = ps\<rparr>"

definition Level_Shareholders :: "ThresholdLevel \<Rightarrow> ID hset" where
  "Level_Shareholders l = hs_NewComparable (lv_parties l)"

type_synonym Hierarchical = "ThresholdLevel list"

section \<open>Operations\<close>

text \<open>The loop of the constructor, with the levels built so far.\<close>

fun NewHierarchical_loop ::
  "ThresholdLevel option list \<Rightarrow> ID hset \<Rightarrow> int \<Rightarrow> ThresholdLevel list \<Rightarrow> Hierarchical res" where
  "NewHierarchical_loop [] cumulativeParties currentThreshold ls = Inr ls"
| "NewHierarchical_loop (l # levels) cumulativeParties currentThreshold ls =
     (case l of None \<Rightarrow> Inl ErrIsNil
      | Some l \<Rightarrow>
        let parties = hs_NewComparable (lv_parties l) in
        if hs_Contains parties 0 then Inl ErrValue
        else if lv_threshold l \<le> currentThreshold then Inl ErrValue
        else if hs_Size (hs_Intersection cumulativeParties parties) > 0 then Inl ErrValue
        else (let cumulativeParties = hs_AddAll cumulativeParties (lv_parties l) in
          if int (hs_Size cumulativeParties) < lv_threshold l then Inl ErrValue
          else NewHierarchical_loop levels cumulativeParties (lv_threshold l)
                 (ls @ [\<lparr>lv_threshold = lv_threshold l, lv_parties = hs_List parties\<rparr>])))"

definition NewHierarchical :: "ThresholdLevel option list \<Rightarrow> Hierarchical res" where
  "NewHierarchical levels =
     (if length levels < 1 then Inl ErrValue
      else NewHierarchical_loop levels (hs_NewComparable []) 0 [])"

definition Hierarchical_Thresholds :: "Hierarchical \<Rightarrow> int list" where
  "Hierarchical_Thresholds h = map lv_threshold h"

fun Hierarchical_IsQualified_loop :: "ThresholdLevel list \<Rightarrow> ID hset \<Rightarrow> ID hset \<Rightarrow> bool" where
  "Hierarchical_IsQualified_loop [] partiesSet cumulativeParties = True"
| "Hierarchical_IsQualified_loop (level # levels) partiesSet cumulativeParties =
     (let cumulativeParties = hs_AddAll cumulativeParties (lv_parties level) in
      if int (hs_Size (hs_Intersection cumulativeParties partiesSet)) < lv_threshold level then False
      else Hierarchical_IsQualified_loop levels partiesSet cumulativeParties)"

definition Hierarchical_IsQualified :: "Hierarchical \<Rightarrow> ID list \<Rightarrow> bool" where
  "Hierarchical_IsQualified h ids =
     Hierarchical_IsQualified_loop h (hs_NewComparable ids) (hs_NewComparable [])"

definition Hierarchical_Shareholders :: "Hierarchical \<Rightarrow> ID hset" where
  "Hierarchical_Shareholders h =
     fold (\<lambda>level sh. hs_AddAll sh (lv_parties level)) h (hs_NewComparable [])"

definition Hierarchical_MaximalUnqualifiedSetsIter :: "Hierarchical \<Rightarrow> ID hset list res" where
  "Hierarchical_MaximalUnqualifiedSetsIter h =
     (case BruteForceMaximalUnqualifiedSets (Some (Hierarchical_Shareholders h))
             (Some (Hierarchical_IsQualified h)) of
        Inl e \<Rightarrow> Inl Panic | Inr muss \<Rightarrow> Inr muss)"

fun Hierarchical_Rank_loop :: "ThresholdLevel list \<Rightarrow> ID \<Rightarrow> int \<Rightarrow> int res" where
  "Hierarchical_Rank_loop [] x r = Inl ErrMembership"
| "Hierarchical_Rank_loop (level # levels) x r =
     (if hs_Contains (Level_Shareholders level) x then Inr r
      else Hierarchical_Rank_loop levels x (lv_threshold level))"

definition Hierarchical_Rank :: "Hierarchical \<Rightarrow> ID \<Rightarrow> int res" where
  "Hierarchical_Rank h x = Hierarchical_Rank_loop h x 0"

text \<open>Serialisation: a level checks itself when it is decoded, then the constructor runs.\<close>

definition ThresholdLevel_UnmarshalCBOR :: "ThresholdLevel \<Rightarrow> ThresholdLevel res" where
  "ThresholdLevel_UnmarshalCBOR dto =
     (if lv_threshold dto \<le> 0 then Inl ErrValue
      else if length (lv_parties dto) = 0 then Inl ErrValue
      else if list_ex (\<lambda>p. p = 0) (lv_parties dto) then Inl ErrValue
      else Inr dto)"

definition Hierarchical_MarshalCBOR :: "(ThresholdLevel list \<Rightarrow> 'b res) \<Rightarrow> Hierarchical \<Rightarrow> 'b res" where
  "Hierarchical_MarshalCBOR enc h = enc h"

definition Hierarchical_UnmarshalCBOR :: "('b \<Rightarrow> ThresholdLevel list res) \<Rightarrow> 'b \<Rightarrow> Hierarchical res" where
  "Hierarchical_UnmarshalCBOR dec data =
     rbind (dec data) (\<lambda>dtos.
       rbind (MapOrError ThresholdLevel_UnmarshalCBOR dtos) (\<lambda>levels.
         NewHierarchical (map Some levels)))"

section \<open>Policy and invariant\<close>

definition hier_parties :: "Hierarchical \<Rightarrow> nat \<Rightarrow> ID set" where
  "hier_parties h n = (\<Union>l\<in>set (take n h). set (lv_parties l))"

definition hierarchical_auth :: "Hierarchical \<Rightarrow> ID set \<Rightarrow> bool" where
  "hierarchical_auth h A \<longleftrightarrow>
     (\<forall>i<length h. lv_threshold (h ! i) \<le> int (card (A \<inter> hier_parties h (Suc i))))"

definition Hierarchical_wf :: "Hierarchical \<Rightarrow> bool" where
  "Hierarchical_wf h \<longleftrightarrow> h \<noteq> [] \<and> 0 \<notin> hier_parties h (length h)
     \<and> sorted_wrt (<) (0 # map lv_threshold h)
     \<and> (\<forall>l\<in>set h. distinct (lv_parties l))
     \<and> (\<forall>i<length h. set (lv_parties (h ! i)) \<inter> hier_parties h i = {})
     \<and> (\<forall>i<length h. lv_threshold (h ! i) \<le> int (card (hier_parties h (Suc i))))"

lemma hier_parties_0 [simp]: "hier_parties h 0 = {}"
  by (simp add: hier_parties_def)

lemma hier_parties_Suc: "i < length h \<Longrightarrow> hier_parties h (Suc i) = hier_parties h i \<union> set (lv_parties (h ! i))"
  by (auto simp: hier_parties_def take_Suc_conv_app_nth)

lemma hier_parties_append: "i \<le> length h \<Longrightarrow> hier_parties (h @ g) i = hier_parties h i"
  by (simp add: hier_parties_def)

lemma hier_parties_mono: "i \<le> j \<Longrightarrow> hier_parties h i \<subseteq> hier_parties h j"
  unfolding hier_parties_def using set_take_subset_set_take [of i j h] by blast

lemma hier_parties_finite [simp]: "finite (hier_parties h i)"
  by (simp add: hier_parties_def)

lemma Hierarchical_Shareholders_set: "set (Hierarchical_Shareholders h) = hier_parties h (length h)"
proof -
  have "set (fold (\<lambda>level sh. hs_AddAll sh (lv_parties level)) h s) = set s \<union> (\<Union>l\<in>set h. set (lv_parties l))" for s
    by (induction h arbitrary: s) auto
  then show ?thesis by (simp add: Hierarchical_Shareholders_def hier_parties_def)
qed

lemma Hierarchical_Shareholders_wf: "hs_wf (Hierarchical_Shareholders h)"
proof -
  have "hs_wf s \<Longrightarrow> hs_wf (fold (\<lambda>level sh. hs_AddAll sh (lv_parties level)) h s)" for s
    by (induction h arbitrary: s) (auto simp: hs_AddAll_wf)
  then show ?thesis by (simp add: Hierarchical_Shareholders_def)
qed

lemma IsQualified_loop_spec:
  assumes "hs_wf c"
  shows "Hierarchical_IsQualified_loop h s c \<longleftrightarrow>
    (\<forall>i<length h. lv_threshold (h ! i) \<le> int (card (set s \<inter> (set c \<union> hier_parties h (Suc i)))))"
  using assms
proof (induction h arbitrary: c)
  case (Cons l h)
  let ?c = "hs_AddAll c (lv_parties l)"
  have size: "hs_Size (hs_Intersection ?c s) = card (set s \<inter> (set c \<union> set (lv_parties l)))"
    by (simp add: hs_Size_card hs_ops_wf Int_commute)
  have shift: "hier_parties (l # h) (Suc i) = set (lv_parties l) \<union> hier_parties h i" for i
    by (simp add: hier_parties_def)
  show ?case
    using Cons.IH [of ?c] Cons.prems
    by (auto simp: Let_def size hs_AddAll_wf shift Un_assoc All_less_Suc2 not_less
        simp del: take_Suc_Cons)
qed simp

lemma Hierarchical_IsQualified_auth: "Hierarchical_IsQualified h ids \<longleftrightarrow> hierarchical_auth h (set ids)"
  using IsQualified_loop_spec [of "hs_NewComparable []" h "hs_NewComparable ids"]
  by (simp add: Hierarchical_IsQualified_def hierarchical_auth_def)

lemma hierarchical_auth_mono: "hierarchical_auth h A \<Longrightarrow> A \<subseteq> B \<Longrightarrow> hierarchical_auth h B"
  unfolding hierarchical_auth_def
  by (smt (verit) card_mono finite_Int hier_parties_finite Int_mono of_nat_mono order_refl)

section \<open>The constructor\<close>

definition norm_level :: "ThresholdLevel \<Rightarrow> ThresholdLevel" where
  "norm_level l = \<lparr>lv_threshold = lv_threshold l, lv_parties = hs_NewComparable (lv_parties l)\<rparr>"

text \<open>What the loop has checked of the levels it has passed.\<close>

definition hier_ok :: "Hierarchical \<Rightarrow> bool" where
  "hier_ok h \<longleftrightarrow> 0 \<notin> hier_parties h (length h)
     \<and> sorted_wrt (<) (0 # map lv_threshold h)
     \<and> (\<forall>l\<in>set h. distinct (lv_parties l))
     \<and> (\<forall>i<length h. set (lv_parties (h ! i)) \<inter> hier_parties h i = {})
     \<and> (\<forall>i<length h. lv_threshold (h ! i) \<le> int (card (hier_parties h (Suc i))))"

lemma sorted_wrt_snoc_last:
  fixes x :: int
  assumes "sorted_wrt (<) (a # xs)" "last (a # xs) < x"
  shows "sorted_wrt (<) (a # xs @ [x])"
  using assms by (induction xs arbitrary: a) (auto split: if_splits)

lemma hier_parties_snoc:
  "hier_parties (ls @ [l]) (length (ls @ [l])) = hier_parties ls (length ls) \<union> set (lv_parties l)"
  by (auto simp: hier_parties_def)

lemma hier_ok_snoc:
  assumes "hier_ok ls" "distinct (lv_parties l)" "0 \<notin> set (lv_parties l)"
    and "last (0 # map lv_threshold ls) < lv_threshold l"
    and "set (lv_parties l) \<inter> hier_parties ls (length ls) = {}"
    and "lv_threshold l \<le> int (card (hier_parties ls (length ls) \<union> set (lv_parties l)))"
  shows "hier_ok (ls @ [l])"
  unfolding hier_ok_def
proof (intro conjI)
  show "0 \<notin> hier_parties (ls @ [l]) (length (ls @ [l]))"
    using assms(1,3) by (simp only: hier_parties_snoc) (simp add: hier_ok_def)
  show "sorted_wrt (<) (0 # map lv_threshold (ls @ [l]))"
    using assms(1,4) sorted_wrt_snoc_last [of 0 "map lv_threshold ls"] by (simp add: hier_ok_def)
  show "\<forall>i<length (ls @ [l]). set (lv_parties ((ls @ [l]) ! i)) \<inter> hier_parties (ls @ [l]) i = {}"
    using assms(1,5) by (auto simp: hier_ok_def nth_append hier_parties_append less_Suc_eq)
  show "\<forall>i<length (ls @ [l]). lv_threshold ((ls @ [l]) ! i) \<le> int (card (hier_parties (ls @ [l]) (Suc i)))"
    using assms(1,6) hier_parties_snoc [of ls l]
    by (auto simp: hier_ok_def nth_append hier_parties_append less_Suc_eq)
qed (use assms in \<open>auto simp: hier_ok_def\<close>)

lemma NewHierarchical_loop_spec:
  assumes "NewHierarchical_loop levels c cur ls = Inr h"
    and "set c = hier_parties ls (length ls)" "hs_wf c" "cur = last (0 # map lv_threshold ls)" "hier_ok ls"
  shows "None \<notin> set levels \<and> h = ls @ map (\<lambda>l. norm_level (the l)) levels \<and> hier_ok h"
  using assms
proof (induction levels arbitrary: c cur ls)
  case (Cons l levels)
  then obtain x where l: "l = Some x" by (cases l) auto
  let ?c = "hs_AddAll c (lv_parties x)"
  have c: "hs_wf ?c" "set ?c = hier_parties ls (length ls) \<union> set (lv_parties x)"
    using Cons.prems(2,3) by (simp_all add: hs_AddAll_wf)
  have step: "NewHierarchical_loop levels ?c (lv_threshold x) (ls @ [norm_level x]) = Inr h"
    and ok: "0 \<notin> set (lv_parties x)" "cur < lv_threshold x"
      "set (lv_parties x) \<inter> hier_parties ls (length ls) = {}"
      "lv_threshold x \<le> int (card (hier_parties ls (length ls) \<union> set (lv_parties x)))"
    using Cons.prems(1,2) c
    by (auto simp: l Let_def norm_level_def hs_List_def hs_Size_card hs_ops_wf Int_commute
        not_less not_le split: if_splits)
  have "hier_ok (ls @ [norm_level x])"
    using ok Cons.prems(4,5) by (intro hier_ok_snoc) (simp_all add: norm_level_def)
  moreover have "set ?c = hier_parties (ls @ [norm_level x]) (length (ls @ [norm_level x]))"
    unfolding hier_parties_snoc c(2) by (simp add: norm_level_def)
  moreover have "lv_threshold x = last (0 # map lv_threshold (ls @ [norm_level x]))"
    by (simp add: norm_level_def)
  ultimately have "None \<notin> set levels \<and>
      h = (ls @ [norm_level x]) @ map (\<lambda>l. norm_level (the l)) levels \<and> hier_ok h"
    using Cons.IH [OF step _ c(1)] by blast
  then show ?case by (auto simp: l)
qed simp

lemma NewHierarchical_loop_ok:
  assumes "hier_ok (ls @ levels)" "set c = hier_parties ls (length ls)" "hs_wf c"
    "cur = last (0 # map lv_threshold ls)"
  shows "NewHierarchical_loop (map Some levels) c cur ls = Inr (ls @ levels)"
  using assms
proof (induction levels arbitrary: c cur ls)
  case (Cons x levels)
  let ?h = "ls @ x # levels" and ?c = "hs_AddAll c (lv_parties x)"
  have nth: "?h ! length ls = x" "length ls < length ?h" by simp_all
  have h: "0 \<notin> hier_parties ?h (length ?h)" "sorted_wrt (<) (0 # map lv_threshold ?h)"
    "\<forall>l\<in>set ?h. distinct (lv_parties l)"
    "\<forall>i<length ?h. set (lv_parties (?h ! i)) \<inter> hier_parties ?h i = {}"
    "\<forall>i<length ?h. lv_threshold (?h ! i) \<le> int (card (hier_parties ?h (Suc i)))"
    using Cons.prems(1) unfolding hier_ok_def by blast+
  have upto: "hier_parties ?h (length ls) = set c"
    using Cons.prems(2) by (simp add: hier_parties_append)
  then have sc: "hier_parties ?h (Suc (length ls)) = set ?c"
    using hier_parties_Suc [OF nth(2)] by (simp add: nth(1))
  have "lv_parties x \<noteq> [] \<Longrightarrow> set (lv_parties x) \<subseteq> hier_parties ?h (length ?h)"
    by (auto simp: hier_parties_def)
  then have zero: "0 \<notin> set (lv_parties x)" using h(1) by (cases "lv_parties x = []") auto
  have lt: "cur < lv_threshold x"
    using h(2) unfolding Cons.prems(4)
    by (cases ls rule: rev_cases) (auto simp: sorted_wrt_append)
  have disj: "set c \<inter> set (lv_parties x) = {}"
    using h(4) [rule_format, OF nth(2)] upto by (simp add: nth(1) Int_commute)
  have size: "lv_threshold x \<le> int (hs_Size ?c)"
    using h(5) [rule_format, OF nth(2)] Cons.prems(3) by (simp add: sc nth(1) hs_Size_card hs_AddAll_wf)
  have x: "\<lparr>lv_threshold = lv_threshold x, lv_parties = hs_List (hs_NewComparable (lv_parties x))\<rparr> = x"
    using h(3) by (simp add: hs_New_distinct hs_List_def)
  have "NewHierarchical_loop (map Some levels) ?c (lv_threshold x) (ls @ [x]) = Inr ((ls @ [x]) @ levels)"
  proof (rule Cons.IH)
    show "set ?c = hier_parties (ls @ [x]) (length (ls @ [x]))"
      unfolding hier_parties_snoc using Cons.prems(2) by simp
  qed (use Cons.prems in \<open>simp_all add: hs_AddAll_wf\<close>)
  with zero lt disj size x Cons.prems(3) show ?case
    by (simp add: Let_def hs_Size_card hs_ops_wf)
qed simp

lemma Hierarchical_wf_ok: "Hierarchical_wf h \<longleftrightarrow> h \<noteq> [] \<and> hier_ok h"
  by (simp add: Hierarchical_wf_def hier_ok_def)

lemma hier_ok_Nil [simp]: "hier_ok []"
  by (simp add: hier_ok_def)

lemma NewHierarchical_wf:
  assumes "NewHierarchical levels = Inr h"
  shows "Hierarchical_wf h" "None \<notin> set levels" "h = map (\<lambda>l. norm_level (the l)) levels"
  using assms NewHierarchical_loop_spec [of levels "hs_NewComparable []" 0 "[]" h]
  by (auto simp: NewHierarchical_def Hierarchical_wf_ok split: if_splits)

lemma NewHierarchical_again:
  assumes "Hierarchical_wf h"
  shows "NewHierarchical (map Some h) = Inr h"
  using assms NewHierarchical_loop_ok [of "[]" h "hs_NewComparable []" 0]
  by (simp add: NewHierarchical_def Hierarchical_wf_ok)

section \<open>The interface\<close>

definition Hierarchical_feasible :: "Hierarchical \<Rightarrow> bool" where
  "Hierarchical_feasible h \<longleftrightarrow> hs_Size (Hierarchical_Shareholders h) \<le> 57
     \<and> (\<forall>e\<in>set (Hierarchical_Shareholders h). e \<le> 64) \<and> 2 \<le> lv_threshold (last h)"

definition Hierarchical_mus :: "Hierarchical \<Rightarrow> ID hset list" where
  "Hierarchical_mus h = (case Hierarchical_MaximalUnqualifiedSetsIter h of Inl _ \<Rightarrow> [] | Inr m \<Rightarrow> m)"

lemma hierarchical_small_unqualified:
  assumes "Hierarchical_wf h" "2 \<le> lv_threshold (last h)" "card A \<le> 1" "finite A"
  shows "\<not> hierarchical_auth h A"
proof
  assume auth: "hierarchical_auth h A"
  have "h \<noteq> []" using assms(1) by (simp add: Hierarchical_wf_def)
  then have "lv_threshold (last h) \<le> int (card (A \<inter> hier_parties h (length h)))"
    using auth unfolding hierarchical_auth_def last_conv_nth [OF \<open>h \<noteq> []\<close>]
    by (metis Suc_pred' diff_less length_greater_0_conv zero_less_one)
  also have "\<dots> \<le> int (card A)" using assms(4) by (simp add: card_mono)
  finally show False using assms(2,3) by linarith
qed

lemma hierarchical_nonempty:
  assumes "Hierarchical_wf h"
  shows "Hierarchical_Shareholders h \<noteq> []"
proof
  assume "Hierarchical_Shareholders h = []"
  then have "hier_parties h (length h) = {}" using Hierarchical_Shareholders_set [of h] by simp
  then have "hier_parties h (Suc 0) = {}"
    using assms hier_parties_mono [of "Suc 0" "length h" h]
    by (auto simp: Hierarchical_wf_def Suc_le_eq)
  with assms show False by (auto simp: Hierarchical_wf_def neq_Nil_conv)
qed

interpretation hierarchical: monotone_access Hierarchical_wf Hierarchical_feasible hierarchical_auth
  Hierarchical_IsQualified Hierarchical_Shareholders Hierarchical_mus
proof
  fix h assume wf: "Hierarchical_wf h"
  show "set ` set (Hierarchical_mus h) =
      {A. maximal_unqualified (hierarchical_auth h) (set (Hierarchical_Shareholders h)) A}"
    if f: "Hierarchical_feasible h"
  proof -
    let ?U = "set (Hierarchical_Shareholders h)"
    have "\<not> maximal_unqualified (hierarchical_auth h) ?U {}"
    proof
      assume m: "maximal_unqualified (hierarchical_auth h) ?U {}"
      obtain x where "x \<in> ?U" using hierarchical_nonempty [OF wf] by (metis last_in_set)
      then have "hierarchical_auth h {x}" using m by (auto simp: maximal_unqualified_def)
      with hierarchical_small_unqualified [OF wf, of "{x}"] f show False
        by (simp add: Hierarchical_feasible_def)
    qed
    then have ne: "{A. A \<noteq> {} \<and> maximal_unqualified (hierarchical_auth h) ?U A}
        = {A. maximal_unqualified (hierarchical_auth h) ?U A}" by auto
    have "\<exists>muss. BruteForceMaximalUnqualifiedSets (Some (Hierarchical_Shareholders h))
        (Some (Hierarchical_IsQualified h)) = Inr muss
      \<and> set ` set muss = {A. A \<noteq> {} \<and> maximal_unqualified (hierarchical_auth h) ?U A}"
      using f wf hierarchical_nonempty [OF wf]
      by (intro BruteForce_spec)
        (auto simp: Hierarchical_IsQualified_auth Hierarchical_Shareholders_wf Hierarchical_feasible_def
          Hierarchical_Shareholders_set Hierarchical_wf_def)
    then show ?thesis
      unfolding ne by (auto simp: Hierarchical_mus_def Hierarchical_MaximalUnqualifiedSetsIter_def)
  qed
qed (auto simp: Hierarchical_IsQualified_auth Hierarchical_Shareholders_wf Hierarchical_Shareholders_set
    Hierarchical_wf_def intro: hierarchical_auth_mono)

section \<open>Properties\<close>

text \<open>
  C39. The hierarchical constructor accepts exactly the lists of levels that satisfy its documented
  rules (no nil level, no shareholder 0, disjoint levels, strictly increasing positive thresholds,
  none above the number of parties so far) and keeps thresholds and party sets; on what it
  returns \<open>IsQualified\<close> is the conjunction of the cumulative thresholds.
\<close>

theorem NewHierarchical_correct:
  "(case NewHierarchical levels of
      Inr h \<Rightarrow> None \<notin> set levels \<and> Hierarchical_wf h
        \<and> map lv_threshold h = map (\<lambda>l. lv_threshold (the l)) levels
        \<and> map (\<lambda>l. set (lv_parties l)) h = map (\<lambda>l. set (lv_parties (the l))) levels
        \<and> (\<forall>ids. Hierarchical_IsQualified h ids \<longleftrightarrow>
              (\<forall>i<length h. lv_threshold (h ! i) \<le> int (card (set ids \<inter> hier_parties h (Suc i)))))
    | Inl e \<Rightarrow> None \<in> set levels \<or> \<not> Hierarchical_wf (map (\<lambda>l. norm_level (the l)) levels))"
proof (cases "NewHierarchical levels")
  case (Inl e)
  have "None \<in> set levels" if wf: "Hierarchical_wf (map (\<lambda>l. norm_level (the l)) levels)"
  proof (rule ccontr)
    assume "None \<notin> set levels"
    then obtain ls where ls: "levels = map Some ls"
      by (metis ex_map_conv option.exhaust_sel)
    have "NewHierarchical_loop (map Some ls) c cur acc = NewHierarchical_loop (map Some (map norm_level ls)) c cur acc" for c cur acc
      by (induction ls arbitrary: c cur acc)
        (auto simp: norm_level_def Let_def hs_New_distinct hs_AddAll_New)
    with NewHierarchical_again [OF wf] Inl show False
      by (simp add: ls NewHierarchical_def comp_def split: if_splits)
  qed
  with Inl show ?thesis by auto
next
  case (Inr h)
  from NewHierarchical_wf [OF Inr] Inr show ?thesis
    by (simp add: norm_level_def Hierarchical_IsQualified_auth hierarchical_auth_def)
qed

theorem NewHierarchical_correct_witness:
  "\<exists>h. NewHierarchical [Some \<lparr>lv_threshold = 1, lv_parties = [1, 2]\<rparr>, Some \<lparr>lv_threshold = 2, lv_parties = [3]\<rparr>] = Inr h \<and>
     Hierarchical_wf h \<and> map lv_threshold h = [1, 2]"
proof -
  let ?ls = "[Some \<lparr>lv_threshold = 1, lv_parties = [1, 2]\<rparr>, Some \<lparr>lv_threshold = 2, lv_parties = [3]\<rparr>]"
  obtain h where h: "NewHierarchical ?ls = Inr h"
    by (simp add: NewHierarchical_def hs_NewComparable_def hs_AddAll_def hs_Add_def hs_Contains_def hs_Intersection_def hs_Size_def hs_List_def Let_def)
  with NewHierarchical_correct [of ?ls] show ?thesis by simp
qed

lemma Rank_loop_spec:
  assumes "i < length h" "x \<in> set (lv_parties (h ! i))" "\<And>j. j < i \<Longrightarrow> x \<notin> set (lv_parties (h ! j))"
  shows "Hierarchical_Rank_loop h x r = Inr ((r # map lv_threshold h) ! i)"
  using assms
proof (induction h arbitrary: i r)
  case (Cons l h)
  show ?case
  proof (cases i)
    case 0
    with Cons.prems show ?thesis by (simp add: Level_Shareholders_def)
  next
    case (Suc k)
    have "x \<notin> set (lv_parties l)" using Cons.prems(3) [of 0] Suc by simp
    moreover have "x \<notin> set (lv_parties (h ! j))" if "j < k" for j
      using Cons.prems(3) [of "Suc j"] Suc that by simp
    ultimately show ?thesis
      using Cons.IH [of k "lv_threshold l"] Cons.prems Suc by (simp add: Level_Shareholders_def)
  qed
qed simp

lemma Rank_loop_foreign:
  "x \<notin> (\<Union>l\<in>set h. set (lv_parties l)) \<Longrightarrow> Hierarchical_Rank_loop h x r = Inl ErrMembership"
  by (induction h arbitrary: r) (auto simp: Level_Shareholders_def)

text \<open>
  \<open>Rank\<close> fails with \<open>ErrMembership\<close> for a stranger, and for a shareholder it is the cumulative
  threshold of the level before its own, a number from 0 up to but excluding the last threshold:
  a derivative of that order always leaves a non-zero column in the Birkhoff matrix.
\<close>

theorem Hierarchical_Rank_bounds:
  assumes "Hierarchical_wf h"
  shows "if x \<in> set (Hierarchical_Shareholders h)
    then \<exists>i<length h. x \<in> set (lv_parties (h ! i))
      \<and> Hierarchical_Rank h x = Inr (if i = 0 then 0 else lv_threshold (h ! (i - 1)))
      \<and> 0 \<le> (if i = 0 then 0 else lv_threshold (h ! (i - 1)))
      \<and> (if i = 0 then 0 else lv_threshold (h ! (i - 1))) < lv_threshold (last h)
    else Hierarchical_Rank h x = Inl ErrMembership"
proof (cases "x \<in> set (Hierarchical_Shareholders h)")
  case True
  then have "\<exists>i<length h. x \<in> set (lv_parties (h ! i))"
    by (auto simp: Hierarchical_Shareholders_set hier_parties_def in_set_conv_nth [of _ h])
  then obtain i where i: "i < length h" "x \<in> set (lv_parties (h ! i))"
      "\<And>j. j < i \<Longrightarrow> x \<notin> set (lv_parties (h ! j))"
    using exists_least_iff [of "\<lambda>i. i < length h \<and> x \<in> set (lv_parties (h ! i))"]
    by (meson order_less_trans)
  let ?r = "if i = 0 then 0 else lv_threshold (h ! (i - 1))" and ?ts = "0 # map lv_threshold h"
  have "h \<noteq> []" using i(1) by auto
  have inc: "?ts ! a < ?ts ! b" if "a < b" "b < length ?ts" for a b
    using assms that unfolding Hierarchical_wf_def sorted_wrt_iff_nth_less by blast
  have r: "?ts ! i = ?r" using i(1) by (cases i) auto
  have last: "lv_threshold (last h) = ?ts ! length h"
    using \<open>h \<noteq> []\<close> by (simp add: last_conv_nth nth_Cons')
  have "Hierarchical_Rank h x = Inr ?r"
    using Rank_loop_spec [OF i, of 0] r by (simp add: Hierarchical_Rank_def)
  moreover have "0 \<le> ?r" using inc [of 0 i] i(1) r by (cases "i = 0") auto
  moreover have "?r < lv_threshold (last h)" using inc [of i "length h"] i(1) r last by simp
  ultimately have "x \<in> set (lv_parties (h ! i)) \<and> Hierarchical_Rank h x = Inr ?r \<and> 0 \<le> ?r
      \<and> ?r < lv_threshold (last h)" using i(2) by simp
  then show ?thesis unfolding if_P [OF True] using i(1) by (intro exI [of _ i] conjI) blast+
next
  case False
  then show ?thesis
    using Rank_loop_foreign [of x h 0]
    by (simp add: Hierarchical_Rank_def Hierarchical_Shareholders_set hier_parties_def)
qed

theorem Hierarchical_Rank_bounds_witness:
  "let h = [\<lparr>lv_threshold = 1, lv_parties = [1, 2]\<rparr>, \<lparr>lv_threshold = 2, lv_parties = [3]\<rparr>] in
   \<exists>i<length h. 3 \<in> set (lv_parties (h ! i))
      \<and> Hierarchical_Rank h 3 = Inr (if i = 0 then 0 else lv_threshold (h ! (i - 1)))
      \<and> 0 \<le> (if i = 0 then 0 else lv_threshold (h ! (i - 1)))
      \<and> (if i = 0 then 0 else lv_threshold (h ! (i - 1))) < lv_threshold (last h)"
proof -
  let ?h = "[\<lparr>lv_threshold = 1, lv_parties = [1, 2 :: ID]\<rparr>, \<lparr>lv_threshold = 2, lv_parties = [3]\<rparr>]"
  have "Hierarchical_wf ?h"
    by (simp add: Hierarchical_wf_def hier_parties_def less_Suc_eq)
  moreover have "3 \<in> set (Hierarchical_Shareholders ?h)"
    by (simp add: Hierarchical_Shareholders_set hier_parties_def)
  ultimately show ?thesis using Hierarchical_Rank_bounds [of ?h 3] by (simp only: Let_def if_True)
qed

text \<open>
  Serialising a hierarchical structure and reading it back gives the same structure exactly
  when every level has a shareholder of its own; a level without one, which the constructor
  accepts, makes \<open>UnmarshalCBOR\<close> reject what \<open>MarshalCBOR\<close> wrote.
\<close>

theorem Hierarchical_CBOR_roundtrip:
  assumes "\<And>d. \<exists>b. enc d = Inr b \<and> dec b = Inr d" and "Hierarchical_wf h"
  shows "\<exists>b. Hierarchical_MarshalCBOR enc h = Inr b \<and>
    Hierarchical_UnmarshalCBOR dec b =
      (if \<exists>l\<in>set h. lv_parties l = [] then Inl ErrValue else Inr h)"
proof -
  obtain b where b: "enc h = Inr b" "dec b = Inr h" using assms(1) by blast
  have pos: "0 < lv_threshold l" "0 \<notin> set (lv_parties l)" if "l \<in> set h" for l
    using assms(2) that by (auto simp: Hierarchical_wf_def hier_parties_def)
  have level: "ThresholdLevel_UnmarshalCBOR l = (if lv_parties l = [] then Inl ErrValue else Inr l)"
    if "l \<in> set h" for l
    using pos [OF that] by (auto simp: ThresholdLevel_UnmarshalCBOR_def list_ex_iff)
  have "MapOrError ThresholdLevel_UnmarshalCBOR ls =
      (if \<exists>l\<in>set ls. lv_parties l = [] then Inl ErrValue else Inr ls)" if "set ls \<subseteq> set h" for ls
    using that by (induction ls) (auto simp: level)
  with b NewHierarchical_again [OF assms(2)] show ?thesis
    by (auto simp: Hierarchical_MarshalCBOR_def Hierarchical_UnmarshalCBOR_def)
qed

theorem Hierarchical_CBOR_roundtrip_witness:
  "let h = [\<lparr>lv_threshold = 1, lv_parties = [1, 2 :: ID]\<rparr>, \<lparr>lv_threshold = 2, lv_parties = []\<rparr>] in
   NewHierarchical (map Some h) = Inr h \<and>
   (\<exists>b. Hierarchical_MarshalCBOR Inr h = Inr b \<and>
    Hierarchical_UnmarshalCBOR Inr b =
      (if \<exists>l\<in>set h. lv_parties l = [] then Inl ErrValue else Inr h))"
proof -
  let ?h = "[\<lparr>lv_threshold = 1, lv_parties = [1, 2 :: ID]\<rparr>, \<lparr>lv_threshold = 2, lv_parties = []\<rparr>]"
  have wf: "Hierarchical_wf ?h"
    by (simp add: Hierarchical_wf_def hier_parties_def less_Suc_eq)
  have "\<exists>b. Hierarchical_MarshalCBOR Inr ?h = Inr b \<and>
    Hierarchical_UnmarshalCBOR Inr b =
      (if \<exists>l\<in>set ?h. lv_parties l = [] then Inl ErrValue else Inr ?h)"
    by (rule Hierarchical_CBOR_roundtrip [OF _ wf]) simp
  with NewHierarchical_again [OF wf] show ?thesis by (simp only: Let_def)
qed

end
