(* ===== verification/CT.thy ===== *)
theory CT
  imports Prelude
begin

text \<open>
  The constant-time helpers of \<open>pkg/base/ct\<close> (\<open>ct.go\<close>, \<open>ints.go\<close>, \<open>bytes.go\<close>, \<open>slices.go\<close>).
  A \<open>Choice\<close> is a \<open>uint64\<close> that holds 0 or 1. The functions are generic in an integer type \<open>I\<close>;
  such a type is its width \<open>'a\<close> together with the flag \<open>sg\<close> that says whether it is signed, and a
  value is the word of its bits. The branch-free bit arithmetic is proved to compute the order,
  the equality, the conditional moves, the lexicographic order of byte strings and the integer
  square root that the comments promise.
\<close>

unbundle bit_operations_syntax

section \<open>Integers\<close>

type_synonym Choice = "64 word"

definition Choice_Not :: "Choice \<Rightarrow> Choice" where
  "Choice_Not c = (c AND 1) XOR 1"

text \<open>The conversion \<open>uint64(x)\<close> extends by the sign of a signed type, by zero otherwise.\<close>

definition to_u64 :: "bool \<Rightarrow> 'a::len word \<Rightarrow> 64 word" where
  "to_u64 sg x = (if sg then scast x else ucast x)"

definition IsZero :: "bool \<Rightarrow> 'a::len word \<Rightarrow> Choice" where
  "IsZero sg x = (let xx = to_u64 sg x in drop_bit 63 (xx OR (- xx)) XOR 1)"

definition IsNegative :: "'a::len word \<Rightarrow> Choice" where
  "IsNegative x = drop_bit 63 (to_u64 True x) AND 1"

definition ct_Equal :: "bool \<Rightarrow> 'a::len word \<Rightarrow> 'a word \<Rightarrow> Choice" where
  "ct_Equal sg x y = IsZero sg (x XOR y)"

definition LessU64 :: "64 word \<Rightarrow> 64 word \<Rightarrow> Choice" where
  "LessU64 x y = drop_bit 63 (x XOR ((x XOR y) OR ((x - y) XOR y)))"

definition LessI64 :: "64 word \<Rightarrow> 64 word \<Rightarrow> Choice" where
  "LessI64 x y = LessU64 (x XOR push_bit 63 1) (y XOR push_bit 63 1)"

definition ct_Less :: "bool \<Rightarrow> 'a::len word \<Rightarrow> 'a word \<Rightarrow> Choice" where
  "ct_Less sg x y = (if sg then LessI64 (to_u64 True x) (to_u64 True y)
                     else LessU64 (to_u64 False x) (to_u64 False y))"

definition ct_Greater :: "bool \<Rightarrow> 'a::len word \<Rightarrow> 'a word \<Rightarrow> Choice" where
  "ct_Greater sg x y = ct_Less sg y x"

definition LessOrEqual :: "bool \<Rightarrow> 'a::len word \<Rightarrow> 'a word \<Rightarrow> Choice" where
  "LessOrEqual sg x y = ct_Greater sg x y XOR 1"

definition GreaterOrEqual :: "bool \<Rightarrow> 'a::len word \<Rightarrow> 'a word \<Rightarrow> Choice" where
  "GreaterOrEqual sg x y = ct_Less sg x y XOR 1"

definition CompareInt :: "bool \<Rightarrow> 'a::len word \<Rightarrow> 'a word \<Rightarrow> Choice \<times> Choice \<times> Choice" where
  "CompareInt sg x y = (ct_Greater sg x y, ct_Equal sg x y, ct_Less sg x y)"

text \<open>The mask \<open>I(-int64(choice & 1))\<close>: the conversion keeps the low bits of the word.\<close>

definition choice_mask :: "Choice \<Rightarrow> 'a::len word" where
  "choice_mask choice = ucast (- (choice AND 1))"

definition CSelectInt :: "Choice \<Rightarrow> 'a::len word \<Rightarrow> 'a word \<Rightarrow> 'a word" where
  "CSelectInt choice x0 x1 =
     (let m = choice_mask choice in (x0 AND NOT m) OR (x1 AND m))"

definition CMOVInt :: "'a::len word \<Rightarrow> Choice \<Rightarrow> 'a word \<Rightarrow> 'a word" where
  "CMOVInt dst yes src = (let m = choice_mask yes in (dst AND NOT m) OR (src AND m))"

definition CSwapInt :: "'a::len word \<Rightarrow> 'a word \<Rightarrow> Choice \<Rightarrow> 'a word \<times> 'a word" where
  "CSwapInt x y yes = (let m = choice_mask yes; d = (x XOR y) AND m in (x XOR d, y XOR d))"

definition ct_Min :: "bool \<Rightarrow> 'a::len word \<Rightarrow> 'a word \<Rightarrow> 'a word" where
  "ct_Min sg a b = CSelectInt (ct_Less sg a b) b a"

definition ct_Max :: "bool \<Rightarrow> 'a::len word \<Rightarrow> 'a word \<Rightarrow> 'a word" where
  "ct_Max sg a b = CSelectInt (ct_Greater sg a b) b a"

text \<open>The loop of \<open>Isqrt64\<close>: 32 rounds over the pair \<open>(result, bit)\<close>.\<close>

definition isqrt_step :: "64 word \<Rightarrow> 64 word \<times> 64 word \<Rightarrow> 64 word \<times> 64 word" where
  "isqrt_step n s = (case s of (result, b) \<Rightarrow>
     let temp = result + b; square = temp * temp; le = LessOrEqual False square n
     in (CSelectInt le result temp, drop_bit 1 b))"

definition Isqrt64 :: "64 word \<Rightarrow> 64 word" where
  "Isqrt64 n = fst ((isqrt_step n ^^ 32) (0, push_bit 31 1))"

section \<open>Byte strings\<close>

type_synonym byte = "8 word"

text \<open>\<open>copy(px, x)\<close> into a fresh zeroed slice of length \<open>n\<close>.\<close>

definition pad_to :: "nat \<Rightarrow> byte list \<Rightarrow> byte list" where
  "pad_to n x = take n x @ replicate (n - length x) 0"

definition compare_step :: "byte \<Rightarrow> byte \<Rightarrow> Choice \<times> Choice \<times> Choice \<Rightarrow> Choice \<times> Choice \<times> Choice" where
  "compare_step bx by s = (case s of (lt, gt, seen) \<Rightarrow>
     let less = LessU64 (ucast bx) (ucast by); greater = LessU64 (ucast by) (ucast bx); m = seen XOR 1
     in (lt OR (less AND m), gt OR (greater AND m), seen OR (less OR greater)))"

text \<open>\<open>len\<close> is an \<open>int\<close>, a signed word of 64 bits; the loop runs over the padded slices.\<close>

definition CompareBytes :: "byte list \<Rightarrow> byte list \<Rightarrow> Choice \<times> Choice \<times> Choice" where
  "CompareBytes x y =
     (let lenX = of_nat (length x) :: 64 word; lenY = of_nat (length y);
          maxLen = unat (ct_Max True lenX lenY); px = pad_to maxLen x; py = pad_to maxLen y;
          (lt, gt, seen) = fold (\<lambda>i. compare_step (px ! i) (py ! i)) [0..<maxLen] (0, 0, 0);
          xShorter = ct_Less True lenX lenY; yShorter = ct_Less True lenY lenX; allEqual = seen XOR 1
      in (lt OR (xShorter AND allEqual), ct_Equal True lenX lenY AND allEqual,
          gt OR (yShorter AND allEqual)))"

text \<open>
  The bytewise operations write \<open>dst\<close> in place and return the number of bytes; the model returns
  the new content of \<open>dst\<close> beside it. \<open>dst\<close> may be one of the operands or disjoint from both;
  slices that overlap at different offsets are not modelled.
\<close>

definition AndBytes :: "byte list \<Rightarrow> byte list \<Rightarrow> byte list \<Rightarrow> (byte list \<times> nat) res" where
  "AndBytes dst x y =
     (if length x \<noteq> length y then Inl Panic
      else if length x = 0 then Inr (dst, 0)
      else if length x > length dst then Inl Panic
      else Inr (fold (\<lambda>i d. d[i := x ! i AND y ! i]) [0..<length x] dst, length x))"

definition OrBytes :: "byte list \<Rightarrow> byte list \<Rightarrow> byte list \<Rightarrow> (byte list \<times> nat) res" where
  "OrBytes dst x y =
     (if length x \<noteq> length y then Inl Panic
      else if length x = 0 then Inr (dst, 0)
      else if length x > length dst then Inl Panic
      else Inr (fold (\<lambda>i d. d[i := x ! i OR y ! i]) [0..<length x] dst, length x))"

definition NotBytes :: "byte list \<Rightarrow> byte list \<Rightarrow> (byte list \<times> nat) res" where
  "NotBytes dst x =
     (if length x = 0 then Inr (dst, 0)
      else if length x > length dst then Inl Panic
      else Inr (fold (\<lambda>i d. d[i := NOT (x ! i)]) [0..<length x] dst, length x))"

text \<open>\<open>subtle.XORBytes\<close> of the standard library works on the common prefix of the operands.\<close>

definition XorBytes :: "byte list \<Rightarrow> byte list \<Rightarrow> byte list \<Rightarrow> (byte list \<times> nat) res" where
  "XorBytes dst x y =
     (let n = min (length x) (length y) in
      if n = 0 then Inr (dst, 0)
      else if n > length dst then Inl Panic
      else Inr (fold (\<lambda>i d. d[i := x ! i XOR y ! i]) [0..<n] dst, n))"

section \<open>Slices of integers\<close>

definition SliceEachEqual :: "bool \<Rightarrow> 'a::len word list \<Rightarrow> 'a word \<Rightarrow> Choice" where
  "SliceEachEqual sg s e = IsZero sg (fold (\<lambda>i v. v OR (s ! i XOR e)) [0..<length s] 0)"

definition ct_SliceEqual :: "bool \<Rightarrow> 'a::len word list \<Rightarrow> 'a word list \<Rightarrow> Choice" where
  "ct_SliceEqual sg x y =
     (if length x \<noteq> length y then 0
      else IsZero sg (fold (\<lambda>i v. v OR (x ! i XOR y ! i)) [0..<length x] 0))"

definition SliceIsZero :: "bool \<Rightarrow> 'a::len word list \<Rightarrow> Choice" where
  "SliceIsZero sg s = IsZero sg (fold (\<lambda>e v. v OR e) s 0)"

definition CSelectInts :: "Choice \<Rightarrow> 'a::len word list \<Rightarrow> 'a word list \<Rightarrow> 'a word list res" where
  "CSelectInts choice x0 x1 =
     (if length x0 \<noteq> length x1 then Inl Panic
      else Inr (fold (\<lambda>i out. out[i := CSelectInt choice (x0 ! i) (x1 ! i)]) [0..<length x0]
                  (replicate (length x0) 0)))"

definition CMOVInts :: "'a::len word list \<Rightarrow> 'a word list \<Rightarrow> Choice \<Rightarrow> 'a word list res" where
  "CMOVInts dst src yes =
     (if length dst \<noteq> length src then Inl Panic
      else let m = choice_mask yes
           in Inr (fold (\<lambda>i d. d[i := (d ! i AND NOT m) OR (src ! i AND m)]) [0..<length dst] dst))"

definition cswap_step :: "'a::len word \<Rightarrow> nat \<Rightarrow> 'a word list \<times> 'a word list \<Rightarrow> 'a word list \<times> 'a word list" where
  "cswap_step m i s = (case s of (x, y) \<Rightarrow>
     let d = (x ! i XOR y ! i) AND m in (x[i := x ! i XOR d], y[i := y ! i XOR d]))"

definition CSwapInts :: "'a::len word list \<Rightarrow> 'a word list \<Rightarrow> Choice \<Rightarrow> ('a word list \<times> 'a word list) res" where
  "CSwapInts x y yes =
     (if length x \<noteq> length y then Inl Panic
      else Inr (fold (cswap_step (choice_mask yes)) [0..<length x] (x, y)))"

section \<open>Comparisons\<close>

text \<open>The integer that a word of a signed or an unsigned type stands for.\<close>

definition ival :: "bool \<Rightarrow> 'a::len word \<Rightarrow> int" where
  "ival sg x = (if sg then sint x else uint x)"

lemma bit63_iff: "bit (w :: 64 word) 63 \<longleftrightarrow> 2 ^ 63 \<le> uint w"
proof -
  have "bit w 63 = odd (uint w div 2 ^ 63)"
    using bit_uint_iff [of w 63] by (simp add: bit_iff_odd)
  moreover have "0 \<le> uint w" "uint w < 2 ^ 64" using uint_lt2p [of w] by simp_all
  then have "uint w div 2 ^ 63 = of_bool (2 ^ 63 \<le> uint w)"
    by (cases "2 ^ 63 \<le> uint w") (simp_all add: div_eq_dividend_iff)
  ultimately show ?thesis by simp
qed

lemma drop_bit_63: "drop_bit 63 (w :: 64 word) = of_bool (bit w 63)"
proof (rule bit_word_eqI)
  fix n assume "n < LENGTH(64)"
  then show "bit (drop_bit 63 w) n = bit (of_bool (bit w 63) :: 64 word) n"
    by (cases "n = 0") (auto simp: bit_drop_bit_eq bit_of_bool_iff dest: bit_imp_le_length)
qed

lemma borrow_msb:
  fixes a b :: int
  assumes "a < 2 ^ 64" "b < 2 ^ 64" "0 \<le> a" "0 \<le> b"
  shows "((2 ^ 63 \<le> a) \<noteq> ((2 ^ 63 \<le> a) \<noteq> (2 ^ 63 \<le> b) \<or>
            (2 ^ 63 \<le> (if b \<le> a then a - b else a - b + 2 ^ LENGTH(64))) \<noteq> (2 ^ 63 \<le> b))) \<longleftrightarrow> a < b"
  using assms by (cases "b \<le> a"; cases "2 ^ 63 \<le> a"; cases "2 ^ 63 \<le> b") simp_all

lemma LessU64_eq: "LessU64 x y = of_bool (x < y)"
proof -
  have "bit (x XOR ((x XOR y) OR ((x - y) XOR y))) 63 \<longleftrightarrow>
     (bit x 63 \<noteq> ((bit x 63 \<noteq> bit y 63) \<or> (bit (x - y) 63 \<noteq> bit y 63)))"
    by (simp add: bit_simps)
  also have "\<dots> \<longleftrightarrow> uint x < uint y"
    using uint_lt2p [of x] uint_lt2p [of y] uint_ge_0 [of x] uint_ge_0 [of y]
    unfolding bit63_iff uint_sub_if' by (intro borrow_msb) simp_all
  finally show ?thesis by (simp only: LessU64_def drop_bit_63 word_less_def)
qed

lemma sint_flip_msb: "uint (x XOR push_bit 63 1) = sint (x :: 64 word) + 2 ^ 63"
proof -
  have s: "sint x = uint x - 2 ^ 64 * of_bool (bit x 63)"
    by (simp add: sint_uint signed_take_bit_eq_take_bit_minus bit_uint_iff take_bit_int_eq_self_iff
        uint_lt2p [of x, simplified])
  have "x XOR push_bit 63 1 = flip_bit 63 x" by (simp add: flip_bit_eq_xor)
  also have "\<dots> = (if bit x 63 then x - 2 ^ 63 else x + 2 ^ 63)"
    by (simp add: flip_bit_eq_if set_bit_eq unset_bit_eq)
  finally show ?thesis
    using s uint_lt2p [of x] bit63_iff [of x] by (auto simp: uint_sub_if' uint_plus_if')
qed

lemma LessI64_eq: "LessI64 x y = of_bool (sint x < sint y)"
  by (simp only: LessI64_def LessU64_eq word_less_def sint_flip_msb add_less_cancel_right)

lemma to_u64_ival:
  fixes x :: "'a::len word"
  assumes "LENGTH('a) \<le> 64"
  shows "ival sg (to_u64 sg x) = ival sg x"
  using assms by (simp add: to_u64_def ival_def sint_up_scast uint_up_ucast is_up)

lemma ival_inject [simp]: "ival sg x = ival sg y \<longleftrightarrow> x = y"
  by (auto simp: ival_def intro: unsigned_word_eqI signed_word_eqI)

lemma IsZero_eq:
  fixes x :: "'a::len word"
  assumes "LENGTH('a) \<le> 64"
  shows "IsZero sg x = of_bool (x = 0)"
proof -
  let ?w = "to_u64 sg x"
  have "bit (?w OR - ?w) 63 \<longleftrightarrow> ?w \<noteq> 0"
  proof (cases "?w = 0")
    case False
    then have "uint ?w \<noteq> 0" by (simp add: uint_0_iff)
    with uint_ge_0 [of ?w] have "\<not> uint ?w \<le> 0" by linarith
    then have "uint (- ?w) = 2 ^ 64 - uint ?w" using uint_sub_if' [of 0 ?w] by simp
    then have "bit ?w 63 \<or> bit (- ?w) 63" unfolding bit63_iff by simp linarith
    then show ?thesis using False by (simp only: bit_or_iff) simp
  qed simp
  moreover have "?w = 0 \<longleftrightarrow> x = 0"
    using to_u64_ival [OF assms, of sg x] ival_inject [of sg x 0] ival_inject [of sg ?w 0]
    by (metis ival_def signed_0 unsigned_0)
  ultimately have "drop_bit 63 (?w OR - ?w) = (of_bool (x \<noteq> 0) :: Choice)"
    by (simp only: drop_bit_63)
  then show ?thesis by (simp only: IsZero_def Let_def) simp
qed

lemma ct_Less_eq:
  fixes x y :: "'a::len word"
  assumes "LENGTH('a) \<le> 64"
  shows "ct_Less sg x y = of_bool (ival sg x < ival sg y)"
  using to_u64_ival [OF assms, of sg x] to_u64_ival [OF assms, of sg y]
  by (cases sg) (simp_all add: ct_Less_def LessI64_eq LessU64_eq ival_def word_less_def)

lemma ct_Equal_eq:
  fixes x y :: "'a::len word"
  assumes "LENGTH('a) \<le> 64"
  shows "ct_Equal sg x y = of_bool (x = y)"
proof -
  have "x XOR y = 0 \<longleftrightarrow> x = y" by (metis xor_self_eq xor.assoc xor.right_neutral xor.left_neutral)
  with IsZero_eq [OF assms] show ?thesis by (simp add: ct_Equal_def)
qed

lemma ct_Greater_eq:
  fixes x y :: "'a::len word"
  assumes "LENGTH('a) \<le> 64"
  shows "ct_Greater sg x y = of_bool (ival sg y < ival sg x)"
  using ct_Less_eq [OF assms] by (simp add: ct_Greater_def)

lemma LessOrEqual_eq:
  fixes x y :: "'a::len word"
  assumes "LENGTH('a) \<le> 64"
  shows "LessOrEqual sg x y = of_bool (ival sg x \<le> ival sg y)"
  using ct_Greater_eq [OF assms] by (auto simp: LessOrEqual_def)

lemma GreaterOrEqual_eq:
  fixes x y :: "'a::len word"
  assumes "LENGTH('a) \<le> 64"
  shows "GreaterOrEqual sg x y = of_bool (ival sg y \<le> ival sg x)"
  using ct_Less_eq [OF assms] by (auto simp: GreaterOrEqual_def)

lemma IsNegative_eq:
  fixes x :: "'a::len word"
  assumes "LENGTH('a) \<le> 64"
  shows "IsNegative x = of_bool (sint x < 0)"
proof -
  have "sint (to_u64 True x) = sint x" using to_u64_ival [OF assms, of True x] by (simp add: ival_def)
  then have "bit (to_u64 True x) 63 \<longleftrightarrow> sint x < 0"
    using bit_last_iff [of "to_u64 True x"] by simp
  then show ?thesis by (simp add: IsNegative_def drop_bit_63)
qed

section \<open>Conditional moves\<close>

lemma choice_mask_simps [simp]:
  fixes m :: "'a::len word"
  assumes "LENGTH('a) \<le> 64"
  shows "(choice_mask 0 :: 'a word) = 0" "(choice_mask 1 :: 'a word) = - 1"
proof -
  have "(ucast (- 1 :: 64 word) :: 'a word) = - 1"
    using assms by (intro bit_word_eqI) (simp add: bit_ucast_iff)
  then show "(choice_mask 1 :: 'a word) = - 1" by (simp add: choice_mask_def)
qed (simp add: choice_mask_def)

lemma CSelectInt_eq:
  fixes x0 x1 :: "'a::len word"
  assumes "LENGTH('a) \<le> 64"
  shows "CSelectInt (of_bool c) x0 x1 = (if c then x1 else x0)"
  using choice_mask_simps [OF assms] by (simp add: CSelectInt_def)

lemma CMOVInt_eq:
  fixes dst src :: "'a::len word"
  assumes "LENGTH('a) \<le> 64"
  shows "CMOVInt dst (of_bool c) src = (if c then src else dst)"
  using choice_mask_simps [OF assms] by (simp add: CMOVInt_def)

lemma xor_cancel [simp]: "x XOR (x XOR y) = (y :: 'a::len word)" "y XOR (x XOR y) = x"
  by (rule bit_word_eqI; auto simp: bit_xor_iff)+

lemma CSwapInt_eq:
  fixes x y :: "'a::len word"
  assumes "LENGTH('a) \<le> 64"
  shows "CSwapInt x y (of_bool c) = (if c then (y, x) else (x, y))"
  using choice_mask_simps [OF assms] by (simp add: CSwapInt_def)

lemma ct_Min_eq:
  fixes a b :: "'a::len word"
  assumes "LENGTH('a) \<le> 64"
  shows "ct_Min sg a b = (if ival sg a < ival sg b then a else b)"
  using assms by (simp add: ct_Min_def ct_Less_eq CSelectInt_eq del: of_bool_eq_1_iff)

lemma ct_Max_eq:
  fixes a b :: "'a::len word"
  assumes "LENGTH('a) \<le> 64"
  shows "ct_Max sg a b = (if ival sg b < ival sg a then a else b)"
  using assms by (simp add: ct_Max_def ct_Greater_eq CSelectInt_eq)

lemma fold_tabulate:
  assumes "length d = n"
  shows "fold (\<lambda>i d. d[i := f i (d ! i)]) [0..<n] d = map (\<lambda>i. f i (d ! i)) [0..<n]"
proof -
  have "fold (\<lambda>i d. d[i := f i (d ! i)]) [0..<k] d = map (\<lambda>i. f i (d ! i)) [0..<k] @ drop k d"
    if "k \<le> n" for k
    using that assms
  proof (induction k)
    case (Suc k)
    then show ?case
      by (simp add: list_update_append nth_append Cons_nth_drop_Suc [symmetric])
  qed simp
  from this [of n] assms show ?thesis by simp
qed

lemma CSelectInts_eq:
  fixes x0 x1 :: "'a::len word list"
  assumes "LENGTH('a) \<le> 64" "length x0 = length x1"
  shows "CSelectInts (of_bool c) x0 x1 = Inr (if c then x1 else x0)"
  using assms fold_tabulate [of "replicate (length x0) 0" "length x0" "\<lambda>i _. CSelectInt (of_bool c) (x0 ! i) (x1 ! i)"]
  by (auto simp: CSelectInts_def CSelectInt_eq map_nth intro: nth_equalityI)

lemma CMOVInts_eq:
  fixes dst src :: "'a::len word list"
  assumes "LENGTH('a) \<le> 64" "length dst = length src"
  shows "CMOVInts dst src (of_bool c) = Inr (if c then src else dst)"
proof -
  let ?m = "choice_mask (of_bool c) :: 'a word"
  have "(dst ! i AND NOT ?m) OR (src ! i AND ?m) = (if c then src else dst) ! i" for i
    using CMOVInt_eq [OF assms(1), of "dst ! i" c "src ! i"] by (simp add: CMOVInt_def Let_def)
  then have "fold (\<lambda>i d. d[i := (d ! i AND NOT ?m) OR (src ! i AND ?m)]) [0..<length dst] dst
      = map (\<lambda>i. (if c then src else dst) ! i) [0..<length dst]"
    using fold_tabulate [of dst "length dst" "\<lambda>i v. (v AND NOT ?m) OR (src ! i AND ?m)"] by simp
  also have "\<dots> = (if c then src else dst)"
    using assms(2) by (intro nth_equalityI) auto
  finally show ?thesis using assms(2) by (simp add: CMOVInts_def Let_def)
qed

lemma CSwapInts_eq:
  fixes x y :: "'a::len word list"
  assumes "LENGTH('a) \<le> 64" "length x = length y"
  shows "CSwapInts x y (of_bool c) = Inr (if c then (y, x) else (x, y))"
proof -
  let ?m = "choice_mask (of_bool c) :: 'a word"
  have cell: "(a XOR ((a XOR b) AND ?m), b XOR ((a XOR b) AND ?m)) = (if c then (b, a) else (a, b))" for a b
    using CSwapInt_eq [OF assms(1), of a b c] by (simp add: CSwapInt_def Let_def)
  have "fold (cswap_step ?m) [0..<k] (x, y) =
      (if c then (take k y @ drop k x, take k x @ drop k y) else (x, y))" if "k \<le> length x" for k
    using that
  proof (induction k)
    case (Suc k)
    then show ?case
      using assms(2) cell [of "x ! k" "y ! k"]
      by (auto simp: cswap_step_def Let_def nth_append list_update_append take_Suc_conv_app_nth
            Cons_nth_drop_Suc [symmetric])
  qed simp
  from this [of "length x"] assms(2) show ?thesis by (simp add: CSwapInts_def)
qed

section \<open>Integer square root\<close>

lemma isqrt_step_eq:
  "isqrt_step n (r, b) = (if (r + b) * (r + b) \<le> n then r + b else r, drop_bit 1 b)"
  by (simp add: isqrt_step_def Let_def LessOrEqual_eq CSelectInt_eq ival_def word_le_def)

text \<open>The state after \<open>k\<close> rounds: the bits below \<open>32 - k\<close> are still to be decided.\<close>

lemma isqrt_invariant:
  assumes "k \<le> 32"
  shows "\<exists>r. (isqrt_step n ^^ k) (0, push_bit 31 1) = (word_of_nat r, if k < 32 then 2 ^ (31 - k) else 0) \<and>
           2 ^ (32 - k) dvd r \<and> r + 2 ^ (32 - k) \<le> 2 ^ 32 \<and>
           r * r \<le> unat n \<and> unat n < (r + 2 ^ (32 - k)) * (r + 2 ^ (32 - k))"
  using assms
proof (induction k)
  case 0
  have "unat n < 2 ^ 64" using unsigned_less [of n] by simp
  then show ?case by (intro exI [of _ 0]) simp
next
  case (Suc k)
  then obtain r where st: "(isqrt_step n ^^ k) (0, push_bit 31 1) = (word_of_nat r, 2 ^ (31 - k))"
    and dv: "2 ^ (32 - k) dvd r" and le: "r + 2 ^ (32 - k) \<le> 2 ^ 32"
    and lo: "r * r \<le> unat n" and hi: "unat n < (r + 2 ^ (32 - k)) * (r + 2 ^ (32 - k))"
    by auto
  define d :: nat where "d = 2 ^ (31 - k)"
  have d2: "2 ^ (32 - k) = 2 * d" using Suc.prems by (simp add: d_def power_Suc [symmetric] Suc_diff_le del: power_Suc)
  define t where "t = r + d"
  have t: "t < 2 ^ 32" using le zero_less_power [of "2 :: nat" "31 - k"] unfolding t_def d2
    by (simp add: d_def [symmetric] del: zero_less_power)
  then have tt: "t * t < 2 ^ 64" using mult_strict_mono [of t "2 ^ 32" t "2 ^ 32"] by simp
  have wt: "word_of_nat r + 2 ^ (31 - k) = (word_of_nat t :: 64 word)" by (simp add: t_def d_def)
  have "(word_of_nat t * word_of_nat t :: 64 word) \<le> n \<longleftrightarrow> t * t \<le> unat n"
    using tt by (simp add: word_le_nat_alt of_nat_mult [symmetric] unat_of_nat del: of_nat_mult)
  moreover have "drop_bit 1 (2 ^ (31 - k) :: 64 word) = (if Suc k < 32 then 2 ^ (31 - Suc k) else 0)"
    using Suc.prems by (intro bit_word_eqI) (auto simp: bit_drop_bit_eq bit_exp_iff)
  ultimately have step: "(isqrt_step n ^^ Suc k) (0, push_bit 31 1) =
      (word_of_nat (if t * t \<le> unat n then t else r), if Suc k < 32 then 2 ^ (31 - Suc k) else 0)"
    using st wt by (simp add: isqrt_step_eq)
  have dd: "2 ^ (32 - Suc k) = d" using Suc.prems by (simp add: d_def)
  show ?case
    unfolding step dd
    using dv le lo hi
    by (intro exI [of _ "if t * t \<le> unat n then t else r"]) (auto simp: d2 t_def dvd_add_left_iff algebra_simps)
qed

section \<open>Byte strings and slices\<close>

fun lex_less :: "byte list \<Rightarrow> byte list \<Rightarrow> bool" where
  "lex_less xs [] = False"
| "lex_less [] (y # ys) = True"
| "lex_less (x # xs) (y # ys) = (x < y \<or> (x = y \<and> lex_less xs ys))"

lemma lex_less_lexord: "lex_less x y \<longleftrightarrow> (x, y) \<in> lexord {(a, b). a < b}"
  by (induction x y rule: lex_less.induct) auto

lemma compare_step_eq:
  "compare_step a b (of_bool lt, of_bool gt, of_bool seen) =
     (of_bool (lt \<or> (a < b \<and> \<not> seen)), of_bool (gt \<or> (b < a \<and> \<not> seen)), of_bool (seen \<or> a \<noteq> b))"
proof -
  have "(ucast c :: 64 word) < ucast d \<longleftrightarrow> c < d" for c d :: byte
    by (simp add: word_less_def uint_up_ucast is_up)
  then show ?thesis by (auto simp: compare_step_def Let_def LessU64_eq)
qed

lemma compare_fold:
  assumes "length px = length py"
  shows "fold (\<lambda>i. compare_step (px ! i) (py ! i)) [0..<length px] (of_bool lt, of_bool gt, of_bool seen) =
     (of_bool (lt \<or> (\<not> seen \<and> lex_less px py)), of_bool (gt \<or> (\<not> seen \<and> lex_less py px)),
      of_bool (seen \<or> px \<noteq> py))"
  using assms
proof (induction px py arbitrary: lt gt seen rule: list_induct2)
  case (Cons x xs y ys)
  have "fold (\<lambda>i. compare_step ((x # xs) ! i) ((y # ys) ! i)) [0..<length (x # xs)] s =
     fold (\<lambda>i. compare_step (xs ! i) (ys ! i)) [0..<length xs] (compare_step x y s)" for s
    by (simp add: upt_conv_Cons map_Suc_upt [symmetric] fold_map comp_def del: upt_Suc)
  with Cons.IH show ?case by (auto simp: compare_step_eq)
qed simp

lemma lex_less_zeros:
  "\<not> lex_less z (replicate (length z) 0)"
  "lex_less (replicate (length z) 0) z \<or> replicate (length z) 0 = z"
  by (induction z) (auto simp: word_gt_0)

lemma length_pad [simp]: "length x \<le> n \<Longrightarrow> length (pad_to n x) = n"
  by (simp add: pad_to_def)

lemma lex_less_pad:
  assumes "length x \<le> n" "length y \<le> n"
  shows "lex_less x y \<longleftrightarrow>
     lex_less (pad_to n x) (pad_to n y) \<or> (pad_to n x = pad_to n y \<and> length x < length y)"
  using assms
proof (induction x y arbitrary: n rule: lex_less.induct)
  case (1 xs)
  then have "\<not> lex_less (pad_to n xs) (pad_to n [])"
    using lex_less_zeros(1) [of "pad_to n xs"] by (simp add: pad_to_def [of n "[]"])
  then show ?case by simp
next
  case (2 y ys)
  then have "lex_less (pad_to n []) (pad_to n (y # ys)) \<or> pad_to n [] = pad_to n (y # ys)"
    using lex_less_zeros(2) [of "pad_to n (y # ys)"] by (simp add: pad_to_def [of n "[]"])
  then show ?case by auto
next
  case (3 x xs y ys)
  then obtain m where "n = Suc m" by (cases n) auto
  with 3 show ?case by (auto simp: pad_to_def)
qed

lemma pad_eq_iff:
  assumes "length x \<le> n" "length y \<le> n"
  shows "x = y \<longleftrightarrow> pad_to n x = pad_to n y \<and> length x = length y"
proof
  assume "pad_to n x = pad_to n y \<and> length x = length y"
  then have "take (length x) (pad_to n x) = take (length x) (pad_to n y)" "length x = length y" by simp_all
  then show "x = y" using assms by (simp add: pad_to_def)
qed simp

lemma ival_of_length: "n < 2 ^ 63 \<Longrightarrow> ival True (word_of_nat n :: 64 word) = int n"
  by (simp add: ival_def signed_of_nat signed_take_bit_int_eq_self)

lemma CompareBytes_eq:
  assumes "length x < 2 ^ 63" "length y < 2 ^ 63"
  shows "CompareBytes x y = (of_bool (lex_less x y), of_bool (x = y), of_bool (lex_less y x))"
proof -
  define n where "n = max (length x) (length y)"
  have le: "length x \<le> n" "length y \<le> n" and lt: "n < 2 ^ 64" using assms by (auto simp: n_def)
  note len = ival_of_length [OF assms(1)] ival_of_length [OF assms(2)]
  have mx: "ct_Max True (word_of_nat (length x)) (word_of_nat (length y)) = (word_of_nat n :: 64 word)"
    by (simp add: ct_Max_eq len n_def max_def)
  have un: "unat (word_of_nat n :: 64 word) = n" using lt by (simp add: unat_of_nat)
  have same: "(word_of_nat (length x) :: 64 word) = word_of_nat (length y) \<longleftrightarrow> length x = length y"
    using len by (metis of_nat_eq_iff)
  have loop: "fold (\<lambda>i. compare_step (pad_to n x ! i) (pad_to n y ! i)) [0..<n] (0, 0, 0) =
      (of_bool (lex_less (pad_to n x) (pad_to n y)), of_bool (lex_less (pad_to n y) (pad_to n x)),
       of_bool (pad_to n x \<noteq> pad_to n y))"
    using compare_fold [of "pad_to n x" "pad_to n y" False False False] le by simp
  show ?thesis
    unfolding CompareBytes_def Let_def mx un loop
    using lex_less_pad [OF le] lex_less_pad [OF le(2,1)] pad_eq_iff [OF le] 
    by (auto simp: ct_Less_eq ct_Equal_eq len same)
qed

lemma fold_or_eq_0: "fold (\<lambda>i v. v OR f i) xs a = 0 \<longleftrightarrow> a = 0 \<and> (\<forall>i\<in>set xs. f i = (0 :: 'a::len word))"
proof -
  have "a OR b = 0 \<longleftrightarrow> a = 0 \<and> b = 0" for a b :: "'a word"
    by (metis bit_0_eq bit_or_iff bit_word_eqI bot_apply bot_bool_def or.right_idem or.left_neutral)
  then show ?thesis by (induction xs arbitrary: a) auto
qed

lemma xor_eq_0_iff: "x XOR y = 0 \<longleftrightarrow> x = (y :: 'a::len word)"
  by (metis xor_cancel(1) xor.right_neutral)

lemma SliceEachEqual_eq:
  fixes s :: "'a::len word list"
  assumes "LENGTH('a) \<le> 64"
  shows "SliceEachEqual sg s e = of_bool (\<forall>x\<in>set s. x = e)"
  unfolding SliceEachEqual_def IsZero_eq [OF assms] fold_or_eq_0 xor_eq_0_iff
  by (rule arg_cong [where f = of_bool]) (auto simp: all_set_conv_all_nth)

lemma SliceEqual_eq:
  fixes x y :: "'a::len word list"
  assumes "LENGTH('a) \<le> 64"
  shows "ct_SliceEqual sg x y = of_bool (x = y)"
  by (auto simp: ct_SliceEqual_def IsZero_eq [OF assms] fold_or_eq_0 xor_eq_0_iff intro: nth_equalityI)

lemma SliceIsZero_eq:
  fixes s :: "'a::len word list"
  assumes "LENGTH('a) \<le> 64"
  shows "SliceIsZero sg s = of_bool (\<forall>x\<in>set s. x = 0)"
  by (simp add: SliceIsZero_def IsZero_eq [OF assms] fold_or_eq_0)

text \<open>What the bytewise operations leave in \<open>dst\<close>, and when they panic.\<close>

lemma fold_tabulate_prefix:
  assumes "n \<le> length d"
  shows "fold (\<lambda>i d. d[i := f i]) [0..<n] d = map f [0..<n] @ drop n d"
  using assms
proof (induction n)
  case (Suc n)
  then show ?case by (simp add: list_update_append Cons_nth_drop_Suc [symmetric])
qed simp

lemma AndBytes_eq:
  "AndBytes dst x y =
     (if length x \<noteq> length y \<or> length dst < length x then Inl Panic
      else Inr (map2 (AND) x y @ drop (length x) dst, length x))"
  by (auto simp: AndBytes_def fold_tabulate_prefix intro!: nth_equalityI)

lemma OrBytes_eq:
  "OrBytes dst x y =
     (if length x \<noteq> length y \<or> length dst < length x then Inl Panic
      else Inr (map2 (OR) x y @ drop (length x) dst, length x))"
  by (auto simp: OrBytes_def fold_tabulate_prefix intro!: nth_equalityI)

lemma NotBytes_eq:
  "NotBytes dst x =
     (if length dst < length x then Inl Panic else Inr (map NOT x @ drop (length x) dst, length x))"
  by (auto simp: NotBytes_def fold_tabulate_prefix intro!: nth_equalityI)

lemma XorBytes_eq:
  "XorBytes dst x y =
     (let n = min (length x) (length y)
      in if length dst < n then Inl Panic else Inr (map2 (XOR) x y @ drop n dst, n))"
proof -
  let ?n = "min (length x) (length y)"
  have "map2 (XOR) x y = map (\<lambda>i. x ! i XOR y ! i) [0..<?n]"
    by (rule nth_equalityI) simp_all
  moreover have "fold (\<lambda>i d. d[i := x ! i XOR y ! i]) [0..<?n] dst =
      map (\<lambda>i. x ! i XOR y ! i) [0..<?n] @ drop ?n dst" if "?n \<le> length dst"
    using that by (rule fold_tabulate_prefix)
  ultimately show ?thesis
    unfolding XorBytes_def Let_def by (cases "?n = 0"; cases "?n \<le> length dst") (auto simp: not_le)
qed

section \<open>Main results\<close>

text \<open>
  The branch-free comparisons compute the natural order of the integer type, signed or
  unsigned, for every type of at most 64 bits: \<open>CompareInt\<close> returns the flags of greater, equal
  and less, and \<open>Min\<close>, \<open>Max\<close>, \<open>CSwapInt\<close> follow that order.
\<close>

theorem CompareInt_correct:
  fixes x y :: "'a::len word"
  assumes "LENGTH('a) \<le> 64"
  shows "CompareInt sg x y = (of_bool (ival sg y < ival sg x), of_bool (x = y), of_bool (ival sg x < ival sg y)) \<and>
         ival sg (ct_Min sg x y) = min (ival sg x) (ival sg y) \<and>
         ival sg (ct_Max sg x y) = max (ival sg x) (ival sg y) \<and>
         CSwapInt x y (ct_Greater sg x y) = (ct_Min sg x y, ct_Max sg x y)"
  using assms
  by (auto simp: CompareInt_def ct_Greater_eq ct_Equal_eq ct_Less_eq ct_Min_eq ct_Max_eq CSwapInt_eq
        min_def max_def)

theorem CompareInt_correct_witness:
  "CompareInt True (- 3 :: 16 word) 2 = (0, 0, 1) \<and> CompareInt False (- 3 :: 16 word) 2 = (1, 0, 0)"
  using CompareInt_correct [of True "- 3 :: 16 word" 2] CompareInt_correct [of False "- 3 :: 16 word" 2]
  by (simp add: ival_def)

text \<open>
  \<open>CompareBytes\<close> is the lexicographic comparison of byte strings: on slices of any length a
  Go slice can have, exactly one of its three flags is set, the one of the order.
\<close>

theorem CompareBytes_correct:
  assumes "length x < 2 ^ 63" "length y < 2 ^ 63"
  shows "CompareBytes x y =
     (of_bool ((x, y) \<in> lexord {(a, b). a < b}), of_bool (x = y), of_bool ((y, x) \<in> lexord {(a, b). a < b}))"
  using CompareBytes_eq [OF assms] by (simp add: lex_less_lexord)

theorem CompareBytes_correct_witness:
  "CompareBytes [1, 2] [1, 2, 0] = (1, 0, 0)"
  using CompareBytes_correct [of "[1, 2]" "[1, 2, 0]"] by simp

text \<open>
  \<open>Isqrt64\<close> is the floor of the square root of every \<open>uint64\<close>; the squares of its binary
  search never overflow.
\<close>

theorem Isqrt64_correct:
  "unat (Isqrt64 n) ^ 2 \<le> unat n \<and> unat n < (unat (Isqrt64 n) + 1) ^ 2 \<and> unat (Isqrt64 n) < 2 ^ 32"
proof -
  obtain r where "Isqrt64 n = word_of_nat r" and r: "r + 1 \<le> 2 ^ 32" "r * r \<le> unat n"
    "unat n < (r + 1) * (r + 1)"
    using isqrt_invariant [of 32 n] by (auto simp: Isqrt64_def)
  then have "unat (Isqrt64 n) = r" by (simp add: unat_of_nat)
  with r show ?thesis by (simp add: power2_eq_square)
qed

end
