(* ===== verification/Network.thy ===== *)
theory Network
  imports Hashset CT
begin

text \<open>
  The message router of \<open>pkg/network\<close> (\<open>router.go\<close>, \<open>exchange.go\<close>, \<open>mpc.go\<close>, \<open>runner.go\<close>) and the abort
  errors of \<open>pkg/base/errors.go\<close>. A router sits on a transport, tags the messages of a protocol step
  with a correlation identifier and buffers what arrives for another step. The transport is not part
  of the repository: it is the list of the deliveries that will still arrive (a sender with the
  bytes, or an error), the log of what was sent, and the answer it gives to a send. A router whose transport has
  no further delivery would block until its context is cancelled; the model then returns
  \<open>ErrTransport\<close>. The wire codec of \<open>serde\<close> is a parameter.
\<close>

type_synonym bytes = "byte list"

section \<open>Abort errors\<close>

fun GetMaliciousIdentities :: "err \<Rightarrow> ID list" where
  "GetMaliciousIdentities (Blame i e) = i # GetMaliciousIdentities e"
| "GetMaliciousIdentities e = []"

definition IsIdentifiableAbortError :: "err \<Rightarrow> bool" where
  "IsIdentifiableAbortError e = (GetMaliciousIdentities e \<noteq> [])"

fun err_is_abort :: "err \<Rightarrow> bool" where
  "err_is_abort (Blame i e) = err_is_abort e"
| "err_is_abort e = (e = ErrAbort)"

definition ShouldAbort :: "err \<Rightarrow> bool" where
  "ShouldAbort e = (err_is_abort e \<or> IsIdentifiableAbortError e)"

section \<open>Transport and router\<close>

record Delivery =
  dl_PartyID :: ID
  dl_Quorum :: "ID list"
  dl_inbox :: "(ID \<times> bytes) res list"
  dl_accepts :: "ID \<Rightarrow> bytes \<Rightarrow> unit res"
  dl_sent :: "(ID \<times> bytes) list"

definition dl_Send :: "Delivery \<Rightarrow> ID \<Rightarrow> bytes \<Rightarrow> Delivery \<times> unit res" where
  "dl_Send d to msg = (case dl_accepts d to msg of
     Inl e \<Rightarrow> (d, Inl e)
   | Inr _ \<Rightarrow> (d\<lparr>dl_sent := dl_sent d @ [(to, msg)]\<rparr>, Inr ()))"

record routerMessage =
  From :: ID
  CorrelationID :: string
  Payload :: bytes

record Router =
  receiveBuffer :: "routerMessage list"
  delivery :: Delivery
  quorumSet :: "ID hset"

definition maxReceiveBufferSize :: nat where
  "maxReceiveBufferSize = 10000"

definition NewRouter :: "Delivery \<Rightarrow> Router" where
  "NewRouter d = \<lparr>receiveBuffer = [], delivery = d, quorumSet = hs_NewComparable (dl_Quorum d)\<rparr>"

definition rt_PartyID :: "Router \<Rightarrow> ID" where
  "rt_PartyID r = dl_PartyID (delivery r)"

definition rt_Quorum :: "Router \<Rightarrow> ID list" where
  "rt_Quorum r = dl_Quorum (delivery r)"

text \<open>The sender field of an outgoing message is left at its zero value.\<close>

fun SendTo :: "(routerMessage \<Rightarrow> bytes res) \<Rightarrow> Router \<Rightarrow> string \<Rightarrow> (ID \<times> bytes) list \<Rightarrow> Router \<times> unit res" where
  "SendTo enc r correlationID [] = (r, Inr ())"
| "SendTo enc r correlationID ((i, payload) # messages) =
     (case enc \<lparr>From = 0, CorrelationID = correlationID, Payload = payload\<rparr> of
        Inl e \<Rightarrow> (r, Inl e)
      | Inr serializedMessage \<Rightarrow>
          (case dl_Send (delivery r) i serializedMessage of
             (d, Inl e) \<Rightarrow> (r\<lparr>delivery := d\<rparr>, Inl e)
           | (d, Inr _) \<Rightarrow> SendTo enc (r\<lparr>delivery := d\<rparr>) correlationID messages))"

text \<open>The pass over the buffered messages, and the loop that reads the transport.\<close>

fun scan_buffer ::
  "string \<Rightarrow> ID list \<Rightarrow> (ID \<times> bytes) list \<Rightarrow> routerMessage list \<Rightarrow> routerMessage list \<Rightarrow>
     ((ID \<times> bytes) list \<times> routerMessage list) res" where
  "scan_buffer correlationID expected received kept [] = Inr (received, kept)"
| "scan_buffer correlationID expected received kept (m # ms) =
     (if CorrelationID m = correlationID
      then if From m \<notin> set expected then scan_buffer correlationID expected received (kept @ [m]) ms
           else if map_of received (From m) \<notin> {None, Some (Payload m)}
           then Inl (Blame (From m) ErrDuplicateMessage)
           else scan_buffer correlationID expected (AList.update (From m) (Payload m) received) kept ms
      else scan_buffer correlationID expected received (kept @ [m]) ms)"

fun receive_loop ::
  "(bytes \<Rightarrow> routerMessage res) \<Rightarrow> ID hset \<Rightarrow> string \<Rightarrow> ID list \<Rightarrow> (ID \<times> bytes) list \<Rightarrow> routerMessage list \<Rightarrow>
     (ID \<times> bytes) res list \<Rightarrow> routerMessage list \<times> (ID \<times> bytes) res list \<times> (ID \<times> bytes) list res" where
  "receive_loop dec Q correlationID froms received buf [] =
     (buf, [], if slice_IsSuperSet (map fst received) froms then Inr received else Inl ErrTransport)"
| "receive_loop dec Q correlationID froms received buf (x # xs) =
     (if slice_IsSuperSet (map fst received) froms then (buf, x # xs, Inr received)
      else case x of
        Inl e \<Rightarrow> (buf, xs, Inl e)
      | Inr (from, serializedMessage) \<Rightarrow>
          (if \<not> hs_Contains Q from then receive_loop dec Q correlationID froms received buf xs
           else case dec serializedMessage of
             Inl e \<Rightarrow> (buf, xs, Inl e)
           | Inr message \<Rightarrow>
               (if CorrelationID message = correlationID
                then if from \<notin> set froms
                     then if length buf \<ge> maxReceiveBufferSize then (buf, xs, Inl ErrReceiveBufferFull)
                          else receive_loop dec Q correlationID froms received (buf @ [message\<lparr>From := from\<rparr>]) xs
                     else if map_of received from \<notin> {None, Some (Payload message)}
                     then (buf, xs, Inl (Blame from ErrDuplicateMessage))
                     else receive_loop dec Q correlationID froms (AList.update from (Payload message) received) buf xs
                else if length buf \<ge> maxReceiveBufferSize then (buf, xs, Inl ErrReceiveBufferFull)
                else receive_loop dec Q correlationID froms received (buf @ [message\<lparr>From := from\<rparr>]) xs)))"

definition ReceiveFrom ::
  "(bytes \<Rightarrow> routerMessage res) \<Rightarrow> Router \<Rightarrow> string \<Rightarrow> ID list \<Rightarrow> Router \<times> (ID \<times> bytes) list res" where
  "ReceiveFrom dec r correlationID froms =
     (case scan_buffer correlationID froms [] [] (receiveBuffer r) of
        Inl e \<Rightarrow> (r, Inl e)
      | Inr (received, kept) \<Rightarrow>
          (case receive_loop dec (quorumSet r) correlationID froms received kept (dl_inbox (delivery r)) of
             (buf, inbox, result) \<Rightarrow>
               (r\<lparr>receiveBuffer := buf, delivery := (delivery r)\<lparr>dl_inbox := inbox\<rparr>\<rparr>, result)))"

section \<open>Unicast exchange\<close>

text \<open>Messages of a round map the parties to payloads; a Go map is an association list in the order
  of one iteration over it.\<close>

definition SendUnicast ::
  "(routerMessage \<Rightarrow> bytes res) \<Rightarrow> ('m \<Rightarrow> bytes res) \<Rightarrow> Router \<Rightarrow> string \<Rightarrow> (ID \<times> 'm) list \<Rightarrow> Router \<times> unit res" where
  "SendUnicast enc encM rt correlationID messages =
     (case MapOrError (\<lambda>(i, m). rbind (encM m) (\<lambda>b. Inr (i, b))) messages of
        Inl e \<Rightarrow> (rt, Inl e)
      | Inr messagesSerialized \<Rightarrow> SendTo enc rt correlationID messagesSerialized)"

definition ReceiveUnicast ::
  "(bytes \<Rightarrow> routerMessage res) \<Rightarrow> (bytes \<Rightarrow> 'm res) \<Rightarrow> Router \<Rightarrow> string \<Rightarrow> ID hset \<Rightarrow> Router \<times> (ID \<times> 'm) list res" where
  "ReceiveUnicast dec decM rt correlationID quorum =
     (let coparties = hs_Remove (hs_Clone quorum) (rt_PartyID rt) in
      case ReceiveFrom dec rt correlationID (hs_List coparties) of
        (rt', Inl e) \<Rightarrow> (rt', Inl e)
      | (rt', Inr received) \<Rightarrow> (rt', MapOrError (\<lambda>(i, b). rbind (decM b) (\<lambda>m. Inr (i, m))) received))"

text \<open>\<open>validate\<close> is the \<open>Validate\<close> method of the message type, called on the receiver and the sender.\<close>

fun ValidateIncomingMessages ::
  "('p \<Rightarrow> ID \<Rightarrow> 'm \<Rightarrow> unit res) \<Rightarrow> 'p \<Rightarrow> ID list \<Rightarrow> (ID \<rightharpoonup> 'm) \<Rightarrow> unit res" where
  "ValidateIncomingMessages validate p [] messages = Inr ()"
| "ValidateIncomingMessages validate p (i # senders) messages =
     (case messages i of
        None \<Rightarrow> Inl ErrMissing
      | Some m \<Rightarrow> (case validate p i m of
          Inl e \<Rightarrow> Inl (Blame i e)
        | Inr _ \<Rightarrow> ValidateIncomingMessages validate p senders messages))"

text \<open>\<open>NewSafeRunner\<close> turns a panic of the wrapped runner into an error.\<close>

definition safeRunner_Run :: "(Router \<Rightarrow> Router \<times> 'o res) \<Rightarrow> Router \<Rightarrow> Router \<times> 'o res" where
  "safeRunner_Run run rt = (case run rt of (rt', out) \<Rightarrow>
     (rt', if out = Inl Panic then Inl ErrRecovered else out))"

definition Round_IncrementBy :: "64 word \<Rightarrow> 64 word \<Rightarrow> 64 word" where
  "Round_IncrementBy r delta = r + delta"

section \<open>What a receive does\<close>

text \<open>
  The specification: the messages that arrive from members of the quorum, and which of them a receive
  asks for. A receive takes all messages it asks for out of the buffer and of the deliveries it reads, and keeps the
  others in the order of arrival.
\<close>

fun arrivals :: "(bytes \<Rightarrow> routerMessage res) \<Rightarrow> ID hset \<Rightarrow> (ID \<times> bytes) res list \<Rightarrow> routerMessage list" where
  "arrivals dec Q [] = []"
| "arrivals dec Q (Inl e # xs) = arrivals dec Q xs"
| "arrivals dec Q (Inr (from, b) # xs) =
     (case dec b of
        Inl e \<Rightarrow> arrivals dec Q xs
      | Inr m \<Rightarrow> (if from \<in> set Q then [m\<lparr>From := from\<rparr>] else []) @ arrivals dec Q xs)"

definition asked :: "string \<Rightarrow> ID list \<Rightarrow> routerMessage \<Rightarrow> bool" where
  "asked correlationID froms m = (CorrelationID m = correlationID \<and> From m \<in> set froms)"

text \<open>\<open>received'\<close> extends \<open>received\<close> by the messages \<open>ms\<close>, which do not contradict each other.\<close>

definition gathers :: "(ID \<times> bytes) list \<Rightarrow> routerMessage list \<Rightarrow> (ID \<times> bytes) list \<Rightarrow> bool" where
  "gathers received ms received' \<longleftrightarrow>
     (\<forall>k v. map_of received k = Some v \<longrightarrow> map_of received' k = Some v) \<and>
     (\<forall>m\<in>set ms. map_of received' (From m) = Some (Payload m)) \<and>
     fst ` set received' = fst ` set received \<union> From ` set ms"

lemma gathers_Nil [simp]: "gathers received [] received"
  by (simp add: gathers_def)

lemma gathers_lookup: "gathers received ms received' \<Longrightarrow> m \<in> set ms \<Longrightarrow> map_of received' (From m) = Some (Payload m)"
  by (simp add: gathers_def)

lemma update_fst: "fst ` set (AList.update k v al) = insert k (fst ` set al)"
  by (metis dom_map_of_conv_image_fst dom_fun_upd option.distinct(1) update_conv')

lemma gathers_Cons:
  assumes fresh: "map_of received (From m) = None \<or> map_of received (From m) = Some (Payload m)"
    and g: "gathers (AList.update (From m) (Payload m) received) ms received'"
  shows "gathers received (m # ms) received'"
proof -
  have "map_of received' (From m) = Some (Payload m)" using g by (simp add: gathers_def update_conv')
  moreover have "map_of received' k = Some v" if "map_of received k = Some v" for k v
    using g fresh that by (cases "k = From m") (auto simp: gathers_def update_conv')
  ultimately show ?thesis using g by (auto simp: gathers_def update_fst)
qed

lemma gathers_append:
  "gathers a ms b \<Longrightarrow> gathers b ns c \<Longrightarrow> gathers a (ms @ ns) c"
  by (auto simp: gathers_def)

text \<open>One step of each loop, read with the specification's \<open>asked\<close>.\<close>

lemma scan_buffer_Cons:
  "scan_buffer c froms received kept (m # ms) =
     (if asked c froms m
      then if map_of received (From m) \<notin> {None, Some (Payload m)} then Inl (Blame (From m) ErrDuplicateMessage)
           else scan_buffer c froms (AList.update (From m) (Payload m) received) kept ms
      else scan_buffer c froms received (kept @ [m]) ms)"
  by (simp add: asked_def)

lemma receive_loop_done [simp]:
  "set froms \<subseteq> fst ` set received \<Longrightarrow> receive_loop dec Q c froms received buf xs = (buf, xs, Inr received)"
  by (cases xs) (auto simp: slice_IsSuperSet_def list_all_iff)

lemma receive_loop_message:
  assumes "\<not> set froms \<subseteq> fst ` set received" "sender \<in> set Q" "dec b = Inr m0"
    and "m = m0\<lparr>From := sender\<rparr>"
  shows "receive_loop dec Q c froms received buf (Inr (sender, b) # xs) =
     (if asked c froms m
      then if map_of received (From m) \<notin> {None, Some (Payload m)} then (buf, xs, Inl (Blame (From m) ErrDuplicateMessage))
           else receive_loop dec Q c froms (AList.update (From m) (Payload m) received) buf xs
      else if length buf \<ge> maxReceiveBufferSize then (buf, xs, Inl ErrReceiveBufferFull)
      else receive_loop dec Q c froms received (buf @ [m]) xs)"
  using assms by (auto simp: asked_def slice_IsSuperSet_def list_all_iff)

lemma receive_loop_other:
  assumes "\<not> set froms \<subseteq> fst ` set received"
  shows "receive_loop dec Q c froms received buf [] = (buf, [], Inl ErrTransport)"
    and "receive_loop dec Q c froms received buf (Inl e # xs) = (buf, xs, Inl e)"
    and "sender \<notin> set Q \<Longrightarrow> receive_loop dec Q c froms received buf (Inr (sender, b) # xs) =
           receive_loop dec Q c froms received buf xs"
    and "sender \<in> set Q \<Longrightarrow> dec b = Inl e \<Longrightarrow>
           receive_loop dec Q c froms received buf (Inr (sender, b) # xs) = (buf, xs, Inl e)"
  using assms by (auto simp: slice_IsSuperSet_def list_all_iff)

lemmas receive_loop_steps = receive_loop_message [OF _ _ _ refl] receive_loop_other

declare scan_buffer.simps(2) [simp del] receive_loop.simps [simp del]

text \<open>The cases of a delivery.\<close>

lemma delivery_cases:
  obtains (error) e where "x = Inl e"
  | (outside) sender b where "x = Inr (sender, b)" "sender \<notin> set Q"
  | (garbled) sender b e where "x = Inr (sender, b)" "sender \<in> set Q" "dec b = Inl e"
  | (message) sender b m where "x = Inr (sender, b)" "sender \<in> set Q" "dec b = Inr m"
  by (cases x; metis sum.exhaust surj_pair)

lemma arrivals_simps [simp]:
  "sender \<notin> set Q \<Longrightarrow> arrivals dec Q (Inr (sender, b) # xs) = arrivals dec Q xs"
  "dec b = Inl e \<Longrightarrow> arrivals dec Q (Inr (sender, b) # xs) = arrivals dec Q xs"
  "sender \<in> set Q \<Longrightarrow> dec b = Inr m \<Longrightarrow> arrivals dec Q (Inr (sender, b) # xs) = m\<lparr>From := sender\<rparr> # arrivals dec Q xs"
  by (auto split: sum.splits)

declare arrivals.simps(3) [simp del]

lemma arrivals_append [simp]: "arrivals dec Q (xs @ ys) = arrivals dec Q xs @ arrivals dec Q ys"
proof (induction xs)
  case (Cons x xs)
  then show ?case by (cases rule: delivery_cases [where x = x and Q = Q and dec = dec]) simp_all
qed simp

subsection \<open>Success\<close>

lemma scan_buffer_ok:
  "scan_buffer c froms received kept ms = Inr (received', kept') \<Longrightarrow>
     kept' = kept @ filter (\<lambda>m. \<not> asked c froms m) ms \<and>
     gathers received (filter (asked c froms) ms) received' \<and>
     (distinct (map fst received) \<longrightarrow> distinct (map fst received'))"
proof (induction ms arbitrary: received kept)
  case (Cons m ms)
  show ?case
  proof (cases "asked c froms m")
    case True
    with Cons.prems have "map_of received (From m) \<in> {None, Some (Payload m)}"
      and rest: "scan_buffer c froms (AList.update (From m) (Payload m) received) kept ms = Inr (received', kept')"
      by (auto simp: scan_buffer_Cons split: if_splits)
    with Cons.IH [OF rest] True show ?thesis by (auto intro!: gathers_Cons distinct_update)
  next
    case False
    with Cons.prems have "scan_buffer c froms received (kept @ [m]) ms = Inr (received', kept')"
      by (simp add: scan_buffer_Cons)
    from Cons.IH [OF this] False show ?thesis by simp
  qed
qed simp

lemma receive_loop_ok:
  "receive_loop dec Q c froms received buf xs = (buf', xs', Inr received') \<Longrightarrow>
     \<exists>used. xs = used @ xs' \<and>
       buf' = buf @ filter (\<lambda>m. \<not> asked c froms m) (arrivals dec Q used) \<and>
       gathers received (filter (asked c froms) (arrivals dec Q used)) received' \<and>
       set froms \<subseteq> fst ` set received' \<and>
       (distinct (map fst received) \<longrightarrow> distinct (map fst received'))"
proof (induction xs arbitrary: received buf)
  case Nil
  then show ?case by (cases "set froms \<subseteq> fst ` set received") (auto simp: receive_loop_steps)
next
  case (Cons x xs)
  show ?case
  proof (cases "set froms \<subseteq> fst ` set received")
    case True
    with Cons.prems show ?thesis by (intro exI [of _ "[]"]) auto
  next
    case False
    show ?thesis
    proof (cases rule: delivery_cases [where x = x and Q = Q and dec = dec])
      case (message sender b m)
      show ?thesis
      proof (cases "asked c froms (m\<lparr>From := sender\<rparr>)")
        case True
        with Cons.prems False message have "map_of received sender \<in> {None, Some (Payload m)}"
          "receive_loop dec Q c froms (AList.update sender (Payload m) received) buf xs = (buf', xs', Inr received')"
          by (auto simp: receive_loop_steps split: if_splits)
        from this(1) Cons.IH [OF this(2)] show ?thesis
          using True message
          by (elim exE conjE) (rule exI [of _ "x # used" for used], auto intro!: gathers_Cons distinct_update)
      next
        case no: False
        with Cons.prems False message
        have "receive_loop dec Q c froms received (buf @ [m\<lparr>From := sender\<rparr>]) xs = (buf', xs', Inr received')"
          by (auto simp: receive_loop_steps split: if_splits)
        from Cons.IH [OF this] show ?thesis
          using no message by (elim exE) (rule exI [of _ "x # used" for used], auto)
      qed
    next
      case (outside sender b)
      with Cons.prems False have "receive_loop dec Q c froms received buf xs = (buf', xs', Inr received')"
        by (simp add: receive_loop_steps)
      from Cons.IH [OF this] show ?thesis
        using outside by (elim exE) (rule exI [of _ "x # used" for used], auto)
    qed (use Cons.prems False in \<open>auto simp: receive_loop_steps\<close>)
  qed
qed

subsection \<open>Errors\<close>

text \<open>\<open>e\<close> blames a party of which two contradicting messages are on record.\<close>

definition conflict :: "string \<Rightarrow> ID list \<Rightarrow> (ID \<times> bytes) list \<Rightarrow> routerMessage list \<Rightarrow> err \<Rightarrow> bool" where
  "conflict c froms received ms e \<longleftrightarrow>
     (\<exists>m\<in>set ms. asked c froms m \<and> e = Blame (From m) ErrDuplicateMessage \<and>
       (\<exists>v. v \<noteq> Payload m \<and> (map_of received (From m) = Some v \<or>
          (\<exists>m'\<in>set ms. asked c froms m' \<and> From m' = From m \<and> Payload m' = v))))"

lemma conflictI:
  assumes "m \<in> set ms" "asked c froms m" "e = Blame (From m) ErrDuplicateMessage" "v \<noteq> Payload m"
    and "map_of received (From m) = Some v \<or> (\<exists>m'\<in>set ms. asked c froms m' \<and> From m' = From m \<and> Payload m' = v)"
  shows "conflict c froms received ms e"
  unfolding conflict_def by (intro bexI [OF _ assms(1)] conjI exI [of _ v]) (use assms in simp_all)

lemma conflictE:
  assumes "conflict c froms received ms e"
  obtains m v where "m \<in> set ms" "asked c froms m" "e = Blame (From m) ErrDuplicateMessage" "v \<noteq> Payload m"
    "map_of received (From m) = Some v \<or> (\<exists>m'\<in>set ms. asked c froms m' \<and> From m' = From m \<and> Payload m' = v)"
  using assms unfolding conflict_def by blast

lemma conflict_here:
  assumes "asked c froms m" "map_of received (From m) \<notin> {None, Some (Payload m)}"
  shows "conflict c froms received (m # ms) (Blame (From m) ErrDuplicateMessage)"
  using assms by (cases "map_of received (From m)") (auto intro!: conflictI [of m])

lemma conflict_skip: "conflict c froms received ms e \<Longrightarrow> conflict c froms received (m # ms) e"
  by (erule conflictE, rule conflictI) auto

lemma conflict_later:
  assumes "asked c froms m" "conflict c froms (AList.update (From m) (Payload m) received) ms e"
  shows "conflict c froms received (m # ms) e"
  using assms(2)
proof (rule conflictE)
  fix n v
  assume n: "n \<in> set ms" "asked c froms n" "e = Blame (From n) ErrDuplicateMessage" "v \<noteq> Payload n"
    and v: "map_of (AList.update (From m) (Payload m) received) (From n) = Some v \<or>
      (\<exists>m'\<in>set ms. asked c froms m' \<and> From m' = From n \<and> Payload m' = v)"
  show ?thesis
  proof (rule conflictI [of n _ _ _ _ v])
    show "map_of received (From n) = Some v \<or> (\<exists>m'\<in>set (m # ms). asked c froms m' \<and> From m' = From n \<and> Payload m' = v)"
      using v assms(1) by (cases "From n = From m") (auto simp: update_conv')
  qed (use n in auto)
qed

lemma scan_buffer_error:
  "scan_buffer c froms received kept ms = Inl e \<Longrightarrow> conflict c froms received ms e"
proof (induction ms arbitrary: received kept)
  case (Cons m ms)
  then show ?case
    by (auto simp: scan_buffer_Cons split: if_splits intro: conflict_here conflict_skip conflict_later)
qed simp

lemma receive_loop_error:
  "receive_loop dec Q c froms received buf xs = (buf', xs', Inl e) \<Longrightarrow>
     conflict c froms received (arrivals dec Q xs) e \<or>
     (e = ErrReceiveBufferFull \<and> maxReceiveBufferSize \<le> length buf') \<or>
     (e = ErrTransport \<and> xs' = []) \<or> Inl e \<in> set xs \<or>
     (\<exists>sender\<in>set Q. \<exists>b. Inr (sender, b) \<in> set xs \<and> dec b = Inl e)"
proof (induction xs arbitrary: received buf)
  case Nil
  then show ?case by (cases "set froms \<subseteq> fst ` set received") (auto simp: receive_loop_steps)
next
  case (Cons x xs)
  have nd: "\<not> set froms \<subseteq> fst ` set received" using Cons.prems by auto
  show ?case
  proof (cases rule: delivery_cases [where x = x and Q = Q and dec = dec])
    case (message sender b m)
    let ?m = "m\<lparr>From := sender\<rparr>"
    from Cons.prems nd message consider
      "asked c froms ?m" "map_of received (From ?m) \<notin> {None, Some (Payload ?m)}" "e = Blame (From ?m) ErrDuplicateMessage"
      | "asked c froms ?m" "receive_loop dec Q c froms (AList.update (From ?m) (Payload ?m) received) buf xs = (buf', xs', Inl e)"
      | "e = ErrReceiveBufferFull" "maxReceiveBufferSize \<le> length buf'"
      | "receive_loop dec Q c froms received (buf @ [?m]) xs = (buf', xs', Inl e)"
      by (auto simp: receive_loop_steps split: if_splits)
    then show ?thesis
    proof cases
      case 1
      from conflict_here [OF this(1,2)] 1(3) show ?thesis using message by simp
    next
      case 2
      from Cons.IH [OF this(2)] show ?thesis using message conflict_later [OF 2(1)] by auto
    next
      case 3
      then show ?thesis by simp
    next
      case 4
      from Cons.IH [OF this] show ?thesis using message conflict_skip by auto
    qed
  next
    case (outside sender b)
    with Cons.prems nd have "receive_loop dec Q c froms received buf xs = (buf', xs', Inl e)"
      by (simp add: receive_loop_steps)
    from Cons.IH [OF this] show ?thesis using outside by auto
  qed (use Cons.prems nd in \<open>auto simp: receive_loop_steps\<close>)
qed

subsection \<open>The buffer stays bounded\<close>

definition router_ok :: "Router \<Rightarrow> bool" where
  "router_ok r \<longleftrightarrow> length (receiveBuffer r) \<le> maxReceiveBufferSize"

lemma scan_buffer_length:
  "scan_buffer c froms received kept ms = Inr (received', kept') \<Longrightarrow> length kept' \<le> length kept + length ms"
  using scan_buffer_ok [of c froms received kept ms received' kept'] by simp

lemma receive_loop_bounded:
  "length buf \<le> maxReceiveBufferSize \<Longrightarrow>
     length (fst (receive_loop dec Q c froms received buf xs)) \<le> maxReceiveBufferSize"
proof (induction xs arbitrary: received buf)
  case Nil
  then show ?case by (cases "set froms \<subseteq> fst ` set received") (auto simp: receive_loop_steps)
next
  case (Cons x xs)
  show ?case
  proof (cases "set froms \<subseteq> fst ` set received")
    case False
    then show ?thesis
      using Cons by (cases rule: delivery_cases [where x = x and Q = Q and dec = dec]) (simp_all add: receive_loop_steps)
  qed (use Cons.prems in simp)
qed

lemma ReceiveFrom_router_ok:
  assumes "router_ok r"
  shows "router_ok (fst (ReceiveFrom dec r c froms))"
proof (cases "scan_buffer c froms [] [] (receiveBuffer r)")
  case (Inr p)
  obtain received kept where p: "p = (received, kept)" by force
  have "length kept \<le> maxReceiveBufferSize"
    using assms scan_buffer_length [of c froms "[]" "[]"] Inr p by (fastforce simp: router_ok_def)
  from receive_loop_bounded [OF this] show ?thesis
    using Inr p by (auto simp: ReceiveFrom_def router_ok_def split: prod.splits) (metis fst_conv)
qed (use assms in \<open>simp add: ReceiveFrom_def\<close>)

lemma SendTo_router_ok: "router_ok r \<Longrightarrow> router_ok (fst (SendTo enc r c ms))"
  by (induction enc r c ms rule: SendTo.induct) (auto simp: router_ok_def split: sum.splits prod.splits)

subsection \<open>Delivery\<close>

text \<open>
  A transport that keeps working and delivers what is asked for: no errors, every message of the
  quorum decodes, and no party contradicts itself on the messages asked for.
\<close>

definition works :: "(bytes \<Rightarrow> routerMessage res) \<Rightarrow> ID hset \<Rightarrow> (ID \<times> bytes) res list \<Rightarrow> bool" where
  "works dec Q xs \<longleftrightarrow> (\<forall>x\<in>set xs. \<exists>sender b. x = Inr (sender, b) \<and> (sender \<in> set Q \<longrightarrow> is_ok (dec b)))"

lemma receive_loop_delivers:
  assumes "works dec Q xs"
    and "\<And>m. m \<in> set (arrivals dec Q xs) \<Longrightarrow> asked c froms m \<Longrightarrow> Payload m = f (From m)"
    and "\<And>i p. map_of received i = Some p \<Longrightarrow> p = f i"
    and "set froms \<subseteq> fst ` set received \<union> From ` set (filter (asked c froms) (arrivals dec Q xs))"
    and "length buf + length (filter (\<lambda>m. \<not> asked c froms m) (arrivals dec Q xs)) \<le> maxReceiveBufferSize"
  shows "\<exists>buf' xs' received'. receive_loop dec Q c froms received buf xs = (buf', xs', Inr received')"
  using assms
proof (induction xs arbitrary: received buf)
  case (Cons x xs)
  show ?case
  proof (cases "set froms \<subseteq> fst ` set received")
    case nd: False
    have w: "works dec Q xs" using Cons.prems(1) by (simp add: works_def)
    from Cons.prems(1) obtain sender b where x: "x = Inr (sender, b)" and ok: "sender \<in> set Q \<longrightarrow> is_ok (dec b)"
      by (auto simp: works_def)
    show ?thesis
    proof (cases "sender \<in> set Q")
      case False
      with x nd Cons.IH [OF w] Cons.prems show ?thesis by (simp add: receive_loop_steps)
    next
      case True
      with ok obtain m where m: "dec b = Inr m" by (auto simp: is_ok_iff)
      let ?m = "m\<lparr>From := sender\<rparr>"
      have arr: "arrivals dec Q (x # xs) = ?m # arrivals dec Q xs" using x m True by simp
      show ?thesis
      proof (cases "asked c froms ?m")
        case asked: True
        have "\<exists>buf' xs' received'. receive_loop dec Q c froms (AList.update sender (Payload m) received) buf xs = (buf', xs', Inr received')"
        proof (rule Cons.IH [OF w])
          show "p = f i" if "map_of (AList.update sender (Payload m) received) i = Some p" for i p
            using that Cons.prems(2) [of ?m] Cons.prems(3) arr asked by (auto simp: update_conv' split: if_splits)
        qed (use Cons.prems arr asked in \<open>auto simp: update_fst\<close>)
        moreover have "map_of received sender \<in> {None, Some (Payload m)}"
          using Cons.prems(2) [of ?m] Cons.prems(3) [of sender] arr asked by (cases "map_of received sender") auto
        ultimately show ?thesis using x nd True m asked by (auto simp: receive_loop_steps)
      next
        case no: False
        then have "length buf < maxReceiveBufferSize" using Cons.prems(5) arr by simp
        moreover have "\<exists>buf' xs' received'. receive_loop dec Q c froms received (buf @ [?m]) xs = (buf', xs', Inr received')"
          by (rule Cons.IH [OF w]) (use Cons.prems arr no in auto)
        ultimately show ?thesis using x nd True m no by (simp add: receive_loop_steps)
      qed
    qed
  qed simp
qed (auto simp: receive_loop.simps slice_IsSuperSet_def list_all_iff)

section \<open>Main results\<close>

lemma ReceiveFrom_unfold:
  assumes "ReceiveFrom dec r c froms = (r', res)"
  shows "(\<exists>e. scan_buffer c froms [] [] (receiveBuffer r) = Inl e \<and> r' = r \<and> res = Inl e) \<or>
    (\<exists>received kept. scan_buffer c froms [] [] (receiveBuffer r) = Inr (received, kept) \<and>
       receive_loop dec (quorumSet r) c froms received kept (dl_inbox (delivery r)) =
         (receiveBuffer r', dl_inbox (delivery r'), res) \<and>
       r' = r\<lparr>receiveBuffer := receiveBuffer r', delivery := (delivery r)\<lparr>dl_inbox := dl_inbox (delivery r')\<rparr>\<rparr>)"
  using assms by (auto simp: ReceiveFrom_def split: sum.splits prod.splits)

lemma ReceiveFrom_ok:
  assumes "ReceiveFrom dec r c froms = (r', Inr received)"
  shows "\<exists>used. dl_inbox (delivery r) = used @ dl_inbox (delivery r') \<and>
    (let ms = receiveBuffer r @ arrivals dec (quorumSet r) used in
       receiveBuffer r' = filter (\<lambda>m. \<not> asked c froms m) ms \<and>
       distinct (map fst received) \<and> fst ` set received = set froms \<and>
       (\<forall>i p. (i, p) \<in> set received \<longleftrightarrow> (\<exists>m\<in>set ms. asked c froms m \<and> From m = i \<and> Payload m = p)))"
proof -
  from ReceiveFrom_unfold [OF assms] obtain rec kept
    where scan: "scan_buffer c froms [] [] (receiveBuffer r) = Inr (rec, kept)"
      and loop: "receive_loop dec (quorumSet r) c froms rec kept (dl_inbox (delivery r)) =
        (receiveBuffer r', dl_inbox (delivery r'), Inr received)" by auto
  from scan_buffer_ok [OF scan] have kept: "kept = filter (\<lambda>m. \<not> asked c froms m) (receiveBuffer r)"
    and g1: "gathers [] (filter (asked c froms) (receiveBuffer r)) rec" and d1: "distinct (map fst rec)" by simp_all
  from receive_loop_ok [OF loop] obtain used where used: "dl_inbox (delivery r) = used @ dl_inbox (delivery r')"
    and buf: "receiveBuffer r' = kept @ filter (\<lambda>m. \<not> asked c froms m) (arrivals dec (quorumSet r) used)"
    and g2: "gathers rec (filter (asked c froms) (arrivals dec (quorumSet r) used)) received"
    and sup: "set froms \<subseteq> fst ` set received" and d: "distinct (map fst received)" using d1 by blast
  let ?ms = "receiveBuffer r @ arrivals dec (quorumSet r) used"
  from gathers_append [OF g1 g2] have g: "gathers [] (filter (asked c froms) ?ms) received" by simp
  have mem: "(i, p) \<in> set received \<longleftrightarrow> map_of received i = Some p" for i p using d by simp
  have keys: "fst ` set received = From ` {m \<in> set ?ms. asked c froms m}" using g by (auto simp: gathers_def)
  have "fst ` set received = set froms" using keys sup by (auto simp: asked_def)
  moreover have "(i, p) \<in> set received \<longleftrightarrow> (\<exists>m\<in>set ?ms. asked c froms m \<and> From m = i \<and> Payload m = p)" for i p
  proof
    assume ip: "(i, p) \<in> set received"
    then have "i \<in> fst ` set received" by force
    with keys obtain m where m: "m \<in> set ?ms" "asked c froms m" "From m = i" by auto
    with g have "map_of received i = Some (Payload m)" by (auto simp: gathers_def)
    with ip mem m show "\<exists>m\<in>set ?ms. asked c froms m \<and> From m = i \<and> Payload m = p" by auto
  next
    assume "\<exists>m\<in>set ?ms. asked c froms m \<and> From m = i \<and> Payload m = p"
    with g show "(i, p) \<in> set received" unfolding mem by (auto simp: gathers_def)
  qed
  ultimately show ?thesis using used buf kept d by (intro exI [of _ used]) (simp add: Let_def)
qed

text \<open>
  C22. A receive that succeeds refines the queue of all messages of the session: it reads some further
  deliveries, returns for exactly the senders asked for the payload they sent under the correlation
  identifier, takes these messages out, and keeps every other message of a member of the quorum in the order of arrival.
\<close>

theorem ReceiveFrom_refines:
  assumes "ReceiveFrom dec r c froms = (r', Inr received)"
  shows "\<exists>used. dl_inbox (delivery r) = used @ dl_inbox (delivery r') \<and>
    (let ms = receiveBuffer r @ arrivals dec (quorumSet r) used in
       receiveBuffer r' = filter (\<lambda>m. \<not> asked c froms m) ms \<and>
       distinct (map fst received) \<and> fst ` set received = set froms \<and>
       (\<forall>i p. (i, p) \<in> set received \<longleftrightarrow> (\<exists>m\<in>set ms. asked c froms m \<and> From m = i \<and> Payload m = p)))"
  using assms by (rule ReceiveFrom_ok)

text \<open>A codec and a router for the witnesses: a message is its payload behind the length of its identifier.\<close>

definition toy_dec :: "bytes \<Rightarrow> routerMessage res" where
  "toy_dec b = (case b of [] \<Rightarrow> Inl ErrSerialisation
     | x # xs \<Rightarrow> Inr \<lparr>From = 0, CorrelationID = replicate (unat x) (CHR ''a''), Payload = xs\<rparr>)"

definition toy_router :: Router where
  "toy_router = NewRouter \<lparr>dl_PartyID = 1, dl_Quorum = [1, 2, 3],
     dl_inbox = [Inr (9, []), Inr (3, [2, 7]), Inr (3, [1, 5]), Inr (2, [1, 6]), Inr (2, [1, 8])],
     dl_accepts = (\<lambda>_ _. Inr ()), dl_sent = []\<rparr>"

theorem ReceiveFrom_refines_witness:
  "\<exists>used r'. snd (ReceiveFrom toy_dec toy_router ''a'' [2, 3]) = Inr [(3, [5]), (2, [6])] \<and>
     r' = fst (ReceiveFrom toy_dec toy_router ''a'' [2, 3]) \<and>
     dl_inbox (delivery toy_router) = used @ dl_inbox (delivery r') \<and>
     receiveBuffer r' = filter (\<lambda>m. \<not> asked ''a'' [2, 3] m) (arrivals toy_dec [1, 2, 3] used)"
proof -
  let ?r = "fst (ReceiveFrom toy_dec toy_router ''a'' [2, 3])"
  have res: "snd (ReceiveFrom toy_dec toy_router ''a'' [2, 3]) = Inr [(3, [5]), (2, [6])]" by code_simp
  then have "ReceiveFrom toy_dec toy_router ''a'' [2, 3] = (?r, Inr [(3, [5]), (2, [6])])" by (metis prod.collapse)
  from ReceiveFrom_refines [OF this] obtain used where "dl_inbox (delivery toy_router) = used @ dl_inbox (delivery ?r)"
    "receiveBuffer ?r = filter (\<lambda>m. \<not> asked ''a'' [2, 3] m) (receiveBuffer toy_router @ arrivals toy_dec (quorumSet toy_router) used)"
    by (auto simp: Let_def)
  moreover have "receiveBuffer toy_router = []" "quorumSet toy_router = [1, 2, 3]" by code_simp+
  ultimately show ?thesis using res by auto
qed

lemma ReceiveFrom_succeeds:
  fixes r :: Router and dec :: "bytes \<Rightarrow> routerMessage res"
  defines "ms \<equiv> receiveBuffer r @ arrivals dec (quorumSet r) (dl_inbox (delivery r))"
  assumes "works dec (quorumSet r) (dl_inbox (delivery r))"
    and consistent: "\<And>m. m \<in> set ms \<Longrightarrow> asked c froms m \<Longrightarrow> Payload m = f (From m)"
    and present: "set froms \<subseteq> From ` set (filter (asked c froms) ms)"
    and capacity: "length (filter (\<lambda>m. \<not> asked c froms m) ms) \<le> maxReceiveBufferSize"
  shows "\<exists>r' received. ReceiveFrom dec r c froms = (r', Inr received) \<and>
           distinct (map fst received) \<and> set received = (\<lambda>i. (i, f i)) ` set froms"
proof -
  let ?b = "receiveBuffer r" and ?a = "arrivals dec (quorumSet r) (dl_inbox (delivery r))"
  have cons_b: "Payload m = f (From m)" if "m \<in> set ?b" "asked c froms m" for m
    using that by (intro consistent) (simp_all add: ms_def)
  have cons_a: "Payload m = f (From m)" if "m \<in> set ?a" "asked c froms m" for m
    using that by (intro consistent) (simp_all add: ms_def)
  have "\<not> conflict c froms [] ?b e" for e
    using cons_b by (auto elim!: conflictE)
  then obtain rec kept where scan: "scan_buffer c froms [] [] ?b = Inr (rec, kept)"
    using scan_buffer_error [of c froms "[]" "[]" ?b] by (metis sum.exhaust surj_pair)
  from scan_buffer_ok [OF scan] have kept: "kept = filter (\<lambda>m. \<not> asked c froms m) ?b"
    and g: "gathers [] (filter (asked c froms) ?b) rec" and d: "distinct (map fst rec)" by simp_all
  have keys: "fst ` set rec = From ` set (filter (asked c froms) ?b)" using g by (auto simp: gathers_def)
  have "p = f i" if "map_of rec i = Some p" for i p
  proof -
    have "i \<in> fst ` set rec" using that by (metis dom_map_of_conv_image_fst domI)
    with keys obtain m where "m \<in> set (filter (asked c froms) ?b)" "From m = i" by auto
    with g cons_b that show ?thesis by (auto simp: gathers_def)
  qed
  moreover have "set froms \<subseteq> fst ` set rec \<union> From ` set (filter (asked c froms) ?a)"
    using present keys by (auto simp: ms_def)
  moreover have "length kept + length (filter (\<lambda>m. \<not> asked c froms m) ?a) \<le> maxReceiveBufferSize"
    using capacity by (simp add: ms_def kept)
  ultimately obtain buf' xs' received where
    "receive_loop dec (quorumSet r) c froms rec kept (dl_inbox (delivery r)) = (buf', xs', Inr received)"
    using receive_loop_delivers [OF assms(2) cons_a] by blast
  then obtain r' where ok: "ReceiveFrom dec r c froms = (r', Inr received)"
    using scan by (simp add: ReceiveFrom_def)
  have r: "fst ` set received = set froms" "distinct (map fst received)"
    "\<And>i p. (i, p) \<in> set received \<Longrightarrow> \<exists>m\<in>set ms. asked c froms m \<and> From m = i \<and> Payload m = p"
  proof -
    from ReceiveFrom_ok [OF ok] obtain used where used: "dl_inbox (delivery r) = used @ dl_inbox (delivery r')"
      and k: "fst ` set received = set froms" "distinct (map fst received)"
      and mem: "\<And>i p. (i, p) \<in> set received \<longleftrightarrow>
        (\<exists>m\<in>set (?b @ arrivals dec (quorumSet r) used). asked c froms m \<and> From m = i \<and> Payload m = p)"
      unfolding Let_def by blast
    show "fst ` set received = set froms" "distinct (map fst received)" by (fact k)+
    fix i p assume "(i, p) \<in> set received"
    then obtain m where "m \<in> set (?b @ arrivals dec (quorumSet r) used)" "asked c froms m \<and> From m = i \<and> Payload m = p"
      unfolding mem by blast
    moreover from this(1) have "m \<in> set ms" using used by (auto simp: ms_def)
    ultimately show "\<exists>m\<in>set ms. asked c froms m \<and> From m = i \<and> Payload m = p" by blast
  qed
  have "p = f i" if "(i, p) \<in> set received" for i p
    using r(3) [OF that] consistent by auto
  then have "set received = (\<lambda>i. (i, f i)) ` fst ` set received" by (auto simp: image_image rev_image_eqI)
  then have "set received = (\<lambda>i. (i, f i)) ` set froms" unfolding r(1) .
  with ok r(2) show ?thesis by (intro exI conjI)
qed

text \<open>
  C23. A receive returns: when the transport works and delivers a message of every sender asked for, no sender
  contradicts itself on the correlation identifier, and the other traffic fits the buffer, \<open>ReceiveFrom\<close> succeeds
  with the payload of each sender, whatever the order of arrival and however the traffic of other steps is interleaved.
\<close>

theorem ReceiveFrom_delivers:
  fixes r :: Router and dec :: "bytes \<Rightarrow> routerMessage res"
  defines "ms \<equiv> receiveBuffer r @ arrivals dec (quorumSet r) (dl_inbox (delivery r))"
  assumes "works dec (quorumSet r) (dl_inbox (delivery r))"
    and consistent: "\<And>m. m \<in> set ms \<Longrightarrow> asked c froms m \<Longrightarrow> Payload m = f (From m)"
    and present: "set froms \<subseteq> From ` set (filter (asked c froms) ms)"
    and capacity: "length (filter (\<lambda>m. \<not> asked c froms m) ms) \<le> maxReceiveBufferSize"
  shows "\<exists>r' received. ReceiveFrom dec r c froms = (r', Inr received) \<and>
           distinct (map fst received) \<and> set received = (\<lambda>i. (i, f i)) ` set froms"
  using assms(2-) unfolding ms_def by (rule ReceiveFrom_succeeds)

theorem ReceiveFrom_delivers_witness:
  "\<exists>r' received. ReceiveFrom toy_dec toy_router ''aa'' [3] = (r', Inr received) \<and>
     distinct (map fst received) \<and> set received = (\<lambda>i. (i, [7])) ` set [3]"
proof (rule ReceiveFrom_delivers [where r = toy_router and dec = toy_dec and f = "\<lambda>_. [7]"])
  let ?ms = "receiveBuffer toy_router @ arrivals toy_dec (quorumSet toy_router) (dl_inbox (delivery toy_router))"
  have ms: "?ms = [\<lparr>From = 3, CorrelationID = ''aa'', Payload = [7]\<rparr>, \<lparr>From = 3, CorrelationID = ''a'', Payload = [5]\<rparr>,
      \<lparr>From = 2, CorrelationID = ''a'', Payload = [6]\<rparr>, \<lparr>From = 2, CorrelationID = ''a'', Payload = [8]\<rparr>]"
    by code_simp
  show "works toy_dec (quorumSet toy_router) (dl_inbox (delivery toy_router))"
    by (simp add: works_def toy_router_def NewRouter_def toy_dec_def)
  show "Payload m = [7]" if "m \<in> set ?ms" "asked ''aa'' [3] m" for m
    using that unfolding ms by (auto simp: asked_def)
  show "set [3] \<subseteq> From ` set (filter (asked ''aa'' [3]) ?ms)" unfolding ms by (simp add: asked_def)
  show "length (filter (\<lambda>m. \<not> asked ''aa'' [3] m) ?ms) \<le> maxReceiveBufferSize"
    unfolding ms by (simp add: asked_def maxReceiveBufferSize_def)
qed

lemma ReceiveFrom_reason:
  assumes "ReceiveFrom dec r c froms = (r', Inl e)" "router_ok r"
  shows "router_ok r' \<and>
    (conflict c froms [] (receiveBuffer r @ arrivals dec (quorumSet r) (dl_inbox (delivery r))) e \<or>
     (e = ErrReceiveBufferFull \<and> length (receiveBuffer r') = maxReceiveBufferSize) \<or>
     (e = ErrTransport \<and> dl_inbox (delivery r') = []) \<or> Inl e \<in> set (dl_inbox (delivery r)) \<or>
     (\<exists>sender\<in>set (quorumSet r). \<exists>b. Inr (sender, b) \<in> set (dl_inbox (delivery r)) \<and> dec b = Inl e))"
proof -
  let ?a = "arrivals dec (quorumSet r) (dl_inbox (delivery r))"
  have ok: "router_ok r'" using ReceiveFrom_router_ok [OF assms(2), of dec c froms] assms(1) by simp
  from ReceiveFrom_unfold [OF assms(1)] show ?thesis
  proof (elim disjE exE conjE)
    fix e' assume "scan_buffer c froms [] [] (receiveBuffer r) = Inl e'" "Inl e = Inl e'"
    then have "conflict c froms [] (receiveBuffer r) e" using scan_buffer_error by blast
    then have "conflict c froms [] (receiveBuffer r @ ?a) e" by (rule conflictE) (rule conflictI, auto)
    with ok show ?thesis by simp
  next
    fix rec kept
    assume scan: "scan_buffer c froms [] [] (receiveBuffer r) = Inr (rec, kept)"
      and loop: "receive_loop dec (quorumSet r) c froms rec kept (dl_inbox (delivery r)) =
        (receiveBuffer r', dl_inbox (delivery r'), Inl e)"
    from scan_buffer_ok [OF scan] have g: "gathers [] (filter (asked c froms) (receiveBuffer r)) rec" by simp
    have "conflict c froms [] (receiveBuffer r @ ?a) e" if "conflict c froms rec ?a e"
      using that
    proof (rule conflictE)
      fix m v
      assume m: "m \<in> set ?a" "asked c froms m" "e = Blame (From m) ErrDuplicateMessage" "v \<noteq> Payload m"
        and v: "map_of rec (From m) = Some v \<or> (\<exists>m'\<in>set ?a. asked c froms m' \<and> From m' = From m \<and> Payload m' = v)"
      have "\<exists>m'\<in>set (receiveBuffer r). asked c froms m' \<and> From m' = From m \<and> Payload m' = v"
        if "map_of rec (From m) = Some v"
      proof -
        from that have "From m \<in> fst ` set rec" by (metis dom_map_of_conv_image_fst domI)
        with g obtain n where "n \<in> set (receiveBuffer r)" "asked c froms n" "From n = From m" by (auto simp: gathers_def)
        moreover from this gathers_lookup [OF g, of n] have "map_of rec (From n) = Some (Payload n)" by simp
        ultimately show ?thesis using that by (intro bexI [of _ n]) auto
      qed
      with m v show ?thesis by (intro conflictI [of m _ _ _ _ v]) auto
    qed
    with receive_loop_error [OF loop] ok show ?thesis by (auto simp: router_ok_def)
  qed
qed

text \<open>
  C24. A receive that fails has a reason: the party blamed sent two different payloads under the identifier
  asked for, or the buffer is full, or the transport stopped, or the error is one that the transport reported, or one
  that the decoder returned for bytes of a member of the quorum. So when neither the transport nor the decoder returns an
  error that names a party, a party is blamed only for two messages with different payloads under the identifier asked
  for, and a party that sends one payload per identifier is never blamed. In every case the buffer stays within
  \<open>maxReceiveBufferSize\<close>.
\<close>

theorem ReceiveFrom_errors:
  assumes "ReceiveFrom dec r c froms = (r', Inl e)" "router_ok r"
  shows "router_ok r' \<and>
    (conflict c froms [] (receiveBuffer r @ arrivals dec (quorumSet r) (dl_inbox (delivery r))) e \<or>
     (e = ErrReceiveBufferFull \<and> length (receiveBuffer r') = maxReceiveBufferSize) \<or>
     (e = ErrTransport \<and> dl_inbox (delivery r') = []) \<or> Inl e \<in> set (dl_inbox (delivery r)) \<or>
     (\<exists>sender\<in>set (quorumSet r). \<exists>b. Inr (sender, b) \<in> set (dl_inbox (delivery r)) \<and> dec b = Inl e)) \<and>
    (\<forall>j e0. e = Blame j e0 \<and> Inl e \<notin> set (dl_inbox (delivery r)) \<and> (\<forall>b. dec b \<noteq> Inl e) \<longrightarrow>
      e0 = ErrDuplicateMessage \<and> (\<exists>m m'. {m, m'} \<subseteq> set (receiveBuffer r @ arrivals dec (quorumSet r) (dl_inbox (delivery r))) \<and>
        asked c froms m \<and> asked c froms m' \<and> From m = j \<and> From m' = j \<and> Payload m \<noteq> Payload m'))"
proof -
  let ?ms = "receiveBuffer r @ arrivals dec (quorumSet r) (dl_inbox (delivery r))"
  note reason = ReceiveFrom_reason [OF assms]
  have "e0 = ErrDuplicateMessage \<and> (\<exists>m m'. {m, m'} \<subseteq> set ?ms \<and> asked c froms m \<and> asked c froms m' \<and> From m = j \<and> From m' = j \<and> Payload m \<noteq> Payload m')"
    if "e = Blame j e0" "Inl e \<notin> set (dl_inbox (delivery r))" "\<forall>b. dec b \<noteq> Inl e" for j e0
  proof -
    from reason that have "conflict c froms [] ?ms (Blame j e0)" by blast
    then show ?thesis by (rule conflictE) (simp, blast)
  qed
  with reason show ?thesis by blast
qed

theorem ReceiveFrom_errors_witness:
  "\<exists>r'. ReceiveFrom toy_dec toy_router ''a'' [2, 3, 1] = (r', Inl (Blame 2 ErrDuplicateMessage)) \<and> router_ok r'"
proof -
  have "snd (ReceiveFrom toy_dec toy_router ''a'' [2, 3, 1]) = Inl (Blame 2 ErrDuplicateMessage)" by code_simp
  then obtain r' where r: "ReceiveFrom toy_dec toy_router ''a'' [2, 3, 1] = (r', Inl (Blame 2 ErrDuplicateMessage))"
    by (metis prod.collapse)
  moreover have "router_ok toy_router" by (simp add: router_ok_def toy_router_def NewRouter_def)
  ultimately show ?thesis using ReceiveFrom_errors [OF r] by blast
qed

end
