(* ===== verification/Echo.thy ===== *)
theory Echo
  imports Network
begin

text \<open>
  The echo broadcast of \<open>pkg/network/echo\<close> and the combined exchange of \<open>pkg/network/exchange\<close>.
  Every party sends its message to all others, echoes what it received, and accepts only what all
  others echoed in the same way. The rounds of a participant are functions on its state; a network of
  honest participants among which the remaining members of the quorum may send anything to anybody
  is a step relation. Proved for it: two honest parties never accept different messages of the same
  sender, an honest sender's message is accepted as sent, and a quorum of honest parties is never stuck.
  The codec of the broadcast messages is a parameter.
\<close>

section \<open>Participant\<close>

record EchoParticipant =
  ep_sharingID :: ID
  ep_quorum :: "ID hset"
  ep_messages :: "ID \<rightharpoonup> bytes"

text \<open>A round-1 message is the payload, a round-2 message the echoed payloads by sender; \<open>None\<close> is a nil pointer.\<close>

type_synonym Round1P2P = "bytes option"
type_synonym Round2P2P = "(ID \<times> bytes) list option"

definition echo_NewParticipant :: "ID \<Rightarrow> ID hset option \<Rightarrow> EchoParticipant res" where
  "echo_NewParticipant i quorum = (case quorum of
     None \<Rightarrow> Inl ErrInvalidArgument
   | Some q \<Rightarrow> if \<not> hs_Contains q i then Inl ErrInvalidArgument
       else Inr \<lparr>ep_sharingID = i, ep_quorum = q, ep_messages = Map.empty\<rparr>)"

definition Round1P2P_Validate :: "Round1P2P \<Rightarrow> bytes res" where
  "Round1P2P_Validate r = (case r of None \<Rightarrow> Inl ErrInvalidArgument | Some payload \<Rightarrow> Inr payload)"

definition Round2P2P_Validate :: "Round2P2P \<Rightarrow> (ID \<times> bytes) list res" where
  "Round2P2P_Validate r = (case r of None \<Rightarrow> Inl ErrInvalidArgument | Some e \<Rightarrow> Inr e)"

text \<open>The lookup \<open>m[id]\<close> in a map of byte slices: a missing key yields the empty slice.\<close>

definition bytes_at :: "(ID \<rightharpoonup> bytes) \<Rightarrow> ID \<Rightarrow> bytes" where
  "bytes_at m i = (case m i of None \<Rightarrow> [] | Some b \<Rightarrow> b)"

definition coparties :: "EchoParticipant \<Rightarrow> ID list" where
  "coparties p = filter (\<lambda>i. i \<noteq> ep_sharingID p) (ep_quorum p)"

definition echo_Round1 :: "('b \<Rightarrow> bytes res) \<Rightarrow> EchoParticipant \<Rightarrow> 'b \<Rightarrow> EchoParticipant \<times> (ID \<times> Round1P2P) list res" where
  "echo_Round1 encB p message = (case encB message of
     Inl e \<Rightarrow> (p, Inl e)
   | Inr serializedMessage \<Rightarrow>
       (p\<lparr>ep_messages := (ep_messages p)(ep_sharingID p \<mapsto> serializedMessage)\<rparr>,
        Inr (map (\<lambda>i. (i, Some serializedMessage)) (coparties p))))"

fun echo_collect ::
  "(ID \<rightharpoonup> Round1P2P) \<Rightarrow> ID list \<Rightarrow> EchoParticipant \<Rightarrow> (ID \<times> bytes) list \<Rightarrow> EchoParticipant \<times> (ID \<times> bytes) list res" where
  "echo_collect r1 [] p receivedMessages = (p, Inr receivedMessages)"
| "echo_collect r1 (i # ids) p receivedMessages =
     (case r1 i of
        None \<Rightarrow> (p, Inl ErrFailed)
      | Some m \<Rightarrow> (case Round1P2P_Validate m of
          Inl e \<Rightarrow> (p, Inl e)
        | Inr payload \<Rightarrow>
            echo_collect r1 ids (p\<lparr>ep_messages := (ep_messages p)(i \<mapsto> payload)\<rparr>) (AList.update i payload receivedMessages)))"

definition echo_Round2 :: "EchoParticipant \<Rightarrow> (ID \<rightharpoonup> Round1P2P) \<Rightarrow> EchoParticipant \<times> (ID \<times> Round2P2P) list res" where
  "echo_Round2 p r1 = (case echo_collect r1 (coparties p) p [] of
     (p', Inl e) \<Rightarrow> (p', Inl e)
   | (p', Inr receivedMessages) \<Rightarrow> (p', Inr (map (\<lambda>i. (i, Some receivedMessages)) (coparties p'))))"

text \<open>The inner loop of round 3: all others echo \<open>message\<close> as the message of \<open>sender\<close>.\<close>

fun echo_check :: "(ID \<rightharpoonup> Round2P2P) \<Rightarrow> ID \<Rightarrow> bytes \<Rightarrow> ID list \<Rightarrow> unit res" where
  "echo_check r2 sender message [] = Inr ()"
| "echo_check r2 sender message (echoID # ids) =
     (if echoID = sender then echo_check r2 sender message ids
      else case r2 echoID of
        None \<Rightarrow> Inl ErrFailed
      | Some e \<Rightarrow> (case Round2P2P_Validate e of
          Inl err \<Rightarrow> Inl err
        | Inr echo \<Rightarrow> (case CompareBytes message (bytes_at (map_of echo) sender) of
            (_, isEq, _) \<Rightarrow> if isEq \<noteq> 1 then Inl ErrFailed else echo_check r2 sender message ids)))"

definition echo_Round3 :: "(bytes \<Rightarrow> 'b res) \<Rightarrow> EchoParticipant \<Rightarrow> (ID \<rightharpoonup> Round2P2P) \<Rightarrow> (ID \<times> 'b) list res" where
  "echo_Round3 decB p r2 =
     rbind (MapOrError (\<lambda>i. let message = bytes_at (ep_messages p) i in
              rbind (echo_check r2 i message (coparties p)) (\<lambda>_. Inr (i, message))) (coparties p))
       (MapOrError (\<lambda>(i, message). rbind (decB message) (\<lambda>b. Inr (i, b))))"

section \<open>Running the rounds over a router\<close>

record 'b echo_codec =
  enc_router :: "routerMessage \<Rightarrow> bytes res"
  dec_router :: "bytes \<Rightarrow> routerMessage res"
  enc_r1 :: "Round1P2P \<Rightarrow> bytes res"
  dec_r1 :: "bytes \<Rightarrow> Round1P2P res"
  enc_r2 :: "Round2P2P \<Rightarrow> bytes res"
  dec_r2 :: "bytes \<Rightarrow> Round2P2P res"
  enc_B :: "'b \<Rightarrow> bytes res"
  dec_B :: "bytes \<Rightarrow> 'b res"

text \<open>Sequencing of router actions: a failed action ends the run with the router as it is then.\<close>

definition then_do :: "Router \<times> 'a res \<Rightarrow> (Router \<Rightarrow> 'a \<Rightarrow> Router \<times> 'c res) \<Rightarrow> Router \<times> 'c res" where
  "then_do m f = (case m of (rt, Inl e) \<Rightarrow> (rt, Inl e) | (rt, Inr x) \<Rightarrow> f rt x)"

definition echo_Run :: "'b echo_codec \<Rightarrow> EchoParticipant \<Rightarrow> string \<Rightarrow> 'b \<Rightarrow> Router \<Rightarrow> Router \<times> (ID \<times> 'b) list res" where
  "echo_Run k p correlationID message rt =
     (case echo_Round1 (enc_B k) p message of
        (p1, Inl e) \<Rightarrow> (rt, Inl e)
      | (p1, Inr r1Out) \<Rightarrow>
          then_do (SendUnicast (enc_router k) (enc_r1 k) rt (correlationID @ '':EchoRound1P2P'') r1Out) (\<lambda>rt _.
          then_do (ReceiveUnicast (dec_router k) (dec_r1 k) rt (correlationID @ '':EchoRound1P2P'') (ep_quorum p1)) (\<lambda>rt r2In.
          (case echo_Round2 p1 (map_of r2In) of
             (p2, Inl e) \<Rightarrow> (rt, Inl e)
           | (p2, Inr r2Out) \<Rightarrow>
               then_do (SendUnicast (enc_router k) (enc_r2 k) rt (correlationID @ '':EchoRound2P2P'') r2Out) (\<lambda>rt _.
               then_do (ReceiveUnicast (dec_router k) (dec_r2 k) rt (correlationID @ '':EchoRound2P2P'') (ep_quorum p2)) (\<lambda>rt r3In.
               (rt, echo_Round3 (dec_B k) p2 (map_of r3In))))))))"

definition ExchangeEchoBroadcast ::
  "'b echo_codec \<Rightarrow> Router \<Rightarrow> string \<Rightarrow> ID hset option \<Rightarrow> 'b \<Rightarrow> Router \<times> (ID \<times> 'b) list res" where
  "ExchangeEchoBroadcast k rt correlationID quorum message =
     (case echo_NewParticipant (rt_PartyID rt) quorum of
        Inl e \<Rightarrow> (rt, Inl e)
      | Inr party \<Rightarrow> then_do (echo_Run k party correlationID message rt)
          (\<lambda>rt result. (rt, Inr (fold (\<lambda>(i, m) output. AList.update i m output) result []))))"

definition UnicastSend ::
  "(routerMessage \<Rightarrow> bytes res) \<Rightarrow> ('m \<Rightarrow> bytes res) \<Rightarrow> Router \<Rightarrow> string \<Rightarrow> (ID \<times> 'm) list \<Rightarrow> Router \<times> unit res" where
  "UnicastSend enc encM rt correlationID out = SendUnicast enc encM rt (correlationID @ ''UNICAST:'') out"

definition UnicastReceive ::
  "(bytes \<Rightarrow> routerMessage res) \<Rightarrow> (bytes \<Rightarrow> 'm res) \<Rightarrow> Router \<Rightarrow> string \<Rightarrow> ID hset \<Rightarrow> Router \<times> (ID \<times> 'm) list res" where
  "UnicastReceive dec decM rt correlationID quorum = ReceiveUnicast dec decM rt (correlationID @ ''UNICAST:'') quorum"

definition UnicastExchange ::
  "(routerMessage \<Rightarrow> bytes res) \<Rightarrow> (bytes \<Rightarrow> routerMessage res) \<Rightarrow> ('m \<Rightarrow> bytes res) \<Rightarrow> (bytes \<Rightarrow> 'm res) \<Rightarrow>
     Router \<Rightarrow> string \<Rightarrow> (ID \<times> 'm) list \<Rightarrow> Router \<times> (ID \<times> 'm) list res" where
  "UnicastExchange enc dec encM decM rt correlationID out =
     then_do (SendUnicast enc encM rt (correlationID @ ''UNICAST:'') out) (\<lambda>rt _.
       ReceiveUnicast dec decM rt (correlationID @ ''UNICAST:'') (hs_NewComparable (map fst out)))"

definition BroadcastExchange ::
  "'b echo_codec \<Rightarrow> Router \<Rightarrow> string \<Rightarrow> ID hset option \<Rightarrow> 'b \<Rightarrow> Router \<times> (ID \<times> 'b) list res" where
  "BroadcastExchange k rt correlationID quorum out =
     ExchangeEchoBroadcast k rt (correlationID @ ''BROADCAST:'') quorum out"

definition Exchange ::
  "'b echo_codec \<Rightarrow> ('m \<Rightarrow> bytes res) \<Rightarrow> (bytes \<Rightarrow> 'm res) \<Rightarrow> Router \<Rightarrow> string \<Rightarrow> ID hset option \<Rightarrow> 'b \<Rightarrow> (ID \<times> 'm) list \<Rightarrow>
     Router \<times> ((ID \<times> 'b) list \<times> (ID \<times> 'm) list) res" where
  "Exchange k encM decM rt correlationID quorum broadcastOut unicastOut =
     then_do (BroadcastExchange k rt correlationID quorum broadcastOut) (\<lambda>rt broadcastIn.
     then_do (UnicastExchange (enc_router k) (dec_router k) encM decM rt correlationID unicastOut) (\<lambda>rt unicastIn.
       (rt, Inr (broadcastIn, unicastIn))))"

section \<open>The rounds\<close>

lemma coparties_set [simp]: "set (coparties p) = set (ep_quorum p) - {ep_sharingID p}"
  by (auto simp: coparties_def)

lemma map_of_const: "map_of (map (\<lambda>i. (i, v)) ids) i = (if i \<in> set ids then Some v else None)"
  by (induction ids) auto

lemma echo_collect_ok:
  "echo_collect r1 ids p rec = (p', Inr rec') \<Longrightarrow>
     ep_sharingID p' = ep_sharingID p \<and> ep_quorum p' = ep_quorum p \<and>
     (\<forall>i\<in>set ids. \<exists>b. r1 i = Some (Some b) \<and> map_of rec' i = Some b \<and> ep_messages p' i = Some b) \<and>
     (\<forall>i. i \<notin> set ids \<longrightarrow> map_of rec' i = map_of rec i \<and> ep_messages p' i = ep_messages p i)"
proof (induction ids arbitrary: p rec)
  case (Cons i ids)
  from Cons.prems obtain b where b: "r1 i = Some (Some b)"
    and "echo_collect r1 ids (p\<lparr>ep_messages := (ep_messages p)(i \<mapsto> b)\<rparr>) (AList.update i b rec) = (p', Inr rec')"
    by (auto simp: Round1P2P_Validate_def split: option.splits)
  from Cons.IH [OF this(2)] b show ?case by (cases "i \<in> set ids") (auto simp: update_conv')
qed simp

lemma echo_collect_succeeds:
  "\<forall>i\<in>set ids. \<exists>b. r1 i = Some (Some b) \<Longrightarrow> \<exists>p' rec'. echo_collect r1 ids p rec = (p', Inr rec')"
  by (induction ids arbitrary: p rec) (auto simp: Round1P2P_Validate_def)

lemma echo_Round2_ok:
  assumes "echo_Round2 p r1 = (p', Inr out)"
  shows "ep_sharingID p' = ep_sharingID p \<and> ep_quorum p' = ep_quorum p \<and>
    (\<forall>i\<in>set (coparties p). \<exists>b. r1 i = Some (Some b) \<and> ep_messages p' i = Some b) \<and>
    (\<exists>rec. out = map (\<lambda>i. (i, Some rec)) (coparties p) \<and> (\<forall>i\<in>set (coparties p). map_of rec i = ep_messages p' i) \<and>
       (\<forall>i. i \<notin> set (coparties p) \<longrightarrow> map_of rec i = None))"
proof -
  from assms obtain rec where c: "echo_collect r1 (coparties p) p [] = (p', Inr rec)"
    and out: "out = map (\<lambda>i. (i, Some rec)) (coparties p')"
    by (auto simp: echo_Round2_def split: prod.splits sum.splits)
  from echo_collect_ok [OF c] have "coparties p' = coparties p" by (simp add: coparties_def)
  moreover have "\<forall>i\<in>set (coparties p). map_of rec i = ep_messages p' i"
    using echo_collect_ok [OF c] by fastforce
  moreover have "\<forall>i. i \<notin> set (coparties p) \<longrightarrow> map_of rec i = None"
    using echo_collect_ok [OF c] by (simp del: coparties_set)
  ultimately show ?thesis using echo_collect_ok [OF c] out by (intro conjI exI [of _ rec]) (auto simp del: coparties_set)
qed

lemma echo_Round2_succeeds:
  assumes "\<forall>i\<in>set (coparties p). \<exists>b. r1 i = Some (Some b)"
  shows "\<exists>p' out. echo_Round2 p r1 = (p', Inr out)"
  using echo_collect_succeeds [OF assms, of p "[]"] by (auto simp: echo_Round2_def)

text \<open>A Go slice has fewer than \<open>2 ^ 63\<close> elements.\<close>

definition go_slice :: "bytes \<Rightarrow> bool" where
  "go_slice b \<longleftrightarrow> length b < 2 ^ 63"

definition echoes :: "(ID \<rightharpoonup> Round2P2P) \<Rightarrow> ID \<Rightarrow> ID \<Rightarrow> bytes \<Rightarrow> bool" where
  "echoes r2 i sender b \<longleftrightarrow> (\<exists>echo. r2 i = Some (Some echo) \<and> bytes_at (map_of echo) sender = b)"

definition go_r2 :: "(ID \<rightharpoonup> Round2P2P) \<Rightarrow> bool" where
  "go_r2 r2 \<longleftrightarrow> (\<forall>i sender b. echoes r2 i sender b \<longrightarrow> go_slice b)"

lemma echo_check_iff:
  assumes "go_slice message" "go_r2 r2"
  shows "echo_check r2 sender message ids = Inr () \<longleftrightarrow> (\<forall>i\<in>set ids. i \<noteq> sender \<longrightarrow> echoes r2 i sender message)"
proof (induction ids)
  case (Cons i ids)
  have "length (bytes_at (map_of echo) sender) < 2 ^ 63" if "r2 i = Some (Some echo)" for echo
    using assms(2) that by (auto simp: go_r2_def echoes_def go_slice_def)
  with Cons show ?case
    using assms(1) by (auto simp: echoes_def Round2P2P_Validate_def CompareBytes_eq go_slice_def split: option.splits)
qed simp

lemma echo_Round3_iff:
  assumes "go_r2 r2" "\<And>i. i \<in> set (coparties p) \<Longrightarrow> go_slice (bytes_at (ep_messages p) i)"
  shows "echo_Round3 decB p r2 = Inr out \<longleftrightarrow>
    (\<forall>i\<in>set (coparties p). \<forall>j\<in>set (coparties p). j \<noteq> i \<longrightarrow> echoes r2 j i (bytes_at (ep_messages p) i)) \<and>
    list_all2 (\<lambda>i (j, b). j = i \<and> decB (bytes_at (ep_messages p) i) = Inr b) (coparties p) out"
proof -
  let ?m = "\<lambda>i. bytes_at (ep_messages p) i"
  have check: "rbind (echo_check r2 i (?m i) (coparties p)) (\<lambda>_. Inr (i, ?m i)) = Inr y \<longleftrightarrow>
      y = (i, ?m i) \<and> (\<forall>j\<in>set (coparties p). j \<noteq> i \<longrightarrow> echoes r2 j i (?m i))" if "i \<in> set (coparties p)" for i y
    using echo_check_iff [OF assms(2) [OF that] assms(1)] by (auto simp: rbind_eq_Inr_iff simp del: coparties_set)
  have first: "MapOrError (\<lambda>i. rbind (echo_check r2 i (?m i) (coparties p)) (\<lambda>_. Inr (i, ?m i))) (coparties p) = Inr ys \<longleftrightarrow>
      ys = map (\<lambda>i. (i, ?m i)) (coparties p) \<and>
      (\<forall>i\<in>set (coparties p). \<forall>j\<in>set (coparties p). j \<noteq> i \<longrightarrow> echoes r2 j i (?m i))" for ys
    using check by (rule MapOrError_guard)
  have dec: "(\<lambda>i (j, b). j = i \<and> decB (?m i) = Inr b) = (\<lambda>i y. rbind (decB (?m i)) (\<lambda>b. Inr (i, b)) = Inr y)"
    by (intro ext) (auto simp: rbind_eq_Inr_iff)
  show ?thesis
    unfolding echo_Round3_def Let_def rbind_eq_Inr_iff [of "MapOrError _ (coparties p)"] first dec
    by (auto simp: MapOrError_Inr_iff list_all2_map1 simp del: coparties_set)
qed

text \<open>A run over a router is the three rounds on messages of exactly the other parties of the quorum.\<close>

lemma then_do_Inr: "then_do m f = (rt, Inr y) \<longleftrightarrow> (\<exists>rt' x. m = (rt', Inr x) \<and> f rt' x = (rt, Inr y))"
  by (cases m; cases "snd m") (auto simp: then_do_def)

lemma MapOrError_snd_keys:
  "MapOrError (\<lambda>(i, b). rbind (f b) (\<lambda>m. Inr (i, m))) xs = Inr ys \<Longrightarrow> map fst ys = map fst xs"
  by (induction xs arbitrary: ys) (auto simp: rbind_eq_Inr_iff)

lemma ReceiveUnicast_keys:
  assumes "ReceiveUnicast dec decM rt c Q = (rt', Inr ms)"
  shows "fst ` set ms = set Q - {rt_PartyID rt}" "distinct (map fst ms)"
proof -
  from assms obtain received where r: "ReceiveFrom dec rt c (hs_List (hs_Remove (hs_Clone Q) (rt_PartyID rt))) = (rt', Inr received)"
    and m: "MapOrError (\<lambda>(i, b). rbind (decM b) (\<lambda>m. Inr (i, m))) received = Inr ms"
    by (auto simp: ReceiveUnicast_def Let_def split: prod.splits sum.splits)
  from ReceiveFrom_ok [OF r] have "fst ` set received = set Q - {rt_PartyID rt}" "distinct (map fst received)"
    by (auto simp: Let_def hs_Clone_def)
  with MapOrError_snd_keys [OF m] show "fst ` set ms = set Q - {rt_PartyID rt}" "distinct (map fst ms)"
    by (metis list.set_map)+
qed

lemma echo_Run_rounds:
  assumes "echo_Run k p c message rt = (rt', Inr out)"
  shows "\<exists>p1 r1Out r2In p2 r2Out r3In.
    echo_Round1 (enc_B k) p message = (p1, Inr r1Out) \<and> echo_Round2 p1 (map_of r2In) = (p2, Inr r2Out) \<and>
    echo_Round3 (dec_B k) p2 (map_of r3In) = Inr out \<and> distinct (map fst r2In) \<and> distinct (map fst r3In)"
proof -
  from assms obtain p1 r1Out where r1: "echo_Round1 (enc_B k) p message = (p1, Inr r1Out)"
    by (auto simp: echo_Run_def split: prod.splits sum.splits)
  with assms obtain rt1 rt2 r2In
    where in2: "ReceiveUnicast (dec_router k) (dec_r1 k) rt1 (c @ '':EchoRound1P2P'') (ep_quorum p1) = (rt2, Inr r2In)"
      and rest: "(case echo_Round2 p1 (map_of r2In) of
             (p2, Inl e) \<Rightarrow> (rt2, Inl e)
           | (p2, Inr r2Out) \<Rightarrow>
               then_do (SendUnicast (enc_router k) (enc_r2 k) rt2 (c @ '':EchoRound2P2P'') r2Out) (\<lambda>rt _.
               then_do (ReceiveUnicast (dec_router k) (dec_r2 k) rt (c @ '':EchoRound2P2P'') (ep_quorum p2)) (\<lambda>rt r3In.
               (rt, echo_Round3 (dec_B k) p2 (map_of r3In))))) = (rt', Inr out)"
    by (auto simp: echo_Run_def then_do_Inr)
  from rest obtain p2 r2Out where r2: "echo_Round2 p1 (map_of r2In) = (p2, Inr r2Out)"
    by (auto split: prod.splits sum.splits)
  with rest obtain rt3 rt4 r3In
    where "ReceiveUnicast (dec_router k) (dec_r2 k) rt3 (c @ '':EchoRound2P2P'') (ep_quorum p2) = (rt4, Inr r3In)"
      "echo_Round3 (dec_B k) p2 (map_of r3In) = Inr out"
    by (auto simp: then_do_Inr)
  with r1 r2 ReceiveUnicast_keys(2) [OF in2] ReceiveUnicast_keys(2) show ?thesis by blast
qed

section \<open>A network of honest and corrupted parties\<close>

text \<open>
  The state of a session: what every honest party holds, how many rounds it has finished, what it sent
  in each round, and its output. Corrupted members of the quorum have no state: in a step of an
  honest party they may have sent anything, different things to different parties included. Channels are
  authenticated: what arrives in the name of an honest party was sent by it to the receiver.
\<close>

record 'b EchoSys =
  es_party :: "ID \<Rightarrow> EchoParticipant"
  es_phase :: "ID \<Rightarrow> nat"
  es_sent1 :: "ID \<Rightarrow> (ID \<times> Round1P2P) list"
  es_sent2 :: "ID \<Rightarrow> (ID \<times> Round2P2P) list"
  es_out :: "ID \<Rightarrow> (ID \<times> 'b) list option"

definition authentic :: "ID set \<Rightarrow> (ID \<Rightarrow> (ID \<times> 'm) list) \<Rightarrow> ID \<Rightarrow> (ID \<rightharpoonup> 'm) \<Rightarrow> bool" where
  "authentic H sent p r \<longleftrightarrow> (\<forall>q\<in>H. q \<noteq> p \<longrightarrow> r q = None \<or> r q = map_of (sent q) p)"

definition go_r1 :: "(ID \<rightharpoonup> Round1P2P) \<Rightarrow> bool" where
  "go_r1 r1 \<longleftrightarrow> (\<forall>i b. r1 i = Some (Some b) \<longrightarrow> go_slice b)"

definition echo_init :: "ID hset \<Rightarrow> 'b EchoSys" where
  "echo_init Q = \<lparr>es_party = (\<lambda>i. \<lparr>ep_sharingID = i, ep_quorum = Q, ep_messages = Map.empty\<rparr>),
     es_phase = (\<lambda>_. 0), es_sent1 = (\<lambda>_. []), es_sent2 = (\<lambda>_. []), es_out = (\<lambda>_. None)\<rparr>"

inductive echo_step :: "('b \<Rightarrow> bytes res) \<Rightarrow> (bytes \<Rightarrow> 'b res) \<Rightarrow> ID set \<Rightarrow> (ID \<Rightarrow> 'b) \<Rightarrow> 'b EchoSys \<Rightarrow> 'b EchoSys \<Rightarrow> bool"
  for encB :: "'b \<Rightarrow> bytes res" and decB :: "bytes \<Rightarrow> 'b res" and H :: "ID set" and msg :: "ID \<Rightarrow> 'b" where
  round1: "p \<in> H \<Longrightarrow> es_phase s p = 0 \<Longrightarrow> echo_Round1 encB (es_party s p) (msg p) = (p', Inr out) \<Longrightarrow>
     echo_step encB decB H msg s (s\<lparr>es_party := (es_party s)(p := p'), es_phase := (es_phase s)(p := 1),
       es_sent1 := (es_sent1 s)(p := out)\<rparr>)"
| round2: "p \<in> H \<Longrightarrow> es_phase s p = 1 \<Longrightarrow> authentic H (es_sent1 s) p r1 \<Longrightarrow> go_r1 r1 \<Longrightarrow>
     echo_Round2 (es_party s p) r1 = (p', Inr out) \<Longrightarrow>
     echo_step encB decB H msg s (s\<lparr>es_party := (es_party s)(p := p'), es_phase := (es_phase s)(p := 2),
       es_sent2 := (es_sent2 s)(p := out)\<rparr>)"
| round3: "p \<in> H \<Longrightarrow> es_phase s p = 2 \<Longrightarrow> authentic H (es_sent2 s) p r2 \<Longrightarrow> go_r2 r2 \<Longrightarrow>
     echo_Round3 decB (es_party s p) r2 = Inr out \<Longrightarrow>
     echo_step encB decB H msg s (s\<lparr>es_phase := (es_phase s)(p := 3), es_out := (es_out s)(p := Some out)\<rparr>)"

inductive echo_reach :: "('b \<Rightarrow> bytes res) \<Rightarrow> (bytes \<Rightarrow> 'b res) \<Rightarrow> ID hset \<Rightarrow> ID set \<Rightarrow> (ID \<Rightarrow> 'b) \<Rightarrow> 'b EchoSys \<Rightarrow> bool"
  for encB :: "'b \<Rightarrow> bytes res" and decB :: "bytes \<Rightarrow> 'b res" and Q :: "ID hset" and H :: "ID set" and msg :: "ID \<Rightarrow> 'b" where
  start: "echo_reach encB decB Q H msg (echo_init Q)"
| step: "echo_reach encB decB Q H msg s \<Longrightarrow> echo_step encB decB H msg s t \<Longrightarrow> echo_reach encB decB Q H msg t"

text \<open>
  The invariant, by party: the identity of the participant, what it sent in round 1, its view after round 2 (the
  payload of every other party, the right one for an honest sender, and the echo it sent), and what its output rests on.
\<close>

definition first_ok :: "('b \<Rightarrow> bytes res) \<Rightarrow> ID hset \<Rightarrow> (ID \<Rightarrow> 'b) \<Rightarrow> 'b EchoSys \<Rightarrow> ID \<Rightarrow> bool" where
  "first_ok encB Q msg s p \<longleftrightarrow>
     ep_sharingID (es_party s p) = p \<and> ep_quorum (es_party s p) = Q \<and>
     (if es_phase s p = 0 then es_sent1 s p = []
      else \<exists>ser. encB (msg p) = Inr ser \<and> es_sent1 s p = map (\<lambda>i. (i, Some ser)) (filter (\<lambda>i. i \<noteq> p) Q))"

definition view_ok :: "('b \<Rightarrow> bytes res) \<Rightarrow> ID hset \<Rightarrow> ID set \<Rightarrow> (ID \<Rightarrow> 'b) \<Rightarrow> 'b EchoSys \<Rightarrow> ID \<Rightarrow> bool" where
  "view_ok encB Q H msg s p \<longleftrightarrow>
     (if es_phase s p < 2 then es_sent2 s p = []
      else (\<forall>i\<in>set Q - {p}. \<exists>b. ep_messages (es_party s p) i = Some b \<and> go_slice b \<and> (i \<in> H \<longrightarrow> encB (msg i) = Inr b)) \<and>
        (\<exists>rec. es_sent2 s p = map (\<lambda>i. (i, Some rec)) (filter (\<lambda>i. i \<noteq> p) Q) \<and>
           (\<forall>i\<in>set Q - {p}. map_of rec i = ep_messages (es_party s p) i) \<and>
           (\<forall>i. i \<notin> set Q - {p} \<longrightarrow> map_of rec i = None)))"

definition out_ok :: "(bytes \<Rightarrow> 'b res) \<Rightarrow> ID hset \<Rightarrow> ID set \<Rightarrow> 'b EchoSys \<Rightarrow> ID \<Rightarrow> bool" where
  "out_ok decB Q H s p \<longleftrightarrow>
     (case es_out s p of
        None \<Rightarrow> es_phase s p < 3
      | Some out \<Rightarrow> es_phase s p = 3 \<and>
          list_all2 (\<lambda>i (j, b). j = i \<and> decB (bytes_at (ep_messages (es_party s p)) i) = Inr b) (filter (\<lambda>i. i \<noteq> p) Q) out \<and>
          (\<forall>q\<in>H - {p}. \<forall>i\<in>set Q - {p, q}.
             2 \<le> es_phase s q \<and> ep_messages (es_party s q) i = ep_messages (es_party s p) i))"

definition echo_inv ::
  "('b \<Rightarrow> bytes res) \<Rightarrow> (bytes \<Rightarrow> 'b res) \<Rightarrow> ID hset \<Rightarrow> ID set \<Rightarrow> (ID \<Rightarrow> 'b) \<Rightarrow> 'b EchoSys \<Rightarrow> bool" where
  "echo_inv encB decB Q H msg s \<longleftrightarrow>
     (\<forall>p\<in>H. first_ok encB Q msg s p \<and> view_ok encB Q H msg s p \<and> out_ok decB Q H s p)"

lemma echo_inv_init: "echo_inv encB decB Q H msg (echo_init Q)"
  by (simp add: echo_inv_def echo_init_def first_ok_def view_ok_def out_ok_def)

lemma coparties_eq: "first_ok encB Q msg s p \<Longrightarrow> coparties (es_party s p) = filter (\<lambda>i. i \<noteq> p) Q"
  by (simp add: first_ok_def coparties_def)

text \<open>A party that has not finished round 2 can move on without touching what the outputs rest on.\<close>

lemma out_okD:
  assumes "out_ok decB Q H s p" "es_out s p = Some out"
  shows "es_phase s p = 3"
    and "list_all2 (\<lambda>i (j, b). j = i \<and> decB (bytes_at (ep_messages (es_party s p)) i) = Inr b) (filter (\<lambda>i. i \<noteq> p) Q) out"
    and "q \<in> H \<Longrightarrow> q \<noteq> p \<Longrightarrow> i \<in> set Q \<Longrightarrow> i \<noteq> p \<Longrightarrow> i \<noteq> q \<Longrightarrow>
           2 \<le> es_phase s q \<and> ep_messages (es_party s q) i = ep_messages (es_party s p) i"
  using assms by (simp_all add: out_ok_def)

lemma out_ok_early:
  assumes ok: "out_ok decB Q H s q" and p: "p \<in> H" "es_phase s p < 2" "n \<le> 2"
    and t: "es_party t = (es_party s)(p := p')" "es_phase t = (es_phase s)(p := n)" "es_out t = es_out s"
  shows "out_ok decB Q H t q"
proof (cases "es_out s q")
  case None
  with ok p t show ?thesis by (simp add: out_ok_def)
next
  case (Some out)
  note old = out_okD [OF ok Some]
  have qp: "q \<noteq> p" using old(1) p(2) by auto
  have "\<not> (i \<in> set Q \<and> i \<noteq> q \<and> i \<noteq> p)" for i using old(3) [of p i] p qp by auto
  then have "q' = q \<or> i \<notin> set Q \<or> i \<in> {q, q'} \<or> q' \<noteq> p" for q' i by auto
  with old qp Some t show ?thesis unfolding out_ok_def by auto
qed

lemma round1_inv:
  assumes inv: "echo_inv encB decB Q H msg s" and p: "p \<in> H" and ph: "es_phase s p = 0"
    and r: "echo_Round1 encB (es_party s p) (msg p) = (p', Inr out)"
  shows "echo_inv encB decB Q H msg (s\<lparr>es_party := (es_party s)(p := p'), es_phase := (es_phase s)(p := 1),
       es_sent1 := (es_sent1 s)(p := out)\<rparr>)" (is "echo_inv _ _ _ _ _ ?t")
proof -
  from r inv p obtain ser where ser: "encB (msg p) = Inr ser" and p': "ep_sharingID p' = p" "ep_quorum p' = Q"
    and out: "out = map (\<lambda>i. (i, Some ser)) (filter (\<lambda>i. i \<noteq> p) Q)"
    by (auto simp: echo_Round1_def echo_inv_def first_ok_def coparties_def split: sum.splits)
  show ?thesis
    unfolding echo_inv_def
  proof (intro ballI conjI)
    fix q assume q: "q \<in> H"
    then have old: "first_ok encB Q msg s q" "view_ok encB Q H msg s q" "out_ok decB Q H s q"
      using inv by (auto simp: echo_inv_def)
    show "first_ok encB Q msg ?t q" using old(1) ser p' out by (cases "q = p") (auto simp: first_ok_def)
    show "view_ok encB Q H msg ?t q" using old(2) ph by (cases "q = p") (auto simp: view_ok_def)
    show "out_ok decB Q H ?t q"
      by (rule out_ok_early [OF old(3) p]) (use ph in simp_all)
  qed
qed

lemma round2_inv:
  assumes inv: "echo_inv encB decB Q H msg s" and p: "p \<in> H" and ph: "es_phase s p = 1"
    and auth: "authentic H (es_sent1 s) p r1" and go: "go_r1 r1" and H: "H \<subseteq> set Q"
    and r: "echo_Round2 (es_party s p) r1 = (p', Inr out)"
  shows "echo_inv encB decB Q H msg (s\<lparr>es_party := (es_party s)(p := p'), es_phase := (es_phase s)(p := 2),
       es_sent2 := (es_sent2 s)(p := out)\<rparr>)" (is "echo_inv _ _ _ _ _ ?t")
proof -
  have first: "first_ok encB Q msg s i" if "i \<in> H" for i using inv that by (auto simp: echo_inv_def)
  note cop = coparties_eq [OF first [OF p]]
  from echo_Round2_ok [OF r] cop first [OF p] obtain rec where p': "ep_sharingID p' = p" "ep_quorum p' = Q"
    and msgs: "\<And>i. i \<in> set Q - {p} \<Longrightarrow> \<exists>b. r1 i = Some (Some b) \<and> ep_messages p' i = Some b"
    and out: "out = map (\<lambda>i. (i, Some rec)) (filter (\<lambda>i. i \<noteq> p) Q)"
      "\<forall>i\<in>set Q - {p}. map_of rec i = ep_messages p' i" "\<forall>i. i \<notin> set Q - {p} \<longrightarrow> map_of rec i = None"
    by (auto simp: first_ok_def)
  have view: "\<exists>b. ep_messages p' i = Some b \<and> go_slice b \<and> (i \<in> H \<longrightarrow> encB (msg i) = Inr b)" if i: "i \<in> set Q - {p}" for i
  proof -
    from msgs [OF i] obtain b where b: "r1 i = Some (Some b)" "ep_messages p' i = Some b" by blast
    have "encB (msg i) = Inr b" if "i \<in> H"
    proof -
      from auth that i b have "map_of (es_sent1 s i) p = Some (Some b)" by (auto simp: authentic_def)
      with first [OF that] show ?thesis by (auto simp: first_ok_def map_of_const split: if_splits)
    qed
    with b go show ?thesis by (auto simp: go_r1_def)
  qed
  show ?thesis
    unfolding echo_inv_def
  proof (intro ballI conjI)
    fix q assume q: "q \<in> H"
    then have old: "first_ok encB Q msg s q" "view_ok encB Q H msg s q" "out_ok decB Q H s q"
      using inv by (auto simp: echo_inv_def)
    show "first_ok encB Q msg ?t q" using old(1) p' ph by (cases "q = p") (auto simp: first_ok_def)
    show "view_ok encB Q H msg ?t q" using old(2) view out by (cases "q = p") (auto simp: view_ok_def)
    show "out_ok decB Q H ?t q"
      by (rule out_ok_early [OF old(3) p]) (use ph in simp_all)
  qed
qed

lemma round3_inv:
  assumes inv: "echo_inv encB decB Q H msg s" and p: "p \<in> H" and ph: "es_phase s p = 2"
    and auth: "authentic H (es_sent2 s) p r2" and go: "go_r2 r2" and H: "H \<subseteq> set Q"
    and r: "echo_Round3 decB (es_party s p) r2 = Inr out"
  shows "echo_inv encB decB Q H msg (s\<lparr>es_phase := (es_phase s)(p := 3), es_out := (es_out s)(p := Some out)\<rparr>)"
    (is "echo_inv _ _ _ _ _ ?t")
proof -
  have first: "first_ok encB Q msg s i" and view: "view_ok encB Q H msg s i" if "i \<in> H" for i
    using inv that by (auto simp: echo_inv_def)
  note cop = coparties_eq [OF first [OF p]]
  have msgs: "\<exists>b. ep_messages (es_party s p) i = Some b \<and> go_slice b" if "i \<in> set Q - {p}" for i
    using view [OF p] ph that by (auto simp: view_ok_def)
  then have "go_slice (bytes_at (ep_messages (es_party s p)) i)" if "i \<in> set (coparties (es_party s p))" for i
    using that cop by (fastforce simp: bytes_at_def)
  from iffD1 [OF echo_Round3_iff [OF go this] r] cop
  have echoed: "\<And>i q. i \<in> set Q - {p} \<Longrightarrow> q \<in> set Q - {p} \<Longrightarrow> q \<noteq> i \<Longrightarrow> echoes r2 q i (bytes_at (ep_messages (es_party s p)) i)"
    and out: "list_all2 (\<lambda>i (j, b). j = i \<and> decB (bytes_at (ep_messages (es_party s p)) i) = Inr b) (filter (\<lambda>i. i \<noteq> p) Q) out"
    by auto
  have agree: "2 \<le> es_phase s q \<and> ep_messages (es_party s q) i = ep_messages (es_party s p) i"
    if q: "q \<in> H - {p}" and i: "i \<in> set Q - {p, q}" for q i
  proof -
    from echoed [of i q] q i H obtain e where e: "r2 q = Some (Some e)" "bytes_at (map_of e) i = bytes_at (ep_messages (es_party s p)) i"
      by (auto simp: echoes_def)
    with auth q have sent: "map_of (es_sent2 s q) p = Some (Some e)" by (auto simp: authentic_def)
    with view [of q] q have ph2: "2 \<le> es_phase s q" by (auto simp: view_ok_def split: if_splits)
    with view [of q] q sent i have "map_of e i = ep_messages (es_party s q) i" 
      and "\<exists>b. ep_messages (es_party s q) i = Some b"
      by (auto simp: view_ok_def map_of_const split: if_splits)
    with e(2) msgs [of i] i ph2 show ?thesis by (auto simp: bytes_at_def)
  qed
  show ?thesis
    unfolding echo_inv_def
  proof (intro ballI conjI)
    fix q assume q: "q \<in> H"
    then have old: "first_ok encB Q msg s q" "view_ok encB Q H msg s q" "out_ok decB Q H s q"
      using inv by (auto simp: echo_inv_def)
    show "first_ok encB Q msg ?t q" using old(1) ph by (cases "q = p") (auto simp: first_ok_def)
    show "view_ok encB Q H msg ?t q" using old(2) ph by (cases "q = p") (auto simp: view_ok_def)
    show "out_ok decB Q H ?t q"
    proof (cases "q = p")
      case True
      with out agree show ?thesis by (simp add: out_ok_def)
    next
      case False
      show ?thesis
      proof (cases "es_out s q")
        case (Some o')
        note d = out_okD [OF old(3) Some]
        from d(1,2) show ?thesis using d(3) False Some ph unfolding out_ok_def by auto
      qed (use old(3) False in \<open>simp add: out_ok_def\<close>)
    qed
  qed
qed

lemma view_okD:
  assumes "view_ok encB Q H msg s p" "2 \<le> es_phase s p"
  shows "i \<in> set Q \<Longrightarrow> i \<noteq> p \<Longrightarrow>
           \<exists>b. ep_messages (es_party s p) i = Some b \<and> go_slice b \<and> (i \<in> H \<longrightarrow> encB (msg i) = Inr b)"
    and "\<exists>rec. es_sent2 s p = map (\<lambda>i. (i, Some rec)) (filter (\<lambda>i. i \<noteq> p) Q) \<and>
           (\<forall>i. map_of rec i = (if i \<in> set Q - {p} then ep_messages (es_party s p) i else None))"
  using assms by (auto simp: view_ok_def)

lemma echo_reach_inv: "echo_reach encB decB Q H msg s \<Longrightarrow> H \<subseteq> set Q \<Longrightarrow> echo_inv encB decB Q H msg s"
proof (induction rule: echo_reach.induct)
  case (step s t)
  then have inv: "echo_inv encB decB Q H msg s" by simp
  from step.hyps(2) show ?case
  proof cases
    case round1
    from round1_inv [OF inv round1(2-4)] round1(1) show ?thesis by (simp only:)
  next
    case round2
    from round2_inv [OF inv round2(2-5) step.prems round2(6)] round2(1) show ?thesis by (simp only:)
  next
    case round3
    from round3_inv [OF inv round3(2-5) step.prems round3(6)] round3(1) show ?thesis by (simp only:)
  qed
qed (rule echo_inv_init)

lemma out_lookup:
  "list_all2 (\<lambda>i (j, b). j = i \<and> f i = Inr b) ids out \<Longrightarrow> i \<in> set ids \<Longrightarrow> \<exists>b. f i = Inr b \<and> map_of out i = Some b"
  by (induction ids out rule: list_all2_induct) auto

lemma out_lookup_None:
  "list_all2 (\<lambda>i (j, b). j = i \<and> f i = Inr b) ids out \<Longrightarrow> i \<notin> set ids \<Longrightarrow> map_of out i = None"
  by (induction ids out rule: list_all2_induct) auto

text \<open>What an output of a party rests on, read off the invariant.\<close>

lemma echo_output:
  assumes reach: "echo_reach encB decB Q H msg s" and H: "H \<subseteq> set Q" and p: "p \<in> H" and out: "es_out s p = Some out"
    and i: "i \<in> set Q" "i \<noteq> p"
  shows "\<exists>ser b. ep_messages (es_party s p) i = Some ser \<and> decB ser = Inr b \<and> map_of out i = Some b \<and>
           (i \<in> H \<longrightarrow> encB (msg i) = Inr ser)"
proof -
  from echo_reach_inv [OF reach H] p have view: "view_ok encB Q H msg s p" and ok: "out_ok decB Q H s p"
    by (auto simp: echo_inv_def)
  note d = out_okD [OF ok out]
  from view_okD(1) [OF view _ i] d(1) obtain ser
    where "ep_messages (es_party s p) i = Some ser" "i \<in> H \<longrightarrow> encB (msg i) = Inr ser" by auto
  with out_lookup [OF d(2), of i] i show ?thesis by (auto simp: bytes_at_def)
qed

section \<open>Progress\<close>

lemma echo_step_phase:
  assumes "echo_step encB decB H msg s t"
  shows "\<exists>p\<in>H. es_phase s p < 3 \<and> es_phase t = (es_phase s)(p := Suc (es_phase s p))"
  using assms
proof cases
  case (round1 p p' out)
  then show ?thesis by (intro bexI [of _ p]) simp_all
next
  case (round2 p r1 p' out)
  then show ?thesis by (intro bexI [of _ p]) (simp_all add: numeral_2_eq_2)
next
  case (round3 p r2 out)
  then show ?thesis by (intro bexI [of _ p]) (simp_all add: numeral_2_eq_2 numeral_3_eq_3)
qed

lemma echo_steps_bounded:
  assumes "((echo_step encB decB H msg) ^^ n) (echo_init Q) s" "finite H"
  shows "(\<Sum>p\<in>H. es_phase s p) = n \<and> (\<forall>p\<in>H. es_phase s p \<le> 3)"
  using assms
proof (induction n arbitrary: s)
  case 0
  then show ?case by (auto simp: echo_init_def)
next
  case (Suc n)
  then obtain r where r: "((echo_step encB decB H msg) ^^ n) (echo_init Q) r" and st: "echo_step encB decB H msg r s" by auto
  from echo_step_phase [OF st] obtain p where p: "p \<in> H" "es_phase r p < 3" "es_phase s = (es_phase r)(p := Suc (es_phase r p))"
    by blast
  from Suc.IH [OF r Suc.prems(2)] have "(\<Sum>p\<in>H. es_phase r p) = n" "\<forall>p\<in>H. es_phase r p \<le> 3" by simp_all
  moreover have "(\<Sum>q\<in>H. es_phase s q) = Suc (\<Sum>q\<in>H. es_phase r q)"
    using p Suc.prems(2) by (simp add: sum.remove [of H p])
  ultimately show ?case using p by auto
qed

lemma echo_steps_reach: "((echo_step encB decB H msg) ^^ n) (echo_init Q) s \<Longrightarrow> echo_reach encB decB Q H msg s"
  by (induction n arbitrary: s) (auto intro: echo_reach.intros)

text \<open>A party of least phase in an honest quorum finds the messages it waits for.\<close>

lemma echo_progress:
  assumes inv: "echo_inv encB decB Q (set Q) msg s" and p: "p \<in> set Q" "es_phase s p < 3"
    and least: "\<And>q. q \<in> set Q \<Longrightarrow> es_phase s p \<le> es_phase s q"
    and codec: "\<And>q. q \<in> set Q \<Longrightarrow> \<exists>ser. encB (msg q) = Inr ser \<and> go_slice ser \<and> decB ser = Inr (msg q)"
  shows "\<exists>t. echo_step encB decB (set Q) msg s t"
proof -
  have first: "first_ok encB Q msg s q" and view: "view_ok encB Q (set Q) msg s q" if "q \<in> set Q" for q
    using inv that by (auto simp: echo_inv_def)
  note cop = coparties_eq [OF first [OF p(1)]]
  consider "es_phase s p = 0" | "es_phase s p = 1" | "es_phase s p = 2" using p(2) by linarith
  then show ?thesis
  proof cases
    case 1
    from codec [OF p(1)] have "\<exists>p' out. echo_Round1 encB (es_party s p) (msg p) = (p', Inr out)"
      by (auto simp: echo_Round1_def)
    with 1 p show ?thesis by (blast intro: echo_step.round1)
  next
    case 2
    define r1 where "r1 q = (if q \<in> set Q then map_of (es_sent1 s q) p else None)" for q
    have r1: "\<exists>ser. r1 q = Some (Some ser) \<and> go_slice ser" if "q \<in> set Q - {p}" for q
      using first [of q] least [of q] codec [of q] that 2 p by (auto simp: first_ok_def r1_def map_of_const split: if_splits)
    have "r1 p = None" using first [OF p(1)] by (auto simp: r1_def first_ok_def map_of_const split: if_splits)
    with r1 have "go_r1 r1" unfolding go_r1_def by (metis Diff_iff empty_iff insert_iff option.distinct(1) option.inject r1_def)
    moreover have "authentic (set Q) (es_sent1 s) p r1" by (simp add: authentic_def r1_def)
    moreover have "\<exists>p' out. echo_Round2 (es_party s p) r1 = (p', Inr out)"
      using r1 cop by (intro echo_Round2_succeeds) fastforce
    ultimately show ?thesis using 2 p by (blast intro: echo_step.round2)
  next
    case 3
    define r2 where "r2 q = (if q \<in> set Q then map_of (es_sent2 s q) p else None)" for q
    have view2: "view_ok encB Q (set Q) msg s q" "2 \<le> es_phase s q" if "q \<in> set Q" for q
      using view least that 3 by force+
    have msgs: "\<exists>ser. ep_messages (es_party s q) i = Some ser \<and> encB (msg i) = Inr ser \<and> go_slice ser \<and> decB ser = Inr (msg i)"
      if "q \<in> set Q" "i \<in> set Q" "i \<noteq> q" for q i
      using view_okD(1) [OF view2 [OF that(1)] that(2,3)] codec [OF that(2)] that(2) by auto

    have r2: "\<exists>rec. r2 q = Some (Some rec) \<and> (\<forall>i. map_of rec i = (if i \<in> set Q - {q} then ep_messages (es_party s q) i else None))"
      if "q \<in> set Q - {p}" for q
      using view_okD(2) [OF view2, of q] that p by (auto simp: r2_def map_of_const)
    have r2p: "r2 q = None" if "q \<notin> set Q - {p}" for q
      using view_okD(2) [OF view2, of q] that by (auto simp: r2_def map_of_const)
    have ech: "echoes r2 q i (bytes_at (ep_messages (es_party s p)) i)" if "q \<in> set Q - {p}" "i \<in> set Q - {p}" "q \<noteq> i" for q i
      using r2 [OF that(1)] msgs [of q i] msgs [of p i] that p by (auto simp: echoes_def bytes_at_def)
    have go: "go_r2 r2"
      unfolding go_r2_def
    proof (intro allI impI)
      fix q i b assume "echoes r2 q i b"
      then obtain e where e: "r2 q = Some (Some e)" "b = bytes_at (map_of e) i" by (auto simp: echoes_def)
      then have q: "q \<in> set Q - {p}" using r2p by force
      with r2 [OF q] e have "b = (case (if i \<in> set Q - {q} then ep_messages (es_party s q) i else None) of None \<Rightarrow> [] | Some b \<Rightarrow> b)"
        by (auto simp: bytes_at_def)
      with msgs [of q i] q show "go_slice b" by (auto simp: go_slice_def split: if_splits)
    qed
    have sl: "go_slice (bytes_at (ep_messages (es_party s p)) i)" if "i \<in> set (coparties (es_party s p))" for i
      using msgs [of p i] that p cop by (auto simp: bytes_at_def)
    have at: "decB (bytes_at (ep_messages (es_party s p)) i) = Inr (msg i)" if "i \<in> set Q" "i \<noteq> p" for i
      using msgs [OF p(1) that] by (auto simp: bytes_at_def)
    have "list_all2 (\<lambda>i (j, b). j = i \<and> decB (bytes_at (ep_messages (es_party s p)) i) = Inr b) (coparties (es_party s p))
        (map (\<lambda>i. (i, msg i)) (coparties (es_party s p)))"
      unfolding list_all2_map2 using at cop by (auto intro!: list.rel_refl_strong)
    then have "\<exists>out. echo_Round3 decB (es_party s p) r2 = Inr out"
      using echo_Round3_iff [OF go sl] ech cop by auto
    moreover have "authentic (set Q) (es_sent2 s) p r2" by (simp add: authentic_def r2_def)
    ultimately show ?thesis using 3 p go by (blast intro: echo_step.round3)
  qed
qed

section \<open>Main results\<close>

text \<open>
  The interface of a consistent broadcast as its clients use it: in every state of a session the outputs of two honest
  parties agree on every third party. Then there is one view of the session of which every honest output is a part.
\<close>

locale consistent_broadcast =
  fixes honest :: "ID set" and parties :: "ID set" and session :: "'s \<Rightarrow> bool" and accepted :: "'s \<Rightarrow> ID \<Rightarrow> (ID \<rightharpoonup> 'b) option"
  assumes agreement: "session s \<Longrightarrow> p \<in> honest \<Longrightarrow> q \<in> honest \<Longrightarrow> accepted s p = Some f \<Longrightarrow> accepted s q = Some g \<Longrightarrow>
      i \<in> parties \<Longrightarrow> i \<noteq> p \<Longrightarrow> i \<noteq> q \<Longrightarrow> f i = g i"
    and complete: "session s \<Longrightarrow> p \<in> honest \<Longrightarrow> accepted s p = Some f \<Longrightarrow> i \<in> parties \<Longrightarrow> i \<noteq> p \<Longrightarrow> \<exists>b. f i = Some b"
begin

lemma common_view:
  assumes "session s"
  shows "\<exists>view. \<forall>p\<in>honest. \<forall>f. accepted s p = Some f \<longrightarrow> (\<forall>i\<in>parties - {p}. f i = Some (view i))"
proof -
  define view where "view i = (SOME b. \<exists>p\<in>honest. \<exists>f. accepted s p = Some f \<and> i \<noteq> p \<and> f i = Some b)" for i
  have "f i = Some (view i)" if p: "p \<in> honest" "accepted s p = Some f" and i: "i \<in> parties" "i \<noteq> p" for p f i
  proof -
    from complete [OF assms p i] obtain b where "f i = Some b" by blast
    with p i have "\<exists>b. \<exists>p\<in>honest. \<exists>f. accepted s p = Some f \<and> i \<noteq> p \<and> f i = Some b" by blast
    then have "\<exists>p\<in>honest. \<exists>f. accepted s p = Some f \<and> i \<noteq> p \<and> f i = Some (view i)"
      unfolding view_def by (rule someI_ex)
    then obtain q g where "q \<in> honest" "accepted s q = Some g" "i \<noteq> q" "g i = Some (view i)" by blast
    with agreement [OF assms p(1) _ p(2), of q g i] i show ?thesis by simp
  qed
  then show ?thesis by blast
qed

end

lemma echo_agree:
  assumes reach: "echo_reach encB decB Q H msg s" and H: "H \<subseteq> set Q" and pq: "p \<in> H" "q \<in> H"
    and out: "es_out s p = Some f" "es_out s q = Some g" and i: "i \<in> set Q" "i \<noteq> p" "i \<noteq> q"
  shows "map_of f i = map_of g i"
proof (cases "p = q")
  case False
  from echo_reach_inv [OF reach H] pq have "out_ok decB Q H s p" by (simp add: echo_inv_def)
  from out_okD(3) [OF this out(1), of q i] False pq i
  have "ep_messages (es_party s q) i = ep_messages (es_party s p) i" by simp
  with echo_output [OF reach H pq(1) out(1) i(1,2)] echo_output [OF reach H pq(2) out(2) i(1,3)] show ?thesis by auto
qed (use out in simp)

text \<open>The echo broadcast of any codec, quorum and honest parties is such a broadcast.\<close>

definition echo_honest :: "ID hset \<Rightarrow> ID set \<Rightarrow> ID set" where
  "echo_honest Q H = H \<inter> set Q"

interpretation echo: consistent_broadcast "echo_honest Q H" "set Q" "echo_reach encB decB Q (echo_honest Q H) msg"
  "\<lambda>s p. map_option map_of (es_out s p)"
  for encB :: "'b \<Rightarrow> bytes res" and decB :: "bytes \<Rightarrow> 'b res" and Q :: "ID hset" and H :: "ID set" and msg :: "ID \<Rightarrow> 'b"
proof unfold_locales
  fix s p q i f g
  assume s: "echo_reach encB decB Q (echo_honest Q H) msg s" and p: "p \<in> echo_honest Q H"
    and f: "map_option map_of (es_out s p) = Some f" and i: "i \<in> set Q" "i \<noteq> p"
  have H: "echo_honest Q H \<subseteq> set Q" by (simp add: echo_honest_def)
  from f obtain out where out: "es_out s p = Some out" "f = map_of out" by auto
  show "\<exists>b. f i = Some b" using echo_output [OF s H p out(1) i] out(2) by auto
  assume q: "q \<in> echo_honest Q H" "map_option map_of (es_out s q) = Some g" "i \<noteq> q"
  then obtain out' where out': "es_out s q = Some out'" "g = map_of out'" by auto
  show "f i = g i" using echo_agree [OF s H p q(1) out(1) out'(1) i q(3)] out(2) out'(2) by simp
qed

text \<open>A run of an honest quorum ends with every message accepted.\<close>

definition all_accept :: "ID hset \<Rightarrow> (ID \<Rightarrow> 'b) \<Rightarrow> 'b EchoSys \<Rightarrow> bool" where
  "all_accept Q msg s \<longleftrightarrow> (\<forall>p\<in>set Q. es_out s p = Some (map (\<lambda>i. (i, msg i)) (filter (\<lambda>i. i \<noteq> p) Q)))"

definition good_codec :: "('b \<Rightarrow> bytes res) \<Rightarrow> (bytes \<Rightarrow> 'b res) \<Rightarrow> ID hset \<Rightarrow> (ID \<Rightarrow> 'b) \<Rightarrow> bool" where
  "good_codec encB decB Q msg \<longleftrightarrow> (\<forall>q\<in>set Q. \<exists>ser. encB (msg q) = Inr ser \<and> go_slice ser \<and> decB ser = Inr (msg q))"

lemma echo_finished:
  assumes reach: "echo_reach encB decB Q (set Q) msg s" and codec: "good_codec encB decB Q msg"
    and p: "p \<in> set Q" "es_phase s p = 3"
  shows "es_out s p = Some (map (\<lambda>i. (i, msg i)) (filter (\<lambda>i. i \<noteq> p) Q))"
proof -
  from echo_reach_inv [OF reach] p have ok: "out_ok decB Q (set Q) s p" by (simp add: echo_inv_def)
  with p obtain out where out: "es_out s p = Some out" by (cases "es_out s p") (auto simp: out_ok_def)
  let ?ids = "filter (\<lambda>i. i \<noteq> p) Q"
  have val: "decB (bytes_at (ep_messages (es_party s p)) i) = Inr (msg i)" if "i \<in> set ?ids" for i
  proof -
    from that have i: "i \<in> set Q" "i \<noteq> p" by auto
    from codec i obtain ser where "encB (msg i) = Inr ser" "decB ser = Inr (msg i)" by (auto simp: good_codec_def)
    with echo_output [OF reach subset_refl p(1) out i] i show ?thesis by (auto simp: bytes_at_def)
  qed
  from out_okD(2) [OF ok out] have "list_all2 (\<lambda>i x. x = (i, msg i)) ?ids out"
    by (rule list.rel_mono_strong) (use val in auto)
  then have "out = map (\<lambda>i. (i, msg i)) ?ids" by (auto simp: list_all2_conv_all_nth intro!: nth_equalityI)
  with out show ?thesis by simp
qed

lemma echo_stuck_free:
  assumes reach: "echo_reach encB decB Q (set Q) msg s" and codec: "good_codec encB decB Q msg"
    and le: "\<forall>p\<in>set Q. es_phase s p \<le> 3"
  shows "all_accept Q msg s \<or> (\<exists>t. echo_step encB decB (set Q) msg s t)"
proof (cases "\<forall>p\<in>set Q. es_phase s p = 3")
  case True
  with echo_finished [OF reach codec] show ?thesis by (simp add: all_accept_def)
next
  case False
  define p where "p = arg_min_on (es_phase s) (set Q)"
  have ne: "set Q \<noteq> {}" using False by auto
  have p: "p \<in> set Q" unfolding p_def by (rule arg_min_if_finite(1) [OF finite_set ne])
  have least: "es_phase s p \<le> es_phase s q" if "q \<in> set Q" for q
    unfolding p_def by (rule arg_min_least [OF finite_set ne that])
  from False obtain q where "q \<in> set Q" "es_phase s q \<noteq> 3" by blast
  with le least [of q] have "es_phase s p < 3" by force
  from echo_progress [OF echo_reach_inv [OF reach subset_refl] p this least] codec show ?thesis
    unfolding good_codec_def by blast
qed

lemma echo_completes:
  assumes "good_codec encB decB Q msg"
  shows "\<exists>s. echo_reach encB decB Q (set Q) msg s \<and> all_accept Q msg s"
proof -
  let ?step = "echo_step encB decB (set Q) msg"
  have "\<exists>s. echo_reach encB decB Q (set Q) msg s \<and> all_accept Q msg s"
    if "(?step ^^ n) (echo_init Q) s" "3 * card (set Q) - n = k" for n s k
    using that
  proof (induction k arbitrary: n s rule: less_induct)
    case (less k)
    from echo_steps_bounded [OF less.prems(1)] have n: "(\<Sum>p\<in>set Q. es_phase s p) = n" "\<forall>p\<in>set Q. es_phase s p \<le> 3" by auto
    note reach = echo_steps_reach [OF less.prems(1)]
    from echo_stuck_free [OF reach assms n(2)] show ?case
    proof
      assume "\<exists>t. ?step s t"
      then obtain t where t: "(?step ^^ Suc n) (echo_init Q) t" using less.prems(1) by auto
      from echo_steps_bounded [OF t] have "Suc n = (\<Sum>p\<in>set Q. es_phase t p)" "\<forall>p\<in>set Q. es_phase t p \<le> 3" by auto
      then have "Suc n \<le> 3 * card (set Q)" using sum_bounded_above [of "set Q" "es_phase t" 3] by (simp add: mult.commute)
      then have "3 * card (set Q) - Suc n < k" using less.prems(2) by simp
      from less.IH [OF this t refl] show ?thesis .
    qed (use reach in blast)
  qed
  from this [of 0 "echo_init Q"] show ?thesis by simp
qed

text \<open>
  C9. Agreement and validity of the echo broadcast: whatever the corrupted members of the quorum send, the outputs of
  all honest parties are parts of one view of the session, and in this view an honest sender has the message it sent,
  as the codec decodes it.
\<close>

theorem echo_agreement:
  assumes "echo_reach encB decB Q H msg s" "H \<subseteq> set Q"
  shows "\<exists>view. (\<forall>p\<in>H. \<forall>out. es_out s p = Some out \<longrightarrow> (\<forall>i\<in>set Q - {p}. map_of out i = Some (view i))) \<and>
    (\<forall>p\<in>H. es_out s p \<noteq> None \<longrightarrow> (\<forall>i\<in>H - {p}. \<exists>ser. encB (msg i) = Inr ser \<and> decB ser = Inr (view i)))"
proof -
  have H: "echo_honest Q H = H" using assms(2) by (auto simp: echo_honest_def)
  from echo.common_view [where Q = Q and H = H and encB = encB and decB = decB and msg = msg and s = s] assms(1)
  obtain view where view: "\<And>p f i. p \<in> H \<Longrightarrow> map_option map_of (es_out s p) = Some f \<Longrightarrow> i \<in> set Q - {p} \<Longrightarrow> f i = Some (view i)"
    unfolding H by blast
  have "\<exists>ser. encB (msg i) = Inr ser \<and> decB ser = Inr (view i)"
    if p: "p \<in> H" "es_out s p \<noteq> None" and i: "i \<in> H - {p}" for p i
  proof -
    from p obtain out where out: "es_out s p = Some out" by blast
    from i assms(2) have "i \<in> set Q" "i \<noteq> p" by auto
    from echo_output [OF assms p(1) out this] view [OF p(1), of "map_of out" i] out i this show ?thesis by auto
  qed
  with view show ?thesis by (intro exI [of _ view]) auto
qed

definition plain_msg :: "ID \<Rightarrow> bytes" where
  "plain_msg i = [ucast i]"

lemma plain_codec: "good_codec Inr Inr Q plain_msg"
  by (simp add: good_codec_def go_slice_def plain_msg_def)

theorem echo_agreement_witness:
  "\<exists>s (view :: ID \<Rightarrow> bytes). echo_reach Inr Inr [1, 2, 3] {1, 2, 3} plain_msg s \<and> es_out s 1 = Some [(2, [2]), (3, [3])] \<and>
     view 2 = [2] \<and> view 3 = [3]"
proof -
  from echo_completes [OF plain_codec, of "[1, 2, 3]"] obtain s
    where s: "echo_reach Inr Inr [1, 2, 3] {1, 2, 3} plain_msg s" "all_accept [1, 2, 3] plain_msg s" by auto
  from s(2) have out: "es_out s 1 = Some [(2, [2]), (3, [3])]" by (simp add: all_accept_def plain_msg_def)
  from echo_agreement [OF s(1)] obtain view where
    "\<forall>p\<in>{1, 2, 3}. \<forall>out. es_out s p = Some out \<longrightarrow> (\<forall>i\<in>set [1, 2, 3] - {p}. map_of out i = Some (view i))" by auto
  with out have "\<forall>i\<in>{2, 3}. map_of [(2, [2]), (3, [3])] i = Some (view i)" by simp
  then have "view 2 = [2]" "view 3 = [3]" by simp_all
  with s(1) out show ?thesis by (intro exI [of _ s] exI [of _ view]) simp
qed

text \<open>
  C10. An honest quorum is never stuck and needs no more than three steps per party: a run in any order of steps and
  deliveries can go on until every party has accepted the message of every other party, and then it ends.
\<close>

theorem echo_liveness:
  assumes "((echo_step encB decB (set Q) msg) ^^ n) (echo_init Q) s" "good_codec encB decB Q msg"
  shows "n \<le> 3 * card (set Q) \<and> (all_accept Q msg s \<or> (\<exists>t. echo_step encB decB (set Q) msg s t)) \<and>
    (n = 3 * card (set Q) \<longrightarrow> all_accept Q msg s)"
proof -
  from echo_steps_bounded [OF assms(1)] have n: "(\<Sum>p\<in>set Q. es_phase s p) = n" "\<forall>p\<in>set Q. es_phase s p \<le> 3" by auto
  have bound: "n \<le> 3 * card (set Q)" using n sum_bounded_above [of "set Q" "es_phase s" 3] by (simp add: mult.commute)
  note reach = echo_steps_reach [OF assms(1)]
  have "\<not> echo_step encB decB (set Q) msg s t" if "n = 3 * card (set Q)" for t
  proof
    assume "echo_step encB decB (set Q) msg s t"
    with assms(1) have "((echo_step encB decB (set Q) msg) ^^ Suc n) (echo_init Q) t" by auto
    from echo_steps_bounded [OF this] have "(\<Sum>p\<in>set Q. es_phase t p) = Suc n" "\<forall>p\<in>set Q. es_phase t p \<le> 3" by auto
    then have "Suc n \<le> 3 * card (set Q)" using sum_bounded_above [of "set Q" "es_phase t" 3] by (simp add: mult.commute)
    with that show False by simp
  qed
  with bound echo_stuck_free [OF reach assms(2) n(2)] show ?thesis by blast
qed

theorem echo_liveness_witness:
  "\<exists>t. echo_step Inr Inr (set [4, 9]) plain_msg (echo_init [4, 9]) t"
proof -
  have "((echo_step Inr Inr (set [4, 9]) plain_msg) ^^ 0) (echo_init [4, 9]) (echo_init [4, 9])" by simp
  from echo_liveness [OF this plain_codec] show ?thesis by (auto simp: all_accept_def echo_init_def)
qed

end
