(* ===== verification/PrimeGroup.thy ===== *)
theory PrimeGroup
  imports Complex_Main Algebrautils
begin

text \<open>
  Groups of prime order (\<open>PrimeGroup\<close> and \<open>VectorSpace\<close> of \<open>pkg/base/algebra\<close>): the group operation is
  written additively, \<open>ScalarOp G g a\<close> is \<open>g.ScalarOp(a)\<close> and \<open>Generator G\<close> the base point. The curves that
  implement the interface are parameters of the models; the models rely on the laws \<open>prime_group\<close> states.
\<close>

text \<open>
  The structure object of a prime field. Its arithmetic is that of the type of its elements; what is left is its order, which
  the models consult in one place, a comparison of floating point numbers: \<open>exceedsOrder F n k\<close> says that
  the \<open>float64\<close> value which \<open>hierarchical.CheckConstraints\<close> computes from \<open>n\<close> and \<open>k\<close> is not below the order of \<open>F\<close>.
\<close>

record PrimeField =
  exceedsOrder :: "64 word \<Rightarrow> 64 word \<Rightarrow> bool"

record ('g, 'a) PrimeGroup =
  ScalarOp :: "'g \<Rightarrow> 'a \<Rightarrow> 'g"
  Generator :: 'g
  ScalarStructure :: PrimeField

text \<open>A vector space of dimension one over the scalar field: the generator is not the identity and every
  element is a multiple of it.\<close>

definition prime_group :: "('g::ab_group_add, 'a::field) PrimeGroup \<Rightarrow> bool" where
  "prime_group G \<longleftrightarrow> vector_space (\<lambda>a g. ScalarOp G g a) \<and> Generator G \<noteq> 0 \<and> (\<forall>h. \<exists>a. h = ScalarOp G (Generator G) a)"

named_theorems group_laws \<open>the laws of a prime-order group\<close>

lemma scalar_laws:
  assumes "prime_group G"
  shows "ScalarOp G g (a + b) = ScalarOp G g a + ScalarOp G g b"
    "ScalarOp G (g + h) a = ScalarOp G g a + ScalarOp G h a"
    "ScalarOp G (ScalarOp G g a) b = ScalarOp G g (b * a)"
    "ScalarOp G g 1 = g" "ScalarOp G g 0 = 0" "ScalarOp G 0 a = 0"
    "ScalarOp G g (- a) = - ScalarOp G g a" "ScalarOp G (- g) a = - ScalarOp G g a"
    "ScalarOp G g (a - b) = ScalarOp G g a - ScalarOp G g b"
    "ScalarOp G (g - h) a = ScalarOp G g a - ScalarOp G h a"
proof -
  have vs: "vector_space (\<lambda>a g. ScalarOp G g a)" using assms by (simp add: prime_group_def)
  then have m: "module (\<lambda>a g. ScalarOp G g a)" by (simp add: module_iff_vector_space)
  show "ScalarOp G g (a + b) = ScalarOp G g a + ScalarOp G g b" by (rule module.scale_left_distrib [OF m])
  show "ScalarOp G (g + h) a = ScalarOp G g a + ScalarOp G h a" by (rule module.scale_right_distrib [OF m])
  show "ScalarOp G (ScalarOp G g a) b = ScalarOp G g (b * a)" by (rule module.scale_scale [OF m])
  show "ScalarOp G g 1 = g" by (rule module.scale_one [OF m])
  show "ScalarOp G g 0 = 0" by (rule module.scale_zero_left [OF m])
  show "ScalarOp G 0 a = 0" by (rule module.scale_zero_right [OF m])
  show "ScalarOp G g (- a) = - ScalarOp G g a" by (rule module.scale_minus_left [OF m])
  show "ScalarOp G (- g) a = - ScalarOp G g a" by (rule module.scale_minus_right [OF m])
  show "ScalarOp G g (a - b) = ScalarOp G g a - ScalarOp G g b" by (rule module.scale_left_diff_distrib [OF m])
  show "ScalarOp G (g - h) a = ScalarOp G g a - ScalarOp G h a" by (rule module.scale_right_diff_distrib [OF m])
qed

lemma scalar_sum:
  "prime_group G \<Longrightarrow> ScalarOp G g (sum f A) = (\<Sum>i\<in>A. ScalarOp G g (f i))"
  by (rule module.scale_sum_left) (simp add: prime_group_def module_iff_vector_space)

lemma scalar_op_sum:
  "prime_group G \<Longrightarrow> ScalarOp G (sum e A) a = (\<Sum>i\<in>A. ScalarOp G (e i) a)"
  by (rule module.scale_sum_right) (simp add: prime_group_def module_iff_vector_space)

lemma scalar_nsum: "prime_group G \<Longrightarrow> ScalarOp G g (nsum n a) = nsum n (ScalarOp G g a)"
  by (induction n) (simp_all add: scalar_laws)

lemma scalar_eq_zero: "prime_group G \<Longrightarrow> ScalarOp G g a = 0 \<longleftrightarrow> a = 0 \<or> g = 0"
  using vector_space.scale_eq_0_iff [of "\<lambda>a g. ScalarOp G g a" a g] by (simp add: prime_group_def)

lemma scalar_cancel: "prime_group G \<Longrightarrow> g \<noteq> 0 \<Longrightarrow> ScalarOp G g a = ScalarOp G g b \<longleftrightarrow> a = b"
  using scalar_eq_zero [of G g "a - b"] by (simp add: scalar_laws)

lemma generator_nonzero: "prime_group G \<Longrightarrow> Generator G \<noteq> 0"
  by (simp add: prime_group_def)

lemma generator_inj [simp]: "prime_group G \<Longrightarrow> ScalarOp G (Generator G) a = ScalarOp G (Generator G) b \<longleftrightarrow> a = b"
  by (rule scalar_cancel) (simp_all add: generator_nonzero)

text \<open>The discrete logarithm to the base of an element that is not the identity.\<close>

lemma generator_dlog:
  assumes "prime_group G"
  obtains a where "h = ScalarOp G (Generator G) a"
  using assms unfolding prime_group_def by blast

lemma scalar_dlog:
  assumes "prime_group G" "g \<noteq> 0"
  obtains a where "h = ScalarOp G g a"
proof -
  obtain b where b: "g = ScalarOp G (Generator G) b" by (rule generator_dlog [OF assms(1)])
  obtain c where c: "h = ScalarOp G (Generator G) c" by (rule generator_dlog [OF assms(1)])
  from b assms have "b \<noteq> 0" by (auto simp: scalar_laws)
  then have "h = ScalarOp G g (c / b)" using b c by (simp add: scalar_laws [OF assms(1)])
  then show thesis by (rule that)
qed

text \<open>The discrete logarithms of a column of group elements.\<close>

lemma column_dlog:
  fixes v :: "nat \<Rightarrow> 'g::ab_group_add"
  assumes "prime_group G"
  obtains r where "\<And>c. v c = ScalarOp G (Generator G) (r c)"
proof -
  have "\<forall>c. \<exists>a. v c = ScalarOp G (Generator G) a" using assms by (auto simp: prime_group_def)
  then obtain r where "\<forall>c. v c = ScalarOp G (Generator G) (r c)" by metis
  then show thesis by (intro that) simp
qed

text \<open>The additive group of the scalar field itself, with generator one; the field counts as large enough.\<close>

definition field_group :: "('a::field, 'a) PrimeGroup" where
  "field_group = \<lparr>ScalarOp = \<lambda>g a. a * g, Generator = 1, ScalarStructure = \<lparr>exceedsOrder = \<lambda>_ _. False\<rparr>\<rparr>"

lemma field_group: "prime_group (field_group :: ('a::field, 'a) PrimeGroup)"
  by (simp add: prime_group_def field_group_def vector_space_def distrib_left distrib_right)

end
