(* ===== verification/Commitments.thy ===== *)
theory Commitments
  imports PrimeGroup
begin

text \<open>
  Commitment schemes (\<open>pkg/commitments\<close>): the interface of commitment keys and of homomorphic keys as locales,
  the generic \<open>Commit\<close>, \<open>ReRandomise\<close> and \<open>GenericOpen\<close>, and Pedersen commitments over a prime-order group with
  their trapdoor variant. The structs \<open>Message\<close>, \<open>Witness\<close> and \<open>Commitment\<close> wrap one value and are modelled by it;
  nil is \<open>None\<close>; the random source is the list of the samples it still delivers.
\<close>

section \<open>The interface\<close>

text \<open>\<open>internal.GenericOpen\<close>, over the \<open>CommitWithWitness\<close> of the key.\<close>

definition GenericOpen ::
  "('k \<Rightarrow> 'm option \<Rightarrow> 'w option \<Rightarrow> 'c res) \<Rightarrow> 'k option \<Rightarrow> 'c option \<Rightarrow> 'm option \<Rightarrow> 'w option \<Rightarrow> unit res" where
  "GenericOpen commit key commitment message witness =
     (if key = None \<or> commitment = None \<or> message = None \<or> witness = None then Inl ErrIsNil
      else rbind (commit (the key) message witness) (\<lambda>recomputed.
        if recomputed \<noteq> the commitment then Inl ErrVerificationFailed else Inr ()))"

text \<open>\<open>commitments.Commit\<close> and \<open>commitments.ReRandomise\<close>, over the operations of the key.\<close>

definition Commit ::
  "('k \<Rightarrow> 'g list option \<Rightarrow> ('w \<times> 'g list) res) \<Rightarrow> ('k \<Rightarrow> 'm option \<Rightarrow> 'w option \<Rightarrow> 'c res) \<Rightarrow>
     'k option \<Rightarrow> 'm option \<Rightarrow> 'g list option \<Rightarrow> ('c \<times> 'w \<times> 'g list) res" where
  "Commit sample commit key message prng =
     (if key = None \<or> message = None \<or> prng = None then Inl ErrIsNil
      else rbind (sample (the key) prng) (\<lambda>(witness, prng).
        rbind (commit (the key) message (Some witness)) (\<lambda>commitment. Inr (commitment, witness, prng))))"

definition com_ReRandomise ::
  "('k \<Rightarrow> 'g list option \<Rightarrow> ('w \<times> 'g list) res) \<Rightarrow> ('k \<Rightarrow> 'c option \<Rightarrow> 'w option \<Rightarrow> 'c res) \<Rightarrow>
     'k option \<Rightarrow> 'c option \<Rightarrow> 'g list option \<Rightarrow> ('c \<times> 'w \<times> 'g list) res" where
  "com_ReRandomise sample rerandomise key commitment prng =
     (if key = None \<or> commitment = None \<or> prng = None then Inl ErrIsNil
      else rbind (sample (the key) prng) (\<lambda>(witness, prng).
        rbind (rerandomise (the key) commitment (Some witness)) (\<lambda>newCommitment. Inr (newCommitment, witness, prng))))"

text \<open>The contract of \<open>CommitmentKey\<close>: committing is defined for every message and witness, opening recomputes the
  commitment, a sampled witness can be used.\<close>

locale commitment_key =
  fixes wf :: "'k \<Rightarrow> bool"
    and SampleWitness :: "'k \<Rightarrow> 'g list option \<Rightarrow> ('w \<times> 'g list) res"
    and CommitWithWitness :: "'k \<Rightarrow> 'm option \<Rightarrow> 'w option \<Rightarrow> 'c res"
    and Open :: "'k \<Rightarrow> 'c option \<Rightarrow> 'm option \<Rightarrow> 'w option \<Rightarrow> unit res"
  assumes commit_total: "wf k \<Longrightarrow> \<exists>c. CommitWithWitness k (Some m) (Some w) = Inr c"
    and open_generic: "wf k \<Longrightarrow> Open k co mo wo = GenericOpen CommitWithWitness (Some k) co mo wo"
begin

lemma open_iff: "wf k \<Longrightarrow> Open k (Some c) (Some m) (Some w) = Inr () \<longleftrightarrow> CommitWithWitness k (Some m) (Some w) = Inr c"
  by (cases "CommitWithWitness k (Some m) (Some w)") (auto simp: open_generic GenericOpen_def)

lemma open_other:
  assumes "wf k" "CommitWithWitness k (Some m) (Some w) \<noteq> Inr c"
  shows "Open k (Some c) (Some m) (Some w) = Inl ErrVerificationFailed"
  using commit_total [OF assms(1), of m w] assms by (auto simp: open_generic GenericOpen_def)

lemma commit_opens:
  assumes "wf k" "Commit SampleWitness CommitWithWitness (Some k) (Some m) (Some prng) = Inr (c, w, rest)"
  shows "Open k (Some c) (Some m) (Some w) = Inr ()"
  using assms by (auto simp: Commit_def open_iff)

end

text \<open>
  The contract of \<open>Homomorphic\<close>: operations on messages, witnesses and commitments such that commitments to
  combined messages under combined witnesses are the combined commitments.
\<close>

locale homomorphic_key = commitment_key wf SampleWitness CommitWithWitness Open
  for wf :: "'k \<Rightarrow> bool"
    and SampleWitness :: "'k \<Rightarrow> 'g list option \<Rightarrow> ('w \<times> 'g list) res"
    and CommitWithWitness :: "'k \<Rightarrow> 'm option \<Rightarrow> 'w option \<Rightarrow> 'c res"
    and Open :: "'k \<Rightarrow> 'c option \<Rightarrow> 'm option \<Rightarrow> 'w option \<Rightarrow> unit res" +
  fixes MessageOp :: "'k \<Rightarrow> 'm option \<Rightarrow> 'm option \<Rightarrow> 'm option list \<Rightarrow> 'm res"
    and WitnessOp :: "'k \<Rightarrow> 'w option \<Rightarrow> 'w option \<Rightarrow> 'w option list \<Rightarrow> 'w res"
    and CommitmentOp :: "'k \<Rightarrow> 'c option \<Rightarrow> 'c option \<Rightarrow> 'c option list \<Rightarrow> 'c res"
    and MessageScalarOp :: "'k \<Rightarrow> 'm option \<Rightarrow> 's option \<Rightarrow> 'm res"
    and WitnessScalarOp :: "'k \<Rightarrow> 'w option \<Rightarrow> 's option \<Rightarrow> 'w res"
    and CommitmentScalarOp :: "'k \<Rightarrow> 'c option \<Rightarrow> 's option \<Rightarrow> 'c res"
    and ReRandomise :: "'k \<Rightarrow> 'c option \<Rightarrow> 'w option \<Rightarrow> 'c res"
    and Shift :: "'k \<Rightarrow> 'c option \<Rightarrow> 'm option \<Rightarrow> 'c res"
    and zero_message :: 'm and zero_witness :: 'w
  assumes commit_op: "wf k \<Longrightarrow> list_all2 (\<lambda>c (m, w). CommitWithWitness k (Some m) (Some w) = Inr c) (c # c' # cs) ((m, w) # (m', w') # mws) \<Longrightarrow>
      \<exists>m0 w0 c0. MessageOp k (Some m) (Some m') (map (Some \<circ> fst) mws) = Inr m0 \<and> WitnessOp k (Some w) (Some w') (map (Some \<circ> snd) mws) = Inr w0 \<and>
        CommitmentOp k (Some c) (Some c') (map Some cs) = Inr c0 \<and> CommitWithWitness k (Some m0) (Some w0) = Inr c0"
    and commit_scalar: "wf k \<Longrightarrow> CommitWithWitness k (Some m) (Some w) = Inr c \<Longrightarrow>
      \<exists>m0 w0 c0. MessageScalarOp k (Some m) (Some a) = Inr m0 \<and> WitnessScalarOp k (Some w) (Some a) = Inr w0 \<and>
        CommitmentScalarOp k (Some c) (Some a) = Inr c0 \<and> CommitWithWitness k (Some m0) (Some w0) = Inr c0"
    and rerandomise: "wf k \<Longrightarrow> CommitWithWitness k (Some zero_message) (Some w) = Inr c' \<Longrightarrow>
      ReRandomise k (Some c) (Some w) = CommitmentOp k (Some c) (Some c') []"
    and shift: "wf k \<Longrightarrow> CommitWithWitness k (Some m) (Some zero_witness) = Inr c' \<Longrightarrow>
      Shift k (Some c) (Some m) = CommitmentOp k (Some c) (Some c') []"
    and zero_message: "wf k \<Longrightarrow> MessageOp k (Some m) (Some zero_message) [] = Inr m"
    and zero_witness: "wf k \<Longrightarrow> WitnessOp k (Some w) (Some zero_witness) [] = Inr w"
begin

text \<open>Commitments that open to messages combine to commitments that open to the combined message.\<close>

lemma op_opens:
  assumes "wf k" "Open k (Some c) (Some m) (Some w) = Inr ()" "Open k (Some c') (Some m') (Some w') = Inr ()"
  shows "\<exists>m0 w0 c0. MessageOp k (Some m) (Some m') [] = Inr m0 \<and> WitnessOp k (Some w) (Some w') [] = Inr w0 \<and>
    CommitmentOp k (Some c) (Some c') [] = Inr c0 \<and> Open k (Some c0) (Some m0) (Some w0) = Inr ()"
  using commit_op [OF assms(1), of c c' "[]" m w m' w' "[]"] assms by (simp add: open_iff)

lemma scalar_opens:
  assumes "wf k" "Open k (Some c) (Some m) (Some w) = Inr ()"
  shows "\<exists>m0 w0 c0. MessageScalarOp k (Some m) (Some a) = Inr m0 \<and> WitnessScalarOp k (Some w) (Some a) = Inr w0 \<and>
    CommitmentScalarOp k (Some c) (Some a) = Inr c0 \<and> Open k (Some c0) (Some m0) (Some w0) = Inr ()"
  using commit_scalar [OF assms(1)] assms by (auto simp: open_iff)

text \<open>Rerandomising keeps the message and shifts the witness; shifting keeps the witness.\<close>

lemma rerandomise_opens:
  assumes "wf k" "Open k (Some c) (Some m) (Some w) = Inr ()"
  shows "\<exists>c0 w0. ReRandomise k (Some c) (Some w') = Inr c0 \<and> WitnessOp k (Some w) (Some w') [] = Inr w0 \<and>
    Open k (Some c0) (Some m) (Some w0) = Inr ()"
proof -
  obtain c' where c': "CommitWithWitness k (Some zero_message) (Some w') = Inr c'" using commit_total [OF assms(1)] by blast
  then have "Open k (Some c') (Some zero_message) (Some w') = Inr ()" using assms(1) by (simp add: open_iff)
  from op_opens [OF assms this] rerandomise [OF assms(1) c', of c] zero_message [OF assms(1)] show ?thesis by auto
qed

lemma shift_opens:
  assumes "wf k" "Open k (Some c) (Some m) (Some w) = Inr ()"
  shows "\<exists>c0 m0. Shift k (Some c) (Some m') = Inr c0 \<and> MessageOp k (Some m) (Some m') [] = Inr m0 \<and>
    Open k (Some c0) (Some m0) (Some w) = Inr ()"
proof -
  obtain c' where c': "CommitWithWitness k (Some m') (Some zero_witness) = Inr c'" using commit_total [OF assms(1)] by blast
  then have "Open k (Some c') (Some m') (Some zero_witness) = Inr ()" using assms(1) by (simp add: open_iff)
  from op_opens [OF assms this] shift [OF assms(1) c', of c] zero_witness [OF assms(1)] show ?thesis by auto
qed

end

section \<open>Pedersen commitments\<close>

record ('g, 'a) CommitmentKey =
  ck_group :: "('g, 'a) PrimeGroup"
  ck_g :: 'g
  ck_h :: 'g

definition NewCommitment :: "'g option \<Rightarrow> 'g res" where
  "NewCommitment v = (case v of None \<Rightarrow> Inl ErrIsNil | Some v \<Rightarrow> Inr v)"

definition NewWitness :: "'a option \<Rightarrow> 'a res" where
  "NewWitness v = (case v of None \<Rightarrow> Inl ErrIsNil | Some v \<Rightarrow> Inr v)"

definition NewMessage :: "'a option \<Rightarrow> 'a res" where
  "NewMessage v = (case v of None \<Rightarrow> Inl ErrIsNil | Some v \<Rightarrow> Inr v)"

definition NewCommitmentKeyUnchecked ::
  "('g::ab_group_add, 'a) PrimeGroup \<Rightarrow> 'g option \<Rightarrow> 'g option \<Rightarrow> ('g, 'a) CommitmentKey res" where
  "NewCommitmentKeyUnchecked G g h =
     (case (g, h) of
        (Some g, Some h) \<Rightarrow>
          if g = h then Inl ErrInvalidArgument
          else if g = 0 \<or> h = 0 then Inl ErrIsIdentity
          else Inr \<lparr>ck_group = G, ck_g = g, ck_h = h\<rparr>
      | _ \<Rightarrow> Inl ErrIsNil)"

definition SampleCommitmentKey ::
  "('g::ab_group_add, 'a) PrimeGroup option \<Rightarrow> 'g list option \<Rightarrow> (('g, 'a) CommitmentKey \<times> 'g list) res" where
  "SampleCommitmentKey grp prng =
     (case (grp, prng) of
        (Some G, Some prng) \<Rightarrow>
          rbind (Random [\<lambda>e. e \<noteq> 0 \<and> e \<noteq> Generator G] prng) (\<lambda>(h, prng).
          rbind (NewCommitmentKeyUnchecked G (Some (Generator G)) (Some h)) (\<lambda>k. Inr (k, prng)))
      | _ \<Rightarrow> Inl ErrIsNil)"

text \<open>\<open>ExtractCommitmentKey\<close>: \<open>extract\<close> is the transcript's \<open>Extract\<close> of a group element under a label.\<close>

definition ExtractCommitmentKey ::
  "('g::ab_group_add, 'a) PrimeGroup \<Rightarrow> ('t \<Rightarrow> string \<Rightarrow> 'g res) \<Rightarrow> 't option \<Rightarrow> string \<Rightarrow> 'g option \<Rightarrow> ('g, 'a) CommitmentKey res" where
  "ExtractCommitmentKey G extract transcript label basePoint =
     (case basePoint of
        None \<Rightarrow> Inl ErrInvalidArgument
      | Some b \<Rightarrow>
          (case transcript of
             None \<Rightarrow> Inl ErrInvalidArgument
           | Some t \<Rightarrow>
               if label = [] then Inl ErrInvalidArgument
               else rbind (extract t label) (\<lambda>h. NewCommitmentKeyUnchecked G (Some b) (Some h))))"

definition ck_SampleWitness :: "('g, 'a) CommitmentKey \<Rightarrow> 'a list option \<Rightarrow> ('a \<times> 'a list) res" where
  "ck_SampleWitness k prng =
     (case prng of
        None \<Rightarrow> Inl ErrIsNil
      | Some [] \<Rightarrow> Inl ErrPrng
      | Some (r # prng) \<Rightarrow> Inr (r, prng))"

definition ck_CommitWithWitness :: "('g::ab_group_add, 'a) CommitmentKey \<Rightarrow> 'a option \<Rightarrow> 'a option \<Rightarrow> 'g res" where
  "ck_CommitWithWitness k message witness =
     (case (message, witness) of
        (Some m, Some r) \<Rightarrow> NewCommitment (Some (ScalarOp (ck_group k) (ck_g k) m + ScalarOp (ck_group k) (ck_h k) r))
      | _ \<Rightarrow> Inl ErrIsNil)"

definition ck_Open :: "('g::ab_group_add, 'a) CommitmentKey \<Rightarrow> 'g option \<Rightarrow> 'a option \<Rightarrow> 'a option \<Rightarrow> unit res" where
  "ck_Open k commitment message witness = GenericOpen ck_CommitWithWitness (Some k) commitment message witness"

text \<open>The group operations; every element of the type lies in the group, so \<open>Contains\<close> is true.\<close>

definition ck_WitnessOp :: "('g, 'a::field) CommitmentKey \<Rightarrow> 'a option \<Rightarrow> 'a option \<Rightarrow> 'a option list \<Rightarrow> 'a res" where
  "ck_WitnessOp k first second rest = alg_Op (\<lambda>v. NewWitness (Some v)) (\<lambda>w. w) (\<lambda>_. True) first second rest"

definition ck_WitnessOpInv :: "('g, 'a::field) CommitmentKey \<Rightarrow> 'a option \<Rightarrow> 'a res" where
  "ck_WitnessOpInv k w = (case w of None \<Rightarrow> Inl ErrIsNil | Some r \<Rightarrow> NewWitness (Some (- r)))"

definition ck_WitnessScalarOp :: "('g, 'a::field) CommitmentKey \<Rightarrow> 'a option \<Rightarrow> 'a option \<Rightarrow> 'a res" where
  "ck_WitnessScalarOp k w scalar =
     (case w of None \<Rightarrow> Inl ErrIsNil
      | Some r \<Rightarrow> (case scalar of None \<Rightarrow> Inl ErrIsNil | Some a \<Rightarrow> NewWitness (Some (r * a))))"

definition ck_MessageOp :: "('g, 'a::field) CommitmentKey \<Rightarrow> 'a option \<Rightarrow> 'a option \<Rightarrow> 'a option list \<Rightarrow> 'a res" where
  "ck_MessageOp k first second rest = alg_Op (\<lambda>v. NewMessage (Some v)) (\<lambda>m. m) (\<lambda>_. True) first second rest"

definition ck_MessageOpInv :: "('g, 'a::field) CommitmentKey \<Rightarrow> 'a option \<Rightarrow> 'a res" where
  "ck_MessageOpInv k m = (case m of None \<Rightarrow> Inl ErrIsNil | Some m \<Rightarrow> NewMessage (Some (- m)))"

definition ck_MessageScalarOp :: "('g, 'a::field) CommitmentKey \<Rightarrow> 'a option \<Rightarrow> 'a option \<Rightarrow> 'a res" where
  "ck_MessageScalarOp k m scalar =
     (case m of None \<Rightarrow> Inl ErrIsNil
      | Some m \<Rightarrow> (case scalar of None \<Rightarrow> Inl ErrIsNil | Some a \<Rightarrow> NewMessage (Some (m * a))))"

definition ck_CommitmentOp :: "('g::ab_group_add, 'a) CommitmentKey \<Rightarrow> 'g option \<Rightarrow> 'g option \<Rightarrow> 'g option list \<Rightarrow> 'g res" where
  "ck_CommitmentOp k first second rest = alg_Op (\<lambda>v. NewCommitment (Some v)) (\<lambda>c. c) (\<lambda>_. True) first second rest"

definition ck_CommitmentOpInv :: "('g::ab_group_add, 'a) CommitmentKey \<Rightarrow> 'g option \<Rightarrow> 'g res" where
  "ck_CommitmentOpInv k c = (case c of None \<Rightarrow> Inl ErrIsNil | Some c \<Rightarrow> NewCommitment (Some (- c)))"

definition ck_CommitmentScalarOp :: "('g, 'a) CommitmentKey \<Rightarrow> 'g option \<Rightarrow> 'a option \<Rightarrow> 'g res" where
  "ck_CommitmentScalarOp k c scalar =
     (case c of None \<Rightarrow> Inl ErrIsNil
      | Some c \<Rightarrow> (case scalar of None \<Rightarrow> Inl ErrIsNil | Some a \<Rightarrow> NewCommitment (Some (ScalarOp (ck_group k) c a))))"

definition ck_ReRandomise :: "('g::ab_group_add, 'a) CommitmentKey \<Rightarrow> 'g option \<Rightarrow> 'a option \<Rightarrow> 'g res" where
  "ck_ReRandomise k c witnessShift =
     (case (c, witnessShift) of
        (Some c, Some r) \<Rightarrow> NewCommitment (Some (c + ScalarOp (ck_group k) (ck_h k) r))
      | _ \<Rightarrow> Inl ErrIsNil)"

definition ck_Shift :: "('g::ab_group_add, 'a) CommitmentKey \<Rightarrow> 'g option \<Rightarrow> 'a option \<Rightarrow> 'g res" where
  "ck_Shift k c message =
     (case (c, message) of
        (Some c, Some m) \<Rightarrow> NewCommitment (Some (c + ScalarOp (ck_group k) (ck_g k) m))
      | _ \<Rightarrow> Inl ErrIsNil)"

definition ck_Equal :: "('g, 'a) CommitmentKey option \<Rightarrow> ('g, 'a) CommitmentKey option \<Rightarrow> bool" where
  "ck_Equal k other =
     (case (k, other) of
        (Some k, Some other) \<Rightarrow> ck_g k = ck_g other \<and> ck_h k = ck_h other
      | (None, None) \<Rightarrow> True
      | _ \<Rightarrow> False)"

definition ck_MarshalCBOR :: "('g option \<times> 'g option \<Rightarrow> 'b res) \<Rightarrow> ('g, 'a) CommitmentKey \<Rightarrow> 'b res" where
  "ck_MarshalCBOR enc k = enc (Some (ck_g k), Some (ck_h k))"

definition ck_UnmarshalCBOR ::
  "('g::ab_group_add, 'a) PrimeGroup \<Rightarrow> ('b \<Rightarrow> ('g option \<times> 'g option) res) \<Rightarrow> 'b \<Rightarrow> ('g, 'a) CommitmentKey res" where
  "ck_UnmarshalCBOR G dec data = rbind (dec data) (\<lambda>(g, h). NewCommitmentKeyUnchecked G g h)"

subsection \<open>Trapdoor keys\<close>

record ('g, 'a) TrapdoorKey =
  tk_key :: "('g, 'a) CommitmentKey"
  tk_lambda :: 'a

definition NewTrapdoorKey ::
  "('g::ab_group_add, 'a::field) PrimeGroup \<Rightarrow> 'g option \<Rightarrow> 'a option \<Rightarrow> ('g, 'a) TrapdoorKey res" where
  "NewTrapdoorKey G g lambda =
     (case (g, lambda) of
        (Some g, Some lambda) \<Rightarrow>
          if g = 0 then Inl ErrInvalidArgument
          else if lambda = 0 then Inl ErrInvalidArgument
          else if lambda = 1 then Inl ErrInvalidArgument
          else Inr \<lparr>tk_key = \<lparr>ck_group = G, ck_g = g, ck_h = ScalarOp G g lambda\<rparr>, tk_lambda = lambda\<rparr>
      | _ \<Rightarrow> Inl ErrInvalidArgument)"

definition SampleTrapdoorKey ::
  "('g::ab_group_add, 'a::field) PrimeGroup option \<Rightarrow> 'a list option \<Rightarrow> (('g, 'a) TrapdoorKey \<times> 'a list) res" where
  "SampleTrapdoorKey grp prng =
     (case (grp, prng) of
        (Some G, Some prng) \<Rightarrow>
          rbind (Random [\<lambda>l. l \<noteq> 0, \<lambda>l. l \<noteq> 1] prng) (\<lambda>(lambda, prng).
          rbind (NewTrapdoorKey G (Some (Generator G)) (Some lambda)) (\<lambda>t. Inr (t, prng)))
      | _ \<Rightarrow> Inl ErrIsNil)"

definition tk_CommitWithWitness :: "('g, 'a::field) TrapdoorKey \<Rightarrow> 'a option \<Rightarrow> 'a option \<Rightarrow> 'g res" where
  "tk_CommitWithWitness t message witness =
     (case (message, witness) of
        (Some m, Some r) \<Rightarrow> NewCommitment (Some (ScalarOp (ck_group (tk_key t)) (ck_g (tk_key t)) (m + tk_lambda t * r)))
      | _ \<Rightarrow> Inl ErrIsNil)"

definition Equivocate :: "('g, 'a::field) TrapdoorKey \<Rightarrow> 'a option \<Rightarrow> 'a option \<Rightarrow> 'a option \<Rightarrow> 'a res" where
  "Equivocate t message witness newMessage =
     (case (message, witness, newMessage) of
        (Some m, Some r, Some m') \<Rightarrow>
          rbind (if tk_lambda t = 0 then Inl ErrFailed else Inr (inverse (tk_lambda t))) (\<lambda>lambdaInv.
            NewWitness (Some (r + lambdaInv * (m - m'))))
      | _ \<Rightarrow> Inl ErrIsNil)"

definition tk_Export :: "('g, 'a) TrapdoorKey \<Rightarrow> ('g, 'a) CommitmentKey" where
  "tk_Export t = tk_key t"

definition tk_Equal :: "('g, 'a) TrapdoorKey option \<Rightarrow> ('g, 'a) TrapdoorKey option \<Rightarrow> bool" where
  "tk_Equal t other =
     (case (t, other) of
        (Some t, Some other) \<Rightarrow> ck_g (tk_key t) = ck_g (tk_key other) \<and> tk_lambda t = tk_lambda other
      | (None, None) \<Rightarrow> True
      | _ \<Rightarrow> False)"

definition tk_MarshalCBOR :: "('g option \<times> 'a option \<Rightarrow> 'b res) \<Rightarrow> ('g, 'a) TrapdoorKey \<Rightarrow> 'b res" where
  "tk_MarshalCBOR enc t = enc (Some (ck_g (tk_key t)), Some (tk_lambda t))"

definition tk_UnmarshalCBOR ::
  "('g::ab_group_add, 'a::field) PrimeGroup \<Rightarrow> ('b \<Rightarrow> ('g option \<times> 'a option) res) \<Rightarrow> 'b \<Rightarrow> ('g, 'a) TrapdoorKey res" where
  "tk_UnmarshalCBOR G dec data = rbind (dec data) (\<lambda>(g, lambda). NewTrapdoorKey G g lambda)"

text \<open>A trapdoor key inherits \<open>Open\<close> from the key it embeds.\<close>

definition tk_Open :: "('g::ab_group_add, 'a) TrapdoorKey \<Rightarrow> 'g option \<Rightarrow> 'a option \<Rightarrow> 'a option \<Rightarrow> unit res" where
  "tk_Open t commitment message witness = ck_Open (tk_key t) commitment message witness"

section \<open>Correctness\<close>

definition ck_wf :: "('g::ab_group_add, 'a::field) CommitmentKey \<Rightarrow> bool" where
  "ck_wf k \<longleftrightarrow> prime_group (ck_group k) \<and> ck_g k \<noteq> 0 \<and> ck_h k \<noteq> 0"

definition tk_wf :: "('g::ab_group_add, 'a::field) TrapdoorKey \<Rightarrow> bool" where
  "tk_wf t \<longleftrightarrow> prime_group (ck_group (tk_key t)) \<and> ck_g (tk_key t) \<noteq> 0 \<and> tk_lambda t \<noteq> 0 \<and>
     ck_h (tk_key t) = ScalarOp (ck_group (tk_key t)) (ck_g (tk_key t)) (tk_lambda t)"

lemma NewCommitmentKey_wf:
  "prime_group G \<Longrightarrow> NewCommitmentKeyUnchecked G g h = Inr k \<Longrightarrow> ck_wf k \<and> ck_group k = G \<and> g = Some (ck_g k) \<and> h = Some (ck_h k)"
  by (auto simp: NewCommitmentKeyUnchecked_def ck_wf_def split: option.splits if_splits)

lemma NewTrapdoorKey_wf: "prime_group G \<Longrightarrow> NewTrapdoorKey G g lambda = Inr t \<Longrightarrow> tk_wf t \<and> ck_group (tk_key t) = G"
  by (auto simp: NewTrapdoorKey_def tk_wf_def split: option.splits if_splits)

lemma tk_key_wf: "tk_wf t \<Longrightarrow> ck_wf (tk_key t)"
  by (auto simp: tk_wf_def ck_wf_def scalar_eq_zero)

lemma ck_commit [simp]:
  "ck_CommitWithWitness k (Some m) (Some r) = Inr (ScalarOp (ck_group k) (ck_g k) m + ScalarOp (ck_group k) (ck_h k) r)"
  by (simp add: ck_CommitWithWitness_def NewCommitment_def)

lemma ck_nil [simp]: "ck_CommitWithWitness k None ro = Inl ErrIsNil" "ck_CommitWithWitness k mo None = Inl ErrIsNil"
  by (simp_all add: ck_CommitWithWitness_def split: option.split)

lemma tk_commit:
  assumes "tk_wf t"
  shows "tk_CommitWithWitness t = ck_CommitWithWitness (tk_key t)"
proof (intro ext)
  fix mo ro
  have "ScalarOp (ck_group (tk_key t)) (ck_g (tk_key t)) (m + tk_lambda t * r) =
      ScalarOp (ck_group (tk_key t)) (ck_g (tk_key t)) m + ScalarOp (ck_group (tk_key t)) (ck_h (tk_key t)) r" for m r
    using assms by (simp add: tk_wf_def scalar_laws mult.commute)
  then show "tk_CommitWithWitness t mo ro = ck_CommitWithWitness (tk_key t) mo ro"
    by (simp add: tk_CommitWithWitness_def NewCommitment_def ck_CommitWithWitness_def split: option.split)
qed

lemma alg_Op_id: "alg_Op (\<lambda>v. Inr v) (\<lambda>w. w) (\<lambda>_. True) (Some f) (Some s) (map Some rest) = Inr ((f :: 'v::monoid_add) + s + sum_list rest)"
  using alg_Op_Some [of "\<lambda>_. True" "\<lambda>w. w" f s rest "\<lambda>v. Inr v"] by simp

lemma alg_Op_map:
  "alg_Op (\<lambda>v. Inr v) (\<lambda>w. w) (\<lambda>_. True) (Some f) (Some s) (map (Some \<circ> g) xs) = Inr ((f :: 'v::monoid_add) + s + sum_list (map g xs))"
  using alg_Op_id [of f s "map g xs"] by simp

lemma alg_Op_two: "alg_Op (\<lambda>v. Inr v) (\<lambda>w. w) (\<lambda>_. True) (Some f) (Some s) [] = Inr ((f :: 'v::monoid_add) + s)"
  using alg_Op_id [of f s "[]"] by simp

lemmas pedersen_op_defs = ck_MessageOp_def ck_WitnessOp_def ck_CommitmentOp_def NewMessage_def NewWitness_def NewCommitment_def
  alg_Op_id alg_Op_map alg_Op_two

lemma commit_sums:
  assumes G: "prime_group G" and "list_all2 (\<lambda>c (m, r). c = ScalarOp G g m + ScalarOp G h r) cs mws"
  shows "sum_list cs = ScalarOp G g (sum_list (map fst mws)) + ScalarOp G h (sum_list (map snd mws))"
  using assms(2) by (induction cs mws rule: list_all2_induct) (auto simp: scalar_laws [OF G] algebra_simps)

interpretation ck: homomorphic_key ck_wf ck_SampleWitness ck_CommitWithWitness ck_Open ck_MessageOp ck_WitnessOp ck_CommitmentOp
  ck_MessageScalarOp ck_WitnessScalarOp ck_CommitmentScalarOp ck_ReRandomise ck_Shift 0 0
proof (unfold_locales, goal_cases)
  case (3 k c c' cs m w m' w' mws)
  then have G: "prime_group (ck_group k)" by (simp add: ck_wf_def)
  have rest: "sum_list cs = ScalarOp (ck_group k) (ck_g k) (sum_list (map fst mws)) + ScalarOp (ck_group k) (ck_h k) (sum_list (map snd mws))"
    by (rule commit_sums [OF G]) (use 3(2) in \<open>auto elim!: list_all2_mono\<close>)
  show ?case
    using 3(2) rest by (auto simp: pedersen_op_defs scalar_laws [OF G] algebra_simps)
next
  case (4 k m w c a)
  then have "ScalarOp (ck_group k) c a = ScalarOp (ck_group k) (ck_g k) (m * a) + ScalarOp (ck_group k) (ck_h k) (w * a)"
    by (auto simp: ck_wf_def scalar_laws mult.commute)
  then show ?case
    by (simp add: ck_MessageScalarOp_def ck_WitnessScalarOp_def ck_CommitmentScalarOp_def pedersen_op_defs)
qed (simp_all add: ck_Open_def pedersen_op_defs ck_ReRandomise_def ck_Shift_def ck_wf_def scalar_laws)

interpretation tk: commitment_key tk_wf "\<lambda>t. ck_SampleWitness (tk_key t)" tk_CommitWithWitness tk_Open
proof (unfold_locales, goal_cases)
  case (2 t co mo wo)
  then show ?case by (simp add: tk_Open_def ck_Open_def GenericOpen_def tk_commit)
qed (simp_all add: tk_CommitWithWitness_def NewCommitment_def split: option.split)

interpretation ck_com: group_ops "\<lambda>c. ck_CommitmentOpInv k (Some c)" "\<lambda>c c'. ck_CommitmentOp k (Some c) (Some c') []"
    "\<lambda>c. c" "\<lambda>_. True" for k :: "('g::ab_group_add, 'a) CommitmentKey"
  by unfold_locales (simp_all add: ck_CommitmentOpInv_def pedersen_op_defs)

interpretation ck_msg: group_ops "\<lambda>m. ck_MessageOpInv k (Some m)" "\<lambda>m m'. ck_MessageOp k (Some m) (Some m') []"
    "\<lambda>m. m" "\<lambda>_. True" for k :: "('g, 'a::field) CommitmentKey"
  by unfold_locales (simp_all add: ck_MessageOpInv_def pedersen_op_defs)

interpretation ck_wit: group_ops "\<lambda>w. ck_WitnessOpInv k (Some w)" "\<lambda>w w'. ck_WitnessOp k (Some w) (Some w') []"
    "\<lambda>w. w" "\<lambda>_. True" for k :: "('g, 'a::field) CommitmentKey"
  by unfold_locales (simp_all add: ck_WitnessOpInv_def pedersen_op_defs)

text \<open>\<open>CommitmentScalarOpUnsignedNumeric\<close> and its siblings of \<open>pkg/commitments/utils.go\<close> for the Pedersen key.\<close>

definition CommitmentScalarOpUnsignedNumeric ::
  "('g::ab_group_add, 'a) CommitmentKey option \<Rightarrow> 'g option \<Rightarrow> (nat \<times> nat) option \<Rightarrow> 'g res" where
  "CommitmentScalarOpUnsignedNumeric key commitment scalar =
     (case (key, scalar) of
        (Some k, Some (l, n)) \<Rightarrow>
          if commitment = None then Inl ErrIsNil
          else ScalarOpUnsignedNumeric (\<lambda>c. ck_CommitmentOpInv k (Some c)) (\<lambda>c c'. ck_CommitmentOp k (Some c) (Some c') []) commitment l n
      | _ \<Rightarrow> Inl ErrIsNil)"

definition MessageScalarOpUnsignedNumeric ::
  "('g, 'a::field) CommitmentKey option \<Rightarrow> 'a option \<Rightarrow> (nat \<times> nat) option \<Rightarrow> 'a res" where
  "MessageScalarOpUnsignedNumeric key message scalar =
     (case (key, scalar) of
        (Some k, Some (l, n)) \<Rightarrow>
          if message = None then Inl ErrIsNil
          else ScalarOpUnsignedNumeric (\<lambda>m. ck_MessageOpInv k (Some m)) (\<lambda>m m'. ck_MessageOp k (Some m) (Some m') []) message l n
      | _ \<Rightarrow> Inl ErrIsNil)"

definition WitnessScalarOpUnsignedNumeric ::
  "('g, 'a::field) CommitmentKey option \<Rightarrow> 'a option \<Rightarrow> (nat \<times> nat) option \<Rightarrow> 'a res" where
  "WitnessScalarOpUnsignedNumeric key witness scalar =
     (case (key, scalar) of
        (Some k, Some (l, n)) \<Rightarrow>
          if witness = None then Inl ErrIsNil
          else ScalarOpUnsignedNumeric (\<lambda>w. ck_WitnessOpInv k (Some w)) (\<lambda>w w'. ck_WitnessOp k (Some w) (Some w') []) witness l n
      | _ \<Rightarrow> Inl ErrIsNil)"

lemma numeric_scalar_ops:
  assumes "n < 2 ^ l"
  shows "CommitmentScalarOpUnsignedNumeric (Some k) (Some c) (Some (l, n)) = Inr (nsum n c)"
    "MessageScalarOpUnsignedNumeric (Some k) (Some m) (Some (l, n)) = Inr (nsum n m)"
    "WitnessScalarOpUnsignedNumeric (Some k) (Some w) (Some (l, n)) = Inr (nsum n w)"
  using ck_com.ScalarOpUnsigned_ok [OF TrueI assms, of k c] ck_msg.ScalarOpUnsigned_ok [OF TrueI assms, of k m]
    ck_wit.ScalarOpUnsigned_ok [OF TrueI assms, of k w]
  by (simp_all add: CommitmentScalarOpUnsignedNumeric_def MessageScalarOpUnsignedNumeric_def WitnessScalarOpUnsignedNumeric_def)

lemma ck_Open_iff:
  assumes "ck_wf k"
  shows "ck_Open k (Some c) (Some m) (Some r) = Inr () \<longleftrightarrow> ScalarOp (ck_group k) (ck_h k) r = c - ScalarOp (ck_group k) (ck_g k) m"
  using ck.open_iff [OF assms, of c m r] by (auto simp: eq_diff_eq add.commute)

text \<open>Two openings of one commitment to different messages give the discrete logarithm of the second generator.\<close>

lemma ck_two_openings:
  assumes wf: "ck_wf k" and op: "ck_Open k (Some c) (Some m) (Some r) = Inr ()" "ck_Open k (Some c) (Some m') (Some r') = Inr ()" "m \<noteq> m'"
  shows "r \<noteq> r' \<and> ck_h k = ScalarOp (ck_group k) (ck_g k) ((m - m') / (r' - r))"
proof -
  let ?G = "ck_group k" and ?g = "ck_g k" and ?h = "ck_h k"
  have G: "prime_group ?G" and nz: "?g \<noteq> 0" using wf by (simp_all add: ck_wf_def)
  from op(1,2) have eq: "ScalarOp ?G ?h (r' - r) = ScalarOp ?G ?g (m - m')" by (simp add: ck_Open_iff [OF wf] scalar_laws [OF G])
  have "r \<noteq> r'" using eq op(3) nz scalar_eq_zero [OF G, of ?g "m - m'"] scalar_laws(5) [OF G] by auto
  moreover have "?h = ScalarOp ?G (ScalarOp ?G ?h (r' - r)) (1 / (r' - r))"
    using \<open>r \<noteq> r'\<close> unfolding scalar_laws(3) [OF G] by (simp add: scalar_laws(4) [OF G])
  ultimately show ?thesis unfolding eq scalar_laws(3) [OF G] by simp
qed

section \<open>Properties\<close>

text \<open>C8. Pedersen commitments hide perfectly and bind up to a discrete logarithm: under a key the constructor
  accepts, for every commitment, message and other message there is exactly one witness that opens it to the other
  message, and two openings of one commitment to different messages give the logarithm of the second generator.\<close>

theorem pedersen_hiding_binding:
  fixes G :: "('g::ab_group_add, 'a::field) PrimeGroup"
  assumes "prime_group G" "NewCommitmentKeyUnchecked G (Some g) (Some h) = Inr k"
  shows "(\<exists>!r. ck_Open k (Some c) (Some m) (Some r) = Inr ()) \<and>
    (ck_Open k (Some c) (Some m) (Some r) = Inr () \<and> ck_Open k (Some c) (Some m') (Some r') = Inr () \<and> m \<noteq> m' \<longrightarrow>
      r \<noteq> r' \<and> h = ScalarOp G g ((m - m') / (r' - r)))"
proof -
  have k: "ck_wf k" "ck_group k = G" "ck_g k = g" "ck_h k = h"
    using NewCommitmentKey_wf [OF assms] by simp_all
  have nz: "h \<noteq> 0" using k by (auto simp: ck_wf_def)
  obtain r0 where r0: "c - ScalarOp G g m = ScalarOp G h r0" by (rule scalar_dlog [OF assms(1) nz])
  have "\<exists>!r. ck_Open k (Some c) (Some m) (Some r) = Inr ()"
    unfolding ck_Open_iff [OF k(1)] k r0 scalar_cancel [OF assms(1) nz] by simp
  then show ?thesis using ck_two_openings [OF k(1)] k by blast
qed

text \<open>The trapdoor: a trapdoor key commits like the public key it exports, and with \<open>Equivocate\<close> it opens any of
  its commitments to any other message, with the one witness that does so.\<close>

theorem pedersen_trapdoor:
  fixes G :: "('g::ab_group_add, 'a::field) PrimeGroup"
  assumes "prime_group G" "NewTrapdoorKey G (Some g) (Some lambda) = Inr t"
  shows "tk_CommitWithWitness t mo ro = ck_CommitWithWitness (tk_Export t) mo ro \<and>
    (\<exists>r'. Equivocate t (Some m) (Some r) (Some m') = Inr r' \<and>
      tk_CommitWithWitness t (Some m') (Some r') = tk_CommitWithWitness t (Some m) (Some r) \<and>
      (\<forall>r''. tk_CommitWithWitness t (Some m') (Some r'') = tk_CommitWithWitness t (Some m) (Some r) \<longrightarrow> r'' = r'))"
proof -
  have wf: "tk_wf t" "ck_group (tk_key t) = G" using NewTrapdoorKey_wf [OF assms] by simp_all
  have l: "tk_lambda t \<noteq> 0" "ck_g (tk_key t) \<noteq> 0" using wf by (simp_all add: tk_wf_def)
  let ?r = "r + inverse (tk_lambda t) * (m - m')"
  have eqv: "Equivocate t (Some m) (Some r) (Some m') = Inr ?r" using l by (simp add: Equivocate_def NewWitness_def)
  have same: "tk_CommitWithWitness t (Some m') (Some r'') = tk_CommitWithWitness t (Some m) (Some r) \<longleftrightarrow>
      m' + tk_lambda t * r'' = m + tk_lambda t * r" for r''
    using scalar_cancel [OF assms(1) l(2)] by (simp add: tk_CommitWithWitness_def NewCommitment_def wf(2))
  have r: "m' + tk_lambda t * ?r = m + tk_lambda t * r" using l by (simp add: algebra_simps)
  have "r'' = ?r" if "m' + tk_lambda t * r'' = m + tk_lambda t * r" for r''
  proof -
    have "m' + tk_lambda t * r'' = m' + tk_lambda t * ?r" using that r by (rule trans [OF _ sym])
    then have "tk_lambda t * r'' = tk_lambda t * ?r" by (rule add_left_imp_eq)
    then show ?thesis unfolding mult_left_cancel [OF l(1)] .
  qed
  then have "\<forall>r''. tk_CommitWithWitness t (Some m') (Some r'') = tk_CommitWithWitness t (Some m) (Some r) \<longrightarrow> r'' = ?r"
    by (simp only: same) blast
  moreover have "tk_CommitWithWitness t (Some m') (Some ?r) = tk_CommitWithWitness t (Some m) (Some r)" using r by (simp only: same)
  moreover have "tk_CommitWithWitness t mo ro = ck_CommitWithWitness (tk_Export t) mo ro" by (simp only: tk_Export_def tk_commit [OF wf(1)])
  ultimately show ?thesis using eqv by (intro conjI exI [of _ ?r])
qed

text \<open>Pedersen commitments are homomorphic: commitments that open combine with \<open>CommitmentOp\<close>, \<open>CommitmentScalarOp\<close>,
  the numeric scalar operation, \<open>ReRandomise\<close> and \<open>Shift\<close> to commitments that open to the combined message under the
  combined witness.\<close>

theorem pedersen_homomorphic:
  fixes G :: "('g::ab_group_add, 'a::field) PrimeGroup"
  assumes "prime_group G" "NewCommitmentKeyUnchecked G (Some g) (Some h) = Inr k"
    and open_: "ck_Open k (Some c) (Some m) (Some r) = Inr ()" "ck_Open k (Some c') (Some m') (Some r') = Inr ()"
    and "n < 2 ^ l"
  shows "\<exists>c1 c2 c3 c4 c5. ck_CommitmentOp k (Some c) (Some c') [] = Inr c1 \<and> ck_Open k (Some c1) (Some (m + m')) (Some (r + r')) = Inr () \<and>
    ck_CommitmentScalarOp k (Some c) (Some a) = Inr c2 \<and> ck_Open k (Some c2) (Some (m * a)) (Some (r * a)) = Inr () \<and>
    CommitmentScalarOpUnsignedNumeric (Some k) (Some c) (Some (l, n)) = Inr c3 \<and>
      ck_Open k (Some c3) (Some (of_nat n * m)) (Some (of_nat n * r)) = Inr () \<and>
    ck_ReRandomise k (Some c) (Some r') = Inr c4 \<and> ck_Open k (Some c4) (Some m) (Some (r + r')) = Inr () \<and>
    ck_Shift k (Some c) (Some m') = Inr c5 \<and> ck_Open k (Some c5) (Some (m + m')) (Some r) = Inr ()"
proof -
  have k: "ck_wf k" "ck_group k = G" using NewCommitmentKey_wf [OF assms(1,2)] by simp_all
  have "ck_Open k (Some (nsum n c)) (Some (of_nat n * m)) (Some (of_nat n * r)) = Inr ()"
    using open_(1) ck.open_iff [OF k(1)] k(2) assms(1)
    by (auto simp: nsum_of_nat [symmetric] scalar_nsum nsum_distrib)
  with ck.op_opens [OF k(1) open_] ck.scalar_opens [OF k(1) open_(1), of a] ck.rerandomise_opens [OF k(1) open_(1), of r']
    ck.shift_opens [OF k(1) open_(1), of m'] numeric_scalar_ops(1) [OF assms(5), of k c]
  show ?thesis
    by (auto simp: pedersen_op_defs ck_MessageScalarOp_def ck_WitnessScalarOp_def)
qed

subsection \<open>Instances\<close>

lemma example_key: "NewCommitmentKeyUnchecked (field_group :: (rat, rat) PrimeGroup) (Some 1) (Some 3) =
    Inr \<lparr>ck_group = field_group, ck_g = 1, ck_h = 3\<rparr>"
  by (simp add: NewCommitmentKeyUnchecked_def)

lemma example_open:
  "ck_Open \<lparr>ck_group = field_group, ck_g = 1, ck_h = 3 :: rat\<rparr> (Some 11) (Some 5) (Some 2) = Inr ()"
  "ck_Open \<lparr>ck_group = field_group, ck_g = 1, ck_h = 3 :: rat\<rparr> (Some 11) (Some 8) (Some 1) = Inr ()"
  by (simp_all add: ck_Open_def GenericOpen_def field_group_def)

theorem pedersen_hiding_binding_witness:
  "(\<exists>!r. ck_Open \<lparr>ck_group = field_group, ck_g = 1, ck_h = 3 :: rat\<rparr> (Some 11) (Some 5) (Some r) = Inr ()) \<and>
   (3 :: rat) = ScalarOp field_group 1 ((5 - 8) / (1 - 2))"
  using pedersen_hiding_binding [OF field_group example_key, of 11 5 2 8 1] example_open by simp

theorem pedersen_trapdoor_witness:
  "\<exists>r'. Equivocate \<lparr>tk_key = \<lparr>ck_group = field_group, ck_g = 1, ck_h = 3 :: rat\<rparr>, tk_lambda = 3\<rparr> (Some 5) (Some 2) (Some 8) = Inr r' \<and>
     tk_CommitWithWitness \<lparr>tk_key = \<lparr>ck_group = field_group, ck_g = 1, ck_h = 3 :: rat\<rparr>, tk_lambda = 3\<rparr> (Some 8) (Some r') =
     tk_CommitWithWitness \<lparr>tk_key = \<lparr>ck_group = field_group, ck_g = 1, ck_h = 3 :: rat\<rparr>, tk_lambda = 3\<rparr> (Some 5) (Some 2)"
proof -
  have "NewTrapdoorKey field_group (Some 1) (Some 3) =
      Inr \<lparr>tk_key = \<lparr>ck_group = field_group, ck_g = 1, ck_h = 3 :: rat\<rparr>, tk_lambda = 3\<rparr>"
    by (simp add: NewTrapdoorKey_def field_group_def)
  from pedersen_trapdoor [OF field_group this, where m = 5 and r = 2 and m' = 8] show ?thesis by blast
qed

theorem pedersen_homomorphic_witness:
  "\<exists>c1. ck_CommitmentOp \<lparr>ck_group = field_group, ck_g = 1, ck_h = 3 :: rat\<rparr> (Some 11) (Some 11) [] = Inr c1 \<and>
     ck_Open \<lparr>ck_group = field_group, ck_g = 1, ck_h = 3 :: rat\<rparr> (Some c1) (Some (5 + 8)) (Some (2 + 1)) = Inr ()"
proof -
  have "(6 :: nat) < 2 ^ 3" by simp
  from pedersen_homomorphic [OF field_group example_key example_open this] show ?thesis by blast
qed

end
