(* ===== verification/Transcripts.thy ===== *)
theory Transcripts
  imports Echo Commitments
begin

text \<open>
  Transcripts and hash commitments: the cSHAKE256 sponge of the standard library as far as it is used,
  the transcript of \<open>pkg/transcripts/hagrid\<close> with the helpers of \<open>pkg/transcripts/utils.go\<close>, and the
  commitments of \<open>pkg/commitments/hashcom\<close>. The sponge's output stream and the keyed hash BLAKE2b are
  parameters; what is absorbed is kept byte by byte, so that the encoding of a transcript can be shown
  to be injective.
\<close>

unbundle bit_operations_syntax

section \<open>Encodings\<close>

text \<open>\<open>binary.BigEndian.AppendUint64\<close> and \<open>binary.LittleEndian\<close>, strings as byte slices.\<close>

definition be64 :: "64 word \<Rightarrow> bytes" where
  "be64 w = map (\<lambda>i. ucast (drop_bit (56 - 8 * i) w)) [0..<8]"

definition le64 :: "64 word \<Rightarrow> bytes" where
  "le64 w = map (\<lambda>i. ucast (drop_bit (8 * i) w)) [0..<8]"

definition str_bytes :: "string \<Rightarrow> bytes" where
  "str_bytes s = map of_char s"

definition len64 :: "'a list \<Rightarrow> bytes" where
  "len64 xs = be64 (word_of_nat (length xs))"

section \<open>The sponge\<close>

text \<open>
  \<open>sha3.SHAKE\<close>: absorbing until the first read, then squeezing; a write after a read panics. \<open>xof S m k\<close> is byte
  \<open>k\<close> of the output of cSHAKE256 with empty function name and customisation \<open>S\<close> on input \<open>m\<close>.
\<close>

record SHAKE =
  sh_custom :: bytes
  sh_absorbed :: bytes
  sh_squeezed :: "nat option"

type_synonym xof = "bytes \<Rightarrow> bytes \<Rightarrow> nat \<Rightarrow> byte"

definition NewCSHAKE256 :: "bytes \<Rightarrow> SHAKE" where
  "NewCSHAKE256 S = \<lparr>sh_custom = S, sh_absorbed = [], sh_squeezed = None\<rparr>"

definition shake_Write :: "SHAKE \<Rightarrow> bytes \<Rightarrow> SHAKE res" where
  "shake_Write h b = (if sh_squeezed h \<noteq> None then Inl Panic else Inr (h\<lparr>sh_absorbed := sh_absorbed h @ b\<rparr>))"

definition shake_Read :: "xof \<Rightarrow> SHAKE \<Rightarrow> nat \<Rightarrow> bytes \<times> SHAKE" where
  "shake_Read xof h n = (let k = (case sh_squeezed h of None \<Rightarrow> 0 | Some k \<Rightarrow> k) in
     (map (xof (sh_custom h) (sh_absorbed h)) [k..<k + n], h\<lparr>sh_squeezed := Some (k + n)\<rparr>))"

definition shake_Writes :: "SHAKE \<Rightarrow> bytes list \<Rightarrow> SHAKE res" where
  "shake_Writes h bs = FoldOrError shake_Write h bs"

lemma shake_Writes_absorbing:
  "sh_squeezed h = None \<Longrightarrow> shake_Writes h bs = Inr (h\<lparr>sh_absorbed := sh_absorbed h @ concat bs\<rparr>)"
  unfolding shake_Writes_def by (induction bs arbitrary: h) (simp_all add: shake_Write_def)

text \<open>\<open>hex.EncodeToString\<close>.\<close>

definition hex_digit :: "8 word \<Rightarrow> byte" where
  "hex_digit d = (if d < 10 then 48 + d else 87 + d)"

definition hex_encode :: "bytes \<Rightarrow> bytes" where
  "hex_encode bs = concat (map (\<lambda>b. [hex_digit (drop_bit 4 b), hex_digit (take_bit 4 b)]) bs)"

section \<open>The transcript\<close>

text \<open>A transcript wraps a sponge; the tags are the values of the constant block (\<open>iota\<close> is 1 at \<open>domainTag\<close>).\<close>

type_synonym transcript = SHAKE

definition customizedShakeName :: string where
  "customizedShakeName = ''BRON_CRYPTO_HAGRID_TRANSCRIPT-''"

definition domainTag :: byte where "domainTag = 0xa1"
definition appendTag :: byte where "appendTag = 0xa2"
definition extractTag :: byte where "extractTag = 0xa3"
definition extractedTag :: byte where "extractedTag = 0xa4"
definition continuedTag :: byte where "continuedTag = 0xa5"

definition NewTranscript :: "string \<Rightarrow> transcript" where
  "NewTranscript name = NewCSHAKE256 (str_bytes (customizedShakeName @ name))"

definition AppendDomainSeparator :: "transcript \<Rightarrow> bytes \<Rightarrow> transcript res" where
  "AppendDomainSeparator t domainSeparatorTag =
     shake_Writes t [[domainTag], len64 domainSeparatorTag, domainSeparatorTag]"

definition AppendBytes :: "transcript \<Rightarrow> bytes \<Rightarrow> bytes list \<Rightarrow> transcript res" where
  "AppendBytes t label messages =
     shake_Writes t ([[appendTag], len64 label, label, len64 messages] @
       concat (map (\<lambda>message. [len64 message, message]) messages))"

definition ExtractBytes :: "xof \<Rightarrow> transcript \<Rightarrow> bytes \<Rightarrow> 64 word \<Rightarrow> (bytes \<times> transcript) res" where
  "ExtractBytes xof t label outLen =
     (if outLen = 0 then Inl ErrLength
      else rbind (shake_Writes t [[extractTag], len64 label, label, be64 outLen]) (\<lambda>h.
        rbind (shake_Write h [continuedTag]) (\<lambda>t'.
        rbind (shake_Write h [extractedTag]) (\<lambda>hClone.
        Inr (fst (shake_Read xof hClone (unat outLen)), t')))))"

definition transcript_Clone :: "transcript \<Rightarrow> transcript" where
  "transcript_Clone t = t"

definition ts_Append :: "('a \<Rightarrow> bytes) \<Rightarrow> transcript option \<Rightarrow> bytes \<Rightarrow> 'a list \<Rightarrow> transcript option res" where
  "ts_Append Bytes tape label xs = (case tape of
     None \<Rightarrow> Inr None
   | Some t \<Rightarrow> rbind (FoldOrError (\<lambda>t x. AppendBytes t label [Bytes x]) t xs) (\<lambda>t'. Inr (Some t')))"

text \<open>The finite structure is its element size and its hash; \<open>errs.New\<close> without a sentinel is \<open>ErrArgument\<close>.\<close>

definition ts_Extract :: "xof \<Rightarrow> transcript option \<Rightarrow> bytes \<Rightarrow> (nat \<times> (bytes \<Rightarrow> 'a res)) option \<Rightarrow> ('a \<times> transcript) res" where
  "ts_Extract xof tape label f = (case (tape, f) of
     (None, _) \<Rightarrow> Inl ErrArgument
   | (_, None) \<Rightarrow> Inl ErrArgument
   | (Some t, Some (elementSize, hash)) \<Rightarrow>
       rbind (ExtractBytes xof t label (word_of_nat (elementSize + 10))) (\<lambda>(buf, t').
         rbind (hash buf) (\<lambda>x. Inr (x, t'))))"

section \<open>The encoding of a transcript is injective\<close>

lemma length_be64 [simp]: "length (be64 w) = 8" "length (len64 xs) = 8" "length (le64 w) = 8"
  by (simp_all add: be64_def len64_def le64_def)

lemma be64_inject [simp]: "be64 v = be64 w \<longleftrightarrow> v = w"
proof
  assume eq: "be64 v = be64 w"
  show "v = w"
  proof (rule bit_word_eqI)
    fix n assume n: "n < LENGTH(64)"
    define i where "i = 7 - n div 8"
    have i: "i < 8" by (simp add: i_def)
    have "n div 8 \<le> 7" using n by simp
    then have sh: "56 - 8 * i + n mod 8 = n" unfolding i_def by presburger
    have "bit (u :: 64 word) n \<longleftrightarrow> bit (be64 u ! i) (n mod 8)" for u
      using i by (simp add: be64_def bit_ucast_iff bit_drop_bit_eq sh)
    then show "bit v n \<longleftrightarrow> bit w n" using eq by simp
  qed
qed simp

lemma len64_inject: "length xs < 2 ^ 63 \<Longrightarrow> length ys < 2 ^ 63 \<Longrightarrow> len64 xs = len64 ys \<longleftrightarrow> length xs = length ys"
  by (simp add: len64_def word_of_nat_eq_iff take_bit_nat_eq_self)

lemma fixed_prefix: "length a = length b \<Longrightarrow> a @ r = b @ s \<Longrightarrow> a = b \<and> r = s"
  by simp

text \<open>A length-prefixed slice can be read back from the front of a byte string.\<close>

lemma prefixed_inject:
  assumes "go_slice x" "go_slice y" "len64 x @ x @ r = len64 y @ y @ s"
  shows "x = y \<and> r = s"
proof -
  from fixed_prefix [OF _ assms(3)] have "len64 x = len64 y" "x @ r = y @ s" by simp_all
  moreover from this have "length x = length y" using assms by (simp add: len64_inject go_slice_def)
  ultimately show ?thesis by simp
qed

datatype tape_op = DomainSeparator bytes | Append_op bytes "bytes list" | Extract_op bytes "64 word"

definition encode_messages :: "bytes list \<Rightarrow> bytes" where
  "encode_messages ms = concat (map (\<lambda>m. len64 m @ m) ms)"

fun encode_op :: "tape_op \<Rightarrow> bytes" where
  "encode_op (DomainSeparator d) = domainTag # len64 d @ d"
| "encode_op (Append_op l ms) = appendTag # len64 l @ l @ len64 ms @ encode_messages ms"
| "encode_op (Extract_op l n) = extractTag # len64 l @ l @ be64 n @ [continuedTag]"

fun op_ok :: "tape_op \<Rightarrow> bool" where
  "op_ok (DomainSeparator d) = go_slice d"
| "op_ok (Append_op l ms) = (go_slice l \<and> length ms < 2 ^ 63 \<and> (\<forall>m\<in>set ms. go_slice m))"
| "op_ok (Extract_op l n) = (go_slice l \<and> n \<noteq> 0)"

lemma encode_messages_inject:
  assumes "length ms = length ns" "\<forall>m\<in>set ms. go_slice m" "\<forall>m\<in>set ns. go_slice m"
    and "encode_messages ms @ r = encode_messages ns @ s"
  shows "ms = ns \<and> r = s"
  using assms
proof (induction ms ns rule: list_induct2)
  case (Cons m ms n ns)
  from Cons.prems have "len64 m @ m @ (encode_messages ms @ r) = len64 n @ n @ (encode_messages ns @ s)"
    by (simp add: encode_messages_def)
  from prefixed_inject [OF _ _ this] Cons.prems have "m = n" "encode_messages ms @ r = encode_messages ns @ s" by simp_all
  with Cons.IH Cons.prems show ?case by simp
qed (simp add: encode_messages_def)

lemmas tag_defs = domainTag_def appendTag_def extractTag_def extractedTag_def continuedTag_def

lemma encode_op_inject:
  assumes "op_ok a" "op_ok b" "encode_op a @ r = encode_op b @ s"
  shows "a = b \<and> r = s"
proof (cases a; cases b)
  fix d d' assume ab: "a = DomainSeparator d" "b = DomainSeparator d'"
  with assms prefixed_inject [of d d' r s] show ?thesis by simp
next
  fix l ms l' ms' assume ab: "a = Append_op l ms" "b = Append_op l' ms'"
  then have "len64 l @ l @ (len64 ms @ (encode_messages ms @ r)) = len64 l' @ l' @ (len64 ms' @ (encode_messages ms' @ s))"
    using assms by simp
  from prefixed_inject [OF _ _ this] assms ab
  have "l = l'" and rest: "len64 ms @ (encode_messages ms @ r) = len64 ms' @ (encode_messages ms' @ s)" by simp_all
  from fixed_prefix [OF _ rest] have "len64 ms = len64 ms'" "encode_messages ms @ r = encode_messages ms' @ s" by simp_all
  moreover from this(1) have "length ms = length ms'" using assms(1,2) ab len64_inject [of ms ms'] by simp
  ultimately have "ms = ms' \<and> r = s" using assms(1,2) ab encode_messages_inject [of ms ms' r s] by simp
  with ab \<open>l = l'\<close> show ?thesis by simp
next
  fix l n l' n' assume ab: "a = Extract_op l n" "b = Extract_op l' n'"
  then have "len64 l @ l @ (be64 n @ (continuedTag # r)) = len64 l' @ l' @ (be64 n' @ (continuedTag # s))"
    using assms by simp
  from prefixed_inject [OF _ _ this] assms ab
  have "l = l'" and rest: "be64 n @ (continuedTag # r) = be64 n' @ (continuedTag # s)" by simp_all
  from fixed_prefix [OF _ rest] have "n = n'" "r = s" by simp_all
  with ab \<open>l = l'\<close> show ?thesis by simp
qed (use assms in \<open>auto simp: tag_defs\<close>)

lemma encode_ops_inject:
  assumes "list_all op_ok xs" "list_all op_ok ys" "concat (map encode_op xs) = concat (map encode_op ys)"
  shows "xs = ys"
  using assms
proof (induction xs arbitrary: ys)
  case Nil
  then show ?case by (cases ys; cases "hd ys") auto
next
  case (Cons x xs)
  have "encode_op o' \<noteq> []" for o' by (cases o') simp_all
  with Cons.prems obtain y ys' where ys: "ys = y # ys'" by (cases ys) auto
  with Cons.prems have "x = y" "concat (map encode_op xs) = concat (map encode_op ys')"
    using encode_op_inject [of x y] by auto
  with Cons ys show ?case by simp
qed

section \<open>Operations absorb their encoding\<close>

text \<open>A transcript is never read itself: only a clone is squeezed.\<close>

fun run_op :: "xof \<Rightarrow> transcript \<Rightarrow> tape_op \<Rightarrow> transcript res" where
  "run_op xof t (DomainSeparator d) = AppendDomainSeparator t d"
| "run_op xof t (Append_op l ms) = AppendBytes t l ms"
| "run_op xof t (Extract_op l n) = rbind (ExtractBytes xof t l n) (\<lambda>(_, t'). Inr t')"

lemma concat_pairs: "concat (concat (map (\<lambda>m. [len64 m, m]) ms)) = encode_messages ms"
  by (induction ms) (simp_all add: encode_messages_def)

lemma run_op_absorbs:
  assumes "sh_squeezed t = None" "op_ok a"
  shows "run_op xof t a = Inr (t\<lparr>sh_absorbed := sh_absorbed t @ encode_op a\<rparr>)"
  using assms
  by (cases a) (simp_all add: AppendDomainSeparator_def AppendBytes_def ExtractBytes_def shake_Writes_absorbing
      shake_Write_def concat_pairs)

lemma run_ops_absorb:
  "sh_squeezed t = None \<Longrightarrow> list_all op_ok as \<Longrightarrow>
     FoldOrError (run_op xof) t as = Inr (t\<lparr>sh_absorbed := sh_absorbed t @ concat (map encode_op as)\<rparr>)"
  by (induction as arbitrary: t) (simp_all add: run_op_absorbs)

lemma str_bytes_inject: "str_bytes s = str_bytes s' \<longleftrightarrow> s = s'"
proof -
  have "inj (of_char :: char \<Rightarrow> byte)"
  proof (rule injI)
    fix c d assume "(of_char c :: byte) = of_char d"
    then have "(word_of_nat (of_char c) :: byte) = word_of_nat (of_char d)" by (simp add: of_nat_of_char)
    moreover have "(of_char e :: nat) < 256" for e using range_nat_of_char by (metis atLeastLessThan_iff rangeI)
    ultimately have "(of_char c :: nat) = of_char d" by (simp add: word_of_nat_eq_iff take_bit_nat_eq_self)
    then show "c = d" by (simp add: inj_of_char inj_eq)
  qed
  then show ?thesis unfolding str_bytes_def by (rule inj_map_eq_map)
qed

section \<open>Hash commitments\<close>

text \<open>
  \<open>hash\<close> is the keyed hash; keys, witnesses and commitments are arrays of 32 bytes, a message is a byte slice. The
  random source is the list of the bytes it still delivers.
\<close>

definition hc_SampleWitness :: "bytes \<Rightarrow> bytes option \<Rightarrow> (bytes \<times> bytes) res" where
  "hc_SampleWitness k prng = (case prng of None \<Rightarrow> Inl ErrIsNil | Some bs \<Rightarrow> draw 32 bs)"

definition hc_SampleCommitmentKey :: "bytes option \<Rightarrow> (bytes \<times> bytes) res" where
  "hc_SampleCommitmentKey prng = (case prng of None \<Rightarrow> Inl ErrIsNil | Some bs \<Rightarrow> draw 32 bs)"

definition hc_ExtractCommitmentKey :: "xof \<Rightarrow> transcript option \<Rightarrow> bytes \<Rightarrow> (bytes \<times> transcript) res" where
  "hc_ExtractCommitmentKey xof tape label = (case tape of
     None \<Rightarrow> Inl ErrIsNil
   | Some t \<Rightarrow> if label = [] then Inl ErrIsNil else ExtractBytes xof t label 32)"

text \<open>A nil message is written as no bytes; the witness is an array and never nil.\<close>

definition hc_CommitWithWitness :: "(bytes \<Rightarrow> bytes \<Rightarrow> bytes) \<Rightarrow> bytes \<Rightarrow> bytes option \<Rightarrow> bytes option \<Rightarrow> bytes res" where
  "hc_CommitWithWitness hash k message witness =
     (case witness of None \<Rightarrow> Inl ErrIsNil
      | Some w \<Rightarrow> Inr (hash k ((case message of None \<Rightarrow> [] | Some m \<Rightarrow> m) @ w)))"

definition hc_Open :: "(bytes \<Rightarrow> bytes \<Rightarrow> bytes) \<Rightarrow> bytes \<Rightarrow> bytes option \<Rightarrow> bytes option \<Rightarrow> bytes option \<Rightarrow> unit res" where
  "hc_Open hash k commitment message witness =
     GenericOpen (hc_CommitWithWitness hash) (Some k) commitment message witness"

interpretation hc: commitment_key "\<lambda>_. True" hc_SampleWitness "hc_CommitWithWitness hash" "hc_Open hash" for hash
  by unfold_locales (simp_all add: hc_CommitWithWitness_def hc_Open_def)

lemma hc_binding:
  assumes "hc_Open hash k (Some c) (Some m) (Some w) = Inr ()" "hc_Open hash k (Some c) (Some m') (Some w') = Inr ()"
    and "length w = length w'"
  shows "(m = m' \<and> w = w') \<or> (m @ w \<noteq> m' @ w' \<and> hash k (m @ w) = hash k (m' @ w'))"
  using assms by (auto simp: hc.open_iff hc_CommitWithWitness_def)

section \<open>Main results\<close>

text \<open>
  C21. A transcript binds the whole history of a protocol: two transcripts are in the same state only if they were
  created with the same name and went through the same separators, labelled messages and extractions in the same order.
  So challenges drawn from different histories come from different sponge inputs.
\<close>

theorem transcript_binding:
  assumes "FoldOrError (run_op xof) (NewTranscript name) as = Inr t" "FoldOrError (run_op xof') (NewTranscript name') bs = Inr t"
    and "list_all op_ok as" "list_all op_ok bs"
  shows "name = name' \<and> as = bs"
proof -
  have sq: "sh_squeezed (NewTranscript n) = None" for n by (simp add: NewTranscript_def NewCSHAKE256_def)
  from assms(1) run_ops_absorb [OF sq assms(3)] assms(2) run_ops_absorb [OF sq assms(4)]
  have eq: "(NewTranscript name)\<lparr>sh_absorbed := concat (map encode_op as)\<rparr> = (NewTranscript name')\<lparr>sh_absorbed := concat (map encode_op bs)\<rparr>"
    by (simp add: NewTranscript_def NewCSHAKE256_def)
  then have "concat (map encode_op as) = concat (map encode_op bs)"
    and "str_bytes (customizedShakeName @ name) = str_bytes (customizedShakeName @ name')"
    by (simp_all add: NewTranscript_def NewCSHAKE256_def)
  with encode_ops_inject [OF assms(3,4)] show ?thesis by (simp add: str_bytes_inject)
qed

theorem transcript_binding_witness:
  "\<exists>t. FoldOrError (run_op (\<lambda>_ _ _. 0)) (NewTranscript ''x'') [DomainSeparator [1], Append_op [2] [[3], []], Extract_op [4] 5] = Inr t \<and>
     (\<forall>name as. list_all op_ok as \<and> FoldOrError (run_op (\<lambda>_ _ _. 0)) (NewTranscript name) as = Inr t \<longrightarrow>
        name = ''x'' \<and> as = [DomainSeparator [1], Append_op [2] [[3], []], Extract_op [4] 5])"
proof -
  let ?ops = "[DomainSeparator [1], Append_op [2] [[3], []], Extract_op [4] 5]"
  have ok: "list_all op_ok ?ops" by (simp add: go_slice_def)
  from run_ops_absorb [OF _ ok, of "NewTranscript ''x''" "\<lambda>_ _ _. 0"] obtain t
    where t: "FoldOrError (run_op (\<lambda>_ _ _. 0)) (NewTranscript ''x'') ?ops = Inr t"
    by (simp add: NewTranscript_def NewCSHAKE256_def)
  from transcript_binding [OF _ t _ ok] t show ?thesis by blast
qed

end
