(* ===== verification/Session.thy ===== *)
theory Session
  imports Transcripts
begin

text \<open>
  Session setup (\<open>pkg/mpc/session\<close>): the context of a session (identifier, transcript, one sponge of
  shared randomness per peer) with its derivation for a sub-quorum, and the four-round protocol that
  creates it (commit to a common and to pairwise contributions, open them, hash everything). The
  hash functions are parameters: \<open>sum512\<close> for SHA3-512, \<open>xof\<close> for cSHAKE256, \<open>hash\<close> for keyed BLAKE2b.
  A participant whose round fails is not used again, so the rounds return its new state on success only.
\<close>

section \<open>Context\<close>

definition CollisionResistanceBytesCeil :: nat where
  "CollisionResistanceBytesCeil = 32"

record Context =
  ctx_sid :: bytes
  ctx_holderID :: ID
  ctx_sortedQuorum :: "ID list"
  ctx_tape :: transcript
  ctx_seeds :: "ID \<rightharpoonup> SHAKE"

definition transcriptName :: string where
  "transcriptName = ''BRON_CRYPTO_SETUP_TRANSCRIPT-''"
definition transcriptInitLabel :: string where
  "transcriptInitLabel = ''BRON_CRYPTO_SETUP_TRANSCRIPT_INIT-''"
definition seedDomainSeparatorLabel :: string where
  "seedDomainSeparatorLabel = ''BRON_CRYPTO_SETUP_SEED_DOMAIN_SEPARATOR-''"
definition subQuorumLabel :: string where
  "subQuorumLabel = ''BRON_CRYPTO_SETUP_SUBQUORUM-''"
definition subContextDomainSeparatorLabel :: string where
  "subContextDomainSeparatorLabel = ''BRON_CRYPTO_SETUP_SUBCONTEXT-''"

text \<open>The sponge shared with peer \<open>j\<close>: 32 bytes are read at once so that nothing can be written any more.\<close>

definition pair_seed :: "xof \<Rightarrow> ID \<Rightarrow> ID \<Rightarrow> bytes \<Rightarrow> SHAKE res" where
  "pair_seed xof i j s =
     rbind (shake_Writes (NewCSHAKE256 (str_bytes seedDomainSeparatorLabel)) [le64 (min i j), le64 (max i j), s])
       (\<lambda>seed. Inr (snd (shake_Read xof seed 32)))"

definition NewContext ::
  "(bytes \<Rightarrow> bytes) \<Rightarrow> xof \<Rightarrow> ID \<Rightarrow> ID hset option \<Rightarrow> bytes \<Rightarrow> (ID \<rightharpoonup> bytes) option \<Rightarrow> Context res" where
  "NewContext sum512 xof i quorum commonSeed pairwiseSeeds =
     (case (quorum, pairwiseSeeds) of
        (Some Q, Some seeds) \<Rightarrow>
          if i < 1 \<or> hs_Size Q < 2 \<or> \<not> hs_Contains Q i then Inl ErrInvalidArgument
          else if length commonSeed < CollisionResistanceBytesCeil then Inl ErrInvalidArgument
          else if \<not> list_all (\<lambda>j. j = i \<or> (case seeds j of None \<Rightarrow> False | Some s \<Rightarrow> CollisionResistanceBytesCeil \<le> length s)) (hs_List Q)
          then Inl ErrInvalidArgument
          else let commonImage = sum512 commonSeed; sortedQuorum = sort (hs_List Q) in
            rbind (AppendBytes (NewTranscript transcriptName) (str_bytes transcriptInitLabel) [drop 32 commonImage]) (\<lambda>tape.
            rbind (MapOrError (\<lambda>j. rbind (pair_seed xof i j (the (seeds j))) (\<lambda>h. Inr (j, h)))
                     (filter (\<lambda>j. j \<noteq> i) sortedQuorum)) (\<lambda>shakes.
            Inr \<lparr>ctx_sid = take 32 commonImage, ctx_holderID = i, ctx_sortedQuorum = sortedQuorum,
                 ctx_tape = tape, ctx_seeds = map_of shakes\<rparr>))
      | _ \<Rightarrow> Inl ErrInvalidArgument)"

definition OtherPartiesOrdered :: "Context \<Rightarrow> ID list" where
  "OtherPartiesOrdered ctx = filter (\<lambda>j. j \<noteq> ctx_holderID ctx) (ctx_sortedQuorum ctx)"

definition ctx_Quorum :: "Context \<Rightarrow> ID hset" where
  "ctx_Quorum ctx = hs_NewComparable (ctx_sortedQuorum ctx)"

text \<open>\<open>Clone\<close> and \<open>Seeds\<close> copy the sponges: reading from a copy leaves the context as it is.\<close>

definition ctx_Clone :: "Context \<Rightarrow> Context" where
  "ctx_Clone ctx = ctx"

definition ctx_Seeds :: "Context \<Rightarrow> (ID \<rightharpoonup> SHAKE)" where
  "ctx_Seeds ctx = ctx_seeds ctx"

definition subQuorumData :: "ID list \<Rightarrow> bytes" where
  "subQuorumData ids = le64 (word_of_nat (length ids)) @ concat (map le64 ids)"

definition sub_seed :: "xof \<Rightarrow> bytes \<Rightarrow> SHAKE \<Rightarrow> SHAKE res" where
  "sub_seed xof data clone =
     rbind (shake_Writes (NewCSHAKE256 (str_bytes subContextDomainSeparatorLabel))
              [fst (shake_Read xof clone CollisionResistanceBytesCeil), data])
       (\<lambda>newSeed. Inr (snd (shake_Read xof newSeed 32)))"

definition SubContext :: "xof \<Rightarrow> Context \<Rightarrow> ID hset option \<Rightarrow> Context res" where
  "SubContext xof ctx subQuorum = (case subQuorum of
     None \<Rightarrow> Inl ErrInvalidArgument
   | Some sub \<Rightarrow>
       if hs_Size sub < 2 then Inl ErrInvalidArgument
       else if \<not> hs_IsSubSet sub (hs_NewComparable (ctx_sortedQuorum ctx)) \<or> \<not> hs_Contains sub (ctx_holderID ctx)
       then Inl ErrInvalidArgument
       else let sorted = sort (hs_List sub); data = subQuorumData sorted in
         rbind (AppendBytes (transcript_Clone (ctx_tape ctx)) (str_bytes subQuorumLabel) [data]) (\<lambda>tape.
         rbind (MapOrError (\<lambda>j. case ctx_seeds ctx j of None \<Rightarrow> Inl Panic
                  | Some h \<Rightarrow> rbind (sub_seed xof data h) (\<lambda>h'. Inr (j, h')))
                (filter (\<lambda>j. j \<noteq> ctx_holderID ctx) sorted)) (\<lambda>shakes.
         Inr (ctx\<lparr>ctx_sortedQuorum := sorted, ctx_tape := tape, ctx_seeds := map_of shakes\<rparr>))))"

section \<open>Messages\<close>

definition zero32 :: bytes where "zero32 = replicate 32 0"

record SessionRound1Broadcast =
  s1_CommonCommitment :: bytes
  s1_Ck :: "bytes option"

record SessionRound2Broadcast =
  s2_CommonContribution :: bytes
  s2_CommonContributionWitness :: bytes

record SessionRound3P2P =
  s3_PairwiseContribution :: bytes
  s3_PairwiseContributionWitness :: bytes

definition s1_Validate :: "SessionRound1Broadcast option \<Rightarrow> unit res" where
  "s1_Validate m = (case m of None \<Rightarrow> Inl ErrValidation
   | Some b \<Rightarrow> if s1_CommonCommitment b = zero32 then Inl ErrValidation
       else if s1_Ck b = None \<or> s1_Ck b = Some zero32 then Inl ErrValidation else Inr ())"

definition s2_Validate :: "SessionRound2Broadcast option \<Rightarrow> unit res" where
  "s2_Validate m = (case m of None \<Rightarrow> Inl ErrValidation
   | Some b \<Rightarrow> if s2_CommonContribution b = zero32 then Inl ErrValidation
       else if s2_CommonContributionWitness b = zero32 then Inl ErrValidation else Inr ())"

text \<open>A round-2 unicast carries one field, the commitment to the pairwise contribution.\<close>

definition s2u_Validate :: "bytes option \<Rightarrow> unit res" where
  "s2u_Validate m = (case m of None \<Rightarrow> Inl ErrValidation
   | Some c \<Rightarrow> if c = zero32 then Inl ErrValidation else Inr ())"

definition s3_Validate :: "SessionRound3P2P option \<Rightarrow> unit res" where
  "s3_Validate m = (case m of None \<Rightarrow> Inl ErrValidation
   | Some b \<Rightarrow> if s3_PairwiseContribution b = zero32 then Inl ErrValidation
       else if s3_PairwiseContributionWitness b = zero32 then Inl ErrValidation else Inr ())"

section \<open>Participant\<close>

definition commonCommitmentKey :: bytes where
  "commonCommitmentKey = str_bytes ''BRON_CRYPTO_NOTHING_UP_MY_SLEEVE''"

definition sessionDomainSeparator :: string where
  "sessionDomainSeparator = ''BRON_CRYPTO_SESSION-SESSION''"
definition seedDomainSeparator :: string where
  "seedDomainSeparator = ''BRON_CRYPTO_SESSION-SEED''"

record SessionParticipant =
  sp_id :: ID
  sp_sortedQuorum :: "ID list"
  sp_prng :: bytes
  sp_round :: int
  commonContributionCommitments :: "ID \<rightharpoonup> bytes"
  commonContributions :: "ID \<rightharpoonup> bytes"
  commonContributionWitnesses :: "ID \<rightharpoonup> bytes"
  commitmentKeys :: "ID \<rightharpoonup> bytes"
  pairwiseContributionCommitments :: "ID \<rightharpoonup> bytes"
  pairwiseContributions :: "ID \<rightharpoonup> bytes"
  pairwiseContributionWitnesses :: "ID \<rightharpoonup> bytes"

definition session_NewParticipant :: "ID \<Rightarrow> ID hset option \<Rightarrow> bytes option \<Rightarrow> SessionParticipant res" where
  "session_NewParticipant i quorum prng = (case quorum of
     None \<Rightarrow> Inl ErrInvalidArgument
   | Some Q \<Rightarrow>
       if hs_Size Q < 2 then Inl ErrInvalidArgument
       else if i < 1 then Inl ErrInvalidArgument
       else if \<not> hs_Contains Q i then Inl ErrInvalidArgument
       else case prng of None \<Rightarrow> Inl ErrInvalidArgument
       | Some bs \<Rightarrow> Inr \<lparr>sp_id = i, sp_sortedQuorum = sort (hs_List Q), sp_prng = bs, sp_round = 1,
           commonContributionCommitments = Map.empty, commonContributions = Map.empty,
           commonContributionWitnesses = Map.empty, commitmentKeys = Map.empty,
           pairwiseContributionCommitments = Map.empty, pairwiseContributions = Map.empty,
           pairwiseContributionWitnesses = Map.empty\<rparr>)"

definition otherParticipantsOrdered :: "SessionParticipant \<Rightarrow> ID list" where
  "otherParticipantsOrdered p = filter (\<lambda>j. j \<noteq> sp_id p) (sp_sortedQuorum p)"

definition hc_Commit :: "(bytes \<Rightarrow> bytes \<Rightarrow> bytes) \<Rightarrow> bytes \<Rightarrow> bytes \<Rightarrow> bytes \<Rightarrow> (bytes \<times> bytes \<times> bytes) res" where
  "hc_Commit hash k m prng = Commit hc_SampleWitness (hc_CommitWithWitness hash) (Some k) (Some m) (Some prng)"

definition session_Round1 ::
  "(bytes \<Rightarrow> bytes \<Rightarrow> bytes) \<Rightarrow> SessionParticipant \<Rightarrow> (SessionRound1Broadcast \<times> SessionParticipant) res" where
  "session_Round1 hash p =
     (if sp_round p \<noteq> 1 then Inl ErrRound
      else rbind (hc_SampleCommitmentKey (Some (sp_prng p))) (\<lambda>(ck, prng).
        rbind (draw CollisionResistanceBytesCeil prng) (\<lambda>(commonContribution, prng).
        rbind (hc_Commit hash commonCommitmentKey commonContribution prng) (\<lambda>(c, w, prng).
        Inr (\<lparr>s1_CommonCommitment = c, s1_Ck = Some ck\<rparr>,
             p\<lparr>sp_prng := prng, sp_round := sp_round p + 1,
               commitmentKeys := (commitmentKeys p)(sp_id p \<mapsto> ck),
               commonContributions := (commonContributions p)(sp_id p \<mapsto> commonContribution),
               commonContributionCommitments := (commonContributionCommitments p)(sp_id p \<mapsto> c),
               commonContributionWitnesses := (commonContributionWitnesses p)(sp_id p \<mapsto> w)\<rparr>)))))"

text \<open>The loops of rounds 2 and 3; a message that is present was validated, so the nil case does not occur.\<close>

definition r2_store :: "(ID \<rightharpoonup> SessionRound1Broadcast option) \<Rightarrow> SessionParticipant \<Rightarrow> ID \<Rightarrow> SessionParticipant res" where
  "r2_store inB p j = (case inB j of
     None \<Rightarrow> Inl ErrInvalidArgument
   | Some None \<Rightarrow> Inl Panic
   | Some (Some b) \<Rightarrow> (case s1_Ck b of None \<Rightarrow> Inl Panic
       | Some ck \<Rightarrow> Inr (p\<lparr>commitmentKeys := (commitmentKeys p)(j \<mapsto> ck),
            commonContributionCommitments := (commonContributionCommitments p)(j \<mapsto> s1_CommonCommitment b)\<rparr>)))"

definition r2_commit ::
  "(bytes \<Rightarrow> bytes \<Rightarrow> bytes) \<Rightarrow> SessionParticipant \<times> (ID \<times> bytes) list \<Rightarrow> ID \<Rightarrow> (SessionParticipant \<times> (ID \<times> bytes) list) res" where
  "r2_commit hash s j = (case s of (p, uOut) \<Rightarrow>
     case commitmentKeys p j of None \<Rightarrow> Inl ErrInvalidArgument
     | Some ck \<Rightarrow>
         rbind (draw CollisionResistanceBytesCeil (sp_prng p)) (\<lambda>(contribution, prng).
         rbind (hc_Commit hash ck contribution prng) (\<lambda>(c, w, prng).
         Inr (p\<lparr>sp_prng := prng, pairwiseContributions := (pairwiseContributions p)(j \<mapsto> contribution),
                pairwiseContributionWitnesses := (pairwiseContributionWitnesses p)(j \<mapsto> w)\<rparr>, AList.update j c uOut))))"

text \<open>The lookup \<open>m[id]\<close> in a map of arrays: a missing key yields the zero array.\<close>

definition bytes_at32 :: "(ID \<rightharpoonup> bytes) \<Rightarrow> ID \<Rightarrow> bytes" where
  "bytes_at32 m i = (case m i of None \<Rightarrow> zero32 | Some b \<Rightarrow> b)"

definition session_Round2 ::
  "(bytes \<Rightarrow> bytes \<Rightarrow> bytes) \<Rightarrow> SessionParticipant \<Rightarrow> (ID \<rightharpoonup> SessionRound1Broadcast option) \<Rightarrow>
     (SessionRound2Broadcast \<times> (ID \<times> bytes) list \<times> SessionParticipant) res" where
  "session_Round2 hash p inB =
     (if sp_round p \<noteq> 2 then Inl ErrRound
      else rbind (ValidateIncomingMessages (\<lambda>_ _ m. s1_Validate m) p (otherParticipantsOrdered p) inB) (\<lambda>_.
        rbind (FoldOrError (r2_store inB) p (otherParticipantsOrdered p)) (\<lambda>p.
        rbind (FoldOrError (r2_commit hash) (p, []) (otherParticipantsOrdered p)) (\<lambda>(p', uOut).
        Inr (\<lparr>s2_CommonContribution = bytes_at32 (commonContributions p) (sp_id p),
              s2_CommonContributionWitness = bytes_at32 (commonContributionWitnesses p) (sp_id p)\<rparr>,
             uOut, p'\<lparr>sp_round := sp_round p' + 1\<rparr>)))))"

definition r3_open ::
  "(bytes \<Rightarrow> bytes \<Rightarrow> bytes) \<Rightarrow> (ID \<rightharpoonup> SessionRound2Broadcast option) \<Rightarrow> (ID \<rightharpoonup> bytes option) \<Rightarrow>
     SessionParticipant \<Rightarrow> ID \<Rightarrow> SessionParticipant res" where
  "r3_open hash inB inU p j = (case (inB j, inU j) of
     (None, _) \<Rightarrow> Inl ErrInvalidArgument
   | (_, None) \<Rightarrow> Inl ErrInvalidArgument
   | (Some (Some b), Some (Some c)) \<Rightarrow>
       (case hc_Open hash commonCommitmentKey (Some (bytes_at32 (commonContributionCommitments p) j))
               (Some (s2_CommonContribution b)) (Some (s2_CommonContributionWitness b)) of
          Inl e \<Rightarrow> Inl (Blame j e)
        | Inr _ \<Rightarrow> Inr (p\<lparr>commonContributions := (commonContributions p)(j \<mapsto> s2_CommonContribution b),
            commonContributionWitnesses := (commonContributionWitnesses p)(j \<mapsto> s2_CommonContributionWitness b),
            pairwiseContributionCommitments := (pairwiseContributionCommitments p)(j \<mapsto> c)\<rparr>))
   | _ \<Rightarrow> Inl Panic)"

definition r3_reveal :: "SessionParticipant \<Rightarrow> ID \<Rightarrow> (ID \<times> SessionRound3P2P) res" where
  "r3_reveal p j = (case (pairwiseContributions p j, pairwiseContributionWitnesses p j) of
     (None, _) \<Rightarrow> Inl ErrInvalidArgument
   | (_, None) \<Rightarrow> Inl ErrInvalidArgument
   | (Some m, Some w) \<Rightarrow> Inr (j, \<lparr>s3_PairwiseContribution = m, s3_PairwiseContributionWitness = w\<rparr>))"

definition session_Round3 ::
  "(bytes \<Rightarrow> bytes \<Rightarrow> bytes) \<Rightarrow> SessionParticipant \<Rightarrow> (ID \<rightharpoonup> SessionRound2Broadcast option) \<Rightarrow> (ID \<rightharpoonup> bytes option) \<Rightarrow>
     ((ID \<times> SessionRound3P2P) list \<times> SessionParticipant) res" where
  "session_Round3 hash p inB inU =
     (if sp_round p \<noteq> 3 then Inl ErrRound
      else rbind (ValidateIncomingMessages (\<lambda>_ _ m. s2_Validate m) p (otherParticipantsOrdered p) inB) (\<lambda>_.
        rbind (ValidateIncomingMessages (\<lambda>_ _ m. s2u_Validate m) p (otherParticipantsOrdered p) inU) (\<lambda>_.
        rbind (FoldOrError (r3_open hash inB inU) p (otherParticipantsOrdered p)) (\<lambda>p.
        rbind (MapOrError (r3_reveal p) (otherParticipantsOrdered p)) (\<lambda>uOut.
        Inr (uOut, p\<lparr>sp_round := sp_round p + 1\<rparr>))))))"

text \<open>The entropy of one party in the common seed, and the seed shared with one peer.\<close>

definition common_entry :: "SessionParticipant \<Rightarrow> ID \<Rightarrow> bytes res" where
  "common_entry p j = (case (commitmentKeys p j, commonContributionCommitments p j, commonContributions p j, commonContributionWitnesses p j) of
     (Some ck, Some c, Some m, Some w) \<Rightarrow> Inr (le64 j @ ck @ c @ m @ w)
   | _ \<Rightarrow> Inl ErrInvalidArgument)"

definition common_seed :: "SessionParticipant \<Rightarrow> bytes res" where
  "common_seed p = rbind (MapOrError (common_entry p) (sp_sortedQuorum p)) (\<lambda>es.
     Inr (str_bytes sessionDomainSeparator @ le64 (word_of_nat (length (sp_sortedQuorum p))) @ concat es))"

definition r4_pairwise ::
  "(bytes \<Rightarrow> bytes \<Rightarrow> bytes) \<Rightarrow> SessionParticipant \<Rightarrow> bytes \<Rightarrow> bytes \<Rightarrow> (ID \<rightharpoonup> SessionRound3P2P option) \<Rightarrow> ID \<Rightarrow> (ID \<times> bytes) res" where
  "r4_pairwise hash p ck commonSeed uIn j = (case uIn j of
     None \<Rightarrow> Inl ErrInvalidArgument
   | Some None \<Rightarrow> Inl Panic
   | Some (Some u) \<Rightarrow>
       (case pairwiseContributionCommitments p j of None \<Rightarrow> Inl ErrInvalidArgument
        | Some c \<Rightarrow>
            (case hc_Open hash ck (Some c) (Some (s3_PairwiseContribution u)) (Some (s3_PairwiseContributionWitness u)) of
               Inl e \<Rightarrow> Inl (Blame j e)
             | Inr _ \<Rightarrow>
                 (case pairwiseContributions p j of None \<Rightarrow> Inl ErrInvalidArgument
                  | Some mine \<Rightarrow>
                      let theirs = s3_PairwiseContribution u in
                      Inr (j, str_bytes seedDomainSeparator @ commonSeed @
                           (if sp_id p < j then mine @ theirs else theirs @ mine))))))"

definition session_Round4 ::
  "(bytes \<Rightarrow> bytes \<Rightarrow> bytes) \<Rightarrow> (bytes \<Rightarrow> bytes) \<Rightarrow> xof \<Rightarrow> SessionParticipant \<Rightarrow> (ID \<rightharpoonup> SessionRound3P2P option) \<Rightarrow>
     (Context \<times> SessionParticipant) res" where
  "session_Round4 hash sum512 xof p uIn =
     (if sp_round p \<noteq> 4 then Inl ErrRound
      else rbind (ValidateIncomingMessages (\<lambda>_ _ m. s3_Validate m) p (otherParticipantsOrdered p) uIn) (\<lambda>_.
        case commitmentKeys p (sp_id p) of None \<Rightarrow> Inl ErrInvalidArgument
        | Some ck \<Rightarrow>
            rbind (common_seed p) (\<lambda>commonSeed.
            rbind (MapOrError (r4_pairwise hash p ck commonSeed uIn) (otherParticipantsOrdered p)) (\<lambda>pairwiseSeeds.
            rbind (NewContext sum512 xof (sp_id p) (Some (hs_NewComparable (sp_sortedQuorum p))) commonSeed (Some (map_of pairwiseSeeds)))
              (\<lambda>ctx. Inr (ctx, p\<lparr>sp_round := sp_round p + 1\<rparr>))))))"

text \<open>
  The run of one party: the rounds in order, on the broadcasts \<open>b1\<close> and \<open>b2\<close> and the unicasts \<open>u2\<close> and \<open>u3\<close> that the
  exchanges between the rounds deliver. It returns what the party sent beside its context.
\<close>

record SessionTrace =
  st_b1 :: SessionRound1Broadcast
  st_b2 :: SessionRound2Broadcast
  st_u2 :: "(ID \<times> bytes) list"
  st_u3 :: "(ID \<times> SessionRound3P2P) list"
  st_ctx :: Context

definition session_Run ::
  "(bytes \<Rightarrow> bytes \<Rightarrow> bytes) \<Rightarrow> (bytes \<Rightarrow> bytes) \<Rightarrow> xof \<Rightarrow> ID \<Rightarrow> ID hset option \<Rightarrow> bytes option \<Rightarrow>
     (ID \<rightharpoonup> SessionRound1Broadcast option) \<Rightarrow> (ID \<rightharpoonup> SessionRound2Broadcast option) \<Rightarrow> (ID \<rightharpoonup> bytes option) \<Rightarrow>
     (ID \<rightharpoonup> SessionRound3P2P option) \<Rightarrow> SessionTrace res" where
  "session_Run hash sum512 xof i quorum prng b1 b2 u2 u3 =
     rbind (session_NewParticipant i quorum prng) (\<lambda>p0.
     rbind (session_Round1 hash p0) (\<lambda>(o1, p1).
     rbind (session_Round2 hash p1 b1) (\<lambda>(o2, m2, p2).
     rbind (session_Round3 hash p2 b2 u2) (\<lambda>(m3, p3).
     rbind (session_Round4 hash sum512 xof p3 u3) (\<lambda>(ctx, p4).
     Inr \<lparr>st_b1 = o1, st_b2 = o2, st_u2 = m2, st_u3 = m3, st_ctx = ctx\<rparr>)))))"

text \<open>
  The runner of \<open>runner.go\<close> over a router. Messages are pointers, so they are optional on the wire; the codecs are parameters.
\<close>

record session_codec =
  sc_b1 :: "SessionRound1Broadcast option echo_codec"
  sc_b2 :: "SessionRound2Broadcast option echo_codec"
  enc_u2 :: "bytes option \<Rightarrow> bytes res"
  dec_u2 :: "bytes \<Rightarrow> bytes option res"
  enc_u3 :: "SessionRound3P2P option \<Rightarrow> bytes res"
  dec_u3 :: "bytes \<Rightarrow> SessionRound3P2P option res"

abbreviation pointers :: "(ID \<times> 'm) list \<Rightarrow> (ID \<times> 'm option) list" where
  "pointers ms \<equiv> map (\<lambda>(j, m). (j, Some m)) ms"

definition session_runner_Run ::
  "(bytes \<Rightarrow> bytes \<Rightarrow> bytes) \<Rightarrow> (bytes \<Rightarrow> bytes) \<Rightarrow> xof \<Rightarrow> session_codec \<Rightarrow> SessionParticipant \<Rightarrow> Router \<Rightarrow> Router \<times> Context res" where
  "session_runner_Run hash sum512 xof k p rt =
     (let quorum = hs_NewComparable (sp_sortedQuorum p) in
      then_do (rt, session_Round1 hash p) (\<lambda>rt (r1bo, p).
      then_do (BroadcastExchange (sc_b1 k) rt ''SessionSetupR1'' (Some quorum) (Some r1bo)) (\<lambda>rt r2bi.
      then_do (rt, session_Round2 hash p (map_of r2bi)) (\<lambda>rt (r2bo, r2uo, p).
      then_do (BroadcastExchange (sc_b2 k) rt ''SessionSetupR2'' (Some quorum) (Some r2bo)) (\<lambda>rt r3bi.
      then_do (UnicastExchange (enc_router (sc_b2 k)) (dec_router (sc_b2 k)) (enc_u2 k) (dec_u2 k) rt ''SessionSetupR2'' (pointers r2uo)) (\<lambda>rt r3ui.
      then_do (rt, session_Round3 hash p (map_of r3bi) (map_of r3ui)) (\<lambda>rt (r3uo, p).
      then_do (UnicastExchange (enc_router (sc_b2 k)) (dec_router (sc_b2 k)) (enc_u3 k) (dec_u3 k) rt ''SessionSetupR3'' (pointers r3uo)) (\<lambda>rt r4ui.
      then_do (rt, session_Round4 hash sum512 xof p (map_of r4ui)) (\<lambda>rt (sessionCtx, p).
      (rt, Inr sessionCtx))))))))))"

section \<open>What the rounds store\<close>

lemma FoldOrError_invariant:
  assumes "FoldOrError f a xs = Inr b" "I a" "\<And>a x b. x \<in> set xs \<Longrightarrow> I a \<Longrightarrow> f a x = Inr b \<Longrightarrow> I b"
  shows "I b"
  using assms by (induction xs arbitrary: a) (auto simp: rbind_eq_Inr_iff)

text \<open>A loop that sets the entry of each key it visits, and leaves the others alone.\<close>

lemma FoldOrError_entries:
  assumes "FoldOrError f a xs = Inr b"
    and "\<And>a x b. x \<in> set xs \<Longrightarrow> f a x = Inr b \<Longrightarrow> get b = (get a)(x := v x)"
  shows "get b = (\<lambda>k. if k \<in> set xs then v k else get a k)"
  using assms
proof (induction xs arbitrary: a)
  case (Cons x xs)
  from Cons.prems(1) obtain c where c: "f a x = Inr c" "FoldOrError f c xs = Inr b" by auto
  from Cons.IH [OF c(2)] Cons.prems(2) have "get b = (\<lambda>k. if k \<in> set xs then v k else get c k)" by simp
  with Cons.prems(2) [of x a c] c(1) show ?case by auto
qed simp

lemma map_of_MapOrError_pairs:
  assumes "MapOrError (\<lambda>j. rbind (f j) (\<lambda>h. Inr (j, h))) js = Inr ps" "j \<in> set js"
  shows "\<exists>h. f j = Inr h \<and> map_of ps j = Some h"
  using assms by (induction js arbitrary: ps) (auto simp: rbind_eq_Inr_iff)

lemma map_of_MapOrError_keyed:
  assumes "MapOrError f js = Inr ps" "\<And>j y. f j = Inr y \<Longrightarrow> fst y = j" "j \<in> set js"
  shows "\<exists>h. f j = Inr (j, h) \<and> map_of ps j = Some h"
  using assms(1,3)
proof (induction js arbitrary: ps)
  case (Cons x xs)
  from Cons.prems obtain y ys where y: "f x = Inr y" "MapOrError f xs = Inr ys" "ps = y # ys" by (auto simp: rbind_eq_Inr_iff)
  with assms(2) [OF y(1)] Cons show ?case by (cases y) auto
qed simp

lemma session_Round1_ok:
  assumes "session_Round1 hash p = Inr (o1, p1)"
  shows "\<exists>ck m w. s1_Ck o1 = Some ck \<and> sp_id p1 = sp_id p \<and> sp_sortedQuorum p1 = sp_sortedQuorum p \<and>
    commitmentKeys p1 = (commitmentKeys p)(sp_id p \<mapsto> ck) \<and>
    commonContributionCommitments p1 = (commonContributionCommitments p)(sp_id p \<mapsto> s1_CommonCommitment o1) \<and>
    commonContributions p1 = (commonContributions p)(sp_id p \<mapsto> m) \<and>
    commonContributionWitnesses p1 = (commonContributionWitnesses p)(sp_id p \<mapsto> w)"
  using assms by (auto simp: session_Round1_def rbind_eq_Inr_iff split: if_splits)

lemma r2_store_fold:
  assumes "FoldOrError (r2_store inB) p js = Inr p'" "\<And>j. j \<in> set js \<Longrightarrow> inB j = Some (Some (v1 j))"
  shows "commitmentKeys p' = (\<lambda>k. if k \<in> set js then s1_Ck (v1 k) else commitmentKeys p k) \<and>
    commonContributionCommitments p' = (\<lambda>k. if k \<in> set js then Some (s1_CommonCommitment (v1 k)) else commonContributionCommitments p k) \<and>
    sp_id p' = sp_id p \<and> sp_sortedQuorum p' = sp_sortedQuorum p \<and> commonContributions p' = commonContributions p \<and>
    commonContributionWitnesses p' = commonContributionWitnesses p"
proof (intro conjI)
  show "commitmentKeys p' = (\<lambda>k. if k \<in> set js then s1_Ck (v1 k) else commitmentKeys p k)"
    by (rule FoldOrError_entries [OF assms(1)]) (auto simp: r2_store_def assms(2) split: option.splits)
  show "commonContributionCommitments p' = (\<lambda>k. if k \<in> set js then Some (s1_CommonCommitment (v1 k)) else commonContributionCommitments p k)"
    by (rule FoldOrError_entries [OF assms(1)]) (auto simp: r2_store_def assms(2) split: option.splits)
qed (rule FoldOrError_invariant [OF assms(1)]; auto simp: r2_store_def split: option.splits)+

lemma r2_commit_fold:
  assumes "FoldOrError (r2_commit hash) (p, us) js = Inr (p', us')"
  shows "commitmentKeys p' = commitmentKeys p \<and> commonContributionCommitments p' = commonContributionCommitments p \<and>
    sp_id p' = sp_id p \<and> sp_sortedQuorum p' = sp_sortedQuorum p \<and> commonContributions p' = commonContributions p \<and>
    commonContributionWitnesses p' = commonContributionWitnesses p"
proof -
  let ?I = "\<lambda>s. commitmentKeys (fst s) = commitmentKeys p \<and> commonContributionCommitments (fst s) = commonContributionCommitments p \<and>
    sp_id (fst s) = sp_id p \<and> sp_sortedQuorum (fst s) = sp_sortedQuorum p \<and> commonContributions (fst s) = commonContributions p \<and>
    commonContributionWitnesses (fst s) = commonContributionWitnesses p"
  have "?I (p', us')"
    by (rule FoldOrError_invariant [OF assms])
      (auto simp: r2_commit_def rbind_eq_Inr_iff split: option.splits prod.splits)
  then show ?thesis by simp
qed

lemma session_Round2_ok:
  assumes "session_Round2 hash p inB = Inr (o2, m2, p2)"
    and "\<And>j. j \<in> set (otherParticipantsOrdered p) \<Longrightarrow> inB j = Some (Some (v1 j))"
  shows "commitmentKeys p2 = (\<lambda>k. if k \<in> set (otherParticipantsOrdered p) then s1_Ck (v1 k) else commitmentKeys p k) \<and>
    commonContributionCommitments p2 =
      (\<lambda>k. if k \<in> set (otherParticipantsOrdered p) then Some (s1_CommonCommitment (v1 k)) else commonContributionCommitments p k) \<and>
    sp_id p2 = sp_id p \<and> sp_sortedQuorum p2 = sp_sortedQuorum p \<and> commonContributions p2 = commonContributions p \<and>
    commonContributionWitnesses p2 = commonContributionWitnesses p \<and>
    s2_CommonContribution o2 = bytes_at32 (commonContributions p) (sp_id p) \<and>
    s2_CommonContributionWitness o2 = bytes_at32 (commonContributionWitnesses p) (sp_id p)"
proof -
  from assms(1) obtain q p' us where q: "FoldOrError (r2_store inB) p (otherParticipantsOrdered p) = Inr q"
    and p': "FoldOrError (r2_commit hash) (q, []) (otherParticipantsOrdered q) = Inr (p', us)"
    and out: "o2 = \<lparr>s2_CommonContribution = bytes_at32 (commonContributions q) (sp_id q),
      s2_CommonContributionWitness = bytes_at32 (commonContributionWitnesses q) (sp_id q)\<rparr>"
      "p2 = p'\<lparr>sp_round := sp_round p' + 1\<rparr>"
    by (auto simp: session_Round2_def rbind_eq_Inr_iff split: if_splits)
  from r2_store_fold [OF q assms(2)] r2_commit_fold [OF p'] out show ?thesis by simp
qed

lemma r3_open_fold:
  assumes "FoldOrError (r3_open hash inB inU) p js = Inr p'" "\<And>j. j \<in> set js \<Longrightarrow> inB j = Some (Some (v2 j))"
  shows "commonContributions p' = (\<lambda>k. if k \<in> set js then Some (s2_CommonContribution (v2 k)) else commonContributions p k) \<and>
    commonContributionWitnesses p' =
      (\<lambda>k. if k \<in> set js then Some (s2_CommonContributionWitness (v2 k)) else commonContributionWitnesses p k) \<and>
    sp_id p' = sp_id p \<and> sp_sortedQuorum p' = sp_sortedQuorum p \<and> commitmentKeys p' = commitmentKeys p \<and>
    commonContributionCommitments p' = commonContributionCommitments p \<and> pairwiseContributions p' = pairwiseContributions p"
proof (intro conjI)
  show "commonContributions p' = (\<lambda>k. if k \<in> set js then Some (s2_CommonContribution (v2 k)) else commonContributions p k)"
    by (rule FoldOrError_entries [OF assms(1)]) (auto simp: r3_open_def assms(2) split: option.splits sum.splits)
  show "commonContributionWitnesses p' =
      (\<lambda>k. if k \<in> set js then Some (s2_CommonContributionWitness (v2 k)) else commonContributionWitnesses p k)"
    by (rule FoldOrError_entries [OF assms(1)]) (auto simp: r3_open_def assms(2) split: option.splits sum.splits)
qed (rule FoldOrError_invariant [OF assms(1)]; auto simp: r3_open_def split: option.splits sum.splits)+

lemma session_Round3_ok:
  assumes "session_Round3 hash p inB inU = Inr (m3, p3)"
    and "\<And>j. j \<in> set (otherParticipantsOrdered p) \<Longrightarrow> inB j = Some (Some (v2 j))"
  shows "commonContributions p3 =
      (\<lambda>k. if k \<in> set (otherParticipantsOrdered p) then Some (s2_CommonContribution (v2 k)) else commonContributions p k) \<and>
    commonContributionWitnesses p3 =
      (\<lambda>k. if k \<in> set (otherParticipantsOrdered p) then Some (s2_CommonContributionWitness (v2 k)) else commonContributionWitnesses p k) \<and>
    sp_id p3 = sp_id p \<and> sp_sortedQuorum p3 = sp_sortedQuorum p \<and> commitmentKeys p3 = commitmentKeys p \<and>
    commonContributionCommitments p3 = commonContributionCommitments p \<and>
    (\<forall>j\<in>set (otherParticipantsOrdered p). \<exists>u. map_of m3 j = Some u \<and> pairwiseContributions p3 j = Some (s3_PairwiseContribution u))"
proof -
  from assms(1) obtain q where q: "FoldOrError (r3_open hash inB inU) p (otherParticipantsOrdered p) = Inr q"
    and m3: "MapOrError (r3_reveal q) (otherParticipantsOrdered q) = Inr m3" and p3: "p3 = q\<lparr>sp_round := sp_round q + 1\<rparr>"
    by (auto simp: session_Round3_def rbind_eq_Inr_iff split: if_splits)
  note st = r3_open_fold [OF q assms(2)]
  have others: "otherParticipantsOrdered q = otherParticipantsOrdered p" using st by (simp add: otherParticipantsOrdered_def)
  have "\<exists>u. map_of m3 j = Some u \<and> pairwiseContributions p3 j = Some (s3_PairwiseContribution u)"
    if "j \<in> set (otherParticipantsOrdered p)" for j
  proof -
    have "fst y = k" if "r3_reveal q k = Inr y" for k y using that by (auto simp: r3_reveal_def split: option.splits)
    from map_of_MapOrError_keyed [OF m3 this] that others obtain u where "r3_reveal q j = Inr (j, u)" "map_of m3 j = Some u" by auto
    then show ?thesis using p3 by (auto simp: r3_reveal_def split: option.splits)
  qed
  with st p3 show ?thesis by simp
qed

section \<open>Contexts\<close>

lemma NewContext_ok:
  assumes "NewContext sum512 xof i (Some Q) commonSeed (Some seeds) = Inr ctx"
  shows "ctx_sid ctx = take 32 (sum512 commonSeed)" "ctx_holderID ctx = i" "ctx_sortedQuorum ctx = sort (hs_List Q)"
    and "AppendBytes (NewTranscript transcriptName) (str_bytes transcriptInitLabel) [drop 32 (sum512 commonSeed)] = Inr (ctx_tape ctx)"
    and "j \<in> set Q \<Longrightarrow> j \<noteq> i \<Longrightarrow> \<exists>h. pair_seed xof i j (the (seeds j)) = Inr h \<and> ctx_seeds ctx j = Some h"
    and "i \<in> set Q" "i \<noteq> 0" "2 \<le> hs_Size Q"
proof -
  from assms obtain tape shakes where tape: "AppendBytes (NewTranscript transcriptName) (str_bytes transcriptInitLabel) [drop 32 (sum512 commonSeed)] = Inr tape"
    and shakes: "MapOrError (\<lambda>j. rbind (pair_seed xof i j (the (seeds j))) (\<lambda>h. Inr (j, h))) (filter (\<lambda>j. j \<noteq> i) (sort (hs_List Q))) = Inr shakes"
    and ctx: "ctx = \<lparr>ctx_sid = take 32 (sum512 commonSeed), ctx_holderID = i, ctx_sortedQuorum = sort (hs_List Q), ctx_tape = tape, ctx_seeds = map_of shakes\<rparr>"
    and ok: "\<not> (i < 1 \<or> hs_Size Q < 2 \<or> \<not> hs_Contains Q i)"
    by (auto simp: NewContext_def Let_def rbind_eq_Inr_iff split: if_splits)
  then show "ctx_sid ctx = take 32 (sum512 commonSeed)" "ctx_holderID ctx = i" "ctx_sortedQuorum ctx = sort (hs_List Q)"
    "AppendBytes (NewTranscript transcriptName) (str_bytes transcriptInitLabel) [drop 32 (sum512 commonSeed)] = Inr (ctx_tape ctx)"
    "i \<in> set Q" "i \<noteq> 0" "2 \<le> hs_Size Q"
    by (auto simp: not_less)
  assume "j \<in> set Q" "j \<noteq> i"
  with map_of_MapOrError_pairs [OF shakes, of j] ctx
  show "\<exists>h. pair_seed xof i j (the (seeds j)) = Inr h \<and> ctx_seeds ctx j = Some h" by auto
qed

lemma pair_seed_commute: "pair_seed xof i j s = pair_seed xof j i s"
  by (simp add: pair_seed_def min.commute max.commute)

text \<open>
  Two contexts of one session: the same identifier, quorum and transcript, and the same sponge for each other.
\<close>

definition matching :: "Context \<Rightarrow> Context \<Rightarrow> bool" where
  "matching c d \<longleftrightarrow> ctx_sid c = ctx_sid d \<and> ctx_sortedQuorum c = ctx_sortedQuorum d \<and> ctx_tape c = ctx_tape d \<and>
     ctx_seeds c (ctx_holderID d) = ctx_seeds d (ctx_holderID c) \<and> ctx_seeds c (ctx_holderID d) \<noteq> None"

lemma SubContext_matching:
  assumes m: "matching c d" and ne: "ctx_holderID c \<noteq> ctx_holderID d"
    and c: "SubContext xof c (Some sub) = Inr c'" and d: "SubContext xof d (Some sub) = Inr d'"
  shows "matching c' d'"
proof -
  have sub: "\<exists>h'. sub_seed xof (subQuorumData (sort (hs_List sub))) h = Inr h' \<and> ctx_seeds a' j = Some h'"
    if "SubContext xof a (Some sub) = Inr a'" "ctx_seeds a j = Some h" "j \<in> set sub" "j \<noteq> ctx_holderID a" for a a' j h
  proof -
    from that(1) obtain shakes where sh: "MapOrError (\<lambda>j. case ctx_seeds a j of None \<Rightarrow> Inl Panic
          | Some h \<Rightarrow> rbind (sub_seed xof (subQuorumData (sort (hs_List sub))) h) (\<lambda>h'. Inr (j, h')))
        (filter (\<lambda>j. j \<noteq> ctx_holderID a) (sort (hs_List sub))) = Inr shakes" and a': "ctx_seeds a' = map_of shakes"
      by (auto simp: SubContext_def Let_def rbind_eq_Inr_iff split: if_splits)
    have "fst y = k" if "(case ctx_seeds a k of None \<Rightarrow> Inl Panic
        | Some h \<Rightarrow> rbind (sub_seed xof (subQuorumData (sort (hs_List sub))) h) (\<lambda>h'. Inr (k, h'))) = Inr y" for k y
      using that by (auto simp: rbind_eq_Inr_iff split: option.splits)
    from map_of_MapOrError_keyed [OF sh this, of j] that a' show ?thesis
      by (auto simp: rbind_eq_Inr_iff split: option.splits)
  qed
  have mem: "ctx_holderID c \<in> set sub" "ctx_holderID d \<in> set sub"
    using c d by (auto simp: SubContext_def split: if_splits)
  from m obtain h where h: "ctx_seeds c (ctx_holderID d) = Some h" "ctx_seeds d (ctx_holderID c) = Some h"
    by (cases "ctx_seeds c (ctx_holderID d)") (auto simp: matching_def)
  have hold: "ctx_holderID c' = ctx_holderID c" "ctx_holderID d' = ctx_holderID d"
    using c d by (auto simp: SubContext_def Let_def rbind_eq_Inr_iff split: if_splits)
  have rest: "ctx_sid c' = ctx_sid d' \<and> ctx_sortedQuorum c' = ctx_sortedQuorum d' \<and> ctx_tape c' = ctx_tape d'"
    using c d m by (auto simp: SubContext_def Let_def rbind_eq_Inr_iff matching_def split: if_splits)
  from sub [OF c h(1) mem(2)] sub [OF d h(2) mem(1)] ne hold rest show ?thesis by (auto simp: matching_def)
qed

section \<open>Main results\<close>

text \<open>The state of a party before round 4, in terms of the broadcasts of the session.\<close>

lemma session_state:
  assumes new: "session_NewParticipant i (Some Q) (Some prng) = Inr p0"
    and r1: "session_Round1 hash p0 = Inr (o1, p1)" and r2: "session_Round2 hash p1 b1 = Inr (o2, m2, p2)"
    and r3: "session_Round3 hash p2 b2 u2 = Inr (m3, p3)"
    and v1: "v1 i = o1" "\<And>j. j \<in> set Q \<Longrightarrow> j \<noteq> i \<Longrightarrow> b1 j = Some (Some (v1 j))"
    and v2: "v2 i = o2" "\<And>j. j \<in> set Q \<Longrightarrow> j \<noteq> i \<Longrightarrow> b2 j = Some (Some (v2 j))"
  shows "sp_id p3 = i \<and> sp_sortedQuorum p3 = sort (hs_List Q) \<and>
    (\<forall>j\<in>set Q. commitmentKeys p3 j = s1_Ck (v1 j) \<and> commonContributionCommitments p3 j = Some (s1_CommonCommitment (v1 j)) \<and>
       commonContributions p3 j = Some (s2_CommonContribution (v2 j)) \<and>
       commonContributionWitnesses p3 j = Some (s2_CommonContributionWitness (v2 j))) \<and>
    (\<forall>j\<in>set Q - {i}. \<exists>u. map_of m3 j = Some u \<and> pairwiseContributions p3 j = Some (s3_PairwiseContribution u))"
proof -
  from new have p0: "sp_id p0 = i" "sp_sortedQuorum p0 = sort (hs_List Q)"
    by (auto simp: session_NewParticipant_def split: if_splits)
  from session_Round1_ok [OF r1] p0 obtain ck m w where f1: "s1_Ck o1 = Some ck" "sp_id p1 = i" "sp_sortedQuorum p1 = sort (hs_List Q)"
    "commitmentKeys p1 i = Some ck" "commonContributionCommitments p1 i = Some (s1_CommonCommitment o1)"
    "commonContributions p1 i = Some m" "commonContributionWitnesses p1 i = Some w" by auto
  have oth1: "set (otherParticipantsOrdered p1) = set Q - {i}" using f1 by (auto simp: otherParticipantsOrdered_def)
  note f2 = session_Round2_ok [OF r2, of v1, unfolded oth1]
  have oth2: "set (otherParticipantsOrdered p2) = set Q - {i}" using f1 f2 v1(2) by (auto simp: otherParticipantsOrdered_def)
  note f3 = session_Round3_ok [OF r3, of v2, unfolded oth2]
  show ?thesis using f1 f2 f3 v1 v2 by (auto simp: bytes_at32_def)
qed

lemma common_seed_cong:
  assumes "sp_sortedQuorum p = sp_sortedQuorum q"
    and "\<And>j. j \<in> set (sp_sortedQuorum p) \<Longrightarrow> common_entry p j = common_entry q j"
  shows "common_seed p = common_seed q"
proof -
  have "MapOrError (common_entry p) js = MapOrError (common_entry q) js" if "set js \<subseteq> set (sp_sortedQuorum p)" for js
    using that assms(2) by (induction js) auto
  from this [of "sp_sortedQuorum p"] assms(1) show ?thesis by (simp add: common_seed_def)
qed

text \<open>The seed that party \<open>p\<close> shares with \<open>j\<close>, in terms of what both revealed to each other.\<close>

lemma r4_pairwise_value:
  assumes "r4_pairwise hash p ck cs uIn j = Inr (j, b)" "uIn j = Some (Some u)" "pairwiseContributions p j = Some mine"
  shows "b = str_bytes seedDomainSeparator @ cs @
    (if sp_id p < j then mine @ s3_PairwiseContribution u else s3_PairwiseContribution u @ mine)"
  using assms by (auto simp: r4_pairwise_def Let_def split: option.splits sum.splits if_splits)

lemma session_Round4_ok:
  assumes "session_Round4 hash sum512 xof p uIn = Inr (ctx, p4)"
  shows "\<exists>ck cs seeds. common_seed p = Inr cs \<and>
    NewContext sum512 xof (sp_id p) (Some (hs_NewComparable (sp_sortedQuorum p))) cs (Some (map_of seeds)) = Inr ctx \<and>
    (\<forall>j\<in>set (otherParticipantsOrdered p). \<exists>b. r4_pairwise hash p ck cs uIn j = Inr (j, b) \<and> map_of seeds j = Some b)"
proof -
  from assms obtain ck cs seeds where cs: "common_seed p = Inr cs"
    and seeds: "MapOrError (r4_pairwise hash p ck cs uIn) (otherParticipantsOrdered p) = Inr seeds"
    and ctx: "NewContext sum512 xof (sp_id p) (Some (hs_NewComparable (sp_sortedQuorum p))) cs (Some (map_of seeds)) = Inr ctx"
    by (auto simp: session_Round4_def rbind_eq_Inr_iff split: if_splits option.splits)
  have "fst y = j" if "r4_pairwise hash p ck cs uIn j = Inr y" for j y
    using that by (auto simp: r4_pairwise_def Let_def split: option.splits sum.splits)
  from map_of_MapOrError_keyed [OF seeds this] cs ctx show ?thesis by blast
qed

lemma session_Run_rounds:
  assumes "session_Run hash sum512 xof i Q prng b1 b2 u2 u3 = Inr t"
  shows "\<exists>p0 p1 p2 p3 p4. session_NewParticipant i Q prng = Inr p0 \<and> session_Round1 hash p0 = Inr (st_b1 t, p1) \<and>
    session_Round2 hash p1 b1 = Inr (st_b2 t, st_u2 t, p2) \<and> session_Round3 hash p2 b2 u2 = Inr (st_u3 t, p3) \<and>
    session_Round4 hash sum512 xof p3 u3 = Inr (st_ctx t, p4)"
  using assms by (auto simp: session_Run_def rbind_eq_Inr_iff)

lemma session_pair:
  assumes run_p: "session_Run hash sum512 xof p (Some Q) (Some prng) b1 b2 u2 u3 = Inr tp"
    and run_q: "session_Run hash sum512 xof q (Some Q) (Some prng') b1' b2' u2' u3' = Inr tq" and pq: "p \<noteq> q"
    and bp: "\<And>j. j \<in> set Q \<Longrightarrow> j \<noteq> p \<Longrightarrow> b1 j = Some (Some (v1 j)) \<and> b2 j = Some (Some (v2 j))"
    and bq: "\<And>j. j \<in> set Q \<Longrightarrow> j \<noteq> q \<Longrightarrow> b1' j = Some (Some (v1 j)) \<and> b2' j = Some (Some (v2 j))"
    and sent: "v1 p = st_b1 tp" "v2 p = st_b2 tp" "v1 q = st_b1 tq" "v2 q = st_b2 tq"
    and uni: "u3 q = map_option Some (map_of (st_u3 tq) p)" "u3' p = map_option Some (map_of (st_u3 tp) q)"
  shows "matching (st_ctx tp) (st_ctx tq) \<and> ctx_holderID (st_ctx tp) = p \<and> ctx_holderID (st_ctx tq) = q"
proof -
  from session_Run_rounds [OF run_p] obtain p0 p1 p2 p3 p4 where P: "session_NewParticipant p (Some Q) (Some prng) = Inr p0"
    "session_Round1 hash p0 = Inr (st_b1 tp, p1)" "session_Round2 hash p1 b1 = Inr (st_b2 tp, st_u2 tp, p2)"
    "session_Round3 hash p2 b2 u2 = Inr (st_u3 tp, p3)" "session_Round4 hash sum512 xof p3 u3 = Inr (st_ctx tp, p4)" by blast
  from session_Run_rounds [OF run_q] obtain q0 q1 q2 q3 q4 where R: "session_NewParticipant q (Some Q) (Some prng') = Inr q0"
    "session_Round1 hash q0 = Inr (st_b1 tq, q1)" "session_Round2 hash q1 b1' = Inr (st_b2 tq, st_u2 tq, q2)"
    "session_Round3 hash q2 b2' u2' = Inr (st_u3 tq, q3)" "session_Round4 hash sum512 xof q3 u3' = Inr (st_ctx tq, q4)" by blast
  have mem: "p \<in> set Q" "q \<in> set Q" using P(1) R(1) by (auto simp: session_NewParticipant_def split: if_splits)
  note sp = session_state [OF P(1-4), of v1 v2, OF sent(1) conjunct1 [OF bp] sent(2) conjunct2 [OF bp]]
  note sq = session_state [OF R(1-4), of v1 v2, OF sent(3) conjunct1 [OF bq] sent(4) conjunct2 [OF bq]]
  from session_Round4_ok [OF P(5)] obtain ckp csp seedp where fp: "common_seed p3 = Inr csp"
    "NewContext sum512 xof p (Some (hs_NewComparable (sort (hs_List Q)))) csp (Some (map_of seedp)) = Inr (st_ctx tp)"
    and pp: "\<exists>b. r4_pairwise hash p3 ckp csp u3 q = Inr (q, b) \<and> map_of seedp q = Some b"
    using sp pq mem by (auto simp: otherParticipantsOrdered_def)
  from session_Round4_ok [OF R(5)] obtain ckq csq seedq where fq: "common_seed q3 = Inr csq"
    "NewContext sum512 xof q (Some (hs_NewComparable (sort (hs_List Q)))) csq (Some (map_of seedq)) = Inr (st_ctx tq)"
    and qq: "\<exists>b. r4_pairwise hash q3 ckq csq u3' p = Inr (p, b) \<and> map_of seedq p = Some b"
    using sq pq mem by (auto simp: otherParticipantsOrdered_def)
  have "common_seed p3 = common_seed q3"
    using sp sq by (intro common_seed_cong) (auto simp: common_entry_def)
  with fp fq have cs: "csp = csq" by simp
  from sp mem pq obtain up where up: "map_of (st_u3 tp) q = Some up" "pairwiseContributions p3 q = Some (s3_PairwiseContribution up)" by blast
  from sq mem pq obtain uq where uq: "map_of (st_u3 tq) p = Some uq" "pairwiseContributions q3 p = Some (s3_PairwiseContribution uq)" by blast
  from pp obtain b where b: "r4_pairwise hash p3 ckp csp u3 q = Inr (q, b)" "map_of seedp q = Some b" by blast
  from qq obtain b' where b': "r4_pairwise hash q3 ckq csq u3' p = Inr (p, b')" "map_of seedq p = Some b'" by blast
  have "b = b'"
    using r4_pairwise_value [OF b(1) _ up(2), of uq] r4_pairwise_value [OF b'(1) _ uq(2), of up] up(1) uq(1) uni cs sp sq pq
    by (auto simp: not_less_iff_gr_or_eq)
  moreover have "set (hs_NewComparable (sort (hs_List Q))) = set Q" by simp
  ultimately show ?thesis
    using NewContext_ok [OF fp(2)] NewContext_ok [OF fq(2)] NewContext_ok(5) [OF fp(2), of q] NewContext_ok(5) [OF fq(2), of p]
      mem pq cs b(2) b'(2) pair_seed_commute [of xof p q b]
    by (auto simp: matching_def)
qed

text \<open>A run over a router that succeeds is a run of the rounds on what the exchanges deliver.\<close>

lemma session_runner_Run_rounds:
  assumes new: "session_NewParticipant i Q prng = Inr p"
    and run: "session_runner_Run hash sum512 xof k p rt = (rt', Inr ctx)"
  shows "\<exists>b1 b2 u2 u3 t. session_Run hash sum512 xof i Q prng b1 b2 u2 u3 = Inr t \<and> st_ctx t = ctx"
proof -
  from run obtain r1bo p1 r2bi r2bo r2uo p2 r3bi r3ui r3uo p3 r4ui p4 where
    "session_Round1 hash p = Inr (r1bo, p1)" "session_Round2 hash p1 (map_of r2bi) = Inr (r2bo, r2uo, p2)"
    "session_Round3 hash p2 (map_of r3bi) (map_of r3ui) = Inr (r3uo, p3)"
    "session_Round4 hash sum512 xof p3 (map_of r4ui) = Inr (ctx, p4)"
    by (auto simp: session_runner_Run_def Let_def then_do_Inr)
  with new have "session_Run hash sum512 xof i Q prng (map_of r2bi) (map_of r3bi) (map_of r3ui) (map_of r4ui) =
      Inr \<lparr>st_b1 = r1bo, st_b2 = r2bo, st_u2 = r2uo, st_u3 = r3uo, st_ctx = ctx\<rparr>"
    by (simp add: session_Run_def)
  then show ?thesis by (metis SessionTrace.select_convs(5))
qed

text \<open>
  C11. Agreement of session setup: two honest parties that saw the same broadcasts, their own as they sent them, and that
  received each other's last unicast end with matching contexts: the same session identifier, quorum and transcript, and the
  same sponge of shared randomness for each other. What the other members of the quorum send to them is arbitrary.
\<close>

theorem session_agreement:
  assumes "session_Run hash sum512 xof p (Some Q) (Some prng) b1 b2 u2 u3 = Inr tp"
    and "session_Run hash sum512 xof q (Some Q) (Some prng') b1' b2' u2' u3' = Inr tq" "p \<noteq> q"
    and "\<And>j. j \<in> set Q \<Longrightarrow> j \<noteq> p \<Longrightarrow> b1 j = Some (Some (v1 j)) \<and> b2 j = Some (Some (v2 j))"
    and "\<And>j. j \<in> set Q \<Longrightarrow> j \<noteq> q \<Longrightarrow> b1' j = Some (Some (v1 j)) \<and> b2' j = Some (Some (v2 j))"
    and "v1 p = st_b1 tp" "v2 p = st_b2 tp" "v1 q = st_b1 tq" "v2 q = st_b2 tq"
    and "u3 q = map_option Some (map_of (st_u3 tq) p)" "u3' p = map_option Some (map_of (st_u3 tp) q)"
  shows "matching (st_ctx tp) (st_ctx tq) \<and> ctx_holderID (st_ctx tp) = p \<and> ctx_holderID (st_ctx tq) = q"
  using assms by (rule session_pair)

text \<open>A session of two parties with constant hash functions and random bytes.\<close>

definition demo_run :: "ID \<Rightarrow> SessionTrace res" where
  "demo_run i = session_Run (\<lambda>_ _. replicate 32 7) (\<lambda>_. replicate 64 1) (\<lambda>_ _ _. 0) i (Some [1, 2]) (Some (replicate 160 5))
     (\<lambda>_. Some (Some \<lparr>s1_CommonCommitment = replicate 32 7, s1_Ck = Some (replicate 32 5)\<rparr>))
     (\<lambda>_. Some (Some \<lparr>s2_CommonContribution = replicate 32 5, s2_CommonContributionWitness = replicate 32 5\<rparr>))
     (\<lambda>_. Some (Some (replicate 32 7)))
     (\<lambda>_. Some (Some \<lparr>s3_PairwiseContribution = replicate 32 5, s3_PairwiseContributionWitness = replicate 32 5\<rparr>))"

definition demo_sent :: "ID \<Rightarrow> SessionTrace \<Rightarrow> SessionRound1Broadcast \<times> SessionRound2Broadcast \<times> SessionRound3P2P option" where
  "demo_sent j t = (st_b1 t, st_b2 t, map_of (st_u3 t) j)"

lemma demo_run_ok:
  "map_sum id (demo_sent 2) (demo_run 1) =
     Inr (\<lparr>s1_CommonCommitment = replicate 32 7, s1_Ck = Some (replicate 32 5)\<rparr>,
       \<lparr>s2_CommonContribution = replicate 32 5, s2_CommonContributionWitness = replicate 32 5\<rparr>,
       Some \<lparr>s3_PairwiseContribution = replicate 32 5, s3_PairwiseContributionWitness = replicate 32 5\<rparr>)"
  "map_sum id (demo_sent 1) (demo_run 2) =
     Inr (\<lparr>s1_CommonCommitment = replicate 32 7, s1_Ck = Some (replicate 32 5)\<rparr>,
       \<lparr>s2_CommonContribution = replicate 32 5, s2_CommonContributionWitness = replicate 32 5\<rparr>,
       Some \<lparr>s3_PairwiseContribution = replicate 32 5, s3_PairwiseContributionWitness = replicate 32 5\<rparr>)"
  by code_simp+

theorem session_agreement_witness:
  "\<exists>tp tq. demo_run 1 = Inr tp \<and> demo_run 2 = Inr tq \<and> matching (st_ctx tp) (st_ctx tq)"
proof -
  from demo_run_ok obtain tp tq where t: "demo_run 1 = Inr tp" "demo_run 2 = Inr tq"
    and v: "st_b1 tp = \<lparr>s1_CommonCommitment = replicate 32 7, s1_Ck = Some (replicate 32 5)\<rparr>" "st_b1 tq = st_b1 tp"
      "st_b2 tp = \<lparr>s2_CommonContribution = replicate 32 5, s2_CommonContributionWitness = replicate 32 5\<rparr>" "st_b2 tq = st_b2 tp"
      "map_of (st_u3 tp) 2 = Some \<lparr>s3_PairwiseContribution = replicate 32 5, s3_PairwiseContributionWitness = replicate 32 5\<rparr>"
      "map_of (st_u3 tq) 1 = Some \<lparr>s3_PairwiseContribution = replicate 32 5, s3_PairwiseContributionWitness = replicate 32 5\<rparr>"
    by (cases "demo_run 1"; cases "demo_run 2") (auto simp: demo_sent_def)
  have "matching (st_ctx tp) (st_ctx tq) \<and> ctx_holderID (st_ctx tp) = 1 \<and> ctx_holderID (st_ctx tq) = 2"
    by (rule session_agreement [where ?v1.0 = "\<lambda>_. st_b1 tp" and ?v2.0 = "\<lambda>_. st_b2 tp", OF t [unfolded demo_run_def]])
      (simp_all only: v option.map simp_thms one_neq_zero, simp)
  with t show ?thesis by blast
qed

end
