(* ===== verification/ZeroShare.thy ===== *)
theory ZeroShare
  imports Session Additive
begin

text \<open>
  Pseudorandom zero sharing (\<open>pkg/mpc/zero/przs\<close>): every party expands the sponge it shares with each peer
  into a group element and adds it with a sign that depends on the order of the two identifiers, so that
  the elements cancel over the whole quorum. Sampling from a group is a parameter: a function of the
  sponge, because \<open>Seeds\<close> hands out copies.
\<close>

section \<open>Sampling\<close>

definition zero_term :: "(SHAKE option \<Rightarrow> 'g::ab_group_add res) \<Rightarrow> Context \<Rightarrow> 'g \<Rightarrow> ID \<Rightarrow> 'g res" where
  "zero_term sampler ctx value j =
     rbind (sampler (ctx_Seeds ctx j)) (\<lambda>v. Inr (value + (if j < ctx_holderID ctx then - v else v)))"

definition SampleZeroShare :: "Context option \<Rightarrow> (SHAKE option \<Rightarrow> 'g::ab_group_add res) option \<Rightarrow> 'g AdditiveShare res" where
  "SampleZeroShare ctx g = (case (ctx, g) of
     (Some c, Some sampler) \<Rightarrow>
       rbind (FoldOrError (zero_term sampler c) 0 (OtherPartiesOrdered c)) (\<lambda>value.
       rbind (NewUnanimityAccessStructure (Some (ctx_Quorum c))) (\<lambda>as.
       additive_NewShare (ctx_holderID c) value (Some as)))
   | _ \<Rightarrow> Inl ErrInvalidArgument)"

section \<open>The shares cancel\<close>

lemma zero_fold:
  assumes "\<And>j. j \<in> set js \<Longrightarrow> sampler (ctx_Seeds ctx j) = Inr (r j)"
  shows "FoldOrError (zero_term sampler ctx) a js = Inr (a + (\<Sum>j\<leftarrow>js. if j < ctx_holderID ctx then - r j else r j))"
  using assms by (induction js arbitrary: a) (simp_all add: zero_term_def add.assoc)

text \<open>A symmetric table with opposite signs on the two sides of the diagonal sums to zero.\<close>

lemma antisymmetric_sum:
  fixes r :: "'i::linorder \<Rightarrow> 'i \<Rightarrow> 'g::ab_group_add"
  assumes "finite A" "\<And>i j. i \<in> A \<Longrightarrow> j \<in> A \<Longrightarrow> i \<noteq> j \<Longrightarrow> r i j = r j i"
  shows "(\<Sum>i\<in>A. \<Sum>j\<in>A - {i}. if j < i then - r i j else r i j) = 0"
proof -
  have split: "(\<Sum>j\<in>A - {i}. if j < i then - r i j else r i j) = (\<Sum>j\<in>{j\<in>A. i < j}. r i j) - (\<Sum>j\<in>{j\<in>A. j < i}. r i j)"
    if "i \<in> A" for i
  proof -
    have un: "A - {i} = {j\<in>A. i < j} \<union> {j\<in>A. j < i}" by auto
    have "(\<Sum>j\<in>A - {i}. if j < i then - r i j else r i j) =
        (\<Sum>j\<in>{j\<in>A. i < j}. if j < i then - r i j else r i j) + (\<Sum>j\<in>{j\<in>A. j < i}. if j < i then - r i j else r i j)"
      unfolding un by (rule sum.union_disjoint) (use assms(1) in auto)
    also have "(\<Sum>j\<in>{j\<in>A. i < j}. if j < i then - r i j else r i j) = (\<Sum>j\<in>{j\<in>A. i < j}. r i j)"
      by (rule sum.cong) auto
    also have "(\<Sum>j\<in>{j\<in>A. j < i}. if j < i then - r i j else r i j) = - (\<Sum>j\<in>{j\<in>A. j < i}. r i j)"
      by (simp add: sum_negf)
    finally show ?thesis by simp
  qed
  have "(\<Sum>i\<in>A. \<Sum>j\<in>{j\<in>A. j < i}. r i j) = (\<Sum>j\<in>A. \<Sum>i\<in>{i\<in>A. j < i}. r i j)"
    using assms(1) by (rule sum.swap_restrict) (use assms(1) in simp)
  also have "\<dots> = (\<Sum>j\<in>A. \<Sum>i\<in>{i\<in>A. j < i}. r j i)"
    using assms(2) by (intro sum.cong refl) auto
  finally show ?thesis by (simp add: split sum_subtractf)
qed

text \<open>
  The contexts \<open>C\<close> of one session with quorum \<open>Q\<close>: every party has one, and any two of them match. Session setup
  establishes this and \<open>SubContext\<close> keeps it.
\<close>

definition session_contexts :: "ID set \<Rightarrow> (ID \<Rightarrow> Context) \<Rightarrow> bool" where
  "session_contexts Q C \<longleftrightarrow>
     (\<forall>i\<in>Q. ctx_holderID (C i) = i \<and> set (ctx_sortedQuorum (C i)) = Q \<and> distinct (ctx_sortedQuorum (C i))) \<and>
     (\<forall>i\<in>Q. \<forall>j\<in>Q. i \<noteq> j \<longrightarrow> matching (C i) (C j))"

lemma SubContext_fields:
  assumes "SubContext xof c (Some sub) = Inr d"
  shows "ctx_holderID d = ctx_holderID c" "ctx_sortedQuorum d = sort (hs_List sub)"
  using assms by (auto simp: SubContext_def Let_def rbind_eq_Inr_iff split: if_splits)

lemma session_contexts_sub:
  assumes C: "session_contexts Q C" and sub: "set sub \<subseteq> Q" "hs_wf sub"
    and D: "\<And>i. i \<in> set sub \<Longrightarrow> SubContext xof (C i) (Some sub) = Inr (D i)"
  shows "session_contexts (set sub) D"
proof -
  have fields: "ctx_holderID (D i) = i" "ctx_sortedQuorum (D i) = sort (hs_List sub)" if i: "i \<in> set sub" for i
    using SubContext_fields [OF D [OF i]] C i sub(1) by (auto simp: session_contexts_def)
  have "matching (D i) (D j)" if ij: "i \<in> set sub" "j \<in> set sub" "i \<noteq> j" for i j
  proof (rule SubContext_matching [OF _ _ D [OF ij(1)] D [OF ij(2)]])
    have "i \<in> Q" "j \<in> Q" using ij sub(1) by auto
    then show "matching (C i) (C j)" "ctx_holderID (C i) \<noteq> ctx_holderID (C j)"
      using C ij(3) by (auto simp: session_contexts_def)
  qed
  with fields sub(2) show ?thesis by (simp add: session_contexts_def hs_wf_def hs_List_def)
qed

lemma additive_Reconstruct_sum:
  fixes shares :: "ID \<Rightarrow> ('g::ab_group_add) AdditiveShare"
  assumes ids: "distinct ids" "set ids = set ps" "ids \<noteq> []" "hs_wf ps"
    and sh: "\<And>i. i \<in> set ids \<Longrightarrow> ash_id (shares i) = i"
  shows "additive_Reconstruct \<lparr>ad_ac = \<lparr>un_ps = ps\<rparr>\<rparr> (map (\<lambda>i. Some (shares i)) ids) = Inr (\<Sum>i\<in>set ids. ash_v (shares i))"
proof -
  have names: "map (\<lambda>i. ash_id (shares i)) ids = ids" using sh by (simp add: map_idI)
  have "inj_on shares (set ids)" by (rule inj_onI) (metis sh)
  then have d: "distinct (map shares ids)" using ids(1) by (simp add: distinct_map)
  have q: "Unanimity_IsQualified (Some \<lparr>un_ps = ps\<rparr>) ids"
    using ids by (auto simp: Unanimity_IsQualified_def hs_wf_def)
  have map_the: "map the (map (\<lambda>i. Some (shares i)) ids) = map shares ids" by simp
  obtain i js where ij: "ids = i # js" using ids(3) by (cases ids) auto
  have "additive_Reconstruct \<lparr>ad_ac = \<lparr>un_ps = ps\<rparr>\<rparr> (map (\<lambda>i. Some (shares i)) ids) =
      Inr (ash_v (foldl ash_Add (shares i) (map shares js)))"
    unfolding additive_Reconstruct_def CollectIDs_map_Some names rbind_Inr Let_def map_the hs_New_distinct [OF ids(1)]
      hs_New_distinct [OF d] hs_List_def hs_Size_def
    using q by (simp add: ij)
  then show ?thesis using ids(1) ij by (simp add: foldl_ash_Add sum_list_distinct_conv_sum_set comp_def)
qed

section \<open>Main results\<close>

text \<open>
  C20. Zero sharing: when every party of the quorum holds a context of one session and the group can be sampled from its
  sponges, every party gets an additive share of its own, and the shares of the whole quorum reconstruct to the identity
  of the group. No message is exchanged.
\<close>

theorem zero_shares_cancel:
  fixes sampler :: "SHAKE option \<Rightarrow> 'g::ab_group_add res"
  assumes C: "session_contexts (set Q) C" and Q: "hs_wf Q" "2 \<le> hs_Size Q" "0 \<notin> set Q"
    and total: "\<And>i j. i \<in> set Q \<Longrightarrow> j \<in> set Q \<Longrightarrow> i \<noteq> j \<Longrightarrow> is_ok (sampler (ctx_Seeds (C i) j))"
  shows "\<exists>shares. (\<forall>i\<in>set Q. SampleZeroShare (Some (C i)) (Some sampler) = Inr (shares i) \<and> ash_id (shares i) = i) \<and>
    (\<forall>ids. distinct ids \<and> set ids = set Q \<longrightarrow>
       additive_Reconstruct \<lparr>ad_ac = \<lparr>un_ps = Q\<rparr>\<rparr> (map (\<lambda>i. Some (shares i)) ids) = Inr 0)"
proof -
  from total have "\<exists>v. \<forall>i j. i \<in> set Q \<longrightarrow> j \<in> set Q \<longrightarrow> i \<noteq> j \<longrightarrow> sampler (ctx_Seeds (C i) j) = Inr (v i j)"
    unfolding is_ok_iff by metis
  then obtain v where v: "\<And>i j. i \<in> set Q \<Longrightarrow> j \<in> set Q \<Longrightarrow> i \<noteq> j \<Longrightarrow> sampler (ctx_Seeds (C i) j) = Inr (v i j)" by blast
  have ctx: "ctx_holderID (C i) = i" "set (ctx_sortedQuorum (C i)) = set Q" "distinct (ctx_sortedQuorum (C i))" if "i \<in> set Q" for i
    using C that by (auto simp: session_contexts_def)
  have sym: "v i j = v j i" if "i \<in> set Q" "j \<in> set Q" "i \<noteq> j" for i j
  proof -
    have "matching (C i) (C j)" using C that by (auto simp: session_contexts_def)
    then have "ctx_Seeds (C i) j = ctx_Seeds (C j) i" using ctx that by (simp add: matching_def ctx_Seeds_def)
    with v [OF that] v [OF that(2,1)] that(3) show ?thesis by simp
  qed
  define val where "val i = (\<Sum>j\<in>set Q - {i}. if j < i then - v i j else v i j)" for i
  define shares where "shares i = \<lparr>ash_id = i, ash_v = val i\<rparr>" for i
  have sample: "SampleZeroShare (Some (C i)) (Some sampler) = Inr (shares i)" if i: "i \<in> set Q" for i
  proof -
    let ?js = "OtherPartiesOrdered (C i)"
    have js: "set ?js = set Q - {i}" "distinct ?js" using ctx [OF i] by (auto simp: OtherPartiesOrdered_def)
    have "FoldOrError (zero_term sampler (C i)) 0 ?js = Inr (\<Sum>j\<leftarrow>?js. if j < ctx_holderID (C i) then - v i j else v i j)"
      using zero_fold [of ?js sampler "C i" "v i" 0] v [OF i] js by auto
    also have "(\<Sum>j\<leftarrow>?js. if j < ctx_holderID (C i) then - v i j else v i j) = val i"
      using js ctx [OF i] by (simp add: sum_list_distinct_conv_sum_set val_def)
    finally have fold: "FoldOrError (zero_term sampler (C i)) 0 ?js = Inr (val i)" .
    have "hs_Size (ctx_Quorum (C i)) = hs_Size Q"
      using ctx [OF i] Q(1) distinct_card [of Q] distinct_card [of "ctx_sortedQuorum (C i)"]
      by (simp add: ctx_Quorum_def hs_Size_def hs_wf_def hs_New_distinct)
    moreover have "set (ctx_Quorum (C i)) = set Q" using ctx [OF i] by (simp add: ctx_Quorum_def)
    moreover have "i \<noteq> 0" using i Q(3) by auto
    ultimately show ?thesis
      using fold ctx [OF i] i Q
      by (simp add: SampleZeroShare_def NewUnanimityAccessStructure_def additive_NewShare_def NewAdditiveShare_def
          Unanimity_Shareholders_def shares_def)
  qed
  have "additive_Reconstruct \<lparr>ad_ac = \<lparr>un_ps = Q\<rparr>\<rparr> (map (\<lambda>i. Some (shares i)) ids) = Inr 0"
    if ids: "distinct ids" "set ids = set Q" for ids
  proof -
    have "ids \<noteq> []" using ids(2) Q(2) by (auto simp: hs_Size_def)
    from additive_Reconstruct_sum [OF ids this Q(1), of shares]
    have "additive_Reconstruct \<lparr>ad_ac = \<lparr>un_ps = Q\<rparr>\<rparr> (map (\<lambda>i. Some (shares i)) ids) = Inr (\<Sum>i\<in>set Q. val i)"
      using ids(2) by (simp add: shares_def)
    also have "(\<Sum>i\<in>set Q. val i) = 0" unfolding val_def by (rule antisymmetric_sum) (simp_all add: sym)
    finally show ?thesis .
  qed
  with sample show ?thesis by (intro exI [of _ shares]) (simp add: shares_def)
qed

text \<open>The two-party session of the constant hash functions, and a sampler that reads three bytes of the sponge's input.\<close>

definition demo_context :: "ID \<Rightarrow> Context" where
  "demo_context i = \<lparr>ctx_sid = [], ctx_holderID = i, ctx_sortedQuorum = [1, 2, 3], ctx_tape = NewTranscript ''demo'',
     ctx_seeds = (\<lambda>j. Some \<lparr>sh_custom = [], sh_absorbed = [ucast (i + j)], sh_squeezed = Some 32\<rparr>)\<rparr>"

definition demo_sampler :: "SHAKE option \<Rightarrow> int res" where
  "demo_sampler h = (case h of None \<Rightarrow> Inl ErrIsNil | Some s \<Rightarrow> Inr (sum_list (map uint (sh_absorbed s))))"

theorem zero_shares_cancel_witness:
  "\<exists>shares. (\<forall>i\<in>{1, 2, 3}. SampleZeroShare (Some (demo_context i)) (Some demo_sampler) = Inr (shares i)) \<and>
     shares 1 = \<lparr>ash_id = 1, ash_v = 7\<rparr> \<and>
     additive_Reconstruct \<lparr>ad_ac = \<lparr>un_ps = [1, 2, 3]\<rparr>\<rparr> (map (\<lambda>i. Some (shares i)) [3, 1, 2]) = Inr 0"
proof -
  have C: "session_contexts (set [1, 2, 3]) demo_context"
    by (auto simp: session_contexts_def matching_def demo_context_def add.commute)
  have one: "SampleZeroShare (Some (demo_context 1)) (Some demo_sampler) = Inr \<lparr>ash_id = 1, ash_v = 7\<rparr>" by code_simp
  have total: "is_ok (demo_sampler (ctx_Seeds (demo_context i) j))" for i j
    by (simp add: demo_sampler_def ctx_Seeds_def demo_context_def)
  have "hs_wf ([1, 2, 3] :: ID list)" "2 \<le> hs_Size ([1, 2, 3] :: ID list)" "0 \<notin> set ([1, 2, 3] :: ID list)"
    by (simp_all add: hs_wf_def hs_Size_def)
  from zero_shares_cancel [of "[1, 2, 3]" demo_context demo_sampler, OF C this total]
  obtain shares where sample: "\<forall>i\<in>set [1, 2, 3]. SampleZeroShare (Some (demo_context i)) (Some demo_sampler) = Inr (shares i) \<and> ash_id (shares i) = i"
    and zero: "\<forall>ids. distinct ids \<and> set ids = set [1, 2, 3] \<longrightarrow>
       additive_Reconstruct \<lparr>ad_ac = \<lparr>un_ps = [1, 2, 3]\<rparr>\<rparr> (map (\<lambda>i. Some (shares i)) ids) = Inr 0" by blast
  have "shares 1 = \<lparr>ash_id = 1, ash_v = 7\<rparr>" using sample one by simp
  moreover have "additive_Reconstruct \<lparr>ad_ac = \<lparr>un_ps = [1, 2, 3]\<rparr>\<rparr> (map (\<lambda>i. Some (shares i)) [3, 1, 2]) = Inr 0"
    by (rule zero [rule_format]) auto
  ultimately show ?thesis using sample by (intro exI [of _ shares]) simp
qed

end
