(* ===== verification/BoolExpr.thy ===== *)
theory BoolExpr
  imports InducedMSP Sharing
begin

text \<open>
  Access structures given by a tree of threshold gates (\<open>accessstructures/boolexpr\<close>): the tree with its checks
  and its evaluation, the structure over it, its serialisation, and the conversion of the tree into a span
  programme, which expands one gate after the other inside a flat square array. A Go map from shareholders to
  booleans is an association list.
\<close>

section \<open>Trees\<close>

datatype Node = Node (nd_kind: "8 word") (nd_attr: ID) (nd_threshold: int) (nd_children: "Node option list")

definition gate :: "8 word" where "gate = 1"

definition attribute_kind :: "8 word" where "attribute_kind = 2"

definition bx_ID :: "ID \<Rightarrow> Node" where
  "bx_ID i = Node attribute_kind i 0 []"

definition bx_Threshold :: "int \<Rightarrow> Node option list \<Rightarrow> Node" where
  "bx_Threshold threshold children = Node gate 0 threshold children"

definition bx_And :: "Node option list \<Rightarrow> Node" where
  "bx_And nodes = bx_Threshold (int (length nodes)) nodes"

definition bx_Or :: "Node option list \<Rightarrow> Node" where
  "bx_Or nodes = bx_Threshold 1 nodes"

lemma kinds [simp]: "gate \<noteq> attribute_kind" "attribute_kind \<noteq> gate"
  by (simp_all add: gate_def attribute_kind_def)

lemma FoldOrError_fundef_cong [fundef_cong]:
  "a = b \<Longrightarrow> xs = ys \<Longrightarrow> (\<And>acc x. x \<in> set ys \<Longrightarrow> f acc x = g acc x) \<Longrightarrow> FoldOrError f a xs = FoldOrError g b ys"
  using FoldOrError_cong [of ys f g b] by simp

abbreviation node_size :: "Node option \<Rightarrow> nat" where
  "node_size \<equiv> size_option size"

lemma child_size: "c \<in> set cs \<Longrightarrow> node_size c < node_size (Some (Node k a t cs))"
  using size_list_estimation' [of c cs "node_size c" node_size] by simp

text \<open>The filter over the children reads the kind of each, so a nil child panics before it is reported.\<close>

function checkTree :: "Node option \<Rightarrow> unit res" where
  "checkTree None = Inl ErrIsNil"
| "checkTree (Some (Node kind attr threshold children)) =
     (if kind = attribute_kind then (if attr = 0 then Inl ErrValue else Inr ())
      else if kind = gate then
        (if threshold \<le> 0 then Inl ErrValue
         else if threshold > int (length children) then Inl ErrValue
         else if list_ex (\<lambda>c. c = None) children then Inl Panic
         else (let attrChildren = filter (\<lambda>c. nd_kind (the c) = attribute_kind) children;
                   uniqueAttrChildren = hs_NewComparable (map (\<lambda>c. nd_attr (the c)) attrChildren) in
           if hs_Size uniqueAttrChildren \<noteq> length attrChildren then Inl ErrValue
           else FoldOrError (\<lambda>_ child. checkTree child) () children))
      else Inl ErrValue)"
  by pat_completeness auto
termination by (relation "measure node_size") (simp_all only: in_measure wf_measure child_size)

function allShareholders :: "Node option \<Rightarrow> (ID \<times> bool) list \<Rightarrow> (ID \<times> bool) list" where
  "allShareholders None shareholders = shareholders"
| "allShareholders (Some (Node kind attr threshold children)) shareholders =
     (if kind \<noteq> gate \<and> kind \<noteq> attribute_kind then shareholders
      else if kind = attribute_kind then AList.update attr True shareholders
      else fold (\<lambda>child sh. allShareholders child sh) children shareholders)"
  by pat_completeness auto
termination by (relation "measure (\<lambda>(n, _). node_size n)") (simp_all only: in_measure wf_measure child_size prod.case)

function treeEval :: "Node option \<Rightarrow> (ID \<rightharpoonup> bool) \<Rightarrow> bool" where
  "treeEval None ids = False"
| "treeEval (Some (Node kind attr threshold children)) ids =
     (if kind \<noteq> gate \<and> kind \<noteq> attribute_kind then False
      else if kind = attribute_kind then (case ids attr of None \<Rightarrow> False | Some b \<Rightarrow> b)
      else int (Count (\<lambda>b. b) (map (\<lambda>child. treeEval child ids) children)) \<ge> threshold)"
  by pat_completeness auto
termination by (relation "measure (\<lambda>(n, _). node_size n)") (simp_all only: in_measure wf_measure child_size prod.case)

function treeCountLeaves :: "Node option \<Rightarrow> nat" where
  "treeCountLeaves None = 0"
| "treeCountLeaves (Some (Node kind attr threshold children)) =
     (if kind \<noteq> gate \<and> kind \<noteq> attribute_kind then 0
      else if kind = attribute_kind then 1
      else fold (\<lambda>child c. c + treeCountLeaves child) children 0)"
  by pat_completeness auto
termination by (relation "measure node_size") (simp_all only: in_measure wf_measure child_size)

section \<open>The access structure\<close>

record ThresholdGateAccessStructure =
  tg_root :: "Node option"
  tg_shareholders :: "(ID \<times> bool) list"

definition NewThresholdGateAccessStructure :: "Node option \<Rightarrow> ThresholdGateAccessStructure res" where
  "NewThresholdGateAccessStructure thresholdGateTreeRoot =
     rbind (checkTree thresholdGateTreeRoot) (\<lambda>_.
       Inr \<lparr>tg_root = thresholdGateTreeRoot, tg_shareholders = allShareholders thresholdGateTreeRoot []\<rparr>)"

definition tg_IsQualified :: "ThresholdGateAccessStructure \<Rightarrow> ID list \<Rightarrow> bool" where
  "tg_IsQualified a ids = treeEval (tg_root a) (fold (\<lambda>i m. m(i \<mapsto> True)) ids Map.empty)"

definition tg_Shareholders :: "ThresholdGateAccessStructure \<Rightarrow> ID hset" where
  "tg_Shareholders a = hs_NewComparable (map fst (tg_shareholders a))"

definition tg_MaximalUnqualifiedSetsIter :: "ThresholdGateAccessStructure \<Rightarrow> ID hset list res" where
  "tg_MaximalUnqualifiedSetsIter a =
     (case BruteForceMaximalUnqualifiedSets (Some (tg_Shareholders a)) (Some (tg_IsQualified a)) of
        Inl _ \<Rightarrow> Inl Panic | Inr muss \<Rightarrow> Inr muss)"

definition CountLeaves :: "ThresholdGateAccessStructure \<Rightarrow> nat" where
  "CountLeaves a = treeCountLeaves (tg_root a)"

section \<open>Serialisation\<close>

text \<open>The CBOR codec of the data transfer objects is a parameter; a nil object decodes to \<open>None\<close>.\<close>

type_synonym nodeDTO = "8 word \<times> ID \<times> int \<times> Node option list"

definition Node_MarshalCBOR :: "(nodeDTO option \<Rightarrow> 'b res) \<Rightarrow> Node option \<Rightarrow> 'b res" where
  "Node_MarshalCBOR enc n =
     enc (map_option (\<lambda>n. (nd_kind n, nd_attr n, nd_threshold n, nd_children n)) n)"

definition Node_UnmarshalCBOR :: "('b \<Rightarrow> nodeDTO option res) \<Rightarrow> 'b \<Rightarrow> Node res" where
  "Node_UnmarshalCBOR dec data =
     rbind (dec data) (\<lambda>dto. case dto of
       None \<Rightarrow> Inl ErrSerialisation
     | Some (kind, attr, threshold, children) \<Rightarrow>
         if kind = gate \<and> (threshold < 1 \<or> length children = 0 \<or> threshold > int (length children)) then Inl ErrSerialisation
         else if kind = attribute_kind \<and> attr = 0 then Inl ErrSerialisation
         else Inr (Node kind attr threshold children))"

definition tg_MarshalCBOR :: "(Node option \<times> (ID \<times> bool) list \<Rightarrow> 'b res) \<Rightarrow> ThresholdGateAccessStructure \<Rightarrow> 'b res" where
  "tg_MarshalCBOR enc a = enc (tg_root a, tg_shareholders a)"

definition tg_UnmarshalCBOR ::
  "('b \<Rightarrow> (Node option \<times> (ID \<times> bool) list) option res) \<Rightarrow> 'b \<Rightarrow> ThresholdGateAccessStructure res" where
  "tg_UnmarshalCBOR dec data =
     rbind (dec data) (\<lambda>dto. case dto of
       None \<Rightarrow> Inl ErrSerialisation
     | Some (rt, shareholders) \<Rightarrow>
         (let shareHoldersInNode = allShareholders rt [] in
          if list_ex (\<lambda>(i, _). map_of shareHoldersInNode i \<noteq> Some True) shareholders then Inl ErrSerialisation
          else if list_ex (\<lambda>(i, _). map_of shareholders i \<noteq> Some True) shareHoldersInNode then Inl ErrSerialisation
          else rbind (checkTree rt) (\<lambda>_. Inr \<lparr>tg_root = rt, tg_shareholders = shareholders\<rparr>)))"

section \<open>Conversion to a span programme\<close>

text \<open>Reading and writing a slice, with the panic of an index out of range.\<close>

definition slice_at :: "'a list \<Rightarrow> nat \<Rightarrow> 'a res" where
  "slice_at xs i = (if i < length xs then Inr (xs ! i) else Inl Panic)"

definition slice_put :: "'a list \<Rightarrow> nat \<Rightarrow> 'a \<Rightarrow> 'a list res" where
  "slice_put xs i v = (if i < length xs then Inr (xs[i := v]) else Inl Panic)"

text \<open>
  The state of the conversion: the array \<open>bigM\<close> with \<open>leaves\<close> cells per row, the list \<open>l\<close> of tree nodes
  and the numbers \<open>m\<close> of rows and \<open>d\<close> of columns in use. Thresholds are positive, see \<open>checkTree\<close>.
\<close>

type_synonym 'a conv = "'a list \<times> Node option list \<times> nat \<times> nat"

fun first_gate :: "Node option list \<Rightarrow> nat list \<Rightarrow> nat option res" where
  "first_gate l [] = Inr None"
| "first_gate l (i # is) =
     rbind (slice_at l i) (\<lambda>n. case n of
       None \<Rightarrow> Inl Panic
     | Some n \<Rightarrow> if nd_kind n = gate then Inr (Some i) else first_gate l is)"

definition copy_cells :: "nat \<Rightarrow> 'a list \<Rightarrow> nat \<Rightarrow> nat \<Rightarrow> nat \<Rightarrow> 'a list \<Rightarrow> 'a list res" where
  "copy_cells leaves bigM1 d1 src i bigM =
     FoldOrError (\<lambda>M j. rbind (slice_at bigM1 (src * leaves + j)) (slice_put M (i * leaves + j))) bigM [0..<d1]"

definition zero_cells :: "nat \<Rightarrow> nat \<Rightarrow> nat \<Rightarrow> nat \<Rightarrow> ('a::field) list \<Rightarrow> 'a list res" where
  "zero_cells leaves d1 d2 i bigM = FoldOrError (\<lambda>M j. slice_put M (i * leaves + j) 0) bigM [d1..<d1 + d2 - 1]"

definition power_cells :: "nat \<Rightarrow> nat \<Rightarrow> nat \<Rightarrow> nat \<Rightarrow> 'a \<Rightarrow> ('a::field) list \<Rightarrow> 'a list res" where
  "power_cells leaves d1 d2 i a bigM =
     rbind (FoldOrError (\<lambda>(M, x) j. rbind (slice_put M (i * leaves + j) x) (\<lambda>M. Inr (M, x * a))) (bigM, a) [d1..<d1 + d2 - 1])
       (\<lambda>(M, _). Inr M)"

definition keep_row ::
  "nat \<Rightarrow> ('a::field) list \<Rightarrow> Node option list \<Rightarrow> nat \<Rightarrow> nat \<Rightarrow> nat \<Rightarrow> 'a list \<times> Node option list \<Rightarrow> nat \<Rightarrow>
     ('a list \<times> Node option list) res" where
  "keep_row leaves bigM1 l1 d1 d2 src s i = (case s of (bigM, l) \<Rightarrow>
     rbind (rbind (slice_at l1 src) (slice_put l i)) (\<lambda>l.
     rbind (copy_cells leaves bigM1 d1 src i bigM) (\<lambda>bigM.
     rbind (zero_cells leaves d1 d2 i bigM) (\<lambda>bigM. Inr (bigM, l)))))"

definition child_row ::
  "nat \<Rightarrow> ('a::field) list \<Rightarrow> Node option list \<Rightarrow> nat \<Rightarrow> nat \<Rightarrow> nat \<Rightarrow> 'a list \<times> Node option list \<Rightarrow> nat \<Rightarrow>
     ('a list \<times> Node option list) res" where
  "child_row leaves bigM1 children d1 d2 z s i = (case s of (bigM, l) \<Rightarrow>
     rbind (rbind (slice_at children (i - z)) (slice_put l i)) (\<lambda>l.
     rbind (copy_cells leaves bigM1 d1 z i bigM) (\<lambda>bigM.
     rbind (power_cells leaves d1 d2 i (of_nat i - of_nat z + 1) bigM) (\<lambda>bigM. Inr (bigM, l)))))"

definition convert_step :: "nat \<Rightarrow> ('a::field) conv \<Rightarrow> nat \<Rightarrow> 'a conv res" where
  "convert_step leaves s z = (case s of (bigM1, l1, m1, d1) \<Rightarrow>
     rbind (slice_at l1 z) (\<lambda>fz. case fz of
       None \<Rightarrow> Inl Panic
     | Some fz \<Rightarrow>
         (let m2 = length (nd_children fz); d2 = nat (nd_threshold fz) in
          rbind (FoldOrError (\<lambda>s i. keep_row leaves bigM1 l1 d1 d2 i s i) (bigM1, l1) [0..<z]) (\<lambda>s.
          rbind (FoldOrError (child_row leaves bigM1 (nd_children fz) d1 d2 z) s [z..<z + m2]) (\<lambda>s.
          rbind (FoldOrError (\<lambda>s i. keep_row leaves bigM1 l1 d1 d2 (i - m2 + 1) s i) s [z + m2..<m1 + m2 - 1]) (\<lambda>(bigM, l).
          Inr (bigM, l, m1 + m2 - 1, d1 + d2 - 1)))))))"

partial_function (option) convert_loop :: "nat \<Rightarrow> ('a::field) conv \<Rightarrow> 'a conv res option" where
  "convert_loop leaves s =
     (case first_gate (fst (snd s)) [0..<fst (snd (snd s))] of
        Inl e \<Rightarrow> Some (Inl e)
      | Inr z \<Rightarrow> (case z of
          None \<Rightarrow> Some (Inr s)
        | Some z \<Rightarrow> (case convert_step leaves s z of
            Inl e \<Rightarrow> Some (Inl e)
          | Inr s' \<Rightarrow> convert_loop leaves s')))"

text \<open>The loop over the final list of nodes: every node is a leaf.\<close>

definition leaf_label :: "nat \<Rightarrow> Node option list \<Rightarrow> ID list res" where
  "leaf_label m l =
     FoldOrError (\<lambda>rho (i, li). case li of
         None \<Rightarrow> Inl Panic
       | Some n \<Rightarrow> if nd_kind n \<noteq> attribute_kind then Inl ErrFailed else slice_put rho i (nd_attr n))
       (replicate m 0) (zip [0..<length l] l)"

definition convert :: "'f option \<Rightarrow> ThresholdGateAccessStructure \<Rightarrow> (('a::field) Matrix \<times> ID list) res option" where
  "convert f as =
     (let leaves = CountLeaves as in
      case rbind (slice_put (replicate (leaves * leaves) 0) 0 1) (\<lambda>bigM.
           rbind (slice_put (replicate leaves None) 0 (tg_root as)) (\<lambda>l. Inr (bigM, l, 1, 1))) of
        Inl e \<Rightarrow> Some (Inl e)
      | Inr s0 \<Rightarrow> map_option (\<lambda>r. rbind r (\<lambda>(bigM, l, m, d).
          rbind (NewMatrixModule leaves leaves f) (\<lambda>matrices.
          rbind (mod_NewRowMajor matrices bigM) (\<lambda>resultM.
          rbind (mat_RowSlice resultM 0 (int m)) (\<lambda>resultM.
          rbind (mat_ColumnSlice resultM 0 (int d)) (\<lambda>resultM.
          rbind (leaf_label m l) (\<lambda>resultRho. Inr (resultM, resultRho)))))))) (convert_loop leaves s0))"

definition BoolExpr_InducedMSP :: "'f option \<Rightarrow> ThresholdGateAccessStructure \<Rightarrow> ('a::field) MSP res option" where
  "BoolExpr_InducedMSP f ac =
     map_option (\<lambda>r. rbind r (\<lambda>(m, rho). NewMSP (Some m) (Some (label_rows rho)))) (convert f ac)"

declare convert_loop.simps [code]

section \<open>Facts on trees\<close>

lemma checkTree_gate:
  assumes "checkTree n = Inr ()" "n = Some (Node gate a t cs)"
  shows "0 < t" "t \<le> int (length cs)" "\<And>c. c \<in> set cs \<Longrightarrow> checkTree c = Inr ()"
  using assms by (auto simp: Let_def FoldOrError_check split: if_splits)

lemma checkTree_kinds:
  assumes "checkTree n = Inr ()"
  obtains a t cs where "n = Some (Node attribute_kind a t cs)" "a \<noteq> 0"
  | a t cs where "n = Some (Node gate a t cs)"
proof (cases n)
  case (Some x)
  with assms that show thesis by (cases x) (auto split: if_splits)
qed (use assms in simp)

lemma leaves_gate: "treeCountLeaves (Some (Node gate a t cs)) = (\<Sum>c\<leftarrow>cs. treeCountLeaves c)"
  by (simp add: fold_add_list)

lemma leaves_pos: "checkTree n = Inr () \<Longrightarrow> 0 < treeCountLeaves n"
proof (induction n rule: treeCountLeaves.induct)
  case (2 kind a t cs)
  show ?case
  proof (rule checkTree_kinds [OF 2(2)])
    fix a' t' cs' assume n: "Some (Node kind a t cs) = Some (Node gate a' t' cs')"
    note g = checkTree_gate [OF 2(2) n]
    then obtain c where c: "c \<in> set cs'" by (cases cs') auto
    with g n 2(1) have "0 < treeCountLeaves c" by auto
    moreover have "treeCountLeaves c \<le> (\<Sum>c\<leftarrow>cs'. treeCountLeaves c)" using c by (intro member_le_sum_list) simp_all
    ultimately have "0 < (\<Sum>c\<leftarrow>cs'. treeCountLeaves c)" by simp
    with n show ?thesis by (simp only: leaves_gate)
  qed simp
qed simp

lemma Count_card: "Count (\<lambda>b. b) (map P xs) = card {k. k < length xs \<and> P (xs ! k)}"
  by (simp add: Count_filter filter_map comp_def length_filter_conv_card)

lemma treeEval_gate:
  "treeEval (Some (Node gate a t cs)) A \<longleftrightarrow> t \<le> int (card {k. k < length cs \<and> treeEval (cs ! k) A})"
  by (simp add: Count_card)

section \<open>One gate\<close>

text \<open>Enough nodes: coefficients that reproduce the value at zero of every polynomial of degree below \<open>d\<close>.\<close>

lemma gate_reconstruct:
  fixes x :: "nat \<Rightarrow> 'a::field"
  assumes "finite T" "inj_on x T" "d \<le> card T"
  obtains mu where "\<And>j. j < d \<Longrightarrow> (\<Sum>k\<in>T. mu k * x k ^ j) = (if j = 0 then 1 else 0)"
proof -
  obtain h where h: "bij_betw h {..<card T} T"
    using ex_bij_betw_nat_finite [OF assms(1)] by (auto simp: atLeast0LessThan)
  define xs where "xs = map (\<lambda>i. x (h i)) [0..<card T]"
  have dist: "distinct xs"
    using comp_inj_on [OF bij_betw_imp_inj_on [OF h], of x] assms(2) h
    by (simp add: xs_def distinct_map bij_betw_def comp_def atLeast0LessThan)
  define mu where "mu k = lagrange_basis xs (the_inv_into {..<card T} h k) 0" for k
  have "(\<Sum>k\<in>T. mu k * x k ^ j) = (if j = 0 then 1 else 0)" if "j < d" for j
  proof -
    have "polyrep (Suc j) (\<lambda>y :: 'a. y ^ j)"
      unfolding polyrep_def by (intro exI [of _ "\<lambda>k. if k = j then 1 else 0"] allI, subst sum_single [of j]) auto
    then have rep: "polyrep (length xs) (\<lambda>y :: 'a. y ^ j)" by (rule polyrep_mono) (use that assms(3) in \<open>simp add: xs_def\<close>)
    have "(\<Sum>k\<in>T. mu k * x k ^ j) = (\<Sum>i<card T. mu (h i) * x (h i) ^ j)"
      by (rule sum.reindex_bij_betw [OF h, symmetric])
    also have "\<dots> = (\<Sum>i<length xs. lagrange_basis xs i 0 * (xs ! i) ^ j)"
      using h by (intro sum.cong) (auto simp: mu_def xs_def bij_betw_def the_inv_into_f_f)
    also have "\<dots> = 0 ^ j" by (rule lagrange_unique [OF dist rep])
    finally show ?thesis by simp
  qed
  then show thesis by (rule that)
qed

text \<open>Too few nodes: a combination that vanishes in the powers \<open>1, \<dots>, d - 1\<close> has coefficient sum zero.\<close>

lemma gate_dual:
  fixes x :: "nat \<Rightarrow> 'a::field"
  assumes "finite T" "0 \<notin> x ` T" "card T < d"
    and lam: "\<And>j. 0 < j \<Longrightarrow> j < d \<Longrightarrow> (\<Sum>k\<in>T. lam k * x k ^ j) = 0"
  shows "(\<Sum>k\<in>T. lam k) = 0"
proof -
  obtain c where c: "\<And>y. (\<Prod>k\<in>T. y - x k) = (\<Sum>j<d. c j * y ^ j)"
    using polyrep_mono [OF polyrep_prod [OF assms(1), of x], of d] assms(3) by (auto simp: polyrep_def)
  have "(\<Sum>j<d. c j * 0 ^ j) = c 0" using assms(3) by (subst sum_single [of 0]) auto
  with c [of 0] have c0: "c 0 \<noteq> 0" using assms(1,2) by auto
  have "(\<Sum>j<d. c j * (\<Sum>k\<in>T. lam k * x k ^ j)) = c 0 * (\<Sum>k\<in>T. lam k)"
    using assms(3) lam by (subst sum_single [of 0]) auto
  moreover have "(\<Sum>j<d. c j * (\<Sum>k\<in>T. lam k * x k ^ j)) = (\<Sum>k\<in>T. lam k * (\<Sum>j<d. c j * x k ^ j))"
    unfolding sum_distrib_left by (subst sum.swap) (simp add: mult.left_commute)
  moreover have "\<dots> = 0" using assms(1) by (intro sum.neutral) (auto simp: c [symmetric])
  ultimately show ?thesis using c0 by simp
qed

section \<open>Rows with tree nodes as labels\<close>

text \<open>The target lies in the span of the rows whose tree node the coalition satisfies.\<close>

abbreviation comb :: "'a list \<Rightarrow> (Node option \<times> (nat \<Rightarrow> 'a::field)) list \<Rightarrow> nat \<Rightarrow> 'a" where
  "comb lams rs c \<equiv> (\<Sum>(lam, r)\<leftarrow>zip lams rs. lam * snd r c)"

definition spanned :: "(ID \<rightharpoonup> bool) \<Rightarrow> nat \<Rightarrow> (Node option \<times> (nat \<Rightarrow> 'a::field)) list \<Rightarrow> bool" where
  "spanned A d rs \<longleftrightarrow> (\<exists>lams. list_all2 (\<lambda>lam r. treeEval (fst r) A \<or> lam = 0) lams rs \<and>
     (\<forall>c<d. comb lams rs c = (if c = 0 then 1 else 0)))"

definition pad :: "nat \<Rightarrow> Node option \<times> (nat \<Rightarrow> 'a::field) \<Rightarrow> Node option \<times> (nat \<Rightarrow> 'a)" where
  "pad d r = (fst r, \<lambda>c. if c < d then snd r c else 0)"

definition kids :: "nat \<Rightarrow> (nat \<Rightarrow> 'a::field) \<Rightarrow> Node option list \<Rightarrow> (Node option \<times> (nat \<Rightarrow> 'a)) list" where
  "kids d row cs = map (\<lambda>k. (cs ! k, \<lambda>c. if c < d then row c else of_nat (k + 1) ^ (c - d + 1))) [0..<length cs]"

lemma comb_append: "length la = length ra \<Longrightarrow> comb (la @ lb) (ra @ rb) c = comb la ra c + comb lb rb c"
  by simp

lemma comb_pad: "comb la (map (pad d) rs) c = (if c < d then comb la rs c else 0)"
  by (induction la rs rule: list_induct2') (auto simp: pad_def)

lemma comb_kids:
  assumes "length lk = length cs"
  shows "comb lk (kids d row cs) c = (if c < d then (\<Sum>k<length cs. lk ! k) * row c else (\<Sum>k<length cs. lk ! k * of_nat (k + 1) ^ (c - d + 1)))"
proof -
  have "map (\<lambda>(lam, r). lam * snd r c) (zip lk (kids d row cs)) =
      map (\<lambda>k. lk ! k * (if c < d then row c else of_nat (k + 1) ^ (c - d + 1))) [0..<length cs]"
    using assms by (intro nth_equalityI) (auto simp: kids_def)
  then show ?thesis by (simp add: sum_distrib_right)
qed

lemma spanned_expand:
  fixes row :: "nat \<Rightarrow> 'a::field"
  assumes d: "0 < d" "0 < d2" and inj: "inj_on (of_nat :: nat \<Rightarrow> 'a) {..length cs}"
    and eval: "treeEval n A \<longleftrightarrow> d2 \<le> card {k. k < length cs \<and> treeEval (cs ! k) A}"
  shows "spanned A (d + d2 - 1) (map (pad d) as @ kids d row cs @ map (pad d) bs) \<longleftrightarrow> spanned A d (as @ (n, row) # bs)"
    (is "spanned A ?d ?new \<longleftrightarrow> spanned A d ?old")
proof -
  let ?T = "{k. k < length cs \<and> treeEval (cs ! k) A}" and ?x = "\<lambda>k. of_nat (k + 1) :: 'a"
  have fin: "finite ?T" by simp
  have injT: "inj_on ?x ?T"
  proof (rule inj_onI)
    fix k k' assume "k \<in> ?T" "k' \<in> ?T" "?x k = ?x k'"
    with inj_onD [OF inj this(3)] show "k = k'" by simp
  qed
  have nz: "0 \<notin> ?x ` ?T"
  proof
    assume "0 \<in> ?x ` ?T"
    then obtain k where "k < length cs" "of_nat 0 = (of_nat (k + 1) :: 'a)" by auto
    with inj_onD [OF inj this(2)] show False by simp
  qed
  have T: "(\<Sum>k<length cs. f k) = (\<Sum>k\<in>?T. f k)" if "\<And>k. k < length cs \<Longrightarrow> \<not> treeEval (cs ! k) A \<Longrightarrow> f k = 0" for f :: "nat \<Rightarrow> 'a"
    using that by (intro sum.mono_neutral_right) auto
  show ?thesis
  proof
    assume "spanned A ?d ?new"
    then obtain la lk lb where l: "list_all2 (\<lambda>lam r. treeEval (fst r) A \<or> lam = 0) la (map (pad d) as)"
      "list_all2 (\<lambda>lam r. treeEval (fst r) A \<or> lam = 0) lk (kids d row cs)"
      "list_all2 (\<lambda>lam r. treeEval (fst r) A \<or> lam = 0) lb (map (pad d) bs)"
      and c: "\<And>c. c < ?d \<Longrightarrow> comb (la @ lk @ lb) ?new c = (if c = 0 then 1 else 0)"
      unfolding spanned_def list_all2_append2 by blast
    have len: "length la = length as" "length lk = length cs" "length lb = length bs"
      using l [THEN list_all2_lengthD] by (simp_all add: kids_def)
    have lk0: "lk ! k = 0" if "k < length cs" "\<not> treeEval (cs ! k) A" for k
      using list_all2_nthD2 [OF l(2), of k] that by (simp add: kids_def)
    have comb: "comb (la @ lk @ lb) ?new c = comb la (map (pad d) as) c + comb lk (kids d row cs) c + comb lb (map (pad d) bs) c" for c
      using len by (simp add: kids_def)
    let ?y = "\<Sum>k<length cs. lk ! k"
    have "treeEval n A \<or> ?y = 0"
    proof (rule disjCI)
      assume y: "?y \<noteq> 0"
      have kill: "(\<Sum>k\<in>?T. lk ! k * ?x k ^ j) = 0" if "0 < j" "j < d2" for j
      proof -
        from that(1) obtain i where i: "j = Suc i" by (cases j) auto
        have "(\<Sum>k<length cs. lk ! k * ?x k ^ j) = 0"
          using comb [of "d + i"] c [of "d + i"] that(2) d i by (simp add: comb_pad comb_kids [OF len(2)])
        moreover have "(\<Sum>k<length cs. lk ! k * ?x k ^ j) = (\<Sum>k\<in>?T. lk ! k * ?x k ^ j)" by (rule T) (simp add: lk0)
        ultimately show ?thesis by simp
      qed
      have "(\<Sum>k\<in>?T. lk ! k) = 0" if "card ?T < d2" by (rule gate_dual [OF fin nz that]) (rule kill)
      then show "treeEval n A" using y eval T [of "\<lambda>k. lk ! k"] lk0 by force
    qed
    moreover have "list_all2 (\<lambda>lam r. treeEval (fst r) A \<or> lam = 0) la as" "list_all2 (\<lambda>lam r. treeEval (fst r) A \<or> lam = 0) lb bs"
      using l(1,3) by (simp_all add: list_all2_map2 pad_def)
    ultimately have "list_all2 (\<lambda>lam r. treeEval (fst r) A \<or> lam = 0) (la @ ?y # lb) ?old"
      by (intro list_all2_appendI) simp_all
    moreover have "comb (la @ ?y # lb) ?old c = (if c = 0 then 1 else 0)" if "c < d" for c
      using comb [of c] c [of c] that len d by (simp add: comb_pad comb_kids [OF len(2)])
    ultimately show "spanned A d ?old" unfolding spanned_def by blast
  next
    assume "spanned A d ?old"
    then obtain la y lb where l: "list_all2 (\<lambda>lam r. treeEval (fst r) A \<or> lam = 0) la as"
      "treeEval n A \<or> y = 0" "list_all2 (\<lambda>lam r. treeEval (fst r) A \<or> lam = 0) lb bs"
      and c: "\<And>c. c < d \<Longrightarrow> comb (la @ y # lb) ?old c = (if c = 0 then 1 else 0)"
      unfolding spanned_def list_all2_append2 list_all2_Cons2 by auto
    have len: "length la = length as" "length lb = length bs" using l(1,3) [THEN list_all2_lengthD] by simp_all
    obtain mu where mu: "\<And>j. j < d2 \<Longrightarrow> y * (\<Sum>k\<in>?T. mu k * ?x k ^ j) = (if j = 0 then y else 0)"
    proof (cases "treeEval n A")
      case True
      with eval have "d2 \<le> card ?T" by simp
      then obtain mu where "\<And>j. j < d2 \<Longrightarrow> (\<Sum>k\<in>?T. mu k * ?x k ^ j) = (if j = 0 then 1 else 0)"
        by (rule gate_reconstruct [OF fin injT]) blast
      then show thesis by (intro that [of mu]) simp
    next
      case False
      then show thesis using l(2) by (intro that [of "\<lambda>_. 0"]) simp
    qed
    define lk where "lk = map (\<lambda>k. if k \<in> ?T then y * mu k else 0) [0..<length cs]"
    have lenk: "length lk = length cs" by (simp add: lk_def)
    have sums: "(\<Sum>k<length cs. lk ! k * ?x k ^ j) = (if j = 0 then y else 0)" if "j < d2" for j
    proof -
      have "(\<Sum>k<length cs. lk ! k * ?x k ^ j) = (\<Sum>k\<in>?T. y * (mu k * ?x k ^ j))"
        by (subst T) (auto simp: lk_def mult.assoc intro!: sum.cong)
      then show ?thesis using mu [OF that] by (simp add: sum_distrib_left)
    qed
    have "list_all2 (\<lambda>lam r. treeEval (fst r) A \<or> lam = 0) lk (kids d row cs)"
      by (auto simp: list_all2_conv_all_nth lk_def kids_def)
    then have "list_all2 (\<lambda>lam r. treeEval (fst r) A \<or> lam = 0) (la @ lk @ lb) ?new"
      using l by (intro list_all2_appendI) (simp_all add: list_all2_map2 pad_def)
    moreover have "comb (la @ lk @ lb) ?new c = (if c = 0 then 1 else 0)" if "c < ?d" for c
    proof -
      have "comb (la @ lk @ lb) ?new c = comb la (map (pad d) as) c + comb lk (kids d row cs) c + comb lb (map (pad d) bs) c"
        using len lenk by (simp add: kids_def)
      then show ?thesis
        using sums [of 0] sums [of "c - d + 1"] c [of c] that d len
        by (auto simp: comb_pad comb_kids [OF lenk] simp del: of_nat_Suc of_nat_add)
    qed
    ultimately show "spanned A ?d ?new" unfolding spanned_def by blast
  qed
qed

section \<open>The array\<close>

text \<open>\<open>M'\<close> is the array \<open>M\<close> of \<open>L\<close> rows of \<open>L\<close> cells with the first \<open>D\<close> cells of the rows in \<open>R\<close> overwritten by \<open>F\<close>.\<close>

definition overwritten :: "nat \<Rightarrow> nat set \<Rightarrow> nat set \<Rightarrow> (nat \<Rightarrow> nat \<Rightarrow> 'a) \<Rightarrow> 'a list \<Rightarrow> 'a list \<Rightarrow> bool" where
  "overwritten L R C F M M' \<longleftrightarrow> length M' = L * L \<and>
     (\<forall>r<L. \<forall>c<L. M' ! (r * L + c) = (if r \<in> R \<and> c \<in> C then F r c else M ! (r * L + c)))"

lemma put_cells:
  assumes "length M = L * L" "i < L" "\<And>j. j \<in> set js \<Longrightarrow> j < L"
  shows "\<exists>M'. FoldOrError (\<lambda>M j. slice_put M (i * L + j) (v j)) M js = Inr M' \<and> overwritten L {i} (set js) (\<lambda>_. v) M M'"
  using assms
proof (induction js arbitrary: M)
  case Nil
  then show ?case by (simp add: overwritten_def)
next
  case (Cons j js)
  have j: "i * L + j < L * L" using Cons.prems by (intro flat_less) auto
  obtain M' where M': "FoldOrError (\<lambda>M j. slice_put M (i * L + j) (v j)) (M[i * L + j := v j]) js = Inr M'"
    "overwritten L {i} (set js) (\<lambda>_. v) (M[i * L + j := v j]) M'"
    using Cons.IH [of "M[i * L + j := v j]"] Cons.prems by auto
  have "overwritten L {i} (set (j # js)) (\<lambda>_. v) M M'"
    using M'(2) Cons.prems j by (auto simp: overwritten_def nth_list_update flat_eq_iff)
  with M'(1) j Cons.prems(1) show ?case by (auto simp: slice_put_def)
qed

lemma copy_cells_ok:
  assumes "length M = L * L" "length M1 = L * L" "i < L" "src < L" "d \<le> L"
  shows "\<exists>M'. copy_cells L M1 d src i M = Inr M' \<and> overwritten L {i} {..<d} (\<lambda>_ c. M1 ! (src * L + c)) M M'"
proof -
  have "copy_cells L M1 d src i M = FoldOrError (\<lambda>M j. slice_put M (i * L + j) (M1 ! (src * L + j))) M [0..<d]"
    unfolding copy_cells_def using assms by (intro FoldOrError_cong) (auto simp: slice_at_def flat_less)
  moreover have "set [0..<d] = {..<d}" by auto
  ultimately show ?thesis using put_cells [OF assms(1,3), of "[0..<d]" "\<lambda>c. M1 ! (src * L + c)"] assms(5) by auto
qed

lemma power_fold:
  fixes a :: "'a::field"
  assumes "FoldOrError (\<lambda>M j. slice_put M (p + j) (a ^ (j - d + 1))) M [d + k..<e] = Inr M'"
  shows "\<exists>y. FoldOrError (\<lambda>(M, x) j. rbind (slice_put M (p + j) x) (\<lambda>M. Inr (M, x * a))) (M, a ^ (k + 1)) [d + k..<e] = Inr (M', y)"
  using assms
proof (induction "e - (d + k)" arbitrary: M k)
  case 0
  then show ?case by simp
next
  case (Suc n)
  then have le: "d + k < e" by simp
  with Suc.prems obtain M1 where M1: "slice_put M (p + (d + k)) (a ^ (k + 1)) = Inr M1"
    "FoldOrError (\<lambda>M j. slice_put M (p + j) (a ^ (j - d + 1))) M1 [d + Suc k..<e] = Inr M'"
    by (auto simp: upt_conv_Cons rbind_eq_Inr_iff)
  have "n = e - (d + Suc k)" using Suc.hyps(2) by simp
  from Suc.hyps(1) [OF this M1(2)] obtain y where "FoldOrError (\<lambda>(M, x) j. rbind (slice_put M (p + j) x) (\<lambda>M. Inr (M, x * a))) (M1, a ^ (Suc k + 1)) [d + Suc k..<e] = Inr (M', y)" ..
  with M1(1) le show ?case by (simp add: upt_conv_Cons mult.commute)
qed

lemma power_cells_ok:
  assumes "length M = L * L" "i < L" "d + d2 - 1 \<le> L"
  shows "\<exists>M'. power_cells L d d2 i a M = Inr M' \<and> overwritten L {i} {d..<d + d2 - 1} (\<lambda>_ c. a ^ (c - d + 1)) M M'"
proof -
  obtain M' where M': "FoldOrError (\<lambda>M j. slice_put M (i * L + j) (a ^ (j - d + 1))) M [d..<d + d2 - 1] = Inr M'"
    "overwritten L {i} {d..<d + d2 - 1} (\<lambda>_ c. a ^ (c - d + 1)) M M'"
    using put_cells [OF assms(1,2), of "[d..<d + d2 - 1]" "\<lambda>j. a ^ (j - d + 1)"] assms(3) by auto
  with power_fold [of "i * L" a d M 0 "d + d2 - 1" M'] show ?thesis by (auto simp: power_cells_def)
qed

lemma zero_cells_ok:
  assumes "length M = L * L" "i < L" "d + d2 - 1 \<le> L"
  shows "\<exists>M'. zero_cells L d d2 i M = Inr M' \<and> overwritten L {i} {d..<d + d2 - 1} (\<lambda>_ c. 0) M M'"
  using put_cells [OF assms(1,2), of "[d..<d + d2 - 1]" "\<lambda>_. 0"] assms(3) by (auto simp: zero_cells_def)

text \<open>The two parts of a row: copied cells, then filled cells.\<close>

lemma overwritten_join:
  assumes "overwritten L {i} {..<d} F M M1" "overwritten L {i} {d..<e} G M1 M2" "d \<le> e"
  shows "overwritten L {i} {..<e} (\<lambda>r c. if c < d then F r c else G r c) M M2"
  using assms by (auto simp: overwritten_def)

lemma keep_row_ok:
  assumes "length M = L * L" "length M1 = L * L" "length l = L" "length l1 = L" "i < L" "src < L" "0 < d" "0 < d2" "d + d2 - 1 \<le> L"
  shows "\<exists>M'. keep_row L M1 l1 d d2 src (M, l) i = Inr (M', l[i := l1 ! src]) \<and>
    overwritten L {i} {..<d + d2 - 1} (\<lambda>_ c. if c < d then M1 ! (src * L + c) else 0) M M'"
proof -
  have dl: "d \<le> L" using assms by linarith
  obtain Ma where a: "copy_cells L M1 d src i M = Inr Ma" "overwritten L {i} {..<d} (\<lambda>_ c. M1 ! (src * L + c)) M Ma"
    using copy_cells_ok [OF assms(1,2,5,6) dl] by blast
  obtain Mb where b: "zero_cells L d d2 i Ma = Inr Mb" "overwritten L {i} {d..<d + d2 - 1} (\<lambda>_ c. 0) Ma Mb"
    using zero_cells_ok [of Ma L i d d2] a assms by (auto simp: overwritten_def)
  from overwritten_join [OF a(2) b(2)] a(1) b(1) assms show ?thesis
    by (auto simp: keep_row_def slice_at_def slice_put_def)
qed

lemma child_row_ok:
  fixes M :: "'a::field list"
  assumes "length M = L * L" "length M1 = L * L" "length l = L" "i < L" "z \<le> i" "i - z < length cs" "0 < d" "0 < d2" "d + d2 - 1 \<le> L"
  shows "\<exists>M'. child_row L M1 cs d d2 z (M, l) i = Inr (M', l[i := cs ! (i - z)]) \<and>
    overwritten L {i} {..<d + d2 - 1} (\<lambda>_ c. if c < d then M1 ! (z * L + c) else of_nat (i - z + 1) ^ (c - d + 1)) M M'"
proof -
  have x: "of_nat i - of_nat z + 1 = (of_nat (i - z + 1) :: 'a)" using assms(5) by (simp add: of_nat_diff)
  have dl: "d \<le> L" using assms by linarith
  obtain Ma where a: "copy_cells L M1 d z i M = Inr Ma" "overwritten L {i} {..<d} (\<lambda>_ c. M1 ! (z * L + c)) M Ma"
    using copy_cells_ok [OF assms(1,2,4) _ dl, of z] assms(4,5) by auto
  obtain Mb where b: "power_cells L d d2 i (of_nat (i - z + 1)) Ma = Inr Mb"
    "overwritten L {i} {d..<d + d2 - 1} (\<lambda>_ c. of_nat (i - z + 1) ^ (c - d + 1)) Ma Mb"
    using power_cells_ok [of Ma L i d d2 "of_nat (i - z + 1)"] a assms by (auto simp: overwritten_def)
  from overwritten_join [OF a(2) b(2)] a(1) b(1) assms show ?thesis
    by (auto simp: child_row_def slice_at_def slice_put_def x simp del: of_nat_Suc of_nat_add)
qed

lemma rows_loop:
  assumes step: "\<And>M l i. a \<le> i \<Longrightarrow> i < b \<Longrightarrow> length M = L * L \<Longrightarrow> length l = L \<Longrightarrow>
      \<exists>M'. g (M, l) i = Inr (M', l[i := nn i]) \<and> overwritten L {i} C (\<lambda>_. F i) M M'"
    and "length M = L * L" "length l = L" "a \<le> b"
  shows "\<exists>M' l'. FoldOrError g (M, l) [a..<b] = Inr (M', l') \<and> overwritten L {a..<b} C F M M' \<and> length l' = L \<and>
    (\<forall>r<L. l' ! r = (if a \<le> r \<and> r < b then nn r else l ! r))"
  using assms(4) step
proof (induction rule: dec_induct)
  case base
  show ?case using assms(2,3) by (auto simp: overwritten_def)
next
  case (step n)
  then obtain M1 l1 where 1: "FoldOrError g (M, l) [a..<n] = Inr (M1, l1)" "overwritten L {a..<n} C F M M1" "length l1 = L"
    "\<forall>r<L. l1 ! r = (if a \<le> r \<and> r < n then nn r else l ! r)" by (metis less_SucI)
  from step.prems [of n M1 l1] step.hyps 1 obtain M2 where 2: "g (M1, l1) n = Inr (M2, l1[n := nn n])"
    "overwritten L {n} C (\<lambda>_. F n) M1 M2" by (auto simp: overwritten_def)
  have "overwritten L {a..<Suc n} C F M M2" using 1(2) 2(2) step.hyps(1) by (auto simp: overwritten_def)
  moreover have "\<forall>r<L. l1[n := nn n] ! r = (if a \<le> r \<and> r < Suc n then nn r else l ! r)"
  proof (intro allI impI)
    fix r assume "r < L"
    then show "l1[n := nn n] ! r = (if a \<le> r \<and> r < Suc n then nn r else l ! r)"
      using 1(3,4) step.hyps(1) by (cases "r = n") simp_all
  qed
  ultimately show ?case using 1 2 step.hyps(1) by (simp add: FoldOrError_append)
qed

section \<open>One step of the conversion\<close>

text \<open>
  A state stands for the list \<open>rs\<close> of nodes with their rows: the nodes are checked trees with \<open>L\<close> leaves in all, and
  there are at most as many columns as rows.
\<close>

definition conv_inv :: "nat \<Rightarrow> ('a::field) conv \<Rightarrow> (Node option \<times> (nat \<Rightarrow> 'a)) list \<Rightarrow> bool" where
  "conv_inv L s rs = (case s of (M, l, m, d) \<Rightarrow>
     length M = L * L \<and> length l = L \<and> length rs = m \<and> 0 < d \<and> d \<le> m \<and>
     (\<forall>n\<in>set (map fst rs). checkTree n = Inr ()) \<and> (\<Sum>n\<leftarrow>map fst rs. treeCountLeaves n) = L \<and>
     (\<forall>i<m. l ! i = fst (rs ! i) \<and> (\<forall>c<d. M ! (i * L + c) = snd (rs ! i) c)))"

lemma rows_le_leaves:
  assumes "\<forall>n\<in>set ns. checkTree n = Inr ()"
  shows "length ns \<le> (\<Sum>n\<leftarrow>ns. treeCountLeaves n)"
  using assms
proof (induction ns)
  case (Cons n ns)
  then have "0 < treeCountLeaves n" using leaves_pos by simp
  with Cons show ?case by simp
qed simp

lemma expand_nth:
  assumes "i < length as + length cs + length bs"
  shows "(map (pad d) as @ kids d row cs @ map (pad d) bs) ! i =
    (if i < length as then pad d (as ! i)
     else if i < length as + length cs then (cs ! (i - length as), \<lambda>c. if c < d then row c else of_nat (i - length as + 1) ^ (c - d + 1))
     else pad d (bs ! (i - length as - length cs)))"
  using assms by (auto simp: nth_append kids_def)

lemma expand_nodes: "map fst (map (pad d) as @ kids d row cs @ map (pad d) bs) = map fst as @ cs @ map fst bs"
proof -
  have "map fst (kids d row cs) = cs" by (rule nth_equalityI) (simp_all add: kids_def)
  then show ?thesis by (simp add: comp_def pad_def)
qed

text \<open>Cell \<open>(i, c)\<close> after gate \<open>z\<close> with \<open>m2\<close> children has been expanded; the gate's row is copied to all its children.\<close>

definition expanded_cell :: "nat \<Rightarrow> ('a::field) list \<Rightarrow> nat \<Rightarrow> nat \<Rightarrow> nat \<Rightarrow> nat \<Rightarrow> nat \<Rightarrow> 'a" where
  "expanded_cell L M d z m2 i c =
     (if c < d then M ! ((if i < z then i else if i < z + m2 then z else i - m2 + 1) * L + c)
      else if z \<le> i \<and> i < z + m2 then of_nat (i - z + 1) ^ (c - d + 1) else 0)"

lemma convert_step_array:
  fixes M :: "'a::field list"
  assumes M: "length M = L * L" "length l = L" and z: "z < m" "l ! z = Some (Node gate a t cs)" "0 < d" "0 < nat t"
    and le: "m + length cs - 1 \<le> L" "m \<le> L" "d + nat t - 1 \<le> L"
  shows "\<exists>M' l'. convert_step L (M, l, m, d) z = Inr (M', l', m + length cs - 1, d + nat t - 1) \<and>
    length M' = L * L \<and> length l' = L \<and>
    (\<forall>i<m + length cs - 1. l' ! i = (if i < z then l ! i else if i < z + length cs then cs ! (i - z) else l ! (i - length cs + 1)) \<and>
      (\<forall>c<d + nat t - 1. M' ! (i * L + c) = expanded_cell L M d z (length cs) i c))"
proof -
  let ?m2 = "length cs" and ?d2 = "nat t" and ?C = "{..<d + nat t - 1}" and ?F = "expanded_cell L M d z (length cs)"
  have keep: "\<exists>M'. keep_row L M l d ?d2 src (Mx, lx) i = Inr (M', lx[i := l ! src]) \<and> overwritten L {i} ?C (\<lambda>_. ?F i) Mx M'"
    if "length Mx = L * L" "length lx = L" "i < L" "src < L" "?F i = (\<lambda>c. if c < d then M ! (src * L + c) else 0)" for Mx lx i src
    unfolding that(5) by (rule keep_row_ok) (use that M z le in simp_all)
  have child: "\<exists>M'. child_row L M cs d ?d2 z (Mx, lx) i = Inr (M', lx[i := cs ! (i - z)]) \<and> overwritten L {i} ?C (\<lambda>_. ?F i) Mx M'"
    if "z \<le> i" "i < z + ?m2" "length Mx = L * L" "length lx = L" for Mx lx i
  proof -
    have "?F i = (\<lambda>c. if c < d then M ! (z * L + c) else of_nat (i - z + 1) ^ (c - d + 1))"
      using that by (simp add: expanded_cell_def fun_eq_iff)
    then show ?thesis using child_row_ok [of Mx L M lx i z cs d ?d2] that M z le by simp
  qed
  have "\<exists>Ma la. FoldOrError (\<lambda>s i. keep_row L M l d ?d2 i s i) (M, l) [0..<z] = Inr (Ma, la) \<and>
    overwritten L {0..<z} ?C ?F M Ma \<and> length la = L \<and> (\<forall>r<L. la ! r = (if 0 \<le> r \<and> r < z then l ! r else l ! r))"
  proof (rule rows_loop)
    fix Mx :: "'a list" and lx :: "Node option list" and i
    assume "0 \<le> i" "i < z" "length Mx = L * L" "length lx = L"
    then show "\<exists>M'. keep_row L M l d ?d2 i (Mx, lx) i = Inr (M', lx[i := l ! i]) \<and> overwritten L {i} ?C (\<lambda>_. ?F i) Mx M'"
      by (intro keep) (use z le in \<open>simp_all add: expanded_cell_def fun_eq_iff\<close>)
  qed (use M in simp_all)
  then obtain Ma la where a: "FoldOrError (\<lambda>s i. keep_row L M l d ?d2 i s i) (M, l) [0..<z] = Inr (Ma, la)"
    "overwritten L {0..<z} ?C ?F M Ma" "length la = L" "\<forall>r<L. la ! r = l ! r" by auto
  have lenA: "length Ma = L * L" using a(2) by (simp add: overwritten_def)
  have "\<exists>Mb lb. FoldOrError (child_row L M cs d ?d2 z) (Ma, la) [z..<z + ?m2] = Inr (Mb, lb) \<and>
    overwritten L {z..<z + ?m2} ?C ?F Ma Mb \<and> length lb = L \<and>
    (\<forall>r<L. lb ! r = (if z \<le> r \<and> r < z + ?m2 then cs ! (r - z) else la ! r))"
    by (rule rows_loop) (rule child, use a(3) lenA in simp_all)
  then obtain Mb lb where b: "FoldOrError (child_row L M cs d ?d2 z) (Ma, la) [z..<z + ?m2] = Inr (Mb, lb)"
    "overwritten L {z..<z + ?m2} ?C ?F Ma Mb" "length lb = L"
    "\<forall>r<L. lb ! r = (if z \<le> r \<and> r < z + ?m2 then cs ! (r - z) else la ! r)" by blast
  have lenB: "length Mb = L * L" using b(2) by (simp add: overwritten_def)
  have "\<exists>Mc lc. FoldOrError (\<lambda>s i. keep_row L M l d ?d2 (i - ?m2 + 1) s i) (Mb, lb) [z + ?m2..<m + ?m2 - 1] = Inr (Mc, lc) \<and>
    overwritten L {z + ?m2..<m + ?m2 - 1} ?C ?F Mb Mc \<and> length lc = L \<and>
    (\<forall>r<L. lc ! r = (if z + ?m2 \<le> r \<and> r < m + ?m2 - 1 then l ! (r - ?m2 + 1) else lb ! r))"
  proof (rule rows_loop)
    fix Mx :: "'a list" and lx :: "Node option list" and i
    assume "z + ?m2 \<le> i" "i < m + ?m2 - 1" "length Mx = L * L" "length lx = L"
    then show "\<exists>M'. keep_row L M l d ?d2 (i - ?m2 + 1) (Mx, lx) i = Inr (M', lx[i := l ! (i - ?m2 + 1)]) \<and> overwritten L {i} ?C (\<lambda>_. ?F i) Mx M'"
      by (intro keep) (use le in \<open>auto simp: expanded_cell_def fun_eq_iff\<close>)
  qed (use b(3) lenB z in simp_all)
  then obtain Mc lc where c: "FoldOrError (\<lambda>s i. keep_row L M l d ?d2 (i - ?m2 + 1) s i) (Mb, lb) [z + ?m2..<m + ?m2 - 1] = Inr (Mc, lc)"
    "overwritten L {z + ?m2..<m + ?m2 - 1} ?C ?F Mb Mc" "length lc = L"
    "\<forall>r<L. lc ! r = (if z + ?m2 \<le> r \<and> r < m + ?m2 - 1 then l ! (r - ?m2 + 1) else lb ! r)" by blast
  have "convert_step L (M, l, m, d) z = Inr (Mc, lc, m + ?m2 - 1, d + ?d2 - 1)"
    using a(1) b(1) c(1) z M le by (simp add: convert_step_def slice_at_def Let_def)
  moreover have "Mc ! (i * L + k) = ?F i k" if "i < m + ?m2 - 1" "k < d + ?d2 - 1" for i k
    using a(2) b(2) c(2) that le by (auto simp: overwritten_def not_less)
  moreover have "lc ! i = (if i < z then l ! i else if i < z + ?m2 then cs ! (i - z) else l ! (i - ?m2 + 1))" if "i < m + ?m2 - 1" for i
    using a(4) b(4) c(4) that le by auto
  moreover have "length Mc = L * L" using c(2) by (simp add: overwritten_def)
  ultimately show ?thesis using c(3) by blast
qed

lemma convert_step_ok:
  fixes M :: "'a::field list"
  assumes inv: "conv_inv L (M, l, m, d) (as @ (Some (Node gate a t cs), row) # bs)"
  shows "\<exists>s'. convert_step L (M, l, m, d) (length as) = Inr s' \<and>
    conv_inv L s' (map (pad d) as @ kids d row cs @ map (pad d) bs) \<and> snd (snd (snd s')) = d + nat t - 1"
proof -
  let ?rs = "as @ (Some (Node gate a t cs), row) # bs" and ?z = "length as" and ?m2 = "length cs" and ?d2 = "nat t"
  let ?new = "map (pad d) as @ kids d row cs @ map (pad d) bs"
  have i: "length M = L * L" "length l = L" "m = length as + Suc (length bs)" "0 < d" "d \<le> m"
    "\<forall>n\<in>set (map fst ?rs). checkTree n = Inr ()" "(\<Sum>n\<leftarrow>map fst ?rs. treeCountLeaves n) = L"
    "\<And>i. i < m \<Longrightarrow> l ! i = fst (?rs ! i)" "\<And>i c. i < m \<Longrightarrow> c < d \<Longrightarrow> M ! (i * L + c) = snd (?rs ! i) c"
    using inv by (auto simp: conv_inv_def simp del: checkTree.simps treeCountLeaves.simps)
  have gt: "checkTree (Some (Node gate a t cs)) = Inr ()" using i(6) by simp
  note g = checkTree_gate [OF gt refl]
  have d2: "0 < ?d2" "?d2 \<le> ?m2" using g by simp_all
  have checked: "\<forall>n\<in>set (map fst ?new). checkTree n = Inr ()"
    unfolding expand_nodes using i(6) g(3) by (auto simp del: checkTree.simps)
  have leaves: "(\<Sum>n\<leftarrow>map fst ?new. treeCountLeaves n) = L"
    unfolding expand_nodes using i(7) by (simp add: leaves_gate del: treeCountLeaves.simps)
  have len: "length ?new = m + ?m2 - 1" using i(3) by (simp add: kids_def)
  have mL: "m + ?m2 - 1 \<le> L" using rows_le_leaves [OF checked] leaves len by simp
  have m1L: "m \<le> L" using rows_le_leaves [OF i(6)] i(3,7) by simp
  have dL: "d + ?d2 - 1 \<le> L" using i(5) d2 mL by linarith
  have z: "?z < m" "l ! ?z = Some (Node gate a t cs)" using i(3) i(8) [of ?z] by simp_all
  obtain M' l' where s: "convert_step L (M, l, m, d) ?z = Inr (M', l', m + ?m2 - 1, d + ?d2 - 1)"
    "length M' = L * L" "length l' = L"
    "\<And>i. i < m + ?m2 - 1 \<Longrightarrow> l' ! i = (if i < ?z then l ! i else if i < ?z + ?m2 then cs ! (i - ?z) else l ! (i - ?m2 + 1))"
    "\<And>i c. i < m + ?m2 - 1 \<Longrightarrow> c < d + ?d2 - 1 \<Longrightarrow> M' ! (i * L + c) = expanded_cell L M d ?z ?m2 i c"
    using convert_step_array [OF i(1,2) z i(4) d2(1) mL m1L dL] by auto
  have "l' ! i = fst (?new ! i) \<and> (\<forall>c<d + ?d2 - 1. M' ! (i * L + c) = snd (?new ! i) c)" if "i < m + ?m2 - 1" for i
  proof -
    have new: "?new ! i = (if i < ?z then pad d (as ! i)
       else if i < ?z + ?m2 then (cs ! (i - ?z), \<lambda>c. if c < d then row c else of_nat (i - ?z + 1) ^ (c - d + 1))
       else pad d (bs ! (i - ?z - ?m2)))" by (rule expand_nth) (use that i(3) in simp)
    consider "i < ?z" | "?z \<le> i" "i < ?z + ?m2" | "?z + ?m2 \<le> i" by linarith
    then show ?thesis
    proof cases
      case 1
      then show ?thesis using s(4,5) [OF that] i(8,9) [of i] i(3) new by (simp add: expanded_cell_def pad_def nth_append)
    next
      case 2
      then show ?thesis using s(4,5) [OF that] i(9) [of ?z] z new by (simp add: expanded_cell_def nth_append del: of_nat_Suc)
    next
      case 3
      then obtain k where "i = ?z + ?m2 + k" using le_Suc_ex by blast
      then have r: "?rs ! (i - ?m2 + 1) = bs ! (i - ?z - ?m2)" by (simp add: nth_append)
      from 3 that have "i - ?m2 + 1 < m" by linarith
      then show ?thesis using s(4,5) [OF that] i(8,9) [of "i - ?m2 + 1"] new 3 unfolding r by (simp add: expanded_cell_def pad_def)
    qed
  qed
  moreover have "0 < d + ?d2 - 1" "d + ?d2 - 1 \<le> m + ?m2 - 1" using i(4,5) d2 by linarith+
  ultimately have "conv_inv L (M', l', m + ?m2 - 1, d + ?d2 - 1) ?new"
    using s(2,3) len checked leaves by (simp add: conv_inv_def del: map_append set_append)
  with s(1) show ?thesis by auto
qed

section \<open>The loop\<close>

text \<open>The number of gates that are left, and the identifiers at the leaves.\<close>

function gates :: "Node option \<Rightarrow> nat" where
  "gates None = 0"
| "gates (Some (Node kind attr threshold children)) = (if kind = gate then Suc (\<Sum>c\<leftarrow>children. gates c) else 0)"
  by pat_completeness auto
termination by (relation "measure node_size") (simp_all only: in_measure wf_measure child_size)

definition leaf_ids :: "Node option \<Rightarrow> ID set" where
  "leaf_ids n = fst ` set (allShareholders n [])"

lemma keys_update: "fst ` set (AList.update k v xs) = insert k (fst ` set xs)"
  using dom_update [of k v xs] by (simp add: dom_map_of_conv_image_fst)

lemma keys_allShareholders: "fst ` set (allShareholders n sh) = fst ` set sh \<union> leaf_ids n"
proof (induction n sh rule: allShareholders.induct)
  case (2 kind a t cs sh)
  have "fst ` set (fold allShareholders cs' sh') = fst ` set sh' \<union> \<Union> (leaf_ids ` set cs')"
    if "kind = gate" "set cs' \<subseteq> set cs" for cs' sh'
    using that
  proof (induction cs' arbitrary: sh')
    case (Cons c cs')
    then have "fst ` set (allShareholders c sh') = fst ` set sh' \<union> leaf_ids c" using 2 [of c] by simp
    with Cons show ?case by auto
  qed simp
  then show ?case by (simp add: leaf_ids_def keys_update)
qed (simp add: leaf_ids_def)

lemma leaf_ids_gate: "leaf_ids (Some (Node gate a t cs)) = \<Union> (leaf_ids ` set cs)"
proof -
  have "fst ` set (fold allShareholders cs sh) = fst ` set sh \<union> \<Union> (leaf_ids ` set cs)" for sh
    by (induction cs arbitrary: sh) (auto simp: keys_allShareholders)
  from this [of "[]"] show ?thesis by (simp add: leaf_ids_def)
qed

lemma first_gate_cases:
  assumes "\<forall>n\<in>set (take m l). checkTree n = Inr ()" "m \<le> length l" "k \<le> m"
  shows "(first_gate l [k..<m] = Inr None \<and> (\<forall>i. k \<le> i \<and> i < m \<longrightarrow> nd_kind (the (l ! i)) = attribute_kind)) \<or>
    (\<exists>z a t cs. first_gate l [k..<m] = Inr (Some z) \<and> z < m \<and> l ! z = Some (Node gate a t cs))"
  using assms(3)
proof (induction k rule: inc_induct)
  case (step k)
  have "l ! k \<in> set (take m l)" using step.hyps assms(2) by (auto simp: in_set_conv_nth intro: exI [of _ k])
  with assms(1) have ck: "checkTree (l ! k) = Inr ()" by blast
  have at: "slice_at l k = Inr (l ! k)" using step.hyps assms(2) by (simp add: slice_at_def)
  show ?case
  proof (rule checkTree_kinds [OF ck])
    fix a t cs assume n: "l ! k = Some (Node attribute_kind a t cs)"
    have "nd_kind (the (l ! i)) = attribute_kind" if "k \<le> i" "\<forall>i. Suc k \<le> i \<and> i < m \<longrightarrow> nd_kind (the (l ! i)) = attribute_kind" "i < m" for i
      using that n by (cases "i = k") auto
    with step n at show ?thesis by (auto simp: upt_conv_Cons)
  next
    fix a t cs assume "l ! k = Some (Node gate a t cs)"
    with step.hyps at show ?thesis by (simp add: upt_conv_Cons)
  qed
qed auto

lemma convert_loop_ok:
  fixes M :: "'a::field list"
  assumes "conv_inv L (M, l, m, d) rs" "inj_on (of_nat :: nat \<Rightarrow> 'a) {..L}"
  shows "\<exists>M' l' d' rs'. convert_loop L (M, l, m, d) = Some (Inr (M', l', L, d')) \<and> conv_inv L (M', l', L, d') rs' \<and>
    (\<forall>i<L. nd_kind (the (l' ! i)) = attribute_kind) \<and> (\<forall>A. spanned A d' rs' = spanned A d rs) \<and>
    \<Union> (leaf_ids ` fst ` set rs') = \<Union> (leaf_ids ` fst ` set rs)"
  using assms(1)
proof (induction "\<Sum>n\<leftarrow>map fst rs. gates n" arbitrary: M l m d rs rule: less_induct)
  case less
  have inv: "length l = L" "length rs = m" "\<forall>n\<in>set (map fst rs). checkTree n = Inr ()"
    "(\<Sum>n\<leftarrow>map fst rs. treeCountLeaves n) = L" "\<And>i. i < m \<Longrightarrow> l ! i = fst (rs ! i)"
    using less.prems by (auto simp: conv_inv_def)
  have mL: "m \<le> L" using rows_le_leaves [OF inv(3)] inv(2,4) by simp
  have tk: "take m l = map fst rs" using inv mL by (intro nth_equalityI) auto
  have "\<forall>n\<in>set (take m l). checkTree n = Inr ()" "m \<le> length l" using inv(1,3) mL by (simp_all only: tk)
  from first_gate_cases [OF this le0] show ?case
  proof (elim disjE exE conjE)
    assume fg: "first_gate l [0..<m] = Inr None" and leaf: "\<forall>i. 0 \<le> i \<and> i < m \<longrightarrow> nd_kind (the (l ! i)) = attribute_kind"
    have "treeCountLeaves n = 1" if "n \<in> set (map fst rs)" for n
    proof -
      from that obtain i where i: "i < m" "n = l ! i" using inv(2,5) by (auto simp: in_set_conv_nth)
      have ck: "checkTree n = Inr ()" using that inv(3) by blast
      have "nd_kind (the n) = attribute_kind" using leaf i by simp
      then show ?thesis using checkTree_kinds [OF ck] by (metis kinds(1) Node.sel(1) option.sel treeCountLeaves.simps(2))
    qed
    then have "(\<Sum>n\<leftarrow>map fst rs. treeCountLeaves n) = (\<Sum>n\<leftarrow>map fst rs. 1)" by (intro arg_cong [of _ _ sum_list] map_cong) auto
    then have mL': "m = L" using inv(2,4) by (simp add: sum_list_triv comp_def)
    have "convert_loop L (M, l, m, d) = Some (Inr (M, l, L, d))" using fg mL' by (subst convert_loop.simps) simp
    with leaf less.prems mL' show ?thesis by (intro exI [of _ M] exI [of _ l] exI [of _ d] exI [of _ rs]) simp
  next
    fix z a t cs assume fg: "first_gate l [0..<m] = Inr (Some z)" and z: "z < m" "l ! z = Some (Node gate a t cs)"
    define as bs row where "as = take z rs" and "bs = drop (Suc z) rs" and "row = snd (rs ! z)"
    have rs: "rs = as @ (Some (Node gate a t cs), row) # bs" and as: "length as = z"
      using id_take_nth_drop [of z rs] inv(2) inv(5) [OF z(1)] z by (simp_all add: as_def bs_def row_def)
    let ?new = "map (pad d) as @ kids d row cs @ map (pad d) bs"
    from convert_step_ok [OF less.prems [unfolded rs], unfolded as]
    obtain M' l' m' where s: "convert_step L (M, l, m, d) z = Inr (M', l', m', d + nat t - 1)" "conv_inv L (M', l', m', d + nat t - 1) ?new"
      by (auto simp: as)
    have "(\<Sum>n\<leftarrow>map fst ?new. gates n) < (\<Sum>n\<leftarrow>map fst rs. gates n)"
      unfolding expand_nodes by (subst rs) simp
    from less.hyps [OF this s(2)] obtain M'' l'' d'' rs'' where
      IH: "convert_loop L (M', l', m', d + nat t - 1) = Some (Inr (M'', l'', L, d''))" "conv_inv L (M'', l'', L, d'') rs''"
      "\<forall>i<L. nd_kind (the (l'' ! i)) = attribute_kind" "\<forall>A. spanned A d'' rs'' = spanned A (d + nat t - 1) ?new"
      "\<Union> (leaf_ids ` fst ` set rs'') = \<Union> (leaf_ids ` fst ` set ?new)" by (elim exE conjE) (rule that)
    have gt: "checkTree (Some (Node gate a t cs)) = Inr ()" using inv(3) by (subst (asm) rs) simp
    note g = checkTree_gate [OF gt refl]
    have "length cs \<le> (\<Sum>c\<leftarrow>cs. treeCountLeaves c)" by (rule rows_le_leaves) (use g(3) in blast)
    also have "\<dots> \<le> L" using inv(4) by (subst (asm) rs) (simp add: leaves_gate del: treeCountLeaves.simps)
    finally have inj: "inj_on (of_nat :: nat \<Rightarrow> 'a) {..length cs}" by (intro inj_on_subset [OF assms(2)]) simp
    have "spanned A (d + nat t - 1) ?new = spanned A d rs" for A
      by (subst rs, rule spanned_expand [OF _ _ inj]) (use less.prems g in \<open>auto simp: conv_inv_def treeEval_gate simp del: treeEval.simps\<close>)
    moreover have "\<Union> (leaf_ids ` fst ` set ?new) = \<Union> (leaf_ids ` fst ` set rs)"
      unfolding set_map [symmetric] expand_nodes by (subst rs) (auto simp: leaf_ids_gate)
    moreover have "convert_loop L (M, l, m, d) = Some (Inr (M'', l'', L, d''))" using fg s(1) IH(1) by (subst convert_loop.simps) simp
    ultimately show ?thesis using IH by (intro exI [of _ M''] exI [of _ l''] exI [of _ d''] exI [of _ rs'']) simp
  qed
qed

section \<open>The programme\<close>

lemma leaf_label_ok:
  assumes "\<And>n. n \<in> set l \<Longrightarrow> n \<noteq> None \<and> nd_kind (the n) = attribute_kind"
  shows "leaf_label (length l) l = Inr (map (\<lambda>n. nd_attr (the n)) l)"
proof -
  let ?f = "\<lambda>rho (i, li). case li of None \<Rightarrow> Inl Panic
     | Some n \<Rightarrow> if nd_kind n \<noteq> attribute_kind then Inl ErrFailed else slice_put rho i (nd_attr n)"
  have "FoldOrError ?f (replicate (length l) 0) (zip [0..<k] (take k l)) = Inr (map (\<lambda>n. nd_attr (the n)) (take k l) @ replicate (length l - k) 0)"
    if "k \<le> length l" for k
    using that
  proof (induction k)
    case (Suc k)
    then have k: "k < length l" by simp
    have z: "zip [0..<Suc k] (take (Suc k) l) = zip [0..<k] (take k l) @ [(k, l ! k)]"
      using k by (simp add: take_Suc_conv_app_nth)
    obtain n where n: "l ! k = Some n" "nd_kind n = attribute_kind" using assms [of "l ! k"] k by fastforce
    have "replicate (length l - k) 0 = (0 :: ID) # replicate (length l - Suc k) 0" using k by (simp add: Suc_diff_Suc flip: replicate_Suc)
    with Suc n k show ?case unfolding z FoldOrError_append
      by (simp add: slice_put_def list_update_append take_Suc_conv_app_nth)
  qed simp
  from this [of "length l"] show ?thesis by (simp add: leaf_label_def)
qed

lemma slice_columns:
  assumes "length M = L * L" "d \<le> L" "0 < d"
  shows "rbind (mat_RowSlice \<lparr>mrows = L, mcols = L, mdata = M\<rparr> 0 (int L)) (\<lambda>r. mat_ColumnSlice r 0 (int d)) =
    Inr (mat_fill L d (\<lambda>i c. M ! (i * L + c)))"
proof -
  have "take d (drop (i * L) M) = map (\<lambda>c. M ! (i * L + c)) [0..<d]" if "i < L" for i
  proof -
    have "i * L + d \<le> L * L" using flat_less [of i L "d - 1" L] that assms by linarith
    then have "i * L + d \<le> length M" "i * L \<le> length M" using assms(1) by linarith+
    then show ?thesis by (intro nth_equalityI) simp_all
  qed
  then show ?thesis
    using assms by (simp add: mat_RowSlice_def mat_ColumnSlice_def mat_fill_def) (intro arg_cong [of _ _ concat] map_cong, auto)
qed

lemma treeEval_empty: "checkTree n = Inr () \<Longrightarrow> \<not> treeEval n Map.empty"
proof (induction n rule: gates.induct)
  case (2 kind a t cs)
  show ?case
  proof (rule checkTree_kinds [OF 2(2)])
    fix a' t' cs' assume n: "Some (Node kind a t cs) = Some (Node gate a' t' cs')"
    note g = checkTree_gate [OF 2(2) n]
    have "{k. k < length cs' \<and> treeEval (cs' ! k) Map.empty} = {}" using g(3) n 2(1) by (auto simp: in_set_conv_nth)
    with g(1) n show ?thesis by (simp only: treeEval_gate) simp
  qed simp
qed simp

lemma members: "fold (\<lambda>i m. m(i \<mapsto> True)) ids Map.empty = (\<lambda>i. if i \<in> set ids then Some True else None)"
proof -
  have "fold (\<lambda>i m. m(i \<mapsto> True)) ids m = (\<lambda>i. if i \<in> set ids then Some True else m i)" for m
    by (induction ids arbitrary: m) (auto simp: fun_eq_iff)
  then show ?thesis by simp
qed

lemma spanned_spans:
  fixes m :: "'a::field MSP"
  assumes m: "msp_matrix m = mat_fill L d f" "0 < L" "\<And>i. i < L \<Longrightarrow> row_label m i = nd_attr (the (l ! i))"
    and rs: "length rs = L" "\<And>i. i < L \<Longrightarrow> fst (rs ! i) = l ! i \<and> nd_kind (the (l ! i)) = attribute_kind \<and> l ! i \<noteq> None"
      "\<And>i c. i < L \<Longrightarrow> c < d \<Longrightarrow> snd (rs ! i) c = f i c"
  shows "spanned (\<lambda>i. if i \<in> S then Some True else None) d rs \<longleftrightarrow> spans m S"
proof -
  let ?A = "\<lambda>i. if i \<in> S then Some True else None" and ?R = "set (rows_for m S)"
  have dims: "mrows (msp_matrix m) = L" "mcols (msp_matrix m) = d" by (simp_all add: m(1) mat_simps)
  have R: "?R = {i. i < L \<and> nd_attr (the (l ! i)) \<in> S}" using m(3) by (auto simp: rows_for_def dims)
  have ev: "treeEval (fst (rs ! i)) ?A \<longleftrightarrow> i \<in> ?R" if i: "i < L" for i
  proof -
    obtain a t cs where n: "l ! i = Some (Node attribute_kind a t cs)" using rs(2) [OF i] by (cases "the (l ! i)") auto
    then show ?thesis using rs(2) [OF i] i by (simp add: R)
  qed
  have cb: "comb lams rs c = (\<Sum>i\<in>?R. lams ! i * ent (msp_matrix m) i c)"
    if c: "c < d" and lams: "length lams = L" "\<And>i. i < L \<Longrightarrow> i \<notin> ?R \<Longrightarrow> lams ! i = 0" for lams c
  proof -
    have "map (\<lambda>(lam, r). lam * snd r c) (zip lams rs) = map (\<lambda>i. lams ! i * f i c) [0..<L]"
      using lams(1) rs(1,3) c by (intro nth_equalityI) auto
    then have "comb lams rs c = (\<Sum>i<L. lams ! i * f i c)" by simp
    also have "\<dots> = (\<Sum>i\<in>?R. lams ! i * f i c)" by (rule sum.mono_neutral_right) (use lams(2) R in auto)
    also have "\<dots> = (\<Sum>i\<in>?R. lams ! i * ent (msp_matrix m) i c)"
      using c by (intro sum.cong) (auto simp: m(1) mat_simps R)
    finally show ?thesis .
  qed
  show ?thesis
  proof
    assume "spanned ?A d rs"
    then obtain lams where l: "list_all2 (\<lambda>lam r. treeEval (fst r) ?A \<or> lam = 0) lams rs" "\<forall>c<d. comb lams rs c = (if c = 0 then 1 else 0)"
      by (auto simp: spanned_def)
    have "length lams = L" "\<And>i. i < L \<Longrightarrow> i \<notin> ?R \<Longrightarrow> lams ! i = 0"
      using list_all2_lengthD [OF l(1)] list_all2_nthD2 [OF l(1)] ev rs(1) by auto
    with l(2) cb show "spans m S" unfolding spans_def dims by (intro exI [of _ "\<lambda>i. lams ! i"]) auto
  next
    assume "spans m S"
    then obtain lam where lam: "\<forall>c<d. (\<Sum>i\<in>?R. lam i * ent (msp_matrix m) i c) = (if c = 0 then 1 else 0)"
      by (auto simp: spans_def dims)
    define lams where "lams = map (\<lambda>i. if i \<in> ?R then lam i else 0) [0..<L]"
    have "list_all2 (\<lambda>lam r. treeEval (fst r) ?A \<or> lam = 0) lams rs" using ev rs(1) by (auto simp: list_all2_conv_all_nth lams_def)
    moreover have "comb lams rs c = (if c = 0 then 1 else 0)" if "c < d" for c
    proof -
      have "(\<Sum>i\<in>?R. lams ! i * ent (msp_matrix m) i c) = (\<Sum>i\<in>?R. lam i * ent (msp_matrix m) i c)"
        by (rule sum.cong) (auto simp: lams_def R)
      then show ?thesis using cb [OF that, of lams] lam that by (simp add: lams_def)
    qed
    ultimately show "spanned ?A d rs" unfolding spanned_def by blast
  qed
qed

lemma BoolExpr_InducedMSP_spec:
  assumes new: "NewThresholdGateAccessStructure tree = Inr a" and inj: "inj_on (of_nat :: nat \<Rightarrow> 'a::field) {..CountLeaves a}"
  shows "\<exists>m. (BoolExpr_InducedMSP (Some ()) a :: 'a MSP res option) = Some (Inr m) \<and> msp_wf m \<and>
    mrows (msp_matrix m) = CountLeaves a \<and> msp_holders m = set (tg_Shareholders a) \<and>
    (\<forall>S. spans m S \<longleftrightarrow> treeEval tree (\<lambda>i. if i \<in> S then Some True else None))"
proof -
  let ?L = "treeCountLeaves tree" and ?rs0 = "[(tree, \<lambda>_. 1)] :: (Node option \<times> (nat \<Rightarrow> 'a)) list"
  let ?M0 = "(replicate (?L * ?L) 0)[0 := 1] :: 'a list" and ?l0 = "(replicate ?L None)[0 := tree]"
  have ck: "checkTree tree = Inr ()" and a: "a = \<lparr>tg_root = tree, tg_shareholders = allShareholders tree []\<rparr>"
    using new by (auto simp: NewThresholdGateAccessStructure_def)
  have L: "0 < ?L" by (rule leaves_pos [OF ck])
  have inv0: "conv_inv ?L (?M0, ?l0, 1, 1) ?rs0" using L ck by (simp add: conv_inv_def)
  have inj': "inj_on (of_nat :: nat \<Rightarrow> 'a) {..?L}" using inj by (simp add: a CountLeaves_def)
  obtain M l d rs where loop: "convert_loop ?L (?M0, ?l0, 1, 1) = Some (Inr (M, l, ?L, d))" "conv_inv ?L (M, l, ?L, d) rs"
    "\<forall>i<?L. nd_kind (the (l ! i)) = attribute_kind" "\<forall>A. spanned A d rs = spanned A 1 ?rs0"
    "\<Union> (leaf_ids ` fst ` set rs) = \<Union> (leaf_ids ` fst ` set ?rs0)"
    using convert_loop_ok [OF inv0 inj'] by (elim exE conjE) (rule that)
  have inv: "length M = ?L * ?L" "length l = ?L" "length rs = ?L" "0 < d" "d \<le> ?L" "\<forall>n\<in>set (map fst rs). checkTree n = Inr ()"
    "\<And>i. i < ?L \<Longrightarrow> l ! i = fst (rs ! i)" "\<And>i c. i < ?L \<Longrightarrow> c < d \<Longrightarrow> M ! (i * ?L + c) = snd (rs ! i) c"
    using loop(2) by (auto simp: conv_inv_def)
  have l: "l = map fst rs" using inv(2,3,7) by (intro nth_equalityI) auto
  have leaf: "n \<noteq> None \<and> nd_kind (the n) = attribute_kind \<and> nd_attr (the n) \<noteq> 0 \<and> leaf_ids n = {nd_attr (the n)}" if "n \<in> set l" for n
  proof -
    from that obtain i where i: "i < ?L" "n = l ! i" using inv(2) by (auto simp: in_set_conv_nth)
    have ckn: "checkTree n = Inr ()" using that inv(6) l by blast
    from i loop(3) have "nd_kind (the n) = attribute_kind" by simp
    then show ?thesis by (cases rule: checkTree_kinds [OF ckn]) (auto simp: leaf_ids_def)
  qed
  define Mx where "Mx = mat_fill ?L d (\<lambda>i c. M ! (i * ?L + c))"
  have Mx: "mat_wf Mx" "mrows Mx = ?L" "mcols Mx = d" using L inv(4) by (simp_all add: Mx_def mat_simps)
  let ?ids = "map (\<lambda>n. nd_attr (the n)) l"
  have "convert (Some ()) a = Some (Inr (Mx, ?ids))"
    using L loop(1) leaf leaf_label_ok [of l] slice_columns [OF inv(1,5,4)] inv(1,2)
    by (auto simp: convert_def a CountLeaves_def slice_put_def NewMatrixModule_def mod_NewRowMajor_def Mx_def Let_def rbind_assoc [symmetric])
  moreover obtain m where m: "NewMSP (Some Mx) (Some (label_rows ?ids)) = Inr m" "msp_wf m" "msp_matrix m = Mx"
    "\<And>i. i < mrows Mx \<Longrightarrow> row_label m i = ?ids ! i" "msp_holders m = set ?ids"
    by (rule NewMSP_label_rows [OF Mx(1), of ?ids]) (use inv(2) Mx leaf in \<open>auto intro: that\<close>)
  ultimately have ind: "(BoolExpr_InducedMSP (Some ()) a :: 'a MSP res option) = Some (Inr m)" by (simp add: BoolExpr_InducedMSP_def)
  have "msp_holders m = \<Union> (leaf_ids ` set l)" using leaf by (auto simp: m(5))
  also have "\<dots> = leaf_ids tree" using loop(5) by (simp add: l)
  finally have "msp_holders m = set (tg_Shareholders a)" by (simp add: a tg_Shareholders_def leaf_ids_def)
  moreover have "spans m S \<longleftrightarrow> treeEval tree (\<lambda>i. if i \<in> S then Some True else None)" for S
  proof -
    have "spanned (\<lambda>i. if i \<in> S then Some True else None) d rs \<longleftrightarrow> spans m S"
    proof (rule spanned_spans [OF m(3) [unfolded Mx_def] L])
      show "row_label m i = nd_attr (the (l ! i))" if "i < ?L" for i using m(4) [of i] that Mx(2) inv(2) by simp
      show "fst (rs ! i) = l ! i \<and> nd_kind (the (l ! i)) = attribute_kind \<and> l ! i \<noteq> None" if "i < ?L" for i
        using leaf [OF nth_mem [of i l]] inv(2) inv(7) [OF that] that by simp
    qed (use inv(3,8) in simp_all)
    moreover have "spanned A 1 ?rs0 \<longleftrightarrow> treeEval tree A" for A by (auto simp: spanned_def list_all2_Cons2 intro: exI [of _ "[1]"])
    ultimately show ?thesis using loop(4) by simp
  qed
  ultimately show ?thesis using ind m(2,3) Mx(2) by (auto simp: a CountLeaves_def)
qed

section \<open>Round trip of the serialisation\<close>

lemma set_update_subset: "set (AList.update k v xs) \<subseteq> insert (k, v) (set xs)"
  by (induction xs) auto

lemma allShareholders_True: "\<forall>p\<in>set sh. snd p \<Longrightarrow> \<forall>p\<in>set (allShareholders n sh). snd p"
proof (induction n sh rule: allShareholders.induct)
  case (2 kind a t cs sh)
  have loop: "\<forall>p\<in>set (fold allShareholders cs' sh'). snd p" if "kind = gate" "set cs' \<subseteq> set cs" "\<forall>p\<in>set sh'. snd p" for cs' sh'
    using that
  proof (induction cs' arbitrary: sh')
    case (Cons c cs')
    have "\<forall>p\<in>set (allShareholders c sh'). snd p" by (rule 2(1)) (use Cons.prems in simp_all)
    then have "\<forall>p\<in>set (fold allShareholders cs' (allShareholders c sh')). snd p" by (intro Cons.IH) (use Cons.prems in simp_all)
    then show ?case by simp
  qed simp
  have "\<forall>p\<in>set (AList.update a True sh). snd p" using 2(2) set_update_subset [of a True sh] by auto
  with 2(2) loop [of cs sh] show ?case by simp
qed simp

lemma tg_CBOR_roundtrip:
  assumes "NewThresholdGateAccessStructure tree = Inr a" "tg_MarshalCBOR enc a = Inr data" "\<And>x b. enc x = Inr b \<Longrightarrow> dec b = Inr (Some x)"
  shows "tg_UnmarshalCBOR dec data = Inr a"
proof -
  have a: "checkTree tree = Inr ()" "a = \<lparr>tg_root = tree, tg_shareholders = allShareholders tree []\<rparr>"
    using assms(1) by (auto simp: NewThresholdGateAccessStructure_def)
  have "map_of (allShareholders tree []) i = Some True" if ib: "(i, b) \<in> set (allShareholders tree [])" for i b
  proof -
    obtain c where c: "map_of (allShareholders tree []) i = Some c" using weak_map_of_SomeI [OF ib] by blast
    then have "(i, c) \<in> set (allShareholders tree [])" by (rule map_of_SomeD)
    with allShareholders_True [of "[]" tree] c show ?thesis by fastforce
  qed
  then have "\<not> list_ex (\<lambda>(i, _). map_of (allShareholders tree []) i \<noteq> Some True) (allShareholders tree [])"
    by (auto simp: list_ex_iff)
  then show ?thesis using a assms(2,3) by (simp add: tg_UnmarshalCBOR_def tg_MarshalCBOR_def Let_def)
qed

section \<open>Properties\<close>

text \<open>
  C34. The programme of a tree of threshold gates realises the tree: for every tree the constructor accepts, over a field in
  which the numbers up to the count of leaves are distinct, the conversion ends with one row per leaf, and the programme accepts
  exactly the lists of shareholders of the tree that satisfy its root.
\<close>

theorem BoolExpr_InducedMSP_correct:
  assumes "NewThresholdGateAccessStructure tree = Inr a" "inj_on (of_nat :: nat \<Rightarrow> 'a::field) {..CountLeaves a}"
  shows "\<exists>m. (BoolExpr_InducedMSP (Some ()) a :: 'a MSP res option) = Some (Inr m) \<and> msp_Size m = CountLeaves a \<and>
    (\<forall>ids. Accepts m ids \<longleftrightarrow> set ids \<subseteq> set (tg_Shareholders a) \<and> tg_IsQualified a ids)"
proof -
  obtain m :: "'a MSP" where m: "BoolExpr_InducedMSP (Some ()) a = Some (Inr m)" "msp_wf m" "mrows (msp_matrix m) = CountLeaves a"
    "msp_holders m = set (tg_Shareholders a)" "\<forall>S. spans m S \<longleftrightarrow> treeEval tree (\<lambda>i. if i \<in> S then Some True else None)"
    using BoolExpr_InducedMSP_spec [OF assms] by (elim exE conjE) (rule that)
  have "checkTree tree = Inr ()" "tg_root a = tree" using assms(1) by (auto simp: NewThresholdGateAccessStructure_def)
  then have "treeEval tree (\<lambda>i. if i \<in> set ids then Some True else None) \<longleftrightarrow> tg_IsQualified a ids"
    "ids = [] \<Longrightarrow> \<not> tg_IsQualified a ids" for ids using treeEval_empty by (simp_all add: tg_IsQualified_def members)
  then show ?thesis using m by (intro exI [of _ m]) (auto simp: Accepts_iff msp_Size_def)
qed

theorem BoolExpr_InducedMSP_correct_witness:
  "\<exists>a m. NewThresholdGateAccessStructure (Some (bx_Threshold 2 [Some (bx_ID 4), Some (bx_Or [Some (bx_ID 4), Some (bx_ID 7)]), Some (bx_ID 9)])) = Inr a \<and>
     (BoolExpr_InducedMSP (Some ()) a :: rat MSP res option) = Some (Inr m) \<and> Accepts m [4] \<and> Accepts m [9, 7] \<and> \<not> Accepts m [7] \<and> \<not> Accepts m [4, 5]"
proof -
  let ?tree = "Some (bx_Threshold 2 [Some (bx_ID 4), Some (bx_Or [Some (bx_ID 4), Some (bx_ID 7)]), Some (bx_ID 9)])"
  let ?a = "\<lparr>tg_root = ?tree, tg_shareholders = [(4, True), (7, True), (9, True)]\<rparr>"
  have a: "NewThresholdGateAccessStructure ?tree = Inr ?a" by code_simp
  have "inj_on (of_nat :: nat \<Rightarrow> rat) {..CountLeaves ?a}" by (simp add: inj_on_def)
  from BoolExpr_InducedMSP_correct [OF a this] obtain m :: "rat MSP" where m: "BoolExpr_InducedMSP (Some ()) ?a = Some (Inr m)"
    "\<And>ids. Accepts m ids \<longleftrightarrow> set ids \<subseteq> set (tg_Shareholders ?a) \<and> tg_IsQualified ?a ids" by auto
  have "set (tg_Shareholders ?a) = {4, 7, 9}" by (simp add: tg_Shareholders_def)
  moreover have "tg_IsQualified ?a [4]" "tg_IsQualified ?a [9, 7]" "\<not> tg_IsQualified ?a [7]" by code_simp+
  ultimately show ?thesis using a by (intro exI [of _ ?a] exI [of _ m]) (simp add: m)
qed

end
