(* ===== verification/Feldman.thy ===== *)
theory Feldman
  imports KW PrimeGroup
begin

text \<open>
  Feldman's verifiable sharing (\<open>pkg/mpc/sharing/vss/feldman\<close>): the dealer publishes the random column of the
  Karchmer-Wigderson dealing in the exponent, and a share is checked by comparing its lift with the action of the
  holder's rows on the published column. The group is a parameter (\<open>PrimeGroup\<close>); nil pointers are \<open>None\<close>.
\<close>

section \<open>Verification vectors and lifted shares\<close>

record 'g VerificationVector =
  vv_value :: "'g Matrix"

definition NewVerificationVector :: "'g Matrix option \<Rightarrow> 'a MSP option \<Rightarrow> 'g VerificationVector res" where
  "NewVerificationVector value mspMatrix =
     (case value of
        None \<Rightarrow> Inl ErrIsNil
      | Some v \<Rightarrow>
          if \<not> mat_IsColumnVector v then Inl ErrValue
          else if (case mspMatrix of None \<Rightarrow> False | Some m \<Rightarrow> mrows v \<noteq> msp_D m) then Inl ErrValue
          else Inr \<lparr>vv_value = v\<rparr>)"

definition vv_Op :: "('g::ab_group_add) VerificationVector option \<Rightarrow> 'g VerificationVector option \<Rightarrow> 'g VerificationVector res" where
  "vv_Op v other =
     (case (v, other) of
        (Some v, Some other) \<Rightarrow>
          if mcols (vv_value other) \<noteq> mcols (vv_value v) then Inl ErrValue
          else if mrows (vv_value other) \<noteq> mrows (vv_value v) then Inl ErrValue
          else rbind (mat_OpAssign (vv_value v) (vv_value other)) (\<lambda>w. Inr \<lparr>vv_value = w\<rparr>)
      | _ \<Rightarrow> Inl ErrIsNil)"

definition vv_Equal :: "'g VerificationVector option \<Rightarrow> 'g VerificationVector option \<Rightarrow> bool" where
  "vv_Equal v other =
     (case (v, other) of
        (Some v, Some other) \<Rightarrow> mat_Equal (vv_value v) (vv_value other)
      | (None, None) \<Rightarrow> True
      | _ \<Rightarrow> False)"

definition vv_MarshalCBOR :: "('g Matrix option \<Rightarrow> 'b res) \<Rightarrow> 'g VerificationVector \<Rightarrow> 'b res" where
  "vv_MarshalCBOR enc v = enc (Some (vv_value v))"

definition vv_UnmarshalCBOR :: "('b \<Rightarrow> 'g Matrix option res) \<Rightarrow> 'b \<Rightarrow> 'g VerificationVector res" where
  "vv_UnmarshalCBOR dec data = rbind (dec data) (\<lambda>v. NewVerificationVector v (None :: unit MSP option))"

record 'g LiftedShare =
  ls_id :: ID
  ls_v :: "'g list"

definition NewLiftedShare :: "ID \<Rightarrow> 'g list \<Rightarrow> 'g LiftedShare res" where
  "NewLiftedShare sid v =
     (if length v = 0 then Inl ErrIsNil
      else if sid = 0 then Inl ErrIsZero
      else Inr \<lparr>ls_id = sid, ls_v = v\<rparr>)"

definition ls_Equal :: "'g LiftedShare option \<Rightarrow> 'g LiftedShare option \<Rightarrow> bool" where
  "ls_Equal s other =
     (case (s, other) of
        (Some x, Some y) \<Rightarrow>
          if ls_id x \<noteq> ls_id y then False
          else if length (ls_v x) \<noteq> length (ls_v y) then False
          else list_all (\<lambda>i. ls_v x ! i = ls_v y ! i) [0..<length (ls_v x)]
      | (None, None) \<Rightarrow> True
      | _ \<Rightarrow> False)"

definition ls_MarshalCBOR :: "(ID \<times> 'g list \<Rightarrow> 'b res) \<Rightarrow> 'g LiftedShare \<Rightarrow> 'b res" where
  "ls_MarshalCBOR enc s = enc (ls_id s, ls_v s)"

definition ls_UnmarshalCBOR :: "('b \<Rightarrow> (ID \<times> 'g list) res) \<Rightarrow> 'b \<Rightarrow> 'g LiftedShare res" where
  "ls_UnmarshalCBOR dec data = rbind (dec data) (\<lambda>(sid, v). NewLiftedShare sid v)"

definition LiftShare :: "('g, 'a) PrimeGroup \<Rightarrow> 'a KWShare option \<Rightarrow> 'g option \<Rightarrow> 'g LiftedShare res" where
  "LiftShare G s basePoint =
     (case s of
        None \<Rightarrow> Inl ErrIsNil
      | Some s \<Rightarrow>
          (case basePoint of
             None \<Rightarrow> Inl ErrIsNil
           | Some b \<Rightarrow> NewLiftedShare (sh_id s) (map (\<lambda>v. ScalarOp G b v) (sh_v s))))"

section \<open>Lifted dealer functions\<close>

record ('g, 'a) LiftedDealerFunc =
  ldf_verificationVector :: "'g VerificationVector"
  ldf_mspMatrix :: "'a MSP"
  ldf_liftedLambda :: "'g Matrix"

definition LiftDealerFunc ::
  "('g, 'a) PrimeGroup \<Rightarrow> 'a DealerFunc option \<Rightarrow> 'g option \<Rightarrow> ('g, 'a) LiftedDealerFunc res" where
  "LiftDealerFunc G df basePoint =
     (case df of
        None \<Rightarrow> Inl ErrIsNil
      | Some df \<Rightarrow>
          (case basePoint of
             None \<Rightarrow> Inl ErrIsNil
           | Some b \<Rightarrow>
               rbind (Lift (ScalarOp G) (Some (df_randomColumn df)) b) (\<lambda>liftedRandomColumn.
               rbind (Lift (ScalarOp G) (Some (df_lambdaColumn df)) b) (\<lambda>liftedLambda.
                 Inr \<lparr>ldf_verificationVector = \<lparr>vv_value = liftedRandomColumn\<rparr>, ldf_mspMatrix = df_msp df,
                   ldf_liftedLambda = liftedLambda\<rparr>))))"

definition NewLiftedDealerFunc ::
  "('g::ab_group_add, 'a) PrimeGroup \<Rightarrow> 'g VerificationVector option \<Rightarrow> 'a MSP option \<Rightarrow> ('g, 'a) LiftedDealerFunc res" where
  "NewLiftedDealerFunc G verificationVector mspMatrix =
     (case verificationVector of
        None \<Rightarrow> Inl ErrIsNil
      | Some v \<Rightarrow>
          (case mspMatrix of
             None \<Rightarrow> Inl ErrIsNil
           | Some m \<Rightarrow>
               if \<not> mat_IsColumnVector (vv_value v) then Inl ErrValue
               else rbind (LeftAction (ScalarOp G) (Some (msp_matrix m)) (Some (vv_value v))) (\<lambda>liftedLambda.
                 Inr \<lparr>ldf_verificationVector = v, ldf_mspMatrix = m, ldf_liftedLambda = liftedLambda\<rparr>)))"

definition ldf_LiftedSecret :: "('g::ab_group_add, 'a::field) PrimeGroup \<Rightarrow> ('g, 'a) LiftedDealerFunc \<Rightarrow> 'g res" where
  "ldf_LiftedSecret G d =
     rbind (msp_TargetVector (ldf_mspMatrix d)) (\<lambda>t.
       case rbind (LeftAction (ScalarOp G) (Some t) (Some (vv_value (ldf_verificationVector d))))
           (\<lambda>liftedSecretMat. mat_Get liftedSecretMat 0 0) of
         Inl _ \<Rightarrow> Inl Panic | Inr v \<Rightarrow> Inr v)"

definition ldf_ShareOf :: "('g, 'a) LiftedDealerFunc \<Rightarrow> ID \<Rightarrow> 'g LiftedShare res" where
  "ldf_ShareOf d sid =
     (case map_of (holdersToRows (ldf_mspMatrix d)) sid of
        None \<Rightarrow> Inl ErrMembership
      | Some rowsi \<Rightarrow>
          rbind (mat_SubMatrixGivenRows (ldf_liftedLambda d) (sort (hs_List rowsi))) (\<lambda>lambdaI.
            Inr \<lparr>ls_id = sid, ls_v = mat_Iter lambdaI\<rparr>))"

section \<open>The scheme\<close>

record ('g, 'a) FeldmanScheme =
  fs_group :: "('g, 'a) PrimeGroup"
  fs_lsss :: "'a KWScheme"

definition NewSchemeFromKW :: "('g, 'a) PrimeGroup option \<Rightarrow> 'a KWScheme option \<Rightarrow> ('g, 'a) FeldmanScheme res" where
  "NewSchemeFromKW grp kws =
     (case grp of
        None \<Rightarrow> Inl ErrIsNil
      | Some G \<Rightarrow> (case kws of None \<Rightarrow> Inl ErrIsNil | Some l \<Rightarrow> Inr \<lparr>fs_group = G, fs_lsss = l\<rparr>))"

definition feldman_CanReconstruct :: "('g, 'a::field) FeldmanScheme \<Rightarrow> ID list \<Rightarrow> bool" where
  "feldman_CanReconstruct s ids = Accepts (kw_msp (fs_lsss s)) ids"

definition feldman_Shareholders :: "('g, 'a) FeldmanScheme \<Rightarrow> ID hset" where
  "feldman_Shareholders s = msp_Shareholders (kw_msp (fs_lsss s))"

definition feldman_DealAndRevealDealerFunc ::
  "('g, 'a::field) FeldmanScheme \<Rightarrow> 'a option \<Rightarrow> 'a list option \<Rightarrow>
     ((ID \<times> 'a KWShare) list \<times> 'g VerificationVector \<times> 'a DealerFunc \<times> 'a list) res" where
  "feldman_DealAndRevealDealerFunc s secret prng =
     rbind (DealAndRevealDealerFunc (fs_lsss s) secret prng) (\<lambda>(shares, df, prng).
     rbind (Lift (ScalarOp (fs_group s)) (Some (df_randomColumn df)) (Generator (fs_group s))) (\<lambda>verificationMatrix.
     rbind (NewVerificationVector (Some verificationMatrix) (Some (kw_msp (fs_lsss s)))) (\<lambda>verificationVector.
       Inr (shares, verificationVector, df, prng))))"

definition feldman_DealRandomAndRevealDealerFunc ::
  "('g, 'a::field) FeldmanScheme \<Rightarrow> 'a list option \<Rightarrow>
     ((ID \<times> 'a KWShare) list \<times> 'g VerificationVector \<times> 'a \<times> 'a DealerFunc \<times> 'a list) res" where
  "feldman_DealRandomAndRevealDealerFunc s prng =
     rbind (DealRandomAndRevealDealerFunc (fs_lsss s) prng) (\<lambda>(shares, secret, df, prng).
     rbind (Lift (ScalarOp (fs_group s)) (Some (df_randomColumn df)) (Generator (fs_group s))) (\<lambda>verificationMatrix.
     rbind (NewVerificationVector (Some verificationMatrix) (Some (kw_msp (fs_lsss s)))) (\<lambda>verificationVector.
       Inr (shares, verificationVector, secret, df, prng))))"

definition feldman_Deal ::
  "('g, 'a::field) FeldmanScheme \<Rightarrow> 'a option \<Rightarrow> 'a list option \<Rightarrow>
     ((ID \<times> 'a KWShare) list \<times> 'g VerificationVector \<times> 'a list) res" where
  "feldman_Deal s secret prng =
     rbind (feldman_DealAndRevealDealerFunc s secret prng) (\<lambda>(shares, v, df, prng). Inr (shares, v, prng))"

definition feldman_DealRandom ::
  "('g, 'a::field) FeldmanScheme \<Rightarrow> 'a list option \<Rightarrow>
     ((ID \<times> 'a KWShare) list \<times> 'g VerificationVector \<times> 'a \<times> 'a list) res" where
  "feldman_DealRandom s prng =
     rbind (feldman_DealRandomAndRevealDealerFunc s prng) (\<lambda>(shares, v, secret, df, prng). Inr (shares, v, secret, prng))"

definition feldman_Reconstruct :: "('g, 'a::field) FeldmanScheme \<Rightarrow> 'a KWShare option list \<Rightarrow> 'a res" where
  "feldman_Reconstruct s shares = kw_Reconstruct (fs_lsss s) shares"

definition feldman_Verify ::
  "('g::ab_group_add, 'a) FeldmanScheme \<Rightarrow> 'a KWShare option \<Rightarrow> 'g VerificationVector option \<Rightarrow> unit res" where
  "feldman_Verify s share reference =
     (case share of
        None \<Rightarrow> Inl ErrIsNil
      | Some sh \<Rightarrow>
          rbind (NewLiftedDealerFunc (fs_group s) reference (Some (kw_msp (fs_lsss s)))) (\<lambda>liftedDealerFunc.
          rbind (ldf_ShareOf liftedDealerFunc (sh_id sh)) (\<lambda>liftedShare.
          rbind (LiftShare (fs_group s) share (Some (Generator (fs_group s)))) (\<lambda>manuallyLiftedShare.
            if \<not> ls_Equal (Some liftedShare) (Some manuallyLiftedShare) then Inl ErrVerification else Inr ()))))"

definition feldman_ReconstructAndVerify ::
  "('g::ab_group_add, 'a::field) FeldmanScheme \<Rightarrow> 'g VerificationVector option \<Rightarrow> 'a KWShare option list \<Rightarrow> 'a res" where
  "feldman_ReconstructAndVerify s reference shares =
     rbind (FoldOrError (\<lambda>_ share. feldman_Verify s share reference) () shares) (\<lambda>_. feldman_Reconstruct s shares)"

definition feldman_ConvertShareToAdditive ::
  "('g, 'a::field) FeldmanScheme \<Rightarrow> 'a KWShare option \<Rightarrow> Unanimity option \<Rightarrow> 'a AdditiveShare res" where
  "feldman_ConvertShareToAdditive s share quorum = ConvertShareToAdditive (fs_lsss s) share quorum"

definition ConvertLiftedShareToAdditive ::
  "('g::ab_group_add, 'a::field) FeldmanScheme \<Rightarrow> 'g LiftedShare option \<Rightarrow> Unanimity option \<Rightarrow> 'g AdditiveShare res" where
  "ConvertLiftedShareToAdditive s share quorum =
     (case share of
        None \<Rightarrow> Inl ErrIsNil
      | Some share \<Rightarrow>
          (case quorum of
             None \<Rightarrow> Inl ErrIsNil
           | Some u \<Rightarrow>
               if \<not> hs_Contains (Unanimity_Shareholders u) (ls_id share) then Inl ErrMembership
               else (let quorumIDs = hs_List (Unanimity_Shareholders u); m = kw_msp (fs_lsss s); htr = holdersToRows m in
                 rbind (ReconstructionVector m quorumIDs) (\<lambda>reconVec.
                 rbind (FoldOrError (\<lambda>rows sid. case map_of htr sid of
                     None \<Rightarrow> Inl ErrMembership | Some rs \<Rightarrow> Inr (rows @ hs_List rs)) [] quorumIDs) (\<lambda>rows.
                   (let allQuorumRows = sort rows in
                    case map_of htr (ls_id share) of
                      None \<Rightarrow> Inl ErrMembership
                    | Some shareholderRowsSet \<Rightarrow>
                        (let sortedShareholderRows = sort (hs_List shareholderRowsSet) in
                         if length (ls_v share) \<noteq> length sortedShareholderRows then Inl ErrValue
                         else if ls_v share = [] then Inl Panic
                         else
                           rbind (FoldOrError (\<lambda>result (i, absRow). case BinarySearch allQuorumRows absRow of (pos, found) \<Rightarrow>
                               if \<not> found then Inl ErrFailed
                               else rbind (mat_Get reconVec (int pos) 0) (\<lambda>coeff.
                                 Inr (result + ScalarOp (fs_group s) (ls_v share ! i) coeff)))
                             0 (zip [0..<length sortedShareholderRows] sortedShareholderRows)) (\<lambda>result.
                           additive_NewShare (ls_id share) result (Some u)))))))))"

text \<open>The loop of \<open>ReconstructInTheExponent\<close> that files the lifted values by row.\<close>

definition lifted_by_row :: "'a MSP \<Rightarrow> 'g LiftedShare list \<Rightarrow> (int \<times> 'g) list res" where
  "lifted_by_row m shares =
     FoldOrError (\<lambda>liftedByRow sh.
         case map_of (holdersToRows m) (ls_id sh) of
           None \<Rightarrow> Inl ErrMembership
         | Some rowSet \<Rightarrow>
             (let sortedRows = sort (hs_List rowSet) in
              if length (ls_v sh) \<noteq> length sortedRows then Inl ErrValue
              else Inr (fold (\<lambda>(i, r) l. AList.update r (ls_v sh ! i) l)
                     (zip [0..<length sortedRows] sortedRows) liftedByRow))) [] shares"

definition ReconstructInTheExponent ::
  "('g::ab_group_add, 'a::field) FeldmanScheme \<Rightarrow> 'g LiftedShare option list \<Rightarrow> 'g res" where
  "ReconstructInTheExponent s shares =
     (if length shares = 0 then Inl ErrValue
      else rbind (CollectIDs ls_id shares) (\<lambda>ids.
        rbind (ReconstructionVector (kw_msp (fs_lsss s)) ids) (\<lambda>reconVec.
        rbind (lifted_by_row (kw_msp (fs_lsss s)) (map the shares)) (\<lambda>liftedByRow.
          (let sortedRows = sort (map fst liftedByRow) in
           FoldOrError (\<lambda>result (i, r). rbind (mat_Get reconVec (int i) 0) (\<lambda>coeff.
               Inr (result + ScalarOp (fs_group s) (the (map_of liftedByRow r)) coeff)))
             0 (zip [0..<length sortedRows] sortedRows))))))"

lemma kw_scheme_eta [simp]: "\<lparr>kw_msp = kw_msp s\<rparr> = s"
  by (cases s) simp

lemma feldman_scheme_eta [simp]: "\<lparr>fs_group = fs_group s, fs_lsss = fs_lsss s\<rparr> = s"
  by (cases s) simp

section \<open>Verification\<close>

text \<open>The lifted share of a holder when row \<open>i\<close> of the programme carries the group element \<open>f i\<close>.\<close>

definition lifted_row_share :: "'a MSP \<Rightarrow> (nat \<Rightarrow> 'g) \<Rightarrow> ID \<Rightarrow> 'g LiftedShare" where
  "lifted_row_share m f sid = \<lparr>ls_id = sid, ls_v = map f (rows_for m {sid})\<rparr>"

lemma ls_Equal_Some [simp]: "ls_Equal (Some x) (Some y) \<longleftrightarrow> x = y"
proof -
  have "x = y \<longleftrightarrow> ls_id x = ls_id y \<and> length (ls_v x) = length (ls_v y) \<and> (\<forall>i<length (ls_v x). ls_v x ! i = ls_v y ! i)"
    by (cases x, cases y) (auto simp: list_eq_iff_nth_eq)
  then show ?thesis by (auto simp: ls_Equal_def list_all_iff)
qed

lemma lifted_row:
  fixes m :: "('a::field) MSP"
  assumes "prime_group G" "\<And>c. c < mcols (msp_matrix m) \<Longrightarrow> v c = ScalarOp G g (r c)"
  shows "(\<Sum>c<mcols (msp_matrix m). ScalarOp G (v c) (ent (msp_matrix m) i c)) = ScalarOp G g (row_value m r i)"
  using assms by (simp add: row_value_def scalar_sum scalar_laws)

lemma NewLiftedDealerFunc_ok:
  assumes wf: "msp_wf m" and V: "mcols (vv_value v) = 1"
  shows "NewLiftedDealerFunc G (Some v) (Some m) =
    (if mrows (vv_value v) = mcols (msp_matrix m)
     then Inr \<lparr>ldf_verificationVector = v, ldf_mspMatrix = m, ldf_liftedLambda =
       mat_fill (mrows (msp_matrix m)) 1 (\<lambda>i j. \<Sum>c<mcols (msp_matrix m). ScalarOp G (ent (vv_value v) c j) (ent (msp_matrix m) i c))\<rparr>
     else Inl ErrDimension)"
proof (cases "mrows (vv_value v) = mcols (msp_matrix m)")
  case True
  have "0 < mrows (msp_matrix m)" using wf by (simp add: msp_wf_def mat_wf_def)
  then show ?thesis
    using True V LeftAction_ok [of "msp_matrix m" "vv_value v" "ScalarOp G"]
    by (simp add: NewLiftedDealerFunc_def mat_IsColumnVector_def del: One_nat_def)
next
  case False
  then show ?thesis using V by (simp add: NewLiftedDealerFunc_def mat_IsColumnVector_def LeftAction_def)
qed

lemma ldf_ShareOf_ok:
  fixes m :: "'a MSP"
  assumes wf: "msp_wf m"
  shows "ldf_ShareOf \<lparr>ldf_verificationVector = v, ldf_mspMatrix = m, ldf_liftedLambda = mat_fill (mrows (msp_matrix m)) 1 f\<rparr> sid =
    (if sid \<in> msp_holders m then Inr (lifted_row_share m (\<lambda>i. f i 0) sid) else Inl ErrMembership)"
proof (cases "sid \<in> msp_holders m")
  case True
  let ?l = "mat_fill (mrows (msp_matrix m)) 1 f"
  have l: "mat_wf ?l" "mrows ?l = mrows (msp_matrix m)" "mcols ?l = 1"
    using wf by (simp_all add: mat_simps msp_wf_def mat_wf_def [of "msp_matrix m"])
  have e: "map (\<lambda>i. ent ?l i 0) (rows_for m {sid}) = map (\<lambda>i. f i 0) (rows_for m {sid})"
    by (rule map_cong) (simp_all add: mat_simps rows_for_less)
  show ?thesis
    by (rule holder_entries [OF wf l True]) (use True e in \<open>simp add: ldf_ShareOf_def lifted_row_share_def\<close>)
qed (simp add: ldf_ShareOf_def holder_none [OF wf])

lemma holder_nonzero: "msp_wf m \<Longrightarrow> sid \<in> msp_holders m \<Longrightarrow> sid \<noteq> 0"
  using label_holders [of m] by (force simp: msp_wf_def)

text \<open>The columns that a verification vector commits to: its length is the programme's column count and its
  entries are the multiples of the generator by the entries of \<open>r\<close>.\<close>

definition commits :: "('g, 'a) PrimeGroup \<Rightarrow> 'a MSP \<Rightarrow> 'g VerificationVector \<Rightarrow> (nat \<Rightarrow> 'a) \<Rightarrow> bool" where
  "commits G m v r \<longleftrightarrow> mcols (vv_value v) = 1 \<and> mrows (vv_value v) = mcols (msp_matrix m) \<and>
     (\<forall>c<mcols (msp_matrix m). ent (vv_value v) c 0 = ScalarOp G (Generator G) (r c))"

lemma feldman_Verify_iff:
  fixes m :: "('a::field) MSP" and G :: "('g::ab_group_add, 'a) PrimeGroup"
  assumes G: "prime_group G" and wf: "msp_wf m" and v: "commits G m v r"
  shows "feldman_Verify \<lparr>fs_group = G, fs_lsss = \<lparr>kw_msp = m\<rparr>\<rparr> (Some sh) (Some v) = Inr () \<longleftrightarrow>
    sh_id sh \<in> msp_holders m \<and> sh = row_share m (row_value m r) (sh_id sh)"
proof -
  let ?s = "\<lparr>fs_group = G, fs_lsss = \<lparr>kw_msp = m\<rparr>\<rparr>" and ?g = "Generator G"
  have row: "(\<Sum>c<mcols (msp_matrix m). ScalarOp G (ent (vv_value v) c 0) (ent (msp_matrix m) i c)) = ScalarOp G ?g (row_value m r i)" for i
    by (rule lifted_row [OF G]) (use v in \<open>simp add: commits_def\<close>)
  obtain d where d: "NewLiftedDealerFunc G (Some v) (Some m) = Inr d"
    "ldf_ShareOf d sid = (if sid \<in> msp_holders m then Inr (lifted_row_share m (\<lambda>i. ScalarOp G ?g (row_value m r i)) sid) else Inl ErrMembership)" for sid
    using NewLiftedDealerFunc_ok [OF wf, of v G] v by (simp add: commits_def ldf_ShareOf_ok [OF wf] row [symmetric] del: One_nat_def)
  have verify: "feldman_Verify ?s (Some sh) (Some v) = Inr () \<longleftrightarrow> sh_id sh \<in> msp_holders m \<and>
      LiftShare G (Some sh) (Some ?g) = Inr (lifted_row_share m (\<lambda>i. ScalarOp G ?g (row_value m r i)) (sh_id sh))"
    using d by (auto simp: feldman_Verify_def rbind_eq_Inr_iff)
  have "LiftShare G (Some sh) (Some ?g) = Inr (lifted_row_share m (\<lambda>i. ScalarOp G ?g (row_value m r i)) (sh_id sh)) \<longleftrightarrow>
      sh = row_share m (row_value m r) (sh_id sh)" if "sh_id sh \<in> msp_holders m"
  proof -
    have inj: "inj (ScalarOp G ?g)" using generator_inj [OF G] by (simp add: inj_def)
    have "map (ScalarOp G ?g) (sh_v sh) = map (ScalarOp G ?g) (map (row_value m r) (rows_for m {sh_id sh})) \<longleftrightarrow>
        sh_v sh = map (row_value m r) (rows_for m {sh_id sh})"
      by (rule inj_map_eq_map [OF inj])
    moreover have "sh = row_share m (row_value m r) (sh_id sh) \<longleftrightarrow> sh_v sh = map (row_value m r) (rows_for m {sh_id sh})"
      by (cases sh) (simp add: row_share_def)
    ultimately show ?thesis
      using holder_nonzero [OF wf that] holder_has_rows [OF that]
      by (auto simp: LiftShare_def NewLiftedShare_def lifted_row_share_def comp_def)
  qed
  with verify show ?thesis by blast
qed

lemma feldman_Verify_only:
  assumes wf: "msp_wf m" and ok: "feldman_Verify \<lparr>fs_group = G, fs_lsss = \<lparr>kw_msp = m\<rparr>\<rparr> sh (Some v) = Inr ()"
  shows "mcols (vv_value v) = 1 \<and> mrows (vv_value v) = mcols (msp_matrix m) \<and> sh \<noteq> None"
proof -
  from ok obtain x d where "sh = Some x" "NewLiftedDealerFunc G (Some v) (Some m) = Inr d"
    by (auto simp: feldman_Verify_def split: option.splits)
  then show ?thesis
    using NewLiftedDealerFunc_ok [OF wf, of v G] by (auto simp: NewLiftedDealerFunc_def mat_IsColumnVector_def split: if_splits)
qed

lemma commits_ex:
  fixes G :: "('g::ab_group_add, 'a::field) PrimeGroup"
  assumes "prime_group G" "mcols (vv_value v) = 1" "mrows (vv_value v) = mcols (msp_matrix m)"
  obtains r where "commits G m v r"
proof -
  obtain r where "\<And>c. ent (vv_value v) c 0 = ScalarOp G (Generator G) (r c)"
    by (rule column_dlog [OF assms(1), of "\<lambda>c. ent (vv_value v) c 0"]) blast
  then show thesis using assms by (intro that [of r]) (simp add: commits_def)
qed

section \<open>Dealing\<close>

definition feldman_wf :: "('g::ab_group_add, 'a::field) FeldmanScheme \<Rightarrow> bool" where
  "feldman_wf s \<longleftrightarrow> prime_group (fs_group s) \<and> kw_wf (kw_msp (fs_lsss s))"

lemma lift_commits:
  fixes m :: "('a::field) MSP"
  assumes "mat_wf r" "mrows r = mcols (msp_matrix m)" "mcols r = 1"
    and "\<And>c. c < mcols (msp_matrix m) \<Longrightarrow> ent r c 0 = f c"
  obtains v where "Lift (ScalarOp G) (Some r) (Generator G) = Inr (vv_value v)"
    "NewVerificationVector (Some (vv_value v)) (Some m) = Inr v" "commits G m v f" "mat_wf (vv_value v)"
proof -
  define v where "v = \<lparr>vv_value = mat_fill (mrows r) (mcols r) (\<lambda>i j. ScalarOp G (Generator G) (ent r i j))\<rparr>"
  have "0 < mrows r" using assms(1) by (simp add: mat_wf_def)
  then show thesis
    using assms by (intro that [of v])
      (simp_all add: v_def Lift_ok [OF assms(1)] NewVerificationVector_def mat_IsColumnVector_def mat_simps msp_D_def commits_def)
qed

lemma feldman_Deal_dealt:
  assumes wf: "feldman_wf s" and deal: "feldman_Deal s (Some secret) (Some prng) = Inr (shares, v, rest)"
  shows "kw_Deal (fs_lsss s) (Some secret) (Some prng) = Inr (shares, rest)"
    "commits (fs_group s) (kw_msp (fs_lsss s)) v (dealt_column secret prng)"
proof -
  let ?m = "kw_msp (fs_lsss s)"
  from deal obtain df vm where r: "DealAndRevealDealerFunc (fs_lsss s) (Some secret) (Some prng) = Inr (shares, df, rest)"
    "Lift (ScalarOp (fs_group s)) (Some (df_randomColumn df)) (Generator (fs_group s)) = Inr vm"
    "NewVerificationVector (Some vm) (Some ?m) = Inr v"
    by (auto simp: feldman_Deal_def feldman_DealAndRevealDealerFunc_def)
  from r(1) show kw: "kw_Deal (fs_lsss s) (Some secret) (Some prng) = Inr (shares, rest)" by (simp add: kw_Deal_def)
  have m: "msp_wf ?m" "2 \<le> mcols (msp_matrix ?m)" "fs_lsss s = \<lparr>kw_msp = ?m\<rparr>" using wf by (simp_all add: feldman_wf_def kw_wf_def)
  have col: "mat_wf (df_randomColumn df)" "mrows (df_randomColumn df) = mcols (msp_matrix ?m)" "mcols (df_randomColumn df) = 1"
    "\<And>c. c < mcols (msp_matrix ?m) \<Longrightarrow> ent (df_randomColumn df) c 0 = dealt_column secret prng c"
    by (rule DealAndReveal_ok [OF m(1,2) kw_Deal_len [OF kw], of secret]; use r(1) m(3) in simp)+
  show "commits (fs_group s) ?m v (dealt_column secret prng)"
    by (rule lift_commits [OF col, of "fs_group s"]) (use r(2,3) in simp_all)
qed

text \<open>With enough samples dealing succeeds.\<close>

lemma feldman_Deal_ok:
  assumes "feldman_wf s" "mcols (msp_matrix (kw_msp (fs_lsss s))) \<le> length prng"
  shows "is_ok (feldman_Deal s (Some secret) (Some prng))"
proof -
  let ?m = "kw_msp (fs_lsss s)"
  have m: "msp_wf ?m" "2 \<le> mcols (msp_matrix ?m)" "fs_lsss s = \<lparr>kw_msp = ?m\<rparr>" using assms(1) by (simp_all add: feldman_wf_def kw_wf_def)
  show ?thesis
  proof (rule DealAndReveal_ok [OF m(1,2) assms(2), of secret])
    fix df
    assume df: "DealAndRevealDealerFunc \<lparr>kw_msp = ?m\<rparr> (Some secret) (Some prng) =
      Inr (map (\<lambda>sid. (sid, row_share ?m (row_value ?m (dealt_column secret prng)) sid)) (msp_Shareholders ?m), df, drop (mcols (msp_matrix ?m)) prng)"
      and col: "mat_wf (df_randomColumn df)" "mrows (df_randomColumn df) = mcols (msp_matrix ?m)" "mcols (df_randomColumn df) = 1"
      "\<And>c. c < mcols (msp_matrix ?m) \<Longrightarrow> ent (df_randomColumn df) c 0 = dealt_column secret prng c"
    show ?thesis
    proof (rule lift_commits [OF col, of "fs_group s"])
      fix v
      assume "Lift (ScalarOp (fs_group s)) (Some (df_randomColumn df)) (Generator (fs_group s)) = Inr (vv_value v)"
        "NewVerificationVector (Some (vv_value v)) (Some ?m) = Inr v"
      then show ?thesis using df by (simp add: feldman_Deal_def feldman_DealAndRevealDealerFunc_def is_ok_iff)
    qed
  qed
qed

section \<open>The scheme as an implementation of the interface\<close>

interpretation feldman_vss: vss feldman_wf feldman_Deal feldman_DealRandom feldman_Reconstruct feldman_CanReconstruct
  feldman_Shareholders feldman_Verify feldman_ReconstructAndVerify
proof (unfold_locales, goal_cases)
  case (1 d w prng shares rest)
  then obtain v where "feldman_Deal d (Some w) (Some prng) = Inr (shares, v, rest)" by auto
  from kw_sss.dealt [OF _ feldman_Deal_dealt(1) [OF 1(1) this]] 1(1) show ?case
    by (simp add: feldman_wf_def kw_Shareholders_def feldman_Shareholders_def)
next
  case (2 d w prng shares rest ids)
  then obtain v where "feldman_Deal d (Some w) (Some prng) = Inr (shares, v, rest)" by auto
  from kw_sss.reconstruct [OF _ feldman_Deal_dealt(1) [OF 2(1) this] 2(3,4)] 2(1,5) show ?case
    by (simp add: feldman_wf_def feldman_Reconstruct_def feldman_CanReconstruct_def CanReconstruct_def
        feldman_Shareholders_def kw_Shareholders_def)
next
  case (3 d prng shares w rest)
  then obtain q v df vm where "DealAndRevealDealerFunc (fs_lsss d) (Some w) (Some q) = Inr (shares, df, rest)"
    "Lift (ScalarOp (fs_group d)) (Some (df_randomColumn df)) (Generator (fs_group d)) = Inr vm"
    "NewVerificationVector (Some vm) (Some (kw_msp (fs_lsss d))) = Inr v"
    by (auto simp: feldman_DealRandom_def feldman_DealRandomAndRevealDealerFunc_def DealRandomAndRevealDealerFunc_def)
  then have "feldman_Deal d (Some w) (Some q) = Inr (shares, v, rest)"
    by (simp add: feldman_Deal_def feldman_DealAndRevealDealerFunc_def)
  then show ?case by (intro exI [of _ q]) simp
next
  case (7 d w prng shares v rest i)
  let ?m = "kw_msp (fs_lsss d)"
  note dealt = feldman_Deal_dealt [OF 7(1,2)]
  have wf: "prime_group (fs_group d)" "msp_wf ?m" "kw_wf ?m" using 7(1) by (simp_all add: feldman_wf_def kw_wf_def)
  have i: "i \<in> msp_holders ?m" using 7(3) msp_Shareholders_holders [OF wf(2)] by (simp add: feldman_Shareholders_def)
  have "map_of shares i = Some (row_share ?m (row_value ?m (dealt_column w prng)) i)"
    by (rule kw_Deal_share [OF wf(3) dealt(1) i])
  then show ?case
    using feldman_Verify_iff [OF wf(1,2) dealt(2), of "row_share ?m (row_value ?m (dealt_column w prng)) i"] i by simp
qed (simp_all add: feldman_Deal_def feldman_DealAndRevealDealerFunc_def DealAndRevealDealerFunc_def feldman_DealRandom_def
    feldman_DealRandomAndRevealDealerFunc_def DealRandomAndRevealDealerFunc_def feldman_ReconstructAndVerify_def feldman_Verify_def
    split: option.split)

section \<open>Reconstruction in the exponent\<close>

lemma lifted_by_row_eq:
  assumes "msp_wf m" "set ids \<subseteq> msp_holders m"
  shows "lifted_by_row m (map (lifted_row_share m f) ids) = shareColumn_lambda m (map (row_share m f) ids)"
  using assms(2)
proof (induction ids rule: rev_induct)
  case (snoc x xs)
  obtain rs where rs: "map_of (holdersToRows m) x = Some rs" "sort (hs_List rs) = map int (rows_for m {x})"
    by (rule holder_rows [OF assms(1), of x]) (use snoc.prems in auto)
  with snoc show ?case
    by (simp add: lifted_by_row_def shareColumn_lambda_def FoldOrError_append lifted_row_share_def row_share_def)
qed (simp add: lifted_by_row_def shareColumn_lambda_def)

lemma FoldOrError_sum:
  fixes a :: "'g::ab_group_add"
  assumes "\<And>i r. (i, r) \<in> set ps \<Longrightarrow> g i r = Inr (h i r)"
  shows "FoldOrError (\<lambda>acc (i, r). rbind (g i r) (\<lambda>c. Inr (acc + k i r c))) a ps = Inr (a + (\<Sum>(i, r)\<leftarrow>ps. k i r (h i r)))"
  using assms by (induction ps arbitrary: a) (auto simp: add.assoc)

lemma lifted_combine:
  fixes x :: "nat \<Rightarrow> 'a::field" and g :: "'g::ab_group_add"
  assumes "prime_group G"
  shows "(\<Sum>k\<in>A. ScalarOp G (ScalarOp G g (lam k)) (x k)) = ScalarOp G g (\<Sum>k\<in>A. x k * lam k)"
  using assms by (simp add: scalar_sum scalar_laws)

lemma sum_zip_upt: "(\<Sum>(i, r)\<leftarrow>zip [0..<length xs] xs. f i r) = (\<Sum>k<length xs. f k (xs ! k))"
proof -
  have "map (\<lambda>(i, r). f i r) (zip [0..<length xs] xs) = map (\<lambda>k. f k (xs ! k)) [0..<length xs]"
    by (rule nth_equalityI) simp_all
  then show ?thesis by (metis sum_list_upt)
qed

lemma ReconstructInTheExponent_rows:
  fixes m :: "('a::field) MSP" and G :: "('g::ab_group_add, 'a) PrimeGroup"
  assumes G: "prime_group G" and wf: "msp_wf m" and ids: "ids \<noteq> []" "distinct ids" "set ids \<subseteq> msp_holders m"
  shows "ReconstructInTheExponent \<lparr>fs_group = G, fs_lsss = \<lparr>kw_msp = m\<rparr>\<rparr>
      (map (\<lambda>sid. Some (lifted_row_share m (\<lambda>i. ScalarOp G g (row_value m r i)) sid)) ids) =
    (if Accepts m ids then Inr (ScalarOp G g (r 0)) else Inl ErrFailed)"
proof -
  let ?f = "\<lambda>i. ScalarOp G g (row_value m r i)" and ?rows = "rows_for m (set ids)"
  let ?shares = "map (\<lambda>sid. Some (lifted_row_share m ?f sid)) ids"
  have col: "CollectIDs ls_id ?shares = Inr ids" by (simp add: CollectIDs_map_Some lifted_row_share_def)
  obtain l where l: "shareColumn_lambda m (map (row_share m ?f) ids) = Inr l" "distinct (map fst l)"
    "map_of l = (\<lambda>r. if r \<in> int ` set ?rows then Some (?f (nat r)) else None)"
    using shareColumn_lambda_ok [OF wf ids(3), of ?f] by auto
  have "set (map fst l) = int ` set ?rows"
    using dom_map_of_conv_image_fst [of l] by (auto simp: l(3) dom_def split: if_splits)
  then have srt: "sort (map fst l) = map int ?rows" by (rule sort_rows [OF l(2)])
  have len: "length l = length ?rows" using arg_cong [OF srt, of length] by simp
  have "ReconstructInTheExponent \<lparr>fs_group = G, fs_lsss = \<lparr>kw_msp = m\<rparr>\<rparr> ?shares =
      rbind (ReconstructionVector m ids) (\<lambda>x. FoldOrError (\<lambda>result (i, r). rbind (mat_Get x (int i) 0) (\<lambda>coeff.
        Inr (result + ScalarOp G (the (map_of l r)) coeff))) 0 (zip [0..<length ?rows] (map int ?rows)))"
    using ids(1) col l(1) lifted_by_row_eq [OF wf ids(3), of ?f] len
    by (simp add: ReconstructInTheExponent_def comp_def srt Let_def)
  moreover have "FoldOrError (\<lambda>result (i, r). rbind (mat_Get x (int i) 0) (\<lambda>coeff.
        Inr (result + ScalarOp G (the (map_of l r)) coeff))) 0 (zip [0..<length ?rows] (map int ?rows)) = Inr (ScalarOp G g (r 0))"
    if x: "ReconstructionVector m ids = Inr x" for x
  proof -
    have xs: "mat_wf x" "mrows x = length ?rows" "mcols x = 1"
      "\<And>c. c < mcols (msp_matrix m) \<Longrightarrow> (\<Sum>k<length ?rows. ent x k 0 * ent (msp_matrix m) (?rows ! k) c) = (if c = 0 then 1 else 0)"
      using ReconstructionVector_spec [OF wf ids(1,3)] x by simp_all
    have "FoldOrError (\<lambda>result (i, r). rbind (mat_Get x (int i) 0) (\<lambda>coeff.
        Inr (result + ScalarOp G (the (map_of l r)) coeff))) 0 (zip [0..<length (map int ?rows)] (map int ?rows)) =
        Inr (0 + (\<Sum>(i, r)\<leftarrow>zip [0..<length (map int ?rows)] (map int ?rows). ScalarOp G (the (map_of l r)) (ent x i 0)))"
      by (rule FoldOrError_sum) (auto simp: mat_Get_def xs(2,3) ent_def set_zip)
    also have "(\<Sum>(i, r)\<leftarrow>zip [0..<length (map int ?rows)] (map int ?rows). ScalarOp G (the (map_of l r)) (ent x i 0)) =
        (\<Sum>k<length ?rows. ScalarOp G (ScalarOp G g (row_value m r (?rows ! k))) (ent x k 0))"
      unfolding sum_zip_upt by (rule sum.cong) (simp_all add: l(3))
    also have "\<dots> = ScalarOp G g (\<Sum>k<length ?rows. ent x k 0 * row_value m r (?rows ! k))"
      by (rule lifted_combine [OF G])
    also have "(\<Sum>k<length ?rows. ent x k 0 * row_value m r (?rows ! k)) = r 0"
      by (rule combine_rows [OF _ refl xs(4)]) (use wf in \<open>simp_all add: msp_wf_def mat_wf_def\<close>)
    finally show ?thesis by simp
  qed
  moreover note ReconstructionVector_spec [OF wf ids(1,3)]
  ultimately show ?thesis
    by (cases "ReconstructionVector m ids") (simp_all add: Accepts_def)
qed

lemma ConvertLifted_value:
  fixes m :: "('a::field) MSP" and G :: "('g::ab_group_add, 'a) PrimeGroup"
  assumes G: "prime_group G" and wf: "msp_wf m" and u: "Unanimity_wf u" "set (un_ps u) \<subseteq> msp_holders m" and sid: "sid \<in> set (un_ps u)"
    and x: "ReconstructionVector m (un_ps u) = Inr x"
  shows "ConvertLiftedShareToAdditive \<lparr>fs_group = G, fs_lsss = \<lparr>kw_msp = m\<rparr>\<rparr>
      (Some (lifted_row_share m (\<lambda>i. ScalarOp G g (lam i)) sid)) (Some u) =
    Inr \<lparr>ash_id = sid, ash_v = ScalarOp G g (\<Sum>i\<in>set (rows_for m {sid}). ent x (row_pos m (set (un_ps u)) i) 0 * lam i)\<rparr>"
proof -
  let ?q = "un_ps u" and ?R = "rows_for m (set (un_ps u))" and ?r = "rows_for m {sid}"
  let ?pos = "row_pos m (set ?q)"
  have q: "distinct ?q" "0 \<notin> set ?q" "?q \<noteq> []" using u(1) by (auto simp: Unanimity_wf_def hs_wf_def hs_Size_def)
  have h: "sid \<in> msp_holders m" using u(2) sid by auto
  have xs: "mrows x = length ?R" "mcols x = 1" using ReconstructionVector_spec [OF wf q(3) u(2)] x by simp_all
  have sub: "i \<in> set ?R" if "i \<in> set ?r" for i using that sid by (auto simp: rows_for_def)
  obtain rows where rows: "FoldOrError (\<lambda>rows sid. case map_of (holdersToRows m) sid of
      None \<Rightarrow> Inl ErrMembership | Some rs \<Rightarrow> Inr (rows @ hs_List rs)) [] ?q = Inr rows" "sort rows = map int ?R"
    using quorum_rows [OF wf q(1) u(2)] by blast
  obtain rs where rs: "map_of (holdersToRows m) sid = Some rs" "sort (hs_List rs) = map int ?r"
    by (rule holder_rows [OF wf h]) blast
  have pos: "\<not> length ?R \<le> ?pos (?r ! i)" if "i < length ?r" for i
    using row_pos(2) [OF sub [OF nth_mem [OF that]]] by simp
  let ?v = "map (\<lambda>i. ScalarOp G g (lam i)) ?r"
  have "FoldOrError (\<lambda>result (i, absRow). case BinarySearch (map int ?R) absRow of (pos, found) \<Rightarrow>
      if \<not> found then Inl ErrFailed else rbind (mat_Get x (int pos) 0) (\<lambda>coeff. Inr (result + ScalarOp G (?v ! i) coeff)))
      0 (zip [0..<length ?r] (map int ?r)) =
    FoldOrError (\<lambda>result (i, absRow). rbind (mat_Get x (int (?pos (nat absRow))) 0) (\<lambda>coeff. Inr (result + ScalarOp G (?v ! i) coeff)))
      0 (zip [0..<length ?r] (map int ?r))"
    by (rule FoldOrError_cong) (auto simp: set_zip row_pos(1) [OF sub])
  also have "\<dots> = Inr (0 + (\<Sum>(i, absRow)\<leftarrow>zip [0..<length (map int ?r)] (map int ?r). ScalarOp G (?v ! i) (ent x (?pos (nat absRow)) 0)))"
    unfolding length_map by (rule FoldOrError_sum) (auto simp: mat_Get_def xs ent_def set_zip pos)
  also have "(\<Sum>(i, absRow)\<leftarrow>zip [0..<length (map int ?r)] (map int ?r). ScalarOp G (?v ! i) (ent x (?pos (nat absRow)) 0)) =
      (\<Sum>k<length ?r. ScalarOp G (ScalarOp G g (lam (?r ! k))) (ent x (?pos (?r ! k)) 0))"
    unfolding sum_zip_upt by (rule sum.cong) simp_all
  also have "\<dots> = ScalarOp G g (\<Sum>k<length ?r. ent x (?pos (?r ! k)) 0 * lam (?r ! k))"
    by (rule lifted_combine [OF G])
  also have "(\<Sum>k<length ?r. ent x (?pos (?r ! k)) 0 * lam (?r ! k)) = (\<Sum>i\<in>set ?r. ent x (?pos i) 0 * lam i)"
    using sum_rows_for [where f = "\<lambda>k i. ent x (?pos i) 0 * lam i" and m = m and A = "{sid}"] by simp
  finally show ?thesis
    using sid x rows rs holder_has_rows [OF h] holder_nonzero [OF wf h]
    by (simp add: ConvertLiftedShareToAdditive_def Unanimity_Shareholders_def hs_List_def Let_def lifted_row_share_def
        additive_NewShare_def NewAdditiveShare_def cong: if_cong)
qed

lemma ConvertLifted_sum:
  fixes m :: "('a::field) MSP" and G :: "('g::ab_group_add, 'a) PrimeGroup"
  assumes G: "prime_group G" and wf: "msp_wf m" and u: "Unanimity_wf u" "set (un_ps u) \<subseteq> msp_holders m" "Accepts m (un_ps u)"
  shows "\<exists>as. MapOrError (\<lambda>i. ConvertLiftedShareToAdditive \<lparr>fs_group = G, fs_lsss = \<lparr>kw_msp = m\<rparr>\<rparr> 
      (Some (lifted_row_share m (\<lambda>i. ScalarOp G g (row_value m r i)) i)) (Some u)) (un_ps u) = Inr as \<and>
    additive_Reconstruct \<lparr>ad_ac = u\<rparr> (map Some as) = Inr (ScalarOp G g (r 0))"
proof -
  let ?q = "un_ps u" and ?val = "\<lambda>x i. \<Sum>j\<in>set (rows_for m {i}). ent x (row_pos m (set (un_ps u)) j) 0 * row_value m r j"
  have q: "distinct ?q" "?q \<noteq> []" using u(1) by (auto simp: Unanimity_wf_def hs_wf_def hs_Size_def)
  obtain x where x: "ReconstructionVector m ?q = Inr x" using u(3) by (auto simp: Accepts_def is_ok_iff)
  have "MapOrError (\<lambda>i. ConvertLiftedShareToAdditive \<lparr>fs_group = G, fs_lsss = \<lparr>kw_msp = m\<rparr>\<rparr> 
      (Some (lifted_row_share m (\<lambda>i. ScalarOp G g (row_value m r i)) i)) (Some u)) ?q =
      Inr (map (\<lambda>i. \<lparr>ash_id = i, ash_v = ScalarOp G g (?val x i)\<rparr>) ?q)"
    by (rule MapOrError_ok) (rule ConvertLifted_value [OF G wf u(1,2) _ x])
  moreover have "additive_Reconstruct \<lparr>ad_ac = u\<rparr> (map Some (map (\<lambda>i. \<lparr>ash_id = i, ash_v = ScalarOp G g (?val x i)\<rparr>) ?q)) =
      Inr (\<Sum>i\<leftarrow>?q. ScalarOp G g (?val x i))"
    using additive_Reconstruct_values [OF u(1) q(1), of "\<lambda>i. ScalarOp G g (?val x i)"] by (simp add: comp_def)
  moreover have "(\<Sum>i\<leftarrow>?q. ScalarOp G g (?val x i)) = ScalarOp G g (\<Sum>i\<leftarrow>?q. ?val x i)"
    unfolding sum_list_distinct_conv_sum_set [OF q(1)] by (rule scalar_sum [OF G, symmetric])
  moreover have "(\<Sum>i\<leftarrow>?q. ?val x i) = r 0" by (rule additive_values_sum [OF wf q u(2) x refl])
  ultimately show ?thesis by simp
qed

lemma LiftedSecret_ok:
  fixes m :: "('a::field) MSP" and G :: "('g::ab_group_add, 'a) PrimeGroup"
  assumes G: "prime_group G" and wf: "msp_wf m" and v: "commits G m v r"
  obtains d where "NewLiftedDealerFunc G (Some v) (Some m) = Inr d" "ldf_LiftedSecret G d = Inr (ScalarOp G (Generator G) (r 0))"
    "\<And>sid. sid \<in> msp_holders m \<Longrightarrow> ldf_ShareOf d sid = Inr (lifted_row_share m (\<lambda>i. ScalarOp G (Generator G) (row_value m r i)) sid)"
proof -
  let ?g = "Generator G" and ?D = "mcols (msp_matrix m)"
  have M: "mat_wf (msp_matrix m)" "0 < ?D" using wf by (simp_all add: msp_wf_def mat_wf_def)
  have row: "(\<Sum>c<?D. ScalarOp G (ent (vv_value v) c 0) (ent (msp_matrix m) i c)) = ScalarOp G ?g (row_value m r i)" for i
    by (rule lifted_row [OF G]) (use v in \<open>simp add: commits_def\<close>)
  obtain d where d: "NewLiftedDealerFunc G (Some v) (Some m) = Inr d" "ldf_verificationVector d = v" "ldf_mspMatrix d = m"
    "sid \<in> msp_holders m \<Longrightarrow> ldf_ShareOf d sid = Inr (lifted_row_share m (\<lambda>i. ScalarOp G ?g (row_value m r i)) sid)" for sid
    using NewLiftedDealerFunc_ok [OF wf, of v G] v by (simp add: commits_def ldf_ShareOf_ok [OF wf] row [symmetric] del: One_nat_def)
  obtain t where t: "msp_TargetVector m = Inr t" "mat_wf t" "mrows t = 1" "mcols t = ?D"
    "\<And>c. c < ?D \<Longrightarrow> ent t 0 c = (if c = 0 then 1 else 0)"
    by (rule msp_TargetVector_ok [OF M(1)]) (rule that, blast+)
  have act: "LeftAction (ScalarOp G) (Some t) (Some (vv_value v)) =
      Inr (mat_fill 1 1 (\<lambda>i j. \<Sum>k<?D. ScalarOp G (ent (vv_value v) k j) (ent t i k)))"
    using LeftAction_ok [of t "vv_value v" "ScalarOp G"] t(3,4) v by (simp add: commits_def)
  have "(\<Sum>k<?D. ScalarOp G (ent (vv_value v) k 0) (ent t 0 k)) = ScalarOp G ?g (r 0)"
    using M(2) t(5) v by (subst sum_single [of 0]) (auto simp: commits_def scalar_laws [OF G])
  then have "mat_Get (mat_fill 1 1 (\<lambda>i j. \<Sum>k<?D. ScalarOp G (ent (vv_value v) k j) (ent t i k))) 0 0 = Inr (ScalarOp G ?g (r 0))"
    by (simp add: mat_Get_def mat_fill_def mat_idx_def)
  then have "ldf_LiftedSecret G d = Inr (ScalarOp G ?g (r 0))"
    using act t(1) d(2,3) by (simp add: ldf_LiftedSecret_def)
  with d(1,4) show thesis by (intro that)
qed

section \<open>Properties\<close>

text \<open>A verification vector published by an honest dealer accepts exactly the dealt shares: \<open>Verify\<close> succeeds on a
  share if and only if it is the one the dealer gave to its holder, for a group of prime order and a programme
  built by \<open>NewMSP\<close> with at least two columns.\<close>

theorem feldman_verification:
  fixes M :: "('a::field) Matrix" and G :: "('g::ab_group_add, 'a) PrimeGroup"
  assumes G: "prime_group G" and m: "NewMSP (Some M) (Some r2h) = Inr m" "mat_wf M" "distinct (map fst r2h)" "2 \<le> mcols M"
    and deal: "feldman_Deal \<lparr>fs_group = G, fs_lsss = \<lparr>kw_msp = m\<rparr>\<rparr> (Some secret) (Some prng) = Inr (shares, v, rest)"
  shows "feldman_Verify \<lparr>fs_group = G, fs_lsss = \<lparr>kw_msp = m\<rparr>\<rparr> (Some sh) (Some v) = Inr () \<longleftrightarrow> map_of shares (sh_id sh) = Some sh"
proof -
  note wf = NewMSP_wf [OF m(1-3)]
  have fw: "feldman_wf \<lparr>fs_group = G, fs_lsss = \<lparr>kw_msp = m\<rparr>\<rparr>" "kw_wf m" using G wf m(4) by (simp_all add: feldman_wf_def kw_wf_def)
  note dealt = feldman_Deal_dealt [OF fw(1) deal, simplified]
  have "map_of shares i = (if i \<in> msp_holders m then Some (row_share m (row_value m (dealt_column secret prng)) i) else None)" for i
    using kw_Deal_dealt [OF _ dealt(1)] fw(2) msp_Shareholders_holders [OF wf(1)] by (simp add: map_of_map_restrict)
  then show ?thesis using feldman_Verify_iff [OF G wf(1) dealt(2), of sh] by auto
qed

text \<open>C5. Feldman sharing is binding even against the dealer: for every verification vector, honest or not, there is
  one secret such that \<open>ReconstructAndVerify\<close> returns that secret or an error on all lists of shares, it does
  return it on shares that verify and whose distinct holders the programme accepts, and then the secret is the
  discrete logarithm of the first entry of the vector.\<close>

theorem feldman_binding:
  fixes M :: "('a::field) Matrix" and G :: "('g::ab_group_add, 'a) PrimeGroup"
  assumes G: "prime_group G" and m: "NewMSP (Some M) (Some r2h) = Inr m" "mat_wf M" "distinct (map fst r2h)"
  defines "s \<equiv> \<lparr>fs_group = G, fs_lsss = \<lparr>kw_msp = m\<rparr>\<rparr>"
  shows "\<exists>w. (\<forall>shs w'. feldman_ReconstructAndVerify s (Some v) shs = Inr w' \<longrightarrow>
      w' = w \<and> ScalarOp G (Generator G) w = ent (vv_value v) 0 0) \<and>
    (\<forall>shs. (\<forall>sh\<in>set shs. feldman_Verify s (Some sh) (Some v) = Inr ()) \<and> distinct (map sh_id shs) \<and> Accepts m (map sh_id shs) \<longrightarrow>
      feldman_ReconstructAndVerify s (Some v) (map Some shs) = Inr w)"
proof (cases "mcols (vv_value v) = 1 \<and> mrows (vv_value v) = mcols (msp_matrix m)")
  case True
  note wf = NewMSP_wf [OF m]
  obtain r where r: "commits G m v r" by (rule commits_ex [OF G, of v m]) (use True in auto)
  have ok: "feldman_Verify s (Some sh) (Some v) = Inr () \<longleftrightarrow> sh_id sh \<in> msp_holders m \<and> sh = row_share m (row_value m r) (sh_id sh)" for sh
    unfolding s_def by (rule feldman_Verify_iff [OF G wf(1) r])
  have shs: "map Some shs = map (\<lambda>sid. Some (row_share m (row_value m r) sid)) (map sh_id shs)" "set (map sh_id shs) \<subseteq> msp_holders m"
    if "\<forall>sh\<in>set shs. feldman_Verify s (Some sh) (Some v) = Inr ()" for shs
    using that by (auto simp: ok)
  have D: "0 < mcols (msp_matrix m)" using wf(1) by (simp add: msp_wf_def mat_wf_def)
  have "w' = r 0" if "feldman_ReconstructAndVerify s (Some v) sl = Inr w'" for sl w'
  proof -
    from that have ver: "\<forall>sh\<in>set sl. feldman_Verify s sh (Some v) = Inr ()" and rec: "kw_Reconstruct \<lparr>kw_msp = m\<rparr> sl = Inr w'"
      by (auto simp: feldman_ReconstructAndVerify_def FoldOrError_check feldman_Reconstruct_def s_def rbind_eq_Inr_iff)
    have "None \<notin> set sl" using ver by (auto simp: feldman_Verify_def)
    then have sl: "sl = map Some (map the sl)" by (induction sl) auto
    then have "\<forall>sh\<in>set (map the sl). feldman_Verify s (Some sh) (Some v) = Inr ()" using ver by (metis imageI image_set)
    note shs [OF this]
    with rec sl show ?thesis using kw_Reconstruct_only [OF wf(1), of "map sh_id (map the sl)" r w'] by simp
  qed
  moreover have "ScalarOp G (Generator G) (r 0) = ent (vv_value v) 0 0" using r D by (simp add: commits_def)
  moreover have "feldman_ReconstructAndVerify s (Some v) (map Some ss) = Inr (r 0)"
    if ss: "\<forall>sh\<in>set ss. feldman_Verify s (Some sh) (Some v) = Inr ()" "distinct (map sh_id ss)" "Accepts m (map sh_id ss)" for ss
  proof -
    have ne: "map sh_id ss \<noteq> []" using Accepts_iff [OF wf(1)] ss(3) by auto
    have "FoldOrError (\<lambda>_ sh. feldman_Verify s sh (Some v)) () (map Some ss) = Inr ()" using ss(1) by (auto simp: FoldOrError_check)
    then show ?thesis
      using kw_Reconstruct_rows [OF wf(1) ne ss(2) shs(2) [OF ss(1)], of "row_value m r" r, folded shs(1) [OF ss(1)]] ss(3)
      by (simp add: feldman_ReconstructAndVerify_def feldman_Reconstruct_def s_def)
  qed
  ultimately show ?thesis by blast
next
  case False
  note wf = NewMSP_wf [OF m]
  have none: "feldman_Verify s sh (Some v) \<noteq> Inr ()" for sh
    using feldman_Verify_only [OF wf(1), of G sh v] False by (auto simp: s_def)
  have "\<not> is_ok (feldman_ReconstructAndVerify s (Some v) sl)" for sl
  proof (cases sl)
    case Nil
    then show ?thesis by (simp add: feldman_ReconstructAndVerify_def feldman_Reconstruct_def kw_Reconstruct_def)
  next
    case (Cons a xs)
    then show ?thesis using none by (intro feldman_vss.unverified_rejected [of a]) simp_all
  qed
  moreover have "\<not> Accepts m (map sh_id [])" using Accepts_iff [OF wf(1)] by simp
  ultimately show ?thesis using none by (metis is_ok_simps(1) list.set_intros(1) list.exhaust)
qed

text \<open>Working with lifted shares mirrors working with shares: the lifted dealer function of a dealt verification
  vector has the lift of the secret as its secret, and on the lifted shares of any coalition
  \<open>ReconstructInTheExponent\<close> returns that lift when the programme accepts the coalition and fails otherwise, as
  does summing the additive shares that \<open>ConvertLiftedShareToAdditive\<close> gives an accepted quorum.\<close>

theorem feldman_exponent:
  fixes M :: "('a::field) Matrix" and G :: "('g::ab_group_add, 'a) PrimeGroup"
  assumes G: "prime_group G" and m: "NewMSP (Some M) (Some r2h) = Inr m" "mat_wf M" "distinct (map fst r2h)" "2 \<le> mcols M"
    and deal: "feldman_Deal \<lparr>fs_group = G, fs_lsss = \<lparr>kw_msp = m\<rparr>\<rparr> (Some secret) (Some prng) = Inr (shares, v, rest)"
  shows "\<exists>d. NewLiftedDealerFunc G (Some v) (Some m) = Inr d \<and> ldf_LiftedSecret G d = Inr (ScalarOp G (Generator G) secret) \<and>
    (\<forall>ids. ids \<noteq> [] \<and> distinct ids \<and> set ids \<subseteq> snd ` set r2h \<longrightarrow> (\<exists>ls. MapOrError (ldf_ShareOf d) ids = Inr ls \<and>
      ReconstructInTheExponent \<lparr>fs_group = G, fs_lsss = \<lparr>kw_msp = m\<rparr>\<rparr> (map Some ls) =
        (if Accepts m ids then Inr (ScalarOp G (Generator G) secret) else Inl ErrFailed))) \<and>
    (\<forall>u. Unanimity_wf u \<and> Accepts m (un_ps u) \<longrightarrow> (\<exists>ls as. MapOrError (ldf_ShareOf d) (un_ps u) = Inr ls \<and>
      MapOrError (\<lambda>l. ConvertLiftedShareToAdditive \<lparr>fs_group = G, fs_lsss = \<lparr>kw_msp = m\<rparr>\<rparr> (Some l) (Some u)) ls = Inr as \<and>
      additive_Reconstruct \<lparr>ad_ac = u\<rparr> (map Some as) = Inr (ScalarOp G (Generator G) secret)))"
proof -
  note wf = NewMSP_wf [OF m(1-3)]
  let ?g = "Generator G" and ?r = "dealt_column secret prng"
  let ?share = "lifted_row_share m (\<lambda>i. ScalarOp G ?g (row_value m ?r i))"
  have fw: "feldman_wf \<lparr>fs_group = G, fs_lsss = \<lparr>kw_msp = m\<rparr>\<rparr>" using G wf m(4) by (simp add: feldman_wf_def kw_wf_def)
  have v: "commits G m v ?r" using feldman_Deal_dealt(2) [OF fw deal] by simp
  have sec: "?r 0 = secret" by (simp add: dealt_column_def)
  have holders: "snd ` set r2h = msp_holders m" using label_holders [OF wf(1)] by (simp add: wf(3))
  obtain d where d: "NewLiftedDealerFunc G (Some v) (Some m) = Inr d" "ldf_LiftedSecret G d = Inr (ScalarOp G ?g secret)"
    "\<And>sid. sid \<in> msp_holders m \<Longrightarrow> ldf_ShareOf d sid = Inr (?share sid)"
    by (rule LiftedSecret_ok [OF G wf(1) v, unfolded sec]) (rule that, blast+)
  have acc: "set ids \<subseteq> msp_holders m" if "Accepts m ids" for ids using that Accepts_iff [OF wf(1)] by blast
  have shares: "MapOrError (ldf_ShareOf d) ids = Inr (map ?share ids)" if "set ids \<subseteq> msp_holders m" for ids
    by (rule MapOrError_ok) (use d(3) that in auto)
  have rec: "ReconstructInTheExponent \<lparr>fs_group = G, fs_lsss = \<lparr>kw_msp = m\<rparr>\<rparr> (map Some (map ?share ids)) =
      (if Accepts m ids then Inr (ScalarOp G ?g secret) else Inl ErrFailed)" if "ids \<noteq> []" "distinct ids" "set ids \<subseteq> msp_holders m" for ids
    using ReconstructInTheExponent_rows [OF G wf(1) that, of ?g ?r] by (simp add: sec comp_def)
  have conv: "\<exists>as. MapOrError (\<lambda>l. ConvertLiftedShareToAdditive \<lparr>fs_group = G, fs_lsss = \<lparr>kw_msp = m\<rparr>\<rparr> (Some l) (Some u))
        (map ?share (un_ps u)) = Inr as \<and>
      additive_Reconstruct \<lparr>ad_ac = u\<rparr> (map Some as) = Inr (ScalarOp G ?g secret)" if "Unanimity_wf u" "Accepts m (un_ps u)" for u
    using ConvertLifted_sum [OF G wf(1) that(1) acc [OF that(2)] that(2), of ?g ?r] unfolding sec MapOrError_map .
  show ?thesis
    unfolding holders
    by (intro exI [of _ d] conjI d(1,2) allI impI) (use shares rec in blast, use shares acc conv in blast)
qed

subsection \<open>An instance\<close>

lemma feldman_example:
  obtains m shares v rest where
    "NewMSP (Some \<lparr>mrows = 2, mcols = 2, mdata = [1, 1, 1, 2 :: rat]\<rparr>) (Some [(0, 5), (1, 9)]) = Inr m"
    "mat_wf \<lparr>mrows = 2, mcols = 2, mdata = [1, 1, 1, 2 :: rat]\<rparr>" "distinct (map fst [(0 :: int, 5 :: ID), (1, 9)])"
    "2 \<le> mcols \<lparr>mrows = 2, mcols = 2, mdata = [1, 1, 1, 2 :: rat]\<rparr>"
    "feldman_Deal \<lparr>fs_group = field_group, fs_lsss = \<lparr>kw_msp = m\<rparr>\<rparr> (Some 42) (Some [8, 1]) = Inr (shares, v, rest)"
proof -
  let ?M = "\<lparr>mrows = 2, mcols = 2, mdata = [1, 1, 1, 2 :: rat]\<rparr>" and ?r = "[(0, 5), (1, 9)] :: (int \<times> ID) list"
  obtain m where m: "NewMSP (Some ?M) (Some ?r) = Inr m" by (simp add: NewMSP_def upt_rec)
  have c: "mat_wf ?M" "distinct (map fst ?r)" "2 \<le> mcols ?M" by (simp_all add: mat_wf_def)
  note wf = NewMSP_wf [OF m c(1,2)]
  have "feldman_wf \<lparr>fs_group = field_group, fs_lsss = \<lparr>kw_msp = m\<rparr>\<rparr>"
    using wf c(3) field_group by (simp add: feldman_wf_def kw_wf_def)
  then have "is_ok (feldman_Deal \<lparr>fs_group = field_group, fs_lsss = \<lparr>kw_msp = m\<rparr>\<rparr> (Some 42) (Some [8, 1]))"
    by (rule feldman_Deal_ok) (simp add: wf(2))
  with m c show thesis by (auto simp: is_ok_iff intro: that)
qed

theorem feldman_verification_witness:
  "\<exists>m shares v rest. NewMSP (Some \<lparr>mrows = 2, mcols = 2, mdata = [1, 1, 1, 2 :: rat]\<rparr>) (Some [(0, 5), (1, 9)]) = Inr m \<and>
     feldman_Deal \<lparr>fs_group = field_group, fs_lsss = \<lparr>kw_msp = m\<rparr>\<rparr> (Some 42) (Some [8, 1]) = Inr (shares, v, rest) \<and>
     (feldman_Verify \<lparr>fs_group = field_group, fs_lsss = \<lparr>kw_msp = m\<rparr>\<rparr> (Some \<lparr>sh_id = 5, sh_v = [7]\<rparr>) (Some v) = Inr () \<longleftrightarrow>
       map_of shares 5 = Some \<lparr>sh_id = 5, sh_v = [7]\<rparr>)"
  by (rule feldman_example)
    (use feldman_verification [OF field_group, where sh = "\<lparr>sh_id = 5, sh_v = [7]\<rparr>"] in \<open>fastforce simp del: One_nat_def\<close>)

theorem feldman_binding_witness:
  "\<exists>m w. NewMSP (Some \<lparr>mrows = 2, mcols = 2, mdata = [1, 1, 1, 2 :: rat]\<rparr>) (Some [(0, 5), (1, 9)]) = Inr m \<and>
     (\<forall>shs w'. feldman_ReconstructAndVerify \<lparr>fs_group = field_group, fs_lsss = \<lparr>kw_msp = m\<rparr>\<rparr>
        (Some \<lparr>vv_value = \<lparr>mrows = 2, mcols = 1, mdata = [42, 3]\<rparr>\<rparr>) shs = Inr w' \<longrightarrow> w' = w)"
  by (rule feldman_example)
    (use feldman_binding [OF field_group, where v = "\<lparr>vv_value = \<lparr>mrows = 2, mcols = 1, mdata = [42, 3]\<rparr>\<rparr>"] in blast)

theorem feldman_exponent_witness:
  "\<exists>m shares v rest d. NewMSP (Some \<lparr>mrows = 2, mcols = 2, mdata = [1, 1, 1, 2 :: rat]\<rparr>) (Some [(0, 5), (1, 9)]) = Inr m \<and>
     feldman_Deal \<lparr>fs_group = field_group, fs_lsss = \<lparr>kw_msp = m\<rparr>\<rparr> (Some 42) (Some [8, 1]) = Inr (shares, v, rest) \<and>
     NewLiftedDealerFunc field_group (Some v) (Some m) = Inr d \<and> ldf_LiftedSecret field_group d = Inr (ScalarOp field_group 1 42)"
proof (rule feldman_example)
  fix m shares v rest
  assume a: "NewMSP (Some \<lparr>mrows = 2, mcols = 2, mdata = [1, 1, 1, 2 :: rat]\<rparr>) (Some [(0, 5), (1, 9)]) = Inr m"
    "mat_wf \<lparr>mrows = 2, mcols = 2, mdata = [1, 1, 1, 2 :: rat]\<rparr>" "distinct (map fst [(0 :: int, 5 :: ID), (1, 9)])"
    "2 \<le> mcols \<lparr>mrows = 2, mcols = 2, mdata = [1, 1, 1, 2 :: rat]\<rparr>"
    "feldman_Deal \<lparr>fs_group = field_group, fs_lsss = \<lparr>kw_msp = m\<rparr>\<rparr> (Some 42) (Some [8, 1]) = Inr (shares, v, rest)"
  have gen: "Generator (field_group :: (rat, rat) PrimeGroup) = 1" by (simp add: field_group_def)
  from feldman_exponent [OF field_group a] a(1,5) show ?thesis unfolding gen by blast
qed

end
