(* ===== verification/PedersenVSS.thy ===== *)
theory PedersenVSS
  imports Feldman Commitments
begin

text \<open>
  Pedersen's verifiable sharing (\<open>pkg/mpc/sharing/vss/pedersen\<close>): the secret and a random blinding value are dealt
  with the Karchmer-Wigderson scheme, the dealer publishes the sum of the two random columns lifted to the two
  generators of a Pedersen key, and a share is checked by comparing commitments to its components with the action
  of the holder's rows on the published column. Nil pointers are \<open>None\<close>.
\<close>

section \<open>Shares\<close>

record 'a PedersenShare =
  ps_id :: ID
  ps_secret :: "'a list"
  ps_blinding :: "'a list"

definition pvss_NewShare :: "ID \<Rightarrow> 'a KWShare option \<Rightarrow> 'a KWShare option \<Rightarrow> 'a PedersenShare res" where
  "pvss_NewShare sid secret blinding =
     (if sid = 0 then Inl ErrIsZero
      else case secret of
        None \<Rightarrow> Inl ErrIsNil
      | Some s \<Rightarrow>
          (case blinding of
             None \<Rightarrow> Inl ErrIsNil
           | Some b \<Rightarrow>
               if length (sh_v s) \<noteq> length (sh_v b) then Inl ErrFailed
               else rbind (MapOrError (\<lambda>v. NewMessage (Some v)) (sh_v s)) (\<lambda>messages.
                 rbind (MapOrError (\<lambda>v. NewWitness (Some v)) (sh_v b)) (\<lambda>witnesses.
                   Inr \<lparr>ps_id = sid, ps_secret = messages, ps_blinding = witnesses\<rparr>))))"

definition ps_Op :: "('a::field) PedersenShare \<Rightarrow> 'a PedersenShare \<Rightarrow> 'a PedersenShare res" where
  "ps_Op s other =
     (if ps_id s \<noteq> ps_id other then Inl Panic
      else if length (ps_secret s) \<noteq> length (ps_secret other) \<or> length (ps_blinding s) \<noteq> length (ps_blinding other) then Inl Panic
      else if length (ps_blinding s) < length (ps_secret s) then Inl Panic
      else Inr \<lparr>ps_id = ps_id s,
        ps_secret = map (\<lambda>i. ps_secret s ! i + ps_secret other ! i) [0..<length (ps_secret s)],
        ps_blinding = map (\<lambda>i. ps_blinding s ! i + ps_blinding other ! i) [0..<length (ps_secret s)]\<rparr>)"

definition ps_Equal :: "'a PedersenShare option \<Rightarrow> 'a PedersenShare option \<Rightarrow> bool" where
  "ps_Equal s other =
     (case (s, other) of
        (Some x, Some y) \<Rightarrow>
          if ps_id x \<noteq> ps_id y then False
          else if length (ps_secret x) \<noteq> length (ps_secret y) \<or> length (ps_blinding x) \<noteq> length (ps_blinding y) then False
          else list_all (\<lambda>i. ps_secret x ! i = ps_secret y ! i \<and> ps_blinding x ! i = ps_blinding y ! i) [0..<length (ps_secret x)]
      | (None, None) \<Rightarrow> True
      | _ \<Rightarrow> False)"

definition ps_MarshalCBOR :: "(ID \<times> 'a option list \<times> 'a option list \<Rightarrow> 'b res) \<Rightarrow> 'a PedersenShare \<Rightarrow> 'b res" where
  "ps_MarshalCBOR enc s = enc (ps_id s, map Some (ps_secret s), map Some (ps_blinding s))"

definition ps_UnmarshalCBOR :: "('b \<Rightarrow> (ID \<times> 'a option list \<times> 'a option list) res) \<Rightarrow> 'b \<Rightarrow> 'a PedersenShare res" where
  "ps_UnmarshalCBOR dec data =
     rbind (dec data) (\<lambda>(sid, secret, blinding).
       if sid = 0 then Inl ErrIsZero
       else if length secret = 0 then Inl ErrIsNil
       else if length blinding = 0 then Inl ErrIsNil
       else if length secret \<noteq> length blinding then Inl ErrFailed
       else if list_ex (\<lambda>m. m = None) secret then Inl ErrIsNil
       else if list_ex (\<lambda>w. w = None) blinding then Inl ErrIsNil
       else Inr \<lparr>ps_id = sid, ps_secret = map the secret, ps_blinding = map the blinding\<rparr>)"

text \<open>Lifted shares carry commitments; a zero identifier is reported as \<open>ErrIsNil\<close>.\<close>

definition pvss_NewLiftedShare :: "ID \<Rightarrow> 'g list \<Rightarrow> 'g LiftedShare res" where
  "pvss_NewLiftedShare sid v =
     (if length v = 0 then Inl ErrIsNil
      else if sid = 0 then Inl ErrIsNil
      else Inr \<lparr>ls_id = sid, ls_v = v\<rparr>)"

text \<open>Indexing the blinding components past their end panics.\<close>

definition pvss_LiftShare ::
  "'a PedersenShare option \<Rightarrow> ('g::ab_group_add, 'a) CommitmentKey option \<Rightarrow> 'g LiftedShare res" where
  "pvss_LiftShare share key =
     (case share of
        None \<Rightarrow> Inl ErrIsNil
      | Some s \<Rightarrow>
          (case key of
             None \<Rightarrow> Inl ErrIsNil
           | Some k \<Rightarrow>
               rbind (MapOrError (\<lambda>i. if length (ps_blinding s) \<le> i then Inl Panic
                   else ck_CommitWithWitness k (Some (ps_secret s ! i)) (Some (ps_blinding s ! i)))
                 [0..<length (ps_secret s)]) (\<lambda>v.
               pvss_NewLiftedShare (ps_id s) v)))"

section \<open>Dealer functions\<close>

record 'a PedersenDealerFunc =
  pdf_g :: "'a DealerFunc"
  pdf_h :: "'a DealerFunc"

definition pvss_NewDealerFunc :: "'a DealerFunc option \<Rightarrow> 'a DealerFunc option \<Rightarrow> 'a PedersenDealerFunc res" where
  "pvss_NewDealerFunc g h =
     (case g of None \<Rightarrow> Inl ErrIsNil
      | Some g \<Rightarrow> (case h of None \<Rightarrow> Inl ErrIsNil | Some h \<Rightarrow> Inr \<lparr>pdf_g = g, pdf_h = h\<rparr>))"

definition pdf_ShareOf :: "'a PedersenDealerFunc \<Rightarrow> ID \<Rightarrow> 'a PedersenShare res" where
  "pdf_ShareOf df sid =
     rbind (ShareOf (pdf_g df) sid) (\<lambda>secretShare.
     rbind (ShareOf (pdf_h df) sid) (\<lambda>blindingShare.
       pvss_NewShare sid (Some secretShare) (Some blindingShare)))"

definition pdf_Secret :: "('a::field) PedersenDealerFunc \<Rightarrow> 'a res" where
  "pdf_Secret df = df_Secret (pdf_g df)"

definition pvss_LiftDealerFunc ::
  "'a PedersenDealerFunc option \<Rightarrow> ('g::ab_group_add, 'a) CommitmentKey option \<Rightarrow> ('g, 'a) LiftedDealerFunc res" where
  "pvss_LiftDealerFunc df key =
     (case df of
        None \<Rightarrow> Inl ErrIsNil
      | Some df \<Rightarrow>
          (case key of
             None \<Rightarrow> Inl ErrIsNil
           | Some k \<Rightarrow>
               rbind (LiftDealerFunc (ck_group k) (Some (pdf_g df)) (Some (ck_g k))) (\<lambda>g.
               rbind (LiftDealerFunc (ck_group k) (Some (pdf_h df)) (Some (ck_h k))) (\<lambda>h.
               rbind (vv_Op (Some (ldf_verificationVector g)) (Some (ldf_verificationVector h))) (\<lambda>sumVV.
                 NewLiftedDealerFunc (ck_group k) (Some sumVV) (Some (ldf_mspMatrix g)))))))"

definition pldf_ShareOf :: "('g, 'a) LiftedDealerFunc \<Rightarrow> ID \<Rightarrow> 'g LiftedShare res" where
  "pldf_ShareOf df sid =
     rbind (ldf_ShareOf df sid) (\<lambda>kwShare.
     rbind (MapOrError (\<lambda>v. NewCommitment (Some v)) (ls_v kwShare)) (\<lambda>v.
       Inr \<lparr>ls_id = sid, ls_v = v\<rparr>))"

section \<open>The scheme\<close>

record ('g, 'a) PedersenScheme =
  pvss_key :: "('g, 'a) CommitmentKey"
  pvss_lsss :: "'a KWScheme"

definition pvss_CanReconstruct :: "('g, 'a::field) PedersenScheme \<Rightarrow> ID list \<Rightarrow> bool" where
  "pvss_CanReconstruct s ids = Accepts (kw_msp (pvss_lsss s)) ids"

definition pvss_Shareholders :: "('g, 'a) PedersenScheme \<Rightarrow> ID hset" where
  "pvss_Shareholders s = msp_Shareholders (kw_msp (pvss_lsss s))"

definition pvss_DealAndRevealDealerFunc ::
  "('g::ab_group_add, 'a::field) PedersenScheme \<Rightarrow> 'a option \<Rightarrow> 'a list option \<Rightarrow>
     ((ID \<times> 'a PedersenShare) list \<times> 'g VerificationVector \<times> 'a PedersenDealerFunc \<times> 'a list) res" where
  "pvss_DealAndRevealDealerFunc s secret prng =
     (if secret = None then Inl ErrIsNil
      else if prng = None then Inl ErrIsNil
      else
        rbind (DealAndRevealDealerFunc (pvss_lsss s) secret prng) (\<lambda>(secretShares, secretsDealerFunc, prng).
        rbind (DealRandomAndRevealDealerFunc (pvss_lsss s) (Some prng)) (\<lambda>(blindingShares, blinding, blindingDealerFunc, prng).
        rbind (pvss_NewDealerFunc (Some secretsDealerFunc) (Some blindingDealerFunc)) (\<lambda>dealerFunc.
        rbind (pvss_LiftDealerFunc (Some dealerFunc) (Some (pvss_key s))) (\<lambda>liftedDealerFunc.
        rbind (FoldOrError (\<lambda>shares (sid, secretShare).
            case map_of blindingShares sid of
              None \<Rightarrow> Inl ErrFailed
            | Some blindingShare \<Rightarrow>
                rbind (pvss_NewShare sid (Some secretShare) (Some blindingShare)) (\<lambda>share.
                  Inr (AList.update sid share shares)))
          [] secretShares) (\<lambda>shares.
          Inr (shares, ldf_verificationVector liftedDealerFunc, dealerFunc, prng)))))))"

definition pvss_Deal ::
  "('g::ab_group_add, 'a::field) PedersenScheme \<Rightarrow> 'a option \<Rightarrow> 'a list option \<Rightarrow>
     ((ID \<times> 'a PedersenShare) list \<times> 'g VerificationVector \<times> 'a list) res" where
  "pvss_Deal s secret prng =
     rbind (pvss_DealAndRevealDealerFunc s secret prng) (\<lambda>(shares, v, df, prng). Inr (shares, v, prng))"

definition pvss_DealRandomAndRevealDealerFunc ::
  "('g::ab_group_add, 'a::field) PedersenScheme \<Rightarrow> 'a list option \<Rightarrow>
     ((ID \<times> 'a PedersenShare) list \<times> 'g VerificationVector \<times> 'a \<times> 'a PedersenDealerFunc \<times> 'a list) res" where
  "pvss_DealRandomAndRevealDealerFunc s prng =
     (case prng of
        None \<Rightarrow> Inl ErrIsNil
      | Some prng \<Rightarrow>
          rbind (draw 1 prng) (\<lambda>(value, prng).
          rbind (pvss_DealAndRevealDealerFunc s (Some (value ! 0)) (Some prng)) (\<lambda>(shares, v, df, prng).
            Inr (shares, v, value ! 0, df, prng))))"

definition pvss_DealRandom ::
  "('g::ab_group_add, 'a::field) PedersenScheme \<Rightarrow> 'a list option \<Rightarrow>
     ((ID \<times> 'a PedersenShare) list \<times> 'g VerificationVector \<times> 'a \<times> 'a list) res" where
  "pvss_DealRandom s prng =
     rbind (pvss_DealRandomAndRevealDealerFunc s prng) (\<lambda>(shares, v, secret, df, prng). Inr (shares, v, secret, prng))"

text \<open>\<open>Reconstruct\<close> and \<open>ConvertShareToAdditive\<close> read the fields of the shares, which panics on a nil share.\<close>

definition secret_share :: "'a PedersenShare option \<Rightarrow> 'a KWShare res" where
  "secret_share share = (case share of None \<Rightarrow> Inl Panic | Some s \<Rightarrow> kw_NewShare (ps_id s) (ps_secret s))"

definition pvss_Reconstruct :: "('g, 'a::field) PedersenScheme \<Rightarrow> 'a PedersenShare option list \<Rightarrow> 'a res" where
  "pvss_Reconstruct s shares =
     rbind (MapOrError secret_share shares) (\<lambda>secretShares. kw_Reconstruct (pvss_lsss s) (map Some secretShares))"

definition pvss_Verify ::
  "('g::ab_group_add, 'a) PedersenScheme \<Rightarrow> 'a PedersenShare option \<Rightarrow> 'g VerificationVector option \<Rightarrow> unit res" where
  "pvss_Verify s share vector =
     (case share of
        None \<Rightarrow> Inl ErrIsNil
      | Some sh \<Rightarrow>
          (case vector of
             None \<Rightarrow> Inl ErrIsNil
           | Some v \<Rightarrow>
               rbind (NewLiftedDealerFunc (ck_group (pvss_key s)) vector (Some (kw_msp (pvss_lsss s)))) (\<lambda>liftedDealerFunc.
               rbind (pldf_ShareOf liftedDealerFunc (ps_id sh)) (\<lambda>liftedShare.
               rbind (pvss_LiftShare share (Some (pvss_key s))) (\<lambda>manuallyLiftedShare.
                 if \<not> ls_Equal (Some liftedShare) (Some manuallyLiftedShare) then Inl ErrVerification else Inr ())))))"

definition pvss_ReconstructAndVerify ::
  "('g::ab_group_add, 'a::field) PedersenScheme \<Rightarrow> 'g VerificationVector option \<Rightarrow> 'a PedersenShare option list \<Rightarrow> 'a res" where
  "pvss_ReconstructAndVerify s reference shares =
     rbind (FoldOrError (\<lambda>_ share. pvss_Verify s share reference) () shares) (\<lambda>_. pvss_Reconstruct s shares)"

definition pvss_ConvertShareToAdditive ::
  "('g, 'a::field) PedersenScheme \<Rightarrow> 'a PedersenShare option \<Rightarrow> Unanimity option \<Rightarrow> 'a AdditiveShare res" where
  "pvss_ConvertShareToAdditive s share quorum =
     rbind (secret_share share) (\<lambda>kwShare. ConvertShareToAdditive (pvss_lsss s) (Some kwShare) quorum)"

section \<open>Dealing\<close>

text \<open>The share of a holder when row \<open>i\<close> carries the value \<open>lam i\<close> and the blinding \<open>bet i\<close>, and the vector that
  commits to two columns.\<close>

definition ped_share :: "'m MSP \<Rightarrow> (nat \<Rightarrow> 'a) \<Rightarrow> (nat \<Rightarrow> 'a) \<Rightarrow> ID \<Rightarrow> 'a PedersenShare" where
  "ped_share m lam bet sid = \<lparr>ps_id = sid, ps_secret = map lam (rows_for m {sid}), ps_blinding = map bet (rows_for m {sid})\<rparr>"

definition ped_vector :: "('g::ab_group_add, 'a) CommitmentKey \<Rightarrow> nat \<Rightarrow> (nat \<Rightarrow> 'a) \<Rightarrow> (nat \<Rightarrow> 'a) \<Rightarrow> 'g VerificationVector" where
  "ped_vector k n r b = \<lparr>vv_value = mat_fill n 1 (\<lambda>c _. ScalarOp (ck_group k) (ck_g k) (r c) + ScalarOp (ck_group k) (ck_h k) (b c))\<rparr>"

definition pvss_wf :: "('g::ab_group_add, 'a::field) PedersenScheme \<Rightarrow> bool" where
  "pvss_wf s \<longleftrightarrow> ck_wf (pvss_key s) \<and> kw_wf (kw_msp (pvss_lsss s))"

lemma MapOrError_New [simp]:
  "MapOrError (\<lambda>v. NewMessage (Some v)) xs = Inr xs" "MapOrError (\<lambda>v. NewWitness (Some v)) xs = Inr xs"
  "MapOrError (\<lambda>v. NewCommitment (Some v)) gs = Inr gs"
  by (induction xs, simp_all add: NewMessage_def NewWitness_def) (induction gs, simp_all add: NewCommitment_def)

lemma pvss_NewShare_rows [simp]:
  "pvss_NewShare sid (Some (row_share m lam sid)) (Some (row_share m bet sid)) =
    (if sid = 0 then Inl ErrIsZero else Inr (ped_share m lam bet sid))"
  by (simp add: pvss_NewShare_def ped_share_def row_share_def)

lemma Op_columns:
  fixes f :: "nat \<Rightarrow> 'g::ab_group_add"
  shows "mat_OpAssign (mat_fill n 1 (\<lambda>c _. f c)) (mat_fill n 1 (\<lambda>c _. g c)) = Inr (mat_fill n 1 (\<lambda>c _. f c + g c))"
proof -
  have "zip_assign (+) (map f [0..<n]) (map g [0..<n]) = map (\<lambda>c. f c + g c) [0..<n]"
    by (rule nth_equalityI) (simp_all add: zip_assign_def)
  then show ?thesis by (simp add: mat_OpAssign_def mat_fill_def)
qed

lemma column_of_fill: "mcols r = 1 \<Longrightarrow> mrows r = n \<Longrightarrow> mat_wf r \<Longrightarrow> (\<And>c. c < n \<Longrightarrow> ent r c 0 = f c) \<Longrightarrow>
    mat_fill (mrows r) (mcols r) (\<lambda>i j. act (ent r i j)) = mat_fill n 1 (\<lambda>c _. act (f c))"
  by (simp add: mat_fill_def)

lemma pvss_lift_ok:
  fixes m :: "('a::field) MSP" and k :: "('g::ab_group_add, 'a) CommitmentKey"
  assumes wf: "msp_wf m"
    and df: "mat_wf (df_randomColumn df)" "mrows (df_randomColumn df) = mcols (msp_matrix m)" "mcols (df_randomColumn df) = 1"
      "\<And>c. c < mcols (msp_matrix m) \<Longrightarrow> ent (df_randomColumn df) c 0 = r c" "df_msp df = m"
      "mat_TryMul (msp_matrix m) (df_randomColumn df) = Inr (df_lambdaColumn df)"
    and dg: "mat_wf (df_randomColumn dg)" "mrows (df_randomColumn dg) = mcols (msp_matrix m)" "mcols (df_randomColumn dg) = 1"
      "\<And>c. c < mcols (msp_matrix m) \<Longrightarrow> ent (df_randomColumn dg) c 0 = b c" "df_msp dg = m"
      "mat_TryMul (msp_matrix m) (df_randomColumn dg) = Inr (df_lambdaColumn dg)"
  obtains ld where "pvss_LiftDealerFunc (Some \<lparr>pdf_g = df, pdf_h = dg\<rparr>) (Some k) = Inr ld"
    "ldf_verificationVector ld = ped_vector k (mcols (msp_matrix m)) r b"
proof -
  let ?D = "mcols (msp_matrix m)" and ?G = "ck_group k"
  have M: "mat_wf (msp_matrix m)" using wf by (simp add: msp_wf_def)
  have lam: "mat_wf (df_lambdaColumn df)" "mat_wf (df_lambdaColumn dg)"
    using mat_TryMul_ent(5) [OF df(6) M df(1)] mat_TryMul_ent(5) [OF dg(6) M dg(1)] by simp_all
  let ?gv = "mat_fill ?D 1 (\<lambda>c _. ScalarOp ?G (ck_g k) (r c))" and ?hv = "mat_fill ?D 1 (\<lambda>c _. ScalarOp ?G (ck_h k) (b c))"
  have lift: "\<exists>l. LiftDealerFunc ?G (Some df) (Some (ck_g k)) =
      Inr \<lparr>ldf_verificationVector = \<lparr>vv_value = ?gv\<rparr>, ldf_mspMatrix = m, ldf_liftedLambda = l\<rparr>"
    "\<exists>l. LiftDealerFunc ?G (Some dg) (Some (ck_h k)) =
      Inr \<lparr>ldf_verificationVector = \<lparr>vv_value = ?hv\<rparr>, ldf_mspMatrix = m, ldf_liftedLambda = l\<rparr>"
    using column_of_fill [OF df(3,2,1,4), of "ScalarOp ?G (ck_g k)"] column_of_fill [OF dg(3,2,1,4), of "ScalarOp ?G (ck_h k)"]
    by (simp_all add: LiftDealerFunc_def Lift_ok [OF df(1)] Lift_ok [OF dg(1)] Lift_ok [OF lam(1)] Lift_ok [OF lam(2)] df(5) dg(5) del: One_nat_def)
  have vv: "vv_Op (Some \<lparr>vv_value = ?gv\<rparr>) (Some \<lparr>vv_value = ?hv\<rparr>) = Inr (ped_vector k ?D r b)"
    using Op_columns [of ?D "\<lambda>c. ScalarOp ?G (ck_g k) (r c)" "\<lambda>c. ScalarOp ?G (ck_h k) (b c)"]
    by (simp add: vv_Op_def mat_simps ped_vector_def del: One_nat_def)
  obtain ld where ld: "NewLiftedDealerFunc ?G (Some (ped_vector k ?D r b)) (Some m) = Inr ld" "ldf_verificationVector ld = ped_vector k ?D r b"
    using NewLiftedDealerFunc_ok [OF wf, of "ped_vector k ?D r b" ?G] by (simp add: ped_vector_def mat_simps)
  have "pvss_LiftDealerFunc (Some \<lparr>pdf_g = df, pdf_h = dg\<rparr>) (Some k) = Inr ld"
    using lift vv ld(1) by (auto simp: pvss_LiftDealerFunc_def)
  then show thesis using ld(2) by (rule that)
qed

lemma pvss_share_loop:
  assumes "set xs \<subseteq> set hs" "distinct xs" "0 \<notin> set hs"
  shows "FoldOrError (\<lambda>shares (sid, secretShare).
      case map_of (map (\<lambda>sid. (sid, row_share m bet sid)) hs) sid of
        None \<Rightarrow> Inl ErrFailed
      | Some blindingShare \<Rightarrow> rbind (pvss_NewShare sid (Some secretShare) (Some blindingShare)) (\<lambda>share. Inr (AList.update sid share shares)))
      [] (map (\<lambda>sid. (sid, row_share m lam sid)) xs) = Inr (map (\<lambda>sid. (sid, ped_share m lam bet sid)) xs)"
  using assms(1,2)
proof (induction xs rule: rev_induct)
  case (snoc x xs)
  then have "x \<noteq> 0" "x \<in> set hs" using assms(3) by auto
  with snoc show ?case
    by (auto simp: FoldOrError_append map_of_map_restrict update_new_key image_image)
qed simp

lemma pvss_Reveal_ok:
  fixes m :: "('a::field) MSP" and k :: "('g::ab_group_add, 'a) CommitmentKey" and secret :: 'a
  assumes wf: "msp_wf m" and D: "2 \<le> mcols (msp_matrix m)" "2 * mcols (msp_matrix m) + 1 \<le> length prng"
  defines "r \<equiv> dealt_column secret prng"
    and "b \<equiv> dealt_column (prng ! mcols (msp_matrix m)) (drop (mcols (msp_matrix m) + 1) prng)"
  obtains df where "pvss_DealAndRevealDealerFunc \<lparr>pvss_key = k, pvss_lsss = \<lparr>kw_msp = m\<rparr>\<rparr> (Some secret) (Some prng) =
    Inr (map (\<lambda>sid. (sid, ped_share m (row_value m r) (row_value m b) sid)) (msp_Shareholders m),
      ped_vector k (mcols (msp_matrix m)) r b, df, drop (2 * mcols (msp_matrix m) + 1) prng)"
    "mat_wf (df_randomColumn (pdf_g df))" "mrows (df_randomColumn (pdf_g df)) = mcols (msp_matrix m)" "mcols (df_randomColumn (pdf_g df)) = 1"
    "\<And>c. c < mcols (msp_matrix m) \<Longrightarrow> ent (df_randomColumn (pdf_g df)) c 0 = r c"
    "mat_wf (df_randomColumn (pdf_h df))" "mrows (df_randomColumn (pdf_h df)) = mcols (msp_matrix m)" "mcols (df_randomColumn (pdf_h df)) = 1"
    "\<And>c. c < mcols (msp_matrix m) \<Longrightarrow> ent (df_randomColumn (pdf_h df)) c 0 = b c"
proof -
  let ?D = "mcols (msp_matrix m)" and ?q = "drop (mcols (msp_matrix m) + 1) prng" and ?L = "\<lparr>kw_msp = m\<rparr>"
  let ?hs = "msp_Shareholders m"
  have len: "?D \<le> length prng" "?D \<le> length ?q" using D(2) by simp_all
  obtain df where df: "DealAndRevealDealerFunc ?L (Some secret) (Some prng) =
      Inr (map (\<lambda>sid. (sid, row_share m (row_value m r) sid)) ?hs, df, drop ?D prng)"
    "mat_wf (df_randomColumn df)" "mrows (df_randomColumn df) = ?D" "mcols (df_randomColumn df) = 1"
    "\<And>c. c < ?D \<Longrightarrow> ent (df_randomColumn df) c 0 = r c" "df_msp df = m" "mat_TryMul (msp_matrix m) (df_randomColumn df) = Inr (df_lambdaColumn df)"
    by (rule DealAndReveal_ok [OF wf D(1) len(1), of secret, folded r_def]) (rule that; assumption)
  obtain dg where dg: "DealAndRevealDealerFunc ?L (Some (prng ! ?D)) (Some ?q) =
      Inr (map (\<lambda>sid. (sid, row_share m (row_value m b) sid)) ?hs, dg, drop ?D ?q)"
    "mat_wf (df_randomColumn dg)" "mrows (df_randomColumn dg) = ?D" "mcols (df_randomColumn dg) = 1"
    "\<And>c. c < ?D \<Longrightarrow> ent (df_randomColumn dg) c 0 = b c" "df_msp dg = m" "mat_TryMul (msp_matrix m) (df_randomColumn dg) = Inr (df_lambdaColumn dg)"
    by (rule DealAndReveal_ok [OF wf D(1) len(2), of "prng ! ?D", folded b_def]) (rule that; assumption)
  obtain ld where ld: "pvss_LiftDealerFunc (Some \<lparr>pdf_g = df, pdf_h = dg\<rparr>) (Some k) = Inr ld" "ldf_verificationVector ld = ped_vector k ?D r b"
    by (rule pvss_lift_ok [OF wf df(2-7) dg(2-7), of k])
  have draw: "draw 1 (drop ?D prng) = Inr ([prng ! ?D], ?q)"
    using D(2) draw_ok [of 1 "drop ?D prng"] by (simp add: take_Suc_conv_app_nth)
  have hs: "distinct ?hs" "0 \<notin> set ?hs" using msp_Shareholders_holders [OF wf] holder_nonzero [OF wf] by (auto simp: msp_Shareholders_def)
  note loop = pvss_share_loop [OF subset_refl hs, of m "row_value m b" "row_value m r"]
  show thesis
    by (rule that [of "\<lparr>pdf_g = df, pdf_h = dg\<rparr>"])
      (use loop df(1-5) dg(1-5) draw ld in \<open>simp_all add: pvss_DealAndRevealDealerFunc_def DealRandomAndRevealDealerFunc_def pvss_NewDealerFunc_def mult_2\<close>)
qed

lemma pvss_Deal_ok:
  fixes m :: "('a::field) MSP" and k :: "('g::ab_group_add, 'a) CommitmentKey" and secret :: 'a
  assumes wf: "msp_wf m" and D: "2 \<le> mcols (msp_matrix m)" "2 * mcols (msp_matrix m) + 1 \<le> length prng"
  defines "r \<equiv> dealt_column secret prng"
    and "b \<equiv> dealt_column (prng ! mcols (msp_matrix m)) (drop (mcols (msp_matrix m) + 1) prng)"
  shows "pvss_Deal \<lparr>pvss_key = k, pvss_lsss = \<lparr>kw_msp = m\<rparr>\<rparr> (Some secret) (Some prng) =
    Inr (map (\<lambda>sid. (sid, ped_share m (row_value m r) (row_value m b) sid)) (msp_Shareholders m),
      ped_vector k (mcols (msp_matrix m)) r b, drop (2 * mcols (msp_matrix m) + 1) prng)"
  by (rule pvss_Reveal_ok [OF wf D, of k secret]) (simp add: pvss_Deal_def r_def b_def)

lemma pvss_Deal_len:
  assumes "pvss_Deal s (Some secret) (Some prng) = Inr (shares, v, rest)"
  shows "2 * mcols (msp_matrix (kw_msp (pvss_lsss s))) + 1 \<le> length prng"
proof -
  let ?D = "mcols (msp_matrix (kw_msp (pvss_lsss s)))"
  have used: "?D \<le> length p \<and> q = drop ?D p" if "DealAndRevealDealerFunc (pvss_lsss s) (Some x) (Some p) = Inr (sh, df, q)" for x p sh df q
    using that by (auto simp: DealAndRevealDealerFunc_def NewColumnVectorModule_def NewMatrixModule_def mod_Random_def msp_D_def
        draw_Inr_iff split: if_splits)
  from assms obtain sh df p' sh' b df' q q' where runs: "DealAndRevealDealerFunc (pvss_lsss s) (Some secret) (Some prng) = Inr (sh, df, p')"
    "draw 1 p' = Inr (b, q)" "DealAndRevealDealerFunc (pvss_lsss s) (Some (b ! 0)) (Some q) = Inr (sh', df', q')"
    by (auto simp: pvss_Deal_def pvss_DealAndRevealDealerFunc_def DealRandomAndRevealDealerFunc_def)
  have "length p' = 1 + length q" using runs(2) by (auto simp: draw_Inr_iff)
  with used [OF runs(1)] used [OF runs(3)] show ?thesis by auto
qed

section \<open>Verification\<close>

lemma pvss_scheme_eta [simp]: "\<lparr>pvss_key = pvss_key s, pvss_lsss = pvss_lsss s\<rparr> = s"
  by (cases s) simp

lemma pldf_ShareOf_eq: "pldf_ShareOf df sid = ldf_ShareOf df sid"
proof (cases "ldf_ShareOf df sid")
  case (Inr l)
  then have "ls_id l = sid" by (auto simp: ldf_ShareOf_def split: option.splits)
  with Inr show ?thesis by (cases l) (simp add: pldf_ShareOf_def)
qed (simp add: pldf_ShareOf_def)

text \<open>Verification accepts a share if and only if its components open the combined rows of the vector.\<close>

lemma pvss_Verify_iff:
  fixes m :: "('a::field) MSP" and k :: "('g::ab_group_add, 'a) CommitmentKey"
  assumes wf: "msp_wf m" and v: "mcols (vv_value v) = 1" "mrows (vv_value v) = mcols (msp_matrix m)"
    and len: "length (ps_secret sh) = length (ps_blinding sh)"
  defines "row \<equiv> \<lambda>i. \<Sum>c<mcols (msp_matrix m). ScalarOp (ck_group k) (ent (vv_value v) c 0) (ent (msp_matrix m) i c)"
  shows "pvss_Verify \<lparr>pvss_key = k, pvss_lsss = \<lparr>kw_msp = m\<rparr>\<rparr> (Some sh) (Some v) = Inr () \<longleftrightarrow>
    ps_id sh \<in> msp_holders m \<and> length (ps_secret sh) = length (rows_for m {ps_id sh}) \<and>
    (\<forall>j<length (ps_secret sh). ck_CommitWithWitness k (Some (ps_secret sh ! j)) (Some (ps_blinding sh ! j)) = Inr (row (rows_for m {ps_id sh} ! j)))"
proof -
  let ?com = "\<lambda>j. ScalarOp (ck_group k) (ck_g k) (ps_secret sh ! j) + ScalarOp (ck_group k) (ck_h k) (ps_blinding sh ! j)"
  let ?rows = "rows_for m {ps_id sh}"
  obtain d where d: "NewLiftedDealerFunc (ck_group k) (Some v) (Some m) = Inr d"
    "ldf_ShareOf d sid = (if sid \<in> msp_holders m then Inr (lifted_row_share m row sid) else Inl ErrMembership)" for sid
    using NewLiftedDealerFunc_ok [OF wf v(1), of "ck_group k"] v by (simp add: ldf_ShareOf_ok [OF wf] row_def del: One_nat_def)
  have "MapOrError (\<lambda>i. if length (ps_blinding sh) \<le> i then Inl Panic
      else ck_CommitWithWitness k (Some (ps_secret sh ! i)) (Some (ps_blinding sh ! i))) [0..<length (ps_secret sh)] =
      Inr (map ?com [0..<length (ps_secret sh)])"
    by (rule MapOrError_ok) (simp add: len)
  then have "pvss_Verify \<lparr>pvss_key = k, pvss_lsss = \<lparr>kw_msp = m\<rparr>\<rparr> (Some sh) (Some v) = Inr () \<longleftrightarrow>
      ps_id sh \<in> msp_holders m \<and> ps_secret sh \<noteq> [] \<and> map row ?rows = map ?com [0..<length (ps_secret sh)]"
    using d holder_nonzero [OF wf, of "ps_id sh"]
    by (auto simp: pvss_Verify_def pldf_ShareOf_eq pvss_LiftShare_def pvss_NewLiftedShare_def lifted_row_share_def rbind_eq_Inr_iff)
  also have "map row ?rows = map ?com [0..<length (ps_secret sh)] \<longleftrightarrow>
      length (ps_secret sh) = length ?rows \<and> (\<forall>j<length (ps_secret sh). ?com j = row (?rows ! j))"
    unfolding list_eq_iff_nth_eq by auto
  also have "ps_id sh \<in> msp_holders m \<and> ps_secret sh \<noteq> [] \<and> length (ps_secret sh) = length ?rows \<and> (\<forall>j<length (ps_secret sh). ?com j = row (?rows ! j)) \<longleftrightarrow>
      ps_id sh \<in> msp_holders m \<and> length (ps_secret sh) = length ?rows \<and> (\<forall>j<length (ps_secret sh). ?com j = row (?rows ! j))"
    using holder_has_rows [of "ps_id sh" m] by (metis length_0_conv)
  finally show ?thesis by simp
qed

lemma ped_row:
  fixes m :: "('a::field) MSP"
  assumes G: "prime_group (ck_group k)"
  shows "(\<Sum>c<mcols (msp_matrix m). ScalarOp (ck_group k) (ent (vv_value (ped_vector k (mcols (msp_matrix m)) r b)) c 0) (ent (msp_matrix m) i c)) =
    ScalarOp (ck_group k) (ck_g k) (row_value m r i) + ScalarOp (ck_group k) (ck_h k) (row_value m b i)"
proof -
  let ?D = "mcols (msp_matrix m)" and ?G = "ck_group k"
  have "(\<Sum>c<?D. ScalarOp ?G (ent (vv_value (ped_vector k ?D r b)) c 0) (ent (msp_matrix m) i c)) =
      (\<Sum>c<?D. ScalarOp ?G (ScalarOp ?G (ck_g k) (r c)) (ent (msp_matrix m) i c) + ScalarOp ?G (ScalarOp ?G (ck_h k) (b c)) (ent (msp_matrix m) i c))"
    by (intro sum.cong refl) (simp add: ped_vector_def mat_simps scalar_laws(2) [OF G])
  moreover have "(\<Sum>c<?D. ScalarOp ?G (ScalarOp ?G g (f c)) (ent (msp_matrix m) i c)) = ScalarOp ?G g (row_value m f i)" for g f
    by (rule lifted_row [OF G]) simp
  ultimately show ?thesis by (simp add: sum.distrib)
qed

lemma pvss_dealt_verifies:
  fixes m :: "('a::field) MSP" and k :: "('g::ab_group_add, 'a) CommitmentKey"
  assumes wf: "msp_wf m" "ck_wf k" and i: "i \<in> msp_holders m"
  shows "pvss_Verify \<lparr>pvss_key = k, pvss_lsss = \<lparr>kw_msp = m\<rparr>\<rparr> (Some (ped_share m (row_value m r) (row_value m b) i))
    (Some (ped_vector k (mcols (msp_matrix m)) r b)) = Inr ()"
proof -
  have G: "prime_group (ck_group k)" using wf(2) by (simp add: ck_wf_def)
  have v: "mcols (vv_value (ped_vector k (mcols (msp_matrix m)) r b)) = 1"
    "mrows (vv_value (ped_vector k (mcols (msp_matrix m)) r b)) = mcols (msp_matrix m)" by (simp_all add: ped_vector_def mat_simps)
  show ?thesis
    by (subst pvss_Verify_iff [OF wf(1) v]) (use i in \<open>simp_all add: ped_share_def ped_row [OF G]\<close>)
qed

lemma secret_shares:
  assumes "msp_wf m" "set ids \<subseteq> msp_holders m"
  shows "MapOrError secret_share (map (\<lambda>sid. Some (ped_share m lam bet sid)) ids) = Inr (map (row_share m lam) ids)"
  unfolding MapOrError_map
  by (rule MapOrError_ok)
    (use assms holder_has_rows [of _ m] holder_nonzero [OF assms(1)] in \<open>auto simp: secret_share_def ped_share_def kw_NewShare_def row_share_def\<close>)

lemma pvss_Deal_dealt:
  assumes wf: "pvss_wf s" and deal: "pvss_Deal s (Some secret) (Some prng) = Inr (shares, v, rest)"
  obtains b where "shares = map (\<lambda>sid. (sid, ped_share (kw_msp (pvss_lsss s)) (row_value (kw_msp (pvss_lsss s)) (dealt_column secret prng))
      (row_value (kw_msp (pvss_lsss s)) b) sid)) (msp_Shareholders (kw_msp (pvss_lsss s)))"
    "v = ped_vector (pvss_key s) (mcols (msp_matrix (kw_msp (pvss_lsss s)))) (dealt_column secret prng) b"
proof -
  let ?m = "kw_msp (pvss_lsss s)"
  have m: "msp_wf ?m" "2 \<le> mcols (msp_matrix ?m)" using wf by (simp_all add: pvss_wf_def kw_wf_def)
  from pvss_Deal_ok [OF m pvss_Deal_len [OF deal], of "pvss_key s" secret] deal show thesis by (intro that) simp_all
qed

section \<open>The scheme as an implementation of the interface\<close>

interpretation pvss_vss: vss pvss_wf pvss_Deal pvss_DealRandom pvss_Reconstruct pvss_CanReconstruct pvss_Shareholders
  pvss_Verify pvss_ReconstructAndVerify
proof (unfold_locales, goal_cases)
  case (1 d w prng shares rest)
  then obtain v where deal: "pvss_Deal d (Some w) (Some prng) = Inr (shares, v, rest)" by auto
  show ?case
    by (rule pvss_Deal_dealt [OF 1(1) deal]) (simp add: pvss_Shareholders_def msp_Shareholders_def comp_def image_image)
next
  case (2 d w prng shares rest ids)
  let ?m = "kw_msp (pvss_lsss d)"
  from 2 obtain v where deal: "pvss_Deal d (Some w) (Some prng) = Inr (shares, v, rest)" by auto
  have wf: "msp_wf ?m" and ids: "set ids \<subseteq> msp_holders ?m"
    using 2 msp_Shareholders_holders [of ?m] by (auto simp: pvss_wf_def kw_wf_def pvss_Shareholders_def)
  obtain b where sh: "shares = map (\<lambda>sid. (sid, ped_share ?m (row_value ?m (dealt_column w prng)) (row_value ?m b) sid)) (msp_Shareholders ?m)"
    by (rule pvss_Deal_dealt [OF 2(1) deal])
  have "kw_Reconstruct \<lparr>kw_msp = ?m\<rparr> (map (\<lambda>sid. Some (row_share ?m (row_value ?m (dealt_column w prng)) sid)) ids) =
      (if Accepts ?m ids then Inr (dealt_column w prng 0) else Inl ErrFailed)"
    by (rule kw_Reconstruct_rows [OF wf 2(3,4) ids]) simp
  then show ?case
    unfolding sh dealt_shares [OF wf ids] pvss_Reconstruct_def secret_shares [OF wf ids]
    by (simp add: pvss_CanReconstruct_def dealt_column_def comp_def)
next
  case (3 d prng shares w rest)
  then obtain q v df where "pvss_DealAndRevealDealerFunc d (Some w) (Some q) = Inr (shares, v, df, rest)"
    by (auto simp: pvss_DealRandom_def pvss_DealRandomAndRevealDealerFunc_def)
  then have "pvss_Deal d (Some w) (Some q) = Inr (shares, v, rest)" by (simp add: pvss_Deal_def)
  then show ?case by (intro exI [of _ q]) simp
next
  case (7 d w prng shares v rest i)
  let ?m = "kw_msp (pvss_lsss d)"
  have wf: "msp_wf ?m" "ck_wf (pvss_key d)" using 7(1) by (simp_all add: pvss_wf_def kw_wf_def)
  have i: "i \<in> msp_holders ?m" using 7(3) msp_Shareholders_holders [OF wf(1)] by (simp add: pvss_Shareholders_def)
  show ?case
    by (rule pvss_Deal_dealt [OF 7(1,2)]) (use pvss_dealt_verifies [OF wf i] i in \<open>simp add: dealt_share [OF wf(1)]\<close>)
qed (simp_all add: pvss_Deal_def pvss_DealAndRevealDealerFunc_def pvss_DealRandom_def pvss_DealRandomAndRevealDealerFunc_def
    pvss_ReconstructAndVerify_def pvss_Verify_def split: option.split)

section \<open>Binding and hiding\<close>

definition blinding_share :: "'a PedersenShare \<Rightarrow> 'a KWShare" where
  "blinding_share sh = \<lparr>sh_id = ps_id sh, sh_v = ps_blinding sh\<rparr>"

text \<open>The combination of commitments to rows is a commitment to the combination.\<close>

lemma combine_commitments:
  fixes m :: "('a::field) MSP"
  assumes G: "prime_group G" and D: "0 < mcols (msp_matrix m)"
    and x: "\<And>c. c < mcols (msp_matrix m) \<Longrightarrow> (\<Sum>k<length rows. x k * ent (msp_matrix m) (rows ! k) c) = (if c = 0 then 1 else 0)"
    and com: "\<And>k. k < length rows \<Longrightarrow> ScalarOp G g (lam (rows ! k)) + ScalarOp G h (bet (rows ! k)) =
      (\<Sum>c<mcols (msp_matrix m). ScalarOp G (v c) (ent (msp_matrix m) (rows ! k) c))"
  shows "ScalarOp G g (\<Sum>k<length rows. x k * lam (rows ! k)) + ScalarOp G h (\<Sum>k<length rows. x k * bet (rows ! k)) = v 0"
proof -
  let ?D = "mcols (msp_matrix m)" and ?M = "msp_matrix m"
  have "ScalarOp G g (\<Sum>k<length rows. x k * lam (rows ! k)) + ScalarOp G h (\<Sum>k<length rows. x k * bet (rows ! k)) =
      (\<Sum>k<length rows. ScalarOp G (ScalarOp G g (lam (rows ! k)) + ScalarOp G h (bet (rows ! k))) (x k))"
    by (simp add: lifted_combine [OF G, symmetric] scalar_laws(2) [OF G] sum.distrib)
  also have "\<dots> = (\<Sum>k<length rows. \<Sum>c<?D. ScalarOp G (v c) (x k * ent ?M (rows ! k) c))"
    by (intro sum.cong refl) (simp add: com scalar_op_sum [OF G] scalar_laws(3) [OF G])
  also have "\<dots> = (\<Sum>c<?D. ScalarOp G (v c) (\<Sum>k<length rows. x k * ent ?M (rows ! k) c))"
    by (subst sum.swap) (simp add: scalar_sum [OF G])
  also have "\<dots> = (\<Sum>c<?D. ScalarOp G (v c) (if c = 0 then 1 else 0))" using x by simp
  also have "\<dots> = v 0" using D by (subst sum_single [of 0]) (auto simp: scalar_laws [OF G])
  finally show ?thesis .
qed

lemma pvss_Verify_only:
  assumes wf: "msp_wf m" and ok: "pvss_Verify \<lparr>pvss_key = k, pvss_lsss = \<lparr>kw_msp = m\<rparr>\<rparr> sh (Some v) = Inr ()"
  shows "mcols (vv_value v) = 1 \<and> mrows (vv_value v) = mcols (msp_matrix m)"
proof -
  from ok obtain d where "NewLiftedDealerFunc (ck_group k) (Some v) (Some m) = Inr d"
    by (auto simp: pvss_Verify_def split: option.splits)
  then show ?thesis
    using NewLiftedDealerFunc_ok [OF wf, of v "ck_group k"] by (auto simp: NewLiftedDealerFunc_def mat_IsColumnVector_def split: if_splits)
qed

text \<open>Verified shares of distinct holders carry values and blindings by rows that open the rows of the vector.\<close>

lemma verified_values:
  fixes m :: "('a::field) MSP" and k :: "('g::ab_group_add, 'a) CommitmentKey"
  assumes wf: "msp_wf m" and v: "mcols (vv_value v) = 1" "mrows (vv_value v) = mcols (msp_matrix m)"
    and shs: "distinct (map ps_id shs)" "\<And>sh. sh \<in> set shs \<Longrightarrow> length (ps_secret sh) = length (ps_blinding sh)"
    and ver: "\<And>sh. sh \<in> set shs \<Longrightarrow> pvss_Verify \<lparr>pvss_key = k, pvss_lsss = \<lparr>kw_msp = m\<rparr>\<rparr> (Some sh) (Some v) = Inr ()"
  obtains lam bet where "ps_id ` set shs \<subseteq> msp_holders m" "shs = map (ped_share m lam bet) (map ps_id shs)"
    "\<And>i. i \<in> set (rows_for m (ps_id ` set shs)) \<Longrightarrow> ScalarOp (ck_group k) (ck_g k) (lam i) + ScalarOp (ck_group k) (ck_h k) (bet i) =
      (\<Sum>c<mcols (msp_matrix m). ScalarOp (ck_group k) (ent (vv_value v) c 0) (ent (msp_matrix m) i c))"
proof -
  let ?row = "\<lambda>i. \<Sum>c<mcols (msp_matrix m). ScalarOp (ck_group k) (ent (vv_value v) c 0) (ent (msp_matrix m) i c)"
  have ok: "ps_id sh \<in> msp_holders m" "length (ps_secret sh) = length (rows_for m {ps_id sh})"
    "\<And>j. j < length (ps_secret sh) \<Longrightarrow> ScalarOp (ck_group k) (ck_g k) (ps_secret sh ! j) + ScalarOp (ck_group k) (ck_h k) (ps_blinding sh ! j) = ?row (rows_for m {ps_id sh} ! j)"
    if "sh \<in> set shs" for sh
    using ver [OF that] pvss_Verify_iff [OF wf v shs(2) [OF that], of k] by simp_all
  let ?sec = "\<lambda>sh. \<lparr>sh_id = ps_id sh, sh_v = ps_secret sh\<rparr>"
  obtain lam where lam: "map ?sec shs = map (row_share m lam) (map ps_id shs)"
    by (rule shares_as_rows [OF wf, of "map ?sec shs"]) (use shs(1) ok(2) in \<open>auto simp: comp_def\<close>)
  obtain bet where bet: "map blinding_share shs = map (row_share m bet) (map ps_id shs)"
    by (rule shares_as_rows [OF wf, of "map blinding_share shs"]) (use shs ok(2) in \<open>auto simp: comp_def blinding_share_def\<close>)
  have vals: "ps_secret sh = map lam (rows_for m {ps_id sh})" "ps_blinding sh = map bet (rows_for m {ps_id sh})" if "sh \<in> set shs" for sh
    using lam bet that by (auto simp: row_share_def blinding_share_def)
  have com: "ScalarOp (ck_group k) (ck_g k) (lam i) + ScalarOp (ck_group k) (ck_h k) (bet i) = ?row i"
    if i: "i \<in> set (rows_for m (ps_id ` set shs))" for i
  proof -
    obtain sh where sh: "sh \<in> set shs" "row_label m i = ps_id sh" using i by (auto simp: rows_for_def)
    then have "i \<in> set (rows_for m {ps_id sh})" using i by (auto simp: rows_for_def)
    then obtain j where "j < length (rows_for m {ps_id sh})" "rows_for m {ps_id sh} ! j = i" by (auto simp: in_set_conv_nth)
    with ok(3) [OF sh(1), of j] vals [OF sh(1)] show ?thesis by simp
  qed
  have "sh = ped_share m lam bet (ps_id sh)" if "sh \<in> set shs" for sh
    using vals [OF that] by (cases sh) (simp add: ped_share_def)
  then have "shs = map (ped_share m lam bet) (map ps_id shs)" by (simp add: map_idI [symmetric] comp_def)
  with com ok(1) show thesis by (intro that) auto
qed

text \<open>What verified shares reconstruct to opens the first entry of the vector, with the reconstructed blinding as
  the witness.\<close>

lemma pvss_opens:
  fixes m :: "('a::field) MSP" and k :: "('g::ab_group_add, 'a) CommitmentKey"
  assumes wf: "msp_wf m" "ck_wf k" and shs: "distinct (map ps_id shs)" "\<And>sh. sh \<in> set shs \<Longrightarrow> length (ps_secret sh) = length (ps_blinding sh)"
    and run: "pvss_ReconstructAndVerify \<lparr>pvss_key = k, pvss_lsss = \<lparr>kw_msp = m\<rparr>\<rparr> (Some v) (map Some shs) = Inr w"
  shows "\<exists>b. kw_Reconstruct \<lparr>kw_msp = m\<rparr> (map (\<lambda>sh. Some (blinding_share sh)) shs) = Inr b \<and>
    ck_Open k (Some (ent (vv_value v) 0 0)) (Some w) (Some b) = Inr ()"
proof -
  let ?s = "\<lparr>pvss_key = k, pvss_lsss = \<lparr>kw_msp = m\<rparr>\<rparr>" and ?ids = "map ps_id shs" and ?rows = "rows_for m (ps_id ` set shs)"
  have G: "prime_group (ck_group k)" and D: "0 < mcols (msp_matrix m)" using wf by (simp_all add: ck_wf_def msp_wf_def mat_wf_def)
  from run have ver: "\<And>sh. sh \<in> set shs \<Longrightarrow> pvss_Verify ?s (Some sh) (Some v) = Inr ()" and rec: "pvss_Reconstruct ?s (map Some shs) = Inr w"
    by (auto simp: pvss_ReconstructAndVerify_def FoldOrError_check rbind_eq_Inr_iff)
  have ne: "?ids \<noteq> []" using rec by (auto simp: pvss_Reconstruct_def kw_Reconstruct_def)
  then obtain s0 where "s0 \<in> set shs" by (cases shs) auto
  with ver pvss_Verify_only [OF wf(1)] have dims: "mcols (vv_value v) = 1" "mrows (vv_value v) = mcols (msp_matrix m)" by blast+
  obtain lam bet where rows: "ps_id ` set shs \<subseteq> msp_holders m" "shs = map (ped_share m lam bet) ?ids"
    "\<And>i. i \<in> set ?rows \<Longrightarrow> ScalarOp (ck_group k) (ck_g k) (lam i) + ScalarOp (ck_group k) (ck_h k) (bet i) =
      (\<Sum>c<mcols (msp_matrix m). ScalarOp (ck_group k) (ent (vv_value v) c 0) (ent (msp_matrix m) i c))"
    by (rule verified_values [OF wf(1) dims shs ver]) (assumption, assumption, (rule that; assumption))
  have holders: "set ?ids \<subseteq> msp_holders m" using rows(1) by simp
  have sh: "map Some shs = map (\<lambda>sid. Some (ped_share m lam bet sid)) ?ids" using arg_cong [OF rows(2), of "map Some"] by (simp add: comp_def)
  have "kw_Reconstruct \<lparr>kw_msp = m\<rparr> (map (\<lambda>sid. Some (row_share m lam sid)) ?ids) = Inr w"
    using rec unfolding pvss_Reconstruct_def sh secret_shares [OF wf(1) holders] by (simp add: comp_def)
  then obtain x where x: "ReconstructionVector m ?ids = Inr x" "w = (\<Sum>k<length ?rows. ent x k 0 * lam (?rows ! k))"
    using kw_Reconstruct_values [OF wf(1) ne shs(1) holders, of lam] by (cases "ReconstructionVector m ?ids") simp_all
  have xs: "(\<Sum>k<length ?rows. ent x k 0 * ent (msp_matrix m) (?rows ! k) c) = (if c = 0 then 1 else 0)" if "c < mcols (msp_matrix m)" for c
    using ReconstructionVector_spec [OF wf(1) ne holders] x(1) that by simp
  let ?b = "\<Sum>k<length ?rows. ent x k 0 * bet (?rows ! k)"
  have bsh: "map (\<lambda>sh. Some (blinding_share sh)) shs = map (\<lambda>sid. Some (row_share m bet sid)) ?ids"
    using arg_cong [OF rows(2), of "map (\<lambda>sh. Some (blinding_share sh))"] by (simp add: comp_def blinding_share_def ped_share_def row_share_def)
  have "kw_Reconstruct \<lparr>kw_msp = m\<rparr> (map (\<lambda>sh. Some (blinding_share sh)) shs) = Inr ?b"
    unfolding bsh using kw_Reconstruct_values [OF wf(1) ne shs(1) holders, of bet] x(1) by simp
  moreover have "ScalarOp (ck_group k) (ck_g k) w + ScalarOp (ck_group k) (ck_h k) ?b = ent (vv_value v) 0 0"
    unfolding x(2) by (rule combine_commitments [OF G D xs]) (use rows(3) in simp_all)
  ultimately show ?thesis using ck.open_iff [OF wf(2), of "ent (vv_value v) 0 0" w ?b] by auto
qed

text \<open>Moving both columns along a vector orthogonal to the rows of a coalition keeps its shares and the published
  vector.\<close>

lemma pvss_Deal_shift:
  fixes m :: "('a::field) MSP" and k :: "('g::ab_group_add, 'a) CommitmentKey" and secret :: 'a and secret' :: 'a
  assumes wf: "msp_wf m" "ck_wf k" and D: "2 \<le> mcols (msp_matrix m)" and A: "set ids \<subseteq> msp_holders m" "\<not> Accepts m ids"
  shows "\<exists>\<delta>. \<forall>prng. 2 * mcols (msp_matrix m) + 1 \<le> length prng \<longrightarrow> (\<exists>shares shares' v rest.
    pvss_Deal \<lparr>pvss_key = k, pvss_lsss = \<lparr>kw_msp = m\<rparr>\<rparr> (Some secret) (Some prng) = Inr (shares, v, rest) \<and>
    pvss_Deal \<lparr>pvss_key = k, pvss_lsss = \<lparr>kw_msp = m\<rparr>\<rparr> (Some secret') (Some (prng_shift \<delta> prng)) = Inr (shares', v, rest) \<and>
    (\<forall>i\<in>set ids. map_of shares i = map_of shares' i))"
proof -
  let ?D = "mcols (msp_matrix m)" and ?G = "ck_group k" and ?s = "\<lparr>pvss_key = k, pvss_lsss = \<lparr>kw_msp = m\<rparr>\<rparr>"
  have G: "prime_group ?G" and nz: "ck_h k \<noteq> 0" using wf(2) by (simp_all add: ck_wf_def)
  obtain \<mu> where \<mu>: "ck_g k = ScalarOp ?G (ck_h k) \<mu>" by (rule scalar_dlog [OF G nz])
  obtain w where w: "w 0 = 1" "\<And>i. i \<in> set (rows_for m (set ids)) \<Longrightarrow> (\<Sum>c<?D. ent (msp_matrix m) i c * w c) = 0"
    by (rule rejected_dual [OF wf(1) A]) (rule that; assumption)
  let ?e = "secret' - secret"
  define \<delta> where "\<delta> = map (\<lambda>c. ?e * w c) [0..<?D] @ [- (\<mu> * ?e)] @ map (\<lambda>c. - (\<mu> * ?e * w c)) [0..<?D]"
  show ?thesis
  proof (intro exI [of _ \<delta>] allI impI)
    fix prng :: "'a list"
    assume len: "2 * ?D + 1 \<le> length prng"
    let ?p = "prng_shift \<delta> prng"
    define r where "r = dealt_column secret prng"
    define b where "b = dealt_column (prng ! ?D) (drop (?D + 1) prng)"
    define r' where "r' = dealt_column secret' ?p"
    define b' where "b' = dealt_column (?p ! ?D) (drop (?D + 1) ?p)"
    have r': "r' c = r c + ?e * w c" if "c < ?D" for c
      using that len w(1) by (simp add: r'_def r_def dealt_column_def \<delta>_def nth_append)
    have b': "b' c = b c + - (\<mu> * ?e) * w c" if "c < ?D" for c
      using that len w(1) by (simp add: b'_def b_def dealt_column_def \<delta>_def nth_append)
    have deals: "pvss_Deal ?s (Some secret) (Some prng) =
        Inr (map (\<lambda>sid. (sid, ped_share m (row_value m r) (row_value m b) sid)) (msp_Shareholders m), ped_vector k ?D r b, drop (2 * ?D + 1) prng)"
      "pvss_Deal ?s (Some secret') (Some ?p) =
        Inr (map (\<lambda>sid. (sid, ped_share m (row_value m r') (row_value m b') sid)) (msp_Shareholders m), ped_vector k ?D r' b', drop (2 * ?D + 1) prng)"
      using pvss_Deal_ok [OF wf(1) D len, of k secret] pvss_Deal_ok [OF wf(1) D, of ?p k secret'] len prng_shift_drop [of \<delta> "2 * ?D + 1" prng]
      by (simp_all add: r_def b_def r'_def b'_def \<delta>_def)
    have same: "ScalarOp ?G (ck_g k) (r' c) + ScalarOp ?G (ck_h k) (b' c) = ScalarOp ?G (ck_g k) (r c) + ScalarOp ?G (ck_h k) (b c)" if "c < ?D" for c
      unfolding r' [OF that] b' [OF that] \<mu> by (simp add: scalar_laws [OF G] algebra_simps)
    have v: "ped_vector k ?D r' b' = ped_vector k ?D r b" by (simp add: ped_vector_def mat_fill_def same)
    have keep: "row_value m f' i = row_value m f i" if "i \<in> set (rows_for m (set ids))" "\<And>c. c < ?D \<Longrightarrow> f' c = f c + a * w c" for f f' a i
      by (rule row_value_orthogonal [OF that(2) w(2) [OF that(1)]])
    have rows: "row_value m r' i = row_value m r i" "row_value m b' i = row_value m b i" if "i \<in> set (rows_for m (set ids))" for i
      using keep [OF that r'] keep [OF that b'] by blast+
    have "ped_share m (row_value m r') (row_value m b') sid = ped_share m (row_value m r) (row_value m b) sid" if "sid \<in> set ids" for sid
      using rows that by (auto simp: ped_share_def rows_for_def)
    then have "\<forall>i\<in>set ids. map_of (map (\<lambda>sid. (sid, ped_share m (row_value m r) (row_value m b) sid)) (msp_Shareholders m)) i =
        map_of (map (\<lambda>sid. (sid, ped_share m (row_value m r') (row_value m b') sid)) (msp_Shareholders m)) i"
      using A(1) by (auto simp: dealt_share [OF wf(1)] subset_iff)
    with deals [unfolded v] show "\<exists>shares shares' v rest. pvss_Deal ?s (Some secret) (Some prng) = Inr (shares, v, rest) \<and>
      pvss_Deal ?s (Some secret') (Some ?p) = Inr (shares', v, rest) \<and> (\<forall>i\<in>set ids. map_of shares i = map_of shares' i)" by blast
  qed
qed

section \<open>Properties\<close>

text \<open>C7. Pedersen sharing is binding up to a discrete logarithm: when two lists of well-formed shares of distinct
  holders pass \<open>ReconstructAndVerify\<close> against one verification vector with different secrets, reconstructing the
  blinding components of both lists gives the discrete logarithm between the two generators of the key.\<close>

theorem pvss_binding:
  fixes M :: "('a::field) Matrix" and G :: "('g::ab_group_add, 'a) PrimeGroup"
  assumes key: "prime_group G" "NewCommitmentKeyUnchecked G (Some g) (Some h) = Inr k"
    and m: "NewMSP (Some M) (Some r2h) = Inr m" "mat_wf M" "distinct (map fst r2h)"
    and shs: "distinct (map ps_id shs)" "\<forall>sh\<in>set shs. length (ps_secret sh) = length (ps_blinding sh)"
      "pvss_ReconstructAndVerify \<lparr>pvss_key = k, pvss_lsss = \<lparr>kw_msp = m\<rparr>\<rparr> (Some v) (map Some shs) = Inr w"
    and shs': "distinct (map ps_id shs')" "\<forall>sh\<in>set shs'. length (ps_secret sh) = length (ps_blinding sh)"
      "pvss_ReconstructAndVerify \<lparr>pvss_key = k, pvss_lsss = \<lparr>kw_msp = m\<rparr>\<rparr> (Some v) (map Some shs') = Inr w'"
    and "w \<noteq> w'"
  shows "\<exists>b b'. kw_Reconstruct \<lparr>kw_msp = m\<rparr> (map (\<lambda>sh. Some (blinding_share sh)) shs) = Inr b \<and>
    kw_Reconstruct \<lparr>kw_msp = m\<rparr> (map (\<lambda>sh. Some (blinding_share sh)) shs') = Inr b' \<and>
    b \<noteq> b' \<and> h = ScalarOp G g ((w - w') / (b' - b))"
proof -
  note wf = NewMSP_wf [OF m]
  have k: "ck_wf k" "ck_group k = G" "ck_g k = g" "ck_h k = h" using NewCommitmentKey_wf [OF key] by simp_all
  obtain b where b: "kw_Reconstruct \<lparr>kw_msp = m\<rparr> (map (\<lambda>sh. Some (blinding_share sh)) shs) = Inr b"
    "ck_Open k (Some (ent (vv_value v) 0 0)) (Some w) (Some b) = Inr ()"
    using pvss_opens [OF wf(1) k(1) shs(1) _ shs(3)] shs(2) by blast
  obtain b' where b': "kw_Reconstruct \<lparr>kw_msp = m\<rparr> (map (\<lambda>sh. Some (blinding_share sh)) shs') = Inr b'"
    "ck_Open k (Some (ent (vv_value v) 0 0)) (Some w') (Some b') = Inr ()"
    using pvss_opens [OF wf(1) k(1) shs'(1) _ shs'(3)] shs'(2) by blast
  from ck_two_openings [OF k(1) b(2) b'(2) assms(12)] b(1) b'(1) k show ?thesis by blast
qed

text \<open>C6. Pedersen sharing hides perfectly, the published vector included: for every coalition of holders the
  programme does not accept and every two secrets there is one translation of the samples such that, for all
  samples, dealing the second secret with the translated samples publishes the same verification vector and gives
  every member of the coalition the same share.\<close>

theorem pvss_privacy:
  fixes M :: "('a::field) Matrix" and G :: "('g::ab_group_add, 'a) PrimeGroup" and secret :: 'a and secret' :: 'a
  assumes key: "prime_group G" "NewCommitmentKeyUnchecked G (Some g) (Some h) = Inr k"
    and m: "NewMSP (Some M) (Some r2h) = Inr m" "mat_wf M" "distinct (map fst r2h)" "2 \<le> mcols M"
    and ids: "set ids \<subseteq> snd ` set r2h" "\<not> Accepts m ids"
  shows "\<exists>\<delta>. \<forall>prng. 2 * mcols M + 1 \<le> length prng \<longrightarrow> (\<exists>shares shares' v rest.
    pvss_Deal \<lparr>pvss_key = k, pvss_lsss = \<lparr>kw_msp = m\<rparr>\<rparr> (Some secret) (Some prng) = Inr (shares, v, rest) \<and>
    pvss_Deal \<lparr>pvss_key = k, pvss_lsss = \<lparr>kw_msp = m\<rparr>\<rparr> (Some secret') (Some (prng_shift \<delta> prng)) = Inr (shares', v, rest) \<and>
    (\<forall>i\<in>set ids. map_of shares i = map_of shares' i))"
proof -
  note wf = NewMSP_wf [OF m(1-3)]
  have k: "ck_wf k" using NewCommitmentKey_wf [OF key] by simp
  have holders: "set ids \<subseteq> msp_holders m" using ids(1) label_holders [OF wf(1)] by (simp add: wf(3))
  show ?thesis using pvss_Deal_shift [OF wf(1) k _ holders ids(2), of secret secret'] m(4) by (simp add: wf(2))
qed

text \<open>Honest dealing: with enough samples \<open>Deal\<close> succeeds, every dealt share verifies against the published
  vector, and on the shares of any coalition \<open>ReconstructAndVerify\<close> returns the secret when the programme accepts
  the coalition and fails when it does not.\<close>

theorem pvss_roundtrip:
  fixes M :: "('a::field) Matrix" and G :: "('g::ab_group_add, 'a) PrimeGroup"
  assumes key: "prime_group G" "NewCommitmentKeyUnchecked G (Some g) (Some h) = Inr k"
    and m: "NewMSP (Some M) (Some r2h) = Inr m" "mat_wf M" "distinct (map fst r2h)" "2 \<le> mcols M"
    and len: "2 * mcols M + 1 \<le> length prng"
  shows "\<exists>shares v rest. pvss_Deal \<lparr>pvss_key = k, pvss_lsss = \<lparr>kw_msp = m\<rparr>\<rparr> (Some secret) (Some prng) = Inr (shares, v, rest) \<and>
    (\<forall>i\<in>snd ` set r2h. pvss_Verify \<lparr>pvss_key = k, pvss_lsss = \<lparr>kw_msp = m\<rparr>\<rparr> (map_of shares i) (Some v) = Inr ()) \<and>
    (\<forall>ids. ids \<noteq> [] \<and> distinct ids \<and> set ids \<subseteq> snd ` set r2h \<longrightarrow>
      pvss_ReconstructAndVerify \<lparr>pvss_key = k, pvss_lsss = \<lparr>kw_msp = m\<rparr>\<rparr> (Some v) (map (map_of shares) ids) =
        (if Accepts m ids then Inr secret else Inl ErrFailed))"
proof -
  note wf = NewMSP_wf [OF m(1-3)]
  let ?s = "\<lparr>pvss_key = k, pvss_lsss = \<lparr>kw_msp = m\<rparr>\<rparr>"
  have pw: "pvss_wf ?s" using NewCommitmentKey_wf [OF key] wf m(4) by (simp add: pvss_wf_def kw_wf_def)
  obtain shares v rest where deal: "pvss_Deal ?s (Some secret) (Some prng) = Inr (shares, v, rest)"
    using pvss_Deal_ok [OF wf(1), of prng k secret] m(4) len by (simp add: wf(2))
  have sh: "set (pvss_Shareholders ?s) = snd ` set r2h"
    using label_holders [OF wf(1)] msp_Shareholders_holders [OF wf(1)] by (simp add: pvss_Shareholders_def wf(3))
  have "pvss_ReconstructAndVerify ?s (Some v) (map (map_of shares) ids) = (if Accepts m ids then Inr secret else Inl ErrFailed)"
    if "ids \<noteq> []" "distinct ids" "set ids \<subseteq> snd ` set r2h" for ids
    using pvss_vss.honest_reconstruct [OF pw deal that(1,2)] that(3) by (simp add: sh pvss_CanReconstruct_def)
  with deal pvss_vss.verifies [OF pw deal] show ?thesis unfolding sh by blast
qed

subsection \<open>Instances\<close>

lemma pvss_example:
  obtains m where "NewMSP (Some \<lparr>mrows = 2, mcols = 2, mdata = [1, 1, 1, 2 :: rat]\<rparr>) (Some [(0, 5), (1, 9)]) = Inr m"
    "mat_wf \<lparr>mrows = 2, mcols = 2, mdata = [1, 1, 1, 2 :: rat]\<rparr>" "distinct (map fst [(0 :: int, 5 :: ID), (1, 9)])"
    "2 \<le> mcols \<lparr>mrows = 2, mcols = 2, mdata = [1, 1, 1, 2 :: rat]\<rparr>"
proof -
  obtain m where "NewMSP (Some \<lparr>mrows = 2, mcols = 2, mdata = [1, 1, 1, 2 :: rat]\<rparr>) (Some [(0, 5), (1, 9)]) = Inr m"
    by (simp add: NewMSP_def upt_rec)
  then show thesis by (rule that) (simp_all add: mat_wf_def)
qed

theorem pvss_privacy_witness:
  "\<exists>m \<delta> shares shares' v rest. NewMSP (Some \<lparr>mrows = 2, mcols = 2, mdata = [1, 1, 1, 2 :: rat]\<rparr>) (Some [(0, 5), (1, 9)]) = Inr m \<and>
     pvss_Deal \<lparr>pvss_key = \<lparr>ck_group = field_group, ck_g = 1, ck_h = 3\<rparr>, pvss_lsss = \<lparr>kw_msp = m\<rparr>\<rparr> (Some 42) (Some [8, 1, 4, 6, 5]) = Inr (shares, v, rest) \<and>
     pvss_Deal \<lparr>pvss_key = \<lparr>ck_group = field_group, ck_g = 1, ck_h = 3\<rparr>, pvss_lsss = \<lparr>kw_msp = m\<rparr>\<rparr> (Some 7) (Some (prng_shift \<delta> [8, 1, 4, 6, 5])) = Inr (shares', v, rest) \<and>
     map_of shares 9 = map_of shares' 9"
proof (rule pvss_example)
  fix m
  assume m: "NewMSP (Some \<lparr>mrows = 2, mcols = 2, mdata = [1, 1, 1, 2 :: rat]\<rparr>) (Some [(0, 5), (1, 9)]) = Inr m"
    "mat_wf \<lparr>mrows = 2, mcols = 2, mdata = [1, 1, 1, 2 :: rat]\<rparr>" "distinct (map fst [(0 :: int, 5 :: ID), (1, 9)])"
    "2 \<le> mcols \<lparr>mrows = 2, mcols = 2, mdata = [1, 1, 1, 2 :: rat]\<rparr>"
  let ?M = "\<lparr>mrows = 2, mcols = 2, mdata = [1, 1, 1, 2 :: rat]\<rparr>" and ?s = "\<lparr>pvss_key = \<lparr>ck_group = field_group, ck_g = 1, ck_h = 3\<rparr>, pvss_lsss = \<lparr>kw_msp = m\<rparr>\<rparr>"
  have ids: "set [9] \<subseteq> snd ` set [(0 :: int, 5 :: ID), (1, 9)]" by simp
  have len: "2 * mcols ?M + 1 \<le> length [8, 1, 4, 6, 5 :: rat]" by simp
  obtain \<delta> where "\<forall>prng. 2 * mcols ?M + 1 \<le> length prng \<longrightarrow> (\<exists>shares shares' v rest.
    pvss_Deal ?s (Some (42 :: rat)) (Some prng) = Inr (shares, v, rest) \<and> pvss_Deal ?s (Some 7) (Some (prng_shift \<delta> prng)) = Inr (shares', v, rest) \<and>
    (\<forall>i\<in>set [9]. map_of shares i = map_of shares' i))"
    using pvss_privacy [OF field_group example_key m ids single_row_rejected [OF m(1)], of 42 7] by blast
  then obtain shares shares' v rest where deals: "pvss_Deal ?s (Some 42) (Some [8, 1, 4, 6, 5]) = Inr (shares, v, rest)"
    "pvss_Deal ?s (Some 7) (Some (prng_shift \<delta> [8, 1, 4, 6, 5])) = Inr (shares', v, rest)" "\<forall>i\<in>set [9]. map_of shares i = map_of shares' i"
    using len by blast
  from deals(3) have "map_of shares 9 = map_of shares' 9" by simp
  with deals(1,2) m(1) show ?thesis by blast
qed

theorem pvss_roundtrip_witness:
  "\<exists>m shares v rest. NewMSP (Some \<lparr>mrows = 2, mcols = 2, mdata = [1, 1, 1, 2 :: rat]\<rparr>) (Some [(0, 5), (1, 9)]) = Inr m \<and>
     pvss_Deal \<lparr>pvss_key = \<lparr>ck_group = field_group, ck_g = 1, ck_h = 3\<rparr>, pvss_lsss = \<lparr>kw_msp = m\<rparr>\<rparr> (Some 42) (Some [8, 1, 4, 6, 5]) = Inr (shares, v, rest) \<and>
     pvss_ReconstructAndVerify \<lparr>pvss_key = \<lparr>ck_group = field_group, ck_g = 1, ck_h = 3\<rparr>, pvss_lsss = \<lparr>kw_msp = m\<rparr>\<rparr> (Some v) (map (map_of shares) [9, 5]) =
       (if Accepts m [9, 5] then Inr 42 else Inl ErrFailed)"
proof (rule pvss_example)
  fix m
  assume m: "NewMSP (Some \<lparr>mrows = 2, mcols = 2, mdata = [1, 1, 1, 2 :: rat]\<rparr>) (Some [(0, 5), (1, 9)]) = Inr m"
    "mat_wf \<lparr>mrows = 2, mcols = 2, mdata = [1, 1, 1, 2 :: rat]\<rparr>" "distinct (map fst [(0 :: int, 5 :: ID), (1, 9)])"
    "2 \<le> mcols \<lparr>mrows = 2, mcols = 2, mdata = [1, 1, 1, 2 :: rat]\<rparr>"
  have len: "2 * mcols \<lparr>mrows = 2, mcols = 2, mdata = [1, 1, 1, 2 :: rat]\<rparr> + 1 \<le> length [8, 1, 4, 6, 5 :: rat]" by simp
  have ids: "[9, 5 :: ID] \<noteq> [] \<and> distinct [9, 5 :: ID] \<and> set [9, 5] \<subseteq> snd ` set [(0 :: int, 5 :: ID), (1, 9)]" by simp
  from pvss_roundtrip [OF field_group example_key m len, of 42] m(1) ids show ?thesis by blast
qed

lemma pvss_example_runs:
  "case NewMSP (Some \<lparr>mrows = 2, mcols = 2, mdata = [1, 1, 1, 2 :: rat]\<rparr>) (Some [(0, 5), (1, 9)]) of Inl _ \<Rightarrow> False | Inr m \<Rightarrow>
    pvss_ReconstructAndVerify \<lparr>pvss_key = \<lparr>ck_group = field_group, ck_g = 1, ck_h = 3\<rparr>, pvss_lsss = \<lparr>kw_msp = m\<rparr>\<rparr>
      (Some \<lparr>vv_value = \<lparr>mrows = 2, mcols = 1, mdata = [0, 0]\<rparr>\<rparr>)
      (map Some [\<lparr>ps_id = 5, ps_secret = [0], ps_blinding = [0]\<rparr>, \<lparr>ps_id = 9, ps_secret = [0], ps_blinding = [0]\<rparr>]) = Inr 0 \<and>
    pvss_ReconstructAndVerify \<lparr>pvss_key = \<lparr>ck_group = field_group, ck_g = 1, ck_h = 3\<rparr>, pvss_lsss = \<lparr>kw_msp = m\<rparr>\<rparr>
      (Some \<lparr>vv_value = \<lparr>mrows = 2, mcols = 1, mdata = [0, 0]\<rparr>\<rparr>)
      (map Some [\<lparr>ps_id = 5, ps_secret = [3], ps_blinding = [-1]\<rparr>, \<lparr>ps_id = 9, ps_secret = [0], ps_blinding = [0]\<rparr>]) = Inr 6"
  by code_simp

theorem pvss_binding_witness:
  "\<exists>m b b'. NewMSP (Some \<lparr>mrows = 2, mcols = 2, mdata = [1, 1, 1, 2 :: rat]\<rparr>) (Some [(0, 5), (1, 9)]) = Inr m \<and>
     kw_Reconstruct \<lparr>kw_msp = m\<rparr> (map (\<lambda>sh. Some (blinding_share sh))
       [\<lparr>ps_id = 5, ps_secret = [0], ps_blinding = [0]\<rparr>, \<lparr>ps_id = 9, ps_secret = [0], ps_blinding = [0]\<rparr>]) = Inr b \<and>
     kw_Reconstruct \<lparr>kw_msp = m\<rparr> (map (\<lambda>sh. Some (blinding_share sh))
       [\<lparr>ps_id = 5, ps_secret = [3], ps_blinding = [-1]\<rparr>, \<lparr>ps_id = 9, ps_secret = [0], ps_blinding = [0]\<rparr>]) = Inr b' \<and>
     b \<noteq> b' \<and> 3 = ScalarOp field_group 1 ((0 - 6) / (b' - b))"
proof (rule pvss_example)
  fix m
  assume m: "NewMSP (Some \<lparr>mrows = 2, mcols = 2, mdata = [1, 1, 1, 2 :: rat]\<rparr>) (Some [(0, 5), (1, 9)]) = Inr m"
    "mat_wf \<lparr>mrows = 2, mcols = 2, mdata = [1, 1, 1, 2 :: rat]\<rparr>" "distinct (map fst [(0 :: int, 5 :: ID), (1, 9)])"
    "2 \<le> mcols \<lparr>mrows = 2, mcols = 2, mdata = [1, 1, 1, 2 :: rat]\<rparr>"
  let ?shs = "[\<lparr>ps_id = 5, ps_secret = [0], ps_blinding = [0 :: rat]\<rparr>, \<lparr>ps_id = 9, ps_secret = [0], ps_blinding = [0]\<rparr>]"
    and ?shs' = "[\<lparr>ps_id = 5, ps_secret = [3], ps_blinding = [-1 :: rat]\<rparr>, \<lparr>ps_id = 9, ps_secret = [0], ps_blinding = [0]\<rparr>]"
  have wf: "distinct (map ps_id ?shs)" "\<forall>sh\<in>set ?shs. length (ps_secret sh) = length (ps_blinding sh)"
    "distinct (map ps_id ?shs')" "\<forall>sh\<in>set ?shs'. length (ps_secret sh) = length (ps_blinding sh)" "(0 :: rat) \<noteq> 6" by simp_all
  note runs = pvss_example_runs [unfolded m(1) sum.case]
  from pvss_binding [OF field_group example_key m(1-3) wf(1,2) runs [THEN conjunct1] wf(3,4) runs [THEN conjunct2] wf(5)] m(1)
  show ?thesis by blast
qed

end
