(* ===== verification/Mathutils.thy ===== *)
theory Mathutils
  imports Transcripts
begin

text \<open>
  Integer helpers (\<open>pkg/base/utils/mathutils\<close>): uniform sampling of machine words, ceiling division, logarithms and factorials. The
  random source is the list of the bytes it will deliver. \<open>bits.LeadingZeros64\<close> of the standard library is counted from the length of the
  binary expansion.
\<close>

section \<open>Operations\<close>

definition RandomUint64 :: "bytes \<Rightarrow> (64 word \<times> bytes) res" where
  "RandomUint64 prng = (if length prng < 8 then Inl ErrPrng else Inr (word_of_nat (be_val (rev (take 8 prng))), drop 8 prng))"

function uint64_range_loop :: "64 word \<Rightarrow> 64 word \<Rightarrow> bytes \<Rightarrow> (64 word \<times> bytes) res" where
  "uint64_range_loop threshold bound prng =
     rbind (RandomUint64 prng) (\<lambda>(randBits, prng).
       if randBits \<ge> threshold then Inr (randBits mod bound, prng) else uint64_range_loop threshold bound prng)"
  by auto
termination by (relation "measure (\<lambda>(_, _, prng). length prng)") (auto simp: RandomUint64_def split: if_splits)

declare uint64_range_loop.simps [simp del]

definition RandomUint64Range :: "bytes \<Rightarrow> 64 word \<Rightarrow> (64 word \<times> bytes) res" where
  "RandomUint64Range prng bound =
     (if bound = 0 then Inl ErrInvalidArgument else uint64_range_loop ((- bound) mod bound) bound prng)"

definition CeilDiv :: "int \<Rightarrow> int \<Rightarrow> int res" where
  "CeilDiv numerator denominator =
     (if denominator = 0 then Inl Panic else Inr (wrap64 (go_div (wrap64 (wrap64 (numerator - 1) + denominator)) denominator)))"

fun binary_length :: "nat \<Rightarrow> nat" where
  "binary_length n = (if n = 0 then 0 else Suc (binary_length (n div 2)))"

declare binary_length.simps [simp del]

definition LeadingZeros64 :: "64 word \<Rightarrow> int" where
  "LeadingZeros64 w = 64 - int (binary_length (unat w))"

definition FloorLog2 :: "int \<Rightarrow> int" where
  "FloorLog2 x = 63 - LeadingZeros64 (word_of_int x)"

definition CeilLog2 :: "int \<Rightarrow> int" where
  "CeilLog2 x = 64 - LeadingZeros64 (word_of_int x - 1)"

definition FactorialUint64 :: "64 word \<Rightarrow> (64 word) res" where
  "FactorialUint64 n = (if n > 20 then Inl ErrOverflow else Inr (fold (\<lambda>i f. f * word_of_nat i) [2..<Suc (unat n)] 1))"

section \<open>Logarithms and factorials\<close>

lemma binary_length_spec: "n < 2 ^ binary_length n \<and> (0 < n \<longrightarrow> 2 ^ (binary_length n - 1) \<le> n)"
proof (induction n rule: binary_length.induct)
  case (1 n)
  show ?case
  proof (cases "n = 0")
    case False
    with 1 have IH: "n div 2 < 2 ^ binary_length (n div 2)" "0 < n div 2 \<longrightarrow> 2 ^ (binary_length (n div 2) - 1) \<le> n div 2" by auto
    have l: "binary_length n = Suc (binary_length (n div 2))" using False by (subst binary_length.simps) simp
    show ?thesis
    proof (cases "n = 1")
      case True then show ?thesis using l by (simp add: binary_length.simps)
    next
      case n1: False
      with False have pos: "0 < n div 2" by simp
      then obtain k where k: "binary_length (n div 2) = Suc k" by (subst (asm) binary_length.simps, cases "n div 2") (auto simp: binary_length.simps [of "n div 2"])
      with IH pos l show ?thesis by auto
    qed
  qed (simp add: binary_length.simps)
qed

lemma unat_word_of_int: "0 \<le> x \<Longrightarrow> x < 2 ^ 64 \<Longrightarrow> unat (word_of_int x :: 64 word) = nat x"
  by (simp add: unat_eq_nat_uint uint_word_of_int_eq take_bit_int_eq_self)

lemma fold_factorial: "fold (\<lambda>i f. f * word_of_nat i) [2..<Suc n] (1 :: 64 word) = word_of_nat (fact n)"
proof (induction n)
  case (Suc n)
  then show ?case by (cases n) (simp_all add: algebra_simps)
qed simp

lemma CeilDiv_ok:
  assumes "0 \<le> n" "0 < d" "n + d < 2 ^ 63"
  shows "\<exists>q. CeilDiv n d = Inr q \<and> n \<le> q * d \<and> (q - 1) * d < n + (if n = 0 then 1 else 0)"
proof -
  define q where "q = (n - 1 + d) div d"
  have "0 \<le> q" unfolding q_def using assms by (intro div_int_pos_iff [THEN iffD2]) simp
  moreover have "q \<le> n - 1 + d" unfolding q_def using assms zdiv_mono2 [of "n - 1 + d" 1 d] by simp
  ultimately have "CeilDiv n d = Inr q" using assms by (simp add: CeilDiv_def wrap64_id go_div_nonneg q_def)
  moreover have "q * d \<le> n - 1 + d" "n - 1 + d < q * d + d"
    using pos_mod_bound [OF assms(2), of "n - 1 + d"] pos_mod_sign [OF assms(2), of "n - 1 + d"]
    by (simp_all only: q_def minus_mod_eq_div_mult [symmetric])
  ultimately show ?thesis by (intro exI [of _ q]) (simp add: left_diff_distrib)
qed

lemma FloorLog2_ok:
  assumes "0 < x" "x < 2 ^ 63"
  shows "0 \<le> FloorLog2 x \<and> 2 ^ nat (FloorLog2 x) \<le> x \<and> x < 2 ^ nat (FloorLog2 x + 1)"
proof -
  have u: "unat (word_of_int x :: 64 word) = nat x" using assms by (intro unat_word_of_int) simp_all
  obtain k where k: "binary_length (nat x) = Suc k" using assms by (cases "binary_length (nat x)") (auto simp: binary_length.simps split: if_splits)
  have "FloorLog2 x = int k" by (simp add: FloorLog2_def LeadingZeros64_def u k)
  moreover have "nat x < 2 ^ Suc k" "2 ^ k \<le> nat x" using binary_length_spec [of "nat x"] assms k by simp_all
  then have "x < 2 ^ Suc k" "2 ^ k \<le> x" using assms by (simp_all add: nat_less_iff le_nat_iff)
  ultimately show ?thesis by (simp add: nat_add_distrib)
qed

lemma CeilLog2_ok:
  assumes "0 < x" "x < 2 ^ 63"
  shows "0 \<le> CeilLog2 x \<and> x \<le> 2 ^ nat (CeilLog2 x) \<and> (1 < x \<longrightarrow> 2 ^ nat (CeilLog2 x - 1) < x)"
proof -
  define k where "k = binary_length (nat (x - 1))"
  have "unat (word_of_int (x - 1) :: 64 word) = nat (x - 1)" using assms by (intro unat_word_of_int) simp_all
  then have c: "CeilLog2 x = int k" by (simp add: CeilLog2_def LeadingZeros64_def k_def)
  have "nat (x - 1) < 2 ^ k" "1 < x \<Longrightarrow> 2 ^ (k - 1) \<le> nat (x - 1)" using binary_length_spec [of "nat (x - 1)"] by (simp_all add: k_def)
  then have "x - 1 < 2 ^ k" "1 < x \<Longrightarrow> 2 ^ (k - 1) \<le> x - 1" using assms by (simp_all add: nat_less_iff le_nat_iff)
  moreover have "nat (int k - 1) = k - 1" by linarith
  ultimately show ?thesis by (auto simp: c)
qed

lemma FactorialUint64_ok:
  "if fact (unat k) < (2 :: nat) ^ 64 then \<exists>f. FactorialUint64 k = Inr f \<and> unat f = fact (unat k) else FactorialUint64 k = Inl ErrOverflow"
proof (cases "k > 20")
  case True
  then have "21 \<le> unat k" by (simp add: word_less_nat_alt)
  then have "fact 21 \<le> (fact (unat k) :: nat)" by (rule fact_mono_nat)
  moreover have "(2 :: nat) ^ 64 \<le> fact 21" by (simp add: fact_numeral)
  ultimately show ?thesis using True by (simp add: FactorialUint64_def)
next
  case False
  then have "unat k \<le> 20" by (simp add: word_less_nat_alt)
  then have "fact (unat k) \<le> (fact 20 :: nat)" by (rule fact_mono_nat)
  also have "fact 20 < (2 :: nat) ^ 64" by (simp add: fact_numeral)
  finally have "fact (unat k) < (2 :: nat) ^ 64" .
  then show ?thesis using False by (simp add: FactorialUint64_def fold_factorial unat_of_nat take_bit_nat_eq_self del: upt_Suc)
qed

section \<open>Uniform sampling\<close>

lemma bytes_of_le64 [simp]: "word_of_nat (be_val (rev (le64 w))) = w"
proof (rule bit_word_eqI)
  fix n assume n: "n < LENGTH(64)"
  have "n div 8 < 8" "8 * (n div 8) + n mod 8 = n" using n by simp_all
  then show "bit (word_of_nat (be_val (rev (le64 w))) :: 64 word) n \<longleftrightarrow> bit w n"
    using n by (simp add: bit_of_nat_iff bit_be_val rev_nth le64_def bit_ucast_iff bit_drop_bit_eq)
qed

lemma le64_cases:
  assumes "length d = 8"
  obtains w where "d = le64 w"
proof -
  have "inj le64" by (metis bytes_of_le64 injI)
  then have "card (range le64) = 2 ^ 64" by (simp add: card_image card_word)
  moreover have "card {d :: bytes. length d = 8} = 2 ^ 64"
    using card_lists_length_eq [of "UNIV :: byte set" 8] by (simp add: card_word)
  moreover have "range le64 \<subseteq> {d. length d = 8}" by auto
  ultimately have "range le64 = {d :: bytes. length d = 8}"
    using finite_lists_length_eq [of "UNIV :: byte set" 8] by (intro card_subset_eq) simp_all
  with assms that show thesis by auto
qed

text \<open>Of \<open>q\<close> whole periods every residue takes the same share.\<close>

lemma card_residue:
  assumes "(v::nat) < b"
  shows "card {r. t \<le> r \<and> r < t + q * b \<and> r mod b = v} = q"
proof (induction q)
  case (Suc q)
  define s k where "s = t + q * b" and "k = s + (v + b - s mod b) mod b"
  have b: "0 < b" using assms by simp
  have "k mod b = (s mod b + (v + b - s mod b)) mod b" by (simp add: k_def mod_add_left_eq mod_add_right_eq)
  also have "s mod b + (v + b - s mod b) = v + b" using mod_less_divisor [OF b, of s] by linarith
  finally have k: "k mod b = v" "s \<le> k" "k < s + b" using b assms by (simp_all add: k_def)
  have "r = k" if "s \<le> r" "r < s + b" "r mod b = v" for r
  proof (rule ccontr)
    assume "r \<noteq> k"
    have "r mod b = k mod b" using that(3) k(1) by simp
    show False
    proof (cases r k rule: linorder_cases)
      case less
      with \<open>r mod b = k mod b\<close> have "b dvd k - r" by (metis less_imp_le mod_eq_dvd_iff_nat)
      with less have "b \<le> k - r" by (intro dvd_imp_le) simp_all
      then show ?thesis using less that(1) k(3) by linarith
    next
      case greater
      with \<open>r mod b = k mod b\<close> have "b dvd r - k" by (metis less_imp_le mod_eq_dvd_iff_nat)
      with greater have "b \<le> r - k" by (intro dvd_imp_le) simp_all
      then show ?thesis using greater that(2) k(2) by linarith
    qed (use \<open>r \<noteq> k\<close> in simp)
  qed
  then have last: "{r. s \<le> r \<and> r < s + b \<and> r mod b = v} = {k}" using k by blast
  have "t \<le> s" "t + Suc q * b = s + b" by (simp_all add: s_def)
  then have "{r. t \<le> r \<and> r < t + Suc q * b \<and> r mod b = v} = {r. t \<le> r \<and> r < s \<and> r mod b = v} \<union> {r. s \<le> r \<and> r < s + b \<and> r mod b = v}"
    by auto
  then have "{r. t \<le> r \<and> r < t + Suc q * b \<and> r mod b = v} = insert k {r. t \<le> r \<and> r < t + q * b \<and> r mod b = v}"
    unfolding last by (simp add: s_def)
  moreover have "k \<notin> {r. t \<le> r \<and> r < t + q * b \<and> r mod b = v}" using k by (simp add: s_def)
  ultimately show ?case using Suc by simp
qed simp

text \<open>The threshold is the remainder of \<open>2 ^ 64\<close>, so the accepted words are whole periods.\<close>

lemma unat_threshold:
  assumes "(bound :: 64 word) \<noteq> 0"
  shows "unat ((- bound) mod bound) = 2 ^ 64 mod unat bound"
proof -
  have "uint (- bound) = 2 ^ 64 - uint bound"
    using assms uint_lt2p [of bound] by (simp add: uint_word_ariths zmod_zminus1_eq_if uint_0_iff)
  then have "int (unat (- bound) + unat bound) = int (2 ^ 64)" by simp
  then have "unat (- bound) + unat bound = 2 ^ 64" by (simp only: of_nat_eq_iff)
  then have "unat (- bound) = 2 ^ 64 - unat bound" by (rule add_implies_diff)
  moreover have "unat bound \<le> 2 ^ 64" using unsigned_less [of bound, where ?'a = nat] by simp
  ultimately show ?thesis by (simp only: unat_mod_distrib le_mod_geq [symmetric])
qed

lemma card_accepted:
  assumes b: "(bound :: 64 word) \<noteq> 0" and v: "v < bound"
  shows "card {w. (- bound) mod bound \<le> w \<and> w mod bound = v} = 2 ^ 64 div unat bound"
proof -
  let ?b = "unat bound" and ?t = "2 ^ 64 mod unat bound" and ?q = "2 ^ 64 div unat bound"
  have "2 ^ 64 = ?t + ?q * ?b" by simp
  then have "unat ` {w. (- bound) mod bound \<le> w \<and> w mod bound = v} = {r. ?t \<le> r \<and> r < ?t + ?q * ?b \<and> r mod ?b = unat v}"
  proof (intro set_eqI iffI)
    fix r assume "2 ^ 64 = ?t + ?q * ?b" and r: "r \<in> {r. ?t \<le> r \<and> r < ?t + ?q * ?b \<and> r mod ?b = unat v}"
    then have "r < 2 ^ 64" by simp
    then have w: "unat (word_of_nat r :: 64 word) = r" by (simp add: unat_of_nat take_bit_nat_eq_self)
    then have "(- bound) mod bound \<le> word_of_nat r" using r by (simp only: word_le_nat_alt unat_threshold [OF b]) simp
    moreover have "word_of_nat r mod bound = v" using r w by (simp add: word_unat_eq_iff unat_mod_distrib)
    ultimately show "r \<in> unat ` {w. (- bound) mod bound \<le> w \<and> w mod bound = v}" using w by (intro image_eqI [of _ _ "word_of_nat r"]) simp_all
  next
    fix r assume p: "2 ^ 64 = ?t + ?q * ?b" and "r \<in> unat ` {w. (- bound) mod bound \<le> w \<and> w mod bound = v}"
    then obtain w where w: "r = unat w" "(- bound) mod bound \<le> w" "w mod bound = v" by blast
    from w(2) have "?t \<le> unat w" by (simp only: word_le_nat_alt unat_threshold [OF b])
    moreover have "unat w < ?t + ?q * ?b" unfolding p [symmetric] using unsigned_less [of w, where ?'a = nat] by simp
    moreover have "unat w mod ?b = unat v" using w(3) by (simp add: unat_mod_distrib [symmetric])
    ultimately show "r \<in> {r. ?t \<le> r \<and> r < ?t + ?q * ?b \<and> r mod ?b = unat v}" using w(1) by simp
  qed
  then have "card (unat ` {w. (- bound) mod bound \<le> w \<and> w mod bound = v}) = ?q"
    using v by (simp only: card_residue word_less_nat_alt)
  moreover have "inj_on unat {w. (- bound) mod bound \<le> w \<and> w mod bound = v}" by (rule inj_onI) (simp add: word_unat_eq_iff)
  ultimately show ?thesis by (simp only: card_image)
qed

lemma uint64_range_loop_less:
  "uint64_range_loop threshold bound prng = Inr (v, rest) \<Longrightarrow> bound \<noteq> 0 \<Longrightarrow> v < bound"
proof (induction threshold bound prng rule: uint64_range_loop.induct)
  case (1 threshold bound prng)
  then have less: "w mod bound < bound" for w by (simp add: word_less_nat_alt unat_mod_distrib unat_gt_0)
  from 1(2) show ?case using 1(1,3) by (subst (asm) uint64_range_loop.simps) (auto split: if_splits intro: less)
qed

section \<open>Properties\<close>

text \<open>C40. Sampling below a bound is uniform: every value below the bound is the outcome of the same number of eight-byte strings, the other
  strings are rejected. What follows an accepted string is not read; after a rejected string the sampler goes on with the rest of the source exactly as
  if it started there, so every draw has the distribution of the first; a source with fewer than eight bytes left is an error. No value
  outside the range is ever returned.\<close>

theorem RandomUint64Range_uniform:
  assumes "bound \<noteq> 0"
  shows "(\<forall>prng v rest. RandomUint64Range prng bound = Inr (v, rest) \<longrightarrow> v < bound) \<and>
    (\<forall>v<bound. card {d. length d = 8 \<and> RandomUint64Range d bound = Inr (v, [])} = 2 ^ 64 div unat bound) \<and>
    (\<forall>d rest. length d = 8 \<longrightarrow> RandomUint64Range (d @ rest) bound =
       (case RandomUint64Range d bound of Inr (v, _) \<Rightarrow> Inr (v, rest) | Inl _ \<Rightarrow> RandomUint64Range rest bound)) \<and>
    (\<forall>prng. length prng < 8 \<longrightarrow> RandomUint64Range prng bound = Inl ErrPrng)"
proof -
  have run: "RandomUint64Range (le64 w @ rest) bound = (if (- bound) mod bound \<le> w then Inr (w mod bound, rest) else RandomUint64Range rest bound)" for w rest
    using assms by (simp add: RandomUint64Range_def uint64_range_loop.simps [of _ _ "le64 w @ rest"] RandomUint64_def)
  have short: "RandomUint64Range prng bound = Inl ErrPrng" if "length prng < 8" for prng
    using that assms by (simp add: RandomUint64Range_def uint64_range_loop.simps [of _ _ prng] RandomUint64_def)
  have one: "RandomUint64Range (le64 w) bound = (if (- bound) mod bound \<le> w then Inr (w mod bound, []) else Inl ErrPrng)" for w
    using run [of w "[]"] short [of "[]"] by simp
  have "card {d. length d = 8 \<and> RandomUint64Range d bound = Inr (v, [])} = 2 ^ 64 div unat bound" if v: "v < bound" for v
  proof -
    have "{d. length d = 8 \<and> RandomUint64Range d bound = Inr (v, [])} = le64 ` {w. (- bound) mod bound \<le> w \<and> w mod bound = v}"
      by (auto simp: one elim!: le64_cases split: if_splits)
    moreover have "inj le64" by (metis bytes_of_le64 injI)
    ultimately show ?thesis using card_accepted [OF assms v] by (simp add: card_image inj_on_subset)
  qed
  moreover have "RandomUint64Range (d @ rest) bound = (case RandomUint64Range d bound of Inr (v, _) \<Rightarrow> Inr (v, rest) | Inl _ \<Rightarrow> RandomUint64Range rest bound)"
    if "length d = 8" for d rest using that by (auto simp: one run elim!: le64_cases)
  moreover have "v < bound" if "RandomUint64Range prng bound = Inr (v, rest)" for prng v rest
    using that assms by (auto simp: RandomUint64Range_def dest: uint64_range_loop_less)
  ultimately show ?thesis using short by blast
qed

theorem RandomUint64Range_uniform_witness:
  "\<not> (\<exists>prng rest. RandomUint64Range prng 10 = Inr (10, rest)) \<and>
   card {d. length d = 8 \<and> RandomUint64Range d 10 = Inr (7, [])} = 1844674407370955161 \<and>
   RandomUint64Range ([5, 0, 0, 0, 0, 0, 0, 0] @ [17, 0, 0, 0, 0, 0, 0, 0, 1]) 10 = Inr (7, [1])"
proof -
  have d: "RandomUint64Range [5, 0, 0, 0, 0, 0, 0, 0] 10 = Inl ErrPrng" "RandomUint64Range [17, 0, 0, 0, 0, 0, 0, 0] 10 = Inr (7, [])" by code_simp+
  have nz: "(10 :: 64 word) \<noteq> 0" by simp
  note u = RandomUint64Range_uniform [OF nz]
  have step: "RandomUint64Range (e @ rest) 10 = (case RandomUint64Range e 10 of Inr (v, _) \<Rightarrow> Inr (v, rest) | Inl _ \<Rightarrow> RandomUint64Range rest 10)"
    if "length e = 8" for e rest by (rule u [THEN conjunct2, THEN conjunct2, THEN conjunct1, rule_format, OF that])
  have "RandomUint64Range ([17, 0, 0, 0, 0, 0, 0, 0] @ [1]) 10 = Inr (7, [1])" by (subst step) (simp, simp only: d sum.case prod.case)
  then have "RandomUint64Range [17, 0, 0, 0, 0, 0, 0, 0, 1] 10 = Inr (7, [1])" by (simp only: append.simps)
  then have r: "RandomUint64Range ([5, 0, 0, 0, 0, 0, 0, 0] @ [17, 0, 0, 0, 0, 0, 0, 0, 1]) 10 = Inr (7, [1])"
    by (subst step) (simp, simp only: d sum.case)
  have "card {d. length d = 8 \<and> RandomUint64Range d 10 = Inr (7, [])} = 2 ^ 64 div unat (10 :: 64 word)"
    by (rule u [THEN conjunct2, THEN conjunct1, rule_format]) simp
  moreover have "\<not> (\<exists>prng rest. RandomUint64Range prng 10 = Inr (10, rest))" using u [THEN conjunct1] by blast
  ultimately show ?thesis using r by simp
qed

text \<open>The integer helpers on their domains: ceiling division is the least quotient that covers the numerator, the two logarithms are the
  exponents of the powers of two around the argument, and the factorial is exact wherever it fits into a machine word and an error beyond.\<close>

theorem mathutils_correct:
  assumes "0 \<le> n" "0 < d" "n + d < 2 ^ 63" "0 < x" "x < 2 ^ 63"
  shows "(\<exists>q. CeilDiv n d = Inr q \<and> n \<le> q * d \<and> (q - 1) * d < n + (if n = 0 then 1 else 0)) \<and>
    0 \<le> FloorLog2 x \<and> 2 ^ nat (FloorLog2 x) \<le> x \<and> x < 2 ^ nat (FloorLog2 x + 1) \<and>
    0 \<le> CeilLog2 x \<and> x \<le> 2 ^ nat (CeilLog2 x) \<and> (1 < x \<longrightarrow> 2 ^ nat (CeilLog2 x - 1) < x) \<and>
    (if fact (unat k) < (2 :: nat) ^ 64 then \<exists>f. FactorialUint64 k = Inr f \<and> unat f = fact (unat k) else FactorialUint64 k = Inl ErrOverflow)"
  using CeilDiv_ok [OF assms(1-3)] FloorLog2_ok [OF assms(4,5)] CeilLog2_ok [OF assms(4,5)] FactorialUint64_ok [of k] by blast

theorem mathutils_correct_witness:
  "CeilDiv 130 8 = Inr 17 \<and> FloorLog2 5 = 2 \<and> CeilLog2 5 = 3 \<and> FactorialUint64 20 = Inr 2432902008176640000 \<and>
   (\<exists>q. CeilDiv 130 8 = Inr q \<and> 130 \<le> q * 8 \<and> (q - 1) * 8 < 130) \<and> 2 ^ nat (FloorLog2 5) \<le> (5 :: int) \<and> (5 :: int) \<le> 2 ^ nat (CeilLog2 5) \<and>
   (\<exists>f. FactorialUint64 20 = Inr f \<and> unat f = fact 20)"
proof -
  have "CeilDiv 130 8 = Inr 17" "FloorLog2 5 = 2" "CeilLog2 5 = 3" "FactorialUint64 20 = Inr 2432902008176640000" by code_simp+
  moreover have "fact 20 < (2 :: nat) ^ 64" by (simp add: fact_numeral)
  ultimately show ?thesis using mathutils_correct [of 130 8 5 20] by simp
qed

end
