(* ===== verification/HierarchicalMSP.thy ===== *)
theory HierarchicalMSP
  imports Hierarchical InducedMSP Mathutils
begin

text \<open>
  The span programme of a hierarchical structure: the constraints on its identifiers and its size
  (\<open>CheckConstraints\<close>), the Birkhoff matrix whose rows evaluate derivatives of monomials
  (\<open>pkg/base/polynomials/interpolation/birkhoff\<close>), and \<open>InducedMSP\<close> of \<open>accessstructures/hierarchical\<close>. The last
  constraint compares two floating point numbers; its outcome is the field \<open>exceedsOrder\<close> of the prime field.
\<close>

section \<open>The Birkhoff matrix\<close>

text \<open>\<open>Phi t x j\<close>: the derivative of order \<open>j\<close> of the monomial of degree \<open>t\<close>, at \<open>x\<close>.\<close>

definition Phi :: "nat \<Rightarrow> 'a::field \<Rightarrow> 64 word \<Rightarrow> 'a res" where
  "Phi t i j =
     (if j > word_of_nat t then Inr 0
      else rbind (poly_New ((replicate (t + 1) 0)[t := 1])) (\<lambda>poly.
        rbind (FoldOrError (\<lambda>poly _. poly_Derivative poly) poly [0..<unat j]) (\<lambda>poly.
        Inr (poly_Eval poly i))))"

definition birkhoff_BuildVandermondeMatrix :: "('a::field) list \<Rightarrow> (64 word) list \<Rightarrow> int \<Rightarrow> 'a Matrix res" where
  "birkhoff_BuildVandermondeMatrix xs js cols =
     (if length xs \<noteq> length js then Inl ErrValidation
      else if cols \<le> 0 then Inl ErrValidation
      else rbind (MapOrError (\<lambda>r. MapOrError (\<lambda>c. Phi c (xs ! r) (js ! r)) [0..<nat cols]) [0..<length xs]) (\<lambda>rows.
        if xs = [] then Inl Panic
        else rbind (NewMatrixModule (length xs) (nat cols) (Some ())) (\<lambda>matrices.
          mod_NewRowMajor matrices (concat rows))))"

section \<open>Constraints and the programme\<close>

text \<open>The loop over the levels; the result is the greatest identifier.\<close>

fun CheckConstraints_levels :: "ThresholdLevel list \<Rightarrow> ID \<Rightarrow> ID hset \<Rightarrow> ID res" where
  "CheckConstraints_levels [] prevMax cummulativeIds = Inr prevMax"
| "CheckConstraints_levels (level # levels) prevMax cummulativeIds =
     (if list_ex (\<lambda>id. id \<le> prevMax) (Level_Shareholders level) then Inl ErrMembership
      else (let cummulativeIds = hs_AddAll cummulativeIds (Level_Shareholders level);
                allIds = sort (hs_List cummulativeIds) in
        if allIds = [] then Inl Panic
        else CheckConstraints_levels levels (last allIds) cummulativeIds))"

definition CheckConstraints :: "PrimeField option \<Rightarrow> Hierarchical option \<Rightarrow> unit res" where
  "CheckConstraints field ac = (case (field, ac) of
     (Some f, Some h) \<Rightarrow>
       rbind (CheckConstraints_levels h 0 (hs_NewComparable [])) (\<lambda>prevMax.
         if h = [] then Inl Panic
         else (let n = prevMax + 1; k = word_of_int (lv_threshold (last h)) + 1 in
           if k > 20 then Inl ErrFailed
           else (case FactorialUint64 (k - 1) of Inl _ \<Rightarrow> Inl Panic
             | Inr _ \<Rightarrow> if exceedsOrder f n k then Inl ErrFailed else Inr ())))
   | _ \<Rightarrow> Inl ErrIsNil)"

definition Hierarchical_InducedMSP :: "PrimeField option \<Rightarrow> Hierarchical option \<Rightarrow> ('a::field) MSP res" where
  "Hierarchical_InducedMSP f ac =
     rbind (CheckConstraints f ac) (\<lambda>_. case ac of None \<Rightarrow> Inl Panic
     | Some ac \<Rightarrow>
        (let shareHolders = sort (hs_List (Hierarchical_Shareholders ac)); thresholds = Hierarchical_Thresholds ac in
         if thresholds = [] then Inl Panic
         else rbind (MapOrError (\<lambda>id. case Hierarchical_Rank ac id of Inl _ \<Rightarrow> Inl ErrMembership
               | Inr j \<Rightarrow> Inr (FromUint64 id, word_of_int j)) shareHolders) (\<lambda>nodes.
           rbind (birkhoff_BuildVandermondeMatrix (map fst nodes) (map snd nodes) (last thresholds)) (\<lambda>matrix.
             NewMSP (Some matrix) (Some (label_rows shareHolders))))))"

section \<open>Derivatives\<close>

lemma pcoeff_Derivative:
  fixes p :: "('a::comm_ring_1) Polynomial"
  assumes "coeffs p \<noteq> []"
  obtains q where "poly_Derivative p = Inr q" "coeffs q \<noteq> []" "length (coeffs q) \<le> length (coeffs p)"
    "\<And>i. pcoeff q i = of_nat (Suc i) * pcoeff p (Suc i)"
proof (cases "poly_Degree p \<le> 0")
  case True
  have "pcoeff p (Suc i) = 0" for i using True poly_Degree_spec(3) [of p "Suc i"] by simp
  with True assms show ?thesis
    by (intro that [of poly_Zero]) (auto simp: poly_Derivative_def poly_Zero_def pcoeff_def nth_default_def Suc_le_eq)
next
  case False
  let ?n = "nat (poly_Degree p)"
  let ?q = "\<lparr>coeffs = map (\<lambda>i. scalarMulNative (coeffs p ! i) i) [1..<Suc ?n]\<rparr>"
  have n: "0 < ?n" "?n < length (coeffs p)" using False poly_Degree_spec(1) [of p] by auto
  have mul: "nsum m x = of_nat m * x" for m and x :: 'a by (induction m) (simp_all add: algebra_simps)
  have "pcoeff ?q i = of_nat (Suc i) * pcoeff p (Suc i)" for i
  proof (cases "i < ?n")
    case True
    then show ?thesis using n by (simp add: pcoeff_nth scalarMulNative_nsum mul del: upt_Suc)
  next
    case False
    then show ?thesis using poly_Degree_spec(3) [of p "Suc i"] by (simp add: pcoeff_beyond del: upt_Suc)
  qed
  then show ?thesis by (rule that [of ?q, rotated 3]) (use False assms n in \<open>auto simp: poly_Derivative_def\<close>)
qed

lemma Derivatives_ok:
  fixes p :: "('a::comm_ring_1) Polynomial"
  assumes "coeffs p \<noteq> []"
  shows "\<exists>q. FoldOrError (\<lambda>p _. poly_Derivative p) p us = Inr q \<and> length (coeffs q) \<le> length (coeffs p) \<and>
    (\<forall>i. pcoeff q i = of_nat (\<Prod>k<length us. i + length us - k) * pcoeff p (i + length us))"
  using assms
proof (induction us arbitrary: p)
  case (Cons u us)
  obtain d where d: "poly_Derivative p = Inr d" "coeffs d \<noteq> []" "length (coeffs d) \<le> length (coeffs p)"
    "\<And>i. pcoeff d i = of_nat (Suc i) * pcoeff p (Suc i)" by (rule pcoeff_Derivative [OF Cons.prems]) (rule that)
  from Cons.IH [OF d(2)] obtain q where q: "FoldOrError (\<lambda>p _. poly_Derivative p) d us = Inr q" "length (coeffs q) \<le> length (coeffs d)"
    "\<forall>i. pcoeff q i = of_nat (\<Prod>k<length us. i + length us - k) * pcoeff d (i + length us)" by blast
  have "pcoeff q i = of_nat (\<Prod>k<length (u # us). i + length (u # us) - k) * pcoeff p (i + length (u # us))" for i
    unfolding q(3) [rule_format, of i] d(4) length_Cons prod.lessThan_Suc_shift by (simp add: algebra_simps)
  with d q show ?case by auto
qed simp

text \<open>The entry of the Birkhoff matrix: a falling factorial times a power, or zero past the degree.\<close>

lemma Phi_ok:
  fixes x :: "'a::field"
  assumes u: "unat (word_of_nat t :: 64 word) = t"
  shows "Phi t x j = Inr (if t < unat j then 0 else of_nat (\<Prod>k<unat j. t - k) * x ^ (t - unat j))"
proof (cases "t < unat j")
  case True
  then show ?thesis using u by (simp add: Phi_def word_less_nat_alt)
next
  case False
  define p :: "'a Polynomial" where "p = \<lparr>coeffs = (replicate (t + 1) 0)[t := 1]\<rparr>"
  have len: "length (coeffs p) = Suc t" by (simp add: p_def del: replicate_Suc)
  then have ne: "coeffs p \<noteq> []" by auto
  have c: "pcoeff p i = (if i = t then 1 else 0)" for i by (auto simp: p_def pcoeff_def nth_default_def nth_list_update simp del: replicate_Suc)
  obtain q where q: "FoldOrError (\<lambda>p _. poly_Derivative p) p [0..<unat j] = Inr q" "length (coeffs q) \<le> Suc t"
    "\<forall>i. pcoeff q i = of_nat (\<Prod>k<unat j. i + unat j - k) * pcoeff p (i + unat j)"
    using Derivatives_ok [OF ne, of "[0..<unat j]"] unfolding len length_upt diff_zero by blast
  have "poly_Eval q x = (\<Sum>i<Suc t. pcoeff q i * x ^ i)" by (rule poly_Eval_pcoeff [OF q(2)])
  also have "\<dots> = pcoeff q (t - unat j) * x ^ (t - unat j)"
    by (rule sum_single) (use False q(3) c in auto)
  also have "\<dots> = of_nat (\<Prod>k<unat j. t - k) * x ^ (t - unat j)" using False c q(3) [rule_format, of "t - unat j"] by simp
  finally have "poly_Eval q x = of_nat (\<Prod>k<unat j. t - k) * x ^ (t - unat j)" .
  moreover have "\<not> j > word_of_nat t" using False u by (simp add: word_less_nat_alt)
  moreover have "poly_New ((replicate (t + 1) 0)[t := 1]) = Inr p" by (simp add: poly_New_def p_def del: replicate_Suc)
  ultimately show ?thesis using False q(1) by (simp add: Phi_def del: replicate_Suc of_nat_prod)
qed

lemma birkhoff_BuildVandermonde_ok:
  fixes xs :: "'a::field list"
  assumes "length js = length xs" "xs \<noteq> []" "0 < cols" "cols < 2 ^ 64"
  obtains v where "birkhoff_BuildVandermondeMatrix xs js (int cols) = Inr v" "mat_wf v" "mrows v = length xs" "mcols v = cols"
    "\<And>r c. r < length xs \<Longrightarrow> c < cols \<Longrightarrow>
      ent v r c = (if c < unat (js ! r) then 0 else of_nat (\<Prod>k<unat (js ! r). c - k) * (xs ! r) ^ (c - unat (js ! r)))"
proof -
  define e :: "nat \<Rightarrow> nat \<Rightarrow> 'a" where
    "e r c = (if c < unat (js ! r) then 0 else of_nat (\<Prod>k<unat (js ! r). c - k) * (xs ! r) ^ (c - unat (js ! r)))" for r c
  define rows where "rows = map (\<lambda>r. map (e r) [0..<cols]) [0..<length xs]"
  let ?v = "\<lparr>mrows = length xs, mcols = cols, mdata = concat rows\<rparr>"
  have phi: "MapOrError (\<lambda>c. Phi c (xs ! r) (js ! r)) [0..<cols] = Inr (map (e r) [0..<cols])" for r
    unfolding e_def by (rule MapOrError_ok, rule Phi_ok) (use assms(4) in \<open>simp add: unat_of_nat\<close>)
  have entries: "MapOrError (\<lambda>r. MapOrError (\<lambda>c. Phi c (xs ! r) (js ! r)) [0..<cols]) [0..<length xs] = Inr rows"
    unfolding rows_def by (rule MapOrError_ok) (rule phi)
  have len: "\<And>ys. ys \<in> set rows \<Longrightarrow> length ys = cols" "length rows = length xs" by (auto simp: rows_def)
  have n: "length (concat rows) = length xs * cols" using length_concat_const [of rows cols, OF len(1)] len(2) by simp
  have "mod_NewRowMajor \<lparr>modrows = length xs, modcols = cols\<rparr> (concat rows) = Inr ?v" using n by (simp add: mod_NewRowMajor_def)
  then have new: "birkhoff_BuildVandermondeMatrix xs js (int cols) = Inr ?v"
    unfolding birkhoff_BuildVandermondeMatrix_def NewMatrixModule_def nat_int entries using assms(1-3) by simp
  have wf: "mat_wf ?v" unfolding mat_wf_def using assms(2,3) n by simp
  have ent: "ent ?v r c = e r c" if "r < length xs" "c < cols" for r c
    using nth_concat_const [of rows cols r c, OF len(1)] that len(2) by (simp add: ent_def mat_idx_def rows_def)
  show ?thesis by (rule that [OF new wf]) (use ent in \<open>auto simp: e_def\<close>)
qed

section \<open>Constraints\<close>

text \<open>The identifiers of a level are above those of the levels before it.\<close>

definition ids_ascend :: "ID set \<Rightarrow> Hierarchical \<Rightarrow> bool" where
  "ids_ascend C h \<longleftrightarrow> (\<forall>i<length h. \<forall>x\<in>set (lv_parties (h ! i)). \<forall>y\<in>C \<union> hier_parties h i. y < x)"

lemma hier_parties_Cons: "hier_parties (l # h) (Suc i) = set (lv_parties l) \<union> hier_parties h i"
  by (simp add: hier_parties_def)

lemma ids_ascend_Cons:
  "ids_ascend C (l # h) \<longleftrightarrow> (\<forall>x\<in>set (lv_parties l). \<forall>y\<in>C. y < x) \<and> ids_ascend (C \<union> set (lv_parties l)) h"
  unfolding ids_ascend_def length_Cons All_less_Suc2 by (simp add: hier_parties_Cons Un_assoc)

lemma last_sort: "xs \<noteq> [] \<Longrightarrow> last (sort xs) = Max (set (xs :: 'a::linorder list))"
proof -
  assume "xs \<noteq> []"
  then have ne: "sort xs \<noteq> []" by (metis set_empty set_sort)
  have "y \<le> last (sort xs)" if y: "y \<in> set xs" for y
  proof -
    from y obtain i where i: "i < length (sort xs)" "sort xs ! i = y" by (metis in_set_conv_nth set_sort)
    have "sort xs ! i \<le> sort xs ! (length (sort xs) - 1)" by (rule sorted_nth_mono) (use i(1) in auto)
    with i(2) ne show ?thesis by (simp add: last_conv_nth)
  qed
  moreover have "last (sort xs) \<in> set xs" using last_in_set [OF ne] by simp
  ultimately show "last (sort xs) = Max (set xs)" by (intro Max_eqI [symmetric]) auto
qed

lemma CheckConstraints_levels_spec:
  assumes "prevMax = (if cum = [] then 0 else Max (set cum))" "0 \<notin> hier_parties h (length h)"
    and "cum = [] \<Longrightarrow> h \<noteq> [] \<Longrightarrow> lv_parties (hd h) \<noteq> []"
  shows "CheckConstraints_levels h prevMax cum =
    (if ids_ascend (set cum) h then Inr (if h = [] then prevMax else Max (set cum \<union> hier_parties h (length h))) else Inl ErrMembership)"
  using assms
proof (induction h arbitrary: prevMax cum)
  case Nil
  then show ?case by (simp add: ids_ascend_def)
next
  case (Cons l h)
  let ?c = "hs_AddAll cum (Level_Shareholders l)"
  have set: "set (Level_Shareholders l) = set (lv_parties l)" by (simp add: Level_Shareholders_def)
  have c: "set ?c = set cum \<union> set (lv_parties l)" "?c \<noteq> []"
    using Cons.prems(3) set by (auto simp flip: set_empty)
  have "0 < x" if "x \<in> set (lv_parties l)" for x using that Cons.prems(2) by (auto simp: hier_parties_Cons word_gt_0)
  then have low: "list_ex (\<lambda>id. id \<le> prevMax) (Level_Shareholders l) \<longleftrightarrow> \<not> (\<forall>x\<in>set (lv_parties l). \<forall>y\<in>set cum. y < x)"
    using Cons.prems(1) Max_ge_iff [of "set cum"] by (cases "cum = []") (auto simp: list_ex_iff set not_less not_le)
  have ih: "CheckConstraints_levels h (last (sort ?c)) ?c = (if ids_ascend (set ?c) h
      then Inr (if h = [] then last (sort ?c) else Max (set ?c \<union> hier_parties h (length h))) else Inl ErrMembership)"
    by (rule Cons.IH) (use Cons.prems(2) c(2) in \<open>auto simp: last_sort hier_parties_Cons\<close>)
  have "sort ?c \<noteq> []" using c(2) by (metis set_empty set_sort)
  then show ?case using low ih c by (auto simp: ids_ascend_Cons hs_List_def Let_def hier_parties_Cons last_sort Un_assoc)
qed

lemma CheckConstraints_spec:
  assumes wf: "Hierarchical_wf h" and t: "lv_threshold (last h) < 2 ^ 63"
  shows "CheckConstraints (Some F) (Some h) =
    (if \<not> ids_ascend {} h then Inl ErrMembership
     else if 19 < lv_threshold (last h) \<or>
       exceedsOrder F (Max (hier_parties h (length h)) + 1) (word_of_int (lv_threshold (last h)) + 1) then Inl ErrFailed
     else Inr ())"
proof -
  let ?t = "lv_threshold (last h)"
  have ne: "h \<noteq> []" and z: "0 \<notin> hier_parties h (length h)" using wf by (simp_all add: Hierarchical_wf_def)
  have "lv_parties (hd h) \<noteq> []"
    using wf ne by (cases h) (auto simp: Hierarchical_wf_def hier_parties_Cons dest: spec [of _ 0])
  then have levels: "CheckConstraints_levels h 0 (hs_NewComparable []) = (if ids_ascend {} h then Inr (Max (hier_parties h (length h))) else Inl ErrMembership)"
    using CheckConstraints_levels_spec [of 0 "[]" h] ne z by (simp add: hs_NewComparable_def hs_AddAll_def)
  have pos: "0 < ?t" using wf ne by (auto simp: Hierarchical_wf_def)
  let ?k = "word_of_int ?t + 1 :: 64 word"
  have u: "unat (word_of_int ?t :: 64 word) = nat ?t" using pos t by (simp add: unat_eq_nat_uint uint_word_of_int)
  have k: "unat ?k = nat ?t + 1" using pos t unfolding unat_word_ariths u by (simp add: nat_less_iff)
  have big: "?k > 20 \<longleftrightarrow> 19 < ?t" using pos by (simp add: word_less_nat_alt k zless_nat_eq_int_zless)
  have "is_ok (FactorialUint64 (?k - 1))" if "\<not> 19 < ?t"
    using that by (simp add: FactorialUint64_def word_less_nat_alt u)
  then show ?thesis using levels ne big by (auto simp: CheckConstraints_def Let_def is_ok_iff)
qed

lemma Hierarchical_InducedMSP_ok:
  assumes wf: "Hierarchical_wf h" and t: "lv_threshold (last h) < 2 ^ 63" and chk: "CheckConstraints (Some F) (Some h) = Inr ()"
  obtains m where "(Hierarchical_InducedMSP (Some F) (Some h) :: 'a::field MSP res) = Inr m" "msp_wf m"
    "msp_holders m = set (Hierarchical_Shareholders h)" "mrows (msp_matrix m) = length (Hierarchical_Shareholders h)"
    "mcols (msp_matrix m) = nat (lv_threshold (last h))"
    "\<And>i. i < mrows (msp_matrix m) \<Longrightarrow> row_label m i = sort (Hierarchical_Shareholders h) ! i"
    "\<And>i. i < mrows (msp_matrix m) \<Longrightarrow> \<exists>r. Hierarchical_Rank h (row_label m i) = Inr (int r) \<and>
      (\<forall>c<mcols (msp_matrix m). ent (msp_matrix m) i c = (if c < r then 0 else of_nat (\<Prod>k<r. c - k) * FromUint64 (row_label m i) ^ (c - r)))"
proof -
  let ?ids = "sort (Hierarchical_Shareholders h)" and ?t = "lv_threshold (last h)"
  have ne: "h \<noteq> []" using wf by (simp add: Hierarchical_wf_def)
  have pos: "0 < ?t" using wf ne by (auto simp: Hierarchical_wf_def)
  have "\<forall>x\<in>set ?ids. \<exists>r. Hierarchical_Rank h x = Inr (int r) \<and> int r < ?t"
    using Hierarchical_Rank_bounds [OF wf] by (fastforce split: if_splits intro: exI [of _ "nat k" for k])
  then obtain rk where rk: "\<And>x. x \<in> set ?ids \<Longrightarrow> Hierarchical_Rank h x = Inr (int (rk x)) \<and> int (rk x) < ?t" by metis
  define xs js where "xs = map (FromUint64 :: ID \<Rightarrow> 'a) ?ids" and "js = map (\<lambda>x. word_of_int (int (rk x)) :: 64 word) ?ids"
  have nodes: "MapOrError (\<lambda>id. case Hierarchical_Rank h id of Inl _ \<Rightarrow> Inl ErrMembership
      | Inr j \<Rightarrow> Inr (FromUint64 id, word_of_int j)) ?ids = Inr (zip xs js)"
    unfolding xs_def js_def zip_map_map zip_same_conv_map map_map by (rule MapOrError_ok) (simp add: rk)
  have len: "length js = length xs" "length xs = length ?ids" by (simp_all add: xs_def js_def)
  have at: "unat (js ! r) = rk (?ids ! r)" "xs ! r = FromUint64 (?ids ! r)" if "r < length ?ids" for r
    using rk [OF nth_mem [OF that]] t that by (simp_all add: js_def xs_def unat_of_nat)
  have sh: "set ?ids = hier_parties h (length h)" "distinct ?ids"
    using Hierarchical_Shareholders_set [of h] Hierarchical_Shareholders_wf [of h] by (simp_all add: hs_wf_def)
  have "?t \<le> int (card (hier_parties h (length h)))"
    using wf ne by (cases h rule: rev_cases) (auto simp: Hierarchical_wf_def dest: spec [of _ "length h - 1"])
  then have ids: "?ids \<noteq> []" using pos sh(1) by (auto simp flip: set_empty simp del: set_sort)
  have cols: "int (nat ?t) = ?t" "0 < nat ?t" "nat ?t < 2 ^ 64" using pos t by simp_all
  obtain v where v: "birkhoff_BuildVandermondeMatrix xs js ?t = Inr v" "mat_wf v" "mrows v = length xs" "mcols v = nat ?t"
    "\<And>r c. r < length xs \<Longrightarrow> c < nat ?t \<Longrightarrow> ent v r c = (if c < unat (js ! r) then 0
      else of_nat (\<Prod>k<unat (js ! r). c - k) * xs ! r ^ (c - unat (js ! r)))"
    using birkhoff_BuildVandermonde_ok [OF len(1) _ cols(2,3), unfolded cols(1)] ids len(2) by (metis length_0_conv)
  have ent: "ent v r c = (if c < rk (?ids ! r) then 0 else of_nat (\<Prod>k<rk (?ids ! r). c - k) * FromUint64 (?ids ! r) ^ (c - rk (?ids ! r)))"
    if "r < length ?ids" "c < nat ?t" for r c
    using v(5) [of r c] that at [of r] len(2) by (simp del: of_nat_prod)
  have zero: "0 \<notin> set ?ids" using wf sh(1) by (simp add: Hierarchical_wf_def)
  obtain m where m: "NewMSP (Some v) (Some (label_rows ?ids)) = Inr m" "msp_wf m" "msp_matrix m = v"
    "\<And>i. i < mrows v \<Longrightarrow> row_label m i = ?ids ! i" "msp_holders m = set ?ids"
    by (rule NewMSP_label_rows [OF v(2), of ?ids]) (use v(3) len(2) zero in \<open>auto intro: that\<close>)
  have "last (Hierarchical_Thresholds h) = ?t" using ne by (simp add: Hierarchical_Thresholds_def last_map)
  then have "(Hierarchical_InducedMSP (Some F) (Some h) :: 'a MSP res) = Inr m"
    using chk nodes v(1) m(1) ne len by (simp add: Hierarchical_InducedMSP_def hs_List_def Let_def Hierarchical_Thresholds_def)
  moreover have "\<exists>r. Hierarchical_Rank h (row_label m i) = Inr (int r) \<and> (\<forall>c<mcols (msp_matrix m). ent (msp_matrix m) i c =
      (if c < r then 0 else of_nat (\<Prod>k<r. c - k) * FromUint64 (row_label m i) ^ (c - r)))" if "i < mrows (msp_matrix m)" for i
    using that rk [OF nth_mem, of i] ent m(3) m(4) [of i] v(3,4) len(2) by (intro exI [of _ "rk (?ids ! i)"]) (simp del: of_nat_prod)
  ultimately show thesis by (intro that [of m]) (use v(3,4) len(2) m in simp_all)
qed

section \<open>Properties\<close>

text \<open>
  C31. The span programme of a hierarchical structure, for every structure the constructor accepts and thresholds in the range of \<open>int\<close>.
  \<open>CheckConstraints\<close> rejects it exactly when an identifier is not above all identifiers of the levels before its own, when the
  last threshold is above 19, or when the comparison with the order of the field says so, and \<open>InducedMSP\<close> then returns that error. Otherwise
  \<open>InducedMSP\<close> succeeds with as many columns as the last threshold and one row per shareholder, and the row of the shareholder \<open>x\<close> of
  rank \<open>r\<close> holds in column \<open>c\<close> the derivative of order \<open>r\<close> of the monomial of degree \<open>c\<close> at \<open>x\<close>: zero for \<open>c < r\<close>, and
  \<open>c (c - 1) ... (c - r + 1) x ^ (c - r)\<close> from there on.
\<close>

theorem Hierarchical_InducedMSP_correct:
  assumes "NewHierarchical levels = Inr h" "lv_threshold (last h) < 2 ^ 63"
  shows "let t = lv_threshold (last h); P = set (Hierarchical_Shareholders h) in
    if (\<exists>i<length h. \<exists>x\<in>set (lv_parties (h ! i)). \<exists>y\<in>hier_parties h i. x \<le> y)
    then (Hierarchical_InducedMSP (Some F) (Some h) :: 'a::field MSP res) = Inl ErrMembership
    else if 19 < t \<or> exceedsOrder F (Max P + 1) (word_of_int t + 1)
    then (Hierarchical_InducedMSP (Some F) (Some h) :: 'a MSP res) = Inl ErrFailed
    else \<exists>m. (Hierarchical_InducedMSP (Some F) (Some h) :: 'a MSP res) = Inr m \<and>
      mrows (msp_matrix m) = card P \<and> int (mcols (msp_matrix m)) = t \<and>
      (\<forall>x. length (rows_for m {x}) = (if x \<in> P then 1 else 0)) \<and>
      (\<forall>i<mrows (msp_matrix m). \<exists>r. Hierarchical_Rank h (row_label m i) = Inr (int r) \<and>
        (\<forall>c<mcols (msp_matrix m). ent (msp_matrix m) i c =
          (if c < r then 0 else of_nat (\<Prod>k<r. c - k) * FromUint64 (row_label m i) ^ (c - r))))"
proof -
  have wf: "Hierarchical_wf h" using NewHierarchical_wf [OF assms(1)] by blast
  let ?t = "lv_threshold (last h)" and ?P = "set (Hierarchical_Shareholders h)"
  have asc: "ids_ascend {} h \<longleftrightarrow> \<not> (\<exists>i<length h. \<exists>x\<in>set (lv_parties (h ! i)). \<exists>y\<in>hier_parties h i. x \<le> y)"
    by (simp add: ids_ascend_def) (metis linorder_not_le)
  note chk = CheckConstraints_spec [OF wf assms(2), of F, folded Hierarchical_Shareholders_set]
  show ?thesis
  proof (cases "CheckConstraints (Some F) (Some h)")
    case (Inl e)
    then have "(Hierarchical_InducedMSP (Some F) (Some h) :: 'a MSP res) = Inl e" by (simp add: Hierarchical_InducedMSP_def)
    with Inl chk asc show ?thesis by (auto simp: Let_def split: if_splits)
  next
    case (Inr u)
    then have ok: "CheckConstraints (Some F) (Some h) = Inr ()" by simp
    obtain m where m: "(Hierarchical_InducedMSP (Some F) (Some h) :: 'a MSP res) = Inr m" "mrows (msp_matrix m) = length (Hierarchical_Shareholders h)"
      "mcols (msp_matrix m) = nat ?t" "\<And>i. i < mrows (msp_matrix m) \<Longrightarrow> row_label m i = sort (Hierarchical_Shareholders h) ! i"
      "\<And>i. i < mrows (msp_matrix m) \<Longrightarrow> \<exists>r. Hierarchical_Rank h (row_label m i) = Inr (int r) \<and>
        (\<forall>c<mcols (msp_matrix m). ent (msp_matrix m) i c = (if c < r then 0 else of_nat (\<Prod>k<r. c - k) * FromUint64 (row_label m i) ^ (c - r)))"
      by (rule Hierarchical_InducedMSP_ok [OF wf assms(2) ok]) (rule that)
    have d: "distinct (Hierarchical_Shareholders h)" using Hierarchical_Shareholders_wf [of h] by (simp add: hs_wf_def)
    have one: "length (rows_for m {x}) = (if x \<in> ?P then 1 else 0)" for x
      using one_row_each [of m "sort (Hierarchical_Shareholders h)" x] m(2,4) d by simp
    have "0 < ?t" using wf by (auto simp: Hierarchical_wf_def)
    with Inr chk asc m(1-3,5) one distinct_card [OF d] show ?thesis by (simp add: Let_def split: if_splits del: of_nat_prod)
  qed
qed

text \<open>Two levels over the rationals: the third party gets the row of the derivative.\<close>

theorem Hierarchical_InducedMSP_correct_witness:
  "\<exists>h m. NewHierarchical [Some \<lparr>lv_threshold = 1, lv_parties = [1, 2]\<rparr>, Some \<lparr>lv_threshold = 2, lv_parties = [3]\<rparr>] = Inr h \<and>
     (Hierarchical_InducedMSP (Some \<lparr>exceedsOrder = \<lambda>_ _. False\<rparr>) (Some h) :: rat MSP res) = Inr m \<and>
     mrows (msp_matrix m) = 3 \<and> mcols (msp_matrix m) = 2"
proof -
  let ?ls = "[Some \<lparr>lv_threshold = 1, lv_parties = [1, 2]\<rparr>, Some \<lparr>lv_threshold = 2, lv_parties = [3]\<rparr>]"
  let ?h = "[\<lparr>lv_threshold = 1, lv_parties = [1, 2]\<rparr>, \<lparr>lv_threshold = 2, lv_parties = [3]\<rparr>]"
  have h: "NewHierarchical ?ls = Inr ?h"
    by (simp add: NewHierarchical_def hs_NewComparable_def hs_AddAll_def hs_Add_def hs_Contains_def hs_Intersection_def hs_Size_def hs_List_def Let_def)
  have P: "Hierarchical_Shareholders ?h = [1, 2, 3]"
    by (simp add: Hierarchical_Shareholders_def hs_NewComparable_def hs_AddAll_def hs_Add_def hs_Contains_def)
  have "\<not> (3 :: ID) \<le> 1" by code_simp
  then have asc: "\<not> (\<exists>i<length ?h. \<exists>x\<in>set (lv_parties (?h ! i)). \<exists>y\<in>hier_parties ?h i. x \<le> y)"
    by (simp add: Ex_less_Suc hier_parties_def)
  note res = Hierarchical_InducedMSP_correct [OF h, of "\<lparr>exceedsOrder = \<lambda>_ _. False\<rparr>", where ?'a = rat, unfolded Let_def if_not_P [OF asc] P]
  from res h show ?thesis by auto
qed

end
