(* ===== verification/Shards.thy ===== *)
theory Shards
  imports BoolExpr Feldman PedersenVSS HierarchicalMSP
begin

text \<open>
  Key material over an access structure: the dispatch from an access structure to its span programme
  (\<open>accessstructures/access_structure.go\<close>), the constructors of the sharing schemes that go through it, the public
  material and the shards of \<open>pkg/mpc/base.go\<close>, and the trusted dealer of \<open>pkg/mpc/dkg/trusteddealer\<close>. The group of
  a verification vector is the parameter \<open>G\<close>; a structure of a foreign type is given by its three methods.
\<close>

section \<open>Dispatch\<close>

datatype Monotone =
    Unanimity_as Unanimity
  | Threshold_as Threshold
  | Hierarchical_as Hierarchical
  | CNF_as CNF
  | BoolExpr_as ThresholdGateAccessStructure
  | Other_as "ID hset" "ID list \<Rightarrow> bool" "ID hset list"

text \<open>\<open>None\<close> stands for a conversion that does not end, see \<open>convert_loop\<close>.\<close>

definition as_InducedMSP :: "PrimeField option \<Rightarrow> Monotone \<Rightarrow> ('a::field) MSP res option" where
  "as_InducedMSP f ac = (case ac of
     Unanimity_as u \<Rightarrow> Some (Unanimity_InducedMSP f (Some u))
   | Threshold_as t \<Rightarrow> Some (Threshold_InducedMSP f (Some t))
   | Hierarchical_as h \<Rightarrow> Some (Hierarchical_InducedMSP f (Some h))
   | CNF_as c \<Rightarrow> Some (CNF_InducedMSP f (Some c))
   | BoolExpr_as b \<Rightarrow> BoolExpr_InducedMSP f b
   | Other_as _ _ muss \<Rightarrow> Some (rbind (ConvertToCNF (Some muss)) (\<lambda>ascnf. CNF_InducedMSP f (Some ascnf))))"

definition as_Shareholders :: "Monotone \<Rightarrow> ID hset" where
  "as_Shareholders ac = (case ac of
     Unanimity_as u \<Rightarrow> Unanimity_Shareholders u
   | Threshold_as t \<Rightarrow> Threshold_Shareholders t
   | Hierarchical_as h \<Rightarrow> Hierarchical_Shareholders h
   | CNF_as c \<Rightarrow> CNF_Shareholders c
   | BoolExpr_as b \<Rightarrow> tg_Shareholders b
   | Other_as U _ _ \<Rightarrow> U)"

definition kw_NewScheme :: "PrimeField option \<Rightarrow> Monotone \<Rightarrow> ('a::field) KWScheme res option" where
  "kw_NewScheme f ac = map_option (\<lambda>r. rbind r (\<lambda>m. Inr \<lparr>kw_msp = m\<rparr>)) (as_InducedMSP f ac)"

text \<open>The field argument is the scalar structure of the group, which is never nil.\<close>

definition feldman_NewScheme :: "('g, 'a::field) PrimeGroup option \<Rightarrow> Monotone option \<Rightarrow> ('g, 'a) FeldmanScheme res option" where
  "feldman_NewScheme grp accessStructure = (case grp of
     None \<Rightarrow> Some (Inl ErrIsNil)
   | Some G \<Rightarrow> (case accessStructure of
       None \<Rightarrow> Some (Inl ErrIsNil)
     | Some ac \<Rightarrow> map_option (\<lambda>r. rbind r (\<lambda>l. Inr \<lparr>fs_group = G, fs_lsss = l\<rparr>)) (kw_NewScheme (Some (ScalarStructure G)) ac)))"

definition pvss_NewScheme :: "('g, 'a::field) CommitmentKey option \<Rightarrow> Monotone option \<Rightarrow> ('g, 'a) PedersenScheme res option" where
  "pvss_NewScheme key accessStructure = (case key of
     None \<Rightarrow> Some (Inl ErrIsNil)
   | Some k \<Rightarrow> (case accessStructure of
       None \<Rightarrow> Some (Inl ErrIsNil)
     | Some ac \<Rightarrow> map_option (\<lambda>r. rbind r (\<lambda>l. Inr \<lparr>pvss_key = k, pvss_lsss = l\<rparr>)) (kw_NewScheme (Some (ScalarStructure (ck_group k))) ac)))"

section \<open>Public material and shards\<close>

record ('g, 'a) BasePublicMaterial =
  bpm_msp :: "'a MSP"
  bpm_fv :: "'g VerificationVector"
  bpm_pkValue :: 'g
  bpm_pkShares :: "(ID \<times> 'g LiftedShare) list"

definition NewBasePublicMaterial ::
  "('g::ab_group_add, 'a::field) PrimeGroup \<Rightarrow> 'a MSP option \<Rightarrow> 'g VerificationVector option \<Rightarrow> ('g, 'a) BasePublicMaterial res" where
  "NewBasePublicMaterial G mspMatrix fv = (case (mspMatrix, fv) of
     (Some m, Some v) \<Rightarrow>
       if mcols (vv_value v) \<noteq> 1 then Inl ErrInvalidArgument
       else if mrows (vv_value v) \<noteq> msp_D m then Inl ErrInvalidArgument
       else rbind (NewLiftedDealerFunc G (Some v) (Some m)) (\<lambda>df.
         rbind (MapOrError (\<lambda>i. rbind (ldf_ShareOf df i) (\<lambda>s. Inr (i, s))) (hs_List (msp_Shareholders m))) (\<lambda>pkShares.
         rbind (ldf_LiftedSecret G df) (\<lambda>pk.
         Inr \<lparr>bpm_msp = m, bpm_fv = v, bpm_pkValue = pk, bpm_pkShares = pkShares\<rparr>)))
   | _ \<Rightarrow> Inl ErrInvalidArgument)"

definition bpm_Equal :: "('g, 'a) BasePublicMaterial option \<Rightarrow> ('g, 'a) BasePublicMaterial option \<Rightarrow> bool" where
  "bpm_Equal a b = (case (a, b) of
     (Some x, Some y) \<Rightarrow> msp_Equal (Some (bpm_msp x)) (Some (bpm_msp y)) \<and> vv_Equal (Some (bpm_fv x)) (Some (bpm_fv y))
   | (None, None) \<Rightarrow> True
   | _ \<Rightarrow> False)"

definition bpm_MarshalCBOR :: "('a MSP option \<times> 'g VerificationVector option \<Rightarrow> 'b res) \<Rightarrow> ('g, 'a) BasePublicMaterial \<Rightarrow> 'b res" where
  "bpm_MarshalCBOR enc p = enc (Some (bpm_msp p), Some (bpm_fv p))"

definition bpm_UnmarshalCBOR ::
  "('g::ab_group_add, 'a::field) PrimeGroup \<Rightarrow> ('b \<Rightarrow> ('a MSP option \<times> 'g VerificationVector option) res) \<Rightarrow> 'b \<Rightarrow>
     ('g, 'a) BasePublicMaterial res" where
  "bpm_UnmarshalCBOR G dec data = rbind (dec data) (\<lambda>(m, v). NewBasePublicMaterial G m v)"

record ('g, 'a) BaseShard =
  bs_share :: "'a KWShare"
  bs_public :: "('g, 'a) BasePublicMaterial"

definition NewBaseShard ::
  "('g::ab_group_add, 'a::field) PrimeGroup \<Rightarrow> 'a KWShare option \<Rightarrow> 'g VerificationVector option \<Rightarrow> 'a MSP option \<Rightarrow>
     ('g, 'a) BaseShard res" where
  "NewBaseShard G share fv mspMatrix =
     rbind (NewBasePublicMaterial G mspMatrix fv) (\<lambda>pub. case share of
       None \<Rightarrow> Inl ErrInvalidArgument
     | Some sh \<Rightarrow> (case map_of (bpm_pkShares pub) (sh_id sh) of
         None \<Rightarrow> Inl ErrInvalidArgument
       | Some pks \<Rightarrow> rbind (LiftShare G (Some sh) (Some (Generator G))) (\<lambda>manuallyLiftedShare.
           if \<not> ls_Equal (Some manuallyLiftedShare) (Some pks) then Inl ErrInvalidArgument
           else Inr \<lparr>bs_share = sh, bs_public = pub\<rparr>)))"

definition bs_shard_Equal :: "('g, 'a) BaseShard option \<Rightarrow> ('g, 'a) BaseShard option \<Rightarrow> bool" where
  "bs_shard_Equal a b = (case (a, b) of
     (Some x, Some y) \<Rightarrow> kw_Equal (Some (bs_share x)) (Some (bs_share y)) \<and> bpm_Equal (Some (bs_public x)) (Some (bs_public y))
   | (None, None) \<Rightarrow> True
   | _ \<Rightarrow> False)"

definition shard_MarshalCBOR :: "('a KWShare option \<times> ('g, 'a) BasePublicMaterial \<Rightarrow> 'b res) \<Rightarrow> ('g, 'a) BaseShard \<Rightarrow> 'b res" where
  "shard_MarshalCBOR enc s = enc (Some (bs_share s), bs_public s)"

definition shard_UnmarshalCBOR ::
  "('g::ab_group_add, 'a::field) PrimeGroup \<Rightarrow> ('b \<Rightarrow> ('a KWShare option \<times> ('g, 'a) BasePublicMaterial) res) \<Rightarrow> 'b \<Rightarrow> ('g, 'a) BaseShard res" where
  "shard_UnmarshalCBOR G dec data =
     rbind (dec data) (\<lambda>(share, pm). NewBaseShard G share (Some (bpm_fv pm)) (Some (bpm_msp pm)))"

section \<open>The trusted dealer\<close>

definition trusteddealer_Deal ::
  "('g::ab_group_add, 'a::field) PrimeGroup option \<Rightarrow> Monotone option \<Rightarrow> 'a list option \<Rightarrow> (ID \<times> ('g, 'a) BaseShard) list res option" where
  "trusteddealer_Deal grp accessStructure prng =
     (if grp = None \<or> accessStructure = None \<or> prng = None then Some (Inl ErrIsNil)
      else map_option (\<lambda>r. rbind r (\<lambda>scheme.
        rbind (feldman_DealRandom scheme prng) (\<lambda>(shares, v, _, _).
        MapOrError (\<lambda>(i, share). rbind (NewBaseShard (fs_group scheme) (Some share) (Some v) (Some (kw_msp (fs_lsss scheme))))
          (\<lambda>shard. Inr (i, shard))) shares))) (feldman_NewScheme grp accessStructure))"

section \<open>A shard is a verified share\<close>

lemma pkShares_ok:
  assumes "\<And>i. i \<in> set is \<Longrightarrow> f i = Inr (g i)"
  shows "MapOrError (\<lambda>i. rbind (f i) (\<lambda>s. Inr (i, s))) is = Inr (map (\<lambda>i. (i, g i)) is)"
  using assms by (intro MapOrError_ok) auto

lemma NewBasePublicMaterial_commits:
  fixes m :: "('a::field) MSP" and G :: "('g::ab_group_add, 'a) PrimeGroup"
  assumes G: "prime_group G" and wf: "msp_wf m" and v: "commits G m v r"
  shows "NewBasePublicMaterial G (Some m) (Some v) = Inr \<lparr>bpm_msp = m, bpm_fv = v, bpm_pkValue = ScalarOp G (Generator G) (r 0),
    bpm_pkShares = map (\<lambda>i. (i, lifted_row_share m (\<lambda>j. ScalarOp G (Generator G) (row_value m r j)) i)) (msp_Shareholders m)\<rparr>"
proof -
  obtain d where d: "NewLiftedDealerFunc G (Some v) (Some m) = Inr d" "ldf_LiftedSecret G d = Inr (ScalarOp G (Generator G) (r 0))"
    "\<And>sid. sid \<in> msp_holders m \<Longrightarrow> ldf_ShareOf d sid = Inr (lifted_row_share m (\<lambda>i. ScalarOp G (Generator G) (row_value m r i)) sid)"
    by (rule LiftedSecret_ok [OF G wf v]) (rule that, blast+)
  have "MapOrError (\<lambda>i. rbind (ldf_ShareOf d i) (\<lambda>s. Inr (i, s))) (msp_Shareholders m) =
      Inr (map (\<lambda>i. (i, lifted_row_share m (\<lambda>j. ScalarOp G (Generator G) (row_value m r j)) i)) (msp_Shareholders m))"
    by (rule pkShares_ok) (simp add: d(3) msp_Shareholders_holders [OF wf])
  with d v show ?thesis by (simp add: NewBasePublicMaterial_def commits_def msp_D_def hs_List_def)
qed

lemma NewBaseShard_commits:
  fixes m :: "('a::field) MSP" and G :: "('g::ab_group_add, 'a) PrimeGroup"
  assumes G: "prime_group G" and wf: "msp_wf m" and v: "commits G m v r"
  shows "(\<exists>shard. NewBaseShard G (Some sh) (Some v) (Some m) = Inr shard) \<longleftrightarrow> sh_id sh \<in> msp_holders m \<and> sh = row_share m (row_value m r) (sh_id sh)"
    and "NewBaseShard G (Some sh) (Some v) (Some m) = Inr shard \<Longrightarrow>
      bs_share shard = sh \<and> bpm_msp (bs_public shard) = m \<and> bpm_fv (bs_public shard) = v \<and> bpm_pkValue (bs_public shard) = ScalarOp G (Generator G) (r 0)"
proof -
  let ?lift = "lifted_row_share m (\<lambda>j. ScalarOp G (Generator G) (row_value m r j))"
  have pks: "map_of (map (\<lambda>i. (i, ?lift i)) (msp_Shareholders m)) i = (if i \<in> msp_holders m then Some (?lift i) else None)" for i
    using msp_Shareholders_holders [OF wf] by (auto simp: map_of_map_restrict restrict_map_def)
  have ver: "feldman_Verify \<lparr>fs_group = G, fs_lsss = \<lparr>kw_msp = m\<rparr>\<rparr> (Some sh) (Some v) = Inr () \<longleftrightarrow>
      sh_id sh \<in> msp_holders m \<and> LiftShare G (Some sh) (Some (Generator G)) = Inr (?lift (sh_id sh))"
  proof -
    obtain d where d: "NewLiftedDealerFunc G (Some v) (Some m) = Inr d"
      "\<And>sid. ldf_ShareOf d sid = (if sid \<in> msp_holders m then Inr (?lift sid) else Inl ErrMembership)"
      using NewLiftedDealerFunc_ok [OF wf, of v G] v
      by (simp add: commits_def ldf_ShareOf_ok [OF wf] lifted_row [OF G, of m "\<lambda>c. ent (vv_value v) c 0" "Generator G" r, symmetric] del: One_nat_def)
    then show ?thesis by (auto simp: feldman_Verify_def rbind_eq_Inr_iff)
  qed
  note iff = feldman_Verify_iff [OF G wf v, of sh]
  show "(\<exists>shard. NewBaseShard G (Some sh) (Some v) (Some m) = Inr shard) \<longleftrightarrow> sh_id sh \<in> msp_holders m \<and> sh = row_share m (row_value m r) (sh_id sh)"
    unfolding iff [symmetric] ver
    by (auto simp: NewBaseShard_def NewBasePublicMaterial_commits [OF G wf v] pks rbind_eq_Inr_iff)
  show "NewBaseShard G (Some sh) (Some v) (Some m) = Inr shard \<Longrightarrow>
      bs_share shard = sh \<and> bpm_msp (bs_public shard) = m \<and> bpm_fv (bs_public shard) = v \<and> bpm_pkValue (bs_public shard) = ScalarOp G (Generator G) (r 0)"
    by (auto simp: NewBaseShard_def NewBasePublicMaterial_commits [OF G wf v] rbind_eq_Inr_iff split: option.splits if_splits)
qed

text \<open>Shares that are shards for one verification vector reconstruct the discrete logarithm of its public key.\<close>

lemma shards_reconstruct:
  fixes m :: "('a::field) MSP" and G :: "('g::ab_group_add, 'a) PrimeGroup"
  assumes G: "prime_group G" and wf: "msp_wf m" and v: "commits G m v r"
    and ss: "\<And>sh. sh \<in> set shs \<Longrightarrow> is_ok (NewBaseShard G (Some sh) (Some v) (Some m))" "distinct (map sh_id shs)" "Accepts m (map sh_id shs)"
  shows "kw_Reconstruct \<lparr>kw_msp = m\<rparr> (map Some shs) = Inr (r 0)"
proof -
  have sh: "sh_id sh \<in> msp_holders m \<and> sh = row_share m (row_value m r) (sh_id sh)" if "sh \<in> set shs" for sh
    using ss(1) [OF that] NewBaseShard_commits(1) [OF G wf v, of sh] by (simp add: is_ok_iff)
  have rows: "map Some shs = map (\<lambda>sid. Some (row_share m (row_value m r) sid)) (map sh_id shs)" using sh by auto
  have "set (map sh_id shs) \<subseteq> msp_holders m" "map sh_id shs \<noteq> []" using sh Accepts_iff [OF wf] ss(3) by auto
  with kw_Reconstruct_rows [OF wf _ ss(2), of "row_value m r" r] ss(3) show ?thesis unfolding rows by simp
qed

section \<open>Properties\<close>

text \<open>
  C18. A shard is exactly a verified share: \<open>NewBaseShard\<close> accepts a share if and only if it verifies against the verification
  vector, and the shares of accepted shards with distinct holders that the programme accepts reconstruct one and the same secret
  key, the discrete logarithm of the public key that all these shards carry.
\<close>

theorem BaseShard_correct:
  fixes M :: "('a::field) Matrix" and G :: "('g::ab_group_add, 'a) PrimeGroup"
  assumes G: "prime_group G" and m: "NewMSP (Some M) (Some r2h) = Inr m" "mat_wf M" "distinct (map fst r2h)"
  shows "(is_ok (NewBaseShard G (Some sh) (Some v) (Some m)) \<longleftrightarrow>
      feldman_Verify \<lparr>fs_group = G, fs_lsss = \<lparr>kw_msp = m\<rparr>\<rparr> (Some sh) (Some v) = Inr ()) \<and>
    (\<exists>w. \<forall>shards. (\<forall>x\<in>set shards. NewBaseShard G (Some (bs_share x)) (Some v) (Some m) = Inr x) \<and>
        distinct (map (\<lambda>x. sh_id (bs_share x)) shards) \<and> Accepts m (map (\<lambda>x. sh_id (bs_share x)) shards) \<longrightarrow>
      kw_Reconstruct \<lparr>kw_msp = m\<rparr> (map (\<lambda>x. Some (bs_share x)) shards) = Inr w \<and>
      (\<forall>x\<in>set shards. bpm_pkValue (bs_public x) = ScalarOp G (Generator G) w))"
proof (cases "mcols (vv_value v) = 1 \<and> mrows (vv_value v) = mcols (msp_matrix m)")
  case True
  note wf = NewMSP_wf [OF m]
  obtain r where r: "commits G m v r" by (rule commits_ex [OF G, of v m]) (use True in auto)
  have "is_ok (NewBaseShard G (Some sh) (Some v) (Some m)) \<longleftrightarrow> feldman_Verify \<lparr>fs_group = G, fs_lsss = \<lparr>kw_msp = m\<rparr>\<rparr> (Some sh) (Some v) = Inr ()"
    using NewBaseShard_commits(1) [OF G wf(1) r, of sh] feldman_Verify_iff [OF G wf(1) r, of sh] by (simp add: is_ok_iff)
  moreover have "kw_Reconstruct \<lparr>kw_msp = m\<rparr> (map (\<lambda>x. Some (bs_share x)) shards) = Inr (r 0)"
    if "\<forall>x\<in>set shards. NewBaseShard G (Some (bs_share x)) (Some v) (Some m) = Inr x"
      "distinct (map (\<lambda>x. sh_id (bs_share x)) shards)" "Accepts m (map (\<lambda>x. sh_id (bs_share x)) shards)" for shards
  proof -
    have "is_ok (NewBaseShard G (Some sh) (Some v) (Some m))" if "sh \<in> set (map bs_share shards)" for sh
      using that \<open>\<forall>x\<in>set shards. NewBaseShard G (Some (bs_share x)) (Some v) (Some m) = Inr x\<close> by auto
    from shards_reconstruct [where shs = "map bs_share shards", OF G wf(1) r this] that(2,3) show ?thesis by (simp add: comp_def)
  qed
  moreover have "bpm_pkValue (bs_public x) = ScalarOp G (Generator G) (r 0)" if "NewBaseShard G (Some (bs_share x)) (Some v) (Some m) = Inr x" for x
    using NewBaseShard_commits(2) [OF G wf(1) r that] by simp
  ultimately show ?thesis by blast
next
  case False
  note wf = NewMSP_wf [OF m]
  have "\<not> is_ok (NewBaseShard G (Some sh) (Some v) (Some m))" for sh
    using False by (auto simp: NewBaseShard_def NewBasePublicMaterial_def msp_D_def)
  moreover have "feldman_Verify \<lparr>fs_group = G, fs_lsss = \<lparr>kw_msp = m\<rparr>\<rparr> (Some sh) (Some v) \<noteq> Inr ()" for sh
    using feldman_Verify_only [OF wf(1), of G "Some sh" v] False by auto
  moreover have "\<not> Accepts m []" using Accepts_iff [OF wf(1)] by simp
  ultimately show ?thesis by (metis is_ok_simps(1) list.set_intros(1) list.map_disc_iff neq_Nil_conv)
qed

text \<open>
  C19. The trusted dealer hands one shard to every holder of a row of the structure's span programme (a shareholder of the structure
  that owns no row, as a CNF structure can have, gets none): when the programme exists and has at least two columns, dealing succeeds with
  enough randomness, all shards carry one public key, and every coalition the programme accepts reconstructs its secret key from the
  shares of its shards.
\<close>

theorem trusteddealer_correct:
  fixes G :: "('g::ab_group_add, 'a::field) PrimeGroup"
  assumes G: "prime_group G" and m: "as_InducedMSP (Some (ScalarStructure G)) ac = Some (Inr m)" "kw_wf m" and prng: "mcols (msp_matrix m) < length prng"
  shows "\<exists>shards w. trusteddealer_Deal (Some G) (Some ac) (Some prng) = Some (Inr shards) \<and> map fst shards = msp_Shareholders m \<and>
    (\<forall>(i, x)\<in>set shards. sh_id (bs_share x) = i \<and> bpm_pkValue (bs_public x) = ScalarOp G (Generator G) w) \<and>
    (\<forall>ids. distinct ids \<and> Accepts m ids \<longrightarrow>
       kw_Reconstruct \<lparr>kw_msp = m\<rparr> (map (\<lambda>i. map_option bs_share (map_of shards i)) ids) = Inr w)"
proof -
  let ?s = "\<lparr>fs_group = G, fs_lsss = \<lparr>kw_msp = m\<rparr>\<rparr>"
  have fw: "feldman_wf ?s" using G m(2) by (simp add: feldman_wf_def)
  have wf: "msp_wf m" using m(2) by (simp add: kw_wf_def)
  obtain w q where pq: "prng = w # q" using prng by (cases prng) auto
  have "is_ok (feldman_Deal ?s (Some w) (Some q))" by (rule feldman_Deal_ok [OF fw]) (use prng pq in simp)
  then obtain shares v rest where deal: "feldman_Deal ?s (Some w) (Some q) = Inr (shares, v, rest)" by (auto simp: is_ok_iff)
  have rand: "feldman_DealRandom ?s (Some prng) = Inr (shares, v, w, rest)"
    using deal pq by (auto simp: feldman_DealRandom_def feldman_DealRandomAndRevealDealerFunc_def DealRandomAndRevealDealerFunc_def
        feldman_Deal_def feldman_DealAndRevealDealerFunc_def rbind_eq_Inr_iff)
  let ?lam = "row_value m (dealt_column w q)"
  have v: "commits G m v (dealt_column w q)" using feldman_Deal_dealt(2) [OF fw deal] by simp
  have shares: "shares = map (\<lambda>i. (i, row_share m ?lam i)) (msp_Shareholders m)"
    using kw_Deal_dealt [OF _ feldman_Deal_dealt(1) [OF fw deal]] m(2) by simp
  have w: "dealt_column w q 0 = w" by (simp add: dealt_column_def)
  have "\<forall>i\<in>set (msp_Shareholders m). \<exists>x. NewBaseShard G (Some (row_share m ?lam i)) (Some v) (Some m) = Inr x"
    using NewBaseShard_commits(1) [OF G wf v] msp_Shareholders_holders [OF wf] by auto
  then obtain x where x: "\<And>i. i \<in> set (msp_Shareholders m) \<Longrightarrow> NewBaseShard G (Some (row_share m ?lam i)) (Some v) (Some m) = Inr (x i)"
    by metis
  define shards where "shards = map (\<lambda>i. (i, x i)) (msp_Shareholders m)"
  have xi: "bs_share (x i) = row_share m ?lam i \<and> bpm_pkValue (bs_public (x i)) = ScalarOp G (Generator G) w" if "i \<in> set (msp_Shareholders m)" for i
    using NewBaseShard_commits(2) [OF G wf v x [OF that]] w by simp
  have "MapOrError (\<lambda>(i, share). rbind (NewBaseShard G (Some share) (Some v) (Some m)) (\<lambda>shard. Inr (i, shard))) shares = Inr shards"
    unfolding shares shards_def MapOrError_map by (rule MapOrError_ok) (simp add: x)
  then have run: "trusteddealer_Deal (Some G) (Some ac) (Some prng) = Some (Inr shards)"
    using m(1) rand by (simp add: trusteddealer_Deal_def feldman_NewScheme_def kw_NewScheme_def)
  have "kw_Reconstruct \<lparr>kw_msp = m\<rparr> (map (\<lambda>i. map_option bs_share (map_of shards i)) ids) = Inr w"
    if ids: "distinct ids" "Accepts m ids" for ids
  proof -
    have sub: "set ids \<subseteq> msp_holders m" "ids \<noteq> []" using ids(2) Accepts_iff [OF wf] by auto
    have "map_option bs_share (map_of shards i) = Some (row_share m ?lam i)" if "i \<in> set ids" for i
      using that sub(1) xi [of i] msp_Shareholders_holders [OF wf] by (auto simp: shards_def map_of_map_restrict restrict_map_def)
    then have rows: "map (\<lambda>i. map_option bs_share (map_of shards i)) ids = map (\<lambda>i. Some (row_share m ?lam i)) ids"
      by (rule map_cong [OF refl])
    from kw_Reconstruct_rows [OF wf sub(2) ids(1) sub(1), of ?lam "dealt_column w q"] ids(2) w show ?thesis unfolding rows by simp
  qed
  with run xi show ?thesis by (intro exI [of _ shards] exI [of _ w]) (auto simp: shards_def comp_def)
qed

theorem BaseShard_correct_witness:
  "\<exists>m w. NewMSP (Some \<lparr>mrows = 2, mcols = 2, mdata = [1, 1, 1, 2 :: rat]\<rparr>) (Some [(0, 5), (1, 9)]) = Inr m \<and>
     (is_ok (NewBaseShard field_group (Some \<lparr>sh_id = 5, sh_v = [45]\<rparr>) (Some \<lparr>vv_value = \<lparr>mrows = 2, mcols = 1, mdata = [42, 3]\<rparr>\<rparr>) (Some m)) \<longleftrightarrow>
      feldman_Verify \<lparr>fs_group = field_group, fs_lsss = \<lparr>kw_msp = m\<rparr>\<rparr> (Some \<lparr>sh_id = 5, sh_v = [45]\<rparr>)
        (Some \<lparr>vv_value = \<lparr>mrows = 2, mcols = 1, mdata = [42, 3]\<rparr>\<rparr>) = Inr ())"
  by (rule feldman_example)
    (use BaseShard_correct [OF field_group, where v = "\<lparr>vv_value = \<lparr>mrows = 2, mcols = 1, mdata = [42, 3]\<rparr>\<rparr>"
       and sh = "\<lparr>sh_id = 5, sh_v = [45]\<rparr>", THEN conjunct1] in blast)

theorem trusteddealer_correct_witness:
  "\<exists>shards w. trusteddealer_Deal (Some field_group) (Some (Threshold_as \<lparr>th_t = 2, th_ps = [4, 1, 7]\<rparr>)) (Some [42, 5, 3, 1 :: rat]) = Some (Inr shards) \<and>
     (\<forall>(i, x)\<in>set shards. bpm_pkValue (bs_public x) = ScalarOp field_group 1 w)"
proof -
  let ?a = "\<lparr>th_t = 2, th_ps = [4, 1, 7]\<rparr>"
  have wf: "Threshold_wf ?a" by (simp add: Threshold_wf_def hs_wf_def hs_Size_def)
  have adm: "nodes_admissible TYPE(rat) (set (th_ps ?a))" by (simp add: nodes_admissible_def FromUint64_def inj_on_def)
  obtain m :: "rat MSP" where m: "Threshold_InducedMSP (Some (ScalarStructure (field_group :: (rat, rat) PrimeGroup))) (Some ?a) = Inr m" "msp_wf m" "mcols (msp_matrix m) = 2"
    using Threshold_InducedMSP_spec [OF _ wf adm, of "Some (ScalarStructure (field_group :: (rat, rat) PrimeGroup))"] by auto
  have ind: "as_InducedMSP (Some (ScalarStructure (field_group :: (rat, rat) PrimeGroup))) (Threshold_as ?a) = Some (Inr m)"
    by (simp add: as_InducedMSP_def m(1))
  have gen: "Generator (field_group :: (rat, rat) PrimeGroup) = 1" by (simp add: field_group_def)
  have kw: "kw_wf m" "mcols (msp_matrix m) < length [42, 5, 3, 1 :: rat]" using m(2,3) by (simp_all add: kw_wf_def)
  from trusteddealer_correct [OF field_group ind kw] obtain shards w
    where run: "trusteddealer_Deal (Some field_group) (Some (Threshold_as ?a)) (Some [42, 5, 3, 1 :: rat]) = Some (Inr shards)"
      and all: "\<forall>(i, x)\<in>set shards. sh_id (bs_share x) = i \<and> bpm_pkValue (bs_public x) = ScalarOp field_group 1 w"
    unfolding gen by blast
  from all have "\<forall>(i, x)\<in>set shards. bpm_pkValue (bs_public x) = ScalarOp field_group 1 w" by auto
  with run show ?thesis by blast
qed

end
