(* ===== verification/HJKY.thy ===== *)
theory HJKY
  imports Shards Session
begin

text \<open>
  Distributed zero sharing (\<open>pkg/mpc/zero/hjky\<close>): every party deals a Feldman sharing of zero, broadcasts the verification
  vector and sends the shares; a party adds up what it received after checking every share and that every vector commits
  to zero. A dealer whose share or vector is wrong is named in the error. The encoding of group elements and the
  torsion check are parameters; a message is a struct with one field, so a pointer to it is an optional field value.
\<close>

section \<open>Participant\<close>

definition hjky_transcriptLabel :: string where
  "hjky_transcriptLabel = ''BRON_CRYPTO_HJKY-''"

definition hjky_coefficientLabel :: string where
  "hjky_coefficientLabel = ''BRON_CRYPTO_HJKY_COEFFICIENT-''"

record ('g, 'a) HJKYParticipant =
  hj_ctx :: Context
  hj_group :: "('g, 'a) PrimeGroup"
  hj_scheme :: "('g, 'a) FeldmanScheme"
  hj_round :: "64 word"
  hj_prng :: "'a list"
  hj_verificationVectors :: "ID \<rightharpoonup> 'g VerificationVector"
  hj_share :: "'a KWShare option"

definition hjky_NewParticipant ::
  "Context option \<Rightarrow> Monotone option \<Rightarrow> ('g, 'a::field) PrimeGroup option \<Rightarrow> 'a list option \<Rightarrow> ('g, 'a) HJKYParticipant res option" where
  "hjky_NewParticipant ctx as g prng = (case (ctx, prng, as) of
     (Some c, Some bs, Some ac) \<Rightarrow>
       if \<not> hs_Equal (ctx_Quorum c) (as_Shareholders ac) then Some (Inl ErrInvalidArgument)
       else (case g of None \<Rightarrow> Some (Inl Panic)
         | Some G \<Rightarrow> map_option (\<lambda>r. rbind r (\<lambda>vssScheme.
             rbind (AppendDomainSeparator (ctx_tape c) (str_bytes hjky_transcriptLabel @ hex_encode (ctx_sid c))) (\<lambda>tape.
             Inr \<lparr>hj_ctx = c\<lparr>ctx_tape := tape\<rparr>, hj_group = G, hj_scheme = vssScheme, hj_round = 1, hj_prng = bs,
                  hj_verificationVectors = Map.empty, hj_share = None\<rparr>))) (feldman_NewScheme (Some G) (Some ac)))
   | _ \<Rightarrow> Some (Inl ErrInvalidArgument))"

definition hj_SharingID :: "('g, 'a) HJKYParticipant \<Rightarrow> ID" where
  "hj_SharingID p = ctx_holderID (hj_ctx p)"

section \<open>Messages\<close>

text \<open>A verification vector in a message: a nil message or field, the dimensions, the torsion of each entry.\<close>

definition hj1_Validate ::
  "('g \<Rightarrow> bool) \<Rightarrow> ('g, 'a) HJKYParticipant \<Rightarrow> ID \<Rightarrow> 'g VerificationVector option option \<Rightarrow> unit res" where
  "hj1_Validate torsionFree p i m = (case m of
     Some (Some vv) \<Rightarrow>
       if mrows (vv_value vv) \<noteq> msp_D (kw_msp (fs_lsss (hj_scheme p))) \<or> mcols (vv_value vv) \<noteq> 1 then Inl ErrValidation
       else FoldOrError (\<lambda>_ i. case mat_Get (vv_value vv) (int i) 0 of
              Inl _ \<Rightarrow> Inl ErrValidation
            | Inr entry \<Rightarrow> if \<not> torsionFree entry then Inl ErrValidation else Inr ()) () [0..<mrows (vv_value vv)]
   | _ \<Rightarrow> Inl ErrValidation)"

definition hj1u_Validate :: "('g, 'a) HJKYParticipant \<Rightarrow> ID \<Rightarrow> 'a KWShare option option \<Rightarrow> unit res" where
  "hj1u_Validate p i m = (case m of
     Some (Some zeroShare) \<Rightarrow> if sh_id zeroShare \<noteq> hj_SharingID p then Inl ErrValidation else Inr ()
   | _ \<Rightarrow> Inl ErrValidation)"

section \<open>Rounds\<close>

definition hjky_Round1 ::
  "('g, 'a::field) HJKYParticipant \<Rightarrow> ('g VerificationVector \<times> (ID \<times> 'a KWShare) list \<times> ('g, 'a) HJKYParticipant) res" where
  "hjky_Round1 p =
     (if hj_round p \<noteq> 1 then Inl ErrRound
      else rbind (feldman_Deal (hj_scheme p) (Some 0) (Some (hj_prng p))) (\<lambda>(shares, vv, prng).
        case map_of shares (hj_SharingID p) of None \<Rightarrow> Inl ErrFailed
        | Some share \<Rightarrow>
            rbind (MapOrError (\<lambda>i. case map_of shares i of None \<Rightarrow> Inl ErrFailed | Some s \<Rightarrow> Inr (i, s))
                    (OtherPartiesOrdered (hj_ctx p))) (\<lambda>r1u.
            Inr (vv, r1u, p\<lparr>hj_round := hj_round p + 1, hj_prng := prng, hj_share := Some share,
                            hj_verificationVectors := [hj_SharingID p \<mapsto> vv]\<rparr>))))"

text \<open>One turn of the aggregation loop, on the share, the vector and the vectors stored so far.\<close>

definition hjky_accumulate ::
  "('g::ab_group_add, 'a::field) HJKYParticipant \<Rightarrow> (ID \<rightharpoonup> 'g VerificationVector option option) \<Rightarrow> (ID \<rightharpoonup> 'a KWShare option option) \<Rightarrow>
     'a KWShare \<times> 'g VerificationVector \<times> (ID \<rightharpoonup> 'g VerificationVector) \<Rightarrow> ID \<Rightarrow>
     ('a KWShare \<times> 'g VerificationVector \<times> (ID \<rightharpoonup> 'g VerificationVector)) res" where
  "hjky_accumulate p r1b r1u s i = (case s of (share, verificationVector, vectors) \<Rightarrow>
     (case (r1b i, r1u i) of
        (Some (Some bv), Some (Some zs)) \<Rightarrow>
          (case feldman_Verify (hj_scheme p) zs bv of
             Inl _ \<Rightarrow> Inl (Blame i ErrAbort)
           | Inr _ \<Rightarrow> (case (bv, zs) of
               (Some v, Some zeroShare) \<Rightarrow>
                 (case mat_Get (vv_value v) 0 0 of
                    Inl _ \<Rightarrow> Inl Panic
                  | Inr pk \<Rightarrow>
                      if pk \<noteq> 0 then Inl (Blame i ErrAbort)
                      else rbind (kw_Add share zeroShare) (\<lambda>share.
                        case vv_Op (Some verificationVector) (Some v) of
                          Inl _ \<Rightarrow> Inl (Blame i ErrAbort)
                        | Inr verificationVector \<Rightarrow> Inr (share, verificationVector, vectors(i \<mapsto> v))))
             | _ \<Rightarrow> Inl Panic))
      | (None, _) \<Rightarrow> Inl ErrFailed
      | (_, None) \<Rightarrow> Inl ErrFailed
      | _ \<Rightarrow> Inl Panic))"

definition writeVerificationVectorToTranscript ::
  "('g \<Rightarrow> bytes) \<Rightarrow> (ID \<rightharpoonup> 'g VerificationVector) \<Rightarrow> ID list \<Rightarrow> transcript \<Rightarrow> transcript res" where
  "writeVerificationVectorToTranscript gbytes vectors ids tape =
     FoldOrError (\<lambda>t i. case vectors i of None \<Rightarrow> Inl Panic
       | Some v \<Rightarrow> FoldOrError (\<lambda>t c. AppendBytes t (str_bytes hjky_coefficientLabel) [gbytes c]) t (mat_Iter (vv_value v))) tape ids"

definition hjky_Round2 ::
  "('g \<Rightarrow> bool) \<Rightarrow> ('g \<Rightarrow> bytes) \<Rightarrow> ('g::ab_group_add, 'a::field) HJKYParticipant \<Rightarrow>
     (ID \<rightharpoonup> 'g VerificationVector option option) \<Rightarrow> (ID \<rightharpoonup> 'a KWShare option option) \<Rightarrow>
     ('a KWShare \<times> 'g VerificationVector \<times> ('g, 'a) HJKYParticipant) res" where
  "hjky_Round2 torsionFree gbytes p r1b r1u =
     (if hj_round p \<noteq> 2 then Inl ErrRound
      else rbind (ValidateIncomingMessages (hj1_Validate torsionFree) p (OtherPartiesOrdered (hj_ctx p)) r1b) (\<lambda>_.
        rbind (ValidateIncomingMessages hj1u_Validate p (OtherPartiesOrdered (hj_ctx p)) r1u) (\<lambda>_.
        case (hj_share p, hj_verificationVectors p (hj_SharingID p)) of
          (Some share, Some vv) \<Rightarrow>
            rbind (FoldOrError (hjky_accumulate p r1b r1u) (share, vv, hj_verificationVectors p) (OtherPartiesOrdered (hj_ctx p)))
              (\<lambda>(share, vv, vectors).
            rbind (writeVerificationVectorToTranscript gbytes vectors (ctx_sortedQuorum (hj_ctx p)) (ctx_tape (hj_ctx p))) (\<lambda>tape.
            Inr (share, vv, p\<lparr>hj_round := hj_round p + 1, hj_verificationVectors := vectors, hj_ctx := (hj_ctx p)\<lparr>ctx_tape := tape\<rparr>\<rparr>)))
        | _ \<Rightarrow> Inl Panic)))"

section \<open>Adding verification vectors\<close>

lemma feldman_Deal_wf:
  assumes wf: "feldman_wf s" and deal: "feldman_Deal s (Some secret) (Some prng) = Inr (shares, v, rest)"
  shows "mat_wf (vv_value v)"
proof -
  let ?m = "kw_msp (fs_lsss s)"
  from deal obtain df vm where r: "DealAndRevealDealerFunc (fs_lsss s) (Some secret) (Some prng) = Inr (shares, df, rest)"
    "Lift (ScalarOp (fs_group s)) (Some (df_randomColumn df)) (Generator (fs_group s)) = Inr vm"
    "NewVerificationVector (Some vm) (Some ?m) = Inr v"
    by (auto simp: feldman_Deal_def feldman_DealAndRevealDealerFunc_def)
  have m: "msp_wf ?m" "2 \<le> mcols (msp_matrix ?m)" "fs_lsss s = \<lparr>kw_msp = ?m\<rparr>" using wf by (simp_all add: feldman_wf_def kw_wf_def)
  have len: "mcols (msp_matrix ?m) \<le> length prng" using kw_Deal_len [OF feldman_Deal_dealt(1) [OF wf deal]] .
  have col: "mat_wf (df_randomColumn df)" "mrows (df_randomColumn df) = mcols (msp_matrix ?m)" "mcols (df_randomColumn df) = 1"
    "\<And>c. c < mcols (msp_matrix ?m) \<Longrightarrow> ent (df_randomColumn df) c 0 = dealt_column secret prng c"
    by (rule DealAndReveal_ok [OF m(1,2) len, of secret]; use r(1) m(3) in simp)+
  obtain va where "Lift (ScalarOp (fs_group s)) (Some (df_randomColumn df)) (Generator (fs_group s)) = Inr (vv_value va)"
    "NewVerificationVector (Some (vv_value va)) (Some ?m) = Inr va" "mat_wf (vv_value va)"
    by (rule lift_commits [OF col, of "fs_group s"])
  then show ?thesis using r(2,3) by simp
qed

lemma commits_add:
  fixes G :: "('g::ab_group_add, 'a::field) PrimeGroup"
  assumes G: "prime_group G" and v: "commits G m v r" "mat_wf (vv_value v)" and w: "commits G m w r'" "mat_wf (vv_value w)"
  shows "\<exists>u. vv_Op (Some v) (Some w) = Inr u \<and> commits G m u (\<lambda>c. r c + r' c) \<and> mat_wf (vv_value u)"
proof -
  let ?u = "(vv_value v)\<lparr>mdata := zip_assign (+) (mdata (vv_value v)) (mdata (vv_value w))\<rparr>"
  have dims: "mcols (vv_value v) = 1" "mrows (vv_value v) = mcols (msp_matrix m)" "mcols (vv_value w) = 1" "mrows (vv_value w) = mcols (msp_matrix m)"
    using v(1) w(1) by (simp_all add: commits_def)
  have "ent ?u c 0 = ent (vv_value v) c 0 + ent (vv_value w) c 0" if "c < mcols (msp_matrix m)" for c
    using that v(2) dims by (simp add: ent_def mat_idx_def zip_assign_def mat_wf_def)
  then have "commits G m \<lparr>vv_value = ?u\<rparr> (\<lambda>c. r c + r' c)" using v(1) w(1) by (simp add: commits_def scalar_laws [OF G])
  moreover have "mat_wf ?u" using v(2) by (simp add: mat_wf_def zip_assign_def)
  ultimately show ?thesis using dims by (intro exI [of _ "\<lparr>vv_value = ?u\<rparr>"]) (simp add: vv_Op_def mat_OpAssign_def)
qed

lemma commits_unique:
  assumes "prime_group G" "commits G m v r" "commits G m v r'" "c < mcols (msp_matrix m)"
  shows "r c = r' c"
  using assms generator_inj [OF assms(1), of "r c" "r' c"] by (simp add: commits_def)

lemma commits_entry:
  assumes "prime_group G" "msp_wf m" "commits G m v r"
  shows "mat_Get (vv_value v) 0 0 = Inr (ScalarOp G (Generator G) (r 0))"
proof -
  have "0 < mcols (msp_matrix m)" using assms(2) by (simp add: msp_wf_def mat_wf_def)
  then show ?thesis using assms(3) by (simp add: commits_def mat_Get_def ent_def)
qed

section \<open>The aggregation loop\<close>

lemma accumulate_InrE:
  assumes ok: "hjky_accumulate p r1b r1u (share, vv, vecs) j = Inr (share', vv', vecs')"
  obtains v zs where "r1b j = Some (Some (Some v))" "r1u j = Some (Some (Some zs))"
    "feldman_Verify (hj_scheme p) (Some zs) (Some v) = Inr ()" "mat_Get (vv_value v) 0 0 = Inr 0"
    "kw_Add share zs = Inr share'" "vv_Op (Some vv) (Some v) = Inr vv'" "vecs' = vecs(j \<mapsto> v)"
proof -
  note run = ok [unfolded hjky_accumulate_def prod.case]
  from run obtain bo zo where m: "r1b j = Some (Some bo)" "r1u j = Some (Some zo)" by (auto split: option.splits)
  note run = run [unfolded m prod.case option.case]
  from run have ver: "feldman_Verify (hj_scheme p) zo bo = Inr ()" by (auto split: sum.splits)
  then obtain zs v where some: "zo = Some zs" "bo = Some v" by (cases zo; cases bo) (auto simp: feldman_Verify_def NewLiftedDealerFunc_def)
  note ver = ver [unfolded some]
  note run = run [unfolded some ver sum.case prod.case option.case]
  from run have pk: "mat_Get (vv_value v) 0 0 = Inr 0" by (auto split: sum.splits if_splits)
  note run = run [unfolded pk sum.case]
  from run obtain w where op: "vv_Op (Some vv) (Some v) = Inr w"
    by (cases "vv_Op (Some vv) (Some v)") (auto simp: rbind_eq_Inr_iff)
  from run op have "kw_Add share zs = Inr share'" "w = vv'" "vecs' = vecs(j \<mapsto> v)"
    by (auto simp: rbind_eq_Inr_iff)
  with m some ver pk op show thesis by (intro that [of v zs]) simp_all
qed

text \<open>\<open>rr j\<close> is the column that party \<open>j\<close>'s vector \<open>vm j\<close> commits to.\<close>

lemma accumulate_ok:
  fixes p :: "('g::ab_group_add, 'a::field) HJKYParticipant"
  assumes p: "hj_scheme p = \<lparr>fs_group = G, fs_lsss = \<lparr>kw_msp = m\<rparr>\<rparr>" and G: "prime_group G" and wf: "msp_wf m"
    and v: "r1b j = Some (Some (Some v))" "commits G m v rj" "mat_wf (vv_value v)"
    and st: "share = row_share m (row_value m r) i" "commits G m vv r" "mat_wf (vv_value vv)"
    and ok: "hjky_accumulate p r1b r1u (share, vv, vecs) j = Inr (share', vv', vecs')"
  shows "share' = row_share m (row_value m (\<lambda>c. r c + rj c)) i \<and> commits G m vv' (\<lambda>c. r c + rj c) \<and> mat_wf (vv_value vv') \<and>
    rj 0 = 0 \<and> vecs' = vecs(j \<mapsto> v)"
proof -
  from ok v(1) obtain zs where zs: "r1u j = Some (Some (Some zs))"
    and ver: "feldman_Verify (hj_scheme p) (Some zs) (Some v) = Inr ()" and pk: "mat_Get (vv_value v) 0 0 = Inr 0"
    and add: "kw_Add share zs = Inr share'" and op: "vv_Op (Some vv) (Some v) = Inr vv'" and vecs: "vecs' = vecs(j \<mapsto> v)"
    by (elim accumulate_InrE) simp
  have "zs = row_share m (row_value m rj) (sh_id zs)" using feldman_Verify_iff [OF G wf v(2), of zs] ver p by simp
  moreover have "sh_id zs = i" using add st(1) by (simp add: kw_Add_def split: if_splits)
  ultimately have zs_eq: "zs = row_share m (row_value m rj) i" by simp
  have "share' = row_share m (row_value m (\<lambda>c. r c + rj c)) i"
    using add unfolding st(1) zs_eq kw_Add_rows by (simp add: row_value_linear)
  moreover have "rj 0 = 0" using pk commits_entry [OF G wf v(2)] scalar_eq_zero [OF G] generator_nonzero [OF G] by auto
  ultimately show ?thesis using commits_add [OF G st(2,3) v(2,3)] op vecs by auto
qed

lemma accumulate_loop:
  fixes p :: "('g::ab_group_add, 'a::field) HJKYParticipant"
  assumes p: "hj_scheme p = \<lparr>fs_group = G, fs_lsss = \<lparr>kw_msp = m\<rparr>\<rparr>" and G: "prime_group G" and wf: "msp_wf m"
    and v: "\<And>j. j \<in> set js \<Longrightarrow> r1b j = Some (Some (Some (vm j))) \<and> commits G m (vm j) (rr j) \<and> mat_wf (vv_value (vm j))"
    and st: "share = row_share m (row_value m r) i" "commits G m vv r" "mat_wf (vv_value vv)" and js: "distinct js"
    and ok: "FoldOrError (hjky_accumulate p r1b r1u) (share, vv, vecs) js = Inr (share', vv', vecs')"
  shows "share' = row_share m (row_value m (\<lambda>c. r c + (\<Sum>j\<in>set js. rr j c))) i \<and>
    commits G m vv' (\<lambda>c. r c + (\<Sum>j\<in>set js. rr j c)) \<and> mat_wf (vv_value vv') \<and> (\<forall>j\<in>set js. rr j 0 = 0)"
  using v st js ok
proof (induction js arbitrary: share vv vecs r)
  case (Cons j js)
  from Cons.prems(6) obtain s1 w1 e1 where step: "hjky_accumulate p r1b r1u (share, vv, vecs) j = Inr (s1, w1, e1)"
    and rest: "FoldOrError (hjky_accumulate p r1b r1u) (s1, w1, e1) js = Inr (share', vv', vecs')" by auto
  have vj: "r1b j = Some (Some (Some (vm j)))" "commits G m (vm j) (rr j)" "mat_wf (vv_value (vm j))" using Cons.prems(1) [of j] by auto
  note one = accumulate_ok [OF p G wf vj Cons.prems(2-4) step]
  have "share' = row_share m (row_value m (\<lambda>c. (r c + rr j c) + (\<Sum>j\<in>set js. rr j c))) i \<and>
    commits G m vv' (\<lambda>c. (r c + rr j c) + (\<Sum>j\<in>set js. rr j c)) \<and> mat_wf (vv_value vv') \<and> (\<forall>j\<in>set js. rr j 0 = 0)"
    by (rule Cons.IH [OF _ _ _ _ _ rest]) (use Cons.prems(1,5) one in auto)
  with one Cons.prems(5) show ?case by (simp add: add.assoc)
qed simp

lemma hjky_Round1_ok:
  assumes wf: "feldman_wf (hj_scheme p)" and r1: "hjky_Round1 p = Inr (vv, u, p')"
    and i: "hj_SharingID p \<in> msp_holders (kw_msp (fs_lsss (hj_scheme p)))"
  defines "m \<equiv> kw_msp (fs_lsss (hj_scheme p))" and "r \<equiv> dealt_column 0 (hj_prng p)"
  shows "hj_share p' = Some (row_share m (row_value m r) (hj_SharingID p))" "commits (fs_group (hj_scheme p)) m vv r" "mat_wf (vv_value vv)"
    "r 0 = 0" "hj_verificationVectors p' = [hj_SharingID p \<mapsto> vv]" "hj_scheme p' = hj_scheme p" "hj_ctx p' = hj_ctx p" "hj_round p' = 2"
    "\<And>j. j \<in> set (OtherPartiesOrdered (hj_ctx p)) \<Longrightarrow> j \<in> msp_holders m \<Longrightarrow> map_of u j = Some (row_share m (row_value m r) j)"
proof -
  from r1 obtain shares rest share where deal: "feldman_Deal (hj_scheme p) (Some 0) (Some (hj_prng p)) = Inr (shares, vv, rest)"
    and sh: "map_of shares (hj_SharingID p) = Some share"
    and u: "MapOrError (\<lambda>i. case map_of shares i of None \<Rightarrow> Inl ErrFailed | Some s \<Rightarrow> Inr (i, s)) (OtherPartiesOrdered (hj_ctx p)) = Inr u"
    and p': "p' = p\<lparr>hj_round := hj_round p + 1, hj_prng := rest, hj_share := Some share, hj_verificationVectors := [hj_SharingID p \<mapsto> vv]\<rparr>"
    and rd: "hj_round p = 1"
    by (auto simp: hjky_Round1_def rbind_eq_Inr_iff split: if_splits option.splits)
  note dealt = feldman_Deal_dealt [OF wf deal]
  have kw: "kw_wf m" using wf by (simp add: feldman_wf_def m_def)
  have share: "map_of shares j = Some (row_share m (row_value m r) j)" if "j \<in> msp_holders m" for j
    using kw_Deal_share [OF _ dealt(1), of j] kw that by (simp add: m_def r_def)
  show "hj_share p' = Some (row_share m (row_value m r) (hj_SharingID p))" using share [of "hj_SharingID p"] sh i p' by (simp add: m_def)
  show "commits (fs_group (hj_scheme p)) m vv r" using dealt(2) by (simp add: m_def r_def)
  show "mat_wf (vv_value vv)" by (rule feldman_Deal_wf [OF wf deal])
  show "r 0 = 0" by (simp add: r_def dealt_column_def)
  show "hj_verificationVectors p' = [hj_SharingID p \<mapsto> vv]" "hj_scheme p' = hj_scheme p" "hj_ctx p' = hj_ctx p" "hj_round p' = 2"
    using p' rd by simp_all
  show "map_of u j = Some (row_share m (row_value m r) j)" if "j \<in> set (OtherPartiesOrdered (hj_ctx p))" "j \<in> msp_holders m" for j
  proof -
    have "fst y = k" if "(case map_of shares k of None \<Rightarrow> Inl ErrFailed | Some s \<Rightarrow> Inr (k, s)) = Inr y" for k y
      using that by (auto split: option.splits)
    from map_of_MapOrError_keyed [OF u this that(1)] share [OF that(2)] show ?thesis by auto
  qed
qed

section \<open>A party that completes\<close>

lemma ValidateIncoming_ok:
  "ValidateIncomingMessages val p senders ms = Inr () \<longleftrightarrow> (\<forall>i\<in>set senders. \<exists>x. ms i = Some x \<and> val p i x = Inr ())"
  by (induction senders) (auto split: option.splits sum.splits)

lemma ValidateIncoming_blame:
  "ValidateIncomingMessages val p senders ms = Inl (Blame j e) \<Longrightarrow> j \<in> set senders \<and> (\<exists>x. ms j = Some x \<and> val p j x = Inl e)"
  by (induction senders) (auto split: option.splits sum.splits)

text \<open>Both rounds of a party: its broadcast, the share and the vector it returns.\<close>

definition hjky_run ::
  "('g \<Rightarrow> bool) \<Rightarrow> ('g \<Rightarrow> bytes) \<Rightarrow> ('g::ab_group_add, 'a::field) HJKYParticipant \<Rightarrow> (ID \<rightharpoonup> 'g VerificationVector option option) \<Rightarrow>
     (ID \<rightharpoonup> 'a KWShare option option) \<Rightarrow> ('g VerificationVector \<times> 'a KWShare \<times> 'g VerificationVector) res" where
  "hjky_run torsionFree gbytes p b u = rbind (hjky_Round1 p) (\<lambda>(vv, _, p1).
     rbind (hjky_Round2 torsionFree gbytes p1 b u) (\<lambda>(sh, v, _). Inr (vv, sh, v)))"

text \<open>A party \<open>p\<close> with identifier \<open>i\<close> that runs both rounds of scheme \<open>s\<close> in quorum \<open>q\<close>: it broadcasts \<open>vv\<close>, receives the broadcasts
  \<open>b\<close> and the unicasts \<open>u\<close>, and returns the share \<open>sh\<close> and the vector \<open>v\<close>.\<close>

definition hjky_party ::
  "('g \<Rightarrow> bool) \<Rightarrow> ('g \<Rightarrow> bytes) \<Rightarrow> ('g::ab_group_add, 'a::field) FeldmanScheme \<Rightarrow> ID list \<Rightarrow> ID \<Rightarrow> ('g, 'a) HJKYParticipant \<Rightarrow>
     (ID \<rightharpoonup> 'g VerificationVector option option) \<Rightarrow> (ID \<rightharpoonup> 'a KWShare option option) \<Rightarrow>
     'g VerificationVector \<Rightarrow> 'a KWShare \<Rightarrow> 'g VerificationVector \<Rightarrow> bool" where
  "hjky_party torsionFree gbytes s q i p b u vv sh v \<longleftrightarrow>
     hj_scheme p = s \<and> ctx_holderID (hj_ctx p) = i \<and> ctx_sortedQuorum (hj_ctx p) = q \<and>
     hjky_run torsionFree gbytes p b u = Inr (vv, sh, v)"

lemma row_value_cong: "(\<And>c. c < mcols (msp_matrix m) \<Longrightarrow> r c = r' c) \<Longrightarrow> row_value m r i = row_value m r' i"
  by (simp add: row_value_def)

lemma commits_cong: "(\<And>c. c < mcols (msp_matrix m) \<Longrightarrow> r c = r' c) \<Longrightarrow> commits G m v r = commits G m v r'"
  by (simp add: commits_def)

lemma hjky_party_result:
  fixes G :: "('g::ab_group_add, 'a::field) PrimeGroup"
  assumes G: "prime_group G" and m: "kw_wf m" and q: "distinct q" "set q = msp_holders m" "i \<in> set q"
    and run: "hjky_party tf gb \<lparr>fs_group = G, fs_lsss = \<lparr>kw_msp = m\<rparr>\<rparr> q i p b u (vm i) sh v"
    and b: "\<And>j. j \<in> set q \<Longrightarrow> j \<noteq> i \<Longrightarrow> b j = Some (Some (Some (vm j))) \<and> mat_wf (vv_value (vm j))"
    and rr: "\<And>j. j \<in> set q \<Longrightarrow> commits G m (vm j) (rr j)"
  shows "sh = row_share m (row_value m (\<lambda>c. \<Sum>j\<in>set q. rr j c)) i \<and> commits G m v (\<lambda>c. \<Sum>j\<in>set q. rr j c) \<and>
    mat_wf (vv_value v) \<and> (\<Sum>j\<in>set q. rr j 0) = 0"
proof -
  let ?s = "\<lparr>fs_group = G, fs_lsss = \<lparr>kw_msp = m\<rparr>\<rparr>" and ?R = "\<lambda>c. \<Sum>j\<in>set q. rr j c"
  have wf: "feldman_wf ?s" "msp_wf m" using G m by (simp_all add: feldman_wf_def kw_wf_def)
  from run obtain u1 p1 p2 where p: "hj_scheme p = ?s" "hj_SharingID p = i" "ctx_sortedQuorum (hj_ctx p) = q"
    and r1: "hjky_Round1 p = Inr (vm i, u1, p1)" and r2: "hjky_Round2 tf gb p1 b u = Inr (sh, v, p2)"
    by (auto simp: hjky_party_def hjky_run_def hj_SharingID_def rbind_eq_Inr_iff)
  let ?r = "dealt_column 0 (hj_prng p)" and ?js = "filter (\<lambda>j. j \<noteq> i) q"
  have pre: "feldman_wf (hj_scheme p)" "hj_SharingID p \<in> msp_holders (kw_msp (fs_lsss (hj_scheme p)))" using wf(1) p(1,2) q(2,3) by simp_all
  note one = hjky_Round1_ok [OF pre(1) r1 pre(2), unfolded p FeldmanScheme.simps KWScheme.simps]
  have id1: "hj_SharingID p1 = i" "OtherPartiesOrdered (hj_ctx p1) = ?js"
    using one(7) p(2,3) by (simp_all add: hj_SharingID_def OtherPartiesOrdered_def)
  have vec1: "hj_verificationVectors p1 i = Some (vm i)" using one(5) by simp
  from r2 obtain vecs where fold: "FoldOrError (hjky_accumulate p1 b u) (row_share m (row_value m ?r) i, vm i, hj_verificationVectors p1) ?js = Inr (sh, v, vecs)"
    unfolding hjky_Round2_def id1 vec1 one(1) by (auto simp: rbind_eq_Inr_iff split: if_splits)
  have vs: "b j = Some (Some (Some (vm j))) \<and> commits G m (vm j) (rr j) \<and> mat_wf (vv_value (vm j))" if "j \<in> set ?js" for j
    using that b [of j] rr [of j] by simp
  have js: "distinct ?js" using q(1) by simp
  note loop = accumulate_loop [OF one(6) G wf(2) vs refl one(2,3) js fold]
  have eq: "?r c = rr i c" if "c < mcols (msp_matrix m)" for c
    by (rule commits_unique [OF G one(2) rr [OF q(3)] that])
  have split: "(\<Sum>j\<in>set q. rr j c) = rr i c + (\<Sum>j\<in>set ?js. rr j c)" for c
    using sum.remove [of "set q" i "\<lambda>j. rr j c"] q(3) by (simp add: set_diff_eq conj_commute)
  have pos: "0 < mcols (msp_matrix m)" using wf(2) by (simp add: msp_wf_def mat_wf_def)
  have "?R 0 = 0" using loop eq [OF pos] one(4) unfolding split by simp
  moreover have "row_value m (\<lambda>c. ?r c + (\<Sum>j\<in>set ?js. rr j c)) = row_value m ?R"
    by (rule ext, rule row_value_cong) (use eq split in simp)
  moreover have "commits G m v (\<lambda>c. ?r c + (\<Sum>j\<in>set ?js. rr j c)) = commits G m v ?R"
    by (rule commits_cong) (use eq split in simp)
  ultimately show ?thesis using loop by (simp del: set_filter)
qed

lemma commits_determines:
  assumes "commits G m v r" "commits G m w r" "mat_wf (vv_value v)" "mat_wf (vv_value w)"
  shows "v = w"
proof -
  have dims: "mrows (vv_value v) = mrows (vv_value w)" "mcols (vv_value v) = 1" "mcols (vv_value w) = 1"
    "length (mdata (vv_value v)) = mrows (vv_value v)" "length (mdata (vv_value w)) = mrows (vv_value w)"
    using assms by (simp_all add: commits_def mat_wf_def)
  have "mdata (vv_value v) ! c = mdata (vv_value w) ! c" if "c < mrows (vv_value v)" for c
    using that assms(1,2) dims by (simp add: commits_def ent_def mat_idx_def)
  then have "mdata (vv_value v) = mdata (vv_value w)" using dims by (simp add: list_eq_iff_nth_eq)
  with dims show ?thesis by (cases v; cases w) (auto intro: Matrix.equality)
qed

lemma hjky_party_dims:
  assumes wf: "feldman_wf \<lparr>fs_group = G, fs_lsss = \<lparr>kw_msp = m\<rparr>\<rparr>" and q: "set q = msp_holders m" "i \<in> set q" "j \<in> set q"
    and run: "hjky_party tf gb \<lparr>fs_group = G, fs_lsss = \<lparr>kw_msp = m\<rparr>\<rparr> q i p b u (vm i) sh v"
    and b: "j \<noteq> i \<Longrightarrow> b j = Some (Some (Some (vm j)))"
  shows "mcols (vv_value (vm j)) = 1 \<and> mrows (vv_value (vm j)) = mcols (msp_matrix m)"
proof -
  from run obtain u1 p1 p2 where p: "hj_scheme p = \<lparr>fs_group = G, fs_lsss = \<lparr>kw_msp = m\<rparr>\<rparr>" "hj_SharingID p = i" "ctx_sortedQuorum (hj_ctx p) = q"
    and r1: "hjky_Round1 p = Inr (vm i, u1, p1)" and r2: "hjky_Round2 tf gb p1 b u = Inr (sh, v, p2)"
    by (auto simp: hjky_party_def hjky_run_def hj_SharingID_def rbind_eq_Inr_iff)
  have pre: "feldman_wf (hj_scheme p)" "hj_SharingID p \<in> msp_holders (kw_msp (fs_lsss (hj_scheme p)))" using wf p(1,2) q by simp_all
  note one = hjky_Round1_ok [OF pre(1) r1 pre(2), unfolded p FeldmanScheme.simps KWScheme.simps]
  show ?thesis
  proof (cases "j = i")
    case True then show ?thesis using one(2) by (simp add: commits_def)
  next
    case False
    have "j \<in> set (OtherPartiesOrdered (hj_ctx p1))" using one(7) p(2,3) q(3) False by (simp add: OtherPartiesOrdered_def hj_SharingID_def)
    moreover have "ValidateIncomingMessages (hj1_Validate tf) p1 (OtherPartiesOrdered (hj_ctx p1)) b = Inr ()"
      using r2 by (simp add: hjky_Round2_def rbind_eq_Inr_iff split: if_splits)
    ultimately have "hj1_Validate tf p1 j (Some (Some (vm j))) = Inr ()" using b [OF False] by (auto simp: ValidateIncoming_ok)
    then show ?thesis using one(6) by (auto simp: hj1_Validate_def msp_D_def split: if_splits)
  qed
qed

text \<open>Shares of a column reconstruct its first entry, and adding shares of a column that starts with zero to dealt shares keeps the secret.\<close>

lemma shares_of_column:
  assumes "msp_wf m" "distinct ids" "Accepts m ids" "\<And>i. i \<in> set ids \<Longrightarrow> sh i = row_share m (row_value m R) i"
  shows "kw_Reconstruct \<lparr>kw_msp = m\<rparr> (map (\<lambda>i. Some (sh i)) ids) = Inr (R 0)"
proof -
  have rows: "map (\<lambda>i. Some (sh i)) ids = map (\<lambda>i. Some (row_share m (row_value m R) i)) ids" using assms(4) by simp
  have "ids \<noteq> []" "set ids \<subseteq> msp_holders m" using Accepts_iff [OF assms(1)] assms(3) by auto
  with kw_Reconstruct_rows [OF assms(1) _ assms(2), of "row_value m R" R] assms(3) show ?thesis unfolding rows by simp
qed

lemma refresh_keeps_secret:
  assumes m: "kw_wf m" and ids: "distinct ids" "Accepts m ids" and sh: "\<And>i. i \<in> set ids \<Longrightarrow> sh i = row_share m (row_value m R) i" "R 0 = 0"
    and deal: "kw_Deal \<lparr>kw_msp = m\<rparr> (Some secret) (Some prng) = Inr (shares, rest)"
  shows "\<exists>fresh. MapOrError (\<lambda>i. kw_Add (the (map_of shares i)) (sh i)) ids = Inr fresh \<and>
    kw_Reconstruct \<lparr>kw_msp = m\<rparr> (map Some fresh) = Inr secret"
proof -
  let ?r = "dealt_column secret prng" and ?T = "\<lambda>c. dealt_column secret prng c + R c"
  have wf: "msp_wf m" using m by (simp add: kw_wf_def)
  have "kw_Add (the (map_of shares i)) (sh i) = Inr (row_share m (row_value m ?T) i)" if "i \<in> set ids" for i
  proof -
    have "map_of shares i = Some (row_share m (row_value m ?r) i)"
      using kw_Deal_share [OF _ deal, of i] m Accepts_iff [OF wf] ids(2) that by auto
    with sh(1) [OF that] show ?thesis by (simp add: kw_Add_rows row_value_linear)
  qed
  then have "MapOrError (\<lambda>i. kw_Add (the (map_of shares i)) (sh i)) ids = Inr (map (row_share m (row_value m ?T)) ids)"
    by (rule MapOrError_ok)
  with shares_of_column [OF wf ids, of "row_share m (row_value m ?T)" ?T] sh(2) show ?thesis
    by (simp add: dealt_column_def comp_def)
qed

section \<open>Properties\<close>

text \<open>
  C14. Any number of corrupted parties cannot make the sum anything but a sharing of zero: if all parties receive the same broadcasts
  (which may be chosen by the corrupted ones) and arbitrary unicasts, then the honest parties that complete hold the same vector,
  their shares verify against it, it commits to zero, every coalition of them that the programme accepts
  reconstructs zero, and adding the zero shares to the shares of any secret gives a sharing of the same secret.
\<close>

theorem hjky_zero:
  fixes G :: "('g::ab_group_add, 'a::field) PrimeGroup"
  assumes G: "prime_group G" and m: "kw_wf m" and q: "distinct q" "set q = msp_holders m" "H \<subseteq> set q"
    and run: "\<And>i. i \<in> H \<Longrightarrow> hjky_party tf gb \<lparr>fs_group = G, fs_lsss = \<lparr>kw_msp = m\<rparr>\<rparr> q i (p i) (b i) (u i) (vm i) (sh i) (v i)"
    and b: "\<And>i j. i \<in> H \<Longrightarrow> j \<in> set q \<Longrightarrow> j \<noteq> i \<Longrightarrow> b i j = Some (Some (Some (vm j))) \<and> mat_wf (vv_value (vm j))"
  shows "(\<forall>i\<in>H. \<forall>j\<in>H. v i = v j \<and> feldman_Verify \<lparr>fs_group = G, fs_lsss = \<lparr>kw_msp = m\<rparr>\<rparr> (Some (sh i)) (Some (v j)) = Inr ()) \<and>
    (\<forall>i\<in>H. mat_Get (vv_value (v i)) 0 0 = Inr 0) \<and>
    (\<forall>ids. distinct ids \<and> set ids \<subseteq> H \<and> Accepts m ids \<longrightarrow>
       kw_Reconstruct \<lparr>kw_msp = m\<rparr> (map (\<lambda>i. Some (sh i)) ids) = Inr 0 \<and>
       (\<forall>secret prng shares rest. kw_Deal \<lparr>kw_msp = m\<rparr> (Some secret) (Some prng) = Inr (shares, rest) \<longrightarrow>
          (\<exists>fresh. MapOrError (\<lambda>i. kw_Add (the (map_of shares i)) (sh i)) ids = Inr fresh \<and>
             kw_Reconstruct \<lparr>kw_msp = m\<rparr> (map Some fresh) = Inr secret)))"
proof (cases "H = {}")
  case True
  have "\<not> Accepts m []" using Accepts_iff [of m] m by (simp add: kw_wf_def)
  with True show ?thesis by simp
next
  case False
  let ?s = "\<lparr>fs_group = G, fs_lsss = \<lparr>kw_msp = m\<rparr>\<rparr>"
  obtain i0 where i0: "i0 \<in> H" using False by blast
  have wf: "msp_wf m" "feldman_wf ?s" using G m by (simp_all add: kw_wf_def feldman_wf_def)
  have dims: "mcols (vv_value (vm j)) = 1 \<and> mrows (vv_value (vm j)) = mcols (msp_matrix m)" if "j \<in> set q" for j
    by (rule hjky_party_dims [where vm = vm and j = j, OF wf(2) q(2) _ that run [OF i0]]) (use i0 q(3) b [OF i0 that] in auto)
  have "\<exists>r. commits G m (vm j) r" if "j \<in> set q" for j using commits_ex [OF G, of "vm j" m] dims [OF that] by blast
  then obtain rr where rr: "\<And>j. j \<in> set q \<Longrightarrow> commits G m (vm j) (rr j)" by metis
  let ?R = "\<lambda>c. \<Sum>j\<in>set q. rr j c"
  have res: "sh i = row_share m (row_value m ?R) i \<and> commits G m (v i) ?R \<and> mat_wf (vv_value (v i)) \<and> ?R 0 = 0" if "i \<in> H" for i
    by (rule hjky_party_result [where vm = vm, OF G m q(1,2) _ run [OF that] b [OF that] rr]) (use that q(3) in auto)
  have same: "v i = v j \<and> feldman_Verify ?s (Some (sh i)) (Some (v j)) = Inr ()" if "i \<in> H" "j \<in> H" for i j
    using res [OF that(1)] res [OF that(2)] commits_determines [of G m "v i" ?R "v j"] q(2,3) that(1)
      feldman_Verify_iff [OF G wf(1), of "v j" ?R "sh i"] by auto
  have zero: "mat_Get (vv_value (v i)) 0 0 = Inr 0" if "i \<in> H" for i
    using res [OF that] commits_entry [OF G wf(1), of "v i" ?R] scalar_laws [OF G] by simp
  have null: "kw_Reconstruct \<lparr>kw_msp = m\<rparr> (map (\<lambda>i. Some (sh i)) ids) = Inr 0" if "distinct ids" "set ids \<subseteq> H" "Accepts m ids" for ids
    using shares_of_column [OF wf(1) that(1,3), of sh ?R] res that(2) i0 by auto
  have "\<exists>fresh. MapOrError (\<lambda>i. kw_Add (the (map_of shares i)) (sh i)) ids = Inr fresh \<and> kw_Reconstruct \<lparr>kw_msp = m\<rparr> (map Some fresh) = Inr secret"
    if "distinct ids" "set ids \<subseteq> H" "Accepts m ids" "kw_Deal \<lparr>kw_msp = m\<rparr> (Some secret) (Some prng) = Inr (shares, rest)"
    for ids secret prng shares rest
    by (rule refresh_keeps_secret [OF m that(1,3) _ _ that(4), of _ ?R]) (use res that(2) i0 in auto)
  with same zero null show ?thesis by blast
qed

text \<open>Only the sender whose turn it is can be blamed in the aggregation loop, and the vectors added up keep the dimensions.\<close>

lemma accumulate_blames_sender: "hjky_accumulate p b u st i = Inl (Blame j e) \<Longrightarrow> j = i"
  by (auto simp: hjky_accumulate_def kw_Add_def split: prod.splits option.splits sum.splits if_splits)

lemma accumulate_dims:
  assumes "hjky_accumulate p b u (sh, w, vs) i = Inr (sh', w', vs')"
  shows "mrows (vv_value w') = mrows (vv_value w) \<and> mcols (vv_value w') = mcols (vv_value w)"
  using assms by (elim accumulate_InrE) (auto simp: vv_Op_def mat_OpAssign_def rbind_eq_Inr_iff split: if_splits)

lemma FoldOrError_error: "FoldOrError f a xs = Inl e \<Longrightarrow> \<exists>a x. x \<in> set xs \<and> f a x = Inl e"
proof (induction xs arbitrary: a)
  case (Cons x xs)
  then show ?case by (cases "f a x") fastforce+
qed simp

lemma transcript_no_blame: "writeVerificationVectorToTranscript gb vs ids t \<noteq> Inl (Blame j e)"
proof -
  have "AppendBytes t l ms \<noteq> Inl (Blame j e)" for t l ms
    by (auto simp: AppendBytes_def shake_Writes_def shake_Write_def dest!: FoldOrError_error split: option.splits if_splits)
  then show ?thesis
    by (auto simp: writeVerificationVectorToTranscript_def dest!: FoldOrError_error split: option.splits)
qed

lemma honest_not_blamed:
  assumes p: "hj_scheme p = \<lparr>fs_group = G, fs_lsss = \<lparr>kw_msp = m\<rparr>\<rparr>" and G: "prime_group G" and wf: "msp_wf m"
    and v: "b j = Some (Some (Some v))" "commits G m v r" "r 0 = 0"
    and u: "u j = Some (Some (Some (row_share m (row_value m r) i)))" "i \<in> msp_holders m"
    and w: "mcols (vv_value w) = 1" "mrows (vv_value w) = mcols (msp_matrix m)"
  shows "hjky_accumulate p b u (sh, w, vs) j \<noteq> Inl (Blame j e)"
proof -
  have "feldman_Verify (hj_scheme p) (Some (row_share m (row_value m r) i)) (Some v) = Inr ()"
    using feldman_Verify_iff [OF G wf v(2), of "row_share m (row_value m r) i"] p u(2) by simp
  moreover have "mat_Get (vv_value v) 0 0 = Inr 0" using commits_entry [OF G wf v(2)] v(3) scalar_laws [OF G] by simp
  moreover have "is_ok (vv_Op (Some w) (Some v))" using v(2) w by (simp add: commits_def vv_Op_def mat_OpAssign_def is_ok_iff)
  ultimately show ?thesis using v(1) u(1) by (auto simp: hjky_accumulate_def kw_Add_def is_ok_iff split: if_splits)
qed

lemma honest_not_blamed_loop:
  assumes p: "hj_scheme p = \<lparr>fs_group = G, fs_lsss = \<lparr>kw_msp = m\<rparr>\<rparr>" and G: "prime_group G" and wf: "msp_wf m"
    and v: "b j = Some (Some (Some v))" "commits G m v r" "r 0 = 0"
    and u: "u j = Some (Some (Some (row_share m (row_value m r) i)))" "i \<in> msp_holders m"
    and w: "mcols (vv_value w) = 1" "mrows (vv_value w) = mcols (msp_matrix m)"
  shows "FoldOrError (hjky_accumulate p b u) (sh, w, vs) js \<noteq> Inl (Blame j e)"
  using w
proof (induction js arbitrary: sh w vs)
  case (Cons k js)
  show ?case
  proof (cases "hjky_accumulate p b u (sh, w, vs) k")
    case (Inl x)
    then show ?thesis using honest_not_blamed [where b = b and u = u and j = j and r = r, OF p G wf v u Cons.prems, of sh vs e] accumulate_blames_sender [of p b u "(sh, w, vs)" k j e] by auto
  next
    case (Inr y)
    then obtain sh' w' vs' where "hjky_accumulate p b u (sh, w, vs) k = Inr (sh', w', vs')" by (cases y) auto
    with Cons accumulate_dims [OF this] show ?thesis by simp
  qed
qed simp

text \<open>
  An honest dealer is never blamed: if party \<open>j\<close>'s messages are the ones its first round produced, then no other party's second
  round ends in an abort that names \<open>j\<close>, whatever the remaining parties sent, provided the multiples of the generator pass the torsion check.
\<close>

theorem hjky_blame:
  fixes G :: "('g::ab_group_add, 'a::field) PrimeGroup"
  assumes G: "prime_group G" and m: "kw_wf m" and q: "set q = msp_holders m" "i \<in> set q" "j \<in> set q" "i \<noteq> j"
    and torsion: "\<And>a. torsionFree (ScalarOp G (Generator G) a)"
    and p: "hj_scheme p = \<lparr>fs_group = G, fs_lsss = \<lparr>kw_msp = m\<rparr>\<rparr>" "ctx_holderID (hj_ctx p) = i" "ctx_sortedQuorum (hj_ctx p) = q"
    and p': "hj_scheme p' = \<lparr>fs_group = G, fs_lsss = \<lparr>kw_msp = m\<rparr>\<rparr>" "ctx_holderID (hj_ctx p') = j" "ctx_sortedQuorum (hj_ctx p') = q"
    and r1: "hjky_Round1 p = Inr (vv, u1, p1)" and r1': "hjky_Round1 p' = Inr (vv', u1', p1')"
    and msgs: "b j = Some (Some (Some vv'))" "u j = Some (Some (map_of u1' i))"
  shows "hjky_Round2 torsionFree gbytes p1 b u \<noteq> Inl (Blame j e)"
proof -
  have wf: "feldman_wf \<lparr>fs_group = G, fs_lsss = \<lparr>kw_msp = m\<rparr>\<rparr>" "msp_wf m" using G m by (simp_all add: feldman_wf_def kw_wf_def)
  have pre: "feldman_wf (hj_scheme p)" "hj_SharingID p \<in> msp_holders (kw_msp (fs_lsss (hj_scheme p)))"
    "feldman_wf (hj_scheme p')" "hj_SharingID p' \<in> msp_holders (kw_msp (fs_lsss (hj_scheme p')))"
    using wf(1) p p' q by (simp_all add: hj_SharingID_def)
  have ids: "hj_SharingID p = i" "hj_SharingID p' = j" using p p' by (simp_all add: hj_SharingID_def)
  note one = hjky_Round1_ok [OF pre(1) r1 pre(2), unfolded p(1) ids FeldmanScheme.simps KWScheme.simps]
  note two = hjky_Round1_ok [OF pre(3) r1' pre(4), unfolded p'(1) ids FeldmanScheme.simps KWScheme.simps]
  let ?r = "dealt_column 0 (hj_prng p')"
  have share: "u j = Some (Some (Some (row_share m (row_value m ?r) i)))"
    using two(9) [of i] p' q msgs(2) by (simp add: OtherPartiesOrdered_def)
  have id1: "hj_SharingID p1 = i" using one(7) p(2) by (simp add: hj_SharingID_def)
  have v: "mcols (vv_value vv') = 1" "mrows (vv_value vv') = mcols (msp_matrix m)" using two(2) by (simp_all add: commits_def)
  have entries: "\<exists>a. mat_Get (vv_value vv') (int c) 0 = Inr (ScalarOp G (Generator G) a)" if "c < mcols (msp_matrix m)" for c
    using two(2) that by (auto simp: commits_def mat_Get_def ent_def)
  have check: "(case mat_Get (vv_value vv') (int c) 0 of Inl _ \<Rightarrow> Inl ErrValidation
      | Inr entry \<Rightarrow> if \<not> torsionFree entry then Inl ErrValidation else Inr ()) = Inr ()" if "c \<in> set [0..<mrows (vv_value vv')]" for c
    using entries [of c] torsion that v(2) by auto
  have "hj1_Validate torsionFree p1 j (Some (Some vv')) = Inr ()"
    using v one(6) check by (simp add: hj1_Validate_def msp_D_def FoldOrError_check)
  then have bv: "ValidateIncomingMessages (hj1_Validate torsionFree) p1 js b \<noteq> Inl (Blame j e)" for js
    using ValidateIncoming_blame [of "hj1_Validate torsionFree" p1 js b j e] msgs(1) by auto
  have "hj1u_Validate p1 j (Some (Some (row_share m (row_value m ?r) i))) = Inr ()" by (simp add: hj1u_Validate_def id1)
  then have uv: "ValidateIncomingMessages hj1u_Validate p1 js u \<noteq> Inl (Blame j e)" for js
    using ValidateIncoming_blame [of hj1u_Validate p1 js u j e] share by auto
  have vec1: "hj_verificationVectors p1 i = Some vv" using one(5) by simp
  have w: "mcols (vv_value vv) = 1" "mrows (vv_value vv) = mcols (msp_matrix m)" using one(2) by (simp_all add: commits_def)
  note loop = honest_not_blamed_loop [where b = b and u = u and j = j and r = ?r, OF one(6) G wf(2) msgs(1) two(2,4) share _ w]
  have "i \<in> msp_holders m" using q by simp
  from loop [OF this] have loop: "FoldOrError (hjky_accumulate p1 b u) (sh, vv, vs) js \<noteq> Inl (Blame j e)" for sh vs js .
  show ?thesis
    unfolding hjky_Round2_def id1 vec1 one(1) one(8)
    using bv [of "OtherPartiesOrdered (hj_ctx p1)"] uv [of "OtherPartiesOrdered (hj_ctx p1)"]
      loop [of "row_share m (row_value m (dealt_column 0 (hj_prng p))) i" "hj_verificationVectors p1" "OtherPartiesOrdered (hj_ctx p1)"]
    by (auto simp: rbind_def transcript_no_blame split: prod.splits sum.splits)
qed

subsection \<open>An instance\<close>

text \<open>Two parties with the rows \<open>(1, 1)\<close> and \<open>(1, 2)\<close>.\<close>

definition hjky_example_party :: "rat MSP \<Rightarrow> ID \<Rightarrow> rat list \<Rightarrow> (rat, rat) HJKYParticipant" where
  "hjky_example_party m i prng = \<lparr>hj_ctx = \<lparr>ctx_sid = [], ctx_holderID = i, ctx_sortedQuorum = [5, 9], ctx_tape = NewTranscript [], ctx_seeds = Map.empty\<rparr>,
     hj_group = field_group, hj_scheme = \<lparr>fs_group = field_group, fs_lsss = \<lparr>kw_msp = m\<rparr>\<rparr>, hj_round = 1, hj_prng = prng,
     hj_verificationVectors = Map.empty, hj_share = None\<rparr>"

definition hjky_example_vector :: "rat \<Rightarrow> rat VerificationVector" where
  "hjky_example_vector x = \<lparr>vv_value = \<lparr>mrows = 2, mcols = 1, mdata = [0, x]\<rparr>\<rparr>"

definition hjky_example_msp :: "rat MSP res" where
  "hjky_example_msp = NewMSP (Some \<lparr>mrows = 2, mcols = 2, mdata = [1, 1, 1, 2]\<rparr>) (Some [(0, 5), (1, 9)])"

lemma hjky_example_runs:
  "rbind hjky_example_msp (\<lambda>m. hjky_run (\<lambda>_. True) (\<lambda>_. []) (hjky_example_party m 5 [8, 1])
     (map_of [(9, Some (Some (hjky_example_vector 4)))]) (map_of [(9, Some (Some \<lparr>sh_id = 5, sh_v = [4]\<rparr>))])) =
   Inr (hjky_example_vector 1, \<lparr>sh_id = 5, sh_v = [5]\<rparr>, hjky_example_vector 5)"
  "rbind hjky_example_msp (\<lambda>m. hjky_run (\<lambda>_. True) (\<lambda>_. []) (hjky_example_party m 9 [2, 4])
     (map_of [(5, Some (Some (hjky_example_vector 1)))]) (map_of [(5, Some (Some \<lparr>sh_id = 9, sh_v = [2]\<rparr>))])) =
   Inr (hjky_example_vector 4, \<lparr>sh_id = 9, sh_v = [10]\<rparr>, hjky_example_vector 5)"
  by code_simp+

lemma hjky_example_structure:
  assumes "hjky_example_msp = Inr m"
  shows "kw_wf m" "msp_holders m = set [5, 9]" "Accepts m [5, 9]"
proof -
  note m = assms [unfolded hjky_example_msp_def]
  have c: "mat_wf \<lparr>mrows = 2, mcols = 2, mdata = [1, 1, 1, 2 :: rat]\<rparr>" "distinct (map fst [(0 :: int, 5 :: ID), (1, 9)])"
    by (simp_all add: mat_wf_def)
  note wf = NewMSP_wf [OF m c]
  show "kw_wf m" using wf(1,2) by (simp add: kw_wf_def)
  show "msp_holders m = set [5, 9]" using wf(3) label_holders [OF wf(1)] by simp
  show "Accepts m [5, 9]" by (rule both_rows_accepted [OF m])
qed

theorem hjky_zero_witness:
  "\<exists>m. hjky_example_msp = Inr m \<and> kw_Reconstruct \<lparr>kw_msp = m\<rparr> [Some \<lparr>sh_id = 5, sh_v = [5]\<rparr>, Some \<lparr>sh_id = 9, sh_v = [10]\<rparr>] = Inr 0"
proof -
  obtain m where m: "hjky_example_msp = Inr m" using hjky_example_runs(1) by (cases hjky_example_msp) auto
  note ex = hjky_example_structure [OF m]
  let ?p = "\<lambda>i. if i = 5 then hjky_example_party m 5 [8, 1] else hjky_example_party m 9 [2, 4]"
    and ?vm = "\<lambda>i. if i = (5 :: ID) then hjky_example_vector 1 else hjky_example_vector 4"
    and ?b = "\<lambda>i. if i = (5 :: ID) then map_of [(9, Some (Some (hjky_example_vector 4)))] else map_of [(5, Some (Some (hjky_example_vector 1)))]"
    and ?u = "\<lambda>i. if i = (5 :: ID) then map_of [(9, Some (Some \<lparr>sh_id = 5, sh_v = [4 :: rat]\<rparr>))] else map_of [(5, Some (Some \<lparr>sh_id = 9, sh_v = [2]\<rparr>))]"
    and ?sh = "\<lambda>i. if i = (5 :: ID) then \<lparr>sh_id = 5, sh_v = [5 :: rat]\<rparr> else \<lparr>sh_id = 9, sh_v = [10]\<rparr>"
  have run: "hjky_party (\<lambda>_. True) (\<lambda>_. []) \<lparr>fs_group = field_group, fs_lsss = \<lparr>kw_msp = m\<rparr>\<rparr> [5, 9] i (?p i) (?b i) (?u i) (?vm i) (?sh i) (hjky_example_vector 5)"
    if "i \<in> {5, 9}" for i using that hjky_example_runs [unfolded m] by (auto simp: hjky_party_def hjky_example_party_def)
  have b: "?b i j = Some (Some (Some (?vm j))) \<and> mat_wf (vv_value (?vm j))" if "i \<in> {5, 9}" "j \<in> set [5, 9]" "j \<noteq> i" for i j
    using that by (auto simp: hjky_example_vector_def mat_wf_def)
  have q: "distinct [5 :: ID, 9]" "set [5, 9] = msp_holders m" "{5, 9} \<subseteq> set [5 :: ID, 9]" using ex(2) by simp_all
  from hjky_zero [where b = ?b and vm = ?vm and sh = ?sh and v = "\<lambda>_. hjky_example_vector 5", OF field_group ex(1) q run b]
  have "distinct [5 :: ID, 9] \<and> set [5 :: ID, 9] \<subseteq> {5, 9} \<and> Accepts m [5, 9] \<longrightarrow> kw_Reconstruct \<lparr>kw_msp = m\<rparr> (map (\<lambda>i. Some (?sh i)) [5, 9]) = Inr 0"
    by blast
  with ex(3) m show ?thesis by auto
qed

theorem hjky_blame_witness:
  "\<exists>m vv u1 p1 vv' u1' p1'. hjky_example_msp = Inr m \<and> hjky_Round1 (hjky_example_party m 5 [8, 1]) = Inr (vv, u1, p1) \<and>
     hjky_Round1 (hjky_example_party m 9 [2, 4]) = Inr (vv', u1', p1') \<and>
     hjky_Round2 (\<lambda>_. True) (\<lambda>_. []) p1 (map_of [(9, Some (Some vv'))]) (map_of [(9, Some (map_of u1' 5))]) \<noteq> Inl (Blame 9 ErrAbort)"
proof -
  obtain m where m: "hjky_example_msp = Inr m" using hjky_example_runs(1) by (cases hjky_example_msp) auto
  note ex = hjky_example_structure [OF m]
  from hjky_example_runs [unfolded m] obtain vv u1 p1 vv' u1' p1'
    where r: "hjky_Round1 (hjky_example_party m 5 [8, 1]) = Inr (vv, u1, p1)" "hjky_Round1 (hjky_example_party m 9 [2, 4]) = Inr (vv', u1', p1')"
    by (auto simp: hjky_run_def rbind_eq_Inr_iff)
  have "hjky_Round2 (\<lambda>_. True) (\<lambda>_. []) p1 (map_of [(9, Some (Some vv'))]) (map_of [(9, Some (map_of u1' 5))]) \<noteq> Inl (Blame 9 ErrAbort)"
    by (rule hjky_blame [OF field_group ex(1) _ _ _ _ _ _ _ _ _ _ _ r, of "[5, 9]" 5 9]) (simp_all add: ex(2) hjky_example_party_def)
  with m r show ?thesis by blast
qed

end
