(* ===== verification/Sigma.thy ===== *)
theory Sigma
  imports Session
begin

text \<open>
  Sigma protocols (\<open>pkg/proofs/sigma\<close>): the protocol interface as a record of its methods and its laws as locales, the
  interactive prover and verifier, and the Fiat-Shamir compiler over a session transcript. A challenge is a byte
  slice, nil is \<open>None\<close>. The \<open>Bytes\<close> methods of statements, commitments and responses are fields of the record, because the types are
  parameters of the interface; so is the nil test of commitments and responses. The state of the random source that a protocol
  holds is threaded explicitly.
\<close>

section \<open>The interface\<close>

record ('x, 'w, 'a, 's, 'z, 'r) SigmaProtocol =
  sg_Name :: string
  sg_ComputeProverCommitment :: "'x \<Rightarrow> 'w \<Rightarrow> 'r \<Rightarrow> ('a \<times> 's \<times> 'r) res"
  sg_ComputeProverResponse :: "'x \<Rightarrow> 'w \<Rightarrow> 'a \<Rightarrow> 's \<Rightarrow> bytes option \<Rightarrow> 'z res"
  sg_Verify :: "'x \<Rightarrow> 'a \<Rightarrow> bytes option \<Rightarrow> 'z \<Rightarrow> unit res"
  sg_RunSimulator :: "'x \<Rightarrow> bytes option \<Rightarrow> 'r \<Rightarrow> ('a \<times> 'z \<times> 'r) res"
  sg_SpecialSoundness :: nat
  sg_SoundnessError :: nat
  sg_GetChallengeBytesLength :: nat
  sg_ValidateStatement :: "'x \<Rightarrow> 'w \<Rightarrow> unit res"
  sg_xBytes :: "'x \<Rightarrow> bytes res"
  sg_aBytes :: "'a \<Rightarrow> bytes res"
  sg_zBytes :: "'z \<Rightarrow> bytes res"
  sg_aNil :: "'a \<Rightarrow> bool"
  sg_zNil :: "'z \<Rightarrow> bool"

text \<open>
  What the provers rely on, for every parameter \<open>d\<close> of a family of protocols: honest runs are accepted and the prover sends no nil messages. \<open>good\<close>
  singles out the well-formed witnesses and \<open>goodz\<close> the well-formed responses.
\<close>

locale complete_protocol =
  fixes wf :: "'d \<Rightarrow> bool" and sp :: "'d \<Rightarrow> ('x, 'w, 'a, 's, 'z, 'r) SigmaProtocol"
    and good :: "'d \<Rightarrow> 'w \<Rightarrow> bool" and goodz :: "'d \<Rightarrow> 'z \<Rightarrow> bool"
  assumes complete: "\<lbrakk>wf d; sg_ValidateStatement (sp d) x w = Inr (); good d w; length e = sg_GetChallengeBytesLength (sp d);
      sg_ComputeProverCommitment (sp d) x w r = Inr (a, s, r')\<rbrakk> \<Longrightarrow>
      \<exists>z. sg_ComputeProverResponse (sp d) x w a s (Some e) = Inr z \<and> sg_Verify (sp d) x a (Some e) z = Inr () \<and> goodz d z"
    and not_nil: "wf d \<Longrightarrow> sg_ComputeProverCommitment (sp d) x w r = Inr (a, s, r') \<Longrightarrow> \<not> sg_aNil (sp d) a"
      "wf d \<Longrightarrow> sg_ComputeProverResponse (sp d) x w a s ch = Inr z \<Longrightarrow> \<not> sg_zNil (sp d) z"

text \<open>
  Zero knowledge: simulated transcripts are accepted, every honest transcript is one the simulator can output, and a transcript that the simulator
  outputs for one state of the random source it outputs for another one that then continues as one likes.
\<close>

locale sigma_protocol = complete_protocol wf sp good goodz
  for wf :: "'d \<Rightarrow> bool" and sp :: "'d \<Rightarrow> ('x, 'w, 'a, 's, 'z, 'r) SigmaProtocol" and good :: "'d \<Rightarrow> 'w \<Rightarrow> bool" and goodz :: "'d \<Rightarrow> 'z \<Rightarrow> bool" +
  assumes simulated: "\<lbrakk>wf d; length e = sg_GetChallengeBytesLength (sp d); sg_RunSimulator (sp d) x (Some e) r = Inr (a, z, r')\<rbrakk> \<Longrightarrow>
      sg_Verify (sp d) x a (Some e) z = Inr () \<and> goodz d z"
    and zero_knowledge: "\<lbrakk>wf d; sg_ValidateStatement (sp d) x w = Inr (); good d w; length e = sg_GetChallengeBytesLength (sp d);
      sg_ComputeProverCommitment (sp d) x w r = Inr (a, s, r'); sg_ComputeProverResponse (sp d) x w a s (Some e) = Inr z\<rbrakk> \<Longrightarrow>
      \<exists>q. sg_RunSimulator (sp d) x (Some e) q = Inr (a, z, q')"
    and replay: "\<lbrakk>wf d; length e = sg_GetChallengeBytesLength (sp d); sg_RunSimulator (sp d) x (Some e) r = Inr (a, z, r')\<rbrakk> \<Longrightarrow>
      \<exists>q. sg_RunSimulator (sp d) x (Some e) q = Inr (a, z, q')"

text \<open>Two accepting transcripts with one commitment show that there is a witness, provided the extractor can separate their
  challenges: \<open>far\<close> says which pairs it can.\<close>

locale special_sound = sigma_protocol wf sp good goodz
  for wf :: "'d \<Rightarrow> bool" and sp :: "'d \<Rightarrow> ('x, 'w, 'a, 's, 'z, 'r) SigmaProtocol" and good :: "'d \<Rightarrow> 'w \<Rightarrow> bool" and goodz :: "'d \<Rightarrow> 'z \<Rightarrow> bool" +
  fixes far :: "'d \<Rightarrow> bytes \<Rightarrow> bytes \<Rightarrow> bool"
  assumes extractable: "\<lbrakk>wf d; sg_Verify (sp d) x a (Some e) z = Inr (); sg_Verify (sp d) x a (Some e') z' = Inr (); goodz d z; goodz d z'; far d e e'\<rbrakk> \<Longrightarrow>
      \<exists>w. good d w \<and> sg_ValidateStatement (sp d) x w = Inr ()"

section \<open>Interactive proofs\<close>

definition sigma_transcriptLabel :: string where
  "sigma_transcriptLabel = ''BRON_CRYPTO_SIGMA_POK-''"
definition statementLabel :: string where
  "statementLabel = ''statementLabel-''"
definition commitmentLabel :: string where
  "commitmentLabel = ''commitmentLabel-''"
definition challengeLabel :: string where
  "challengeLabel = ''challengeLabel-''"
definition responseLabel :: string where
  "responseLabel = ''responseLabel-''"

definition StatisticalSecurityBits :: nat where
  "StatisticalSecurityBits = 80"
definition ComputationalSecurityBits :: nat where
  "ComputationalSecurityBits = 128"

text \<open>The domain separation tag \<open>sid-label-name\<close> with the session identifier in hexadecimal.\<close>

definition sigma_dst :: "Context \<Rightarrow> string \<Rightarrow> string \<Rightarrow> bytes" where
  "sigma_dst ctx label name = hex_encode (ctx_sid ctx) @ str_bytes (''-'' @ label @ ''-'' @ name)"

text \<open>A write to the transcript that the context holds; the \<open>Bytes\<close> method of the value is called first.\<close>

definition ctx_Append :: "Context \<Rightarrow> string \<Rightarrow> bytes res \<Rightarrow> Context res" where
  "ctx_Append ctx label b = rbind b (\<lambda>b. rbind (AppendBytes (ctx_tape ctx) (str_bytes label) [b]) (\<lambda>t. Inr (ctx\<lparr>ctx_tape := t\<rparr>)))"

definition ctx_Separate :: "Context \<Rightarrow> bytes \<Rightarrow> Context res" where
  "ctx_Separate ctx dst = rbind (AppendDomainSeparator (ctx_tape ctx) dst) (\<lambda>t. Inr (ctx\<lparr>ctx_tape := t\<rparr>))"

record ('x, 'w, 'a, 's, 'z) SigmaProver =
  pr_ctx :: Context
  pr_statement :: 'x
  pr_witness :: 'w
  pr_commitment :: "'a option"
  pr_state :: "'s option"
  pr_challengeBytes :: "bytes option"
  pr_response :: "'z option"
  pr_round :: nat

definition sigma_NewProver ::
  "Context option \<Rightarrow> ('x, 'w, 'a, 's, 'z, 'r) SigmaProtocol option \<Rightarrow> 'x \<Rightarrow> 'w \<Rightarrow> ('x, 'w, 'a, 's, 'z) SigmaProver res" where
  "sigma_NewProver ctx sigmaProtocol statement witness = (case ctx of
     None \<Rightarrow> Inl ErrInvalidArgument
   | Some c \<Rightarrow> (case sigmaProtocol of
       None \<Rightarrow> Inl ErrInvalidArgument
     | Some sp \<Rightarrow>
         if sg_SoundnessError sp < StatisticalSecurityBits then Inl ErrInvalidArgument
         else rbind (ctx_Separate c (sigma_dst c sigma_transcriptLabel (sg_Name sp))) (\<lambda>c.
           rbind (ctx_Append c statementLabel (sg_xBytes sp statement)) (\<lambda>c.
           Inr \<lparr>pr_ctx = c, pr_statement = statement, pr_witness = witness, pr_commitment = None, pr_state = None,
                pr_challengeBytes = None, pr_response = None, pr_round = 1\<rparr>))))"

definition prover_Round1 ::
  "('x, 'w, 'a, 's, 'z, 'r) SigmaProtocol \<Rightarrow> ('x, 'w, 'a, 's, 'z) SigmaProver \<Rightarrow> 'r \<Rightarrow> ('a \<times> ('x, 'w, 'a, 's, 'z) SigmaProver \<times> 'r) res" where
  "prover_Round1 sp p prng =
     (if pr_round p \<noteq> 1 then Inl ErrRound
      else rbind (sg_ComputeProverCommitment sp (pr_statement p) (pr_witness p) prng) (\<lambda>(commitment, state, prng).
        rbind (ctx_Append (pr_ctx p) commitmentLabel (sg_aBytes sp commitment)) (\<lambda>c.
        Inr (commitment, p\<lparr>pr_ctx := c, pr_commitment := Some commitment, pr_state := Some state, pr_round := pr_round p + 2\<rparr>, prng))))"

text \<open>In the third round the commitment and the state are those of the first one.\<close>

definition prover_Round3 ::
  "('x, 'w, 'a, 's, 'z, 'r) SigmaProtocol \<Rightarrow> ('x, 'w, 'a, 's, 'z) SigmaProver \<Rightarrow> bytes option \<Rightarrow> ('z \<times> ('x, 'w, 'a, 's, 'z) SigmaProver) res" where
  "prover_Round3 sp p challengeBytes =
     (if pr_round p \<noteq> 3 then Inl ErrRound
      else case (pr_commitment p, pr_state p) of
        (Some commitment, Some state) \<Rightarrow>
          rbind (ctx_Append (pr_ctx p) challengeLabel (Inr (case challengeBytes of None \<Rightarrow> [] | Some b \<Rightarrow> b))) (\<lambda>c.
          rbind (sg_ComputeProverResponse sp (pr_statement p) (pr_witness p) commitment state challengeBytes) (\<lambda>response.
          rbind (ctx_Append c responseLabel (sg_zBytes sp response)) (\<lambda>c.
          Inr (response, p\<lparr>pr_ctx := c, pr_challengeBytes := challengeBytes, pr_response := Some response, pr_round := pr_round p + 2\<rparr>))))
      | _ \<Rightarrow> Inl Panic)"

record ('x, 'a, 'z) SigmaVerifier =
  vr_ctx :: Context
  vr_statement :: 'x
  vr_commitment :: "'a option"
  vr_challengeBytes :: "bytes option"
  vr_prng :: bytes
  vr_round :: nat

definition sigma_NewVerifier ::
  "Context option \<Rightarrow> ('x, 'w, 'a, 's, 'z, 'r) SigmaProtocol option \<Rightarrow> 'x \<Rightarrow> bytes option \<Rightarrow> ('x, 'a, 'z) SigmaVerifier res" where
  "sigma_NewVerifier ctx sigmaProtocol statement prng = (case ctx of
     None \<Rightarrow> Inl ErrInvalidArgument
   | Some c \<Rightarrow> (case prng of
       None \<Rightarrow> Inl ErrInvalidArgument
     | Some bs \<Rightarrow> (case sigmaProtocol of
         None \<Rightarrow> Inl ErrInvalidArgument
       | Some sp \<Rightarrow>
           if sg_SoundnessError sp < StatisticalSecurityBits then Inl ErrInvalidArgument
           else rbind (ctx_Separate c (sigma_dst c sigma_transcriptLabel (sg_Name sp))) (\<lambda>c.
             rbind (ctx_Append c statementLabel (sg_xBytes sp statement)) (\<lambda>c.
             Inr \<lparr>vr_ctx = c, vr_statement = statement, vr_commitment = None, vr_challengeBytes = None, vr_prng = bs, vr_round = 2\<rparr>)))))"

text \<open>\<open>io.ReadFull\<close> of \<open>n\<close> bytes.\<close>

definition ReadFull :: "nat \<Rightarrow> bytes \<Rightarrow> (bytes \<times> bytes) res" where
  "ReadFull n prng = (if length prng < n then Inl ErrPrng else Inr (take n prng, drop n prng))"

definition verifier_Round2 ::
  "('x, 'w, 'a, 's, 'z, 'r) SigmaProtocol \<Rightarrow> ('x, 'a, 'z) SigmaVerifier \<Rightarrow> 'a \<Rightarrow> (bytes \<times> ('x, 'a, 'z) SigmaVerifier) res" where
  "verifier_Round2 sp v commitment =
     (if vr_round v \<noteq> 2 then Inl ErrRound
      else rbind (ctx_Append (vr_ctx v) commitmentLabel (sg_aBytes sp commitment)) (\<lambda>c.
        rbind (ReadFull (sg_GetChallengeBytesLength sp) (vr_prng v)) (\<lambda>(challengeBytes, prng).
        rbind (ctx_Append c challengeLabel (Inr challengeBytes)) (\<lambda>c.
        Inr (challengeBytes, v\<lparr>vr_ctx := c, vr_commitment := Some commitment, vr_challengeBytes := Some challengeBytes,
                               vr_prng := prng, vr_round := vr_round v + 2\<rparr>)))))"

definition verifier_Verify ::
  "('x, 'w, 'a, 's, 'z, 'r) SigmaProtocol \<Rightarrow> ('x, 'a, 'z) SigmaVerifier \<Rightarrow> 'z \<Rightarrow> ('x, 'a, 'z) SigmaVerifier res" where
  "verifier_Verify sp v response =
     (if vr_round v \<noteq> 4 then Inl ErrRound
      else case vr_commitment v of
        None \<Rightarrow> Inl Panic
      | Some commitment \<Rightarrow>
          rbind (ctx_Append (vr_ctx v) responseLabel (sg_zBytes sp response)) (\<lambda>c.
          rbind (sg_Verify sp (vr_statement v) commitment (vr_challengeBytes v) response) (\<lambda>_.
          Inr (v\<lparr>vr_ctx := c, vr_round := vr_round v + 2\<rparr>))))"

section \<open>The Fiat-Shamir compiler\<close>

definition fs_transcriptLabel :: string where
  "fs_transcriptLabel = ''BRON_CRYPTO_NIZKP_FIATSHAMIR-''"

text \<open>A proof is the pair of commitment and response; the CBOR codec of the transfer struct is a parameter.\<close>

definition Proof_MarshalCBOR :: "('a \<times> 'z \<Rightarrow> bytes res) \<Rightarrow> 'a \<times> 'z \<Rightarrow> bytes res" where
  "Proof_MarshalCBOR enc p = enc p"

definition Proof_UnmarshalCBOR ::
  "('x, 'w, 'a, 's, 'z, 'r) SigmaProtocol \<Rightarrow> (bytes \<Rightarrow> ('a \<times> 'z) option res) \<Rightarrow> bytes \<Rightarrow> ('a \<times> 'z) res" where
  "Proof_UnmarshalCBOR sp dec b = rbind (dec b) (\<lambda>dto. case dto of
     None \<Rightarrow> Inl Panic
   | Some (a, z) \<Rightarrow> if sg_aNil sp a then Inl ErrNil else if sg_zNil sp z then Inl ErrNil else Inr (a, z))"

definition fs_NewCompiler :: "('x, 'w, 'a, 's, 'z, 'r) SigmaProtocol option \<Rightarrow> ('x, 'w, 'a, 's, 'z, 'r) SigmaProtocol res" where
  "fs_NewCompiler sigmaProtocol = (case sigmaProtocol of
     None \<Rightarrow> Inl ErrNil
   | Some sp \<Rightarrow> if sg_SoundnessError sp < ComputationalSecurityBits then Inl ErrInvalid else Inr sp)"

text \<open>A prover and a verifier hold the context and the protocol.\<close>

definition fs_NewProver :: "('x, 'w, 'a, 's, 'z, 'r) SigmaProtocol \<Rightarrow> Context option \<Rightarrow> Context res" where
  "fs_NewProver sp ctx = (case ctx of None \<Rightarrow> Inl ErrNil
     | Some c \<Rightarrow> ctx_Separate c (sigma_dst c fs_transcriptLabel (sg_Name sp)))"

definition fs_NewVerifier :: "('x, 'w, 'a, 's, 'z, 'r) SigmaProtocol \<Rightarrow> Context option \<Rightarrow> Context res" where
  "fs_NewVerifier sp ctx = (case ctx of None \<Rightarrow> Inl ErrNil
     | Some c \<Rightarrow> ctx_Separate c (sigma_dst c fs_transcriptLabel (sg_Name sp)))"

definition ctx_Extract :: "xof \<Rightarrow> Context \<Rightarrow> string \<Rightarrow> nat \<Rightarrow> (bytes \<times> Context) res" where
  "ctx_Extract xof ctx label n = rbind (ExtractBytes xof (ctx_tape ctx) (str_bytes label) (word_of_nat n)) (\<lambda>(e, t). Inr (e, ctx\<lparr>ctx_tape := t\<rparr>))"

definition fs_Prove ::
  "xof \<Rightarrow> ('a \<times> 'z \<Rightarrow> bytes res) \<Rightarrow> ('x, 'w, 'a, 's, 'z, 'r) SigmaProtocol \<Rightarrow> Context \<Rightarrow> 'x \<Rightarrow> 'w \<Rightarrow> 'r \<Rightarrow> (bytes \<times> Context \<times> 'r) res" where
  "fs_Prove xof enc sp c statement witness prng =
     rbind (ctx_Append c statementLabel (sg_xBytes sp statement)) (\<lambda>c.
     rbind (sg_ComputeProverCommitment sp statement witness prng) (\<lambda>(a, s, prng).
     rbind (ctx_Append c commitmentLabel (sg_aBytes sp a)) (\<lambda>c.
     rbind (ctx_Extract xof c challengeLabel (sg_GetChallengeBytesLength sp)) (\<lambda>(e, c).
     rbind (sg_ComputeProverResponse sp statement witness a s (Some e)) (\<lambda>z.
     rbind (Proof_MarshalCBOR enc (a, z)) (\<lambda>proofBytes.
     Inr (proofBytes, c, prng)))))))"

definition fs_Verify ::
  "xof \<Rightarrow> (bytes \<Rightarrow> ('a \<times> 'z) option res) \<Rightarrow> ('x, 'w, 'a, 's, 'z, 'r) SigmaProtocol \<Rightarrow> Context \<Rightarrow> 'x \<Rightarrow> bytes \<Rightarrow> Context res" where
  "fs_Verify xof dec sp c statement proofBytes =
     (if length proofBytes = 0 then Inl ErrNil
      else rbind (Proof_UnmarshalCBOR sp dec proofBytes) (\<lambda>(a, z).
        rbind (ctx_Append c statementLabel (sg_xBytes sp statement)) (\<lambda>c.
        rbind (ctx_Append c commitmentLabel (sg_aBytes sp a)) (\<lambda>c.
        rbind (ctx_Extract xof c challengeLabel (sg_GetChallengeBytesLength sp)) (\<lambda>(e, c).
        rbind (sg_Verify sp statement a (Some e) z) (\<lambda>_. Inr c))))))"

section \<open>Transcripts of prover and verifier\<close>

text \<open>An open transcript absorbs; two contexts with equal transcripts stay equal.\<close>

definition absorb :: "Context \<Rightarrow> bytes \<Rightarrow> Context" where
  "absorb c b = c\<lparr>ctx_tape := (ctx_tape c)\<lparr>sh_absorbed := sh_absorbed (ctx_tape c) @ b\<rparr>\<rparr>"

definition open_ctx :: "Context \<Rightarrow> bool" where
  "open_ctx c \<longleftrightarrow> sh_squeezed (ctx_tape c) = None"

lemma absorb_simps [simp]:
  "open_ctx (absorb c b) = open_ctx c" "ctx_sid (absorb c b) = ctx_sid c" "ctx_holderID (absorb c b) = ctx_holderID c"
  "absorb (absorb c b) b' = absorb c (b @ b')"
  by (simp_all add: absorb_def open_ctx_def)

lemma absorb_tape: "ctx_tape c = ctx_tape d \<Longrightarrow> ctx_tape (absorb c b) = ctx_tape (absorb d b)"
  by (simp add: absorb_def)

lemma ctx_Append_open: "open_ctx c \<Longrightarrow> ctx_Append c l b = rbind b (\<lambda>b. Inr (absorb c (encode_op (Append_op (str_bytes l) [b]))))"
  by (cases b) (simp_all add: ctx_Append_def AppendBytes_def shake_Writes_absorbing open_ctx_def absorb_def encode_messages_def)

lemma ctx_Separate_open: "open_ctx c \<Longrightarrow> ctx_Separate c d = Inr (absorb c (encode_op (DomainSeparator d)))"
  by (simp add: ctx_Separate_def AppendDomainSeparator_def shake_Writes_absorbing open_ctx_def absorb_def)

text \<open>The challenge the sponge gives for a transcript, as a function of what was absorbed.\<close>

definition fs_challenge :: "xof \<Rightarrow> Context \<Rightarrow> nat \<Rightarrow> bytes" where
  "fs_challenge xof c n = map (xof (sh_custom (ctx_tape c))
     (sh_absorbed (ctx_tape c) @ [extractTag] @ len64 (str_bytes challengeLabel) @ str_bytes challengeLabel @ be64 (word_of_nat n) @ [extractedTag])) [0..<n]"

lemma ctx_Extract_open:
  assumes "open_ctx c" "0 < n" "n < 2 ^ 64"
  shows "ctx_Extract xof c challengeLabel n =
    Inr (fs_challenge xof c n, absorb c (encode_op (Extract_op (str_bytes challengeLabel) (word_of_nat n))))"
proof -
  have n: "unat (word_of_nat n :: 64 word) = n" using assms(3) by (simp add: unat_of_nat take_bit_nat_eq_self)
  then have "(word_of_nat n :: 64 word) \<noteq> 0" using assms(2) by auto
  with n assms(1) show ?thesis
    by (simp add: ctx_Extract_def ExtractBytes_def shake_Writes_absorbing shake_Write_def shake_Read_def open_ctx_def absorb_def
        fs_challenge_def)
qed

lemma fs_challenge_length [simp]: "length (fs_challenge xof c n) = n"
  by (simp add: fs_challenge_def)

lemma fs_challenge_tape: "ctx_tape c = ctx_tape d \<Longrightarrow> fs_challenge xof c n = fs_challenge xof d n"
  by (simp add: fs_challenge_def)

text \<open>The context after the statement and the commitment were written.\<close>

definition fs_context :: "string \<Rightarrow> Context \<Rightarrow> bytes \<Rightarrow> bytes \<Rightarrow> Context" where
  "fs_context name c xb ab = absorb c (encode_op (DomainSeparator (sigma_dst c fs_transcriptLabel name)) @
     encode_op (Append_op (str_bytes statementLabel) [xb]) @ encode_op (Append_op (str_bytes commitmentLabel) [ab]))"

text \<open>A proof is accepted exactly if it decodes to a transcript that the protocol accepts with the challenge that the sponge gives for the
  session, the statement and the commitment.\<close>

lemma fs_Verify_eq:
  assumes c: "open_ctx c" and n: "0 < sg_GetChallengeBytesLength sp" "sg_GetChallengeBytesLength sp < 2 ^ 64"
    and xb: "sg_xBytes sp x = Inr xb" and pb: "pb \<noteq> []" "Proof_UnmarshalCBOR sp dec pb = Inr (a, z)" "sg_aBytes sp a = Inr ab"
  shows "rbind (fs_NewVerifier sp (Some c)) (\<lambda>c. fs_Verify xof dec sp c x pb) =
    rbind (sg_Verify sp x a (Some (fs_challenge xof (fs_context (sg_Name sp) c xb ab) (sg_GetChallengeBytesLength sp))) z)
      (\<lambda>_. Inr (absorb (fs_context (sg_Name sp) c xb ab) (encode_op (Extract_op (str_bytes challengeLabel) (word_of_nat (sg_GetChallengeBytesLength sp))))))"
  using assms by (simp add: fs_NewVerifier_def fs_Verify_def ctx_Separate_open ctx_Append_open ctx_Extract_open fs_context_def)

text \<open>An interactive run: the messages are the commitment, the challenge and the response.\<close>

definition interactive_run ::
  "('x, 'w, 'a, 's, 'z, 'r) SigmaProtocol \<Rightarrow> Context \<Rightarrow> Context \<Rightarrow> 'x \<Rightarrow> 'w \<Rightarrow> 'r \<Rightarrow> bytes \<Rightarrow>
     (('x, 'w, 'a, 's, 'z) SigmaProver \<times> ('x, 'a, 'z) SigmaVerifier) res" where
  "interactive_run sp cp cv x w r bs =
     rbind (sigma_NewProver (Some cp) (Some sp) x w) (\<lambda>p.
     rbind (sigma_NewVerifier (Some cv) (Some sp) x (Some bs)) (\<lambda>v.
     rbind (prover_Round1 sp p r) (\<lambda>(a, p, r).
     rbind (verifier_Round2 sp v a) (\<lambda>(e, v).
     rbind (prover_Round3 sp p (Some e)) (\<lambda>(z, p).
     rbind (verifier_Verify sp v z) (\<lambda>v. Inr (p, v)))))))"

context complete_protocol
begin

lemma interactive_complete:
  assumes d: "wf d" and ctx: "open_ctx cp" "ctx_tape cv = ctx_tape cp" "ctx_sid cv = ctx_sid cp"
    and sound: "StatisticalSecurityBits \<le> sg_SoundnessError (sp d)" and bs: "sg_GetChallengeBytesLength (sp d) \<le> length bs"
    and w: "sg_ValidateStatement (sp d) x w = Inr ()" "good d w"
    and com: "sg_ComputeProverCommitment (sp d) x w r = Inr (a, s, r')"
    and bytes: "sg_xBytes (sp d) x = Inr xb" "sg_aBytes (sp d) a = Inr ab" "\<And>z. \<not> sg_zNil (sp d) z \<Longrightarrow> \<exists>zb. sg_zBytes (sp d) z = Inr zb"
  shows "\<exists>p v. interactive_run (sp d) cp cv x w r bs = Inr (p, v) \<and> vr_round v = 6 \<and> ctx_tape (vr_ctx v) = ctx_tape (pr_ctx p)"
proof -
  let ?e = "take (sg_GetChallengeBytesLength (sp d)) bs"
  obtain z where z: "sg_ComputeProverResponse (sp d) x w a s (Some ?e) = Inr z" "sg_Verify (sp d) x a (Some ?e) z = Inr ()"
    using complete [OF d w _ com, of ?e] bs by auto
  obtain zb where zb: "sg_zBytes (sp d) z = Inr zb" using bytes(3) not_nil(2) [OF d z(1)] by blast
  have cv: "open_ctx cv" using ctx by (simp add: open_ctx_def)
  have "sigma_dst cv sigma_transcriptLabel (sg_Name (sp d)) = sigma_dst cp sigma_transcriptLabel (sg_Name (sp d))" using ctx(3) by (simp add: sigma_dst_def)
  then show ?thesis
    using ctx(1,3) cv sound bs com bytes(1,2) z zb absorb_tape [OF ctx(2)]
    by (simp add: interactive_run_def sigma_NewProver_def sigma_NewVerifier_def prover_Round1_def verifier_Round2_def prover_Round3_def
        verifier_Verify_def ReadFull_def ctx_Separate_open ctx_Append_open)
qed

text \<open>Non-interactive proofs are complete: the prover succeeds once the commitment does, the verifier accepts, and both end with
  the same transcript.\<close>

lemma fs_complete:
  assumes d: "wf d" and ctx: "open_ctx cp" "ctx_tape cv = ctx_tape cp" "ctx_sid cv = ctx_sid cp"
    and n: "0 < sg_GetChallengeBytesLength (sp d)" "sg_GetChallengeBytesLength (sp d) < 2 ^ 64"
    and w: "sg_ValidateStatement (sp d) x w = Inr ()" "good d w"
    and com: "sg_ComputeProverCommitment (sp d) x w r = Inr (a, s, r')"
    and bytes: "sg_xBytes (sp d) x = Inr xb" "sg_aBytes (sp d) a = Inr ab"
    and codec: "\<And>z. \<exists>b. enc (a, z) = Inr b \<and> b \<noteq> [] \<and> dec b = Inr (Some (a, z))"
  shows "\<exists>pb cp' cv'. rbind (fs_NewProver (sp d) (Some cp)) (\<lambda>c. fs_Prove xof enc (sp d) c x w r) = Inr (pb, cp', r') \<and>
    rbind (fs_NewVerifier (sp d) (Some cv)) (\<lambda>c. fs_Verify xof dec (sp d) c x pb) = Inr cv' \<and> ctx_tape cv' = ctx_tape cp'"
proof -
  let ?n = "sg_GetChallengeBytesLength (sp d)" and ?c = "fs_context (sg_Name (sp d)) cp xb ab"
  let ?e = "fs_challenge xof ?c ?n" and ?x = "encode_op (Extract_op (str_bytes challengeLabel) (word_of_nat ?n))"
  obtain z where z: "sg_ComputeProverResponse (sp d) x w a s (Some ?e) = Inr z" "sg_Verify (sp d) x a (Some ?e) z = Inr ()"
    using complete [OF d w _ com, of ?e] by auto
  obtain pb where pb: "enc (a, z) = Inr pb" "pb \<noteq> []" "dec pb = Inr (Some (a, z))" using codec by blast
  have prove: "rbind (fs_NewProver (sp d) (Some cp)) (\<lambda>c. fs_Prove xof enc (sp d) c x w r) = Inr (pb, absorb ?c ?x, r')"
    using ctx(1) n com bytes z(1) pb(1)
    by (simp add: fs_NewProver_def fs_Prove_def ctx_Separate_open ctx_Append_open ctx_Extract_open fs_context_def Proof_MarshalCBOR_def)
  have cv: "ctx_tape (fs_context (sg_Name (sp d)) cv xb ab) = ctx_tape ?c" "open_ctx cv"
    using ctx by (simp_all add: fs_context_def sigma_dst_def absorb_def open_ctx_def)
  have "Proof_UnmarshalCBOR (sp d) dec pb = Inr (a, z)" using pb(3) not_nil(1) [OF d com] not_nil(2) [OF d z(1)] by (simp add: Proof_UnmarshalCBOR_def)
  from fs_Verify_eq [OF cv(2) n bytes(1) pb(2) this bytes(2), of xof] z(2)
  have verify: "rbind (fs_NewVerifier (sp d) (Some cv)) (\<lambda>c. fs_Verify xof dec (sp d) c x pb) = Inr (absorb (fs_context (sg_Name (sp d)) cv xb ab) ?x)"
    by (simp add: fs_challenge_tape [OF cv(1)])
  have tape: "ctx_tape (absorb (fs_context (sg_Name (sp d)) cv xb ab) ?x) = ctx_tape (absorb ?c ?x)" by (rule absorb_tape [OF cv(1)])
  show ?thesis by (intro exI conjI) (rule prove, rule verify, rule tape)
qed

end

end
