(* ===== verification/Maurer.thy ===== *)
theory Maurer
  imports Sigma PrimeGroup "HOL-Library.Countable"
begin

text \<open>
  Proofs of knowledge of a preimage under a group homomorphism (\<open>pkg/proofs/internal/meta/maurer09\<close>), with the discrete logarithm
  (\<open>pkg/proofs/dlog/schnorr\<close>) and the representation problem (\<open>pkg/proofs/okamoto\<close>) as instances. The image group is written additively. The
  operation of the preimage group may panic, as that of direct powers with different arities does. The messages are structs with one
  field, so a pointer to one is an optional field value. The extended greatest common divisor of \<open>math/big\<close> is a parameter, since it is
  determined only up to the choice of the coefficients.
\<close>

section \<open>Protocol\<close>

text \<open>The preimage group: sampling, operation, inverse, the fixed-window scalar multiplication on its elements, and the encoding.\<close>

record ('p, 'r) FiniteGroup =
  fg_Random :: "'r \<Rightarrow> ('p \<times> 'r) res"
  fg_Op :: "'p \<Rightarrow> 'p \<Rightarrow> 'p res"
  fg_OpInv :: "'p \<Rightarrow> 'p"
  fg_ScalarMul :: "'p \<Rightarrow> bytes \<Rightarrow> 'p res"
  fg_Bytes :: "'p \<Rightarrow> bytes"

record ('i, 'p, 'r) MaurerProtocol =
  mr_preImageGroup :: "('p, 'r) FiniteGroup"
  mr_challengeByteLen :: nat
  mr_soundnessError :: nat
  mr_name :: string
  mr_phi :: "'p \<Rightarrow> 'i res"
  mr_L :: nat
  mr_PreImage :: "'i \<Rightarrow> 'p"
  mr_imageScalarMul :: "'i \<Rightarrow> bytes option \<Rightarrow> 'i res"
  mr_preImageScalarMul :: "'p \<Rightarrow> bytes option \<Rightarrow> 'p res"

text \<open>\<open>num.N().FromBytes\<close> rejects a nil slice.\<close>

definition defaultScalarMul :: "('e \<Rightarrow> bytes \<Rightarrow> 'e res) \<Rightarrow> 'e \<Rightarrow> bytes option \<Rightarrow> 'e res" where
  "defaultScalarMul mul base eBytes = (case eBytes of None \<Rightarrow> Inl ErrIsNil | Some e \<Rightarrow> mul base e)"

definition WithImageScalarMul :: "('i \<Rightarrow> bytes option \<Rightarrow> 'i res) \<Rightarrow> ('i, 'p, 'r) MaurerProtocol \<Rightarrow> ('i, 'p, 'r) MaurerProtocol" where
  "WithImageScalarMul f p = p\<lparr>mr_imageScalarMul := f\<rparr>"

definition WithPreImageScalarMul :: "('p \<Rightarrow> bytes option \<Rightarrow> 'p res) \<Rightarrow> ('i, 'p, 'r) MaurerProtocol \<Rightarrow> ('i, 'p, 'r) MaurerProtocol" where
  "WithPreImageScalarMul f p = p\<lparr>mr_preImageScalarMul := f\<rparr>"

definition maurer_NewProtocol ::
  "int \<Rightarrow> nat \<Rightarrow> string \<Rightarrow> unit option \<Rightarrow> ('p, 'r) FiniteGroup option \<Rightarrow> ('p \<Rightarrow> ('i::ab_group_add) res) option \<Rightarrow>
     (nat \<times> ('i \<Rightarrow> 'p)) option \<Rightarrow> 'r option \<Rightarrow> (('i, 'p, 'r) MaurerProtocol \<Rightarrow> ('i, 'p, 'r) MaurerProtocol) list \<Rightarrow> ('i, 'p, 'r) MaurerProtocol res" where
  "maurer_NewProtocol challengeByteLen soundnessError name imageGroup preImageGroup oneWayHomomorphism anc prng options =
     (case (imageGroup, preImageGroup, oneWayHomomorphism, anc, prng) of
        (Some _, Some P, Some phi, Some (l, preImage), Some _) \<Rightarrow>
          if challengeByteLen \<le> 0 \<or> soundnessError < 1 then Inl ErrInvalidArgument
          else Inr (fold (\<lambda>option p. option p) options
            \<lparr>mr_preImageGroup = P, mr_challengeByteLen = nat challengeByteLen, mr_soundnessError = soundnessError, mr_name = name,
             mr_phi = phi, mr_L = l, mr_PreImage = preImage, mr_imageScalarMul = defaultScalarMul (\<lambda>x e. Inr (scalarMul x e)),
             mr_preImageScalarMul = defaultScalarMul (fg_ScalarMul P)\<rparr>)
      | _ \<Rightarrow> Inl ErrInvalidArgument)"

definition mr_ComputeProverCommitment ::
  "('i, 'p, 'r) MaurerProtocol \<Rightarrow> 'i option \<Rightarrow> 'p option \<Rightarrow> 'r \<Rightarrow> ('i option \<times> 'p option \<times> 'r) res" where
  "mr_ComputeProverCommitment p statement witness prng =
     rbind (fg_Random (mr_preImageGroup p) prng) (\<lambda>(s, prng).
     rbind (mr_phi p s) (\<lambda>a. Inr (Some a, Some s, prng)))"

definition mr_ComputeProverResponse ::
  "('i, 'p, 'r) MaurerProtocol \<Rightarrow> 'i option \<Rightarrow> 'p option \<Rightarrow> 'i option \<Rightarrow> 'p option \<Rightarrow> bytes option \<Rightarrow> 'p option res" where
  "mr_ComputeProverResponse p statement witness commitment state challengeBytes = (case (witness, state) of
     (Some w, Some s) \<Rightarrow>
       rbind (mr_preImageScalarMul p w challengeBytes) (\<lambda>cw.
       rbind (fg_Op (mr_preImageGroup p) s cw) (\<lambda>z. Inr (Some z)))
   | _ \<Rightarrow> Inl ErrInvalidArgument)"

definition mr_Verify ::
  "('i::ab_group_add, 'p, 'r) MaurerProtocol \<Rightarrow> 'i option \<Rightarrow> 'i option \<Rightarrow> bytes option \<Rightarrow> 'p option \<Rightarrow> unit res" where
  "mr_Verify p statement commitment challengeBytes response = (case (statement, commitment, challengeBytes, response) of
     (Some x, Some a, Some e, Some z) \<Rightarrow>
       rbind (mr_imageScalarMul p x (Some e)) (\<lambda>cx.
       rbind (mr_phi p z) (\<lambda>phiZ.
       if phiZ \<noteq> a + cx then Inl ErrVerificationFailed else Inr ()))
   | _ \<Rightarrow> Inl ErrInvalidArgument)"

definition mr_RunSimulator ::
  "('i::ab_group_add, 'p, 'r) MaurerProtocol \<Rightarrow> 'i option \<Rightarrow> bytes option \<Rightarrow> 'r \<Rightarrow> ('i option \<times> 'p option \<times> 'r) res" where
  "mr_RunSimulator p statement challengeBytes prng = (case (statement, challengeBytes) of
     (Some x, Some e) \<Rightarrow>
       rbind (fg_Random (mr_preImageGroup p) prng) (\<lambda>(z, prng).
       rbind (mr_imageScalarMul p (- x) (Some e)) (\<lambda>cXInv.
       rbind (mr_phi p z) (\<lambda>a.
       Inr (Some (a + cXInv), Some z, prng))))
   | _ \<Rightarrow> Inl ErrInvalidArgument)"

definition mr_ValidateStatement :: "('i, 'p, 'r) MaurerProtocol \<Rightarrow> 'i option \<Rightarrow> 'p option \<Rightarrow> unit res" where
  "mr_ValidateStatement p statement witness = (case (statement, witness) of
     (Some x, Some w) \<Rightarrow> rbind (mr_phi p w) (\<lambda>phiW. if phiW \<noteq> x then Inl ErrValidationFails else Inr ())
   | _ \<Rightarrow> Inl ErrInvalidArgument)"

text \<open>\<open>big.Int.Bytes\<close>: the big-endian bytes of a number, without leading zeros.\<close>

function big_Bytes :: "nat \<Rightarrow> bytes" where
  "big_Bytes n = (if n = 0 then [] else big_Bytes (n div 256) @ [word_of_nat n])"
  by auto
termination by (relation "measure id") auto

declare big_Bytes.simps [simp del]

definition preImageScalarMulI :: "('i, 'p, 'r) MaurerProtocol \<Rightarrow> 'p \<Rightarrow> int \<Rightarrow> 'p res" where
  "preImageScalarMulI p base e =
     (if e < 0 then mr_preImageScalarMul p (fg_OpInv (mr_preImageGroup p) base) (Some (big_Bytes (nat \<bar>e\<bar>)))
      else mr_preImageScalarMul p base (Some (big_Bytes (nat \<bar>e\<bar>))))"

text \<open>\<open>gcdx a b\<close> stands for \<open>big.Int.GCD\<close>: the greatest common divisor and two coefficients.\<close>

definition mr_Extract ::
  "(int \<Rightarrow> int \<Rightarrow> int \<times> int \<times> int) \<Rightarrow> ('i::ab_group_add, 'p, 'r) MaurerProtocol \<Rightarrow> 'i option \<Rightarrow> 'i option \<Rightarrow> bytes option list \<Rightarrow> 'p option list \<Rightarrow> 'p option res" where
  "mr_Extract gcdx p statement commitment ei zi = (case (statement, commitment) of
     (Some x, Some _) \<Rightarrow>
       if length ei \<noteq> 2 \<or> length zi \<noteq> 2 then Inl ErrInvalidArgument
       else rbind (mr_Verify p statement commitment (ei ! 0) (zi ! 0)) (\<lambda>_.
         rbind (mr_Verify p statement commitment (ei ! 1) (zi ! 1)) (\<lambda>_.
         case (ei ! 0, ei ! 1, zi ! 0, zi ! 1) of
           (Some e1, Some e2, Some z1, Some z2) \<Rightarrow>
             (let eDiff = int (be_val e1) - int (be_val e2) in case gcdx (int (mr_L p)) eDiff of (g, alpha, beta) \<Rightarrow>
              if g \<noteq> 1 then Inl ErrFailed
              else rbind (preImageScalarMulI p (mr_PreImage p x) alpha) (\<lambda>uAlpha.
                rbind (fg_Op (mr_preImageGroup p) (fg_OpInv (mr_preImageGroup p) z2) z1) (\<lambda>zDiff.
                rbind (preImageScalarMulI p zDiff beta) (\<lambda>v.
                rbind (fg_Op (mr_preImageGroup p) uAlpha v) (\<lambda>w. Inr (Some w))))))
         | _ \<Rightarrow> Inl Panic))
   | _ \<Rightarrow> Inl ErrInvalidArgument)"

text \<open>The protocol as an implementation of the interface. \<open>Bytes\<close> of a nil pointer panics.\<close>

definition maurer_sigma :: "('i \<Rightarrow> bytes) \<Rightarrow> ('i::ab_group_add, 'p, 'r) MaurerProtocol \<Rightarrow>
    ('i option, 'p option, 'i option, 'p option, 'p option, 'r) SigmaProtocol" where
  "maurer_sigma ibytes p = \<lparr>sg_Name = mr_name p, sg_ComputeProverCommitment = mr_ComputeProverCommitment p,
     sg_ComputeProverResponse = mr_ComputeProverResponse p, sg_Verify = mr_Verify p, sg_RunSimulator = mr_RunSimulator p,
     sg_SpecialSoundness = 2, sg_SoundnessError = mr_soundnessError p, sg_GetChallengeBytesLength = mr_challengeByteLen p,
     sg_ValidateStatement = mr_ValidateStatement p,
     sg_xBytes = (\<lambda>x. case x of None \<Rightarrow> Inl Panic | Some x \<Rightarrow> Inr (ibytes x)),
     sg_aBytes = (\<lambda>a. case a of None \<Rightarrow> Inl Panic | Some a \<Rightarrow> Inr (ibytes a)),
     sg_zBytes = (\<lambda>z. case z of None \<Rightarrow> Inl Panic | Some z \<Rightarrow> Inr (fg_Bytes (mr_preImageGroup p) z)),
     sg_aNil = (\<lambda>a. a = None), sg_zNil = (\<lambda>z. z = None)\<rparr>"

section \<open>Discrete logarithm\<close>

definition dlog_Type :: string where
  "dlog_Type = ''-dlog_pok-''"

definition IsProvingKnowledgeOfDiscreteLog :: "string \<Rightarrow> bool" where
  "IsProvingKnowledgeOfDiscreteLog name \<longleftrightarrow>
     name \<noteq> [] \<and> list_ex (\<lambda>i. take (length dlog_Type) (drop i name) = dlog_Type) [0..<length name]"

definition schnorr_Name :: string where
  "schnorr_Name = ''SCHNORR'' @ dlog_Type"

definition ComputationalSecurityBytesCeil :: nat where
  "ComputationalSecurityBytesCeil = 16"

text \<open>The scalar field as a preimage group; the random source is the list of the scalars it will deliver.\<close>

definition scalar_Random :: "'a list \<Rightarrow> ('a \<times> 'a list) res" where
  "scalar_Random prng = (case prng of [] \<Rightarrow> Inl ErrPrng | x # prng \<Rightarrow> Inr (x, prng))"

definition scalar_group :: "('a \<Rightarrow> bytes) \<Rightarrow> ('a::field, 'a list) FiniteGroup" where
  "scalar_group sbytes = \<lparr>fg_Random = scalar_Random, fg_Op = (\<lambda>x y. Inr (x + y)), fg_OpInv = uminus,
     fg_ScalarMul = (\<lambda>x e. Inr (scalarMul x e)), fg_Bytes = sbytes\<rparr>"

text \<open>\<open>order\<close> is the order of the group, \<open>sbytes\<close> the encoding of scalars.\<close>

definition schnorr_NewProtocol ::
  "nat \<Rightarrow> ('a \<Rightarrow> bytes) \<Rightarrow> ('g::ab_group_add, 'a::field) PrimeGroup \<Rightarrow> 'g \<Rightarrow> 'a list option \<Rightarrow> ('g, 'a, 'a list) MaurerProtocol res" where
  "schnorr_NewProtocol order sbytes G generator prng =
     maurer_NewProtocol (int ComputationalSecurityBytesCeil) (ComputationalSecurityBytesCeil * 8) schnorr_Name (Some ()) (Some (scalar_group sbytes))
       (Some (\<lambda>s. Inr (ScalarOp G generator s))) (Some (order, \<lambda>_. 0)) prng []"

section \<open>Representations\<close>

definition okamoto_Name :: string where
  "okamoto_Name = ''OKAMOTO_PROOF_OF_KNOWLEDGE_OF_REPRESENTATION''"

text \<open>Elements of a direct power are the lists of their components (\<open>pkg/base/algebra/constructions\<close>).\<close>

definition dp_New :: "nat \<Rightarrow> 'e list \<Rightarrow> 'e list res" where
  "dp_New arity es = (if length es \<noteq> arity then Inl ErrInvalidArgument else Inr es)"

definition dp_Op :: "('e::plus) list \<Rightarrow> 'e list \<Rightarrow> 'e list res" where
  "dp_Op d x = (if length d \<noteq> length x then Inl Panic else Inr (map2 (+) d x))"

definition dp_OpInv :: "('e::uminus) list \<Rightarrow> 'e list" where
  "dp_OpInv d = map uminus d"

definition dp_OpIdentity :: "nat \<Rightarrow> ('e::zero) list" where
  "dp_OpIdentity arity = replicate arity 0"

fun dp_Random :: "nat \<Rightarrow> 'e list \<Rightarrow> ('e list \<times> 'e list) res" where
  "dp_Random 0 prng = Inr ([], prng)"
| "dp_Random (Suc n) prng = rbind (scalar_Random prng) (\<lambda>(x, prng). rbind (dp_Random n prng) (\<lambda>(xs, prng). Inr (x # xs, prng)))"

definition dp_Bytes :: "('e \<Rightarrow> bytes) \<Rightarrow> 'e list \<Rightarrow> bytes" where
  "dp_Bytes sbytes d = concat (map sbytes d)"

text \<open>The structure of an element is built from its first component and its arity; all operands inside the method have that arity.\<close>

definition dp_ScalarMul :: "('e::{plus,zero}) list \<Rightarrow> bytes \<Rightarrow> 'e list res" where
  "dp_ScalarMul d e = (if d = [] then Inl Panic else Inr (scalarMul_on (map2 (+)) (dp_OpIdentity (length d)) d e))"

definition power_group :: "('a \<Rightarrow> bytes) \<Rightarrow> nat \<Rightarrow> ('a::field list, 'a list) FiniteGroup" where
  "power_group sbytes arity = \<lparr>fg_Random = dp_Random arity, fg_Op = dp_Op, fg_OpInv = dp_OpInv, fg_ScalarMul = dp_ScalarMul, fg_Bytes = dp_Bytes sbytes\<rparr>"

definition ScalarDiagonal :: "('g, 'a) PrimeGroup \<Rightarrow> 'g list \<Rightarrow> 'a list \<Rightarrow> 'g list res" where
  "ScalarDiagonal G m s = MapOrError (\<lambda>i. if length s \<le> i then Inl Panic else Inr (ScalarOp G (m ! i) (s ! i))) [0..<length m]"

definition CoDiagonal :: "('g::plus) list \<Rightarrow> 'g res" where
  "CoDiagonal d = (case d of [] \<Rightarrow> Inl Panic | c # cs \<Rightarrow> Inr (foldl (+) c cs))"

definition okamoto_NewWitness :: "'a list \<Rightarrow> 'a list option res" where
  "okamoto_NewWitness ws = (if length ws = 0 then Inl ErrInvalidArgument else rbind (dp_New (length ws) ws) (\<lambda>w. Inr (Some w)))"

definition okamoto_NewStatement :: "'g option \<Rightarrow> 'g option res" where
  "okamoto_NewStatement g = (case g of None \<Rightarrow> Inl ErrInvalidArgument | Some x \<Rightarrow> Inr (Some x))"

definition okamoto_NewProtocol ::
  "nat \<Rightarrow> ('a \<Rightarrow> bytes) \<Rightarrow> ('g::ab_group_add, 'a::field) PrimeGroup \<Rightarrow> 'g list \<Rightarrow> 'a list option \<Rightarrow> ('g, 'a list, 'a list) MaurerProtocol res" where
  "okamoto_NewProtocol order sbytes G generators prng =
     (if length generators = 0 then Inl ErrInvalidArgument
      else rbind (dp_New (length generators) generators) (\<lambda>generatorsVector.
        maurer_NewProtocol (int ComputationalSecurityBytesCeil) (ComputationalSecurityBytesCeil * 8) okamoto_Name (Some ())
          (Some (power_group sbytes (length generators))) (Some (\<lambda>s. rbind (ScalarDiagonal G generatorsVector s) CoDiagonal))
          (Some (order, \<lambda>_. dp_OpIdentity (length generators))) prng []))"

section \<open>What the homomorphism has to satisfy\<close>

lemma nsum_minus: "nsum n (- x :: 'e::ab_group_add) = - nsum n x"
  by (induction n) simp_all

lemma be_val_big_Bytes [simp]: "be_val (big_Bytes n) = n"
proof (induction n rule: big_Bytes.induct)
  case (1 n)
  show ?case
  proof (cases "n = 0")
    case True then show ?thesis by (simp add: big_Bytes.simps be_val_def)
  next
    case False
    then have "be_val (big_Bytes n) = n div 256 * 256 + unat (word_of_nat n :: byte)"
      using 1 by (subst big_Bytes.simps) (simp add: be_val_snoc)
    then show ?thesis by (simp add: unat_of_nat take_bit_eq_mod)
  qed
qed

text \<open>For a family of protocols \<open>p\<close>, \<open>P\<close> is the set of well-formed elements of the preimage group, \<open>f\<close> the homomorphism on them.\<close>

locale maurer =
  fixes wf :: "'d \<Rightarrow> bool" and p :: "'d \<Rightarrow> ('i::ab_group_add, 'p, 'r) MaurerProtocol" and P :: "'d \<Rightarrow> 'p set" and f :: "'d \<Rightarrow> 'p \<Rightarrow> 'i"
  assumes phi: "wf d \<Longrightarrow> x \<in> P d \<Longrightarrow> mr_phi (p d) x = Inr (f d x)"
    and op: "wf d \<Longrightarrow> x \<in> P d \<Longrightarrow> y \<in> P d \<Longrightarrow> \<exists>z\<in>P d. fg_Op (mr_preImageGroup (p d)) x y = Inr z \<and> f d z = f d x + f d y"
    and inverse: "wf d \<Longrightarrow> x \<in> P d \<Longrightarrow> fg_OpInv (mr_preImageGroup (p d)) x \<in> P d \<and> f d (fg_OpInv (mr_preImageGroup (p d)) x) = - f d x"
    and image_mul: "wf d \<Longrightarrow> mr_imageScalarMul (p d) g (Some e) = Inr (nsum (be_val e) g)"
    and preimage_mul: "wf d \<Longrightarrow> x \<in> P d \<Longrightarrow> \<exists>z\<in>P d. mr_preImageScalarMul (p d) x (Some e) = Inr z \<and> f d z = nsum (be_val e) (f d x)"
    and random: "wf d \<Longrightarrow> fg_Random (mr_preImageGroup (p d)) r = Inr (x, r') \<Longrightarrow> x \<in> P d"
      "wf d \<Longrightarrow> x \<in> P d \<Longrightarrow> \<exists>q. fg_Random (mr_preImageGroup (p d)) q = Inr (x, q')"
    and anchored: "wf d \<Longrightarrow> mr_PreImage (p d) g \<in> P d \<and> f d (mr_PreImage (p d) g) = nsum (mr_L (p d)) g"
begin

lemma verify_iff: "wf d \<Longrightarrow> z \<in> P d \<Longrightarrow> mr_Verify (p d) (Some x) (Some a) (Some e) (Some z) = Inr () \<longleftrightarrow> f d z = a + nsum (be_val e) x"
  by (simp add: mr_Verify_def image_mul phi)

lemma random_cases:
  assumes "wf d"
  obtains e where "fg_Random (mr_preImageGroup (p d)) r = Inl e"
  | x r' where "fg_Random (mr_preImageGroup (p d)) r = Inr (x, r')" "x \<in> P d" "mr_phi (p d) x = Inr (f d x)"
  using random(1) [OF assms] phi [OF assms] by (cases "fg_Random (mr_preImageGroup (p d)) r") auto

lemma simulate_iff:
  "wf d \<Longrightarrow> mr_RunSimulator (p d) (Some x) (Some e) r = Inr (a, z, r') \<longleftrightarrow>
     (\<exists>y\<in>P d. fg_Random (mr_preImageGroup (p d)) r = Inr (y, r') \<and> z = Some y \<and> a = Some (f d y - nsum (be_val e) x))"
  by (rule random_cases [of d r]) (auto simp: mr_RunSimulator_def image_mul nsum_minus)

lemma commit_iff:
  "wf d \<Longrightarrow> mr_ComputeProverCommitment (p d) x w r = Inr (a, s, r') \<longleftrightarrow>
     (\<exists>y\<in>P d. fg_Random (mr_preImageGroup (p d)) r = Inr (y, r') \<and> s = Some y \<and> a = Some (f d y))"
  by (rule random_cases [of d r]) (auto simp: mr_ComputeProverCommitment_def)

lemma respond_ok:
  assumes d: "wf d" and "v \<in> P d" "y \<in> P d"
  obtains z where "z \<in> P d" "mr_ComputeProverResponse (p d) x (Some v) a (Some y) (Some e) = Inr (Some z)" "f d z = f d y + nsum (be_val e) (f d v)"
proof -
  obtain c where c: "c \<in> P d" "mr_preImageScalarMul (p d) v (Some e) = Inr c" "f d c = nsum (be_val e) (f d v)"
    using preimage_mul [OF d assms(2)] by blast
  obtain z where z: "z \<in> P d" "fg_Op (mr_preImageGroup (p d)) y c = Inr z" "f d z = f d y + f d c" using op [OF d assms(3) c(1)] by blast
  with c show thesis by (intro that [of z]) (simp_all add: mr_ComputeProverResponse_def)
qed

lemma validate_iff: "wf d \<Longrightarrow> w \<in> P d \<Longrightarrow> mr_ValidateStatement (p d) x (Some w) = Inr () \<longleftrightarrow> x = Some (f d w)"
  by (cases x) (auto simp: mr_ValidateStatement_def phi)

end

sublocale maurer \<subseteq> sigma_protocol wf "\<lambda>d. maurer_sigma ibytes (p d)" "\<lambda>d w. \<exists>x\<in>P d. w = Some x" "\<lambda>d z. \<exists>x\<in>P d. z = Some x" for ibytes
proof (unfold_locales, goal_cases)
  case (1 d x w e r a s r')
  note d = 1(1)
  from 1(2,3) d obtain v where v: "w = Some v" "v \<in> P d" "x = Some (f d v)" by (auto simp: maurer_sigma_def validate_iff)
  from 1(5) d obtain y where y: "s = Some y" "y \<in> P d" "a = Some (f d y)" by (auto simp: maurer_sigma_def commit_iff)
  obtain z where z: "z \<in> P d" "mr_ComputeProverResponse (p d) x (Some v) a (Some y) (Some e) = Inr (Some z)" "f d z = f d y + nsum (be_val e) (f d v)"
    by (rule respond_ok [OF d v(2) y(2)])
  then show ?case using v y verify_iff [OF d z(1)] by (simp add: maurer_sigma_def)
next
  case (4 d e x r a z r')
  then obtain g where g: "x = Some g" by (auto simp: maurer_sigma_def mr_RunSimulator_def split: option.splits)
  with 4 show ?case by (auto simp: maurer_sigma_def simulate_iff verify_iff)
next
  case (5 d x w e r a s r' z q')
  note d = 5(1)
  from 5(2,3) d obtain v where v: "w = Some v" "v \<in> P d" "x = Some (f d v)" by (auto simp: maurer_sigma_def validate_iff)
  from 5(5) d obtain y where y: "s = Some y" "y \<in> P d" "a = Some (f d y)" by (auto simp: maurer_sigma_def commit_iff)
  obtain t where t: "t \<in> P d" "mr_ComputeProverResponse (p d) x (Some v) a (Some y) (Some e) = Inr (Some t)" "f d t = f d y + nsum (be_val e) (f d v)"
    by (rule respond_ok [OF d v(2) y(2)])
  have "z = Some t" using 5(6) v(1) y(1) t(2) by (simp add: maurer_sigma_def)
  with t(1,3) v(3) y(3) random(2) [OF d t(1), of q'] d show ?case by (auto simp: maurer_sigma_def simulate_iff)
next
  case (6 d e x r a z r' q')
  then obtain g where g: "x = Some g" by (auto simp: maurer_sigma_def mr_RunSimulator_def split: option.splits)
  from 6 g random(2) [OF 6(1)] show ?case by (auto simp: maurer_sigma_def simulate_iff)
qed (auto simp: maurer_sigma_def mr_ComputeProverCommitment_def mr_ComputeProverResponse_def rbind_eq_Inr_iff split: option.splits)

section \<open>Extraction\<close>

text \<open>Multiples by an integer.\<close>

definition zsum :: "int \<Rightarrow> 'e \<Rightarrow> 'e::ab_group_add" where
  "zsum i x = (if i < 0 then nsum (nat \<bar>i\<bar>) (- x) else nsum (nat \<bar>i\<bar>) x)"

lemma nsum_diff: "nsum n (x - y :: 'e::ab_group_add) = nsum n x - nsum n y"
  by (simp only: diff_conv_add_uminus nsum_distrib nsum_minus)

lemma zsum_diff: "zsum (int m - int n) x = nsum m x - nsum n (x :: 'e::ab_group_add)"
proof (cases "m < n")
  case True
  then have "nsum n x = nsum (n - m) x + nsum m x" by (simp add: nsum_add [symmetric])
  moreover have "nat \<bar>int m - int n\<bar> = n - m" using True by simp
  ultimately show ?thesis using True by (simp add: zsum_def nsum_minus)
next
  case False
  then have "nsum m x = nsum (m - n) x + nsum n x" by (simp add: nsum_add [symmetric])
  moreover have "nat \<bar>int m - int n\<bar> = m - n" using False by simp
  ultimately show ?thesis using False by (simp add: zsum_def)
qed

lemma zsum_laws:
  fixes x :: "'e::ab_group_add"
  shows "zsum (i + j) x = zsum i x + zsum j x" "zsum (i * j) x = zsum i (zsum j x)" "zsum (int n) x = nsum n x" "zsum 1 x = x"
proof -
  obtain a b where i: "i = int a - int b" by (metis int_diff_cases)
  obtain c d where j: "j = int c - int d" by (metis int_diff_cases)
  have "i + j = int (a + c) - int (b + d)" "i * j = int (a * c + b * d) - int (a * d + b * c)" by (simp_all add: i j algebra_simps)
  then have s: "zsum (i + j) x = nsum (a + c) x - nsum (b + d) x" "zsum (i * j) x = nsum (a * c + b * d) x - nsum (a * d + b * c) x"
    by (simp_all only: zsum_diff)
  show "zsum (i + j) x = zsum i x + zsum j x" using s(1) unfolding i j zsum_diff nsum_add by simp
  show "zsum (i * j) x = zsum i (zsum j x)" using s(2) unfolding i j zsum_diff nsum_add nsum_mult nsum_diff by simp
  show "zsum (int n) x = nsum n x" "zsum 1 x = x" by (simp_all add: zsum_def)
qed

text \<open>What the documentation of \<open>big.Int.GCD\<close> promises.\<close>

definition bezout :: "(int \<Rightarrow> int \<Rightarrow> int \<times> int \<times> int) \<Rightarrow> bool" where
  "bezout gcdx \<longleftrightarrow> (\<forall>a b. case gcdx a b of (g, u, v) \<Rightarrow> g = gcd a b \<and> g = u * a + v * b)"

text \<open>The extended Euclidean algorithm is such a function.\<close>

function xgcd :: "int \<Rightarrow> int \<Rightarrow> int \<times> int \<times> int" where
  "xgcd a b = (if b = 0 then (\<bar>a\<bar>, sgn a, 0) else case xgcd b (a mod b) of (g, u, v) \<Rightarrow> (g, v, u - v * (a div b)))"
  by auto
termination by (relation "measure (\<lambda>(a, b). nat \<bar>b\<bar>)") (auto simp: abs_mod_less)

declare xgcd.simps [simp del]

lemma xgcd_bezout: "bezout xgcd"
proof -
  have "case xgcd a b of (g, u, v) \<Rightarrow> g = gcd a b \<and> g = u * a + v * b" for a b
  proof (induction a b rule: xgcd.induct)
    case (1 a b)
    show ?case
    proof (cases "b = 0")
      case False
      obtain g u v where r: "xgcd b (a mod b) = (g, u, v)" by (cases "xgcd b (a mod b)")
      with 1 False have g: "g = gcd b (a mod b)" "g = u * b + v * (a mod b)" by auto
      define k m where "k = a div b" "m = a mod b"
      then have "a = b * k + m" by simp
      then have "v * a + (u - v * k) * b = u * b + v * m" by (simp only: algebra_simps)
      then have "g = v * a + (u - v * (a div b)) * b" using g(2) by (simp only: k_m_def)
      moreover have "g = gcd a b" using g(1) by (simp add: gcd_red_int [of a b])
      ultimately show ?thesis using False r by (subst xgcd.simps) simp
    qed (simp add: xgcd.simps abs_sgn mult.commute)
  qed
  then show ?thesis by (simp add: bezout_def)
qed

context maurer
begin

lemma preImageScalarMulI_ok:
  assumes "wf d" "y \<in> P d"
  shows "\<exists>z\<in>P d. preImageScalarMulI (p d) y k = Inr z \<and> f d z = zsum k (f d y)"
  using preimage_mul [OF assms, of "big_Bytes (nat \<bar>k\<bar>)"] inverse [OF assms]
    preimage_mul [OF assms(1), of "fg_OpInv (mr_preImageGroup (p d)) y" "big_Bytes (nat \<bar>k\<bar>)"]
  by (auto simp: preImageScalarMulI_def zsum_def)

text \<open>The extractor returns a witness when the greatest common divisor is one, and an error otherwise.\<close>

lemma Extract_ok:
  assumes d: "wf d" and gx: "bezout gcdx" and z: "z1 \<in> P d" "z2 \<in> P d"
    and ver: "mr_Verify (p d) (Some x) (Some a) (Some e1) (Some z1) = Inr ()" "mr_Verify (p d) (Some x) (Some a) (Some e2) (Some z2) = Inr ()"
  shows "if coprime (int (mr_L (p d))) (int (be_val e1) - int (be_val e2))
    then \<exists>w\<in>P d. mr_Extract gcdx (p d) (Some x) (Some a) [Some e1, Some e2] [Some z1, Some z2] = Inr (Some w) \<and> f d w = x
    else mr_Extract gcdx (p d) (Some x) (Some a) [Some e1, Some e2] [Some z1, Some z2] = Inl ErrFailed"
proof -
  let ?L = "int (mr_L (p d))" and ?D = "int (be_val e1) - int (be_val e2)" and ?G = "mr_preImageGroup (p d)"
  obtain g u v where g: "gcdx ?L ?D = (g, u, v)" by (cases "gcdx ?L ?D")
  have "case gcdx ?L ?D of (g, u, v) \<Rightarrow> g = gcd ?L ?D \<and> g = u * ?L + v * ?D"
    by (rule gx [unfolded bezout_def, rule_format])
  then have bez: "g = gcd ?L ?D" "g = u * ?L + v * ?D" unfolding g by simp_all
  have one: "g = 1 \<longleftrightarrow> coprime ?L ?D" using bez(1) by (auto simp: coprime_iff_gcd_eq_1)
  obtain y where y: "y \<in> P d" "preImageScalarMulI (p d) (mr_PreImage (p d) x) u = Inr y" "f d y = zsum u (nsum (mr_L (p d)) x)"
    using preImageScalarMulI_ok [OF d, of "mr_PreImage (p d) x" u] anchored [OF d, of x] by auto
  obtain t where t: "t \<in> P d" "fg_Op ?G (fg_OpInv ?G z2) z1 = Inr t" "f d t = - f d z2 + f d z1"
    using op [OF d, of "fg_OpInv ?G z2" z1] inverse [OF d z(2)] z(1) by auto
  obtain c where c: "c \<in> P d" "preImageScalarMulI (p d) t v = Inr c" "f d c = zsum v (f d t)" using preImageScalarMulI_ok [OF d t(1)] by blast
  obtain w where w: "w \<in> P d" "fg_Op ?G y c = Inr w" "f d w = f d y + f d c" using op [OF d y(1) c(1)] by blast
  have "f d z1 = a + nsum (be_val e1) x" "f d z2 = a + nsum (be_val e2) x" using ver verify_iff [OF d z(1)] verify_iff [OF d z(2)] by simp_all
  then have "f d t = zsum ?D x" using t(3) by (simp add: zsum_diff)
  then have "f d w = zsum (u * ?L + v * ?D) x" using w(3) y(3) c(3) by (simp only: zsum_laws)
  then have "g = 1 \<Longrightarrow> f d w = x" using bez(2) by (simp add: zsum_laws)
  moreover have "mr_Extract gcdx (p d) (Some x) (Some a) [Some e1, Some e2] [Some z1, Some z2] = (if g \<noteq> 1 then Inl ErrFailed else Inr (Some w))"
    using ver g y(2) t(2) c(2) w(2) by (simp add: mr_Extract_def numeral_2_eq_2)
  ultimately show ?thesis using w(1) one by auto
qed

end

sublocale maurer \<subseteq> special_sound wf "\<lambda>d. maurer_sigma ibytes (p d)" "\<lambda>d w. \<exists>x\<in>P d. w = Some x" "\<lambda>d z. \<exists>x\<in>P d. z = Some x"
    "\<lambda>d e e'. coprime (int (mr_L (p d))) (int (be_val e) - int (be_val e'))" for ibytes
proof (unfold_locales, goal_cases)
  case (1 d x a e z e' z')
  from 1(2) obtain g h where "x = Some g" "a = Some h" by (auto simp: maurer_sigma_def mr_Verify_def split: option.splits)
  with 1 obtain t t' where *: "t \<in> P d" "t' \<in> P d" "mr_Verify (p d) (Some g) (Some h) (Some e) (Some t) = Inr ()"
    "mr_Verify (p d) (Some g) (Some h) (Some e') (Some t') = Inr ()" "x = Some g" by (auto simp: maurer_sigma_def)
  from Extract_ok [OF 1(1) xgcd_bezout *(1-4)] 1(6) obtain w where "w \<in> P d" "f d w = g" by auto
  then show ?case using *(5) validate_iff [OF 1(1), of w x] by (auto simp: maurer_sigma_def)
qed

section \<open>The discrete logarithm as an instance\<close>

text \<open>A parameter of the family is the order, the encoding of scalars, the group and the generator.\<close>

type_synonym ('g, 'a) dlog_setting = "nat \<times> ('a \<Rightarrow> bytes) \<times> ('g, 'a) PrimeGroup \<times> 'g"

definition schnorr_protocol :: "('g::ab_group_add, 'a::field) dlog_setting \<Rightarrow> ('g, 'a, 'a list) MaurerProtocol" where
  "schnorr_protocol d = (case d of (order, sbytes, G, generator) \<Rightarrow> projr (schnorr_NewProtocol order sbytes G generator (Some [])))"

definition schnorr_wf :: "('g::ab_group_add, 'a::field) dlog_setting \<Rightarrow> bool" where
  "schnorr_wf d = (case d of (order, sbytes, G, generator) \<Rightarrow> prime_group G \<and> (\<forall>x::'g. nsum order x = 0))"

lemma schnorr_NewProtocol_ok: "schnorr_NewProtocol order sbytes G generator (Some prng) = Inr (schnorr_protocol (order, sbytes, G, generator))"
  by (simp add: schnorr_NewProtocol_def maurer_NewProtocol_def schnorr_protocol_def ComputationalSecurityBytesCeil_def)

lemma schnorr_protocol_simps:
  "mr_preImageGroup (schnorr_protocol (order, sbytes, G, generator)) = scalar_group sbytes"
  "mr_phi (schnorr_protocol (order, sbytes, G, generator)) = (\<lambda>s. Inr (ScalarOp G generator s))"
  "mr_L (schnorr_protocol (order, sbytes, G, generator)) = order"
  "mr_PreImage (schnorr_protocol (order, sbytes, G, generator)) g = 0"
  "mr_challengeByteLen (schnorr_protocol (order, sbytes, G, generator)) = 16"
  "mr_soundnessError (schnorr_protocol (order, sbytes, G, generator)) = 128"
  "mr_imageScalarMul (schnorr_protocol (order, sbytes, G, generator)) = defaultScalarMul (\<lambda>x e. Inr (scalarMul x e))"
  "mr_preImageScalarMul (schnorr_protocol (order, sbytes, G, generator)) = defaultScalarMul (\<lambda>x e. Inr (scalarMul x e))"
  by (simp_all add: schnorr_protocol_def schnorr_NewProtocol_def maurer_NewProtocol_def ComputationalSecurityBytesCeil_def scalar_group_def)

interpretation schnorr: maurer schnorr_wf schnorr_protocol "\<lambda>d. UNIV" "\<lambda>(order, sbytes, G, generator). ScalarOp G generator"
proof (unfold_locales, goal_cases)
  case (7 d x q')
  obtain order sbytes G g where d: "d = (order, sbytes, G, g)" by (cases d)
  show ?case by (rule exI [of _ "x # q'"]) (simp add: d schnorr_protocol_simps scalar_group_def scalar_Random_def)
qed (auto simp: schnorr_wf_def schnorr_protocol_simps scalar_group_def scalar_laws scalar_nsum defaultScalarMul_def scalarMul_nsum)

section \<open>Representations as an instance\<close>

type_synonym ('g, 'a) rep_setting = "nat \<times> ('a \<Rightarrow> bytes) \<times> ('g, 'a) PrimeGroup \<times> 'g list"

definition okamoto_protocol :: "('g::ab_group_add, 'a::field) rep_setting \<Rightarrow> ('g, 'a list, 'a list) MaurerProtocol" where
  "okamoto_protocol d = (case d of (order, sbytes, G, generators) \<Rightarrow> projr (okamoto_NewProtocol order sbytes G generators (Some [])))"

definition okamoto_wf :: "('g::ab_group_add, 'a::field) rep_setting \<Rightarrow> bool" where
  "okamoto_wf d = (case d of (order, sbytes, G, generators) \<Rightarrow> prime_group G \<and> (\<forall>x::'g. nsum order x = 0) \<and> generators \<noteq> [])"

lemma okamoto_NewProtocol_ok:
  "generators \<noteq> [] \<Longrightarrow> okamoto_NewProtocol order sbytes G generators (Some prng) = Inr (okamoto_protocol (order, sbytes, G, generators))"
  by (simp add: okamoto_NewProtocol_def maurer_NewProtocol_def okamoto_protocol_def ComputationalSecurityBytesCeil_def dp_New_def)

text \<open>The element represented by a list of scalars.\<close>

definition represented :: "('g::ab_group_add, 'a) PrimeGroup \<Rightarrow> 'g list \<Rightarrow> 'a list \<Rightarrow> 'g" where
  "represented G gs xs = (\<Sum>i<length gs. ScalarOp G (gs ! i) (xs ! i))"

lemma foldl_sum: "foldl (+) (c :: 'g::comm_monoid_add) cs = c + sum_list cs"
  by (induction cs arbitrary: c) (simp_all add: add.assoc)

lemma okamoto_phi:
  assumes "gs \<noteq> []" "length xs = length gs"
  shows "rbind (ScalarDiagonal G gs xs) CoDiagonal = Inr (represented G gs xs)"
proof -
  have "ScalarDiagonal G gs xs = Inr (map (\<lambda>i. ScalarOp G (gs ! i) (xs ! i)) [0..<length gs])"
    unfolding ScalarDiagonal_def by (rule MapOrError_ok) (use assms in simp)
  moreover obtain c cs where cs: "map (\<lambda>i. ScalarOp G (gs ! i) (xs ! i)) [0..<length gs] = c # cs" using assms(1) by (cases "length gs") (auto simp: upt_rec)
  moreover have "c + sum_list cs = represented G gs xs"
    using arg_cong [OF cs, of sum_list] by (simp add: represented_def interv_sum_list_conv_sum_set_nat atLeast0LessThan)
  ultimately show ?thesis by (simp add: CoDiagonal_def foldl_sum)
qed

lemma dp_ScalarMul_ok:
  fixes xs :: "('a::field) list"
  assumes "xs \<noteq> []"
  shows "dp_ScalarMul xs e = Inr (map (nsum (be_val e)) xs)"
proof -
  let ?m = "length xs" and ?v = "scalarMul_on (map2 (+)) (dp_OpIdentity (length xs)) xs e"
  let ?C = "{ys :: 'a list. length ys = ?m}"
  have comp: "?v \<in> ?C \<and> ?v ! i = nsum (be_val e) (xs ! i)" if "i < ?m" for i
    using scalarMul_on_hom [where C = ?C and h = "\<lambda>ys. ys ! i" and op = "map2 (+)" and op' = "(+)" and e = "dp_OpIdentity ?m" and x = xs and bs = e] that
    by (simp add: dp_OpIdentity_def scalarMul_nsum [symmetric] scalarMul_def)
  have len: "length ?v = ?m" using comp [of 0] assms by simp
  have "?v = map (nsum (be_val e)) xs" by (rule nth_equalityI) (use len comp in auto)
  then show ?thesis using assms by (simp add: dp_ScalarMul_def)
qed

lemma dp_Random_iff: "dp_Random n r = Inr (xs, r') \<longleftrightarrow> length xs = n \<and> r = xs @ r'"
proof (induction n arbitrary: r xs)
  case (Suc n)
  then show ?case by (cases r; cases xs) (auto simp: scalar_Random_def rbind_eq_Inr_iff)
qed auto

lemma okamoto_protocol_simps:
  assumes "gs \<noteq> []"
  shows "mr_preImageGroup (okamoto_protocol (order, sbytes, G, gs)) = power_group sbytes (length gs)"
    "mr_phi (okamoto_protocol (order, sbytes, G, gs)) = (\<lambda>s. rbind (ScalarDiagonal G gs s) CoDiagonal)"
    "mr_L (okamoto_protocol (order, sbytes, G, gs)) = order"
    "mr_PreImage (okamoto_protocol (order, sbytes, G, gs)) g = dp_OpIdentity (length gs)"
    "mr_challengeByteLen (okamoto_protocol (order, sbytes, G, gs)) = 16"
    "mr_soundnessError (okamoto_protocol (order, sbytes, G, gs)) = 128"
    "mr_imageScalarMul (okamoto_protocol (order, sbytes, G, gs)) = defaultScalarMul (\<lambda>x e. Inr (scalarMul x e))"
    "mr_preImageScalarMul (okamoto_protocol (order, sbytes, G, gs)) = defaultScalarMul dp_ScalarMul"
  using assms by (simp_all add: okamoto_protocol_def okamoto_NewProtocol_def maurer_NewProtocol_def ComputationalSecurityBytesCeil_def power_group_def dp_New_def)

interpretation okamoto: maurer okamoto_wf okamoto_protocol "\<lambda>(order, sbytes, G, gs). {xs. length xs = length gs}"
  "\<lambda>(order, sbytes, G, gs). represented G gs"
proof (unfold_locales, goal_cases)
  case (2 d x y)
  obtain order sbytes G gs where d: "d = (order, sbytes, G, gs)" by (cases d)
  have "represented G gs (map2 (+) x y) = represented G gs x + represented G gs y"
    using 2 by (simp add: d okamoto_wf_def represented_def sum.distrib [symmetric] scalar_laws)
  with 2 show ?case by (simp add: d okamoto_wf_def okamoto_protocol_simps power_group_def dp_Op_def)
next
  case (5 d x e)
  obtain order sbytes G gs where d: "d = (order, sbytes, G, gs)" by (cases d)
  have x: "x \<noteq> []" "gs \<noteq> []" using 5 by (auto simp: d okamoto_wf_def)
  have "represented G gs (map (nsum (be_val e)) x) = nsum (be_val e) (represented G gs x)"
    using 5 by (simp add: d okamoto_wf_def represented_def nsum_sum scalar_nsum)
  with 5 x show ?case by (simp add: d okamoto_protocol_simps defaultScalarMul_def dp_ScalarMul_ok)
next
  case (7 d x q')
  then show ?case by (cases d) (auto simp: okamoto_wf_def okamoto_protocol_simps power_group_def dp_Random_iff)
qed (auto simp: okamoto_wf_def okamoto_protocol_simps okamoto_phi power_group_def dp_OpInv_def dp_OpIdentity_def represented_def sum_negf
    scalar_laws defaultScalarMul_def scalarMul_nsum dp_Random_iff)

text \<open>Responses with more components than there are generators pass the verification, whose homomorphism reads the first ones
  only, but they cannot be combined with the anchor's preimage.\<close>

lemma okamoto_preImageScalarMulI_length:
  assumes "gs \<noteq> []" "xs \<noteq> []"
  shows "\<exists>ys. preImageScalarMulI (okamoto_protocol (order, sbytes, G, gs)) xs k = Inr ys \<and> length ys = length xs"
  using assms by (simp add: preImageScalarMulI_def okamoto_protocol_simps defaultScalarMul_def power_group_def dp_OpInv_def dp_ScalarMul_ok)

lemma okamoto_Verify_length:
  assumes "gs \<noteq> []" "mr_Verify (okamoto_protocol (order, sbytes, G, gs)) (Some x) (Some a) (Some e) (Some z) = Inr ()"
  shows "length gs \<le> length z"
proof (rule ccontr)
  assume "\<not> length gs \<le> length z"
  then have "ScalarDiagonal G gs z \<noteq> Inr ys" for ys
    unfolding ScalarDiagonal_def MapOrError_Inr_iff by (auto dest!: list_all2_nthD [where p = "length z"])
  with assms show False by (auto simp: mr_Verify_def okamoto_protocol_simps rbind_eq_Inr_iff split: if_splits)
qed

lemma okamoto_Extract_long:
  fixes G :: "('g::ab_group_add, 'a::field) PrimeGroup" and order :: nat and sbytes :: "'a \<Rightarrow> bytes" and gs :: "'g list"
  defines "p \<equiv> okamoto_protocol (order, sbytes, G, gs)"
  assumes gs: "gs \<noteq> []" and gx: "bezout gcdx"
    and acc: "mr_Verify p (Some x) (Some a) (Some e1) (Some z1) = Inr ()" "mr_Verify p (Some x) (Some a) (Some e2) (Some z2) = Inr ()"
    and long: "\<not> (length z1 = length gs \<and> length z2 = length gs)"
  shows "mr_Extract gcdx p (Some x) (Some a) [Some e1, Some e2] [Some z1, Some z2] =
    (if coprime (int order) (int (be_val e1) - int (be_val e2)) then Inl Panic else Inl ErrFailed)"
proof -
  let ?D = "int (be_val e1) - int (be_val e2)"
  obtain g u v where g: "gcdx (int order) ?D = (g, u, v)" by (cases "gcdx (int order) ?D")
  then have one: "g = 1 \<longleftrightarrow> coprime (int order) ?D"
    using gx [unfolded bezout_def, rule_format, of "int order" ?D] by (auto simp: coprime_iff_gcd_eq_1)
  have len: "length gs \<le> length z1" "length gs \<le> length z2" using okamoto_Verify_length [OF gs] acc unfolding p_def by blast+
  obtain y where y: "preImageScalarMulI p (dp_OpIdentity (length gs)) u = Inr y" "length y = length gs"
    using okamoto_preImageScalarMulI_length [OF gs, of "dp_OpIdentity (length gs)" order sbytes G u] gs by (auto simp: p_def dp_OpIdentity_def)
  have "rbind (dp_Op (dp_OpInv z2) z1) (\<lambda>zDiff. rbind (preImageScalarMulI p zDiff v) (\<lambda>c. rbind (dp_Op y c) (\<lambda>w. Inr (Some w)))) = Inl Panic"
  proof (cases "length z1 = length z2")
    case True
    let ?t = "map2 (+) (dp_OpInv z2) z1"
    have t: "length ?t = length z1" "?t \<noteq> []" using True len gs by (auto simp: dp_OpInv_def)
    then obtain c where "preImageScalarMulI p ?t v = Inr c" "length c = length z1"
      using okamoto_preImageScalarMulI_length [OF gs t(2), of order sbytes G v] by (auto simp: p_def)
    with True y(2) long show ?thesis by (simp add: dp_Op_def dp_OpInv_def)
  qed (simp add: dp_Op_def dp_OpInv_def)
  with acc g y(1) one show ?thesis
    by (simp add: mr_Extract_def okamoto_protocol_simps [OF gs] power_group_def p_def numeral_2_eq_2)
qed

section \<open>Properties\<close>

text \<open>C25. Special soundness of the proof of knowledge of a representation, for all pairs of accepting transcripts with one
  commitment. If the order is not coprime to the difference of the challenges the extractor returns an error. Otherwise, two responses
  with one component per generator give scalars that represent the statement in the generators, and when one of the accepted responses
  has more components than that (the verifier ignores the surplus) the extractor panics in the arithmetic of the direct power.\<close>

theorem okamoto_extract:
  fixes G :: "('g::ab_group_add, 'a::field) PrimeGroup"
  assumes G: "prime_group G" and order: "\<And>x::'g. nsum order x = 0" and gs: "generators \<noteq> []"
    and p: "okamoto_NewProtocol order sbytes G generators (Some prng) = Inr p" and gcdx: "bezout gcdx"
    and acc: "mr_Verify p (Some x) (Some a) (Some e1) (Some z1) = Inr ()" "mr_Verify p (Some x) (Some a) (Some e2) (Some z2) = Inr ()"
  shows "if \<not> coprime (int order) (int (be_val e1) - int (be_val e2))
    then mr_Extract gcdx p (Some x) (Some a) [Some e1, Some e2] [Some z1, Some z2] = Inl ErrFailed
    else if length z1 = length generators \<and> length z2 = length generators
    then \<exists>w. mr_Extract gcdx p (Some x) (Some a) [Some e1, Some e2] [Some z1, Some z2] = Inr (Some w) \<and>
      length w = length generators \<and> x = represented G generators w
    else mr_Extract gcdx p (Some x) (Some a) [Some e1, Some e2] [Some z1, Some z2] = Inl Panic"
proof -
  let ?d = "(order, sbytes, G, generators)"
  have wf: "okamoto_wf ?d" using G order gs by (simp add: okamoto_wf_def)
  have eq: "p = okamoto_protocol ?d" using p by (simp add: okamoto_NewProtocol_ok [OF gs])
  note acc' = acc [unfolded eq]
  show ?thesis
  proof (cases "length z1 = length generators \<and> length z2 = length generators")
    case True
    with okamoto.Extract_ok [OF wf gcdx, of z1 z2 x a e1 e2] acc' show ?thesis
      by (auto simp: eq okamoto_protocol_simps [OF gs] split: if_splits)
  next
    case False
    with okamoto_Extract_long [OF gs gcdx acc' False] show ?thesis by (auto simp: eq)
  qed
qed

text \<open>The rationals as a group of order zero, two generators and the transcripts for the challenges one and zero; then the same
  transcripts with a third component in the responses.\<close>

theorem okamoto_extract_witness:
  "\<exists>p w. okamoto_NewProtocol 0 (\<lambda>_. []) field_group [1, 2 :: rat] (Some []) = Inr p \<and>
     mr_Extract xgcd p (Some 11) (Some 17) [Some [1], Some [0]] [Some [8, 10], Some [5, 6]] = Inr (Some w) \<and>
     length w = 2 \<and> 11 = represented field_group [1, 2 :: rat] w \<and>
     mr_Extract xgcd p (Some 11) (Some 17) [Some [1], Some [0]] [Some [8, 10, 0], Some [5, 6, 0]] = Inl Panic"
proof -
  obtain p where p: "okamoto_NewProtocol 0 (\<lambda>_. []) field_group [1, 2 :: rat] (Some []) = Inr p" using okamoto_NewProtocol_ok by blast
  have eq: "p = okamoto_protocol (0, \<lambda>_. [], field_group, [1, 2])" using p by (simp add: okamoto_NewProtocol_ok)
  have acc: "mr_Verify p (Some 11) (Some 17) (Some [1]) (Some [8, 10]) = Inr ()" "mr_Verify p (Some 11) (Some 17) (Some [0]) (Some [5, 6]) = Inr ()"
    "mr_Verify p (Some 11) (Some 17) (Some [1]) (Some [8, 10, 0]) = Inr ()" "mr_Verify p (Some 11) (Some 17) (Some [0]) (Some [5, 6, 0]) = Inr ()"
    unfolding eq
    by (simp_all add: mr_Verify_def okamoto_protocol_simps ScalarDiagonal_def CoDiagonal_def upt_rec defaultScalarMul_def scalarMul_nsum
        be_val_def field_group_def numeral_2_eq_2)
  from okamoto_extract [OF field_group _ _ p xgcd_bezout acc(1,2)] okamoto_extract [OF field_group _ _ p xgcd_bezout acc(3,4)] p
  show ?thesis by (auto simp: be_val_def)
qed

text \<open>C26. Honest-verifier zero knowledge of Schnorr's proof: for every challenge the transcript of an honest prover that draws
  \<open>s\<close> is the transcript that the simulator outputs when it draws \<open>s + e w\<close>, and this change of the randomness is a bijection.\<close>

theorem schnorr_zero_knowledge:
  fixes G :: "('g::ab_group_add, 'a::field) PrimeGroup"
  assumes G: "prime_group G" and p: "schnorr_NewProtocol order sbytes G g (Some prng0) = Inr p" and x: "x = ScalarOp G g w"
  shows "bij (\<lambda>s. s + nsum (be_val e) w) \<and>
    rbind (mr_ComputeProverCommitment p (Some x) (Some w) (s # prng)) (\<lambda>(a, state, prng).
        rbind (mr_ComputeProverResponse p (Some x) (Some w) a state (Some e)) (\<lambda>z. Inr (a, z, prng))) =
      mr_RunSimulator p (Some x) (Some e) ((s + nsum (be_val e) w) # prng)"
proof -
  have eq: "p = schnorr_protocol (order, sbytes, G, g)" using p by (simp add: schnorr_NewProtocol_ok)
  have "bij (\<lambda>s. s + nsum (be_val e) w)" by (rule bij_betw_byWitness [where f' = "\<lambda>s. s - nsum (be_val e) w"]) auto
  then show ?thesis
    by (simp add: eq x mr_ComputeProverCommitment_def mr_ComputeProverResponse_def mr_RunSimulator_def schnorr_protocol_simps scalar_group_def
        scalar_Random_def defaultScalarMul_def scalarMul_nsum nsum_minus scalar_laws [OF G] scalar_nsum [OF G])
qed

theorem schnorr_zero_knowledge_witness:
  "\<exists>p. schnorr_NewProtocol 0 (\<lambda>_. []) field_group 2 (Some []) = Inr p \<and>
     rbind (mr_ComputeProverCommitment p (Some 6) (Some 3) [5 :: rat]) (\<lambda>(a, state, prng).
        rbind (mr_ComputeProverResponse p (Some 6) (Some 3) a state (Some [7])) (\<lambda>z. Inr (a, z, prng))) =
      mr_RunSimulator p (Some 6) (Some [7]) [5 + nsum (be_val [7]) 3]"
  using schnorr_zero_knowledge [OF field_group schnorr_NewProtocol_ok [of 0 "\<lambda>_. []" field_group 2 "[]"], where x = 6 and w = "3 :: rat" and s = 5 and e = "[7]" and prng = "[]"]
    schnorr_NewProtocol_ok [of 0 "\<lambda>_. []" field_group "2 :: rat" "[]"]
  by (simp add: field_group_def)

text \<open>C27. Non-interactive Schnorr proofs: with a codec that decodes what it encodes, every statement with its witness has a proof
  that the prover outputs and the verifier accepts, and the transcripts of the two contexts agree afterwards.\<close>

theorem schnorr_fiat_shamir:
  fixes G :: "('g::ab_group_add, 'a::field) PrimeGroup"
  assumes G: "prime_group G" and order: "\<And>x::'g. nsum order x = 0"
    and p: "schnorr_NewProtocol order sbytes G g (Some prng0) = Inr p" and sp: "fs_NewCompiler (Some (maurer_sigma ibytes p)) = Inr sp"
    and ctx: "open_ctx cp" "ctx_tape cv = ctx_tape cp" "ctx_sid cv = ctx_sid cp"
    and codec: "\<And>a z. \<exists>b. enc (a, z) = Inr b \<and> b \<noteq> [] \<and> dec b = Inr (Some (a, z))"
  shows "\<exists>pb cp' cv'. rbind (fs_NewProver sp (Some cp)) (\<lambda>c. fs_Prove xof enc sp c (Some (ScalarOp G g w)) (Some w) (s # prng)) = Inr (pb, cp', prng) \<and>
    rbind (fs_NewVerifier sp (Some cv)) (\<lambda>c. fs_Verify xof dec sp c (Some (ScalarOp G g w)) pb) = Inr cv' \<and> ctx_tape cv' = ctx_tape cp'"
proof -
  let ?d = "(order, sbytes, G, g)"
  have eq: "p = schnorr_protocol ?d" using p by (simp add: schnorr_NewProtocol_ok)
  have wf: "schnorr_wf ?d" using G order by (simp add: schnorr_wf_def)
  have sp: "sp = maurer_sigma ibytes (schnorr_protocol ?d)" using sp eq by (simp add: fs_NewCompiler_def split: if_splits)
  show ?thesis unfolding sp
    by (rule schnorr.fs_complete [OF wf ctx, where a = "Some (ScalarOp G g s)" and s = "Some s"])
      (use codec in \<open>simp_all add: maurer_sigma_def schnorr_protocol_simps mr_ValidateStatement_def mr_ComputeProverCommitment_def scalar_group_def scalar_Random_def\<close>)
qed

text \<open>A codec in unary and an empty context, for the witness.\<close>

definition unary_enc :: "'e::countable \<Rightarrow> bytes res" where
  "unary_enc x = Inr (1 # replicate (to_nat x) 0)"

definition unary_dec :: "bytes \<Rightarrow> 'e::countable option res" where
  "unary_dec b = Inr (Some (from_nat (length b - 1)))"

definition empty_context :: Context where
  "empty_context = \<lparr>ctx_sid = [], ctx_holderID = 1, ctx_sortedQuorum = [1], ctx_tape = \<lparr>sh_custom = [], sh_absorbed = [], sh_squeezed = None\<rparr>, ctx_seeds = Map.empty\<rparr>"

theorem schnorr_fiat_shamir_witness:
  "\<exists>p sp pb cp' cv'. schnorr_NewProtocol 0 (\<lambda>_. []) field_group (2 :: rat) (Some []) = Inr p \<and> fs_NewCompiler (Some (maurer_sigma (\<lambda>_. []) p)) = Inr sp \<and>
     rbind (fs_NewProver sp (Some empty_context)) (\<lambda>c. fs_Prove (\<lambda>_ _ _. 1) unary_enc sp c (Some (ScalarOp field_group 2 3)) (Some 3) [5]) = Inr (pb, cp', []) \<and>
     rbind (fs_NewVerifier sp (Some empty_context)) (\<lambda>c. fs_Verify (\<lambda>_ _ _. 1) unary_dec sp c (Some (ScalarOp field_group 2 3)) pb) = Inr cv' \<and>
     ctx_tape cv' = ctx_tape cp'"
proof -
  obtain p where p: "schnorr_NewProtocol 0 (\<lambda>_. []) field_group (2 :: rat) (Some []) = Inr p" using schnorr_NewProtocol_ok by blast
  then have eq: "p = schnorr_protocol (0, \<lambda>_. [], field_group, 2)" by (simp add: schnorr_NewProtocol_ok)
  have "sg_SoundnessError (maurer_sigma (\<lambda>_. []) p) = 128" by (simp add: eq maurer_sigma_def schnorr_protocol_simps)
  then have c: "fs_NewCompiler (Some (maurer_sigma (\<lambda>_. []) p)) = Inr (maurer_sigma (\<lambda>_. []) p)"
    by (simp add: fs_NewCompiler_def ComputationalSecurityBits_def)
  have "open_ctx empty_context" by (simp add: open_ctx_def empty_context_def)
  note * = schnorr_fiat_shamir [OF field_group _ p c this refl refl, where enc = unary_enc and dec = unary_dec and xof = "\<lambda>_ _ _. 1" and w = 3 and s = 5 and prng = "[]"]
  show ?thesis
    by (rule exI [of _ p], rule exI [of _ "maurer_sigma (\<lambda>_. []) p"], simp only: p c simp_thms, rule *) (simp_all add: unary_enc_def unary_dec_def)
qed

end
