(* ===== verification/Subtle.thy ===== *)
theory Subtle
  imports Transcripts
begin

text \<open>
  The exclusive or of byte slices (\<open>crypto/subtle\<close>), which the composition of proofs and the agreement on randomness use, and what a
  loop over several slices computes.
\<close>

unbundle bit_operations_syntax

text \<open>\<open>subtle.XORBytes\<close> into a destination that is at least as long as the operands.\<close>

definition XORBytes :: "bytes \<Rightarrow> bytes \<Rightarrow> bytes \<Rightarrow> bytes" where
  "XORBytes dst x y = map2 (XOR) x y @ drop (min (length x) (length y)) dst"

text \<open>Byte \<open>k\<close> of the exclusive or of several slices.\<close>

definition xorl :: "bytes list \<Rightarrow> nat \<Rightarrow> 8 word" where
  "xorl es k = foldr (\<lambda>e v. e ! k XOR v) es 0"

lemma xorl_simps [simp]: "xorl [] k = 0" "xorl (e # es) k = e ! k XOR xorl es k" "xorl (es @ fs) k = xorl es k XOR xorl fs k"
proof -
  show "xorl (es @ fs) k = xorl es k XOR xorl fs k" by (induction es) (simp_all add: xorl_def xor.assoc)
qed (simp_all add: xorl_def)

lemma XORBytes_ok [simp]: "length x = N \<Longrightarrow> length y = N \<Longrightarrow> length dst = N \<Longrightarrow> XORBytes dst x y = map2 (XOR) x y"
  by (simp add: XORBytes_def)

lemma fold_XORBytes:
  assumes "length x = N" "\<forall>e\<in>set es. length e = N"
  shows "length (fold (\<lambda>e acc. XORBytes acc acc e) es x) = N \<and> (\<forall>k<N. fold (\<lambda>e acc. XORBytes acc acc e) es x ! k = x ! k XOR xorl es k)"
  using assms by (induction es arbitrary: x) (simp_all add: xor.assoc)

lemma fold_XORBytes_index: "fold (\<lambda>i acc. XORBytes acc acc (es ! i)) is x = fold (\<lambda>e acc. XORBytes acc acc e) (map ((!) es) is) x"
  by (simp add: fold_map comp_def)

end
