(* ===== verification/SigmaCompose.thy ===== *)
theory SigmaCompose
  imports Maurer Sharing Subtle
begin

text \<open>
  Composition of sigma protocols (\<open>pkg/proofs/sigma/compose\<close>): conjunction and disjunction of several statements of one protocol
  (\<open>sigand/and.go\<close>, \<open>sigor/or.go\<close>). Both are instances of the interface when the protocol they compose is one. The goroutines of
  an error group are run in the order of the indices; the reader they share hands out independent samples, so that another order
  only permutes them. A nil slice is the empty list.
\<close>

section \<open>Conjunction\<close>

text \<open>\<open>AppendLengthPrefixedSlices\<close>: the number of slices and then every slice after its length.\<close>

definition AppendLengthPrefixed :: "bytes \<Rightarrow> bytes \<Rightarrow> bytes" where
  "AppendLengthPrefixed out b = out @ le64 (word_of_nat (length b)) @ b"

definition AppendLengthPrefixedSlices :: "bytes \<Rightarrow> bytes list \<Rightarrow> bytes" where
  "AppendLengthPrefixedSlices out ins = out @ le64 (word_of_nat (length ins)) @ concat (map (\<lambda>b. le64 (word_of_nat (length b)) @ b) ins)"

definition slices_Bytes :: "('e \<Rightarrow> bytes res) \<Rightarrow> 'e list \<Rightarrow> bytes res" where
  "slices_Bytes f xs = rbind (MapOrError f xs) (\<lambda>bs. Inr (AppendLengthPrefixedSlices [] bs))"

text \<open>Decimal digits, for \<open>%d\<close>.\<close>

function decimal :: "nat \<Rightarrow> string" where
  "decimal n = (if n < 10 then [char_of (48 + n)] else decimal (n div 10) @ [char_of (48 + n mod 10)])"
  by auto
termination by (relation "measure id") auto

declare decimal.simps [simp del]

definition ComposeStatements :: "('x \<Rightarrow> bool) \<Rightarrow> 'x list \<Rightarrow> 'x list res" where
  "ComposeStatements isNil statements = (if list_ex isNil statements then Inl ErrInvalidArgument else Inr statements)"

definition ComposeWitnesses :: "('w \<Rightarrow> bool) \<Rightarrow> 'w list \<Rightarrow> 'w list res" where
  "ComposeWitnesses isNil witnesses = (if list_ex isNil witnesses then Inl ErrInvalidArgument else Inr witnesses)"

fun sigand_commit_loop ::
  "('x, 'w, 'a, 's, 'z, 'r) SigmaProtocol \<Rightarrow> ('x \<times> 'w) list \<Rightarrow> 'r \<Rightarrow> ('a list \<times> 's list \<times> 'r) res" where
  "sigand_commit_loop sp [] prng = Inr ([], [], prng)"
| "sigand_commit_loop sp ((x, w) # xws) prng =
     rbind (sg_ComputeProverCommitment sp x w prng) (\<lambda>(a, s, prng).
     rbind (sigand_commit_loop sp xws prng) (\<lambda>(as, ss, prng). Inr (a # as, s # ss, prng)))"

definition sigand_ComputeProverCommitment ::
  "('x, 'w, 'a, 's, 'z, 'r) SigmaProtocol \<Rightarrow> nat \<Rightarrow> 'x list \<Rightarrow> 'w list \<Rightarrow> 'r \<Rightarrow> ('a list \<times> 's list \<times> 'r) res" where
  "sigand_ComputeProverCommitment sp count statement witness prng =
     (if length statement \<noteq> count then Inl ErrInvalidLength
      else if length witness \<noteq> count then Inl ErrInvalidLength
      else sigand_commit_loop sp (zip statement witness) prng)"

definition sigand_ComputeProverResponse ::
  "('x, 'w, 'a, 's, 'z, 'r) SigmaProtocol \<Rightarrow> nat \<Rightarrow> 'x list \<Rightarrow> 'w list \<Rightarrow> 'a list \<Rightarrow> 's list \<Rightarrow> bytes option \<Rightarrow> 'z list res" where
  "sigand_ComputeProverResponse sp count statement witness commitment state challengeBytes =
     (if length statement \<noteq> count then Inl ErrInvalidLength
      else if length witness \<noteq> count then Inl ErrInvalidLength
      else if length commitment \<noteq> count then Inl ErrInvalidLength
      else if length state \<noteq> count then Inl ErrInvalidLength
      else MapOrError (\<lambda>i. sg_ComputeProverResponse sp (statement ! i) (witness ! i) (commitment ! i) (state ! i) challengeBytes) [0..<count])"

definition sigand_Verify ::
  "('x, 'w, 'a, 's, 'z, 'r) SigmaProtocol \<Rightarrow> nat \<Rightarrow> 'x list \<Rightarrow> 'a list \<Rightarrow> bytes option \<Rightarrow> 'z list \<Rightarrow> unit res" where
  "sigand_Verify sp count statement commitment challengeBytes response =
     (if length statement \<noteq> count then Inl ErrInvalidLength
      else if length commitment \<noteq> count then Inl ErrInvalidLength
      else if length response \<noteq> count then Inl ErrInvalidLength
      else FoldOrError (\<lambda>_ i. sg_Verify sp (statement ! i) (commitment ! i) challengeBytes (response ! i)) () [0..<count])"

fun sigand_simulate_loop ::
  "('x, 'w, 'a, 's, 'z, 'r) SigmaProtocol \<Rightarrow> ('x \<times> bytes option) list \<Rightarrow> 'r \<Rightarrow> ('a list \<times> 'z list \<times> 'r) res" where
  "sigand_simulate_loop sp [] prng = Inr ([], [], prng)"
| "sigand_simulate_loop sp ((x, e) # xes) prng =
     rbind (sg_RunSimulator sp x e prng) (\<lambda>(a, z, prng).
     rbind (sigand_simulate_loop sp xes prng) (\<lambda>(as, zs, prng). Inr (a # as, z # zs, prng)))"

definition sigand_RunSimulator ::
  "('x, 'w, 'a, 's, 'z, 'r) SigmaProtocol \<Rightarrow> nat \<Rightarrow> 'x list \<Rightarrow> bytes option \<Rightarrow> 'r \<Rightarrow> ('a list \<times> 'z list \<times> 'r) res" where
  "sigand_RunSimulator sp count statement challengeBytes prng =
     (if length statement \<noteq> count then Inl ErrInvalidLength
      else sigand_simulate_loop sp (map (\<lambda>x. (x, challengeBytes)) statement) prng)"

definition sigand_ValidateStatement ::
  "('x, 'w, 'a, 's, 'z, 'r) SigmaProtocol \<Rightarrow> nat \<Rightarrow> 'x list \<Rightarrow> 'w list \<Rightarrow> unit res" where
  "sigand_ValidateStatement sp count statement witness =
     (if length statement \<noteq> count then Inl ErrInvalidLength
      else if length witness \<noteq> count then Inl ErrInvalidLength
      else FoldOrError (\<lambda>_ i. sg_ValidateStatement sp (statement ! i) (witness ! i)) () [0..<count])"

definition sigand_sigma ::
  "string \<Rightarrow> ('x, 'w, 'a, 's, 'z, 'r) SigmaProtocol \<Rightarrow> nat \<Rightarrow> ('x list, 'w list, 'a list, 's list, 'z list, 'r) SigmaProtocol" where
  "sigand_sigma name sp count = \<lparr>sg_Name = name, sg_ComputeProverCommitment = sigand_ComputeProverCommitment sp count,
     sg_ComputeProverResponse = sigand_ComputeProverResponse sp count, sg_Verify = sigand_Verify sp count,
     sg_RunSimulator = sigand_RunSimulator sp count, sg_SpecialSoundness = sg_SpecialSoundness sp,
     sg_SoundnessError = sg_SoundnessError sp, sg_GetChallengeBytesLength = sg_GetChallengeBytesLength sp,
     sg_ValidateStatement = sigand_ValidateStatement sp count,
     sg_xBytes = slices_Bytes (sg_xBytes sp), sg_aBytes = slices_Bytes (sg_aBytes sp), sg_zBytes = slices_Bytes (sg_zBytes sp),
     sg_aNil = (\<lambda>a. a = []), sg_zNil = (\<lambda>z. z = [])\<rparr>"

definition sigand_ComposeNamed ::
  "string \<Rightarrow> ('x, 'w, 'a, 's, 'z, 'r) SigmaProtocol option \<Rightarrow> nat \<Rightarrow> ('x list, 'w list, 'a list, 's list, 'z list, 'r) SigmaProtocol res" where
  "sigand_ComposeNamed name p count = (case p of
     None \<Rightarrow> Inl ErrIsNil
   | Some sp \<Rightarrow> if count = 0 then Inl ErrInvalidArgument else Inr (sigand_sigma name sp count))"

definition sigand_Compose ::
  "('x, 'w, 'a, 's, 'z, 'r) SigmaProtocol option \<Rightarrow> nat \<Rightarrow> ('x list, 'w list, 'a list, 's list, 'z list, 'r) SigmaProtocol res" where
  "sigand_Compose p count = (case p of
     None \<Rightarrow> Inl ErrIsNil
   | Some sp \<Rightarrow> if count = 0 then Inl ErrInvalidArgument
       else sigand_ComposeNamed (''('' @ sg_Name sp @ '')^'' @ decimal count) (Some sp) count)"

section \<open>Conjunctions are sigma protocols\<close>

lemma sigand_commit_iff:
  "length xs = length ws \<Longrightarrow> sigand_commit_loop sp (zip xs ws) r = Inr (as, ss, r') \<Longrightarrow>
     length as = length xs \<and> length ss = length xs \<and>
     (\<forall>i<length xs. \<exists>q q'. sg_ComputeProverCommitment sp (xs ! i) (ws ! i) q = Inr (as ! i, ss ! i, q'))"
proof (induction xs ws arbitrary: as ss r rule: list_induct2)
  case (Cons x xs w ws)
  from Cons.prems obtain a s q as' ss' where c: "sg_ComputeProverCommitment sp x w r = Inr (a, s, q)"
    "sigand_commit_loop sp (zip xs ws) q = Inr (as', ss', r')" "as = a # as'" "ss = s # ss'"
    by (auto simp: rbind_eq_Inr_iff)
  with Cons.IH [OF c(2)] show ?case by (auto simp: nth_Cons split: nat.splits)
qed simp

lemma sigand_simulate_iff:
  "sigand_simulate_loop sp xes r = Inr (as, zs, r') \<Longrightarrow> length as = length xes \<and> length zs = length xes \<and>
     (\<forall>i<length xes. \<exists>q q'. sg_RunSimulator sp (fst (xes ! i)) (snd (xes ! i)) q = Inr (as ! i, zs ! i, q'))"
proof (induction xes arbitrary: as zs r)
  case (Cons xe xes)
  obtain x e where xe: "xe = (x, e)" by (cases xe)
  from Cons.prems obtain a z q as' zs' where c: "sg_RunSimulator sp x e r = Inr (a, z, q)"
    "sigand_simulate_loop sp xes q = Inr (as', zs', r')" "as = a # as'" "zs = z # zs'"
    by (auto simp: rbind_eq_Inr_iff xe)
  with Cons.IH [OF c(2)] show ?case by (auto simp: nth_Cons xe split: nat.splits)
qed simp

lemma sigand_simulate_any:
  assumes "length as = length xes" "length zs = length xes"
    and "\<And>i q'. i < length xes \<Longrightarrow> \<exists>q. sg_RunSimulator sp (fst (xes ! i)) (snd (xes ! i)) q = Inr (as ! i, zs ! i, q')"
  shows "\<exists>q. sigand_simulate_loop sp xes q = Inr (as, zs, q')"
  using assms
proof (induction xes arbitrary: as zs)
  case (Cons xe xes)
  obtain x e where xe: "xe = (x, e)" by (cases xe)
  obtain a as' z zs' where az: "as = a # as'" "zs = z # zs'" using Cons.prems(1,2) by (cases as; cases zs) auto
  have "\<exists>q. sigand_simulate_loop sp xes q = Inr (as', zs', q')"
    by (rule Cons.IH) (use Cons.prems az in \<open>fastforce+\<close>)
  then obtain q where q: "sigand_simulate_loop sp xes q = Inr (as', zs', q')" by blast
  obtain q0 where "sg_RunSimulator sp x e q0 = Inr (a, z, q)" using Cons.prems(3) [of 0 q] xe az by auto
  with q show ?case by (intro exI [of _ q0]) (simp add: xe az)
qed simp

lemma sigand_simps [simp]:
  "sg_ComputeProverCommitment (sigand_sigma nm sp n) = sigand_ComputeProverCommitment sp n"
  "sg_ComputeProverResponse (sigand_sigma nm sp n) = sigand_ComputeProverResponse sp n"
  "sg_Verify (sigand_sigma nm sp n) = sigand_Verify sp n" "sg_RunSimulator (sigand_sigma nm sp n) = sigand_RunSimulator sp n"
  "sg_GetChallengeBytesLength (sigand_sigma nm sp n) = sg_GetChallengeBytesLength sp"
  "sg_ValidateStatement (sigand_sigma nm sp n) = sigand_ValidateStatement sp n"
  "sg_aNil (sigand_sigma nm sp n) as \<longleftrightarrow> as = []" "sg_zNil (sigand_sigma nm sp n) zs \<longleftrightarrow> zs = []"
  "sg_SoundnessError (sigand_sigma nm sp n) = sg_SoundnessError sp"
  by (simp_all add: sigand_sigma_def)

lemma sigand_Validate_iff:
  "sigand_ValidateStatement sp n xs ws = Inr () \<longleftrightarrow> length xs = n \<and> length ws = n \<and> (\<forall>i<n. sg_ValidateStatement sp (xs ! i) (ws ! i) = Inr ())"
  by (auto simp: sigand_ValidateStatement_def FoldOrError_check)

lemma sigand_Verify_iff:
  "sigand_Verify sp n xs as ch zs = Inr () \<longleftrightarrow>
     length xs = n \<and> length as = n \<and> length zs = n \<and> (\<forall>i<n. sg_Verify sp (xs ! i) (as ! i) ch (zs ! i) = Inr ())"
  by (auto simp: sigand_Verify_def FoldOrError_check)

lemma MapOrError_upt_iff: "MapOrError f [0..<n] = Inr ys \<longleftrightarrow> length ys = n \<and> (\<forall>i<n. f i = Inr (ys ! i))"
  by (auto simp: MapOrError_Inr_iff list_all2_conv_all_nth)

lemma sigand_Response_iff:
  "sigand_ComputeProverResponse sp n xs ws as ss ch = Inr zs \<longleftrightarrow>
     length xs = n \<and> length ws = n \<and> length as = n \<and> length ss = n \<and> length zs = n \<and>
     (\<forall>i<n. sg_ComputeProverResponse sp (xs ! i) (ws ! i) (as ! i) (ss ! i) ch = Inr (zs ! i))"
  by (auto simp: sigand_ComputeProverResponse_def MapOrError_upt_iff)

text \<open>A composition is determined by its name, the parameter of the protocol it composes and the number of statements.\<close>

locale and_composition = special_sound

sublocale and_composition \<subseteq> andc: special_sound "\<lambda>(nm, d, n). wf d \<and> 0 < n" "\<lambda>(nm, d, n). sigand_sigma nm (sp d) n"
  "\<lambda>(nm, d, n) ws. \<forall>w\<in>set ws. good d w" "\<lambda>(nm, d, n) zs. \<forall>z\<in>set zs. goodz d z" "\<lambda>(nm, d, n). far d"
proof (unfold_locales, goal_cases)
  case (1 dn xs ws e r as ss r')
  obtain nm d n where dn: "dn = (nm, d, n)" by (cases dn)
  from 1 have d: "wf d" and len: "length xs = n" "length ws = n" "length e = sg_GetChallengeBytesLength (sp d)"
    and val: "\<And>i. i < n \<Longrightarrow> sg_ValidateStatement (sp d) (xs ! i) (ws ! i) = Inr ()" and g: "\<And>i. i < n \<Longrightarrow> good d (ws ! i)"
    and c: "sigand_commit_loop (sp d) (zip xs ws) r = Inr (as, ss, r')"
    by (auto simp: dn sigand_Validate_iff sigand_ComputeProverCommitment_def)
  have eq: "length xs = length ws" using len by simp
  note com = sigand_commit_iff [OF eq c]
  have "\<exists>z. sg_ComputeProverResponse (sp d) (xs ! i) (ws ! i) (as ! i) (ss ! i) (Some e) = Inr z \<and>
      sg_Verify (sp d) (xs ! i) (as ! i) (Some e) z = Inr () \<and> goodz d z" if "i < n" for i
    using complete [OF d val [OF that] g [OF that] len(3)] com len that by blast
  then obtain z where z: "\<And>i. i < n \<Longrightarrow> sg_ComputeProverResponse (sp d) (xs ! i) (ws ! i) (as ! i) (ss ! i) (Some e) = Inr (z i) \<and>
      sg_Verify (sp d) (xs ! i) (as ! i) (Some e) (z i) = Inr () \<and> goodz d (z i)" by metis
  then show ?case using len com by (intro exI [of _ "map z [0..<n]"]) (auto simp: dn sigand_Response_iff sigand_Verify_iff)
next
  case (4 dn e xs r as zs r')
  obtain nm d n where dn: "dn = (nm, d, n)" by (cases dn)
  from 4 have d: "wf d" and len: "length xs = n" "length e = sg_GetChallengeBytesLength (sp d)"
    and c: "sigand_simulate_loop (sp d) (map (\<lambda>x. (x, Some e)) xs) r = Inr (as, zs, r')"
    by (auto simp: dn sigand_RunSimulator_def split: if_splits)
  note sim = sigand_simulate_iff [OF c]
  have "sg_Verify (sp d) (xs ! i) (as ! i) (Some e) (zs ! i) = Inr () \<and> goodz d (zs ! i)" if "i < n" for i
    using simulated [OF d len(2)] sim len(1) that by fastforce
  then show ?case using sim len by (auto simp: dn sigand_Verify_iff in_set_conv_nth)
next
  case (5 dn xs ws e r as ss r' zs q')
  obtain nm d n where dn: "dn = (nm, d, n)" by (cases dn)
  from 5 have d: "wf d" and len: "length xs = n" "length ws = n" "length e = sg_GetChallengeBytesLength (sp d)"
    and val: "\<And>i. i < n \<Longrightarrow> sg_ValidateStatement (sp d) (xs ! i) (ws ! i) = Inr ()" and g: "\<And>i. i < n \<Longrightarrow> good d (ws ! i)"
    and c: "sigand_commit_loop (sp d) (zip xs ws) r = Inr (as, ss, r')"
    and rsp: "length zs = n" "\<And>i. i < n \<Longrightarrow> sg_ComputeProverResponse (sp d) (xs ! i) (ws ! i) (as ! i) (ss ! i) (Some e) = Inr (zs ! i)"
    by (auto simp: dn sigand_Validate_iff sigand_ComputeProverCommitment_def sigand_Response_iff)
  have eq: "length xs = length ws" using len by simp
  note com = sigand_commit_iff [OF eq c]
  have "\<exists>q. sg_RunSimulator (sp d) (xs ! i) (Some e) q = Inr (as ! i, zs ! i, q')" if "i < n" for i q'
    using zero_knowledge [OF d val [OF that] g [OF that] len(3) _ rsp(2) [OF that]] com len that by blast
  then have "\<exists>q. sigand_simulate_loop (sp d) (map (\<lambda>x. (x, Some e)) xs) q = Inr (as, zs, q')"
    by (intro sigand_simulate_any) (use com len rsp(1) in simp_all)
  then show ?case using len by (simp add: dn sigand_RunSimulator_def)
next
  case (6 dn e xs r as zs r' q')
  obtain nm d n where dn: "dn = (nm, d, n)" by (cases dn)
  from 6 have d: "wf d" and len: "length xs = n" "length e = sg_GetChallengeBytesLength (sp d)"
    and c: "sigand_simulate_loop (sp d) (map (\<lambda>x. (x, Some e)) xs) r = Inr (as, zs, r')"
    by (auto simp: dn sigand_RunSimulator_def split: if_splits)
  note sim = sigand_simulate_iff [OF c]
  have "\<exists>q. sg_RunSimulator (sp d) (xs ! i) (Some e) q = Inr (as ! i, zs ! i, q')" if "i < n" for i q'
    using replay [OF d len(2)] sim len(1) that by fastforce
  then have "\<exists>q. sigand_simulate_loop (sp d) (map (\<lambda>x. (x, Some e)) xs) q = Inr (as, zs, q')"
    by (intro sigand_simulate_any) (use sim len in simp_all)
  then show ?case using len by (simp add: dn sigand_RunSimulator_def)
next
  case (2 dn xs ws r as ss r')
  then show ?case
    by (cases dn) (auto simp: sigand_ComputeProverCommitment_def dest!: sigand_commit_iff [rotated] split: if_splits)
next
  case (3 dn xs ws as ss ch zs)
  then show ?case by (cases dn) (auto simp: sigand_Response_iff)
next
  case (7 dn xs as e zs e' zs')
  obtain nm d n where dn: "dn = (nm, d, n)" by (cases dn)
  from 7 have d: "wf d" and len: "length xs = n" "length zs = n" "length zs' = n" by (auto simp: dn sigand_Verify_iff)
  have "\<exists>w. good d w \<and> sg_ValidateStatement (sp d) (xs ! i) w = Inr ()" if "i < n" for i
    by (rule extractable [OF d, where a = "as ! i" and z = "zs ! i" and z' = "zs' ! i" and e = e and e' = e'])
      (use 7 that len in \<open>auto simp: dn sigand_Verify_iff\<close>)
  then obtain w where "\<And>i. i < n \<Longrightarrow> good d (w i) \<and> sg_ValidateStatement (sp d) (xs ! i) (w i) = Inr ()" by metis
  then show ?case using len by (intro exI [of _ "map w [0..<n]"]) (auto simp: dn sigand_Validate_iff)
qed

section \<open>Disjunction\<close>

unbundle bit_operations_syntax

record ('s, 'z) SigorState =
  os_B :: nat
  os_S :: "'s option list"
  os_E :: "bytes list"
  os_Z :: "'z option list"

record 'z SigorResponse =
  or_E :: "bytes list"
  or_Z :: "'z list"

text \<open>The first statement that the witness is valid for. A panic of the validation is not an error value, so it ends the search.\<close>

fun sigor_first_valid :: "('x, 'w, 'a, 's, 'z, 'r) SigmaProtocol \<Rightarrow> (nat \<times> 'x) list \<Rightarrow> 'w \<Rightarrow> nat res" where
  "sigor_first_valid sp [] witness = Inl ErrNotAtLeastOneOutOfN"
| "sigor_first_valid sp ((i, x) # ixs) witness = (case sg_ValidateStatement sp x witness of
     Inr _ \<Rightarrow> Inr i | Inl e \<Rightarrow> if e = Panic then Inl Panic else sigor_first_valid sp ixs witness)"

definition sigor_getB :: "('x, 'w, 'a, 's, 'z, 'r) SigmaProtocol \<Rightarrow> nat \<Rightarrow> 'x list \<Rightarrow> 'w \<Rightarrow> nat res" where
  "sigor_getB sp count statement witness = sigor_first_valid sp (zip [0..<count] statement) witness"

definition sigor_ValidateStatement :: "('x, 'w, 'a, 's, 'z, 'r) SigmaProtocol \<Rightarrow> nat \<Rightarrow> 'x list \<Rightarrow> 'w \<Rightarrow> unit res" where
  "sigor_ValidateStatement sp count statement witness =
     (if length statement \<noteq> count then Inl ErrInvalidLength
      else rbind (sigor_first_valid sp (zip [0..<count] statement) witness) (\<lambda>_. Inr ()))"

text \<open>The branch with the witness commits, the others are simulated for a challenge that is drawn for them. The random source is
  the state of the composed protocol's source and the bytes that the challenges are read from.\<close>

fun sigor_commit_loop ::
  "('x, 'w, 'a, 's, 'z, 'r) SigmaProtocol \<Rightarrow> nat \<Rightarrow> 'w \<Rightarrow> (nat \<times> 'x) list \<Rightarrow> 'r \<times> bytes \<Rightarrow>
     ('a list \<times> 's option list \<times> bytes list \<times> 'z option list \<times> ('r \<times> bytes)) res" where
  "sigor_commit_loop sp b w [] rb = Inr ([], [], [], [], rb)"
| "sigor_commit_loop sp b w ((i, x) # ixs) (r, bs) =
     rbind (if i = b then rbind (sg_ComputeProverCommitment sp x w r) (\<lambda>(a, s, r). Inr (a, Some s, [], None, (r, bs)))
        else rbind (ReadFull (sg_GetChallengeBytesLength sp) bs) (\<lambda>(e, bs).
          rbind (sg_RunSimulator sp x (Some e) r) (\<lambda>(a, z, r). Inr (a, None, e, Some z, (r, bs)))))
       (\<lambda>(a, s, e, z, rb). rbind (sigor_commit_loop sp b w ixs rb) (\<lambda>(as, ss, es, zs, rb).
          Inr (a # as, s # ss, e # es, z # zs, rb)))"

definition sigor_ComputeProverCommitment ::
  "('x, 'w, 'a, 's, 'z, 'r) SigmaProtocol \<Rightarrow> nat \<Rightarrow> 'x list \<Rightarrow> 'w \<Rightarrow> 'r \<times> bytes \<Rightarrow> ('a list \<times> ('s, 'z) SigorState \<times> ('r \<times> bytes)) res" where
  "sigor_ComputeProverCommitment sp count statement witness rb =
     (if length statement \<noteq> count then Inl ErrInvalidLength
      else rbind (sigor_getB sp count statement witness) (\<lambda>b.
        rbind (sigor_commit_loop sp b witness (zip [0..<count] statement) rb) (\<lambda>(as, ss, es, zs, rb).
        Inr (as, \<lparr>os_B = b, os_S = ss, os_E = es, os_Z = zs\<rparr>, rb))))"

text \<open>The state is the one of a commitment, so the entries read here are set.\<close>

definition sigor_ComputeProverResponse ::
  "('x, 'w, 'a, 's, 'z, 'r) SigmaProtocol \<Rightarrow> nat \<Rightarrow> 'x list \<Rightarrow> 'w \<Rightarrow> 'a list \<Rightarrow> ('s, 'z) SigorState \<Rightarrow> bytes option \<Rightarrow> 'z SigorResponse option res" where
  "sigor_ComputeProverResponse sp count statement witness commitment state challenge =
     (let ch = (case challenge of None \<Rightarrow> [] | Some c \<Rightarrow> c); n = sg_GetChallengeBytesLength sp; b = os_B state in
      if length statement \<noteq> count then Inl ErrInvalidLength
      else if length commitment \<noteq> count then Inl ErrInvalidLength
      else if length (os_S state) \<noteq> count \<or> length (os_Z state) \<noteq> count \<or> length (os_E state) \<noteq> count then Inl ErrInvalidLength
      else if length ch \<noteq> n then Inl ErrInvalidLength
      else if b \<ge> count then Inl Panic
      else (let eB = fold (\<lambda>i acc. if i \<noteq> b then XORBytes acc acc (os_E state ! i) else acc) [0..<count] ch in
        case os_S state ! b of None \<Rightarrow> Inl Panic
        | Some s \<Rightarrow>
            rbind (sg_ComputeProverResponse sp (statement ! b) witness (commitment ! b) s (Some eB)) (\<lambda>zB.
            rbind (MapOrError (\<lambda>i. if i = b then Inr zB else case os_Z state ! i of None \<Rightarrow> Inl Panic | Some z \<Rightarrow> Inr z) [0..<count]) (\<lambda>zs.
            Inr (Some \<lparr>or_E = (os_E state)[b := eB], or_Z = zs\<rparr>)))))"

definition sigor_Verify ::
  "('x, 'w, 'a, 's, 'z, 'r) SigmaProtocol \<Rightarrow> nat \<Rightarrow> 'x list \<Rightarrow> 'a list \<Rightarrow> bytes option \<Rightarrow> 'z SigorResponse option \<Rightarrow> unit res" where
  "sigor_Verify sp count statement commitment challenge response =
     (let ch = (case challenge of None \<Rightarrow> [] | Some c \<Rightarrow> c); n = sg_GetChallengeBytesLength sp in
      if length statement \<noteq> count then Inl ErrInvalidLength
      else if length commitment \<noteq> count then Inl ErrInvalidLength
      else case response of None \<Rightarrow> Inl Panic
      | Some z \<Rightarrow>
          if length (or_Z z) \<noteq> count then Inl ErrInvalidLength
          else if length (or_E z) \<noteq> count then Inl ErrInvalidLength
          else if length ch \<noteq> n then Inl ErrInvalidLength
          else if list_ex (\<lambda>i. length (or_E z ! i) \<noteq> n) [0..<count] then Inl ErrInvalidLength
          else (let x0 = XORBytes (replicate n 0) (or_E z ! 0) (or_E z ! 1);
                    xoredChallenges = fold (\<lambda>e acc. XORBytes acc acc e) (drop 2 (or_E z)) x0 in
            if ch \<noteq> xoredChallenges then Inl ErrVerification
            else FoldOrError (\<lambda>_ i. sg_Verify sp (statement ! i) (commitment ! i) (Some (or_E z ! i)) (or_Z z ! i)) () [0..<count]))"

fun sigor_sample :: "nat \<Rightarrow> nat \<Rightarrow> bytes \<Rightarrow> (bytes list \<times> bytes) res" where
  "sigor_sample n 0 bs = Inr ([], bs)"
| "sigor_sample n (Suc k) bs = rbind (ReadFull n bs) (\<lambda>(e, bs). rbind (sigor_sample n k bs) (\<lambda>(es, bs). Inr (e # es, bs)))"

definition sigor_RunSimulator ::
  "('x, 'w, 'a, 's, 'z, 'r) SigmaProtocol \<Rightarrow> nat \<Rightarrow> 'x list \<Rightarrow> bytes option \<Rightarrow> 'r \<times> bytes \<Rightarrow> ('a list \<times> 'z SigorResponse option \<times> ('r \<times> bytes)) res" where
  "sigor_RunSimulator sp count statement challenge rb =
     (let ch = (case challenge of None \<Rightarrow> [] | Some c \<Rightarrow> c); n = sg_GetChallengeBytesLength sp in
      if length statement \<noteq> count then Inl ErrInvalidLength
      else if length ch \<noteq> n then Inl ErrInvalidLength
      else case rb of (r, bs) \<Rightarrow>
        rbind (sigor_sample n (count - 1) bs) (\<lambda>(es, bs).
        (let last = XORBytes (replicate n 0) ch (es ! 0);
             last = fold (\<lambda>i acc. XORBytes acc acc (es ! i)) [1..<count - 1] last;
             es = es @ [last] in
         rbind (sigand_simulate_loop sp (zip statement (map Some es)) r) (\<lambda>(as, zs, r).
         Inr (as, Some \<lparr>or_E = es, or_Z = zs\<rparr>, (r, bs))))))"

definition sigor_zBytes :: "('z \<Rightarrow> bytes res) \<Rightarrow> 'z SigorResponse option \<Rightarrow> bytes res" where
  "sigor_zBytes zb z = (case z of None \<Rightarrow> Inl Panic
     | Some z \<Rightarrow> rbind (MapOrError zb (or_Z z)) (\<lambda>zs. Inr (AppendLengthPrefixedSlices (AppendLengthPrefixedSlices [] (or_E z)) zs)))"

definition sigor_sigma ::
  "string \<Rightarrow> ('x, 'w, 'a, 's, 'z, 'r) SigmaProtocol \<Rightarrow> nat \<Rightarrow>
     ('x list, 'w, 'a list, ('s, 'z) SigorState, 'z SigorResponse option, 'r \<times> bytes) SigmaProtocol" where
  "sigor_sigma name sp count = \<lparr>sg_Name = name, sg_ComputeProverCommitment = sigor_ComputeProverCommitment sp count,
     sg_ComputeProverResponse = sigor_ComputeProverResponse sp count, sg_Verify = sigor_Verify sp count,
     sg_RunSimulator = sigor_RunSimulator sp count, sg_SpecialSoundness = sg_SpecialSoundness sp,
     sg_SoundnessError = sg_SoundnessError sp, sg_GetChallengeBytesLength = sg_GetChallengeBytesLength sp,
     sg_ValidateStatement = sigor_ValidateStatement sp count,
     sg_xBytes = slices_Bytes (sg_xBytes sp), sg_aBytes = slices_Bytes (sg_aBytes sp), sg_zBytes = sigor_zBytes (sg_zBytes sp),
     sg_aNil = (\<lambda>a. a = []), sg_zNil = (\<lambda>z. z = None)\<rparr>"

definition sigor_ComposeNamed ::
  "string \<Rightarrow> ('x, 'w, 'a, 's, 'z, 'r) SigmaProtocol option \<Rightarrow> nat \<Rightarrow> unit option \<Rightarrow>
     ('x list, 'w, 'a list, ('s, 'z) SigorState, 'z SigorResponse option, 'r \<times> bytes) SigmaProtocol res" where
  "sigor_ComposeNamed name p count prng = (case (p, prng) of
     (Some sp, Some _) \<Rightarrow> if count < 2 then Inl ErrInvalidArgument else Inr (sigor_sigma name sp count)
   | _ \<Rightarrow> Inl ErrIsNil)"

definition sigor_Compose ::
  "('x, 'w, 'a, 's, 'z, 'r) SigmaProtocol option \<Rightarrow> nat \<Rightarrow> unit option \<Rightarrow>
     ('x list, 'w, 'a list, ('s, 'z) SigorState, 'z SigorResponse option, 'r \<times> bytes) SigmaProtocol res" where
  "sigor_Compose p count prng = (case p of
     None \<Rightarrow> Inl ErrIsNil
   | Some sp \<Rightarrow> if count < 2 then Inl ErrInvalidArgument
       else sigor_ComposeNamed (''SigmaOR('' @ sg_Name sp @ '')^'' @ decimal count) (Some sp) count prng)"

section \<open>Challenges of a disjunction\<close>

definition xor_split :: "nat \<Rightarrow> bytes \<Rightarrow> bytes list \<Rightarrow> bool" where
  "xor_split N ch es \<longleftrightarrow> length ch = N \<and> (\<forall>e\<in>set es. length e = N) \<and> (\<forall>k<N. xorl es k = ch ! k)"

lemma fold_skip: "fold (\<lambda>i acc. if i \<noteq> b then g i acc else acc) is x = fold g (filter (\<lambda>i. i \<noteq> b) is) x"
  by (induction "is" arbitrary: x) auto

lemma others_split:
  assumes "b < length es"
  shows "map ((!) es) (filter (\<lambda>i. i \<noteq> b) [0..<length es]) = take b es @ drop (Suc b) es"
proof -
  have "[0..<length es] = [0..<b] @ b # [Suc b..<length es]" using assms by (metis upt_add_eq_append upt_conv_Cons less_imp_le_nat le0 le_add_diff_inverse)
  moreover have "filter (\<lambda>i. i \<noteq> b) [0..<b] = [0..<b]" "filter (\<lambda>i. i \<noteq> b) [Suc b..<length es] = [Suc b..<length es]" by (auto simp: filter_id_conv)
  moreover have "map ((!) es) [0..<b] = take b es" "map ((!) es) [Suc b..<length es] = drop (Suc b) es"
    using assms by (auto intro: nth_equalityI)
  ultimately show ?thesis by simp
qed

lemma bytes_eq_iff:
  assumes "length x = N \<and> (\<forall>k<N. x ! k = f k)"
  shows "(y :: bytes) = x \<longleftrightarrow> length y = N \<and> (\<forall>k<N. y ! k = f k)"
  using assms by (auto simp: list_eq_iff_nth_eq)

text \<open>The challenge that the response takes for the branch with the witness, that of the verifier and that of the simulator.\<close>

lemma response_split:
  assumes "b < length es" "length ch = N" "\<And>i. i < length es \<Longrightarrow> i \<noteq> b \<Longrightarrow> length (es ! i) = N"
    and eB: "eB = fold (\<lambda>i acc. if i \<noteq> b then XORBytes acc acc (es ! i) else acc) [0..<length es] ch"
  shows "xor_split N ch (es[b := eB])"
proof -
  have len: "\<forall>e\<in>set (take b es @ drop (Suc b) es). length e = N"
    using assms(1,3) by (auto simp: in_set_conv_nth)
  have *: "length eB = N \<and> (\<forall>k<N. eB ! k = ch ! k XOR xorl (take b es @ drop (Suc b) es) k)"
    unfolding eB fold_skip fold_XORBytes_index others_split [OF assms(1)] by (rule fold_XORBytes) (use assms len in simp_all)
  have "xorl (take b es) k XOR ((ch ! k XOR (xorl (take b es) k XOR xorl (drop (Suc b) es) k)) XOR xorl (drop (Suc b) es) k) = ch ! k" for k
    by (rule bit_eqI) (auto simp: bit_xor_iff)
  with * len assms(1,2) show ?thesis by (simp add: xor_split_def upd_conv_take_nth_drop)
qed

lemma verify_split:
  assumes "length es = n" "2 \<le> n" "length ch = N" "\<forall>e\<in>set es. length e = N"
  shows "ch = fold (\<lambda>e acc. XORBytes acc acc e) (drop 2 es) (XORBytes (replicate N 0) (es ! 0) (es ! 1)) \<longleftrightarrow> xor_split N ch es"
proof -
  obtain e0 e1 es' where es: "es = e0 # e1 # es'" using assms(1,2) by (metis Suc_le_length_iff numeral_2_eq_2)
  have *: "length (fold (\<lambda>e acc. XORBytes acc acc e) es' (map2 (XOR) e0 e1)) = N \<and>
      (\<forall>k<N. fold (\<lambda>e acc. XORBytes acc acc e) es' (map2 (XOR) e0 e1) ! k = map2 (XOR) e0 e1 ! k XOR xorl es' k)"
    by (rule fold_XORBytes) (use assms es in simp_all)
  have "ch = fold (\<lambda>e acc. XORBytes acc acc e) es' (map2 (XOR) e0 e1) \<longleftrightarrow> (\<forall>k<N. ch ! k = xorl es k)"
    unfolding bytes_eq_iff [OF *] using assms(3,4) by (simp add: es xor.assoc)
  then show ?thesis using assms(3,4) by (auto simp: es xor_split_def)
qed

lemma simulate_split:
  assumes "length es + 1 = n" "2 \<le> n" "length ch = N" "\<forall>e\<in>set es. length e = N"
  shows "l = fold (\<lambda>i acc. XORBytes acc acc (es ! i)) [1..<n - 1] (XORBytes (replicate N 0) ch (es ! 0)) \<longleftrightarrow> xor_split N ch (es @ [l])"
proof -
  obtain e0 es' where es: "es = e0 # es'" using assms(1,2) by (cases es) auto
  have tl: "map ((!) es) [1..<n - 1] = es'" by (rule nth_equalityI) (use assms(1) es in auto)
  have *: "length (fold (\<lambda>e acc. XORBytes acc acc e) es' (map2 (XOR) ch e0)) = N \<and>
      (\<forall>k<N. fold (\<lambda>e acc. XORBytes acc acc e) es' (map2 (XOR) ch e0) ! k = map2 (XOR) ch e0 ! k XOR xorl es' k)"
    by (rule fold_XORBytes) (use assms es in simp_all)
  have bits: "x = (c XOR e) XOR y \<longleftrightarrow> e XOR y XOR x = c" for x c e y :: "8 word"
  proof
    assume "x = (c XOR e) XOR y"
    then show "e XOR y XOR x = c" by (auto intro!: bit_eqI simp: bit_xor_iff)
  next
    assume "e XOR y XOR x = c"
    then show "x = (c XOR e) XOR y" by (auto intro!: bit_eqI simp: bit_xor_iff)
  qed
  have "l = fold (\<lambda>e acc. XORBytes acc acc e) es' (map2 (XOR) ch e0) \<longleftrightarrow> length l = N \<and> (\<forall>k<N. xorl (es @ [l]) k = ch ! k)"
    unfolding bytes_eq_iff [OF *] using assms(3,4) by (simp add: es bits)
  then show ?thesis unfolding fold_XORBytes_index tl using assms(3,4) by (auto simp: es xor_split_def)
qed

lemma sigor_sample_iff:
  "sigor_sample N k bs = Inr (es, bs') \<longleftrightarrow> length es = k \<and> (\<forall>e\<in>set es. length e = N) \<and> bs = concat es @ bs'"
proof (induction k arbitrary: bs es)
  case (Suc k)
  show ?case
  proof (cases es)
    case (Cons e es')
    have "sigor_sample N (Suc k) bs = Inr (e # es', bs') \<longleftrightarrow> N \<le> length bs \<and> e = take N bs \<and> sigor_sample N k (drop N bs) = Inr (es', bs')"
      by (auto simp: ReadFull_def rbind_eq_Inr_iff)
    also have "\<dots> \<longleftrightarrow> length e = N \<and> length es' = k \<and> (\<forall>e\<in>set es'. length e = N) \<and> bs = e @ concat es' @ bs'"
      unfolding Suc.IH by (auto simp: min_def) (metis append_take_drop_id)
    finally show ?thesis by (auto simp: Cons)
  qed (auto simp: rbind_eq_Inr_iff)
qed auto

section \<open>Disjunctions are sigma protocols\<close>

lemma sigor_simps [simp]:
  "sg_ComputeProverCommitment (sigor_sigma nm sp n) = sigor_ComputeProverCommitment sp n"
  "sg_ComputeProverResponse (sigor_sigma nm sp n) = sigor_ComputeProverResponse sp n"
  "sg_Verify (sigor_sigma nm sp n) = sigor_Verify sp n" "sg_RunSimulator (sigor_sigma nm sp n) = sigor_RunSimulator sp n"
  "sg_GetChallengeBytesLength (sigor_sigma nm sp n) = sg_GetChallengeBytesLength sp"
  "sg_ValidateStatement (sigor_sigma nm sp n) = sigor_ValidateStatement sp n"
  "sg_aNil (sigor_sigma nm sp n) as \<longleftrightarrow> as = []" "sg_zNil (sigor_sigma nm sp n) z \<longleftrightarrow> z = None"
  "sg_SoundnessError (sigor_sigma nm sp n) = sg_SoundnessError sp"
  by (simp_all add: sigor_sigma_def)

lemma sigor_first_valid_ok:
  "sigor_first_valid sp ixs w = Inr b \<Longrightarrow> \<exists>x. (b, x) \<in> set ixs \<and> sg_ValidateStatement sp x w = Inr ()"
  by (induction sp ixs w rule: sigor_first_valid.induct) (auto split: sum.splits if_splits)

lemma sigor_getB_ok:
  assumes "sigor_getB sp n xs w = Inr b" "length xs = n"
  shows "b < n \<and> sg_ValidateStatement sp (xs ! b) w = Inr ()"
  using sigor_first_valid_ok assms by (fastforce simp: sigor_getB_def in_set_zip)

text \<open>Validation of a branch finds a branch, unless it panics on an earlier one.\<close>

lemma sigor_first_valid_complete:
  assumes "(i, x) \<in> set ixs" "sg_ValidateStatement sp x w = Inr ()" "\<And>j y. (j, y) \<in> set ixs \<Longrightarrow> sg_ValidateStatement sp y w \<noteq> Inl Panic"
  shows "\<exists>b. sigor_first_valid sp ixs w = Inr b"
  using assms by (induction ixs) (fastforce split: sum.splits)+

lemma sigor_Validate_iff:
  "sigor_ValidateStatement sp n xs w = Inr () \<longleftrightarrow> length xs = n \<and> (\<exists>b. sigor_getB sp n xs w = Inr b)"
  by (auto simp: sigor_ValidateStatement_def sigor_getB_def rbind_eq_Inr_iff)

lemma sigor_Verify_iff:
  assumes "2 \<le> n"
  shows "sigor_Verify sp n xs as (Some e) (Some z) = Inr () \<longleftrightarrow> length xs = n \<and> length as = n \<and> length (or_Z z) = n \<and> length (or_E z) = n \<and>
    xor_split (sg_GetChallengeBytesLength sp) e (or_E z) \<and> (\<forall>i<n. sg_Verify sp (xs ! i) (as ! i) (Some (or_E z ! i)) (or_Z z ! i) = Inr ())"
    (is "?L \<longleftrightarrow> ?R")
proof -
  let ?N = "sg_GetChallengeBytesLength sp"
  consider (bad) "length (or_E z) \<noteq> n \<or> length e \<noteq> ?N \<or> (\<exists>x\<in>set (or_E z). length x \<noteq> ?N)"
    | (good) "length (or_E z) = n" "length e = ?N" "\<forall>x\<in>set (or_E z). length x = ?N" by blast
  then show ?thesis
  proof cases
    case bad
    then have "\<not> ?R" by (auto simp: xor_split_def)
    moreover have "\<not> ?L" using bad by (auto simp: sigor_Verify_def Let_def list_ex_iff in_set_conv_nth split: if_splits)
    ultimately show ?thesis by blast
  next
    case good
    then have "\<not> list_ex (\<lambda>i. length (or_E z ! i) \<noteq> ?N) [0..<n]" by (auto simp: list_ex_iff)
    then show ?thesis using good verify_split [OF good(1) assms good(2,3)]
      by (auto simp: sigor_Verify_def Let_def FoldOrError_check split: if_splits)
  qed
qed

lemma sigor_Verify_None: "sigor_Verify sp n xs as ch None \<noteq> Inr ()"
  by (simp add: sigor_Verify_def Let_def)

lemma sigor_RunSimulator_iff:
  assumes "2 \<le> n" "length e = sg_GetChallengeBytesLength sp"
  shows "sigor_RunSimulator sp n xs (Some e) (r, bs) = Inr (as, z, (r', bs')) \<longleftrightarrow>
    length xs = n \<and> (\<exists>E zs. z = Some \<lparr>or_E = E, or_Z = zs\<rparr> \<and> length E = n \<and> xor_split (sg_GetChallengeBytesLength sp) e E \<and>
      bs = concat (butlast E) @ bs' \<and> sigand_simulate_loop sp (zip xs (map Some E)) r = Inr (as, zs, r'))" (is "?L \<longleftrightarrow> ?R")
proof -
  let ?N = "sg_GetChallengeBytesLength sp"
  let ?last = "\<lambda>es. fold (\<lambda>i acc. XORBytes acc acc (es ! i)) [1..<n - 1] (XORBytes (replicate ?N 0) e (es ! 0))"
  have step: "length es + 1 = n \<and> (\<forall>x\<in>set es. length x = ?N) \<and> l = ?last es \<longleftrightarrow> length es + 1 = n \<and> xor_split ?N e (es @ [l])" for es l
    using simulate_split [OF _ assms, of es l] unfolding xor_split_def by auto
  have "?L \<longleftrightarrow> length xs = n \<and> (\<exists>es zs. sigor_sample ?N (n - 1) bs = Inr (es, bs') \<and>
      sigand_simulate_loop sp (zip xs (map Some (es @ [?last es]))) r = Inr (as, zs, r') \<and> z = Some \<lparr>or_E = es @ [?last es], or_Z = zs\<rparr>)"
    using assms(2) by (auto simp: sigor_RunSimulator_def Let_def rbind_eq_Inr_iff)
  also have "\<dots> \<longleftrightarrow> length xs = n \<and> (\<exists>es l zs. (length es + 1 = n \<and> (\<forall>x\<in>set es. length x = ?N) \<and> l = ?last es) \<and> bs = concat es @ bs' \<and>
      sigand_simulate_loop sp (zip xs (map Some (es @ [l]))) r = Inr (as, zs, r') \<and> z = Some \<lparr>or_E = es @ [l], or_Z = zs\<rparr>)"
    unfolding sigor_sample_iff using assms(1) by auto
  also have "\<dots> \<longleftrightarrow> length xs = n \<and> (\<exists>es l zs. (length es + 1 = n \<and> xor_split ?N e (es @ [l])) \<and> bs = concat es @ bs' \<and>
      sigand_simulate_loop sp (zip xs (map Some (es @ [l]))) r = Inr (as, zs, r') \<and> z = Some \<lparr>or_E = es @ [l], or_Z = zs\<rparr>)"
    unfolding step ..
  also have "\<dots> \<longleftrightarrow> ?R"
  proof -
    have "(\<exists>E. length E = n \<and> Q E) \<longleftrightarrow> (\<exists>es l. length es + 1 = n \<and> Q (es @ [l]))" for Q :: "bytes list \<Rightarrow> bool"
      using assms(1) by (metis Suc_eq_plus1 append_butlast_last_id length_append_singleton list.size(3) not_less_eq_eq numeral_2_eq_2 le0)
    note this [of "\<lambda>E. \<exists>zs. z = Some \<lparr>or_E = E, or_Z = zs\<rparr> \<and> xor_split ?N e E \<and> bs = concat (butlast E) @ bs' \<and>
        sigand_simulate_loop sp (zip xs (map Some E)) r = Inr (as, zs, r')"]
    then show ?thesis by (simp only: butlast_snoc ex_simps) metis
  qed
  finally show ?thesis .
qed

text \<open>What a commitment of the disjunction holds for every branch.\<close>

definition or_branch :: "('x, 'w, 'a, 's, 'z, 'r) SigmaProtocol \<Rightarrow> 'w \<Rightarrow> bool \<Rightarrow> 'x \<Rightarrow> 'a \<Rightarrow> 's option \<Rightarrow> bytes \<Rightarrow> 'z option \<Rightarrow> bool" where
  "or_branch sp w honest x a s e z \<longleftrightarrow>
     (if honest then \<exists>t q q'. s = Some t \<and> sg_ComputeProverCommitment sp x w q = Inr (a, t, q')
      else length e = sg_GetChallengeBytesLength sp \<and> (\<exists>t q q'. z = Some t \<and> sg_RunSimulator sp x (Some e) q = Inr (a, t, q')))"

lemma sigor_commit_loop_iff:
  "sigor_commit_loop sp b w ixs rb = Inr (as, ss, es, zs, rb') \<Longrightarrow>
     length as = length ixs \<and> length ss = length ixs \<and> length es = length ixs \<and> length zs = length ixs \<and>
     (\<forall>j<length ixs. or_branch sp w (fst (ixs ! j) = b) (snd (ixs ! j)) (as ! j) (ss ! j) (es ! j) (zs ! j))"
proof (induction ixs arbitrary: rb as ss es zs)
  case (Cons ix ixs)
  obtain i x where ix: "ix = (i, x)" by (cases ix)
  obtain r bs where rb: "rb = (r, bs)" by (cases rb)
  from Cons.prems obtain a s e z q as' ss' es' zs' where c: "sigor_commit_loop sp b w ixs q = Inr (as', ss', es', zs', rb')"
    "as = a # as'" "ss = s # ss'" "es = e # es'" "zs = z # zs'" and br: "or_branch sp w (i = b) x a s e z"
    by (auto simp: rb ix rbind_eq_Inr_iff or_branch_def ReadFull_def split: if_splits) blast+
  from Cons.IH [OF c(1)] br show ?case by (auto simp: c(2-5) ix nth_Cons split: nat.splits)
qed simp

lemma or_branch_cases:
  "or_branch sp w True x a s e z \<longleftrightarrow> (\<exists>t q q'. s = Some t \<and> sg_ComputeProverCommitment sp x w q = Inr (a, t, q'))"
  "or_branch sp w False x a s e z \<longleftrightarrow> length e = sg_GetChallengeBytesLength sp \<and> (\<exists>t q q'. z = Some t \<and> sg_RunSimulator sp x (Some e) q = Inr (a, t, q'))"
  by (simp_all add: or_branch_def)

lemma sigor_commit_iff:
  assumes "sigor_ComputeProverCommitment sp n xs w rb = Inr (as, st, rb')"
  shows "length xs = n \<and> sigor_getB sp n xs w = Inr (os_B st) \<and> length as = n \<and> length (os_S st) = n \<and> length (os_E st) = n \<and> length (os_Z st) = n \<and>
    (\<forall>i<n. or_branch sp w (i = os_B st) (xs ! i) (as ! i) (os_S st ! i) (os_E st ! i) (os_Z st ! i))"
proof -
  from assms obtain b ss es zs where b: "length xs = n" "sigor_getB sp n xs w = Inr b" "st = \<lparr>os_B = b, os_S = ss, os_E = es, os_Z = zs\<rparr>"
    and loop: "sigor_commit_loop sp b w (zip [0..<n] xs) rb = Inr (as, ss, es, zs, rb')"
    by (auto simp: sigor_ComputeProverCommitment_def rbind_eq_Inr_iff split: if_splits)
  from sigor_commit_loop_iff [OF loop] b show ?thesis by simp
qed

text \<open>The response to a challenge after such a commitment.\<close>

lemma sigor_response_iff:
  assumes com: "sigor_ComputeProverCommitment sp n xs w rb = Inr (as, st, rb')" and e: "length e = sg_GetChallengeBytesLength sp"
  shows "\<exists>E s. length E = n \<and> xor_split (sg_GetChallengeBytesLength sp) e E \<and> os_S st ! os_B st = Some s \<and> (\<forall>i<n. i \<noteq> os_B st \<longrightarrow> E ! i = os_E st ! i) \<and>
    sigor_ComputeProverResponse sp n xs w as st (Some e) =
      rbind (sg_ComputeProverResponse sp (xs ! os_B st) w (as ! os_B st) s (Some (E ! os_B st)))
        (\<lambda>zB. Inr (Some \<lparr>or_E = E, or_Z = map (\<lambda>i. if i = os_B st then zB else the (os_Z st ! i)) [0..<n]\<rparr>))"
proof -
  note c = sigor_commit_iff [OF com]
  let ?b = "os_B st" and ?N = "sg_GetChallengeBytesLength sp"
  have b: "?b < n" using c sigor_getB_ok [of sp n xs w "os_B st"] by simp
  define eB where "eB = fold (\<lambda>i acc. if i \<noteq> ?b then XORBytes acc acc (os_E st ! i) else acc) [0..<n] e"
  have split: "xor_split ?N e ((os_E st)[?b := eB])"
  proof (rule response_split [OF _ e])
    show "length (os_E st ! i) = ?N" if "i < length (os_E st)" "i \<noteq> ?b" for i using c that by (simp add: or_branch_def)
  qed (use c b in \<open>simp_all add: eB_def\<close>)
  have "or_branch sp w True (xs ! ?b) (as ! ?b) (os_S st ! ?b) (os_E st ! ?b) (os_Z st ! ?b)" using c b by metis
  then obtain s where s: "os_S st ! ?b = Some s" unfolding or_branch_cases by blast
  have z: "or_branch sp w False (xs ! i) (as ! i) (os_S st ! i) (os_E st ! i) (os_Z st ! i)" if "i < n" "i \<noteq> ?b" for i
    using c that by metis
  have zs: "MapOrError (\<lambda>i. if i = ?b then Inr zB else case os_Z st ! i of None \<Rightarrow> Inl Panic | Some z \<Rightarrow> Inr z) [0..<n] =
      Inr (map (\<lambda>i. if i = ?b then zB else the (os_Z st ! i)) [0..<n])" for zB
    by (rule MapOrError_ok) (use z in \<open>fastforce simp: or_branch_cases\<close>)
  have "sigor_ComputeProverResponse sp n xs w as st (Some e) =
      rbind (sg_ComputeProverResponse sp (xs ! ?b) w (as ! ?b) s (Some eB))
        (\<lambda>zB. Inr (Some \<lparr>or_E = (os_E st)[?b := eB], or_Z = map (\<lambda>i. if i = ?b then zB else the (os_Z st ! i)) [0..<n]\<rparr>))"
    using c b e s by (simp add: sigor_ComputeProverResponse_def Let_def zs eB_def [symmetric])
  then show ?thesis using c b split s by (intro exI [of _ "(os_E st)[?b := eB]"] exI [of _ s]) auto
qed

text \<open>Two accepting transcripts with different challenges have different challenges on some branch.\<close>

lemma sigor_differ:
  assumes n: "2 \<le> n" and v: "sigor_Verify sp n xs as (Some e) (Some t) = Inr ()" "sigor_Verify sp n xs as (Some e') (Some t') = Inr ()" and "e \<noteq> e'"
  shows "\<exists>i<n. or_E t ! i \<noteq> or_E t' ! i"
proof (rule ccontr)
  let ?N = "sg_GetChallengeBytesLength sp"
  note v = v [unfolded sigor_Verify_iff [OF n]]
  assume "\<not> (\<exists>i<n. or_E t ! i \<noteq> or_E t' ! i)"
  then have "or_E t = or_E t'" using v nth_equalityI [of "or_E t" "or_E t'"] by auto
  then have "xor_split ?N e (or_E t)" "xor_split ?N e' (or_E t)" using v by simp_all
  then have "e = e'" unfolding xor_split_def by (metis nth_equalityI)
  with assms(4) show False by blast
qed

text \<open>Well-formed responses. A disjunction is extractable when every two different challenges of a branch are.\<close>

definition or_goodz :: "('z \<Rightarrow> bool) \<Rightarrow> 'z SigorResponse option \<Rightarrow> bool" where
  "or_goodz g z \<longleftrightarrow> (\<exists>t. z = Some t \<and> (\<forall>y\<in>set (or_Z t). g y))"

definition or_far :: "nat \<Rightarrow> (bytes \<Rightarrow> bytes \<Rightarrow> bool) \<Rightarrow> bytes \<Rightarrow> bytes \<Rightarrow> bool" where
  "or_far N far e e' \<longleftrightarrow> e \<noteq> e' \<and> (\<forall>u v. length u = N \<longrightarrow> length v = N \<longrightarrow> u \<noteq> v \<longrightarrow> far u v)"

text \<open>The validation of a well-formed witness must not panic, since it is tried on statements it is not meant for.\<close>

locale or_composition = special_sound +
  assumes validates: "wf d \<Longrightarrow> good d w \<Longrightarrow> sg_ValidateStatement (sp d) x w \<noteq> Inl Panic"
begin

text \<open>Every branch of an honest run has an accepting transcript that the simulator can output.\<close>

lemma or_honest:
  assumes d: "wf d" and g: "good d w" and e: "length e = sg_GetChallengeBytesLength (sp d)"
    and com: "sigor_ComputeProverCommitment (sp d) n xs w rb = Inr (as, st, rb')"
  shows "\<exists>E zs. sigor_ComputeProverResponse (sp d) n xs w as st (Some e) = Inr (Some \<lparr>or_E = E, or_Z = zs\<rparr>) \<and> length E = n \<and> length zs = n \<and>
    xor_split (sg_GetChallengeBytesLength (sp d)) e E \<and>
    (\<forall>i<n. sg_Verify (sp d) (xs ! i) (as ! i) (Some (E ! i)) (zs ! i) = Inr () \<and> goodz d (zs ! i) \<and>
      (\<forall>q'. \<exists>q. sg_RunSimulator (sp d) (xs ! i) (Some (E ! i)) q = Inr (as ! i, zs ! i, q')))"
proof -
  note c = sigor_commit_iff [OF com]
  let ?b = "os_B st" and ?N = "sg_GetChallengeBytesLength (sp d)"
  have b: "?b < n" "sg_ValidateStatement (sp d) (xs ! ?b) w = Inr ()" using c sigor_getB_ok [of "sp d" n xs w ?b] by simp_all
  obtain E s where E: "length E = n" "xor_split ?N e E" "os_S st ! ?b = Some s" "\<forall>i<n. i \<noteq> ?b \<longrightarrow> E ! i = os_E st ! i"
    and rsp: "sigor_ComputeProverResponse (sp d) n xs w as st (Some e) =
      rbind (sg_ComputeProverResponse (sp d) (xs ! ?b) w (as ! ?b) s (Some (E ! ?b)))
        (\<lambda>zB. Inr (Some \<lparr>or_E = E, or_Z = map (\<lambda>i. if i = ?b then zB else the (os_Z st ! i)) [0..<n]\<rparr>))"
    using sigor_response_iff [OF com e] by blast
  have N: "length (E ! i) = ?N" if "i < n" for i using E(1,2) that by (simp add: xor_split_def)
  have "or_branch (sp d) w True (xs ! ?b) (as ! ?b) (os_S st ! ?b) (os_E st ! ?b) (os_Z st ! ?b)" using c b by metis
  then obtain q q' where comb: "sg_ComputeProverCommitment (sp d) (xs ! ?b) w q = Inr (as ! ?b, s, q')" unfolding or_branch_cases E(3) by auto
  obtain zB where zB: "sg_ComputeProverResponse (sp d) (xs ! ?b) w (as ! ?b) s (Some (E ! ?b)) = Inr zB"
    "sg_Verify (sp d) (xs ! ?b) (as ! ?b) (Some (E ! ?b)) zB = Inr ()" "goodz d zB"
    using complete [OF d b(2) g N [OF b(1)] comb] by blast
  define zs where "zs = map (\<lambda>i. if i = ?b then zB else the (os_Z st ! i)) [0..<n]"
  have br: "sg_Verify (sp d) (xs ! i) (as ! i) (Some (E ! i)) (zs ! i) = Inr () \<and> goodz d (zs ! i) \<and>
      (\<forall>q'. \<exists>q. sg_RunSimulator (sp d) (xs ! i) (Some (E ! i)) q = Inr (as ! i, zs ! i, q'))" if i: "i < n" for i
  proof (cases "i = ?b")
    case True
    then show ?thesis using zB zero_knowledge [OF d b(2) g N [OF b(1)] comb zB(1)] b(1) by (simp add: zs_def)
  next
    case False
    then have "or_branch (sp d) w False (xs ! i) (as ! i) (os_S st ! i) (os_E st ! i) (os_Z st ! i)" using c i by metis
    then obtain t q q' where t: "os_Z st ! i = Some t" "sg_RunSimulator (sp d) (xs ! i) (Some (E ! i)) q = Inr (as ! i, t, q')"
      using E(4) False i unfolding or_branch_cases by auto
    then show ?thesis using simulated [OF d N [OF i] t(2)] replay [OF d N [OF i] t(2)] False i by (simp add: zs_def)
  qed
  show ?thesis by (intro exI [of _ E] exI [of _ zs]) (use rsp zB(1) E br in \<open>simp add: zs_def\<close>)
qed

text \<open>The simulator reaches every list of accepting branches whose challenges add up.\<close>

lemma or_simulates:
  assumes "2 \<le> n" "length e = sg_GetChallengeBytesLength (sp d)" "length xs = n" "length as = n" "length E = n" "length zs = n"
    and "xor_split (sg_GetChallengeBytesLength (sp d)) e E"
    and "\<And>i q'. i < n \<Longrightarrow> \<exists>q. sg_RunSimulator (sp d) (xs ! i) (Some (E ! i)) q = Inr (as ! i, zs ! i, q')"
  shows "\<exists>q. sigor_RunSimulator (sp d) n xs (Some e) q = Inr (as, Some \<lparr>or_E = E, or_Z = zs\<rparr>, q')"
proof -
  obtain r' bs' where q': "q' = (r', bs')" by (cases q')
  have "\<exists>r. sigand_simulate_loop (sp d) (zip xs (map Some E)) r = Inr (as, zs, r')"
    by (rule sigand_simulate_any) (use assms in simp_all)
  then obtain r where "sigand_simulate_loop (sp d) (zip xs (map Some E)) r = Inr (as, zs, r')" by blast
  then have "sigor_RunSimulator (sp d) n xs (Some e) (r, concat (butlast E) @ bs') = Inr (as, Some \<lparr>or_E = E, or_Z = zs\<rparr>, (r', bs'))"
    unfolding sigor_RunSimulator_iff [OF assms(1,2)] using assms by auto
  then show ?thesis unfolding q' by blast
qed

lemma or_simulated:
  assumes d: "wf d" "2 \<le> n" "length e = sg_GetChallengeBytesLength (sp d)" and sim: "sigor_RunSimulator (sp d) n xs (Some e) q = Inr (as, z, q')"
  shows "\<exists>E zs. z = Some \<lparr>or_E = E, or_Z = zs\<rparr> \<and> length xs = n \<and> length as = n \<and> length E = n \<and> length zs = n \<and>
    xor_split (sg_GetChallengeBytesLength (sp d)) e E \<and> (\<forall>i<n. sg_Verify (sp d) (xs ! i) (as ! i) (Some (E ! i)) (zs ! i) = Inr () \<and> goodz d (zs ! i) \<and>
      (\<forall>q'. \<exists>q. sg_RunSimulator (sp d) (xs ! i) (Some (E ! i)) q = Inr (as ! i, zs ! i, q')))"
proof -
  obtain r bs r' bs' where q: "q = (r, bs)" "q' = (r', bs')" by (cases q, cases q')
  obtain E zs where E: "length xs = n" "z = Some \<lparr>or_E = E, or_Z = zs\<rparr>" "length E = n" "xor_split (sg_GetChallengeBytesLength (sp d)) e E"
    and loop: "sigand_simulate_loop (sp d) (zip xs (map Some E)) r = Inr (as, zs, r')"
    using sim unfolding q sigor_RunSimulator_iff [OF d(2,3)] by blast
  note l = sigand_simulate_iff [OF loop]
  have "sg_Verify (sp d) (xs ! i) (as ! i) (Some (E ! i)) (zs ! i) = Inr () \<and> goodz d (zs ! i) \<and>
      (\<forall>q'. \<exists>q. sg_RunSimulator (sp d) (xs ! i) (Some (E ! i)) q = Inr (as ! i, zs ! i, q'))" if i: "i < n" for i
  proof -
    have N: "length (E ! i) = sg_GetChallengeBytesLength (sp d)" using E(3,4) i by (simp add: xor_split_def)
    obtain q q' where "sg_RunSimulator (sp d) (xs ! i) (Some (E ! i)) q = Inr (as ! i, zs ! i, q')" using l E i by auto
    then show ?thesis using simulated [OF d(1) N] replay [OF d(1) N] by blast
  qed
  with l E show ?thesis by simp
qed

lemma or_extract:
  assumes d: "wf d" "2 \<le> n" and v: "sigor_Verify (sp d) n xs as (Some e) z = Inr ()" "sigor_Verify (sp d) n xs as (Some e') z' = Inr ()"
    and g: "or_goodz (goodz d) z" "or_goodz (goodz d) z'" and far: "or_far (sg_GetChallengeBytesLength (sp d)) (far d) e e'"
  shows "\<exists>i<n. \<exists>w. good d w \<and> sg_ValidateStatement (sp d) (xs ! i) w = Inr ()"
proof -
  let ?N = "sg_GetChallengeBytesLength (sp d)"
  obtain t t' where t: "z = Some t" "z' = Some t'" "\<forall>y\<in>set (or_Z t). goodz d y" "\<forall>y\<in>set (or_Z t'). goodz d y"
    using g by (auto simp: or_goodz_def)
  obtain i where i: "i < n" "or_E t ! i \<noteq> or_E t' ! i"
    using sigor_differ [OF d(2) v [unfolded t(1,2)]] far by (auto simp: or_far_def)
  note v = v [unfolded t(1,2) sigor_Verify_iff [OF d(2)]]
  have "far d (or_E t ! i) (or_E t' ! i)"
  proof -
    have "length (or_E t ! i) = ?N" "length (or_E t' ! i) = ?N" using v i(1) by (simp_all add: xor_split_def)
    then show ?thesis using far i(2) by (simp add: or_far_def)
  qed
  moreover have "goodz d (or_Z t ! i)" "goodz d (or_Z t' ! i)" using t(3,4) v i(1) by simp_all
  moreover have "sg_Verify (sp d) (xs ! i) (as ! i) (Some (or_E t ! i)) (or_Z t ! i) = Inr ()"
    "sg_Verify (sp d) (xs ! i) (as ! i) (Some (or_E t' ! i)) (or_Z t' ! i) = Inr ()" using v i(1) by simp_all
  ultimately have "\<exists>w. good d w \<and> sg_ValidateStatement (sp d) (xs ! i) w = Inr ()" using extractable [OF d(1)] by metis
  then show ?thesis using i(1) by blast
qed

lemma or_validate:
  assumes "wf d" "good d w" "length xs = n" "i < n" "sg_ValidateStatement (sp d) (xs ! i) w = Inr ()"
  shows "sigor_ValidateStatement (sp d) n xs w = Inr ()"
proof -
  have "(i, xs ! i) \<in> set (zip [0..<n] xs)" using assms(3,4) by (auto simp: in_set_zip intro!: exI [of _ i])
  from sigor_first_valid_complete [OF this assms(5) validates [OF assms(1,2)]] show ?thesis
    using assms(3) by (auto simp: sigor_Validate_iff sigor_getB_def)
qed

end

sublocale or_composition \<subseteq> orc: special_sound "\<lambda>(nm, d, n). wf d \<and> 2 \<le> n" "\<lambda>(nm, d, n). sigor_sigma nm (sp d) n"
  "\<lambda>(nm, d, n). good d" "\<lambda>(nm, d, n). or_goodz (goodz d)" "\<lambda>(nm, d, n). or_far (sg_GetChallengeBytesLength (sp d)) (far d)"
proof (unfold_locales, goal_cases)
  case (1 dn xs w e rb as st rb')
  obtain nm d n where dn: "dn = (nm, d, n)" by (cases dn)
  from 1 have d: "wf d" "good d w" "length e = sg_GetChallengeBytesLength (sp d)" "sigor_ComputeProverCommitment (sp d) n xs w rb = Inr (as, st, rb')" "2 \<le> n"
    by (auto simp: dn)
  from or_honest [OF d(1-4)] obtain E zs where E: "sigor_ComputeProverResponse (sp d) n xs w as st (Some e) = Inr (Some \<lparr>or_E = E, or_Z = zs\<rparr>)"
    "length E = n" "length zs = n" "xor_split (sg_GetChallengeBytesLength (sp d)) e E"
    "\<forall>i<n. sg_Verify (sp d) (xs ! i) (as ! i) (Some (E ! i)) (zs ! i) = Inr () \<and> goodz d (zs ! i)" by blast
  then show ?case using sigor_commit_iff [OF d(4)] d(5)
    by (intro exI [of _ "Some \<lparr>or_E = E, or_Z = zs\<rparr>"]) (auto simp: dn sigor_Verify_iff or_goodz_def in_set_conv_nth)
next
  case (4 dn e xs q as z q')
  obtain nm d n where dn: "dn = (nm, d, n)" by (cases dn)
  from 4 have d: "wf d" "2 \<le> n" "length e = sg_GetChallengeBytesLength (sp d)" "sigor_RunSimulator (sp d) n xs (Some e) q = Inr (as, z, q')" by (auto simp: dn)
  from or_simulated [OF d] d(2) show ?case by (auto simp: dn sigor_Verify_iff or_goodz_def in_set_conv_nth)
next
  case (5 dn xs w e rb as st rb' z q')
  obtain nm d n where dn: "dn = (nm, d, n)" by (cases dn)
  from 5 have d: "wf d" "good d w" "length e = sg_GetChallengeBytesLength (sp d)" "sigor_ComputeProverCommitment (sp d) n xs w rb = Inr (as, st, rb')" "2 \<le> n"
    by (auto simp: dn)
  from or_honest [OF d(1-4)] 5 obtain E zs where E: "z = Some \<lparr>or_E = E, or_Z = zs\<rparr>"
    "length E = n" "length zs = n" "xor_split (sg_GetChallengeBytesLength (sp d)) e E"
    "\<forall>i<n. \<forall>q'. \<exists>q. sg_RunSimulator (sp d) (xs ! i) (Some (E ! i)) q = Inr (as ! i, zs ! i, q')" by (auto simp: dn)
  have "\<exists>q. sigor_RunSimulator (sp d) n xs (Some e) q = Inr (as, Some \<lparr>or_E = E, or_Z = zs\<rparr>, q')"
    by (rule or_simulates) (use E d sigor_commit_iff [OF d(4)] in simp_all)
  then show ?case by (simp add: dn E(1))
next
  case (6 dn e xs q as z r' q')
  obtain nm d n where dn: "dn = (nm, d, n)" by (cases dn)
  from 6 have d: "wf d" "2 \<le> n" "length e = sg_GetChallengeBytesLength (sp d)" "sigor_RunSimulator (sp d) n xs (Some e) q = Inr (as, z, r')" by (auto simp: dn)
  from or_simulated [OF d] obtain E zs where E: "z = Some \<lparr>or_E = E, or_Z = zs\<rparr>" "length xs = n" "length as = n"
    "length E = n" "length zs = n" "xor_split (sg_GetChallengeBytesLength (sp d)) e E"
    "\<forall>i<n. \<forall>q'. \<exists>q. sg_RunSimulator (sp d) (xs ! i) (Some (E ! i)) q = Inr (as ! i, zs ! i, q')" by blast
  have "\<exists>q. sigor_RunSimulator (sp d) n xs (Some e) q = Inr (as, Some \<lparr>or_E = E, or_Z = zs\<rparr>, q')"
    by (rule or_simulates) (use E d in simp_all)
  then show ?case by (simp add: dn E(1))
next
  case (2 dn xs w rb as st rb')
  then show ?case by (cases dn) (auto dest!: sigor_commit_iff)
next
  case (3 dn xs w as st ch z)
  then show ?case by (cases dn) (auto simp: sigor_ComputeProverResponse_def Let_def rbind_eq_Inr_iff split: if_splits option.splits)
next
  case (7 dn xs as e z e' z')
  obtain nm d n where dn: "dn = (nm, d, n)" by (cases dn)
  from 7 have d: "wf d" "2 \<le> n" "length xs = n" by (auto simp: dn or_goodz_def sigor_Verify_iff)
  obtain i w where "i < n" "good d w" "sg_ValidateStatement (sp d) (xs ! i) w = Inr ()"
    using or_extract [OF d(1,2), of xs as e z e' z'] 7 by (auto simp: dn)
  then show ?case using or_validate [OF d(1) _ d(3)] by (auto simp: dn)
qed

section \<open>Compositions of the protocols for homomorphisms\<close>

sublocale maurer \<subseteq> mand: and_composition wf "\<lambda>d. maurer_sigma ibytes (p d)" "\<lambda>d w. \<exists>x\<in>P d. w = Some x" "\<lambda>d z. \<exists>x\<in>P d. z = Some x"
    "\<lambda>d e e'. coprime (int (mr_L (p d))) (int (be_val e) - int (be_val e'))" for ibytes
  by unfold_locales

sublocale maurer \<subseteq> mor: or_composition wf "\<lambda>d. maurer_sigma ibytes (p d)" "\<lambda>d w. \<exists>x\<in>P d. w = Some x" "\<lambda>d z. \<exists>x\<in>P d. z = Some x"
    "\<lambda>d e e'. coprime (int (mr_L (p d))) (int (be_val e) - int (be_val e'))" for ibytes
  by unfold_locales (auto simp: maurer_sigma_def mr_ValidateStatement_def phi split: option.splits if_splits)

section \<open>Properties\<close>

text \<open>C29. Disjunctions of discrete logarithms are sound: from two accepting transcripts with one commitment and different challenges
  some branch has different challenges, and the extractor of that branch returns a discrete logarithm of its statement, if the order is
  coprime to the differences of the challenges of the branches.\<close>

theorem sigor_sound:
  fixes G :: "('g::ab_group_add, 'a::field) PrimeGroup"
  assumes G: "prime_group G" and order: "\<And>x::'g. nsum order x = 0" and gcdx: "bezout gcdx"
    and p: "schnorr_NewProtocol order sbytes G g (Some prng) = Inr p" and sp: "sigor_Compose (Some (maurer_sigma ibytes p)) n (Some ()) = Inr sp"
    and acc: "sg_Verify sp xs as (Some e) (Some z) = Inr ()" "sg_Verify sp xs as (Some e') (Some z') = Inr ()" and e: "e \<noteq> e'"
    and far: "\<And>i. i < n \<Longrightarrow> or_E z ! i \<noteq> or_E z' ! i \<Longrightarrow> coprime (int order) (int (be_val (or_E z ! i)) - int (be_val (or_E z' ! i)))"
  shows "\<exists>i<n. \<exists>w. mr_Extract gcdx p (xs ! i) (as ! i) [Some (or_E z ! i), Some (or_E z' ! i)] [or_Z z ! i, or_Z z' ! i] = Inr (Some w) \<and>
    xs ! i = Some (ScalarOp G g w)"
proof -
  let ?d = "(order, sbytes, G, g)"
  have eq: "p = schnorr_protocol ?d" using p by (simp add: schnorr_NewProtocol_ok)
  have wf: "schnorr_wf ?d" using G order by (simp add: schnorr_wf_def)
  have n: "2 \<le> n" and sp: "\<exists>nm. sp = sigor_sigma nm (maurer_sigma ibytes p) n"
    using sp by (auto simp: sigor_Compose_def sigor_ComposeNamed_def split: if_splits)
  then have v: "sigor_Verify (maurer_sigma ibytes p) n xs as (Some e) (Some z) = Inr ()" "sigor_Verify (maurer_sigma ibytes p) n xs as (Some e') (Some z') = Inr ()"
    using acc by auto
  obtain i where i: "i < n" "or_E z ! i \<noteq> or_E z' ! i" using sigor_differ [OF n v e] by blast
  have "mr_Verify p (xs ! i) (as ! i) (Some (or_E z ! i)) (or_Z z ! i) = Inr ()" "mr_Verify p (xs ! i) (as ! i) (Some (or_E z' ! i)) (or_Z z' ! i) = Inr ()"
    using v i(1) unfolding sigor_Verify_iff [OF n] by (simp_all add: maurer_sigma_def)
  moreover from this obtain x a t t' where "xs ! i = Some x" "as ! i = Some a" "or_Z z ! i = Some t" "or_Z z' ! i = Some t'"
    by (auto simp: mr_Verify_def split: option.splits)
  ultimately show ?thesis using schnorr.Extract_ok [OF wf gcdx, of t t' x a "or_E z ! i" "or_E z' ! i"] far [OF i] i(1)
    by (auto simp: eq schnorr_protocol_simps intro!: exI [of _ i])
qed

text \<open>Two transcripts over the rationals that differ on the first branch, in the challenges one and zero.\<close>

theorem sigor_sound_witness:
  "\<exists>p i w. schnorr_NewProtocol 0 (\<lambda>_. []) field_group (2 :: rat) (Some []) = Inr p \<and> i < 2 \<and>
     mr_Extract xgcd p ([Some 6, Some 5] ! i) ([Some 2, Some 14] ! i)
       [Some ([replicate 15 0 @ [1], replicate 16 0] ! i), Some ([replicate 16 0, replicate 16 0] ! i)]
       [[Some 4, Some 7] ! i, [Some 1, Some 7] ! i] = Inr (Some w) \<and>
     [Some 6, Some 5] ! i = Some (ScalarOp field_group (2 :: rat) w)"
proof -
  let ?o = "replicate 16 0 :: bytes" and ?l = "replicate 15 0 @ [1] :: bytes"
  obtain p where p: "schnorr_NewProtocol 0 (\<lambda>_. []) field_group (2 :: rat) (Some []) = Inr p" using schnorr_NewProtocol_ok by blast
  then have eq: "p = schnorr_protocol (0, \<lambda>_. [], field_group, 2)" by (simp add: schnorr_NewProtocol_ok)
  let ?m = "maurer_sigma (\<lambda>_. []) p"
  obtain sp where sp: "sigor_Compose (Some ?m) 2 (Some ()) = Inr sp" by (simp add: sigor_Compose_def sigor_ComposeNamed_def)
  then obtain nm where nm: "sp = sigor_sigma nm ?m 2" by (auto simp: sigor_Compose_def sigor_ComposeNamed_def)
  have "((\<lambda>v::nat. v * 256) ^^ k) 0 = 0" for k by (induction k) simp_all
  then have val: "be_val ?l = 1" "be_val ?o = 0" by (simp_all add: be_val_def foldl_conv_fold)
  have ver: "mr_Verify p (Some x) (Some a) (Some e) (Some z) = Inr () \<longleftrightarrow> 2 * z = a + nsum (be_val e) x" for x a e z
    by (auto simp: eq mr_Verify_def schnorr_protocol_simps defaultScalarMul_def scalarMul_nsum field_group_def mult.commute)
  have acc: "sg_Verify sp [Some 6, Some 5] [Some 2, Some 14] (Some e) (Some \<lparr>or_E = [e, ?o], or_Z = [Some z, Some 7]\<rparr>) = Inr ()"
    if "length e = 16" "2 * z = 2 + nsum (be_val e) 6" for e z
  proof -
    have "mr_challengeByteLen p = 16" by (simp add: eq schnorr_protocol_simps)
    then show ?thesis using that by (auto simp: nm sigor_Verify_iff xor_split_def less_2_cases_iff maurer_sigma_def ver val)
  qed
  have "?l \<noteq> ?o" using val by (metis zero_neq_one)
  moreover have "coprime (int 0) (int (be_val ([?l, ?o] ! i)) - int (be_val ([?o, ?o] ! i)))" if "i < 2" "[?l, ?o] ! i \<noteq> [?o, ?o] ! i" for i
    using that val by (auto simp: less_2_cases_iff)
  ultimately show ?thesis
    using sigor_sound [OF field_group _ xgcd_bezout p sp acc [of ?l 4] acc [of ?o 1]] p val by (simp del: ex_simps) blast
qed

text \<open>The commitment of a disjunction of discrete logarithms needs a scalar for every branch and a challenge for every other branch.\<close>

lemma schnorr_or_commits:
  assumes "schnorr_wf d" "length ixs \<le> length r" "16 * length ixs \<le> length bs" "\<And>ix. ix \<in> set ixs \<Longrightarrow> snd ix \<noteq> None"
  shows "\<exists>res. sigor_commit_loop (maurer_sigma ibytes (schnorr_protocol d)) b (Some w) ixs (r, bs) = Inr res"
  using assms(2-4)
proof (induction ixs arbitrary: r bs)
  case (Cons ix ixs)
  obtain order sbytes G g where d: "d = (order, sbytes, G, g)" by (cases d)
  obtain i x where ix: "ix = (i, Some x)" using Cons.prems(3) [of ix] by (cases ix) auto
  obtain s r' where r: "r = s # r'" using Cons.prems(1) by (cases r) auto
  have "\<exists>res. sigor_commit_loop (maurer_sigma ibytes (schnorr_protocol d)) b (Some w) ixs (r', bs') = Inr res" if "bs' = bs \<or> bs' = drop 16 bs" for bs'
    by (rule Cons.IH) (use Cons.prems r that in auto)
  from this [of bs] this [of "drop 16 bs"] show ?case using Cons.prems(2)
    by (auto simp: ix r d maurer_sigma_def mr_ComputeProverCommitment_def mr_RunSimulator_def schnorr_protocol_simps scalar_group_def
        scalar_Random_def ReadFull_def defaultScalarMul_def)
qed simp

text \<open>Disjunctions of discrete logarithms are complete and do not need the witness to be simulated: an honest prover who knows the
  discrete logarithm of one of the statements commits and is accepted for every challenge, and the simulator, which gets no witness,
  can output the very same commitment and response.\<close>

theorem sigor_complete:
  fixes G :: "('g::ab_group_add, 'a::field) PrimeGroup"
  assumes G: "prime_group G" and order: "\<And>x::'g. nsum order x = 0"
    and p: "schnorr_NewProtocol order sbytes G g (Some prng) = Inr p" and sp: "sigor_Compose (Some (maurer_sigma ibytes p)) n (Some ()) = Inr sp"
    and xs: "length xs = n" "None \<notin> set xs" "Some (ScalarOp G g w) \<in> set xs" and r: "n \<le> length r" "16 * n \<le> length bs"
    and e: "length e = 16"
  shows "\<exists>as state rb' z. sg_ComputeProverCommitment sp xs (Some w) (r, bs) = Inr (as, state, rb') \<and>
    sg_ComputeProverResponse sp xs (Some w) as state (Some e) = Inr z \<and> sg_Verify sp xs as (Some e) z = Inr () \<and>
    (\<forall>q'. \<exists>q. sg_RunSimulator sp xs (Some e) q = Inr (as, z, q'))"
proof -
  let ?d = "(order, sbytes, G, g)"
  let ?sp = "maurer_sigma ibytes (schnorr_protocol ?d)"
  have eq: "p = schnorr_protocol ?d" using p by (simp add: schnorr_NewProtocol_ok)
  have wf: "schnorr_wf ?d" using G order by (simp add: schnorr_wf_def)
  obtain nm where n: "2 \<le> n" and sp: "sp = sigor_sigma nm ?sp n" using sp by (auto simp: eq sigor_Compose_def sigor_ComposeNamed_def split: if_splits)
  obtain i where i: "i < n" "xs ! i = Some (ScalarOp G g w)" using xs(1,3) by (auto simp: in_set_conv_nth)
  have val: "sigor_ValidateStatement ?sp n xs (Some w) = Inr ()"
    by (rule schnorr.mor.or_validate [OF wf _ xs(1) i(1)]) (simp_all add: i(2) maurer_sigma_def mr_ValidateStatement_def schnorr_protocol_simps)
  then obtain b where b: "sigor_getB ?sp n xs (Some w) = Inr b" by (auto simp: sigor_Validate_iff)
  have "snd ix \<noteq> None" if "ix \<in> set (zip [0..<n] xs)" for ix
  proof -
    have "snd ix \<in> set xs" using that by (metis prod.collapse set_zip_rightD)
    then show ?thesis using xs(2) by metis
  qed
  then have "\<exists>res. sigor_commit_loop ?sp b (Some w) (zip [0..<n] xs) (r, bs) = Inr res"
    by (intro schnorr_or_commits [OF wf]) (use xs r in simp_all)
  then obtain as ss es zs rb' where "sigor_commit_loop ?sp b (Some w) (zip [0..<n] xs) (r, bs) = Inr (as, ss, es, zs, rb')" by (metis prod.exhaust)
  with b xs(1) obtain state where com: "sigor_ComputeProverCommitment ?sp n xs (Some w) (r, bs) = Inr (as, state, rb')"
    by (auto simp: sigor_ComputeProverCommitment_def)
  have len: "length e = sg_GetChallengeBytesLength ?sp" using e by (simp add: maurer_sigma_def schnorr_protocol_simps)
  obtain z where z: "sg_ComputeProverResponse sp xs (Some w) as state (Some e) = Inr z" "sg_Verify sp xs as (Some e) z = Inr ()"
    using schnorr.mor.orc.complete [of "(nm, ?d, n)" ibytes xs "Some w" e "(r, bs)" as state rb'] wf n val com len by (auto simp: sp)
  have sim: "\<exists>q. sg_RunSimulator sp xs (Some e) q = Inr (as, z, q')" for q'
    using schnorr.mor.orc.zero_knowledge [of "(nm, ?d, n)" ibytes xs "Some w" e "(r, bs)" as state rb' z q'] wf n val com len z(1) by (auto simp: sp)
  have "sg_ComputeProverCommitment sp xs (Some w) (r, bs) = Inr (as, state, rb')" using com by (simp add: sp)
  with z show ?thesis by (intro exI conjI) (assumption, assumption, assumption, intro allI, rule sim)
qed

theorem sigor_complete_witness:
  "\<exists>p sp as state rb' z. schnorr_NewProtocol 0 (\<lambda>_. []) field_group (2 :: rat) (Some []) = Inr p \<and>
     sigor_Compose (Some (maurer_sigma (\<lambda>_. []) p)) 2 (Some ()) = Inr sp \<and>
     sg_ComputeProverCommitment sp [Some 5, Some 6] (Some 3) ([1, 4], replicate 32 7) = Inr (as, state, rb') \<and>
     sg_ComputeProverResponse sp [Some 5, Some 6] (Some 3) as state (Some (replicate 16 9)) = Inr z \<and>
     sg_Verify sp [Some 5, Some 6] as (Some (replicate 16 9)) z = Inr ()"
proof -
  obtain p where p: "schnorr_NewProtocol 0 (\<lambda>_. []) field_group (2 :: rat) (Some []) = Inr p" using schnorr_NewProtocol_ok by blast
  obtain sp where sp: "sigor_Compose (Some (maurer_sigma (\<lambda>_. []) p)) 2 (Some ()) = Inr sp" by (simp add: sigor_Compose_def sigor_ComposeNamed_def)
  have "\<exists>as state rb' z. sg_ComputeProverCommitment sp [Some 5, Some 6] (Some 3) ([1, 4], replicate 32 7) = Inr (as, state, rb') \<and>
     sg_ComputeProverResponse sp [Some 5, Some 6] (Some 3) as state (Some (replicate 16 9)) = Inr z \<and>
     sg_Verify sp [Some 5, Some 6] as (Some (replicate 16 9)) z = Inr () \<and>
     (\<forall>q'. \<exists>q. sg_RunSimulator sp [Some 5, Some 6] (Some (replicate 16 9)) q = Inr (as, z, q'))"
    by (rule sigor_complete [OF field_group _ p sp]) (simp_all add: field_group_def)
  with p sp show ?thesis by blast
qed

text \<open>Conjunctions of representation proofs are sound: from two accepting transcripts with one commitment the extractor returns a
  representation of every statement, if the order is coprime to the difference of the challenges.\<close>

theorem sigand_sound:
  fixes G :: "('g::ab_group_add, 'a::field) PrimeGroup"
  assumes G: "prime_group G" and order: "\<And>x::'g. nsum order x = 0" and gs: "generators \<noteq> []" and gcdx: "bezout gcdx"
    and p: "okamoto_NewProtocol order sbytes G generators (Some prng) = Inr p" and sp: "sigand_Compose (Some (maurer_sigma ibytes p)) n = Inr sp"
    and acc: "sg_Verify sp xs as (Some e) zs = Inr ()" "sg_Verify sp xs as (Some e') zs' = Inr ()"
    and len: "\<And>z. Some z \<in> set (zs @ zs') \<Longrightarrow> length z = length generators"
    and far: "coprime (int order) (int (be_val e) - int (be_val e'))" and i: "i < n"
  shows "\<exists>w. mr_Extract gcdx p (xs ! i) (as ! i) [Some e, Some e'] [zs ! i, zs' ! i] = Inr (Some w) \<and>
    xs ! i = Some (represented G generators w) \<and> length w = length generators"
proof -
  let ?d = "(order, sbytes, G, generators)"
  have eq: "p = okamoto_protocol ?d" using p by (simp add: okamoto_NewProtocol_ok [OF gs])
  have wf: "okamoto_wf ?d" using G order gs by (simp add: okamoto_wf_def)
  have "\<exists>nm. sp = sigand_sigma nm (maurer_sigma ibytes p) n"
    using sp by (auto simp: sigand_Compose_def sigand_ComposeNamed_def split: if_splits)
  then have v: "length zs = n" "length zs' = n" "mr_Verify p (xs ! i) (as ! i) (Some e) (zs ! i) = Inr ()" "mr_Verify p (xs ! i) (as ! i) (Some e') (zs' ! i) = Inr ()"
    using acc i by (auto simp: sigand_Verify_iff maurer_sigma_def)
  then obtain x a t t' where s: "xs ! i = Some x" "as ! i = Some a" "zs ! i = Some t" "zs' ! i = Some t'"
    by (auto simp: mr_Verify_def split: option.splits)
  then have "length t = length generators" "length t' = length generators" using len v(1,2) i by (auto simp: in_set_conv_nth)
  with s v(3,4) far show ?thesis using okamoto.Extract_ok [OF wf gcdx, of t t' x a e e'] by (auto simp: eq okamoto_protocol_simps [OF gs])
qed

theorem sigand_sound_witness:
  "\<exists>p w. okamoto_NewProtocol 0 (\<lambda>_. []) field_group [1, 2 :: rat] (Some []) = Inr p \<and>
     mr_Extract xgcd p (Some 11) (Some 17) [Some [1], Some [0]] [Some [8, 10], Some [5, 6]] = Inr (Some w) \<and>
     Some 11 = Some (represented field_group [1, 2 :: rat] w) \<and> length w = 2"
proof -
  obtain p where p: "okamoto_NewProtocol 0 (\<lambda>_. []) field_group [1, 2 :: rat] (Some []) = Inr p" using okamoto_NewProtocol_ok by blast
  then have eq: "p = okamoto_protocol (0, \<lambda>_. [], field_group, [1, 2])" by (simp add: okamoto_NewProtocol_ok)
  obtain sp where sp: "sigand_Compose (Some (maurer_sigma (\<lambda>_. []) p)) 2 = Inr sp" by (simp add: sigand_Compose_def sigand_ComposeNamed_def)
  then obtain nm where nm: "sp = sigand_sigma nm (maurer_sigma (\<lambda>_. []) p) 2" by (auto simp: sigand_Compose_def sigand_ComposeNamed_def)
  have ver: "mr_Verify p (Some x) (Some a) (Some e) (Some [u, v]) = Inr () \<longleftrightarrow> u + v * 2 = a + nsum (be_val e) x" for x a e u v
    by (auto simp: eq mr_Verify_def okamoto_protocol_simps okamoto_phi represented_def defaultScalarMul_def scalarMul_nsum field_group_def)
  have acc: "sg_Verify sp [Some 11, Some 1] [Some 17, Some 0] (Some [1]) [Some [8, 10], Some [1, 0]] = Inr ()"
    "sg_Verify sp [Some 11, Some 1] [Some 17, Some 0] (Some [0]) [Some [5, 6], Some [0, 0]] = Inr ()"
    by (auto simp: nm sigand_Verify_iff maurer_sigma_def less_2_cases_iff ver be_val_def)
  have len: "Some z \<in> set ([Some [8, 10], Some [1, 0]] @ [Some [5, 6], Some [0, 0]]) \<Longrightarrow> length z = length [1, 2 :: rat]" for z :: "rat list" by auto
  show ?thesis using sigand_sound [OF field_group _ _ xgcd_bezout p sp acc len, of 0] p by (simp add: be_val_def numeral_2_eq_2)
qed

end
