(* ===== verification/MatrixTypes.thy ===== *)
theory MatrixTypes
  imports Matrix
begin

text \<open>
  The dimensions of matrices as a type system. An expression over the constructors and operations of \<open>pkg/base/mat\<close> is evaluated by the modelled
  operations; its type is computed from the dimensions of the operands alone. Expressions with a type evaluate to well-formed matrices of
  that type; for all others the evaluation stops with an error or a panic.
\<close>

datatype 'a mexpr =
    Lit nat nat "'a list list" | Flat nat nat "'a list" | Unit nat int | Null nat nat
  | Row "'a mexpr" int | Col "'a mexpr" int
  | Aug "'a mexpr" "'a mexpr" | Stk "'a mexpr" "'a mexpr"
  | Rows "'a mexpr" "int list" | RowSl "'a mexpr" int int | Cols "'a mexpr" "int list" | ColSl "'a mexpr" int int
  | SwapR "'a mexpr" int int | SwapC "'a mexpr" int int | Tr "'a mexpr" | Mnr "'a mexpr" int int
  | SetC "'a mexpr" int "'a list" | SetR "'a mexpr" int "'a list" | SetE "'a mexpr" int int 'a
  | Plus "'a mexpr" "'a mexpr" | Neg "'a mexpr" | Sub "'a mexpr" "'a mexpr" | Dbl "'a mexpr"
  | AddR "'a mexpr" int int 'a | AddC "'a mexpr" int int 'a | MulR "'a mexpr" int 'a | MulC "'a mexpr" int 'a
  | Mul "'a mexpr" "'a mexpr" | Had "'a mexpr" "'a mexpr" | Scale "'a mexpr" 'a

fun meval :: "('a::comm_ring_1) mexpr \<Rightarrow> 'a Matrix res" where
  "meval (Lit r c rows) = rbind (NewMatrixModule r c (Some ())) (\<lambda>mm. mod_New mm rows)"
| "meval (Flat r c d) = rbind (NewMatrixModule r c (Some ())) (\<lambda>mm. mod_NewRowMajor mm d)"
| "meval (Unit n i) = rbind (NewRowVectorModule n (Some ())) (\<lambda>mm. NewStandardUnit mm i)"
| "meval (Null r c) = rbind (NewMatrixModule r c (Some ())) (\<lambda>mm. Inr (mod_OpIdentity mm))"
| "meval (Row e i) = rbind (meval e) (\<lambda>m. mat_GetRow m i)"
| "meval (Col e j) = rbind (meval e) (\<lambda>m. mat_GetColumn m j)"
| "meval (Aug e f) = rbind (meval e) (\<lambda>m. rbind (meval f) (mat_Augment m))"
| "meval (Stk e f) = rbind (meval e) (\<lambda>m. rbind (meval f) (mat_Stack m))"
| "meval (Rows e is) = rbind (meval e) (\<lambda>m. mat_SubMatrixGivenRows m is)"
| "meval (RowSl e i j) = rbind (meval e) (\<lambda>m. mat_RowSlice m i j)"
| "meval (Cols e is) = rbind (meval e) (\<lambda>m. mat_SubMatrixGivenColumns m is)"
| "meval (ColSl e i j) = rbind (meval e) (\<lambda>m. mat_ColumnSlice m i j)"
| "meval (SwapR e i j) = rbind (meval e) (\<lambda>m. mat_SwapRow m i j)"
| "meval (SwapC e i j) = rbind (meval e) (\<lambda>m. mat_SwapColumn m i j)"
| "meval (Tr e) = rbind (meval e) (\<lambda>m. Inr (mat_Transpose m))"
| "meval (Mnr e i j) = rbind (meval e) (\<lambda>m. mat_Minor m i j)"
| "meval (SetC e j d) = rbind (meval e) (\<lambda>m. mat_SetColumnAssign m j d)"
| "meval (SetR e i d) = rbind (meval e) (\<lambda>m. mat_SetRowAssign m i d)"
| "meval (SetE e i j x) = rbind (meval e) (\<lambda>m. mat_SetAssign m i j x)"
| "meval (Plus e f) = rbind (meval e) (\<lambda>m. rbind (meval f) (mat_OpAssign m))"
| "meval (Neg e) = rbind (meval e) (\<lambda>m. Inr (mat_OpInv m))"
| "meval (Sub e f) = rbind (meval e) (\<lambda>m. rbind (meval f) (mat_TrySub m))"
| "meval (Dbl e) = rbind (meval e) mat_Double"
| "meval (AddR e i j x) = rbind (meval e) (\<lambda>m. mat_RowAddAssign m i j x)"
| "meval (AddC e i j x) = rbind (meval e) (\<lambda>m. mat_ColumnAddAssign m i j x)"
| "meval (MulR e i x) = rbind (meval e) (\<lambda>m. mat_RowScalarMulAssign m i x)"
| "meval (MulC e i x) = rbind (meval e) (\<lambda>m. mat_ColumnScalarMulAssign m i x)"
| "meval (Mul e f) = rbind (meval e) (\<lambda>m. rbind (meval f) (mat_TryMul m))"
| "meval (Had e f) = rbind (meval e) (\<lambda>m. rbind (meval f) (mat_HadamardProductAssign m))"
| "meval (Scale e x) = rbind (meval e) (\<lambda>m. Inr (mat_ScalarMul m x))"

text \<open>The type is the pair of dimensions; \<open>inr i n\<close> says that an index is in range.\<close>

definition inr :: "int \<Rightarrow> nat \<Rightarrow> bool" where
  "inr i n \<longleftrightarrow> 0 \<le> i \<and> i < int n"

definition guarded :: "(nat \<Rightarrow> nat \<Rightarrow> bool) \<Rightarrow> (nat \<Rightarrow> nat \<Rightarrow> nat \<times> nat) \<Rightarrow> (nat \<times> nat) option \<Rightarrow> (nat \<times> nat) option" where
  "guarded g t d = (case d of None \<Rightarrow> None | Some (r, c) \<Rightarrow> if g r c then Some (t r c) else None)"

definition guarded2 ::
  "(nat \<Rightarrow> nat \<Rightarrow> nat \<Rightarrow> nat \<Rightarrow> bool) \<Rightarrow> (nat \<Rightarrow> nat \<Rightarrow> nat \<Rightarrow> nat \<Rightarrow> nat \<times> nat) \<Rightarrow> (nat \<times> nat) option \<Rightarrow> (nat \<times> nat) option \<Rightarrow> (nat \<times> nat) option" where
  "guarded2 g t d d' = (case (d, d') of (Some (r, c), Some (r', c')) \<Rightarrow> if g r c r' c' then Some (t r c r' c') else None | _ \<Rightarrow> None)"

fun mtype :: "'a mexpr \<Rightarrow> (nat \<times> nat) option" where
  "mtype (Lit r c rows) = (if 0 < r \<and> 0 < c \<and> length rows = r \<and> (\<forall>row\<in>set rows. length row = c) then Some (r, c) else None)"
| "mtype (Flat r c d) = (if 0 < r \<and> 0 < c \<and> length d = r * c then Some (r, c) else None)"
| "mtype (Unit n i) = (if inr i n then Some (1, n) else None)"
| "mtype (Null r c) = (if 0 < r \<and> 0 < c then Some (r, c) else None)"
| "mtype (Row e i) = guarded (\<lambda>r c. inr i r) (\<lambda>r c. (1, c)) (mtype e)"
| "mtype (Col e j) = guarded (\<lambda>r c. inr j c) (\<lambda>r c. (r, 1)) (mtype e)"
| "mtype (Aug e f) = guarded2 (\<lambda>r c r' c'. r = r') (\<lambda>r c r' c'. (r, c + c')) (mtype e) (mtype f)"
| "mtype (Stk e f) = guarded2 (\<lambda>r c r' c'. c = c') (\<lambda>r c r' c'. (r + r', c)) (mtype e) (mtype f)"
| "mtype (Rows e is) = guarded (\<lambda>r c. is \<noteq> [] \<and> (\<forall>i\<in>set is. inr i r)) (\<lambda>r c. (length is, c)) (mtype e)"
| "mtype (RowSl e i j) = guarded (\<lambda>r c. 0 \<le> i \<and> i < j \<and> j \<le> int r) (\<lambda>r c. (nat (j - i), c)) (mtype e)"
| "mtype (Cols e is) = guarded (\<lambda>r c. is \<noteq> [] \<and> (\<forall>i\<in>set is. inr i c)) (\<lambda>r c. (r, length is)) (mtype e)"
| "mtype (ColSl e i j) = guarded (\<lambda>r c. 0 \<le> i \<and> i < j \<and> j \<le> int c) (\<lambda>r c. (r, nat (j - i))) (mtype e)"
| "mtype (SwapR e i j) = guarded (\<lambda>r c. inr i r \<and> inr j r) Pair (mtype e)"
| "mtype (SwapC e i j) = guarded (\<lambda>r c. inr i c \<and> inr j c) Pair (mtype e)"
| "mtype (Tr e) = guarded (\<lambda>r c. True) (\<lambda>r c. (c, r)) (mtype e)"
| "mtype (Mnr e i j) = guarded (\<lambda>r c. inr i r \<and> inr j c \<and> 1 < r \<and> 1 < c) (\<lambda>r c. (r - 1, c - 1)) (mtype e)"
| "mtype (SetC e j d) = guarded (\<lambda>r c. inr j c \<and> length d = r) Pair (mtype e)"
| "mtype (SetR e i d) = guarded (\<lambda>r c. inr i r \<and> length d = c) Pair (mtype e)"
| "mtype (SetE e i j x) = guarded (\<lambda>r c. inr i r \<and> inr j c) Pair (mtype e)"
| "mtype (Plus e f) = guarded2 (\<lambda>r c r' c'. r = r' \<and> c = c') (\<lambda>r c r' c'. (r, c)) (mtype e) (mtype f)"
| "mtype (Neg e) = mtype e"
| "mtype (Sub e f) = guarded2 (\<lambda>r c r' c'. r = r' \<and> c = c') (\<lambda>r c r' c'. (r, c)) (mtype e) (mtype f)"
| "mtype (Dbl e) = mtype e"
| "mtype (AddR e i j x) = guarded (\<lambda>r c. inr i r \<and> inr j r) Pair (mtype e)"
| "mtype (AddC e i j x) = guarded (\<lambda>r c. inr i c \<and> inr j c) Pair (mtype e)"
| "mtype (MulR e i x) = guarded (\<lambda>r c. inr i r) Pair (mtype e)"
| "mtype (MulC e i x) = guarded (\<lambda>r c. inr i c) Pair (mtype e)"
| "mtype (Mul e f) = guarded2 (\<lambda>r c r' c'. c = r') (\<lambda>r c r' c'. (r, c')) (mtype e) (mtype f)"
| "mtype (Had e f) = guarded2 (\<lambda>r c r' c'. r = r' \<and> c = c') (\<lambda>r c r' c'. (r, c)) (mtype e) (mtype f)"
| "mtype (Scale e x) = mtype e"

section \<open>Soundness and completeness of the dimensions\<close>

text \<open>A result has the type that is computed for it: a well-formed matrix of these dimensions, or an error.\<close>

definition sized :: "'a Matrix res \<Rightarrow> (nat \<times> nat) option \<Rightarrow> bool" where
  "sized v d = (case d of None \<Rightarrow> \<not> is_ok v | Some (r, c) \<Rightarrow> (case v of Inl _ \<Rightarrow> False | Inr m \<Rightarrow> mat_wf m \<and> mrows m = r \<and> mcols m = c))"

lemma sized_cases:
  assumes "sized v d"
  obtains (err) x where "v = Inl x" "d = None" | (ok) m where "v = Inr m" "mat_wf m" "d = Some (mrows m, mcols m)"
  using assms by (cases v) (auto simp: sized_def split: option.splits)

lemma sized_Inl [simp]: "sized (Inl x) None" "\<not> sized (Inl x) (Some d)" "\<not> sized (Inr m) None"
  by (auto simp: sized_def split: prod.splits)

lemma sized_Inr [simp]: "sized (Inr m) (Some d) \<longleftrightarrow> mat_wf m \<and> d = (mrows m, mcols m)"
  by (cases d) (auto simp: sized_def)

lemma guarded_simps [simp]:
  "guarded g t None = None" "guarded g t (Some (r, c)) = (if g r c then Some (t r c) else None)"
  "guarded2 h u None d = None" "guarded2 h u d None = None"
  "guarded2 h u (Some (r, c)) (Some (r', c')) = (if h r c r' c' then Some (u r c r' c') else None)"
  by (simp_all add: guarded_def guarded2_def split: option.splits)

lemma sized_bind:
  assumes "sized v d" "\<And>m. mat_wf m \<Longrightarrow> sized (f m) (guarded g t (Some (mrows m, mcols m)))"
  shows "sized (rbind v f) (guarded g t d)"
  using assms(1) by (rule sized_cases) (use assms(2) in simp_all)

lemma sized_bind_total:
  assumes "sized v d" "\<And>m. mat_wf m \<Longrightarrow> sized (f m) (Some (mrows m, mcols m))"
  shows "sized (rbind v f) d"
  using assms(1) by (rule sized_cases) (use assms(2) in simp_all)

lemma sized_bind2:
  assumes "sized v d" "sized v' d'"
    and "\<And>m m'. mat_wf m \<Longrightarrow> mat_wf m' \<Longrightarrow> sized (f m m') (guarded2 g t (Some (mrows m, mcols m)) (Some (mrows m', mcols m')))"
  shows "sized (rbind v (\<lambda>m. rbind v' (f m))) (guarded2 g t d d')"
  by (rule sized_cases [OF assms(1)]; rule sized_cases [OF assms(2)]) (use assms(3) in simp_all)

section \<open>Operations\<close>

lemma mod_New_rows_ok:
  "(\<forall>row\<in>set rows. length row = c) \<Longrightarrow> mod_New_rows c rows = Inr (concat rows)"
  "\<not> (\<forall>row\<in>set rows. length row = c) \<Longrightarrow> \<exists>x. mod_New_rows c rows = Inl x"
proof -
  show "(\<forall>row\<in>set rows. length row = c) \<Longrightarrow> mod_New_rows c rows = Inr (concat rows)" by (induction rows) auto
  show "\<not> (\<forall>row\<in>set rows. length row = c) \<Longrightarrow> \<exists>x. mod_New_rows c rows = Inl x"
  proof (induction rows)
    case (Cons row rows)
    then show ?case by (cases "mod_New_rows c rows") auto
  qed simp
qed

lemma inr_list: "list_ex (\<lambda>i. i < 0 \<or> i \<ge> int n) is \<longleftrightarrow> \<not> (\<forall>i\<in>set is. inr i n)"
  by (auto simp: list_ex_iff inr_def not_le not_less)

lemma inr_guards:
  "(i < 0 \<or> i \<ge> int n) \<longleftrightarrow> \<not> inr i n" "inr i n \<Longrightarrow> nat i < n"
  "(i < 0 \<or> i \<ge> int n \<or> P) \<longleftrightarrow> \<not> inr i n \<or> P"
  by (auto simp: inr_def)

lemma sized_Lit: "sized (meval (Lit r c rows)) (mtype (Lit r c rows))"
proof (cases "\<forall>row\<in>set rows. length row = c")
  case True
  then have "length (concat rows) = length rows * c" by (simp add: length_concat_const)
  with True show ?thesis by (auto simp: NewMatrixModule_def mod_New_def mod_New_rows_ok mat_wf_def)
next
  case False
  then show ?thesis using mod_New_rows_ok(2) [OF False] by (auto simp: NewMatrixModule_def mod_New_def)
qed

lemma sized_const:
  "sized (meval (Flat r c d)) (mtype (Flat r c d))" "sized (meval (Unit n i)) (mtype (Unit n i))" "sized (meval (Null r c)) (mtype (Null r c))"
  by (auto simp: NewMatrixModule_def mod_NewRowMajor_def mat_wf_def NewRowVectorModule_def NewStandardUnit_def mod_OpIdentity_def inr_def)

lemma sized_slices:
  assumes "mat_wf m"
  shows "sized (mat_GetRow m i) (guarded (\<lambda>r c. inr i r) (\<lambda>r c. (1, c)) (Some (mrows m, mcols m)))"
    and "sized (mat_GetColumn m i) (guarded (\<lambda>r c. inr i c) (\<lambda>r c. (r, 1)) (Some (mrows m, mcols m)))"
    and "sized (mat_SubMatrixGivenColumns m is) (guarded (\<lambda>r c. is \<noteq> [] \<and> (\<forall>i\<in>set is. inr i c)) (\<lambda>r c. (r, length is)) (Some (mrows m, mcols m)))"
    and "sized (mat_Minor m i j) (guarded (\<lambda>r c. inr i r \<and> inr j c \<and> 1 < r \<and> 1 < c) (\<lambda>r c. (r - 1, c - 1)) (Some (mrows m, mcols m)))"
proof -
  show "sized (mat_GetRow m i) (guarded (\<lambda>r c. inr i r) (\<lambda>r c. (1, c)) (Some (mrows m, mcols m)))"
    using assms row_slice_length [OF assms, of "nat i"] by (auto simp: mat_GetRow_def inr_guards mat_wf_def)
  show "sized (mat_GetColumn m i) (guarded (\<lambda>r c. inr i c) (\<lambda>r c. (r, 1)) (Some (mrows m, mcols m)))"
    using assms by (auto simp: mat_GetColumn_def inr_guards mat_wf_def)
  show "sized (mat_SubMatrixGivenColumns m is) (guarded (\<lambda>r c. is \<noteq> [] \<and> (\<forall>i\<in>set is. inr i c)) (\<lambda>r c. (r, length is)) (Some (mrows m, mcols m)))"
    using assms by (auto simp: mat_SubMatrixGivenColumns_def inr_list mat_simps mat_wf_def [of m])
  show "sized (mat_Minor m i j) (guarded (\<lambda>r c. inr i r \<and> inr j c \<and> 1 < r \<and> 1 < c) (\<lambda>r c. (r - 1, c - 1)) (Some (mrows m, mcols m)))"
    by (auto simp: mat_Minor_def inr_guards mat_simps)
qed

lemma sized_SubRows:
  assumes "mat_wf m"
  shows "sized (mat_SubMatrixGivenRows m is) (guarded (\<lambda>r c. is \<noteq> [] \<and> (\<forall>i\<in>set is. inr i r)) (\<lambda>r c. (length is, c)) (Some (mrows m, mcols m)))"
proof (cases "is \<noteq> [] \<and> (\<forall>i\<in>set is. inr i (mrows m))")
  case True
  let ?rows = "map (\<lambda>i. take (mcols m) (drop (nat i * mcols m) (mdata m))) is"
  have rows: "length row = mcols m" if row: "row \<in> set ?rows" for row
  proof -
    obtain i where "i \<in> set is" "row = take (mcols m) (drop (nat i * mcols m) (mdata m))" using row unfolding set_map by blast
    then show ?thesis using True inr_guards(2) row_slice_length [OF assms, of "nat i"] by blast
  qed
  have "length (concat ?rows) = length ?rows * mcols m" by (rule length_concat_const) (rule rows)
  then show ?thesis using True assms by (simp add: mat_SubMatrixGivenRows_def inr_list mat_wf_def)
qed (auto simp: mat_SubMatrixGivenRows_def inr_list)

lemma sized_RowSlice:
  assumes "mat_wf m"
  shows "sized (mat_RowSlice m i j) (guarded (\<lambda>r c. 0 \<le> i \<and> i < j \<and> j \<le> int r) (\<lambda>r c. (nat (j - i), c)) (Some (mrows m, mcols m)))"
proof (cases "0 \<le> i \<and> i < j \<and> j \<le> int (mrows m)")
  case True
  obtain a b where ab: "i = int a" "j = int b" "a < b" "b \<le> mrows m" using True by (metis int_nat_eq nat_int_comparison(2) nat_le_iff order_le_less_trans order_less_imp_le)
  then have "nat (j - i) = b - a" by simp
  moreover have "(b - a) * mcols m \<le> mrows m * mcols m - a * mcols m" using ab(4) by (simp only: diff_mult_distrib [symmetric]) (intro mult_le_mono1 diff_le_mono)
  ultimately show ?thesis using ab assms by (simp add: mat_RowSlice_def mat_wf_def min_absorb2)
qed (auto simp: mat_RowSlice_def)

lemma sized_ColumnSlice:
  assumes "mat_wf m"
  shows "sized (mat_ColumnSlice m i j) (guarded (\<lambda>r c. 0 \<le> i \<and> i < j \<and> j \<le> int c) (\<lambda>r c. (r, nat (j - i))) (Some (mrows m, mcols m)))"
proof (cases "0 \<le> i \<and> i < j \<and> j \<le> int (mcols m)")
  case True
  obtain a b where ab: "i = int a" "j = int b" "a < b" "b \<le> mcols m" using True by (metis int_nat_eq nat_int_comparison(2) nat_le_iff order_le_less_trans order_less_imp_le)
  then have n: "nat (j - i) = b - a" "nat i = a" by simp_all
  let ?rows = "map (\<lambda>k. take (b - a) (drop (k * mcols m + a) (mdata m))) [0..<mrows m]"
  have rows: "length row = b - a" if row: "row \<in> set ?rows" for row
  proof -
    obtain k where k: "k < mrows m" "row = take (b - a) (drop (k * mcols m + a) (mdata m))" using row by auto
    have "Suc k * mcols m \<le> mrows m * mcols m" using k(1) by (intro mult_le_mono1) simp
    then show ?thesis using ab assms k(2) by (simp add: mat_wf_def)
  qed
  have "length (concat ?rows) = length ?rows * (b - a)" by (rule length_concat_const) (rule rows)
  then show ?thesis using True ab assms n by (simp add: mat_ColumnSlice_def mat_wf_def)
qed (auto simp: mat_ColumnSlice_def)

lemma sized_join:
  assumes "mat_wf m" "mat_wf m'"
  shows "sized (mat_Augment m m') (guarded2 (\<lambda>r c r' c'. r = r') (\<lambda>r c r' c'. (r, c + c')) (Some (mrows m, mcols m)) (Some (mrows m', mcols m')))"
    and "sized (mat_Stack m m') (guarded2 (\<lambda>r c r' c'. c = c') (\<lambda>r c r' c'. (r + r', c)) (Some (mrows m, mcols m)) (Some (mrows m', mcols m')))"
    and "sized (mat_TryMul m m') (guarded2 (\<lambda>r c r' c'. c = r') (\<lambda>r c r' c'. (r, c')) (Some (mrows m, mcols m)) (Some (mrows m', mcols m')))"
proof -
  show "sized (mat_Augment m m') (guarded2 (\<lambda>r c r' c'. r = r') (\<lambda>r c r' c'. (r, c + c')) (Some (mrows m, mcols m)) (Some (mrows m', mcols m')))"
  proof (cases "mrows m = mrows m'")
    case True
    then show ?thesis using assms by (simp add: mat_Augment_ok mat_simps) (simp add: mat_wf_def)
  qed (simp add: mat_Augment_def)
  show "sized (mat_Stack m m') (guarded2 (\<lambda>r c r' c'. c = c') (\<lambda>r c r' c'. (r + r', c)) (Some (mrows m, mcols m)) (Some (mrows m', mcols m')))"
    using assms by (auto simp: mat_Stack_def mat_wf_def distrib_right)
  show "sized (mat_TryMul m m') (guarded2 (\<lambda>r c r' c'. c = r') (\<lambda>r c r' c'. (r, c')) (Some (mrows m, mcols m)) (Some (mrows m', mcols m')))"
    using assms by (auto simp: mat_TryMul_def mat_simps mat_wf_def [of m] mat_wf_def [of m'])
qed

text \<open>Operations that keep the dimensions.\<close>

lemma wf_update: "mat_wf m \<Longrightarrow> length d = length (mdata m) \<Longrightarrow> mat_wf (m\<lparr>mdata := d\<rparr>)"
  by (simp add: mat_wf_def)

lemma swap_all_length: "length (fold (\<lambda>k d. swap_cells (f k) (g k) d) ks d) = length d"
  by (induction ks arbitrary: d) (simp_all add: swap_cells_def)

lemma zip_assign_length: "length (zip_assign f d e) = length d"
  by (simp add: zip_assign_def)

lemma sized_pointwise:
  assumes "mat_wf m" "mat_wf m'"
  shows "sized (mat_OpAssign m m') (guarded2 (\<lambda>r c r' c'. r = r' \<and> c = c') (\<lambda>r c r' c'. (r, c)) (Some (mrows m, mcols m)) (Some (mrows m', mcols m')))"
    and "sized (mat_TrySub m m') (guarded2 (\<lambda>r c r' c'. r = r' \<and> c = c') (\<lambda>r c r' c'. (r, c)) (Some (mrows m, mcols m)) (Some (mrows m', mcols m')))"
    and "sized (mat_HadamardProductAssign m m') (guarded2 (\<lambda>r c r' c'. r = r' \<and> c = c') (\<lambda>r c r' c'. (r, c)) (Some (mrows m, mcols m)) (Some (mrows m', mcols m')))"
    and "sized (mat_Double m) (Some (mrows m, mcols m))"
  using assms by (auto simp: mat_OpAssign_def mat_TrySub_def mat_SubAssign_def mat_HadamardProductAssign_def mat_Double_def zip_assign_length intro!: wf_update)

lemma sized_total:
  assumes "mat_wf m"
  shows "sized (Inr (mat_Transpose m)) (guarded (\<lambda>r c. True) (\<lambda>r c. (c, r)) (Some (mrows m, mcols m)))"
    and "sized (Inr (mat_OpInv m)) (Some (mrows m, mcols m))" "sized (Inr (mat_ScalarMul m x)) (Some (mrows m, mcols m))"
  using assms by (simp_all add: mat_simps mat_OpInv_def mat_ScalarMul_def wf_update)

lemma sized_assign:
  assumes "mat_wf m"
  shows "sized (mat_SwapRow m i j) (guarded (\<lambda>r c. inr i r \<and> inr j r) Pair (Some (mrows m, mcols m)))"
    and "sized (mat_SwapColumn m i j) (guarded (\<lambda>r c. inr i c \<and> inr j c) Pair (Some (mrows m, mcols m)))"
    and "sized (mat_SetColumnAssign m i d) (guarded (\<lambda>r c. inr i c \<and> length d = r) Pair (Some (mrows m, mcols m)))"
    and "sized (mat_SetRowAssign m i d) (guarded (\<lambda>r c. inr i r \<and> length d = c) Pair (Some (mrows m, mcols m)))"
    and "sized (mat_SetAssign m i j x) (guarded (\<lambda>r c. inr i r \<and> inr j c) Pair (Some (mrows m, mcols m)))"
  using assms
  by (auto simp: mat_SwapRow_def mat_SwapRowAssign_def mat_SwapColumn_def mat_SwapColumnAssign_def swap_rows_def swap_all_length
      mat_SetColumnAssign_def mat_SetRowAssign_def mat_SetAssign_def inr_guards intro!: wf_update)

lemma sized_elementary:
  assumes "mat_wf m"
  shows "sized (mat_RowAddAssign m i j x) (guarded (\<lambda>r c. inr i r \<and> inr j r) Pair (Some (mrows m, mcols m)))"
    and "sized (mat_ColumnAddAssign m i j x) (guarded (\<lambda>r c. inr i c \<and> inr j c) Pair (Some (mrows m, mcols m)))"
    and "sized (mat_RowScalarMulAssign m i x) (guarded (\<lambda>r c. inr i r) Pair (Some (mrows m, mcols m)))"
    and "sized (mat_ColumnScalarMulAssign m i x) (guarded (\<lambda>r c. inr i c) Pair (Some (mrows m, mcols m)))"
  using assms
  by (auto simp: mat_RowAddAssign_def mat_ColumnAddAssign_def mat_RowScalarMulAssign_def mat_ColumnScalarMulAssign_def inr_guards intro!: wf_update)

section \<open>Properties\<close>

lemmas sized_unary = sized_slices sized_SubRows sized_RowSlice sized_ColumnSlice sized_assign sized_elementary sized_total(1)
lemmas sized_binary = sized_join sized_pointwise(1-3)

text \<open>Dimensions are a type system for the matrix operations: an expression whose dimensions check evaluates to a well-formed matrix of
  exactly those dimensions, and the evaluation of every other expression stops with an error or, in a sum of matrices of
  different dimensions, with a panic.\<close>

theorem matrix_types_sound:
  "case mtype e of
     Some (r, c) \<Rightarrow> (\<exists>m. meval e = Inr m \<and> mat_wf m \<and> mrows m = r \<and> mcols m = c)
   | None \<Rightarrow> (\<exists>err. meval e = Inl err)"
proof -
  have "sized (meval e) (mtype e)"
    by (induction e; (rule sized_Lit sized_const)?; simp only: meval.simps mtype.simps;
        (rule sized_bind sized_bind2 sized_bind_total, assumption, assumption?, simp only: sized_unary sized_binary sized_total(2,3) sized_pointwise(4))?)
  then show ?thesis by (rule sized_cases) simp_all
qed

end
