(* ===== verification/AOR.thy ===== *)
theory AOR
  imports Session Subtle
begin

text \<open>
  Agreement on randomness (\<open>pkg/mpc/aor\<close>): every party commits to a random string, opens the commitment in the next round, and the output is
  the exclusive or of all strings. The transcript, the hash and the exchange of the broadcasts are those of the session setup.
\<close>

section \<open>Participant and messages\<close>

definition aor_transcriptLabel :: string where
  "aor_transcriptLabel = ''BRON_CRYPTO_AOR-''"
definition aor_sizeLabel :: string where
  "aor_sizeLabel = ''BRON_CRYPTO_AOR_SIZE-''"
definition aor_commitmentKeyLabel :: string where
  "aor_commitmentKeyLabel = ''BRON_CRYPTO_AOR_COMMITMENT_KEY-''"
definition aor_commitmentLabel :: string where
  "aor_commitmentLabel = ''BRON_CRYPTO_AOR_COMMITMENT-''"

record AORParticipant =
  ao_id :: ID
  ao_size :: nat
  ao_quorum :: "ID hset"
  ao_round :: int
  ao_tape :: transcript
  ao_commitmentKey :: bytes
  ao_prng :: bytes
  ao_r :: bytes
  ao_rWitness :: bytes
  ao_rCommitments :: "ID \<rightharpoonup> bytes"

definition aor_NewParticipant ::
  "xof \<Rightarrow> ID \<Rightarrow> ID hset option \<Rightarrow> int \<Rightarrow> transcript option \<Rightarrow> bytes option \<Rightarrow> AORParticipant res" where
  "aor_NewParticipant xof i quorum sz tape prng = (case (tape, prng, quorum) of
     (Some t, Some bs, Some Q) \<Rightarrow>
       if sz \<le> 0 \<or> \<not> hs_Contains Q i then Inl ErrInvalidArgument
       else rbind (AppendDomainSeparator t (str_bytes aor_transcriptLabel)) (\<lambda>t.
         rbind (AppendBytes t (str_bytes aor_sizeLabel) [le64 (word_of_int sz)]) (\<lambda>t.
         rbind (hc_ExtractCommitmentKey xof (Some t) (str_bytes aor_commitmentKeyLabel)) (\<lambda>(key, t).
         Inr \<lparr>ao_id = i, ao_size = nat sz, ao_quorum = Q, ao_round = 1, ao_tape = t, ao_commitmentKey = key, ao_prng = bs,
              ao_r = [], ao_rWitness = zero32, ao_rCommitments = Map.empty\<rparr>)))
   | _ \<Rightarrow> Inl ErrInvalidArgument)"

text \<open>The first message carries the commitment, the second one the message and the witness.\<close>

definition ao1_Validate :: "AORParticipant \<Rightarrow> ID \<Rightarrow> bytes option \<Rightarrow> unit res" where
  "ao1_Validate p j m = (case m of None \<Rightarrow> Inl ErrValidation
     | Some c \<Rightarrow> if c = zero32 then Inl ErrValidation else Inr ())"

record AORRound2 =
  ao2_Message :: bytes
  ao2_Witness :: bytes

definition ao2_Validate :: "AORParticipant \<Rightarrow> ID \<Rightarrow> AORRound2 option \<Rightarrow> unit res" where
  "ao2_Validate p j m = (case m of None \<Rightarrow> Inl ErrValidation
     | Some b \<Rightarrow> if length (ao2_Message b) \<noteq> ao_size p then Inl ErrValidation
         else if SliceIsZero False (ao2_Message b) = 1 then Inl ErrValidation
         else if ao2_Witness b = zero32 then Inl ErrValidation else Inr ())"

text \<open>The validated messages, in the order of the quorum.\<close>

definition validateIncomingBroadcastMessages ::
  "(AORParticipant \<Rightarrow> ID \<Rightarrow> 'm option \<Rightarrow> unit res) \<Rightarrow> AORParticipant \<Rightarrow> int \<Rightarrow> (ID \<rightharpoonup> 'm option) \<Rightarrow> (ID \<times> 'm) list res" where
  "validateIncomingBroadcastMessages validate p rIn uIn =
     (if rIn \<noteq> ao_round p then Inl ErrRound
      else MapOrError (\<lambda>j. case uIn j of None \<Rightarrow> Inl ErrFailed
        | Some u \<Rightarrow> (case validate p j u of Inl e \<Rightarrow> Inl (Blame j e)
            | Inr _ \<Rightarrow> (case u of None \<Rightarrow> Inl Panic | Some m \<Rightarrow> Inr (j, m))))
        (filter (\<lambda>j. j \<noteq> ao_id p) (ao_quorum p)))"

section \<open>Rounds\<close>

definition aor_Round1 :: "(bytes \<Rightarrow> bytes \<Rightarrow> bytes) \<Rightarrow> AORParticipant \<Rightarrow> (bytes \<times> AORParticipant) res" where
  "aor_Round1 hash p =
     (if ao_round p \<noteq> 1 then Inl ErrRound
      else rbind (draw (ao_size p) (ao_prng p)) (\<lambda>(r, prng).
        rbind (hc_Commit hash (ao_commitmentKey p) r prng) (\<lambda>(c, w, prng).
        Inr (c, p\<lparr>ao_prng := prng, ao_r := r, ao_rWitness := w, ao_rCommitments := [ao_id p \<mapsto> c], ao_round := ao_round p + 1\<rparr>))))"

definition writeCommitmentsToTranscript :: "AORParticipant \<Rightarrow> AORParticipant res" where
  "writeCommitmentsToTranscript p =
     rbind (FoldOrError (\<lambda>t j. AppendBytes t (str_bytes aor_commitmentLabel) [le64 j, bytes_at32 (ao_rCommitments p) j])
       (ao_tape p) (sort (hs_List (ao_quorum p)))) (\<lambda>t. Inr (p\<lparr>ao_tape := t\<rparr>))"

definition aor_Round2 :: "AORParticipant \<Rightarrow> (ID \<rightharpoonup> bytes option) \<Rightarrow> (AORRound2 \<times> AORParticipant) res" where
  "aor_Round2 p r1 =
     rbind (validateIncomingBroadcastMessages ao1_Validate p 2 r1) (\<lambda>incomingMessages.
     rbind (writeCommitmentsToTranscript (p\<lparr>ao_rCommitments := fold (\<lambda>(j, c) m. m(j \<mapsto> c)) incomingMessages (ao_rCommitments p)\<rparr>)) (\<lambda>p.
     Inr (\<lparr>ao2_Message = ao_r p, ao2_Witness = ao_rWitness p\<rparr>, p\<lparr>ao_round := ao_round p + 1\<rparr>)))"

text \<open>The strings are added in place, so the sampled string of the state is overwritten by the output.\<close>

definition aor_Round3 :: "(bytes \<Rightarrow> bytes \<Rightarrow> bytes) \<Rightarrow> AORParticipant \<Rightarrow> (ID \<rightharpoonup> AORRound2 option) \<Rightarrow> (bytes \<times> AORParticipant) res" where
  "aor_Round3 hash p r2 =
     rbind (validateIncomingBroadcastMessages ao2_Validate p 3 r2) (\<lambda>incomingMessages.
     rbind (FoldOrError (\<lambda>r (j, m).
         case hc_Open hash (ao_commitmentKey p) (Some (bytes_at32 (ao_rCommitments p) j)) (Some (ao2_Message m)) (Some (ao2_Witness m)) of
           Inl _ \<Rightarrow> Inl (Blame j ErrAbort) | Inr _ \<Rightarrow> Inr (XORBytes r r (ao2_Message m))) (ao_r p) incomingMessages) (\<lambda>r.
     Inr (r, p\<lparr>ao_r := r, ao_round := ao_round p + 1\<rparr>)))"

text \<open>The runner over a router; messages are pointers on the wire.\<close>

definition aor_Run ::
  "(bytes \<Rightarrow> bytes \<Rightarrow> bytes) \<Rightarrow> bytes option echo_codec \<Rightarrow> AORRound2 option echo_codec \<Rightarrow> AORParticipant \<Rightarrow> Router \<Rightarrow> Router \<times> bytes res" where
  "aor_Run hash k1 k2 p rt =
     then_do (rt, aor_Round1 hash p) (\<lambda>rt (r1Out, p).
     then_do (BroadcastExchange k1 rt ''AgreeOnRandomRound1Broadcast'' (Some (ao_quorum p)) (Some r1Out)) (\<lambda>rt r2In.
     then_do (rt, aor_Round2 p (map_of r2In)) (\<lambda>rt (r2Out, p).
     then_do (BroadcastExchange k2 rt ''AgreeOnRandomRound2Broadcast'' (Some (ao_quorum p)) (Some r2Out)) (\<lambda>rt r3In.
     then_do (rt, aor_Round3 hash p (map_of r3In)) (\<lambda>rt (sample, p).
     (rt, Inr sample))))))"

section \<open>What the rounds compute\<close>

abbreviation others :: "AORParticipant \<Rightarrow> ID list" where
  "others p \<equiv> filter (\<lambda>j. j \<noteq> ao_id p) (ao_quorum p)"

lemma incoming_iff:
  "validateIncomingBroadcastMessages validate p n u = Inr ms \<longleftrightarrow> n = ao_round p \<and>
     (\<exists>f. ms = map (\<lambda>j. (j, f j)) (others p) \<and> (\<forall>j\<in>set (others p). u j = Some (Some (f j)) \<and> validate p j (Some (f j)) = Inr ()))"
  (is "?L \<longleftrightarrow> ?R")
proof
  assume L: ?L
  let ?g = "\<lambda>j. case u j of None \<Rightarrow> Inl ErrFailed
        | Some u \<Rightarrow> (case validate p j u of Inl e \<Rightarrow> Inl (Blame j e) | Inr _ \<Rightarrow> (case u of None \<Rightarrow> Inl Panic | Some m \<Rightarrow> Inr (j, m)))"
  from L have n: "n = ao_round p" and g: "MapOrError ?g (others p) = Inr ms"
    by (auto simp: validateIncomingBroadcastMessages_def split: if_splits)
  have step: "\<exists>m. y = (j, m) \<and> u j = Some (Some m) \<and> validate p j (Some m) = Inr ()" if "?g j = Inr y" for j y
    using that by (auto split: option.splits sum.splits)
  define P where "P j m \<longleftrightarrow> ?g j = Inr (j, m) \<and> u j = Some (Some m) \<and> validate p j (Some m) = Inr ()" for j m
  have "\<exists>m. P j m" if j: "j \<in> set (others p)" for j
  proof -
    obtain i where i: "i < length (others p)" "others p ! i = j" using j by (meson in_set_conv_nth)
    have gj: "?g j = Inr (ms ! i)" using list_all2_nthD [OF g [unfolded MapOrError_Inr_iff] i(1)] unfolding i(2) .
    then obtain m where "ms ! i = (j, m)" "u j = Some (Some m)" "validate p j (Some m) = Inr ()" using step [OF gj] by blast
    then show ?thesis by (simp add: P_def)
  qed
  then obtain f where f: "\<forall>j\<in>set (others p). P j (f j)" by metis
  have "MapOrError ?g (others p) = Inr (map (\<lambda>j. (j, f j)) (others p))"
    by (rule MapOrError_ok) (use f [unfolded P_def] in blast)
  with g have "ms = map (\<lambda>j. (j, f j)) (others p)" by simp
  with n f show ?R unfolding P_def by blast
next
  assume ?R
  then show ?L by (auto simp: validateIncomingBroadcastMessages_def intro!: MapOrError_ok)
qed

lemma fold_entries: "fold (\<lambda>(j, c) m. m(j \<mapsto> c)) (map (\<lambda>j. (j, f j)) js) m0 = (\<lambda>k. if k \<in> set js then Some (f k) else m0 k)"
  by (induction js arbitrary: m0) auto

text \<open>After the second round the party holds the commitments that were broadcast; nothing else of its state that matters has changed.\<close>

lemma Round1_state:
  assumes "aor_Round1 hash p = Inr (c, q)"
  shows "length (ao_r q) = ao_size p" "c = hash (ao_commitmentKey p) (ao_r q @ ao_rWitness q)" "length (ao_rWitness q) = 32"
    "ao_rCommitments q = [ao_id p \<mapsto> c]" "ao_id q = ao_id p" "ao_quorum q = ao_quorum p" "ao_size q = ao_size p" "ao_tape q = ao_tape p"
    "ao_commitmentKey q = ao_commitmentKey p" "ao_round q = 2"
  using assms
  by (auto simp: aor_Round1_def rbind_eq_Inr_iff draw_Inr_iff hc_Commit_def Commit_def hc_SampleWitness_def hc_CommitWithWitness_def split: if_splits option.splits)

lemma Round2_state:
  assumes "aor_Round2 p b1 = Inr (m, q)"
  shows "ao_id q = ao_id p" "ao_quorum q = ao_quorum p" "ao_size q = ao_size p" "ao_commitmentKey q = ao_commitmentKey p" "ao_r q = ao_r p"
    "ao_round p = 2" "ao_round q = 3" "m = \<lparr>ao2_Message = ao_r p, ao2_Witness = ao_rWitness p\<rparr>"
    "\<exists>f. (\<forall>j\<in>set (others p). b1 j = Some (Some (f j)) \<and> f j \<noteq> zero32) \<and>
       ao_rCommitments q = (\<lambda>k. if k \<in> set (others p) then Some (f k) else ao_rCommitments p k) \<and>
       FoldOrError (\<lambda>t j. AppendBytes t (str_bytes aor_commitmentLabel) [le64 j, bytes_at32 (ao_rCommitments q) j]) (ao_tape p) (sort (hs_List (ao_quorum p))) = Inr (ao_tape q)"
  using assms
  by (auto simp: aor_Round2_def writeCommitmentsToTranscript_def rbind_eq_Inr_iff incoming_iff fold_entries ao1_Validate_def split: if_splits)

lemma open_loop:
  assumes "FoldOrError (\<lambda>r (j, m). case hc_Open hash k (Some (C j)) (Some (ao2_Message m)) (Some (ao2_Witness m)) of
      Inl _ \<Rightarrow> Inl (Blame j ErrAbort) | Inr _ \<Rightarrow> Inr (XORBytes r r (ao2_Message m))) r (map (\<lambda>j. (j, f j)) js) = Inr r'"
  shows "r' = fold (\<lambda>e acc. XORBytes acc acc e) (map (\<lambda>j. ao2_Message (f j)) js) r \<and>
    (\<forall>j\<in>set js. hc_Open hash k (Some (C j)) (Some (ao2_Message (f j))) (Some (ao2_Witness (f j))) = Inr ())"
  using assms by (induction js arbitrary: r) (auto simp: rbind_eq_Inr_iff split: sum.splits)

lemma Round3_state:
  assumes "aor_Round3 hash p b2 = Inr (out, q)" and r: "length (ao_r p) = ao_size p"
  shows "ao_round p = 3" "length out = ao_size p"
    "\<exists>f. (\<forall>j\<in>set (others p). b2 j = Some (Some (f j)) \<and>
        hc_Open hash (ao_commitmentKey p) (Some (bytes_at32 (ao_rCommitments p) j)) (Some (ao2_Message (f j))) (Some (ao2_Witness (f j))) = Inr ()) \<and>
      (\<forall>k<ao_size p. out ! k = ao_r p ! k XOR xorl (map (\<lambda>j. ao2_Message (f j)) (others p)) k)"
proof -
  from assms(1) obtain f where rd: "ao_round p = 3" and f: "\<forall>j\<in>set (others p). b2 j = Some (Some (f j)) \<and> ao2_Validate p j (Some (f j)) = Inr ()"
    and loop: "FoldOrError (\<lambda>r (j, m). case hc_Open hash (ao_commitmentKey p) (Some (bytes_at32 (ao_rCommitments p) j)) (Some (ao2_Message m)) (Some (ao2_Witness m)) of
      Inl _ \<Rightarrow> Inl (Blame j ErrAbort) | Inr _ \<Rightarrow> Inr (XORBytes r r (ao2_Message m))) (ao_r p) (map (\<lambda>j. (j, f j)) (others p)) = Inr out"
    by (auto simp: aor_Round3_def rbind_eq_Inr_iff incoming_iff)
  have "\<forall>e\<in>set (map (\<lambda>j. ao2_Message (f j)) (others p)). length e = ao_size p" using f by (auto simp: ao2_Validate_def split: if_splits)
  note x = fold_XORBytes [OF r this] and o = open_loop [OF loop]
  show "ao_round p = 3" "length out = ao_size p" using rd x o by simp_all
  show "\<exists>f. (\<forall>j\<in>set (others p). b2 j = Some (Some (f j)) \<and>
        hc_Open hash (ao_commitmentKey p) (Some (bytes_at32 (ao_rCommitments p) j)) (Some (ao2_Message (f j))) (Some (ao2_Witness (f j))) = Inr ()) \<and>
      (\<forall>k<ao_size p. out ! k = ao_r p ! k XOR xorl (map (\<lambda>j. ao2_Message (f j)) (others p)) k)"
    by (rule exI [of _ f]) (use f x o in simp)
qed

section \<open>A run\<close>

text \<open>A party that runs the rounds on the broadcasts \<open>b1\<close> and \<open>b2\<close> it receives: what it sends, its output and its transcript.\<close>

record AORTrace =
  at_c :: bytes
  at_o :: AORRound2
  at_out :: bytes
  at_tape :: transcript

definition aor_rounds ::
  "(bytes \<Rightarrow> bytes \<Rightarrow> bytes) \<Rightarrow> AORParticipant \<Rightarrow> (ID \<rightharpoonup> bytes option) \<Rightarrow> (ID \<rightharpoonup> AORRound2 option) \<Rightarrow> AORTrace res" where
  "aor_rounds hash p b1 b2 =
     rbind (aor_Round1 hash p) (\<lambda>(c, p).
     rbind (aor_Round2 p b1) (\<lambda>(m, p).
     rbind (aor_Round3 hash p b2) (\<lambda>(out, p).
     Inr \<lparr>at_c = c, at_o = m, at_out = out, at_tape = ao_tape p\<rparr>)))"

lemma aor_Run_rounds:
  assumes "aor_Run hash k1 k2 p rt = (rt', Inr out)"
  shows "\<exists>b1 b2 t. aor_rounds hash p b1 b2 = Inr t \<and> at_out t = out"
proof -
  from assms obtain c p1 b1 m p2 b2 p3 where "aor_Round1 hash p = Inr (c, p1)" "aor_Round2 p1 (map_of b1) = Inr (m, p2)"
    "aor_Round3 hash p2 (map_of b2) = Inr (out, p3)" by (auto simp: aor_Run_def then_do_Inr)
  then have "aor_rounds hash p (map_of b1) (map_of b2) = Inr \<lparr>at_c = c, at_o = m, at_out = out, at_tape = ao_tape p3\<rparr>" by (simp add: aor_rounds_def)
  then show ?thesis by (metis AORTrace.select_convs(3))
qed

text \<open>The output is the exclusive or of the strings of all members, each of which opens the commitment its sender broadcast.\<close>

lemma xorl_member:
  assumes "distinct Q" "i \<in> set Q"
  shows "xorl (map f Q) k = f i ! k XOR xorl (map f (filter (\<lambda>j. j \<noteq> i) Q)) k"
  using assms
proof (induction Q)
  case (Cons a Q)
  show ?case
  proof (cases "a = i")
    case True
    then have "filter (\<lambda>j. j \<noteq> i) Q = Q" using Cons.prems(1) by (auto simp: filter_id_conv)
    with True show ?thesis by simp
  qed (use Cons in \<open>simp add: xor.left_commute\<close>)
qed simp

lemma aor_rounds_ok:
  assumes run: "aor_rounds hash p b1 b2 = Inr t" and Q: "distinct (ao_quorum p)" "ao_id p \<in> set (ao_quorum p)"
    and v1: "\<And>j. j \<in> set (ao_quorum p) \<Longrightarrow> j \<noteq> ao_id p \<Longrightarrow> b1 j = Some (Some (v1 j))" "v1 (ao_id p) = at_c t"
    and v2: "\<And>j. j \<in> set (ao_quorum p) \<Longrightarrow> j \<noteq> ao_id p \<Longrightarrow> b2 j = Some (Some (v2 j))" "v2 (ao_id p) = at_o t"
  shows "length (at_out t) = ao_size p" "\<And>k. k < ao_size p \<Longrightarrow> at_out t ! k = xorl (map (\<lambda>j. ao2_Message (v2 j)) (ao_quorum p)) k"
    "\<And>j. j \<in> set (ao_quorum p) \<Longrightarrow> hc_Open hash (ao_commitmentKey p) (Some (v1 j)) (Some (ao2_Message (v2 j))) (Some (ao2_Witness (v2 j))) = Inr ()"
    "FoldOrError (\<lambda>t j. AppendBytes t (str_bytes aor_commitmentLabel) [le64 j, v1 j]) (ao_tape p) (sort (hs_List (ao_quorum p))) = Inr (at_tape t)"
proof -
  from run obtain p1 p2 p3 where r1: "aor_Round1 hash p = Inr (at_c t, p1)" and r2: "aor_Round2 p1 b1 = Inr (at_o t, p2)"
    and r3: "aor_Round3 hash p2 b2 = Inr (at_out t, p3)" and tape: "at_tape t = ao_tape p2"
    by (auto simp: aor_rounds_def rbind_eq_Inr_iff aor_Round3_def)
  note s1 = Round1_state [OF r1] and s2 = Round2_state [OF r2]
  have oth: "set (others p) = {j \<in> set (ao_quorum p). j \<noteq> ao_id p}" by auto
  from s2(9) obtain f where f: "\<forall>j\<in>set (others p1). b1 j = Some (Some (f j))"
    "ao_rCommitments p2 = (\<lambda>k. if k \<in> set (others p1) then Some (f k) else ao_rCommitments p1 k)"
    "FoldOrError (\<lambda>t j. AppendBytes t (str_bytes aor_commitmentLabel) [le64 j, bytes_at32 (ao_rCommitments p2) j]) (ao_tape p1) (sort (hs_List (ao_quorum p1))) = Inr (ao_tape p2)"
    by blast
  have com: "bytes_at32 (ao_rCommitments p2) j = v1 j" if "j \<in> set (ao_quorum p)" for j
    using that f(1,2) s1 v1 by (cases "j = ao_id p") (auto simp: bytes_at32_def)
  have len: "length (ao_r p2) = ao_size p2" using s1 s2 by simp
  note s3 = Round3_state [OF r3 len]
  from s3(3) obtain g where g: "\<forall>j\<in>set (others p2). b2 j = Some (Some (g j)) \<and>
        hc_Open hash (ao_commitmentKey p2) (Some (bytes_at32 (ao_rCommitments p2) j)) (Some (ao2_Message (g j))) (Some (ao2_Witness (g j))) = Inr ()"
    "\<forall>k<ao_size p2. at_out t ! k = ao_r p2 ! k XOR xorl (map (\<lambda>j. ao2_Message (g j)) (others p2)) k" by blast
  have ids: "others p2 = others p" "ao_commitmentKey p2 = ao_commitmentKey p" using s1 s2 by simp_all
  have gv: "g j = v2 j" if "j \<in> set (others p)" for j using g(1) v2(1) that s1 s2 by auto
  have own: "v2 (ao_id p) = \<lparr>ao2_Message = ao_r p2, ao2_Witness = ao_rWitness p1\<rparr>" using v2(2) s2 by simp
  show "length (at_out t) = ao_size p" using s3(2) s1 s2 by simp
  show "at_out t ! k = xorl (map (\<lambda>j. ao2_Message (v2 j)) (ao_quorum p)) k" if "k < ao_size p" for k
  proof -
    have eq: "map (\<lambda>j. ao2_Message (g j)) (others p) = map (\<lambda>j. ao2_Message (v2 j)) (others p)" by (rule map_cong [OF refl]) (use gv in simp)
    have "at_out t ! k = ao_r p2 ! k XOR xorl (map (\<lambda>j. ao2_Message (g j)) (others p)) k" using g(2) that s1 s2 by simp
    then show ?thesis unfolding eq using xorl_member [OF Q, of "\<lambda>j. ao2_Message (v2 j)" k] own by simp
  qed
  show "hc_Open hash (ao_commitmentKey p) (Some (v1 j)) (Some (ao2_Message (v2 j))) (Some (ao2_Witness (v2 j))) = Inr ()" if "j \<in> set (ao_quorum p)" for j
  proof (cases "j = ao_id p")
    case True
    then show ?thesis using own v1(2) s1 s2 by (simp add: hc.open_iff hc_CommitWithWitness_def)
  next
    case False
    then have j: "j \<in> set (others p)" using that by simp
    have "b2 j = Some (Some (g j)) \<and> hc_Open hash (ao_commitmentKey p) (Some (v1 j)) (Some (ao2_Message (g j))) (Some (ao2_Witness (g j))) = Inr ()"
      using bspec [OF g(1) [unfolded ids] j] com [OF that] by simp
    then show ?thesis using gv [OF j] by simp
  qed
  have "FoldOrError (\<lambda>t j. AppendBytes t (str_bytes aor_commitmentLabel) [le64 j, v1 j]) (ao_tape p) (sort (hs_List (ao_quorum p))) =
      FoldOrError (\<lambda>t j. AppendBytes t (str_bytes aor_commitmentLabel) [le64 j, bytes_at32 (ao_rCommitments p2) j]) (ao_tape p) (sort (hs_List (ao_quorum p)))"
    by (rule FoldOrError_cong) (simp add: hs_List_def com)
  then show "FoldOrError (\<lambda>t j. AppendBytes t (str_bytes aor_commitmentLabel) [le64 j, v1 j]) (ao_tape p) (sort (hs_List (ao_quorum p))) = Inr (at_tape t)"
    using f(3) s1 tape by simp
qed

lemma aor_rounds_views:
  assumes "aor_rounds hash p b1 b2 = Inr t"
  shows "\<exists>v1 v2. (\<forall>j\<in>set (others p). b1 j = Some (Some (v1 j)) \<and> b2 j = Some (Some (v2 j)) \<and> length (ao2_Message (v2 j)) = ao_size p) \<and>
    v1 (ao_id p) = at_c t \<and> v2 (ao_id p) = at_o t \<and> length (ao2_Message (at_o t)) = ao_size p"
proof -
  from assms obtain p1 p2 p3 where r1: "aor_Round1 hash p = Inr (at_c t, p1)" and r2: "aor_Round2 p1 b1 = Inr (at_o t, p2)"
    and r3: "aor_Round3 hash p2 b2 = Inr (at_out t, p3)" by (auto simp: aor_rounds_def rbind_eq_Inr_iff)
  note s1 = Round1_state [OF r1] and s2 = Round2_state [OF r2]
  have ids: "others p1 = others p" "others p2 = others p" "ao_size p2 = ao_size p" using s1 s2 by simp_all
  from s2(9) obtain f where f: "\<forall>j\<in>set (others p). b1 j = Some (Some (f j))" unfolding ids by blast
  from r3 obtain g where g: "\<forall>j\<in>set (others p). b2 j = Some (Some (g j)) \<and> ao2_Validate p2 j (Some (g j)) = Inr ()"
    by (auto simp: aor_Round3_def rbind_eq_Inr_iff incoming_iff ids)
  then have "\<forall>j\<in>set (others p). length (ao2_Message (g j)) = ao_size p" by (auto simp: ao2_Validate_def ids split: if_splits)
  with f g s1 s2 show ?thesis by (intro exI [of _ "f(ao_id p := at_c t)"] exI [of _ "g(ao_id p := at_o t)"]) simp
qed

lemma aor_New_fields:
  assumes "aor_NewParticipant xof i (Some Q) sz (Some tape) (Some prng) = Inr p"
  shows "ao_id p = i" "ao_quorum p = Q" "ao_size p = nat sz" "i \<in> set Q"
  using assms by (auto simp: aor_NewParticipant_def rbind_eq_Inr_iff split: if_splits)

lemma aor_New_same:
  assumes "aor_NewParticipant xof i (Some Q) sz (Some tape) (Some prng) = Inr p" "aor_NewParticipant xof j (Some Q) sz (Some tape) (Some prng') = Inr q"
  shows "ao_commitmentKey q = ao_commitmentKey p \<and> ao_tape q = ao_tape p"
  using assms by (auto simp: aor_NewParticipant_def rbind_eq_Inr_iff split: if_splits)

lemma singleton_list:
  assumes "distinct xs" "set xs = {a}"
  shows "xs = [a]"
proof (cases xs)
  case (Cons x ys)
  then show ?thesis using assms by (cases ys) auto
qed (use assms in simp)

section \<open>Properties\<close>

text \<open>C15. Agreement on randomness: two honest parties that start with the same transcript and saw the same broadcasts, their own as they sent
  them, end with the same string, the exclusive or of the strings of all members, and with the same transcript.\<close>

theorem aor_agreement:
  assumes Q: "hs_wf Q"
    and p: "aor_NewParticipant xof i (Some Q) sz (Some tape) (Some prng) = Inr p" "aor_rounds hash p b1 b2 = Inr tp"
    and q: "aor_NewParticipant xof j (Some Q) sz (Some tape) (Some prng') = Inr q" "aor_rounds hash q b1' b2' = Inr tq"
    and vp: "\<And>k. k \<in> set Q \<Longrightarrow> k \<noteq> i \<Longrightarrow> b1 k = Some (Some (v1 k)) \<and> b2 k = Some (Some (v2 k))"
    and vq: "\<And>k. k \<in> set Q \<Longrightarrow> k \<noteq> j \<Longrightarrow> b1' k = Some (Some (v1 k)) \<and> b2' k = Some (Some (v2 k))"
    and own: "v1 i = at_c tp" "v2 i = at_o tp" "v1 j = at_c tq" "v2 j = at_o tq"
  shows "at_out tp = at_out tq \<and> at_tape tp = at_tape tq \<and> length (at_out tp) = nat sz \<and>
    (\<forall>k < nat sz. at_out tp ! k = xorl (map (\<lambda>j. ao2_Message (v2 j)) Q) k)"
proof -
  note fp = aor_New_fields [OF p(1)] and fq = aor_New_fields [OF q(1)] and same = aor_New_same [OF p(1) q(1)]
  have d: "distinct Q" using Q by (simp add: hs_wf_def)
  note op = aor_rounds_ok [OF p(2), unfolded fp, OF d fp(4), of v1 v2] and oq = aor_rounds_ok [OF q(2), unfolded fq, OF d fq(4), of v1 v2]
  have P: "length (at_out tp) = nat sz" "\<And>k. k < nat sz \<Longrightarrow> at_out tp ! k = xorl (map (\<lambda>j. ao2_Message (v2 j)) Q) k"
    "FoldOrError (\<lambda>t j. AppendBytes t (str_bytes aor_commitmentLabel) [le64 j, v1 j]) (ao_tape p) (sort (hs_List Q)) = Inr (at_tape tp)"
    using op vp own by blast+
  have R: "length (at_out tq) = nat sz" "\<And>k. k < nat sz \<Longrightarrow> at_out tq ! k = xorl (map (\<lambda>j. ao2_Message (v2 j)) Q) k"
    "FoldOrError (\<lambda>t j. AppendBytes t (str_bytes aor_commitmentLabel) [le64 j, v1 j]) (ao_tape q) (sort (hs_List Q)) = Inr (at_tape tq)"
    using oq vq own by blast+
  have "at_out tp = at_out tq" by (rule nth_equalityI) (use P(1,2) R(1,2) in simp_all)
  with P R same show ?thesis by simp
qed

text \<open>C16. No choice after the commitments: if a party could end with two different strings after the same first-round broadcasts, whatever the
  others open in the second round, then some other member opened its one commitment in two ways: the two openings it sent carry different
  messages, both hash to the commitment it had broadcast, and so they are a collision of the keyed hash.\<close>

theorem aor_binding:
  assumes Q: "hs_wf (ao_quorum p)" "ao_id p \<in> set (ao_quorum p)"
    and run: "aor_rounds hash p b1 b2 = Inr t" "aor_rounds hash p b1 b2' = Inr t'" and ne: "at_out t \<noteq> at_out t'"
  shows "\<exists>j\<in>set (ao_quorum p) - {ao_id p}. \<exists>c m m'. b1 j = Some (Some c) \<and> b2 j = Some (Some m) \<and> b2' j = Some (Some m') \<and>
    ao2_Message m \<noteq> ao2_Message m' \<and> ao2_Message m @ ao2_Witness m \<noteq> ao2_Message m' @ ao2_Witness m' \<and>
    hash (ao_commitmentKey p) (ao2_Message m @ ao2_Witness m) = c \<and> hash (ao_commitmentKey p) (ao2_Message m' @ ao2_Witness m') = c"
proof -
  have d: "distinct (ao_quorum p)" using Q by (simp add: hs_wf_def)
  obtain v1 v2 where v: "\<forall>j\<in>set (others p). b1 j = Some (Some (v1 j)) \<and> b2 j = Some (Some (v2 j)) \<and> length (ao2_Message (v2 j)) = ao_size p"
    "v1 (ao_id p) = at_c t" "v2 (ao_id p) = at_o t" "length (ao2_Message (at_o t)) = ao_size p" using aor_rounds_views [OF run(1)] by blast
  obtain w1 w2 where w: "\<forall>j\<in>set (others p). b1 j = Some (Some (w1 j)) \<and> b2' j = Some (Some (w2 j)) \<and> length (ao2_Message (w2 j)) = ao_size p"
    "w1 (ao_id p) = at_c t'" "w2 (ao_id p) = at_o t'" "length (ao2_Message (at_o t')) = ao_size p" using aor_rounds_views [OF run(2)] by blast
  have own: "at_c t = at_c t'" "at_o t = at_o t'" using run by (auto simp: aor_rounds_def rbind_eq_Inr_iff)
  note o1 = aor_rounds_ok [OF run(1) d Q(2), of v1 v2] and o2 = aor_rounds_ok [OF run(2) d Q(2), of w1 w2]
  have v1: "v1 j = w1 j" "length (ao2_Message (v2 j)) = ao_size p" "length (ao2_Message (w2 j)) = ao_size p" if "j \<in> set (ao_quorum p)" for j
    using v w own that by (cases "j = ao_id p"; auto)+
  have out: "length (at_out t) = ao_size p" "length (at_out t') = ao_size p"
    "\<And>k. k < ao_size p \<Longrightarrow> at_out t ! k = xorl (map (\<lambda>j. ao2_Message (v2 j)) (ao_quorum p)) k"
    "\<And>k. k < ao_size p \<Longrightarrow> at_out t' ! k = xorl (map (\<lambda>j. ao2_Message (w2 j)) (ao_quorum p)) k"
    using o1(1,2) o2(1,2) v w by auto
  have "\<exists>j\<in>set (ao_quorum p). ao2_Message (v2 j) \<noteq> ao2_Message (w2 j)"
  proof (rule ccontr)
    assume "\<not> (\<exists>j\<in>set (ao_quorum p). ao2_Message (v2 j) \<noteq> ao2_Message (w2 j))"
    then have eq: "map (\<lambda>j. ao2_Message (v2 j)) (ao_quorum p) = map (\<lambda>j. ao2_Message (w2 j)) (ao_quorum p)" by simp
    have "at_out t ! k = at_out t' ! k" if "k < ao_size p" for k using out(3) [OF that] out(4) [OF that] unfolding eq by simp
    then have "at_out t = at_out t'" by (intro nth_equalityI) (use out(1,2) in simp_all)
    with ne show False by blast
  qed
  then obtain j where j: "j \<in> set (ao_quorum p)" "ao2_Message (v2 j) \<noteq> ao2_Message (w2 j)" by blast
  then have o: "j \<in> set (others p)" using v(3) w(3) own(2) by auto
  have "hash (ao_commitmentKey p) (ao2_Message (v2 j) @ ao2_Witness (v2 j)) = v1 j" using o1(3) [OF _ v(2) _ v(3) j(1)] v by (auto simp: hc.open_iff hc_CommitWithWitness_def)
  moreover have "hash (ao_commitmentKey p) (ao2_Message (w2 j) @ ao2_Witness (w2 j)) = v1 j" using o2(3) [OF _ w(2) _ w(3) j(1)] w v1(1) [OF j(1)] by (auto simp: hc.open_iff hc_CommitWithWitness_def)
  moreover have "ao2_Message (v2 j) @ ao2_Witness (v2 j) \<noteq> ao2_Message (w2 j) @ ao2_Witness (w2 j)" using j(2) v1(2,3) [OF j(1)] by simp
  moreover have "b1 j = Some (Some (v1 j))" "b2 j = Some (Some (v2 j))" "b2' j = Some (Some (w2 j))" using v(1) w(1) o by auto
  ultimately show ?thesis using o j(2) by (intro bexI [of _ j] exI [of _ "v1 j"] exI [of _ "v2 j"] exI [of _ "w2 j"]) simp_all
qed

text \<open>C17. The commitments do not name their sender: in a quorum of two, a peer that repeats the commitment and then the opening of the honest
  party passes every check and makes that party, once its first two rounds succeed on that commitment, end with the string of zeros, for every string it
  sampled other than zero bytes only. If the
  sampled string (or the witness) is zero bytes only, the validation rejects the copied opening and the peer is blamed.\<close>

theorem aor_copied_opening:
  assumes p: "hs_wf (ao_quorum p)" "set (ao_quorum p) = {ao_id p, j}" "j \<noteq> ao_id p"
    and r1: "aor_Round1 hash p = Inr (c, p1)" and r2: "aor_Round2 p1 [j \<mapsto> Some c] = Inr (m, p2)"
  shows "if (\<forall>x\<in>set (ao2_Message m). x = 0) \<or> ao2_Witness m = zero32
    then aor_Round3 hash p2 [j \<mapsto> Some m] = Inl (Blame j ErrValidation)
    else \<exists>p3. aor_Round3 hash p2 [j \<mapsto> Some m] = Inr (replicate (ao_size p) 0, p3)"
proof -
  note s1 = Round1_state [OF r1] and s2 = Round2_state [OF r2]
  have oth: "others p2 = [j]"
  proof -
    have "distinct (others p)" "set (others p) = {j}" using p by (auto simp: hs_wf_def)
    then have "others p = [j]" by (rule singleton_list)
    then show ?thesis using s1 s2 by simp
  qed
  have "others p1 = [j]" using oth s1 s2 by simp
  then obtain f where "[j \<mapsto> Some c] j = Some (Some (f j))" "ao_rCommitments p2 j = Some (f j)" using s2(9) by auto
  then have com: "bytes_at32 (ao_rCommitments p2) j = c" by (simp add: bytes_at32_def)
  have opn: "hc_Open hash (ao_commitmentKey p2) (Some c) (Some (ao2_Message m)) (Some (ao2_Witness m)) = Inr ()"
    using s1 s2 by (simp add: hc.open_iff hc_CommitWithWitness_def)
  have val: "ao2_Validate p2 j (Some m) = (if (\<forall>x\<in>set (ao2_Message m). x = 0) \<or> ao2_Witness m = zero32 then Inl ErrValidation else Inr ())"
    using s1 s2 by (simp add: ao2_Validate_def SliceIsZero_eq)
  have inc: "validateIncomingBroadcastMessages ao2_Validate p2 3 [j \<mapsto> Some m] =
      (if (\<forall>x\<in>set (ao2_Message m). x = 0) \<or> ao2_Witness m = zero32 then Inl (Blame j ErrValidation) else Inr [(j, m)])"
    unfolding validateIncomingBroadcastMessages_def oth using s2(7) by (simp add: val)
  have "XORBytes (ao_r p2) (ao_r p2) (ao2_Message m) = replicate (ao_size p) 0" using s1 s2 by (intro nth_equalityI) simp_all
  then show ?thesis using com opn inc by (simp add: aor_Round3_def)
qed

section \<open>Witnesses\<close>

text \<open>Two parties that agree on one byte; the hash is the length for the collision and a prefix of the input otherwise.\<close>

definition demo_hash :: "bytes \<Rightarrow> bytes \<Rightarrow> bytes" where
  "demo_hash k x = take 32 (x @ replicate 32 1)"

definition demo_aor :: "ID \<Rightarrow> bytes \<Rightarrow> AORParticipant" where
  "demo_aor i bs = projr (aor_NewParticipant (\<lambda>_ _ _. 3) i (Some [1, 2]) 1 (Some (NewTranscript ''t'')) (Some bs))"

definition demo_open :: "byte \<Rightarrow> AORRound2" where
  "demo_open x = \<lparr>ao2_Message = [x], ao2_Witness = replicate 32 7\<rparr>"

lemma demo_new: "aor_NewParticipant (\<lambda>_ _ _. 3) i (Some [1, 2]) 1 (Some (NewTranscript ''t'')) (Some bs) = Inr (demo_aor i bs)" if "i = 1 \<or> i = 2"
  using that by (auto simp: demo_aor_def aor_NewParticipant_def NewTranscript_def NewCSHAKE256_def AppendDomainSeparator_def AppendBytes_def
      hc_ExtractCommitmentKey_def ExtractBytes_def shake_Writes_absorbing shake_Write_def shake_Read_def str_bytes_def aor_commitmentKeyLabel_def hs_Contains_def)

definition length_hash :: "bytes \<Rightarrow> bytes \<Rightarrow> bytes" where
  "length_hash k x = replicate 32 (word_of_nat (length x))"

abbreviation demo_com :: "byte \<Rightarrow> bytes" where
  "demo_com x \<equiv> demo_hash [] (x # replicate 32 7)"

abbreviation demo_party :: "ID \<Rightarrow> byte \<Rightarrow> AORParticipant" where
  "demo_party i x \<equiv> demo_aor i (x # replicate 32 7)"

lemma demo_run:
  "rbind (aor_rounds demo_hash (demo_party 1 5) [2 \<mapsto> Some (demo_com 6)] [2 \<mapsto> Some (demo_open 6)]) (\<lambda>t. Inr (at_c t, at_o t)) = Inr (demo_com 5, demo_open 5)"
  "rbind (aor_rounds demo_hash (demo_party 2 6) [1 \<mapsto> Some (demo_com 5)] [1 \<mapsto> Some (demo_open 5)]) (\<lambda>t. Inr (at_c t, at_o t)) = Inr (demo_com 6, demo_open 6)"
  "rbind (aor_rounds length_hash (demo_party 1 5) [2 \<mapsto> Some (replicate 32 33)] [2 \<mapsto> Some (demo_open 6)]) (\<lambda>t. Inr (at_out t)) = Inr [3]"
  "rbind (aor_rounds length_hash (demo_party 1 5) [2 \<mapsto> Some (replicate 32 33)] [2 \<mapsto> Some (demo_open 7)]) (\<lambda>t. Inr (at_out t)) = Inr [2]"
  by code_simp+

theorem aor_agreement_witness:
  "\<exists>tp tq. aor_rounds demo_hash (demo_party 1 5) [2 \<mapsto> Some (demo_com 6)] [2 \<mapsto> Some (demo_open 6)] = Inr tp \<and>
     aor_rounds demo_hash (demo_party 2 6) [1 \<mapsto> Some (demo_com 5)] [1 \<mapsto> Some (demo_open 5)] = Inr tq \<and> at_out tp = at_out tq"
proof -
  let ?v1 = "\<lambda>k. if k = 1 then demo_com 5 else demo_com 6" and ?v2 = "\<lambda>k. if k = 1 then demo_open 5 else demo_open 6"
  obtain tp where p: "aor_rounds demo_hash (demo_party 1 5) [2 \<mapsto> Some (demo_com 6)] [2 \<mapsto> Some (demo_open 6)] = Inr tp" "at_c tp = demo_com 5" "at_o tp = demo_open 5"
    using demo_run(1) by (auto simp: rbind_eq_Inr_iff)
  obtain tq where q: "aor_rounds demo_hash (demo_party 2 6) [1 \<mapsto> Some (demo_com 5)] [1 \<mapsto> Some (demo_open 5)] = Inr tq" "at_c tq = demo_com 6" "at_o tq = demo_open 6"
    using demo_run(2) by (auto simp: rbind_eq_Inr_iff)
  have "at_out tp = at_out tq"
    using aor_agreement [OF _ demo_new p(1) demo_new q(1), of ?v1 ?v2] p q by (auto simp: hs_wf_def)
  with p q show ?thesis by blast
qed

theorem aor_binding_witness:
  "\<exists>t t' m m'. aor_rounds length_hash (demo_party 1 5) [2 \<mapsto> Some (replicate 32 33)] [2 \<mapsto> Some (demo_open 6)] = Inr t \<and>
     aor_rounds length_hash (demo_party 1 5) [2 \<mapsto> Some (replicate 32 33)] [2 \<mapsto> Some (demo_open 7)] = Inr t' \<and>
     at_out t \<noteq> at_out t' \<and> m = demo_open 6 \<and> m' = demo_open 7 \<and>
     length_hash (ao_commitmentKey (demo_party 1 5)) (ao2_Message m @ ao2_Witness m) = replicate 32 33 \<and>
     length_hash (ao_commitmentKey (demo_party 1 5)) (ao2_Message m' @ ao2_Witness m') = replicate 32 33"
proof -
  obtain t t' where t: "aor_rounds length_hash (demo_party 1 5) [2 \<mapsto> Some (replicate 32 33)] [2 \<mapsto> Some (demo_open 6)] = Inr t"
    "aor_rounds length_hash (demo_party 1 5) [2 \<mapsto> Some (replicate 32 33)] [2 \<mapsto> Some (demo_open 7)] = Inr t'" "at_out t = [3]" "at_out t' = [2]"
    using demo_run(3,4) by (auto simp: rbind_eq_Inr_iff)
  note f = aor_New_fields [OF demo_new [where i = 1 and bs = "5 # replicate 32 7", simplified]]
  have id: "ao_id (demo_party 1 5) = 1" "ao_quorum (demo_party 1 5) = [1, 2]" using f by simp_all
  have "at_out t \<noteq> at_out t'" "hs_wf (ao_quorum (demo_party 1 5))" "ao_id (demo_party 1 5) \<in> set (ao_quorum (demo_party 1 5))"
    using t(3,4) id by (simp_all add: hs_wf_def)
  from aor_binding [OF this(2,3) t(1,2) this(1)] this(1) t(1,2) show ?thesis by (auto simp: id)
qed

theorem aor_copied_opening_witness:
  "\<exists>c p1 m p2 p3. aor_Round1 demo_hash (demo_party 1 5) = Inr (c, p1) \<and> aor_Round2 p1 [2 \<mapsto> Some c] = Inr (m, p2) \<and>
     aor_Round3 demo_hash p2 [2 \<mapsto> Some m] = Inr ([0], p3)"
proof -
  have "rbind (aor_Round1 demo_hash (demo_party 1 5)) (\<lambda>(c, p1). rbind (aor_Round2 p1 [2 \<mapsto> Some c]) (\<lambda>(m, p2). Inr m)) = Inr (demo_open 5)"
    by code_simp
  then obtain c p1 p2 where r: "aor_Round1 demo_hash (demo_party 1 5) = Inr (c, p1)" "aor_Round2 p1 [2 \<mapsto> Some c] = Inr (demo_open 5, p2)"
    by (auto simp: rbind_eq_Inr_iff)
  note f = aor_New_fields [OF demo_new [where i = 1 and bs = "5 # replicate 32 7", simplified]]
  have "ao2_Message (demo_open 5) = [5]" "ao2_Witness (demo_open 5) \<noteq> zero32" by (simp_all add: demo_open_def zero32_def)
  with aor_copied_opening [OF _ _ _ r] f r show ?thesis by (auto simp: hs_wf_def)
qed

end
