(* ===== verification/ModulePolynomials.thy ===== *)
theory ModulePolynomials
  imports Polynomials PrimeGroup
begin

text \<open>
  Polynomials with coefficients in a module (\<open>pkg/base/polynomials/polynomial_module.go\<close>): the struct holds the coefficient slice in ascending
  degree order, like the polynomials over a ring, and shares their type. The module is a prime-order group with its scalar field; its byte
  codec and its torsion test are parameters. The module of a polynomial is read off its first coefficient, so operations that ask for it panic
  on an empty slice.
\<close>

section \<open>Operations\<close>

type_synonym 'g ModuleValuedPolynomial = "'g Polynomial"

definition LiftPolynomial :: "('g, 'a) PrimeGroup \<Rightarrow> 'a Polynomial \<Rightarrow> 'g \<Rightarrow> 'g ModuleValuedPolynomial res" where
  "LiftPolynomial G poly baseElem = Inr \<lparr>coeffs = map (\<lambda>c. ScalarOp G baseElem c) (coeffs poly)\<rparr>"

definition NewPolynomialModule :: "'m option \<Rightarrow> 'm res" where
  "NewPolynomialModule m = (case m of None \<Rightarrow> Inl ErrValidation | Some m \<Rightarrow> Inr m)"

definition mvp_Identity :: "('g::zero) ModuleValuedPolynomial" where
  "mvp_Identity = \<lparr>coeffs = [0]\<rparr>"

definition mvp_New :: "('g::zero) option list \<Rightarrow> 'g ModuleValuedPolynomial res" where
  "mvp_New cs =
     (if length cs < 1 then Inr mvp_Identity
      else if \<not> list_all (\<lambda>c. c \<noteq> None) cs then Inl ErrValidation
      else Inr \<lparr>coeffs = map the cs\<rparr>)"

definition RandomModuleValuedPolynomialWithConstantTerm ::
  "int \<Rightarrow> ('g::zero) \<Rightarrow> 'g list \<Rightarrow> ('g ModuleValuedPolynomial \<times> 'g list) res" where
  "RandomModuleValuedPolynomialWithConstantTerm degree constantTerm prng =
     (if degree < 0 then Inl ErrValidation
      else if degree = 0 then Inr (\<lparr>coeffs = [constantTerm]\<rparr>, prng)
      else rbind (draw (nat degree - 1) prng) (\<lambda>(mid, prng).
        rbind (RandomNonIdentity prng) (\<lambda>(leading, prng).
          Inr (\<lparr>coeffs = constantTerm # mid @ [leading]\<rparr>, prng))))"

definition RandomModuleValuedPolynomial :: "int \<Rightarrow> ('g::zero) list \<Rightarrow> ('g ModuleValuedPolynomial \<times> 'g list) res" where
  "RandomModuleValuedPolynomial degree prng =
     (if degree < 0 then Inl ErrValidation
      else rbind (draw 1 prng) (\<lambda>(c, prng). RandomModuleValuedPolynomialWithConstantTerm degree (c ! 0) prng))"

definition mvp_FromBytes :: "nat \<Rightarrow> (8 word list \<Rightarrow> ('g::zero) res) \<Rightarrow> 8 word list \<Rightarrow> 'g ModuleValuedPolynomial res" where
  "mvp_FromBytes coeffSize fromBytes b =
     (if length b = 0 then Inr mvp_Identity
      else if coeffSize = 0 then Inl Panic
      else if length b mod coeffSize \<noteq> 0 then Inl ErrValidation
      else rbind (MapOrError (\<lambda>i. fromBytes (take coeffSize (drop (i * coeffSize) b))) [0..<length b div coeffSize])
        (\<lambda>cs. mvp_New (map Some cs)))"

definition mvp_ConstantTerm :: "'g ModuleValuedPolynomial \<Rightarrow> 'g res" where
  "mvp_ConstantTerm p = (if coeffs p = [] then Inl Panic else Inr (coeffs p ! 0))"

fun mvp_degree_loop :: "('g::zero) list \<Rightarrow> nat \<Rightarrow> int" where
  "mvp_degree_loop cs 0 = -1"
| "mvp_degree_loop cs (Suc i) = (if cs ! i \<noteq> 0 then int i else mvp_degree_loop cs i)"

definition mvp_Degree :: "('g::zero) ModuleValuedPolynomial \<Rightarrow> int" where
  "mvp_Degree p = mvp_degree_loop (coeffs p) (length (coeffs p))"

definition mvp_IsConstant :: "('g::zero) ModuleValuedPolynomial \<Rightarrow> bool" where
  "mvp_IsConstant p \<longleftrightarrow> mvp_Degree p \<le> 0"

definition mvp_LeadingCoefficient :: "('g::zero) ModuleValuedPolynomial \<Rightarrow> 'g res" where
  "mvp_LeadingCoefficient p = (let deg = mvp_Degree p in
     if deg < 0 then (if coeffs p = [] then Inl Panic else Inr 0) else Inr (coeffs p ! nat deg))"

definition mvp_Clone :: "'g ModuleValuedPolynomial \<Rightarrow> 'g ModuleValuedPolynomial" where
  "mvp_Clone p = \<lparr>coeffs = map (\<lambda>c. c) (coeffs p)\<rparr>"

definition PolynomialOp :: "('g::monoid_add, 'a) PrimeGroup \<Rightarrow> 'g ModuleValuedPolynomial \<Rightarrow> 'a Polynomial \<Rightarrow> 'g ModuleValuedPolynomial" where
  "PolynomialOp G p poly =
     (if length (coeffs p) = 0 \<or> length (coeffs poly) = 0 then mvp_Clone p
      else \<lparr>coeffs =
        fold (\<lambda>i cs. fold (\<lambda>j cs. cs[i + j := cs ! (i + j) + ScalarOp G (coeffs p ! i) (coeffs poly ! j)])
                       [0..<length (coeffs poly)] cs)
          [0..<length (coeffs p)] (replicate (length (coeffs p) + length (coeffs poly) - 1) 0)\<rparr>)"

definition mvp_Derivative :: "('g::monoid_add) ModuleValuedPolynomial \<Rightarrow> 'g ModuleValuedPolynomial res" where
  "mvp_Derivative p =
     (if length (coeffs p) \<le> 1 then (if coeffs p = [] then Inl Panic else Inr \<lparr>coeffs = [0]\<rparr>)
      else Inr \<lparr>coeffs = map (\<lambda>i. scalarMulNative (coeffs p ! i) i) [1..<length (coeffs p)]\<rparr>)"

definition mvp_Bytes :: "('g \<Rightarrow> 8 word list) \<Rightarrow> 'g ModuleValuedPolynomial \<Rightarrow> 8 word list res" where
  "mvp_Bytes bytes p = (if coeffs p = [] then Inl Panic else Inr (fold (\<lambda>c out. out @ bytes c) (coeffs p) []))"

definition mvp_Equal :: "('g::zero) ModuleValuedPolynomial \<Rightarrow> 'g ModuleValuedPolynomial \<Rightarrow> bool" where
  "mvp_Equal p rhs =
     (let lp = length (coeffs p); lr = length (coeffs rhs) in
      list_all (\<lambda>i. coeffs p ! i = coeffs rhs ! i) [0..<min lp lr] \<and>
      list_all (\<lambda>i. coeffs rhs ! i = 0) [lp..<max lp lr] \<and>
      list_all (\<lambda>i. coeffs p ! i = 0) [lr..<max lp lr])"

text \<open>The slice that \<open>make\<close> returns is written at every index.\<close>

definition mvp_Op :: "('g::monoid_add) ModuleValuedPolynomial \<Rightarrow> 'g ModuleValuedPolynomial \<Rightarrow> 'g ModuleValuedPolynomial" where
  "mvp_Op p e =
     (let lp = length (coeffs p); le = length (coeffs e);
          cs = replicate (max lp le) 0;
          cs = fold (\<lambda>i cs. cs[i := coeffs p ! i + coeffs e ! i]) [0..<min lp le] cs;
          cs = fold (\<lambda>i cs. cs[i := coeffs e ! i]) [lp..<max lp le] cs;
          cs = fold (\<lambda>i cs. cs[i := coeffs p ! i]) [le..<max lp le] cs in
      \<lparr>coeffs = cs\<rparr>)"

definition mvp_OpElement :: "('g::plus) ModuleValuedPolynomial \<Rightarrow> 'g \<Rightarrow> 'g ModuleValuedPolynomial res" where
  "mvp_OpElement p e = (let clone = mvp_Clone p in
     if coeffs clone = [] then Inl Panic else Inr \<lparr>coeffs = (coeffs clone)[0 := coeffs clone ! 0 + e]\<rparr>)"

definition mvp_IsOpIdentity :: "('g::zero) ModuleValuedPolynomial \<Rightarrow> bool" where
  "mvp_IsOpIdentity p = list_all (\<lambda>c. c = 0) (coeffs p)"

definition mvp_OpInv :: "('g::uminus) ModuleValuedPolynomial \<Rightarrow> 'g ModuleValuedPolynomial" where
  "mvp_OpInv p = \<lparr>coeffs = map uminus (coeffs p)\<rparr>"

definition mvp_TryOpInv :: "('g::uminus) ModuleValuedPolynomial \<Rightarrow> 'g ModuleValuedPolynomial res" where
  "mvp_TryOpInv p = Inr (mvp_OpInv p)"

definition mvp_ScalarOp :: "('g, 'a) PrimeGroup \<Rightarrow> 'g ModuleValuedPolynomial \<Rightarrow> 'a \<Rightarrow> 'g ModuleValuedPolynomial" where
  "mvp_ScalarOp G p actor = \<lparr>coeffs = map (\<lambda>c. ScalarOp G c actor) (coeffs p)\<rparr>"

definition mvp_IsTorsionFree :: "('g \<Rightarrow> bool) \<Rightarrow> 'g ModuleValuedPolynomial \<Rightarrow> bool" where
  "mvp_IsTorsionFree isTorsionFree p = list_all isTorsionFree (coeffs p)"

definition mvp_Eval :: "('g::plus, 'a) PrimeGroup \<Rightarrow> 'g ModuleValuedPolynomial \<Rightarrow> 'a \<Rightarrow> 'g res" where
  "mvp_Eval G p x =
     (if length (coeffs p) = 0 then Inl Panic
      else Inr (fold (\<lambda>i out. ScalarOp G out x + coeffs p ! i) (rev [0..<length (coeffs p) - 1]) (coeffs p ! (length (coeffs p) - 1))))"

section \<open>Evaluation\<close>

text \<open>The operations that do not involve scalars are those of the polynomials over a ring.\<close>

lemma mvp_Degree_poly: "mvp_Degree p = poly_Degree p"
proof -
  have "mvp_degree_loop cs n = scan_down cs n" for cs :: "'a list" and n by (induction n) simp_all
  then show ?thesis by (simp add: mvp_Degree_def poly_Degree_def)
qed

lemma mvp_as_poly:
  "mvp_Op p e = poly_Add p e" "mvp_OpInv p' = poly_Neg p'" "mvp_Equal q r = poly_Equal q r" "mvp_Clone c = poly_Clone c"
  by (simp_all add: mvp_Op_def poly_Add_def mvp_OpInv_def poly_Neg_def mvp_Equal_def poly_Equal_def mvp_Clone_def poly_Clone_def)

lemma conv_length:
  fixes h :: "nat \<Rightarrow> nat \<Rightarrow> 'z::comm_monoid_add"
  assumes "0 < m" "0 < n"
  shows "length (fold (\<lambda>i cs. fold (\<lambda>j cs. cs[i + j := cs ! (i + j) + h i j]) [0..<n] cs) [0..<m] (replicate (m + n - 1) z)) = m + n - 1"
  using conv_fold(1) [of 0 "replicate (m + n - 1) z" h n m] assms by simp

lemma mvp_horner:
  assumes G: "prime_group G"
  shows "fold (\<lambda>i out. ScalarOp G out x + c i) (rev [0..<n]) a = ScalarOp G a (x ^ n) + (\<Sum>i<n. ScalarOp G (c i) (x ^ i))"
  by (induction n arbitrary: a) (simp_all add: scalar_laws [OF G] mult.commute add.assoc add.left_commute)

lemma mvp_Eval_sum:
  assumes G: "prime_group G" and "coeffs p \<noteq> []"
  shows "mvp_Eval G p x = Inr (\<Sum>i<length (coeffs p). ScalarOp G (coeffs p ! i) (x ^ i))"
proof -
  obtain n where "length (coeffs p) = Suc n" using assms(2) by (cases "coeffs p") auto
  then show ?thesis by (simp add: mvp_Eval_def mvp_horner [OF G])
qed

text \<open>The image of a polynomial over the scalars.\<close>

definition lift_poly :: "('g, 'a) PrimeGroup \<Rightarrow> 'g \<Rightarrow> 'a Polynomial \<Rightarrow> 'g Polynomial" where
  "lift_poly G b p = \<lparr>coeffs = map (ScalarOp G b) (coeffs p)\<rparr>"

lemma lift_poly_coeffs [simp]: "length (coeffs (lift_poly G b p)) = length (coeffs p)" "coeffs (lift_poly G b p) = [] \<longleftrightarrow> coeffs p = []"
  "i < length (coeffs p) \<Longrightarrow> coeffs (lift_poly G b p) ! i = ScalarOp G b (coeffs p ! i)"
  by (simp_all add: lift_poly_def)

lemma pcoeff_lift: "prime_group G \<Longrightarrow> pcoeff (lift_poly G b p) i = ScalarOp G b (pcoeff p i)"
  by (simp add: pcoeff_def nth_default_def scalar_laws)

lemma Polynomial_eqI:
  assumes "length (coeffs p) = length (coeffs q)" "\<And>i. i < length (coeffs q) \<Longrightarrow> pcoeff p i = pcoeff q i"
  shows "(p :: 'a::zero Polynomial) = q"
proof -
  have "coeffs p = coeffs q" using assms by (intro nth_equalityI) (simp_all add: pcoeff_nth)
  then show ?thesis by simp
qed

lemma lift_Eval:
  assumes G: "prime_group G" and "coeffs p \<noteq> []"
  shows "mvp_Eval G (lift_poly G b p) x = Inr (ScalarOp G b (poly_Eval p x))"
  using mvp_Eval_sum [OF G, of "lift_poly G b p" x] assms(2)
  by (simp add: poly_Eval_sum scalar_sum [OF G] scalar_laws [OF G] mult.commute)

lemma lift_Degree:
  assumes G: "prime_group G" and "b \<noteq> 0"
  shows "mvp_Degree (lift_poly G b p) = poly_Degree p"
proof -
  have "scan_down (map (ScalarOp G b) cs) n = scan_down cs n" if "n \<le> length cs" for cs n
    using that by (induction n) (simp_all add: scalar_eq_zero [OF G] assms(2))
  then show ?thesis by (simp add: mvp_Degree_poly poly_Degree_def lift_poly_def)
qed

lemma lift_PolynomialOp:
  assumes G: "prime_group G" and "poly_Mul p q = Inr m" "coeffs q \<noteq> []"
  shows "PolynomialOp G (lift_poly G b p) q = lift_poly G b m"
proof -
  let ?p = "length (coeffs p)" and ?q = "length (coeffs q)"
  let ?F = "\<lambda>h z. fold (\<lambda>i cs. fold (\<lambda>j cs. cs[i + j := cs ! (i + j) + h i j]) [0..<?q] cs) [0..<?p] (replicate (?p + ?q - 1) z)"
  from assms have p: "coeffs p \<noteq> []" and m: "coeffs m = ?F (\<lambda>i j. coeffs p ! i * coeffs q ! j) 0"
    by (auto simp: poly_Mul_def split: if_splits)
  have pos: "0 < ?p" "0 < ?q" using p assms(3) by simp_all
  note len = conv_length [OF pos]
  have "coeffs (PolynomialOp G (lift_poly G b p) q) = ?F (\<lambda>i j. ScalarOp G (coeffs (lift_poly G b p) ! i) (coeffs q ! j)) 0"
    using p assms(3) by (simp add: PolynomialOp_def)
  also have "\<dots> = coeffs (lift_poly G b m)"
  proof (rule nth_equalityI)
    fix k assume "k < length (?F (\<lambda>i j. ScalarOp G (coeffs (lift_poly G b p) ! i) (coeffs q ! j)) 0)"
    then have k: "k < ?p + ?q - 1" by (simp only: len)
    show "?F (\<lambda>i j. ScalarOp G (coeffs (lift_poly G b p) ! i) (coeffs q ! j)) 0 ! k = coeffs (lift_poly G b m) ! k"
      using k len [of "\<lambda>i j. coeffs p ! i * coeffs q ! j" 0] m unfolding One_nat_def
      by (auto simp: conv_fold(2) scalar_sum [OF G] scalar_laws [OF G] mult.commute intro!: sum.cong)
  qed (simp only: lift_poly_coeffs m len)
  finally show ?thesis by simp
qed

lemma lift_linear:
  assumes G: "prime_group G"
  shows "mvp_Op (lift_poly G b p) (lift_poly G b q) = lift_poly G b (poly_Add p q)"
    "mvp_OpInv (lift_poly G b p) = lift_poly G b (poly_Neg p)"
    "mvp_ScalarOp G (lift_poly G b p) s = lift_poly G b (poly_ScalarMul p s)"
proof -
  show "mvp_Op (lift_poly G b p) (lift_poly G b q) = lift_poly G b (poly_Add p q)"
    by (rule Polynomial_eqI) (simp_all add: mvp_as_poly poly_Add_length pcoeff_Add pcoeff_lift [OF G] scalar_laws [OF G])
qed (simp_all add: mvp_OpInv_def poly_Neg_def mvp_ScalarOp_def poly_ScalarMul_def lift_poly_def scalar_laws [OF G] mult.commute)

lemma lift_Equal:
  assumes G: "prime_group G" and "b \<noteq> 0"
  shows "mvp_Equal (lift_poly G b p) (lift_poly G b q) \<longleftrightarrow> poly_Equal p q"
  by (simp add: mvp_as_poly poly_Equal_iff pcoeff_lift [OF G] scalar_cancel [OF assms])

text \<open>The derivative over the ring stops at the degree, that over the module at the length; they agree up to trailing zeros.\<close>

lemma lift_Derivative:
  assumes G: "prime_group G" and p: "coeffs p \<noteq> []"
  shows "\<exists>d e. poly_Derivative p = Inr d \<and> mvp_Derivative (lift_poly G b p) = Inr e \<and> mvp_Equal e (lift_poly G b d)"
proof -
  let ?c = "\<lambda>i. ScalarOp G b (nsum (Suc i) (pcoeff p (Suc i)))"
  have zero: "nsum n (0 :: 'x::monoid_add) = 0" for n by (induction n) simp_all
  have d: "\<exists>d. poly_Derivative p = Inr d \<and> (\<forall>i. pcoeff (lift_poly G b d) i = ?c i)"
  proof (cases "poly_Degree p \<le> 0")
    case True
    then have "pcoeff p (Suc i) = 0" for i by (intro poly_Degree_spec(3)) simp
    with True p show ?thesis by (auto simp: poly_Derivative_def poly_Zero_def pcoeff_lift [OF G] pcoeff_def nth_default_def zero scalar_laws [OF G])
  next
    case False
    let ?d = "\<lparr>coeffs = map (\<lambda>i. nsum i (coeffs p ! i)) [1..<Suc (nat (poly_Degree p))]\<rparr>"
    have "pcoeff ?d i = nsum (Suc i) (pcoeff p (Suc i))" for i
    proof (cases "i < nat (poly_Degree p)")
      case True
      then show ?thesis using poly_Degree_spec(1) [of p] by (simp add: pcoeff_nth del: upt_Suc)
    next
      case beyond: False
      then have "pcoeff p (Suc i) = 0" by (intro poly_Degree_spec(3)) linarith
      with beyond show ?thesis by (simp add: pcoeff_beyond zero del: upt_Suc)
    qed
    with False p show ?thesis by (simp add: poly_Derivative_def scalarMulNative_nsum pcoeff_lift [OF G] del: upt_Suc nsum.simps)
  qed
  have "\<exists>e. mvp_Derivative (lift_poly G b p) = Inr e \<and> (\<forall>i. pcoeff e i = ?c i)"
  proof (cases "length (coeffs p) \<le> 1")
    case True
    then show ?thesis using p by (auto simp: mvp_Derivative_def pcoeff_def nth_default_def zero scalar_laws [OF G])
  next
    case False
    then show ?thesis by (auto simp: mvp_Derivative_def scalarMulNative_nsum pcoeff_def nth_default_def zero scalar_laws [OF G] scalar_nsum [OF G] less_diff_conv)
  qed
  with d show ?thesis by (force simp: mvp_as_poly poly_Equal_iff)
qed

section \<open>Properties\<close>

text \<open>Lifting to the exponent is a homomorphism from the polynomials over the scalars to the polynomials over the group: evaluation, sum,
  inverse, scaling, convolution with a polynomial, derivative, degree and equality of lifted polynomials are the lifts of those of the
  polynomials themselves, for every base other than the identity.\<close>

theorem LiftPolynomial_homomorphism:
  assumes G: "prime_group G" and b: "b \<noteq> 0" and p: "coeffs p \<noteq> []" "coeffs q \<noteq> []"
    and lift: "LiftPolynomial G p b = Inr P" "LiftPolynomial G q b = Inr Q"
  shows "mvp_Eval G P x = Inr (ScalarOp G b (poly_Eval p x)) \<and>
    LiftPolynomial G (poly_Add p q) b = Inr (mvp_Op P Q) \<and>
    LiftPolynomial G (poly_Neg p) b = Inr (mvp_OpInv P) \<and>
    LiftPolynomial G (poly_ScalarMul p s) b = Inr (mvp_ScalarOp G P s) \<and>
    (\<exists>m. poly_Mul p q = Inr m \<and> LiftPolynomial G m b = Inr (PolynomialOp G P q)) \<and>
    (\<exists>d D E. poly_Derivative p = Inr d \<and> LiftPolynomial G d b = Inr D \<and> mvp_Derivative P = Inr E \<and> mvp_Equal E D) \<and>
    mvp_Degree P = poly_Degree p \<and> (mvp_Equal P Q \<longleftrightarrow> poly_Equal p q)"
proof -
  have L: "LiftPolynomial G r b = Inr (lift_poly G b r)" for r by (simp add: LiftPolynomial_def lift_poly_def)
  have P: "P = lift_poly G b p" "Q = lift_poly G b q" using lift by (simp_all add: L)
  obtain m where m: "poly_Mul p q = Inr m" using p by (simp add: poly_Mul_def)
  show ?thesis unfolding P L
    using lift_Eval [OF G p(1)] lift_linear [OF G] lift_PolynomialOp [OF G m p(2)] m lift_Derivative [OF G p(1), of b]
      lift_Degree [OF G b] lift_Equal [OF G b] by auto
qed

theorem LiftPolynomial_homomorphism_witness:
  "mvp_Eval field_group \<lparr>coeffs = [6, 0, 15 :: rat]\<rparr> 2 = Inr (3 * poly_Eval \<lparr>coeffs = [2, 0, 5]\<rparr> 2) \<and>
   mvp_Degree \<lparr>coeffs = [6, 0, 15 :: rat]\<rparr> = poly_Degree \<lparr>coeffs = [2, 0, 5 :: rat]\<rparr> \<and>
   (\<exists>m. poly_Mul \<lparr>coeffs = [2, 0, 5]\<rparr> \<lparr>coeffs = [1, 1]\<rparr> = Inr m \<and>
     LiftPolynomial field_group m (3 :: rat) = Inr (PolynomialOp field_group \<lparr>coeffs = [6, 0, 15]\<rparr> \<lparr>coeffs = [1, 1]\<rparr>))"
  using LiftPolynomial_homomorphism [OF field_group, of 3 "\<lparr>coeffs = [2, 0, 5 :: rat]\<rparr>" "\<lparr>coeffs = [1, 1]\<rparr>"
      "\<lparr>coeffs = [6, 0, 15]\<rparr>" "\<lparr>coeffs = [3, 3]\<rparr>" 2 1]
  by (simp add: LiftPolynomial_def field_group_def mult.commute)

text \<open>Serialisation: a polynomial survives the round trip through its bytes, and no bytes at all are the zero polynomial.\<close>

theorem mvp_Bytes_roundtrip:
  assumes "coeffs p \<noteq> []" "0 < coeffSize" "\<And>c. length (bytes c) = coeffSize" "\<And>c. fromBytes (bytes c) = Inr c"
  shows "(\<exists>b. mvp_Bytes bytes p = Inr b \<and> mvp_FromBytes coeffSize fromBytes b = Inr p) \<and> mvp_FromBytes coeffSize fromBytes [] = Inr mvp_Identity"
proof -
  obtain b where b: "poly_Bytes bytes p = Inr b" "poly_FromBytes coeffSize fromBytes b = Inr p"
    using poly_Bytes_roundtrip [of p coeffSize bytes fromBytes] assms by blast
  have ne: "b \<noteq> []" using b(2) by (auto simp: poly_FromBytes_def)
  have "mvp_New (map Some cs) = poly_New cs" for cs :: "'a list" by (simp add: mvp_New_def mvp_Identity_def poly_New_def list_all_iff comp_def)
  then have "mvp_FromBytes coeffSize fromBytes b = poly_FromBytes coeffSize fromBytes b" using ne by (simp add: mvp_FromBytes_def poly_FromBytes_def)
  moreover have "mvp_Bytes bytes p = Inr b" using b(1) by (simp add: mvp_Bytes_def poly_Bytes_def)
  ultimately show ?thesis using b(2) by (simp add: mvp_FromBytes_def)
qed

theorem mvp_Bytes_roundtrip_witness:
  "\<exists>b. mvp_Bytes (\<lambda>c. [c]) \<lparr>coeffs = [3, 0, 7 :: 8 word]\<rparr> = Inr b \<and> mvp_FromBytes 1 (\<lambda>b. Inr (b ! 0)) b = Inr \<lparr>coeffs = [3, 0, 7]\<rparr>"
  using mvp_Bytes_roundtrip [of "\<lparr>coeffs = [3, 0, 7 :: 8 word]\<rparr>" 1 "\<lambda>c. [c]" "\<lambda>b. Inr (b ! 0)"] by simp

end
