(* ===== verification/BatchSchnorr.thy ===== *)
theory BatchSchnorr
  imports Maurer Interpolation Mathutils ModulePolynomials
begin

text \<open>
  Proofs of knowledge of several discrete logarithms at once (\<open>pkg/proofs/dlog/batch_schnorr\<close>): the response is the value at the challenge of the
  polynomial whose coefficients are the randomness and the witnesses. Group elements and scalars are values, so they are never nil; a pointer
  to a message is an optional field value. \<open>FromWideBytes\<close> of the scalar field and the encodings of elements are parameters.
\<close>

section \<open>Protocol\<close>

record 'g BatchStatement =
  bs_Gen :: 'g
  bs_Xs :: "'g list"

definition bs_NewStatement :: "'g \<Rightarrow> 'g list \<Rightarrow> 'g BatchStatement option" where
  "bs_NewStatement g xs = Some \<lparr>bs_Gen = g, bs_Xs = xs\<rparr>"

definition bs_NewWitness :: "'a list \<Rightarrow> 'a list option" where
  "bs_NewWitness ws = Some ws"

definition le_len :: "'b list \<Rightarrow> bytes" where
  "le_len xs = le64 (word_of_nat (length xs))"

text \<open>Every part is prefixed by its length; \<open>Bytes\<close> of a nil pointer panics.\<close>

definition bs_xBytes :: "('g \<Rightarrow> bytes) \<Rightarrow> 'g BatchStatement option \<Rightarrow> bytes res" where
  "bs_xBytes gbytes x = (case x of None \<Rightarrow> Inl Panic
     | Some x \<Rightarrow> (let d = le_len (gbytes (bs_Gen x)) @ gbytes (bs_Gen x); d = d @ le_len (bs_Xs x) in
         Inr (fold (\<lambda>xi d. d @ le_len (gbytes xi) @ gbytes xi) (bs_Xs x) d)))"

definition bs_wBytes :: "('a \<Rightarrow> bytes) \<Rightarrow> 'a list option \<Rightarrow> bytes res" where
  "bs_wBytes sbytes w = (case w of None \<Rightarrow> Inl Panic
     | Some ws \<Rightarrow> Inr (fold (\<lambda>wi d. d @ le_len (sbytes wi) @ sbytes wi) ws (le_len ws)))"

definition bs_aBytes :: "('g \<Rightarrow> bytes) \<Rightarrow> 'g option \<Rightarrow> bytes res" where
  "bs_aBytes gbytes a = (case a of None \<Rightarrow> Inl Panic | Some a \<Rightarrow> Inr (le_len (gbytes a) @ gbytes a))"

definition bs_zBytes :: "('a \<Rightarrow> bytes) \<Rightarrow> 'a option \<Rightarrow> bytes res" where
  "bs_zBytes sbytes z = (case z of None \<Rightarrow> Inl Panic | Some z \<Rightarrow> Inr (le_len (sbytes z) @ sbytes z))"

record ('g, 'a) BatchSchnorr =
  bsp_k :: nat
  bsp_challengeLength :: nat
  bsp_soundnessError :: nat
  bsp_group :: "('g, 'a) PrimeGroup"

definition bs_Name :: string where
  "bs_Name = ''BATCH_SCHNORR'' @ dlog_Type"

definition bs_NewProtocol :: "int \<Rightarrow> ('g, 'a) PrimeGroup option \<Rightarrow> 'r option \<Rightarrow> ('g, 'a) BatchSchnorr res" where
  "bs_NewProtocol k grp prng =
     (if k < 2 then Inl ErrInvalidArgument
      else case grp of None \<Rightarrow> Inl ErrInvalidArgument
      | Some G \<Rightarrow> (case prng of None \<Rightarrow> Inl ErrInvalidArgument
        | Some _ \<Rightarrow>
            (let challengeLengthBits = int ComputationalSecurityBits + CeilLog2 k in
             rbind (CeilDiv challengeLengthBits 8) (\<lambda>challengeLengthBytes.
             let soundnessError = challengeLengthBytes * 8 - CeilLog2 k in
             Inr \<lparr>bsp_k = nat k, bsp_challengeLength = nat challengeLengthBytes, bsp_soundnessError = nat soundnessError, bsp_group = G\<rparr>))))"

definition bs_ComputeProverCommitment ::
  "('g, 'a) BatchSchnorr \<Rightarrow> 'g BatchStatement option \<Rightarrow> 'a list option \<Rightarrow> 'a list \<Rightarrow> ('g option \<times> 'a option \<times> 'a list) res" where
  "bs_ComputeProverCommitment p statement witness prng = (case statement of None \<Rightarrow> Inl ErrInvalidArgument
     | Some x \<Rightarrow> rbind (scalar_Random prng) (\<lambda>(s, prng). Inr (Some (ScalarOp (bsp_group p) (bs_Gen x) s), Some s, prng)))"

abbreviation slice :: "bytes option \<Rightarrow> bytes" where
  "slice b \<equiv> case b of None \<Rightarrow> [] | Some b \<Rightarrow> b"

definition bs_ComputeProverResponse ::
  "(bytes \<Rightarrow> ('a::ring_1) res) \<Rightarrow> ('g, 'a) BatchSchnorr \<Rightarrow> 'g BatchStatement option \<Rightarrow> 'a list option \<Rightarrow> 'g option \<Rightarrow> 'a option \<Rightarrow> bytes option \<Rightarrow> 'a option res" where
  "bs_ComputeProverResponse FromWideBytes p statement witness commitment state challenge = (case state of None \<Rightarrow> Inl ErrInvalidArgument
     | Some s \<Rightarrow> (case witness of None \<Rightarrow> Inl ErrInvalidArgument
       | Some ws \<Rightarrow>
           if length ws \<noteq> bsp_k p then Inl ErrInvalidArgument
           else if length (slice challenge) \<noteq> bsp_challengeLength p then Inl ErrInvalidArgument
           else rbind (poly_New (s # ws)) (\<lambda>poly.
             rbind (FromWideBytes (slice challenge)) (\<lambda>e.
             Inr (Some (poly_Eval poly e))))))"

definition bs_Verify ::
  "(bytes \<Rightarrow> 'a res) \<Rightarrow> ('g::ab_group_add, 'a) BatchSchnorr \<Rightarrow> 'g BatchStatement option \<Rightarrow> 'g option \<Rightarrow> bytes option \<Rightarrow> 'a option \<Rightarrow> unit res" where
  "bs_Verify FromWideBytes p statement commitment challenge response = (case (commitment, statement, response) of
     (Some a, Some x, Some z) \<Rightarrow>
       if length (bs_Xs x) \<noteq> bsp_k p then Inl ErrVerificationFailed
       else if length (slice challenge) \<noteq> bsp_challengeLength p then Inl ErrVerificationFailed
       else rbind (NewPolynomialModule (Some (bsp_group p))) (\<lambda>G.
         rbind (mvp_New (map Some (a # bs_Xs x))) (\<lambda>poly.
         rbind (FromWideBytes (slice challenge)) (\<lambda>e.
         rbind (mvp_Eval G poly e) (\<lambda>rCheck.
         if rCheck \<noteq> ScalarOp G (bs_Gen x) z then Inl ErrVerificationFailed else Inr ()))))
   | _ \<Rightarrow> Inl ErrInvalidArgument)"

text \<open>The simulator reads the statement last: a nil one is a panic after the sampling.\<close>

definition bs_RunSimulator ::
  "(bytes \<Rightarrow> 'a res) \<Rightarrow> ('g::ab_group_add, 'a) BatchSchnorr \<Rightarrow> 'g BatchStatement option \<Rightarrow> bytes option \<Rightarrow> 'a list \<Rightarrow> ('g option \<times> 'a option \<times> 'a list) res" where
  "bs_RunSimulator FromWideBytes p statement challenge prng =
     rbind (scalar_Random prng) (\<lambda>(z, prng).
     rbind (FromWideBytes (slice challenge)) (\<lambda>e.
     rbind (NewPolynomialModule (Some (bsp_group p))) (\<lambda>G.
     case statement of None \<Rightarrow> Inl Panic
     | Some x \<Rightarrow> rbind (mvp_New (map Some (0 # bs_Xs x))) (\<lambda>poly.
         rbind (mvp_Eval G poly e) (\<lambda>v. Inr (Some (ScalarOp G (bs_Gen x) z + - v), Some z, prng))))))"

definition bs_ValidateStatement :: "('g, 'a) BatchSchnorr \<Rightarrow> 'g BatchStatement option \<Rightarrow> 'a list option \<Rightarrow> unit res" where
  "bs_ValidateStatement p statement witness = (case (statement, witness) of
     (Some x, Some ws) \<Rightarrow>
       if length (bs_Xs x) \<noteq> bsp_k p then Inl ErrValidationFailed
       else if length ws \<noteq> bsp_k p then Inl ErrValidationFailed
       else if list_all (\<lambda>i. ScalarOp (bsp_group p) (bs_Gen x) (ws ! i) = bs_Xs x ! i) [0..<bsp_k p] then Inr () else Inl ErrValidationFailed
   | _ \<Rightarrow> Inl ErrInvalidArgument)"

definition bs_sigma :: "('g \<Rightarrow> bytes) \<Rightarrow> ('a \<Rightarrow> bytes) \<Rightarrow> (bytes \<Rightarrow> ('a::field) res) \<Rightarrow> ('g::ab_group_add, 'a) BatchSchnorr \<Rightarrow>
    ('g BatchStatement option, 'a list option, 'g option, 'a option, 'a option, 'a list) SigmaProtocol" where
  "bs_sigma gbytes sbytes FromWideBytes p = \<lparr>sg_Name = bs_Name, sg_ComputeProverCommitment = bs_ComputeProverCommitment p,
     sg_ComputeProverResponse = bs_ComputeProverResponse FromWideBytes p, sg_Verify = bs_Verify FromWideBytes p, sg_RunSimulator = bs_RunSimulator FromWideBytes p,
     sg_SpecialSoundness = bsp_k p + 1, sg_SoundnessError = bsp_soundnessError p, sg_GetChallengeBytesLength = bsp_challengeLength p,
     sg_ValidateStatement = bs_ValidateStatement p, sg_xBytes = bs_xBytes gbytes, sg_aBytes = bs_aBytes gbytes, sg_zBytes = bs_zBytes sbytes,
     sg_aNil = (\<lambda>a. a = None), sg_zNil = (\<lambda>z. z = None)\<rparr>"

section \<open>Parameters\<close>

lemma CeilLog2_range:
  assumes "2 \<le> k" "k < 2 ^ 63"
  shows "0 \<le> CeilLog2 k" "CeilLog2 k \<le> 64" "0 \<le> (135 + CeilLog2 k) div 8" "(135 + CeilLog2 k) div 8 < 100"
proof -
  have *: "0 \<le> CeilLog2 k" "(2 :: int) ^ nat (CeilLog2 k - 1) < 2 ^ 63" using CeilLog2_ok [of k] assms by auto
  from *(2) have "nat (CeilLog2 k - 1) < 63" by (rule power_less_imp_less_exp [rotated]) simp
  with * show c: "0 \<le> CeilLog2 k" "CeilLog2 k \<le> 64" by simp_all
  then show "0 \<le> (135 + CeilLog2 k) div 8" "(135 + CeilLog2 k) div 8 < 100" by (simp_all add: div_int_pos_iff)
qed

lemma bs_NewProtocol_iff:
  assumes "k < 2 ^ 63"
  shows "bs_NewProtocol k (Some G) (Some r) =
    (if k < 2 then Inl ErrInvalidArgument
     else Inr \<lparr>bsp_k = nat k, bsp_challengeLength = nat ((135 + CeilLog2 k) div 8), bsp_soundnessError = nat ((135 + CeilLog2 k) div 8 * 8 - CeilLog2 k), bsp_group = G\<rparr>)"
proof (cases "k < 2")
  case False
  with assms show ?thesis
    using CeilLog2_range [of k] by (simp add: bs_NewProtocol_def CeilDiv_def ComputationalSecurityBits_def wrap64_id go_div_nonneg Let_def)
qed (simp add: bs_NewProtocol_def)

section \<open>Laws\<close>

text \<open>The group has the laws of a prime-order group, and a challenge of the right length converts to a scalar.\<close>

definition bs_wf :: "(bytes \<Rightarrow> 'a res) \<Rightarrow> ('g::ab_group_add, 'a::field) BatchSchnorr \<Rightarrow> bool" where
  "bs_wf fw p \<longleftrightarrow> prime_group (bsp_group p) \<and> (\<forall>e. length e = bsp_challengeLength p \<longrightarrow> is_ok (fw e))"

lemma mvp_New_Cons: "mvp_New (map Some (a # xs)) = Inr \<lparr>coeffs = a # xs\<rparr>"
  by (simp add: mvp_New_def list_all_iff comp_def)

lemma mvp_Eval_Cons:
  assumes G: "prime_group G"
  shows "mvp_Eval G \<lparr>coeffs = a # xs\<rparr> v = Inr (a + (\<Sum>i<length xs. ScalarOp G (xs ! i) (v ^ Suc i)))"
  using mvp_Eval_sum [OF G, of "\<lparr>coeffs = a # xs\<rparr>" v] by (simp add: sum.lessThan_Suc_shift scalar_laws [OF G] del: sum.lessThan_Suc)

lemma poly_Eval_Cons: "poly_Eval \<lparr>coeffs = s # ws\<rparr> v = s + (\<Sum>i<length ws. ws ! i * (v :: 'a::comm_ring_1) ^ Suc i)"
  by (simp add: poly_Eval_sum sum.lessThan_Suc_shift del: sum.lessThan_Suc)

lemma bs_Verify_iff:
  assumes p: "bs_wf fw p" and v: "fw e = Inr v"
  shows "bs_Verify fw p (Some x) (Some a) (Some e) (Some z) = Inr () \<longleftrightarrow> length (bs_Xs x) = bsp_k p \<and> length e = bsp_challengeLength p \<and>
    a + (\<Sum>i<bsp_k p. ScalarOp (bsp_group p) (bs_Xs x ! i) (v ^ Suc i)) = ScalarOp (bsp_group p) (bs_Gen x) z"
  using p v by (auto simp: bs_Verify_def bs_wf_def NewPolynomialModule_def mvp_New_Cons mvp_Eval_Cons simp del: list.map)

lemma bs_Verify_cases:
  assumes "bs_Verify fw p x a e z = Inr ()"
  obtains x' a' z' where "x = Some x'" "a = Some a'" "z = Some z'" "length (bs_Xs x') = bsp_k p" "length (slice e) = bsp_challengeLength p"
  using assms by (auto simp: bs_Verify_def split: option.splits if_splits)

lemma bs_Validate_iff:
  "bs_ValidateStatement p x w = Inr () \<longleftrightarrow> (\<exists>x' ws. x = Some x' \<and> w = Some ws \<and> length ws = bsp_k p \<and>
     bs_Xs x' = map (ScalarOp (bsp_group p) (bs_Gen x')) ws)"
  unfolding bs_ValidateStatement_def by (auto simp: list_all_iff intro!: nth_equalityI split: option.splits)

lemma bs_Response_ok:
  assumes "length ws = bsp_k p" "length e = bsp_challengeLength p" "fw e = Inr v"
  shows "bs_ComputeProverResponse fw p x (Some ws) a (Some s) (Some e) = Inr (Some (s + (\<Sum>i<bsp_k p. ws ! i * (v :: 'a::field) ^ Suc i)))"
  using assms by (simp add: bs_ComputeProverResponse_def poly_New_def poly_Eval_Cons)

lemma bs_relation:
  assumes G: "prime_group G" and "length ws = k"
  shows "ScalarOp G g s + (\<Sum>i<k. ScalarOp G (map (ScalarOp G g) ws ! i) (v ^ Suc i)) = ScalarOp G g (s + (\<Sum>i<k. ws ! i * v ^ Suc i))"
  using assms by (simp add: scalar_laws [OF G] scalar_sum [OF G] mult.commute)

interpretation bs: complete_protocol "bs_wf fw" "bs_sigma gbytes sbytes fw" "\<lambda>p w. True" "\<lambda>p z. z \<noteq> None" for gbytes sbytes fw
proof (unfold_locales, goal_cases)
  case (1 p x w e r a s r')
  then obtain x' ws where x: "x = Some x'" "w = Some ws" "length ws = bsp_k p" "bs_Xs x' = map (ScalarOp (bsp_group p) (bs_Gen x')) ws"
    by (auto simp: bs_sigma_def bs_Validate_iff)
  with 1(5) obtain t where t: "s = Some t" "a = Some (ScalarOp (bsp_group p) (bs_Gen x') t)"
    by (auto simp: bs_sigma_def bs_ComputeProverCommitment_def)
  obtain v where v: "fw e = Inr v" using 1(1,4) by (auto simp: bs_wf_def bs_sigma_def is_ok_iff)
  have G: "prime_group (bsp_group p)" using 1(1) by (simp add: bs_wf_def)
  show ?case using 1(1,4) x t v bs_relation [OF G x(3)]
    by (simp add: bs_sigma_def bs_Response_ok bs_Verify_iff)
qed (auto simp: bs_sigma_def bs_ComputeProverCommitment_def bs_ComputeProverResponse_def split: option.splits if_splits)

section \<open>Extraction\<close>

text \<open>A polynomial function below degree \<open>n\<close> that vanishes at \<open>n\<close> points has only zero coefficients.\<close>

lemma vanishing_coefficients:
  fixes c :: "nat \<Rightarrow> 'a::idom"
  assumes "finite A" "n \<le> card A" "\<And>a. a \<in> A \<Longrightarrow> (\<Sum>i<n. c i * a ^ i) = 0"
  shows "\<forall>i<n. c i = 0"
  using assms
proof (induction n arbitrary: c A)
  case (Suc n)
  then obtain a where a: "a \<in> A" by (metis card.empty ex_in_conv not_less_eq_eq zero_le)
  define b where "b j = (\<Sum>k<n - j. c (j + k + 1) * a ^ k)" for j
  have "(\<Sum>i\<le>n. c i * x ^ i) - (\<Sum>i\<le>n. c i * a ^ i) = (x - a) * (\<Sum>j<n. b j * x ^ j)" for x
    using polyfun_diff_alt [of n c x a] by (cases "n = 0") (simp_all add: b_def sum_distrib_right)
  with Suc.prems(3) [OF a] have factor: "(\<Sum>i<Suc n. c i * x ^ i) = (x - a) * (\<Sum>j<n. b j * x ^ j)" for x
    by (simp add: lessThan_Suc_atMost)
  have "(\<Sum>j<n. b j * x ^ j) = 0" if "x \<in> A - {a}" for x
  proof -
    have "(x - a) * (\<Sum>j<n. b j * x ^ j) = 0" unfolding factor [symmetric] by (rule Suc.prems(3)) (use that in simp)
    then show ?thesis using that by simp
  qed
  moreover have "n \<le> card (A - {a})" using Suc.prems(1,2) a by simp
  ultimately have b0: "\<forall>j<n. b j = 0" using Suc.IH [of "A - {a}" b] Suc.prems(1) by simp
  have "b j = c (Suc j) + a * b (Suc j)" if "j < n" for j
  proof -
    define m where "m = n - Suc j"
    then have m: "n - j = Suc m" using that by simp
    with m_def have "b j = (\<Sum>k<Suc m. c (j + k + 1) * a ^ k)" "b (Suc j) = (\<Sum>k<m. c (Suc j + k + 1) * a ^ k)" by (simp_all only: b_def)
    then show ?thesis by (simp add: sum.lessThan_Suc_shift sum_distrib_left mult.left_commute del: sum.lessThan_Suc)
  qed
  moreover have "b n = 0" by (simp add: b_def)
  ultimately have cS: "c (Suc j) = 0" if "j < n" for j using b0 that by (cases "Suc j = n") (metis add.right_neutral mult_zero_right Suc_lessI)+
  have "(\<Sum>i<Suc n. c i * a ^ i) = c 0" using cS by (simp add: sum.lessThan_Suc_shift del: sum.lessThan_Suc)
  with Suc.prems(3) [OF a] cS show ?case by (auto simp: less_Suc_eq_0_disj)
qed simp

text \<open>The discrete logarithms of both sides agree at more points than their degree, hence in every coefficient.\<close>

lemma bs_coefficients:
  assumes G: "prime_group G" and vs: "distinct vs" "length vs = Suc k" and xs: "length xs = k" and len: "length (coeffs poly) = Suc k"
    and eq: "\<And>i. i < Suc k \<Longrightarrow> a + (\<Sum>j<k. ScalarOp G (xs ! j) (vs ! i ^ Suc j)) = ScalarOp G g (poly_Eval poly (vs ! i))"
  shows "xs = map (ScalarOp G g) (tl (coeffs poly))"
proof -
  define ys where "ys = a # xs"
  obtain c where c: "\<And>i. ys ! i = ScalarOp G (Generator G) (c i)" by (rule column_dlog [OF G, of "\<lambda>i. ys ! i"]) (rule that, blast)
  obtain y where y: "g = ScalarOp G (Generator G) y" by (rule generator_dlog [OF G])
  have "(\<Sum>i<Suc k. (c i - y * coeffs poly ! i) * v ^ i) = 0" if v: "v \<in> set vs" for v
  proof -
    from v obtain i where i: "i < Suc k" "v = vs ! i" using vs(2) by (metis in_set_conv_nth)
    have "a + (\<Sum>j<k. ScalarOp G (xs ! j) (v ^ Suc j)) = (\<Sum>j<Suc k. ScalarOp G (ys ! j) (v ^ j))"
      by (simp add: ys_def sum.lessThan_Suc_shift scalar_laws [OF G] del: sum.lessThan_Suc)
    also have "\<dots> = ScalarOp G (Generator G) (\<Sum>j<Suc k. c j * v ^ j)"
      by (simp add: c scalar_sum [OF G] scalar_laws [OF G] mult.commute)
    finally have "ScalarOp G (Generator G) (\<Sum>j<Suc k. c j * v ^ j) = ScalarOp G (Generator G) (y * (\<Sum>j<Suc k. coeffs poly ! j * v ^ j))"
      using eq [OF i(1)] len i(2) by (simp add: poly_Eval_sum y scalar_laws [OF G] mult.commute del: sum.lessThan_Suc power_Suc)
    then have "(\<Sum>j<Suc k. c j * v ^ j) = y * (\<Sum>j<Suc k. coeffs poly ! j * v ^ j)" by (simp only: generator_inj [OF G])
    then show ?thesis by (simp add: left_diff_distrib sum_subtractf sum_distrib_left mult.assoc del: sum.lessThan_Suc)
  qed
  then have coeff: "\<forall>i<Suc k. c i - y * coeffs poly ! i = 0"
    using vs by (intro vanishing_coefficients [of "set vs"]) (simp_all add: distinct_card)
  show ?thesis
  proof (rule nth_equalityI)
    fix j assume "j < length xs"
    then have "xs ! j = ys ! Suc j" "c (Suc j) = y * coeffs poly ! Suc j" "tl (coeffs poly) ! j = coeffs poly ! Suc j" "j < length (tl (coeffs poly))"
      using coeff xs len by (auto simp: ys_def nth_tl)
    then show "xs ! j = map (ScalarOp G g) (tl (coeffs poly)) ! j" by (simp add: c y scalar_laws [OF G] mult.commute)
  qed (simp add: xs len)
qed

section \<open>Simulation\<close>

lemma scalar_Random_iff: "scalar_Random r = Inr (s, q) \<longleftrightarrow> r = s # q"
  by (auto simp: scalar_Random_def split: list.splits)

lemma bs_Commit_iff:
  "bs_ComputeProverCommitment p (Some x) w r = Inr (a, s, q) \<longleftrightarrow> (\<exists>t. r = t # q \<and> s = Some t \<and> a = Some (ScalarOp (bsp_group p) (bs_Gen x) t))"
  by (auto simp: bs_ComputeProverCommitment_def scalar_Random_def split: list.splits)

lemma ex_shift: "(\<exists>t. Q (t - c) t) \<longleftrightarrow> (\<exists>t. Q t (t + c :: 'a::group_add))"
  by (metis add_diff_cancel diff_add_cancel)

lemma bs_Simulate_iff:
  assumes p: "bs_wf fw p" and v: "fw e = Inr v"
  shows "bs_RunSimulator fw p (Some x) (Some e) r = Inr (a, z, q) \<longleftrightarrow> (\<exists>t. r = t # q \<and> z = Some t \<and>
    a = Some (ScalarOp (bsp_group p) (bs_Gen x) t - (\<Sum>i<length (bs_Xs x). ScalarOp (bsp_group p) (bs_Xs x ! i) (v ^ Suc i))))"
  using p v by (cases r) (auto simp: bs_RunSimulator_def scalar_Random_def bs_wf_def NewPolynomialModule_def mvp_New_Cons mvp_Eval_Cons simp del: list.map power_Suc)

text \<open>An instance for the witnesses: two statements over the rationals, challenges of one byte.\<close>

definition demo_bs :: "(rat, rat) BatchSchnorr" where
  "demo_bs = \<lparr>bsp_k = 2, bsp_challengeLength = 1, bsp_soundnessError = 0, bsp_group = field_group\<rparr>"

definition demo_wide :: "bytes \<Rightarrow> rat res" where
  "demo_wide e = Inr (of_nat (be_val e))"

section \<open>Properties\<close>

text \<open>C28. The batch protocol is special sound with the parameter it reports: from one more accepting transcript than there are statements, all with
  one commitment and with challenges that convert to different scalars, interpolating the responses at the challenges gives a polynomial whose
  coefficients after the first are discrete logarithms of all the statements.\<close>

theorem batch_schnorr_extract:
  assumes wf: "bs_wf fw p" and len: "length es = sg_SpecialSoundness (bs_sigma gbytes sbytes fw p)" "length zs = length es"
    and vs: "map fw es = map Inr vs" "distinct vs"
    and acc: "\<forall>i<length es. bs_Verify fw p (Some x) (Some a) (Some (es ! i)) (Some (zs ! i)) = Inr ()"
  shows "\<exists>poly. Interpolate vs zs = Inr poly \<and> bs_ValidateStatement p (Some x) (bs_NewWitness (tl (coeffs poly))) = Inr ()"
proof -
  have lv: "length vs = length es" using vs(1) by (metis length_map)
  have n: "length es = Suc (bsp_k p)" using len(1) by (simp add: bs_sigma_def)
  have fw: "fw (es ! i) = Inr (vs ! i)" if "i < length es" for i
    using that lv arg_cong [OF vs(1), of "\<lambda>ys. ys ! i"] by simp
  have G: "prime_group (bsp_group p)" using wf by (simp add: bs_wf_def)
  obtain poly where poly: "Interpolate vs zs = Inr poly" "length (coeffs poly) = length vs" "\<And>i. i < length vs \<Longrightarrow> poly_Eval poly (vs ! i) = zs ! i"
    using Interpolate_ok [of vs zs] vs(2) len(2) lv n by (metis length_0_conv nat.distinct(1))
  have ver: "length (bs_Xs x) = bsp_k p" "a + (\<Sum>j<bsp_k p. ScalarOp (bsp_group p) (bs_Xs x ! j) (vs ! i ^ Suc j)) = ScalarOp (bsp_group p) (bs_Gen x) (zs ! i)"
    if "i < length es" for i
    using acc that fw [OF that] by (auto simp: bs_Verify_iff [OF wf])
  have "bs_Xs x = map (ScalarOp (bsp_group p) (bs_Gen x)) (tl (coeffs poly))"
    using vs(2) lv n poly(2,3) ver ver(1) [of 0] by (intro bs_coefficients [OF G, of vs "bsp_k p" _ _ a]) simp_all
  then have "bs_ValidateStatement p (Some x) (Some (tl (coeffs poly))) = Inr ()" using poly(2) lv n by (auto simp: bs_Validate_iff)
  with poly(1) show ?thesis by (auto simp: bs_NewWitness_def)
qed

theorem batch_schnorr_extract_witness:
  "\<exists>poly. Interpolate [0, 1, 2] [7, 12, 25] = Inr poly \<and>
    bs_ValidateStatement demo_bs (bs_NewStatement 3 [3, 12]) (bs_NewWitness (tl (coeffs poly))) = Inr ()"
proof -
  have "bs_wf demo_wide demo_bs" by (simp add: bs_wf_def demo_bs_def demo_wide_def field_group)
  moreover have "bs_Verify demo_wide demo_bs (bs_NewStatement 3 [3, 12]) (Some 21) (Some [0]) (Some 7) = Inr ()"
    "bs_Verify demo_wide demo_bs (bs_NewStatement 3 [3, 12]) (Some 21) (Some [1]) (Some 12) = Inr ()"
    "bs_Verify demo_wide demo_bs (bs_NewStatement 3 [3, 12]) (Some 21) (Some [2]) (Some 25) = Inr ()"
    unfolding demo_bs_def demo_wide_def by code_simp+
  then have "\<forall>i<length [[0], [1], [2 :: byte]]. bs_Verify demo_wide demo_bs (bs_NewStatement 3 [3, 12]) (Some 21) (Some ([[0], [1], [2]] ! i)) (Some ([7, 12, 25] ! i)) = Inr ()"
    by (auto simp: less_Suc_eq numeral_3_eq_3)
  moreover have "map demo_wide [[0], [1], [2]] = map Inr [0, 1, 2]" by (simp add: demo_wide_def be_val_def)
  moreover have "sg_SpecialSoundness (bs_sigma (\<lambda>_. []) (\<lambda>_. []) demo_wide demo_bs) = 3" by (simp add: bs_sigma_def demo_bs_def)
  ultimately show ?thesis
    using batch_schnorr_extract [of demo_wide demo_bs "[[0], [1], [2]]" "\<lambda>_. []" "\<lambda>_. []" "[7, 12, 25]" "[0, 1, 2]" "\<lparr>bs_Gen = 3, bs_Xs = [3, 12]\<rparr>" 21]
    by (simp add: bs_NewStatement_def)
qed

text \<open>The batch protocol is zero knowledge: for a true statement and any challenge, the transcripts of the honest prover are exactly those of the
  simulator, which does not use the witness, and for a statement of the right size every simulated transcript is accepted. For a statement of
  another size the simulator still returns a transcript, which the verifier then rejects.\<close>

theorem batch_schnorr_zero_knowledge:
  assumes wf: "bs_wf fw p" and e: "length e = bsp_challengeLength p"
  shows "(bs_ValidateStatement p x w = Inr () \<longrightarrow>
      ((\<exists>r s. bs_ComputeProverCommitment p x w r = Inr (a, s, q) \<and> bs_ComputeProverResponse fw p x w a s (Some e) = Inr z) \<longleftrightarrow>
       (\<exists>r. bs_RunSimulator fw p x (Some e) r = Inr (a, z, q)))) \<and>
    (bs_RunSimulator fw p x (Some e) r = Inr (a, z, q) \<longrightarrow>
      (\<exists>x'. x = Some x' \<and> bs_Verify fw p x a (Some e) z = (if length (bs_Xs x') = bsp_k p then Inr () else Inl ErrVerificationFailed)))"
proof -
  obtain v where v: "fw e = Inr v" using wf e by (auto simp: bs_wf_def is_ok_iff)
  have G: "prime_group (bsp_group p)" using wf by (simp add: bs_wf_def)
  have "(\<exists>r s. bs_ComputeProverCommitment p x w r = Inr (a, s, q) \<and> bs_ComputeProverResponse fw p x w a s (Some e) = Inr z) \<longleftrightarrow>
    (\<exists>r. bs_RunSimulator fw p x (Some e) r = Inr (a, z, q))" if val: "bs_ValidateStatement p x w = Inr ()"
  proof -
    from val obtain x' ws where x: "x = Some x'" "w = Some ws" "length ws = bsp_k p" "bs_Xs x' = map (ScalarOp (bsp_group p) (bs_Gen x')) ws"
      by (auto simp: bs_Validate_iff)
    let ?S = "\<Sum>i<bsp_k p. ws ! i * v ^ Suc i" and ?g = "ScalarOp (bsp_group p) (bs_Gen x')"
    have "(\<Sum>i<bsp_k p. ScalarOp (bsp_group p) (map ?g ws ! i) (v ^ Suc i)) = ?g ?S"
      using bs_relation [OF G x(3), of "bs_Gen x'" 0 v] by (simp add: scalar_laws [OF G])
    then have sim: "(\<exists>r. bs_RunSimulator fw p x (Some e) r = Inr (a, z, q)) \<longleftrightarrow> (\<exists>t. z = Some t \<and> a = Some (?g (t - ?S)))"
      using x by (simp only: bs_Simulate_iff [OF wf v]) (auto simp: scalar_laws [OF G])
    note rsp = bs_Response_ok [where fw = fw and e = e and v = v, OF x(3) e v]
    have "(\<exists>r s. bs_ComputeProverCommitment p x w r = Inr (a, s, q) \<and> bs_ComputeProverResponse fw p x w a s (Some e) = Inr z) \<longleftrightarrow>
      (\<exists>t. a = Some (?g t) \<and> z = Some (t + ?S))"
      (is "?L \<longleftrightarrow> ?R")
    proof
      show ?R if ?L using that unfolding x(1,2) by (auto simp: bs_Commit_iff rsp simp del: power_Suc)
      assume ?R
      then obtain t where "a = Some (?g t)" "z = Some (t + ?S)" by blast
      then show ?L unfolding x(1,2) by (intro exI [of _ "t # q"] exI [of _ "Some t"]) (simp add: bs_Commit_iff rsp del: power_Suc)
    qed
    then show ?thesis unfolding sim using ex_shift [of "\<lambda>t u. z = Some u \<and> a = Some (?g t)" ?S] by (simp only: conj_commute)
  qed
  moreover have "\<exists>x'. x = Some x' \<and> bs_Verify fw p x a (Some e) z = (if length (bs_Xs x') = bsp_k p then Inr () else Inl ErrVerificationFailed)"
    if sim: "bs_RunSimulator fw p x (Some e) r = Inr (a, z, q)"
  proof -
    obtain x' where x: "x = Some x'" using sim by (auto simp: bs_RunSimulator_def NewPolynomialModule_def split: option.splits)
    with sim obtain t where t: "z = Some t" "a = Some (ScalarOp (bsp_group p) (bs_Gen x') t - (\<Sum>i<length (bs_Xs x'). ScalarOp (bsp_group p) (bs_Xs x' ! i) (v ^ Suc i)))"
      by (auto simp: bs_Simulate_iff [OF wf v] simp del: power_Suc)
    show ?thesis
    proof (cases "length (bs_Xs x') = bsp_k p")
      case True
      then show ?thesis using bs_Verify_iff [OF wf v] e by (simp add: x t del: power_Suc)
    qed (simp add: x t bs_Verify_def)
  qed
  ultimately show ?thesis by blast
qed

theorem batch_schnorr_zero_knowledge_witness:
  "(\<exists>r. bs_RunSimulator demo_wide demo_bs (bs_NewStatement 3 [3, 12]) (Some [2]) r = Inr (Some 21, Some 25, [])) \<and>
    bs_Verify demo_wide demo_bs (bs_NewStatement 3 [3]) (Some 0) (Some [2]) (Some 2) = Inl ErrVerificationFailed"
proof -
  have wf: "bs_wf demo_wide demo_bs" by (simp add: bs_wf_def demo_bs_def demo_wide_def field_group)
  have val: "bs_ValidateStatement demo_bs (bs_NewStatement 3 [3, 12]) (Some [1, 4]) = Inr ()"
    and com: "bs_ComputeProverCommitment demo_bs (bs_NewStatement 3 [3, 12]) (Some [1, 4]) [7] = Inr (Some 21, Some 7, [])"
    and rsp: "bs_ComputeProverResponse demo_wide demo_bs (bs_NewStatement 3 [3, 12]) (Some [1, 4]) (Some 21) (Some 7) (Some [2]) = Inr (Some 25)"
    and sim: "bs_RunSimulator demo_wide demo_bs (bs_NewStatement 3 [3]) (Some [2]) [2] = Inr (Some 0, Some 2, [])"
    unfolding demo_bs_def demo_wide_def by code_simp+
  have len: "length [2 :: byte] = bsp_challengeLength demo_bs" by (simp add: demo_bs_def)
  show ?thesis
    using batch_schnorr_zero_knowledge [OF wf len, of "bs_NewStatement 3 [3, 12]" "Some [1, 4]" "Some 21" "[]" "Some 25"] val com rsp
      batch_schnorr_zero_knowledge [OF wf len, of "bs_NewStatement 3 [3]" None "Some 0" "[]" "Some 2" "[2]"] sim
    by (auto simp: bs_NewStatement_def demo_bs_def)
qed

end
