(* ===== verification/Gennaro.thy ===== *)
theory Gennaro
  imports HJKY SigmaCompose BatchSchnorr
begin

text \<open>
  Distributed key generation (\<open>pkg/mpc/dkg/gennaro\<close>): every party deals a Pedersen sharing of a random secret with a proof that it knows an opening
  of the verification vector, then publishes the Feldman vector of the same column with a proof that it knows the discrete logarithms. A party
  checks the proofs and its shares against both vectors and returns the sum of the shares as its shard of the common key. Non-interactive proofs are made by
  the compiler that the participant names (\<open>pkg/proofs/sigma/compiler\<close>). The parameters of the model are gathered in one record: the sponge,
  the encodings of elements, messages and proofs, the hash into the group, the torsion test and the two Fischlin compilers. The random source is the
  list of the scalars it will deliver.
\<close>

section \<open>Non-interactive protocols\<close>

text \<open>\<open>NonInteractiveProtocol\<close>: provers and verifiers hold a context; a prover also draws from the random source of its sigma protocol.\<close>

record ('x, 'w, 'r) NonInteractiveProtocol =
  ni_NewProver :: "Context option \<Rightarrow> Context res"
  ni_Prove :: "Context \<Rightarrow> 'x \<Rightarrow> 'w \<Rightarrow> 'r \<Rightarrow> (bytes \<times> Context \<times> 'r) res"
  ni_NewVerifier :: "Context option \<Rightarrow> Context res"
  ni_Verify :: "Context \<Rightarrow> 'x \<Rightarrow> bytes \<Rightarrow> Context res"

definition fs_Name :: string where
  "fs_Name = ''FiatShamir''"
definition fischlin_Name :: string where
  "fischlin_Name = ''Fischlin''"
definition randfischlin_Name :: string where
  "randfischlin_Name = ''RandomisedFischlin''"

definition fs_protocol ::
  "xof \<Rightarrow> ('a \<times> 'z \<Rightarrow> bytes res) \<Rightarrow> (bytes \<Rightarrow> ('a \<times> 'z) option res) \<Rightarrow> ('x, 'w, 'a, 's, 'z, 'r) SigmaProtocol \<Rightarrow> ('x, 'w, 'r) NonInteractiveProtocol" where
  "fs_protocol xof enc dec sp = \<lparr>ni_NewProver = fs_NewProver sp, ni_Prove = fs_Prove xof enc sp, ni_NewVerifier = fs_NewVerifier sp, ni_Verify = fs_Verify xof dec sp\<rparr>"

definition Compile ::
  "xof \<Rightarrow> ('a \<times> 'z \<Rightarrow> bytes res) \<Rightarrow> (bytes \<Rightarrow> ('a \<times> 'z) option res) \<Rightarrow>
     (string \<Rightarrow> ('x, 'w, 'a, 's, 'z, 'r) SigmaProtocol \<Rightarrow> 'r \<Rightarrow> ('x, 'w, 'r) NonInteractiveProtocol res) \<Rightarrow>
     string \<Rightarrow> ('x, 'w, 'a, 's, 'z, 'r) SigmaProtocol \<Rightarrow> 'r \<Rightarrow> ('x, 'w, 'r) NonInteractiveProtocol res" where
  "Compile xof enc dec fischlin compilerName sigmaProtocol prng =
     (if compilerName = fs_Name then rbind (fs_NewCompiler (Some sigmaProtocol)) (\<lambda>sp. Inr (fs_protocol xof enc dec sp))
      else if compilerName = fischlin_Name then fischlin compilerName sigmaProtocol prng
      else if compilerName = randfischlin_Name then fischlin compilerName sigmaProtocol prng
      else Inl ErrUnsupportedType)"

definition IsSupported :: "string \<Rightarrow> bool" where
  "IsSupported name \<longleftrightarrow> name = fs_Name \<or> name = fischlin_Name \<or> name = randfischlin_Name"

section \<open>Participant\<close>

type_synonym ('g, 'a) okamoto_protocol = "('g option list, 'a list option list, 'g option list, 'a list option list, 'a list option list, 'a list) SigmaProtocol"
type_synonym ('g, 'a) batch_protocol = "('g BatchStatement option, 'a list option, 'g option, 'a option, 'a option, 'a list) SigmaProtocol"

record ('g, 'a) GennaroEnv =
  ge_xof :: xof
  ge_order :: nat
  ge_groupName :: string
  ge_gbytes :: "'g \<Rightarrow> bytes"
  ge_sbytes :: "'a \<Rightarrow> bytes"
  ge_FromWideBytes :: "bytes \<Rightarrow> 'a res"
  ge_elementSize :: nat
  ge_Hash :: "bytes \<Rightarrow> 'g res"
  ge_torsionFree :: "'g \<Rightarrow> bool"
  ge_okEnc :: "'g option list \<times> 'a list option list \<Rightarrow> bytes res"
  ge_okDec :: "bytes \<Rightarrow> ('g option list \<times> 'a list option list) option res"
  ge_okFischlin :: "string \<Rightarrow> ('g, 'a) okamoto_protocol \<Rightarrow> 'a list \<Rightarrow> ('g option list, 'a list option list, 'a list) NonInteractiveProtocol res"
  ge_bsEnc :: "'g option \<times> 'a option \<Rightarrow> bytes res"
  ge_bsDec :: "bytes \<Rightarrow> ('g option \<times> 'a option) option res"
  ge_bsFischlin :: "string \<Rightarrow> ('g, 'a) batch_protocol \<Rightarrow> 'a list \<Rightarrow> ('g BatchStatement option, 'a list option, 'a list) NonInteractiveProtocol res"

definition gennaro_transcriptLabel :: string where
  "gennaro_transcriptLabel = ''BRON_CRYPTO_DKG_GENNARO-''"
definition secondPedersenGeneratorLabel :: string where
  "secondPedersenGeneratorLabel = ''BRON_CRYPTO_DKG_GENNARO_PEDERSEN_KEY_SECOND_GENERATOR-''"
definition batchOkamotoProverIDLabel :: string where
  "batchOkamotoProverIDLabel = ''BRON_CRYPTO_DKG_GENNARO_BATCH_OKAMOTO_PROVER_ID-''"
definition batchSchnorrProverIDLabel :: string where
  "batchSchnorrProverIDLabel = ''BRON_CRYPTO_DKG_GENNARO_BATCH_SCHNORR_PROVER_ID-''"

record ('g, 'a) GennaroParticipant =
  gp_ctx :: Context
  gp_group :: "('g, 'a) PrimeGroup"
  gp_prng :: "'a list"
  gp_niCompilerName :: string
  gp_key :: "('g, 'a) CommitmentKey"
  gp_lsss :: "'a KWScheme"
  gp_pedersenVSS :: "('g, 'a) PedersenScheme"
  gp_feldmanVSS :: "('g, 'a) FeldmanScheme"
  gp_localPedersenDealerOutput :: "((ID \<times> 'a PedersenShare) list \<times> 'g VerificationVector) option"
  gp_pedersenDealerFunc :: "'a PedersenDealerFunc option"
  gp_localFeldmanVerificationVector :: "'g VerificationVector option"
  gp_localShare :: "'a PedersenShare option"
  gp_receivedShares :: "ID \<rightharpoonup> 'a PedersenShare"
  gp_summedShareValue :: "'a list"
  gp_round :: "64 word"

definition gp_SharingID :: "('g, 'a) GennaroParticipant \<Rightarrow> ID" where
  "gp_SharingID p = ctx_holderID (gp_ctx p)"

definition gp_MSP :: "('g, 'a) GennaroParticipant \<Rightarrow> 'a MSP" where
  "gp_MSP p = kw_msp (gp_lsss p)"

text \<open>\<open>%s\<close> of the session identifier, a byte array, prints its bytes. Extracting the key changes the transcript.\<close>

definition gennaro_NewParticipant ::
  "('g, 'a) GennaroEnv \<Rightarrow> Context option \<Rightarrow> ('g::ab_group_add, 'a::field) PrimeGroup option \<Rightarrow> Monotone option \<Rightarrow> string \<Rightarrow> 'a list option \<Rightarrow>
     ('g, 'a) GennaroParticipant res option" where
  "gennaro_NewParticipant E ctx grp ac niCompilerName prng = (case (ctx, ac) of
     (Some c, Some a) \<Rightarrow>
       if \<not> hs_Equal (ctx_Quorum c) (as_Shareholders a) then Some (Inl ErrInvalidArgument)
       else (case (grp, prng) of
         (Some G, Some rs) \<Rightarrow>
           (let dst = str_bytes (gennaro_transcriptLabel @ ''-'') @ ctx_sid c @ str_bytes (''-'' @ ge_groupName E);
                extr = (\<lambda>t label. ts_Extract (ge_xof E) (Some t) (str_bytes label) (Some (ge_elementSize E, ge_Hash E))) in
            case rbind (ctx_Separate c dst) (\<lambda>c.
                 rbind (ExtractCommitmentKey G (\<lambda>t label. rbind (extr t label) (\<lambda>(h, _). Inr h)) (Some (ctx_tape c)) secondPedersenGeneratorLabel (Some (Generator G))) (\<lambda>key.
                 rbind (extr (ctx_tape c) secondPedersenGeneratorLabel) (\<lambda>(_, tape). Inr (c\<lparr>ctx_tape := tape\<rparr>, key)))) of
              Inl e \<Rightarrow> Some (Inl e)
            | Inr (c, key) \<Rightarrow> (case (pvss_NewScheme (Some key) ac, feldman_NewScheme grp ac, kw_NewScheme (Some (ScalarStructure G)) a) of
                (Some pvss, Some fvss, Some kw) \<Rightarrow>
                  Some (rbind pvss (\<lambda>pedersenVSS. rbind fvss (\<lambda>feldmanVSS. rbind kw (\<lambda>lsss.
                    Inr \<lparr>gp_ctx = c, gp_group = G, gp_prng = rs, gp_niCompilerName = niCompilerName, gp_key = key, gp_lsss = lsss,
                         gp_pedersenVSS = pedersenVSS, gp_feldmanVSS = feldmanVSS, gp_localPedersenDealerOutput = None, gp_pedersenDealerFunc = None,
                         gp_localFeldmanVerificationVector = None, gp_localShare = None, gp_receivedShares = Map.empty,
                         gp_summedShareValue = [], gp_round = 1\<rparr>))))
              | _ \<Rightarrow> None))
       | _ \<Rightarrow> Some (Inl ErrInvalidArgument))
   | _ \<Rightarrow> Some (Inl ErrInvalidArgument))"

section \<open>Messages\<close>

text \<open>Both broadcasts carry a verification vector and a proof.\<close>

record 'g GennaroBroadcast =
  gb_VerificationVector :: "'g VerificationVector option"
  gb_Proof :: bytes

definition gb_check ::
  "('g, 'a) GennaroEnv \<Rightarrow> ('g, 'a) GennaroParticipant \<Rightarrow> 'g VerificationVector option \<Rightarrow> bytes \<Rightarrow> unit res" where
  "gb_check E p vector proofBytes = (case vector of None \<Rightarrow> Inl ErrValidation
     | Some vv \<Rightarrow>
         if mcols (vv_value vv) \<noteq> 1 then Inl ErrValidation
         else if mrows (vv_value vv) \<noteq> msp_D (gp_MSP p) then Inl ErrValidation
         else rbind (FoldOrError (\<lambda>_ i. case mat_Get (vv_value vv) (int i) 0 of
                Inl _ \<Rightarrow> Inl ErrValidation
              | Inr entry \<Rightarrow> if \<not> ge_torsionFree E entry then Inl ErrValidation else Inr ()) () [0..<mrows (vv_value vv)]) (\<lambda>_.
           if length proofBytes = 0 then Inl ErrValidation else Inr ()))"

definition gen1_Validate :: "('g, 'a) GennaroEnv \<Rightarrow> ('g, 'a) GennaroParticipant \<Rightarrow> ID \<Rightarrow> 'g GennaroBroadcast option \<Rightarrow> unit res" where
  "gen1_Validate E p i m = (case m of None \<Rightarrow> Inl ErrValidation | Some m \<Rightarrow> gb_check E p (gb_VerificationVector m) (gb_Proof m))"

definition gen1u_Validate :: "('g, 'a) GennaroParticipant \<Rightarrow> ID \<Rightarrow> 'a PedersenShare option option \<Rightarrow> unit res" where
  "gen1u_Validate p i m = (case m of
     Some (Some share) \<Rightarrow> if ps_id share \<noteq> gp_SharingID p then Inl ErrValidation else Inr ()
   | _ \<Rightarrow> Inl ErrValidation)"

definition gen2_Validate :: "('g, 'a) GennaroEnv \<Rightarrow> ('g, 'a) GennaroParticipant \<Rightarrow> ID \<Rightarrow> 'g GennaroBroadcast option \<Rightarrow> unit res" where
  "gen2_Validate E p i m = (case m of None \<Rightarrow> Inl ErrValidation | Some m \<Rightarrow> gb_check E p (gb_VerificationVector m) (gb_Proof m))"

section \<open>Rounds\<close>

text \<open>The protocols that both sides of a proof build from the state.\<close>

definition batchOkamoto ::
  "('g, 'a) GennaroEnv \<Rightarrow> ('g::ab_group_add, 'a::field) GennaroParticipant \<Rightarrow> ('g option list, 'a list option list, 'a list) NonInteractiveProtocol res" where
  "batchOkamoto E p =
     rbind (okamoto_NewProtocol (ge_order E) (ge_sbytes E) (gp_group p) [ck_g (gp_key p), ck_h (gp_key p)] (Some (gp_prng p))) (\<lambda>okamotoProtocol.
     rbind (sigand_Compose (Some (maurer_sigma (ge_gbytes E) okamotoProtocol)) (msp_D (gp_MSP p))) (\<lambda>batchOkamotoProtocol.
     Compile (ge_xof E) (ge_okEnc E) (ge_okDec E) (ge_okFischlin E) (gp_niCompilerName p) batchOkamotoProtocol (gp_prng p)))"

definition batchSchnorr ::
  "('g, 'a) GennaroEnv \<Rightarrow> ('g::ab_group_add, 'a::field) GennaroParticipant \<Rightarrow> ('g BatchStatement option, 'a list option, 'a list) NonInteractiveProtocol res" where
  "batchSchnorr E p =
     rbind (bs_NewProtocol (int (msp_D (gp_MSP p))) (Some (gp_group p)) (Some (gp_prng p))) (\<lambda>batchSchnorrProtocol.
     Compile (ge_xof E) (ge_bsEnc E) (ge_bsDec E) (ge_bsFischlin E) (gp_niCompilerName p)
       (bs_sigma (ge_gbytes E) (ge_sbytes E) (ge_FromWideBytes E) batchSchnorrProtocol) (gp_prng p))"

text \<open>The context of the prover with identifier \<open>i\<close>: a clone of the session context with the identifier appended.\<close>

definition prover_ctx :: "('g, 'a) GennaroParticipant \<Rightarrow> string \<Rightarrow> ID \<Rightarrow> Context res" where
  "prover_ctx p label i = ctx_Append (ctx_Clone (gp_ctx p)) label (Inr (le64 i))"

definition gennaro_Round1 ::
  "('g, 'a) GennaroEnv \<Rightarrow> ('g::ab_group_add, 'a::field) GennaroParticipant \<Rightarrow>
     ('g GennaroBroadcast \<times> (ID \<times> 'a PedersenShare) list \<times> ('g, 'a) GennaroParticipant) res" where
  "gennaro_Round1 E p =
     (if gp_round p \<noteq> 1 then Inl ErrRound
      else rbind (pvss_DealRandomAndRevealDealerFunc (gp_pedersenVSS p) (Some (gp_prng p))) (\<lambda>(shares, vv, _, df, prng).
        let p = p\<lparr>gp_localPedersenDealerOutput := Some (shares, vv), gp_pedersenDealerFunc := Some df, gp_prng := prng\<rparr> in
        case map_of shares (gp_SharingID p) of None \<Rightarrow> Inl ErrFailed
        | Some share \<Rightarrow>
            rbind (MapOrError (\<lambda>i. case map_of shares i of None \<Rightarrow> Inl ErrFailed | Some s \<Rightarrow> Inr (i, s)) (OtherPartiesOrdered (gp_ctx p))) (\<lambda>r1uo.
            rbind (batchOkamoto E p) (\<lambda>niBatchOkamoto.
            rbind (prover_ctx p batchOkamotoProverIDLabel (gp_SharingID p)) (\<lambda>proverCtx.
            rbind (ni_NewProver niBatchOkamoto (Some proverCtx)) (\<lambda>prover.
            let secrets = mat_Iter (df_randomColumn (pdf_g df)); blindings = mat_Iter (df_randomColumn (pdf_h df)); vector = mat_Iter (vv_value vv) in
            rbind (MapOrError (\<lambda>i. if length blindings \<le> i then Inl Panic
                else rbind (okamoto_NewWitness [secrets ! i, blindings ! i]) (\<lambda>w.
                  if length vector \<le> i then Inl Panic
                  else rbind (okamoto_NewStatement (Some (vector ! i))) (\<lambda>x. Inr (w, x)))) [0..<length secrets]) (\<lambda>wxs.
            rbind (ComposeWitnesses (\<lambda>w. w = None) (map fst wxs)) (\<lambda>witness.
            rbind (ComposeStatements (\<lambda>x. x = None) (map snd wxs)) (\<lambda>statement.
            rbind (ni_Prove niBatchOkamoto prover statement witness (gp_prng p)) (\<lambda>(proofBytes, _, prng).
            Inr (\<lparr>gb_VerificationVector = Some vv, gb_Proof = proofBytes\<rparr>, r1uo,
                 p\<lparr>gp_localShare := Some share, gp_prng := prng, gp_round := gp_round p + 1\<rparr>)))))))))))"

definition with_tag :: "ID \<Rightarrow> 'b res \<Rightarrow> 'b res" where
  "with_tag i r = (case r of Inl e \<Rightarrow> Inl (Blame i e) | Inr x \<Rightarrow> Inr x)"

text \<open>One turn of the loop of the second round, on the received shares and the sum of their values; \<open>errs.New\<close> without a sentinel is \<open>ErrArgument\<close>.\<close>

definition gennaro_receive ::
  "('g, 'a) GennaroEnv \<Rightarrow> ('g::ab_group_add, 'a::field) GennaroParticipant \<Rightarrow> (ID \<rightharpoonup> 'g GennaroBroadcast option) \<Rightarrow> (ID \<rightharpoonup> 'a PedersenShare option option) \<Rightarrow>
     (ID \<rightharpoonup> 'a PedersenShare) \<times> 'a list \<Rightarrow> ID \<Rightarrow> ((ID \<rightharpoonup> 'a PedersenShare) \<times> 'a list) res" where
  "gennaro_receive E p r2bin r2uin s pid = (case (r2bin pid, r2uin pid) of
     (Some (Some inB), Some (Some inU)) \<Rightarrow>
       rbind (batchOkamoto E p) (\<lambda>niBatchOkamoto.
       rbind (prover_ctx p batchOkamotoProverIDLabel pid) (\<lambda>verifierCtx.
       rbind (ni_NewVerifier niBatchOkamoto (Some verifierCtx)) (\<lambda>verifier.
       case (gb_VerificationVector inB, inU) of
         (Some vv, Some share) \<Rightarrow>
           rbind (MapOrError (\<lambda>x. with_tag pid (okamoto_NewStatement (Some x))) (mat_Iter (vv_value vv))) (\<lambda>okStatements.
           rbind (with_tag pid (ComposeStatements (\<lambda>x. x = None) okStatements)) (\<lambda>composedStatements.
           rbind (with_tag pid (ni_Verify niBatchOkamoto verifier composedStatements (gb_Proof inB))) (\<lambda>_.
           rbind (with_tag pid (pvss_Verify (gp_pedersenVSS p) (Some share) (Some vv))) (\<lambda>_.
           if length (snd s) \<noteq> length (ps_secret share) then Inl (Blame pid ErrArgument)
           else Inr ((fst s)(pid \<mapsto> share), map2 (+) (snd s) (ps_secret share))))))
       | _ \<Rightarrow> Inl Panic)))
   | _ \<Rightarrow> Inl Panic)"

definition gennaro_Round2 ::
  "('g, 'a) GennaroEnv \<Rightarrow> ('g::ab_group_add, 'a::field) GennaroParticipant \<Rightarrow> (ID \<rightharpoonup> 'g GennaroBroadcast option) \<Rightarrow> (ID \<rightharpoonup> 'a PedersenShare option option) \<Rightarrow>
     ('g GennaroBroadcast \<times> ('g, 'a) GennaroParticipant) res" where
  "gennaro_Round2 E p r2bin r2uin =
     (if gp_round p \<noteq> 2 then Inl ErrRound
      else rbind (ValidateIncomingMessages (gen1_Validate E) p (OtherPartiesOrdered (gp_ctx p)) r2bin) (\<lambda>_.
        rbind (ValidateIncomingMessages gen1u_Validate p (OtherPartiesOrdered (gp_ctx p)) r2uin) (\<lambda>_.
        case (gp_pedersenDealerFunc p, gp_localShare p) of
          (Some df, Some localShare) \<Rightarrow>
            rbind (FoldOrError (gennaro_receive E p r2bin r2uin) (gp_receivedShares p, ps_secret localShare) (OtherPartiesOrdered (gp_ctx p)))
              (\<lambda>(receivedShares, summedShareValue).
            rbind (Lift (ScalarOp (gp_group p)) (Some (df_randomColumn (pdf_g df))) (ck_g (gp_key p))) (\<lambda>liftedRandomColumn.
            rbind (NewVerificationVector (Some liftedRandomColumn) (Some (gp_MSP p))) (\<lambda>vv.
            rbind (batchSchnorr E p) (\<lambda>niBatchSchnorr.
            rbind (prover_ctx p batchSchnorrProverIDLabel (gp_SharingID p)) (\<lambda>proverCtx.
            rbind (ni_NewProver niBatchSchnorr (Some proverCtx)) (\<lambda>prover.
            rbind (ni_Prove niBatchSchnorr prover (bs_NewStatement (ck_g (gp_key p)) (mat_Iter (vv_value vv)))
                (bs_NewWitness (mat_Iter (df_randomColumn (pdf_g df)))) (gp_prng p)) (\<lambda>(proofBytes, _, prng).
            Inr (\<lparr>gb_VerificationVector = Some vv, gb_Proof = proofBytes\<rparr>,
                 p\<lparr>gp_receivedShares := receivedShares, gp_summedShareValue := summedShareValue, gp_localFeldmanVerificationVector := Some vv,
                   gp_prng := prng, gp_round := gp_round p + 1\<rparr>))))))))
        | _ \<Rightarrow> Inl Panic)))"

text \<open>One turn of the loop of the third round, on the sum of the Feldman vectors.\<close>

definition gennaro_confirm ::
  "('g, 'a) GennaroEnv \<Rightarrow> ('g::ab_group_add, 'a::field) GennaroParticipant \<Rightarrow> ('g BatchStatement option, 'a list option, 'a list) NonInteractiveProtocol \<Rightarrow>
     (ID \<rightharpoonup> 'g GennaroBroadcast option) \<Rightarrow> 'g VerificationVector \<Rightarrow> ID \<Rightarrow> 'g VerificationVector res" where
  "gennaro_confirm E p niBatchSchnorr r3bi summed pid = (case r3bi pid of
     Some (Some inB) \<Rightarrow>
       rbind (prover_ctx p batchSchnorrProverIDLabel pid) (\<lambda>verifierCtx.
       rbind (ni_NewVerifier niBatchSchnorr (Some verifierCtx)) (\<lambda>verifier.
       case (gb_VerificationVector inB, gp_receivedShares p pid) of
         (Some vv, received) \<Rightarrow>
           rbind (with_tag pid (ni_Verify niBatchSchnorr verifier (bs_NewStatement (ck_g (gp_key p)) (mat_Iter (vv_value vv))) (gb_Proof inB))) (\<lambda>_.
           case received of None \<Rightarrow> Inl Panic
           | Some share \<Rightarrow>
               rbind (kw_NewShare (ps_id share) (ps_secret share)) (\<lambda>kwShare.
               rbind (with_tag pid (feldman_Verify (gp_feldmanVSS p) (Some kwShare) (Some vv))) (\<lambda>_.
               with_tag pid (vv_Op (Some summed) (Some vv)))))
       | _ \<Rightarrow> Inl Panic))
   | _ \<Rightarrow> Inl Panic)"

definition gennaro_Round3 ::
  "('g, 'a) GennaroEnv \<Rightarrow> ('g::ab_group_add, 'a::field) GennaroParticipant \<Rightarrow> (ID \<rightharpoonup> 'g GennaroBroadcast option) \<Rightarrow>
     (('g, 'a) BaseShard \<times> ('g, 'a) GennaroParticipant) res" where
  "gennaro_Round3 E p r3bi =
     (if gp_round p \<noteq> 3 then Inl ErrRound
      else rbind (ValidateIncomingMessages (gen2_Validate E) p (OtherPartiesOrdered (gp_ctx p)) r3bi) (\<lambda>_.
        rbind (batchSchnorr E p) (\<lambda>niBatchSchnorr.
        case gp_localFeldmanVerificationVector p of None \<Rightarrow> Inl Panic
        | Some vv \<Rightarrow>
            rbind (FoldOrError (gennaro_confirm E p niBatchSchnorr r3bi) vv (OtherPartiesOrdered (gp_ctx p))) (\<lambda>summed.
            rbind (kw_NewShare (gp_SharingID p) (gp_summedShareValue p)) (\<lambda>outputShare.
            rbind (NewBaseShard (gp_group p) (Some outputShare) (Some summed) (Some (gp_MSP p))) (\<lambda>out.
            Inr (out, p\<lparr>gp_round := gp_round p + 1\<rparr>)))))))"

text \<open>The runner over a router; messages are pointers on the wire.\<close>

definition gennaro_Run ::
  "('g, 'a) GennaroEnv \<Rightarrow> 'g GennaroBroadcast option echo_codec \<Rightarrow> ('a PedersenShare option option \<Rightarrow> bytes res) \<Rightarrow> (bytes \<Rightarrow> 'a PedersenShare option option res) \<Rightarrow>
     ('g::ab_group_add, 'a::field) GennaroParticipant \<Rightarrow> Router \<Rightarrow> Router \<times> ('g, 'a) BaseShard res" where
  "gennaro_Run E k encU decU p rt =
     then_do (rt, gennaro_Round1 E p) (\<lambda>rt (r1OutB, r1OutU, p).
     then_do (Exchange k encU decU rt ''GennaroDKGRound1'' (Some (msp_Shareholders (gp_MSP p))) (Some r1OutB) (map (\<lambda>(i, s). (i, Some (Some s))) r1OutU)) (\<lambda>rt (r2InB, r2InU).
     then_do (rt, gennaro_Round2 E p (map_of r2InB) (map_of r2InU)) (\<lambda>rt (r2OutB, p).
     then_do (BroadcastExchange k rt ''GennaroDKGRound2'' (Some (msp_Shareholders (gp_MSP p))) (Some r2OutB)) (\<lambda>rt r3InB.
     then_do (rt, gennaro_Round3 E p (map_of r3InB)) (\<lambda>rt (dkgOutput, p).
     (rt, Inr dkgOutput))))))"

section \<open>A run of the rounds\<close>

text \<open>A participant over the programme \<open>m\<close> and the key \<open>key\<close>, with identifier \<open>i\<close> in the quorum \<open>q\<close>.\<close>

definition gennaro_state ::
  "('g, 'a) PrimeGroup \<Rightarrow> 'a MSP \<Rightarrow> ('g, 'a) CommitmentKey \<Rightarrow> ID list \<Rightarrow> ID \<Rightarrow> ('g, 'a) GennaroParticipant \<Rightarrow> bool" where
  "gennaro_state G m key q i p \<longleftrightarrow> gp_group p = G \<and> gp_lsss p = \<lparr>kw_msp = m\<rparr> \<and> gp_key p = key \<and>
     gp_pedersenVSS p = \<lparr>pvss_key = key, pvss_lsss = \<lparr>kw_msp = m\<rparr>\<rparr> \<and> gp_feldmanVSS p = \<lparr>fs_group = G, fs_lsss = \<lparr>kw_msp = m\<rparr>\<rparr> \<and>
     ck_group key = G \<and> ck_g key = Generator G \<and> ctx_holderID (gp_ctx p) = i \<and> ctx_sortedQuorum (gp_ctx p) = q"

lemma gennaro_NewParticipant_state:
  assumes new: "gennaro_NewParticipant E (Some c) (Some G) (Some a) nm (Some rs) = Some (Inr p)"
    and msp: "as_InducedMSP (Some (ScalarStructure G)) a = Some (Inr m)"
  shows "gennaro_state G m (gp_key p) (ctx_sortedQuorum c) (ctx_holderID c) p" "gp_prng p = rs" "gp_round p = 1" "gp_niCompilerName p = nm"
    "gp_receivedShares p = Map.empty" "ck_h (gp_key p) \<noteq> 0"
proof -
  have grp: "ck_group k = G" if "ExtractCommitmentKey G e t l b = Inr k" for e :: "'s \<Rightarrow> string \<Rightarrow> 'a res" and t l b k
    using that by (auto simp: ExtractCommitmentKey_def NewCommitmentKeyUnchecked_def split: if_splits option.splits)
  from new obtain k t c' where k: "ExtractCommitmentKey G (\<lambda>t label. rbind (ts_Extract (ge_xof E) (Some t) (str_bytes label) (Some (ge_elementSize E, ge_Hash E))) (\<lambda>(h, _). Inr h))
      (Some t) secondPedersenGeneratorLabel (Some (Generator G)) = Inr k"
    and c': "ctx_sortedQuorum c' = ctx_sortedQuorum c" "ctx_holderID c' = ctx_holderID c"
    and p: "p = \<lparr>gp_ctx = c', gp_group = G, gp_prng = rs, gp_niCompilerName = nm, gp_key = k, gp_lsss = \<lparr>kw_msp = m\<rparr>,
         gp_pedersenVSS = \<lparr>pvss_key = k, pvss_lsss = \<lparr>kw_msp = m\<rparr>\<rparr>, gp_feldmanVSS = \<lparr>fs_group = G, fs_lsss = \<lparr>kw_msp = m\<rparr>\<rparr>,
         gp_localPedersenDealerOutput = None, gp_pedersenDealerFunc = None, gp_localFeldmanVerificationVector = None, gp_localShare = None,
         gp_receivedShares = Map.empty, gp_summedShareValue = [], gp_round = 1\<rparr>"
    by (auto simp: gennaro_NewParticipant_def Let_def msp grp pvss_NewScheme_def feldman_NewScheme_def kw_NewScheme_def ctx_Separate_def
        split: if_splits sum.splits prod.splits)
  have "ck_group k = G" "ck_g k = Generator G" "ck_h k \<noteq> 0"
    using k by (auto simp: ExtractCommitmentKey_def NewCommitmentKeyUnchecked_def split: if_splits)
  with p c' show "gennaro_state G m (gp_key p) (ctx_sortedQuorum c) (ctx_holderID c) p" "gp_prng p = rs" "gp_round p = 1" "gp_niCompilerName p = nm"
    "gp_receivedShares p = Map.empty" "ck_h (gp_key p) \<noteq> 0"
    by (simp_all add: gennaro_state_def)
qed

text \<open>The column that a party deals: its first sample is the secret.\<close>

definition gennaro_column :: "'a list \<Rightarrow> nat \<Rightarrow> 'a" where
  "gennaro_column prng = dealt_column (hd prng) (tl prng)"

definition column_holds :: "'a MSP \<Rightarrow> 'a Matrix \<Rightarrow> (nat \<Rightarrow> 'a) \<Rightarrow> bool" where
  "column_holds m c r \<longleftrightarrow> mat_wf c \<and> mrows c = mcols (msp_matrix m) \<and> mcols c = 1 \<and> (\<forall>k<mcols (msp_matrix m). ent c k 0 = r k)"

lemma gennaro_Deal:
  fixes m :: "('a::field) MSP" and k :: "('g::ab_group_add, 'a) CommitmentKey"
  assumes m: "kw_wf m" and deal: "pvss_DealRandomAndRevealDealerFunc \<lparr>pvss_key = k, pvss_lsss = \<lparr>kw_msp = m\<rparr>\<rparr> (Some prng) = Inr (shares, vv, x, df, rest)"
  obtains b where "shares = map (\<lambda>sid. (sid, ped_share m (row_value m (gennaro_column prng)) (row_value m b) sid)) (msp_Shareholders m)"
    "vv = ped_vector k (mcols (msp_matrix m)) (gennaro_column prng) b" "column_holds m (df_randomColumn (pdf_g df)) (gennaro_column prng)"
    "column_holds m (df_randomColumn (pdf_h df)) b" "rest = drop (2 * mcols (msp_matrix m) + 2) prng" "2 * mcols (msp_matrix m) + 2 \<le> length prng"
proof -
  let ?s = "\<lparr>pvss_key = k, pvss_lsss = \<lparr>kw_msp = m\<rparr>\<rparr>" and ?D = "mcols (msp_matrix m)"
  from deal obtain y ys where prng: "prng = y # ys" and r: "pvss_DealAndRevealDealerFunc ?s (Some y) (Some ys) = Inr (shares, vv, df, rest)"
    by (cases prng) (auto simp: pvss_DealRandomAndRevealDealerFunc_def draw_Inr_iff rbind_eq_Inr_iff)
  have wf: "msp_wf m" "2 \<le> ?D" using m by (simp_all add: kw_wf_def)
  have len: "2 * ?D + 1 \<le> length ys" using pvss_Deal_len [of ?s y ys shares vv rest] r by (simp add: pvss_Deal_def)
  have col: "dealt_column y ys = gennaro_column prng" by (simp add: gennaro_column_def prng)
  show thesis
    by (rule pvss_Reveal_ok [OF wf len, of k y]) (rule that, use r len in \<open>auto simp: col prng column_holds_def\<close>)
qed

lemma gennaro_Round1_ok:
  fixes m :: "('a::field) MSP" and key :: "('g::ab_group_add, 'a) CommitmentKey"
  assumes m: "kw_wf m" and p: "gennaro_state G m key q i p" and run: "gennaro_Round1 E p = Inr (out, u, p')"
  obtains df where "gennaro_state G m key q i p'" "gp_round p' = 2" "gp_receivedShares p' = gp_receivedShares p" "gp_pedersenDealerFunc p' = Some df"
    "column_holds m (df_randomColumn (pdf_g df)) (gennaro_column (gp_prng p))" "gp_ctx p' = gp_ctx p" "gp_niCompilerName p' = gp_niCompilerName p"
proof -
  have st: "gp_pedersenVSS p = \<lparr>pvss_key = key, pvss_lsss = \<lparr>kw_msp = m\<rparr>\<rparr>" using p by (simp add: gennaro_state_def)
  from run obtain shares vv x df rest share prng where deal: "pvss_DealRandomAndRevealDealerFunc (gp_pedersenVSS p) (Some (gp_prng p)) = Inr (shares, vv, x, df, rest)"
    and rd: "gp_round p = 1"
    and p': "p' = p\<lparr>gp_localPedersenDealerOutput := Some (shares, vv), gp_pedersenDealerFunc := Some df,
       gp_localShare := Some share, gp_prng := prng, gp_round := 2\<rparr>"
    by (auto simp: gennaro_Round1_def Let_def split: if_splits option.splits)
  obtain b where "column_holds m (df_randomColumn (pdf_g df)) (gennaro_column (gp_prng p))" by (rule gennaro_Deal [OF m deal [unfolded st]])
  with p show thesis by (intro that [of df]) (simp_all add: p' gennaro_state_def)
qed

lemma gennaro_Round2_ok:
  fixes m :: "('a::field) MSP" and key :: "('g::ab_group_add, 'a) CommitmentKey"
  assumes p: "gennaro_state G m key q i p" and run: "gennaro_Round2 E p b u = Inr (out, p')"
    and df: "gp_pedersenDealerFunc p = Some df" "column_holds m (df_randomColumn (pdf_g df)) r"
  obtains vv where "gennaro_state G m key q i p'" "gp_round p' = 3" "gp_localFeldmanVerificationVector p' = Some vv"
    "gb_VerificationVector out = Some vv" "commits G m vv r" "mat_wf (vv_value vv)"
proof -
  have st: "gp_group p = G" "ck_g (gp_key p) = Generator G" "gp_MSP p = m" using p by (simp_all add: gennaro_state_def gp_MSP_def)
  have col: "mat_wf (df_randomColumn (pdf_g df))" "mrows (df_randomColumn (pdf_g df)) = mcols (msp_matrix m)" "mcols (df_randomColumn (pdf_g df)) = 1"
    "\<And>c. c < mcols (msp_matrix m) \<Longrightarrow> ent (df_randomColumn (pdf_g df)) c 0 = r c" using df(2) by (simp_all add: column_holds_def)
  obtain v where v: "Lift (ScalarOp G) (Some (df_randomColumn (pdf_g df))) (Generator G) = Inr (vv_value v)"
    "NewVerificationVector (Some (vv_value v)) (Some m) = Inr v" "commits G m v r" "mat_wf (vv_value v)"
    by (rule lift_commits [OF col, of G])
  from run have "gp_round p = 2" by (simp add: gennaro_Round2_def split: if_splits)
  with run obtain recv summed pb prng where "out = \<lparr>gb_VerificationVector = Some v, gb_Proof = pb\<rparr>"
    "p' = p\<lparr>gp_receivedShares := recv, gp_summedShareValue := summed, gp_localFeldmanVerificationVector := Some v, gp_prng := prng, gp_round := 3\<rparr>"
    by (auto simp: gennaro_Round2_def df(1) st v(1,2) split: option.splits)
  with v(3,4) p show thesis by (intro that [of v]) (simp_all add: gennaro_state_def)
qed

lemma with_tag_Inr [simp]: "with_tag i r = Inr x \<longleftrightarrow> r = Inr x"
  by (cases r) (simp_all add: with_tag_def)

lemma confirm_InrE:
  assumes "gennaro_confirm E p ni r3 w j = Inr w'"
  obtains inB vv share sh where "r3 j = Some (Some inB)" "gb_VerificationVector inB = Some vv" "gp_receivedShares p j = Some share"
    "kw_NewShare (ps_id share) (ps_secret share) = Inr sh" "feldman_Verify (gp_feldmanVSS p) (Some sh) (Some vv) = Inr ()"
    "vv_Op (Some w) (Some vv) = Inr w'"
  using assms by (auto simp: gennaro_confirm_def split: option.splits)

lemma confirm_loop:
  fixes p :: "('g::ab_group_add, 'a::field) GennaroParticipant"
  assumes G: "prime_group G" and vm: "\<And>j. j \<in> set js \<Longrightarrow> \<exists>pr. r3 j = Some (Some \<lparr>gb_VerificationVector = Some (vm j), gb_Proof = pr\<rparr>)"
      "\<And>j. j \<in> set js \<Longrightarrow> commits G m (vm j) (rr j) \<and> mat_wf (vv_value (vm j))"
    and w: "commits G m w r" "mat_wf (vv_value w)" and js: "distinct js"
    and ok: "FoldOrError (gennaro_confirm E p ni r3) w js = Inr w'"
  shows "commits G m w' (\<lambda>c. r c + (\<Sum>j\<in>set js. rr j c)) \<and> mat_wf (vv_value w')"
  using vm w js ok
proof (induction js arbitrary: w r)
  case (Cons j js)
  from Cons.prems(6) obtain w1 where step: "gennaro_confirm E p ni r3 w j = Inr w1" and rest: "FoldOrError (gennaro_confirm E p ni r3) w1 js = Inr w'"
    by auto
  from Cons.prems(1) [of j] step have op: "vv_Op (Some w) (Some (vm j)) = Inr w1" by (auto elim!: confirm_InrE)
  have vj: "commits G m (vm j) (rr j)" "mat_wf (vv_value (vm j))" using Cons.prems(2) [of j] by auto
  have w1: "commits G m w1 (\<lambda>c. r c + rr j c)" "mat_wf (vv_value w1)" using commits_add [OF G Cons.prems(3,4) vj] op by auto
  have "commits G m w' (\<lambda>c. (r c + rr j c) + (\<Sum>j\<in>set js. rr j c)) \<and> mat_wf (vv_value w')"
    by (rule Cons.IH [OF _ _ w1 _ rest]) (use Cons.prems(1,2,5) in auto)
  with Cons.prems(5) show ?case by (simp add: add.assoc)
qed simp

text \<open>A party \<open>p\<close> with identifier \<open>i\<close> that runs the three rounds: it receives the broadcasts \<open>b1\<close> and the unicasts \<open>u\<close> of the first round and the broadcasts \<open>b2\<close> of the
  second, publishes the Feldman vector \<open>v\<close> and returns the shard \<open>sh\<close>.\<close>

definition gennaro_run ::
  "('g, 'a) GennaroEnv \<Rightarrow> ('g::ab_group_add, 'a::field) GennaroParticipant \<Rightarrow> (ID \<rightharpoonup> 'g GennaroBroadcast option) \<Rightarrow> (ID \<rightharpoonup> 'a PedersenShare option option) \<Rightarrow>
     (ID \<rightharpoonup> 'g GennaroBroadcast option) \<Rightarrow> ('g VerificationVector option \<times> ('g, 'a) BaseShard) res" where
  "gennaro_run E p b1 u b2 = rbind (gennaro_Round1 E p) (\<lambda>(_, _, p1). rbind (gennaro_Round2 E p1 b1 u) (\<lambda>(out, p2).
     rbind (gennaro_Round3 E p2 b2) (\<lambda>(shard, _). Inr (gb_VerificationVector out, shard))))"

definition gennaro_party ::
  "('g, 'a) GennaroEnv \<Rightarrow> ('g, 'a) PrimeGroup \<Rightarrow> 'a MSP \<Rightarrow> ('g::ab_group_add, 'a::field) CommitmentKey \<Rightarrow> ID list \<Rightarrow> ID \<Rightarrow> ('g, 'a) GennaroParticipant \<Rightarrow>
     (ID \<rightharpoonup> 'g GennaroBroadcast option) \<Rightarrow> (ID \<rightharpoonup> 'a PedersenShare option option) \<Rightarrow> (ID \<rightharpoonup> 'g GennaroBroadcast option) \<Rightarrow> 'g VerificationVector \<Rightarrow> ('g, 'a) BaseShard \<Rightarrow> bool" where
  "gennaro_party E G m key q i p b1 u b2 v sh \<longleftrightarrow> gennaro_state G m key q i p \<and> gennaro_run E p b1 u b2 = Inr (Some v, sh)"

lemma gennaro_party_result:
  fixes m :: "('a::field) MSP" and key :: "('g::ab_group_add, 'a) CommitmentKey"
  assumes G: "prime_group G" and m: "kw_wf m" and q: "distinct q" "i \<in> set q" and run: "gennaro_party E G m key q i p b1 u b2 (vm i) sh"
    and b: "\<And>j. j \<in> set q \<Longrightarrow> j \<noteq> i \<Longrightarrow> \<exists>pr. b2 j = Some (Some \<lparr>gb_VerificationVector = Some (vm j), gb_Proof = pr\<rparr>)"
    and rr: "\<And>j. j \<in> set q \<Longrightarrow> commits G m (vm j) (rr j) \<and> (j \<noteq> i \<longrightarrow> mat_wf (vv_value (vm j)))"
  defines "R \<equiv> \<lambda>c. \<Sum>j\<in>set q. rr j c"
  shows "bs_share sh = row_share m (row_value m R) i \<and> bpm_msp (bs_public sh) = m \<and> bpm_pkValue (bs_public sh) = ScalarOp G (Generator G) (R 0) \<and>
    commits G m (bpm_fv (bs_public sh)) R \<and> mat_wf (vv_value (bpm_fv (bs_public sh))) \<and> rr i 0 = hd (gp_prng p)"
proof -
  have wf: "msp_wf m" "0 < mcols (msp_matrix m)" using m by (simp_all add: kw_wf_def)
  let ?js = "filter (\<lambda>j. j \<noteq> i) q"
  from run obtain o1 u1 p1 o2 p2 p3 where st: "gennaro_state G m key q i p" and r1: "gennaro_Round1 E p = Inr (o1, u1, p1)"
    and r2: "gennaro_Round2 E p1 b1 u = Inr (o2, p2)" and r3: "gennaro_Round3 E p2 b2 = Inr (sh, p3)" and o2: "gb_VerificationVector o2 = Some (vm i)"
    by (auto simp: gennaro_party_def gennaro_run_def)
  obtain df where df: "gennaro_state G m key q i p1" "gp_pedersenDealerFunc p1 = Some df" "column_holds m (df_randomColumn (pdf_g df)) (gennaro_column (gp_prng p))"
    by (rule gennaro_Round1_ok [OF m st r1]) (rule that; assumption)
  obtain v where v: "gennaro_state G m key q i p2" "gp_localFeldmanVerificationVector p2 = Some v" "gb_VerificationVector o2 = Some v"
    "commits G m v (gennaro_column (gp_prng p))" "mat_wf (vv_value v)"
    by (rule gennaro_Round2_ok [OF df(1) r2 df(2,3)]) (rule that; assumption)
  have vi: "v = vm i" using v(3) o2 by simp
  have p2: "gp_group p2 = G" "gp_MSP p2 = m" "gp_SharingID p2 = i" "OtherPartiesOrdered (gp_ctx p2) = ?js"
    using v(1) by (simp_all add: gennaro_state_def gp_MSP_def gp_SharingID_def OtherPartiesOrdered_def)
  from r3 obtain ni w share where fold: "FoldOrError (gennaro_confirm E p2 ni b2) v ?js = Inr w"
    and share: "kw_NewShare i (gp_summedShareValue p2) = Inr share" and shard: "NewBaseShard G (Some share) (Some w) (Some m) = Inr sh"
    by (auto simp: gennaro_Round3_def v(2) p2 split: if_splits)
  have w0: "commits G m v (rr i)" using rr [OF q(2)] vi by simp
  have "commits G m w (\<lambda>c. rr i c + (\<Sum>j\<in>set ?js. rr j c)) \<and> mat_wf (vv_value w)"
    by (rule confirm_loop [OF G _ _ w0 v(5) _ fold, of vm]) (use b rr q(1) in auto)
  moreover have "rr i c + (\<Sum>j\<in>set ?js. rr j c) = R c" for c
  proof -
    have "set ?js = set q - {i}" by auto
    then show ?thesis using sum.remove [of "set q" i "\<lambda>j. rr j c"] q(2) by (simp add: R_def)
  qed
  ultimately have w: "commits G m w R" "mat_wf (vv_value w)" by simp_all
  have "rr i 0 = gennaro_column (gp_prng p) 0" by (rule commits_unique [OF G w0 v(4) wf(2)])
  then have "rr i 0 = hd (gp_prng p)" by (simp add: gennaro_column_def dealt_column_def)
  moreover have "sh_id share = i" using share by (auto simp: kw_NewShare_def split: if_splits)
  ultimately show ?thesis
    using NewBaseShard_commits(1) [OF G wf(1) w(1), of share] NewBaseShard_commits(2) [OF G wf(1) w(1) shard] shard w by auto
qed

lemma gennaro_party_dims:
  assumes m: "kw_wf m" and q: "i \<in> set q" "j \<in> set q" and run: "gennaro_party E G m key q i p b1 u b2 (vm i) sh"
    and b: "j \<noteq> i \<Longrightarrow> \<exists>pr. b2 j = Some (Some \<lparr>gb_VerificationVector = Some (vm j), gb_Proof = pr\<rparr>)"
  shows "mcols (vv_value (vm j)) = 1 \<and> mrows (vv_value (vm j)) = mcols (msp_matrix m)"
proof -
  from run obtain o1 u1 p1 o2 p2 p3 where st: "gennaro_state G m key q i p" and r1: "gennaro_Round1 E p = Inr (o1, u1, p1)"
    and r2: "gennaro_Round2 E p1 b1 u = Inr (o2, p2)" and r3: "gennaro_Round3 E p2 b2 = Inr (sh, p3)" and o2: "gb_VerificationVector o2 = Some (vm i)"
    by (auto simp: gennaro_party_def gennaro_run_def)
  obtain df where df: "gennaro_state G m key q i p1" "gp_pedersenDealerFunc p1 = Some df" "column_holds m (df_randomColumn (pdf_g df)) (gennaro_column (gp_prng p))"
    by (rule gennaro_Round1_ok [OF m st r1]) (rule that; assumption)
  obtain v where v: "gennaro_state G m key q i p2" "gb_VerificationVector o2 = Some v" "commits G m v (gennaro_column (gp_prng p))"
    by (rule gennaro_Round2_ok [OF df(1) r2 df(2,3)]) (rule that; assumption)
  show ?thesis
  proof (cases "j = i")
    case False
    have "OtherPartiesOrdered (gp_ctx p2) = filter (\<lambda>j. j \<noteq> i) q" "gp_MSP p2 = m"
      using v(1) by (simp_all add: gennaro_state_def gp_MSP_def OtherPartiesOrdered_def)
    with r3 have "ValidateIncomingMessages (gen2_Validate E) p2 (filter (\<lambda>j. j \<noteq> i) q) b2 = Inr ()" "gp_MSP p2 = m"
      by (auto simp: gennaro_Round3_def split: if_splits)
    with False q(2) b obtain pr where "gen2_Validate E p2 j (Some \<lparr>gb_VerificationVector = Some (vm j), gb_Proof = pr\<rparr>) = Inr ()"
      by (fastforce simp: ValidateIncoming_ok)
    then show ?thesis using \<open>gp_MSP p2 = m\<close> by (auto simp: gen2_Validate_def gb_check_def msp_D_def split: if_splits)
  qed (use v o2 in \<open>simp add: commits_def\<close>)
qed

end
