(* ===== verification/GennaroRuns.thy ===== *)
theory GennaroRuns
  imports Gennaro
begin

text \<open>
  Runs of the distributed key generation: honest parties in one session complete the three rounds, since the proofs that they make are accepted by
  everyone in the session, and what completing parties hold, whatever the others do.
\<close>

section \<open>Honest parties complete\<close>

text \<open>A proof made in one context is accepted in every context with the same transcript and session.\<close>

context complete_protocol
begin

lemma fs_complete_all:
  assumes d: "wf d" and ctx: "open_ctx cp"
    and n: "0 < sg_GetChallengeBytesLength (sp d)" "sg_GetChallengeBytesLength (sp d) < 2 ^ 64"
    and w: "sg_ValidateStatement (sp d) x w = Inr ()" "good d w"
    and com: "sg_ComputeProverCommitment (sp d) x w r = Inr (a, s, r')"
    and bytes: "sg_xBytes (sp d) x = Inr xb" "sg_aBytes (sp d) a = Inr ab"
    and codec: "\<And>z. \<exists>b. enc (a, z) = Inr b \<and> b \<noteq> [] \<and> dec b = Inr (Some (a, z))"
  obtains pb c' where "rbind (fs_NewProver (sp d) (Some cp)) (\<lambda>c. fs_Prove xof enc (sp d) c x w r) = Inr (pb, c', r')" "pb \<noteq> []"
    "\<forall>cv. ctx_tape cv = ctx_tape cp \<and> ctx_sid cv = ctx_sid cp \<longrightarrow>
      (\<exists>cv'. rbind (fs_NewVerifier (sp d) (Some cv)) (\<lambda>c. fs_Verify xof dec (sp d) c x pb) = Inr cv')"
proof -
  note fs = fs_complete [OF d ctx _ _ n w com bytes codec, where xof = xof]
  from fs [OF refl refl] obtain pb c' cv where pb: "rbind (fs_NewProver (sp d) (Some cp)) (\<lambda>c. fs_Prove xof enc (sp d) c x w r) = Inr (pb, c', r')"
    "rbind (fs_NewVerifier (sp d) (Some cp)) (\<lambda>c. fs_Verify xof dec (sp d) c x pb) = Inr cv" by (elim exE conjE)
  from pb(2) have "pb \<noteq> []" by (auto simp: fs_Verify_def rbind_eq_Inr_iff)
  moreover have "\<exists>cv'. rbind (fs_NewVerifier (sp d) (Some cv)) (\<lambda>c. fs_Verify xof dec (sp d) c x pb) = Inr cv'"
    if "ctx_tape cv = ctx_tape cp" "ctx_sid cv = ctx_sid cp" for cv
  proof -
    from fs [OF that] obtain pb' c'' cv' where "rbind (fs_NewProver (sp d) (Some cp)) (\<lambda>c. fs_Prove xof enc (sp d) c x w r) = Inr (pb', c'', r')"
      "rbind (fs_NewVerifier (sp d) (Some cv)) (\<lambda>c. fs_Verify xof dec (sp d) c x pb') = Inr cv'" by (elim exE conjE)
    with pb(1) show ?thesis by simp
  qed
  ultimately show thesis by (intro that [OF pb(1)]) blast+
qed

end

text \<open>The batched proof for \<open>D\<close> logarithms, as the constructor sets it up.\<close>

definition schnorr_params :: "('g, 'a) PrimeGroup \<Rightarrow> nat \<Rightarrow> ('g, 'a) BatchSchnorr" where
  "schnorr_params G D = \<lparr>bsp_k = D, bsp_challengeLength = nat ((135 + CeilLog2 (int D)) div 8),
     bsp_soundnessError = nat ((135 + CeilLog2 (int D)) div 8 * 8 - CeilLog2 (int D)), bsp_group = G\<rparr>"

text \<open>What the parameters promise in a session with \<open>D\<close> columns: the order annihilates the group, a challenge of the length that the batched proof
  asks for converts to a scalar, elements have no torsion, and the codecs round-trip. The conversion \<open>FromWideBytes\<close> of the prime fields fails for
  inputs longer than twice the size of an element; the challenge has at most 24 bytes.\<close>

definition gennaro_env :: "('g::ab_group_add, 'a::field) GennaroEnv \<Rightarrow> ('g, 'a) PrimeGroup \<Rightarrow> nat \<Rightarrow> bool" where
  "gennaro_env E G D \<longleftrightarrow> prime_group G \<and> (\<forall>x::'g. nsum (ge_order E) x = 0) \<and>
     (\<forall>e. length e = bsp_challengeLength (schnorr_params G D) \<longrightarrow> is_ok (ge_FromWideBytes E e)) \<and> (\<forall>x. ge_torsionFree E x) \<and>
     (\<forall>a z. \<exists>b. ge_okEnc E (a, z) = Inr b \<and> b \<noteq> [] \<and> ge_okDec E b = Inr (Some (a, z))) \<and>
     (\<forall>a z. \<exists>b. ge_bsEnc E (a, z) = Inr b \<and> b \<noteq> [] \<and> ge_bsDec E b = Inr (Some (a, z)))"

text \<open>A participant with the Fiat-Shamir compiler in the session \<open>sid\<close> with the transcript \<open>t\<close>.\<close>

definition gennaro_ready ::
  "('g, 'a) PrimeGroup \<Rightarrow> 'a MSP \<Rightarrow> ('g, 'a) CommitmentKey \<Rightarrow> ID list \<Rightarrow> SHAKE \<Rightarrow> bytes \<Rightarrow> ID \<Rightarrow> ('g, 'a) GennaroParticipant \<Rightarrow> bool" where
  "gennaro_ready G m key q t sid i p \<longleftrightarrow> gennaro_state G m key q i p \<and> gp_niCompilerName p = fs_Name \<and>
     sh_squeezed t = None \<and> ctx_tape (gp_ctx p) = t \<and> ctx_sid (gp_ctx p) = sid"

definition okamoto_and :: "('g, 'a) GennaroEnv \<Rightarrow> ('g::ab_group_add, 'a::field) CommitmentKey \<Rightarrow> nat \<Rightarrow> ('g, 'a) okamoto_protocol" where
  "okamoto_and E key D = (let s = maurer_sigma (ge_gbytes E) (okamoto_protocol (ge_order E, ge_sbytes E, ck_group key, [ck_g key, ck_h key])) in
     sigand_sigma (''('' @ sg_Name s @ '')^'' @ decimal D) s D)"

lemma batchOkamoto_ok:
  assumes "gennaro_ready G m key q t sid i p" "0 < mcols (msp_matrix m)"
  shows "batchOkamoto E p = Inr (fs_protocol (ge_xof E) (ge_okEnc E) (ge_okDec E) (okamoto_and E key (mcols (msp_matrix m))))"
  using assms by (simp add: batchOkamoto_def gennaro_ready_def gennaro_state_def okamoto_NewProtocol_ok sigand_Compose_def sigand_ComposeNamed_def gp_MSP_def
      msp_D_def Compile_def fs_NewCompiler_def okamoto_and_def Let_def maurer_sigma_def okamoto_protocol_simps ComputationalSecurityBits_def)

lemma okamoto_commit_loop:
  assumes "length xs = length ws" "2 * length xs \<le> length r"
  shows "\<exists>as ss. sigand_commit_loop (maurer_sigma gb (okamoto_protocol (order, sb, G, [g, h]))) (zip xs ws) r =
    Inr (as, ss, drop (2 * length xs) r) \<and> (\<forall>a\<in>set as. a \<noteq> None)"
  using assms
proof (induction xs ws arbitrary: r rule: list_induct2)
  case (Cons x xs w ws)
  then obtain y z r' where r: "r = y # z # r'" by (cases r; cases "tl r") auto
  have "2 * length xs \<le> length r'" using Cons.prems by (simp add: r)
  from Cons.IH [OF this] show ?case
    by (auto simp: r maurer_sigma_def mr_ComputeProverCommitment_def okamoto_protocol_simps power_group_def numeral_2_eq_2 scalar_Random_def okamoto_phi)
qed simp

lemma slices_Bytes_ok:
  assumes "\<And>x. x \<in> set xs \<Longrightarrow> \<exists>b. f x = Inr b"
  obtains b where "slices_Bytes f xs = Inr b"
proof -
  from assms obtain g where "\<And>x. x \<in> set xs \<Longrightarrow> f x = Inr (g x)" by metis
  then have "MapOrError f xs = Inr (map g xs)" by (rule MapOrError_ok)
  then show thesis by (intro that) (simp add: slices_Bytes_def)
qed

lemma prover_ctx_ready:
  assumes "gennaro_ready G m key q t sid i p"
  obtains c where "prover_ctx p l j = Inr c" "open_ctx c" "ctx_tape c = t\<lparr>sh_absorbed := sh_absorbed t @ encode_op (Append_op (str_bytes l) [le64 j])\<rparr>" "ctx_sid c = sid"
proof -
  have "open_ctx (gp_ctx p)" using assms by (simp add: gennaro_ready_def open_ctx_def)
  with assms show thesis by (intro that [of "absorb (gp_ctx p) (encode_op (Append_op (str_bytes l) [le64 j]))"])
    (simp_all add: prover_ctx_def ctx_Clone_def ctx_Append_open absorb_def gennaro_ready_def open_ctx_def)
qed

text \<open>What a proof that was made for the prover \<open>i\<close> is worth to every participant of the session.\<close>

definition ni_accepts ::
  "('x, 'w, 'r) NonInteractiveProtocol \<Rightarrow> ('g, 'a) PrimeGroup \<Rightarrow> 'a MSP \<Rightarrow> ('g, 'a) CommitmentKey \<Rightarrow> ID list \<Rightarrow> SHAKE \<Rightarrow> bytes \<Rightarrow> string \<Rightarrow> ID \<Rightarrow> 'x \<Rightarrow> bytes \<Rightarrow> bool" where
  "ni_accepts ni G m key q t sid l i x pb \<longleftrightarrow> pb \<noteq> [] \<and> (\<forall>j p. gennaro_ready G m key q t sid j p \<longrightarrow>
     (\<exists>c v c'. prover_ctx p l i = Inr c \<and> ni_NewVerifier ni (Some c) = Inr v \<and> ni_Verify ni v x pb = Inr c'))"

lemma ni_acceptsD:
  assumes "ni_accepts ni G m key q t sid l i x pb" "gennaro_ready G m key q t sid j p"
  obtains c v c' where "prover_ctx p l i = Inr c" "ni_NewVerifier ni (Some c) = Inr v" "ni_Verify ni v x pb = Inr c'" "pb \<noteq> []"
  using assms unfolding ni_accepts_def by blast

context complete_protocol
begin

lemma ready_proof:
  assumes d: "wf d" and p: "gennaro_ready G m key q t sid i p"
    and n: "0 < sg_GetChallengeBytesLength (sp d)" "sg_GetChallengeBytesLength (sp d) < 2 ^ 64"
    and w: "sg_ValidateStatement (sp d) x w = Inr ()" "good d w"
    and com: "sg_ComputeProverCommitment (sp d) x w r = Inr (a, s, r')"
    and bytes: "sg_xBytes (sp d) x = Inr xb" "sg_aBytes (sp d) a = Inr ab"
    and codec: "\<And>z. \<exists>b. enc (a, z) = Inr b \<and> b \<noteq> [] \<and> dec b = Inr (Some (a, z))"
  obtains pb c v c' where "prover_ctx p l i = Inr c" "ni_NewProver (fs_protocol xof enc dec (sp d)) (Some c) = Inr v"
    "ni_Prove (fs_protocol xof enc dec (sp d)) v x w r = Inr (pb, c', r')"
    "ni_accepts (fs_protocol xof enc dec (sp d)) G m key q t sid l i x pb"
proof -
  obtain c where c: "prover_ctx p l i = Inr c" "open_ctx c" "ctx_tape c = t\<lparr>sh_absorbed := sh_absorbed t @ encode_op (Append_op (str_bytes l) [le64 i])\<rparr>" "ctx_sid c = sid"
    by (rule prover_ctx_ready [OF p, where l = l and j = i])
  obtain pb c' where pb: "rbind (fs_NewProver (sp d) (Some c)) (\<lambda>c. fs_Prove xof enc (sp d) c x w r) = Inr (pb, c', r')" "pb \<noteq> []"
    "\<forall>cv. ctx_tape cv = ctx_tape c \<and> ctx_sid cv = ctx_sid c \<longrightarrow>
      (\<exists>cv'. rbind (fs_NewVerifier (sp d) (Some cv)) (\<lambda>c. fs_Verify xof dec (sp d) c x pb) = Inr cv')"
    by (rule fs_complete_all [OF d c(2) n w com bytes codec, where xof = xof])
  have "\<exists>c v c'. prover_ctx p' l i = Inr c \<and> fs_NewVerifier (sp d) (Some c) = Inr v \<and> fs_Verify xof dec (sp d) v x pb = Inr c'"
    if p': "gennaro_ready G m key q t sid j p'" for j p'
  proof -
    obtain cv where cv: "prover_ctx p' l i = Inr cv" "ctx_tape cv = ctx_tape c" "ctx_sid cv = ctx_sid c"
      by (rule prover_ctx_ready [OF p', where l = l and j = i]) (rule that, simp_all add: c)
    from pb(3) cv show ?thesis by (auto simp: rbind_eq_Inr_iff)
  qed
  with pb(2) have acc: "ni_accepts (fs_protocol xof enc dec (sp d)) G m key q t sid l i x pb" by (simp add: ni_accepts_def fs_protocol_def)
  from pb(1) obtain v where "fs_NewProver (sp d) (Some c) = Inr v" "fs_Prove xof enc (sp d) v x w r = Inr (pb, c', r')" by (auto simp: rbind_eq_Inr_iff)
  with c(1) acc show thesis by (intro that) (simp_all add: fs_protocol_def)
qed

end

lemma okamoto_proof:
  fixes key :: "('g::ab_group_add, 'a::field) CommitmentKey" and r :: "'a list" and x b :: "nat \<Rightarrow> 'a"
  assumes E: "gennaro_env E G D'" and p: "gennaro_ready G m key q t sid i p" and D: "0 < D" "2 * D \<le> length r"
  defines "ni \<equiv> fs_protocol (ge_xof E) (ge_okEnc E) (ge_okDec E) (okamoto_and E key D)"
    and "xs \<equiv> map (\<lambda>c. Some (ScalarOp G (ck_g key) (x c) + ScalarOp G (ck_h key) (b c))) [0..<D]" and "ws \<equiv> map (\<lambda>c. Some [x c, b c]) [0..<D]"
  obtains pb c v c' where "prover_ctx p l i = Inr c" "ni_NewProver ni (Some c) = Inr v" "ni_Prove ni v xs ws r = Inr (pb, c', drop (2 * D) r)"
    "ni_accepts ni G m key q t sid l i xs pb"
proof -
  let ?d = "(ge_order E, ge_sbytes E, G, [ck_g key, ck_h key])"
  let ?s = "maurer_sigma (ge_gbytes E) (okamoto_protocol ?d)"
  let ?nm = "''('' @ sg_Name ?s @ '')^'' @ decimal D"
  have key: "ck_group key = G" using p by (simp add: gennaro_ready_def gennaro_state_def)
  have wf: "okamoto_wf ?d" using E by (simp add: okamoto_wf_def gennaro_env_def)
  have eq: "okamoto_and E key D = sigand_sigma ?nm ?s D" by (simp add: okamoto_and_def Let_def key)
  have len: "length xs = D" "length ws = D" by (simp_all add: xs_def ws_def)
  obtain as ss where com: "sigand_commit_loop ?s (zip xs ws) r = Inr (as, ss, drop (2 * D) r)" "\<forall>a\<in>set as. a \<noteq> None"
    using okamoto_commit_loop [of xs ws r "ge_gbytes E" "ge_order E" "ge_sbytes E" G "ck_g key" "ck_h key"] len D(2) by auto
  obtain ab where ab: "slices_Bytes (sg_aBytes ?s) as = Inr ab" by (rule slices_Bytes_ok [of as "sg_aBytes ?s"]) (use com(2) in \<open>auto simp: maurer_sigma_def\<close>)
  obtain xb where xb: "slices_Bytes (sg_xBytes ?s) xs = Inr xb" by (rule slices_Bytes_ok [of xs "sg_xBytes ?s"]) (auto simp: maurer_sigma_def xs_def)
  have val: "sigand_ValidateStatement ?s D xs ws = Inr ()"
    by (simp add: sigand_Validate_iff len) (simp add: xs_def ws_def maurer_sigma_def mr_ValidateStatement_def okamoto_protocol_simps okamoto_phi represented_def numeral_2_eq_2)
  let ?t = "case (?nm, ?d, D) of (nm, d, n) \<Rightarrow> sigand_sigma nm (maurer_sigma (ge_gbytes E) (okamoto_protocol d)) n"
  have n: "0 < sg_GetChallengeBytesLength ?t" "sg_GetChallengeBytesLength ?t < 2 ^ 64" by (simp_all add: maurer_sigma_def okamoto_protocol_simps)
  have w: "sg_ValidateStatement ?t xs ws = Inr ()" "(case (?nm, ?d, D) of (nm, d, n) \<Rightarrow> \<lambda>ws. \<forall>w\<in>set ws. \<exists>x\<in>case d of (order, sbytes, G, gs) \<Rightarrow> {xs. length xs = length gs}. w = Some x) ws"
    using val by (auto simp: ws_def)
  have c: "sg_ComputeProverCommitment ?t xs ws r = Inr (as, ss, drop (2 * D) r)" using com(1) len by (simp add: sigand_ComputeProverCommitment_def)
  have bytes: "sg_xBytes ?t xs = Inr xb" "sg_aBytes ?t as = Inr ab" using xb ab by (simp_all add: sigand_sigma_def)
  have codec: "\<exists>b. ge_okEnc E (as, z) = Inr b \<and> b \<noteq> [] \<and> ge_okDec E b = Inr (Some (as, z))" for z using E by (simp add: gennaro_env_def)
  show thesis
    by (rule okamoto.mand.andc.ready_proof [OF _ p n w c bytes codec, where l = l and xof = "ge_xof E"]) (use wf D in \<open>auto simp: ni_def eq intro: that\<close>)
qed

definition okamoto_ni :: "('g, 'a) GennaroEnv \<Rightarrow> ('g::ab_group_add, 'a::field) CommitmentKey \<Rightarrow> nat \<Rightarrow> ('g option list, 'a list option list, 'a list) NonInteractiveProtocol" where
  "okamoto_ni E key D = fs_protocol (ge_xof E) (ge_okEnc E) (ge_okDec E) (okamoto_and E key D)"

definition schnorr_ni :: "('g, 'a) GennaroEnv \<Rightarrow> ('g::ab_group_add, 'a::field) PrimeGroup \<Rightarrow> nat \<Rightarrow> ('g BatchStatement option, 'a list option, 'a list) NonInteractiveProtocol" where
  "schnorr_ni E G D = fs_protocol (ge_xof E) (ge_bsEnc E) (ge_bsDec E) (bs_sigma (ge_gbytes E) (ge_sbytes E) (ge_FromWideBytes E) (schnorr_params G D))"

lemma batchSchnorr_ok:
  assumes p: "gennaro_ready G m key q t sid i p" and D: "2 \<le> mcols (msp_matrix m)" "mcols (msp_matrix m) < 2 ^ 63"
  shows "batchSchnorr E p = Inr (schnorr_ni E G (mcols (msp_matrix m)))"
proof -
  let ?D = "mcols (msp_matrix m)"
  have D': "2 \<le> int ?D" "int ?D < 2 ^ 63" using D by simp_all
  have new: "bs_NewProtocol (int ?D) (Some G) (Some r) = Inr (schnorr_params G ?D)" for r :: "'b list"
    using bs_NewProtocol_iff [OF D'(2), of G r] D' by (simp add: schnorr_params_def)
  have "(128 :: int) \<le> (135 + CeilLog2 (int ?D)) div 8 * 8 - CeilLog2 (int ?D)" by presburger
  then have "ComputationalSecurityBits \<le> bsp_soundnessError (schnorr_params G ?D)"
    by (simp add: schnorr_params_def ComputationalSecurityBits_def)
  then show ?thesis using p new
    by (simp add: batchSchnorr_def gennaro_ready_def gennaro_state_def gp_MSP_def msp_D_def Compile_def fs_NewCompiler_def schnorr_ni_def bs_sigma_def)
qed

lemma schnorr_proof:
  fixes key :: "('g::ab_group_add, 'a::field) CommitmentKey" and xs :: "'a list"
  assumes E: "gennaro_env E G k" and p: "gennaro_ready G m key q t sid i p" and k: "k = length xs" and D: "2 \<le> length xs" "length xs < 2 ^ 63" and r: "r \<noteq> []"
  defines "X \<equiv> bs_NewStatement (Generator G) (map (ScalarOp G (Generator G)) xs)"
  obtains pb c v c' where "prover_ctx p l i = Inr c" "ni_NewProver (schnorr_ni E G (length xs)) (Some c) = Inr v"
    "ni_Prove (schnorr_ni E G (length xs)) v X (bs_NewWitness xs) r = Inr (pb, c', tl r)"
    "ni_accepts (schnorr_ni E G (length xs)) G m key q t sid l i X pb"
proof -
  let ?d = "schnorr_params G (length xs)" and ?fw = "ge_FromWideBytes E"
  let ?s = "bs_sigma (ge_gbytes E) (ge_sbytes E) ?fw ?d" and ?a = "Some (ScalarOp G (Generator G) (hd r))"
  have wf: "bs_wf ?fw ?d" using E k by (simp add: bs_wf_def gennaro_env_def schnorr_params_def)
  note rng = CeilLog2_range [of "int (length xs)"]
  have n: "0 < sg_GetChallengeBytesLength ?s" "sg_GetChallengeBytesLength ?s < 2 ^ 64"
    using rng D by (simp_all add: bs_sigma_def schnorr_params_def)
  have w: "sg_ValidateStatement ?s X (bs_NewWitness xs) = Inr ()" "True"
    by (simp_all add: bs_sigma_def bs_Validate_iff X_def bs_NewStatement_def bs_NewWitness_def schnorr_params_def)
  obtain y ys where ry: "r = y # ys" using r by (cases r) auto
  have c: "sg_ComputeProverCommitment ?s X (bs_NewWitness xs) r = Inr (?a, Some (hd r), tl r)"
    by (simp add: bs_sigma_def bs_ComputeProverCommitment_def X_def bs_NewStatement_def ry scalar_Random_def schnorr_params_def)
  obtain xb where xb: "sg_xBytes ?s X = Inr xb" by (simp add: bs_sigma_def bs_xBytes_def X_def bs_NewStatement_def Let_def)
  obtain ab where ab: "sg_aBytes ?s ?a = Inr ab" by (simp add: bs_sigma_def bs_aBytes_def)
  have codec: "\<exists>b. ge_bsEnc E (?a, z) = Inr b \<and> b \<noteq> [] \<and> ge_bsDec E b = Inr (Some (?a, z))" for z using E by (simp add: gennaro_env_def)
  show thesis
    by (rule bs.ready_proof [OF wf p n w c xb ab codec, where l = l and xof = "ge_xof E"]) (simp add: schnorr_ni_def that)
qed

lemma column_Iter:
  assumes "mat_wf c" "mrows c = n" "mcols c = 1" "\<And>k. k < n \<Longrightarrow> ent c k 0 = r k"
  shows "mat_Iter c = map r [0..<n]"
  using assms by (intro nth_equalityI) (auto simp: mat_Iter_def mat_wf_def ent_def mat_idx_def)

lemma ped_vector_Iter:
  "0 < n \<Longrightarrow> mat_Iter (vv_value (ped_vector k n r b)) = map (\<lambda>c. ScalarOp (ck_group k) (ck_g k) (r c) + ScalarOp (ck_group k) (ck_h k) (b c)) [0..<n]"
  by (rule column_Iter) (simp_all add: ped_vector_def mat_simps)

lemma commits_Iter:
  assumes "commits G m v r" "mat_wf (vv_value v)"
  shows "mat_Iter (vv_value v) = map (\<lambda>c. ScalarOp G (Generator G) (r c)) [0..<mcols (msp_matrix m)]"
  using assms by (intro column_Iter) (auto simp: commits_def)

text \<open>What an honest party that deals the columns \<open>a\<close> and \<open>b\<close> sends in the first round, and in the second.\<close>

definition gennaro_sent1 ::
  "('g, 'a) GennaroEnv \<Rightarrow> ('g, 'a) PrimeGroup \<Rightarrow> 'a MSP \<Rightarrow> ('g::ab_group_add, 'a::field) CommitmentKey \<Rightarrow> ID list \<Rightarrow> SHAKE \<Rightarrow> bytes \<Rightarrow> ID \<Rightarrow> (nat \<Rightarrow> 'a) \<Rightarrow> (nat \<Rightarrow> 'a) \<Rightarrow>
     'g GennaroBroadcast \<Rightarrow> (ID \<times> 'a PedersenShare) list \<Rightarrow> bool" where
  "gennaro_sent1 E G m key q t sid i a b out u \<longleftrightarrow> (let v = ped_vector key (mcols (msp_matrix m)) a b in
     gb_VerificationVector out = Some v \<and>
     ni_accepts (okamoto_ni E key (mcols (msp_matrix m))) G m key q t sid batchOkamotoProverIDLabel i (map Some (mat_Iter (vv_value v))) (gb_Proof out) \<and>
     (\<forall>j\<in>set q - {i}. map_of u j = Some (ped_share m (row_value m a) (row_value m b) j)))"

definition gennaro_sent2 ::
  "('g, 'a) GennaroEnv \<Rightarrow> ('g, 'a) PrimeGroup \<Rightarrow> 'a MSP \<Rightarrow> ('g::ab_group_add, 'a::field) CommitmentKey \<Rightarrow> ID list \<Rightarrow> SHAKE \<Rightarrow> bytes \<Rightarrow> ID \<Rightarrow> (nat \<Rightarrow> 'a) \<Rightarrow>
     'g GennaroBroadcast \<Rightarrow> bool" where
  "gennaro_sent2 E G m key q t sid i a out \<longleftrightarrow> (\<exists>v. gb_VerificationVector out = Some v \<and> commits G m v a \<and> mat_wf (vv_value v) \<and>
     ni_accepts (schnorr_ni E G (mcols (msp_matrix m))) G m key q t sid batchSchnorrProverIDLabel i (bs_NewStatement (Generator G) (mat_Iter (vv_value v))) (gb_Proof out))"

lemma okamoto_inputs:
  "MapOrError (\<lambda>i. if length (map b [0..<n]) \<le> i then Inl Panic else rbind (okamoto_NewWitness [map a [0..<n] ! i, map b [0..<n] ! i]) (\<lambda>w.
      if length (map f [0..<n]) \<le> i then Inl Panic else rbind (okamoto_NewStatement (Some (map f [0..<n] ! i))) (\<lambda>x. Inr (w, x)))) [0..<length (map a [0..<n])] =
    Inr (map (\<lambda>i. (Some [a i, b i], Some (f i))) [0..<n])"
  by (subst MapOrError_ok [where g = "\<lambda>i. (Some [a i, b i], Some (f i))"]) (auto simp: okamoto_NewWitness_def okamoto_NewStatement_def dp_New_def)

lemma gennaro_deals:
  fixes m :: "('a::field) MSP" and key :: "('g::ab_group_add, 'a) CommitmentKey"
  assumes m: "kw_wf m" and len: "2 * mcols (msp_matrix m) + 2 \<le> length prng"
  obtains b df where "pvss_DealRandomAndRevealDealerFunc \<lparr>pvss_key = key, pvss_lsss = \<lparr>kw_msp = m\<rparr>\<rparr> (Some prng) =
      Inr (map (\<lambda>sid. (sid, ped_share m (row_value m (gennaro_column prng)) (row_value m b) sid)) (msp_Shareholders m),
        ped_vector key (mcols (msp_matrix m)) (gennaro_column prng) b, hd prng, df, drop (2 * mcols (msp_matrix m) + 2) prng)"
    "column_holds m (df_randomColumn (pdf_g df)) (gennaro_column prng)" "column_holds m (df_randomColumn (pdf_h df)) b"
proof -
  obtain y ys where prng: "prng = y # ys" using len by (cases prng) auto
  have wf: "msp_wf m" "2 \<le> mcols (msp_matrix m)" "2 * mcols (msp_matrix m) + 1 \<le> length ys" using m len by (simp_all add: kw_wf_def prng)
  have col: "dealt_column y ys = gennaro_column prng" by (simp add: gennaro_column_def prng)
  show thesis
    by (rule pvss_Reveal_ok [OF wf, of key y])
      (rule that, auto simp: pvss_DealRandomAndRevealDealerFunc_def prng col [unfolded prng] column_holds_def)
qed

lemma gennaro_Round1_live:
  fixes m :: "('a::field) MSP" and key :: "('g::ab_group_add, 'a) CommitmentKey"
  assumes E: "gennaro_env E G (mcols (msp_matrix m))" and m: "kw_wf m" and p: "gennaro_ready G m key q t sid i p" and q: "set q = msp_holders m" "i \<in> set q"
    and rd: "gp_round p = 1" and len: "4 * mcols (msp_matrix m) + 3 \<le> length (gp_prng p)"
  defines "a \<equiv> gennaro_column (gp_prng p)"
  obtains b out u p' df where "gennaro_Round1 E p = Inr (out, u, p')" "gennaro_sent1 E G m key q t sid i a b out u"
    "gennaro_ready G m key q t sid i p'" "gp_round p' = 2" "gp_prng p' \<noteq> []" "gp_pedersenDealerFunc p' = Some df" "column_holds m (df_randomColumn (pdf_g df)) a"
    "gp_localShare p' = Some (ped_share m (row_value m a) (row_value m b) i)"
proof -
  let ?D = "mcols (msp_matrix m)" and ?r = "drop (2 * mcols (msp_matrix m) + 2) (gp_prng p)"
  have st: "gp_pedersenVSS p = \<lparr>pvss_key = key, pvss_lsss = \<lparr>kw_msp = m\<rparr>\<rparr>" "ck_group key = G" "OtherPartiesOrdered (gp_ctx p) = filter (\<lambda>j. j \<noteq> i) q"
    "ctx_holderID (gp_ctx p) = i" using p by (simp_all add: gennaro_ready_def gennaro_state_def OtherPartiesOrdered_def)
  have wf: "msp_wf m" "0 < ?D" using m by (simp_all add: kw_wf_def)
  obtain b df where deal: "pvss_DealRandomAndRevealDealerFunc \<lparr>pvss_key = key, pvss_lsss = \<lparr>kw_msp = m\<rparr>\<rparr> (Some (gp_prng p)) =
      Inr (map (\<lambda>sid. (sid, ped_share m (row_value m a) (row_value m b) sid)) (msp_Shareholders m), ped_vector key ?D a b, hd (gp_prng p), df, ?r)"
    and col: "column_holds m (df_randomColumn (pdf_g df)) a" "column_holds m (df_randomColumn (pdf_h df)) b"
    unfolding a_def by (rule gennaro_deals [OF m, of "gp_prng p" key]) (use len in simp)
  let ?sh = "\<lambda>j. ped_share m (row_value m a) (row_value m b) j" and ?v = "mat_Iter (vv_value (ped_vector key ?D a b))"
  have sh: "map_of (map (\<lambda>sid. (sid, ?sh sid)) (msp_Shareholders m)) j = Some (?sh j)" if "j \<in> set q" for j
    using that q(1) msp_Shareholders_holders [OF wf(1)] by (simp add: map_of_map_restrict)
  have it: "mat_Iter (df_randomColumn (pdf_g df)) = map a [0..<?D]" "mat_Iter (df_randomColumn (pdf_h df)) = map b [0..<?D]"
    "?v = map (\<lambda>c. ScalarOp G (ck_g key) (a c) + ScalarOp G (ck_h key) (b c)) [0..<?D]"
    using col wf(2) by (auto simp: column_holds_def ped_vector_Iter st(2) intro!: column_Iter)
  let ?p = "p\<lparr>gp_localPedersenDealerOutput := Some (map (\<lambda>sid. (sid, ?sh sid)) (msp_Shareholders m), ped_vector key ?D a b), gp_pedersenDealerFunc := Some df, gp_prng := ?r\<rparr>"
  have p': "gennaro_ready G m key q t sid i ?p" using p by (simp add: gennaro_ready_def gennaro_state_def)
  have u: "MapOrError (\<lambda>j. case map_of (map (\<lambda>sid. (sid, ?sh sid)) (msp_Shareholders m)) j of None \<Rightarrow> Inl ErrFailed | Some s \<Rightarrow> Inr (j, s)) (filter (\<lambda>j. j \<noteq> i) q) =
      Inr (map (\<lambda>j. (j, ?sh j)) (filter (\<lambda>j. j \<noteq> i) q))" by (rule MapOrError_ok) (use sh in auto)
  let ?f = "\<lambda>c. ScalarOp G (ck_g key) (a c) + ScalarOp G (ck_h key) (b c)"
  let ?W = "map (\<lambda>c. Some [a c, b c]) [0..<?D]" and ?V = "map (\<lambda>c. Some (?f c)) [0..<?D]"
  obtain pb c v c' where pr: "prover_ctx ?p batchOkamotoProverIDLabel i = Inr c" "ni_NewProver (okamoto_ni E key ?D) (Some c) = Inr v"
      "ni_Prove (okamoto_ni E key ?D) v ?V ?W ?r = Inr (pb, c', drop (2 * ?D) ?r)"
      "ni_accepts (okamoto_ni E key ?D) G m key q t sid batchOkamotoProverIDLabel i ?V pb"
    unfolding okamoto_ni_def by (rule okamoto_proof [OF E p' wf(2), of ?r]) (use len in simp)
  have comp: "ComposeWitnesses (\<lambda>w. w = None) ?W = Inr ?W" "ComposeStatements (\<lambda>x. x = None) ?V = Inr ?V"
    by (auto simp: ComposeWitnesses_def ComposeStatements_def list_ex_iff)
  note inputs = okamoto_inputs [where a = a and b = b and f = ?f and n = ?D, folded it]
  have "gennaro_Round1 E p = Inr (\<lparr>gb_VerificationVector = Some (ped_vector key ?D a b), gb_Proof = pb\<rparr>, map (\<lambda>j. (j, ?sh j)) (filter (\<lambda>j. j \<noteq> i) q),
      ?p\<lparr>gp_localShare := Some (?sh i), gp_prng := drop (2 * ?D) ?r, gp_round := 2\<rparr>)"
    using pr(1-3) comp sh [OF q(2)] u batchOkamoto_ok [OF p' wf(2), of E] inputs
    by (simp add: gennaro_Round1_def rd st deal Let_def gp_SharingID_def comp_def okamoto_ni_def)
  then show thesis
    by (rule that [OF _ _ _ _ _ _ col(1)]) (use p' pr(4) len in \<open>auto simp: gennaro_sent1_def Let_def it(3) comp_def gennaro_ready_def gennaro_state_def map_of_map_restrict\<close>)
qed

lemma gb_check_ok:
  assumes "gennaro_env E G D" "gp_MSP p = m" "mat_wf (vv_value v)" "mcols (vv_value v) = 1" "mrows (vv_value v) = mcols (msp_matrix m)" "pb \<noteq> []"
  shows "gb_check E p (Some v) pb = Inr ()"
proof -
  have "FoldOrError (\<lambda>_ i. case mat_Get (vv_value v) (int i) 0 of Inl _ \<Rightarrow> Inl ErrValidation
      | Inr entry \<Rightarrow> if \<not> ge_torsionFree E entry then Inl ErrValidation else Inr ()) () [0..<mrows (vv_value v)] = Inr ()"
    unfolding FoldOrError_check using assms(1,4) by (auto simp: mat_Get_def gennaro_env_def)
  with assms show ?thesis by (simp add: gb_check_def msp_D_def)
qed

lemma gennaro_key_wf:
  assumes "gennaro_env E G D" "gennaro_ready G m key q t sid i p" "ck_h key \<noteq> 0"
  shows "ck_wf key"
  using assms by (auto simp: ck_wf_def gennaro_env_def gennaro_ready_def gennaro_state_def generator_nonzero)

lemma with_tag_ok [simp]: "with_tag i (Inr x) = Inr x"
  by (simp add: with_tag_def)

lemma receive_live:
  fixes m :: "('a::field) MSP" and key :: "('g::ab_group_add, 'a) CommitmentKey"
  assumes E: "gennaro_env E G (mcols (msp_matrix m))" and m: "kw_wf m" and p: "gennaro_ready G m key q t sid i p" and i: "i \<in> set q - {j}" "set q = msp_holders m" and h: "ck_h key \<noteq> 0"
    and sent: "gennaro_sent1 E G m key q t sid j a b out us" and msgs: "b1 j = Some (Some out)" "u j = Some (Some (map_of us i))"
    and len: "length s = length (rows_for m {i})"
  shows "gennaro_receive E p b1 u (recv, s) j =
    Inr (recv(j \<mapsto> ped_share m (row_value m a) (row_value m b) i), map2 (+) s (map (row_value m a) (rows_for m {i})))"
proof -
  let ?D = "mcols (msp_matrix m)" and ?sh = "ped_share m (row_value m a) (row_value m b) i"
  let ?v = "ped_vector key ?D a b" and ?ni = "okamoto_ni E key ?D"
  have wf: "msp_wf m" "0 < ?D" using m by (simp_all add: kw_wf_def)
  have s: "gb_VerificationVector out = Some ?v" "map_of us i = Some ?sh"
    and acc: "ni_accepts ?ni G m key q t sid batchOkamotoProverIDLabel j (map Some (mat_Iter (vv_value ?v))) (gb_Proof out)"
    using sent i by (auto simp: gennaro_sent1_def Let_def)
  obtain c v c' where c: "prover_ctx p batchOkamotoProverIDLabel j = Inr c" "ni_NewVerifier ?ni (Some c) = Inr v"
      "ni_Verify ?ni v (map Some (mat_Iter (vv_value ?v))) (gb_Proof out) = Inr c'" by (rule ni_acceptsD [OF acc p])
  have st: "MapOrError (\<lambda>x. with_tag j (okamoto_NewStatement (Some x))) xs = Inr (map Some xs)" for xs :: "'g list"
    by (rule MapOrError_ok) (simp add: okamoto_NewStatement_def)
  have comp: "ComposeStatements (\<lambda>x. x = None) (map Some xs) = Inr (map Some xs)" for xs :: "'g list" by (auto simp: ComposeStatements_def list_ex_iff)
  have ver: "pvss_Verify (gp_pedersenVSS p) (Some ?sh) (Some ?v) = Inr ()"
    using pvss_dealt_verifies [OF wf(1) gennaro_key_wf [OF E p h], of i a b] p i by (simp add: gennaro_ready_def gennaro_state_def)
  show ?thesis
    using batchOkamoto_ok [OF p wf(2), of E] msgs s c st comp ver len
    by (simp add: gennaro_receive_def okamoto_ni_def ped_share_def)
qed

lemma receive_loop:
  fixes m :: "('a::field) MSP" and key :: "('g::ab_group_add, 'a) CommitmentKey"
  assumes E: "gennaro_env E G (mcols (msp_matrix m))" and m: "kw_wf m" and p: "gennaro_ready G m key q t sid i p" and i: "i \<in> set q" "set q = msp_holders m" and h: "ck_h key \<noteq> 0"
    and js: "distinct js" "set js \<subseteq> set q - {i}"
    and msgs: "\<And>j. j \<in> set js \<Longrightarrow> gennaro_sent1 E G m key q t sid j (aa j) (bb j) (o1 j) (us j) \<and> b1 j = Some (Some (o1 j)) \<and> u j = Some (Some (map_of (us j) i))"
  shows "FoldOrError (gennaro_receive E p b1 u) (recv, map (row_value m r) (rows_for m {i})) js =
    Inr (\<lambda>j. if j \<in> set js then Some (ped_share m (row_value m (aa j)) (row_value m (bb j)) i) else recv j,
      map (row_value m (\<lambda>c. r c + (\<Sum>j\<in>set js. aa j c))) (rows_for m {i}))"
  using js msgs
proof (induction js arbitrary: recv r)
  case (Cons j js)
  let ?sh = "ped_share m (row_value m (aa j)) (row_value m (bb j)) i"
  have "gennaro_receive E p b1 u (recv, map (row_value m r) (rows_for m {i})) j = Inr (recv(j \<mapsto> ?sh),
      map2 (+) (map (row_value m r) (rows_for m {i})) (map (row_value m (aa j)) (rows_for m {i})))"
    by (rule receive_live [OF E m p _ i(2) h]) (use Cons.prems i in auto)
  also have "map2 (+) (map (row_value m r) (rows_for m {i})) (map (row_value m (aa j)) (rows_for m {i})) = map (row_value m (\<lambda>c. r c + aa j c)) (rows_for m {i})"
    by (simp add: map2_map_map row_value_linear)
  finally show ?case
    using Cons.IH [of "recv(j \<mapsto> ?sh)" "\<lambda>c. r c + aa j c"] Cons.prems by (auto simp: fun_eq_iff add.assoc)
qed simp

lemma gennaro_Round2_live:
  fixes m :: "('a::field) MSP" and key :: "('g::ab_group_add, 'a) CommitmentKey" and aa bb :: "ID \<Rightarrow> nat \<Rightarrow> 'a"
  assumes E: "gennaro_env E G (mcols (msp_matrix m))" and m: "kw_wf m" "mcols (msp_matrix m) < 2 ^ 63" and p: "gennaro_ready G m key q t sid i p"
    and q: "distinct q" "set q = msp_holders m" "i \<in> set q" and h: "ck_h key \<noteq> 0"
    and st: "gp_round p = 2" "gp_prng p \<noteq> []" "gp_pedersenDealerFunc p = Some df" "column_holds m (df_randomColumn (pdf_g df)) (aa i)"
      "gp_localShare p = Some (ped_share m (row_value m (aa i)) (row_value m (bb i)) i)"
    and msgs: "\<And>j. j \<in> set q - {i} \<Longrightarrow> gennaro_sent1 E G m key q t sid j (aa j) (bb j) (o1 j) (us j) \<and> b1 j = Some (Some (o1 j)) \<and> u j = Some (Some (map_of (us j) i))"
  obtains out p' v where "gennaro_Round2 E p b1 u = Inr (out, p')" "gennaro_sent2 E G m key q t sid i (aa i) out" "gennaro_ready G m key q t sid i p'" "gp_round p' = 3"
    "gb_VerificationVector out = Some v" "gp_localFeldmanVerificationVector p' = Some v"
    "\<forall>j\<in>set q - {i}. gp_receivedShares p' j = Some (ped_share m (row_value m (aa j)) (row_value m (bb j)) i)"
    "gp_summedShareValue p' = map (row_value m (\<lambda>c. \<Sum>j\<in>set q. aa j c)) (rows_for m {i})"
proof -
  let ?D = "mcols (msp_matrix m)" and ?js = "filter (\<lambda>j. j \<noteq> i) q" and ?xs = "map (aa i) [0..<mcols (msp_matrix m)]"
  have pf: "gp_group p = G" "ck_g (gp_key p) = Generator G" "gp_MSP p = m" "gp_SharingID p = i" "OtherPartiesOrdered (gp_ctx p) = ?js"
    using p by (simp_all add: gennaro_ready_def gennaro_state_def gp_MSP_def gp_SharingID_def OtherPartiesOrdered_def)
  have D: "2 \<le> ?D" "0 < ?D" using m(1) by (simp_all add: kw_wf_def)
  have val: "ValidateIncomingMessages (gen1_Validate E) p ?js b1 = Inr ()" "ValidateIncomingMessages gen1u_Validate p ?js u = Inr ()"
    unfolding ValidateIncoming_ok using msgs q(3) D(2)
    by (fastforce simp: gen1_Validate_def gen1u_Validate_def gennaro_sent1_def Let_def pf ped_share_def ni_accepts_def ped_vector_def mat_simps intro!: gb_check_ok [OF E pf(3)])+
  have col: "mat_wf (df_randomColumn (pdf_g df))" "mrows (df_randomColumn (pdf_g df)) = ?D" "mcols (df_randomColumn (pdf_g df)) = 1"
    "\<And>c. c < ?D \<Longrightarrow> ent (df_randomColumn (pdf_g df)) c 0 = aa i c" using st(4) by (simp_all add: column_holds_def)
  obtain v where v: "Lift (ScalarOp G) (Some (df_randomColumn (pdf_g df))) (Generator G) = Inr (vv_value v)"
    "NewVerificationVector (Some (vv_value v)) (Some m) = Inr v" "commits G m v (aa i)" "mat_wf (vv_value v)"
    by (rule lift_commits [OF col, of G])
  have it: "mat_Iter (df_randomColumn (pdf_g df)) = ?xs" "mat_Iter (vv_value v) = map (ScalarOp G (Generator G)) ?xs"
    using column_Iter [OF col] commits_Iter [OF v(3,4)] by simp_all
  obtain pb c w c' where pr: "prover_ctx p batchSchnorrProverIDLabel i = Inr c" "ni_NewProver (schnorr_ni E G ?D) (Some c) = Inr w"
    "ni_Prove (schnorr_ni E G ?D) w (bs_NewStatement (Generator G) (mat_Iter (vv_value v))) (bs_NewWitness ?xs) (gp_prng p) = Inr (pb, c', tl (gp_prng p))"
    "ni_accepts (schnorr_ni E G ?D) G m key q t sid batchSchnorrProverIDLabel i (bs_NewStatement (Generator G) (mat_Iter (vv_value v))) pb"
    unfolding it(2) by (rule schnorr_proof [OF E p, of ?xs "gp_prng p" batchSchnorrProverIDLabel]) (use D m(2) st(2) in simp_all)
  have fold: "FoldOrError (gennaro_receive E p b1 u) (gp_receivedShares p, map (row_value m (aa i)) (rows_for m {i})) ?js =
    Inr (\<lambda>j. if j \<in> set ?js then Some (ped_share m (row_value m (aa j)) (row_value m (bb j)) i) else gp_receivedShares p j,
      map (row_value m (\<lambda>c. aa i c + (\<Sum>j\<in>set ?js. aa j c))) (rows_for m {i}))" (is "_ = Inr (?recv, ?sum)")
    by (rule receive_loop [OF E m(1) p q(3,2) h]) (use q msgs in auto)
  have sum: "aa i c + (\<Sum>j\<in>set ?js. aa j c) = (\<Sum>j\<in>set q. aa j c)" for c
    using sum.remove [of "set q" i "\<lambda>j. aa j c"] q(3) by (simp add: set_filter set_diff_eq)
  have "gennaro_Round2 E p b1 u = Inr (\<lparr>gb_VerificationVector = Some v, gb_Proof = pb\<rparr>,
      p\<lparr>gp_receivedShares := ?recv, gp_summedShareValue := ?sum, gp_localFeldmanVerificationVector := Some v, gp_prng := tl (gp_prng p), gp_round := 3\<rparr>)"
    using val fold v(1,2) pr(1-3) batchSchnorr_ok [OF p D(1) m(2), of E] by (simp add: gennaro_Round2_def st pf it(1) ped_share_def)
  then show thesis
    by (rule that) (use p v(3,4) pr(4) sum in \<open>auto simp: gennaro_sent2_def gennaro_ready_def gennaro_state_def\<close>)
qed

lemma holder_NewShare:
  assumes "msp_wf m" "i \<in> msp_holders m"
  shows "kw_NewShare i (map lam (rows_for m {i})) = Inr (row_share m lam i)"
  using holder_has_rows [OF assms(2)] holder_nonzero [OF assms] by (simp add: kw_NewShare_def row_share_def)

lemma confirm_live:
  fixes m :: "('a::field) MSP" and key :: "('g::ab_group_add, 'a) CommitmentKey"
  assumes E: "gennaro_env E G (mcols (msp_matrix m))" and m: "kw_wf m" and p: "gennaro_ready G m key q t sid i p" and i: "i \<in> msp_holders m"
    and sent: "gennaro_sent2 E G m key q t sid j a out" "b2 j = Some (Some out)" and recv: "gp_receivedShares p j = Some (ped_share m (row_value m a) lam i)"
    and w: "commits G m w r" "mat_wf (vv_value w)"
  obtains w' where "gennaro_confirm E p (schnorr_ni E G (mcols (msp_matrix m))) b2 w j = Inr w'" "commits G m w' (\<lambda>c. r c + a c)" "mat_wf (vv_value w')"
proof -
  let ?ni = "schnorr_ni E G (mcols (msp_matrix m))"
  have G: "prime_group G" and wf: "msp_wf m" using E m by (simp_all add: gennaro_env_def kw_wf_def)
  from sent obtain v where v: "gb_VerificationVector out = Some v" "commits G m v a" "mat_wf (vv_value v)"
    "ni_accepts ?ni G m key q t sid batchSchnorrProverIDLabel j (bs_NewStatement (Generator G) (mat_Iter (vv_value v))) (gb_Proof out)"
    by (auto simp: gennaro_sent2_def)
  obtain c x c' where c: "prover_ctx p batchSchnorrProverIDLabel j = Inr c" "ni_NewVerifier ?ni (Some c) = Inr x"
      "ni_Verify ?ni x (bs_NewStatement (Generator G) (mat_Iter (vv_value v))) (gb_Proof out) = Inr c'" by (rule ni_acceptsD [OF v(4) p])
  note sh = holder_NewShare [OF wf i, of "row_value m a"]
  have ver: "feldman_Verify (gp_feldmanVSS p) (Some (row_share m (row_value m a) i)) (Some v) = Inr ()"
    using feldman_Verify_iff [OF G wf v(2), of "row_share m (row_value m a) i"] i p by (simp add: gennaro_ready_def gennaro_state_def)
  obtain w' where w': "vv_Op (Some w) (Some v) = Inr w'" "commits G m w' (\<lambda>c. r c + a c)" "mat_wf (vv_value w')"
    using commits_add [OF G w v(2,3)] by blast
  have "ck_g (gp_key p) = Generator G" using p by (simp add: gennaro_ready_def gennaro_state_def)
  with c sh ver w'(1) have "gennaro_confirm E p ?ni b2 w j = Inr w'"
    by (simp add: gennaro_confirm_def sent(2) v(1) recv ped_share_def)
  with w' show thesis by (intro that)
qed

lemma confirm_loop_live:
  fixes m :: "('a::field) MSP" and key :: "('g::ab_group_add, 'a) CommitmentKey" and aa :: "ID \<Rightarrow> nat \<Rightarrow> 'a"
  assumes E: "gennaro_env E G (mcols (msp_matrix m))" and m: "kw_wf m" and p: "gennaro_ready G m key q t sid i p" and i: "i \<in> msp_holders m"
    and msgs: "\<And>j. j \<in> set js \<Longrightarrow> gennaro_sent2 E G m key q t sid j (aa j) (o2 j) \<and> b2 j = Some (Some (o2 j)) \<and>
      gp_receivedShares p j = Some (ped_share m (row_value m (aa j)) (row_value m (bb j)) i)"
    and w: "commits G m w r" "mat_wf (vv_value w)" and js: "distinct js"
  shows "\<exists>w'. FoldOrError (gennaro_confirm E p (schnorr_ni E G (mcols (msp_matrix m))) b2) w js = Inr w' \<and>
    commits G m w' (\<lambda>c. r c + (\<Sum>j\<in>set js. aa j c)) \<and> mat_wf (vv_value w')"
  using msgs w js
proof (induction js arbitrary: w r)
  case (Cons j js)
  have j: "gennaro_sent2 E G m key q t sid j (aa j) (o2 j)" "b2 j = Some (Some (o2 j))"
    "gp_receivedShares p j = Some (ped_share m (row_value m (aa j)) (row_value m (bb j)) i)" using Cons.prems(1) [of j] by auto
  obtain w1 where w1: "gennaro_confirm E p (schnorr_ni E G (mcols (msp_matrix m))) b2 w j = Inr w1" "commits G m w1 (\<lambda>c. r c + aa j c)" "mat_wf (vv_value w1)"
    by (rule confirm_live [where ?b2.0 = b2, OF E m p i j Cons.prems(2,3)])
  have "\<exists>w'. FoldOrError (gennaro_confirm E p (schnorr_ni E G (mcols (msp_matrix m))) b2) w1 js = Inr w' \<and>
    commits G m w' (\<lambda>c. (r c + aa j c) + (\<Sum>j\<in>set js. aa j c)) \<and> mat_wf (vv_value w')"
    by (rule Cons.IH [OF _ w1(2,3)]) (use Cons.prems in auto)
  with w1(1) Cons.prems(4) show ?case by (simp add: add.assoc)
qed simp

lemma gennaro_Round3_live:
  fixes m :: "('a::field) MSP" and key :: "('g::ab_group_add, 'a) CommitmentKey" and aa :: "ID \<Rightarrow> nat \<Rightarrow> 'a"
  assumes E: "gennaro_env E G (mcols (msp_matrix m))" and m: "kw_wf m" "mcols (msp_matrix m) < 2 ^ 63" and p: "gennaro_ready G m key q t sid i p"
    and q: "distinct q" "set q = msp_holders m" "i \<in> set q"
    and st: "gp_round p = 3" "gp_localFeldmanVerificationVector p = Some v" "commits G m v (aa i)" "mat_wf (vv_value v)"
      "gp_summedShareValue p = map (row_value m (\<lambda>c. \<Sum>j\<in>set q. aa j c)) (rows_for m {i})"
    and msgs: "\<And>j. j \<in> set q - {i} \<Longrightarrow> gennaro_sent2 E G m key q t sid j (aa j) (o2 j) \<and> b2 j = Some (Some (o2 j)) \<and>
      gp_receivedShares p j = Some (ped_share m (row_value m (aa j)) (row_value m (bb j)) i)"
  obtains sh p' where "gennaro_Round3 E p b2 = Inr (sh, p')"
proof -
  let ?js = "filter (\<lambda>j. j \<noteq> i) q" and ?R = "\<lambda>c. \<Sum>j\<in>set q. aa j c"
  have pf: "gp_group p = G" "gp_MSP p = m" "gp_SharingID p = i" "OtherPartiesOrdered (gp_ctx p) = ?js"
    using p by (simp_all add: gennaro_ready_def gennaro_state_def gp_MSP_def gp_SharingID_def OtherPartiesOrdered_def)
  have G: "prime_group G" and wf: "msp_wf m" and D: "2 \<le> mcols (msp_matrix m)" and i: "i \<in> msp_holders m"
    using E m q by (simp_all add: gennaro_env_def kw_wf_def)
  have val: "ValidateIncomingMessages (gen2_Validate E) p ?js b2 = Inr ()"
    unfolding ValidateIncoming_ok using msgs
    by (fastforce simp: gen2_Validate_def gennaro_sent2_def ni_accepts_def commits_def intro!: gb_check_ok [OF E pf(2)])
  have "\<exists>w. FoldOrError (gennaro_confirm E p (schnorr_ni E G (mcols (msp_matrix m))) b2) v ?js = Inr w \<and>
      commits G m w (\<lambda>c. aa i c + (\<Sum>j\<in>set ?js. aa j c)) \<and> mat_wf (vv_value w)"
    by (rule confirm_loop_live [where bb = bb, OF E m(1) p i _ st(3,4)]) (use msgs q in auto)
  moreover have "aa i c + (\<Sum>j\<in>set ?js. aa j c) = ?R c" for c
    using sum.remove [of "set q" i "\<lambda>j. aa j c"] q(3) by (simp add: set_filter set_diff_eq)
  ultimately obtain w where w: "FoldOrError (gennaro_confirm E p (schnorr_ni E G (mcols (msp_matrix m))) b2) v ?js = Inr w" "commits G m w ?R" by auto
  note sh = holder_NewShare [OF wf i, of "row_value m ?R"]
  obtain shard where "NewBaseShard G (Some (row_share m (row_value m ?R) i)) (Some w) (Some m) = Inr shard"
    using NewBaseShard_commits(1) [OF G wf w(2), of "row_share m (row_value m ?R) i"] i by auto
  with val w(1) sh show thesis
    by (intro that [of shard]) (simp add: gennaro_Round3_def st pf batchSchnorr_ok [OF p D m(2)])
qed

text \<open>The messages that a party receives from the others, and a session in which all parties start honestly: they agree on the key, the transcript and the session
  identifier, they use the Fiat-Shamir compiler, and their random sources last.\<close>

definition from_others :: "ID list \<Rightarrow> ID \<Rightarrow> (ID \<Rightarrow> 'm) \<Rightarrow> ID \<rightharpoonup> 'm" where
  "from_others q i f = (\<lambda>j. if j \<in> set q \<and> j \<noteq> i then Some (f j) else None)"

definition gennaro_session ::
  "('g, 'a) GennaroEnv \<Rightarrow> ('g::ab_group_add, 'a::field) PrimeGroup \<Rightarrow> 'a MSP \<Rightarrow> ('g, 'a) CommitmentKey \<Rightarrow> ID list \<Rightarrow> (ID \<Rightarrow> ('g, 'a) GennaroParticipant) \<Rightarrow> bool" where
  "gennaro_session E G m key q p \<longleftrightarrow> gennaro_env E G (mcols (msp_matrix m)) \<and> kw_wf m \<and> mcols (msp_matrix m) < 2 ^ 63 \<and> distinct q \<and> set q = msp_holders m \<and> ck_h key \<noteq> 0 \<and>
     (\<exists>t sid. \<forall>i\<in>set q. gennaro_ready G m key q t sid i (p i) \<and> gp_round (p i) = 1 \<and> 4 * mcols (msp_matrix m) + 3 \<le> length (gp_prng (p i)))"

lemma gennaro_session_runs:
  fixes m :: "('a::field) MSP" and key :: "('g::ab_group_add, 'a) CommitmentKey"
  assumes "gennaro_session E G m key q p"
  obtains o1 u p1 o2 p2 sh p3 vm where "\<forall>i\<in>set q. gennaro_Round1 E (p i) = Inr (o1 i, u i, p1 i) \<and>
    gennaro_Round2 E (p1 i) (from_others q i (\<lambda>j. Some (o1 j))) (from_others q i (\<lambda>j. Some (map_of (u j) i))) = Inr (o2 i, p2 i) \<and>
    gennaro_Round3 E (p2 i) (from_others q i (\<lambda>j. Some (o2 j))) = Inr (sh i, p3 i) \<and>
    gb_VerificationVector (o2 i) = Some (vm i) \<and> mat_wf (vv_value (vm i))"
proof -
  from assms obtain t sid where E: "gennaro_env E G (mcols (msp_matrix m))" and m: "kw_wf m" "mcols (msp_matrix m) < 2 ^ 63" and q: "distinct q" "set q = msp_holders m" and h: "ck_h key \<noteq> 0"
    and p: "\<And>i. i \<in> set q \<Longrightarrow> gennaro_ready G m key q t sid i (p i) \<and> gp_round (p i) = 1 \<and> 4 * mcols (msp_matrix m) + 3 \<le> length (gp_prng (p i))"
    unfolding gennaro_session_def by blast
  define aa where "aa i = gennaro_column (gp_prng (p i))" for i
  have "\<exists>b out us p' df. gennaro_Round1 E (p i) = Inr (out, us, p') \<and> gennaro_sent1 E G m key q t sid i (aa i) b out us \<and>
      gennaro_ready G m key q t sid i p' \<and> gp_round p' = 2 \<and> gp_prng p' \<noteq> [] \<and> gp_pedersenDealerFunc p' = Some df \<and> column_holds m (df_randomColumn (pdf_g df)) (aa i) \<and>
      gp_localShare p' = Some (ped_share m (row_value m (aa i)) (row_value m b) i)" if "i \<in> set q" for i
    unfolding aa_def by (rule gennaro_Round1_live [where t = t and sid = sid and p = "p i" and key = key, OF E m(1) _ q(2) that]) (use p [OF that] in blast)+
  then obtain bb o1 us p1 df where r1: "\<And>i. i \<in> set q \<Longrightarrow> gennaro_Round1 E (p i) = Inr (o1 i, us i, p1 i) \<and> gennaro_sent1 E G m key q t sid i (aa i) (bb i) (o1 i) (us i) \<and>
      gennaro_ready G m key q t sid i (p1 i) \<and> gp_round (p1 i) = 2 \<and> gp_prng (p1 i) \<noteq> [] \<and> gp_pedersenDealerFunc (p1 i) = Some (df i) \<and>
      column_holds m (df_randomColumn (pdf_g (df i))) (aa i) \<and> gp_localShare (p1 i) = Some (ped_share m (row_value m (aa i)) (row_value m (bb i)) i)" by metis
  let ?b1 = "\<lambda>i. from_others q i (\<lambda>j. Some (o1 j))" and ?u = "\<lambda>i. from_others q i (\<lambda>j. Some (map_of (us j) i))"
  have "\<exists>out p' v. gennaro_Round2 E (p1 i) (?b1 i) (?u i) = Inr (out, p') \<and> gennaro_sent2 E G m key q t sid i (aa i) out \<and> gennaro_ready G m key q t sid i p' \<and>
      gp_round p' = 3 \<and> gb_VerificationVector out = Some v \<and> gp_localFeldmanVerificationVector p' = Some v \<and>
      (\<forall>j\<in>set q - {i}. gp_receivedShares p' j = Some (ped_share m (row_value m (aa j)) (row_value m (bb j)) i)) \<and>
      gp_summedShareValue p' = map (row_value m (\<lambda>c. \<Sum>j\<in>set q. aa j c)) (rows_for m {i})" if "i \<in> set q" for i
    by (rule gennaro_Round2_live [where t = t and sid = sid and p = "p1 i" and df = "df i" and aa = aa and bb = bb and ?o1.0 = o1 and us = us and ?b1.0 = "?b1 i" and u = "?u i", OF E m _ q that h]) (use r1 that in \<open>auto simp: from_others_def\<close>)
  then obtain o2 p2 vm where r2: "\<And>i. i \<in> set q \<Longrightarrow> gennaro_Round2 E (p1 i) (?b1 i) (?u i) = Inr (o2 i, p2 i) \<and> gennaro_sent2 E G m key q t sid i (aa i) (o2 i) \<and>
      gennaro_ready G m key q t sid i (p2 i) \<and> gp_round (p2 i) = 3 \<and> gb_VerificationVector (o2 i) = Some (vm i) \<and> gp_localFeldmanVerificationVector (p2 i) = Some (vm i) \<and>
      (\<forall>j\<in>set q - {i}. gp_receivedShares (p2 i) j = Some (ped_share m (row_value m (aa j)) (row_value m (bb j)) i)) \<and>
      gp_summedShareValue (p2 i) = map (row_value m (\<lambda>c. \<Sum>j\<in>set q. aa j c)) (rows_for m {i})" by metis
  have v: "commits G m (vm i) (aa i)" "mat_wf (vv_value (vm i))" if "i \<in> set q" for i using r2 [OF that] by (auto simp: gennaro_sent2_def)
  have "\<exists>sh p'. gennaro_Round3 E (p2 i) (from_others q i (\<lambda>j. Some (o2 j))) = Inr (sh, p')" if i: "i \<in> set q" for i
    by (rule gennaro_Round3_live [where t = t and sid = sid and key = key and p = "p2 i" and v = "vm i" and aa = aa and bb = bb and ?o2.0 = o2 and ?b2.0 = "from_others q i (\<lambda>j. Some (o2 j))", OF E m _ q i])
      (use r2 v i in \<open>auto simp: from_others_def\<close>)
  then obtain sh p3 where r3: "\<And>i. i \<in> set q \<Longrightarrow> gennaro_Round3 E (p2 i) (from_others q i (\<lambda>j. Some (o2 j))) = Inr (sh i, p3 i)" by metis
  show thesis by (rule that [of o1 us p1 o2 p2 sh p3 vm]) (use r1 r2 r3 v in blast)
qed

section \<open>Properties\<close>

text \<open>
  C12. Distributed key generation is correct whatever the other parties do: all parties that complete the three rounds, having received the same
  Feldman vectors, hold shards of one key. Their public keys and verification vectors are equal, the public key is the product of the contributions
  of all parties, that of a completing party being its own first sample in the exponent, and any coalition of them that the programme accepts reconstructs
  the discrete logarithm of the public key from its shares.
\<close>

theorem gennaro_correct:
  fixes m :: "('a::field) MSP" and key :: "ID \<Rightarrow> ('g::ab_group_add, 'a) CommitmentKey"
  assumes G: "prime_group G" and m: "kw_wf m" and q: "distinct q" "set q = msp_holders m" "H \<subseteq> set q"
    and run: "\<And>i. i \<in> H \<Longrightarrow> gennaro_party E G m (key i) q i (p i) (b1 i) (u i) (b2 i) (vm i) (sh i)"
    and b: "\<And>i j. i \<in> H \<Longrightarrow> j \<in> set q \<Longrightarrow> j \<noteq> i \<Longrightarrow>
      (\<exists>pr. b2 i j = Some (Some \<lparr>gb_VerificationVector = Some (vm j), gb_Proof = pr\<rparr>)) \<and> mat_wf (vv_value (vm j))"
  shows "\<exists>x. (\<forall>i\<in>H. bpm_pkValue (bs_public (sh i)) = ScalarOp G (Generator G) x \<and>
        bpm_pkValue (bs_public (sh i)) = (\<Sum>j\<in>set q. ent (vv_value (vm j)) 0 0) \<and>
        ent (vv_value (vm i)) 0 0 = ScalarOp G (Generator G) (hd (gp_prng (p i))) \<and>
        (\<forall>j\<in>H. bpm_fv (bs_public (sh i)) = bpm_fv (bs_public (sh j)))) \<and>
    (\<forall>ids. distinct ids \<and> set ids \<subseteq> H \<and> Accepts m ids \<longrightarrow>
       kw_Reconstruct \<lparr>kw_msp = m\<rparr> (map (\<lambda>i. Some (bs_share (sh i))) ids) = Inr x)"
proof (cases "H = {}")
  case True
  have "\<not> Accepts m []" using Accepts_iff [of m] m by (simp add: kw_wf_def)
  with True show ?thesis by simp
next
  case False
  then obtain i0 where i0: "i0 \<in> H" by blast
  have wf: "msp_wf m" "0 < mcols (msp_matrix m)" using m by (simp_all add: kw_wf_def)
  have "\<exists>r. commits G m (vm j) r" if "j \<in> set q" for j
    using commits_ex [OF G, of "vm j" m] gennaro_party_dims [where vm = vm, OF m _ that run [OF i0]] b [OF i0 that] i0 q(3) by blast
  then obtain rr where rr: "\<And>j. j \<in> set q \<Longrightarrow> commits G m (vm j) (rr j)" by metis
  define R where "R = (\<lambda>c. \<Sum>j\<in>set q. rr j c)"
  have res: "bs_share (sh i) = row_share m (row_value m R) i \<and> bpm_msp (bs_public (sh i)) = m \<and> bpm_pkValue (bs_public (sh i)) = ScalarOp G (Generator G) (R 0) \<and>
    commits G m (bpm_fv (bs_public (sh i))) R \<and> mat_wf (vv_value (bpm_fv (bs_public (sh i)))) \<and> rr i 0 = hd (gp_prng (p i))" if "i \<in> H" for i
    unfolding R_def by (rule gennaro_party_result [where vm = vm, OF G m q(1) _ run [OF that]]) (use that q(3) b [OF that] rr in auto)
  have ent: "ent (vv_value (vm j)) 0 0 = ScalarOp G (Generator G) (rr j 0)" if "j \<in> set q" for j
    using rr [OF that] wf(2) by (simp add: commits_def)
  have pk: "ScalarOp G (Generator G) (R 0) = (\<Sum>j\<in>set q. ent (vv_value (vm j)) 0 0)"
    using ent by (simp add: R_def scalar_sum [OF G])
  have "kw_Reconstruct \<lparr>kw_msp = m\<rparr> (map (\<lambda>i. Some (bs_share (sh i))) ids) = Inr (R 0)" if "distinct ids" "set ids \<subseteq> H" "Accepts m ids" for ids
    using shares_of_column [OF wf(1) that(1,3), of "\<lambda>i. bs_share (sh i)" R] res that(2) by auto
  moreover have "bpm_fv (bs_public (sh i)) = bpm_fv (bs_public (sh j))" if "i \<in> H" "j \<in> H" for i j
    by (rule commits_determines [of G m _ R]) (use res [OF that(1)] res [OF that(2)] in simp_all)
  moreover have "bpm_pkValue (bs_public (sh i)) = ScalarOp G (Generator G) (R 0) \<and> bpm_pkValue (bs_public (sh i)) = (\<Sum>j\<in>set q. ent (vv_value (vm j)) 0 0) \<and>
      ent (vv_value (vm i)) 0 0 = ScalarOp G (Generator G) (hd (gp_prng (p i)))" if "i \<in> H" for i
    using res [OF that] pk ent [of i] that q(3) by auto
  ultimately show ?thesis by (intro exI [of _ "R 0"]) blast
qed

text \<open>
  C13. Distributed key generation is live: when all parties are honest and share one session, every party completes all three rounds on the
  messages of the others, whatever scalars they draw, with proofs compiled by Fiat-Shamir over any sponge and any proof codec that round-trips.
  A session here means: the quorum is the set of the holders of rows of the programme, which has at least two and fewer than \<open>2 ^ 63\<close> columns; the
  group has prime order, the order annihilates it, its elements pass the torsion check and the second generator of the commitment key is not the
  identity; challenges of the length that the batched proof uses convert to scalars; the parties have equal keys, transcripts and session
  identifiers, and every random source holds at least \<open>4 D + 3\<close> scalars for \<open>D\<close> columns.
\<close>

theorem gennaro_completes:
  fixes m :: "('a::field) MSP" and key :: "('g::ab_group_add, 'a) CommitmentKey"
  assumes "gennaro_session E G m key q p"
  shows "\<exists>o1 u p1 o2 p2 sh p3. \<forall>i\<in>set q. gennaro_Round1 E (p i) = Inr (o1 i, u i, p1 i) \<and>
    gennaro_Round2 E (p1 i) (from_others q i (\<lambda>j. Some (o1 j))) (from_others q i (\<lambda>j. Some (map_of (u j) i))) = Inr (o2 i, p2 i) \<and>
    gennaro_Round3 E (p2 i) (from_others q i (\<lambda>j. Some (o2 j))) = Inr (sh i, p3 i)"
  by (rule gennaro_session_runs [OF assms]) blast

subsection \<open>An instance\<close>

text \<open>Two parties over the rationals with the programme of the rows \<open>(1, 1)\<close> and \<open>(1, 2)\<close> and the unary codec.\<close>

definition gennaro_example_env :: "(rat, rat) GennaroEnv" where
  "gennaro_example_env = \<lparr>ge_xof = (\<lambda>_ _ _. 7), ge_order = 0, ge_groupName = ''Q'', ge_gbytes = (\<lambda>_. []), ge_sbytes = (\<lambda>_. []),
     ge_FromWideBytes = (\<lambda>e. if length e \<le> 64 then Inr (of_nat (be_val e)) else Inl ErrFailed), ge_elementSize = 32, ge_Hash = (\<lambda>_. Inr 2), ge_torsionFree = (\<lambda>_. True),
     ge_okEnc = unary_enc, ge_okDec = unary_dec, ge_okFischlin = (\<lambda>_ _ _. Inl ErrUnsupportedType),
     ge_bsEnc = unary_enc, ge_bsDec = unary_dec, ge_bsFischlin = (\<lambda>_ _ _. Inl ErrUnsupportedType)\<rparr>"

definition gennaro_example_key :: "(rat, rat) CommitmentKey" where
  "gennaro_example_key = \<lparr>ck_group = field_group, ck_g = Generator field_group, ck_h = 2\<rparr>"

definition gennaro_example_party :: "rat MSP \<Rightarrow> ID \<Rightarrow> (rat, rat) GennaroParticipant" where
  "gennaro_example_party m i = \<lparr>gp_ctx = \<lparr>ctx_sid = [], ctx_holderID = i, ctx_sortedQuorum = [5, 9], ctx_tape = NewTranscript [], ctx_seeds = Map.empty\<rparr>,
     gp_group = field_group, gp_prng = (if i = 5 then [3, 1, 4, 1, 5, 9, 2, 6, 5, 3, 5] else [2, 7, 1, 8, 2, 8, 1, 8, 2, 8, 4]), gp_niCompilerName = fs_Name,
     gp_key = gennaro_example_key, gp_lsss = \<lparr>kw_msp = m\<rparr>, gp_pedersenVSS = \<lparr>pvss_key = gennaro_example_key, pvss_lsss = \<lparr>kw_msp = m\<rparr>\<rparr>,
     gp_feldmanVSS = \<lparr>fs_group = field_group, fs_lsss = \<lparr>kw_msp = m\<rparr>\<rparr>, gp_localPedersenDealerOutput = None, gp_pedersenDealerFunc = None,
     gp_localFeldmanVerificationVector = None, gp_localShare = None, gp_receivedShares = Map.empty, gp_summedShareValue = [], gp_round = 1\<rparr>"

lemma unary_codec: "\<exists>b. unary_enc x = Inr b \<and> b \<noteq> [] \<and> unary_dec b = Inr (Some x)"
  by (simp add: unary_enc_def unary_dec_def)

lemma gennaro_example_session:
  assumes "hjky_example_msp = Inr m"
  shows "gennaro_session gennaro_example_env field_group m gennaro_example_key [5, 9] (gennaro_example_party m)"
proof -
  note ex = hjky_example_structure [OF assms]
  have D: "mcols (msp_matrix m) = 2" using assms by (auto simp: hjky_example_msp_def NewMSP_def split: if_splits option.splits)
  have "bsp_challengeLength (schnorr_params (field_group :: (rat, rat) PrimeGroup) 2) \<le> 64" by code_simp
  then have E: "gennaro_env gennaro_example_env field_group (mcols (msp_matrix m))"
    using field_group D by (simp add: gennaro_env_def gennaro_example_env_def unary_codec)
  have p: "gennaro_ready field_group m gennaro_example_key [5, 9] (NewTranscript []) [] i (gennaro_example_party m i) \<and> gp_round (gennaro_example_party m i) = 1 \<and>
      4 * mcols (msp_matrix m) + 3 \<le> length (gp_prng (gennaro_example_party m i))" for i
    by (simp add: gennaro_ready_def gennaro_state_def gennaro_example_party_def gennaro_example_key_def D NewTranscript_def NewCSHAKE256_def)
  show ?thesis unfolding gennaro_session_def using E ex D p by (auto simp: gennaro_example_key_def)
qed

theorem gennaro_completes_witness:
  "\<exists>m o1 u p1 o2 p2 sh p3. hjky_example_msp = Inr m \<and> gennaro_Round1 gennaro_example_env (gennaro_example_party m 5) = Inr (o1 5, u 5, p1 (5 :: ID)) \<and>
     gennaro_Round2 gennaro_example_env (p1 5) (from_others [5, 9] 5 (\<lambda>j. Some (o1 j))) (from_others [5, 9] 5 (\<lambda>j. Some (map_of (u j) 5))) = Inr (o2 5, p2 (5 :: ID)) \<and>
     gennaro_Round3 gennaro_example_env (p2 5) (from_others [5, 9] 5 (\<lambda>j. Some (o2 j))) = Inr (sh (5 :: ID), p3 (5 :: ID))"
proof -
  obtain m where m: "hjky_example_msp = Inr m" using hjky_example_runs(1) by (cases hjky_example_msp) auto
  have "(5 :: ID) \<in> set [5, 9]" by simp
  with gennaro_completes [OF gennaro_example_session [OF m]] m show ?thesis by (meson bspec)
qed

theorem gennaro_correct_witness:
  "\<exists>m b1 u b2 v s b1' u' b2' v' s'. hjky_example_msp = Inr m \<and>
     gennaro_party gennaro_example_env field_group m gennaro_example_key [5, 9] 5 (gennaro_example_party m 5) b1 u b2 v s \<and>
     gennaro_party gennaro_example_env field_group m gennaro_example_key [5, 9] 9 (gennaro_example_party m 9) b1' u' b2' v' s' \<and>
     bpm_pkValue (bs_public s) = 5 \<and> bpm_pkValue (bs_public s') = 5 \<and> kw_Reconstruct \<lparr>kw_msp = m\<rparr> [Some (bs_share s), Some (bs_share s')] = Inr 5"
proof -
  obtain m where m: "hjky_example_msp = Inr m" using hjky_example_runs(1) by (cases hjky_example_msp) auto
  note ex = hjky_example_structure [OF m]
  let ?p = "gennaro_example_party m" and ?E = gennaro_example_env
  have ses: "gennaro_session ?E field_group m gennaro_example_key [5, 9] ?p" by (rule gennaro_example_session [OF m])
  obtain o1 u p1 o2 p2 sh p3 vm where run: "\<forall>i\<in>set [5, 9]. gennaro_Round1 ?E (?p i) = Inr (o1 i, u i, p1 i) \<and>
    gennaro_Round2 ?E (p1 i) (from_others [5, 9] i (\<lambda>j. Some (o1 j))) (from_others [5, 9] i (\<lambda>j. Some (map_of (u j) i))) = Inr (o2 i, p2 i) \<and>
    gennaro_Round3 ?E (p2 i) (from_others [5, 9] i (\<lambda>j. Some (o2 j))) = Inr (sh i, p3 i) \<and> gb_VerificationVector (o2 i) = Some (vm i) \<and> mat_wf (vv_value (vm i))"
    by (rule gennaro_session_runs [OF ses])
  have party: "gennaro_party ?E field_group m gennaro_example_key [5, 9] i (?p i) (from_others [5, 9] i (\<lambda>j. Some (o1 j)))
      (from_others [5, 9] i (\<lambda>j. Some (map_of (u j) i))) (from_others [5, 9] i (\<lambda>j. Some (o2 j))) (vm i) (sh i)" if "i \<in> {5, 9}" for i
    using run that by (auto simp: gennaro_party_def gennaro_run_def gennaro_state_def gennaro_example_party_def gennaro_example_key_def)
  have b: "(\<exists>pr. from_others [5, 9] i (\<lambda>j. Some (o2 j)) j = Some (Some \<lparr>gb_VerificationVector = Some (vm j), gb_Proof = pr\<rparr>)) \<and> mat_wf (vv_value (vm j))"
    if "i \<in> {5, 9}" "j \<in> set [5, 9]" "j \<noteq> i" for i j
    using run that by (cases "o2 j") (auto simp: from_others_def)
  have q: "distinct [5 :: ID, 9]" "set [5, 9] = msp_holders m" "{5, 9} \<subseteq> set [5 :: ID, 9]" using ex(2) by simp_all
  from gennaro_correct [where vm = vm and sh = sh and ?b2.0 = "\<lambda>i. from_others [5, 9] i (\<lambda>j. Some (o2 j))", OF field_group ex(1) q party b]
  obtain x where x: "\<And>i. i \<in> {5, 9} \<Longrightarrow> bpm_pkValue (bs_public (sh i)) = ScalarOp field_group (Generator field_group) x \<and>
      bpm_pkValue (bs_public (sh i)) = (\<Sum>j\<in>set [5, 9]. ent (vv_value (vm j)) 0 0) \<and>
      ent (vv_value (vm i)) 0 0 = ScalarOp field_group (Generator field_group) (hd (gp_prng (?p i)))"
    and rec: "\<And>ids. distinct ids \<and> set ids \<subseteq> {5, 9} \<and> Accepts m ids \<longrightarrow> kw_Reconstruct \<lparr>kw_msp = m\<rparr> (map (\<lambda>i. Some (bs_share (sh i))) ids) = Inr x" by blast
  have "x = 5" "bpm_pkValue (bs_public (sh 5)) = 5" "bpm_pkValue (bs_public (sh 9)) = 5"
    using x [of 5] x [of 9] by (simp_all add: field_group_def gennaro_example_party_def)
  moreover have "kw_Reconstruct \<lparr>kw_msp = m\<rparr> [Some (bs_share (sh 5)), Some (bs_share (sh 9))] = Inr x" using rec [of "[5, 9]"] ex(3) by simp
  ultimately show ?thesis using m party [of 5, simplified] party [of 9, simplified] by blast
qed

end
