(* ===== verification/Spec2Isabelle.thy ===== *)
theory Spec2Isabelle
  imports Shamir Hierarchical ZeroShare HJKY SigmaCompose MatrixTypes AOR GennaroRuns
begin

text \<open>
  \<^bold>\<open>A verification development of bron-crypto: secret sharing, proofs of knowledge and the protocols on top of them.\<close>

  The library (Go, under \<open>src/pkg\<close>) implements multi-party computation over arbitrary monotone access structures. An access structure says which
  coalitions are qualified; linear algebra over a prime field turns it into a monotone span programme; secret sharing schemes deal and reconstruct
  with that programme; verifiable sharing publishes commitments to what was dealt; sigma protocols prove knowledge of what was committed; and the
  protocols let parties that exchange messages over a router set up a session, agree on randomness, share zero and hold shards of a key. This development
  models that core, from the slice helpers up to the protocol rounds, and proves what each part promises to the next one.

  \<^bold>\<open>Conventions.\<close> A fallible Go function returns \<open>err + 'a\<close> (\<open>res\<close>): \<open>Inl\<close> carries the sentinel error, \<open>Inl Panic\<close> is a panic that leaves the function,
  \<open>Blame id e\<close> an error tagged with the party it accuses. A pointer or interface that may be nil is an \<open>option\<close>. Machine integers are \<open>64 word\<close> or, for \<open>int\<close>,
  integers with \<open>wrap64\<close>; identifiers are \<open>64 word\<close>; bytes are \<open>8 word\<close>. A struct is a record, a struct with one field is its field value, a Go map an association
  list or a partial map. The prime field is a type of class \<open>field\<close>, a group of prime order a type of class \<open>ab_group_add\<close> with a record
  \<open>PrimeGroup\<close> that satisfies \<open>prime_group\<close>. A reader of random bytes is the list of the samples it will still deliver; an exhausted list is
  the error \<open>ErrPrng\<close>. Code outside the repository, and curve arithmetic, enters as parameters: hash functions, the sponge (\<open>xof\<close>), CBOR codecs, the encodings of
  elements, the torsion test, the transport. Goroutines of an error group run in the order of their indices.

  \<^bold>\<open>Theories and sources.\<close>
  \<^item> \<open>Prelude\<close>: errors, results, machine integers, loops as folds. \<open>Sliceutils\<close>, \<open>Algebrautils\<close>, \<open>Mathutils\<close>, \<open>CT\<close>, \<open>Subtle\<close>: \<open>base/utils\<close> (combinations, scalar
    multiplication, multi-scalar multiplication, uniform sampling, logarithms), \<open>base/ct\<close>, \<open>crypto/subtle\<close>. Optimised routines are shown equal to their
    definitions, the integer square root and the samplers meet their bounds.
  \<^item> \<open>Hashset\<close>, \<open>Bitset\<close>: \<open>base/datastructures\<close>, each refining sets.
  \<^item> \<open>Matrix\<close>, \<open>MatrixTypes\<close>, \<open>Solver\<close>: \<open>base/mat\<close>. Row-major matrices and module-valued matrices keep their shape under every operation; Gaussian elimination solves exactly the
    solvable systems.
  \<^item> \<open>Polynomials\<close>, \<open>ModulePolynomials\<close>, \<open>Interpolation\<close>: \<open>base/polynomials\<close>. Evaluation is a homomorphism, Euclidean division terminates with the division property,
    lifting to the exponent commutes with everything, Lagrange and Vandermonde interpolation agree.
  \<^item> \<open>Monotone\<close>, \<open>Threshold\<close>, \<open>CNF\<close>, \<open>Hierarchical\<close>, \<open>HierarchicalMSP\<close>, \<open>BoolExpr\<close>, \<open>InducedMSP\<close>, \<open>MSP\<close>: \<open>mpc/sharing/accessstructures\<close> and \<open>scheme/kw/msp\<close>. A span programme accepts
    the coalitions whose rows span the target; the programmes induced by threshold, CNF and boolean structures accept exactly the qualified coalitions;
    the programme of a hierarchical structure has the rows of the Birkhoff matrix.
  \<^item> \<open>Sharing\<close>, \<open>Additive\<close>, \<open>KW\<close>, \<open>Shamir\<close>: \<open>mpc/sharing\<close>. The locale \<open>sss\<close> is the scheme interface and \<open>lsss\<close> its linear extension; the schemes interpret them. Dealt shares
    reconstruct, unqualified ones are independent of the secret, conversions to additive shares add up to it.
  \<^item> \<open>PrimeGroup\<close>, \<open>Commitments\<close>, \<open>Feldman\<close>, \<open>PedersenVSS\<close>: \<open>commitments\<close> and \<open>mpc/sharing/vss\<close>, over the locales of commitment keys and of verifiable sharing
    (\<open>vss\<close>). Verification accepts exactly the dealt shares and binds the dealer.
  \<^item> \<open>Network\<close>, \<open>Echo\<close>: \<open>network\<close>. The router buffers and matches messages; the echo broadcast gives agreement with corrupted parties and delivers for honest ones.
  \<^item> \<open>Transcripts\<close>, \<open>Session\<close>, \<open>ZeroShare\<close>: \<open>transcripts\<close>, \<open>commitments/hashcom\<close>, \<open>mpc/session\<close>, \<open>mpc/zero/przs\<close>. The transcript encoding is injective, honest parties end a set-up
    with the same session, their pseudorandom shares of zero cancel.
  \<^item> \<open>AOR\<close>: \<open>mpc/aor\<close>, agreement on randomness: agreement, binding, and what a copied commitment achieves.
  \<^item> \<open>Shards\<close>, \<open>HJKY\<close>: \<open>mpc/base.go\<close>, \<open>mpc/dkg/trusteddealer\<close>, \<open>mpc/zero/hjky\<close>: a shard is a verified share, zero sharing adds up to zero.
  \<^item> \<open>Gennaro\<close>, \<open>GennaroRuns\<close>: \<open>mpc/dkg/gennaro\<close> and the dispatch of \<open>proofs/sigma/compiler\<close>: distributed key generation with proofs of knowledge. Honest parties complete, and
    parties that complete hold shards of one key, whatever the others do.
  \<^item> \<open>Sigma\<close>, \<open>Maurer\<close>, \<open>BatchSchnorr\<close>, \<open>SigmaCompose\<close>: \<open>proofs\<close>. The locales \<open>complete_protocol\<close>, \<open>sigma_protocol\<close> and \<open>special_sound\<close> are the laws of the interface; proofs of a
    homomorphism preimage (discrete logarithm, representation), batched discrete logarithms and conjunctions and disjunctions satisfy them, and the
    Fiat-Shamir compiler is complete for every instance.

  \<^bold>\<open>Termination, bounds.\<close> Loops are structural or have a measure. Two loops have no evident one and are \<open>partial_function (option)\<close>, with \<open>None\<close> for a run that does
  not end: polynomial division and the conversion of a boolean expression to a programme; \<open>EuclideanDiv_correct\<close> and the lemmas of \<open>BoolExpr\<close> show that they return on every
  input. Operations that contain the conversion therefore return an \<open>option\<close>. A transport delivers a finite list of messages, so waiting on
  it ends in \<open>ErrTransport\<close>; the liveness properties say when the messages asked for arrive first. There is no fuel. Dimensions of matrices are natural numbers: the
  model is that of the code for matrices of fewer than \<open>2 ^ 63\<close> entries.

  \<^bold>\<open>Not modelled.\<close> Curve and field arithmetic (\<open>base/curves\<close>, mostly generated) and big-number arithmetic (\<open>base/nt\<close>, bound to C libraries); serialisation formats;
  the floating point comparison in the admissibility test of hierarchical structures (its outcome is the field \<open>exceedsOrder\<close> of the prime field, and the properties hold for every outcome),
  Birkhoff interpolation by determinants and the Tassa and ISN schemes; that hierarchical programmes accept exactly the qualified coalitions rests on a theorem about
  determinants over large fields and is not proved;
  the Fischlin compilers (parameters of the dispatch), the Paillier and ElGamal proofs and the cartesian compositions; encryption, hashing, key agreement, single-party signatures, oblivious
  transfer; the signing and the remaining key protocols of \<open>pkg/mpc\<close>. The properties below this header combine the components; the others stand in the
  theories of their components.
\<close>

section \<open>Sharing over an access structure, end to end\<close>

text \<open>C1. Threshold sharing, end to end: for a threshold structure accepted by its constructor, over a field in which
  the identifiers are distinct and non-zero, the induced span programme exists and the scheme over it deals every
  secret; any coalition of at least \<open>t\<close> shareholders reconstructs the secret and any smaller one gets an error.\<close>

theorem threshold_sharing:
  fixes secret :: "'a::field"
  assumes "NewThresholdAccessStructure t (Some ps) = Inr a" "hs_wf ps"
    and "inj_on (FromUint64 :: ID \<Rightarrow> 'a) (set ps)" "\<forall>p\<in>set ps. FromUint64 p \<noteq> (0 :: 'a)"
  shows "\<exists>m. Threshold_InducedMSP (Some ()) (Some a) = Inr m \<and>
    (\<forall>prng. mcols (msp_matrix m) \<le> length prng \<longrightarrow> (\<exists>shares rest.
      kw_Deal \<lparr>kw_msp = m\<rparr> (Some secret) (Some prng) = Inr (shares, rest) \<and>
      (\<forall>ids. ids \<noteq> [] \<and> distinct ids \<and> set ids \<subseteq> set ps \<longrightarrow>
        kw_Reconstruct \<lparr>kw_msp = m\<rparr> (map (map_of shares) ids) = (if t \<le> length ids then Inr secret else Inl ErrFailed))))"
proof -
  from assms(1,2) have wf: "Threshold_wf a" and a: "th_ps a = ps" "th_t a = t"
    by (auto simp: NewThresholdAccessStructure_def Threshold_wf_def split: if_splits)
  have adm: "nodes_admissible TYPE('a) (set (th_ps a))" using assms(3,4) by (auto simp: nodes_admissible_def a)
  have q: "Threshold_IsQualified a ids \<longleftrightarrow> t \<le> length ids" if "distinct ids" "set ids \<subseteq> set ps" for ids
    using that by (simp add: Threshold_IsQualified_def a distinct_card)
  from threshold_linear.kw_sharing [OF wf adm, of secret] obtain m where m: "Threshold_InducedMSP (Some ()) (Some a) = Inr m"
    and sharing: "\<And>prng. mcols (msp_matrix m) \<le> length prng \<Longrightarrow> \<exists>shares rest.
      kw_Deal \<lparr>kw_msp = m\<rparr> (Some secret) (Some prng) = Inr (shares, rest) \<and>
      (\<forall>ids. ids \<noteq> [] \<and> distinct ids \<and> set ids \<subseteq> set (Threshold_Shareholders a) \<longrightarrow>
        kw_Reconstruct \<lparr>kw_msp = m\<rparr> (map (map_of shares) ids) = (if Threshold_IsQualified a ids then Inr secret else Inl ErrFailed))"
    by blast
  show ?thesis
  proof (intro exI [of _ m] conjI allI impI)
    fix prng :: "'a list"
    assume "mcols (msp_matrix m) \<le> length prng"
    from sharing [OF this] obtain shares rest where deal: "kw_Deal \<lparr>kw_msp = m\<rparr> (Some secret) (Some prng) = Inr (shares, rest)"
      and rec: "\<And>ids. ids \<noteq> [] \<Longrightarrow> distinct ids \<Longrightarrow> set ids \<subseteq> set ps \<Longrightarrow>
        kw_Reconstruct \<lparr>kw_msp = m\<rparr> (map (map_of shares) ids) = (if Threshold_IsQualified a ids then Inr secret else Inl ErrFailed)"
      by (auto simp: Threshold_Shareholders_def a)
    with q show "\<exists>shares rest. kw_Deal \<lparr>kw_msp = m\<rparr> (Some secret) (Some prng) = Inr (shares, rest) \<and>
      (\<forall>ids. ids \<noteq> [] \<and> distinct ids \<and> set ids \<subseteq> set ps \<longrightarrow>
        kw_Reconstruct \<lparr>kw_msp = m\<rparr> (map (map_of shares) ids) = (if t \<le> length ids then Inr secret else Inl ErrFailed))"
      by (intro exI [of _ shares] exI [of _ rest]) simp
  qed (rule m)
qed

theorem threshold_sharing_witness:
  "\<exists>m. (Threshold_InducedMSP (Some ()) (Some \<lparr>th_t = 2, th_ps = [4, 1, 7]\<rparr>) :: rat MSP res) = Inr m \<and>
    (\<forall>prng. mcols (msp_matrix m) \<le> length prng \<longrightarrow> (\<exists>shares rest.
      kw_Deal \<lparr>kw_msp = m\<rparr> (Some 42) (Some prng) = Inr (shares, rest) \<and>
      kw_Reconstruct \<lparr>kw_msp = m\<rparr> (map (map_of shares) [7, 4]) = Inr 42 \<and>
      kw_Reconstruct \<lparr>kw_msp = m\<rparr> (map (map_of shares) [1]) = Inl ErrFailed))"
proof -
  have a: "NewThresholdAccessStructure 2 (Some [4, 1, 7]) = Inr \<lparr>th_t = 2, th_ps = [4, 1, 7]\<rparr>" "hs_wf [4, 1, 7 :: ID]"
    "inj_on (FromUint64 :: ID \<Rightarrow> rat) (set [4, 1, 7])" "\<forall>p\<in>set [4, 1, 7]. FromUint64 p \<noteq> (0 :: rat)"
    by (simp_all add: NewThresholdAccessStructure_def hs_wf_def hs_Contains_def hs_Size_def FromUint64_def inj_on_def)
  have ids: "[7, 4 :: ID] \<noteq> [] \<and> distinct [7, 4 :: ID] \<and> set [7, 4] \<subseteq> set [4, 1, 7 :: ID]"
    "[1 :: ID] \<noteq> [] \<and> distinct [1 :: ID] \<and> set [1] \<subseteq> set [4, 1, 7 :: ID]"
    and len: "(2 :: nat) \<le> length [7, 4 :: ID]" "\<not> (2 :: nat) \<le> length [1 :: ID]" by simp_all
  from threshold_sharing [OF a, of 42] obtain m where m: "(Threshold_InducedMSP (Some ()) (Some \<lparr>th_t = 2, th_ps = [4, 1, 7]\<rparr>) :: rat MSP res) = Inr m"
    and sh: "\<And>prng. mcols (msp_matrix m) \<le> length prng \<Longrightarrow> \<exists>shares rest.
      kw_Deal \<lparr>kw_msp = m\<rparr> (Some 42) (Some prng) = Inr (shares, rest) \<and>
      (\<forall>ids. ids \<noteq> [] \<and> distinct ids \<and> set ids \<subseteq> set [4, 1, 7] \<longrightarrow>
        kw_Reconstruct \<lparr>kw_msp = m\<rparr> (map (map_of shares) ids) = (if 2 \<le> length ids then Inr 42 else Inl ErrFailed))"
    by blast
  show ?thesis
  proof (intro exI [of _ m] conjI allI impI)
    fix prng :: "rat list"
    assume "mcols (msp_matrix m) \<le> length prng"
    from sh [OF this] ids len show "\<exists>shares rest. kw_Deal \<lparr>kw_msp = m\<rparr> (Some 42) (Some prng) = Inr (shares, rest) \<and>
      kw_Reconstruct \<lparr>kw_msp = m\<rparr> (map (map_of shares) [7, 4]) = Inr 42 \<and>
      kw_Reconstruct \<lparr>kw_msp = m\<rparr> (map (map_of shares) [1]) = Inl ErrFailed" by meson
  qed (rule m)
qed

text \<open>C36. CNF sharing hides the secret: for a CNF structure the span programme supports, every coalition the structure
  does not qualify gets, for any two secrets, the same shares up to a translation of the samples.\<close>

theorem cnf_hiding:
  fixes secret :: "'a::field" and secret' :: 'a
  assumes "CNF_wf c" "CNF_fits c" "cnf_relevant c = set (cnf_shareholders c)"
    and "set ids \<subseteq> set (cnf_shareholders c)" "\<not> CNF_IsQualified (Some c) ids"
  shows "\<exists>m. CNF_InducedMSP (Some ()) (Some c) = Inr m \<and> (\<exists>\<delta>. \<forall>prng. mcols (msp_matrix m) \<le> length prng \<longrightarrow> (\<exists>shares shares' rest.
    kw_Deal \<lparr>kw_msp = m\<rparr> (Some secret) (Some prng) = Inr (shares, rest) \<and>
    kw_Deal \<lparr>kw_msp = m\<rparr> (Some secret') (Some (prng_shift \<delta> prng)) = Inr (shares', rest) \<and>
    (\<forall>i\<in>set ids. map_of shares i = map_of shares' i)))"
  using assms by (intro cnf_linear.kw_hiding) (simp_all add: CNF_Shareholders_def)

theorem cnf_hiding_witness:
  "\<exists>m \<delta>. (CNF_InducedMSP (Some ()) (Some \<lparr>cnf_shareholders = [1, 2, 3], cnf_maximalUnqualifiedSets = [[1, 2], [3]]\<rparr>) :: rat MSP res) = Inr m \<and>
    (\<forall>prng. mcols (msp_matrix m) \<le> length prng \<longrightarrow> (\<exists>shares shares' rest.
      kw_Deal \<lparr>kw_msp = m\<rparr> (Some 42) (Some prng) = Inr (shares, rest) \<and>
      kw_Deal \<lparr>kw_msp = m\<rparr> (Some 7) (Some (prng_shift \<delta> prng)) = Inr (shares', rest) \<and>
      (\<forall>i\<in>set [2]. map_of shares i = map_of shares' i)))"
proof -
  let ?c = "\<lparr>cnf_shareholders = [1, 2, 3], cnf_maximalUnqualifiedSets = [[1, 2], [3]]\<rparr> :: CNF"
  have "CNF_wf ?c" unfolding CNF_wf_def by (auto simp: hs_wf_def hs_Size_def)
  moreover have "CNF_fits ?c" by (simp add: CNF_fits_def)
  moreover have "cnf_relevant ?c = set (cnf_shareholders ?c)" by (auto simp: cnf_relevant_def)
  moreover have "set [2] \<subseteq> set (cnf_shareholders ?c)" by simp
  moreover have "\<not> CNF_IsQualified (Some ?c) [2]" by (simp add: CNF_IsQualified_auth cnf_auth_def)
  ultimately show ?thesis using cnf_hiding [of ?c "[2]" "42 :: rat" 7] by blast
qed

end
